(* ===== verification/Prelude.thy ===== *)
theory Prelude
  imports Main "HOL-Library.Word"
begin

text \<open>
  Shared ground of the development: the type synonyms of Rust's integers, a value type
  for computations that may panic (\<open>'a run\<close>), bounds-checked reads of byte buffers, and
  big-endian encodings with their round trips.  The two collections \<open>run_simps\<close> and
  \<open>be_simps\<close> hold the facts the component proofs pass to the simplifier.
\<close>

named_theorems run_simps \<open>evaluation of reads and of panicking computations\<close>
named_theorems be_simps \<open>big-endian encodings\<close>

type_synonym u8 = "8 word"
type_synonym u16 = "16 word"
type_synonym u32 = "32 word"
type_synonym u64 = "64 word"
type_synonym byte = "8 word"
type_synonym bytes = "8 word list"

section \<open>Computations that may panic\<close>

text \<open>
  Rust's slice indexing panics out of range.  A function that indexes is modelled with a
  result of type \<open>'a run\<close>: \<open>Panic\<close> where the Rust code would unwind, \<open>Ret\<close> otherwise.
\<close>

datatype 'a run = Panic | Ret 'a

fun bind_run :: "'a run \<Rightarrow> ('a \<Rightarrow> 'b run) \<Rightarrow> 'b run" where
  "bind_run Panic f = Panic"
| "bind_run (Ret x) f = f x"

fun map_run :: "('a \<Rightarrow> 'b) \<Rightarrow> 'a run \<Rightarrow> 'b run" where
  "map_run f Panic = Panic"
| "map_run f (Ret x) = Ret (f x)"

declare bind_run.simps [run_simps] map_run.simps [run_simps]

lemma bind_run_Ret_iff: "bind_run r f = Ret y \<longleftrightarrow> (\<exists>x. r = Ret x \<and> f x = Ret y)"
  by (cases r) auto

text \<open>\<open>rd buf i k\<close> is \<open>buf[i]\<close> handed to the rest of the function \<open>k\<close>.\<close>

definition rd :: "'b list \<Rightarrow> nat \<Rightarrow> ('b \<Rightarrow> 'a run) \<Rightarrow> 'a run" where
  "rd buf i k = (if i < length buf then k (buf ! i) else Panic)"

lemma rd_in [run_simps]: "i < length buf \<Longrightarrow> rd buf i k = k (buf ! i)"
  by (simp add: rd_def)

text \<open>\<open>sl buf a b k\<close> is the slice \<open>&buf[a..b]\<close>, which panics unless \<open>a \<le> b \<le> len\<close>.\<close>

definition sl :: "'b list \<Rightarrow> nat \<Rightarrow> nat \<Rightarrow> ('b list \<Rightarrow> 'a run) \<Rightarrow> 'a run" where
  "sl buf a b k = (if a \<le> b \<and> b \<le> length buf then k (take (b - a) (drop a buf)) else Panic)"

lemma sl_in [run_simps]:
  "a \<le> b \<Longrightarrow> b \<le> length buf \<Longrightarrow> sl buf a b k = k (take (b - a) (drop a buf))"
  by (simp add: sl_def)

text \<open>\<open>slice::get\<close> on an index and on a range: \<open>None\<close> out of range.\<close>

definition get_at :: "'b list \<Rightarrow> nat \<Rightarrow> 'b option" where
  "get_at buf i = (if i < length buf then Some (buf ! i) else None)"

definition get_range :: "'b list \<Rightarrow> nat \<Rightarrow> nat \<Rightarrow> 'b list option" where
  "get_range buf a b = (if a \<le> b \<and> b \<le> length buf then Some (take (b - a) (drop a buf)) else None)"

lemma get_at_Some_iff: "get_at buf i = Some x \<longleftrightarrow> i < length buf \<and> x = buf ! i"
  by (auto simp: get_at_def)

lemma get_at_None_iff: "get_at buf i = None \<longleftrightarrow> length buf \<le> i"
  by (auto simp: get_at_def)

lemma get_range_Some_iff:
  "get_range buf a b = Some xs \<longleftrightarrow> a \<le> b \<and> b \<le> length buf \<and> xs = take (b - a) (drop a buf)"
  by (auto simp: get_range_def)

lemma get_range_length: "get_range buf a b = Some xs \<Longrightarrow> length xs = b - a"
  by (auto simp: get_range_Some_iff)

section \<open>Writing into buffers\<close>

text \<open>\<open>buf[i..i + xs.len()].copy_from_slice(xs)\<close>; the sources only write constant ranges
  of buffers of constant size, so the panic of an out-of-range copy cannot occur.\<close>

definition put :: "nat \<Rightarrow> 'a list \<Rightarrow> 'a list \<Rightarrow> 'a list" where
  "put i xs buf = take i buf @ xs @ drop (i + length xs) buf"

lemma length_put [simp]: "i + length xs \<le> length buf \<Longrightarrow> length (put i xs buf) = length buf"
  by (simp add: put_def)

text \<open>A buffer written field by field is the concatenation of its fields.\<close>

lemma put_skip: "length pre \<le> i \<Longrightarrow> put i xs (pre @ post) = pre @ put (i - length pre) xs post"
  by (simp add: put_def)

lemma put_skip1: "0 < i \<Longrightarrow> put i xs (a # post) = a # put (i - 1) xs post"
  by (cases i) (simp_all add: put_def)

lemma put_here: "length xs \<le> length mid \<Longrightarrow> put 0 xs (mid @ post) = xs @ drop (length xs) mid @ post"
  by (simp add: put_def)

lemma put_here_last: "length xs \<le> length mid \<Longrightarrow> put 0 xs mid = xs @ drop (length xs) mid"
  by (simp add: put_def)

lemma sl_append:
  "a = length pre \<Longrightarrow> b = a + length xs \<Longrightarrow> sl (pre @ xs @ post) a b k = k xs"
  by (simp add: sl_def)

lemma get_range_append:
  "a = length pre \<Longrightarrow> b = a + length xs \<Longrightarrow> get_range (pre @ xs @ post) a b = Some xs"
  by (simp add: get_range_def)

section \<open>Computations that may fail\<close>

text \<open>The question mark of Rust on a \<open>Result\<close>, and \<open>map_err\<close>.\<close>

fun bind_result :: "'e + 'a \<Rightarrow> ('a \<Rightarrow> 'e + 'c) \<Rightarrow> 'e + 'c" where
  "bind_result (Inl e) f = Inl e"
| "bind_result (Inr x) f = f x"

fun map_err :: "('e \<Rightarrow> 'f) \<Rightarrow> 'e + 'a \<Rightarrow> 'f + 'a" where
  "map_err f (Inl e) = Inl (f e)"
| "map_err f (Inr x) = Inr x"

lemma bind_result_Inr_iff: "bind_result r f = Inr y \<longleftrightarrow> (\<exists>x. r = Inr x \<and> f x = Inr y)"
  by (cases r) auto

lemma bind_result_Inl_iff: "bind_result r f = Inl e \<longleftrightarrow> r = Inl e \<or> (\<exists>x. r = Inr x \<and> f x = Inl e)"
  by (cases r) auto

lemma map_err_Inr_iff [simp]: "map_err f r = Inr x \<longleftrightarrow> r = Inr x"
  by (cases r) auto

section \<open>Big-endian bytes\<close>

text \<open>
  \<open>be_val\<close> reads a byte string as a big-endian number; \<open>be_bytes n v\<close> writes the low \<open>n\<close>
  bytes of \<open>v\<close>.  \<open>uN::from_be_bytes\<close> and \<open>to_be_bytes\<close> are these at fixed widths.
\<close>

fun be_val :: "bytes \<Rightarrow> nat" where
  "be_val [] = 0"
| "be_val (b # bs) = unat b * 256 ^ length bs + be_val bs"

fun be_bytes :: "nat \<Rightarrow> nat \<Rightarrow> bytes" where
  "be_bytes 0 v = []"
| "be_bytes (Suc n) v = word_of_nat (v div 256 ^ n) # be_bytes n v"

definition from_be :: "bytes \<Rightarrow> 'a::len word" where
  "from_be bs = word_of_nat (be_val bs)"

abbreviation be16 :: "byte \<Rightarrow> byte \<Rightarrow> u16" where
  "be16 a b \<equiv> from_be [a, b]"

abbreviation to_be16 :: "u16 \<Rightarrow> bytes" where "to_be16 w \<equiv> be_bytes 2 (unat w)"
abbreviation to_be32 :: "u32 \<Rightarrow> bytes" where "to_be32 w \<equiv> be_bytes 4 (unat w)"

lemma length_be_bytes [simp, be_simps]: "length (be_bytes n v) = n"
  by (induction n) auto

lemma be_bytes_numeral:
  "be_bytes (numeral k) v = word_of_nat (v div 256 ^ pred_numeral k) # be_bytes (pred_numeral k) v"
  by (simp add: numeral_eq_Suc)

lemma unat_byte_lt [simp]: "unat (b :: byte) < 256"
  using unsigned_less [of b] by simp

lemma unat_byte_le [simp]: "unat (b :: byte) \<le> 255"
  using unat_byte_lt [of b] by linarith

lemma be_val_lt: "be_val bs < 256 ^ length bs"
proof (induction bs)
  case Nil
  then show ?case by simp
next
  case (Cons b bs)
  have "unat b * 256 ^ length bs + be_val bs < unat b * 256 ^ length bs + 256 ^ length bs"
    using Cons by simp
  also have "\<dots> = (unat b + 1) * 256 ^ length bs" by (simp add: algebra_simps)
  also have "\<dots> \<le> 256 * 256 ^ length bs"
    using unat_byte_lt [of b] by (intro mult_right_mono) linarith+
  finally show ?case by simp
qed

lemma be_val_append: "be_val (xs @ ys) = be_val xs * 256 ^ length ys + be_val ys"
  by (induction xs) (auto simp: algebra_simps power_add)

lemma be_val_be_bytes [be_simps]: "be_val (be_bytes n v) = v mod 256 ^ n"
proof (induction n)
  case 0
  then show ?case by simp
next
  case (Suc n)
  have "unat (word_of_nat (v div 256 ^ n) :: byte) = v div 256 ^ n mod 256"
    by (simp add: unat_of_nat)
  then have "be_val (be_bytes (Suc n) v) = v div 256 ^ n mod 256 * 256 ^ n + v mod 256 ^ n"
    using Suc by simp
  also have "\<dots> = v mod 256 ^ Suc n"
    using mod_mult2_eq [of v "256 ^ n" 256] by (simp add: algebra_simps)
  finally show ?case .
qed

lemma be_val_inj: "length xs = length ys \<Longrightarrow> be_val xs = be_val ys \<Longrightarrow> xs = ys"
proof (induction xs ys rule: list_induct2)
  case Nil
  then show ?case by simp
next
  case (Cons x xs y ys)
  let ?k = "256 ^ length ys :: nat"
  have x: "be_val (x # xs) div ?k = unat x" and xs: "be_val (x # xs) mod ?k = be_val xs"
    using Cons.hyps be_val_lt [of xs] by simp_all
  have y: "be_val (y # ys) div ?k = unat y" and ys: "be_val (y # ys) mod ?k = be_val ys"
    using be_val_lt [of ys] by simp_all
  from x y xs ys Cons.prems have "unat x = unat y" "be_val xs = be_val ys" by metis+
  with Cons.IH show ?case by (simp add: word_unat_eq_iff)
qed

lemma be_bytes_be_val [be_simps]: "length bs = n \<Longrightarrow> be_bytes n (be_val bs) = bs"
  using be_val_lt [of bs] by (intro be_val_inj) (auto simp: be_simps)

lemma be_bytes_mod: "be_bytes n (v mod 256 ^ n) = be_bytes n v"
  by (rule be_val_inj) (simp_all add: be_simps)

text \<open>Round trips of the fixed-width encodings.\<close>

lemma unat_lt_2p: "unat (w :: 'a::len word) < 2 ^ LENGTH('a)"
  by (rule unsigned_less)

lemma from_be_to_be16 [be_simps]: "from_be (to_be16 w) = w"
proof -
  have "unat w < 256 ^ 2" using unat_lt_2p [of w] by simp
  then show ?thesis unfolding from_be_def be_val_be_bytes by simp
qed

lemma from_be_to_be32 [be_simps]: "from_be (to_be32 w) = w"
proof -
  have "unat w < 256 ^ 4" using unat_lt_2p [of w] by simp
  then show ?thesis unfolding from_be_def be_val_be_bytes by simp
qed

lemma unat_from_be: "be_val bs < 2 ^ LENGTH('a) \<Longrightarrow> unat (from_be bs :: 'a::len word) = be_val bs"
  by (simp add: from_be_def unat_of_nat)

lemma be16_unat: "unat (be16 a b) = unat a * 256 + unat b"
proof -
  have "be_val [a, b] < 2 ^ LENGTH(16)"
    using be_val_lt [of "[a, b]"] by simp
  from unat_from_be [OF this] show ?thesis by simp
qed

section \<open>Saturating counters\<close>

definition sat_add64 :: "u64 \<Rightarrow> u64 \<Rightarrow> u64" where
  "sat_add64 a b = (if unat a + unat b < 2 ^ 64 then a + b else - 1)"

lemma unat_sat_add64: "unat (sat_add64 a b) = min (unat a + unat b) (2 ^ 64 - 1)"
proof (cases "unat a + unat b < 2 ^ 64")
  case True
  then show ?thesis by (simp add: sat_add64_def unat_word_ariths(1))
next
  case False
  have "unat (- 1 :: u64) = 2 ^ 64 - 1" by (simp add: unsigned_minus_1_eq_mask mask_eq_exp_minus_1)
  with False show ?thesis by (simp add: sat_add64_def)
qed

lemma sat_add64_assoc: "sat_add64 (sat_add64 a b) c = sat_add64 a (sat_add64 b c)"
  by (rule word_unat_eq_iff [THEN iffD2]) (simp add: unat_sat_add64)

lemma sat_add64_0 [simp]: "sat_add64 a 0 = a"
  using unat_lt_2p [of a] by (simp add: sat_add64_def)

section \<open>Stores addressed by a key\<close>

text \<open>
  The contract that the engine's rule set, its table on disk and the worker's maps share: a
  value is stored under its own key, replaces what was there, and nothing else changes.
\<close>

locale keyed_store =
  fixes valid :: "'s \<Rightarrow> bool"
    and key_of :: "'v \<Rightarrow> 'k"
    and find_in :: "'s \<Rightarrow> 'k \<Rightarrow> 'v option"
    and put_in :: "'v \<Rightarrow> 's \<Rightarrow> 's"
    and delete_from :: "'k \<Rightarrow> 's \<Rightarrow> 's"
  assumes valid_put: "valid s \<Longrightarrow> valid (put_in v s)"
    and valid_delete: "valid s \<Longrightarrow> valid (delete_from k s)"
    and find_put: "valid s \<Longrightarrow> find_in (put_in v s) k = (if k = key_of v then Some v else find_in s k)"
    and find_delete: "valid s \<Longrightarrow> find_in (delete_from k s) k' = (if k' = k then None else find_in s k')"
begin

fun apply_edit :: "'v + 'k \<Rightarrow> 's \<Rightarrow> 's" where
  "apply_edit (Inl v) s = put_in v s"
| "apply_edit (Inr k) s = delete_from k s"

definition apply_edits :: "('v + 'k) list \<Rightarrow> 's \<Rightarrow> 's" where
  "apply_edits es s = fold apply_edit es s"

lemma apply_edits_simps [simp]:
  "apply_edits [] s = s" "apply_edits (e # es) s = apply_edits es (apply_edit e s)"
  by (simp_all add: apply_edits_def)

lemma valid_apply_edit: "valid s \<Longrightarrow> valid (apply_edit e s)"
  by (cases e) (simp_all add: valid_put valid_delete)

lemma valid_apply_edits: "valid s \<Longrightarrow> valid (apply_edits es s)"
  by (induction es arbitrary: s) (simp_all add: valid_apply_edit)

lemma find_apply_edit:
  "valid s \<Longrightarrow> find_in (apply_edit e s) k =
     (case e of Inl v \<Rightarrow> if k = key_of v then Some v else find_in s k
      | Inr k' \<Rightarrow> if k = k' then None else find_in s k)"
  by (cases e) (simp_all add: find_put find_delete)

text \<open>What a store answers after a history of edits is decided by the last edit of that key.\<close>

fun last_edit :: "('v + 'k) list \<Rightarrow> 'k \<Rightarrow> 'v option option" where
  "last_edit [] k = None"
| "last_edit (e # es) k =
     (case last_edit es k of
        Some res \<Rightarrow> Some res
      | None \<Rightarrow> (case e of Inl v \<Rightarrow> if k = key_of v then Some (Some v) else None
                 | Inr k' \<Rightarrow> if k = k' then Some None else None))"

lemma find_apply_edits:
  "valid s \<Longrightarrow> find_in (apply_edits es s) k =
     (case last_edit es k of None \<Rightarrow> find_in s k | Some res \<Rightarrow> res)"
proof (induction es arbitrary: s)
  case (Cons e es)
  have "valid (apply_edit e s)" by (rule valid_apply_edit [OF Cons.prems])
  from Cons.IH [OF this] show ?case
    by (simp add: find_apply_edit [OF Cons.prems] split: option.split sum.split)
qed simp

end

end
