(* ===== verification/Texts.thy ===== *)
theory Texts
  imports Prelude
begin

text \<open>
  What the sources use of Rust's strings: trimming, splitting, decimal and hexadecimal numbers,
  prefixes, and lossy decoding of bytes.  None of it is code of the repository.
\<close>

section \<open>White space and case\<close>

text \<open>
  A Rust string is its UTF-8 bytes.  \<open>str::trim\<close> strips Unicode white space: the ASCII
  blanks, U+0085, U+00A0, U+1680, U+2000 to U+200A, U+2028, U+2029, U+202F, U+205F and
  U+3000, each recognised by its encoding.
\<close>

abbreviation code :: "char \<Rightarrow> nat" where "code c \<equiv> of_char c"

definition is_ws1 :: "char \<Rightarrow> bool" where
  "is_ws1 c \<longleftrightarrow> (9 \<le> code c \<and> code c \<le> 13) \<or> code c = 32"

definition is_ws2 :: "char \<Rightarrow> char \<Rightarrow> bool" where
  "is_ws2 a b \<longleftrightarrow> code a = 194 \<and> (code b = 133 \<or> code b = 160)"

definition is_ws3 :: "char \<Rightarrow> char \<Rightarrow> char \<Rightarrow> bool" where
  "is_ws3 a b c \<longleftrightarrow>
     (code a = 225 \<and> code b = 154 \<and> code c = 128) \<or>
     (code a = 226 \<and> code b = 128 \<and>
        ((128 \<le> code c \<and> code c \<le> 138) \<or> code c = 168 \<or> code c = 169 \<or> code c = 175)) \<or>
     (code a = 226 \<and> code b = 129 \<and> code c = 159) \<or>
     (code a = 227 \<and> code b = 128 \<and> code c = 128)"

function trim_start :: "string \<Rightarrow> string" where
  "trim_start s =
     (case s of
        a # b # c # rest \<Rightarrow>
          if is_ws1 a then trim_start (b # c # rest)
          else if is_ws2 a b then trim_start (c # rest)
          else if is_ws3 a b c then trim_start rest else s
      | [a, b] \<Rightarrow> if is_ws1 a then trim_start [b] else if is_ws2 a b then [] else s
      | [a] \<Rightarrow> if is_ws1 a then [] else s
      | [] \<Rightarrow> [])"
  by pat_completeness auto
termination
  by (relation "measure length") auto

function trim_end_rev :: "string \<Rightarrow> string" where
  "trim_end_rev s =
     (case s of
        c # b # a # rest \<Rightarrow>
          if is_ws1 c then trim_end_rev (b # a # rest)
          else if is_ws2 b c then trim_end_rev (a # rest)
          else if is_ws3 a b c then trim_end_rev rest else s
      | [b, a] \<Rightarrow> if is_ws1 b then trim_end_rev [a] else if is_ws2 a b then [] else s
      | [a] \<Rightarrow> if is_ws1 a then [] else s
      | [] \<Rightarrow> [])"
  by pat_completeness auto
termination
  by (relation "measure length") auto

declare trim_start.simps [simp del] trim_end_rev.simps [simp del]

definition trim :: "string \<Rightarrow> string" where
  "trim s = rev (trim_end_rev (rev (trim_start s)))"

definition lower_char :: "char \<Rightarrow> char" where
  "lower_char c = (if 65 \<le> code c \<and> code c \<le> 90 then char_of (code c + 32) else c)"

definition to_ascii_lowercase :: "string \<Rightarrow> string" where
  "to_ascii_lowercase s = map lower_char s"

definition is_ascii_hexdigit :: "char \<Rightarrow> bool" where
  "is_ascii_hexdigit c \<longleftrightarrow>
     (48 \<le> code c \<and> code c \<le> 57) \<or> (65 \<le> code c \<and> code c \<le> 70) \<or> (97 \<le> code c \<and> code c \<le> 102)"

section \<open>Decimal numbers\<close>

text \<open>\<open>u64::to_string\<close> and \<open>str::parse::<u64>\<close> (which accepts a leading plus sign).\<close>

definition digit_char :: "nat \<Rightarrow> char" where
  "digit_char d = char_of (48 + d)"

definition digit_value :: "char \<Rightarrow> nat option" where
  "digit_value c =
     (let n = of_char c :: nat in if 48 \<le> n \<and> n \<le> 57 then Some (n - 48) else None)"

fun dec_string :: "nat \<Rightarrow> string" where
  "dec_string n =
     (if n < 10 then [digit_char n] else dec_string (n div 10) @ [digit_char (n mod 10)])"

declare dec_string.simps [simp del]

fun parse_digits :: "nat \<Rightarrow> string \<Rightarrow> nat option" where
  "parse_digits acc [] = Some acc"
| "parse_digits acc (c # cs) =
     (case digit_value c of None \<Rightarrow> None | Some d \<Rightarrow> parse_digits (acc * 10 + d) cs)"

definition parse_u64 :: "string \<Rightarrow> u64 option" where
  "parse_u64 s =
     (case s of
        [] \<Rightarrow> None
      | c # cs \<Rightarrow>
          let digits = (if c = CHR ''+'' then cs else s) in
          if digits = [] then None
          else (case parse_digits 0 digits of
                  None \<Rightarrow> None
                | Some n \<Rightarrow> if n < 2 ^ 64 then Some (word_of_nat n) else None))"

lemma digit_value_char: "d < 10 \<Longrightarrow> digit_value (digit_char d) = Some d"
proof -
  assume "d < 10"
  then have "of_char (digit_char d) = (48 + d :: nat)"
    by (simp add: digit_char_def of_char_of)
  with \<open>d < 10\<close> show ?thesis by (simp add: digit_value_def)
qed

lemma parse_digits_append:
  "parse_digits acc (xs @ ys) = (case parse_digits acc xs of None \<Rightarrow> None | Some n \<Rightarrow> parse_digits n ys)"
  by (induction acc xs rule: parse_digits.induct) (auto split: option.split)

lemma parse_dec_string: "parse_digits 0 (dec_string n) = Some n"
proof (induction n rule: dec_string.induct)
  case (1 n)
  show ?case
  proof (cases "n < 10")
    case True
    then show ?thesis by (subst dec_string.simps) (simp add: digit_value_char)
  next
    case False
    with 1 show ?thesis by (subst dec_string.simps) (simp add: parse_digits_append digit_value_char)
  qed
qed

lemma dec_string_digits: "c \<in> set (dec_string n) \<Longrightarrow> digit_value c \<noteq> None"
proof (induction n rule: dec_string.induct)
  case (1 n)
  then show ?case
    by (subst (asm) (2) dec_string.simps) (auto simp: digit_value_char split: if_splits)
qed

lemma dec_string_nonempty: "dec_string n \<noteq> []"
  by (subst dec_string.simps) simp

lemma parse_u64_dec_string: "parse_u64 (dec_string (unat rid)) = Some rid"
proof -
  obtain c cs where s: "dec_string (unat rid) = c # cs"
    using dec_string_nonempty [of "unat rid"] by (cases "dec_string (unat rid)") simp_all
  have "digit_value c \<noteq> None" using dec_string_digits [of c "unat rid"] s by simp
  then have plus: "c \<noteq> CHR ''+''" by (auto simp: digit_value_def)
  have "parse_digits 0 (c # cs) = Some (unat rid)" using parse_dec_string [of "unat rid"] s by simp
  moreover have "unat rid < 2 ^ 64" using unat_lt_2p [of rid] by simp
  ultimately show ?thesis unfolding s parse_u64_def using plus by (simp del: parse_digits.simps)
qed

section \<open>Lines, fields and prefixes\<close>

text \<open>\<open>str::lines\<close>, \<open>split_whitespace\<close> and \<open>parse::<u32>\<close>.\<close>

fun split_nl :: "string \<Rightarrow> string list" where
  "split_nl [] = [[]]"
| "split_nl (c # cs) =
     (if c = CHR 0x0A then [] # split_nl cs
      else (case split_nl cs of [] \<Rightarrow> [[c]] | seg # segs \<Rightarrow> (c # seg) # segs))"

definition strip_cr :: "string \<Rightarrow> string" where
  "strip_cr s = (if s \<noteq> [] \<and> last s = CHR 0x0D then butlast s else s)"

definition str_lines :: "string \<Rightarrow> string list" where
  "str_lines s =
     (let segs = split_nl s; ended = butlast segs in
      map strip_cr ended @ (if last segs = [] then [] else [last segs]))"

fun ws_prefix :: "string \<Rightarrow> nat" where
  "ws_prefix (a # b # c # _) = (if is_ws1 a then 1 else if is_ws2 a b then 2 else if is_ws3 a b c then 3 else 0)"
| "ws_prefix [a, b] = (if is_ws1 a then 1 else if is_ws2 a b then 2 else 0)"
| "ws_prefix [a] = (if is_ws1 a then 1 else 0)"
| "ws_prefix [] = 0"

function split_ws :: "string \<Rightarrow> string \<Rightarrow> string list" where
  "split_ws word s =
     (case s of
        [] \<Rightarrow> if word = [] then [] else [word]
      | c # cs \<Rightarrow>
          if ws_prefix s = 0 then split_ws (word @ [c]) cs
          else (if word = [] then [] else [word]) @ split_ws [] (drop (ws_prefix s) s))"
  by pat_completeness auto
termination
  by (relation "measure (\<lambda>(word, s). length s)") auto

declare split_ws.simps [simp del]

definition split_whitespace :: "string \<Rightarrow> string list" where
  "split_whitespace s = split_ws [] s"

definition parse_u32 :: "string \<Rightarrow> u32 option" where
  "parse_u32 s = (case parse_u64 s of None \<Rightarrow> None | Some n \<Rightarrow> if n \<le> 0xFFFFFFFF then Some (ucast n) else None)"

definition strip_prefix :: "string \<Rightarrow> string \<Rightarrow> string option" where
  "strip_prefix p s = (if take (length p) s = p then Some (drop (length p) s) else None)"

fun field_line :: "string \<Rightarrow> string list \<Rightarrow> string option" where
  "field_line name [] = None"
| "field_line name (l # ls) = (case strip_prefix name l of Some v \<Rightarrow> Some v | None \<Rightarrow> field_line name ls)"

section \<open>Bytes as text\<close>

text \<open>\<open>String::from_utf8_lossy\<close>: how many bytes one step takes, and whether they are well formed.\<close>

definition cont :: "u8 \<Rightarrow> u8 \<Rightarrow> bytes \<Rightarrow> bool" where
  "cont lo hi bs \<longleftrightarrow> (case bs of [] \<Rightarrow> False | b # _ \<Rightarrow> lo \<le> b \<and> b \<le> hi)"

definition utf8_chunk :: "u8 \<Rightarrow> bytes \<Rightarrow> bool \<times> nat" where
  "utf8_chunk b bs =
     (let any = cont 0x80 0xBF;
          three = (\<lambda>second. if \<not> second then (False, 1) else if any (drop 1 bs) then (True, 3) else (False, 2));
          four = (\<lambda>second. if \<not> second then (False, 1) else if \<not> any (drop 1 bs) then (False, 2)
                            else if any (drop 2 bs) then (True, 4) else (False, 3)) in
      if b < 0x80 then (True, 1)
      else if 0xC2 \<le> b \<and> b \<le> 0xDF then if any bs then (True, 2) else (False, 1)
      else if b = 0xE0 then three (cont 0xA0 0xBF bs)
      else if b = 0xED then three (cont 0x80 0x9F bs)
      else if 0xE1 \<le> b \<and> b \<le> 0xEF then three (any bs)
      else if b = 0xF0 then four (cont 0x90 0xBF bs)
      else if 0xF1 \<le> b \<and> b \<le> 0xF3 then four (any bs)
      else if b = 0xF4 then four (cont 0x80 0x8F bs)
      else (False, 1))"

lemma utf8_chunk_pos: "0 < snd (utf8_chunk b bs)"
  by (simp add: utf8_chunk_def Let_def)

function utf8_lossy :: "bytes \<Rightarrow> bytes" where
  "utf8_lossy [] = []"
| "utf8_lossy (b # bs) =
     (let (good, n) = utf8_chunk b bs in
      (if good then take n (b # bs) else [0xEF, 0xBF, 0xBD]) @ utf8_lossy (drop n (b # bs)))"
  by pat_completeness auto
termination
proof (relation "measure length")
  fix b bs x good n assume "x = utf8_chunk b bs" "(good, n) = x"
  then have "0 < n" using utf8_chunk_pos [of b bs] by (metis snd_conv)
  then show "(drop n (b # bs), b # bs) \<in> measure length" by simp
qed simp

declare utf8_lossy.simps [simp del]

definition lossy_string :: "bytes \<Rightarrow> string" where
  "lossy_string bs = map (\<lambda>b. char_of (unat b)) (utf8_lossy bs)"

section \<open>Hexadecimal numbers\<close>

definition hex_value :: "char \<Rightarrow> nat option" where
  "hex_value c =
     (let n = code c in
      if 48 \<le> n \<and> n \<le> 57 then Some (n - 48)
      else if 65 \<le> n \<and> n \<le> 70 then Some (n - 55)
      else if 97 \<le> n \<and> n \<le> 102 then Some (n - 87) else None)"

fun parse_hex_digits :: "nat \<Rightarrow> string \<Rightarrow> nat option" where
  "parse_hex_digits acc [] = Some acc"
| "parse_hex_digits acc (c # cs) =
     (case hex_value c of None \<Rightarrow> None | Some d \<Rightarrow> parse_hex_digits (acc * 16 + d) cs)"

text \<open>\<open>uN::from_str_radix(_, 16)\<close>, which also accepts a leading plus sign.\<close>

definition from_hex :: "string \<Rightarrow> 'a::len word option" where
  "from_hex s =
     (let digits = (case s of c # cs \<Rightarrow> if c = CHR ''+'' then cs else s | [] \<Rightarrow> []) in
      if digits = [] then None
      else (case parse_hex_digits 0 digits of
              None \<Rightarrow> None
            | Some n \<Rightarrow> if n < 2 ^ LENGTH('a) then Some (word_of_nat n) else None))"

fun split_once :: "char \<Rightarrow> string \<Rightarrow> (string \<times> string) option" where
  "split_once c [] = None"
| "split_once c (x # xs) = (if x = c then Some ([], xs) else map_option (\<lambda>(a, b). (x # a, b)) (split_once c xs))"

text \<open>\<open>{:02X}\<close> of a byte.\<close>

definition hex_char :: "nat \<Rightarrow> char" where
  "hex_char d = char_of (if d < 10 then 48 + d else 55 + d)"

definition hex_byte :: "u8 \<Rightarrow> string" where
  "hex_byte b = [hex_char (unat b div 16), hex_char (unat b mod 16)]"

definition hex_bytes :: "bytes \<Rightarrow> string" where
  "hex_bytes bs = concat (map hex_byte bs)"

definition plain :: "char \<Rightarrow> bool" where
  "plain c \<longleftrightarrow> 33 \<le> code c \<and> code c \<le> 126"

lemma hex_char_code: "d < 16 \<Longrightarrow> code (hex_char d) = (if d < 10 then 48 + d else 55 + d)"
  by (simp add: hex_char_def of_char_of)

lemma hex_value_char: "d < 16 \<Longrightarrow> hex_value (hex_char d) = Some d"
  by (simp add: hex_value_def hex_char_code)

lemma hex_char_plain: "d < 16 \<Longrightarrow> plain (hex_char d) \<and> hex_char d \<noteq> CHR ''+'' \<and> hex_char d \<noteq> CHR '':''"
  using hex_char_code [of d] by (auto simp: plain_def split: if_splits)

lemma unat_nibbles: "unat (b :: u8) div 16 < 16" "unat (b :: u8) mod 16 < 16"
  using unat_byte_lt [of b] by (simp_all add: less_mult_imp_div_less)

lemma parse_hex_bytes: "parse_hex_digits acc (hex_bytes bs @ rest) = parse_hex_digits (acc * 256 ^ length bs + be_val bs) rest"
proof (induction bs arbitrary: acc)
  case (Cons b bs)
  have "(acc * 16 + unat b div 16) * 16 + unat b mod 16 = acc * 256 + unat b" by simp
  then show ?case
    using Cons.IH [of "acc * 256 + unat b"] unat_nibbles [of b]
    by (simp add: hex_bytes_def hex_byte_def hex_value_char algebra_simps)
qed (simp add: hex_bytes_def)

lemma length_hex_bytes [simp]: "length (hex_bytes bs) = 2 * length bs"
  by (induction bs) (simp_all add: hex_bytes_def hex_byte_def)

lemma hex_bytes_chars: "c \<in> set (hex_bytes bs) \<Longrightarrow> plain c \<and> c \<noteq> CHR ''+'' \<and> c \<noteq> CHR '':''"
  using hex_char_plain unat_nibbles by (auto simp: hex_bytes_def hex_byte_def)

lemma from_hex_bytes:
  assumes "bs \<noteq> []" "256 ^ length bs \<le> (2 :: nat) ^ LENGTH('a::len)"
  shows "from_hex (hex_bytes bs) = Some (from_be bs :: 'a word)"
proof -
  obtain c cs where s: "hex_bytes bs = c # cs" using assms(1) by (cases "hex_bytes bs") (auto simp: hex_bytes_def hex_byte_def)
  have "c \<noteq> CHR ''+''" using hex_bytes_chars [of c bs] s by simp
  moreover have "parse_hex_digits 0 (c # cs) = Some (be_val bs)"
    using parse_hex_bytes [of 0 bs "[]"] s by simp
  moreover have "be_val bs < 2 ^ LENGTH('a)" using be_val_lt [of bs] assms(2) by linarith
  ultimately show ?thesis unfolding s from_hex_def by (simp add: from_be_def del: parse_hex_digits.simps)
qed

lemma split_once_at: "c \<notin> set a \<Longrightarrow> split_once c (a @ c # b) = Some (a, b)"
  by (induction a) auto

section \<open>Words and lines written out\<close>

lemma plain_ws: "plain c \<Longrightarrow> ws_prefix (c # s) = 0"
  by (cases "c # s" rule: ws_prefix.cases) (auto simp: plain_def is_ws1_def is_ws2_def is_ws3_def)

lemma space_ws: "ws_prefix (CHR '' '' # s) = 1"
  by (cases "CHR '' '' # s" rule: ws_prefix.cases) (auto simp: is_ws1_def)

lemma split_ws_plain: "\<forall>c \<in> set w. plain c \<Longrightarrow> split_ws word (w @ rest) = split_ws (word @ w) rest"
proof (induction w arbitrary: word)
  case (Cons c w)
  then show ?case by (subst split_ws.simps) (simp add: plain_ws)
qed simp

lemma split_ws_space: "split_ws word (CHR '' '' # s) = (if word = [] then [] else [word]) @ split_ws [] s"
  by (subst split_ws.simps) (simp add: space_ws)

lemma split_ws_end: "split_ws word [] = (if word = [] then [] else [word])"
  by (subst split_ws.simps) simp

text \<open>Words in columns: each after one blank or more, and blanks at the end.\<close>

definition spaced :: "(nat \<times> string) list \<Rightarrow> nat \<Rightarrow> string" where
  "spaced ws n = concat (map (\<lambda>(k, w). replicate (Suc k) CHR '' '' @ w) ws) @ replicate n CHR '' ''"

lemma split_ws_spaces:
  "split_ws word (replicate (Suc k) CHR '' '' @ s) = (if word = [] then [] else [word]) @ split_ws [] s"
proof (induction k arbitrary: word)
  case (Suc k)
  then show ?case using split_ws_space [of word "replicate (Suc k) CHR '' '' @ s"] by simp
qed (simp add: split_ws_space)

lemma split_ws_spaced:
  assumes "\<forall>w \<in> snd ` set ws. w \<noteq> [] \<and> (\<forall>c \<in> set w. plain c)"
  shows "split_ws word (spaced ws n) = (if word = [] then [] else [word]) @ map snd ws"
  using assms
proof (induction ws arbitrary: word)
  case Nil
  then show ?case
    using split_ws_spaces [of word _ "[]"] by (cases n) (simp_all add: spaced_def split_ws_end)
next
  case (Cons kw ws)
  obtain k w where kw: "kw = (k, w)" by (cases kw)
  have "split_ws word (replicate (Suc k) CHR '' '' @ w @ spaced ws n) = (if word = [] then [] else [word]) @ split_ws [] (w @ spaced ws n)"
    by (rule split_ws_spaces)
  with Cons show ?case
    using split_ws_plain [of w "[]" "spaced ws n"] by (simp add: spaced_def kw)
qed

lemma split_whitespace_spaced:
  "\<forall>w \<in> snd ` set ws. w \<noteq> [] \<and> (\<forall>c \<in> set w. plain c) \<Longrightarrow> split_whitespace (spaced ws n) = map snd ws"
  by (simp add: split_whitespace_def split_ws_spaced)

lemma split_nl_line: "CHR 0x0A \<notin> set l \<Longrightarrow> split_nl (l @ CHR 0x0A # rest) = l # split_nl rest"
proof (induction l)
  case (Cons c l)
  then show ?case by (cases "split_nl (l @ CHR 0x0A # rest)") auto
qed simp

lemma split_nl_nonempty: "split_nl s \<noteq> []"
  by (induction s) (auto split: list.splits)

lemma split_nl_lines:
  assumes "\<forall>l \<in> set ls. CHR 0x0A \<notin> set l"
  shows "split_nl (concat (map (\<lambda>l. l @ [CHR 0x0A]) ls)) = ls @ [[]]"
  using assms by (induction ls) (simp_all add: split_nl_line)

lemma str_lines_text:
  assumes "\<forall>l \<in> set ls. CHR 0x0A \<notin> set l \<and> CHR 0x0D \<notin> set l"
  shows "str_lines (concat (map (\<lambda>l. l @ [CHR 0x0A]) ls)) = ls"
proof -
  have "strip_cr l = l" if "l \<in> set ls" for l
    using assms that by (cases l rule: rev_cases) (auto simp: strip_cr_def)
  then have "map strip_cr ls = ls" by (simp add: map_idI)
  with assms show ?thesis by (simp add: str_lines_def split_nl_lines Let_def butlast_append)
qed


lemma dec_plain: "c \<in> set (dec_string n) \<Longrightarrow> plain c"
  using dec_string_digits [of c n] by (auto simp: digit_value_def plain_def Let_def split: if_splits)

lemma parse_u32_dec: "parse_u32 (dec_string (unat (w :: u32))) = Some w"
proof -
  have "parse_u64 (dec_string (unat (ucast w :: u64))) = Some (ucast w)" by (rule parse_u64_dec_string)
  moreover have "unat (ucast w :: u64) = unat w" 
    using unat_lt_2p [of w] by (simp add: unsigned_ucast_eq take_bit_nat_eq_self)
  moreover have "(ucast w :: u64) \<le> 0xFFFFFFFF"
    using unat_lt_2p [of w] by (simp add: word_le_nat_alt \<open>unat (ucast w :: u64) = unat w\<close>)
  ultimately show ?thesis by (simp add: parse_u32_def ucast_up_ucast_id is_up)
qed

definition text_of_lines :: "string list \<Rightarrow> string" where
  "text_of_lines ls = concat (map (\<lambda>l. l @ [CHR 0x0A]) ls)"

end
