(* ===== verification/HashMaps.thy ===== *)
theory HashMaps
  imports Main "HOL-Library.AList"
begin

text \<open>
  Hash maps as association lists with distinct keys, and clocks: an \<open>Instant\<close> and a \<open>Duration\<close>
  are nanoseconds, and a subtraction saturates.  Where the order of an iteration shows, the caller
  passes it as a function that permutes the list.
\<close>

definition from_secs :: "nat \<Rightarrow> nat" where "from_secs n = n * 1000000000"

definition from_millis :: "nat \<Rightarrow> nat" where "from_millis n = n * 1000000"

text \<open>\<open>Iterator::min_by_key\<close> returns the first of the least elements.\<close>

definition min_by_key :: "('a \<Rightarrow> nat) \<Rightarrow> 'a list \<Rightarrow> 'a option" where
  "min_by_key f xs =
     (case xs of [] \<Rightarrow> None | x # xs \<Rightarrow> Some (fold (\<lambda>y best. if f y < f best then y else best) xs x))"

lemma fold_min_mem: "fold (\<lambda>y best. if f y < f best then y else best) xs x \<in> insert x (set xs)"
  by (induction xs arbitrary: x) auto

lemma min_by_key_mem: "min_by_key f xs = Some x \<Longrightarrow> x \<in> set xs"
  using fold_min_mem [of f "tl xs" "hd xs"] by (auto simp: min_by_key_def split: list.splits)

lemma min_by_key_None_iff: "min_by_key f xs = None \<longleftrightarrow> xs = []"
  by (simp add: min_by_key_def split: list.split)

lemma length_update_le: "length (AList.update k v m) \<le> Suc (length m)"
  by (induction m) auto

lemma length_update_present: "map_of m k \<noteq> None \<Longrightarrow> length (AList.update k v m) = length m"
  by (induction m) auto

lemma length_delete_le: "length (AList.delete k m) \<le> length m"
  by (simp add: AList.delete_eq)

lemma length_delete_present: "k \<in> fst ` set m \<Longrightarrow> length (AList.delete k m) < length m"
  by (induction m) (auto simp: AList.delete_eq le_imp_less_Suc)

text \<open>\<open>HashMap::retain\<close>.\<close>

definition retain :: "('k \<Rightarrow> 'v \<Rightarrow> bool) \<Rightarrow> ('k \<times> 'v) list \<Rightarrow> ('k \<times> 'v) list" where
  "retain P m = filter (\<lambda>(k, v). P k v) m"

lemma length_retain_le: "length (retain P m) \<le> length m"
  by (simp add: retain_def)

lemma distinct_retain: "distinct (map fst m) \<Longrightarrow> distinct (map fst (retain P m))"
  unfolding retain_def by (rule distinct_map_filter)

lemma map_of_retain:
  "distinct (map fst m) \<Longrightarrow>
   map_of (retain P m) k = (case map_of m k of None \<Rightarrow> None | Some v \<Rightarrow> if P k v then Some v else None)"
  by (induction m) (auto simp: retain_def map_of_eq_None_iff split: option.splits)

end
