(* ===== verification/StateRules.thy ===== *)
theory StateRules
  imports Main "HOL-Library.State_Monad" "HOL-Library.Monad_Syntax"
begin

text \<open>
  Weakest preconditions of the library's state monad: \<open>wp m Q s\<close> says that running \<open>m\<close> from \<open>s\<close>
  ends with a result and a state that satisfy \<open>Q\<close>.  \<open>wp_simps\<close> computes them along a program;
  \<open>wp_mono\<close> applies what is known of a called program.
\<close>

named_theorems wp_simps \<open>weakest preconditions of the constructs of the state monad\<close>

definition wp :: "('s, 'a) state \<Rightarrow> ('a \<Rightarrow> 's \<Rightarrow> bool) \<Rightarrow> 's \<Rightarrow> bool" where
  "wp m Q s \<longleftrightarrow> (case run_state m s of (x, s') \<Rightarrow> Q x s')"

lemma wp_return [wp_simps]: "wp (State_Monad.return x) Q = Q x"
  by (simp add: wp_def fun_eq_iff)

lemma wp_bind [wp_simps]: "wp (State_Monad.bind m f) Q s \<longleftrightarrow> wp m (\<lambda>x. wp (f x) Q) s"
  by (simp add: wp_def split: prod.split)

lemma wp_get [wp_simps]: "wp State_Monad.get Q s \<longleftrightarrow> Q s s"
  by (simp add: wp_def)

lemma wp_set [wp_simps]: "wp (State_Monad.set s') Q s \<longleftrightarrow> Q () s'"
  by (simp add: wp_def)

lemma wp_update [wp_simps]: "wp (State_Monad.update f) Q s \<longleftrightarrow> Q () (f s)"
  by (simp add: wp_def State_Monad.update_def)

lemma wp_if [wp_simps]: "wp (if b then m else n) Q s \<longleftrightarrow> (if b then wp m Q s else wp n Q s)"
  by simp

lemma wp_case_option [wp_simps]:
  "wp (case x of None \<Rightarrow> m | Some y \<Rightarrow> f y) Q s \<longleftrightarrow> (case x of None \<Rightarrow> wp m Q s | Some y \<Rightarrow> wp (f y) Q s)"
  by (cases x) simp_all

lemma wp_case_prod [wp_simps]: "wp (case x of (a, b) \<Rightarrow> f a b) Q s \<longleftrightarrow> (case x of (a, b) \<Rightarrow> wp (f a b) Q s)"
  by (cases x) simp_all

lemma wp_State: "wp (State f) Q s \<longleftrightarrow> (case f s of (x, s') \<Rightarrow> Q x s')"
  by (simp add: wp_def)

lemma wp_mono: "wp m P s \<Longrightarrow> (\<And>x s'. P x s' \<Longrightarrow> Q x s') \<Longrightarrow> wp m Q s"
  by (auto simp: wp_def)

lemma wp_run: "run_state m s = (x, s') \<Longrightarrow> wp m Q s \<Longrightarrow> Q x s'"
  by (simp add: wp_def)

end
