(* ===== verification/CoreTypes.thy ===== *)
theory CoreTypes
  imports Prelude
begin

text \<open>
  The data model of \<open>crates/cfc-core\<close>: \<open>connection.rs\<close>, \<open>process.rs\<close>, \<open>verdict.rs\<close> and the
  types of \<open>rule.rs\<close>, with the parts of the standard library they rest on (IP addresses as
  words, Unix paths compared component by component).  Two third-party crates are
  parameters, carried in one record \<open>ext\<close>: \<open>ipnet_contains\<close> is \<open>IpNet::contains\<close> and
  \<open>dt_millis\<close> is chrono's \<open>DateTime::timestamp_millis\<close>.  Nothing is assumed of either.
\<close>

section \<open>Identifiers and instants\<close>

text \<open>A UUID is sixteen bytes, ordered as the big-endian number they spell.\<close>

datatype uuid = Uuid (uuid_bits: "128 word")

instantiation uuid :: linorder
begin
definition less_eq_uuid :: "uuid \<Rightarrow> uuid \<Rightarrow> bool" where
  "less_eq_uuid a b \<longleftrightarrow> uuid_bits a \<le> uuid_bits b"
definition less_uuid :: "uuid \<Rightarrow> uuid \<Rightarrow> bool" where
  "less_uuid a b \<longleftrightarrow> uuid_bits a < uuid_bits b"
instance
  by standard (auto simp: less_eq_uuid_def less_uuid_def uuid.expand)
end

text \<open>An instant of chrono's \<open>DateTime<Utc>\<close>, ordered in time.\<close>

datatype datetime = DateTime (dt_instant: int)

instantiation datetime :: linorder
begin
definition less_eq_datetime :: "datetime \<Rightarrow> datetime \<Rightarrow> bool" where
  "less_eq_datetime a b \<longleftrightarrow> dt_instant a \<le> dt_instant b"
definition less_datetime :: "datetime \<Rightarrow> datetime \<Rightarrow> bool" where
  "less_datetime a b \<longleftrightarrow> dt_instant a < dt_instant b"
instance
  by standard (auto simp: less_eq_datetime_def less_datetime_def datetime.expand)
end

text \<open>\<open>std::cmp::Reverse\<close>: the same values in the opposite order.\<close>

datatype 'a reverse = Reverse (unreverse: 'a)

instantiation reverse :: (linorder) linorder
begin
definition less_eq_reverse :: "'a reverse \<Rightarrow> 'a reverse \<Rightarrow> bool" where
  "less_eq_reverse a b \<longleftrightarrow> unreverse b \<le> unreverse a"
definition less_reverse :: "'a reverse \<Rightarrow> 'a reverse \<Rightarrow> bool" where
  "less_reverse a b \<longleftrightarrow> unreverse b < unreverse a"
instance
  by standard (auto simp: less_eq_reverse_def less_reverse_def reverse.expand)
end

section \<open>Addresses, networks and paths\<close>

datatype ip_addr = V4 u32 | V6 "128 word"

fun octets :: "ip_addr \<Rightarrow> bytes" where
  "octets (V4 w) = be_bytes 4 (unat w)"
| "octets (V6 w) = be_bytes 16 (unat w)"

text \<open>\<open>to_canonical\<close>: an IPv4-mapped IPv6 address is the IPv4 address.\<close>

fun to_canonical :: "ip_addr \<Rightarrow> ip_addr" where
  "to_canonical (V4 w) = V4 w"
| "to_canonical (V6 w) = (if drop_bit 32 w = 0xFFFF then V4 (ucast w) else V6 w)"

text \<open>An \<open>ipnet::IpNet\<close> is an address and a prefix length.\<close>

datatype ipnet = IpNet (net_addr: ip_addr) (net_prefix_len: nat)

text \<open>
  \<open>std::path::Path\<close> compares component by component: repeated separators, inner \<open>.\<close>
  components and a trailing separator do not count.  \<open>as_os_str\<close> comparisons are exact.
\<close>

datatype path_component = RootDir | CurDir | ParentDir | Normal string

fun split_slash :: "string \<Rightarrow> string list" where
  "split_slash [] = [[]]"
| "split_slash (c # cs) =
     (case split_slash cs of
        [] \<Rightarrow> [[c]]
      | seg # segs \<Rightarrow> if c = CHR ''/'' then [] # seg # segs else (c # seg) # segs)"

fun component_of :: "string \<Rightarrow> path_component list" where
  "component_of seg =
     (if seg = '''' \<or> seg = ''.'' then []
      else if seg = ''..'' then [ParentDir] else [Normal seg])"

definition is_absolute :: "string \<Rightarrow> bool" where
  "is_absolute p \<longleftrightarrow> (case p of [] \<Rightarrow> False | c # _ \<Rightarrow> c = CHR ''/'')"

definition path_components :: "string \<Rightarrow> path_component list" where
  "path_components p =
     (let segs = split_slash p in
      if is_absolute p then RootDir # concat (map component_of segs)
      else if hd segs = ''.'' then CurDir # concat (map component_of (tl segs))
      else concat (map component_of segs))"

definition path_eq :: "string \<Rightarrow> string \<Rightarrow> bool" where
  "path_eq p q \<longleftrightarrow> path_components p = path_components q"

lemma split_slash_nonempty: "split_slash s \<noteq> []"
  by (cases s) (auto split: list.splits)

lemma path_eq_refl [simp]: "path_eq p p"
  by (simp add: path_eq_def)

lemma path_eq_sym: "path_eq p q \<Longrightarrow> path_eq q p"
  by (simp add: path_eq_def)

lemma path_eq_trans: "path_eq p q \<Longrightarrow> path_eq q r \<Longrightarrow> path_eq p r"
  by (simp add: path_eq_def)

section \<open>External crates\<close>

record ext =
  ipnet_contains :: "ipnet \<Rightarrow> ip_addr \<Rightarrow> bool"
  dt_millis :: "datetime \<Rightarrow> int"

section \<open>Connections\<close>

datatype protocol = Tcp | Udp | Icmp | Other u8

datatype direction = Outbound | Inbound

record connection =
  c_id :: uuid
  c_timestamp :: datetime
  c_protocol :: protocol
  c_direction :: direction
  c_src_ip :: ip_addr
  c_src_port :: u16
  c_dst_ip :: ip_addr
  c_dst_port :: u16
  c_dst_host :: "string option"
  c_dst_host_verified :: bool
  c_pid :: "u32 option"
  c_uid :: "u32 option"

text \<open>\<open>Connection::new\<close>: the fresh id and the current time are arguments.\<close>

definition new_connection ::
  "uuid \<times> datetime \<Rightarrow> protocol \<Rightarrow> direction \<Rightarrow> ip_addr \<Rightarrow> u16 \<Rightarrow> ip_addr \<Rightarrow> u16 \<Rightarrow> connection" where
  "new_connection stamp protocol direction src_ip src_port dst_ip dst_port =
     \<lparr>c_id = fst stamp, c_timestamp = snd stamp, c_protocol = protocol,
      c_direction = direction, c_src_ip = src_ip, c_src_port = src_port,
      c_dst_ip = dst_ip, c_dst_port = dst_port, c_dst_host = None,
      c_dst_host_verified = False, c_pid = None, c_uid = None\<rparr>"

definition with_process :: "connection \<Rightarrow> u32 \<Rightarrow> u32 option \<Rightarrow> connection" where
  "with_process conn pid uid = conn\<lparr>c_pid := Some pid, c_uid := uid\<rparr>"

definition with_host :: "connection \<Rightarrow> string \<Rightarrow> connection" where
  "with_host conn host = conn\<lparr>c_dst_host := Some host, c_dst_host_verified := False\<rparr>"

definition with_host_verified :: "connection \<Rightarrow> string \<Rightarrow> bool \<Rightarrow> connection" where
  "with_host_verified conn host verified =
     conn\<lparr>c_dst_host := Some host, c_dst_host_verified := verified\<rparr>"

section \<open>Processes\<close>

datatype provenance = ProvUnknown | Unpackaged | Verified | Modified

record process =
  p_pid :: u32
  p_ppid :: "u32 option"
  p_uid :: "u32 option"
  p_gid :: "u32 option"
  p_exe :: string
  p_cmdline :: "string list"
  p_cwd :: "string option"
  p_sha256 :: "string option"
  p_started_at :: "datetime option"
  p_package :: "string option"
  p_provenance :: provenance

definition UNKNOWN_EXE :: string where
  "UNKNOWN_EXE = ''<unknown>''"

definition exe_is_known :: "process \<Rightarrow> bool" where
  "exe_is_known proc \<longleftrightarrow> p_exe proc \<noteq> UNKNOWN_EXE"

definition unknown_process :: "u32 \<Rightarrow> process" where
  "unknown_process pid =
     \<lparr>p_pid = pid, p_ppid = None, p_uid = None, p_gid = None, p_exe = UNKNOWN_EXE,
      p_cmdline = [], p_cwd = None, p_sha256 = None, p_started_at = None,
      p_package = None, p_provenance = ProvUnknown\<rparr>"

lemma unknown_process_not_known [simp]: "\<not> exe_is_known (unknown_process pid)"
  by (simp add: exe_is_known_def unknown_process_def)

section \<open>Rules and verdicts\<close>

datatype action = Allow | Deny | Reject

datatype duration = Once | UntilRestart | Always | Seconds u32

record rule_scope =
  s_direction :: "direction option"
  s_exe_path :: "string option"
  s_exe_sha256 :: "string option"
  s_parent_exe :: "string option"
  s_uid :: "u32 option"
  s_dst_host :: "string option"
  s_dst_net :: "ipnet option"
  s_dst_port :: "u16 option"
  s_src_net :: "ipnet option"
  s_src_port :: "u16 option"
  s_protocol :: "protocol option"

record rule =
  r_id :: uuid
  r_name :: string
  r_enabled :: bool
  r_action :: action
  r_duration :: duration
  r_scope :: rule_scope
  r_created_at :: datetime
  r_hit_count :: u64

text \<open>\<open>Rule::new\<close>: the fresh id and the current time are arguments.\<close>

definition new_rule :: "uuid \<times> datetime \<Rightarrow> string \<Rightarrow> action \<Rightarrow> rule_scope \<Rightarrow> rule" where
  "new_rule stamp name action scope =
     \<lparr>r_id = fst stamp, r_name = name, r_enabled = True, r_action = action,
      r_duration = Always, r_scope = scope, r_created_at = snd stamp, r_hit_count = 0\<rparr>"

datatype verdict_source = FromRule uuid | UserPrompt | FromDefaultPolicy | Timeout

record verdict =
  v_action :: action
  v_source :: verdict_source

definition from_rule :: "action \<Rightarrow> uuid \<Rightarrow> verdict" where
  "from_rule action rule_id = \<lparr>v_action = action, v_source = FromRule rule_id\<rparr>"

definition deny_from_rule :: "uuid \<Rightarrow> verdict" where
  "deny_from_rule rule_id = from_rule Deny rule_id"

definition from_policy :: "action \<Rightarrow> verdict" where
  "from_policy action = \<lparr>v_action = action, v_source = FromDefaultPolicy\<rparr>"

definition default_allow :: verdict where
  "default_allow = from_policy Allow"

definition default_deny :: verdict where
  "default_deny = from_policy Deny"

end
