(* ===== verification/RuleScope.thy ===== *)
theory RuleScope
  imports CoreTypes Texts
begin

text \<open>
  \<open>RuleScope\<close> of \<open>crates/cfc-core/src/rule.rs\<close>: the digest canonicaliser, the predicate
  count that ranks rules, the two halves of matching (process and connection), the
  three-valued question \<open>undecidable_for\<close>, and the gates both writers run before a rule is
  stored.  The lemmas relate the three: a rule is undecidable exactly when its known
  identity predicates are compatible with the process and one is missing, and filling in
  the missing identity turns an undecidable rule into a decided one.
\<close>

section \<open>Canonical digests\<close>

datatype sha_error = BadLength nat | NotHexadecimal char

definition canonical_exe_sha256 :: "string \<Rightarrow> sha_error + string" where
  "canonical_exe_sha256 s =
     (let hex = to_ascii_lowercase (trim s) in
      if length hex \<noteq> 64 then Inl (BadLength (length hex))
      else case find (\<lambda>c. \<not> is_ascii_hexdigit c) hex of
             Some bad \<Rightarrow> Inl (NotHexadecimal bad)
           | None \<Rightarrow> Inr hex)"

definition lower_hex :: "char \<Rightarrow> bool" where
  "lower_hex c \<longleftrightarrow> (48 \<le> code c \<and> code c \<le> 57) \<or> (97 \<le> code c \<and> code c \<le> 102)"

lemma lower_hex_of_lower_char: "is_ascii_hexdigit (lower_char c) \<Longrightarrow> lower_hex (lower_char c)"
proof -
  assume h: "is_ascii_hexdigit (lower_char c)"
  have "\<not> (65 \<le> code (lower_char c) \<and> code (lower_char c) \<le> 90)"
    by (auto simp: lower_char_def)
  with h show ?thesis by (auto simp: is_ascii_hexdigit_def lower_hex_def)
qed

lemma find_None_all: "find P xs = None \<longleftrightarrow> (\<forall>x \<in> set xs. \<not> P x)"
  by (auto simp: find_None_iff)

lemma canonical_Inr:
  assumes "canonical_exe_sha256 s = Inr h"
  shows "length h = 64 \<and> (\<forall>c \<in> set h. lower_hex c)"
  using assms
  by (auto simp: canonical_exe_sha256_def Let_def find_None_all to_ascii_lowercase_def
      lower_hex_of_lower_char split: if_splits option.splits)

lemma lower_hex_fixed: "lower_hex c \<Longrightarrow> lower_char c = c"
  by (auto simp: lower_hex_def lower_char_def)

lemma lower_hex_hexdigit: "lower_hex c \<Longrightarrow> is_ascii_hexdigit c"
  by (auto simp: lower_hex_def is_ascii_hexdigit_def)

lemma lower_hex_not_ws1: "lower_hex c \<Longrightarrow> \<not> is_ws1 c"
  by (auto simp: lower_hex_def is_ws1_def)

lemma lower_hex_not_ws2: "lower_hex a \<or> lower_hex b \<Longrightarrow> \<not> is_ws2 a b"
  by (auto simp: lower_hex_def is_ws2_def)

lemma lower_hex_not_ws3: "lower_hex a \<or> lower_hex b \<or> lower_hex c \<Longrightarrow> \<not> is_ws3 a b c"
  by (auto simp: lower_hex_def is_ws3_def)

lemma trim_start_hex: "\<forall>c \<in> set s. lower_hex c \<Longrightarrow> trim_start s = s"
  by (subst trim_start.simps)
     (auto split: list.splits simp: lower_hex_not_ws1 lower_hex_not_ws2 lower_hex_not_ws3)

lemma trim_end_rev_hex: "\<forall>c \<in> set s. lower_hex c \<Longrightarrow> trim_end_rev s = s"
  by (subst trim_end_rev.simps)
     (auto split: list.splits simp: lower_hex_not_ws1 lower_hex_not_ws2 lower_hex_not_ws3)

lemma trim_hex: "\<forall>c \<in> set s. lower_hex c \<Longrightarrow> trim s = s"
  by (simp add: trim_def trim_start_hex trim_end_rev_hex)

lemma canonical_of_lower_hex:
  assumes "length h = 64" "\<forall>c \<in> set h. lower_hex c"
  shows "canonical_exe_sha256 h = Inr h"
proof -
  have low: "map lower_char h = h"
    using assms(2) by (intro map_idI) (auto simp: lower_hex_fixed)
  have hex: "find (\<lambda>c. \<not> is_ascii_hexdigit c) h = None"
    using assms(2) by (auto simp: find_None_iff lower_hex_hexdigit)
  show ?thesis
    using assms by (simp add: canonical_exe_sha256_def Let_def trim_hex to_ascii_lowercase_def low hex)
qed

text \<open>A digest accepted at any door is canonical: 64 lowercase hexadecimal characters, and
  canonicalising it again changes nothing.\<close>

theorem canonical_exe_sha256_canonical:
  assumes "canonical_exe_sha256 s = Inr h"
  shows "length h = 64 \<and> (\<forall>c \<in> set h. lower_hex c) \<and> canonical_exe_sha256 h = Inr h"
  using canonical_Inr [OF assms] canonical_of_lower_hex by blast

theorem canonical_exe_sha256_canonical_witness:
  "canonical_exe_sha256 (replicate 64 (CHR ''a'')) = Inr (replicate 64 (CHR ''a''))
   \<and> length (replicate 64 (CHR ''a'')) = 64"
proof -
  have h: "canonical_exe_sha256 (replicate 64 (CHR ''a'')) = Inr (replicate 64 (CHR ''a''))"
    by (rule canonical_of_lower_hex) (auto simp: lower_hex_def)
  from canonical_exe_sha256_canonical [OF h] h show ?thesis by simp
qed

section \<open>Scopes: ranking and shape\<close>

definition any_scope :: rule_scope where
  "any_scope =
     \<lparr>s_direction = None, s_exe_path = None, s_exe_sha256 = None, s_parent_exe = None,
      s_uid = None, s_dst_host = None, s_dst_net = None, s_dst_port = None,
      s_src_net = None, s_src_port = None, s_protocol = None\<rparr>"

definition narrows :: "ipnet option \<Rightarrow> bool" where
  "narrows net \<longleftrightarrow> (case net of None \<Rightarrow> False | Some n \<Rightarrow> 0 < net_prefix_len n)"

definition specificity :: "rule_scope \<Rightarrow> nat" where
  "specificity s =
     length (filter (\<lambda>set. set)
       [narrows (s_src_net s), s_src_port s \<noteq> None, s_exe_path s \<noteq> None,
        s_exe_sha256 s \<noteq> None, s_parent_exe s \<noteq> None, s_uid s \<noteq> None,
        s_dst_host s \<noteq> None, narrows (s_dst_net s), s_dst_port s \<noteq> None,
        s_protocol s \<noteq> None])"

definition names_program :: "rule_scope \<Rightarrow> bool" where
  "names_program s \<longleftrightarrow> s_exe_path s \<noteq> None \<or> s_exe_sha256 s \<noteq> None"

definition constrains_destination :: "rule_scope \<Rightarrow> bool" where
  "constrains_destination s \<longleftrightarrow>
     s_dst_host s \<noteq> None \<or> s_dst_net s \<noteq> None \<or> s_dst_port s \<noteq> None \<or> s_protocol s \<noteq> None \<or>
     s_src_net s \<noteq> None \<or> s_src_port s \<noteq> None \<or> s_direction s = Some Inbound"

section \<open>The gates before a rule is stored\<close>

text \<open>One constructor per refusal; the payloads are what the messages interpolate.\<close>

datatype scope_error =
    HostnamePolicy
  | UnmatchableParent
  | ExePathTooLong nat
  | ExeIsPlaceholder
  | ExeNotAbsolute string
  | InboundDestination string
  | InboundUnattributable string

definition MAX_EXE_PATH_LEN :: nat where "MAX_EXE_PATH_LEN = 4096"

definition reject_hostname_policy :: "rule_scope \<Rightarrow> scope_error + unit" where
  "reject_hostname_policy s = (if s_dst_host s \<noteq> None then Inl HostnamePolicy else Inr ())"

definition reject_unmatchable_parent :: "rule_scope \<Rightarrow> scope_error + unit" where
  "reject_unmatchable_parent s =
     (if s_parent_exe s = None then Inr () else Inl UnmatchableParent)"

definition reject_unmatchable_exe :: "rule_scope \<Rightarrow> scope_error + unit" where
  "reject_unmatchable_exe s =
     (case s_exe_path s of
        None \<Rightarrow> Inr ()
      | Some exe \<Rightarrow>
          if MAX_EXE_PATH_LEN < length exe then Inl (ExePathTooLong (length exe))
          else if exe = UNKNOWN_EXE then Inl ExeIsPlaceholder
          else if \<not> is_absolute exe then Inl (ExeNotAbsolute exe)
          else Inr ())"

definition reject_inbound_destination_scope :: "rule_scope \<Rightarrow> scope_error + unit" where
  "reject_inbound_destination_scope s =
     (if s_direction s \<noteq> Some Inbound then Inr ()
      else if s_dst_net s \<noteq> None then Inl (InboundDestination ''dst_net'')
      else if s_dst_host s \<noteq> None then Inl (InboundDestination ''dst_host'')
      else Inr ())"

definition reject_unattributable_inbound_scope :: "rule_scope \<Rightarrow> scope_error + unit" where
  "reject_unattributable_inbound_scope s =
     (if s_direction s \<noteq> Some Inbound then Inr ()
      else if s_exe_path s \<noteq> None then Inl (InboundUnattributable ''an executable path'')
      else if s_exe_sha256 s \<noteq> None then Inl (InboundUnattributable ''an executable hash'')
      else if s_uid s \<noteq> None then Inl (InboundUnattributable ''a user ID'')
      else Inr ())"

section \<open>Matching\<close>

definition undecidable_for :: "rule_scope \<Rightarrow> process \<Rightarrow> bool" where
  "undecidable_for s proc =
     (if (case s_exe_path s of None \<Rightarrow> False
          | Some p \<Rightarrow> exe_is_known proc \<and> \<not> path_eq (p_exe proc) p) then False
      else if (case (s_exe_sha256 s, p_sha256 proc) of
                 (Some expected, Some actual) \<Rightarrow> expected \<noteq> actual | _ \<Rightarrow> False) then False
      else if (case s_uid s of None \<Rightarrow> False
          | Some u \<Rightarrow> (case p_uid proc of None \<Rightarrow> False | Some actual \<Rightarrow> actual \<noteq> u)) then False
      else (s_exe_path s \<noteq> None \<and> \<not> exe_is_known proc) \<or>
           (s_exe_sha256 s \<noteq> None \<and> p_sha256 proc = None) \<or>
           (s_uid s \<noteq> None \<and> p_uid proc = None))"

definition matches_process :: "rule_scope \<Rightarrow> process \<Rightarrow> bool" where
  "matches_process s proc =
     (if (case s_exe_path s of None \<Rightarrow> False
          | Some p \<Rightarrow> \<not> exe_is_known proc \<or> \<not> path_eq (p_exe proc) p) then False
      else if (case s_exe_sha256 s of None \<Rightarrow> False
          | Some h \<Rightarrow> (case p_sha256 proc of Some d \<Rightarrow> d \<noteq> h | None \<Rightarrow> True)) then False
      else if (case s_uid s of None \<Rightarrow> False | Some u \<Rightarrow> p_uid proc \<noteq> Some u) then False
      else True)"

definition matches_known_connection :: "ext \<Rightarrow> rule_scope \<Rightarrow> connection \<Rightarrow> bool" where
  "matches_known_connection E s conn =
     (if (case s_direction s of Some d \<Rightarrow> c_direction conn \<noteq> d
          | None \<Rightarrow> c_direction conn \<noteq> Outbound) then False
      else if (case s_src_net s of None \<Rightarrow> False
          | Some net \<Rightarrow> \<not> ipnet_contains E net (c_src_ip conn)) then False
      else if (case s_src_port s of None \<Rightarrow> False | Some port \<Rightarrow> c_src_port conn \<noteq> port) then False
      else if (case s_dst_net s of None \<Rightarrow> False
          | Some net \<Rightarrow> \<not> ipnet_contains E net (c_dst_ip conn)) then False
      else if (case s_dst_port s of None \<Rightarrow> False | Some port \<Rightarrow> c_dst_port conn \<noteq> port) then False
      else if (case s_protocol s of None \<Rightarrow> False
          | Some proto \<Rightarrow>
              let unsupported_legacy =
                    s_dst_host s \<noteq> None \<and> (case proto of Other _ \<Rightarrow> True | _ \<Rightarrow> False)
              in \<not> unsupported_legacy \<and> c_protocol conn \<noteq> proto) then False
      else True)"

definition matches_connection :: "ext \<Rightarrow> rule_scope \<Rightarrow> connection \<Rightarrow> bool" where
  "matches_connection E s conn \<longleftrightarrow> s_dst_host s = None \<and> matches_known_connection E s conn"

definition scope_matches :: "ext \<Rightarrow> rule_scope \<Rightarrow> connection \<Rightarrow> process \<Rightarrow> bool" where
  "scope_matches E s conn proc \<longleftrightarrow> matches_process s proc \<and> matches_connection E s conn"

section \<open>What unknown identity means\<close>

text \<open>
  \<open>refines proc' proc\<close>: \<open>proc'\<close> keeps every identity fact that is known of \<open>proc\<close> and may
  know more (an executable, a digest or a uid that was missing).
\<close>

definition refines :: "process \<Rightarrow> process \<Rightarrow> bool" where
  "refines proc' proc \<longleftrightarrow>
     (exe_is_known proc \<longrightarrow> p_exe proc' = p_exe proc) \<and>
     (p_sha256 proc \<noteq> None \<longrightarrow> p_sha256 proc' = p_sha256 proc) \<and>
     (p_uid proc \<noteq> None \<longrightarrow> p_uid proc' = p_uid proc)"

lemma refines_refl [simp]: "refines proc proc"
  by (simp add: refines_def)

lemma matches_process_iff:
  "matches_process s proc \<longleftrightarrow>
     (\<forall>p. s_exe_path s = Some p \<longrightarrow> exe_is_known proc \<and> path_eq (p_exe proc) p) \<and>
     (\<forall>h. s_exe_sha256 s = Some h \<longrightarrow> p_sha256 proc = Some h) \<and>
     (\<forall>u. s_uid s = Some u \<longrightarrow> p_uid proc = Some u)"
  by (auto simp: matches_process_def split: option.splits if_splits)

lemma undecidable_for_iff:
  "undecidable_for s proc \<longleftrightarrow>
     (\<forall>p. s_exe_path s = Some p \<longrightarrow> exe_is_known proc \<longrightarrow> path_eq (p_exe proc) p) \<and>
     (\<forall>h d. s_exe_sha256 s = Some h \<longrightarrow> p_sha256 proc = Some d \<longrightarrow> h = d) \<and>
     (\<forall>u v. s_uid s = Some u \<longrightarrow> p_uid proc = Some v \<longrightarrow> v = u) \<and>
     (s_exe_path s \<noteq> None \<and> \<not> exe_is_known proc \<or>
      s_exe_sha256 s \<noteq> None \<and> p_sha256 proc = None \<or>
      s_uid s \<noteq> None \<and> p_uid proc = None)"
  by (auto simp: undecidable_for_def split: option.splits if_splits)

text \<open>The effective protocol predicate: none for a legacy rule with an unsupported protocol.\<close>

definition protocol_ok :: "rule_scope \<Rightarrow> protocol \<Rightarrow> bool" where
  "protocol_ok s actual \<longleftrightarrow>
     (\<forall>proto. s_protocol s = Some proto \<longrightarrow>
        actual = proto \<or> (s_dst_host s \<noteq> None \<and> (\<exists>n. proto = Other n)))"

lemma matches_known_connection_iff:
  "matches_known_connection E s conn \<longleftrightarrow>
     c_direction conn = (case s_direction s of None \<Rightarrow> Outbound | Some d \<Rightarrow> d) \<and>
     (\<forall>n. s_src_net s = Some n \<longrightarrow> ipnet_contains E n (c_src_ip conn)) \<and>
     (\<forall>p. s_src_port s = Some p \<longrightarrow> c_src_port conn = p) \<and>
     (\<forall>n. s_dst_net s = Some n \<longrightarrow> ipnet_contains E n (c_dst_ip conn)) \<and>
     (\<forall>p. s_dst_port s = Some p \<longrightarrow> c_dst_port conn = p) \<and>
     protocol_ok s (c_protocol conn)"
proof -
  have proto: "(case s_protocol s of None \<Rightarrow> False
          | Some proto \<Rightarrow>
              let unsupported_legacy =
                    s_dst_host s \<noteq> None \<and> (case proto of Other _ \<Rightarrow> True | _ \<Rightarrow> False)
              in \<not> unsupported_legacy \<and> c_protocol conn \<noteq> proto) \<longleftrightarrow>
        \<not> protocol_ok s (c_protocol conn)"
    by (auto simp: protocol_ok_def Let_def split: option.split protocol.split)
  show ?thesis
    unfolding matches_known_connection_def proto by (auto split: option.splits)
qed

lemma matches_not_undecidable: "matches_process s proc \<Longrightarrow> \<not> undecidable_for s proc"
  by (auto simp: matches_process_iff undecidable_for_iff)

lemma some_known_spelling: "\<exists>q. q \<noteq> UNKNOWN_EXE \<and> path_eq q p"
proof (cases "p = UNKNOWN_EXE")
  case True
  have "path_eq (UNKNOWN_EXE @ ''/'') UNKNOWN_EXE"
    by (simp add: path_eq_def path_components_def UNKNOWN_EXE_def is_absolute_def)
  with True show ?thesis by (intro exI [of _ "UNKNOWN_EXE @ ''/''"]) simp
next
  case False
  then show ?thesis by (intro exI [of _ p]) simp
qed

text \<open>The completion of a process that satisfies a compatible scope.\<close>

definition complete_for :: "rule_scope \<Rightarrow> string \<Rightarrow> process \<Rightarrow> process" where
  "complete_for s q proc =
     proc\<lparr>p_exe := (if exe_is_known proc then p_exe proc else q),
          p_sha256 := (if p_sha256 proc = None then s_exe_sha256 s else p_sha256 proc),
          p_uid := (if p_uid proc = None then s_uid s else p_uid proc)\<rparr>"

lemma complete_for_refines: "refines (complete_for s q proc) proc"
  by (simp add: refines_def complete_for_def)

lemma undecidable_completes:
  assumes "undecidable_for s proc"
  shows "\<exists>proc'. refines proc' proc \<and> matches_process s proc'"
proof -
  obtain q where q: "q \<noteq> UNKNOWN_EXE" "\<forall>p. s_exe_path s = Some p \<longrightarrow> path_eq q p"
  proof (cases "s_exe_path s")
    case None
    then show ?thesis using that [of "''/''"] by (simp add: UNKNOWN_EXE_def)
  next
    case (Some p)
    then show ?thesis using that some_known_spelling [of p] by auto
  qed
  have "matches_process s (complete_for s q proc)"
    unfolding matches_process_iff
  proof (intro conjI allI impI)
    fix p assume "s_exe_path s = Some p"
    with assms q show "exe_is_known (complete_for s q proc)" "path_eq (p_exe (complete_for s q proc)) p"
      by (auto simp: undecidable_for_iff complete_for_def exe_is_known_def)
  next
    fix h assume "s_exe_sha256 s = Some h"
    with assms show "p_sha256 (complete_for s q proc) = Some h"
      by (auto simp: undecidable_for_iff complete_for_def)
  next
    fix u assume "s_uid s = Some u"
    with assms show "p_uid (complete_for s q proc) = Some u"
      by (auto simp: undecidable_for_iff complete_for_def)
  qed
  with complete_for_refines show ?thesis by blast
qed

text \<open>The three identity predicates, each with a third answer.\<close>

datatype fit = Fits | Clashes | Unknown

definition exe_fit :: "rule_scope \<Rightarrow> process \<Rightarrow> fit" where
  "exe_fit s proc =
     (case s_exe_path s of None \<Rightarrow> Fits
      | Some p \<Rightarrow> if \<not> exe_is_known proc then Unknown
                  else if path_eq (p_exe proc) p then Fits else Clashes)"

definition sha_fit :: "rule_scope \<Rightarrow> process \<Rightarrow> fit" where
  "sha_fit s proc =
     (case s_exe_sha256 s of None \<Rightarrow> Fits
      | Some h \<Rightarrow> (case p_sha256 proc of None \<Rightarrow> Unknown
                   | Some d \<Rightarrow> if d = h then Fits else Clashes))"

definition uid_fit :: "rule_scope \<Rightarrow> process \<Rightarrow> fit" where
  "uid_fit s proc =
     (case s_uid s of None \<Rightarrow> Fits
      | Some u \<Rightarrow> (case p_uid proc of None \<Rightarrow> Unknown
                   | Some v \<Rightarrow> if v = u then Fits else Clashes))"

lemmas fit_defs = exe_fit_def sha_fit_def uid_fit_def

lemma matches_process_fits:
  "matches_process s proc \<longleftrightarrow> exe_fit s proc = Fits \<and> sha_fit s proc = Fits \<and> uid_fit s proc = Fits"
  unfolding matches_process_def fit_defs by (simp split: option.split)

lemma undecidable_for_fits:
  "undecidable_for s proc \<longleftrightarrow>
     Clashes \<notin> {exe_fit s proc, sha_fit s proc, uid_fit s proc} \<and>
     Unknown \<in> {exe_fit s proc, sha_fit s proc, uid_fit s proc}"
  unfolding undecidable_for_def fit_defs
  by (cases "s_exe_path s"; cases "s_exe_sha256 s"; cases "s_uid s";
      cases "p_sha256 proc"; cases "p_uid proc") auto

lemma fit_stable:
  assumes "refines proc' proc"
  shows "exe_fit s proc \<noteq> Unknown \<Longrightarrow> exe_fit s proc' = exe_fit s proc"
    and "sha_fit s proc \<noteq> Unknown \<Longrightarrow> sha_fit s proc' = sha_fit s proc"
    and "uid_fit s proc \<noteq> Unknown \<Longrightarrow> uid_fit s proc' = uid_fit s proc"
  using assms unfolding refines_def fit_defs exe_is_known_def
  by (auto split: option.splits if_splits)

lemma decided_stable:
  assumes "\<not> undecidable_for s proc" "refines proc' proc"
  shows "matches_process s proc' = matches_process s proc"
  using assms(1) fit_stable [OF assms(2), of s]
  unfolding undecidable_for_fits matches_process_fits
  by (cases "exe_fit s proc"; cases "sha_fit s proc"; cases "uid_fit s proc") auto

text \<open>A rule is undecidable for a process exactly when it does not match what is known
  but some completion of the unknown identity (executable, digest or uid) would match.\<close>

theorem undecidable_iff_completable:
  "undecidable_for s proc \<longleftrightarrow>
     \<not> matches_process s proc \<and> (\<exists>proc'. refines proc' proc \<and> matches_process s proc')"
proof
  assume "undecidable_for s proc"
  then show "\<not> matches_process s proc \<and> (\<exists>proc'. refines proc' proc \<and> matches_process s proc')"
    using undecidable_completes [of s proc] matches_not_undecidable [of s proc] by auto
next
  assume "\<not> matches_process s proc \<and> (\<exists>proc'. refines proc' proc \<and> matches_process s proc')"
  then show "undecidable_for s proc" using decided_stable [of s proc] by auto
qed

text \<open>A scope that is not undecidable has its final answer: learning more about the
  process never changes whether it matches.\<close>

theorem decidable_answer_is_final:
  assumes "\<not> undecidable_for s proc" "refines proc' proc"
  shows "matches_process s proc' = matches_process s proc"
  by (rule decided_stable [OF assms])

theorem decidable_answer_is_final_witness:
  "\<not> undecidable_for (any_scope\<lparr>s_uid := Some 0\<rparr>) ((unknown_process 7)\<lparr>p_uid := Some 1000\<rparr>)
   \<and> \<not> matches_process (any_scope\<lparr>s_uid := Some 0\<rparr>)
         ((unknown_process 7)\<lparr>p_uid := Some 1000, p_exe := ''/usr/bin/curl''\<rparr>)"
proof -
  let ?s = "any_scope\<lparr>s_uid := Some 0\<rparr>"
  let ?p = "(unknown_process 7)\<lparr>p_uid := Some 1000\<rparr>"
  have u: "\<not> undecidable_for ?s ?p"
    by (simp add: undecidable_for_def any_scope_def)
  have r: "refines (?p\<lparr>p_exe := ''/usr/bin/curl''\<rparr>) ?p"
    by (simp add: refines_def exe_is_known_def unknown_process_def)
  have "\<not> matches_process ?s ?p"
    by (simp add: matches_process_def any_scope_def)
  with u decidable_answer_is_final [OF u r] show ?thesis by simp
qed

section \<open>Direction and specificity\<close>

lemma specificity_direction: "specificity (s\<lparr>s_direction := d\<rparr>) = specificity s"
  by (simp add: specificity_def)

lemma specificity_le_10: "specificity s \<le> 10"
  unfolding specificity_def by (rule order_trans [OF length_filter_le]) simp

lemma unset_direction_is_outbound:
  "matches_known_connection E (s\<lparr>s_direction := None\<rparr>) conn =
   matches_known_connection E (s\<lparr>s_direction := Some Outbound\<rparr>) conn"
  by (simp add: matches_known_connection_iff protocol_ok_def)

lemma matches_known_direction:
  "matches_known_connection E s conn \<Longrightarrow>
     c_direction conn = (case s_direction s of None \<Rightarrow> Outbound | Some d \<Rightarrow> d)"
  by (simp add: matches_known_connection_iff)

text \<open>A rule that does not say \<open>inbound\<close> never matches an inbound flow, and an unset
  direction is the same rule as an outbound one, in matching and in rank.\<close>

theorem only_inbound_rules_admit_inbound:
  "(scope_matches E s conn proc \<and> c_direction conn = Inbound \<longrightarrow> s_direction s = Some Inbound) \<and>
   scope_matches E (s\<lparr>s_direction := None\<rparr>) conn proc =
     scope_matches E (s\<lparr>s_direction := Some Outbound\<rparr>) conn proc \<and>
   specificity (s\<lparr>s_direction := None\<rparr>) = specificity (s\<lparr>s_direction := Some Outbound\<rparr>)"
proof (intro conjI)
  show "scope_matches E s conn proc \<and> c_direction conn = Inbound \<longrightarrow> s_direction s = Some Inbound"
    by (auto simp: scope_matches_def matches_connection_def
        dest!: matches_known_direction split: option.splits)
  show "scope_matches E (s\<lparr>s_direction := None\<rparr>) conn proc =
     scope_matches E (s\<lparr>s_direction := Some Outbound\<rparr>) conn proc"
    using unset_direction_is_outbound [of E s conn]
    by (simp add: scope_matches_def matches_connection_def matches_process_def)
qed (simp add: specificity_direction)

theorem only_inbound_rules_admit_inbound_witness:
  "s_direction (any_scope\<lparr>s_direction := Some Inbound\<rparr>) = Some Inbound"
proof -
  let ?E = "\<lparr>ipnet_contains = (\<lambda>_ _. True), dt_millis = dt_instant\<rparr>"
  let ?s = "any_scope\<lparr>s_direction := Some Inbound\<rparr>"
  let ?c = "new_connection (Uuid 1, DateTime 0) Tcp Inbound (V4 1) 1 (V4 2) 22"
  have "scope_matches ?E ?s ?c (unknown_process 0) \<and> c_direction ?c = Inbound"
    by (simp add: scope_matches_def matches_process_def matches_connection_def
        matches_known_connection_def any_scope_def new_connection_def)
  then show ?thesis using only_inbound_rules_admit_inbound [of ?E ?s ?c "unknown_process 0"] by blast
qed

section \<open>Accepted rules can fire\<close>

definition gates_accept :: "rule_scope \<Rightarrow> bool" where
  "gates_accept s \<longleftrightarrow>
     reject_hostname_policy s = Inr () \<and> reject_unmatchable_parent s = Inr () \<and>
     reject_unmatchable_exe s = Inr () \<and> reject_inbound_destination_scope s = Inr () \<and>
     reject_unattributable_inbound_scope s = Inr ()"

lemma gates_accept_iff:
  "gates_accept s \<longleftrightarrow>
     s_dst_host s = None \<and> s_parent_exe s = None \<and>
     (\<forall>exe. s_exe_path s = Some exe \<longrightarrow>
        length exe \<le> MAX_EXE_PATH_LEN \<and> exe \<noteq> UNKNOWN_EXE \<and> is_absolute exe) \<and>
     (s_direction s = Some Inbound \<longrightarrow>
        s_dst_net s = None \<and> s_exe_path s = None \<and> s_exe_sha256 s = None \<and> s_uid s = None)"
  by (auto simp: gates_accept_def reject_hostname_policy_def reject_unmatchable_parent_def
      reject_unmatchable_exe_def reject_inbound_destination_scope_def
      reject_unattributable_inbound_scope_def split: option.splits if_splits)

text \<open>A flow and a process built from a scope's own predicates.\<close>

definition flow_for :: "rule_scope \<Rightarrow> (ipnet \<Rightarrow> ip_addr) \<Rightarrow> connection" where
  "flow_for s inside =
     new_connection (Uuid 0, DateTime 0)
       (case s_protocol s of None \<Rightarrow> Tcp | Some p \<Rightarrow> p)
       (case s_direction s of None \<Rightarrow> Outbound | Some d \<Rightarrow> d)
       (case s_src_net s of None \<Rightarrow> V4 0 | Some n \<Rightarrow> inside n)
       (case s_src_port s of None \<Rightarrow> 0 | Some p \<Rightarrow> p)
       (case s_dst_net s of None \<Rightarrow> V4 0 | Some n \<Rightarrow> inside n)
       (case s_dst_port s of None \<Rightarrow> 0 | Some p \<Rightarrow> p)"

definition process_for :: "rule_scope \<Rightarrow> process" where
  "process_for s =
     (unknown_process 0)\<lparr>p_exe := (case s_exe_path s of None \<Rightarrow> UNKNOWN_EXE | Some p \<Rightarrow> p),
       p_sha256 := s_exe_sha256 s, p_uid := s_uid s\<rparr>"

lemma flow_for_matches:
  assumes "\<And>n. ipnet_contains E n (inside n)"
  shows "matches_known_connection E s (flow_for s inside)"
  using assms
  by (auto simp: matches_known_connection_iff protocol_ok_def flow_for_def new_connection_def
      split: option.splits)

text \<open>No rule the gates accept is one that lists, ranks and never fires: some flow and
  some process satisfy it, and an accepted inbound rule fires for flows with no process
  attribution at all.\<close>

theorem accepted_rules_can_fire:
  assumes "gates_accept s" "\<forall>n. ipnet_contains E n (inside n)"
  shows "scope_matches E s (flow_for s inside) (process_for s) \<and>
         (s_direction s = Some Inbound \<longrightarrow>
            scope_matches E s (flow_for s inside) (unknown_process 0))"
proof -
  have "matches_known_connection E s (flow_for s inside)"
    using assms(2) by (intro flow_for_matches) simp
  moreover have "matches_process s (process_for s)"
    using assms(1)
    by (auto simp: gates_accept_iff matches_process_iff process_for_def exe_is_known_def
        unknown_process_def)
  ultimately show ?thesis
    using assms(1)
    by (auto simp: gates_accept_iff scope_matches_def matches_connection_def matches_process_iff)
qed

theorem accepted_rules_can_fire_witness:
  "\<exists>E s inside. gates_accept s \<and> s_direction s = Some Inbound \<and>
     scope_matches E s (flow_for s inside) (unknown_process 0)"
proof -
  let ?s = "any_scope\<lparr>s_direction := Some Inbound, s_dst_port := Some 22,
              s_src_net := Some (IpNet (V4 3232235520) 16)\<rparr>"
  let ?E = "\<lparr>ipnet_contains = (\<lambda>n ip. ip = net_addr n), dt_millis = dt_instant\<rparr>"
  have g: "gates_accept ?s" by (simp add: gates_accept_iff any_scope_def)
  have n: "\<forall>n. ipnet_contains ?E n (net_addr n)" by simp
  from accepted_rules_can_fire [OF g n] g show ?thesis
    by (intro exI [of _ ?E] exI [of _ ?s] exI [of _ net_addr]) simp
qed

end
