(* ===== verification/RuleLookup.thy ===== *)
theory RuleLookup
  imports RuleScope "HOL-Library.Product_Lexorder" "HOL-Library.Multiset"
begin

text \<open>
  \<open>Rule::is_expired\<close>, \<open>RuleSet::sort_deterministic\<close> and \<open>RuleSet::lookup\<close> of
  \<open>crates/cfc-core/src/rule.rs\<close>.  The walk keeps its four mutable locals in a record and is
  a recursion over the live rules.  Its specification is \<open>decide\<close>, the documented precedence
  over rules whose matching is known; the main theorem says that a rule answers only if
  every way the undecided rules can turn out gives an answer on the same side (open or
  closed).
\<close>

section \<open>Expiry\<close>

definition is_expired :: "ext \<Rightarrow> rule \<Rightarrow> int \<Rightarrow> bool" where
  "is_expired E r now_unix_ms =
     (case r_duration r of
        Seconds n \<Rightarrow> dt_millis E (r_created_at r) + uint n * 1000 \<le> now_unix_ms
      | Once \<Rightarrow> False | UntilRestart \<Rightarrow> False | Always \<Rightarrow> False)"

definition is_live :: "ext \<Rightarrow> int \<Rightarrow> rule \<Rightarrow> bool" where
  "is_live E now r \<longleftrightarrow> r_enabled r \<and> \<not> is_expired E r now"

lemma is_expired_mono: "is_expired E r now \<Longrightarrow> now \<le> later \<Longrightarrow> is_expired E r later"
  by (auto simp: is_expired_def split: duration.splits)

section \<open>Precedence order\<close>

fun action_rank :: "action \<Rightarrow> nat" where
  "action_rank Deny = 0"
| "action_rank Reject = 1"
| "action_rank Allow = 2"

definition rule_key :: "rule \<Rightarrow> nat reverse \<times> nat \<times> datetime \<times> uuid" where
  "rule_key r =
     (Reverse (specificity (r_scope r)), action_rank (r_action r), r_created_at r, r_id r)"

definition sort_deterministic :: "rule list \<Rightarrow> rule list" where
  "sort_deterministic rules = sort_key rule_key rules"

definition in_precedence_order :: "rule list \<Rightarrow> bool" where
  "in_precedence_order rules \<longleftrightarrow> sorted (map rule_key rules)"

definition distinct_ids :: "rule list \<Rightarrow> bool" where
  "distinct_ids rules \<longleftrightarrow> distinct (map r_id rules)"

lemma in_order_sort [simp]: "in_precedence_order (sort_deterministic rules)"
  by (simp add: in_precedence_order_def sort_deterministic_def)

lemma mset_sort_deterministic [simp]: "mset (sort_deterministic rules) = mset rules"
  by (simp add: sort_deterministic_def)

lemma set_sort_deterministic [simp]: "set (sort_deterministic rules) = set rules"
  by (simp add: sort_deterministic_def)

lemma length_sort_deterministic [simp]: "length (sort_deterministic rules) = length rules"
  by (simp add: sort_deterministic_def)

lemma distinct_ids_mset:
  assumes "mset xs = mset ys"
  shows "distinct_ids xs = distinct_ids ys"
proof -
  have "mset (map r_id xs) = mset (map r_id ys)" using assms by (metis mset_map)
  then show ?thesis unfolding distinct_ids_def by (metis mset_eq_imp_distinct_iff)
qed

lemma distinct_ids_sort [simp]: "distinct_ids (sort_deterministic rules) = distinct_ids rules"
  by (rule distinct_ids_mset) simp

lemma rule_key_inj: "distinct_ids rules \<Longrightarrow> inj_on rule_key (set rules)"
  unfolding distinct_ids_def by (auto simp: inj_on_def rule_key_def distinct_map)

lemma sort_idem: "in_precedence_order rules \<Longrightarrow> sort_deterministic rules = rules"
  unfolding in_precedence_order_def sort_deterministic_def by (rule sort_key_id_if_sorted)

text \<open>The precedence order does not depend on the order storage returned the rules in:
  two loads of the same rules sort to the same list.\<close>

theorem sort_deterministic_canonical:
  assumes "mset rules = mset rules'" "distinct_ids rules"
  shows "sort_deterministic rules = sort_deterministic rules' \<and>
         in_precedence_order (sort_deterministic rules)"
proof -
  have "inj_on rule_key (set (sort_deterministic rules))"
    using assms(2) rule_key_inj by simp
  moreover have "mset (sort_deterministic rules) = mset (sort_deterministic rules')"
    using assms(1) by simp
  moreover have "sorted (map rule_key (sort_deterministic rules))"
      "sorted (map rule_key (sort_deterministic rules'))"
    by (simp_all add: sort_deterministic_def)
  ultimately have "sort_deterministic rules = sort_deterministic rules'"
    by (metis properties_for_sort_key sort_deterministic_def sort_key_inj_key_eq)
  then show ?thesis by simp
qed

theorem sort_deterministic_canonical_witness:
  "\<exists>r r'. r \<noteq> r' \<and> sort_deterministic [r, r'] = sort_deterministic [r', r]"
proof -
  let ?r = "new_rule (Uuid 1, DateTime 0) ''a'' Allow any_scope"
  let ?r' = "new_rule (Uuid 2, DateTime 0) ''b'' Deny any_scope"
  have m: "mset [?r, ?r'] = mset [?r', ?r]" by simp
  have d: "distinct_ids [?r, ?r']" by (simp add: distinct_ids_def new_rule_def)
  have "?r \<noteq> ?r'" by (simp add: new_rule_def)
  with sort_deterministic_canonical [OF m d] show ?thesis by blast
qed

section \<open>The walk\<close>

text \<open>The answer of a lookup, and the mutable locals of the loop.\<close>

datatype match = MatchRule rule | MatchUndecidable rule | MatchNone

record walk =
  w_undecided :: "rule option"
  w_maybe_allow :: bool
  w_maybe_closed :: bool
  w_generic_allow :: "rule option"

definition walk_init :: walk where
  "walk_init = \<lparr>w_undecided = None, w_maybe_allow = False, w_maybe_closed = False,
                w_generic_allow = None\<rparr>"

text \<open>The uncertain branch: remember the rule, a hostname rule taking the slot from an
  identity one, and note which way it could go.\<close>

definition note_undecided :: "walk \<Rightarrow> rule \<Rightarrow> walk" where
  "note_undecided w r =
     (let w' = (if (case w_undecided w of None \<Rightarrow> True
                    | Some u \<Rightarrow> s_dst_host (r_scope u) = None \<and> s_dst_host (r_scope r) \<noteq> None)
                then w\<lparr>w_undecided := Some r\<rparr> else w) in
      if r_action r = Allow then w'\<lparr>w_maybe_allow := True\<rparr> else w'\<lparr>w_maybe_closed := True\<rparr>)"

fun lookup_walk :: "ext \<Rightarrow> connection \<Rightarrow> process \<Rightarrow> walk \<Rightarrow> rule list \<Rightarrow> walk \<times> rule option" where
  "lookup_walk E conn proc w [] = (w, None)"
| "lookup_walk E conn proc w (r # rs) =
     (if w_generic_allow w \<noteq> None \<and> \<not> names_program (r_scope r) then lookup_walk E conn proc w rs
      else if \<not> matches_known_connection E (r_scope r) conn then lookup_walk E conn proc w rs
      else
        let missing_process = undecidable_for (r_scope r) proc in
        if \<not> missing_process \<and> \<not> matches_process (r_scope r) proc then lookup_walk E conn proc w rs
        else if missing_process \<or> s_dst_host (r_scope r) \<noteq> None then
          lookup_walk E conn proc (note_undecided w r) rs
        else if w_generic_allow w = None \<and> r_action r = Allow \<and> \<not> names_program (r_scope r) then
          lookup_walk E conn proc (w\<lparr>w_generic_allow := Some r\<rparr>) rs
        else (w, Some r))"

text \<open>What the function does with the walk's locals after the loop.\<close>

definition finish_walk :: "walk \<times> rule option \<Rightarrow> match" where
  "finish_walk res =
     (case res of (w, winner) \<Rightarrow>
       (case (case winner of Some r \<Rightarrow> Some r | None \<Rightarrow> w_generic_allow w) of
          None \<Rightarrow> (case w_undecided w of None \<Rightarrow> MatchNone | Some u \<Rightarrow> MatchUndecidable u)
        | Some r \<Rightarrow>
            let settled = (if r_action r = Allow then \<not> w_maybe_closed w else \<not> w_maybe_allow w) in
            (case w_undecided w of
               Some first \<Rightarrow> if \<not> settled then MatchUndecidable first else MatchRule r
             | None \<Rightarrow> MatchRule r)))"

definition lookup :: "ext \<Rightarrow> rule list \<Rightarrow> connection \<Rightarrow> process \<Rightarrow> int \<Rightarrow> match" where
  "lookup E rules conn proc now =
     finish_walk (lookup_walk E conn proc walk_init (filter (is_live E now) rules))"

fun match_rule :: "match \<Rightarrow> rule option" where
  "match_rule (MatchRule r) = Some r"
| "match_rule _ = None"

section \<open>The specification: precedence over decided rules\<close>

text \<open>
  \<open>definite\<close> rules certainly match the flow, \<open>uncertain\<close> ones may: their connection
  predicates hold and either the process identity is incomplete or they name a host.
\<close>

definition definite :: "ext \<Rightarrow> connection \<Rightarrow> process \<Rightarrow> rule \<Rightarrow> bool" where
  "definite E conn proc r \<longleftrightarrow> scope_matches E (r_scope r) conn proc"

definition uncertain :: "ext \<Rightarrow> connection \<Rightarrow> process \<Rightarrow> rule \<Rightarrow> bool" where
  "uncertain E conn proc r \<longleftrightarrow>
     matches_known_connection E (r_scope r) conn \<and>
     (undecidable_for (r_scope r) proc \<or>
      matches_process (r_scope r) proc \<and> s_dst_host (r_scope r) \<noteq> None)"

definition generic_allow :: "rule \<Rightarrow> bool" where
  "generic_allow r \<longleftrightarrow> r_action r = Allow \<and> \<not> names_program (r_scope r)"

definition program_refusal :: "rule \<Rightarrow> bool" where
  "program_refusal r \<longleftrightarrow> r_action r \<noteq> Allow \<and> names_program (r_scope r)"

text \<open>
  The documented contract over the rules that match, in precedence order: the first rule
  answers, except that a generic Allow yields to the first rule below it that names a
  program.
\<close>

fun decide :: "rule list \<Rightarrow> rule option" where
  "decide [] = None"
| "decide (r # rs) =
     (if generic_allow r
      then Some (case find (\<lambda>q. names_program (r_scope q)) rs of Some q \<Rightarrow> q | None \<Rightarrow> r)
      else Some r)"

text \<open>One way the uncertain rules can turn out: those of \<open>S\<close> match, the others do not.\<close>

definition resolved :: "ext \<Rightarrow> connection \<Rightarrow> process \<Rightarrow> rule set \<Rightarrow> rule list \<Rightarrow> rule list" where
  "resolved E conn proc S rules =
     filter (\<lambda>r. definite E conn proc r \<or> uncertain E conn proc r \<and> r \<in> S) rules"

lemma definite_not_uncertain: "definite E conn proc r \<Longrightarrow> \<not> uncertain E conn proc r"
  by (auto simp: definite_def uncertain_def scope_matches_def matches_connection_def
      dest: matches_not_undecidable)

text \<open>The three ways a rule can stand to a flow, as the walk tests them.\<close>

lemma lookup_walk_Cons:
  "lookup_walk E conn proc w (r # rs) =
     (if w_generic_allow w \<noteq> None \<and> \<not> names_program (r_scope r) then lookup_walk E conn proc w rs
      else if uncertain E conn proc r then lookup_walk E conn proc (note_undecided w r) rs
      else if definite E conn proc r then
        (if w_generic_allow w = None \<and> generic_allow r
         then lookup_walk E conn proc (w\<lparr>w_generic_allow := Some r\<rparr>) rs else (w, Some r))
      else lookup_walk E conn proc w rs)"
  using matches_not_undecidable [of "r_scope r" proc]
  by (auto simp: Let_def uncertain_def definite_def scope_matches_def matches_connection_def
      generic_allow_def)

declare lookup_walk.simps(2) [simp del]

section \<open>Lemmas on the walk\<close>

abbreviation opens :: "rule \<Rightarrow> bool" where "opens r \<equiv> r_action r = Allow"

lemma note_undecided_simps [simp]:
  "w_generic_allow (note_undecided w r) = w_generic_allow w"
  "w_maybe_allow (note_undecided w r) \<longleftrightarrow> w_maybe_allow w \<or> opens r"
  "w_maybe_closed (note_undecided w r) \<longleftrightarrow> w_maybe_closed w \<or> \<not> opens r"
  "w_undecided (note_undecided w r) \<noteq> None"
  by (auto simp: note_undecided_def Let_def split: option.splits)

lemma note_undecided_slot:
  "w_undecided (note_undecided w r) \<in> {w_undecided w, Some r}"
  by (auto simp: note_undecided_def Let_def split: option.splits)

text \<open>Flags are never cleared.\<close>

lemma lookup_walk_flags:
  assumes "lookup_walk E conn proc w rs = (w', res)"
  shows "(w_maybe_allow w \<longrightarrow> w_maybe_allow w') \<and> (w_maybe_closed w \<longrightarrow> w_maybe_closed w')"
  using assms
  by (induction rs arbitrary: w) (auto simp: lookup_walk_Cons split: if_splits)

lemma lookup_walk_held:
  assumes "lookup_walk E conn proc w rs = (w', res)" "w_generic_allow w = Some g"
  shows "w_generic_allow w' = Some g"
  using assms
  by (induction rs arbitrary: w) (auto simp: lookup_walk_Cons split: if_splits)

text \<open>What the walk returns: rules of the list, of the right kind.\<close>

lemma lookup_walk_winner:
  assumes "lookup_walk E conn proc w rs = (w', Some r)"
  shows "r \<in> set rs \<and> definite E conn proc r \<and> \<not> generic_allow r"
  using assms
  by (induction rs arbitrary: w)
     (auto simp: lookup_walk_Cons generic_allow_def split: if_splits)

lemma lookup_walk_generic:
  assumes "lookup_walk E conn proc w rs = (w', res)" "w_generic_allow w' = Some g"
  shows "w_generic_allow w = Some g \<or> g \<in> set rs \<and> definite E conn proc g \<and> generic_allow g"
  using assms
proof (induction rs arbitrary: w)
  case Nil
  then show ?case by simp
next
  case (Cons a rs)
  from Cons.prems Cons.IH [of w] Cons.IH [of "note_undecided w a"]
    Cons.IH [of "w\<lparr>w_generic_allow := Some a\<rparr>"]
  show ?case by (auto simp: lookup_walk_Cons split: if_splits)
qed

lemma lookup_walk_undecided:
  assumes "lookup_walk E conn proc w rs = (w', res)" "w_undecided w' = Some u"
  shows "w_undecided w = Some u \<or> u \<in> set rs \<and> uncertain E conn proc u"
  using assms
proof (induction rs arbitrary: w)
  case Nil
  then show ?case by simp
next
  case (Cons a rs)
  show ?case
  proof (cases "uncertain E conn proc a \<and> \<not> (w_generic_allow w \<noteq> None \<and> \<not> names_program (r_scope a))")
    case True
    with Cons.prems(1) have "lookup_walk E conn proc (note_undecided w a) rs = (w', res)"
      by (simp add: lookup_walk_Cons split: if_splits)
    from Cons.IH [OF this Cons.prems(2)] True note_undecided_slot [of w a] show ?thesis by auto
  next
    case False
    with Cons.prems Cons.IH [of w] Cons.IH [of "w\<lparr>w_generic_allow := Some a\<rparr>"] show ?thesis
      by (auto simp: lookup_walk_Cons split: if_splits)
  qed
qed

text \<open>Without a flag set, nothing was noted.\<close>

lemma lookup_walk_certain:
  assumes "\<forall>r \<in> set rs. \<not> uncertain E conn proc r"
  shows "w_undecided (fst (lookup_walk E conn proc w rs)) = w_undecided w"
  using assms by (induction rs arbitrary: w) (auto simp: lookup_walk_Cons)

lemma resolved_simps [simp]:
  "resolved E conn proc S [] = []"
  "resolved E conn proc S (r # rs) =
     (if definite E conn proc r \<or> uncertain E conn proc r \<and> r \<in> S
      then r # resolved E conn proc S rs else resolved E conn proc S rs)"
  by (simp_all add: resolved_def)

abbreviation first_program :: "rule list \<Rightarrow> rule option" where
  "first_program rs \<equiv> find (\<lambda>q. names_program (r_scope q)) rs"

text \<open>Under a held generic Allow, the first program rule of every resolution is on the side
  the flags leave open.\<close>

lemma held_open:
  assumes "lookup_walk E conn proc w rs = (w', res)" "w_generic_allow w \<noteq> None"
    "\<forall>r. res = Some r \<longrightarrow> opens r" "\<not> w_maybe_closed w'"
  shows "\<forall>q. first_program (resolved E conn proc S rs) = Some q \<longrightarrow> opens q"
  using assms
  by (induction rs arbitrary: w)
     (auto simp: lookup_walk_Cons split: if_splits dest: lookup_walk_flags)

lemma held_closed:
  assumes "lookup_walk E conn proc w rs = (w', Some r)" "w_generic_allow w \<noteq> None"
    "\<not> opens r" "\<not> w_maybe_allow w'"
  shows "\<exists>q. first_program (resolved E conn proc S rs) = Some q \<and> \<not> opens q"
  using assms
  by (induction rs arbitrary: w)
     (auto simp: lookup_walk_Cons split: if_splits dest: lookup_walk_flags)

lemma free_open:
  assumes "lookup_walk E conn proc w rs = (w', res)" "w_generic_allow w = None"
    "\<forall>r. res = Some r \<longrightarrow> opens r" "\<not> w_maybe_closed w'"
  shows "(\<forall>q. first_program (resolved E conn proc S rs) = Some q \<longrightarrow> opens q) \<and>
         (\<forall>d. decide (resolved E conn proc S rs) = Some d \<longrightarrow> opens d)"
  using assms
proof (induction rs arbitrary: w)
  case Nil
  then show ?case by simp
next
  case (Cons a rs)
  show ?case
  proof (cases "uncertain E conn proc a")
    case True
    with Cons.prems have walk: "lookup_walk E conn proc (note_undecided w a) rs = (w', res)"
      by (simp add: lookup_walk_Cons)
    with lookup_walk_flags [OF walk] Cons.prems(4) have "opens a" by auto
    moreover from Cons.IH [OF walk] Cons.prems have
      "(\<forall>q. first_program (resolved E conn proc S rs) = Some q \<longrightarrow> opens q) \<and>
       (\<forall>d. decide (resolved E conn proc S rs) = Some d \<longrightarrow> opens d)" by simp
    ultimately show ?thesis
      using definite_not_uncertain [of E conn proc a] True
      by (cases "a \<in> S"; cases "first_program (resolved E conn proc S rs)") simp_all
  next
    case False
    show ?thesis
    proof (cases "definite E conn proc a")
      case True
      show ?thesis
      proof (cases "generic_allow a")
        case True
        with \<open>definite E conn proc a\<close> False Cons.prems have
          "lookup_walk E conn proc (w\<lparr>w_generic_allow := Some a\<rparr>) rs = (w', res)"
          by (simp add: lookup_walk_Cons)
        from held_open [OF this _ Cons.prems(3,4), of S] True \<open>definite E conn proc a\<close>
        show ?thesis by (auto simp: generic_allow_def split: option.splits)
      next
        case nga: False
        with \<open>definite E conn proc a\<close> False Cons.prems have "res = Some a"
          by (simp add: lookup_walk_Cons)
        with nga Cons.prems(3) \<open>definite E conn proc a\<close> show ?thesis
          by (auto simp: generic_allow_def)
      qed
    next
      case nd: False
      with False Cons.prems have "lookup_walk E conn proc w rs = (w', res)"
        by (simp add: lookup_walk_Cons)
      from Cons.IH [OF this Cons.prems(2,3,4)] nd False show ?thesis by simp
    qed
  qed
qed

lemma free_closed:
  assumes "lookup_walk E conn proc w rs = (w', Some r)" "w_generic_allow w = None"
    "\<not> opens r" "\<not> w_maybe_allow w'"
  shows "\<exists>d. decide (resolved E conn proc S rs) = Some d \<and> \<not> opens d"
  using assms
proof (induction rs arbitrary: w)
  case Nil
  then show ?case by simp
next
  case (Cons a rs)
  show ?case
  proof (cases "uncertain E conn proc a")
    case True
    with Cons.prems have walk: "lookup_walk E conn proc (note_undecided w a) rs = (w', Some r)"
      by (simp add: lookup_walk_Cons)
    with lookup_walk_flags [OF walk] Cons.prems(4) have "\<not> opens a" by auto
    with Cons.IH [OF walk] Cons.prems True show ?thesis
      by (auto simp: generic_allow_def dest: definite_not_uncertain)
  next
    case False
    then show ?thesis
      using Cons.prems Cons.IH [of w] held_closed [of E conn proc "w\<lparr>w_generic_allow := Some a\<rparr>" rs w' r S]
      by (auto simp: lookup_walk_Cons generic_allow_def split: if_splits option.splits)
  qed
qed

lemma resolved_nonempty:
  assumes "definite E conn proc r" "r \<in> set rs"
  shows "decide (resolved E conn proc S rs) \<noteq> None"
proof -
  have "r \<in> set (resolved E conn proc S rs)"
    using assms by (simp add: resolved_def)
  then show ?thesis by (cases "resolved E conn proc S rs") auto
qed

section \<open>Correctness of the lookup\<close>

lemma lookup_MatchRule:
  assumes "lookup E rules conn proc now = MatchRule r"
  obtains w' res where
    "lookup_walk E conn proc walk_init (filter (is_live E now) rules) = (w', res)"
    "res = Some r \<or> res = None \<and> w_generic_allow w' = Some r"
    "w_undecided w' = None \<or> (if opens r then \<not> w_maybe_closed w' else \<not> w_maybe_allow w')"
proof -
  obtain w' res where walk:
    "lookup_walk E conn proc walk_init (filter (is_live E now) rules) = (w', res)" by force
  from assms walk have
    "res = Some r \<or> res = None \<and> w_generic_allow w' = Some r"
    "w_undecided w' = None \<or> (if opens r then \<not> w_maybe_closed w' else \<not> w_maybe_allow w')"
    by (auto simp: lookup_def finish_walk_def Let_def split: option.splits if_splits)
  with walk show ?thesis by (rule that)
qed

text \<open>A flag is only ever set together with the slot, and the slot is never emptied.\<close>

lemma lookup_walk_slot:
  assumes "lookup_walk E conn proc w rs = (w', res)" "w_undecided w \<noteq> None"
  shows "w_undecided w' \<noteq> None"
  using assms
proof (induction rs arbitrary: w)
  case Nil
  then show ?case by simp
next
  case (Cons b rs)
  from Cons.prems Cons.IH [of w] Cons.IH [of "note_undecided w b"]
    Cons.IH [of "w\<lparr>w_generic_allow := Some b\<rparr>"]
  show ?case by (auto simp: lookup_walk_Cons simp del: not_None_eq split: if_splits)
qed

lemma lookup_walk_flag_slot:
  assumes "lookup_walk E conn proc w rs = (w', res)" "w_undecided w' = None"
  shows "w_maybe_allow w' = w_maybe_allow w \<and> w_maybe_closed w' = w_maybe_closed w"
  using assms
proof (induction rs arbitrary: w)
  case Nil
  then show ?case by simp
next
  case (Cons a rs)
  from Cons.prems Cons.IH [of w] Cons.IH [of "w\<lparr>w_generic_allow := Some a\<rparr>"]
    lookup_walk_slot [of E conn proc "note_undecided w a" rs w' res]
  show ?case by (auto simp: lookup_walk_Cons split: if_splits)
qed

lemma settled_flags:
  assumes "lookup E rules conn proc now = MatchRule r"
  obtains w' res where
    "lookup_walk E conn proc walk_init (filter (is_live E now) rules) = (w', res)"
    "res = Some r \<or> res = None \<and> w_generic_allow w' = Some r"
    "opens r \<Longrightarrow> \<not> w_maybe_closed w'" "\<not> opens r \<Longrightarrow> \<not> w_maybe_allow w'"
proof (rule lookup_MatchRule [OF assms])
  fix w' res
  assume walk: "lookup_walk E conn proc walk_init (filter (is_live E now) rules) = (w', res)"
    and res: "res = Some r \<or> res = None \<and> w_generic_allow w' = Some r"
    and fl: "w_undecided w' = None \<or> (if opens r then \<not> w_maybe_closed w' else \<not> w_maybe_allow w')"
  from fl lookup_walk_flag_slot [OF walk] have "opens r \<Longrightarrow> \<not> w_maybe_closed w'" "\<not> opens r \<Longrightarrow> \<not> w_maybe_allow w'"
    by (auto simp: walk_init_def split: if_splits)
  with walk res show ?thesis by (rule that)
qed

lemma lookup_rule_definite:
  assumes "lookup E rules conn proc now = MatchRule r"
  shows "r \<in> set rules \<and> is_live E now r \<and> definite E conn proc r"
proof (rule settled_flags [OF assms])
  fix w' res
  assume walk: "lookup_walk E conn proc walk_init (filter (is_live E now) rules) = (w', res)"
    and res: "res = Some r \<or> res = None \<and> w_generic_allow w' = Some r"
  show ?thesis
    using res lookup_walk_generic [OF walk, of r] walk
    by (auto simp: walk_init_def dest!: lookup_walk_winner)
qed

text \<open>C2: a rule answers only if the unknowns cannot change the side of the answer.  Whatever
  subset of the undecided rules would turn out to match, the documented precedence over the
  rules that then match gives an answer, and it opens the flow exactly when the rule that
  answered does.\<close>

theorem lookup_answer_survives_unknowns:
  assumes "lookup E rules conn proc now = MatchRule r"
  shows "\<exists>d. decide (resolved E conn proc S (filter (is_live E now) rules)) = Some d \<and>
             (r_action d = Allow \<longleftrightarrow> r_action r = Allow)"
proof (rule settled_flags [OF assms])
  let ?live = "filter (is_live E now) rules"
  fix w' res
  assume walk: "lookup_walk E conn proc walk_init ?live = (w', res)"
    and res: "res = Some r \<or> res = None \<and> w_generic_allow w' = Some r"
    and fl: "opens r \<Longrightarrow> \<not> w_maybe_closed w'" "\<not> opens r \<Longrightarrow> \<not> w_maybe_allow w'"
  have init: "w_generic_allow walk_init = None" by (simp add: walk_init_def)
  from lookup_rule_definite [OF assms] obtain d where
    d: "decide (resolved E conn proc S ?live) = Some d"
    using resolved_nonempty [of E conn proc r ?live S] by auto
  show ?thesis
  proof (cases "opens r")
    case True
    have "\<forall>r'. res = Some r' \<longrightarrow> opens r'" using res True by auto
    with free_open [OF walk init _ fl(1) [OF True], of S] d True show ?thesis by auto
  next
    case False
    have "res = Some r"
      using res False lookup_walk_generic [OF walk, of r] init by (auto simp: generic_allow_def)
    with free_closed [of E conn proc walk_init ?live w' r S] walk init False fl(2) [OF False] d
    show ?thesis by auto
  qed
qed

theorem lookup_answer_survives_unknowns_witness:
  "\<exists>E a b conn proc. uncertain E conn proc a \<and> lookup E [a, b] conn proc 0 = MatchRule b \<and>
     (\<exists>d. decide (resolved E conn proc {a} (filter (is_live E 0) [a, b])) = Some d \<and>
          r_action d = Allow)"
proof -
  let ?E = "\<lparr>ipnet_contains = (\<lambda>_ _. True), dt_millis = dt_instant\<rparr>"
  let ?a = "new_rule (Uuid 1, DateTime 0) ''uid'' Allow (any_scope\<lparr>s_uid := Some 0, s_dst_port := Some 443\<rparr>)"
  let ?b = "new_rule (Uuid 2, DateTime 0) ''https'' Allow (any_scope\<lparr>s_dst_port := Some 443\<rparr>)"
  let ?c = "new_connection (Uuid 3, DateTime 0) Tcp Outbound (V4 1) 1 (V4 2) 443"
  let ?p = "unknown_process 7"
  have unc: "uncertain ?E ?c ?p ?a"
    by (simp add: uncertain_def matches_known_connection_iff protocol_ok_def undecidable_for_def
        new_rule_def any_scope_def new_connection_def unknown_process_def)
  have l: "lookup ?E [?a, ?b] ?c ?p 0 = MatchRule ?b"
    by (simp add: lookup_def finish_walk_def lookup_walk_Cons uncertain_def definite_def
        is_live_def is_expired_def scope_matches_def matches_connection_def generic_allow_def
        matches_known_connection_iff protocol_ok_def undecidable_for_def matches_process_def
        new_rule_def any_scope_def new_connection_def unknown_process_def names_program_def
        walk_init_def note_undecided_def)
  from lookup_answer_survives_unknowns [OF l, of "{?a}"] unc l show ?thesis
    by (intro exI [of _ ?E] exI [of _ ?a] exI [of _ ?b] exI [of _ ?c] exI [of _ ?p])
       (simp add: new_rule_def)
qed

lemma exact_held:
  assumes "\<forall>r \<in> set rs. \<not> uncertain E conn proc r" "w_generic_allow w \<noteq> None"
  shows "lookup_walk E conn proc w rs = (w, first_program (filter (definite E conn proc) rs))"
  using assms by (induction rs) (auto simp: lookup_walk_Cons)

lemma exact_free:
  assumes "\<forall>r \<in> set rs. \<not> uncertain E conn proc r" "w_generic_allow w = None"
    "w_undecided w = None"
  shows "finish_walk (lookup_walk E conn proc w rs) =
    (case decide (filter (definite E conn proc) rs) of None \<Rightarrow> MatchNone | Some r \<Rightarrow> MatchRule r)"
  using assms
  by (induction rs)
     (auto simp: lookup_walk_Cons exact_held finish_walk_def Let_def split: option.splits)

text \<open>C3: for a flow whose process is fully identified and with no legacy hostname rule in
  play, the lookup computes exactly the documented precedence over the rules that match.\<close>

theorem lookup_exact_when_certain:
  assumes "\<forall>r \<in> set rules. is_live E now r \<longrightarrow> \<not> uncertain E conn proc r"
  shows "lookup E rules conn proc now =
    (case decide (filter (definite E conn proc) (filter (is_live E now) rules)) of
       None \<Rightarrow> MatchNone | Some r \<Rightarrow> MatchRule r)"
  unfolding lookup_def using assms by (intro exact_free) (auto simp: walk_init_def)

theorem lookup_exact_when_certain_witness:
  "\<exists>E b conn proc. lookup E [b] conn proc 0 = MatchRule b"
proof -
  let ?E = "\<lparr>ipnet_contains = (\<lambda>_ _. True), dt_millis = dt_instant\<rparr>"
  let ?b = "new_rule (Uuid 2, DateTime 0) ''https'' Allow (any_scope\<lparr>s_dst_port := Some 443\<rparr>)"
  let ?c = "new_connection (Uuid 3, DateTime 0) Tcp Outbound (V4 1) 1 (V4 2) 443"
  let ?p = "unknown_process 7"
  have h: "\<forall>r \<in> set [?b]. is_live ?E 0 r \<longrightarrow> \<not> uncertain ?E ?c ?p r"
    by (simp add: uncertain_def undecidable_for_def new_rule_def any_scope_def)
  have "lookup ?E [?b] ?c ?p 0 = MatchRule ?b"
    by (subst lookup_exact_when_certain [OF h])
       (simp add: definite_def is_live_def is_expired_def scope_matches_def matches_connection_def
        generic_allow_def matches_known_connection_iff protocol_ok_def matches_process_def
        new_rule_def any_scope_def new_connection_def names_program_def)
  then show ?thesis by blast
qed

lemma lookup_walk_program_wins:
  assumes "lookup_walk E conn proc w rs = (w', res)"
    "d \<in> set rs" "definite E conn proc d" "names_program (r_scope d)"
  shows "res \<noteq> None"
  using assms
proof (induction rs arbitrary: w)
  case Nil
  then show ?case by simp
next
  case (Cons a rs)
  then show ?case
    using definite_not_uncertain [of E conn proc d]
    by (auto simp: lookup_walk_Cons generic_allow_def split: if_splits)
qed

text \<open>"deny this program" means that program.  While a live Deny or Reject that names the
  program matches the flow, no Allow that names none can be the answer, whatever their ranks.\<close>

theorem program_refusal_beats_generic_allow:
  assumes "d \<in> set rules" "is_live E now d" "definite E conn proc d" "program_refusal d"
    "lookup E rules conn proc now = MatchRule r"
  shows "\<not> generic_allow r"
proof (rule settled_flags [OF assms(5)])
  fix w' res
  assume walk: "lookup_walk E conn proc walk_init (filter (is_live E now) rules) = (w', res)"
    and res: "res = Some r \<or> res = None \<and> w_generic_allow w' = Some r"
  from lookup_walk_program_wins [OF walk, of d] assms have "res \<noteq> None"
    by (simp add: program_refusal_def)
  with res walk lookup_walk_winner show ?thesis by auto
qed

theorem program_refusal_beats_generic_allow_witness:
  "\<exists>E d g conn proc. generic_allow g \<and> specificity (r_scope d) < specificity (r_scope g) \<and>
     lookup E (sort_deterministic [d, g]) conn proc 0 = MatchRule d"
proof -
  let ?E = "\<lparr>ipnet_contains = (\<lambda>_ _. True), dt_millis = dt_instant\<rparr>"
  let ?d = "new_rule (Uuid 1, DateTime 0) ''curl'' Deny (any_scope\<lparr>s_exe_path := Some ''/usr/bin/curl''\<rparr>)"
  let ?g = "new_rule (Uuid 2, DateTime 0) ''https'' Allow
              (any_scope\<lparr>s_dst_port := Some 443, s_protocol := Some Tcp\<rparr>)"
  let ?c = "new_connection (Uuid 3, DateTime 0) Tcp Outbound (V4 1) 1 (V4 2) 443"
  let ?p = "(unknown_process 7)\<lparr>p_exe := ''/usr/bin/curl''\<rparr>"
  have sorted: "sort_deterministic [?d, ?g] = [?g, ?d]"
    by (simp add: sort_deterministic_def rule_key_def specificity_def narrows_def new_rule_def
        any_scope_def less_eq_reverse_def less_reverse_def)
  have d: "definite ?E ?c ?p ?d"
    by (simp add: definite_def scope_matches_def matches_connection_def
        matches_known_connection_iff protocol_ok_def matches_process_def exe_is_known_def
        UNKNOWN_EXE_def new_rule_def any_scope_def new_connection_def unknown_process_def)
  have l: "lookup ?E [?g, ?d] ?c ?p 0 = MatchRule ?d"
    using d
    by (simp add: lookup_def finish_walk_def lookup_walk_Cons uncertain_def
        is_live_def is_expired_def generic_allow_def definite_def scope_matches_def
        matches_connection_def matches_known_connection_iff protocol_ok_def undecidable_for_def
        matches_process_def exe_is_known_def UNKNOWN_EXE_def
        new_rule_def any_scope_def new_connection_def names_program_def walk_init_def)
  have "\<not> generic_allow ?d"
    using program_refusal_beats_generic_allow [of ?d "[?g, ?d]" ?E 0 ?c ?p ?d] l d
    by (simp add: is_live_def is_expired_def program_refusal_def names_program_def new_rule_def any_scope_def)
  moreover have "generic_allow ?g" "specificity (r_scope ?d) < specificity (r_scope ?g)"
    by (simp_all add: generic_allow_def names_program_def specificity_def narrows_def new_rule_def any_scope_def)
  ultimately show ?thesis using l sorted by metis
qed

lemma held_winner_names:
  assumes "lookup_walk E conn proc w rs = (w', Some r)" "w_generic_allow w \<noteq> None"
  shows "names_program (r_scope r)"
  using assms by (induction rs arbitrary: w) (auto simp: lookup_walk_Cons split: if_splits)

lemma lookup_walk_rank:
  assumes "lookup_walk E conn proc w rs = (w', res)" "sorted (map rule_key rs)"
    "q \<in> set rs" "definite E conn proc q"
  shows "(\<forall>r. res = Some r \<longrightarrow> names_program (r_scope q) \<or> \<not> names_program (r_scope r) \<longrightarrow>
            rule_key r \<le> rule_key q) \<and>
         (res = None \<longrightarrow> w_generic_allow w = None \<longrightarrow>
            (\<forall>g. w_generic_allow w' = Some g \<longrightarrow> rule_key g \<le> rule_key q))"
  using assms
proof (induction rs arbitrary: w)
  case Nil
  then show ?case by simp
next
  case (Cons a rs)
  have a_le: "rule_key a \<le> rule_key q" using Cons.prems by auto
  consider (skip) "lookup_walk E conn proc w rs = (w', res)" "a \<noteq> q \<or> w_generic_allow w \<noteq> None \<and> \<not> names_program (r_scope q)"
    | (unc) "lookup_walk E conn proc (note_undecided w a) rs = (w', res)" "a \<noteq> q"
    | (held) "lookup_walk E conn proc (w\<lparr>w_generic_allow := Some a\<rparr>) rs = (w', res)"
        "generic_allow a" "w_generic_allow w = None"
    | (won) "res = Some a"
    using Cons.prems(1,4) definite_not_uncertain [of E conn proc q]
    by (auto simp: lookup_walk_Cons split: if_splits)
  then show ?case
  proof cases
    case skip
    show ?thesis
    proof (cases "q \<in> set rs")
      case True
      with Cons.IH [OF skip(1)] Cons.prems show ?thesis by simp
    next
      case False
      with Cons.prems(3) skip(2) have "w_generic_allow w \<noteq> None" "\<not> names_program (r_scope q)" by auto
      with held_winner_names [of E conn proc w rs w'] skip(1) show ?thesis by auto
    qed
  next
    case unc
    with Cons.prems have "q \<in> set rs" by auto
    with Cons.IH [OF unc(1)] Cons.prems show ?thesis by simp
  next
    case held
    have g: "\<forall>g. w_generic_allow w' = Some g \<longrightarrow> g = a"
      using lookup_walk_held [OF held(1)] by simp
    have names: "\<forall>r. res = Some r \<longrightarrow> names_program (r_scope r)"
      using held_winner_names [of E conn proc _ rs w'] held(1) by fastforce
    show ?thesis
    proof (cases "names_program (r_scope q)")
      case True
      with held(2) Cons.prems(3) have "q \<in> set rs" by (auto simp: generic_allow_def)
      with Cons.IH [OF held(1)] Cons.prems g a_le True show ?thesis by auto
    next
      case False
      with g a_le names show ?thesis by auto
    qed
  next
    case won
    with a_le show ?thesis by simp
  qed
qed

text \<open>The answering rule is the highest in precedence order of the matching rules that name
  a program when it names one, and of all matching rules when it names none.\<close>

theorem answer_is_highest_in_precedence:
  assumes "in_precedence_order rules" "lookup E rules conn proc now = MatchRule r"
    "q \<in> set rules" "is_live E now q" "definite E conn proc q"
    "names_program (r_scope q) \<or> \<not> names_program (r_scope r)"
  shows "rule_key r \<le> rule_key q"
proof (rule settled_flags [OF assms(2)])
  let ?live = "filter (is_live E now) rules"
  fix w' res
  assume walk: "lookup_walk E conn proc walk_init ?live = (w', res)"
    and res: "res = Some r \<or> res = None \<and> w_generic_allow w' = Some r"
  have "sorted (map rule_key ?live)"
    using assms(1) unfolding in_precedence_order_def by (rule sorted_filter)
  from lookup_walk_rank [OF walk this, of q] assms(3-6) res show ?thesis
    by (auto simp: walk_init_def)
qed

theorem answer_is_highest_in_precedence_witness:
  "\<exists>E a b conn proc. a \<noteq> b \<and> lookup E [a, b] conn proc 0 = MatchRule a \<and>
     definite E conn proc b \<and> rule_key a \<le> rule_key b"
proof -
  let ?E = "\<lparr>ipnet_contains = (\<lambda>_ _. True), dt_millis = dt_instant\<rparr>"
  let ?a = "new_rule (Uuid 1, DateTime 0) ''a'' Deny (any_scope\<lparr>s_dst_port := Some 443\<rparr>)"
  let ?b = "new_rule (Uuid 2, DateTime 0) ''b'' Deny (any_scope\<lparr>s_dst_port := Some 443\<rparr>)"
  let ?c = "new_connection (Uuid 3, DateTime 0) Tcp Outbound (V4 1) 1 (V4 2) 443"
  let ?p = "unknown_process 7"
  have o: "in_precedence_order [?a, ?b]"
    by (simp add: in_precedence_order_def rule_key_def new_rule_def any_scope_def specificity_def
        narrows_def less_eq_uuid_def less_uuid_def)
  have l: "lookup ?E [?a, ?b] ?c ?p 0 = MatchRule ?a" and b: "definite ?E ?c ?p ?b"
    by (simp_all add: lookup_def finish_walk_def lookup_walk_Cons uncertain_def definite_def
        is_live_def is_expired_def scope_matches_def matches_connection_def generic_allow_def
        matches_known_connection_iff protocol_ok_def undecidable_for_def matches_process_def
        new_rule_def any_scope_def new_connection_def unknown_process_def names_program_def
        walk_init_def)
  have "rule_key ?a \<le> rule_key ?b"
    using answer_is_highest_in_precedence [OF o l, of ?b] b
    by (simp add: is_live_def is_expired_def new_rule_def any_scope_def names_program_def)
  then show ?thesis using l b
    by (intro exI [of _ ?E] exI [of _ ?a] exI [of _ ?b] exI [of _ ?c] exI [of _ ?p])
       (simp add: new_rule_def)
qed

lemma lookup_walk_silent:
  assumes "lookup_walk E conn proc w rs = (w', None)" "w_generic_allow w' = None"
    "w_undecided w' = None"
  shows "\<forall>r \<in> set rs. \<not> definite E conn proc r \<and> \<not> uncertain E conn proc r"
  using assms
proof (induction rs arbitrary: w)
  case Nil
  then show ?case by simp
next
  case (Cons a rs)
  from Cons.prems Cons.IH [of w] lookup_walk_slot [of E conn proc "note_undecided w a" rs w' None]
    lookup_walk_held [of E conn proc "w\<lparr>w_generic_allow := Some a\<rparr>" rs w' None a]
    lookup_walk_held [of E conn proc w rs w' None "the (w_generic_allow w)"]
  show ?case by (auto simp: lookup_walk_Cons split: if_splits)
qed

lemma lookup_undecidable_uncertain:
  assumes "lookup E rules conn proc now = MatchUndecidable u"
  shows "u \<in> set rules \<and> is_live E now u \<and> uncertain E conn proc u"
proof -
  obtain w' res where walk:
    "lookup_walk E conn proc walk_init (filter (is_live E now) rules) = (w', res)" by force
  with assms have "w_undecided w' = Some u"
    by (auto simp: lookup_def finish_walk_def Let_def split: option.splits if_splits)
  from lookup_walk_undecided [OF walk this] show ?thesis by (simp add: walk_init_def)
qed

text \<open>No rule is about a flow exactly when no live rule matches it or could match it, and an
  abstention always names a live rule that could match.\<close>

theorem lookup_none_and_undecidable:
  "(lookup E rules conn proc now = MatchNone \<longleftrightarrow>
      (\<forall>r. r \<in> set rules \<and> is_live E now r \<longrightarrow> \<not> definite E conn proc r \<and> \<not> uncertain E conn proc r)) \<and>
   (\<forall>u. lookup E rules conn proc now = MatchUndecidable u \<longrightarrow>
      u \<in> set rules \<and> is_live E now u \<and> uncertain E conn proc u)"
proof (intro conjI allI impI)
  let ?live = "filter (is_live E now) rules"
  obtain w' res where walk: "lookup_walk E conn proc walk_init ?live = (w', res)" by force
  show "lookup E rules conn proc now = MatchNone \<longleftrightarrow>
      (\<forall>r. r \<in> set rules \<and> is_live E now r \<longrightarrow> \<not> definite E conn proc r \<and> \<not> uncertain E conn proc r)"
  proof
    assume "lookup E rules conn proc now = MatchNone"
    with walk have "res = None" "w_generic_allow w' = None" "w_undecided w' = None"
      by (auto simp: lookup_def finish_walk_def Let_def split: option.splits if_splits)
    with lookup_walk_silent [of E conn proc walk_init ?live w'] walk
    show "\<forall>r. r \<in> set rules \<and> is_live E now r \<longrightarrow> \<not> definite E conn proc r \<and> \<not> uncertain E conn proc r"
      by simp
  next
    assume "\<forall>r. r \<in> set rules \<and> is_live E now r \<longrightarrow> \<not> definite E conn proc r \<and> \<not> uncertain E conn proc r"
    then have n: "\<forall>r \<in> set ?live. \<not> definite E conn proc r \<and> \<not> uncertain E conn proc r" by simp
    then have "filter (definite E conn proc) ?live = []" by (simp add: filter_empty_conv)
    with exact_free [of ?live E conn proc walk_init] n show "lookup E rules conn proc now = MatchNone"
      by (simp add: lookup_def walk_init_def)
  qed
next
  fix u assume "lookup E rules conn proc now = MatchUndecidable u"
  then show "u \<in> set rules" "is_live E now u" "uncertain E conn proc u"
    using lookup_undecidable_uncertain by blast+
qed

theorem lookup_none_and_undecidable_witness:
  "\<exists>E a conn proc. lookup E [a] conn proc 0 = MatchUndecidable a \<and> uncertain E conn proc a"
proof -
  let ?E = "\<lparr>ipnet_contains = (\<lambda>_ _. True), dt_millis = dt_instant\<rparr>"
  let ?a = "new_rule (Uuid 1, DateTime 0) ''uid'' Allow (any_scope\<lparr>s_uid := Some 0\<rparr>)"
  let ?c = "new_connection (Uuid 3, DateTime 0) Tcp Outbound (V4 1) 1 (V4 2) 443"
  let ?p = "unknown_process 7"
  have "lookup ?E [?a] ?c ?p 0 = MatchUndecidable ?a"
    by (simp add: lookup_def finish_walk_def lookup_walk_Cons uncertain_def
        is_live_def is_expired_def matches_known_connection_iff protocol_ok_def undecidable_for_def
        new_rule_def any_scope_def new_connection_def unknown_process_def
        walk_init_def note_undecided_def)
  with lookup_none_and_undecidable [of ?E "[?a]" ?c ?p 0] show ?thesis by blast
qed

text \<open>"the same action" is only the same side: an undecided Reject above a definite Deny
  does not open the answer.  The Deny answers although the Reject, if it matched, would win.\<close>

theorem deny_answers_for_undecided_reject:
  "\<exists>E a b conn proc. r_action a = Reject \<and> r_action b = Deny \<and> uncertain E conn proc a \<and>
     in_precedence_order [a, b] \<and> lookup E [a, b] conn proc 0 = MatchRule b \<and>
     decide (resolved E conn proc {a} [a, b]) = Some a"
proof -
  let ?E = "\<lparr>ipnet_contains = (\<lambda>_ _. True), dt_millis = dt_instant\<rparr>"
  let ?a = "new_rule (Uuid 1, DateTime 0) ''uid'' Reject (any_scope\<lparr>s_uid := Some 0, s_dst_port := Some 25\<rparr>)"
  let ?b = "new_rule (Uuid 2, DateTime 0) ''smtp'' Deny (any_scope\<lparr>s_dst_port := Some 25\<rparr>)"
  let ?c = "new_connection (Uuid 3, DateTime 0) Tcp Outbound (V4 1) 1 (V4 2) 25"
  let ?p = "unknown_process 7"
  have unc: "uncertain ?E ?c ?p ?a" and nunc: "\<not> uncertain ?E ?c ?p ?b"
    and def: "definite ?E ?c ?p ?b"
    by (simp_all add: uncertain_def definite_def scope_matches_def matches_connection_def
        matches_known_connection_iff protocol_ok_def undecidable_for_def matches_process_def
        new_rule_def any_scope_def new_connection_def unknown_process_def)
  have ord: "in_precedence_order [?a, ?b]"
    by (simp add: in_precedence_order_def rule_key_def new_rule_def any_scope_def specificity_def
        narrows_def less_eq_reverse_def less_reverse_def)
  have l: "lookup ?E [?a, ?b] ?c ?p 0 = MatchRule ?b"
    using unc nunc def
    by (simp add: lookup_def finish_walk_def lookup_walk_Cons is_live_def is_expired_def
        generic_allow_def new_rule_def walk_init_def note_undecided_def)
  have d: "decide (resolved ?E ?c ?p {?a} [?a, ?b]) = Some ?a"
    using unc def by (simp add: generic_allow_def new_rule_def)
  show ?thesis using unc ord l d
    by (intro exI [of _ ?E] exI [of _ ?a] exI [of _ ?b] exI [of _ ?c] exI [of _ ?p])
       (simp add: new_rule_def)
qed

end
