(* ===== verification/Packet.thy ===== *)
theory Packet
  imports CoreTypes
begin

unbundle bit_operations_syntax

text \<open>
  \<open>crates/cfc-daemon/src/packet.rs\<close>: the parser of queued IP packets.  Every index and
  slice of the source is a bounds-checked read of the prelude, so a read the source does not
  guard would be \<open>Panic\<close>; the first theorem is that \<open>parse\<close> never panics on any bytes.  The
  IPv6 extension walk is a recursion on the source's own loop bound (nine passes).  An
  inductive description of a well-formed header chain gives the walk its specification.
\<close>

section \<open>Constants and errors\<close>

datatype parse_error =
    Truncated string
  | UnsupportedVersion u8
  | BadIhl nat
  | TooManyExtensions

definition IPPROTO_ICMP :: u8 where "IPPROTO_ICMP = 1"
definition IPPROTO_TCP :: u8 where "IPPROTO_TCP = 6"
definition IPPROTO_UDP :: u8 where "IPPROTO_UDP = 17"
definition IPPROTO_ICMPV6 :: u8 where "IPPROTO_ICMPV6 = 58"
definition IPPROTO_HOPOPTS :: u8 where "IPPROTO_HOPOPTS = 0"
definition IPPROTO_ROUTING :: u8 where "IPPROTO_ROUTING = 43"
definition IPPROTO_FRAGMENT :: u8 where "IPPROTO_FRAGMENT = 44"
definition IPPROTO_AH :: u8 where "IPPROTO_AH = 51"
definition IPPROTO_DSTOPTS :: u8 where "IPPROTO_DSTOPTS = 60"
definition MAX_EXT_HEADERS :: nat where "MAX_EXT_HEADERS = 8"

lemmas ipproto_defs = IPPROTO_ICMP_def IPPROTO_TCP_def IPPROTO_UDP_def IPPROTO_ICMPV6_def
  IPPROTO_HOPOPTS_def IPPROTO_ROUTING_def IPPROTO_FRAGMENT_def IPPROTO_AH_def
  IPPROTO_DSTOPTS_def

section \<open>The parser\<close>

definition finalize ::
  "uuid \<times> datetime \<Rightarrow> ip_addr \<Rightarrow> ip_addr \<Rightarrow> u8 \<Rightarrow> bytes \<Rightarrow> direction \<Rightarrow> (parse_error + connection) run" where
  "finalize stamp src_ip dst_ip proto_num l4_payload direction =
     (let conn = (\<lambda>protocol sp dp. Ret (Inr (new_connection stamp protocol direction src_ip sp dst_ip dp))) in
      if proto_num = IPPROTO_TCP then
        (if length l4_payload < 4 then Ret (Inl (Truncated ''tcp ports''))
         else rd l4_payload 0 (\<lambda>b0. rd l4_payload 1 (\<lambda>b1. rd l4_payload 2 (\<lambda>b2. rd l4_payload 3 (\<lambda>b3.
              conn Tcp (be16 b0 b1) (be16 b2 b3))))))
      else if proto_num = IPPROTO_UDP then
        (if length l4_payload < 4 then Ret (Inl (Truncated ''udp ports''))
         else rd l4_payload 0 (\<lambda>b0. rd l4_payload 1 (\<lambda>b1. rd l4_payload 2 (\<lambda>b2. rd l4_payload 3 (\<lambda>b3.
              conn Udp (be16 b0 b1) (be16 b2 b3))))))
      else if proto_num = IPPROTO_ICMP \<or> proto_num = IPPROTO_ICMPV6 then conn Icmp 0 0
      else conn (Other proto_num) 0 0)"

definition parse_ipv4 :: "uuid \<times> datetime \<Rightarrow> bytes \<Rightarrow> direction \<Rightarrow> (parse_error + connection) run" where
  "parse_ipv4 stamp buf direction =
     (if length buf < 20 then Ret (Inl (Truncated ''ipv4 header''))
      else rd buf 0 (\<lambda>b0.
        let ihl = unat (b0 AND 0x0f) * 4 in
        if ihl < 20 then Ret (Inl (BadIhl ihl))
        else if length buf < ihl then Ret (Inl (Truncated ''ipv4 header (ihl)''))
        else rd buf 9 (\<lambda>proto_num.
          rd buf 12 (\<lambda>s0. rd buf 13 (\<lambda>s1. rd buf 14 (\<lambda>s2. rd buf 15 (\<lambda>s3.
          rd buf 16 (\<lambda>d0. rd buf 17 (\<lambda>d1. rd buf 18 (\<lambda>d2. rd buf 19 (\<lambda>d3.
          sl buf ihl (length buf) (\<lambda>payload.
            finalize stamp (V4 (from_be [s0, s1, s2, s3])) (V4 (from_be [d0, d1, d2, d3]))
              proto_num payload direction))))))))))))"

text \<open>One pass of the extension-header loop per unit of fuel; running out is the source's
  fall through the loop.\<close>

fun walk_ext ::
  "uuid \<times> datetime \<Rightarrow> bytes \<Rightarrow> ip_addr \<Rightarrow> ip_addr \<Rightarrow> direction \<Rightarrow> nat \<Rightarrow> u8 \<Rightarrow> nat
     \<Rightarrow> (parse_error + connection) run" where
  "walk_ext stamp buf src dst direction 0 next_header offset = Ret (Inl TooManyExtensions)"
| "walk_ext stamp buf src dst direction (Suc n) next_header offset =
     (if next_header = IPPROTO_HOPOPTS \<or> next_header = IPPROTO_ROUTING \<or> next_header = IPPROTO_DSTOPTS then
        (case get_range buf offset (offset + 2) of
           None \<Rightarrow> Ret (Inl (Truncated ''ipv6 extension header''))
         | Some hdr \<Rightarrow> rd hdr 1 (\<lambda>h1.
             let len = (unat h1 + 1) * 8 in
             if length buf < offset + len then Ret (Inl (Truncated ''ipv6 extension header''))
             else rd hdr 0 (\<lambda>h0. walk_ext stamp buf src dst direction n h0 (offset + len))))
      else if next_header = IPPROTO_AH then
        (case get_range buf offset (offset + 2) of
           None \<Rightarrow> Ret (Inl (Truncated ''ipv6 auth header''))
         | Some hdr \<Rightarrow> rd hdr 1 (\<lambda>h1.
             let len = (unat h1 + 2) * 4 in
             if length buf < offset + len then Ret (Inl (Truncated ''ipv6 auth header''))
             else rd hdr 0 (\<lambda>h0. walk_ext stamp buf src dst direction n h0 (offset + len))))
      else if next_header = IPPROTO_FRAGMENT then
        (case get_range buf offset (offset + 8) of
           None \<Rightarrow> Ret (Inl (Truncated ''ipv6 fragment header''))
         | Some hdr \<Rightarrow> rd hdr 2 (\<lambda>h2. rd hdr 3 (\<lambda>h3.
             let frag_offset = drop_bit 3 (be16 h2 h3) in
             if frag_offset \<noteq> 0 then
               Ret (Inr (new_connection stamp (Other IPPROTO_FRAGMENT) direction src 0 dst 0))
             else rd hdr 0 (\<lambda>h0. walk_ext stamp buf src dst direction n h0 (offset + 8)))))
      else sl buf offset (length buf) (\<lambda>payload. finalize stamp src dst next_header payload direction))"

definition parse_ipv6 :: "uuid \<times> datetime \<Rightarrow> bytes \<Rightarrow> direction \<Rightarrow> (parse_error + connection) run" where
  "parse_ipv6 stamp buf direction =
     (if length buf < 40 then Ret (Inl (Truncated ''ipv6 header''))
      else sl buf 8 24 (\<lambda>src_bytes. sl buf 24 40 (\<lambda>dst_bytes. rd buf 6 (\<lambda>next_header.
        walk_ext stamp buf (V6 (from_be src_bytes)) (V6 (from_be dst_bytes)) direction
          (MAX_EXT_HEADERS + 1) next_header 40))))"

definition parse :: "uuid \<times> datetime \<Rightarrow> bytes \<Rightarrow> direction \<Rightarrow> (parse_error + connection) run" where
  "parse stamp payload direction =
     (if payload = [] then Ret (Inl (Truncated ''ip version byte''))
      else rd payload 0 (\<lambda>b0.
        let version = drop_bit 4 b0 in
        if version = 4 then parse_ipv4 stamp payload direction
        else if version = 6 then parse_ipv6 stamp payload direction
        else Ret (Inl (UnsupportedVersion version))))"

section \<open>Equations with every read resolved\<close>

text \<open>The ports the first four bytes of an upper-layer header spell.\<close>

definition ports_of :: "bytes \<Rightarrow> u16 \<times> u16" where
  "ports_of l4 = (be16 (l4 ! 0) (l4 ! 1), be16 (l4 ! 2) (l4 ! 3))"

lemma finalize_eq:
  "finalize stamp s d proto l4 dir =
     Ret (if proto = IPPROTO_TCP then
            if length l4 < 4 then Inl (Truncated ''tcp ports'')
            else Inr (new_connection stamp Tcp dir s (fst (ports_of l4)) d (snd (ports_of l4)))
          else if proto = IPPROTO_UDP then
            if length l4 < 4 then Inl (Truncated ''udp ports'')
            else Inr (new_connection stamp Udp dir s (fst (ports_of l4)) d (snd (ports_of l4)))
          else if proto = IPPROTO_ICMP \<or> proto = IPPROTO_ICMPV6 then Inr (new_connection stamp Icmp dir s 0 d 0)
          else Inr (new_connection stamp (Other proto) dir s 0 d 0))"
proof (cases "length l4 < 4")
  case True
  then show ?thesis by (simp add: finalize_def Let_def)
next
  case False
  then have "l4 \<noteq> []" by auto
  with False show ?thesis by (simp add: finalize_def Let_def ports_of_def rd_def)
qed

lemma parse_ipv4_eq:
  "parse_ipv4 stamp buf dir =
     (if length buf < 20 then Ret (Inl (Truncated ''ipv4 header''))
      else let ihl = unat (buf ! 0 AND 0x0f) * 4 in
        if ihl < 20 then Ret (Inl (BadIhl ihl))
        else if length buf < ihl then Ret (Inl (Truncated ''ipv4 header (ihl)''))
        else finalize stamp (V4 (from_be [buf ! 12, buf ! 13, buf ! 14, buf ! 15]))
               (V4 (from_be [buf ! 16, buf ! 17, buf ! 18, buf ! 19])) (buf ! 9) (drop ihl buf) dir)"
proof (cases "length buf < 20")
  case True
  then show ?thesis by (simp add: parse_ipv4_def)
next
  case False
  then have "buf \<noteq> []" by auto
  with False show ?thesis by (simp add: parse_ipv4_def Let_def rd_def sl_def)
qed

text \<open>One pass of the walk, with the length field's meaning in \<open>ext_len\<close>.\<close>

definition ext_len :: "u8 \<Rightarrow> byte \<Rightarrow> nat option" where
  "ext_len nh b =
     (if nh = IPPROTO_HOPOPTS \<or> nh = IPPROTO_ROUTING \<or> nh = IPPROTO_DSTOPTS then Some ((unat b + 1) * 8)
      else if nh = IPPROTO_AH then Some ((unat b + 2) * 4)
      else if nh = IPPROTO_FRAGMENT then Some 8
      else None)"

definition ext_error :: "u8 \<Rightarrow> parse_error" where
  "ext_error nh =
     (if nh = IPPROTO_AH then Truncated ''ipv6 auth header''
      else if nh = IPPROTO_FRAGMENT then Truncated ''ipv6 fragment header''
      else Truncated ''ipv6 extension header'')"

lemma ext_len_ge_8: "ext_len nh b = Some n \<Longrightarrow> 8 \<le> n"
  by (auto simp: ext_len_def split: if_splits)

lemma ipproto_distinct [simp]:
  "IPPROTO_AH \<noteq> IPPROTO_HOPOPTS" "IPPROTO_AH \<noteq> IPPROTO_ROUTING" "IPPROTO_AH \<noteq> IPPROTO_DSTOPTS"
  "IPPROTO_FRAGMENT \<noteq> IPPROTO_HOPOPTS" "IPPROTO_FRAGMENT \<noteq> IPPROTO_ROUTING"
  "IPPROTO_FRAGMENT \<noteq> IPPROTO_DSTOPTS" "IPPROTO_FRAGMENT \<noteq> IPPROTO_AH"
  by (simp_all add: ipproto_defs)

lemmas ipproto_distinct' [simp] = ipproto_distinct [symmetric]

lemma walk_ext_step:
  assumes "offset \<le> length buf"
  shows "walk_ext stamp buf s d dir (Suc n) nh offset =
    (case ext_len nh (buf ! (offset + 1)) of
       None \<Rightarrow> finalize stamp s d nh (drop offset buf) dir
     | Some len \<Rightarrow>
         if length buf < offset + 2 \<or> length buf < offset + len then Ret (Inl (ext_error nh))
         else if nh = IPPROTO_FRAGMENT \<and> drop_bit 3 (be16 (buf ! (offset + 2)) (buf ! (offset + 3))) \<noteq> 0
         then Ret (Inr (new_connection stamp (Other IPPROTO_FRAGMENT) dir s 0 d 0))
         else walk_ext stamp buf s d dir n (buf ! offset) (offset + len))"
proof -
  consider (opt) "nh = IPPROTO_HOPOPTS \<or> nh = IPPROTO_ROUTING \<or> nh = IPPROTO_DSTOPTS"
    | (ah) "nh = IPPROTO_AH" | (frag) "nh = IPPROTO_FRAGMENT"
    | (upper) "nh \<noteq> IPPROTO_HOPOPTS" "nh \<noteq> IPPROTO_ROUTING" "nh \<noteq> IPPROTO_DSTOPTS"
        "nh \<noteq> IPPROTO_AH" "nh \<noteq> IPPROTO_FRAGMENT" by blast
  then show ?thesis
  proof cases
    case opt
    then have "nh \<noteq> IPPROTO_AH" "nh \<noteq> IPPROTO_FRAGMENT"
      using ipproto_distinct by metis+
    with opt show ?thesis
      by (cases "length buf < offset + 2")
         (simp_all add: ext_len_def ext_error_def get_range_def Let_def rd_def)
  next
    case ah
    then show ?thesis
      by (cases "length buf < offset + 2")
         (simp_all add: ext_len_def ext_error_def get_range_def Let_def rd_def)
  next
    case frag
    then show ?thesis
      by (cases "length buf < offset + 8")
         (auto simp add: ext_len_def ext_error_def get_range_def Let_def rd_def)
  next
    case upper
    with assms show ?thesis by (simp add: ext_len_def sl_def)
  qed
qed

declare walk_ext.simps(2) [simp del]

lemma parse_ipv6_eq:
  "parse_ipv6 stamp buf dir =
     (if length buf < 40 then Ret (Inl (Truncated ''ipv6 header''))
      else walk_ext stamp buf (V6 (from_be (take 16 (drop 8 buf)))) (V6 (from_be (take 16 (drop 24 buf))))
             dir 9 (buf ! 6) 40)"
  by (simp add: parse_ipv6_def rd_def sl_def MAX_EXT_HEADERS_def)

lemma parse_eq:
  "parse stamp payload dir =
     (if payload = [] then Ret (Inl (Truncated ''ip version byte''))
      else if drop_bit 4 (payload ! 0) = 4 then parse_ipv4 stamp payload dir
      else if drop_bit 4 (payload ! 0) = 6 then parse_ipv6 stamp payload dir
      else Ret (Inl (UnsupportedVersion (drop_bit 4 (payload ! 0)))))"
  by (simp add: parse_def Let_def rd_def)

section \<open>No input makes the parser panic\<close>

lemma walk_ext_total: "offset \<le> length buf \<Longrightarrow> walk_ext stamp buf s d dir n nh offset \<noteq> Panic"
proof (induction n arbitrary: nh offset)
  case 0
  then show ?case by simp
next
  case (Suc n)
  then show ?case by (auto simp: walk_ext_step finalize_eq split: option.split)
qed

lemma parse_total: "parse stamp payload dir \<noteq> Panic"
proof -
  have "parse_ipv4 stamp payload dir \<noteq> Panic"
    by (simp add: parse_ipv4_eq finalize_eq Let_def)
  moreover have "parse_ipv6 stamp payload dir \<noteq> Panic"
    by (simp add: parse_ipv6_eq walk_ext_total)
  ultimately show ?thesis by (simp add: parse_eq)
qed

section \<open>The extension-header chain\<close>

text \<open>
  \<open>ext_chain buf off nh k off' nh'\<close>: from a header of type \<open>nh\<close> at \<open>off\<close>, \<open>k\<close> extension
  headers that lie inside the buffer (none of them a later fragment) lead to a header of
  type \<open>nh'\<close> at \<open>off'\<close>.
\<close>

definition later_fragment :: "bytes \<Rightarrow> nat \<Rightarrow> u8 \<Rightarrow> bool" where
  "later_fragment buf off nh \<longleftrightarrow>
     nh = IPPROTO_FRAGMENT \<and> drop_bit 3 (be16 (buf ! (off + 2)) (buf ! (off + 3))) \<noteq> 0"

inductive ext_chain :: "bytes \<Rightarrow> nat \<Rightarrow> u8 \<Rightarrow> nat \<Rightarrow> nat \<Rightarrow> u8 \<Rightarrow> bool" for buf where
  chain_end: "ext_chain buf off nh 0 off nh"
| chain_step: "ext_len nh (buf ! (off + 1)) = Some len \<Longrightarrow> off + len \<le> length buf \<Longrightarrow>
     \<not> later_fragment buf off nh \<Longrightarrow> ext_chain buf (off + len) (buf ! off) k off' nh' \<Longrightarrow>
     ext_chain buf off nh (Suc k) off' nh'"

inductive_cases ext_chain_0E: "ext_chain buf off nh 0 off' nh'"
inductive_cases ext_chain_SucE: "ext_chain buf off nh (Suc k) off' nh'"

definition upper_layer :: "u8 \<Rightarrow> bool" where
  "upper_layer nh \<longleftrightarrow>
     nh \<notin> {IPPROTO_HOPOPTS, IPPROTO_ROUTING, IPPROTO_DSTOPTS, IPPROTO_AH, IPPROTO_FRAGMENT}"

lemma upper_layer_ext_len: "upper_layer nh \<longleftrightarrow> ext_len nh b = None"
  by (auto simp: upper_layer_def ext_len_def)

lemma ext_chain_offset: "ext_chain buf off nh k off' nh' \<Longrightarrow> off \<le> length buf \<Longrightarrow> off' \<le> length buf \<and> off + 8 * k \<le> off'"
  by (induction rule: ext_chain.induct) (auto dest!: ext_len_ge_8)

lemma walk_ext_chain:
  assumes "ext_chain buf off nh k off' nh'" "off \<le> length buf"
  shows "walk_ext stamp buf s d dir (n + k) nh off = walk_ext stamp buf s d dir n nh' off'"
  using assms
proof (induction rule: ext_chain.induct)
  case (chain_end off nh)
  then show ?case by simp
next
  case (chain_step nh off len k off' nh')
  then show ?case
    using ext_len_ge_8 [OF chain_step.hyps(1)]
    by (auto simp: walk_ext_step later_fragment_def)
qed

lemma walk_ext_Inr:
  assumes "walk_ext stamp buf s d dir n nh off = Ret (Inr c)" "off \<le> length buf"
  shows "\<exists>k off' nh'. k < n \<and> ext_chain buf off nh k off' nh' \<and>
     (upper_layer nh' \<and> finalize stamp s d nh' (drop off' buf) dir = Ret (Inr c) \<or>
      later_fragment buf off' nh' \<and> c = new_connection stamp (Other IPPROTO_FRAGMENT) dir s 0 d 0)"
  using assms
proof (induction n arbitrary: nh off)
  case 0
  then show ?case by simp
next
  case (Suc n)
  show ?case
  proof (cases "ext_len nh (buf ! (off + 1))")
    case None
    with Suc.prems show ?thesis
      by (intro exI [of _ 0] exI [of _ off] exI [of _ nh])
         (simp add: walk_ext_step chain_end upper_layer_ext_len [of nh "buf ! (off + 1)"])
  next
    case (Some len)
    show ?thesis
    proof (cases "later_fragment buf off nh")
      case True
      with Suc.prems Some show ?thesis
        by (intro exI [of _ 0] exI [of _ off] exI [of _ nh])
           (auto simp: walk_ext_step chain_end later_fragment_def split: if_splits)
    next
      case False
      with Suc.prems Some have
        len: "off + len \<le> length buf" and
        w: "walk_ext stamp buf s d dir n (buf ! off) (off + len) = Ret (Inr c)"
        by (auto simp: walk_ext_step later_fragment_def split: if_splits)
      from Suc.IH [OF w len] obtain k off' nh' where
        "k < n" "ext_chain buf (off + len) (buf ! off) k off' nh'" and
        fin: "upper_layer nh' \<and> finalize stamp s d nh' (drop off' buf) dir = Ret (Inr c) \<or>
          later_fragment buf off' nh' \<and> c = new_connection stamp (Other IPPROTO_FRAGMENT) dir s 0 d 0"
        by blast
      with chain_step [OF Some len False] show ?thesis
        by (intro exI [of _ "Suc k"] exI [of _ off'] exI [of _ nh']) simp
    qed
  qed
qed

text \<open>C27: extension headers cannot hide a transport header.  If up to eight well-formed
  extension headers lead from the IPv6 header to an upper-layer header, the packet is
  classified by that header; one more, and the packet is refused.\<close>

theorem ipv6_upper_layer_is_found:
  assumes "drop_bit 4 (buf ! 0) = 6" "40 \<le> length buf"
    "ext_chain buf 40 (buf ! 6) k off nh" "upper_layer nh"
  shows "parse stamp buf dir =
    (if k \<le> 8 then finalize stamp (V6 (from_be (take 16 (drop 8 buf))))
                     (V6 (from_be (take 16 (drop 24 buf)))) nh (drop off buf) dir
     else Ret (Inl TooManyExtensions))"
proof -
  let ?w = "\<lambda>n nh off. walk_ext stamp buf (V6 (from_be (take 16 (drop 8 buf))))
                     (V6 (from_be (take 16 (drop 24 buf)))) dir n nh off"
  have "buf \<noteq> []" using assms(2) by auto
  with assms(1,2) have p: "parse stamp buf dir = ?w 9 (buf ! 6) 40"
    by (simp add: parse_eq parse_ipv6_eq)
  have off: "off \<le> length buf" using ext_chain_offset [OF assms(3,2)] by simp
  show ?thesis
  proof (cases "k \<le> 8")
    case True
    then have "?w (Suc (8 - k) + k) (buf ! 6) 40 = ?w (Suc (8 - k)) nh off"
      using walk_ext_chain [OF assms(3,2)] by blast
    moreover have "Suc (8 - k) + k = 9" using True by simp
    moreover have "ext_len nh (buf ! (off + 1)) = None"
      using assms(4) upper_layer_ext_len by simp
    ultimately show ?thesis using p True off by (simp add: walk_ext_step)
  next
    case False
    have "?w n (buf ! 6) 40 = Ret (Inl TooManyExtensions)"
      if "ext_chain buf o1 nh1 k1 off nh" "n \<le> k1" "o1 \<le> length buf" "nh1 = buf ! 6" "o1 = 40" for n k1 o1 nh1
    proof -
      have "walk_ext stamp buf s d dir n nh1 o1 = Ret (Inl TooManyExtensions)" for s d
        using that(1,2,3)
      proof (induction arbitrary: n rule: ext_chain.induct)
        case (chain_end off nh)
        then show ?case by simp
      next
        case (chain_step nh off len k off' nh')
        then show ?case
          using ext_len_ge_8 [OF chain_step.hyps(1)]
          by (cases n) (simp_all add: walk_ext_step later_fragment_def)
      qed
      with that show ?thesis by simp
    qed
    from this [OF assms(3), of 9] False assms(2) p show ?thesis by simp
  qed
qed

theorem ipv6_upper_layer_is_found_witness:
  "\<exists>buf c. ext_chain buf 40 (buf ! 6) 1 48 IPPROTO_TCP \<and>
     parse (Uuid 0, DateTime 0) buf Outbound = Ret (Inr c) \<and>
     c_protocol c = Tcp \<and> c_src_port c = 443 \<and> c_dst_port c = 8080"
proof -
  let ?buf = "[0x60, 0, 0, 0, 0, 0, 0, 0] @ replicate 32 0 @ [6, 0, 0, 0, 0, 0, 0, 0] @ [1, 0xbb, 0x1f, 0x90] :: bytes"
  have v: "drop_bit 4 (?buf ! 0) = 6" "40 \<le> length ?buf" by simp_all
  have n: "?buf ! 6 = 0" "?buf ! 40 = 6" "?buf ! 41 = 0" by (simp_all add: nth_append)
  have "ext_chain ?buf (40 + 8) (?buf ! 40) 0 48 IPPROTO_TCP"
    using n(2) ext_chain.chain_end [of ?buf 48 IPPROTO_TCP] by (simp add: IPPROTO_TCP_def)
  moreover have "ext_len (?buf ! 6) (?buf ! (40 + 1)) = Some 8"
    using n by (simp add: ext_len_def ipproto_defs)
  moreover have "\<not> later_fragment ?buf 40 (?buf ! 6)"
    using n(1) by (simp add: later_fragment_def ipproto_defs)
  ultimately have c: "ext_chain ?buf 40 (?buf ! 6) 1 48 IPPROTO_TCP"
    using ext_chain.chain_step [of "?buf ! 6" ?buf 40 8 0 48 IPPROTO_TCP] by simp
  have u: "upper_layer IPPROTO_TCP" by (simp add: upper_layer_def ipproto_defs)
  have "parse (Uuid 0, DateTime 0) ?buf Outbound =
      Ret (Inr (new_connection (Uuid 0, DateTime 0) Tcp Outbound
        (V6 (from_be (take 16 (drop 8 ?buf)))) 443 (V6 (from_be (take 16 (drop 24 ?buf)))) 8080))"
    by (subst ipv6_upper_layer_is_found [OF v c u])
       (simp add: finalize_eq ports_of_def from_be_def)
  with c show ?thesis by (intro exI [of _ ?buf]) (simp add: new_connection_def)
qed

section \<open>Where the reported ports come from\<close>

text \<open>\<open>upper_at buf off nh\<close>: the upper-layer header of the packet starts at \<open>off\<close> and is of type
  \<open>nh\<close>.\<close>

definition upper_at :: "bytes \<Rightarrow> nat \<Rightarrow> u8 \<Rightarrow> bool" where
  "upper_at buf off nh \<longleftrightarrow>
     buf \<noteq> [] \<and>
     (drop_bit 4 (buf ! 0) = 4 \<and> off = unat (buf ! 0 AND 0x0f) * 4 \<and> 20 \<le> off \<and> off \<le> length buf \<and>
        nh = buf ! 9 \<or>
      drop_bit 4 (buf ! 0) = 6 \<and> 40 \<le> length buf \<and> upper_layer nh \<and>
        (\<exists>k \<le> 8. ext_chain buf 40 (buf ! 6) k off nh))"

definition transport_of :: "protocol \<Rightarrow> u8 option" where
  "transport_of p = (case p of Tcp \<Rightarrow> Some IPPROTO_TCP | Udp \<Rightarrow> Some IPPROTO_UDP | _ \<Rightarrow> None)"

lemma finalize_Inr:
  assumes "finalize stamp s d nh l4 dir = Ret (Inr c)"
  shows "c_direction c = dir \<and> c_pid c = None \<and> c_uid c = None \<and> c_dst_host c = None \<and>
    c_src_ip c = s \<and> c_dst_ip c = d \<and>
    (case transport_of (c_protocol c) of
       Some t \<Rightarrow> nh = t \<and> 4 \<le> length l4 \<and> (c_src_port c, c_dst_port c) = ports_of l4
     | None \<Rightarrow> c_src_port c = 0 \<and> c_dst_port c = 0)"
  using assms
  by (auto simp: finalize_eq transport_of_def new_connection_def split: if_splits)

text \<open>A parsed packet is classified by its upper-layer header, or is a later fragment.\<close>

fun same_family :: "ip_addr \<Rightarrow> ip_addr \<Rightarrow> bool" where
  "same_family (V4 _) (V4 _) = True"
| "same_family (V6 _) (V6 _) = True"
| "same_family _ _ = False"

lemma parse_Inr_cases:
  assumes "parse stamp buf dir = Ret (Inr c)"
  obtains (upper) s d off nh where "upper_at buf off nh" "off \<le> length buf"
      "finalize stamp s d nh (drop off buf) dir = Ret (Inr c)" "same_family s d"
  | (fragment) s d where "c = new_connection stamp (Other IPPROTO_FRAGMENT) dir s 0 d 0"
proof -
  from assms have ne: "buf \<noteq> []" by (auto simp: parse_eq)
  consider (v4) "drop_bit 4 (buf ! 0) = 4" "parse_ipv4 stamp buf dir = Ret (Inr c)"
    | (v6) "drop_bit 4 (buf ! 0) = 6" "parse_ipv6 stamp buf dir = Ret (Inr c)"
    using assms by (auto simp: parse_eq split: if_splits)
  then show thesis
  proof cases
    case v4
    let ?off = "unat (buf ! 0 AND 0x0f) * 4"
    from v4(2) obtain s d where off: "20 \<le> ?off" "?off \<le> length buf"
      and fin: "finalize stamp (V4 s) (V4 d) (buf ! 9) (drop ?off buf) dir = Ret (Inr c)"
      by (auto simp: parse_ipv4_eq Let_def not_less split: if_splits)
    have "upper_at buf ?off (buf ! 9)" using v4(1) off ne by (simp add: upper_at_def)
    from upper [OF this off(2) fin] show thesis by simp
  next
    case v6
    from v6(2) obtain s d where len: "40 \<le> length buf"
      and w: "walk_ext stamp buf (V6 s) (V6 d) dir 9 (buf ! 6) 40 = Ret (Inr c)"
      by (auto simp: parse_ipv6_eq split: if_splits)
    from walk_ext_Inr [OF w len] obtain k off nh where k: "k < 9"
      and chain: "ext_chain buf 40 (buf ! 6) k off nh"
      and fin: "upper_layer nh \<and> finalize stamp (V6 s) (V6 d) nh (drop off buf) dir = Ret (Inr c) \<or>
        c = new_connection stamp (Other IPPROTO_FRAGMENT) dir (V6 s) 0 (V6 d) 0" by blast
    from fin show thesis
    proof
      assume f: "upper_layer nh \<and> finalize stamp (V6 s) (V6 d) nh (drop off buf) dir = Ret (Inr c)"
      have "upper_at buf off nh"
        using v6(1) len k chain f ne by (auto simp: upper_at_def intro!: exI [of _ k])
      moreover have "off \<le> length buf" using ext_chain_offset [OF chain len] by simp
      ultimately show thesis using f upper [of off nh "V6 s" "V6 d"] by simp
    qed (rule fragment)
  qed
qed

text \<open>A TCP or UDP flow is reported with the ports of the packet's real transport header,
  which is of that protocol and lies inside the packet; every other flow is reported with
  ports zero.  The parser attributes nothing to a process and names no host.\<close>

theorem parsed_ports_are_the_transport_header:
  assumes "parse stamp buf dir = Ret (Inr c)"
  shows "c_direction c = dir \<and> c_pid c = None \<and> c_uid c = None \<and> c_dst_host c = None \<and>
    (case transport_of (c_protocol c) of
       Some t \<Rightarrow> \<exists>off. upper_at buf off t \<and> off + 4 \<le> length buf \<and>
                   (c_src_port c, c_dst_port c) = ports_of (drop off buf)
     | None \<Rightarrow> c_src_port c = 0 \<and> c_dst_port c = 0)"
  using assms
proof (cases rule: parse_Inr_cases)
  case (upper s d off nh)
  from finalize_Inr [OF upper(3)] upper(1,2) show ?thesis
    by (auto simp: le_diff_conv2 add.commute split: option.splits)
qed (simp add: new_connection_def transport_of_def)

theorem parsed_ports_are_the_transport_header_witness:
  "\<exists>buf c. parse (Uuid 0, DateTime 0) buf Inbound = Ret (Inr c) \<and> c_protocol c = Udp \<and>
     c_dst_port c = 53 \<and> upper_at buf 20 IPPROTO_UDP"
proof -
  let ?buf = "[0x45, 0, 0, 0, 0, 0, 0, 0, 64, 17, 0, 0, 1, 2, 3, 4, 5, 6, 7, 8, 0x14, 0xe9, 0, 53] :: bytes"
  obtain c where c: "parse (Uuid 0, DateTime 0) ?buf Inbound = Ret (Inr c)" "c_protocol c = Udp"
      "c_dst_port c = 53"
    by (simp add: parse_eq parse_ipv4_eq finalize_eq ipproto_defs Let_def ports_of_def
        new_connection_def from_be_def)
  from parsed_ports_are_the_transport_header [OF c(1)] c(2) obtain off where
    "upper_at ?buf off IPPROTO_UDP" by (auto simp: transport_of_def)
  then have "upper_at ?buf 20 IPPROTO_UDP" by (simp add: upper_at_def)
  with c show ?thesis by blast
qed

end
