(* ===== verification/Checksum.thy ===== *)
theory Checksum
  imports Prelude
begin

unbundle bit_operations_syntax

text \<open>
  \<open>checksum16\<close> of \<open>crates/cfc-daemon/src/reject.rs\<close>: the one's-complement checksum of
  RFC 1071 over a list of byte strings, with a byte left over at the end of one part carried
  into the next.  The accumulator is a 32-bit word as in the source.  The theorems: how the
  input is split does not matter, and a message carries a checksum under which it verifies.
\<close>

section \<open>The routine\<close>

text \<open>The chunk loop: sixteen-bit words are added, a last odd byte is returned.\<close>

fun add_words :: "u32 \<Rightarrow> bytes \<Rightarrow> u32 \<times> byte option" where
  "add_words acc (a # b # rest) = add_words (acc + ucast (be16 a b)) rest"
| "add_words acc [final] = (acc, Some final)"
| "add_words acc [] = (acc, None)"

fun add_parts :: "u32 \<Rightarrow> byte option \<Rightarrow> bytes list \<Rightarrow> u32 \<times> byte option" where
  "add_parts acc pending [] = (acc, pending)"
| "add_parts acc (Some high) ([] # parts) = add_parts acc (Some high) parts"
| "add_parts acc (Some high) ((low # rest) # parts) =
     (case add_words (acc + ucast (be16 high low)) rest of (s, p) \<Rightarrow> add_parts s p parts)"
| "add_parts acc None (part # parts) =
     (case add_words acc part of (s, p) \<Rightarrow> add_parts s p parts)"

function fold_carries :: "u32 \<Rightarrow> u32" where
  "fold_carries acc =
     (if drop_bit 16 acc \<noteq> 0 then fold_carries ((acc AND 0xffff) + drop_bit 16 acc) else acc)"
  by pat_completeness auto

lemma low16_unat: "unat (acc AND 0xffff) = unat acc mod 65536" for acc :: u32
proof -
  have "acc AND 0xffff = take_bit 16 acc"
    by (simp add: take_bit_eq_mask mask_eq_exp_minus_1)
  then have "unat (acc AND 0xffff) = take_bit 16 (unat acc)"
    by (simp only: unsigned_take_bit_eq)
  then show ?thesis by (simp add: take_bit_eq_mod)
qed

lemma high16_unat: "unat (drop_bit 16 acc) = unat acc div 65536" for acc :: u32
proof -
  have "unat (drop_bit 16 acc) = drop_bit 16 (take_bit 32 (unat acc))"
    by (simp only: unsigned_drop_bit_eq) simp
  also have "take_bit 32 (unat acc) = unat acc"
    using unat_lt_2p [of acc] by (simp add: take_bit_eq_mod)
  finally show ?thesis by (simp add: drop_bit_eq_div)
qed

lemma fold_step_unat:
  "unat ((acc AND 0xffff) + drop_bit 16 acc) = unat acc mod 65536 + unat acc div 65536"
  for acc :: u32
proof -
  have "unat acc < 4294967296" using unat_lt_2p [of acc] by simp
  moreover have "unat acc div 65536 * 65536 + unat acc mod 65536 = unat acc"
    by (rule div_mult_mod_eq)
  moreover have "unat acc mod 65536 < 65536" by (rule mod_less_divisor) simp
  ultimately have "unat acc mod 65536 + unat acc div 65536 < 4294967296" by linarith
  then show ?thesis
    by (simp add: unat_word_ariths(1) low16_unat high16_unat)
qed

lemma drop16_zero_iff: "drop_bit 16 acc = 0 \<longleftrightarrow> unat acc < 65536" for acc :: u32
proof -
  have "drop_bit 16 acc = 0 \<longleftrightarrow> unat (drop_bit 16 acc) = 0" by (simp only: unat_eq_0)
  then show ?thesis by (simp only: high16_unat div_eq_0_iff) simp
qed

termination fold_carries
proof (relation "measure unat")
  fix acc :: u32
  assume "drop_bit 16 acc \<noteq> 0"
  then have "65536 \<le> unat acc" by (simp add: drop16_zero_iff)
  then have "0 < unat acc div 65536" by (simp add: div_greater_zero_iff)
  moreover have "unat acc div 65536 * 65536 + unat acc mod 65536 = unat acc"
    by (rule div_mult_mod_eq)
  ultimately have "unat acc mod 65536 + unat acc div 65536 < unat acc" by linarith
  then show "((acc AND 0xffff) + drop_bit 16 acc, acc) \<in> measure unat"
    by (simp only: in_measure fold_step_unat)
qed simp

declare fold_carries.simps [simp del]

definition checksum16 :: "bytes list \<Rightarrow> u16" where
  "checksum16 parts =
     (case add_parts 0 None parts of
        (acc, pending) \<Rightarrow>
          let acc = (case pending of None \<Rightarrow> acc | Some high \<Rightarrow> acc + ucast (be16 high 0)) in
          NOT (ucast (fold_carries acc)))"

section \<open>The split does not matter\<close>

text \<open>The state after some bytes, seen as one pass over their concatenation.\<close>

lemma add_words_append:
  "add_words s (xs @ ys) =
     (case add_words s xs of (s', None) \<Rightarrow> add_words s' ys
      | (s', Some h) \<Rightarrow> (case ys of [] \<Rightarrow> (s', Some h)
                        | l # rest \<Rightarrow> add_words (s' + ucast (be16 h l)) rest))"
  by (induction s xs rule: add_words.induct) (auto split: list.splits)

lemma add_parts_concat:
  "add_parts s p parts =
     (case p of None \<Rightarrow> add_words s (concat parts)
      | Some h \<Rightarrow> (case concat parts of [] \<Rightarrow> (s, Some h)
                  | l # rest \<Rightarrow> add_words (s + ucast (be16 h l)) rest))"
  by (induction s p parts rule: add_parts.induct)
     (simp_all add: add_words_append split: list.splits option.splits prod.splits)

text \<open>The checksum of a message does not depend on how it is cut into parts.\<close>

lemma checksum16_concat: "checksum16 parts = checksum16 [concat parts]"
  by (simp add: checksum16_def add_parts_concat)

section \<open>A message carries a checksum under which it verifies\<close>

text \<open>The value of a byte string as a sum of big-endian words, an odd last byte padded.\<close>

fun word_sum :: "bytes \<Rightarrow> nat" where
  "word_sum (a # b # rest) = unat a * 256 + unat b + word_sum rest"
| "word_sum [a] = unat a * 256"
| "word_sum [] = 0"

lemma word_sum_append_even:
  "even (length xs) \<Longrightarrow> word_sum (xs @ ys) = word_sum xs + word_sum ys"
  by (induction xs rule: word_sum.induct) auto

lemma word_pair_le: "unat (a :: byte) * 256 + unat (b :: byte) \<le> 65535"
proof -
  have "unat a * 256 + unat b \<le> 255 * 256 + 255"
    by (intro add_mono mult_right_mono) simp_all
  then show ?thesis by simp
qed

lemma word_sum_le: "word_sum xs \<le> 65535 * ((length xs + 1) div 2)"
proof (induction xs rule: word_sum.induct)
  case (1 a b rest)
  then show ?case using word_pair_le [of a b] by simp
next
  case (2 a)
  then show ?case using word_pair_le [of a 0] by simp
qed simp

lemma be16_unat_u32: "unat (ucast (be16 a b) :: u32) = unat a * 256 + unat b"
proof -
  have "unat (ucast (be16 a b) :: u32) = take_bit 32 (unat (be16 a b))"
    by (simp only: unsigned_ucast_eq) simp
  also have "\<dots> = (unat a * 256 + unat b) mod 4294967296"
    by (simp add: take_bit_eq_mod be16_unat)
  also have "\<dots> = unat a * 256 + unat b"
    by (rule mod_less) (rule le_less_trans [OF word_pair_le], simp)
  finally show ?thesis .
qed

lemma add_be16_unat:
  "unat s + (unat a * 256 + unat b) < 4294967296 \<Longrightarrow>
   unat (s + ucast (be16 a b) :: u32) = unat s + (unat a * 256 + unat b)"
  by (simp add: unat_word_ariths(1) be16_unat_u32)

lemma add_words_unat:
  assumes "unat s + word_sum xs < 4294967296"
  shows "(case add_words s xs of (s', p) \<Rightarrow>
    unat (case p of None \<Rightarrow> s' | Some h \<Rightarrow> s' + ucast (be16 h 0))) = unat s + word_sum xs"
  using assms
proof (induction s xs rule: add_words.induct)
  case (1 s a b rest)
  then have "unat (s + ucast (be16 a b)) = unat s + (unat a * 256 + unat b)"
    by (intro add_be16_unat) simp
  with 1 show ?case by (simp add: add.assoc)
next
  case (2 s final)
  then show ?case by (simp add: add_be16_unat)
next
  case (3 s)
  then show ?case by simp
qed

text \<open>Folding the carries of \<open>n\<close> gives its representative modulo 65535 in \<open>1..65535\<close>, or \<open>0\<close>.\<close>

definition ones_complement :: "nat \<Rightarrow> nat" where
  "ones_complement n = (if n = 0 then 0 else (n - 1) mod 65535 + 1)"

lemma ones_complement_le: "ones_complement n \<le> 65535"
proof -
  have "(n - 1) mod 65535 < 65535" by simp
  then show ?thesis unfolding ones_complement_def by (auto simp del: mod_less_divisor)
qed

lemma ones_complement_step:
  "ones_complement (n mod 65536 + n div 65536) = ones_complement n"
proof (cases "n = 0")
  case False
  let ?q = "n div 65536" and ?r = "n mod 65536"
  have n: "?q * 65536 + ?r = n" by (rule div_mult_mod_eq)
  with False have pos: "0 < ?r + ?q" by (intro gr0I) simp
  with n have "n - 1 = (?r + ?q - 1) + 65535 * ?q" by linarith
  then have "(n - 1) mod 65535 = (?r + ?q - 1) mod 65535" by (simp only: mod_mult_self2)
  with False pos show ?thesis by (simp only: ones_complement_def) simp
qed (simp add: ones_complement_def)

lemma fold_carries_unat: "unat (fold_carries acc) = ones_complement (unat acc)"
proof (induction acc rule: fold_carries.induct)
  case (1 acc)
  show ?case
  proof (cases "drop_bit 16 acc = 0")
    case True
    then have "fold_carries acc = acc" by (subst fold_carries.simps) simp
    moreover have "ones_complement (unat acc) = unat acc"
      using True by (simp add: drop16_zero_iff ones_complement_def)
    ultimately show ?thesis by simp
  next
    case False
    then have "fold_carries acc = fold_carries ((acc AND 0xffff) + drop_bit 16 acc)"
      by (subst fold_carries.simps) simp
    with 1 [OF False] show ?thesis by (simp only: fold_step_unat ones_complement_step)
  qed
qed

lemma checksum16_unat:
  assumes "length (concat parts) \<le> 131070"
  shows "unat (checksum16 parts) = 65535 - ones_complement (word_sum (concat parts))"
proof -
  let ?m = "concat parts"
  have "(length ?m + 1) div 2 \<le> 65535" using assms by linarith
  then have "word_sum ?m \<le> 65535 * 65535"
    using word_sum_le [of ?m] by linarith
  then have lt: "unat (0 :: u32) + word_sum ?m < 4294967296" by simp
  obtain s p where sp: "add_words 0 ?m = (s, p)" by fastforce
  let ?acc = "case p of None \<Rightarrow> s | Some h \<Rightarrow> s + ucast (be16 h 0)"
  have acc: "unat ?acc = word_sum ?m" using add_words_unat [OF lt] by (simp add: sp)
  have c: "checksum16 parts = NOT (ucast (fold_carries ?acc))"
    by (simp add: checksum16_def add_parts_concat sp)
  have "unat (ucast (fold_carries ?acc) :: u16) = ones_complement (word_sum ?m)"
    using ones_complement_le [of "word_sum ?m"]
    by (simp add: unsigned_ucast_eq take_bit_eq_mod fold_carries_unat acc)
  moreover have "unat (NOT w) = 65535 - unat w" for w :: u16
  proof -
    have "NOT w = 65535 - w" by (simp add: not_eq_complement)
    moreover have "w \<le> 65535" using unat_lt_2p [of w] by (simp add: word_le_nat_alt)
    ultimately show ?thesis by (simp add: unat_sub)
  qed
  ultimately show ?thesis by (simp add: c)
qed

lemma ones_complement_closes:
  "ones_complement (n + (65535 - ones_complement n)) = 65535"
proof (cases "n = 0")
  case False
  let ?m = "n - 1"
  have m: "?m div 65535 * 65535 + ?m mod 65535 = ?m" by (rule div_mult_mod_eq)
  have r: "?m mod 65535 < 65535" by (rule mod_less_divisor) simp
  have "n + (65535 - (?m mod 65535 + 1)) - 1 = 65534 + 65535 * (?m div 65535)"
    using m r False by linarith
  then have "(n + (65535 - (?m mod 65535 + 1)) - 1) mod 65535 = 65534" by (simp only: mod_mult_self2) simp
  with False show ?thesis by (simp only: ones_complement_def) simp
qed (simp add: ones_complement_def)

text \<open>A message whose checksum field is computed while it holds zero verifies once the
  checksum is written there: the receiver's sum over it is zero.  Below 131071 bytes the
  32-bit accumulator does not wrap; the packets built here have at most 1320.\<close>

lemma checksum16_verifies:
  assumes "even (length pre)" "length (pre @ [0, 0] @ post) \<le> 131070"
  shows "checksum16 [pre @ to_be16 (checksum16 [pre @ [0, 0] @ post]) @ post] = 0"
proof -
  let ?c = "checksum16 [pre @ [0, 0] @ post]"
  let ?n = "word_sum (pre @ [0, 0] @ post)"
  have len: "length (concat [pre @ to_be16 ?c @ post]) \<le> 131070" using assms(2) by simp
  have two: "word_sum (to_be16 w @ ys) = unat w + word_sum ys" for w ys
  proof -
    obtain a b where ab: "to_be16 w = [a, b]"
      by (simp add: numeral_2_eq_2)
    then have "be_val [a, b] = unat w mod 256 ^ 2" using be_val_be_bytes [of 2 "unat w"] by simp
    then have "unat a * 256 + unat b = unat w" using unat_lt_2p [of w] by simp
    with ab show ?thesis by simp
  qed
  have "word_sum (pre @ to_be16 ?c @ post) = ?n + unat ?c"
    using assms(1) by (simp only: word_sum_append_even two) simp
  moreover have "unat ?c = 65535 - ones_complement ?n"
    using checksum16_unat [of "[pre @ [0, 0] @ post]"] assms(2) by simp
  ultimately have "unat (checksum16 [pre @ to_be16 ?c @ post]) = 0"
    using checksum16_unat [OF len] ones_complement_closes [of ?n] by simp
  then show ?thesis by (simp only: unat_eq_0)
qed

end
