(* ===== verification/Refusal.thy ===== *)
theory Refusal
  imports Packet Checksum
begin

unbundle bit_operations_syntax

text \<open>
  \<open>crates/cfc-daemon/src/reject.rs\<close>: the refusals injected for rejected flows.  The packet
  construction (TCP resets, ICMP port-unreachable errors, their headers, pseudo-headers and
  checksums), the upper-layer offset, the address filter and \<open>Rejecter::reject\<close> with its
  helpers.  The kernel's \<open>sendto\<close> is the parameter \<open>send\<close>; the off-box budget (a token bucket
  over \<open>f64\<close>) is the parameter \<open>take_token\<close>, a function on its own state.  Nothing is assumed
  of either.
\<close>

section \<open>Constants and result types\<close>

definition IPV4_HEADER_LEN :: nat where "IPV4_HEADER_LEN = 20"
definition IPV6_HEADER_LEN :: nat where "IPV6_HEADER_LEN = 40"
definition TCP_HEADER_LEN :: nat where "TCP_HEADER_LEN = 20"
definition ICMP_HEADER_LEN :: nat where "ICMP_HEADER_LEN = 8"
definition TCP_FLAG_FIN :: u8 where "TCP_FLAG_FIN = 0x01"
definition TCP_FLAG_RST :: u8 where "TCP_FLAG_RST = 0x04"
definition TCP_FLAG_SYN :: u8 where "TCP_FLAG_SYN = 0x02"
definition TCP_FLAG_ACK :: u8 where "TCP_FLAG_ACK = 0x10"
definition ICMP_DEST_UNREACH :: u8 where "ICMP_DEST_UNREACH = 3"
definition ICMP_CODE_PORT_UNREACH :: u8 where "ICMP_CODE_PORT_UNREACH = 3"
definition ICMPV6_DEST_UNREACH :: u8 where "ICMPV6_DEST_UNREACH = 1"
definition ICMPV6_CODE_PORT_UNREACH :: u8 where "ICMPV6_CODE_PORT_UNREACH = 4"
definition ICMPV4_QUOTE_L4_BYTES :: nat where "ICMPV4_QUOTE_L4_BYTES = 8"
definition IPV6_MIN_MTU :: nat where "IPV6_MIN_MTU = 1280"
definition DEFAULT_TTL :: u8 where "DEFAULT_TTL = 64"

lemmas header_lens = IPV4_HEADER_LEN_def IPV6_HEADER_LEN_def TCP_HEADER_LEN_def
  ICMP_HEADER_LEN_def ICMPV4_QUOTE_L4_BYTES_def IPV6_MIN_MTU_def

lemmas refusal_bytes = TCP_FLAG_FIN_def TCP_FLAG_RST_def TCP_FLAG_SYN_def TCP_FLAG_ACK_def
  ICMP_DEST_UNREACH_def ICMP_CODE_PORT_UNREACH_def ICMPV6_DEST_UNREACH_def
  ICMPV6_CODE_PORT_UNREACH_def DEFAULT_TTL_def

datatype reject_outcome = Sent | Unavailable | Unsupported | SendFailed | RateLimited

text \<open>A file descriptor is its number.  The budget's state has the parameter type \<open>'b\<close>.\<close>

record 'b rejecter =
  rj_v4 :: "nat option"
  rj_v6 :: "nat option"
  rj_icmp4 :: "nat option"
  rj_icmp6 :: "nat option"
  rj_warned :: bool
  rj_budget :: 'b

record rst_fields_t =
  f_seq :: u32
  f_ack :: u32
  f_ack_flag :: bool

section \<open>Packet construction\<close>

text \<open>\<open>usize::clamp\<close> panics when its bounds are out of order.\<close>

definition clamp :: "nat \<Rightarrow> nat \<Rightarrow> nat \<Rightarrow> (nat \<Rightarrow> 'a run) \<Rightarrow> 'a run" where
  "clamp lo hi x k = (if lo \<le> hi then k (max lo (min hi x)) else Panic)"

definition rst_fields :: "bytes \<Rightarrow> rst_fields_t option run" where
  "rst_fields tcp =
     (if length tcp < TCP_HEADER_LEN then Ret None
      else sl tcp 4 8 (\<lambda>seq_bytes. sl tcp 8 12 (\<lambda>ack_bytes. rd tcp 13 (\<lambda>flags.
        let seq = from_be seq_bytes; ack = from_be ack_bytes in
        if flags AND TCP_FLAG_RST \<noteq> 0 then Ret None
        else if flags AND TCP_FLAG_ACK \<noteq> 0 then
          Ret (Some \<lparr>f_seq = ack, f_ack = 0, f_ack_flag = False\<rparr>)
        else rd tcp 12 (\<lambda>b12.
          clamp TCP_HEADER_LEN (length tcp) (unat (drop_bit 4 b12) * 4) (\<lambda>data_offset.
            let seg_len = word_of_nat (length tcp - data_offset) :: u32;
                seg_len = (if flags AND TCP_FLAG_SYN \<noteq> 0 then seg_len + 1 else seg_len);
                seg_len = (if flags AND TCP_FLAG_FIN \<noteq> 0 then seg_len + 1 else seg_len) in
            Ret (Some \<lparr>f_seq = 0, f_ack = seq + seg_len, f_ack_flag = True\<rparr>)))))))"

definition tcp_rst_segment :: "u16 \<Rightarrow> u16 \<Rightarrow> rst_fields_t \<Rightarrow> bytes" where
  "tcp_rst_segment src_port dst_port rst =
     (let tcp = replicate TCP_HEADER_LEN 0;
          tcp = put 0 (to_be16 src_port) tcp;
          tcp = put 2 (to_be16 dst_port) tcp;
          tcp = put 4 (to_be32 (f_seq rst)) tcp;
          tcp = put 8 (to_be32 (f_ack rst)) tcp;
          tcp = tcp[12 := push_bit 4 5];
          tcp = tcp[13 := TCP_FLAG_RST OR (if f_ack_flag rst then TCP_FLAG_ACK else 0)] in
      tcp)"

definition icmp_error_header :: "u8 \<Rightarrow> u8 \<Rightarrow> bytes" where
  "icmp_error_header icmp_type code =
     (let icmp = replicate ICMP_HEADER_LEN 0; icmp = icmp[0 := icmp_type] in icmp[1 := code])"

definition ipv4_header :: "u32 \<Rightarrow> u32 \<Rightarrow> u8 \<Rightarrow> nat \<Rightarrow> bytes" where
  "ipv4_header src dst protocol payload_len =
     (let ip = replicate IPV4_HEADER_LEN 0;
          ip = ip[0 := 0x45];
          total = word_of_nat (IPV4_HEADER_LEN + payload_len) :: u16;
          ip = put 2 (to_be16 total) ip;
          ip = put 6 (to_be16 0x4000) ip;
          ip = ip[8 := DEFAULT_TTL];
          ip = ip[9 := protocol];
          ip = put 12 (octets (V4 src)) ip;
          ip = put 16 (octets (V4 dst)) ip;
          csum = checksum16 [ip] in
      put 10 (to_be16 csum) ip)"

definition ipv6_header :: "128 word \<Rightarrow> 128 word \<Rightarrow> u8 \<Rightarrow> nat \<Rightarrow> bytes" where
  "ipv6_header src dst next_header payload_len =
     (let ip = replicate IPV6_HEADER_LEN 0;
          ip = ip[0 := 0x60];
          ip = put 4 (to_be16 (word_of_nat payload_len)) ip;
          ip = ip[6 := next_header];
          ip = ip[7 := DEFAULT_TTL];
          ip = put 8 (octets (V6 src)) ip in
      put 24 (octets (V6 dst)) ip)"

definition v4_pseudo_header :: "u32 \<Rightarrow> u32 \<Rightarrow> u8 \<Rightarrow> nat \<Rightarrow> bytes" where
  "v4_pseudo_header src dst protocol l4_len =
     (let ph = replicate 12 0;
          ph = put 0 (octets (V4 src)) ph;
          ph = put 4 (octets (V4 dst)) ph;
          ph = ph[9 := protocol] in
      put 10 (to_be16 (word_of_nat l4_len)) ph)"

definition v6_pseudo_header :: "128 word \<Rightarrow> 128 word \<Rightarrow> u8 \<Rightarrow> nat \<Rightarrow> bytes" where
  "v6_pseudo_header src dst next_header l4_len =
     (let ph = replicate 40 0;
          ph = put 0 (octets (V6 src)) ph;
          ph = put 16 (octets (V6 dst)) ph;
          ph = put 32 (to_be32 (word_of_nat l4_len)) ph in
      ph[39 := next_header])"

fun build_tcp_rst :: "ip_addr \<Rightarrow> u16 \<Rightarrow> ip_addr \<Rightarrow> u16 \<Rightarrow> rst_fields_t \<Rightarrow> bytes option" where
  "build_tcp_rst (V4 src) src_port (V4 dst) dst_port rst =
     (let tcp = tcp_rst_segment src_port dst_port rst;
          csum = checksum16 [v4_pseudo_header src dst IPPROTO_TCP (length tcp), tcp];
          tcp = put 16 (to_be16 csum) tcp in
      Some (ipv4_header src dst IPPROTO_TCP (length tcp) @ tcp))"
| "build_tcp_rst (V6 src) src_port (V6 dst) dst_port rst =
     (let tcp = tcp_rst_segment src_port dst_port rst;
          csum = checksum16 [v6_pseudo_header src dst IPPROTO_TCP (length tcp), tcp];
          tcp = put 16 (to_be16 csum) tcp in
      Some (ipv6_header src dst IPPROTO_TCP (length tcp) @ tcp))"
| "build_tcp_rst _ _ _ _ _ = None"

text \<open>One pass of the offset walk per unit of fuel; a packet's length is far below \<open>usize::MAX\<close>,
  so the source's \<open>checked_add\<close> succeeds whenever the result can lie in the packet.\<close>

fun l4_walk :: "bytes \<Rightarrow> nat \<Rightarrow> u8 \<Rightarrow> nat \<Rightarrow> nat option" where
  "l4_walk packet 0 next_header offset = None"
| "l4_walk packet (Suc n) next_header offset =
     (let advance = (\<lambda>len.
            case get_at packet offset of
              None \<Rightarrow> None
            | Some next_header \<Rightarrow>
                if length packet < offset + len then None
                else l4_walk packet n next_header (offset + len)) in
      if next_header = IPPROTO_HOPOPTS \<or> next_header = IPPROTO_ROUTING \<or> next_header = IPPROTO_DSTOPTS then
        (case get_at packet (offset + 1) of
           None \<Rightarrow> None
         | Some b \<Rightarrow> advance ((unat b + 1) * 8))
      else if next_header = IPPROTO_AH then
        (case get_at packet (offset + 1) of
           None \<Rightarrow> None
         | Some b \<Rightarrow> advance ((unat b + 2) * 4))
      else if next_header = IPPROTO_FRAGMENT then advance 8
      else Some offset)"

definition l4_offset :: "bytes \<Rightarrow> nat option run" where
  "l4_offset packet =
     (case get_at packet 0 of
        None \<Rightarrow> Ret None
      | Some b \<Rightarrow>
          if drop_bit 4 b = 4 then
            (if length packet < IPV4_HEADER_LEN then Ret None
             else rd packet 0 (\<lambda>b0.
               let ihl = unat (b0 AND 0x0f) * 4 in
               if ihl < IPV4_HEADER_LEN \<or> length packet < ihl then Ret None else Ret (Some ihl)))
          else if drop_bit 4 b = 6 then
            (if length packet < IPV6_HEADER_LEN then Ret None
             else rd packet 6 (\<lambda>next_header.
               Ret (l4_walk packet (MAX_EXT_HEADERS + 1) next_header IPV6_HEADER_LEN)))
          else Ret None)"

fun build_icmp_port_unreachable :: "ip_addr \<Rightarrow> ip_addr \<Rightarrow> bytes \<Rightarrow> bytes option run" where
  "build_icmp_port_unreachable (V4 src) (V4 dst) original =
     bind_run (l4_offset original) (\<lambda>offset.
       case offset of
         None \<Rightarrow> Ret None
       | Some off \<Rightarrow>
           let quote_len = off + ICMPV4_QUOTE_L4_BYTES in
           if length original < quote_len then Ret None
           else sl original 0 quote_len (\<lambda>quote.
             let icmp = icmp_error_header ICMP_DEST_UNREACH ICMP_CODE_PORT_UNREACH @ quote;
                 csum = checksum16 [icmp];
                 icmp = put 2 (to_be16 csum) icmp in
             Ret (Some (ipv4_header src dst IPPROTO_ICMP (length icmp) @ icmp))))"
| "build_icmp_port_unreachable (V6 src) (V6 dst) original =
     (let max_quote = IPV6_MIN_MTU - IPV6_HEADER_LEN - ICMP_HEADER_LEN;
          quote_len = min (length original) max_quote in
      sl original 0 quote_len (\<lambda>quote.
        let icmp = icmp_error_header ICMPV6_DEST_UNREACH ICMPV6_CODE_PORT_UNREACH @ quote;
            csum = checksum16 [v6_pseudo_header src dst IPPROTO_ICMPV6 (length icmp), icmp];
            icmp = put 2 (to_be16 csum) icmp in
        Ret (Some (ipv6_header src dst IPPROTO_ICMPV6 (length icmp) @ icmp))))"
| "build_icmp_port_unreachable _ _ _ = Ret None"

section \<open>The address filter\<close>

text \<open>The standard library's address predicates.\<close>

definition v4_is_multicast :: "u32 \<Rightarrow> bool" where
  "v4_is_multicast a \<longleftrightarrow> 224 \<le> hd (octets (V4 a)) \<and> hd (octets (V4 a)) \<le> 239"

definition v4_is_broadcast :: "u32 \<Rightarrow> bool" where
  "v4_is_broadcast a \<longleftrightarrow> a = 0xffffffff"

definition v6_is_multicast :: "128 word \<Rightarrow> bool" where
  "v6_is_multicast a \<longleftrightarrow> hd (octets (V6 a)) = 0xff"

definition v4_unicast :: "u32 \<Rightarrow> bool" where
  "v4_unicast a \<longleftrightarrow> \<not> (v4_is_multicast a \<or> v4_is_broadcast a \<or> a = 0)"

fun unicast_addressable :: "ip_addr \<Rightarrow> bool" where
  "unicast_addressable (V4 a) = v4_unicast a"
| "unicast_addressable (V6 a) =
     (case to_canonical (V6 a) of
        V4 v4 \<Rightarrow> v4_unicast v4
      | V6 v6 \<Rightarrow> \<not> (v6_is_multicast v6 \<or> v6 = 0))"

section \<open>The rejecter\<close>

text \<open>
  Each operation returns the outcome, the packet handed to the kernel (socket, route address
  and bytes) if there was one, and the rejecter after it.
\<close>

type_synonym 'b reject_result = "reject_outcome \<times> (nat \<times> ip_addr \<times> bytes) option \<times> 'b rejecter"

definition emit ::
  "(nat \<Rightarrow> ip_addr \<Rightarrow> bytes \<Rightarrow> bool) \<Rightarrow> 'b rejecter \<Rightarrow> nat option \<Rightarrow> ip_addr \<Rightarrow> bytes \<Rightarrow> 'b reject_result" where
  "emit send rj socket dst payload =
     (case socket of
        None \<Rightarrow> (Unavailable, None, rj)
      | Some fd \<Rightarrow>
          if send fd dst payload then (Sent, Some (fd, dst, payload), rj)
          else (SendFailed, Some (fd, dst, payload), rj\<lparr>rj_warned := True\<rparr>))"

definition reject_tcp ::
  "(nat \<Rightarrow> ip_addr \<Rightarrow> bytes \<Rightarrow> bool) \<Rightarrow> 'b rejecter \<Rightarrow> connection \<Rightarrow> bytes \<Rightarrow> 'b reject_result run" where
  "reject_tcp send rj conn original =
     bind_run (l4_offset original) (\<lambda>offset.
       case offset of
         None \<Rightarrow> Ret (Unsupported, None, rj)
       | Some off \<Rightarrow> sl original off (length original) (\<lambda>tcp.
           bind_run (rst_fields tcp) (\<lambda>rst.
             case rst of
               None \<Rightarrow> Ret (Unsupported, None, rj)
             | Some f \<Rightarrow>
                 (case build_tcp_rst (c_dst_ip conn) (c_dst_port conn) (c_src_ip conn)
                         (c_src_port conn) f of
                    None \<Rightarrow> Ret (Unsupported, None, rj)
                  | Some packet \<Rightarrow>
                      let socket = (case c_src_ip conn of V4 _ \<Rightarrow> rj_v4 rj | V6 _ \<Rightarrow> rj_v6 rj) in
                      Ret (emit send rj socket (c_src_ip conn) packet)))))"

definition reject_udp ::
  "(nat \<Rightarrow> ip_addr \<Rightarrow> bytes \<Rightarrow> bool) \<Rightarrow> 'b rejecter \<Rightarrow> connection \<Rightarrow> bytes \<Rightarrow> 'b reject_result run" where
  "reject_udp send rj conn original =
     bind_run (build_icmp_port_unreachable (c_dst_ip conn) (c_src_ip conn) original) (\<lambda>packet.
       case packet of
         None \<Rightarrow> Ret (Unsupported, None, rj)
       | Some pkt \<Rightarrow>
           let socket = (case c_src_ip conn of V4 _ \<Rightarrow> rj_icmp4 rj | V6 _ \<Rightarrow> rj_icmp6 rj) in
           Ret (emit send rj socket (c_src_ip conn) pkt))"

definition reject_flow ::
  "(nat \<Rightarrow> ip_addr \<Rightarrow> bytes \<Rightarrow> bool) \<Rightarrow> ('b \<Rightarrow> bool \<times> 'b) \<Rightarrow> 'b rejecter \<Rightarrow> connection \<Rightarrow> bytes
     \<Rightarrow> 'b reject_result run" where
  "reject_flow send take_token rj conn original =
     (if \<not> unicast_addressable (c_src_ip conn) \<or> \<not> unicast_addressable (c_dst_ip conn) then
        Ret (Unsupported, None, rj)
      else
        let (allowed, rj) =
              (if c_direction conn = Inbound
               then (case take_token (rj_budget rj) of (ok, b) \<Rightarrow> (ok, rj\<lparr>rj_budget := b\<rparr>))
               else (True, rj)) in
        if \<not> allowed then Ret (RateLimited, None, rj)
        else (case c_protocol conn of
                Tcp \<Rightarrow> reject_tcp send rj conn original
              | Udp \<Rightarrow> reject_udp send rj conn original
              | _ \<Rightarrow> Ret (Unsupported, None, rj)))"

section \<open>The layout of the packets\<close>

lemma be_bytes_2: "be_bytes 2 v = [word_of_nat (v div 256), word_of_nat v]"
  by (simp add: numeral_2_eq_2)

lemma be_bytes_4:
  "\<exists>a b c d. be_bytes 4 v = [a, b, c, d]"
proof -
  have "(4::nat) = Suc (Suc (Suc (Suc 0)))" by simp
  then show ?thesis by (simp only: be_bytes.simps) blast
qed

lemma list_update_put: "i < length xs \<Longrightarrow> xs[i := v] = put i [v] xs"
  by (simp add: put_def upd_conv_take_nth_drop)

lemma put_append:
  "length pre = i \<Longrightarrow> length xs = length mid \<Longrightarrow> put i xs (pre @ mid @ post) = pre @ xs @ post"
  by (simp add: put_def)

lemma zeros8: "replicate 8 (0 :: byte) = [0, 0, 0, 0, 0, 0, 0, 0]"
  by (simp add: numeral_eq_Suc)

lemma zeros12: "replicate 12 (0 :: byte) = [0, 0, 0, 0, 0, 0, 0, 0, 0, 0, 0, 0]"
  by (simp add: numeral_eq_Suc)

lemma zeros20:
  "replicate 20 (0 :: byte) = [0, 0, 0, 0, 0, 0, 0, 0, 0, 0, 0, 0, 0, 0, 0, 0, 0, 0, 0, 0]"
  by (simp add: numeral_eq_Suc)

lemma zeros40:
  "replicate 40 (0 :: byte) = replicate 8 0 @ replicate 16 0 @ replicate 16 0"
  by (simp flip: replicate_add)

lemma from_be_octets4 [be_simps]: "from_be (be_bytes 4 (unat w)) = (w :: u32)"
  by (rule from_be_to_be32)

lemma from_be_octets16 [be_simps]: "from_be (be_bytes 16 (unat w)) = (w :: 128 word)"
proof -
  have "unat w < 256 ^ 16" using unat_lt_2p [of w] by simp
  then show ?thesis unfolding from_be_def be_val_be_bytes by simp
qed

definition rst_flags :: "rst_fields_t \<Rightarrow> u8" where
  "rst_flags rst = TCP_FLAG_RST OR (if f_ack_flag rst then TCP_FLAG_ACK else 0)"

lemma tcp_rst_segment_eq:
  "tcp_rst_segment sp dp rst =
     to_be16 sp @ to_be16 dp @ to_be32 (f_seq rst) @ to_be32 (f_ack rst) @
     [0x50, rst_flags rst, 0, 0, 0, 0, 0, 0]"
proof -
  obtain s0 s1 s2 s3 where s: "to_be32 (f_seq rst) = [s0, s1, s2, s3]" using be_bytes_4 by blast
  obtain a0 a1 a2 a3 where a: "to_be32 (f_ack rst) = [a0, a1, a2, a3]" using be_bytes_4 by blast
  obtain p0 p1 where p: "to_be16 sp = [p0, p1]" by (simp add: be_bytes_2)
  obtain d0 d1 where d: "to_be16 dp = [d0, d1]" by (simp add: be_bytes_2)
  show ?thesis
    unfolding tcp_rst_segment_def TCP_HEADER_LEN_def Let_def s a p d zeros20 rst_flags_def
    by (simp add: list_update_put put_def)
qed

lemma length_tcp_rst_segment [simp]: "length (tcp_rst_segment sp dp rst) = 20"
  by (simp add: tcp_rst_segment_eq)

definition ipv4_fixed :: "u8 \<Rightarrow> nat \<Rightarrow> bytes" where
  "ipv4_fixed proto n = [0x45, 0] @ to_be16 (word_of_nat (20 + n)) @ [0, 0, 0x40, 0, 64, proto]"

lemma length_ipv4_fixed [simp]: "length (ipv4_fixed proto n) = 10"
  by (simp add: ipv4_fixed_def)

lemma ipv4_header_eq:
  "ipv4_header src dst proto n =
     ipv4_fixed proto n @
     to_be16 (checksum16 [ipv4_fixed proto n @ [0, 0] @ octets (V4 src) @ octets (V4 dst)]) @
     octets (V4 src) @ octets (V4 dst)"
proof -
  obtain a b where ab: "to_be16 (word_of_nat (20 + n)) = [a, b]" by (simp add: be_bytes_2)
  obtain s0 s1 s2 s3 where s: "octets (V4 src) = [s0, s1, s2, s3]"
    using be_bytes_4 [of "unat src"] by auto
  obtain d0 d1 d2 d3 where d: "octets (V4 dst) = [d0, d1, d2, d3]"
    using be_bytes_4 [of "unat dst"] by auto
  have df: "to_be16 0x4000 = [0x40, 0]" by (simp add: be_bytes_2)
  have ip: "put 16 (octets (V4 dst)) (put 12 (octets (V4 src)) ((put 6 (to_be16 0x4000)
      (put 2 (to_be16 (word_of_nat (20 + n))) ((replicate 20 0)[0 := 0x45])))[8 := 64, 9 := proto]))
    = ipv4_fixed proto n @ [0, 0] @ octets (V4 src) @ octets (V4 dst)"
    unfolding s d ab ipv4_fixed_def df zeros20 by (simp add: list_update_put put_def)
  show ?thesis
    unfolding ipv4_header_def IPV4_HEADER_LEN_def DEFAULT_TTL_def Let_def ip
    by (simp add: put_def)
qed

lemma ipv6_header_eq:
  "ipv6_header src dst nh n =
     [0x60, 0, 0, 0] @ to_be16 (word_of_nat n) @ [nh, 64] @ octets (V6 src) @ octets (V6 dst)"
proof -
  obtain a b where ab: "to_be16 (word_of_nat n) = [a, b]" by (simp add: be_bytes_2)
  show ?thesis
    unfolding ipv6_header_def IPV6_HEADER_LEN_def DEFAULT_TTL_def Let_def ab zeros40 zeros8
    by (simp add: list_update_put put_def)
qed

lemma length_headers [simp]:
  "length (ipv4_header src dst proto n) = 20" "length (ipv6_header s d nh n) = 40"
  by (simp_all add: ipv4_header_eq ipv6_header_eq)

section \<open>Checksums hold at the receiver\<close>

lemma length_pseudo [simp]:
  "length (v4_pseudo_header s d p n) = 12" "length (v6_pseudo_header s' d' p n) = 40"
  by (simp_all add: v4_pseudo_header_def v6_pseudo_header_def Let_def)

text \<open>
  What a receiver checks, written from the standards and not from the sender's routines.  A string
  of bytes is intact (RFC 1071) when the ones'-complement sum of its big-endian words is all ones,
  that is, when their sum is a positive multiple of 65535.  A message is intact together with the
  pseudo-header of its family (RFC 9293, RFC 8200); ICMPv4 has none.
\<close>

definition intact :: "bytes \<Rightarrow> bool" where
  "intact bs \<longleftrightarrow> 0 < word_sum bs \<and> word_sum bs mod 65535 = 0"

fun message_verifies :: "ip_addr \<Rightarrow> ip_addr \<Rightarrow> u8 \<Rightarrow> bytes \<Rightarrow> bool" where
  "message_verifies (V4 s) (V4 d) proto msg =
     intact ((if proto = 1 then [] else octets (V4 s) @ octets (V4 d) @ [0, proto] @ be_bytes 2 (length msg)) @ msg)"
| "message_verifies (V6 s) (V6 d) proto msg =
     intact (octets (V6 s) @ octets (V6 d) @ be_bytes 4 (length msg) @ [0, 0, 0, proto] @ msg)"
| "message_verifies _ _ _ _ = False"

text \<open>The header of a whole packet: its version, its length field, the protocol, the two addresses, and
  over IPv4 an intact header.\<close>

fun header_verifies :: "ip_addr \<Rightarrow> ip_addr \<Rightarrow> u8 \<Rightarrow> bytes \<Rightarrow> bool" where
  "header_verifies (V4 s) (V4 d) proto pkt \<longleftrightarrow>
     20 \<le> length pkt \<and> pkt ! 0 = 0x45 \<and> be_val (take 2 (drop 2 pkt)) = length pkt \<and> 0 < pkt ! 8 \<and> pkt ! 9 = proto \<and>
     take 4 (drop 12 pkt) = octets (V4 s) \<and> take 4 (drop 16 pkt) = octets (V4 d) \<and> intact (take 20 pkt)"
| "header_verifies (V6 s) (V6 d) proto pkt \<longleftrightarrow>
     40 \<le> length pkt \<and> pkt ! 0 = 0x60 \<and> be_val (take 2 (drop 4 pkt)) = length pkt - 40 \<and> pkt ! 6 = proto \<and> 0 < pkt ! 7 \<and>
     take 16 (drop 8 pkt) = octets (V6 s) \<and> take 16 (drop 24 pkt) = octets (V6 d)"
| "header_verifies _ _ _ _ \<longleftrightarrow> False"

fun header_len :: "ip_addr \<Rightarrow> nat" where
  "header_len (V4 _) = 20"
| "header_len (V6 _) = 40"

definition packet_verifies :: "ip_addr \<Rightarrow> ip_addr \<Rightarrow> u8 \<Rightarrow> bytes \<Rightarrow> bool" where
  "packet_verifies s d proto pkt \<longleftrightarrow>
     header_verifies s d proto pkt \<and> message_verifies s d proto (drop (header_len s) pkt)"

lemma checksum16_intact:
  assumes "length (concat parts) \<le> 131070" "checksum16 parts = 0"
  shows "intact (concat parts)"
proof -
  let ?n = "word_sum (concat parts)"
  have "unat (checksum16 parts) = 0" using assms(2) by simp
  with checksum16_unat [OF assms(1)] ones_complement_le [of ?n] have o: "ones_complement ?n = 65535" by linarith
  then have pos: "0 < ?n" and m: "(?n - 1) mod 65535 = 65534" by (auto simp: ones_complement_def split: if_splits)
  have "?n mod 65535 = (?n - 1 + 1) mod 65535" using pos by simp
  also have "\<dots> = ((?n - 1) mod 65535 + 1) mod 65535" by (rule mod_add_left_eq [symmetric])
  also have "\<dots> = 0" unfolding m by simp
  finally show ?thesis using pos by (simp add: intact_def)
qed

lemma be_bytes_word16: "to_be16 (word_of_nat n) = be_bytes 2 n"
proof -
  have "be_bytes 2 (n mod 65536) = be_bytes 2 n"
    by (rule be_val_inj) (simp_all add: be_val_be_bytes)
  then show ?thesis by (simp add: unat_of_nat)
qed

lemma be_bytes_word32: "to_be32 (word_of_nat n) = be_bytes 4 n"
proof -
  have "be_bytes 4 (n mod 4294967296) = be_bytes 4 n"
    by (rule be_val_inj) (simp_all add: be_val_be_bytes)
  then show ?thesis by (simp add: unat_of_nat)
qed

lemma v4_pseudo_header_eq:
  "v4_pseudo_header s d p n = octets (V4 s) @ octets (V4 d) @ [0, p] @ be_bytes 2 n"
proof -
  obtain s0 s1 s2 s3 where s: "octets (V4 s) = [s0, s1, s2, s3]" using be_bytes_4 [of "unat s"] by auto
  obtain d0 d1 d2 d3 where d: "octets (V4 d) = [d0, d1, d2, d3]" using be_bytes_4 [of "unat d"] by auto
  obtain a b where ab: "be_bytes 2 n = [a, b]" by (simp add: be_bytes_2)
  show ?thesis
    unfolding v4_pseudo_header_def Let_def be_bytes_word16 s d ab zeros12 by (simp add: list_update_put put_def)
qed

lemma v6_pseudo_header_eq:
  "v6_pseudo_header s d p n = octets (V6 s) @ octets (V6 d) @ be_bytes 4 n @ [0, 0, 0, p]"
proof -
  obtain a b c e where ab: "be_bytes 4 n = [a, b, c, e]" using be_bytes_4 by blast
  show ?thesis
    unfolding v6_pseudo_header_def Let_def be_bytes_word32 ab zeros40 zeros8 by (simp add: list_update_put put_def numeral_3_eq_3)
qed

lemma message_intact:
  assumes "length msg \<le> 65535" "proto \<noteq> 1"
  shows "checksum16 [v4_pseudo_header s d proto (length msg), msg] = 0 \<Longrightarrow> message_verifies (V4 s) (V4 d) proto msg"
    "checksum16 [v6_pseudo_header s' d' proto (length msg), msg] = 0 \<Longrightarrow> message_verifies (V6 s') (V6 d') proto msg"
  using assms checksum16_intact [of "[v4_pseudo_header s d proto (length msg), msg]"]
    checksum16_intact [of "[v6_pseudo_header s' d' proto (length msg), msg]"]
  by (simp_all add: v4_pseudo_header_eq v6_pseudo_header_eq)

lemma checksum_field_closes:
  assumes "even (length ph)" "even i" "i + 2 \<le> length msg" "take 2 (drop i msg) = [0, 0]"
    "length ph + length msg \<le> 131070"
  shows "checksum16 [ph, put i (to_be16 (checksum16 [ph, msg])) msg] = 0"
proof -
  let ?pre = "ph @ take i msg" and ?post = "drop (i + 2) msg"
  have "msg = take i msg @ take 2 (drop i msg) @ drop 2 (drop i msg)"
    by (simp only: append_take_drop_id)
  then have m: "msg = take i msg @ [0, 0] @ ?post"
    by (simp only: assms(4) drop_drop add.commute)
  have c: "checksum16 [ph, msg] = checksum16 [?pre @ [0, 0] @ ?post]"
    by (subst checksum16_concat, subst m) simp
  have "even (length ?pre)" using assms(1,2,3) by simp
  moreover have "length (?pre @ [0, 0] @ ?post) \<le> 131070" using assms(3,5) by simp
  ultimately have z: "checksum16 [?pre @ to_be16 (checksum16 [ph, msg]) @ ?post] = 0"
    unfolding c by (rule checksum16_verifies)
  have "checksum16 [ph, put i (to_be16 (checksum16 [ph, msg])) msg] =
      checksum16 [?pre @ to_be16 (checksum16 [ph, msg]) @ ?post]"
    by (subst checksum16_concat) (simp add: put_def)
  with z show ?thesis by simp
qed

lemma ipv4_header_verifies: "checksum16 [ipv4_header s d proto n] = 0"
  unfolding ipv4_header_eq by (rule checksum16_verifies) simp_all

lemma ipv4_header_ok:
  assumes "length rest = n" "20 + n \<le> 65535"
  shows "header_verifies (V4 s) (V4 d) proto (ipv4_header s d proto n @ rest)"
proof -
  obtain a b where ab: "be_bytes 2 (20 + n) = [a, b]" by (simp add: be_bytes_2)
  then have v: "be_val [a, b] = 20 + n" using be_val_be_bytes [of 2 "20 + n"] assms(2) by simp
  have "intact (ipv4_header s d proto n)" using checksum16_intact [of "[ipv4_header s d proto n]"] ipv4_header_verifies by simp
  then have "intact (take 20 (ipv4_header s d proto n @ rest))" by simp
  moreover have "20 \<le> length pkt \<and> pkt ! 0 = 0x45 \<and> take 2 (drop 2 pkt) = [a, b] \<and> pkt ! 8 = 64 \<and> pkt ! 9 = proto \<and>
      take 4 (drop 12 pkt) = octets (V4 s) \<and> take 4 (drop 16 pkt) = octets (V4 d)"
    if "pkt = ipv4_header s d proto n @ rest" for pkt
  proof -
    obtain c e where ce: "to_be16 (checksum16 [ipv4_fixed proto n @ [0, 0] @ octets (V4 s) @ octets (V4 d)]) = [c, e]"
      by (simp add: be_bytes_2)
    obtain s0 s1 s2 s3 where s: "octets (V4 s) = [s0, s1, s2, s3]" using be_bytes_4 [of "unat s"] by auto
    obtain d0 d1 d2 d3 where d: "octets (V4 d) = [d0, d1, d2, d3]" using be_bytes_4 [of "unat d"] by auto
    show ?thesis unfolding that ipv4_header_eq ce ipv4_fixed_def be_bytes_word16 ab s d by simp
  qed
  ultimately show ?thesis using v assms(1) by simp
qed

lemma ipv6_header_ok:
  assumes "length rest = n" "n \<le> 65535"
  shows "header_verifies (V6 s) (V6 d) proto (ipv6_header s d proto n @ rest)"
proof -
  obtain a b where ab: "be_bytes 2 n = [a, b]" by (simp add: be_bytes_2)
  then have v: "be_val [a, b] = n" using be_val_be_bytes [of 2 n] assms(2) by simp
  have "40 \<le> length pkt \<and> pkt ! 0 = 0x60 \<and> take 2 (drop 4 pkt) = [a, b] \<and> pkt ! 6 = proto \<and> pkt ! 7 = 64 \<and>
      take 16 (drop 8 pkt) = octets (V6 s) \<and> take 16 (drop 24 pkt) = octets (V6 d)"
    if "pkt = ipv6_header s d proto n @ rest" for pkt
    unfolding that ipv6_header_eq be_bytes_word16 ab by (simp add: nth_append)
  with v assms(1) show ?thesis by simp
qed

lemma segment_zero_field: "take 2 (drop 16 (tcp_rst_segment sp dp rst)) = [0, 0]"
  by (simp add: tcp_rst_segment_eq)

lemma icmp_zero_field:
  "take 2 (drop 2 (icmp_error_header t c)) = [0, 0]"
  "take 2 (drop 2 (icmp_error_header t c @ quote)) = [0, 0]"
  by (simp_all add: icmp_error_header_def ICMP_HEADER_LEN_def zeros8 list_update_put put_def)

lemma length_icmp_error_header [simp]: "length (icmp_error_header t c) = 8"
  by (simp add: icmp_error_header_def ICMP_HEADER_LEN_def Let_def)

lemma build_tcp_rst_Some:
  assumes "build_tcp_rst src sp dst dp rst = Some pkt"
  obtains (v4) s d c where "src = V4 s" "dst = V4 d"
      "c = checksum16 [v4_pseudo_header s d IPPROTO_TCP 20, tcp_rst_segment sp dp rst]"
      "pkt = ipv4_header s d IPPROTO_TCP 20 @ put 16 (to_be16 c) (tcp_rst_segment sp dp rst)"
  | (v6) s d c where "src = V6 s" "dst = V6 d"
      "c = checksum16 [v6_pseudo_header s d IPPROTO_TCP 20, tcp_rst_segment sp dp rst]"
      "pkt = ipv6_header s d IPPROTO_TCP 20 @ put 16 (to_be16 c) (tcp_rst_segment sp dp rst)"
  using assms by (cases "(src, sp, dst, dp, rst)" rule: build_tcp_rst.cases) (auto simp: Let_def)

lemma put_segment:
  "put 16 (to_be16 c) (tcp_rst_segment sp dp rst) =
     to_be16 sp @ to_be16 dp @ to_be32 (f_seq rst) @ to_be32 (f_ack rst) @
     [0x50, rst_flags rst, 0, 0] @ to_be16 c @ [0, 0]"
  by (simp add: tcp_rst_segment_eq put_def)

lemma icmp_unreachable_Some:
  assumes "build_icmp_port_unreachable src dst original = Ret (Some pkt)"
  obtains (v4) s d off icmp where "src = V4 s" "dst = V4 d"
      "l4_offset original = Ret (Some off)" "off + 8 \<le> length original"
      "icmp = icmp_error_header ICMP_DEST_UNREACH ICMP_CODE_PORT_UNREACH @ take (off + 8) original"
      "pkt = ipv4_header s d IPPROTO_ICMP (off + 16) @ put 2 (to_be16 (checksum16 [icmp])) icmp"
  | (v6) s d icmp n where "src = V6 s" "dst = V6 d" "n = min (length original) 1232"
      "icmp = icmp_error_header ICMPV6_DEST_UNREACH ICMPV6_CODE_PORT_UNREACH @ take n original"
      "pkt = ipv6_header s d IPPROTO_ICMPV6 (n + 8) @
        put 2 (to_be16 (checksum16 [v6_pseudo_header s d IPPROTO_ICMPV6 (n + 8), icmp])) icmp"
proof (cases "(src, dst, original)" rule: build_icmp_port_unreachable.cases)
  case (1 s d orig)
  with assms obtain off where off: "l4_offset original = Ret (Some off)"
    by (auto simp: bind_run_Ret_iff split: option.splits)
  with 1 assms have "off + 8 \<le> length original"
    by (auto simp: header_lens run_simps Let_def split: if_splits)
  with 1 assms off show thesis
    by (intro v4 [of s d off]) (auto simp: header_lens run_simps Let_def add.commute)
next
  case (2 s d orig)
  with assms show thesis
    by (intro v6 [of s d "min (length original) 1232"])
       (auto simp: header_lens run_simps Let_def add.commute)
qed (use assms in simp_all)

lemma l4_walk_bound:
  "l4_walk buf n nh off = Some off' \<Longrightarrow> off \<le> length buf \<Longrightarrow> off' \<le> length buf"
proof (induction n arbitrary: nh off)
  case (Suc n)
  show ?case using Suc.prems
    by (auto simp: Let_def not_less split: if_splits option.splits dest: Suc.IH)
qed simp

lemma l4_offset_never_panics: "l4_offset buf \<noteq> Panic"
  by (simp add: l4_offset_def get_at_def header_lens rd_def Let_def)

lemma l4_offset_Some:
  assumes "l4_offset buf = Ret (Some off)"
  shows "off \<le> length buf \<and> (drop_bit 4 (buf ! 0) = 4 \<longrightarrow> off = unat (buf ! 0 AND 0x0f) * 4)"
proof -
  have "l4_walk buf (MAX_EXT_HEADERS + 1) (buf ! 6) 40 = Some off \<Longrightarrow> 40 \<le> length buf \<Longrightarrow> off \<le> length buf"
    by (rule l4_walk_bound)
  with assms show ?thesis
    by (auto simp: l4_offset_def get_at_def header_lens rd_def Let_def split: if_splits)
qed

text \<open>Nine headers of at most 2048 bytes: the quotation is always short.\<close>

lemma l4_walk_le: "l4_walk buf n nh off = Some off' \<Longrightarrow> off' \<le> off + 2048 * n"
proof (induction n arbitrary: nh off)
  case (Suc n)
  have hop: "off' \<le> off + 2048 * Suc n"
    if w: "l4_walk buf n h (off + len) = Some off'" and len: "len \<le> 2048" for h len
    using Suc.IH [OF w] len by simp
  have "(k + 1) * 8 \<le> 2048" "(k + 2) * 4 \<le> 2048" if "k \<le> 255" for k :: nat
    using that by simp_all
  note lens = this [OF unat_byte_le]
  from Suc.prems show ?case
    using hop [OF _ lens(1)] hop [OF _ lens(2)] hop [of _ 8]
    by (auto simp: Let_def split: if_splits option.splits)
qed simp

lemma l4_offset_le:
  assumes "l4_offset buf = Ret (Some off)"
  shows "off \<le> 18472"
proof -
  have "unat (b AND 0x0f) * 4 \<le> 18472" for b :: byte
    by (rule order_trans [OF mult_right_mono [OF unat_byte_le]]) simp_all
  moreover have "l4_walk buf (MAX_EXT_HEADERS + 1) nh 40 = Some off \<Longrightarrow> off \<le> 18472" for nh
    using l4_walk_le [of buf "MAX_EXT_HEADERS + 1" nh 40 off] by (simp add: MAX_EXT_HEADERS_def)
  ultimately show ?thesis using assms
    by (auto simp: l4_offset_def get_at_def header_lens rd_def Let_def split: if_splits
        simp del: l4_walk.simps)
qed

section \<open>The offset walk agrees with the parser\<close>

lemma l4_walk_chain:
  assumes "ext_chain buf off nh k off' nh'" "off \<le> length buf"
  shows "l4_walk buf (n + k) nh off = l4_walk buf n nh' off'"
  using assms
proof (induction rule: ext_chain.induct)
  case (chain_end off nh)
  then show ?case by simp
next
  case (chain_step nh off len k off' nh')
  have ge: "8 \<le> len" by (rule ext_len_ge_8 [OF chain_step.hyps(1)])
  have "l4_walk buf (Suc (n + k)) nh off = l4_walk buf (n + k) (buf ! off) (off + len)"
    using chain_step.hyps(1,2) ge
    by (auto simp: ext_len_def get_at_def Let_def ipproto_defs split: if_splits)
  with chain_step show ?case by simp
qed

lemma l4_offset_upper_at:
  assumes "upper_at buf off nh"
  shows "l4_offset buf = Ret (Some off)"
proof -
  from assms consider
    (v4) "buf \<noteq> []" "drop_bit 4 (buf ! 0) = 4" "off = unat (buf ! 0 AND 0x0f) * 4" "20 \<le> off" "off \<le> length buf"
  | (v6) k where "buf \<noteq> []" "drop_bit 4 (buf ! 0) = 6" "40 \<le> length buf" "upper_layer nh" "k \<le> 8"
      "ext_chain buf 40 (buf ! 6) k off nh"
    by (auto simp: upper_at_def)
  then show ?thesis
  proof cases
    case v4
    then show ?thesis by (simp add: l4_offset_def get_at_def header_lens rd_def Let_def)
  next
    case v6
    have "l4_walk buf (Suc (8 - k) + k) (buf ! 6) 40 = l4_walk buf (Suc (8 - k)) nh off"
      by (rule l4_walk_chain [OF v6(6,3)])
    moreover have "Suc (8 - k) + k = MAX_EXT_HEADERS + 1" using v6(5) by (simp add: MAX_EXT_HEADERS_def)
    moreover have "l4_walk buf (Suc (8 - k)) nh off = Some off"
      using v6(4) by (simp add: upper_layer_def Let_def)
    ultimately have "l4_walk buf (MAX_EXT_HEADERS + 1) (buf ! 6) 40 = Some off" by (simp only:)
    with v6(1,2,3) show ?thesis
      by (simp add: l4_offset_def get_at_def header_lens rd_def del: l4_walk.simps)
  qed
qed

section \<open>What a refusal says\<close>

text \<open>C34: every refusal the daemon builds passes the receiver's checks.  A receiver that follows RFC 791,
  1071, 8200 and 9293 (and none of the sender's routines) finds the version, a length field that is
  the packet's length, the protocol, the addresses of the refused flow turned round, an intact IPv4
  header, and a message that is intact under the pseudo-header of its family.\<close>

theorem refusals_verify:
  "(build_tcp_rst src sp dst dp rst = Some pkt \<longrightarrow> packet_verifies src dst 6 pkt) \<and>
   (build_icmp_port_unreachable src dst original = Ret (Some pkt) \<longrightarrow>
      packet_verifies src dst (case src of V4 _ \<Rightarrow> 1 | V6 _ \<Rightarrow> 58) pkt)"
proof (intro conjI impI)
  assume "build_tcp_rst src sp dst dp rst = Some pkt"
  then show "packet_verifies src dst 6 pkt"
  proof (cases rule: build_tcp_rst_Some)
    case (v4 s d c)
    let ?seg = "put 16 (to_be16 c) (tcp_rst_segment sp dp rst)"
    have "checksum16 [v4_pseudo_header s d IPPROTO_TCP 20, ?seg] = 0"
      unfolding v4(3) by (rule checksum_field_closes) (simp_all add: segment_zero_field)
    then have "message_verifies (V4 s) (V4 d) 6 ?seg" by (intro message_intact) (simp_all add: IPPROTO_TCP_def)
    moreover have "header_verifies (V4 s) (V4 d) 6 (ipv4_header s d 6 20 @ ?seg)" by (rule ipv4_header_ok) simp_all
    ultimately show ?thesis by (simp only: packet_verifies_def v4 IPPROTO_TCP_def header_len.simps) simp
  next
    case (v6 s d c)
    let ?seg = "put 16 (to_be16 c) (tcp_rst_segment sp dp rst)"
    have "checksum16 [v6_pseudo_header s d IPPROTO_TCP 20, ?seg] = 0"
      unfolding v6(3) by (rule checksum_field_closes) (simp_all add: segment_zero_field)
    then have "message_verifies (V6 s) (V6 d) 6 ?seg" by (intro message_intact) (simp_all add: IPPROTO_TCP_def)
    moreover have "header_verifies (V6 s) (V6 d) 6 (ipv6_header s d 6 20 @ ?seg)" by (rule ipv6_header_ok) simp_all
    ultimately show ?thesis by (simp only: packet_verifies_def v6 IPPROTO_TCP_def header_len.simps) simp
  qed
next
  assume "build_icmp_port_unreachable src dst original = Ret (Some pkt)"
  then show "packet_verifies src dst (case src of V4 _ \<Rightarrow> 1 | V6 _ \<Rightarrow> 58) pkt"
  proof (cases rule: icmp_unreachable_Some)
    case (v4 s d off icmp)
    let ?msg = "put 2 (to_be16 (checksum16 [icmp])) icmp"
    have off: "off \<le> 18472" by (rule l4_offset_le [OF v4(3)])
    have len: "length icmp = off + 16" using v4(4) by (simp add: v4(5))
    have "checksum16 [[], put 2 (to_be16 (checksum16 [[], icmp])) icmp] = 0"
      by (rule checksum_field_closes) (use v4(4) off in \<open>simp_all add: v4(5) icmp_zero_field\<close>)
    then have "checksum16 [?msg] = 0" by (simp add: checksum16_concat [of "[[], _]"])
    then have "intact ?msg" using checksum16_intact [of "[?msg]"] len off by simp
    moreover have "header_verifies (V4 s) (V4 d) 1 (ipv4_header s d 1 (off + 16) @ ?msg)"
      by (rule ipv4_header_ok) (use len off in simp_all)
    ultimately show ?thesis by (simp only: packet_verifies_def v4(1,2,6) IPPROTO_ICMP_def header_len.simps ip_addr.case) simp
  next
    case (v6 s d icmp n)
    let ?msg = "put 2 (to_be16 (checksum16 [v6_pseudo_header s d IPPROTO_ICMPV6 (n + 8), icmp])) icmp"
    have len: "length ?msg = n + 8" "n \<le> 1232" by (simp_all add: v6(3,4))
    have "checksum16 [v6_pseudo_header s d IPPROTO_ICMPV6 (n + 8), ?msg] = 0"
      by (rule checksum_field_closes) (simp_all add: v6(3,4) icmp_zero_field)
    then have "message_verifies (V6 s) (V6 d) 58 ?msg" using len by (intro message_intact) (simp_all add: IPPROTO_ICMPV6_def)
    moreover have "header_verifies (V6 s) (V6 d) 58 (ipv6_header s d 58 (n + 8) @ ?msg)"
      by (rule ipv6_header_ok) (use len in simp_all)
    ultimately show ?thesis by (simp only: packet_verifies_def v6(1,2,5) IPPROTO_ICMPV6_def header_len.simps ip_addr.case) simp
  qed
qed

theorem refusals_verify_witness:
  "\<exists>pkt. build_tcp_rst (V4 0x05060708) 80 (V4 0x01020304) 5555
      \<lparr>f_seq = 0, f_ack = 101, f_ack_flag = True\<rparr> = Some pkt \<and>
    packet_verifies (V4 0x05060708) (V4 0x01020304) 6 pkt"
proof -
  obtain pkt where p: "build_tcp_rst (V4 0x05060708) 80 (V4 0x01020304) 5555
      \<lparr>f_seq = 0, f_ack = 101, f_ack_flag = True\<rparr> = Some pkt" by (simp add: Let_def)
  with refusals_verify [of "V4 0x05060708" 80 "V4 0x01020304" 5555 _ pkt "[]"] show ?thesis
    by blast
qed

section \<open>A rejected TCP flow is reset from its peer\<close>

lemma walk_ext_tcp:
  "off \<le> length buf \<Longrightarrow> walk_ext stamp buf s d dir 9 6 off = finalize stamp s d 6 (drop off buf) dir"
proof -
  assume off: "off \<le> length buf"
  have "9 = Suc 8" by simp
  then show ?thesis by (simp only: walk_ext_step [OF off]) (simp add: ext_len_def ipproto_defs)
qed

lemma reset_parses:
  assumes "build_tcp_rst src sp dst dp rst = Some pkt"
  shows "parse stamp pkt dir = Ret (Inr (new_connection stamp Tcp dir src sp dst dp))"
proof -
  have ports: "from_be (to_be16 w) = w" for w by (rule from_be_to_be16)
  from assms show ?thesis
  proof (cases rule: build_tcp_rst_Some)
    case (v4 s d c)
    obtain s0 s1 s2 s3 where s: "be_bytes 4 (unat s) = [s0, s1, s2, s3]" using be_bytes_4 by blast
    obtain d0 d1 d2 d3 where d: "be_bytes 4 (unat d) = [d0, d1, d2, d3]" using be_bytes_4 by blast
    obtain a b where ab: "to_be16 sp = [a, b]" by (simp add: be_bytes_2)
    obtain a' b' where ab': "to_be16 dp = [a', b']" by (simp add: be_bytes_2)
    have "from_be [s0, s1, s2, s3] = s" "from_be [d0, d1, d2, d3] = d"
      "be16 a b = sp" "be16 a' b' = dp"
      using from_be_octets4 [of s] from_be_octets4 [of d] ports [of sp] ports [of dp]
      by (simp_all add: s d ab ab')
    then show ?thesis
      unfolding v4(1,2,4) ipv4_header_eq put_segment ipv4_fixed_def octets.simps s d ab ab'
      by (simp add: be_bytes_2 parse_eq parse_ipv4_eq finalize_eq ports_of_def ipproto_defs)
  next
    case (v6 s d c)
    obtain a b where ab: "to_be16 sp = [a, b]" by (simp add: be_bytes_2)
    obtain a' b' where ab': "to_be16 dp = [a', b']" by (simp add: be_bytes_2)
    have "be16 a b = sp" "be16 a' b' = dp"
      using ports [of sp] ports [of dp] by (simp_all add: ab ab')
    then show ?thesis
      unfolding v6(1,2,4) ipv6_header_eq put_segment octets.simps ab ab'
      by (simp add: be_bytes_2 from_be_octets16 nth_append
          parse_eq parse_ipv6_eq walk_ext_tcp finalize_eq ports_of_def ipproto_defs)
  qed
qed

lemma put_segment_flags: "put 16 (to_be16 c) (tcp_rst_segment sp dp rst) ! 13 = rst_flags rst"
proof -
  obtain s0 s1 s2 s3 where s: "to_be32 (f_seq rst) = [s0, s1, s2, s3]" using be_bytes_4 by blast
  obtain a0 a1 a2 a3 where a: "to_be32 (f_ack rst) = [a0, a1, a2, a3]" using be_bytes_4 by blast
  show ?thesis unfolding put_segment s a by (simp add: be_bytes_2)
qed

lemma build_tcp_rst_same_family:
  "same_family s d \<Longrightarrow> \<exists>pkt. build_tcp_rst d dp s sp rst = Some pkt"
  by (cases s; cases d) (simp_all add: Let_def)

definition tcp_socket :: "'b rejecter \<Rightarrow> ip_addr \<Rightarrow> nat option" where
  "tcp_socket rj ip = (case ip of V4 _ \<Rightarrow> rj_v4 rj | V6 _ \<Rightarrow> rj_v6 rj)"

lemma reject_tcp_upper:
  assumes "upper_at original off nh" "off \<le> length original"
    "rst_fields (drop off original) = Ret (Some f)"
    "build_tcp_rst (c_dst_ip conn) (c_dst_port conn) (c_src_ip conn) (c_src_port conn) f = Some pkt"
    "tcp_socket rj (c_src_ip conn) = Some fd"
  shows "reject_tcp send rj conn original =
    Ret (if send fd (c_src_ip conn) pkt then (Sent, Some (fd, c_src_ip conn, pkt), rj)
         else (SendFailed, Some (fd, c_src_ip conn, pkt), rj\<lparr>rj_warned := True\<rparr>))"
  using assms(2-) by (simp add: reject_tcp_def l4_offset_upper_at [OF assms(1)] run_simps
      emit_def tcp_socket_def)

text \<open>
  RFC 9293, section 3.10.7.1, on the bytes of the two segments.  A segment is at least a header long;
  \<open>segment_length\<close> is SEG.LEN, the bytes behind the header (whose length field is held between twenty
  bytes and the segment's own length) with one more for SYN and one for FIN; \<open>resets\<close> says which
  numbers and flags a reset has to carry.
\<close>

definition warrants_reset :: "bytes \<Rightarrow> bool" where
  "warrants_reset seg \<longleftrightarrow> 20 \<le> length seg \<and> \<not> bit (seg ! 13) 2"

definition segment_length :: "bytes \<Rightarrow> nat" where
  "segment_length seg =
     length seg - max 20 (min (length seg) (unat (seg ! 12) div 16 * 4)) +
     (if bit (seg ! 13) 1 then 1 else 0) + (if bit (seg ! 13) 0 then 1 else 0)"

definition resets :: "bytes \<Rightarrow> bytes \<Rightarrow> bool" where
  "resets seg rst \<longleftrightarrow> length rst = 20 \<and>
     (if bit (seg ! 13) 4
      then take 4 (drop 4 rst) = take 4 (drop 8 seg) \<and> be_val (take 4 (drop 8 rst)) = 0 \<and> rst ! 13 = 0x04
      else be_val (take 4 (drop 4 rst)) = 0 \<and>
           be_val (take 4 (drop 8 rst)) = (be_val (take 4 (drop 4 seg)) + segment_length seg) mod 2 ^ 32 \<and>
           rst ! 13 = 0x14)"

lemma flag_bits:
  "flags AND TCP_FLAG_RST = 0 \<longleftrightarrow> \<not> bit flags 2" "flags AND TCP_FLAG_ACK = 0 \<longleftrightarrow> \<not> bit flags 4"
  "flags AND TCP_FLAG_SYN = 0 \<longleftrightarrow> \<not> bit flags 1" "flags AND TCP_FLAG_FIN = 0 \<longleftrightarrow> \<not> bit flags 0"
  using and_exp_eq_0_iff_not_bit [of flags 2] and_exp_eq_0_iff_not_bit [of flags 4]
    and_exp_eq_0_iff_not_bit [of flags 1] and_exp_eq_0_iff_not_bit [of flags 0]
  by (simp_all add: refusal_bytes)

lemma high_nibble: "unat (drop_bit 4 (b :: byte)) = unat b div 16"
proof -
  have "unat (drop_bit 4 b) = drop_bit 4 (take_bit 8 (unat b))" by (simp only: unsigned_drop_bit_eq) simp
  also have "take_bit 8 (unat b) = unat b" using unat_lt_2p [of b] by (simp add: take_bit_eq_mod)
  finally show ?thesis by (simp add: drop_bit_eq_div)
qed

text \<open>The numbers the daemon computes are those the standard asks for.\<close>

lemma rst_fields_Some:
  assumes "warrants_reset seg"
  shows "rst_fields seg = Ret (Some
    (if bit (seg ! 13) 4 then \<lparr>f_seq = from_be (take 4 (drop 8 seg)), f_ack = 0, f_ack_flag = False\<rparr>
     else \<lparr>f_seq = 0, f_ack = from_be (take 4 (drop 4 seg)) + word_of_nat (segment_length seg), f_ack_flag = True\<rparr>))"
  using assms
  by (simp add: warrants_reset_def rst_fields_def TCP_HEADER_LEN_def sl_def rd_def clamp_def flag_bits high_nibble
      segment_length_def Let_def add.assoc)

lemma rst_fields_None:
  assumes "\<not> warrants_reset seg"
  shows "rst_fields seg = Ret None"
  using assms by (auto simp: warrants_reset_def rst_fields_def TCP_HEADER_LEN_def sl_def rd_def flag_bits Let_def)

lemma four_bytes: "4 \<le> length xs \<Longrightarrow> be_bytes 4 (be_val (take 4 xs)) = take 4 xs"
  by (rule be_bytes_be_val) simp

lemma built_reset_resets:
  assumes "warrants_reset seg" "rst_fields seg = Ret (Some f)"
  shows "resets seg (put 16 (to_be16 c) (tcp_rst_segment sp dp f))"
proof -
  note f = assms(2) [unfolded rst_fields_Some [OF assms(1)]]
  let ?n = "be_val (take 4 (drop 4 seg)) + segment_length seg"
  have len: "20 \<le> length seg" using assms(1) by (simp add: warrants_reset_def)
  have ack: "to_be32 (from_be (take 4 (drop 8 seg))) = take 4 (drop 8 seg)"
    unfolding from_be_def be_bytes_word32 by (rule four_bytes) (use len in simp)
  have nxt: "be_bytes 4 (unat (from_be (take 4 (drop 4 seg)) + word_of_nat (segment_length seg) :: u32)) = be_bytes 4 ?n"
    unfolding from_be_def of_nat_add [symmetric] be_bytes_word32 ..
  show ?thesis
  proof (cases "bit (seg ! 13) 4")
    case True
    with f have f: "f = \<lparr>f_seq = from_be (take 4 (drop 8 seg)), f_ack = 0, f_ack_flag = False\<rparr>" by simp
    have "put 16 (to_be16 c) (tcp_rst_segment sp dp f) ! 13 = 0x04"
      by (simp add: put_segment_flags rst_flags_def f refusal_bytes)
    moreover have "take 4 (drop 4 (put 16 (to_be16 c) (tcp_rst_segment sp dp f))) = take 4 (drop 8 seg)"
      using len by (simp add: put_segment f ack)
    moreover have "be_val (take 4 (drop 8 (put 16 (to_be16 c) (tcp_rst_segment sp dp f)))) = 0"
      by (simp add: put_segment f be_val_be_bytes)
    ultimately show ?thesis using True by (simp add: resets_def)
  next
    case False
    with f have f: "f = \<lparr>f_seq = 0, f_ack = from_be (take 4 (drop 4 seg)) + word_of_nat (segment_length seg), f_ack_flag = True\<rparr>"
      by simp
    have "put 16 (to_be16 c) (tcp_rst_segment sp dp f) ! 13 = 0x14"
      by (simp add: put_segment_flags rst_flags_def f refusal_bytes)
    moreover have "be_val (take 4 (drop 4 (put 16 (to_be16 c) (tcp_rst_segment sp dp f)))) = 0"
      by (simp add: put_segment f be_val_be_bytes)
    moreover have "take 4 (drop 8 (put 16 (to_be16 c) (tcp_rst_segment sp dp f))) = be_bytes 4 ?n"
      by (simp add: put_segment f nxt)
    then have "be_val (take 4 (drop 8 (put 16 (to_be16 c) (tcp_rst_segment sp dp f)))) = ?n mod 2 ^ 32"
      by (simp add: be_val_be_bytes)
    ultimately show ?thesis using False by (simp add: resets_def)
  qed
qed

text \<open>C19: a rejected outbound TCP flow is reset the way RFC 9293 asks.  Take a packet that was parsed as an
  outbound TCP flow between two unicast addresses, while the raw socket of its family is open.  If its
  segment carries a whole header and is not itself a reset, the daemon hands the kernel exactly one
  packet, routed to the application: it parses as the reversed flow and its segment answers the
  offending one number by number (SEG.ACK as the sequence number of a bare reset when the segment
  acknowledges; otherwise sequence zero and an acknowledgement of SEG.SEQ + SEG.LEN), and so is a reset,
  which the daemon never answers.  Any other segment is answered with nothing.\<close>

theorem rejected_tcp_flow_is_reset:
  assumes "parse stamp original Outbound = Ret (Inr conn)" "c_protocol conn = Tcp"
    "unicast_addressable (c_src_ip conn)" "unicast_addressable (c_dst_ip conn)"
    "tcp_socket rj (c_src_ip conn) = Some fd"
  shows "\<exists>off. upper_at original off IPPROTO_TCP \<and>
    (if warrants_reset (drop off original) then
       \<exists>pkt rj' outcome. reject_flow send take_token rj conn original =
             Ret (outcome, Some (fd, c_src_ip conn, pkt), rj') \<and>
           (outcome = Sent \<longleftrightarrow> send fd (c_src_ip conn) pkt) \<and>
           parse stamp' pkt Inbound = Ret (Inr (new_connection stamp' Tcp Inbound
             (c_dst_ip conn) (c_dst_port conn) (c_src_ip conn) (c_src_port conn))) \<and>
           resets (drop off original) (drop (header_len (c_src_ip conn)) pkt) \<and>
           \<not> warrants_reset (drop (header_len (c_src_ip conn)) pkt)
     else reject_flow send take_token rj conn original = Ret (Unsupported, None, rj))"
  using assms(1)
proof (cases rule: parse_Inr_cases)
  case (fragment s d)
  with assms(2) show ?thesis by (simp add: new_connection_def)
next
  case (upper s d off nh)
  note fin = finalize_Inr [OF upper(3)]
  have nh: "nh = IPPROTO_TCP" using fin assms(2) by (simp add: transport_of_def)
  have fam: "same_family (c_src_ip conn) (c_dst_ip conn)" using fin upper(4) by simp
  have dir: "c_direction conn = Outbound" using fin by simp
  have up: "upper_at original off IPPROTO_TCP" using upper(1) nh by simp
  show ?thesis
  proof (cases "warrants_reset (drop off original)")
    case False
    have "reject_tcp send rj conn original = Ret (Unsupported, None, rj)"
      using upper(2) by (simp add: reject_tcp_def l4_offset_upper_at [OF up] run_simps rst_fields_None [OF False])
    with assms(2-4) dir have "reject_flow send take_token rj conn original = Ret (Unsupported, None, rj)"
      by (simp add: reject_flow_def)
    with up False show ?thesis by auto
  next
    case True
    then obtain f where f: "rst_fields (drop off original) = Ret (Some f)" using rst_fields_Some by blast
    obtain pkt where pkt: "build_tcp_rst (c_dst_ip conn) (c_dst_port conn) (c_src_ip conn)
        (c_src_port conn) f = Some pkt"
      using build_tcp_rst_same_family [OF fam] by blast
    have seg: "resets (drop off original) (drop (header_len (c_src_ip conn)) pkt)"
      using pkt built_reset_resets [OF True f] fam by (cases rule: build_tcp_rst_Some) (cases "c_src_ip conn", simp_all)+
    have "\<not> warrants_reset (drop (header_len (c_src_ip conn)) pkt)"
      using seg by (auto simp: resets_def warrants_reset_def bit_numeral_rec split: if_splits)
    with seg up True reset_parses [OF pkt] reject_tcp_upper [OF upper(1,2) f pkt assms(5)] assms(2-4) dir
    have "upper_at original off IPPROTO_TCP \<and> (\<exists>pkt rj' outcome. reject_flow send take_token rj conn original =
             Ret (outcome, Some (fd, c_src_ip conn, pkt), rj') \<and>
           (outcome = Sent \<longleftrightarrow> send fd (c_src_ip conn) pkt) \<and>
           parse stamp' pkt Inbound = Ret (Inr (new_connection stamp' Tcp Inbound
             (c_dst_ip conn) (c_dst_port conn) (c_src_ip conn) (c_src_port conn))) \<and>
           resets (drop off original) (drop (header_len (c_src_ip conn)) pkt) \<and>
           \<not> warrants_reset (drop (header_len (c_src_ip conn)) pkt))"
      by (intro conjI exI [of _ pkt] exI [of _ "if send fd (c_src_ip conn) pkt then rj else rj\<lparr>rj_warned := True\<rparr>"]
            exI [of _ "if send fd (c_src_ip conn) pkt then Sent else SendFailed"])
         (simp_all add: reject_flow_def)
    with True show ?thesis by auto
  qed
qed

text \<open>A SYN to 1.1.1.1:443 from 10.0.0.2:4660, with every socket open.\<close>

definition example_syn :: bytes where
  "example_syn = [0x45, 0, 0, 40, 0, 0, 0, 0, 64, 6, 0, 0, 10, 0, 0, 2, 1, 1, 1, 1,
     0x12, 0x34, 0x01, 0xbb, 0, 0, 0, 100, 0, 0, 0, 0, 0x50, 0x02, 0, 0, 0, 0, 0, 0]"

lemma example_syn_parses:
  "parse stamp example_syn Outbound =
     Ret (Inr (new_connection stamp Tcp Outbound (V4 0x0a000002) 0x1234 (V4 0x01010101) 443))"
  by (simp add: example_syn_def parse_eq parse_ipv4_eq finalize_eq ipproto_defs Let_def
      ports_of_def from_be_def)

lemma example_syn_fields:
  "rst_fields (drop 20 example_syn) = Ret (Some \<lparr>f_seq = 0, f_ack = 101, f_ack_flag = True\<rparr>)"
  by (simp add: example_syn_def rst_fields_def sl_def rd_def clamp_def header_lens refusal_bytes
      Let_def from_be_def)

theorem rejected_tcp_flow_is_reset_witness:
  "\<exists>conn pkt rj'. parse (Uuid 0, DateTime 0) example_syn Outbound = Ret (Inr conn) \<and>
     reject_flow (\<lambda>_ _ _. True) (\<lambda>b. (True, b))
       \<lparr>rj_v4 = Some 3, rj_v6 = None, rj_icmp4 = None, rj_icmp6 = None, rj_warned = False, rj_budget = ()\<rparr>
       conn example_syn = Ret (Sent, Some (3, V4 0x0a000002, pkt), rj') \<and>
     be_val (take 4 (drop 28 pkt)) = 101 \<and> pkt ! 33 = 0x14"
proof -
  let ?st = "(Uuid 0, DateTime 0)"
  let ?c = "new_connection ?st Tcp Outbound (V4 0x0a000002) 0x1234 (V4 0x01010101) 443"
  let ?rj = "\<lparr>rj_v4 = Some 3, rj_v6 = None, rj_icmp4 = None, rj_icmp6 = None, rj_warned = False, rj_budget = ()\<rparr>"
  have tcp: "c_protocol ?c = Tcp" by (simp add: new_connection_def)
  have src: "unicast_addressable (c_src_ip ?c)" "unicast_addressable (c_dst_ip ?c)"
    by (simp_all add: new_connection_def v4_unicast_def v4_is_multicast_def v4_is_broadcast_def
        be_bytes_numeral word_le_nat_alt)
  have sock: "tcp_socket ?rj (c_src_ip ?c) = Some 3" by (simp add: tcp_socket_def new_connection_def)
  note reset = rejected_tcp_flow_is_reset [OF example_syn_parses [of ?st] tcp src sock,
      of "\<lambda>_ _ _. True" "\<lambda>b. (True, b)" ?st]
  from reset obtain off where off: "upper_at example_syn off IPPROTO_TCP" and sent: "if warrants_reset (drop off example_syn) then
       \<exists>pkt rj' outcome. reject_flow (\<lambda>_ _ _. True) (\<lambda>b. (True, b)) ?rj ?c example_syn =
             Ret (outcome, Some (3, c_src_ip ?c, pkt), rj') \<and> (outcome = Sent \<longleftrightarrow> True) \<and>
           resets (drop off example_syn) (drop (header_len (c_src_ip ?c)) pkt) else True" by (metis (lifting))
  from off have o: "off = 20" by (simp add: upper_at_def example_syn_def)
  have "warrants_reset (drop 20 example_syn)"
    by (simp add: warrants_reset_def example_syn_def bit_numeral_rec)
  with sent o obtain pkt rj' where p: "reject_flow (\<lambda>_ _ _. True) (\<lambda>b. (True, b)) ?rj ?c example_syn =
        Ret (Sent, Some (3, V4 0x0a000002, pkt), rj')" "resets (drop 20 example_syn) (drop 20 pkt)"
    by (auto simp: new_connection_def)
  have "segment_length (drop 20 example_syn) = 1" by (simp add: segment_length_def example_syn_def bit_numeral_rec)
  with p(2) have "be_val (take 4 (drop 28 pkt)) = 101 \<and> pkt ! 33 = 0x14"
    by (auto simp: resets_def example_syn_def bit_numeral_rec split: if_splits)
  with p(1) show ?thesis using example_syn_parses [of ?st] by auto
qed

section \<open>What is never forged, and that nothing panics\<close>

lemma rst_fields_never_panics: "rst_fields tcp \<noteq> Panic"
  by (simp add: rst_fields_def sl_def rd_def clamp_def header_lens Let_def)

lemma icmp_never_panics: "build_icmp_port_unreachable src dst original \<noteq> Panic"
proof (cases "(src, dst, original)" rule: build_icmp_port_unreachable.cases)
  case (1 s d orig)
  obtain off where "l4_offset orig = Ret off"
    using l4_offset_never_panics [of orig] by (cases "l4_offset orig") simp_all
  with 1 show ?thesis by (cases off) (simp_all add: sl_def Let_def)
qed (simp_all add: sl_def Let_def)

text \<open>Answering a packet never panics, whatever its bytes and whatever the connection: every slice,
  index and clamp on the refusal path is in range.\<close>

lemma reject_total: "reject_flow send take_token rj conn original \<noteq> Panic"
proof -
  have "reject_tcp send r conn original \<noteq> Panic" for r
  proof (cases "l4_offset original")
    case Panic
    then show ?thesis using l4_offset_never_panics by blast
  next
    case (Ret off)
    show ?thesis
    proof (cases off)
      case (Some o1)
      with Ret l4_offset_Some have "o1 \<le> length original" by blast
      moreover obtain f where "rst_fields (drop o1 original) = Ret f"
        using rst_fields_never_panics by (cases "rst_fields (drop o1 original)") simp_all
      ultimately show ?thesis
        using Ret Some by (simp add: reject_tcp_def sl_def Let_def split: option.split)
    qed (simp add: reject_tcp_def Ret)
  qed
  moreover have "reject_udp send r conn original \<noteq> Panic" for r
    using icmp_never_panics [of "c_dst_ip conn" "c_src_ip conn" original]
    by (cases "build_icmp_port_unreachable (c_dst_ip conn) (c_src_ip conn) original")
       (simp_all add: reject_udp_def Let_def split: option.split)
  ultimately show ?thesis
    by (auto simp: reject_flow_def Let_def split: protocol.split prod.split)
qed

lemma parse_src_family:
  assumes "parse stamp buf dir = Ret (Inr c)" "c_src_ip c = V4 a"
  shows "drop_bit 4 (buf ! 0) = 4"
proof (rule ccontr)
  assume no: "drop_bit 4 (buf ! 0) \<noteq> 4"
  with assms(1) have p: "parse_ipv6 stamp buf dir = Ret (Inr c)"
    by (auto simp: parse_eq split: if_splits)
  then obtain s d where len: "40 \<le> length buf"
    and w: "walk_ext stamp buf (V6 s) (V6 d) dir 9 (buf ! 6) 40 = Ret (Inr c)"
    by (auto simp: parse_ipv6_eq split: if_splits)
  from walk_ext_Inr [OF w len] obtain nh off where
    "finalize stamp (V6 s) (V6 d) nh (drop off buf) dir = Ret (Inr c) \<or>
     c = new_connection stamp (Other IPPROTO_FRAGMENT) dir (V6 s) 0 (V6 d) 0" by blast
  then have "c_src_ip c = V6 s"
    using finalize_Inr [of stamp "V6 s" "V6 d" nh "drop off buf" dir c]
    by (auto simp: new_connection_def)
  with assms(2) show False by simp
qed

lemma ihl_le: "unat (b AND 0x0f) * 4 \<le> 60" for b :: byte
proof -
  have "b AND 0x0f = take_bit 4 b" by (simp add: take_bit_eq_mask mask_eq_exp_minus_1)
  then have "unat (b AND 0x0f) = take_bit 4 (unat b)" by (simp only: unsigned_take_bit_eq)
  then have "unat (b AND 0x0f) = unat b mod 16" by (simp add: take_bit_eq_mod)
  moreover have "unat b mod 16 < 16" by simp
  ultimately show ?thesis by linarith
qed

text \<open>Where an emitted packet comes from.\<close>

lemma emit_Some:
  assumes "emit send rj socket dst p = (out, Some (fd, dst', pkt), rj')"
  shows "socket = Some fd \<and> dst' = dst \<and> pkt = p"
  using assms by (auto simp: emit_def split: option.splits if_splits)

lemma reject_flow_sent:
  assumes "reject_flow send take_token rj conn original = Ret (out, Some (fd, dst, pkt), rj')"
  shows "unicast_addressable (c_src_ip conn) \<and> unicast_addressable (c_dst_ip conn) \<and>
    dst = c_src_ip conn \<and>
    (c_direction conn = Inbound \<longrightarrow> fst (take_token (rj_budget rj))) \<and>
    (c_protocol conn = Tcp \<and> (\<exists>f. build_tcp_rst (c_dst_ip conn) (c_dst_port conn) (c_src_ip conn)
        (c_src_port conn) f = Some pkt) \<or>
     c_protocol conn = Udp \<and>
        build_icmp_port_unreachable (c_dst_ip conn) (c_src_ip conn) original = Ret (Some pkt))"
proof -
  have tcp: "dst = c_src_ip conn \<and> (\<exists>f. build_tcp_rst (c_dst_ip conn) (c_dst_port conn)
      (c_src_ip conn) (c_src_port conn) f = Some pkt)"
    if "reject_tcp send r conn original = Ret (out, Some (fd, dst, pkt), rj')" for r
  proof -
    from that obtain off where off: "l4_offset original = Ret (Some off)"
      by (auto simp: reject_tcp_def bind_run_Ret_iff split: option.split_asm)
    then have len: "off \<le> length original" using l4_offset_Some by blast
    from that off len obtain f where f: "rst_fields (drop off original) = Ret (Some f)"
      by (auto simp: reject_tcp_def bind_run_Ret_iff sl_def split: option.split_asm)
    from that off len f show ?thesis
      by (auto simp: reject_tcp_def sl_def Let_def dest!: emit_Some split: option.split_asm)
  qed
  have udp: "dst = c_src_ip conn \<and>
      build_icmp_port_unreachable (c_dst_ip conn) (c_src_ip conn) original = Ret (Some pkt)"
    if "reject_udp send r conn original = Ret (out, Some (fd, dst, pkt), rj')" for r
    using that
    by (auto simp: reject_udp_def bind_run_Ret_iff Let_def dest!: emit_Some split: option.splits)
  from assms show ?thesis
    by (auto simp: reject_flow_def Let_def dest!: tcp udp split: if_splits prod.splits protocol.splits)
qed

text \<open>C26: what the daemon may forge.  A packet leaves only between two unicast addresses, only
  towards the sender of the packet it answers, only for TCP or UDP, for an inbound flow only
  while the off-box budget lasts; it names the answered packet's destination as its source,
  and is at most 96 bytes long (1280 for IPv6).\<close>

theorem refusals_stay_within_policy:
  assumes "parse stamp original dir = Ret (Inr conn)"
    "reject_flow send take_token rj conn original = Ret (out, Some (fd, dst, pkt), rj')"
  shows "unicast_addressable (c_src_ip conn) \<and> unicast_addressable (c_dst_ip conn) \<and>
    dst = c_src_ip conn \<and> c_protocol conn \<in> {Tcp, Udp} \<and>
    (c_direction conn = Inbound \<longrightarrow> fst (take_token (rj_budget rj))) \<and>
    (case c_src_ip conn of
       V4 _ \<Rightarrow> take 8 (drop 12 pkt) = octets (c_dst_ip conn) @ octets (c_src_ip conn) \<and> length pkt \<le> 96
     | V6 _ \<Rightarrow> take 32 (drop 8 pkt) = octets (c_dst_ip conn) @ octets (c_src_ip conn) \<and> length pkt \<le> 1280)"
proof -
  note sent = reject_flow_sent [OF assms(2)]
  have v4h: "take 8 (drop 12 (ipv4_header s d p n @ rest)) = octets (V4 s) @ octets (V4 d)" for s d p n rest
    by (simp add: ipv4_header_eq)
  have v6h: "take 32 (drop 8 (ipv6_header s d p n @ rest)) = octets (V6 s) @ octets (V6 d)" for s d p n rest
    by (simp add: ipv6_header_eq)
  from sent consider
      (tcp) f where "build_tcp_rst (c_dst_ip conn) (c_dst_port conn) (c_src_ip conn) (c_src_port conn) f = Some pkt"
    | (udp) "build_icmp_port_unreachable (c_dst_ip conn) (c_src_ip conn) original = Ret (Some pkt)"
    by blast
  then have "case c_src_ip conn of
       V4 _ \<Rightarrow> take 8 (drop 12 pkt) = octets (c_dst_ip conn) @ octets (c_src_ip conn) \<and> length pkt \<le> 96
     | V6 _ \<Rightarrow> take 32 (drop 8 pkt) = octets (c_dst_ip conn) @ octets (c_src_ip conn) \<and> length pkt \<le> 1280"
  proof cases
    case tcp
    then show ?thesis
      by (cases rule: build_tcp_rst_Some) (simp_all only: v4h v6h ip_addr.simps, simp_all)
  next
    case udp
    then show ?thesis
    proof (cases rule: icmp_unreachable_Some)
      case (v4 s d off icmp)
      have "off \<le> 60"
        using l4_offset_Some [OF v4(3)] parse_src_family [OF assms(1) v4(2)] ihl_le by simp
      with v4 show ?thesis by (simp only: v4h ip_addr.simps) simp
    next
      case (v6 s d icmp n)
      then show ?thesis by (simp only: v6h ip_addr.simps) simp
    qed
  qed
  with sent show ?thesis by blast
qed

theorem refusals_stay_within_policy_witness:
  "\<exists>conn pkt rj'. reject_flow (\<lambda>_ _ _. True) (\<lambda>b. (b, False))
       \<lparr>rj_v4 = Some 3, rj_v6 = None, rj_icmp4 = None, rj_icmp6 = None, rj_warned = False, rj_budget = True\<rparr>
       conn example_syn = Ret (Sent, Some (3, V4 0x0a000002, pkt), rj') \<and> length pkt \<le> 96"
proof -
  let ?st = "(Uuid 0, DateTime 0)"
  let ?c = "new_connection ?st Tcp Outbound (V4 0x0a000002) 0x1234 (V4 0x01010101) 443"
  let ?rj = "\<lparr>rj_v4 = Some 3, rj_v6 = None, rj_icmp4 = None, rj_icmp6 = None, rj_warned = False, rj_budget = True\<rparr>"
  have u: "unicast_addressable (V4 0x0a000002)" "unicast_addressable (V4 0x01010101)"
    by (simp_all add: v4_unicast_def v4_is_multicast_def v4_is_broadcast_def be_bytes_numeral
        word_le_nat_alt)
  have up: "upper_at example_syn 20 IPPROTO_TCP" by (simp add: upper_at_def example_syn_def ipproto_defs)
  have len: "20 \<le> length example_syn" by (simp add: example_syn_def)
  obtain pkt where pkt: "build_tcp_rst (c_dst_ip ?c) (c_dst_port ?c) (c_src_ip ?c)
      (c_src_port ?c) \<lparr>f_seq = 0, f_ack = 101, f_ack_flag = True\<rparr> = Some pkt"
    by (simp add: new_connection_def Let_def)
  have sock: "tcp_socket ?rj (c_src_ip ?c) = Some 3" by (simp add: tcp_socket_def new_connection_def)
  have "reject_tcp (\<lambda>_ _ _. True) ?rj ?c example_syn = Ret (Sent, Some (3, c_src_ip ?c, pkt), ?rj)"
    using reject_tcp_upper [OF up len example_syn_fields pkt sock, of "\<lambda>_ _ _. True"] by simp
  then have r: "reject_flow (\<lambda>_ _ _. True) (\<lambda>b. (b, False)) ?rj ?c example_syn =
      Ret (Sent, Some (3, V4 0x0a000002, pkt), ?rj)"
    using u by (simp add: reject_flow_def new_connection_def)
  from refusals_stay_within_policy [OF example_syn_parses r] r show ?thesis
    by (intro exI [of _ ?c] exI [of _ pkt] exI [of _ ?rj]) (simp add: new_connection_def)
qed

end
