(* ===== verification/Policy.thy ===== *)
theory Policy
  imports CoreTypes RuleScope
begin

text \<open>
  \<open>crates/cfc-daemon/src/config.rs\<close>: the default policy, the profiles it starts from and the
  resolution of a parsed configuration file.  The TOML parser is a third-party crate: a
  document enters the model as the result of its deserialisation, \<open>None\<close> for a parse error.
  The file system checks behind \<open>official_client_warnings\<close> are not modelled.
\<close>

section \<open>The default policy\<close>

record default_policy =
  pol_no_ui_action :: action
  pol_timeout_action :: action
  pol_inbound_action :: action
  pol_prompt_timeout_secs :: u32

record default_policy_toml =
  toml_no_ui_action :: "action option"
  toml_timeout_action :: "action option"
  toml_inbound_action :: "action option"
  toml_prompt_timeout_secs :: "u32 option"

definition unwrap_or :: "'a option \<Rightarrow> 'a \<Rightarrow> 'a" where
  "unwrap_or x d = (case x of None \<Rightarrow> d | Some v \<Rightarrow> v)"

lemma unwrap_or_simps [simp]: "unwrap_or None d = d" "unwrap_or (Some v) d = v"
  by (simp_all add: unwrap_or_def)

definition resolve_policy :: "default_policy_toml \<Rightarrow> default_policy \<Rightarrow> default_policy" where
  "resolve_policy t base =
     \<lparr>pol_no_ui_action = unwrap_or (toml_no_ui_action t) (pol_no_ui_action base),
      pol_timeout_action = unwrap_or (toml_timeout_action t) (pol_timeout_action base),
      pol_inbound_action =
        (case unwrap_or (toml_inbound_action t) (pol_inbound_action base) of
           Allow \<Rightarrow> Deny | other \<Rightarrow> other),
      pol_prompt_timeout_secs =
        unwrap_or (toml_prompt_timeout_secs t) (pol_prompt_timeout_secs base)\<rparr>"

datatype profile = Relaxed | Balanced | Strict

definition profile_parse :: "string \<Rightarrow> profile option" where
  "profile_parse s =
     (let s = to_ascii_lowercase (trim s) in
      if s = ''relaxed'' then Some Relaxed
      else if s = ''balanced'' then Some Balanced
      else if s = ''strict'' then Some Strict
      else None)"

fun profile_policy :: "profile \<Rightarrow> default_policy" where
  "profile_policy Relaxed =
     \<lparr>pol_no_ui_action = Deny, pol_timeout_action = Deny, pol_inbound_action = Reject,
      pol_prompt_timeout_secs = 60\<rparr>"
| "profile_policy Balanced =
     \<lparr>pol_no_ui_action = Deny, pol_timeout_action = Deny, pol_inbound_action = Deny,
      pol_prompt_timeout_secs = 30\<rparr>"
| "profile_policy Strict =
     \<lparr>pol_no_ui_action = Deny, pol_timeout_action = Deny, pol_inbound_action = Deny,
      pol_prompt_timeout_secs = 15\<rparr>"

section \<open>The other sections\<close>

record nfq_config =
  nfq_queue_num :: u16
  nfq_queue_max_len :: u32
  nfq_fail_open :: bool

record ipc_config =
  ipc_group :: string
  ipc_require_group :: bool
  ipc_official_clients :: "string list"

datatype ebpf_mode = EbpfAuto | EbpfOn | EbpfOff

definition wants_load :: "ebpf_mode \<Rightarrow> bool" where
  "wants_load m \<longleftrightarrow> m \<noteq> EbpfOff"

definition is_forced :: "ebpf_mode \<Rightarrow> bool" where
  "is_forced m \<longleftrightarrow> m = EbpfOn"

text \<open>The value of \<open>[ebpf] enabled\<close>: a TOML boolean or string.\<close>

datatype toml_scalar = TomlBool bool | TomlString string

fun ebpf_mode_of :: "toml_scalar \<Rightarrow> ebpf_mode" where
  "ebpf_mode_of (TomlBool v) = (if v then EbpfOn else EbpfOff)"
| "ebpf_mode_of (TomlString v) =
     (let v = to_ascii_lowercase (trim v) in
      if v = ''auto'' then EbpfAuto
      else if v \<in> {''on'', ''true'', ''yes'', ''enabled''} then EbpfOn
      else if v \<in> {''off'', ''false'', ''no'', ''disabled''} then EbpfOff
      else EbpfAuto)"

record ebpf_config =
  ebpf_enabled :: ebpf_mode
  ebpf_object_path :: "string option"
  ebpf_fast_allow :: bool
  ebpf_fast_allow_mark :: "u32 option"

section \<open>Configuration\<close>

record config_toml =
  ct_profile :: "string option"
  ct_default_policy :: default_policy_toml
  ct_nfqueue :: nfq_config
  ct_storage_path :: string
  ct_pause_default_secs :: u64
  ct_events_max_rows :: u32
  ct_ipc :: ipc_config
  ct_provenance_enabled :: bool
  ct_ebpf :: ebpf_config

record config =
  cf_profile :: "string option"
  cf_default_policy :: default_policy
  cf_nfqueue :: nfq_config
  cf_storage_path :: string
  cf_pause_default_secs :: u64
  cf_events_max_rows :: u32
  cf_ipc :: ipc_config
  cf_provenance_enabled :: bool
  cf_ebpf :: ebpf_config

definition resolve_config :: "config_toml \<Rightarrow> config" where
  "resolve_config t =
     (let base = (case ct_profile t of
            Some s \<Rightarrow> (case profile_parse s of
                         Some p \<Rightarrow> profile_policy p
                       | None \<Rightarrow> profile_policy Balanced)
          | None \<Rightarrow> profile_policy Balanced) in
      \<lparr>cf_profile = ct_profile t,
       cf_default_policy = resolve_policy (ct_default_policy t) base,
       cf_nfqueue = ct_nfqueue t,
       cf_storage_path = ct_storage_path t,
       cf_pause_default_secs = ct_pause_default_secs t,
       cf_events_max_rows = ct_events_max_rows t,
       cf_ipc = ct_ipc t,
       cf_provenance_enabled = ct_provenance_enabled t,
       cf_ebpf = ct_ebpf t\<rparr>)"

datatype config_error = TomlError | FailOpenUnsupported

definition from_toml :: "config_toml option \<Rightarrow> config_error + config" where
  "from_toml doc =
     (case doc of
        None \<Rightarrow> Inl TomlError
      | Some raw \<Rightarrow>
          if nfq_fail_open (ct_nfqueue raw) then Inl FailOpenUnsupported
          else Inr (resolve_config raw))"

text \<open>A policy base that no profile string can widen.\<close>

lemma profile_policy_closed:
  "pol_no_ui_action (profile_policy p) = Deny \<and> pol_timeout_action (profile_policy p) = Deny \<and>
   pol_inbound_action (profile_policy p) \<noteq> Allow"
  by (cases p) simp_all

text \<open>The profile a file asks for: an absent or unknown name is Balanced.\<close>

definition asked_profile :: "config_toml \<Rightarrow> profile" where
  "asked_profile t =
     (case Option.bind (ct_profile t) profile_parse of None \<Rightarrow> Balanced | Some p \<Rightarrow> p)"

lemma resolved_policy: "cf_default_policy (resolve_config t) = resolve_policy (ct_default_policy t) (profile_policy (asked_profile t))"
  by (auto simp: resolve_config_def asked_profile_def Let_def simp del: profile_policy.simps split: option.split)

text \<open>No profile admits anything by itself: Allow for an unanswered prompt, or with nobody to ask, is in the
  resolved policy only when the file writes it.\<close>

lemma allow_is_explicit:
  assumes "from_toml (Some raw) = Inr cfg"
  shows "(pol_no_ui_action (cf_default_policy cfg) = Allow \<longrightarrow> toml_no_ui_action (ct_default_policy raw) = Some Allow) \<and>
    (pol_timeout_action (cf_default_policy cfg) = Allow \<longrightarrow> toml_timeout_action (ct_default_policy raw) = Some Allow)"
proof -
  have cfg: "cf_default_policy cfg = resolve_policy (ct_default_policy raw) (profile_policy (asked_profile raw))"
    using assms by (auto simp: from_toml_def resolved_policy split: if_splits)
  show ?thesis
    using profile_policy_closed [of "asked_profile raw"]
    by (auto simp: cfg resolve_policy_def unwrap_or_def split: option.splits)
qed

text \<open>The profile a file asks for, by name.\<close>

definition named_profile :: "string option \<Rightarrow> profile" where
  "named_profile name =
     (case name of
        None \<Rightarrow> Balanced
      | Some s \<Rightarrow>
          let s = to_ascii_lowercase (trim s) in
          if s = ''relaxed'' then Relaxed else if s = ''strict'' then Strict else Balanced)"

lemma asked_is_named: "asked_profile t = named_profile (ct_profile t)"
  by (auto simp: asked_profile_def named_profile_def profile_parse_def Let_def split: option.split)



end
