(* ===== verification/Engine.thy ===== *)
theory Engine
  imports RuleLookup Policy
begin

text \<open>
  \<open>crates/cfc-daemon/src/decision.rs\<close>: the decision engine.  Its state is the rule set, the
  default policy it shares with the prompt router and the reload path, the hit counters not
  yet folded into the rules, and how often the change observer was called.  The clock is an
  argument (\<open>now\<close>, milliseconds); the locks serialise whole operations, which are steps here.
\<close>

section \<open>State\<close>

record engine =
  e_rules :: "rule list"
  e_policy :: default_policy
  e_hits :: "uuid \<Rightarrow> u64 option"
  e_notified :: nat

datatype decision =
    Resolved verdict
  | NeedsPrompt verdict "uuid option"

definition new_engine :: "rule list \<Rightarrow> default_policy \<Rightarrow> engine" where
  "new_engine rules policy =
     \<lparr>e_rules = sort_deterministic rules, e_policy = policy, e_hits = (\<lambda>_. None), e_notified = 0\<rparr>"

definition notify_changed :: "engine \<Rightarrow> engine" where
  "notify_changed eng = eng\<lparr>e_notified := e_notified eng + 1\<rparr>"

section \<open>Deciding\<close>

definition fallback_verdict :: "engine \<Rightarrow> verdict" where
  "fallback_verdict eng = from_policy (pol_no_ui_action (e_policy eng))"

definition inbound_default :: "engine \<Rightarrow> action" where
  "inbound_default eng = pol_inbound_action (e_policy eng)"

definition peek :: "ext \<Rightarrow> int \<Rightarrow> engine \<Rightarrow> connection \<Rightarrow> process \<Rightarrow> decision" where
  "peek E now eng conn proc =
     (case lookup E (e_rules eng) conn proc now of
        MatchRule r \<Rightarrow> Resolved (from_rule (r_action r) (r_id r))
      | MatchUndecidable r \<Rightarrow>
          if s_dst_host (r_scope r) \<noteq> None then Resolved (from_policy Deny)
          else NeedsPrompt (fallback_verdict eng) (Some (r_id r))
      | MatchNone \<Rightarrow> NeedsPrompt (fallback_verdict eng) None)"

text \<open>A 64-bit counter incremented once per matched packet does not reach its limit.\<close>

definition count_hit :: "uuid \<Rightarrow> engine \<Rightarrow> engine" where
  "count_hit rule_id eng =
     eng\<lparr>e_hits := (e_hits eng)(rule_id \<mapsto> (case e_hits eng rule_id of None \<Rightarrow> 0 | Some n \<Rightarrow> n) + 1)\<rparr>"

definition evaluate :: "ext \<Rightarrow> int \<Rightarrow> engine \<Rightarrow> connection \<Rightarrow> process \<Rightarrow> decision \<times> engine" where
  "evaluate E now eng conn proc =
     (let d = peek E now eng conn proc in
      case d of
        Resolved v \<Rightarrow> (case v_source v of
                         FromRule rule_id \<Rightarrow> (d, count_hit rule_id eng)
                       | _ \<Rightarrow> (d, eng))
      | NeedsPrompt _ _ \<Rightarrow> (d, eng))"

section \<open>What holds for a process wherever it connects\<close>

definition is_generic_allow :: "rule \<Rightarrow> bool" where
  "is_generic_allow r \<longleftrightarrow> r_action r = Allow \<and> \<not> names_program (r_scope r)"

definition is_program_refusal :: "rule \<Rightarrow> bool" where
  "is_program_refusal r \<longleftrightarrow> r_action r \<noteq> Allow \<and> names_program (r_scope r)"

fun wide_walk :: "process \<Rightarrow> bool \<Rightarrow> rule list \<Rightarrow> action option" where
  "wide_walk proc saw_generic_allow [] = None"
| "wide_walk proc saw_generic_allow (r # rs) =
     (if s_direction (r_scope r) = Some Inbound then wide_walk proc saw_generic_allow rs
      else if undecidable_for (r_scope r) proc then None
      else if \<not> matches_process (r_scope r) proc then wide_walk proc saw_generic_allow rs
      else if is_generic_allow r then wide_walk proc True rs
      else if saw_generic_allow \<and> \<not> is_program_refusal r then None
      else if \<not> constrains_destination (r_scope r) then Some (r_action r) else None)"

definition process_wide_action :: "ext \<Rightarrow> int \<Rightarrow> engine \<Rightarrow> process \<Rightarrow> action option" where
  "process_wide_action E now eng proc =
     wide_walk proc False (filter (\<lambda>r. r_enabled r \<and> \<not> is_expired E r now) (e_rules eng))"

definition denies_process_wide :: "ext \<Rightarrow> int \<Rightarrow> engine \<Rightarrow> process \<Rightarrow> bool" where
  "denies_process_wide E now eng proc \<longleftrightarrow>
     (case process_wide_action E now eng proc of Some Deny \<Rightarrow> True | Some Reject \<Rightarrow> True | _ \<Rightarrow> False)"

definition rule_count :: "engine \<Rightarrow> nat" where
  "rule_count eng = length (e_rules eng)"

text \<open>A \<open>BTreeSet<PathBuf>\<close> holds one path per class of equal paths: the list is that set, in the
  order of insertion.\<close>

definition path_mem :: "string \<Rightarrow> string list \<Rightarrow> bool" where
  "path_mem p ps \<longleftrightarrow> (\<exists>q \<in> set ps. path_eq q p)"

definition path_insert :: "string list \<Rightarrow> string \<Rightarrow> string list" where
  "path_insert ps p = (if path_mem p ps then ps else ps @ [p])"

definition compilable_exe_paths :: "ext \<Rightarrow> int \<Rightarrow> engine \<Rightarrow> string list option" where
  "compilable_exe_paths E now eng =
     (let live = filter (\<lambda>r. r_enabled r \<and> \<not> is_expired E r now) (e_rules eng) in
      if list_ex (\<lambda>r. s_uid (r_scope r) \<noteq> None \<and> s_exe_path (r_scope r) = None) live then None
      else
        let uid_scoped = foldl path_insert []
              (List.map_filter (\<lambda>r. s_exe_path (r_scope r)) (filter (\<lambda>r. s_uid (r_scope r) \<noteq> None) live)) in
        Some (foldl path_insert []
          (filter (\<lambda>p. \<not> path_mem p uid_scoped)
             (List.map_filter (\<lambda>r. s_exe_path (r_scope r)) live))))"

section \<open>Changing the rules\<close>

definition notify_rules_expired :: "ext \<Rightarrow> int \<Rightarrow> engine \<Rightarrow> engine" where
  "notify_rules_expired E now eng =
     notify_changed (eng\<lparr>e_rules := filter (\<lambda>r. \<not> is_expired E r now) (e_rules eng)\<rparr>)"

definition find_rule :: "rule list \<Rightarrow> uuid \<Rightarrow> rule option" where
  "find_rule rules rid = find (\<lambda>r. r_id r = rid) rules"

definition take_server_owned :: "rule \<Rightarrow> rule \<Rightarrow> rule" where
  "take_server_owned existing r =
     r\<lparr>r_hit_count := r_hit_count existing, r_created_at := r_created_at existing\<rparr>"

definition preserve_server_owned :: "engine \<Rightarrow> rule \<Rightarrow> rule" where
  "preserve_server_owned eng r =
     (case find_rule (e_rules eng) (r_id r) of
        None \<Rightarrow> r
      | Some existing \<Rightarrow> take_server_owned existing r)"

text \<open>The replacement is sorted before the server-owned fields are restored, and a duplicated id
  in the current set resolves to its last occurrence (\<open>collect\<close> into a \<open>HashMap\<close>).\<close>

definition replace_rules :: "rule list \<Rightarrow> engine \<Rightarrow> engine" where
  "replace_rules rules eng =
     (let replacement = sort_deterministic rules;
          replacement = map (\<lambda>r. case find_rule (rev (e_rules eng)) (r_id r) of
                                   None \<Rightarrow> r | Some old \<Rightarrow> take_server_owned old r) replacement in
      notify_changed (eng\<lparr>
        e_hits := (\<lambda>rid. if \<exists>r \<in> set replacement. r_id r = rid then e_hits eng rid else None),
        e_rules := replacement\<rparr>))"

fun update_first :: "rule \<Rightarrow> rule list \<Rightarrow> rule list" where
  "update_first r [] = []"
| "update_first r (q # qs) = (if r_id q = r_id r then r # qs else q # update_first r qs)"

definition upsert_rules :: "rule \<Rightarrow> rule list \<Rightarrow> rule list" where
  "upsert_rules r rules =
     sort_deterministic
       (case find_rule rules (r_id r) of None \<Rightarrow> rules @ [r] | Some _ \<Rightarrow> update_first r rules)"

definition upsert_rule :: "rule \<Rightarrow> engine \<Rightarrow> engine" where
  "upsert_rule r eng = notify_changed (eng\<lparr>e_rules := upsert_rules r (e_rules eng)\<rparr>)"

definition remove_rule :: "uuid \<Rightarrow> engine \<Rightarrow> engine" where
  "remove_rule rid eng = notify_changed (eng\<lparr>e_rules := filter (\<lambda>r. r_id r \<noteq> rid) (e_rules eng)\<rparr>)"

definition fold_hits :: "(uuid \<Rightarrow> u64 option) \<Rightarrow> rule list \<Rightarrow> rule list" where
  "fold_hits hits rules =
     map (\<lambda>r. case hits (r_id r) of
                None \<Rightarrow> r | Some extra \<Rightarrow> r\<lparr>r_hit_count := sat_add64 (r_hit_count r) extra\<rparr>) rules"

definition snapshot :: "engine \<Rightarrow> rule list" where
  "snapshot eng = fold_hits (e_hits eng) (e_rules eng)"

definition drain_hits :: "engine \<Rightarrow> (uuid \<Rightarrow> u64 option) \<times> engine" where
  "drain_hits eng =
     (e_hits eng, eng\<lparr>e_rules := fold_hits (e_hits eng) (e_rules eng), e_hits := (\<lambda>_. None)\<rparr>)"

text \<open>The reload path stores a new policy behind the shared lock.\<close>

definition set_policy :: "default_policy \<Rightarrow> engine \<Rightarrow> engine" where
  "set_policy policy eng = eng\<lparr>e_policy := policy\<rparr>"

section \<open>The process-wide answer and the packet path\<close>

lemma unconstrained_matches:
  "\<not> constrains_destination s \<Longrightarrow> c_direction conn = Outbound \<Longrightarrow> matches_known_connection E s conn"
  by (auto simp: constrains_destination_def matches_known_connection_iff protocol_ok_def
      split: option.split direction.split) (metis direction.exhaust)

lemma inbound_rule_silent:
  "s_direction s = Some Inbound \<Longrightarrow> c_direction conn = Outbound \<Longrightarrow> \<not> matches_known_connection E s conn"
  by (simp add: matches_known_connection_iff)

text \<open>What the packet path's walk has noted while the process-wide walk goes on.\<close>

definition wide_agrees :: "bool \<Rightarrow> walk \<Rightarrow> bool" where
  "wide_agrees saw w \<longleftrightarrow>
     \<not> w_maybe_closed w \<and> (w_generic_allow w \<noteq> None \<longrightarrow> saw) \<and>
     (\<forall>u. w_undecided w = Some u \<longrightarrow> saw \<and> s_dst_host (r_scope u) \<noteq> None)"

lemma wide_agrees_init: "wide_agrees False walk_init"
  by (simp add: wide_agrees_def walk_init_def)

lemma wide_agrees_saw: "wide_agrees saw w \<Longrightarrow> wide_agrees True w"
  by (auto simp: wide_agrees_def)

lemma wide_agrees_note:
  "wide_agrees saw w \<Longrightarrow> r_action r = Allow \<Longrightarrow> s_dst_host (r_scope r) \<noteq> None \<Longrightarrow>
   wide_agrees True (note_undecided w r)"
  by (auto simp: wide_agrees_def note_undecided_def Let_def split: option.splits)

lemma wide_agrees_hold: "wide_agrees saw w \<Longrightarrow> wide_agrees True (w\<lparr>w_generic_allow := Some r\<rparr>)"
  by (auto simp: wide_agrees_def)

lemma wide_walk_lookup:
  assumes "wide_walk proc saw rs = Some a" "wide_agrees saw w" "c_direction conn = Outbound"
  shows "\<exists>w' r. lookup_walk E conn proc w rs = (w', Some r) \<and> r_action r = a \<and> r \<in> set rs \<and>
    wide_agrees (a \<noteq> Allow) w'"
  using assms
proof (induction proc saw rs arbitrary: w rule: wide_walk.induct)
  case (1 proc saw)
  then show ?case by simp
next
  case (2 proc saw r rs)
  show ?case
  proof (cases "s_direction (r_scope r) = Some Inbound")
    case True
    have "lookup_walk E conn proc w (r # rs) = lookup_walk E conn proc w rs"
      using inbound_rule_silent [OF True 2(6), of E] by (simp add: lookup_walk.simps(2))
    moreover have "wide_walk proc saw rs = Some a" using 2(4) True by simp
    from 2(1) [OF True this 2(5,6)] obtain w' q where
      "lookup_walk E conn proc w rs = (w', Some q)" "r_action q = a" "q \<in> set rs"
      "wide_agrees (a \<noteq> Allow) w'" by blast
    ultimately show ?thesis by simp
  next
    case out: False
    with 2(4) have dec: "\<not> undecidable_for (r_scope r) proc" by (auto split: if_splits)
    show ?thesis
    proof (cases "matches_process (r_scope r) proc")
      case False
      have "lookup_walk E conn proc w (r # rs) = lookup_walk E conn proc w rs"
        using dec False by (simp add: lookup_walk.simps(2) Let_def)
      moreover have "wide_walk proc saw rs = Some a" using 2(4) out dec False by simp
      from 2(2) [OF out dec False this 2(5,6)] obtain w' q where
        "lookup_walk E conn proc w rs = (w', Some q)" "r_action q = a" "q \<in> set rs"
        "wide_agrees (a \<noteq> Allow) w'" by blast
      ultimately show ?thesis by simp
    next
      case True
      show ?thesis
      proof (cases "is_generic_allow r")
        case gen: True
        from 2(4) out dec True gen have walk: "wide_walk proc True rs = Some a" by simp
        note IH = 2(3) [OF out dec _ gen walk]
        have acts: "r_action r = Allow" "\<not> names_program (r_scope r)"
          using gen by (simp_all add: is_generic_allow_def)
        consider
            (skip) "lookup_walk E conn proc w (r # rs) = lookup_walk E conn proc w rs"
          | (undec) "s_dst_host (r_scope r) \<noteq> None"
              "lookup_walk E conn proc w (r # rs) = lookup_walk E conn proc (note_undecided w r) rs"
          | (hold) "lookup_walk E conn proc w (r # rs) = lookup_walk E conn proc (w\<lparr>w_generic_allow := Some r\<rparr>) rs"
          using dec True acts by (cases "w_generic_allow w = None"; cases "matches_known_connection E (r_scope r) conn";
            cases "s_dst_host (r_scope r) = None") (auto simp: lookup_walk.simps(2))
        then obtain w1 where step: "lookup_walk E conn proc w (r # rs) = lookup_walk E conn proc w1 rs"
          and w1: "wide_agrees True w1"
          using wide_agrees_saw [OF 2(5)] wide_agrees_note [OF 2(5) acts(1)] wide_agrees_hold [OF 2(5)]
          by cases blast+
        from IH [OF _ w1 2(6)] True obtain w' q where
          "lookup_walk E conn proc w1 rs = (w', Some q)" "r_action q = a" "q \<in> set rs"
          "wide_agrees (a \<noteq> Allow) w'" by blast
        with step show ?thesis by simp
      next
        case gen: False
        from 2(4) out dec True gen have
          stop: "saw \<longrightarrow> is_program_refusal r" "\<not> constrains_destination (r_scope r)" "r_action r = a"
          by (auto split: if_splits)
        have held: "w_generic_allow w \<noteq> None \<longrightarrow> names_program (r_scope r)"
          using 2(5) stop(1) by (auto simp: wide_agrees_def is_program_refusal_def)
        have "\<not> (r_action r = Allow \<and> \<not> names_program (r_scope r))"
          using gen by (simp add: is_generic_allow_def)
        moreover have "s_dst_host (r_scope r) = None"
          using stop(2) by (simp add: constrains_destination_def)
        ultimately have "lookup_walk E conn proc w (r # rs) = (w, Some r)"
          using held dec True unconstrained_matches [OF stop(2) 2(6)]
          by (auto simp: lookup_walk.simps(2))
        moreover have "wide_agrees (a \<noteq> Allow) w"
          using 2(5) stop by (auto simp: wide_agrees_def is_program_refusal_def)
        ultimately show ?thesis using stop(3) by simp
      qed
    qed
  qed
qed

lemma live_filter: "filter (\<lambda>r. r_enabled r \<and> \<not> is_expired E r now) rules = filter (is_live E now) rules"
  by (rule filter_cong) (simp_all add: is_live_def)

lemma process_wide_lookup:
  assumes "process_wide_action E now eng proc = Some a" "c_direction conn = Outbound"
  shows "\<exists>v. peek E now eng conn proc = Resolved v \<and>
    (if a = Allow then v_action v = Allow else v_action v \<noteq> Allow)"
proof -
  obtain w r where w: "lookup_walk E conn proc walk_init (filter (is_live E now) (e_rules eng)) = (w, Some r)"
    and r: "r_action r = a" and agrees: "wide_agrees (a \<noteq> Allow) w"
    using wide_walk_lookup [OF _ wide_agrees_init assms(2)] assms(1)
    unfolding process_wide_action_def live_filter by blast
  show ?thesis
  proof (cases "w_undecided w")
    case None
    then have "lookup E (e_rules eng) conn proc now = MatchRule r"
      by (simp add: lookup_def finish_walk_def w)
    then show ?thesis using r by (simp add: peek_def from_rule_def)
  next
    case (Some u)
    with agrees have refusal: "a \<noteq> Allow" and host: "s_dst_host (r_scope u) \<noteq> None"
      by (auto simp: wide_agrees_def)
    have "lookup E (e_rules eng) conn proc now \<in> {MatchRule r, MatchUndecidable u}"
      by (simp add: lookup_def finish_walk_def w Some Let_def)
    then show ?thesis using r refusal host by (auto simp: peek_def from_rule_def from_policy_def)
  qed
qed

lemma wide_walk_refines:
  assumes "wide_walk proc saw rs = Some a" "refines proc' proc"
  shows "wide_walk proc' saw rs = Some a"
  using assms
proof (induction proc saw rs rule: wide_walk.induct)
  case (2 proc saw r rs)
  show ?case
  proof (cases "s_direction (r_scope r) = Some Inbound")
    case False
    with 2(4) have dec: "\<not> undecidable_for (r_scope r) proc" by (auto split: if_splits)
    have same: "matches_process (r_scope r) proc' = matches_process (r_scope r) proc"
      by (rule decided_stable [OF dec 2(5)])
    have "\<not> undecidable_for (r_scope r) proc'"
      using dec fit_stable [OF 2(5), of "r_scope r"] unfolding undecidable_for_fits by auto
    with 2 False dec same show ?thesis by (auto split: if_splits)
  qed (use 2 in simp)
qed simp

text \<open>C15: the process-wide answer never contradicts the packet path.  Where the rules have one,
  every outbound flow of any process that keeps the known identity is decided without asking,
  and admitted exactly when that answer is Allow.  A kernel refusal installed from it is thus
  one the packet path would have given for every destination.\<close>

theorem process_wide_action_sound:
  assumes "process_wide_action E now eng proc = Some a" "refines proc' proc"
    "c_direction conn = Outbound"
  shows "\<exists>v. peek E now eng conn proc' = Resolved v \<and> (v_action v = Allow \<longleftrightarrow> a = Allow)"
proof -
  have "process_wide_action E now eng proc' = Some a"
    using assms(1,2) unfolding process_wide_action_def by (rule wide_walk_refines)
  from process_wide_lookup [OF this assms(3)] show ?thesis by (cases "a = Allow") auto
qed

theorem process_wide_action_sound_witness:
  "\<exists>E eng proc conn v. denies_process_wide E 0 eng proc \<and>
     peek E 0 eng conn (proc\<lparr>p_uid := Some 1000\<rparr>) = Resolved v \<and> v_action v \<noteq> Allow"
proof -
  let ?E = "\<lparr>ipnet_contains = (\<lambda>_ _. True), dt_millis = dt_instant\<rparr>"
  let ?deny = "new_rule (Uuid 7, DateTime 0) ''deny-curl'' Deny (any_scope\<lparr>s_exe_path := Some ''/usr/bin/curl''\<rparr>)"
  let ?port = "new_rule (Uuid 8, DateTime 0) ''allow-443'' Allow (any_scope\<lparr>s_dst_port := Some 443, s_protocol := Some Tcp\<rparr>)"
  let ?eng = "\<lparr>e_rules = [?port, ?deny], e_policy = profile_policy Balanced, e_hits = (\<lambda>_. None), e_notified = 0\<rparr>"
  let ?p = "(unknown_process 42)\<lparr>p_exe := ''/usr/bin/curl''\<rparr>"
  let ?c = "new_connection (Uuid 1, DateTime 0) Tcp Outbound (V4 1) 4000 (V4 2) 443"
  have a: "process_wide_action ?E 0 ?eng ?p = Some Deny"
    by (simp add: process_wide_action_def new_rule_def is_expired_def any_scope_def undecidable_for_def
        matches_process_def exe_is_known_def UNKNOWN_EXE_def is_generic_allow_def names_program_def
        is_program_refusal_def constrains_destination_def)
  have r: "refines (?p\<lparr>p_uid := Some 1000\<rparr>) ?p" by (simp add: refines_def unknown_process_def)
  have d: "c_direction ?c = Outbound" by (simp add: new_connection_def)
  obtain v where "peek ?E 0 ?eng ?c (?p\<lparr>p_uid := Some 1000\<rparr>) = Resolved v" "v_action v \<noteq> Allow"
    using process_wide_action_sound [OF a r d] by auto
  moreover have "denies_process_wide ?E 0 ?eng ?p" unfolding denies_process_wide_def a by simp
  ultimately show ?thesis by blast
qed

section \<open>The rule set under its operations\<close>

definition engine_ok :: "engine \<Rightarrow> bool" where
  "engine_ok eng \<longleftrightarrow> in_precedence_order (e_rules eng) \<and> distinct_ids (e_rules eng)"

lemma find_rule_Some: "find_rule rules rid = Some r \<Longrightarrow> r \<in> set rules \<and> r_id r = rid"
  unfolding find_rule_def by (auto simp: find_Some_iff)

lemma find_rule_None_iff: "find_rule rules rid = None \<longleftrightarrow> (\<forall>r \<in> set rules. r_id r \<noteq> rid)"
  by (auto simp: find_rule_def find_None_iff)

lemma find_rule_distinct:
  "distinct_ids rules \<Longrightarrow> r \<in> set rules \<Longrightarrow> find_rule rules (r_id r) = Some r"
  by (induction rules) (auto simp: distinct_ids_def find_rule_def image_iff)

lemma find_rule_cong:
  assumes "distinct_ids xs" "set xs = set ys" "distinct_ids ys"
  shows "find_rule xs rid = find_rule ys rid"
proof (cases "find_rule xs rid")
  case None
  then have "find_rule ys rid = None" using assms(2) by (simp add: find_rule_None_iff)
  with None show ?thesis by simp
next
  case (Some r)
  then have "r \<in> set ys" "r_id r = rid" using find_rule_Some [OF Some] assms(2) by auto
  then have "find_rule ys rid = Some r" using find_rule_distinct [OF assms(3)] by blast
  with Some show ?thesis by simp
qed

lemma find_rule_Cons: "find_rule (q # qs) rid = (if r_id q = rid then Some q else find_rule qs rid)"
  by (simp add: find_rule_def)

lemma find_rule_append:
  "find_rule (xs @ ys) rid = (case find_rule xs rid of Some r \<Rightarrow> Some r | None \<Rightarrow> find_rule ys rid)"
  by (induction xs) (simp_all add: find_rule_Cons, simp add: find_rule_def)

lemma find_rule_filter:
  "distinct_ids rules \<Longrightarrow> find_rule (filter P rules) rid =
     (case find_rule rules rid of None \<Rightarrow> None | Some r \<Rightarrow> if P r then Some r else None)"
proof (induction rules)
  case (Cons q qs)
  then have ih: "find_rule (filter P qs) rid =
      (case find_rule qs rid of None \<Rightarrow> None | Some r \<Rightarrow> if P r then Some r else None)"
    by (simp add: distinct_ids_def)
  have "r_id q = rid \<Longrightarrow> find_rule qs rid = None"
    using Cons.prems by (auto simp: distinct_ids_def find_rule_None_iff image_iff)
  with ih show ?case by (auto simp: find_rule_Cons)
qed (simp add: find_rule_def)

lemma ids_update_first: "map r_id (update_first r rules) = map r_id rules"
  by (induction rules) auto

lemma find_update_first:
  "find_rule (update_first r rules) rid =
     (if rid = r_id r \<and> find_rule rules rid \<noteq> None then Some r else find_rule rules rid)"
  by (induction rules) (auto simp: find_rule_Cons find_rule_def)

lemma upsert_distinct: "distinct_ids rules \<Longrightarrow> distinct_ids (upsert_rules r rules)"
  unfolding upsert_rules_def
  by (auto simp: distinct_ids_def [of "_ @ _"] distinct_ids_def [of "update_first _ _"]
      ids_update_first distinct_ids_def [of rules] find_rule_None_iff split: option.split)

lemma find_upsert:
  assumes "distinct_ids rules"
  shows "find_rule (upsert_rules r rules) rid = (if rid = r_id r then Some r else find_rule rules rid)"
proof -
  let ?new = "case find_rule rules (r_id r) of None \<Rightarrow> rules @ [r] | Some _ \<Rightarrow> update_first r rules"
  have "distinct_ids (sort_deterministic ?new)"
    using upsert_distinct [OF assms] unfolding upsert_rules_def .
  then have "find_rule (upsert_rules r rules) rid = find_rule ?new rid"
    unfolding upsert_rules_def by (intro find_rule_cong) simp_all
  then show ?thesis
    by (auto simp: find_rule_append find_update_first find_rule_Cons split: option.split)
       (simp add: find_rule_def)
qed

interpretation rule_set: keyed_store distinct_ids r_id find_rule upsert_rules
  "\<lambda>rid. filter (\<lambda>r. r_id r \<noteq> rid)"
proof unfold_locales
  fix rules :: "rule list" and rid k :: uuid
  assume d: "distinct_ids rules"
  then show "distinct_ids (filter (\<lambda>r. r_id r \<noteq> rid) rules)"
    by (simp add: distinct_ids_def distinct_map_filter)
  show "find_rule (filter (\<lambda>r. r_id r \<noteq> rid) rules) k = (if k = rid then None else find_rule rules k)"
    using find_rule_Some [of rules k] by (auto simp: find_rule_filter [OF d] split: option.split)
qed (simp_all add: upsert_distinct find_upsert)

section \<open>Every operation keeps the rule set in order\<close>

text \<open>The rule batch of \<open>apply_rules_checked\<close> in \<open>ipc/mod.rs\<close>: the pending rules with their
  server-owned fields restored, after what is kept of the current set.\<close>

definition apply_batch :: "rule list \<Rightarrow> bool \<Rightarrow> engine \<Rightarrow> engine" where
  "apply_batch rules repl eng =
     (let pending = map (preserve_server_owned eng) rules;
          kept = filter (\<lambda>r. r_id r \<notin> r_id ` set rules) (if repl then [] else snapshot eng) in
      replace_rules (kept @ pending) eng)"

lemma preserve_id [simp]: "r_id (preserve_server_owned eng r) = r_id r"
  by (simp add: preserve_server_owned_def take_server_owned_def split: option.split)

lemma take_server_owned_key:
  "r_created_at q = r_created_at r \<Longrightarrow> rule_key (take_server_owned q r) = rule_key r"
  by (simp add: rule_key_def take_server_owned_def)

lemma fold_hits_key: "map rule_key (fold_hits hits rules) = map rule_key rules"
  by (simp add: fold_hits_def rule_key_def split: option.split)

lemma fold_hits_ids: "map r_id (fold_hits hits rules) = map r_id rules"
  by (simp add: fold_hits_def split: option.split)

lemma fold_hits_order [simp]:
  "in_precedence_order (fold_hits hits rules) = in_precedence_order rules"
  "distinct_ids (fold_hits hits rules) = distinct_ids rules"
  unfolding in_precedence_order_def distinct_ids_def by (simp_all only: fold_hits_key fold_hits_ids)

lemma find_rule_rev: "distinct_ids rules \<Longrightarrow> find_rule (rev rules) rid = find_rule rules rid"
  by (rule find_rule_cong) (simp_all add: distinct_ids_def flip: rev_map)

definition with_old_counts :: "rule list \<Rightarrow> rule \<Rightarrow> rule" where
  "with_old_counts current r =
     (case find_rule (rev current) (r_id r) of None \<Rightarrow> r | Some old \<Rightarrow> take_server_owned old r)"

lemma replace_rules_eq:
  "e_rules (replace_rules rules eng) = map (with_old_counts (e_rules eng)) (sort_deterministic rules)"
  by (simp add: replace_rules_def with_old_counts_def [abs_def] notify_changed_def Let_def)

lemma with_old_counts_id [simp]: "r_id (with_old_counts current r) = r_id r"
  by (simp add: with_old_counts_def take_server_owned_def split: option.split)

text \<open>Restoring fields after the sort keeps the order because creation times did not change.\<close>

lemma replace_rules_ok:
  assumes "distinct_ids rules" "engine_ok eng"
    "\<And>r q. r \<in> set rules \<Longrightarrow> find_rule (e_rules eng) (r_id r) = Some q \<Longrightarrow> r_created_at q = r_created_at r"
  shows "engine_ok (replace_rules rules eng)"
proof -
  have d: "distinct_ids (e_rules eng)" using assms(2) by (simp add: engine_ok_def)
  have key: "rule_key (with_old_counts (e_rules eng) r) = rule_key r" if "r \<in> set rules" for r
    using assms(3) [OF that]
    by (simp add: with_old_counts_def find_rule_rev [OF d] take_server_owned_key split: option.split)
  have "map rule_key (map (with_old_counts (e_rules eng)) (sort_deterministic rules)) =
      map rule_key (sort_deterministic rules)"
    by (simp add: key)
  moreover have "map r_id (map (with_old_counts (e_rules eng)) (sort_deterministic rules)) =
      map r_id (sort_deterministic rules)"
    by simp
  moreover have "in_precedence_order (sort_deterministic rules)" "distinct_ids (sort_deterministic rules)"
    using assms(1) by simp_all
  ultimately show ?thesis
    unfolding engine_ok_def replace_rules_eq in_precedence_order_def distinct_ids_def by (simp only: simp_thms)
qed

lemma snapshot_find:
  "find_rule (snapshot eng) rid =
     map_option (\<lambda>r. case e_hits eng (r_id r) of None \<Rightarrow> r
        | Some extra \<Rightarrow> r\<lparr>r_hit_count := sat_add64 (r_hit_count r) extra\<rparr>) (find_rule (e_rules eng) rid)"
proof -
  have "find_rule (fold_hits hits rules) rid =
     map_option (\<lambda>r. case hits (r_id r) of None \<Rightarrow> r
        | Some extra \<Rightarrow> r\<lparr>r_hit_count := sat_add64 (r_hit_count r) extra\<rparr>) (find_rule rules rid)"
    for hits rules
    by (induction rules) (auto simp: fold_hits_def find_rule_def split: option.split)
  then show ?thesis by (simp add: snapshot_def)
qed

lemma batch_distinct:
  assumes "distinct_ids rules" "engine_ok eng"
  shows "distinct_ids (filter (\<lambda>r. r_id r \<notin> r_id ` set rules) (if repl then [] else snapshot eng) @
            map (preserve_server_owned eng) rules)"
proof -
  have "distinct_ids (if repl then [] else snapshot eng)"
    using assms(2) by (simp add: engine_ok_def snapshot_def distinct_ids_def [of "[]"])
  moreover have "distinct_ids (map (preserve_server_owned eng) rules)"
    using assms(1) by (simp add: distinct_ids_def comp_def)
  ultimately show ?thesis
    unfolding distinct_ids_def by (auto simp: distinct_map_filter)
qed

lemma apply_batch_ok:
  assumes "distinct_ids rules" "engine_ok eng"
  shows "engine_ok (apply_batch rules repl eng)"
  unfolding apply_batch_def Let_def
proof (rule replace_rules_ok [OF batch_distinct [OF assms] assms(2)])
  fix r q
  have d: "distinct_ids (e_rules eng)" using assms(2) by (simp add: engine_ok_def)
  assume r: "r \<in> set (filter (\<lambda>r. r_id r \<notin> r_id ` set rules) (if repl then [] else snapshot eng) @
        map (preserve_server_owned eng) rules)"
    and q: "find_rule (e_rules eng) (r_id r) = Some q"
  from r consider (old) "r \<in> set (snapshot eng)" | (new) r0 where "r = preserve_server_owned eng r0"
    by (auto split: if_splits)
  then show "r_created_at q = r_created_at r"
  proof cases
    case old
    have "distinct_ids (snapshot eng)" using d by (simp add: snapshot_def)
    from find_rule_distinct [OF this old] q show ?thesis
      by (auto simp: snapshot_find split: option.splits)
  next
    case new
    with q have "find_rule (e_rules eng) (r_id r0) = Some q" by simp
    then show ?thesis by (simp add: new preserve_server_owned_def take_server_owned_def)
  qed
qed

inductive engine_step :: "ext \<Rightarrow> engine \<Rightarrow> engine \<Rightarrow> bool" for E where
  step_evaluate: "engine_step E eng (snd (evaluate E now eng conn proc))"
| step_count: "engine_step E eng (count_hit rid eng)"
| step_upsert: "engine_step E eng (upsert_rule r eng)"
| step_remove: "engine_step E eng (remove_rule rid eng)"
| step_apply: "distinct_ids rules \<Longrightarrow> engine_step E eng (apply_batch rules repl eng)"
| step_drain: "engine_step E eng (snd (drain_hits eng))"
| step_expire: "engine_step E eng (notify_rules_expired E now eng)"
| step_policy: "engine_step E eng (set_policy policy eng)"

inductive_cases engine_stepE: "engine_step E eng eng'"

lemma evaluate_rules [simp]: "e_rules (snd (evaluate E now eng conn proc)) = e_rules eng"
  by (simp add: evaluate_def count_hit_def Let_def split: decision.split verdict_source.split)

lemma engine_step_ok: "engine_step E eng eng' \<Longrightarrow> engine_ok eng \<Longrightarrow> engine_ok eng'"
proof (induction rule: engine_step.induct)
  case (step_upsert eng r)
  then show ?case
    by (simp add: engine_ok_def upsert_rule_def notify_changed_def upsert_distinct)
       (simp add: upsert_rules_def)
next
  case (step_remove eng rid)
  then show ?case
    by (auto simp: engine_ok_def remove_rule_def notify_changed_def distinct_ids_def
        distinct_map_filter in_precedence_order_def sorted_filter)
next
  case (step_expire eng now)
  then show ?case
    by (auto simp: engine_ok_def notify_rules_expired_def notify_changed_def distinct_ids_def
        distinct_map_filter in_precedence_order_def sorted_filter)
next
  case (step_apply rules eng repl)
  then show ?case by (intro apply_batch_ok)
next
  case (step_drain eng)
  then show ?case by (simp add: engine_ok_def drain_hits_def)
qed (simp_all add: engine_ok_def count_hit_def set_policy_def)

text \<open>the engine's rules stay in precedence order and unique by id.  Started on rules with
  distinct ids, every sequence of evaluations, hit counts, edits, imports, removals, flushes,
  expiries and policy reloads leaves them so, which is what the lookup's walk relies on.\<close>

theorem engine_rules_stay_ordered:
  assumes "distinct_ids rules" "(engine_step E)\<^sup>*\<^sup>* (new_engine rules policy) eng"
  shows "in_precedence_order (e_rules eng) \<and> distinct_ids (e_rules eng)"
proof -
  have "engine_ok (new_engine rules policy)"
    using assms(1) by (simp add: engine_ok_def new_engine_def)
  with assms(2) have "engine_ok eng"
    by (induction rule: rtranclp_induct) (auto intro: engine_step_ok)
  then show ?thesis by (simp add: engine_ok_def)
qed

theorem engine_rules_stay_ordered_witness:
  "\<exists>E eng a b. (engine_step E)\<^sup>*\<^sup>* (new_engine [] (profile_policy Strict)) eng \<and>
     e_rules eng = [a, b] \<and> in_precedence_order [a, b]"
proof -
  let ?E = "\<lparr>ipnet_contains = (\<lambda>_ _. True), dt_millis = dt_instant\<rparr>"
  let ?a = "new_rule (Uuid 2, DateTime 5) ''narrow'' Deny (any_scope\<lparr>s_dst_port := Some 25\<rparr>)"
  let ?b = "new_rule (Uuid 1, DateTime 0) ''wide'' Deny any_scope"
  let ?start = "new_engine [] (profile_policy Strict)"
  let ?e = "upsert_rule ?a (upsert_rule ?b ?start)"
  have steps: "(engine_step ?E)\<^sup>*\<^sup>* ?start ?e"
    by (meson engine_step.step_upsert rtranclp.rtrancl_into_rtrancl rtranclp.rtrancl_refl)
  have none: "distinct_ids []" by (simp add: distinct_ids_def)
  have rules: "e_rules ?e = [?a, ?b]"
    by (simp add: upsert_rule_def notify_changed_def new_engine_def upsert_rules_def find_rule_def
        sort_deterministic_def new_rule_def rule_key_def specificity_def any_scope_def narrows_def
        less_eq_reverse_def less_reverse_def)
  from engine_rules_stay_ordered [OF none steps] steps rules show ?thesis by auto
qed

section \<open>Executables the kernel table may hold\<close>

lemma path_mem_simps [simp]:
  "\<not> path_mem p []" "path_mem p (q # qs) \<longleftrightarrow> path_eq q p \<or> path_mem p qs"
  "path_mem p (qs @ qs') \<longleftrightarrow> path_mem p qs \<or> path_mem p qs'"
  by (auto simp: path_mem_def)

lemma path_mem_cong: "path_eq p p' \<Longrightarrow> path_mem p ps = path_mem p' ps"
  by (auto simp: path_mem_def path_eq_def)

lemma path_mem_insert: "path_mem p (path_insert ps q) \<longleftrightarrow> path_mem p ps \<or> path_eq q p"
  by (auto simp: path_insert_def dest: path_mem_cong)

lemma path_mem_foldl: "path_mem p (foldl path_insert ps qs) \<longleftrightarrow> path_mem p ps \<or> path_mem p qs"
  by (induction qs arbitrary: ps) (auto simp: path_mem_insert)

lemma path_mem_map_filter:
  "path_mem p (List.map_filter f rs) \<longleftrightarrow> (\<exists>r \<in> set rs. \<exists>q. f r = Some q \<and> path_eq q p)"
  by (induction rs) (auto simp: List.map_filter_def split: option.split)

lemma wide_walk_cong:
  assumes "\<And>r. r \<in> set rs \<Longrightarrow> undecidable_for (r_scope r) p1 = undecidable_for (r_scope r) p2 \<and>
    matches_process (r_scope r) p1 = matches_process (r_scope r) p2"
  shows "wide_walk p1 saw rs = wide_walk p2 saw rs"
  using assms by (induction rs arbitrary: saw) simp_all

lemma uid_irrelevant_clash:
  "s_exe_path s = Some q \<Longrightarrow> exe_is_known proc \<Longrightarrow> \<not> path_eq (p_exe proc) q \<Longrightarrow>
   \<not> undecidable_for s proc \<and> \<not> matches_process s proc"
  by (auto simp: undecidable_for_iff matches_process_iff)

lemma uid_irrelevant_unset:
  "s_uid s = None \<Longrightarrow> undecidable_for s (proc\<lparr>p_uid := u\<rparr>) = undecidable_for s proc \<and>
   matches_process s (proc\<lparr>p_uid := u\<rparr>) = matches_process s proc"
  by (simp add: undecidable_for_iff matches_process_iff exe_is_known_def)

text \<open>An executable offered to the kernel's table is decided by its path alone: no live rule
  that asks for a user can touch it, so the process-wide answer computed for a process of
  unknown user is the answer for every user running it.\<close>

theorem compilable_paths_ignore_uid:
  assumes "compilable_exe_paths E now eng = Some paths" "path_mem (p_exe proc) paths"
    "exe_is_known proc"
  shows "process_wide_action E now eng (proc\<lparr>p_uid := u\<rparr>) = process_wide_action E now eng proc"
proof -
  let ?live = "filter (\<lambda>r. r_enabled r \<and> \<not> is_expired E r now) (e_rules eng)"
  let ?scoped = "foldl path_insert [] (List.map_filter (\<lambda>r. s_exe_path (r_scope r))
    (filter (\<lambda>r. s_uid (r_scope r) \<noteq> None) ?live))"
  let ?paths = "filter (\<lambda>p. \<not> path_mem p ?scoped) (List.map_filter (\<lambda>r. s_exe_path (r_scope r)) ?live)"
  from assms(1) have
    some: "\<not> list_ex (\<lambda>r. s_uid (r_scope r) \<noteq> None \<and> s_exe_path (r_scope r) = None) ?live" and
    paths: "paths = foldl path_insert [] ?paths"
    unfolding compilable_exe_paths_def Let_def by (simp_all split: if_splits)
  from assms(2) paths have "path_mem (p_exe proc) ?paths" by (simp add: path_mem_foldl)
  then have clear: "\<not> path_mem (p_exe proc) ?scoped"
    by (auto simp: path_mem_def [of _ "filter _ _"] dest: path_mem_cong)
  show ?thesis
    unfolding process_wide_action_def
  proof (rule wide_walk_cong)
    fix r
    assume r: "r \<in> set ?live"
    show "undecidable_for (r_scope r) (proc\<lparr>p_uid := u\<rparr>) = undecidable_for (r_scope r) proc \<and>
      matches_process (r_scope r) (proc\<lparr>p_uid := u\<rparr>) = matches_process (r_scope r) proc"
    proof (cases "s_uid (r_scope r)")
      case None
      then show ?thesis by (rule uid_irrelevant_unset)
    next
      case (Some v)
      with some r obtain q where q: "s_exe_path (r_scope r) = Some q"
        by (cases "s_exe_path (r_scope r)") (auto simp: list_ex_iff)
      have "\<not> path_eq (p_exe proc) q"
        using clear r Some q path_eq_sym [of "p_exe proc" q]
        by (auto simp: path_mem_foldl path_mem_map_filter)
      then show ?thesis
        using uid_irrelevant_clash [OF q, of proc] uid_irrelevant_clash [OF q, of "proc\<lparr>p_uid := u\<rparr>"]
          assms(3) by (simp add: exe_is_known_def)
    qed
  qed
qed

theorem compilable_paths_ignore_uid_witness:
  "\<exists>E eng proc. process_wide_action E 0 eng (proc\<lparr>p_uid := Some 1000\<rparr>) = Some Deny \<and> p_uid proc = None"
proof -
  let ?E = "\<lparr>ipnet_contains = (\<lambda>_ _. True), dt_millis = dt_instant\<rparr>"
  let ?user = "new_rule (Uuid 9, DateTime 0) ''wget-for-user'' Allow
     (any_scope\<lparr>s_exe_path := Some ''/usr/bin/wget'', s_uid := Some 1000\<rparr>)"
  let ?deny = "new_rule (Uuid 7, DateTime 0) ''deny-curl'' Deny (any_scope\<lparr>s_exe_path := Some ''/usr/bin/curl''\<rparr>)"
  let ?eng = "\<lparr>e_rules = [?user, ?deny], e_policy = profile_policy Balanced, e_hits = (\<lambda>_. None), e_notified = 0\<rparr>"
  let ?p = "(unknown_process 42)\<lparr>p_exe := ''/usr/bin/curl''\<rparr>"
  have ne: "\<not> path_eq ''/usr/bin/curl'' ''/usr/bin/wget''" "\<not> path_eq ''/usr/bin/wget'' ''/usr/bin/curl''"
    by (simp_all add: path_eq_def path_components_def is_absolute_def)
  have paths: "compilable_exe_paths ?E 0 ?eng = Some [''/usr/bin/curl'']"
    using ne by (simp add: compilable_exe_paths_def new_rule_def is_expired_def any_scope_def
        List.map_filter_def path_insert_def Let_def)
  have mem: "path_mem (p_exe ?p) [''/usr/bin/curl'']" by simp
  have known: "exe_is_known ?p" by (simp add: exe_is_known_def UNKNOWN_EXE_def)
  have "process_wide_action ?E 0 ?eng ?p = Some Deny"
    using ne by (simp add: process_wide_action_def new_rule_def is_expired_def any_scope_def undecidable_for_def
        matches_process_def known is_generic_allow_def names_program_def
        is_program_refusal_def constrains_destination_def)
  with compilable_paths_ignore_uid [OF paths mem known, of "Some 1000"] show ?thesis
    by (intro exI [of _ ?E] exI [of _ ?eng] exI [of _ ?p]) (simp add: unknown_process_def)
qed

section \<open>Hit counts\<close>

definition seen_count :: "engine \<Rightarrow> uuid \<Rightarrow> u64 option" where
  "seen_count eng rid = map_option r_hit_count (find_rule (snapshot eng) rid)"

definition pending_hits :: "engine \<Rightarrow> uuid \<Rightarrow> u64" where
  "pending_hits eng rid = unwrap_or (e_hits eng rid) 0"

lemma seen_count_eq:
  "seen_count eng rid =
     map_option (\<lambda>r. sat_add64 (r_hit_count r) (pending_hits eng rid)) (find_rule (e_rules eng) rid)"
proof (cases "find_rule (e_rules eng) rid")
  case (Some r)
  then have "r_id r = rid" using find_rule_Some by blast
  with Some show ?thesis
    by (cases "e_hits eng rid") (simp_all add: seen_count_def snapshot_find pending_hits_def)
qed (simp add: seen_count_def snapshot_find)

lemma find_fold_hits:
  "find_rule (fold_hits hits rules) rid =
     map_option (\<lambda>r. case hits (r_id r) of None \<Rightarrow> r
        | Some extra \<Rightarrow> r\<lparr>r_hit_count := sat_add64 (r_hit_count r) extra\<rparr>) (find_rule rules rid)"
  by (induction rules) (auto simp: fold_hits_def find_rule_def split: option.split)

lemma seen_count_drain: "seen_count (snd (drain_hits eng)) rid = seen_count eng rid"
  by (simp add: seen_count_def snapshot_find drain_hits_def find_fold_hits option.map_comp comp_def)

lemma seen_count_echo:
  assumes "engine_ok eng" "find_rule (e_rules eng) (r_id r) = Some q"
  shows "seen_count (upsert_rule (preserve_server_owned eng r) eng) rid = seen_count eng rid"
proof -
  have d: "distinct_ids (e_rules eng)" using assms(1) by (simp add: engine_ok_def)
  have "r_hit_count (preserve_server_owned eng r) = r_hit_count q"
    by (simp add: preserve_server_owned_def assms(2) take_server_owned_def)
  then show ?thesis
    using assms(2)
    by (simp add: seen_count_eq upsert_rule_def notify_changed_def find_upsert [OF d] pending_hits_def)
qed

lemma seen_count_evaluate:
  assumes "e_hits eng rid \<noteq> Some (- 1)"
  shows "seen_count (snd (evaluate E now eng conn proc)) rid =
    (case fst (evaluate E now eng conn proc) of
       Resolved v \<Rightarrow> if v_source v = FromRule rid then map_option (\<lambda>n. sat_add64 n 1) (seen_count eng rid)
                     else seen_count eng rid
     | NeedsPrompt _ _ \<Rightarrow> seen_count eng rid)"
proof -
  have step: "sat_add64 a (n + 1) = sat_add64 (sat_add64 a n) 1" if "n \<noteq> - 1" for a n :: u64
  proof -
    have "unat n + 1 < 2 ^ 64"
    proof (rule ccontr)
      assume "\<not> unat n + 1 < 2 ^ 64"
      then have "unat n = 2 ^ 64 - 1" using unat_lt_2p [of n] by simp
      then have "unat n = unat (- 1 :: u64)" by (simp add: unsigned_minus_1_eq_mask mask_eq_exp_minus_1)
      with that show False by (simp only: word_unat_eq_iff [symmetric])
    qed
    then have "unat (n + 1) = unat n + 1" by (simp add: unat_word_ariths(1))
    then show ?thesis by (intro word_unat_eq_iff [THEN iffD2]) (simp add: unat_sat_add64)
  qed
  have "pending_hits (count_hit rid eng) rid = pending_hits eng rid + 1"
    by (simp add: count_hit_def pending_hits_def unwrap_or_def)
  moreover have "pending_hits eng rid \<noteq> - 1"
    using assms by (cases "e_hits eng rid") (simp_all add: pending_hits_def)
  ultimately have hit: "seen_count (count_hit rid eng) rid = map_option (\<lambda>n. sat_add64 n 1) (seen_count eng rid)"
    by (simp add: seen_count_eq option.map_comp comp_def step) (simp add: count_hit_def)
  have miss: "seen_count (count_hit q eng) rid = seen_count eng rid" if "q \<noteq> rid" for q
    using that by (simp add: seen_count_eq pending_hits_def count_hit_def)
  show ?thesis
    using hit miss
    by (auto simp: evaluate_def Let_def split: decision.split verdict_source.split)
qed

text \<open>Hit counts are exact.  What callers see of a rule's count grows by one when a flow is
  answered by that rule and not otherwise; flushing the pending counters changes nothing, and
  neither does any edit of a known rule, whatever count the client sends back.\<close>

theorem hit_counts_exact:
  assumes "engine_ok eng" "e_hits eng rid \<noteq> Some (- 1)"
  shows "seen_count (snd (evaluate E now eng conn proc)) rid =
      (case peek E now eng conn proc of
         Resolved v \<Rightarrow> if v_source v = FromRule rid then map_option (\<lambda>n. sat_add64 n 1) (seen_count eng rid)
                       else seen_count eng rid
       | NeedsPrompt _ _ \<Rightarrow> seen_count eng rid) \<and>
    seen_count (snd (drain_hits eng)) rid = seen_count eng rid \<and>
    (find_rule (e_rules eng) (r_id r) \<noteq> None \<longrightarrow>
       seen_count (upsert_rule (preserve_server_owned eng r) eng) rid = seen_count eng rid)"
proof -
  have "fst (evaluate E now eng conn proc) = peek E now eng conn proc"
    by (simp add: evaluate_def Let_def split: decision.split verdict_source.split)
  then show ?thesis
    using seen_count_evaluate [OF assms(2), of E now conn proc] seen_count_drain [of eng rid]
      seen_count_echo [OF assms(1)] by (auto simp del: not_None_eq simp: not_None_eq [THEN iffD1])
qed

theorem hit_counts_exact_witness:
  "\<exists>E eng conn proc. seen_count eng (Uuid 7) = Some 3 \<and>
     seen_count (snd (evaluate E 0 eng conn proc)) (Uuid 7) = Some 4"
proof -
  let ?E = "\<lparr>ipnet_contains = (\<lambda>_ _. True), dt_millis = dt_instant\<rparr>"
  let ?r = "(new_rule (Uuid 7, DateTime 0) ''deny-all'' Deny any_scope)\<lparr>r_hit_count := 1\<rparr>"
  let ?eng = "\<lparr>e_rules = [?r], e_policy = profile_policy Balanced, e_hits = (\<lambda>_. None)(Uuid 7 \<mapsto> 2), e_notified = 0\<rparr>"
  let ?c = "new_connection (Uuid 1, DateTime 0) Tcp Outbound (V4 1) 4000 (V4 2) 443"
  have ok: "engine_ok ?eng" by (simp add: engine_ok_def in_precedence_order_def distinct_ids_def)
  have nz: "e_hits ?eng (Uuid 7) \<noteq> Some (- 1)" by simp
  have three: "seen_count ?eng (Uuid 7) = Some 3"
    by (simp add: seen_count_eq find_rule_def new_rule_def pending_hits_def sat_add64_def)
  have "definite ?E ?c (unknown_process 1) ?r"
    by (simp add: definite_def scope_matches_def matches_process_def matches_connection_def
        matches_known_connection_def any_scope_def new_rule_def new_connection_def)
  then have "lookup ?E [?r] ?c (unknown_process 1) 0 = MatchRule ?r"
    using definite_not_uncertain [of ?E ?c "unknown_process 1" ?r]
    by (simp add: lookup_def finish_walk_def walk_init_def lookup_walk_Cons is_live_def is_expired_def
        generic_allow_def new_rule_def)
  then have "peek ?E 0 ?eng ?c (unknown_process 1) = Resolved (from_rule Deny (Uuid 7))"
    by (simp add: peek_def new_rule_def)
  with hit_counts_exact [OF ok nz, of ?E 0 ?c "unknown_process 1"] three
  have "seen_count (snd (evaluate ?E 0 ?eng ?c (unknown_process 1))) (Uuid 7) = Some (sat_add64 3 1)"
    by (simp add: from_rule_def)
  with three show ?thesis
    by (intro exI [of _ ?E] exI [of _ ?eng] exI [of _ ?c] exI [of _ "unknown_process 1"])
       (simp add: sat_add64_def)
qed

end
