(* ===== verification/Prompts.thy ===== *)
theory Prompts
  imports Policy "HOL-Library.AList" "HOL-Library.Multiset"
begin

text \<open>
  \<open>crates/cfc-daemon/src/prompts.rs\<close>: the prompt router.  The router task, client streams,
  \<open>SubmitVerdict\<close> calls and timers run concurrently; each of them holds one lock at a time, so a
  step here is one critical section.  \<open>enqueue\<close> is four steps (census, insert, count,
  broadcast) kept in a program counter, and the other actors may run between any two of them.
  Timers may fire at any moment after they are armed: the sleep is abstracted, the order of
  events is not.  The file-system check behind \<open>compute_binding\<close> is the parameter \<open>sealed\<close>.
\<close>

section \<open>Delivery\<close>

definition should_deliver :: "u32 option \<Rightarrow> u32 \<Rightarrow> bool" where
  "should_deliver process_uid subscriber_uid \<longleftrightarrow>
     subscriber_uid = 0 \<or> (case process_uid of None \<Rightarrow> True | Some owner \<Rightarrow> owner = subscriber_uid)"

type_synonym census = "(u32 \<times> nat) list"

definition register :: "u32 \<Rightarrow> census \<Rightarrow> census" where
  "register uid subs =
     AList.update uid ((case map_of subs uid of None \<Rightarrow> 0 | Some n \<Rightarrow> n) + 1) subs"

definition unregister :: "u32 \<Rightarrow> census \<Rightarrow> census" where
  "unregister uid subs =
     (case map_of subs uid of
        None \<Rightarrow> subs
      | Some n \<Rightarrow> if n - 1 = 0 then AList.delete uid subs else AList.update uid (n - 1) subs)"

definition has_audience :: "u32 option \<Rightarrow> census \<Rightarrow> bool" where
  "has_audience process_uid subs \<longleftrightarrow> list_ex (\<lambda>uid. should_deliver process_uid uid) (map fst subs)"

section \<open>State\<close>

record prompt_binding =
  b_exe :: "string option"
  b_hash_expected :: bool
  b_sha256 :: "string option"

definition no_binding :: prompt_binding where
  "no_binding = \<lparr>b_exe = None, b_hash_expected = False, b_sha256 = None\<rparr>"

record prompt_request =
  q_prompt_id :: u64
  q_connection :: connection
  q_process :: process
  q_undecided :: "uuid option"

record prompt_verdict =
  pv_prompt_id :: u64
  pv_verdict :: verdict

record prompt_event =
  ev_prompt_id :: string
  ev_connection :: connection
  ev_process :: process
  ev_deadline_unix_ms :: int
  ev_binds_to_hash :: bool
  ev_undecided_rule :: "uuid option"

text \<open>Where \<open>enqueue\<close> is: after the census (with the timeout it read), after the insert, after
  the gauge.\<close>

datatype router_task =
    Idle
  | Checked prompt_request prompt_binding u32
  | Inserted prompt_request prompt_binding u32
  | Counted prompt_request prompt_binding u32

text \<open>\<open>ro_live\<close> holds the census entry of every live \<open>PromptSubscription\<close> (\<open>None\<close> for a read-only
  one); \<open>ro_timers\<close> the prompts whose sweeper task is asleep; \<open>ro_verdicts\<close> what was sent to the
  worker, oldest first.\<close>

record router =
  ro_pending :: "u64 \<Rightarrow> prompt_binding option"
  ro_census :: census
  ro_live :: "u32 option list"
  ro_policy :: default_policy
  ro_gauge :: u64
  ro_verdicts :: "prompt_verdict list"
  ro_feed :: "prompt_event list"
  ro_timers :: "u64 list"
  ro_task :: router_task

definition new_router :: "default_policy \<Rightarrow> router" where
  "new_router policy =
     \<lparr>ro_pending = (\<lambda>_. None), ro_census = [], ro_live = [], ro_policy = policy, ro_gauge = 0,
      ro_verdicts = [], ro_feed = [], ro_timers = [], ro_task = Idle\<rparr>"

definition send_pv :: "u64 \<Rightarrow> verdict \<Rightarrow> router \<Rightarrow> router" where
  "send_pv rid v r = r\<lparr>ro_verdicts := ro_verdicts r @ [\<lparr>pv_prompt_id = rid, pv_verdict = v\<rparr>]\<rparr>"

definition no_ui_verdict :: "router \<Rightarrow> verdict" where
  "no_ui_verdict r = from_policy (pol_no_ui_action (ro_policy r))"

text \<open>Removing an id from \<open>pending\<close> is what decides who answers; the gauge is a wrapping atomic.\<close>

definition take_pending :: "u64 \<Rightarrow> router \<Rightarrow> router" where
  "take_pending rid r = r\<lparr>ro_pending := (ro_pending r)(rid := None), ro_gauge := ro_gauge r - 1\<rparr>"

section \<open>Operations\<close>

definition subscribe :: "u32 \<Rightarrow> bool \<Rightarrow> router \<Rightarrow> router" where
  "subscribe peer_uid answering r =
     r\<lparr>ro_census := (if answering then register peer_uid (ro_census r) else ro_census r),
       ro_live := (if answering then Some peer_uid else None) # ro_live r\<rparr>"

definition drop_subscription :: "u32 option \<Rightarrow> router \<Rightarrow> router" where
  "drop_subscription sub r =
     r\<lparr>ro_census := (case sub of None \<Rightarrow> ro_census r | Some uid \<Rightarrow> unregister uid (ro_census r)),
       ro_live := remove1 sub (ro_live r)\<rparr>"

definition submit :: "string \<Rightarrow> verdict \<Rightarrow> router \<Rightarrow> prompt_binding option \<times> router" where
  "submit prompt_id v r =
     (case parse_u64 prompt_id of
        None \<Rightarrow> (None, r)
      | Some rid \<Rightarrow>
          (case ro_pending r rid of
             None \<Rightarrow> (None, r)
           | Some binding \<Rightarrow> (Some binding, send_pv rid v (take_pending rid r))))"

definition enqueue_check :: "prompt_request \<Rightarrow> prompt_binding \<Rightarrow> router \<Rightarrow> router" where
  "enqueue_check req binding r =
     (if \<not> has_audience (p_uid (q_process req)) (ro_census r)
      then send_pv (q_prompt_id req) (no_ui_verdict r) r
      else r\<lparr>ro_task := Checked req binding (pol_prompt_timeout_secs (ro_policy r))\<rparr>)"

definition prompt_event_for :: "int \<Rightarrow> prompt_request \<Rightarrow> prompt_binding \<Rightarrow> u32 \<Rightarrow> prompt_event" where
  "prompt_event_for now req binding timeout_secs =
     \<lparr>ev_prompt_id = dec_string (unat (q_prompt_id req)),
      ev_connection = q_connection req,
      ev_process = (case b_sha256 binding of
                      None \<Rightarrow> q_process req
                    | Some h \<Rightarrow> (q_process req)\<lparr>p_sha256 := Some h\<rparr>),
      ev_deadline_unix_ms = now + uint timeout_secs * 1000,
      ev_binds_to_hash = b_hash_expected binding,
      ev_undecided_rule = q_undecided req\<rparr>"

text \<open>The rest of \<open>enqueue\<close>: a broadcast fails exactly when no receiver is alive.\<close>

definition enqueue_next :: "int \<Rightarrow> router \<Rightarrow> router" where
  "enqueue_next now r =
     (case ro_task r of
        Idle \<Rightarrow> r
      | Checked req binding timeout \<Rightarrow>
          r\<lparr>ro_pending := (ro_pending r)(q_prompt_id req \<mapsto> binding),
            ro_task := Inserted req binding timeout\<rparr>
      | Inserted req binding timeout \<Rightarrow>
          r\<lparr>ro_gauge := ro_gauge r + 1, ro_task := Counted req binding timeout\<rparr>
      | Counted req binding timeout \<Rightarrow>
          if ro_live r = [] then
            (if ro_pending r (q_prompt_id req) \<noteq> None
             then send_pv (q_prompt_id req) (no_ui_verdict r) (take_pending (q_prompt_id req) r)
             else r)\<lparr>ro_task := Idle\<rparr>
          else
            r\<lparr>ro_feed := ro_feed r @ [prompt_event_for now req binding timeout],
              ro_timers := q_prompt_id req # ro_timers r,
              ro_task := Idle\<rparr>)"

definition fire_timer :: "u64 \<Rightarrow> router \<Rightarrow> router" where
  "fire_timer rid r =
     (let r = r\<lparr>ro_timers := remove1 rid (ro_timers r)\<rparr> in
      if ro_pending r rid \<noteq> None
      then send_pv rid (from_policy (pol_timeout_action (ro_policy r))) (take_pending rid r)
      else r)"

definition compute_binding :: "(string \<Rightarrow> bool) \<Rightarrow> process \<Rightarrow> prompt_binding" where
  "compute_binding sealed proc =
     (if \<not> exe_is_known proc \<or> \<not> is_absolute (p_exe proc) then no_binding
      else if sealed (p_exe proc) then
        \<lparr>b_exe = Some (p_exe proc), b_hash_expected = False, b_sha256 = None\<rparr>
      else
        \<lparr>b_exe = Some (p_exe proc), b_hash_expected = True, b_sha256 = p_sha256 proc\<rparr>)"

section \<open>Runs\<close>

datatype router_event =
    Subscribe u32 bool
  | DropSub "u32 option"
  | Submit string verdict
  | Request prompt_request prompt_binding
  | Advance int
  | Timer u64
  | SetPolicy default_policy

text \<open>Which events can happen: a subscription that lives can be dropped, the router task takes a
  request only between two others, an armed timer can fire.\<close>

fun enabled :: "router_event \<Rightarrow> router \<Rightarrow> bool" where
  "enabled (DropSub sub) r = (sub \<in> set (ro_live r))"
| "enabled (Request req binding) r = (ro_task r = Idle)"
| "enabled (Timer rid) r = (rid \<in> set (ro_timers r))"
| "enabled _ r = True"

fun apply_event :: "router_event \<Rightarrow> router \<Rightarrow> router" where
  "apply_event (Subscribe uid answering) r = subscribe uid answering r"
| "apply_event (DropSub sub) r = drop_subscription sub r"
| "apply_event (Submit prompt_id v) r = snd (submit prompt_id v r)"
| "apply_event (Request req binding) r = enqueue_check req binding r"
| "apply_event (Advance now) r = enqueue_next now r"
| "apply_event (Timer rid) r = fire_timer rid r"
| "apply_event (SetPolicy policy) r = r\<lparr>ro_policy := policy\<rparr>"

inductive router_run :: "default_policy \<Rightarrow> router_event list \<Rightarrow> router \<Rightarrow> bool" for policy where
  run_start: "router_run policy [] (new_router policy)"
| run_event: "router_run policy evs r \<Longrightarrow> enabled e r \<Longrightarrow> router_run policy (evs @ [e]) (apply_event e r)"

inductive_cases router_run_snocE: "router_run policy (evs @ [e]) r"

fun requested_id :: "router_event \<Rightarrow> u64 list" where
  "requested_id (Request req _) = [q_prompt_id req]"
| "requested_id _ = []"

definition requested :: "router_event list \<Rightarrow> u64 list" where
  "requested evs = concat (map requested_id evs)"

lemma requested_snoc [simp]: "requested (evs @ [e]) = requested evs @ requested_id e" "requested [] = []"
  by (simp_all add: requested_def)

section \<open>Every prompt is answered exactly once\<close>

text \<open>How often a prompt was answered, and whether \<open>enqueue\<close> still has to insert it.\<close>

definition answers :: "router \<Rightarrow> u64 \<Rightarrow> nat" where
  "answers r rid = length (filter (\<lambda>v. pv_prompt_id v = rid) (ro_verdicts r))"

fun task_id :: "router_task \<Rightarrow> u64 option" where
  "task_id Idle = None"
| "task_id (Checked req _ _) = Some (q_prompt_id req)"
| "task_id (Inserted req _ _) = Some (q_prompt_id req)"
| "task_id (Counted req _ _) = Some (q_prompt_id req)"

fun to_insert :: "router_task \<Rightarrow> u64 \<Rightarrow> bool" where
  "to_insert (Checked req _ _) rid = (q_prompt_id req = rid)"
| "to_insert _ rid = False"

fun to_broadcast :: "router_task \<Rightarrow> u64 \<Rightarrow> bool" where
  "to_broadcast (Inserted req _ _) rid = (q_prompt_id req = rid)"
| "to_broadcast (Counted req _ _) rid = (q_prompt_id req = rid)"
| "to_broadcast _ rid = False"

definition prompt_total :: "router \<Rightarrow> u64 \<Rightarrow> nat" where
  "prompt_total r rid =
     answers r rid + of_bool (ro_pending r rid \<noteq> None) + of_bool (to_insert (ro_task r) rid)"

definition guarded :: "router \<Rightarrow> bool" where
  "guarded r \<longleftrightarrow> (\<forall>rid. ro_pending r rid \<noteq> None \<longrightarrow>
     rid \<in> set (ro_timers r) \<or> to_broadcast (ro_task r) rid)"

lemma answers_send: "answers (send_pv rid v r) q = answers r q + of_bool (q = rid)"
  by (simp add: answers_def send_pv_def)

lemma answers_task: "answers (r\<lparr>ro_task := t\<rparr>) q = answers r q"
  by (simp add: answers_def)

lemma send_pv_simps [simp]:
  "ro_pending (send_pv rid v r) = ro_pending r" "ro_task (send_pv rid v r) = ro_task r"
  "ro_timers (send_pv rid v r) = ro_timers r" "ro_gauge (send_pv rid v r) = ro_gauge r"
  "ro_census (send_pv rid v r) = ro_census r" "ro_live (send_pv rid v r) = ro_live r"
  "ro_policy (send_pv rid v r) = ro_policy r"
  by (simp_all add: send_pv_def)

lemma take_pending_simps [simp]:
  "ro_pending (take_pending rid r) = (ro_pending r)(rid := None)"
  "ro_task (take_pending rid r) = ro_task r" "ro_timers (take_pending rid r) = ro_timers r"
  "ro_gauge (take_pending rid r) = ro_gauge r - 1" "answers (take_pending rid r) q = answers r q"
  "ro_census (take_pending rid r) = ro_census r" "ro_live (take_pending rid r) = ro_live r"
  "ro_policy (take_pending rid r) = ro_policy r"
  by (simp_all add: take_pending_def answers_def)

text \<open>Whoever removes a pending id sends its verdict: the total does not move.\<close>

lemma total_resolve:
  "ro_pending r rid \<noteq> None \<Longrightarrow> prompt_total (send_pv rid v (take_pending rid r)) q = prompt_total r q"
  by (auto simp: prompt_total_def answers_send)

lemma guarded_resolve: "guarded r \<Longrightarrow> guarded (send_pv rid v (take_pending rid r))"
  by (auto simp: guarded_def)

lemma total_cong:
  "ro_pending r' = ro_pending r \<Longrightarrow> ro_verdicts r' = ro_verdicts r \<Longrightarrow>
   to_insert (ro_task r') rid = to_insert (ro_task r) rid \<Longrightarrow> prompt_total r' rid = prompt_total r rid"
  by (simp add: prompt_total_def answers_def)

lemma guarded_cong:
  "ro_pending r' = ro_pending r \<Longrightarrow> ro_timers r' = ro_timers r \<Longrightarrow>
   (\<And>rid. to_broadcast (ro_task r) rid \<Longrightarrow> to_broadcast (ro_task r') rid) \<Longrightarrow>
   guarded r \<Longrightarrow> guarded r'"
  by (auto simp: guarded_def)

definition counted_once :: "u64 list \<Rightarrow> router \<Rightarrow> bool" where
  "counted_once rids r \<longleftrightarrow> (\<forall>rid. prompt_total r rid = of_bool (rid \<in> set rids))"

lemma submit_keeps:
  "prompt_total (snd (submit s v r)) rid = prompt_total r rid \<and> (guarded r \<longrightarrow> guarded (snd (submit s v r)))"
  by (auto simp: submit_def total_resolve guarded_resolve split: option.split)

lemma timer_keeps:
  "prompt_total (fire_timer rid r) q = prompt_total r q \<and> (guarded r \<longrightarrow> guarded (fire_timer rid r))"
proof -
  let ?r = "r\<lparr>ro_timers := remove1 rid (ro_timers r)\<rparr>"
  have t: "prompt_total ?r q = prompt_total r q" by (rule total_cong) simp_all
  have g: "ro_pending r q \<noteq> None \<Longrightarrow> q \<noteq> rid \<Longrightarrow> q \<in> set (remove1 rid (ro_timers r)) \<or> to_broadcast (ro_task r) q"
    if "guarded r" for q
    using that by (auto simp: guarded_def)
  show ?thesis
  proof (cases "ro_pending r rid")
    case None
    then have "fire_timer rid r = ?r" by (simp add: fire_timer_def)
    moreover have "guarded ?r" if gr: "guarded r"
      unfolding guarded_def
    proof (intro allI impI)
      fix q assume "ro_pending ?r q \<noteq> None"
      with None g [OF gr, of q]
      show "q \<in> set (ro_timers ?r) \<or> to_broadcast (ro_task ?r) q" by (cases "q = rid") simp_all
    qed
    ultimately show ?thesis using t by simp
  next
    case (Some b)
    then have "fire_timer rid r = send_pv rid (from_policy (pol_timeout_action (ro_policy r))) (take_pending rid ?r)"
      by (simp add: fire_timer_def Let_def)
    moreover have "prompt_total (send_pv rid v (take_pending rid ?r)) q = prompt_total ?r q" for v
      using Some by (intro total_resolve) simp
    moreover have "guarded r \<Longrightarrow> guarded (send_pv rid v (take_pending rid ?r))" for v
      using g by (auto simp: guarded_def)
    ultimately show ?thesis using t by simp
  qed
qed

lemma request_counts:
  assumes "ro_task r = Idle" "prompt_total r (q_prompt_id req) = 0"
  shows "prompt_total (enqueue_check req binding r) rid = prompt_total r rid + of_bool (rid = q_prompt_id req)"
    and "guarded r \<Longrightarrow> guarded (enqueue_check req binding r)"
proof -
  show "prompt_total (enqueue_check req binding r) rid = prompt_total r rid + of_bool (rid = q_prompt_id req)"
    using assms(1) by (auto simp: enqueue_check_def prompt_total_def answers_send answers_task)
  show "guarded (enqueue_check req binding r)" if "guarded r"
    using that assms(1) by (auto simp: enqueue_check_def guarded_def)
qed

lemma advance_keeps:
  assumes "\<And>rid. prompt_total r rid \<le> 1" "guarded r"
  shows "prompt_total (enqueue_next now r) rid = prompt_total r rid \<and> guarded (enqueue_next now r)"
proof (cases "ro_task r")
  case Idle
  then show ?thesis using assms(2) by (simp add: enqueue_next_def)
next
  case (Checked req b t)
  let ?q = "q_prompt_id req"
  have none: "ro_pending r ?q = None"
    using assms(1) [of ?q] Checked by (auto simp: prompt_total_def)
  show ?thesis
    using Checked none assms(2) by (auto simp: enqueue_next_def prompt_total_def answers_def guarded_def)
next
  case (Inserted req b t)
  then show ?thesis
    using assms(2) by (auto simp: enqueue_next_def prompt_total_def answers_def guarded_def)
next
  case (Counted req b t)
  let ?q = "q_prompt_id req"
  show ?thesis
  proof (cases "ro_live r = [] \<and> ro_pending r ?q \<noteq> None")
    case True
    let ?r = "send_pv ?q (no_ui_verdict r) (take_pending ?q r)"
    have "enqueue_next now r = ?r\<lparr>ro_task := Idle\<rparr>" using Counted True by (simp add: enqueue_next_def)
    moreover have "prompt_total (?r\<lparr>ro_task := Idle\<rparr>) rid = prompt_total ?r rid"
      using Counted by (intro total_cong) simp_all
    moreover have "guarded (?r\<lparr>ro_task := Idle\<rparr>)" using assms(2) Counted by (auto simp: guarded_def)
    ultimately show ?thesis using True total_resolve by simp
  next
    case False
    then show ?thesis
      using Counted assms(2) by (auto simp: enqueue_next_def prompt_total_def answers_def guarded_def)
  qed
qed

lemma router_run_counts:
  assumes "router_run policy evs r" "distinct (requested evs)"
  shows "counted_once (requested evs) r \<and> guarded r"
  using assms
proof (induction rule: router_run.induct)
  case run_start
  then show ?case
    by (simp add: counted_once_def guarded_def prompt_total_def answers_def new_router_def)
next
  case (run_event evs r e)
  then have "distinct (requested evs)" by simp
  with run_event have c: "prompt_total r rid = of_bool (rid \<in> set (requested evs))" and g: "guarded r" for rid
    by (simp_all add: counted_once_def)
  show ?case
  proof (cases e)
    case (Request req b)
    with run_event.prems have "q_prompt_id req \<notin> set (requested evs)" by simp
    then have z: "prompt_total r (q_prompt_id req) = 0" by (simp add: c)
    have idle: "ro_task r = Idle" using run_event.hyps(2) Request by simp
    show ?thesis
      using request_counts [OF idle z, of b] c g z Request
      by (auto simp: counted_once_def)
  next
    case (Advance now)
    have "prompt_total r rid \<le> 1" for rid by (simp add: c)
    from advance_keeps [OF this g] show ?thesis using Advance c by (simp add: counted_once_def)
  next
    case (Timer rid)
    with timer_keeps [of rid r] c g show ?thesis by (simp add: counted_once_def)
  next
    case (Submit s v)
    with submit_keeps [of s v r] c g show ?thesis by (simp add: counted_once_def)
  next
    case (Subscribe uid a)
    then show ?thesis using c g
      by (auto simp: counted_once_def subscribe_def prompt_total_def answers_def guarded_def)
  next
    case (DropSub sub)
    then show ?thesis using c g
      by (auto simp: counted_once_def drop_subscription_def prompt_total_def answers_def guarded_def)
  next
    case (SetPolicy p)
    then show ?thesis using c g
      by (auto simp: counted_once_def prompt_total_def answers_def guarded_def)
  qed
qed

text \<open>C29: exactly one answer per prompt.  Whatever the interleaving of the router task, clients,
  timers and reloads, a prompt whose id was used once is answered at most once, never without
  having been asked, and as long as it is unanswered it is either still inside \<open>enqueue\<close> or
  pending with its timer armed, so that the timer answers it with the timeout action.\<close>

theorem prompts_answered_exactly_once:
  assumes "router_run policy evs r" "distinct (requested evs)"
  shows "answers r rid \<le> 1 \<and> (answers r rid = 1 \<longrightarrow> rid \<in> set (requested evs)) \<and>
    (rid \<in> set (requested evs) \<and> answers r rid = 0 \<longrightarrow>
       task_id (ro_task r) = Some rid \<or>
       enabled (Timer rid) r \<and> answers (apply_event (Timer rid) r) rid = 1 \<and>
       last (ro_verdicts (apply_event (Timer rid) r)) =
         \<lparr>pv_prompt_id = rid, pv_verdict = from_policy (pol_timeout_action (ro_policy r))\<rparr>)"
proof -
  have c: "prompt_total r rid = of_bool (rid \<in> set (requested evs))" and g: "guarded r"
    using router_run_counts [OF assms] by (simp_all add: counted_once_def)
  have "task_id (ro_task r) = Some rid \<or>
       enabled (Timer rid) r \<and> answers (apply_event (Timer rid) r) rid = 1 \<and>
       last (ro_verdicts (apply_event (Timer rid) r)) =
         \<lparr>pv_prompt_id = rid, pv_verdict = from_policy (pol_timeout_action (ro_policy r))\<rparr>"
    if open_id: "rid \<in> set (requested evs)" "answers r rid = 0"
  proof (cases "task_id (ro_task r) = Some rid")
    case False
    then have "\<not> to_insert (ro_task r) rid" "\<not> to_broadcast (ro_task r) rid"
      by (cases "ro_task r"; simp)+
    have p: "ro_pending r rid \<noteq> None"
    proof
      assume "ro_pending r rid = None"
      with \<open>\<not> to_insert (ro_task r) rid\<close> open_id c show False by (simp add: prompt_total_def)
    qed
    with g \<open>\<not> to_broadcast (ro_task r) rid\<close> have "rid \<in> set (ro_timers r)" by (auto simp: guarded_def)
    moreover have "answers (fire_timer rid r) rid = Suc (answers r rid) \<and>
        last (ro_verdicts (fire_timer rid r)) =
         \<lparr>pv_prompt_id = rid, pv_verdict = from_policy (pol_timeout_action (ro_policy r))\<rparr>"
      using p by (auto simp: fire_timer_def Let_def answers_def send_pv_def take_pending_def)
    ultimately show ?thesis using open_id by simp
  qed simp
  moreover have "answers r rid \<le> of_bool (rid \<in> set (requested evs))"
    using c unfolding prompt_total_def by linarith
  ultimately show ?thesis by (cases "rid \<in> set (requested evs)") auto
qed

text \<open>A root client answers the one prompt of this run.\<close>

definition example_request :: prompt_request where
  "example_request =
     \<lparr>q_prompt_id = 7,
      q_connection = new_connection (Uuid 1, DateTime 0) Tcp Outbound (V4 1) 4000 (V4 2) 443,
      q_process = unknown_process 42, q_undecided = None\<rparr>"

definition example_events :: "router_event list" where
  "example_events =
     [Subscribe 0 True, Request example_request no_binding, Advance 0, Advance 0, Advance 0,
      Submit ''7'' default_allow]"

lemma router_run_all:
  "router_run policy evs r \<Longrightarrow>
   (\<And>n. n < length es \<Longrightarrow> enabled (es ! n) (fold apply_event (take n es) r)) \<Longrightarrow>
   router_run policy (evs @ es) (fold apply_event es r)"
proof (induction es arbitrary: evs r)
  case (Cons e es)
  have "enabled e r" using Cons.prems(2) [of 0] by simp
  then have "router_run policy (evs @ [e]) (apply_event e r)" by (rule run_event [OF Cons.prems(1)])
  moreover have "enabled (es ! n) (fold apply_event (take n es) (apply_event e r))" if "n < length es" for n
    using Cons.prems(2) [of "Suc n"] that by simp
  ultimately have "router_run policy ((evs @ [e]) @ es) (fold apply_event es (apply_event e r))"
    by (rule Cons.IH)
  then show ?case by simp
qed simp

lemma example_run:
  "router_run (profile_policy Balanced) example_events
     (fold apply_event example_events (new_router (profile_policy Balanced)))"
proof -
  have "enabled (example_events ! n) (fold apply_event (take n example_events) (new_router (profile_policy Balanced)))"
    if "n < length example_events" for n
    using that
    by (auto simp: example_events_def less_Suc_eq subscribe_def new_router_def)
  from router_run_all [OF run_start this] show ?thesis by simp
qed

theorem prompts_answered_exactly_once_witness:
  "\<exists>r. router_run (profile_policy Balanced) example_events r \<and> answers r 7 = 1 \<and>
     ro_verdicts r = [\<lparr>pv_prompt_id = 7, pv_verdict = default_allow\<rparr>] \<and> answers r 8 \<le> 1"
proof -
  let ?r = "fold apply_event example_events (new_router (profile_policy Balanced))"
  have p: "parse_u64 ''7'' = Some 7" by (simp add: parse_u64_def digit_value_def)
  have v: "ro_verdicts ?r = [\<lparr>pv_prompt_id = 7, pv_verdict = default_allow\<rparr>]"
    by (simp add: example_events_def example_request_def subscribe_def new_router_def register_def
        enqueue_check_def has_audience_def should_deliver_def enqueue_next_def submit_def p
        send_pv_def take_pending_def)
  have d: "distinct (requested example_events)" by (simp add: example_events_def requested_def)
  from prompts_answered_exactly_once [OF example_run d, of 8] v example_run show ?thesis
    by (intro exI [of _ ?r]) (simp add: answers_def)
qed

section \<open>The gauge\<close>

definition gauge_ok :: "router \<Rightarrow> bool" where
  "gauge_ok r \<longleftrightarrow> finite (dom (ro_pending r)) \<and>
     ro_gauge r + (case ro_task r of Inserted _ _ _ \<Rightarrow> 1 | _ \<Rightarrow> 0) = of_nat (card (dom (ro_pending r)))"

lemma gauge_resolve:
  assumes "gauge_ok r" "ro_pending r rid \<noteq> None"
  shows "gauge_ok (send_pv rid v (take_pending rid r))"
proof -
  have fin: "finite (dom (ro_pending r))" using assms(1) by (simp add: gauge_ok_def)
  have "card (dom (ro_pending r)) = Suc (card (dom (ro_pending r) - {rid}))"
    using assms(2) fin by (intro card.remove) (auto simp: dom_def)
  then show ?thesis
    using assms(1) by (simp add: gauge_ok_def algebra_simps split: router_task.splits)
qed

lemma gauge_event:
  assumes "gauge_ok r" "\<And>rid. prompt_total r rid \<le> 1" "enabled e r"
  shows "gauge_ok (apply_event e r)"
proof (cases e)
  case (Advance now)
  show ?thesis
  proof (cases "ro_task r")
    case (Checked req b t)
    have "ro_pending r (q_prompt_id req) = None"
      using assms(2) [of "q_prompt_id req"] Checked by (auto simp: prompt_total_def)
    then have "q_prompt_id req \<notin> dom (ro_pending r)" by (simp add: domIff)
    then show ?thesis using assms(1) Checked Advance by (simp add: gauge_ok_def enqueue_next_def)
  next
    case (Counted req b t)
    have g: "gauge_ok (r'\<lparr>ro_task := Idle\<rparr>)" if "gauge_ok r'" "ro_task r' = ro_task r" for r'
      using that Counted by (simp add: gauge_ok_def)
    have "ro_pending r (q_prompt_id req) \<noteq> None \<Longrightarrow>
        gauge_ok ((send_pv (q_prompt_id req) (no_ui_verdict r) (take_pending (q_prompt_id req) r))\<lparr>ro_task := Idle\<rparr>)"
      using gauge_resolve [OF assms(1)] by (intro g) simp_all
    then show ?thesis
      using g [OF assms(1)] assms(1) Counted Advance by (simp add: enqueue_next_def gauge_ok_def)
  qed (use assms(1) Advance in \<open>simp_all add: gauge_ok_def enqueue_next_def\<close>)
next
  case (Timer rid)
  let ?r = "r\<lparr>ro_timers := remove1 rid (ro_timers r)\<rparr>"
  have "gauge_ok ?r" using assms(1) by (simp add: gauge_ok_def)
  then show ?thesis using Timer gauge_resolve [of ?r rid] by (simp add: fire_timer_def Let_def)
next
  case (Submit s v)
  then show ?thesis using assms(1) gauge_resolve [OF assms(1)]
    by (auto simp: submit_def split: option.split)
next
  case (Request req b)
  then show ?thesis using assms by (auto simp: enqueue_check_def gauge_ok_def)
qed (use assms(1) in \<open>simp_all add: gauge_ok_def subscribe_def drop_subscription_def\<close>)

text \<open>The pending-prompts gauge does not drift: with fresh ids, whenever the router task is
  between requests it equals the number of prompts waiting for an answer.\<close>

theorem prompt_gauge_exact:
  assumes "router_run policy evs r" "distinct (requested evs)" "ro_task r = Idle"
  shows "ro_gauge r = of_nat (card (dom (ro_pending r)))"
proof -
  from assms(1,2) have "gauge_ok r"
  proof (induction rule: router_run.induct)
    case run_start
    then show ?case by (simp add: gauge_ok_def new_router_def)
  next
    case (run_event evs r e)
    then have d: "distinct (requested evs)" by simp
    have "prompt_total r rid \<le> 1" for rid
      using router_run_counts [OF run_event.hyps(1) d] by (simp add: counted_once_def)
    with run_event d show ?case by (intro gauge_event) simp_all
  qed
  with assms(3) show ?thesis by (simp add: gauge_ok_def)
qed

theorem prompt_gauge_exact_witness:
  "\<exists>r. router_run (profile_policy Balanced) example_events r \<and> ro_gauge r = 0"
proof -
  let ?r = "fold apply_event example_events (new_router (profile_policy Balanced))"
  have p: "parse_u64 ''7'' = Some 7" by (simp add: parse_u64_def digit_value_def)
  have idle: "ro_task ?r = Idle" and empty: "ro_pending ?r = (\<lambda>_. None)"
    by (auto simp: example_events_def example_request_def subscribe_def new_router_def register_def
        enqueue_check_def has_audience_def should_deliver_def enqueue_next_def submit_def p
        send_pv_def take_pending_def)
  have d: "distinct (requested example_events)" by (simp add: example_events_def requested_def)
  from prompt_gauge_exact [OF example_run d idle] empty example_run show ?thesis
    by (intro exI [of _ ?r]) simp
qed

section \<open>The census is the set of live answering clients\<close>

definition census_count :: "census \<Rightarrow> u32 \<Rightarrow> nat" where
  "census_count subs uid = (case map_of subs uid of None \<Rightarrow> 0 | Some n \<Rightarrow> n)"

definition census_ok :: "census \<Rightarrow> bool" where
  "census_ok subs \<longleftrightarrow> distinct (map fst subs) \<and> (\<forall>uid. map_of subs uid \<noteq> Some 0)"

lemma map_of_register:
  "map_of (register uid subs) = (map_of subs)(uid \<mapsto> census_count subs uid + 1)"
  by (simp add: register_def census_count_def update_conv')

lemma map_of_unregister:
  "map_of (unregister uid subs) =
     (case map_of subs uid of None \<Rightarrow> map_of subs
      | Some n \<Rightarrow> (map_of subs)(uid := if n - 1 = 0 then None else Some (n - 1)))"
  by (simp add: unregister_def update_conv' delete_conv' split: option.split)

lemma register_census:
  assumes "census_ok subs"
  shows "census_ok (register uid subs)"
    "census_count (register uid subs) u = census_count subs u + of_bool (u = uid)"
proof -
  have "distinct (map fst (register uid subs))"
    using assms by (simp add: census_ok_def register_def distinct_update)
  moreover have "map_of (register uid subs) v \<noteq> Some 0" for v
    using assms by (simp add: map_of_register census_ok_def)
  ultimately show "census_ok (register uid subs)" by (simp only: census_ok_def) blast
  show "census_count (register uid subs) u = census_count subs u + of_bool (u = uid)"
    by (simp add: census_count_def [of "register uid subs"] map_of_register) (simp add: census_count_def)
qed

lemma unregister_census:
  assumes "census_ok subs"
  shows "census_ok (unregister uid subs)"
    "census_count (unregister uid subs) u = census_count subs u - of_bool (u = uid)"
proof -
  have "distinct (map fst (unregister uid subs))"
    using assms by (simp add: census_ok_def unregister_def distinct_update distinct_delete split: option.split)
  moreover have "map_of (unregister uid subs) v \<noteq> Some 0" for v
  proof -
    have "map_of subs v \<noteq> Some 0" using assms by (simp only: census_ok_def) blast
    then show ?thesis unfolding map_of_unregister by (auto split: option.splits)
  qed
  ultimately show "census_ok (unregister uid subs)" by (simp only: census_ok_def) blast
  show "census_count (unregister uid subs) u = census_count subs u - of_bool (u = uid)"
    by (auto simp: census_count_def map_of_unregister split: option.splits)
qed

lemma census_audience:
  "census_ok subs \<Longrightarrow> has_audience p subs \<longleftrightarrow> (\<exists>uid. 0 < census_count subs uid \<and> should_deliver p uid)"
proof -
  assume ok: "census_ok subs"
  have "uid \<in> fst ` set subs \<longleftrightarrow> 0 < census_count subs uid" for uid
  proof (cases "map_of subs uid")
    case None
    moreover from None have "uid \<notin> fst ` set subs" by (simp only: map_of_eq_None_iff) simp
    ultimately show ?thesis by (simp add: census_count_def)
  next
    case (Some n)
    moreover from Some have "uid \<in> fst ` set subs" by (auto dest: map_of_SomeD intro: rev_image_eqI)
    moreover have "n \<noteq> 0"
    proof
      assume "n = 0"
      with Some have "map_of subs uid = Some 0" by simp
      with ok show False by (simp only: census_ok_def)
    qed
    ultimately show ?thesis by (simp add: census_count_def)
  qed
  moreover have "has_audience p subs \<longleftrightarrow> (\<exists>uid \<in> fst ` set subs. should_deliver p uid)"
    by (auto simp: has_audience_def list_ex_iff)
  ultimately show ?thesis by (simp only: Bex_def)
qed

lemma router_run_census:
  "router_run policy evs r \<Longrightarrow>
   census_ok (ro_census r) \<and> (\<forall>uid. census_count (ro_census r) uid = count (mset (ro_live r)) (Some uid))"
proof (induction rule: router_run.induct)
  case run_start
  then show ?case by (simp add: new_router_def census_ok_def census_count_def)
next
  case (run_event evs r e)
  show ?case
  proof (cases e)
    case (Subscribe uid a)
    with run_event.IH show ?thesis by (simp add: subscribe_def register_census)
  next
    case (DropSub sub)
    with run_event.IH show ?thesis
      by (auto simp: drop_subscription_def unregister_census split: option.split)
  next
    case (Submit s v)
    with run_event.IH show ?thesis by (simp add: submit_def split: option.split)
  next
    case (Request req b)
    with run_event.IH show ?thesis by (simp add: enqueue_check_def)
  next
    case (Advance now)
    with run_event.IH show ?thesis by (simp add: enqueue_next_def split: router_task.split)
  next
    case (Timer rid)
    with run_event.IH show ?thesis by (simp add: fire_timer_def Let_def)
  next
    case (SetPolicy p)
    with run_event.IH show ?thesis by simp
  qed
qed

text \<open>The router asks exactly when somebody can answer: the census finds an audience for a
  prompt if and only if a live answering subscription belongs to root or to the owner of the
  process (anyone, when the owner is unknown).  Read-only watchers never hold a prompt.\<close>

theorem audience_is_live_subscribers:
  assumes "router_run policy evs r"
  shows "has_audience process_uid (ro_census r) \<longleftrightarrow>
    (\<exists>uid. Some uid \<in> set (ro_live r) \<and>
       (uid = 0 \<or> process_uid = None \<or> process_uid = Some uid))"
proof -
  from router_run_census [OF assms] have ok: "census_ok (ro_census r)"
    and c: "census_count (ro_census r) uid = count (mset (ro_live r)) (Some uid)" for uid by simp_all
  have "should_deliver process_uid uid \<longleftrightarrow> uid = 0 \<or> process_uid = None \<or> process_uid = Some uid" for uid
    by (auto simp: should_deliver_def split: option.splits)
  then show ?thesis by (simp add: census_audience [OF ok] c count_greater_zero_iff)
qed

theorem audience_is_live_subscribers_witness:
  "\<exists>r. router_run (profile_policy Balanced) [Subscribe 1000 True, Subscribe 1001 False] r \<and>
     has_audience (Some 1000) (ro_census r) \<and> \<not> has_audience (Some 1001) (ro_census r)"
proof -
  let ?es = "[Subscribe 1000 True, Subscribe 1001 False]"
  let ?r = "fold apply_event ?es (new_router (profile_policy Balanced))"
  have "enabled (?es ! n) (fold apply_event (take n ?es) (new_router (profile_policy Balanced)))"
    if "n < length ?es" for n
    using that by (auto simp: less_Suc_eq)
  from router_run_all [OF run_start this] have run: "router_run (profile_policy Balanced) ?es ?r" by simp
  have live: "ro_live ?r = [None, Some 1000]" by (simp add: subscribe_def new_router_def)
  from audience_is_live_subscribers [OF run, of "Some 1000"]
    audience_is_live_subscribers [OF run, of "Some 1001"] live run show ?thesis
    by (intro exI [of _ ?r]) simp
qed

section \<open>The id a client sees is the id it answers\<close>

text \<open>Answering the id shown on the feed answers that prompt: the pending prompt's binding
  comes back, its verdict is sent verbatim, and a second answer finds nothing and sends
  nothing.\<close>

theorem submit_answers_the_shown_prompt:
  assumes "ro_pending r (q_prompt_id req) = Some binding"
    "submit (ev_prompt_id (prompt_event_for now req b t)) v r = (answer, r')"
  shows "answer = Some binding \<and>
    ro_verdicts r' = ro_verdicts r @ [\<lparr>pv_prompt_id = q_prompt_id req, pv_verdict = v\<rparr>] \<and>
    submit (ev_prompt_id (prompt_event_for now req b t)) v' r' = (None, r')"
proof -
  have p: "parse_u64 (ev_prompt_id (prompt_event_for now req b t)) = Some (q_prompt_id req)"
    by (simp add: prompt_event_for_def parse_u64_dec_string)
  from assms have r': "answer = Some binding" "r' = send_pv (q_prompt_id req) v (take_pending (q_prompt_id req) r)"
    by (auto simp: submit_def p)
  then show ?thesis by (simp add: submit_def p) (simp add: send_pv_def take_pending_def)
qed

theorem submit_answers_the_shown_prompt_witness:
  "\<exists>r r'. submit (ev_prompt_id (prompt_event_for 0 example_request no_binding 30)) default_allow r =
     (Some no_binding, r') \<and> length (ro_verdicts r') = 1"
proof -
  let ?r = "(new_router (profile_policy Balanced))\<lparr>ro_pending := (\<lambda>_. None)(7 \<mapsto> no_binding)\<rparr>"
  obtain answer r' where s: "submit (ev_prompt_id (prompt_event_for 0 example_request no_binding 30)) default_allow ?r = (answer, r')"
    by fastforce
  have "ro_pending ?r (q_prompt_id example_request) = Some no_binding" by (simp add: example_request_def)
  from submit_answers_the_shown_prompt [OF this s] s show ?thesis
    by (intro exI [of _ ?r] exI [of _ r']) (simp add: new_router_def)
qed

end
