(* ===== verification/Stats.thy ===== *)
theory Stats
  imports CoreTypes
begin

text \<open>
  \<open>crates/cfc-daemon/src/stats.rs\<close>: the runtime counters.  Every field is an atomic; an
  operation on one is a step here.  The start instant and \<open>uptime_seconds\<close> are not modelled.
\<close>

datatype table_presence = TableUnknown | TablePresent | TableAbsent

fun presence_as_u8 :: "table_presence \<Rightarrow> u8" where
  "presence_as_u8 TableUnknown = 0"
| "presence_as_u8 TablePresent = 1"
| "presence_as_u8 TableAbsent = 2"

definition presence_from_u8 :: "u8 \<Rightarrow> table_presence" where
  "presence_from_u8 v = (if v = 1 then TablePresent else if v = 2 then TableAbsent else TableUnknown)"

record stats =
  st_total :: u64
  st_allowed :: u64
  st_denied :: u64
  st_prompts_pending :: u64
  st_paused :: bool
  st_pause_generation :: u64
  st_nft_table :: u8

definition new_stats :: stats where
  "new_stats =
     \<lparr>st_total = 0, st_allowed = 0, st_denied = 0, st_prompts_pending = 0, st_paused = False,
      st_pause_generation = 0, st_nft_table = presence_as_u8 TableUnknown\<rparr>"

definition record_allow :: "stats \<Rightarrow> stats" where
  "record_allow s = s\<lparr>st_total := st_total s + 1, st_allowed := st_allowed s + 1\<rparr>"

definition record_deny :: "stats \<Rightarrow> stats" where
  "record_deny s = s\<lparr>st_total := st_total s + 1, st_denied := st_denied s + 1\<rparr>"

definition prompts_inc :: "stats \<Rightarrow> stats" where
  "prompts_inc s = s\<lparr>st_prompts_pending := st_prompts_pending s + 1\<rparr>"

definition prompts_dec :: "stats \<Rightarrow> stats" where
  "prompts_dec s = s\<lparr>st_prompts_pending := st_prompts_pending s - 1\<rparr>"

definition set_nft_table :: "table_presence \<Rightarrow> stats \<Rightarrow> stats" where
  "set_nft_table presence s = s\<lparr>st_nft_table := presence_as_u8 presence\<rparr>"

definition nft_table :: "stats \<Rightarrow> table_presence" where
  "nft_table s = presence_from_u8 (st_nft_table s)"

definition is_paused :: "stats \<Rightarrow> bool" where
  "is_paused s = st_paused s"

definition set_paused :: "bool \<Rightarrow> stats \<Rightarrow> u64 \<times> stats" where
  "set_paused paused s =
     (let s = s\<lparr>st_paused := paused, st_pause_generation := st_pause_generation s + 1\<rparr> in
      (st_pause_generation s, s))"

lemma nft_table_set [simp]: "nft_table (set_nft_table p s) = p"
  by (cases p) (simp_all add: nft_table_def set_nft_table_def presence_from_u8_def)

end
