(* ===== verification/Worker.thy ===== *)
theory Worker
  imports Engine Refusal Prompts Stats
begin

text \<open>
  \<open>crates/cfc-daemon/src/nfqueue/mod.rs\<close>: the packet worker.  \<open>handle_packet\<close> is the per-packet
  pipeline; the \<open>worker\<close> record is the state of \<open>Worker\<close>, with its outputs (kernel verdicts,
  prompt requests, event rows, feed, reverse-DNS requests) as lists, oldest first.  The seams
  of the source (\<open>ProcessResolver\<close>, \<open>HostCache\<close>, the kernel queue, the channels, the clock and
  fresh uuids) enter through one record \<open>env\<close>, given anew to every operation.  An operation
  fails, as in the source, only when the kernel refuses a verdict.
\<close>

section \<open>Messages and the environment\<close>

datatype nfq_verdict = Accept | Drop

record message =
  m_packet_id :: u32
  m_payload :: bytes
  m_uid :: "u32 option"
  m_gid :: "u32 option"
  m_hook :: u8
  m_outdev :: u32

definition NF_INET_LOCAL_IN :: u8 where "NF_INET_LOCAL_IN = 1"
definition NF_INET_LOCAL_OUT :: u8 where "NF_INET_LOCAL_OUT = 3"
definition MAX_PARKED_PROMPTS :: nat where "MAX_PARKED_PROMPTS = 512"
definition MAX_PACKETS_PER_PROMPT :: nat where "MAX_PACKETS_PER_PROMPT = 4"
definition MAX_CONSECUTIVE_RECV_ERRORS :: nat where "MAX_CONSECUTIVE_RECV_ERRORS = 100"

definition direction_for_hook :: "u8 \<Rightarrow> direction" where
  "direction_for_hook hook =
     (if hook = NF_INET_LOCAL_OUT then Outbound
      else if hook = NF_INET_LOCAL_IN then Inbound
      else Inbound)"

text \<open>\<open>env_owner\<close> stands for \<open>ProcessResolver\<close>: the pid that owns a socket and the process it
  resolves to.  \<open>env_accepts\<close> is the result of the bounded prompt channel's \<open>try_send\<close>,
  \<open>env_kernel_ok\<close> whether the kernel takes verdicts, \<open>env_seed\<close> a fresh session seed.\<close>

record 'b env =
  env_crates :: ext
  env_now :: int
  env_stamp :: "uuid \<times> datetime"
  env_fresh :: uuid
  env_seed :: u64
  env_sealed :: "string \<Rightarrow> bool"
  env_owner :: "connection \<Rightarrow> u32 option \<Rightarrow> (u32 \<times> process) option"
  env_is_self :: "u32 \<Rightarrow> bool"
  env_cached_host :: "ip_addr \<Rightarrow> (string \<times> bool) option"
  env_send_raw :: "nat \<Rightarrow> ip_addr \<Rightarrow> bytes \<Rightarrow> bool"
  env_take_token :: "'b \<Rightarrow> bool \<times> 'b"
  env_accepts :: bool
  env_kernel_ok :: bool

section \<open>The per-packet pipeline\<close>

record packet_meta =
  pm_uid :: "u32 option"
  pm_gid :: "u32 option"
  pm_direction :: direction
  pm_loopback :: bool

datatype packet_outcome =
    Silent nfq_verdict
  | Deliver connection process verdict
  | Prompt connection process verdict "uuid option"

fun nfq_verdict_for :: "action \<Rightarrow> nfq_verdict" where
  "nfq_verdict_for Allow = Accept"
| "nfq_verdict_for Deny = Drop"
| "nfq_verdict_for Reject = Drop"

fun record_action :: "action \<Rightarrow> stats \<Rightarrow> stats" where
  "record_action Allow s = record_allow s"
| "record_action Deny s = record_deny s"
| "record_action Reject s = record_deny s"

definition or_else :: "'a option \<Rightarrow> 'a option \<Rightarrow> 'a option" where
  "or_else x y = (case x of None \<Rightarrow> y | Some v \<Rightarrow> Some v)"

text \<open>The process and connection of a parsed packet: kernel-reported ids override the lookup.\<close>

definition attribute_process :: "packet_meta \<Rightarrow> (u32 \<times> process) option \<Rightarrow> process" where
  "attribute_process meta owner =
     (let proc = (case owner of Some (pid, p) \<Rightarrow> p | None \<Rightarrow> unknown_process 0) in
      proc\<lparr>p_uid := or_else (pm_uid meta) (p_uid proc), p_gid := or_else (pm_gid meta) (p_gid proc)\<rparr>)"

definition attribute_connection ::
  "'b env \<Rightarrow> (u32 \<times> process) option \<Rightarrow> process \<Rightarrow> connection \<Rightarrow> connection" where
  "attribute_connection ev owner proc conn =
     (let conn = (case owner of
                    Some (pid, _) \<Rightarrow> with_process conn pid (p_uid proc)
                  | None \<Rightarrow> conn\<lparr>c_uid := p_uid proc\<rparr>) in
      case env_cached_host ev (c_dst_ip conn) of
        Some (host, verified) \<Rightarrow> with_host_verified conn host verified
      | None \<Rightarrow> conn)"

text \<open>What the pipeline does with the engine's decision.\<close>

definition outcome_of ::
  "packet_meta \<Rightarrow> engine \<Rightarrow> stats \<Rightarrow> connection \<Rightarrow> process \<Rightarrow> decision \<Rightarrow> packet_outcome" where
  "outcome_of meta eng st conn proc d =
     (case d of
        Resolved v \<Rightarrow> Deliver conn proc v
      | NeedsPrompt fallback undecided \<Rightarrow>
          if c_direction conn = Inbound then Deliver conn proc (from_policy (inbound_default eng))
          else if pm_loopback meta \<and> undecided = None then Deliver conn proc default_allow
          else if is_paused st \<and> undecided = None then Deliver conn proc default_allow
          else Prompt conn proc fallback undecided)"

definition handle_packet ::
  "'b env \<Rightarrow> bytes \<Rightarrow> packet_meta \<Rightarrow> engine \<Rightarrow> stats \<Rightarrow> (packet_outcome \<times> engine) run" where
  "handle_packet ev payload meta eng st =
     bind_run (parse (env_stamp ev) payload (pm_direction meta)) (\<lambda>parsed.
       case parsed of
         Inl err \<Rightarrow>
           let action = (if pm_direction meta = Inbound then inbound_default eng
                         else v_action (fallback_verdict eng)) in
           Ret (Silent (nfq_verdict_for action), eng)
       | Inr conn \<Rightarrow>
           let owner = (if c_direction conn = Inbound then None
                        else env_owner ev conn (pm_uid meta)) in
           if (case owner of Some (pid, _) \<Rightarrow> env_is_self ev pid \<and> pm_uid meta = Some 0 | None \<Rightarrow> False)
           then Ret (Silent Accept, eng)
           else
             let proc = attribute_process meta owner;
                 conn = attribute_connection ev owner proc conn;
                 (d, eng') = evaluate (env_crates ev) (env_now ev) eng conn proc in
             Ret (outcome_of meta eng' st conn proc d, eng'))"

section \<open>Worker state\<close>

datatype flow_origin = FlowExe "path_component list" "string option" | Unattributed uuid

record flow_key =
  fk_origin :: flow_origin
  fk_uid :: "u32 option"
  fk_dst_ip :: ip_addr
  fk_dst_port :: u16
  fk_protocol :: protocol

text \<open>\<open>PathBuf\<close> keys compare by components.\<close>

definition flow_key_for :: "'b env \<Rightarrow> connection \<Rightarrow> process \<Rightarrow> flow_key" where
  "flow_key_for ev conn proc =
     \<lparr>fk_origin =
        (case (p_sha256 proc, exe_is_known proc, p_uid proc) of
           (Some sha256, True, Some _) \<Rightarrow> FlowExe (path_components (p_exe proc)) (Some sha256)
         | (None, True, Some _) \<Rightarrow>
             if env_sealed ev (p_exe proc) then FlowExe (path_components (p_exe proc)) None
             else Unattributed (env_fresh ev)
         | _ \<Rightarrow> Unattributed (env_fresh ev)),
      fk_uid = p_uid proc, fk_dst_ip = c_dst_ip conn, fk_dst_port = c_dst_port conn,
      fk_protocol = c_protocol conn\<rparr>"

record parked_packet =
  pp_message :: message
  pp_connection :: connection
  pp_process :: process

record pending_prompt =
  pend_flow :: flow_key
  pend_packets :: "parked_packet list"
  pend_fallback :: verdict

record observed =
  obs_connection :: connection
  obs_process :: process
  obs_verdict :: verdict
  obs_undecided :: "uuid option"

definition obs_rule_id :: "observed \<Rightarrow> uuid option" where
  "obs_rule_id obs =
     (case v_source (obs_verdict obs) of FromRule rid \<Rightarrow> Some rid | _ \<Rightarrow> obs_undecided obs)"

record 'b worker =
  w_loopback_ifindex :: u32
  w_engine :: engine
  w_rejecter :: "'b rejecter"
  w_stats :: stats
  w_waiters :: "(u64 \<times> pending_prompt) list"
  w_pending_flows :: "flow_key \<Rightarrow> u64 option"
  w_next_prompt_id :: u64
  w_channel_open :: bool
  w_sent :: "(message \<times> nfq_verdict) list"
  w_requests :: "prompt_request list"
  w_events :: "observed list"
  w_feed :: "observed list"
  w_lookups :: "ip_addr list"

datatype worker_error = VerdictRefused | RecvFailed | WorkerPanic

type_synonym 'b worker_result = "worker_error + 'b worker"

section \<open>Operations\<close>

text \<open>Random bits without the top one.\<close>

definition prompt_session_seed :: "u64 \<Rightarrow> u64" where
  "prompt_session_seed r = r AND drop_bit 1 (- 1)"

text \<open>\<open>spawn\<close> refuses to start with kernel fail-open or without a loopback interface.\<close>

datatype spawn_error = FailOpenRefused | NoLoopback | QueueUnavailable

definition spawn_worker ::
  "bool \<Rightarrow> u32 \<Rightarrow> bool \<Rightarrow> engine \<Rightarrow> 'b rejecter \<Rightarrow> stats \<Rightarrow> u64 \<Rightarrow> spawn_error + 'b worker" where
  "spawn_worker fail_open loopback_ifindex queue_bound eng rejecter st r =
     (if fail_open then Inl FailOpenRefused
      else if loopback_ifindex = 0 then Inl NoLoopback
      else if \<not> queue_bound then Inl QueueUnavailable
      else Inr \<lparr>w_loopback_ifindex = loopback_ifindex, w_engine = eng, w_rejecter = rejecter,
                w_stats = st, w_waiters = [], w_pending_flows = Map.empty,
                w_next_prompt_id = prompt_session_seed r, w_channel_open = True,
                w_sent = [], w_requests = [], w_events = [], w_feed = [], w_lookups = []\<rparr>)"

definition send_verdict :: "'b env \<Rightarrow> message \<Rightarrow> nfq_verdict \<Rightarrow> 'b worker \<Rightarrow> 'b worker_result" where
  "send_verdict ev msg v w =
     (if env_kernel_ok ev then Inr (w\<lparr>w_sent := w_sent w @ [(msg, v)]\<rparr>) else Inl VerdictRefused)"

definition inject_refusal :: "'b env \<Rightarrow> message \<Rightarrow> 'b worker \<Rightarrow> 'b worker_result" where
  "inject_refusal ev msg w =
     (case parse (env_stamp ev) (m_payload msg) (direction_for_hook (m_hook msg)) of
        Panic \<Rightarrow> Inl WorkerPanic
      | Ret (Inl err) \<Rightarrow> Inr w
      | Ret (Inr conn) \<Rightarrow>
          (case reject_flow (env_send_raw ev) (env_take_token ev) (w_rejecter w) conn (m_payload msg) of
             Panic \<Rightarrow> Inl WorkerPanic
           | Ret (out, pkt, rj) \<Rightarrow> Inr (w\<lparr>w_rejecter := rj\<rparr>)))"

definition apply_action :: "'b env \<Rightarrow> message \<Rightarrow> action \<Rightarrow> 'b worker \<Rightarrow> 'b worker_result" where
  "apply_action ev msg action w =
     bind_result (if action = Reject then inject_refusal ev msg w else Inr w)
       (send_verdict ev msg (nfq_verdict_for action))"

definition deliver :: "'b env \<Rightarrow> message \<Rightarrow> observed \<Rightarrow> 'b worker \<Rightarrow> 'b worker_result" where
  "deliver ev msg obs w =
     bind_result (apply_action ev msg (v_action (obs_verdict obs)) w) (\<lambda>w.
       let w = (if v_action (obs_verdict obs) = Allow
                then w\<lparr>w_lookups := w_lookups w @ [c_dst_ip (obs_connection obs)]\<rparr>
                else w\<lparr>w_events := w_events w @ [obs]\<rparr>) in
       Inr (w\<lparr>w_stats := record_action (v_action (obs_verdict obs)) (w_stats w),
              w_feed := w_feed w @ [obs]\<rparr>))"

definition deliver_fallback ::
  "'b env \<Rightarrow> message \<Rightarrow> connection \<Rightarrow> process \<Rightarrow> verdict \<Rightarrow> uuid option \<Rightarrow> 'b worker \<Rightarrow> 'b worker_result" where
  "deliver_fallback ev msg conn proc fallback undecided w =
     deliver ev msg \<lparr>obs_connection = conn, obs_process = proc, obs_verdict = fallback,
                     obs_undecided = undecided\<rparr> w"

text \<open>The verdict a parked packet gets when its prompt resolves with \<open>pv\<close>.\<close>

definition released_verdict :: "decision \<Rightarrow> verdict \<Rightarrow> verdict \<times> uuid option" where
  "released_verdict d pv =
     (case d of
        Resolved current \<Rightarrow>
          if v_action current \<noteq> Allow then (current, None)
          else if (case v_source current of FromRule _ \<Rightarrow> True | _ \<Rightarrow> False) \<and>
                  (case v_source pv of FromDefaultPolicy \<Rightarrow> True | Timeout \<Rightarrow> True | _ \<Rightarrow> False)
               then (current, None)
          else (pv, None)
      | NeedsPrompt _ undecided \<Rightarrow> (pv, undecided))"

definition release_packet :: "'b env \<Rightarrow> verdict \<Rightarrow> parked_packet \<Rightarrow> 'b worker \<Rightarrow> 'b worker_result" where
  "release_packet ev pv packet w =
     (case released_verdict
             (peek (env_crates ev) (env_now ev) (w_engine w) (pp_connection packet) (pp_process packet)) pv of
        (v, undecided) \<Rightarrow>
          let w = (case v_source v of
                     FromRule rid \<Rightarrow> w\<lparr>w_engine := count_hit rid (w_engine w)\<rparr>
                   | _ \<Rightarrow> w) in
          deliver ev (pp_message packet)
            \<lparr>obs_connection = pp_connection packet, obs_process = pp_process packet,
             obs_verdict = v, obs_undecided = undecided\<rparr> w)"

fun release_packets :: "'b env \<Rightarrow> verdict \<Rightarrow> parked_packet list \<Rightarrow> 'b worker \<Rightarrow> 'b worker_result" where
  "release_packets ev pv [] w = Inr w"
| "release_packets ev pv (p # ps) w = bind_result (release_packet ev pv p w) (release_packets ev pv ps)"

definition resolve_prompt :: "'b env \<Rightarrow> prompt_verdict \<Rightarrow> 'b worker \<Rightarrow> 'b worker_result" where
  "resolve_prompt ev pv w =
     (case map_of (w_waiters w) (pv_prompt_id pv) of
        None \<Rightarrow> Inr w
      | Some pending \<Rightarrow>
          release_packets ev (pv_verdict pv) (pend_packets pending)
            (w\<lparr>w_waiters := AList.delete (pv_prompt_id pv) (w_waiters w),
               w_pending_flows := (w_pending_flows w)(pend_flow pending := None)\<rparr>))"

definition park_new ::
  "'b env \<Rightarrow> message \<Rightarrow> connection \<Rightarrow> process \<Rightarrow> verdict \<Rightarrow> uuid option \<Rightarrow> flow_key \<Rightarrow> 'b worker
     \<Rightarrow> 'b worker_result" where
  "park_new ev msg conn proc fallback undecided flow w =
     (if MAX_PARKED_PROMPTS \<le> length (w_waiters w) then deliver_fallback ev msg conn proc fallback undecided w
      else
        let prompt_id = w_next_prompt_id w;
            w = w\<lparr>w_next_prompt_id :=
                  (if prompt_id = - 1 then prompt_session_seed (env_seed ev) else prompt_id + 1)\<rparr> in
        if env_accepts ev then
          Inr (w\<lparr>w_requests := w_requests w @
                   [\<lparr>q_prompt_id = prompt_id, q_connection = conn, q_process = proc, q_undecided = undecided\<rparr>],
                 w_pending_flows := (w_pending_flows w)(flow \<mapsto> prompt_id),
                 w_waiters := AList.update prompt_id
                   \<lparr>pend_flow = flow,
                    pend_packets = [\<lparr>pp_message = msg, pp_connection = conn, pp_process = proc\<rparr>],
                    pend_fallback = fallback\<rparr> (w_waiters w)\<rparr>)
        else deliver_fallback ev msg conn proc fallback undecided w)"

definition park_for_prompt ::
  "'b env \<Rightarrow> message \<Rightarrow> connection \<Rightarrow> process \<Rightarrow> verdict \<Rightarrow> uuid option \<Rightarrow> 'b worker \<Rightarrow> 'b worker_result" where
  "park_for_prompt ev msg conn proc fallback undecided w =
     (let flow = flow_key_for ev conn proc in
      case w_pending_flows w flow of
        None \<Rightarrow> park_new ev msg conn proc fallback undecided flow w
      | Some prompt_id \<Rightarrow>
          (case map_of (w_waiters w) prompt_id of
             None \<Rightarrow> park_new ev msg conn proc fallback undecided flow
                       (w\<lparr>w_pending_flows := (w_pending_flows w)(flow := None)\<rparr>)
           | Some pending \<Rightarrow>
               if MAX_PACKETS_PER_PROMPT \<le> length (pend_packets pending)
               then deliver_fallback ev msg conn proc fallback undecided w
               else Inr (w\<lparr>w_waiters := AList.update prompt_id
                      (pending\<lparr>pend_packets := pend_packets pending @
                         [\<lparr>pp_message = msg, pp_connection = conn, pp_process = proc\<rparr>]\<rparr>) (w_waiters w)\<rparr>)))"

definition meta_of :: "u32 \<Rightarrow> message \<Rightarrow> packet_meta" where
  "meta_of loopback_ifindex msg =
     \<lparr>pm_uid = m_uid msg, pm_gid = m_gid msg, pm_direction = direction_for_hook (m_hook msg),
      pm_loopback = (m_hook msg = NF_INET_LOCAL_OUT \<and> loopback_ifindex \<noteq> 0 \<and>
                     m_outdev msg = loopback_ifindex)\<rparr>"

definition handle_message :: "'b env \<Rightarrow> message \<Rightarrow> 'b worker \<Rightarrow> 'b worker_result" where
  "handle_message ev msg w =
     (case handle_packet ev (m_payload msg) (meta_of (w_loopback_ifindex w) msg) (w_engine w) (w_stats w) of
        Panic \<Rightarrow> Inl WorkerPanic
      | Ret (outcome, eng) \<Rightarrow>
          let w = w\<lparr>w_engine := eng\<rparr> in
          (case outcome of
             Silent v \<Rightarrow> send_verdict ev msg v w
           | Deliver conn proc v \<Rightarrow>
               deliver ev msg \<lparr>obs_connection = conn, obs_process = proc, obs_verdict = v,
                               obs_undecided = None\<rparr> w
           | Prompt conn proc fallback undecided \<Rightarrow>
               park_for_prompt ev msg conn proc fallback undecided w))"

text \<open>The ids are the keys at the time of the call; a hash map lists them in some order.\<close>

fun flush_ids :: "'b env \<Rightarrow> u64 list \<Rightarrow> 'b worker \<Rightarrow> 'b worker_result" where
  "flush_ids ev [] w = Inr w"
| "flush_ids ev (rid # rids) w =
     (case map_of (w_waiters w) rid of
        None \<Rightarrow> Inl WorkerPanic
      | Some pending \<Rightarrow>
          bind_result (resolve_prompt ev \<lparr>pv_prompt_id = rid, pv_verdict = pend_fallback pending\<rparr> w)
            (flush_ids ev rids))"

definition flush_waiters_disconnected :: "'b env \<Rightarrow> 'b worker \<Rightarrow> 'b worker_result" where
  "flush_waiters_disconnected ev w = flush_ids ev (map fst (w_waiters w)) w"

definition close_verdict_channel :: "'b env \<Rightarrow> 'b worker \<Rightarrow> 'b worker_result" where
  "close_verdict_channel ev w = flush_waiters_disconnected ev (w\<lparr>w_channel_open := False\<rparr>)"

text \<open>\<open>drain_verdicts\<close>: what \<open>try_recv\<close> yields until the channel is empty or disconnected.\<close>

fun drain_loop :: "'b env \<Rightarrow> prompt_verdict list \<Rightarrow> bool \<Rightarrow> 'b worker \<Rightarrow> 'b worker_result" where
  "drain_loop ev [] disconnected w = (if disconnected then close_verdict_channel ev w else Inr w)"
| "drain_loop ev (pv # pvs) disconnected w =
     bind_result (resolve_prompt ev pv w) (drain_loop ev pvs disconnected)"

definition drain_verdicts :: "'b env \<Rightarrow> prompt_verdict list \<Rightarrow> bool \<Rightarrow> 'b worker \<Rightarrow> 'b worker_result" where
  "drain_verdicts ev pvs disconnected w =
     (if w_channel_open w then drain_loop ev pvs disconnected w else Inr w)"

datatype channel_recv = ChanVerdict prompt_verdict | ChanTimeout | ChanDisconnected

definition idle_wait :: "'b env \<Rightarrow> channel_recv \<Rightarrow> 'b worker \<Rightarrow> 'b worker_result" where
  "idle_wait ev res w =
     (if \<not> w_channel_open w then Inr w
      else (case res of
              ChanVerdict pv \<Rightarrow> resolve_prompt ev pv w
            | ChanTimeout \<Rightarrow> Inr w
            | ChanDisconnected \<Rightarrow> close_verdict_channel ev w))"

section \<open>The loop\<close>

datatype queue_recv = RecvMessage message | RecvWouldBlock channel_recv | RecvInterrupted | RecvError

text \<open>What the world supplies to one iteration.\<close>

record 'b beat =
  bt_stop :: bool
  bt_env :: "'b env"
  bt_verdicts :: "prompt_verdict list"
  bt_disconnected :: bool
  bt_recv :: queue_recv

text \<open>One iteration, with the count of consecutive errors; \<open>Inl\<close> is leaving the loop.\<close>

datatype 'b leave = Stopped "'b worker" | Failed worker_error

definition run_beat :: "'b beat \<Rightarrow> nat \<times> 'b worker \<Rightarrow> 'b leave + (nat \<times> 'b worker)" where
  "run_beat bt st =
     (case st of (errs, w) \<Rightarrow>
       if bt_stop bt then Inl (Stopped w)
       else (case drain_verdicts (bt_env bt) (bt_verdicts bt) (bt_disconnected bt) w of
               Inl e \<Rightarrow> Inl (Failed e)
             | Inr w \<Rightarrow>
                 (case bt_recv bt of
                    RecvMessage msg \<Rightarrow>
                      (case handle_message (bt_env bt) msg w of
                         Inl e \<Rightarrow> Inl (Failed e) | Inr w \<Rightarrow> Inr (0, w))
                  | RecvWouldBlock res \<Rightarrow>
                      (case idle_wait (bt_env bt) res w of
                         Inl e \<Rightarrow> Inl (Failed e) | Inr w \<Rightarrow> Inr (errs, w))
                  | RecvInterrupted \<Rightarrow> Inr (errs, w)
                  | RecvError \<Rightarrow>
                      if MAX_CONSECUTIVE_RECV_ERRORS \<le> errs + 1 then Inl (Failed RecvFailed)
                      else Inr (errs + 1, w))))"

fun run_loop :: "'b beat list \<Rightarrow> nat \<times> 'b worker \<Rightarrow> 'b leave + (nat \<times> 'b worker)" where
  "run_loop [] st = Inr st"
| "run_loop (bt # bts) st = bind_result (run_beat bt st) (run_loop bts)"

end
