(* ===== verification/WorkerLaws.thy ===== *)
theory WorkerLaws
  imports Worker
begin

text \<open>
  What the packet worker guarantees over whole runs of its loop: the prompt tables stay a
  bijection, no packet is lost or answered twice, nothing but the kernel and a broken socket
  ends the loop, no packet is stranded when the router goes away, and what it reports is what
  it did.  \<open>output_law\<close> is the interface for laws of the outputs.
\<close>

section \<open>What each operation changes\<close>

text \<open>The part of the state that tracks prompts, and the part the engine decides with.\<close>

definition prompt_core ::
  "'b worker \<Rightarrow> (u64 \<times> pending_prompt) list \<times> (flow_key \<Rightarrow> u64 option) \<times> u64 \<times> bool \<times> u32" where
  "prompt_core w = (w_waiters w, w_pending_flows w, w_next_prompt_id w, w_channel_open w, w_loopback_ifindex w)"

definition rule_core :: "engine \<Rightarrow> rule list \<times> default_policy" where
  "rule_core eng = (e_rules eng, e_policy eng)"

lemma peek_rule_core: "rule_core eng = rule_core eng' \<Longrightarrow> peek E now eng = peek E now eng'"
proof -
  assume a: "rule_core eng = rule_core eng'"
  have "e_rules eng = e_rules eng'" "fallback_verdict eng = fallback_verdict eng'"
    using a by (auto simp: rule_core_def fallback_verdict_def)
  then show ?thesis by (intro ext) (simp only: peek_def)
qed

lemma count_hit_core [simp]: "rule_core (count_hit rid eng) = rule_core eng"
  by (simp add: count_hit_def rule_core_def)

lemma evaluate_core [simp]: "rule_core (snd (evaluate E now eng conn proc)) = rule_core eng"
  by (simp add: evaluate_def Let_def split: decision.split verdict_source.split)

lemma inject_refusal_Inr:
  assumes "inject_refusal ev msg w = Inr w'"
  shows "prompt_core w' = prompt_core w \<and> w_sent w' = w_sent w \<and> w_engine w' = w_engine w \<and>
    w_feed w' = w_feed w \<and> w_stats w' = w_stats w \<and> w_events w' = w_events w \<and> w_requests w' = w_requests w"
  using assms
  by (auto simp: inject_refusal_def prompt_core_def split: run.splits sum.splits prod.splits)

lemma deliver_Inr:
  assumes "deliver ev msg obs w = Inr w'"
  shows "prompt_core w' = prompt_core w \<and> w_engine w' = w_engine w \<and>
    w_sent w' = w_sent w @ [(msg, nfq_verdict_for (v_action (obs_verdict obs)))] \<and>
    w_feed w' = w_feed w @ [obs] \<and> w_requests w' = w_requests w \<and>
    w_stats w' = record_action (v_action (obs_verdict obs)) (w_stats w)"
proof -
  from assms obtain w1 where w1: "apply_action ev msg (v_action (obs_verdict obs)) w = Inr w1"
    and w': "prompt_core w' = prompt_core w1 \<and> w_engine w' = w_engine w1 \<and> w_sent w' = w_sent w1 \<and>
      w_feed w' = w_feed w1 @ [obs] \<and> w_requests w' = w_requests w1 \<and>
      w_stats w' = record_action (v_action (obs_verdict obs)) (w_stats w1)"
    by (auto simp: deliver_def bind_result_Inr_iff prompt_core_def Let_def)
  from w1 obtain w2 where w2: "(if v_action (obs_verdict obs) = Reject then inject_refusal ev msg w else Inr w) = Inr w2"
    and s: "send_verdict ev msg (nfq_verdict_for (v_action (obs_verdict obs))) w2 = Inr w1"
    by (auto simp: apply_action_def bind_result_Inr_iff)
  have "prompt_core w2 = prompt_core w \<and> w_sent w2 = w_sent w \<and> w_engine w2 = w_engine w \<and>
      w_feed w2 = w_feed w \<and> w_stats w2 = w_stats w \<and> w_requests w2 = w_requests w"
    using w2 inject_refusal_Inr [of ev msg w w2] by (auto split: if_splits)
  with s w' show ?thesis by (auto simp: send_verdict_def prompt_core_def split: if_splits)
qed

lemma release_packet_Inr:
  assumes "release_packet ev pv p w = Inr w'"
  shows "prompt_core w' = prompt_core w \<and> rule_core (w_engine w') = rule_core (w_engine w) \<and>
    map fst (w_sent w') = map fst (w_sent w) @ [pp_message p] \<and>
    (\<exists>obs. w_feed w' = w_feed w @ [obs] \<and> obs_connection obs = pp_connection p \<and>
       obs_process obs = pp_process p \<and>
       (obs_verdict obs, obs_undecided obs) =
         released_verdict (peek (env_crates ev) (env_now ev) (w_engine w) (pp_connection p) (pp_process p)) pv)"
proof -
  obtain v u where vu: "released_verdict (peek (env_crates ev) (env_now ev) (w_engine w)
      (pp_connection p) (pp_process p)) pv = (v, u)" by fastforce
  let ?w = "case v_source v of FromRule rid \<Rightarrow> w\<lparr>w_engine := count_hit rid (w_engine w)\<rparr> | _ \<Rightarrow> w"
  have same: "prompt_core ?w = prompt_core w" "w_sent ?w = w_sent w" "w_feed ?w = w_feed w"
    "rule_core (w_engine ?w) = rule_core (w_engine w)"
    by (simp_all add: prompt_core_def split: verdict_source.split)
  from assms have "deliver ev (pp_message p) \<lparr>obs_connection = pp_connection p, obs_process = pp_process p,
      obs_verdict = v, obs_undecided = u\<rparr> ?w = Inr w'"
    by (simp add: release_packet_def vu Let_def)
  from deliver_Inr [OF this] same show ?thesis by (simp add: vu)
qed

lemma release_packets_Inr:
  "release_packets ev pv ps w = Inr w' \<Longrightarrow>
   prompt_core w' = prompt_core w \<and> rule_core (w_engine w') = rule_core (w_engine w) \<and>
   map fst (w_sent w') = map fst (w_sent w) @ map pp_message ps"
proof (induction ps arbitrary: w)
  case (Cons p ps)
  then obtain w1 where "release_packet ev pv p w = Inr w1" "release_packets ev pv ps w1 = Inr w'"
    by (auto simp: bind_result_Inr_iff)
  with Cons.IH [of w1] release_packet_Inr [of ev pv p w w1] show ?case by simp
qed simp

section \<open>The prompt tables stay consistent\<close>

definition prompt_ok :: "(flow_key \<Rightarrow> u64 option) \<Rightarrow> u64 \<Rightarrow> pending_prompt \<Rightarrow> bool" where
  "prompt_ok flows rid p \<longleftrightarrow>
     flows (pend_flow p) = Some rid \<and> 1 \<le> length (pend_packets p) \<and>
     length (pend_packets p) \<le> MAX_PACKETS_PER_PROMPT"

definition tables_ok :: "(u64 \<times> pending_prompt) list \<Rightarrow> (flow_key \<Rightarrow> u64 option) \<Rightarrow> bool" where
  "tables_ok waiters flows \<longleftrightarrow>
     distinct (map fst waiters) \<and> length waiters \<le> MAX_PARKED_PROMPTS \<and>
     (\<forall>rid p. map_of waiters rid = Some p \<longrightarrow> prompt_ok flows rid p) \<and>
     (\<forall>flow rid. flows flow = Some rid \<longrightarrow> (\<exists>p. map_of waiters rid = Some p \<and> pend_flow p = flow))"

text \<open>Ids still to be given out are above every id in use.\<close>

definition worker_ok :: "'b worker \<Rightarrow> bool" where
  "worker_ok w \<longleftrightarrow> tables_ok (w_waiters w) (w_pending_flows w) \<and>
     (\<forall>rid \<in> set (map fst (w_waiters w)). unat rid < unat (w_next_prompt_id w))"

lemma worker_ok_core: "prompt_core w' = prompt_core w \<Longrightarrow> worker_ok w' = worker_ok w"
  by (simp add: prompt_core_def worker_ok_def)

definition parked_of :: "(u64 \<times> pending_prompt) list \<Rightarrow> message multiset" where
  "parked_of waiters = mset (concat (map (\<lambda>(rid, p). map pp_message (pend_packets p)) waiters))"

definition parked :: "'b worker \<Rightarrow> message multiset" where
  "parked w = parked_of (w_waiters w)"

definition verdicted :: "'b worker \<Rightarrow> message multiset" where
  "verdicted w = mset (map fst (w_sent w))"

lemma parked_core: "prompt_core w' = prompt_core w \<Longrightarrow> parked w' = parked w"
  by (simp add: prompt_core_def parked_def)

lemma parked_of_Cons [simp]:
  "parked_of [] = {#}"
  "parked_of ((rid, p) # ws) = mset (map pp_message (pend_packets p)) + parked_of ws"
  by (simp_all add: parked_of_def)

lemma parked_of_delete:
  "distinct (map fst ws) \<Longrightarrow> map_of ws rid = Some p \<Longrightarrow>
   parked_of ws = mset (map pp_message (pend_packets p)) + parked_of (AList.delete rid ws)"
proof (induction ws)
  case (Cons x ws)
  obtain q v where x: "x = (q, v)" by fastforce
  show ?case
  proof (cases "q = rid")
    case True
    with Cons.prems(1) x have "rid \<notin> fst ` set ws" by simp
    then have "AList.delete rid ws = ws" by (simp add: AList.delete_idem)
    with True x Cons.prems(2) show ?thesis by simp
  next
    case False
    with Cons x show ?thesis by simp
  qed
qed simp

lemma parked_of_update_old:
  "distinct (map fst ws) \<Longrightarrow> map_of ws rid = Some p \<Longrightarrow>
   parked_of (AList.update rid p' ws) + mset (map pp_message (pend_packets p)) =
     parked_of ws + mset (map pp_message (pend_packets p'))"
proof (induction ws)
  case (Cons x ws)
  obtain q v where x: "x = (q, v)" by fastforce
  show ?case
  proof (cases "q = rid")
    case True
    with x Cons.prems(2) show ?thesis by simp
  next
    case False
    with x Cons have "parked_of (AList.update rid p' ws) + mset (map pp_message (pend_packets p)) =
        parked_of ws + mset (map pp_message (pend_packets p'))" by simp
    with False x show ?thesis by (simp add: add.assoc) 
  qed
qed simp

lemma parked_of_update_new:
  "rid \<notin> set (map fst ws) \<Longrightarrow>
   parked_of (AList.update rid p ws) = parked_of ws + mset (map pp_message (pend_packets p)) \<and>
   length (AList.update rid p ws) = Suc (length ws)"
  by (induction ws) auto

lemma length_update_old: "rid \<in> set (map fst ws) \<Longrightarrow> length (AList.update rid p ws) = length ws"
  by (induction ws) auto

definition account :: "'b worker \<Rightarrow> message multiset" where
  "account w = verdicted w + parked w"

lemma account_core: "prompt_core w' = prompt_core w \<Longrightarrow> w_sent w' = w_sent w \<Longrightarrow> account w' = account w"
  by (simp add: account_def verdicted_def parked_core [of w' w])

lemma tables_ok_delete:
  assumes ok: "tables_ok ws flows" and p: "map_of ws rid = Some p"
  shows "tables_ok (AList.delete rid ws) (flows(pend_flow p := None))"
proof -
  from ok have d: "distinct (map fst ws)" and len: "length ws \<le> MAX_PARKED_PROMPTS"
    and pr: "\<And>q x. map_of ws q = Some x \<Longrightarrow> prompt_ok flows q x"
    and fl: "\<And>f q. flows f = Some q \<Longrightarrow> \<exists>x. map_of ws q = Some x \<and> pend_flow x = f"
    by (auto simp: tables_ok_def)
  have mo: "map_of (AList.delete rid ws) = (map_of ws)(rid := None)" by (rule delete_conv')
  have "prompt_ok (flows(pend_flow p := None)) q x" if "q \<noteq> rid" "map_of ws q = Some x" for q x
  proof -
    from pr [OF that(2)] pr [OF p] that(1) have "pend_flow x \<noteq> pend_flow p" by (auto simp: prompt_ok_def)
    with pr [OF that(2)] show ?thesis by (simp add: prompt_ok_def)
  qed
  moreover have "\<exists>x. map_of ws q = Some x \<and> pend_flow x = f \<and> q \<noteq> rid"
    if "flows f = Some q" "f \<noteq> pend_flow p" for f q
  proof -
    from fl [OF that(1)] obtain x where "map_of ws q = Some x" "pend_flow x = f" by blast
    with p that(2) show ?thesis by auto
  qed
  moreover have "length (AList.delete rid ws) \<le> MAX_PARKED_PROMPTS"
    using len length_delete_le [of rid ws] by simp
  ultimately show ?thesis
    unfolding tables_ok_def mo using distinct_delete [OF d, of rid] by (auto split: if_splits) blast+
qed

lemma tables_ok_insert:
  assumes ok: "tables_ok ws flows" and new: "rid \<notin> set (map fst ws)" and flow: "flows flow = None"
    and room: "length ws < MAX_PARKED_PROMPTS"
    and p: "pend_flow p = flow" "1 \<le> length (pend_packets p)" "length (pend_packets p) \<le> MAX_PACKETS_PER_PROMPT"
  shows "tables_ok (AList.update rid p ws) (flows(flow \<mapsto> rid))"
proof -
  from ok have d: "distinct (map fst ws)"
    and pr: "\<And>q x. map_of ws q = Some x \<Longrightarrow> prompt_ok flows q x"
    and fl: "\<And>f q. flows f = Some q \<Longrightarrow> \<exists>x. map_of ws q = Some x \<and> pend_flow x = f"
    by (auto simp: tables_ok_def)
  have mo: "map_of (AList.update rid p ws) = (map_of ws)(rid \<mapsto> p)" by (rule update_conv')
  have none: "map_of ws rid = None" using new by (simp add: map_of_eq_None_iff)
  have "prompt_ok (flows(flow \<mapsto> rid)) q x" if "map_of ws q = Some x" for q x
    using pr [OF that] flow by (auto simp: prompt_ok_def)
  moreover have "prompt_ok (flows(flow \<mapsto> rid)) rid p" using p by (simp add: prompt_ok_def)
  moreover have "\<exists>x. map_of ws q = Some x \<and> pend_flow x = f \<and> q \<noteq> rid" if "flows f = Some q" for f q
    using fl [OF that] none by auto
  moreover have "length (AList.update rid p ws) \<le> MAX_PARKED_PROMPTS"
    using parked_of_update_new [OF new, of p] room by simp
  ultimately show ?thesis
    unfolding tables_ok_def mo using distinct_update [OF d, of rid p] p(1) by (auto split: if_splits) blast+
qed

lemma tables_ok_ride:
  assumes ok: "tables_ok ws flows" and p: "map_of ws rid = Some p"
    and q: "pend_flow p' = pend_flow p" "1 \<le> length (pend_packets p')"
      "length (pend_packets p') \<le> MAX_PACKETS_PER_PROMPT"
  shows "tables_ok (AList.update rid p' ws) flows"
proof -
  from ok have d: "distinct (map fst ws)" and len: "length ws \<le> MAX_PARKED_PROMPTS"
    and pr: "\<And>q x. map_of ws q = Some x \<Longrightarrow> prompt_ok flows q x"
    and fl: "\<And>f q. flows f = Some q \<Longrightarrow> \<exists>x. map_of ws q = Some x \<and> pend_flow x = f"
    by (auto simp: tables_ok_def)
  have mo: "map_of (AList.update rid p' ws) = (map_of ws)(rid \<mapsto> p')" by (rule update_conv')
  have "rid \<in> set (map fst ws)" using p by (force dest: map_of_SomeD)
  with len have "length (AList.update rid p' ws) \<le> MAX_PARKED_PROMPTS" by (simp add: length_update_old)
  moreover have "prompt_ok flows rid p'" using pr [OF p] q by (simp add: prompt_ok_def)
  moreover have "\<exists>x. ((map_of ws)(rid \<mapsto> p')) r = Some x \<and> pend_flow x = f" if "flows f = Some r" for f r
    using fl [OF that] p q(1) by auto
  ultimately show ?thesis
    using distinct_update [OF d, of rid p'] pr by (auto simp: tables_ok_def mo split: if_splits)
qed

lemma resolve_prompt_Inr:
  assumes ok: "worker_ok w" and r: "resolve_prompt ev pv w = Inr w'"
  shows "worker_ok w' \<and> account w' = account w \<and> w_next_prompt_id w' = w_next_prompt_id w \<and>
    w_channel_open w' = w_channel_open w \<and> rule_core (w_engine w') = rule_core (w_engine w) \<and>
    w_waiters w' = AList.delete (pv_prompt_id pv) (w_waiters w)"
proof (cases "map_of (w_waiters w) (pv_prompt_id pv)")
  case None
  then have "AList.delete (pv_prompt_id pv) (w_waiters w) = w_waiters w"
    by (simp add: AList.delete_idem map_of_eq_None_iff)
  with None r ok show ?thesis by (simp add: resolve_prompt_def)
next
  case (Some p)
  let ?w = "w\<lparr>w_waiters := AList.delete (pv_prompt_id pv) (w_waiters w),
               w_pending_flows := (w_pending_flows w)(pend_flow p := None)\<rparr>"
  from Some r have "release_packets ev (pv_verdict pv) (pend_packets p) ?w = Inr w'"
    by (simp add: resolve_prompt_def)
  note rel = release_packets_Inr [OF this]
  from ok have tab: "tables_ok (w_waiters w) (w_pending_flows w)"
    and fresh: "\<forall>rid \<in> set (map fst (w_waiters w)). unat rid < unat (w_next_prompt_id w)"
    by (auto simp: worker_ok_def)
  have "\<forall>rid \<in> set (map fst (AList.delete (pv_prompt_id pv) (w_waiters w))). unat rid < unat (w_next_prompt_id w)"
    using fresh by (simp only: delete_keys set_removeAll) blast
  with tables_ok_delete [OF tab Some] have "worker_ok ?w" by (simp add: worker_ok_def)
  with rel have "worker_ok w'" using worker_ok_core [of w' ?w] by blast
  moreover from tab have "distinct (map fst (w_waiters w))" by (simp add: tables_ok_def)
  then have "account w' = account w"
    using parked_of_delete [OF _ Some] rel
      parked_core [of w' ?w]
    by (simp add: account_def verdicted_def parked_def ac_simps)
  ultimately show ?thesis using rel by (simp add: prompt_core_def)
qed

lemma park_new_Inr:
  assumes ok: "worker_ok w" and flow: "w_pending_flows w flow = None"
    and id: "unat (w_next_prompt_id w) < 2 ^ 64 - 1"
    and r: "park_new ev msg conn proc fallback undecided flow w = Inr w'"
  shows "worker_ok w' \<and> account w' = account w + {#msg#} \<and>
    unat (w_next_prompt_id w') \<le> Suc (unat (w_next_prompt_id w)) \<and>
    w_channel_open w' = w_channel_open w \<and> w_engine w' = w_engine w"
proof -
  let ?obs = "\<lparr>obs_connection = conn, obs_process = proc, obs_verdict = fallback, obs_undecided = undecided\<rparr>"
  let ?n = "w_next_prompt_id w"
  let ?w = "w\<lparr>w_next_prompt_id := ?n + 1\<rparr>"
  let ?p = "\<lparr>pend_flow = flow, pend_packets = [\<lparr>pp_message = msg, pp_connection = conn, pp_process = proc\<rparr>],
     pend_fallback = fallback\<rparr>"
  have max: "unat (- 1 :: u64) = 2 ^ 64 - 1" by (simp add: unsigned_minus_1_eq_mask mask_eq_exp_minus_1)
  from id have nm: "?n \<noteq> - 1" using max by auto
  then have succ: "unat (?n + 1) = Suc (unat ?n)"
    using id iffD1 [OF unat_add_lem, of ?n 1] by simp
  from ok have tab: "tables_ok (w_waiters w) (w_pending_flows w)"
    and fresh: "\<forall>rid \<in> set (map fst (w_waiters w)). unat rid < unat ?n"
    by (auto simp: worker_ok_def)
  have ok': "worker_ok ?w" using tab fresh succ by (auto simp: worker_ok_def less_SucI)
  have acc: "account ?w = account w" by (simp add: account_def parked_def verdicted_def)
  have dl: "worker_ok w' \<and> account w' = account v + {#msg#} \<and>
      w_next_prompt_id w' = w_next_prompt_id v \<and> w_channel_open w' = w_channel_open v \<and> w_engine w' = w_engine v"
    if "worker_ok v" "deliver_fallback ev msg conn proc fallback undecided v = Inr w'" for v
  proof -
    from that(2) have "deliver ev msg ?obs v = Inr w'" by (simp add: deliver_fallback_def)
    note d = deliver_Inr [OF this]
    then have core: "prompt_core w' = prompt_core v" and sent: "map fst (w_sent w') = map fst (w_sent v) @ [msg]"
      and eng: "w_engine w' = w_engine v" by simp_all
    from core have "w_next_prompt_id w' = w_next_prompt_id v \<and> w_channel_open w' = w_channel_open v"
      by (simp add: prompt_core_def)
    with that(1) worker_ok_core [OF core] parked_core [OF core] sent eng show ?thesis
      by (simp add: account_def verdicted_def)
  qed
  show ?thesis
  proof (cases "MAX_PARKED_PROMPTS \<le> length (w_waiters w)")
    case True
    with dl [OF ok] r show ?thesis by (simp add: park_new_def)
  next
    case room: False
    show ?thesis
    proof (cases "env_accepts ev")
      case False
      with r room nm have "deliver_fallback ev msg conn proc fallback undecided ?w = Inr w'"
        by (simp add: park_new_def Let_def)
      from dl [OF ok' this] acc succ show ?thesis by simp
    next
      case True
      with r room nm have w': "w' = ?w\<lparr>
          w_requests := w_requests w @ [\<lparr>q_prompt_id = ?n, q_connection = conn, q_process = proc, q_undecided = undecided\<rparr>],
          w_pending_flows := (w_pending_flows w)(flow \<mapsto> ?n),
          w_waiters := AList.update ?n ?p (w_waiters w)\<rparr>"
        by (simp add: park_new_def Let_def)
      have new: "?n \<notin> set (map fst (w_waiters w))" using fresh by auto
      have len: "length (AList.update ?n ?p (w_waiters w)) = Suc (length (w_waiters w))"
        and pk: "parked_of (AList.update ?n ?p (w_waiters w)) = parked_of (w_waiters w) + {#msg#}"
        using parked_of_update_new [OF new, of ?p] by simp_all
      have "tables_ok (AList.update ?n ?p (w_waiters w)) ((w_pending_flows w)(flow \<mapsto> ?n))"
        using tables_ok_insert [OF tab new flow, of ?p] room by (simp add: MAX_PACKETS_PER_PROMPT_def)
      moreover have "\<forall>rid \<in> set (map fst (AList.update ?n ?p (w_waiters w))). unat rid < Suc (unat ?n)"
        using fresh by (auto simp: update_keys dest: less_SucI)
      ultimately have "worker_ok w'" using succ by (simp add: worker_ok_def w')
      then show ?thesis using pk succ by (simp add: w' account_def verdicted_def parked_def)
    qed
  qed
qed

lemma park_for_prompt_Inr:
  assumes ok: "worker_ok w" and id: "unat (w_next_prompt_id w) < 2 ^ 64 - 1"
    and r: "park_for_prompt ev msg conn proc fallback undecided w = Inr w'"
  shows "worker_ok w' \<and> account w' = account w + {#msg#} \<and>
    unat (w_next_prompt_id w') \<le> Suc (unat (w_next_prompt_id w)) \<and>
    w_channel_open w' = w_channel_open w \<and> w_engine w' = w_engine w"
proof -
  let ?flow = "flow_key_for ev conn proc"
  from ok have tab: "tables_ok (w_waiters w) (w_pending_flows w)" by (simp add: worker_ok_def)
  show ?thesis
  proof (cases "w_pending_flows w ?flow")
    case None
    with r have "park_new ev msg conn proc fallback undecided ?flow w = Inr w'"
      by (simp add: park_for_prompt_def Let_def)
    from park_new_Inr [OF ok None id this] show ?thesis .
  next
    case (Some rid)
    with tab obtain p where p: "map_of (w_waiters w) rid = Some p" and pf: "pend_flow p = ?flow"
      unfolding tables_ok_def by blast
    show ?thesis
    proof (cases "MAX_PACKETS_PER_PROMPT \<le> length (pend_packets p)")
      case True
      with r Some p have "deliver ev msg \<lparr>obs_connection = conn, obs_process = proc, obs_verdict = fallback,
          obs_undecided = undecided\<rparr> w = Inr w'"
        by (simp add: park_for_prompt_def Let_def deliver_fallback_def)
      note d = deliver_Inr [OF this]
      then have core: "prompt_core w' = prompt_core w" by simp
      from core have "w_next_prompt_id w' = w_next_prompt_id w \<and> w_channel_open w' = w_channel_open w"
        by (simp add: prompt_core_def)
      with ok worker_ok_core [OF core] parked_core [OF core] d show ?thesis
        by (simp add: account_def verdicted_def)
    next
      case room: False
      let ?pkt = "\<lparr>pp_message = msg, pp_connection = conn, pp_process = proc\<rparr>"
      let ?p = "p\<lparr>pend_packets := pend_packets p @ [?pkt]\<rparr>"
      from r Some p room have w': "w' = w\<lparr>w_waiters := AList.update rid ?p (w_waiters w)\<rparr>"
        by (simp add: park_for_prompt_def Let_def)
      from tab have d: "distinct (map fst (w_waiters w))" by (simp add: tables_ok_def)
      have mem: "rid \<in> set (map fst (w_waiters w))" using p by (force dest: map_of_SomeD)
      have "tables_ok (AList.update rid ?p (w_waiters w)) (w_pending_flows w)"
        by (rule tables_ok_ride [OF tab p]) (use room in auto)
      moreover have "map fst (AList.update rid ?p (w_waiters w)) = map fst (w_waiters w)"
        using mem by (simp only: update_keys if_True)
      ultimately have "worker_ok w'" using ok unfolding worker_ok_def w' by simp
      moreover have "account w' = account w + {#msg#}"
        using parked_of_update_old [OF d p, of ?p]
        by (simp add: w' account_def verdicted_def parked_def add.assoc) 
      ultimately show ?thesis by (simp add: w')
    qed
  qed
qed

lemma evaluate_peek:
  "evaluate E now eng conn proc = (d, eng') \<Longrightarrow> d = peek E now eng conn proc \<and> rule_core eng' = rule_core eng"
  using evaluate_core [of E now eng conn proc]
  by (auto simp: evaluate_def Let_def split: decision.splits verdict_source.splits)

text \<open>The three ways through \<open>handle_packet\<close>.\<close>

lemma handle_packet_cases:
  assumes "handle_packet ev payload meta eng st = Ret (out, eng')"
  obtains (unparsed) err where "parse (env_stamp ev) payload (pm_direction meta) = Ret (Inl err)" "eng' = eng"
      "out = Silent (nfq_verdict_for (if pm_direction meta = Inbound then inbound_default eng
                                      else v_action (fallback_verdict eng)))"
  | (own) conn pid proc where "parse (env_stamp ev) payload (pm_direction meta) = Ret (Inr conn)" "eng' = eng"
      "c_direction conn \<noteq> Inbound" "env_owner ev conn (pm_uid meta) = Some (pid, proc)"
      "env_is_self ev pid" "pm_uid meta = Some 0" "out = Silent Accept"
  | (decided) conn0 owner conn proc d where
      "parse (env_stamp ev) payload (pm_direction meta) = Ret (Inr conn0)"
      "owner = (if c_direction conn0 = Inbound then None else env_owner ev conn0 (pm_uid meta))"
      "proc = attribute_process meta owner" "conn = attribute_connection ev owner proc conn0"
      "d = peek (env_crates ev) (env_now ev) eng conn proc" "rule_core eng' = rule_core eng"
      "out = outcome_of meta eng' st conn proc d"
proof (cases "parse (env_stamp ev) payload (pm_direction meta)")
  case Panic
  with assms show ?thesis by (simp add: handle_packet_def)
next
  case (Ret res)
  show ?thesis
  proof (cases res)
    case (Inl err)
    with assms Ret show ?thesis by (intro unparsed) (auto simp: handle_packet_def Let_def)
  next
    case (Inr conn0)
    define owner where "owner = (if c_direction conn0 = Inbound then None else env_owner ev conn0 (pm_uid meta))"
    define self where "self = (case owner of Some (pid, _) \<Rightarrow> env_is_self ev pid \<and> pm_uid meta = Some 0 | None \<Rightarrow> False)"
    define proc where "proc = attribute_process meta owner"
    define conn where "conn = attribute_connection ev owner proc conn0"
    obtain d eng1 where ev: "evaluate (env_crates ev) (env_now ev) eng conn proc = (d, eng1)" by fastforce
    from assms Ret Inr have eq: "(if self then (Silent Accept, eng) else (outcome_of meta eng1 st conn proc d, eng1)) = (out, eng')"
      by (auto simp: handle_packet_def owner_def [symmetric] Let_def self_def [symmetric]
          proc_def [symmetric] conn_def [symmetric] ev split: if_splits)
    show ?thesis
    proof (cases self)
      case True
      then obtain pid p where o: "owner = Some (pid, p)" and m: "env_is_self ev pid" "pm_uid meta = Some 0"
        by (auto simp: self_def split: option.splits)
      from o have "c_direction conn0 \<noteq> Inbound" "env_owner ev conn0 (pm_uid meta) = Some (pid, p)"
        by (auto simp: owner_def split: if_splits)
      with own Ret Inr m True eq show ?thesis by simp
    next
      case False
      with eq have "out = outcome_of meta eng' st conn proc d" and e: "eng' = eng1" by auto
      with e evaluate_peek [OF ev] decided [OF _ owner_def proc_def conn_def] Ret Inr show ?thesis by blast
    qed
  qed
qed

lemma handle_packet_core:
  "handle_packet ev payload meta eng st = Ret (out, eng') \<Longrightarrow> rule_core eng' = rule_core eng"
  by (erule handle_packet_cases) auto

lemma handle_message_Inr:
  assumes ok: "worker_ok w" and id: "unat (w_next_prompt_id w) < 2 ^ 64 - 1"
    and r: "handle_message ev msg w = Inr w'"
  shows "worker_ok w' \<and> account w' = account w + {#msg#} \<and>
    unat (w_next_prompt_id w') \<le> Suc (unat (w_next_prompt_id w)) \<and>
    w_channel_open w' = w_channel_open w \<and> rule_core (w_engine w') = rule_core (w_engine w)"
proof -
  let ?hp = "handle_packet ev (m_payload msg) (meta_of (w_loopback_ifindex w) msg) (w_engine w) (w_stats w)"
  from r obtain out eng where hp: "?hp = Ret (out, eng)" by (auto simp: handle_message_def split: run.splits)
  let ?w = "w\<lparr>w_engine := eng\<rparr>"
  have core: "prompt_core ?w = prompt_core w" by (simp add: prompt_core_def)
  have ok': "worker_ok ?w" using ok worker_ok_core [OF core] by simp
  have acc: "account ?w = account w" by (rule account_core [OF core]) simp
  note rc = handle_packet_core [OF hp]
  show ?thesis
  proof (cases out)
    case (Silent v)
    with r hp have "send_verdict ev msg v ?w = Inr w'" by (simp add: handle_message_def)
    then have w': "w' = ?w\<lparr>w_sent := w_sent w @ [(msg, v)]\<rparr>" by (auto simp: send_verdict_def split: if_splits)
    have "worker_ok w'" using ok by (simp add: w' worker_ok_def)
    with rc show ?thesis by (simp add: w' account_def verdicted_def parked_def)
  next
    case (Deliver conn proc v)
    with r hp have "deliver ev msg \<lparr>obs_connection = conn, obs_process = proc, obs_verdict = v,
        obs_undecided = None\<rparr> ?w = Inr w'" by (simp add: handle_message_def)
    note d = deliver_Inr [OF this]
    then have core': "prompt_core w' = prompt_core w" using core by simp
    from core' have "w_next_prompt_id w' = w_next_prompt_id w \<and> w_channel_open w' = w_channel_open w"
      by (simp add: prompt_core_def)
    with ok worker_ok_core [OF core'] parked_core [OF core'] d rc show ?thesis
      by (simp add: account_def verdicted_def)
  next
    case (Prompt conn proc fallback undecided)
    with r hp have "park_for_prompt ev msg conn proc fallback undecided ?w = Inr w'"
      by (simp add: handle_message_def)
    from park_for_prompt_Inr [OF ok' _ this] id acc rc show ?thesis by simp
  qed
qed

lemma flush_ids_Inr:
  "worker_ok w \<Longrightarrow> flush_ids ev rids w = Inr w' \<Longrightarrow>
   worker_ok w' \<and> account w' = account w \<and> w_next_prompt_id w' = w_next_prompt_id w \<and>
   w_channel_open w' = w_channel_open w \<and> rule_core (w_engine w') = rule_core (w_engine w) \<and>
   set (map fst (w_waiters w')) = set (map fst (w_waiters w)) - set rids"
proof (induction rids arbitrary: w)
  case (Cons rid rids)
  then obtain v w1 where w1: "resolve_prompt ev \<lparr>pv_prompt_id = rid, pv_verdict = v\<rparr> w = Inr w1"
    and rest: "flush_ids ev rids w1 = Inr w'"
    by (cases "map_of (w_waiters w) rid") (auto simp: bind_result_Inr_iff)
  note r = resolve_prompt_Inr [OF Cons.prems(1) w1]
  then have "set (map fst (w_waiters w1)) = set (map fst (w_waiters w)) - {rid}"
    by (simp only: delete_keys set_removeAll prompt_verdict.simps)
  with r Cons.IH [OF _ rest] show ?case by auto
qed simp

lemma close_verdict_channel_Inr:
  assumes ok: "worker_ok w" and r: "close_verdict_channel ev w = Inr w'"
  shows "worker_ok w' \<and> account w' = account w \<and> w_next_prompt_id w' = w_next_prompt_id w \<and>
    \<not> w_channel_open w' \<and> rule_core (w_engine w') = rule_core (w_engine w) \<and> w_waiters w' = []"
proof -
  let ?w = "w\<lparr>w_channel_open := False\<rparr>"
  have "worker_ok ?w" "account ?w = account w"
    using ok by (simp_all add: worker_ok_def account_def verdicted_def parked_def)
  moreover from r have "flush_ids ev (map fst (w_waiters ?w)) ?w = Inr w'"
    by (simp add: close_verdict_channel_def flush_waiters_disconnected_def)
  ultimately show ?thesis using flush_ids_Inr [of ?w ev "map fst (w_waiters ?w)" w'] by simp
qed


text \<open>What holds from one point of a run to a later one, whatever was resolved in between.\<close>

definition same_packets :: "'b worker \<Rightarrow> 'b worker \<Rightarrow> bool" where
  "same_packets w w' \<longleftrightarrow>
     worker_ok w' \<and> account w' = account w \<and> w_next_prompt_id w' = w_next_prompt_id w \<and>
     rule_core (w_engine w') = rule_core (w_engine w) \<and> (w_channel_open w' \<longrightarrow> w_channel_open w) \<and>
     (w_channel_open w \<and> \<not> w_channel_open w' \<longrightarrow> w_waiters w' = [])"

lemma same_packets_trans: "same_packets w w' \<Longrightarrow> same_packets w' w'' \<Longrightarrow> w_channel_open w' \<Longrightarrow> same_packets w w''"
  by (auto simp: same_packets_def)

lemma drain_loop_Inr:
  "worker_ok w \<Longrightarrow> w_channel_open w \<Longrightarrow> drain_loop ev pvs dis w = Inr w' \<Longrightarrow> same_packets w w'"
proof (induction pvs arbitrary: w)
  case Nil
  then show ?case using close_verdict_channel_Inr [of w ev w'] by (auto simp: same_packets_def split: if_splits)
next
  case (Cons pv pvs)
  then obtain w1 where w1: "resolve_prompt ev pv w = Inr w1" and rest: "drain_loop ev pvs dis w1 = Inr w'"
    by (auto simp: bind_result_Inr_iff)
  note r = resolve_prompt_Inr [OF Cons.prems(1) w1]
  with Cons.prems have "same_packets w w1" by (simp add: same_packets_def)
  moreover from r Cons.prems Cons.IH [OF _ _ rest] have "same_packets w1 w'" by simp
  ultimately show ?case using r Cons.prems by (blast intro: same_packets_trans)
qed

lemma drain_verdicts_Inr:
  "worker_ok w \<Longrightarrow> drain_verdicts ev pvs dis w = Inr w' \<Longrightarrow> same_packets w w'"
  using drain_loop_Inr [of w ev pvs dis w'] by (auto simp: drain_verdicts_def same_packets_def split: if_splits)

lemma idle_wait_Inr:
  assumes ok: "worker_ok w" and r: "idle_wait ev res w = Inr w'"
  shows "same_packets w w'"
proof (cases "w_channel_open w")
  case True
  then show ?thesis
    using r ok close_verdict_channel_Inr [OF ok, of ev w'] resolve_prompt_Inr [OF ok, of ev _ w']
    by (cases res) (auto simp: idle_wait_def same_packets_def)
next
  case False
  with r ok show ?thesis by (simp add: idle_wait_def same_packets_def)
qed

fun received_of :: "queue_recv \<Rightarrow> message list" where
  "received_of (RecvMessage msg) = [msg]"
| "received_of _ = []"

lemma run_beat_Inr:
  assumes ok: "worker_ok w" and id: "unat (w_next_prompt_id w) < 2 ^ 64 - 1"
    and r: "run_beat bt (errs, w) = Inr (errs', w')"
  shows "worker_ok w' \<and> account w' = account w + mset (received_of (bt_recv bt)) \<and>
    unat (w_next_prompt_id w') \<le> Suc (unat (w_next_prompt_id w)) \<and>
    rule_core (w_engine w') = rule_core (w_engine w)"
proof -
  from r obtain w1 where d: "drain_verdicts (bt_env bt) (bt_verdicts bt) (bt_disconnected bt) w = Inr w1"
    by (auto simp: run_beat_def split: if_splits sum.splits)
  from drain_verdicts_Inr [OF ok d] have s: "same_packets w w1" .
  then have ok1: "worker_ok w1" and id1: "unat (w_next_prompt_id w1) < 2 ^ 64 - 1"
    using id by (simp_all add: same_packets_def)
  show ?thesis
  proof (cases "bt_recv bt")
    case (RecvMessage msg)
    with r d have "handle_message (bt_env bt) msg w1 = Inr w'"
      by (auto simp: run_beat_def split: if_splits sum.splits)
    from handle_message_Inr [OF ok1 id1 this] s RecvMessage show ?thesis
      by (simp add: same_packets_def)
  next
    case (RecvWouldBlock res)
    with r d have "idle_wait (bt_env bt) res w1 = Inr w'"
      by (auto simp: run_beat_def split: if_splits sum.splits)
    from idle_wait_Inr [OF ok1 this] s RecvWouldBlock show ?thesis
      by (simp add: same_packets_def)
  next
    case RecvInterrupted
    with r d have "w' = w1" by (auto simp: run_beat_def split: if_splits)
    with s RecvInterrupted show ?thesis by (simp add: same_packets_def)
  next
    case RecvError
    with r d have "w' = w1" by (auto simp: run_beat_def split: if_splits)
    with s RecvError show ?thesis by (simp add: same_packets_def)
  qed
qed

definition received :: "'b beat list \<Rightarrow> message list" where
  "received bts = concat (map (\<lambda>bt. received_of (bt_recv bt)) bts)"

lemma run_loop_Inr:
  "worker_ok w \<Longrightarrow> unat (w_next_prompt_id w) + length bts < 2 ^ 64 \<Longrightarrow>
   run_loop bts (errs, w) = Inr (errs', w') \<Longrightarrow>
   worker_ok w' \<and> account w' = account w + mset (received bts) \<and>
   unat (w_next_prompt_id w') \<le> unat (w_next_prompt_id w) + length bts \<and>
   rule_core (w_engine w') = rule_core (w_engine w)"
proof (induction bts arbitrary: errs w)
  case (Cons bt bts)
  then obtain errs1 w1 where b: "run_beat bt (errs, w) = Inr (errs1, w1)"
    and rest: "run_loop bts (errs1, w1) = Inr (errs', w')"
    by (auto simp: bind_result_Inr_iff)
  have "unat (w_next_prompt_id w) < 2 ^ 64 - 1" using Cons.prems(2) by simp
  note b1 = run_beat_Inr [OF Cons.prems(1) this b]
  with Cons.prems(2) have "unat (w_next_prompt_id w1) + length bts < 2 ^ 64" by simp
  from Cons.IH [OF _ this rest] b1 show ?case by (simp add: received_def)
qed (simp add: received_def)

section \<open>Nothing but the kernel and a broken socket ends the loop\<close>

lemma inject_refusal_total: "\<exists>w'. inject_refusal ev msg w = Inr w'"
  using parse_total [of "env_stamp ev" "m_payload msg" "direction_for_hook (m_hook msg)"]
    reject_total [of "env_send_raw ev" "env_take_token ev" "w_rejecter w" _ "m_payload msg"]
  by (auto simp: inject_refusal_def split: run.split sum.split prod.split)

lemma deliver_total: "env_kernel_ok ev \<Longrightarrow> \<exists>w'. deliver ev msg obs w = Inr w'"
  using inject_refusal_total [of ev msg w]
  by (auto simp: deliver_def apply_action_def send_verdict_def Let_def)

lemma release_packets_total: "env_kernel_ok ev \<Longrightarrow> \<exists>w'. release_packets ev pv ps w = Inr w'"
proof (induction ps arbitrary: w)
  case (Cons p ps)
  obtain v u where "released_verdict (peek (env_crates ev) (env_now ev) (w_engine w)
      (pp_connection p) (pp_process p)) pv = (v, u)" by fastforce
  with Cons.prems obtain w1 where "release_packet ev pv p w = Inr w1"
    using deliver_total [of ev "pp_message p"] by (fastforce simp: release_packet_def Let_def)
  with Cons show ?case by simp
qed simp

lemma resolve_prompt_total: "env_kernel_ok ev \<Longrightarrow> \<exists>w'. resolve_prompt ev pv w = Inr w'"
  by (cases "map_of (w_waiters w) (pv_prompt_id pv)") (simp_all add: resolve_prompt_def release_packets_total)

lemma park_for_prompt_total:
  "env_kernel_ok ev \<Longrightarrow> \<exists>w'. park_for_prompt ev msg conn proc fallback undecided w = Inr w'"
  using deliver_total [of ev msg]
  by (simp add: park_for_prompt_def park_new_def deliver_fallback_def Let_def split: option.split)

lemma handle_packet_total: "\<exists>out eng'. handle_packet ev payload meta eng st = Ret (out, eng')"
  using parse_total [of "env_stamp ev" payload "pm_direction meta"]
  by (cases "parse (env_stamp ev) payload (pm_direction meta)")
    (auto simp: handle_packet_def Let_def split: sum.split prod.split)

lemma handle_message_total: "env_kernel_ok ev \<Longrightarrow> \<exists>w'. handle_message ev msg w = Inr w'"
proof -
  assume k: "env_kernel_ok ev"
  obtain out eng where
    "handle_packet ev (m_payload msg) (meta_of (w_loopback_ifindex w) msg) (w_engine w) (w_stats w) = Ret (out, eng)"
    using handle_packet_total by blast
  with k show ?thesis
    using deliver_total [OF k, of msg] park_for_prompt_total [OF k, of msg]
    by (cases out) (simp_all add: handle_message_def send_verdict_def)
qed

lemma flush_ids_total:
  "env_kernel_ok ev \<Longrightarrow> worker_ok w \<Longrightarrow> distinct rids \<Longrightarrow> set rids \<subseteq> set (map fst (w_waiters w)) \<Longrightarrow>
   \<exists>w'. flush_ids ev rids w = Inr w'"
proof (induction rids arbitrary: w)
  case (Cons rid rids)
  from Cons.prems(4) obtain p where p: "map_of (w_waiters w) rid = Some p"
    by (cases "map_of (w_waiters w) rid") (auto simp: map_of_eq_None_iff)
  let ?pv = "\<lparr>pv_prompt_id = rid, pv_verdict = pend_fallback p\<rparr>"
  obtain w1 where w1: "resolve_prompt ev ?pv w = Inr w1"
    using resolve_prompt_total [OF Cons.prems(1)] by blast
  note r = resolve_prompt_Inr [OF Cons.prems(2) w1]
  then have "set (map fst (w_waiters w1)) = set (map fst (w_waiters w)) - {rid}"
    by (simp only: delete_keys set_removeAll prompt_verdict.simps)
  with Cons.prems have "set rids \<subseteq> set (map fst (w_waiters w1))" by auto
  with Cons.IH [of w1] Cons.prems r obtain w' where "flush_ids ev rids w1 = Inr w'" by auto
  with p w1 show ?case by simp
qed simp

lemma close_verdict_channel_total:
  assumes "env_kernel_ok ev" "worker_ok w"
  shows "\<exists>w'. close_verdict_channel ev w = Inr w'"
proof -
  let ?w = "w\<lparr>w_channel_open := False\<rparr>"
  from assms(2) have "worker_ok ?w" by (simp add: worker_ok_def)
  moreover from this have "distinct (map fst (w_waiters ?w))" by (simp add: worker_ok_def tables_ok_def)
  ultimately show ?thesis using flush_ids_total [OF assms(1), of ?w "map fst (w_waiters ?w)"]
    by (simp add: close_verdict_channel_def flush_waiters_disconnected_def)
qed

lemma drain_verdicts_total:
  assumes k: "env_kernel_ok ev" and ok: "worker_ok w"
  shows "\<exists>w'. drain_verdicts ev pvs dis w = Inr w'"
proof -
  have "worker_ok v \<Longrightarrow> \<exists>w'. drain_loop ev pvs dis v = Inr w'" for v
  proof (induction pvs arbitrary: v)
    case (Cons pv pvs)
    obtain w1 where w1: "resolve_prompt ev pv v = Inr w1" using resolve_prompt_total [OF k] by blast
    with resolve_prompt_Inr [OF Cons.prems w1] Cons.IH [of w1] show ?case by auto
  qed (use close_verdict_channel_total [OF k] in auto)
  with ok show ?thesis by (simp add: drain_verdicts_def)
qed

lemma idle_wait_total:
  "env_kernel_ok ev \<Longrightarrow> worker_ok w \<Longrightarrow> \<exists>w'. idle_wait ev res w = Inr w'"
  using resolve_prompt_total [of ev] close_verdict_channel_total [of ev w]
  by (auto simp: idle_wait_def split: channel_recv.split)

text \<open>Receive errors since the last message: an idle wait or an interrupted call does not reset
  the count.\<close>

fun error_count :: "nat \<Rightarrow> queue_recv \<Rightarrow> nat" where
  "error_count n (RecvMessage _) = 0"
| "error_count n (RecvWouldBlock _) = n"
| "error_count n RecvInterrupted = n"
| "error_count n RecvError = Suc n"

definition within_budget :: "nat \<Rightarrow> queue_recv list \<Rightarrow> bool" where
  "within_budget n rs \<longleftrightarrow> (\<forall>k \<le> length rs. foldl error_count n (take k rs) < MAX_CONSECUTIVE_RECV_ERRORS)"

lemma within_budget_Cons:
  "within_budget n (r # rs) \<longleftrightarrow> n < MAX_CONSECUTIVE_RECV_ERRORS \<and> within_budget (error_count n r) rs"
proof -
  have "(\<forall>k \<le> Suc m. P k) \<longleftrightarrow> P 0 \<and> (\<forall>k \<le> m. P (Suc k))" for m and P :: "nat \<Rightarrow> bool"
    by (metis Suc_le_mono not0_implies_Suc zero_le)
  from this [of "length rs" "\<lambda>k. foldl error_count n (take k (r # rs)) < MAX_CONSECUTIVE_RECV_ERRORS"]
  show ?thesis by (simp add: within_budget_def)
qed

definition live_beat :: "'b beat \<Rightarrow> bool" where
  "live_beat bt \<longleftrightarrow> \<not> bt_stop bt \<and> env_kernel_ok (bt_env bt)"

lemma run_beat_live:
  assumes l: "live_beat bt" and ok: "worker_ok w" and n: "errs < MAX_CONSECUTIVE_RECV_ERRORS"
    and id: "unat (w_next_prompt_id w) < 2 ^ 64 - 1"
  shows "if error_count errs (bt_recv bt) < MAX_CONSECUTIVE_RECV_ERRORS
         then \<exists>w'. run_beat bt (errs, w) = Inr (error_count errs (bt_recv bt), w')
         else run_beat bt (errs, w) = Inl (Failed RecvFailed)"
proof -
  from l have k: "env_kernel_ok (bt_env bt)" and s: "\<not> bt_stop bt" by (auto simp: live_beat_def)
  obtain w1 where d: "drain_verdicts (bt_env bt) (bt_verdicts bt) (bt_disconnected bt) w = Inr w1"
    using drain_verdicts_total [OF k ok] by blast
  from drain_verdicts_Inr [OF ok d] have ok1: "worker_ok w1" by (simp add: same_packets_def)
  show ?thesis
  proof (cases "bt_recv bt")
    case (RecvMessage msg)
    with handle_message_total [OF k, of msg w1] d s show ?thesis
      by (auto simp: run_beat_def MAX_CONSECUTIVE_RECV_ERRORS_def)
  next
    case (RecvWouldBlock res)
    with idle_wait_total [OF k ok1, of res] d s n show ?thesis by (auto simp: run_beat_def)
  qed (use d s n in \<open>auto simp: run_beat_def\<close>)
qed

lemma run_loop_live:
  "list_all live_beat bts \<Longrightarrow> worker_ok w \<Longrightarrow> errs < MAX_CONSECUTIVE_RECV_ERRORS \<Longrightarrow>
   unat (w_next_prompt_id w) + length bts < 2 ^ 64 \<Longrightarrow>
   if within_budget errs (map bt_recv bts) then \<exists>errs' w'. run_loop bts (errs, w) = Inr (errs', w')
   else run_loop bts (errs, w) = Inl (Failed RecvFailed)"
proof (induction bts arbitrary: errs w)
  case Nil
  then show ?case by (simp add: within_budget_def)
next
  case (Cons bt bts)
  have id: "unat (w_next_prompt_id w) < 2 ^ 64 - 1" using Cons.prems(4) by simp
  have l: "live_beat bt" "list_all live_beat bts" using Cons.prems(1) by auto
  note b = run_beat_live [OF l(1) Cons.prems(2,3) id]
  show ?case
  proof (cases "error_count errs (bt_recv bt) < MAX_CONSECUTIVE_RECV_ERRORS")
    case True
    with b obtain w1 where w1: "run_beat bt (errs, w) = Inr (error_count errs (bt_recv bt), w1)" by auto
    note r = run_beat_Inr [OF Cons.prems(2) id w1]
    with Cons.prems(4) have "unat (w_next_prompt_id w1) + length bts < 2 ^ 64" by simp
    from Cons.IH [OF l(2) _ True this] r w1 Cons.prems(3) show ?thesis
      by (simp add: within_budget_Cons)
  next
    case False
    then have "\<not> within_budget (error_count errs (bt_recv bt)) (map bt_recv bts)"
      by (auto simp: within_budget_def)
    with False b show ?thesis by (simp add: within_budget_Cons)
  qed
qed

section \<open>Once the router is gone\<close>

definition closed :: "'b worker \<Rightarrow> bool" where
  "closed w \<longleftrightarrow> \<not> w_channel_open w \<and> w_waiters w = []"

lemma closed_core: "prompt_core w' = prompt_core w \<Longrightarrow> closed w' = closed w"
  by (simp add: closed_def prompt_core_def)

lemma deliver_closed: "closed w \<Longrightarrow> deliver ev msg obs w = Inr w' \<Longrightarrow> closed w'"
  using deliver_Inr [of ev msg obs w w'] closed_core [of w' w] by blast

lemma park_for_prompt_closed:
  assumes c: "closed w" and ok: "worker_ok w" and a: "\<not> env_accepts ev"
    and r: "park_for_prompt ev msg conn proc fallback undecided w = Inr w'"
  shows "closed w'"
proof -
  let ?n = "w\<lparr>w_next_prompt_id := (if w_next_prompt_id w = - 1 then prompt_session_seed (env_seed ev)
                                  else w_next_prompt_id w + 1)\<rparr>"
  from c ok have "w_pending_flows w (flow_key_for ev conn proc) = None"
    by (cases "w_pending_flows w (flow_key_for ev conn proc)") (auto simp: closed_def worker_ok_def tables_ok_def)
  with r have p: "park_new ev msg conn proc fallback undecided (flow_key_for ev conn proc) w = Inr w'"
    by (simp add: park_for_prompt_def Let_def)
  have "closed ?n" using c by (simp add: closed_def)
  with c p a show ?thesis
    by (auto simp: park_new_def deliver_fallback_def Let_def split: if_splits elim: deliver_closed)
qed

lemma handle_message_closed:
  assumes c: "closed w" and ok: "worker_ok w" and a: "\<not> env_accepts ev"
    and r: "handle_message ev msg w = Inr w'"
  shows "closed w'"
proof -
  from r obtain out eng where
    hp: "handle_packet ev (m_payload msg) (meta_of (w_loopback_ifindex w) msg) (w_engine w) (w_stats w) = Ret (out, eng)"
    by (auto simp: handle_message_def split: run.splits)
  let ?w = "w\<lparr>w_engine := eng\<rparr>"
  have c1: "closed ?w" and ok1: "worker_ok ?w" using c ok by (simp_all add: closed_def worker_ok_def)
  show ?thesis
  proof (cases out)
    case (Silent v)
    with r hp c show ?thesis
      by (auto simp: handle_message_def send_verdict_def closed_def Let_def split: if_splits)
  next
    case (Deliver conn proc v)
    with r hp show ?thesis by (simp add: handle_message_def deliver_closed [OF c1])
  next
    case (Prompt conn proc fallback undecided)
    with r hp show ?thesis by (simp add: handle_message_def park_for_prompt_closed [OF c1 ok1 a])
  qed
qed

lemma handle_message_channel:
  "worker_ok w \<Longrightarrow> unat (w_next_prompt_id w) < 2 ^ 64 - 1 \<Longrightarrow> handle_message ev msg w = Inr w' \<Longrightarrow>
   w_channel_open w' = w_channel_open w"
  using handle_message_Inr by blast

definition disconnects :: "'b beat \<Rightarrow> bool" where
  "disconnects bt \<longleftrightarrow> bt_disconnected bt \<or> bt_recv bt = RecvWouldBlock ChanDisconnected"

lemma drain_channel:
  "worker_ok w \<Longrightarrow> w_channel_open w \<Longrightarrow> drain_loop ev pvs dis w = Inr w' \<Longrightarrow> if dis then closed w' else w_channel_open w'"
proof (induction pvs arbitrary: w)
  case Nil
  then show ?case using close_verdict_channel_Inr [of w ev w'] by (auto simp: closed_def split: if_splits)
next
  case (Cons pv pvs)
  then obtain w1 where w1: "resolve_prompt ev pv w = Inr w1" and rest: "drain_loop ev pvs dis w1 = Inr w'"
    by (auto simp: bind_result_Inr_iff)
  from resolve_prompt_Inr [OF Cons.prems(1) w1] Cons.prems Cons.IH [OF _ _ rest] show ?case by simp
qed

lemma run_beat_cases:
  assumes r: "run_beat bt (errs, w) = Inr (errs', w')"
  obtains (message) w1 msg where "drain_verdicts (bt_env bt) (bt_verdicts bt) (bt_disconnected bt) w = Inr w1"
      "bt_recv bt = RecvMessage msg" "handle_message (bt_env bt) msg w1 = Inr w'"
  | (idle) w1 res where "drain_verdicts (bt_env bt) (bt_verdicts bt) (bt_disconnected bt) w = Inr w1"
      "bt_recv bt = RecvWouldBlock res" "idle_wait (bt_env bt) res w1 = Inr w'"
  | (other) "drain_verdicts (bt_env bt) (bt_verdicts bt) (bt_disconnected bt) w = Inr w'"
      "bt_recv bt = RecvInterrupted \<or> bt_recv bt = RecvError"
proof -
  from r obtain w1 where d: "drain_verdicts (bt_env bt) (bt_verdicts bt) (bt_disconnected bt) w = Inr w1"
    by (auto simp: run_beat_def split: if_splits sum.splits)
  show thesis
  proof (cases "bt_recv bt")
    case (RecvMessage msg)
    with r d have "handle_message (bt_env bt) msg w1 = Inr w'"
      by (auto simp: run_beat_def split: if_splits sum.splits)
    from message [OF d RecvMessage this] show thesis .
  next
    case (RecvWouldBlock res)
    with r d have "idle_wait (bt_env bt) res w1 = Inr w'"
      by (auto simp: run_beat_def split: if_splits sum.splits)
    from idle [OF d RecvWouldBlock this] show thesis .
  next
    case RecvInterrupted
    with r d have "w' = w1" by (auto simp: run_beat_def split: if_splits)
    with other d RecvInterrupted show thesis by blast
  next
    case RecvError
    with r d have "w' = w1" by (auto simp: run_beat_def split: if_splits)
    with other d RecvError show thesis by blast
  qed
qed

lemma drain_verdicts_channel:
  assumes ok: "worker_ok w" and d: "drain_verdicts ev pvs dis w = Inr w1"
  shows "(w_channel_open w \<longrightarrow> (if dis then closed w1 else w_channel_open w1)) \<and> (closed w \<longrightarrow> closed w1)"
  using drain_channel [OF ok, of ev pvs dis w1] d by (auto simp: drain_verdicts_def closed_def)

lemma idle_wait_channel:
  assumes ok: "worker_ok w" and i: "idle_wait ev res w = Inr w'"
  shows "(w_channel_open w \<longrightarrow> (if res = ChanDisconnected then closed w' else w_channel_open w')) \<and>
    (closed w \<longrightarrow> closed w')"
  using i close_verdict_channel_Inr [OF ok, of ev w'] resolve_prompt_Inr [OF ok, of ev _ w']
  by (cases res) (auto simp: idle_wait_def closed_def split: if_splits)

lemma run_beat_channel:
  assumes ok: "worker_ok w" and id: "unat (w_next_prompt_id w) < 2 ^ 64 - 1"
    and r: "run_beat bt (errs, w) = Inr (errs', w')"
  shows "(w_channel_open w \<and> \<not> disconnects bt \<longrightarrow> w_channel_open w') \<and>
    ((w_channel_open w \<and> disconnects bt \<or> closed w) \<and> \<not> env_accepts (bt_env bt) \<longrightarrow> closed w')"
  using r
proof (cases rule: run_beat_cases)
  case (message w1 msg)
  from drain_verdicts_Inr [OF ok message(1)] id
  have ok1: "worker_ok w1" and id1: "unat (w_next_prompt_id w1) < 2 ^ 64 - 1"
    by (simp_all add: same_packets_def)
  from drain_verdicts_channel [OF ok message(1)] handle_message_Inr [OF ok1 id1 message(3)]
    handle_message_closed [OF _ ok1 _ message(3)] message(2)
  show ?thesis by (auto simp: disconnects_def split: if_splits)
next
  case (idle w1 res)
  from drain_verdicts_Inr [OF ok idle(1)] have ok1: "worker_ok w1" by (simp add: same_packets_def)
  from drain_verdicts_channel [OF ok idle(1)] idle_wait_channel [OF ok1 idle(3)] idle(2)
  show ?thesis by (auto simp: disconnects_def split: if_splits)
next
  case other
  from drain_verdicts_channel [OF ok other(1)] other(2) show ?thesis
    by (auto simp: disconnects_def split: if_splits)
qed

lemma run_loop_channel:
  "worker_ok w \<Longrightarrow> unat (w_next_prompt_id w) + length bts < 2 ^ 64 \<Longrightarrow>
   run_loop bts (errs, w) = Inr (errs', w') \<Longrightarrow>
   (w_channel_open w \<and> (\<forall>bt \<in> set bts. \<not> disconnects bt) \<longrightarrow> w_channel_open w') \<and>
   (closed w \<and> (\<forall>bt \<in> set bts. \<not> env_accepts (bt_env bt)) \<longrightarrow> closed w')"
proof (induction bts arbitrary: errs w)
  case (Cons bt bts)
  then obtain errs1 w1 where b: "run_beat bt (errs, w) = Inr (errs1, w1)"
    and rest: "run_loop bts (errs1, w1) = Inr (errs', w')"
    by (auto simp: bind_result_Inr_iff)
  have id: "unat (w_next_prompt_id w) < 2 ^ 64 - 1" using Cons.prems(2) by simp
  note b1 = run_beat_Inr [OF Cons.prems(1) id b]
  with Cons.prems(2) have "unat (w_next_prompt_id w1) + length bts < 2 ^ 64" by simp
  from Cons.IH [OF _ this rest] b1 run_beat_channel [OF Cons.prems(1) id b] show ?case by auto
qed simp

lemma run_loop_append: "run_loop (xs @ ys) st = bind_result (run_loop xs st) (run_loop ys)"
proof (induction xs arbitrary: st)
  case (Cons x xs)
  then show ?case by (cases "run_beat x st") simp_all
qed simp

section \<open>Accounting\<close>

text \<open>A law of what the worker reports: kept by a delivered verdict, and by everything that reports
  nothing.\<close>

definition outputs :: "'b worker \<Rightarrow> observed list \<times> observed list \<times> stats" where
  "outputs w = (w_feed w, w_events w, w_stats w)"

locale output_law =
  fixes P :: "'b worker \<Rightarrow> bool"
  assumes law_deliver: "P w \<Longrightarrow> deliver ev msg obs w = Inr w' \<Longrightarrow> P w'"
    and law_frame: "P w \<Longrightarrow> outputs w' = outputs w \<Longrightarrow> P w'"
begin

lemma law_release: "P w \<Longrightarrow> release_packets ev pv ps w = Inr w' \<Longrightarrow> P w'"
proof (induction ps arbitrary: w)
  case (Cons p ps)
  then obtain w1 where w1: "release_packet ev pv p w = Inr w1" and rest: "release_packets ev pv ps w1 = Inr w'"
    by (auto simp: bind_result_Inr_iff)
  obtain v u where vu: "released_verdict (peek (env_crates ev) (env_now ev) (w_engine w)
      (pp_connection p) (pp_process p)) pv = (v, u)" by fastforce
  let ?w = "case v_source v of FromRule rid \<Rightarrow> w\<lparr>w_engine := count_hit rid (w_engine w)\<rparr> | _ \<Rightarrow> w"
  have "P ?w" by (rule law_frame [OF Cons.prems(1)]) (simp add: outputs_def split: verdict_source.split)
  moreover from w1 have "deliver ev (pp_message p) \<lparr>obs_connection = pp_connection p,
      obs_process = pp_process p, obs_verdict = v, obs_undecided = u\<rparr> ?w = Inr w1"
    by (simp add: release_packet_def vu Let_def)
  ultimately have "P w1" by (rule law_deliver)
  with Cons.IH rest show ?case by blast
qed simp

lemma law_resolve: "P w \<Longrightarrow> resolve_prompt ev pv w = Inr w' \<Longrightarrow> P w'"
proof (cases "map_of (w_waiters w) (pv_prompt_id pv)")
  case (Some p)
  assume a: "P w" "resolve_prompt ev pv w = Inr w'"
  let ?w = "w\<lparr>w_waiters := AList.delete (pv_prompt_id pv) (w_waiters w),
               w_pending_flows := (w_pending_flows w)(pend_flow p := None)\<rparr>"
  have "P ?w" by (rule law_frame [OF a(1)]) (simp add: outputs_def)
  with a Some law_release show ?thesis by (simp add: resolve_prompt_def)
qed (simp add: resolve_prompt_def)

lemma law_flush: "P w \<Longrightarrow> flush_ids ev rids w = Inr w' \<Longrightarrow> P w'"
proof (induction rids arbitrary: w)
  case (Cons rid rids)
  then obtain v w1 where "resolve_prompt ev \<lparr>pv_prompt_id = rid, pv_verdict = v\<rparr> w = Inr w1"
    and rest: "flush_ids ev rids w1 = Inr w'"
    by (cases "map_of (w_waiters w) rid") (auto simp: bind_result_Inr_iff)
  with Cons law_resolve show ?case by blast
qed simp

lemma law_close: "P w \<Longrightarrow> close_verdict_channel ev w = Inr w' \<Longrightarrow> P w'"
proof -
  assume a: "P w" "close_verdict_channel ev w = Inr w'"
  have "P (w\<lparr>w_channel_open := False\<rparr>)" by (rule law_frame [OF a(1)]) (simp add: outputs_def)
  with a(2) law_flush show ?thesis
    unfolding close_verdict_channel_def flush_waiters_disconnected_def by blast
qed

lemma law_drain: "P w \<Longrightarrow> drain_loop ev pvs dis w = Inr w' \<Longrightarrow> P w'"
proof (induction pvs arbitrary: w)
  case Nil
  then show ?case using law_close by (auto split: if_splits)
next
  case (Cons pv pvs)
  then obtain w1 where "resolve_prompt ev pv w = Inr w1" "drain_loop ev pvs dis w1 = Inr w'"
    by (auto simp: bind_result_Inr_iff)
  with Cons law_resolve show ?case by blast
qed

lemma law_park: "P w \<Longrightarrow> park_for_prompt ev msg conn proc fallback undecided w = Inr w' \<Longrightarrow> P w'"
proof -
  assume a: "P w" "park_for_prompt ev msg conn proc fallback undecided w = Inr w'"
  have new: "P w'" if v: "P v" "park_new ev msg conn proc fallback undecided flow v = Inr w'" for v flow
  proof -
    have n: "P (v\<lparr>w_next_prompt_id := n\<rparr>)" for n
      by (rule law_frame [OF v(1)]) (simp add: outputs_def)
    from v(2) law_deliver [OF v(1)] law_deliver [OF n] law_frame [OF v(1), of w'] show ?thesis
      unfolding park_new_def deliver_fallback_def Let_def
      by (auto simp: outputs_def split: if_split_asm)
  qed
  show ?thesis
  proof (cases "w_pending_flows w (flow_key_for ev conn proc)")
    case None
    with a new show ?thesis by (simp add: park_for_prompt_def Let_def)
  next
    case (Some rid)
    have f: "P (w\<lparr>w_pending_flows := (w_pending_flows w)(flow_key_for ev conn proc := None)\<rparr>)"
      by (rule law_frame [OF a(1)]) (simp add: outputs_def)
    with a Some new [OF f] law_deliver [OF a(1)] law_frame [OF a(1)] show ?thesis
      by (cases "map_of (w_waiters w) rid")
        (auto simp: park_for_prompt_def deliver_fallback_def Let_def outputs_def split: if_splits)
  qed
qed

lemma law_message: "P w \<Longrightarrow> handle_message ev msg w = Inr w' \<Longrightarrow> P w'"
proof -
  assume a: "P w" "handle_message ev msg w = Inr w'"
  from a(2) obtain out eng where
    hp: "handle_packet ev (m_payload msg) (meta_of (w_loopback_ifindex w) msg) (w_engine w) (w_stats w) = Ret (out, eng)"
    by (auto simp: handle_message_def split: run.splits)
  have w1: "P (w\<lparr>w_engine := eng\<rparr>)" by (rule law_frame [OF a(1)]) (simp add: outputs_def)
  show ?thesis
  proof (cases out)
    case (Silent v)
    with a hp law_frame [OF a(1)] show ?thesis
      by (auto simp: handle_message_def send_verdict_def outputs_def Let_def split: if_splits)
  next
    case Deliver
    with a hp law_deliver [OF w1] show ?thesis by (simp add: handle_message_def)
  next
    case Prompt
    with a hp law_park [OF w1] show ?thesis by (simp add: handle_message_def)
  qed
qed

lemma law_idle: "P w \<Longrightarrow> idle_wait ev res w = Inr w' \<Longrightarrow> P w'"
  using law_resolve [of w ev _ w'] law_close [of w ev w']
  by (cases res) (simp_all add: idle_wait_def split: if_splits)

lemma law_drain_verdicts: "P w \<Longrightarrow> drain_verdicts ev pvs dis w = Inr w' \<Longrightarrow> P w'"
  using law_drain [of w ev pvs dis w'] by (simp add: drain_verdicts_def split: if_splits)

lemma law_beat:
  assumes w: "P w" and r: "run_beat bt (errs, w) = Inr (errs', w')"
  shows "P w'"
  using r
proof (cases rule: run_beat_cases)
  case (message w1 msg)
  from law_message [OF law_drain_verdicts [OF w message(1)] message(3)] show ?thesis .
next
  case (idle w1 res)
  from law_idle [OF law_drain_verdicts [OF w idle(1)] idle(3)] show ?thesis .
next
  case other
  from law_drain_verdicts [OF w other(1)] show ?thesis .
qed

lemma law_run: "P w \<Longrightarrow> run_loop bts (errs, w) = Inr (errs', w') \<Longrightarrow> P w'"
proof (induction bts arbitrary: errs w)
  case (Cons bt bts)
  then obtain errs1 w1 where "run_beat bt (errs, w) = Inr (errs1, w1)" "run_loop bts (errs1, w1) = Inr (errs', w')"
    by (auto simp: bind_result_Inr_iff)
  with Cons law_beat show ?case by blast
qed simp

end

definition refused :: "observed \<Rightarrow> bool" where
  "refused obs \<longleftrightarrow> v_action (obs_verdict obs) \<noteq> Allow"

definition audit_ok :: "stats \<Rightarrow> 'b worker \<Rightarrow> bool" where
  "audit_ok st w \<longleftrightarrow>
     w_events w = filter refused (w_feed w) \<and>
     st_total (w_stats w) = st_total st + of_nat (length (w_feed w)) \<and>
     st_denied (w_stats w) = st_denied st + of_nat (length (w_events w)) \<and>
     st_allowed (w_stats w) = st_allowed st + of_nat (length (w_feed w) - length (w_events w))"

lemma deliver_audit:
  assumes a: "audit_ok st w" and d: "deliver ev msg obs w = Inr w'"
  shows "audit_ok st w'"
proof -
  note D = deliver_Inr [OF d]
  have ev: "w_events w' = (if refused obs then w_events w @ [obs] else w_events w)"
  proof -
    from d obtain w1 where w1: "apply_action ev msg (v_action (obs_verdict obs)) w = Inr w1"
      and e: "w_events w' = (if refused obs then w_events w1 @ [obs] else w_events w1)"
      by (cases "refused obs") (auto simp: deliver_def bind_result_Inr_iff Let_def refused_def)
    from w1 have "w_events w1 = w_events w"
      using inject_refusal_Inr [of ev msg w]
      by (auto simp: apply_action_def bind_result_Inr_iff send_verdict_def split: if_splits)
    with e show ?thesis by simp
  qed
  have le: "length (filter refused (w_feed w)) \<le> length (w_feed w)" by (rule length_filter_le)
  show ?thesis
    using a D ev le
    by (cases "v_action (obs_verdict obs)")
      (auto simp: audit_ok_def refused_def record_allow_def record_deny_def Suc_diff_le algebra_simps)
qed

interpretation audit: output_law "audit_ok st" for st
proof
  show "audit_ok st w \<Longrightarrow> deliver ev msg obs w = Inr w' \<Longrightarrow> audit_ok st w'" for w ev msg obs w'
    by (rule deliver_audit)
  show "audit_ok st w \<Longrightarrow> outputs w' = outputs w \<Longrightarrow> audit_ok st w'" for w w'
    by (simp add: audit_ok_def outputs_def)
qed

section \<open>Runs from a fresh worker\<close>

lemma seed_bound: "unat (prompt_session_seed r) < 2 ^ 63"
proof -
  have "prompt_session_seed r = take_bit 63 r"
    by (simp add: prompt_session_seed_def take_bit_eq_mask mask_eq_exp_minus_1)
  then show ?thesis using take_bit_nat_less_exp [of 63 "unat r"] by (simp add: unsigned_take_bit_eq)
qed

lemma spawn_fresh:
  assumes "spawn_worker fo lo bound eng rj st r = Inr w"
  shows "worker_ok w" "account w = {#}" "w_channel_open w" "unat (w_next_prompt_id w) < 2 ^ 63"
    "audit_ok st w" "w_waiters w = []" "w_engine w = eng" "w_sent w = []"
  using assms seed_bound [of r]
  by (auto simp: spawn_worker_def worker_ok_def tables_ok_def account_def verdicted_def parked_def
      audit_ok_def refused_def split: if_splits)

lemma spawned_run:
  assumes s: "spawn_worker fo lo bound eng rj st r = Inr w0" and l: "list_all live_beat bts"
    and b: "within_budget 0 (map bt_recv bts)" and n: "length bts < 2 ^ 63"
  obtains errs w where "run_loop bts (0, w0) = Inr (errs, w)" "worker_ok w"
    "verdicted w + parked w = mset (received bts)"
proof -
  have id: "unat (w_next_prompt_id w0) + length bts < 2 ^ 64" using spawn_fresh(4) [OF s] n by simp
  from run_loop_live [OF l spawn_fresh(1) [OF s] _ id, of 0] b
  obtain errs w where r: "run_loop bts (0, w0) = Inr (errs, w)"
    by (auto simp: MAX_CONSECUTIVE_RECV_ERRORS_def)
  from run_loop_Inr [OF spawn_fresh(1) [OF s] id r] spawn_fresh(2) [OF s] that r show thesis
    by (simp add: account_def)
qed

lemma parked_bound:
  "\<forall>(rid, p) \<in> set ws. length (pend_packets p) \<le> k \<Longrightarrow> size (parked_of ws) \<le> k * length ws"
  by (induction ws) (auto simp: parked_of_def)

lemma tables_prompt: "tables_ok ws flows \<Longrightarrow> (rid, p) \<in> set ws \<Longrightarrow> prompt_ok flows rid p"
  by (simp add: tables_ok_def map_of_eq_Some_iff)

text \<open>C16: no packet is lost and none is answered twice.  Started by \<open>spawn\<close>, while the kernel takes
  verdicts and the socket stays within its error budget the loop keeps running, and at every
  point each packet received has exactly one kernel verdict or is parked under a prompt.  At most
  512 prompts of one to four packets, 2048 packets in all, are parked.\<close>

theorem every_packet_is_answered_once_or_parked:
  assumes "spawn_worker fail_open lo bound eng rj st r = Inr w0"
    and "list_all live_beat bts" and "within_budget 0 (map bt_recv bts)" and "length bts < 2 ^ 63"
  shows "\<exists>errs w. run_loop bts (0, w0) = Inr (errs, w) \<and>
    verdicted w + parked w = mset (received bts) \<and>
    length (w_waiters w) \<le> 512 \<and> size (parked w) \<le> 2048 \<and>
    (\<forall>(rid, p) \<in> set (w_waiters w). 1 \<le> length (pend_packets p) \<and> length (pend_packets p) \<le> 4 \<and>
       w_pending_flows w (pend_flow p) = Some rid)"
proof (rule spawned_run [OF assms])
  fix errs w
  assume r: "run_loop bts (0, w0) = Inr (errs, w)" and ok: "worker_ok w"
    and acc: "verdicted w + parked w = mset (received bts)"
  from ok have t: "tables_ok (w_waiters w) (w_pending_flows w)" by (simp add: worker_ok_def)
  then have len: "length (w_waiters w) \<le> 512" by (simp add: tables_ok_def MAX_PARKED_PROMPTS_def)
  have p: "1 \<le> length (pend_packets p) \<and> length (pend_packets p) \<le> 4 \<and>
      w_pending_flows w (pend_flow p) = Some rid" if "(rid, p) \<in> set (w_waiters w)" for rid p
    using tables_prompt [OF t that] by (auto simp: prompt_ok_def MAX_PACKETS_PER_PROMPT_def)
  have "size (parked w) \<le> 4 * length (w_waiters w)"
    unfolding parked_def using p by (intro parked_bound) auto
  with len have "size (parked w) \<le> 2048" by simp
  with r acc len p show ?thesis by auto
qed

text \<open>C31: losing the prompt router strands nothing.  From the iteration that notices the verdict
  channel is closed, with the request channel closed too, every packet received before or after
  has its kernel verdict and none is parked.\<close>

theorem router_loss_strands_nothing:
  assumes "spawn_worker fail_open lo bound eng rj st r = Inr w0"
    and "list_all live_beat (xs @ bt # ys)" and "within_budget 0 (map bt_recv (xs @ bt # ys))"
    and "length (xs @ bt # ys) < 2 ^ 63"
    and "\<forall>b \<in> set xs. \<not> disconnects b" and "disconnects bt"
    and "\<forall>b \<in> set (bt # ys). \<not> env_accepts (bt_env b)"
  shows "\<exists>errs w. run_loop (xs @ bt # ys) (0, w0) = Inr (errs, w) \<and>
    w_waiters w = [] \<and> verdicted w = mset (received (xs @ bt # ys))"
proof (rule spawned_run [OF assms(1-4)])
  fix errs w
  assume r: "run_loop (xs @ bt # ys) (0, w0) = Inr (errs, w)"
    and acc: "verdicted w + parked w = mset (received (xs @ bt # ys))"
  from r obtain e1 w1 e2 w2 where x: "run_loop xs (0, w0) = Inr (e1, w1)"
    and b: "run_beat bt (e1, w1) = Inr (e2, w2)" and y: "run_loop ys (e2, w2) = Inr (errs, w)"
    by (auto simp: run_loop_append bind_result_Inr_iff)
  note f = spawn_fresh [OF assms(1)]
  have bound: "unat (w_next_prompt_id w0) + length (xs @ bt # ys) < 2 ^ 64" using f(4) assms(4) by simp
  have bx: "unat (w_next_prompt_id w0) + length xs < 2 ^ 64" using bound by simp
  note xr = run_loop_Inr [OF f(1) bx x]
  then have ok1: "worker_ok w1" and id1: "unat (w_next_prompt_id w1) + length ys < 2 ^ 64 - 1"
    using bound by auto
  then have id1': "unat (w_next_prompt_id w1) < 2 ^ 64 - 1" by simp
  note br = run_beat_Inr [OF ok1 id1' b]
  then have ok2: "worker_ok w2" and id2: "unat (w_next_prompt_id w2) + length ys < 2 ^ 64" using id1 by auto
  have "w_channel_open w1" using run_loop_channel [OF f(1) bx x] f(3) assms(5) by blast
  then have "closed w2" using run_beat_channel [OF ok1 id1' b] assms(6,7) by simp
  then have "closed w" using run_loop_channel [OF ok2 id2 y] assms(7) by simp
  then have "w_waiters w = []" by (simp add: closed_def)
  moreover from this have "parked w = {#}" by (simp add: parked_def)
  ultimately show ?thesis using r acc by simp
qed



text \<open>Every refusal is audited.  At every point of a run the event rows are exactly the
  observations whose verdict was not allow, in order, and the counters are their numbers.\<close>

theorem every_refusal_is_recorded:
  assumes "spawn_worker fail_open lo bound eng rj st r = Inr w0"
    and "run_loop bts (0, w0) = Inr (errs, w)"
  shows "w_events w = filter refused (w_feed w) \<and>
    st_total (w_stats w) = st_total st + of_nat (length (w_feed w)) \<and>
    st_denied (w_stats w) = st_denied st + of_nat (length (w_events w)) \<and>
    st_allowed (w_stats w) = st_allowed st + of_nat (length (w_feed w) - length (w_events w))"
  using audit.law_run [OF spawn_fresh(5) [OF assms(1)] assms(2)] by (simp add: audit_ok_def)

section \<open>Answers of a resolved prompt\<close>

text \<open>The kernel verdict of a parked packet, by the rules in force when its prompt resolves.\<close>

definition released_as :: "decision \<Rightarrow> verdict \<Rightarrow> nfq_verdict" where
  "released_as d pv =
     (case d of
        Resolved current \<Rightarrow>
          if v_action current \<noteq> Allow then Drop
          else if v_source pv = FromDefaultPolicy \<or> v_source pv = Timeout then Accept
          else nfq_verdict_for (v_action pv)
      | NeedsPrompt _ _ \<Rightarrow> nfq_verdict_for (v_action pv))"

lemma nfq_Drop: "nfq_verdict_for a = Drop \<longleftrightarrow> a \<noteq> Allow" "nfq_verdict_for a = Accept \<longleftrightarrow> a = Allow"
  by (cases a; simp)+

lemma peek_source:
  "peek E now eng conn proc = Resolved v \<Longrightarrow> v_action v = Allow \<Longrightarrow> \<exists>rid. v_source v = FromRule rid"
  by (auto simp: peek_def from_policy_def from_rule_def split: match.splits if_splits)

lemma released_verdict_as:
  assumes "d = peek E now eng conn proc"
  shows "nfq_verdict_for (v_action (fst (released_verdict d pv))) = released_as d pv"
proof (cases d)
  case (Resolved v)
  with assms have src: "v_action v = Allow \<longrightarrow> (\<exists>rid. v_source v = FromRule rid)"
    using peek_source [of E now eng conn proc v] by simp
  show ?thesis
    unfolding Resolved using src by (cases "v_source pv") (auto simp: released_verdict_def released_as_def nfq_Drop)
qed (simp add: released_verdict_def released_as_def)

lemma released_as_core:
  "rule_core eng' = rule_core eng \<Longrightarrow>
   released_as (peek E now eng' conn proc) pv = released_as (peek E now eng conn proc) pv"
  using peek_rule_core [of eng' eng E now] by simp

lemma release_packets_sent:
  "release_packets ev pv ps w = Inr w' \<Longrightarrow>
   w_sent w' = w_sent w @ map (\<lambda>p. (pp_message p,
      released_as (peek (env_crates ev) (env_now ev) (w_engine w) (pp_connection p) (pp_process p)) pv)) ps"
proof (induction ps arbitrary: w)
  case (Cons p ps)
  then obtain w1 where w1: "release_packet ev pv p w = Inr w1" and rest: "release_packets ev pv ps w1 = Inr w'"
    by (auto simp: bind_result_Inr_iff)
  obtain v u where vu: "released_verdict (peek (env_crates ev) (env_now ev) (w_engine w)
      (pp_connection p) (pp_process p)) pv = (v, u)" by fastforce
  let ?w = "case v_source v of FromRule rid \<Rightarrow> w\<lparr>w_engine := count_hit rid (w_engine w)\<rparr> | _ \<Rightarrow> w"
  from w1 have "deliver ev (pp_message p) \<lparr>obs_connection = pp_connection p,
      obs_process = pp_process p, obs_verdict = v, obs_undecided = u\<rparr> ?w = Inr w1"
    by (simp add: release_packet_def vu Let_def)
  from deliver_Inr [OF this] have "w_sent w1 = w_sent w @ [(pp_message p, nfq_verdict_for (v_action v))]"
    by (simp split: verdict_source.splits)
  moreover have "nfq_verdict_for (v_action v) =
      released_as (peek (env_crates ev) (env_now ev) (w_engine w) (pp_connection p) (pp_process p)) pv"
    using released_verdict_as [OF refl, of "env_crates ev" "env_now ev" "w_engine w" "pp_connection p" "pp_process p" pv]
    by (simp add: vu)
  moreover have "rule_core (w_engine w1) = rule_core (w_engine w)" using release_packet_Inr [OF w1] by simp
  ultimately show ?case using Cons.IH [OF rest] released_as_core [of "w_engine w1" "w_engine w"] by simp
qed simp

text \<open>C28: a prompt's answer never overrides the rules.  When a prompt resolves, each packet
  parked under it is judged again by the rules in force: a refusal decided since wins over any
  answer, a rule's allow wins over a fallback nobody chose, and the answer decides otherwise.
  An answer to a prompt that is no longer open does nothing.\<close>

theorem prompt_answers_respect_the_rules:
  assumes "resolve_prompt ev pv w = Inr w'"
  shows "w_sent w' = w_sent w @
    (case map_of (w_waiters w) (pv_prompt_id pv) of
       None \<Rightarrow> []
     | Some pending \<Rightarrow>
         map (\<lambda>p. (pp_message p, released_as (peek (env_crates ev) (env_now ev) (w_engine w)
                (pp_connection p) (pp_process p)) (pv_verdict pv))) (pend_packets pending))"
  using assms
  by (auto simp: resolve_prompt_def dest: release_packets_sent split: option.splits)

section \<open>Who lets a packet through\<close>

lemma attribute_connection_simps [simp]:
  "c_direction (attribute_connection ev owner proc conn) = c_direction conn"
  "c_dst_ip (attribute_connection ev owner proc conn) = c_dst_ip conn"
  by (auto simp: attribute_connection_def Let_def with_process_def with_host_verified_def split: option.splits)

lemma parse_direction: "parse stamp buf dir = Ret (Inr c) \<Longrightarrow> c_direction c = dir"
  by (cases rule: parse_Inr_cases) (auto simp: new_connection_def dest: finalize_Inr)

lemma peek_rule:
  assumes "peek E now eng conn proc = Resolved v" and "v_action v = Allow"
  obtains r where "r \<in> set (e_rules eng)" "r_action r = Allow" "r_enabled r" "\<not> is_expired E r now"
    "scope_matches E (r_scope r) conn proc" "v = from_rule Allow (r_id r)"
proof -
  from assms obtain r where l: "lookup E (e_rules eng) conn proc now = MatchRule r"
    and v: "v = from_rule (r_action r) (r_id r)"
    by (auto simp: peek_def from_policy_def split: match.splits if_splits)
  from lookup_rule_definite [OF l] v assms(2) that [of r] show thesis
    by (auto simp: is_live_def definite_def from_rule_def)
qed


text \<open>Nothing inbound is asked about, and unless the policy admits inbound traffic by default
  an inbound packet is accepted only through a live rule of the rule set that allows it, that
  names the inbound direction and matches the packet's own connection.\<close>

theorem inbound_needs_an_inbound_rule:
  assumes "handle_packet ev payload meta eng st = Ret (out, eng')" and "pm_direction meta = Inbound"
  shows "case out of
      Prompt _ _ _ _ \<Rightarrow> False
    | Silent v \<Rightarrow> v = nfq_verdict_for (pol_inbound_action (e_policy eng))
    | Deliver conn proc v \<Rightarrow>
        v_action v = Allow \<and> pol_inbound_action (e_policy eng) \<noteq> Allow \<longrightarrow>
        (\<exists>r \<in> set (e_rules eng). r_action r = Allow \<and> r_enabled r \<and> \<not> is_expired (env_crates ev) r (env_now ev) \<and>
           s_direction (r_scope r) = Some Inbound \<and> scope_matches (env_crates ev) (r_scope r) conn proc \<and>
           v = from_rule Allow (r_id r))"
  using assms(1)
proof (cases rule: handle_packet_cases)
  case (unparsed err)
  with assms(2) show ?thesis by (simp add: inbound_default_def)
next
  case (own conn pid proc)
  with parse_direction [OF own(1)] assms(2) show ?thesis by simp
next
  case (decided conn0 owner conn proc d)
  have dir: "c_direction conn = Inbound" using parse_direction [OF decided(1)] assms(2) decided(4) by simp
  show ?thesis
  proof (cases d)
    case (NeedsPrompt f u)
    with decided(6,7) dir show ?thesis
      by (auto simp: outcome_of_def inbound_default_def rule_core_def from_policy_def)
  next
    case (Resolved v)
    have "\<exists>r \<in> set (e_rules eng). r_action r = Allow \<and> r_enabled r \<and> \<not> is_expired (env_crates ev) r (env_now ev) \<and>
        s_direction (r_scope r) = Some Inbound \<and> scope_matches (env_crates ev) (r_scope r) conn proc \<and>
        v = from_rule Allow (r_id r)" if al: "v_action v = Allow"
    proof -
      from decided(5) Resolved have "peek (env_crates ev) (env_now ev) eng conn proc = Resolved v" by simp
      then obtain r where r: "r \<in> set (e_rules eng)" "r_action r = Allow" "r_enabled r"
          "\<not> is_expired (env_crates ev) r (env_now ev)"
          "scope_matches (env_crates ev) (r_scope r) conn proc" "v = from_rule Allow (r_id r)"
        using al by (rule peek_rule)
      from r(5) have "matches_known_connection (env_crates ev) (r_scope r) conn"
        by (simp add: scope_matches_def matches_connection_def)
      from matches_known_direction [OF this] dir have "s_direction (r_scope r) = Some Inbound"
        by (simp split: option.splits)
      with r show ?thesis by blast
    qed
    with decided(7) Resolved show ?thesis by (simp add: outcome_of_def)
  qed
qed

lemma attributed_flow:
  "c_direction (attribute_connection ev owner proc conn) = c_direction conn \<and>
   c_protocol (attribute_connection ev owner proc conn) = c_protocol conn \<and>
   c_src_ip (attribute_connection ev owner proc conn) = c_src_ip conn \<and>
   c_src_port (attribute_connection ev owner proc conn) = c_src_port conn \<and>
   c_dst_ip (attribute_connection ev owner proc conn) = c_dst_ip conn \<and>
   c_dst_port (attribute_connection ev owner proc conn) = c_dst_port conn"
  by (auto simp: attribute_connection_def Let_def with_process_def with_host_verified_def split: option.splits)


section \<open>A concrete world\<close>

definition example_crates :: ext where
  "example_crates = \<lparr>ipnet_contains = (\<lambda>_ _. True), dt_millis = dt_instant\<rparr>"

definition example_env :: "(connection \<Rightarrow> u32 option \<Rightarrow> (u32 \<times> process) option) \<Rightarrow> bool \<Rightarrow> nat env" where
  "example_env owner accepts =
     \<lparr>env_crates = example_crates, env_now = 0, env_stamp = (Uuid 1, DateTime 0), env_fresh = Uuid 9,
      env_seed = 3, env_sealed = (\<lambda>_. False), env_owner = owner, env_is_self = (\<lambda>pid. pid = 5),
      env_cached_host = (\<lambda>_. None), env_send_raw = (\<lambda>_ _ _. True), env_take_token = (\<lambda>b. (True, b)),
      env_accepts = accepts, env_kernel_ok = True\<rparr>"

definition example_payload :: bytes where
  "example_payload =
     [0x45, 0, 0, 0, 0, 0, 0, 0, 64, 17, 0, 0, 1, 2, 3, 4, 5, 6, 7, 8, 0x14, 0xe9, 0, 53]"

definition example_message :: message where
  "example_message = \<lparr>m_packet_id = 1, m_payload = example_payload, m_uid = Some 0, m_gid = Some 0,
     m_hook = 3, m_outdev = 2\<rparr>"

definition example_beat :: "bool \<Rightarrow> bool \<Rightarrow> queue_recv \<Rightarrow> nat beat" where
  "example_beat accepts disconnected rv =
     \<lparr>bt_stop = False, bt_env = example_env (\<lambda>_ _. None) accepts, bt_verdicts = [],
      bt_disconnected = disconnected, bt_recv = rv\<rparr>"

definition example_rejecter :: "nat rejecter" where
  "example_rejecter = \<lparr>rj_v4 = None, rj_v6 = None, rj_icmp4 = None, rj_icmp6 = None, rj_warned = False, rj_budget = 0\<rparr>"

definition example_engine :: "rule list \<Rightarrow> engine" where
  "example_engine rules =
     \<lparr>e_rules = rules, e_policy = profile_policy Balanced, e_hits = (\<lambda>_. None), e_notified = 0\<rparr>"

definition example_rule :: rule where
  "example_rule = new_rule (Uuid 7, DateTime 0) ''deny-all'' Deny any_scope"

lemma example_peek:
  assumes "c_direction conn = Outbound"
  shows "peek example_crates 0 (example_engine [example_rule]) conn proc = Resolved (from_rule Deny (Uuid 7))"
proof -
  have "definite example_crates conn proc example_rule"
    using assms by (simp add: definite_def scope_matches_def matches_process_def matches_connection_def
        matches_known_connection_def any_scope_def example_rule_def new_rule_def)
  then have "lookup example_crates [example_rule] conn proc 0 = MatchRule example_rule"
    using definite_not_uncertain [of example_crates conn proc example_rule]
    by (simp add: lookup_def finish_walk_def walk_init_def lookup_walk_Cons is_live_def is_expired_def
        generic_allow_def example_rule_def new_rule_def)
  then show ?thesis by (simp add: peek_def example_engine_def example_rule_def new_rule_def)
qed

lemma example_spawn:
  obtains w0 where "spawn_worker False 1 True (example_engine rules) example_rejecter new_stats 5 = Inr w0"
    "w_waiters w0 = []"
  by (auto simp: spawn_worker_def)

lemma example_live: "live_beat (example_beat a d rv)"
  by (simp add: live_beat_def example_beat_def example_env_def)

lemma example_budget: "length rs < 100 \<Longrightarrow> within_budget 0 rs"
proof -
  assume l: "length rs < 100"
  have "foldl error_count n xs \<le> n + length xs" for n xs
  proof (induction xs arbitrary: n)
    case (Cons r rs)
    have "error_count n r \<le> Suc n" by (cases r) auto
    with Cons [of "error_count n r"] show ?case by simp
  qed simp
  then have "foldl error_count 0 (take k rs) \<le> length (take k rs)" for k by (metis add_0)
  with l show ?thesis
    unfolding within_budget_def MAX_CONSECUTIVE_RECV_ERRORS_def
    by (metis le_less_trans length_take min.cobounded1 nle_le)
qed

theorem every_packet_is_answered_once_or_parked_witness:
  "\<exists>w0 errs w. spawn_worker False 1 True (example_engine []) example_rejecter new_stats 5 = Inr w0 \<and>
     run_loop [example_beat True False (RecvMessage example_message), example_beat True False RecvError] (0, w0) =
       Inr (errs, w) \<and>
     verdicted w + parked w = {#example_message#}"
proof -
  let ?bts = "[example_beat True False (RecvMessage example_message), example_beat True False RecvError]"
  obtain w0 where w0: "spawn_worker False 1 True (example_engine []) example_rejecter new_stats 5 = Inr w0"
    by (rule example_spawn)
  have l: "list_all live_beat ?bts" by (simp add: example_live)
  have b: "within_budget 0 (map bt_recv ?bts)" by (rule example_budget) simp
  have "mset (received ?bts) = {#example_message#}" by (simp add: received_def example_beat_def)
  with every_packet_is_answered_once_or_parked [OF w0 l b] w0 show ?thesis by auto
qed

theorem router_loss_strands_nothing_witness:
  "\<exists>w0 errs w. spawn_worker False 1 True (example_engine []) example_rejecter new_stats 5 = Inr w0 \<and>
     run_loop [example_beat True False (RecvMessage example_message), example_beat False True RecvError] (0, w0) =
       Inr (errs, w) \<and>
     w_waiters w = [] \<and> verdicted w = {#example_message#}"
proof -
  let ?x = "example_beat True False (RecvMessage example_message)"
  let ?b = "example_beat False True RecvError"
  obtain w0 where w0: "spawn_worker False 1 True (example_engine []) example_rejecter new_stats 5 = Inr w0"
    by (rule example_spawn)
  have l: "list_all live_beat ([?x] @ ?b # [])" by (simp add: example_live)
  have b: "within_budget 0 (map bt_recv ([?x] @ ?b # []))" by (rule example_budget) simp
  have c: "\<forall>b \<in> set [?x]. \<not> disconnects b" "disconnects ?b" "\<forall>b \<in> set (?b # []). \<not> env_accepts (bt_env b)"
    by (simp_all add: disconnects_def example_beat_def example_env_def)
  have "mset (received ([?x] @ ?b # [])) = {#example_message#}" by (simp add: received_def example_beat_def)
  with router_loss_strands_nothing [OF w0 l b _ c] w0 show ?thesis by auto
qed


theorem prompt_answers_respect_the_rules_witness:
  "\<exists>w w'. map_of (w_waiters w) 4 \<noteq> None \<and>
     resolve_prompt (example_env (\<lambda>_ _. None) True)
       \<lparr>pv_prompt_id = 4, pv_verdict = \<lparr>v_action = Allow, v_source = UserPrompt\<rparr>\<rparr> w = Inr w' \<and>
     w_sent w' = [(example_message, Drop)]"
proof -
  let ?c = "new_connection (Uuid 1, DateTime 0) Udp Outbound (V4 1) 4000 (V4 2) 53"
  let ?p = "\<lparr>pend_flow = flow_key_for (example_env (\<lambda>_ _. None) True) ?c (unknown_process 1),
     pend_packets = [\<lparr>pp_message = example_message, pp_connection = ?c, pp_process = unknown_process 1\<rparr>],
     pend_fallback = default_deny\<rparr>"
  let ?pv = "\<lparr>pv_prompt_id = 4, pv_verdict = \<lparr>v_action = Allow, v_source = UserPrompt\<rparr>\<rparr>"
  let ?ev = "example_env (\<lambda>_ _. None) True"
  obtain w0 where w0: "spawn_worker False 1 True (example_engine [example_rule]) example_rejecter new_stats 5 = Inr w0"
    by (rule example_spawn)
  let ?w = "w0\<lparr>w_waiters := [(4, ?p)]\<rparr>"
  obtain w' where w': "resolve_prompt ?ev ?pv ?w = Inr w'"
    using resolve_prompt_total [of ?ev ?pv ?w] by (auto simp: example_env_def)
  have "peek (env_crates ?ev) (env_now ?ev) (w_engine ?w) ?c (unknown_process 1) = Resolved (from_rule Deny (Uuid 7))"
    using spawn_fresh(7) [OF w0] example_peek [of ?c] by (simp add: example_env_def new_connection_def)
  with prompt_answers_respect_the_rules [OF w'] spawn_fresh(8) [OF w0]
  have "w_sent w' = [(example_message, Drop)]" by (simp add: released_as_def from_rule_def)
  with w' show ?thesis by (intro exI [of _ ?w] exI [of _ w']) simp
qed


theorem every_refusal_is_recorded_witness:
  "\<exists>w0 errs w. spawn_worker False 1 True (example_engine [example_rule]) example_rejecter new_stats 5 = Inr w0 \<and>
     run_loop [example_beat True False (RecvMessage example_message)] (0, w0) = Inr (errs, w) \<and>
     w_events w = filter refused (w_feed w)"
proof -
  let ?bts = "[example_beat True False (RecvMessage example_message)]"
  obtain w0 where w0: "spawn_worker False 1 True (example_engine [example_rule]) example_rejecter new_stats 5 = Inr w0"
    by (rule example_spawn)
  have l: "list_all live_beat ?bts" by (simp add: example_live)
  have b: "within_budget 0 (map bt_recv ?bts)" by (rule example_budget) simp
  obtain errs w where r: "run_loop ?bts (0, w0) = Inr (errs, w)"
    by (rule spawned_run [OF w0 l b]) simp_all
  from every_refusal_is_recorded [OF w0 r] w0 r show ?thesis by blast
qed

theorem inbound_needs_an_inbound_rule_witness:
  "\<exists>out eng'. handle_packet (example_env (\<lambda>_ _. None) True) example_payload
       \<lparr>pm_uid = Some 0, pm_gid = None, pm_direction = Inbound, pm_loopback = False\<rparr>
       (example_engine []) new_stats = Ret (out, eng') \<and>
     (case out of Silent v \<Rightarrow> v = Drop | Deliver _ _ v \<Rightarrow> v_action v \<noteq> Allow | Prompt _ _ _ _ \<Rightarrow> False)"
proof -
  let ?m = "\<lparr>pm_uid = Some 0, pm_gid = None, pm_direction = Inbound, pm_loopback = False\<rparr> :: packet_meta"
  obtain out eng' where hp: "handle_packet (example_env (\<lambda>_ _. None) True) example_payload ?m
      (example_engine []) new_stats = Ret (out, eng')"
    using handle_packet_total by blast
  have "pol_inbound_action (e_policy (example_engine [])) = Deny" "e_rules (example_engine []) = []"
    by (simp_all add: example_engine_def)
  with inbound_needs_an_inbound_rule [OF hp] hp show ?thesis by (cases out) auto
qed


end
