(* ===== verification/Convert.thy ===== *)
theory Convert
  imports Worker
begin

text \<open>
  \<open>crates/cfc-daemon/src/convert.rs\<close>: the trust boundary between the gRPC schema and the
  core types.  Prost enums arrive as integers; text forms of networks, addresses, uuids and
  instants belong to third-party crates and enter through one record \<open>codec\<close>.  Paths are
  the strings they display as.
\<close>

section \<open>The schema and the external text forms\<close>

record codec =
  net_parse :: "string \<Rightarrow> ipnet option"
  net_show :: "ipnet \<Rightarrow> string"
  ip_show :: "ip_addr \<Rightarrow> string"
  uuid_parse :: "string \<Rightarrow> uuid option"
  uuid_show :: "uuid \<Rightarrow> string"
  dt_from_millis :: "int \<Rightarrow> datetime option"
  dt_to_millis :: "datetime \<Rightarrow> int"

record pb_scope =
  ps_exe_path :: string
  ps_exe_sha256 :: string
  ps_parent_exe :: string
  ps_uid :: u32
  ps_has_uid :: bool
  ps_dst_host :: string
  ps_dst_net :: string
  ps_dst_port :: u32
  ps_has_dst_port :: bool
  ps_protocol :: int
  ps_has_protocol :: bool
  ps_direction :: int
  ps_has_direction :: bool
  ps_src_net :: string
  ps_src_port :: u32
  ps_has_src_port :: bool

record pb_rule =
  pr_id :: string
  pr_name :: string
  pr_enabled :: bool
  pr_action :: int
  pr_duration :: int
  pr_scope :: "pb_scope option"
  pr_created_at_unix_ms :: int
  pr_hit_count :: u64
  pr_duration_seconds :: u32

datatype conv_error =
    ActionUnknown int
  | ProtocolOther
  | ProtocolUnknown int
  | DirectionUnknown int
  | TimedNeedsSeconds
  | DurationUnknown int
  | BadNet string
  | PortOutOfRange u32
  | BadDigest sha_error
  | BadScope scope_error
  | Unscoped
  | BadId string
  | SecondsNotPositive
  | SecondsNotTimed
  | OncePersisted

section \<open>Enumerations\<close>

fun action_to_pb :: "action \<Rightarrow> int" where
  "action_to_pb Allow = 1"
| "action_to_pb Deny = 2"
| "action_to_pb Reject = 3"

definition action_from_pb :: "int \<Rightarrow> conv_error + action" where
  "action_from_pb a =
     (if a = 1 then Inr Allow else if a = 2 then Inr Deny else if a = 3 then Inr Reject
      else Inl (ActionUnknown a))"

fun protocol_to_pb :: "protocol \<Rightarrow> int" where
  "protocol_to_pb Tcp = 1"
| "protocol_to_pb Udp = 2"
| "protocol_to_pb Icmp = 3"
| "protocol_to_pb (Other n) = 4"

definition protocol_from_pb :: "int \<Rightarrow> conv_error + protocol" where
  "protocol_from_pb p =
     (if p = 1 then Inr Tcp else if p = 2 then Inr Udp else if p = 3 then Inr Icmp
      else if p = 4 then Inl ProtocolOther else Inl (ProtocolUnknown p))"

fun provenance_to_pb :: "provenance \<Rightarrow> int" where
  "provenance_to_pb ProvUnknown = 0"
| "provenance_to_pb Unpackaged = 1"
| "provenance_to_pb Verified = 2"
| "provenance_to_pb Modified = 3"

definition provenance_from_pb :: "int \<Rightarrow> provenance" where
  "provenance_from_pb p =
     (if p = 1 then Unpackaged else if p = 2 then Verified else if p = 3 then Modified else ProvUnknown)"

fun direction_to_pb :: "direction \<Rightarrow> int" where
  "direction_to_pb Outbound = 1"
| "direction_to_pb Inbound = 2"

definition direction_from_pb :: "int \<Rightarrow> conv_error + direction" where
  "direction_from_pb d =
     (if d = 1 then Inr Outbound else if d = 2 then Inr Inbound else Inl (DirectionUnknown d))"

definition PB_DURATION_SECONDS :: int where "PB_DURATION_SECONDS = 4"

fun duration_to_pb :: "duration \<Rightarrow> int" where
  "duration_to_pb Once = 1"
| "duration_to_pb UntilRestart = 2"
| "duration_to_pb Always = 3"
| "duration_to_pb (Seconds n) = PB_DURATION_SECONDS"

definition duration_from_pb :: "int \<Rightarrow> conv_error + duration" where
  "duration_from_pb d =
     (if d = 1 then Inr Once else if d = 2 then Inr UntilRestart else if d = 3 then Inr Always
      else if d = PB_DURATION_SECONDS then Inl TimedNeedsSeconds else Inl (DurationUnknown d))"

definition reject_unpersistable_duration :: "duration \<Rightarrow> conv_error + unit" where
  "reject_unpersistable_duration d = (if d = Once then Inl OncePersisted else Inr ())"

section \<open>Scopes\<close>

definition empty_to_none :: "string \<Rightarrow> string option" where
  "empty_to_none s = (if s = [] then None else Some s)"

definition none_to_empty :: "string option \<Rightarrow> string" where
  "none_to_empty x = (case x of None \<Rightarrow> [] | Some s \<Rightarrow> s)"

definition scope_to_pb :: "codec \<Rightarrow> rule_scope \<Rightarrow> pb_scope" where
  "scope_to_pb C s =
     \<lparr>ps_exe_path = none_to_empty (s_exe_path s),
      ps_exe_sha256 = none_to_empty (s_exe_sha256 s),
      ps_parent_exe = none_to_empty (s_parent_exe s),
      ps_uid = (case s_uid s of None \<Rightarrow> 0 | Some u \<Rightarrow> u), ps_has_uid = (s_uid s \<noteq> None),
      ps_dst_host = none_to_empty (s_dst_host s),
      ps_dst_net = none_to_empty (map_option (net_show C) (s_dst_net s)),
      ps_dst_port = (case s_dst_port s of None \<Rightarrow> 0 | Some p \<Rightarrow> ucast p),
      ps_has_dst_port = (s_dst_port s \<noteq> None),
      ps_protocol = (case s_protocol s of None \<Rightarrow> 0 | Some p \<Rightarrow> protocol_to_pb p),
      ps_has_protocol = (s_protocol s \<noteq> None),
      ps_direction = (case s_direction s of None \<Rightarrow> 0 | Some d \<Rightarrow> direction_to_pb d),
      ps_has_direction = (s_direction s \<noteq> None),
      ps_src_net = none_to_empty (map_option (net_show C) (s_src_net s)),
      ps_src_port = (case s_src_port s of None \<Rightarrow> 0 | Some p \<Rightarrow> ucast p),
      ps_has_src_port = (s_src_port s \<noteq> None)\<rparr>"

definition net_from_pb :: "codec \<Rightarrow> string \<Rightarrow> conv_error + ipnet option" where
  "net_from_pb C text =
     (case empty_to_none text of
        None \<Rightarrow> Inr None
      | Some n \<Rightarrow> (case net_parse C n of None \<Rightarrow> Inl (BadNet n) | Some net \<Rightarrow> Inr (Some net)))"

text \<open>A field with a \<open>has_\<close> flag.\<close>

definition flagged :: "bool \<Rightarrow> conv_error + 'a \<Rightarrow> conv_error + 'a option" where
  "flagged has v = (if has then bind_result v (\<lambda>x. Inr (Some x)) else Inr None)"

definition port_from_pb :: "u32 \<Rightarrow> conv_error + u16" where
  "port_from_pb p = (if unat p \<le> 65535 then Inr (ucast p) else Inl (PortOutOfRange p))"

definition digest_from_pb :: "string \<Rightarrow> conv_error + string option" where
  "digest_from_pb text =
     (case empty_to_none text of
        None \<Rightarrow> Inr None
      | Some h \<Rightarrow> bind_result (map_err BadDigest (canonical_exe_sha256 h)) (\<lambda>d. Inr (Some d)))"

definition scope_from_pb :: "codec \<Rightarrow> pb_scope \<Rightarrow> conv_error + rule_scope" where
  "scope_from_pb C s =
     bind_result (net_from_pb C (ps_dst_net s)) (\<lambda>dst_net.
     bind_result (flagged (ps_has_protocol s) (protocol_from_pb (ps_protocol s))) (\<lambda>protocol.
     bind_result (flagged (ps_has_dst_port s) (port_from_pb (ps_dst_port s))) (\<lambda>dst_port.
     bind_result (flagged (ps_has_direction s) (direction_from_pb (ps_direction s))) (\<lambda>direction.
     bind_result (net_from_pb C (ps_src_net s)) (\<lambda>src_net.
     bind_result (flagged (ps_has_src_port s) (port_from_pb (ps_src_port s))) (\<lambda>src_port.
     bind_result (digest_from_pb (ps_exe_sha256 s)) (\<lambda>digest.
       let scope =
         \<lparr>s_direction = direction,
          s_exe_path = empty_to_none (ps_exe_path s),
          s_exe_sha256 = digest,
          s_parent_exe = empty_to_none (ps_parent_exe s),
          s_uid = (if ps_has_uid s then Some (ps_uid s) else None),
          s_dst_host = empty_to_none (ps_dst_host s),
          s_dst_net = dst_net, s_dst_port = dst_port,
          s_src_net = src_net, s_src_port = src_port, s_protocol = protocol\<rparr> in
       bind_result (map_err BadScope (reject_hostname_policy scope)) (\<lambda>_. Inr scope))))))))"

definition reject_unscoped :: "rule_scope \<Rightarrow> conv_error + unit" where
  "reject_unscoped s =
     (if specificity s = 0 \<and> s_src_net s = None \<and> s_dst_net s = None then Inl Unscoped else Inr ())"

section \<open>Rules\<close>

definition rule_to_pb :: "codec \<Rightarrow> rule \<Rightarrow> pb_rule" where
  "rule_to_pb C r =
     \<lparr>pr_id = uuid_show C (r_id r), pr_name = r_name r, pr_enabled = r_enabled r,
      pr_action = action_to_pb (r_action r), pr_duration = duration_to_pb (r_duration r),
      pr_scope = Some (scope_to_pb C (r_scope r)),
      pr_created_at_unix_ms = dt_to_millis C (r_created_at r),
      pr_hit_count = r_hit_count r,
      pr_duration_seconds = (case r_duration r of Seconds n \<Rightarrow> n | _ \<Rightarrow> 0)\<rparr>"

definition timed_from_pb :: "int \<Rightarrow> u32 \<Rightarrow> conv_error + duration" where
  "timed_from_pb d seconds =
     (if d = PB_DURATION_SECONDS then
        (if seconds = 0 then Inl SecondsNotPositive else Inr (Seconds seconds))
      else if seconds \<noteq> 0 then Inl SecondsNotTimed
      else duration_from_pb d)"

definition created_from_pb :: "codec \<Rightarrow> datetime \<Rightarrow> int \<Rightarrow> datetime" where
  "created_from_pb C now ms =
     (case dt_from_millis C ms of
        Some t \<Rightarrow> if ms \<noteq> 0 then min t now else now
      | None \<Rightarrow> now)"

text \<open>The five checks after the scope is read; the fresh id and the clock are arguments.\<close>

definition check_scope :: "rule_scope \<Rightarrow> conv_error + unit" where
  "check_scope s =
     bind_result (reject_unscoped s) (\<lambda>_.
     map_err BadScope
       (bind_result (reject_unmatchable_exe s) (\<lambda>_.
        bind_result (reject_unmatchable_parent s) (\<lambda>_.
        bind_result (reject_inbound_destination_scope s) (\<lambda>_.
        reject_unattributable_inbound_scope s)))))"

definition rule_from_pb :: "codec \<Rightarrow> uuid \<times> datetime \<Rightarrow> pb_rule \<Rightarrow> conv_error + rule" where
  "rule_from_pb C stamp r =
     bind_result (if pr_id r = [] then Inr (fst stamp)
                  else (case uuid_parse C (pr_id r) of None \<Rightarrow> Inl (BadId (pr_id r)) | Some u \<Rightarrow> Inr u)) (\<lambda>rid.
     bind_result (case pr_scope r of None \<Rightarrow> Inr any_scope | Some s \<Rightarrow> scope_from_pb C s) (\<lambda>scope.
     bind_result (check_scope scope) (\<lambda>_.
     bind_result (action_from_pb (pr_action r)) (\<lambda>action.
     bind_result (timed_from_pb (pr_duration r) (pr_duration_seconds r)) (\<lambda>duration.
       Inr \<lparr>r_id = rid, r_name = pr_name r, r_enabled = pr_enabled r, r_action = action,
            r_duration = duration, r_scope = scope,
            r_created_at = created_from_pb C (snd stamp) (pr_created_at_unix_ms r),
            r_hit_count = pr_hit_count r\<rparr>)))))"

section \<open>Audit rows\<close>

record event_row =
  er_id :: int
  er_ts_unix_ms :: int
  er_proto :: "string option"
  er_src_ip :: "string option"
  er_src_port :: "u16 option"
  er_dst_ip :: "string option"
  er_dst_port :: "u16 option"
  er_dst_host :: "string option"
  er_exe :: "string option"
  er_pid :: "u32 option"
  er_uid :: "u32 option"
  er_action :: string
  er_source :: string
  er_rule_id :: "string option"

record pb_event =
  pe_ts_unix_ms :: int
  pe_proto :: string
  pe_src_ip :: string
  pe_src_port :: u32
  pe_dst_ip :: string
  pe_dst_port :: u32
  pe_dst_host :: string
  pe_exe :: string
  pe_pid :: u32
  pe_uid :: "u32 option"
  pe_action :: int
  pe_source :: string
  pe_rule_id :: string

fun action_db_str :: "action \<Rightarrow> string" where
  "action_db_str Allow = ''Allow''"
| "action_db_str Deny = ''Deny''"
| "action_db_str Reject = ''Reject''"

definition action_db_from_str :: "string \<Rightarrow> action option" where
  "action_db_from_str s =
     (if s = ''Allow'' then Some Allow else if s = ''Deny'' then Some Deny
      else if s = ''Reject'' then Some Reject else None)"

fun verdict_source_db_str :: "verdict_source \<Rightarrow> string" where
  "verdict_source_db_str (FromRule rid) = ''rule''"
| "verdict_source_db_str UserPrompt = ''user''"
| "verdict_source_db_str FromDefaultPolicy = ''default''"
| "verdict_source_db_str Timeout = ''timeout''"

fun protocol_db_str :: "protocol \<Rightarrow> string" where
  "protocol_db_str Tcp = ''tcp''"
| "protocol_db_str Udp = ''udp''"
| "protocol_db_str Icmp = ''icmp''"
| "protocol_db_str (Other n) = ''other''"

definition event_row_from_observed :: "codec \<Rightarrow> observed \<Rightarrow> event_row" where
  "event_row_from_observed C obs =
     (let conn = obs_connection obs; proc = obs_process obs; v = obs_verdict obs in
      \<lparr>er_id = 0, er_ts_unix_ms = dt_to_millis C (c_timestamp conn),
       er_proto = Some (protocol_db_str (c_protocol conn)),
       er_src_ip = Some (ip_show C (c_src_ip conn)), er_src_port = Some (c_src_port conn),
       er_dst_ip = Some (ip_show C (c_dst_ip conn)), er_dst_port = Some (c_dst_port conn),
       er_dst_host = c_dst_host conn, er_exe = empty_to_none (p_exe proc),
       er_pid = Some (p_pid proc), er_uid = p_uid proc,
       er_action = action_db_str (v_action v), er_source = verdict_source_db_str (v_source v),
       er_rule_id = map_option (uuid_show C) (obs_rule_id obs)\<rparr>)"

definition event_row_to_pb :: "event_row \<Rightarrow> pb_event" where
  "event_row_to_pb row =
     \<lparr>pe_ts_unix_ms = er_ts_unix_ms row, pe_proto = none_to_empty (er_proto row),
      pe_src_ip = none_to_empty (er_src_ip row),
      pe_src_port = (case er_src_port row of None \<Rightarrow> 0 | Some p \<Rightarrow> ucast p),
      pe_dst_ip = none_to_empty (er_dst_ip row),
      pe_dst_port = (case er_dst_port row of None \<Rightarrow> 0 | Some p \<Rightarrow> ucast p),
      pe_dst_host = none_to_empty (er_dst_host row), pe_exe = none_to_empty (er_exe row),
      pe_pid = (case er_pid row of None \<Rightarrow> 0 | Some p \<Rightarrow> p), pe_uid = er_uid row,
      pe_action = (case action_db_from_str (er_action row) of None \<Rightarrow> 0 | Some a \<Rightarrow> action_to_pb a),
      pe_source = er_source row, pe_rule_id = none_to_empty (er_rule_id row)\<rparr>"

section \<open>Connections and processes as clients see them\<close>

record pb_connection =
  pc_id :: string
  pc_timestamp_unix_ms :: int
  pc_protocol :: int
  pc_direction :: int
  pc_src_ip :: string
  pc_src_port :: u32
  pc_dst_ip :: string
  pc_dst_port :: u32
  pc_dst_host :: string
  pc_dst_host_verified :: bool

record pb_process =
  pp_pid :: u32
  pp_ppid :: u32
  pp_uid :: "u32 option"
  pp_gid :: "u32 option"
  pp_exe :: string
  pp_cmdline :: "string list"
  pp_cwd :: string
  pp_sha256 :: string
  pp_package :: string
  pp_provenance :: int

definition connection_to_pb :: "codec \<Rightarrow> connection \<Rightarrow> pb_connection" where
  "connection_to_pb C c =
     \<lparr>pc_id = uuid_show C (c_id c), pc_timestamp_unix_ms = dt_to_millis C (c_timestamp c),
      pc_protocol = protocol_to_pb (c_protocol c), pc_direction = direction_to_pb (c_direction c),
      pc_src_ip = ip_show C (c_src_ip c), pc_src_port = ucast (c_src_port c),
      pc_dst_ip = ip_show C (c_dst_ip c), pc_dst_port = ucast (c_dst_port c),
      pc_dst_host = none_to_empty (c_dst_host c), pc_dst_host_verified = c_dst_host_verified c\<rparr>"

definition process_to_pb :: "process \<Rightarrow> pb_process" where
  "process_to_pb p =
     \<lparr>pp_pid = p_pid p, pp_ppid = (case p_ppid p of None \<Rightarrow> 0 | Some n \<Rightarrow> n),
      pp_uid = p_uid p, pp_gid = p_gid p, pp_exe = p_exe p, pp_cmdline = p_cmdline p,
      pp_cwd = none_to_empty (p_cwd p), pp_sha256 = none_to_empty (p_sha256 p),
      pp_package = none_to_empty (p_package p), pp_provenance = provenance_to_pb (p_provenance p)\<rparr>"

definition verdict_to_pb_action :: "verdict \<Rightarrow> int" where
  "verdict_to_pb_action v = action_to_pb (v_action v)"

section \<open>What a converted rule satisfies\<close>

text \<open>A rule the wire can carry: every gate accepts it, its digest is canonical, its protocol has a
  number on the wire and its lifetime is a real one.\<close>

definition wire_scope :: "rule_scope \<Rightarrow> bool" where
  "wire_scope s \<longleftrightarrow>
     gates_accept s \<and> reject_unscoped s = Inr () \<and>
     (\<forall>h. s_exe_sha256 s = Some h \<longrightarrow> canonical_exe_sha256 h = Inr h) \<and>
     (\<forall>n. s_protocol s \<noteq> Some (Other n))"

definition wire_rule :: "rule \<Rightarrow> bool" where
  "wire_rule r \<longleftrightarrow> wire_scope (r_scope r) \<and> r_duration r \<noteq> Seconds 0"

lemma check_scope_Inr:
  "check_scope s = Inr () \<longleftrightarrow>
     reject_unscoped s = Inr () \<and> reject_unmatchable_exe s = Inr () \<and>
     reject_unmatchable_parent s = Inr () \<and> reject_inbound_destination_scope s = Inr () \<and>
     reject_unattributable_inbound_scope s = Inr ()"
  by (auto simp: check_scope_def bind_result_Inr_iff)

lemma flagged_Inr: "flagged has v = Inr x \<longleftrightarrow> (if has then \<exists>y. v = Inr y \<and> x = Some y else x = None)"
  by (auto simp: flagged_def bind_result_Inr_iff)

lemma net_from_pb_Inr:
  "net_from_pb C text = Inr x \<longleftrightarrow>
     (if text = [] then x = None else \<exists>n. net_parse C text = Some n \<and> x = Some n)"
  by (auto simp: net_from_pb_def empty_to_none_def split: option.splits)

lemma port_from_pb_Inr: "port_from_pb p = Inr q \<longleftrightarrow> unat p \<le> 65535 \<and> q = ucast p"
  by (auto simp: port_from_pb_def)

lemma digest_from_pb_Inr:
  "digest_from_pb text = Inr x \<longleftrightarrow>
     (if text = [] then x = None else \<exists>h. canonical_exe_sha256 text = Inr h \<and> x = Some h)"
  by (auto simp: digest_from_pb_def empty_to_none_def bind_result_Inr_iff)

lemmas from_pb_Inr = flagged_Inr net_from_pb_Inr port_from_pb_Inr digest_from_pb_Inr

lemma protocol_from_pb_Inr: "protocol_from_pb p = Inr q \<Longrightarrow> p = protocol_to_pb q \<and> (\<forall>n. q \<noteq> Other n)"
  by (auto simp: protocol_from_pb_def split: if_splits)

lemma direction_from_pb_Inr: "direction_from_pb d = Inr q \<longleftrightarrow> d = direction_to_pb q"
  by (cases q) (auto simp: direction_from_pb_def)

lemma action_from_pb_Inr: "action_from_pb d = Inr q \<longleftrightarrow> d = action_to_pb q"
  by (cases q) (auto simp: action_from_pb_def)

lemma unat_port: "unat p \<le> 65535 \<Longrightarrow> unat (ucast (p :: u32) :: u16) = unat p"
  by (simp add: unsigned_ucast_eq take_bit_eq_mod)

lemma wire_port:
  "flagged has (port_from_pb p) = Inr x \<Longrightarrow> map_option unat x = (if has then Some (unat p) else None)"
  by (auto simp: from_pb_Inr unat_port split: if_splits)

lemma wire_protocol:
  "flagged has (protocol_from_pb p) = Inr x \<Longrightarrow> map_option protocol_to_pb x = (if has then Some p else None)"
  "flagged has (protocol_from_pb p) = Inr x \<Longrightarrow> x \<noteq> Some (Other n)"
  by (auto simp: from_pb_Inr protocol_from_pb_def split: if_splits)

lemma wire_direction:
  "flagged has (direction_from_pb p) = Inr x \<Longrightarrow> map_option direction_to_pb x = (if has then Some p else None)"
  by (auto simp: from_pb_Inr direction_from_pb_Inr split: if_splits)

lemma wire_net:
  "net_from_pb C t = Inr x \<Longrightarrow> x = (if t = [] then None else net_parse C t)"
  "net_from_pb C t = Inr x \<Longrightarrow> t \<noteq> [] \<longrightarrow> x \<noteq> None"
  by (auto simp: from_pb_Inr split: if_splits)

lemma wire_digest:
  "digest_from_pb t = Inr x \<Longrightarrow> x = None \<longleftrightarrow> t = []"
  "digest_from_pb t = Inr x \<Longrightarrow> \<forall>h. x = Some h \<longrightarrow> canonical_exe_sha256 t = Inr h"
  by (auto simp: from_pb_Inr split: if_splits)

lemma scope_from_pb_Inr:
  "scope_from_pb C s = Inr scope \<longleftrightarrow>
     net_from_pb C (ps_dst_net s) = Inr (s_dst_net scope) \<and>
     flagged (ps_has_protocol s) (protocol_from_pb (ps_protocol s)) = Inr (s_protocol scope) \<and>
     flagged (ps_has_dst_port s) (port_from_pb (ps_dst_port s)) = Inr (s_dst_port scope) \<and>
     flagged (ps_has_direction s) (direction_from_pb (ps_direction s)) = Inr (s_direction scope) \<and>
     net_from_pb C (ps_src_net s) = Inr (s_src_net scope) \<and>
     flagged (ps_has_src_port s) (port_from_pb (ps_src_port s)) = Inr (s_src_port scope) \<and>
     digest_from_pb (ps_exe_sha256 s) = Inr (s_exe_sha256 scope) \<and>
     s_exe_path scope = empty_to_none (ps_exe_path s) \<and>
     s_parent_exe scope = empty_to_none (ps_parent_exe s) \<and>
     s_uid scope = (if ps_has_uid s then Some (ps_uid s) else None) \<and>
     s_dst_host scope = None \<and> ps_dst_host s = []"
  (is "_ \<longleftrightarrow> ?rhs")
proof -
  have "scope_from_pb C s = Inr scope \<longleftrightarrow>
    (\<exists>dn pr dp di sn sp dg. net_from_pb C (ps_dst_net s) = Inr dn \<and>
       flagged (ps_has_protocol s) (protocol_from_pb (ps_protocol s)) = Inr pr \<and>
       flagged (ps_has_dst_port s) (port_from_pb (ps_dst_port s)) = Inr dp \<and>
       flagged (ps_has_direction s) (direction_from_pb (ps_direction s)) = Inr di \<and>
       net_from_pb C (ps_src_net s) = Inr sn \<and>
       flagged (ps_has_src_port s) (port_from_pb (ps_src_port s)) = Inr sp \<and>
       digest_from_pb (ps_exe_sha256 s) = Inr dg \<and> empty_to_none (ps_dst_host s) = None \<and>
       scope = \<lparr>s_direction = di, s_exe_path = empty_to_none (ps_exe_path s), s_exe_sha256 = dg,
          s_parent_exe = empty_to_none (ps_parent_exe s), s_uid = (if ps_has_uid s then Some (ps_uid s) else None),
          s_dst_host = None, s_dst_net = dn, s_dst_port = dp, s_src_net = sn, s_src_port = sp, s_protocol = pr\<rparr>)"
    unfolding scope_from_pb_def bind_result_Inr_iff Let_def map_err_Inr_iff
    by (simp add: reject_hostname_policy_def) blast
  also have "\<dots> \<longleftrightarrow> ?rhs" by (cases scope) (auto simp: empty_to_none_def split: if_splits)
  finally show ?thesis .
qed

text \<open>C21: the wire never widens a scope.  In an accepted scope every field that was sent is a
  predicate with exactly the value sent: a network is the one its text denotes, a port is the
  same number, a flag means presence, a digest is the canonical form; and no field appears
  that was not sent.\<close>

theorem wire_never_widens_a_scope:
  assumes "scope_from_pb C s = Inr scope"
  shows "(s_exe_path scope = None \<longleftrightarrow> ps_exe_path s = []) \<and> (\<forall>p. s_exe_path scope = Some p \<longrightarrow> p = ps_exe_path s) \<and>
    (s_exe_sha256 scope = None \<longleftrightarrow> ps_exe_sha256 s = []) \<and>
    (\<forall>h. s_exe_sha256 scope = Some h \<longrightarrow> canonical_exe_sha256 (ps_exe_sha256 s) = Inr h) \<and>
    (s_parent_exe scope = None \<longleftrightarrow> ps_parent_exe s = []) \<and>
    s_uid scope = (if ps_has_uid s then Some (ps_uid s) else None) \<and>
    s_dst_net scope = (if ps_dst_net s = [] then None else net_parse C (ps_dst_net s)) \<and>
    s_src_net scope = (if ps_src_net s = [] then None else net_parse C (ps_src_net s)) \<and>
    (ps_dst_net s \<noteq> [] \<longrightarrow> s_dst_net scope \<noteq> None) \<and> (ps_src_net s \<noteq> [] \<longrightarrow> s_src_net scope \<noteq> None) \<and>
    map_option unat (s_dst_port scope) = (if ps_has_dst_port s then Some (unat (ps_dst_port s)) else None) \<and>
    map_option unat (s_src_port scope) = (if ps_has_src_port s then Some (unat (ps_src_port s)) else None) \<and>
    map_option protocol_to_pb (s_protocol scope) = (if ps_has_protocol s then Some (ps_protocol s) else None) \<and>
    map_option direction_to_pb (s_direction scope) = (if ps_has_direction s then Some (ps_direction s) else None) \<and>
    s_dst_host scope = None \<and> ps_dst_host s = []"
proof -
  note assms [unfolded scope_from_pb_Inr]
  then have dn: "net_from_pb C (ps_dst_net s) = Inr (s_dst_net scope)"
    and pr: "flagged (ps_has_protocol s) (protocol_from_pb (ps_protocol s)) = Inr (s_protocol scope)"
    and dp: "flagged (ps_has_dst_port s) (port_from_pb (ps_dst_port s)) = Inr (s_dst_port scope)"
    and di: "flagged (ps_has_direction s) (direction_from_pb (ps_direction s)) = Inr (s_direction scope)"
    and sn: "net_from_pb C (ps_src_net s) = Inr (s_src_net scope)"
    and sp: "flagged (ps_has_src_port s) (port_from_pb (ps_src_port s)) = Inr (s_src_port scope)"
    and dg: "digest_from_pb (ps_exe_sha256 s) = Inr (s_exe_sha256 scope)"
    and rest: "s_exe_path scope = empty_to_none (ps_exe_path s)" "s_parent_exe scope = empty_to_none (ps_parent_exe s)"
      "s_uid scope = (if ps_has_uid s then Some (ps_uid s) else None)" "s_dst_host scope = None" "ps_dst_host s = []"
    by blast+
  have path: "(empty_to_none t = None) = (t = [])" "\<forall>p. empty_to_none t = Some p \<longrightarrow> p = t" for t
    by (auto simp: empty_to_none_def)
  show ?thesis
    unfolding rest(1,2)
    by (intro conjI path rest(3-5) wire_net [OF dn] wire_net [OF sn] wire_port [OF dp] wire_port [OF sp]
        wire_protocol(1) [OF pr] wire_direction [OF di] wire_digest [OF dg])
qed

lemma canonical_idem: "canonical_exe_sha256 s = Inr h \<Longrightarrow> canonical_exe_sha256 h = Inr h"
  using canonical_Inr [of s h] canonical_of_lower_hex [of h] by blast

lemma scope_from_pb_wire:
  assumes "scope_from_pb C s = Inr scope" "check_scope scope = Inr ()"
  shows "wire_scope scope"
proof -
  note s = assms(1) [unfolded scope_from_pb_Inr]
  from s have "\<forall>h. s_exe_sha256 scope = Some h \<longrightarrow> canonical_exe_sha256 h = Inr h"
    using wire_digest(2) canonical_idem by blast
  moreover from s have "\<forall>n. s_protocol scope \<noteq> Some (Other n)"
    using wire_protocol(2) by blast
  ultimately show ?thesis
    using s assms(2) by (simp add: wire_scope_def gates_accept_def check_scope_Inr reject_hostname_policy_def)
qed

lemma rule_from_pb_Inr:
  "rule_from_pb C stamp m = Inr r \<longleftrightarrow>
     (if pr_id m = [] then r_id r = fst stamp else uuid_parse C (pr_id m) = Some (r_id r)) \<and>
     (case pr_scope m of None \<Rightarrow> r_scope r = any_scope | Some s \<Rightarrow> scope_from_pb C s = Inr (r_scope r)) \<and>
     check_scope (r_scope r) = Inr () \<and> action_from_pb (pr_action m) = Inr (r_action r) \<and>
     timed_from_pb (pr_duration m) (pr_duration_seconds m) = Inr (r_duration r) \<and>
     r_name r = pr_name m \<and> r_enabled r = pr_enabled m \<and>
     r_created_at r = created_from_pb C (snd stamp) (pr_created_at_unix_ms m) \<and> r_hit_count r = pr_hit_count m"
  by (cases r) (auto simp: rule_from_pb_def bind_result_Inr_iff split: option.splits if_splits)

lemma any_scope_unscoped: "check_scope any_scope \<noteq> Inr ()"
  by (simp add: check_scope_Inr reject_unscoped_def any_scope_def specificity_def narrows_def)

lemma rule_from_pb_wire:
  assumes "rule_from_pb C stamp m = Inr r"
  shows "wire_rule r"
proof -
  note r = assms [unfolded rule_from_pb_Inr]
  from r any_scope_unscoped obtain s where "scope_from_pb C s = Inr (r_scope r)"
    by (auto split: option.splits)
  with r scope_from_pb_wire have "wire_scope (r_scope r)" by blast
  moreover from r have "r_duration r \<noteq> Seconds 0"
    by (auto simp: timed_from_pb_def duration_from_pb_def PB_DURATION_SECONDS_def split: if_splits)
  ultimately show ?thesis by (simp add: wire_rule_def)
qed

section \<open>A listed rule sent back is the same rule\<close>

definition codec_ok :: "codec \<Rightarrow> bool" where
  "codec_ok C \<longleftrightarrow>
     (\<forall>n. net_show C n \<noteq> [] \<and> net_parse C (net_show C n) = Some n) \<and>
     (\<forall>u. uuid_show C u \<noteq> [] \<and> uuid_parse C (uuid_show C u) = Some u)"

lemma unat_ucast_up: "unat (ucast (p :: u16) :: u32) = unat p"
  using unat_lt_2p [of p] by (simp add: unsigned_ucast_eq take_bit_eq_mod)

lemma ucast_up_down: "(ucast (ucast p :: u32) :: u16) = p"
proof -
  have "unat (ucast p :: u32) \<le> 65535" using unat_lt_2p [of p] by (simp add: unat_ucast_up)
  from unat_port [OF this] show ?thesis by (simp add: unat_ucast_up word_unat_eq_iff)
qed

lemma empty_none_roundtrip: "x \<noteq> Some [] \<Longrightarrow> empty_to_none (none_to_empty x) = x"
  by (cases x) (auto simp: empty_to_none_def none_to_empty_def)

lemma net_roundtrip:
  "codec_ok C \<Longrightarrow> net_from_pb C (none_to_empty (map_option (net_show C) x)) = Inr x"
  by (cases x) (auto simp: net_from_pb_def none_to_empty_def empty_to_none_def codec_ok_def)

lemma digest_roundtrip:
  "(\<forall>h. x = Some h \<longrightarrow> canonical_exe_sha256 h = Inr h) \<Longrightarrow> digest_from_pb (none_to_empty x) = Inr x"
  by (cases x) (auto simp: digest_from_pb_def none_to_empty_def empty_to_none_def dest: canonical_Inr)

lemma scope_roundtrip:
  assumes C: "codec_ok C" and w: "wire_scope s"
  shows "scope_from_pb C (scope_to_pb C s) = Inr s"
proof -
  have gates: "s_dst_host s = None" "s_parent_exe s = None" "s_exe_path s \<noteq> Some []"
    using w by (auto simp: wire_scope_def gates_accept_iff is_absolute_def)
  have port: "flagged (x \<noteq> None) (port_from_pb (case x of None \<Rightarrow> 0 | Some p \<Rightarrow> ucast p)) = Inr x" for x :: "u16 option"
    using unat_lt_2p [of "the x"]
    by (cases x) (auto simp: flagged_Inr port_from_pb_Inr ucast_up_down unat_ucast_up)
  have proto: "flagged (x \<noteq> None) (protocol_from_pb (case x of None \<Rightarrow> 0 | Some p \<Rightarrow> protocol_to_pb p)) = Inr x"
    if "\<forall>n. x \<noteq> Some (Other n)" for x
  proof (cases x)
    case (Some p)
    with that show ?thesis by (cases p) (simp_all add: flagged_def protocol_from_pb_def)
  qed (simp add: flagged_def)
  have dir: "flagged (x \<noteq> None) (direction_from_pb (case x of None \<Rightarrow> 0 | Some d \<Rightarrow> direction_to_pb d)) = Inr x" for x
    by (cases x) (auto simp: flagged_Inr direction_from_pb_Inr)
  have uid: "(if x \<noteq> None then Some (case x of None \<Rightarrow> 0 | Some u \<Rightarrow> u) else None) = x" for x :: "u32 option"
    by (cases x) simp_all
  have "digest_from_pb (none_to_empty (s_exe_sha256 s)) = Inr (s_exe_sha256 s)"
    using w by (intro digest_roundtrip) (simp add: wire_scope_def)
  moreover have "\<forall>n. s_protocol s \<noteq> Some (Other n)" using w by (simp add: wire_scope_def)
  ultimately show ?thesis
    unfolding scope_from_pb_Inr scope_to_pb_def pb_scope.simps gates(1,2)
    using port proto dir uid gates(3) net_roundtrip [OF C] empty_none_roundtrip [of "s_exe_path s"]
    by (intro conjI) (simp_all add: none_to_empty_def empty_to_none_def)
qed


section \<open>A concrete codec\<close>

fun example_net_show :: "ipnet \<Rightarrow> string" where
  "example_net_show (IpNet (V4 w) n) = replicate n CHR ''p'' @ CHR ''d'' # dec_string (unat w)"
| "example_net_show (IpNet (V6 w) n) = replicate n CHR ''p'' @ CHR ''x'' # dec_string (unat w)"

definition example_net_parse :: "string \<Rightarrow> ipnet option" where
  "example_net_parse s =
     (case dropWhile (\<lambda>c. c = CHR ''p'') s of
        [] \<Rightarrow> None
      | c # digits \<Rightarrow>
          map_option (\<lambda>n. IpNet (if c = CHR ''d'' then V4 (word_of_nat n) else V6 (word_of_nat n))
                                (length (takeWhile (\<lambda>c. c = CHR ''p'') s)))
            (parse_digits 0 digits))"

definition example_codec :: codec where
  "example_codec =
     \<lparr>net_parse = example_net_parse, net_show = example_net_show, ip_show = (\<lambda>_. ''ip''),
      uuid_parse = (\<lambda>s. map_option (\<lambda>n. Uuid (word_of_nat n)) (parse_digits 0 s)),
      uuid_show = (\<lambda>u. dec_string (unat (uuid_bits u))),
      dt_from_millis = (\<lambda>ms. Some (DateTime ms)), dt_to_millis = dt_instant\<rparr>"

lemma example_net_roundtrip: "example_net_parse (example_net_show n) = Some n"
proof -
  have "takeWhile (\<lambda>c. c = CHR ''p'') (replicate k CHR ''p'' @ CHR ''d'' # t) = replicate k CHR ''p''"
    "takeWhile (\<lambda>c. c = CHR ''p'') (replicate k CHR ''p'' @ CHR ''x'' # t) = replicate k CHR ''p''"
    "dropWhile (\<lambda>c. c = CHR ''p'') (replicate k CHR ''p'' @ CHR ''d'' # t) = CHR ''d'' # t"
    "dropWhile (\<lambda>c. c = CHR ''p'') (replicate k CHR ''p'' @ CHR ''x'' # t) = CHR ''x'' # t" for k t
    by (induction k) auto
  then show ?thesis by (cases n rule: example_net_show.cases) (simp_all add: example_net_parse_def parse_dec_string)
qed

lemma example_codec_ok: "codec_ok example_codec"
proof -
  have "example_net_show n \<noteq> []" for n by (cases n rule: example_net_show.cases) simp_all
  then show ?thesis
    by (simp add: codec_ok_def example_codec_def example_net_roundtrip parse_dec_string dec_string_nonempty)
qed

definition example_pb_scope :: pb_scope where
  "example_pb_scope =
     \<lparr>ps_exe_path = ''/usr/bin/curl'', ps_exe_sha256 = [], ps_parent_exe = [], ps_uid = 0, ps_has_uid = False,
      ps_dst_host = [], ps_dst_net = ''ppppppppd167772160'', ps_dst_port = 443, ps_has_dst_port = True,
      ps_protocol = 1, ps_has_protocol = True, ps_direction = 0, ps_has_direction = False,
      ps_src_net = [], ps_src_port = 0, ps_has_src_port = False\<rparr>"

theorem wire_never_widens_a_scope_witness:
  "\<exists>scope. scope_from_pb example_codec example_pb_scope = Inr scope \<and> s_dst_net scope \<noteq> None \<and>
     map_option unat (s_dst_port scope) = Some 443 \<and> s_uid scope = None"
proof -
  let ?scope = "\<lparr>s_direction = None, s_exe_path = Some ''/usr/bin/curl'', s_exe_sha256 = None, s_parent_exe = None,
    s_uid = None, s_dst_host = None, s_dst_net = Some (IpNet (V4 167772160) 8), s_dst_port = Some 443,
    s_src_net = None, s_src_port = None, s_protocol = Some Tcp\<rparr>"
  have s: "scope_from_pb example_codec example_pb_scope = Inr ?scope"
    by (simp add: scope_from_pb_Inr from_pb_Inr example_pb_scope_def protocol_from_pb_def empty_to_none_def
        example_codec_def example_net_parse_def parse_digits.simps digit_value_def)
  note w = wire_never_widens_a_scope [OF s]
  from w have "map_option unat (s_dst_port ?scope) =
      (if ps_has_dst_port example_pb_scope then Some (unat (ps_dst_port example_pb_scope)) else None)" by blast
  then have p: "map_option unat (s_dst_port ?scope) = Some 443" by (simp add: example_pb_scope_def)
  from w have "ps_dst_net example_pb_scope \<noteq> [] \<longrightarrow> s_dst_net ?scope \<noteq> None" by blast
  then have n: "s_dst_net ?scope \<noteq> None" by (simp add: example_pb_scope_def)
  have "s_uid ?scope = None" by simp
  with s p n show ?thesis by blast
qed

definition example_wire_rule :: rule where
  "example_wire_rule =
     (new_rule (Uuid 7, DateTime 5) ''curl'' Allow
        (any_scope\<lparr>s_exe_path := Some ''/usr/bin/curl'', s_dst_port := Some 443\<rparr>))\<lparr>r_duration := Seconds 90\<rparr>"

lemma example_wire_rule_ok: "wire_rule example_wire_rule"
  by (simp add: wire_rule_def wire_scope_def example_wire_rule_def new_rule_def any_scope_def gates_accept_iff
      reject_unscoped_def specificity_def narrows_def is_absolute_def UNKNOWN_EXE_def MAX_EXE_PATH_LEN_def)

text \<open>A codec that counts nanoseconds, and a rule created between two milliseconds.\<close>

definition nano_codec :: codec where
  "nano_codec = example_codec\<lparr>dt_from_millis := (\<lambda>ms. Some (DateTime (ms * 1000000))),
     dt_to_millis := (\<lambda>d. dt_instant d div 1000000)\<rparr>"

definition nano_rule :: rule where
  "nano_rule = example_wire_rule\<lparr>r_created_at := DateTime 5123456\<rparr>"


end
