(* ===== verification/ExePath.thy ===== *)
theory ExePath
  imports RuleScope
begin

unbundle bit_operations_syntax

text \<open>
  \<open>crates/cfc-core/src/exe_path.rs\<close>: which executable paths a policy may name, and which files
  only root can replace.  The file system is the record \<open>fs\<close>: \<open>canonicalize\<close> of a path as
  written, \<open>canonicalize\<close> of a parent directory with whether the result is a directory, and
  \<open>symlink_metadata\<close> of a path given by its components.
\<close>

section \<open>The file system\<close>

datatype lstat = Meta (meta_is_dir: bool) (meta_is_file: bool) (meta_uid: u32) (meta_mode: u32)
  | NotFound | LstatFailed

record fs =
  fs_canonicalize :: "string \<Rightarrow> string option"
  fs_canonical_parent :: "path_component list \<Rightarrow> (path_component list \<times> bool) option"
  fs_lstat :: "path_component list \<Rightarrow> lstat"

section \<open>Resolving a path\<close>

datatype resolved =
    Unchanged string
  | Rewritten string string
  | Missing string
  | RewrittenButMissing string "path_component list"
  | Relative string

fun component_text :: "path_component \<Rightarrow> string" where
  "component_text RootDir = []"
| "component_text CurDir = ''.''"
| "component_text ParentDir = ''..''"
| "component_text (Normal name) = name"

definition path_text :: "path_component list \<Rightarrow> string" where
  "path_text cs = (if cs = [RootDir] then ''/'' else concat (map (\<lambda>c. CHR ''/'' # component_text c) (tl cs)))"

fun into_path :: "resolved \<Rightarrow> string" where
  "into_path (Unchanged p) = p"
| "into_path (Missing p) = p"
| "into_path (Relative p) = p"
| "into_path (Rewritten from to) = to"
| "into_path (RewrittenButMissing from to) = path_text to"

fun is_inert :: "resolved \<Rightarrow> bool" where
  "is_inert (Missing p) = True"
| "is_inert (Relative p) = True"
| "is_inert (RewrittenButMissing from to) = True"
| "is_inert r = False"

text \<open>The trailing separators of an absolute path, before the file system is asked.\<close>

definition trim_slashes :: "string \<Rightarrow> string" where
  "trim_slashes raw =
     (if 1 < length raw \<and> last raw = CHR ''/''
      then (let kept = rev (dropWhile (\<lambda>c. c = CHR ''/'') (rev raw)) in if kept = [] then ''/'' else kept)
      else raw)"

text \<open>\<open>resolve_via_ancestor\<close> over the reversed components, with the names already cut off.\<close>

fun via_ancestor :: "fs \<Rightarrow> path_component list \<Rightarrow> path_component list \<Rightarrow> path_component list option" where
  "via_ancestor F (Normal name # parent) tail =
     (case fs_canonical_parent F (rev parent) of
        Some (real, is_dir) \<Rightarrow> if is_dir then Some (real @ Normal name # tail) else None
      | None \<Rightarrow> via_ancestor F parent (Normal name # tail))"
| "via_ancestor F _ tail = None"

definition resolve_via_ancestor :: "fs \<Rightarrow> string \<Rightarrow> path_component list option" where
  "resolve_via_ancestor F p = via_ancestor F (rev (path_components p)) []"

definition resolve :: "fs \<Rightarrow> string \<Rightarrow> resolved" where
  "resolve F p =
     (if \<not> is_absolute p then Relative p
      else
        let p = trim_slashes p in
        (case fs_canonicalize F p of
           Some real \<Rightarrow> if path_eq real p then Unchanged real else Rewritten p real
         | None \<Rightarrow>
             (case resolve_via_ancestor F p of
                Some to \<Rightarrow> if to \<noteq> path_components p then RewrittenButMissing p to else Missing p
              | None \<Rightarrow> Missing p)))"

section \<open>Validating a policy target\<close>

datatype path_error = NotCanonical string | NotAbsolutePath string | UnresolvedDotDot
  | NotDirAncestor string "path_component list" | PathIoError string

text \<open>\<open>Path::ancestors\<close>: the path itself first, then each parent.\<close>

fun ancestors :: "path_component list \<Rightarrow> path_component list list" where
  "ancestors [] = []"
| "ancestors (c # cs) = rev (map (\<lambda>n. take n (c # cs)) [1..<length (c # cs) + 1])"

fun check_ancestors :: "fs \<Rightarrow> string \<Rightarrow> path_component list list \<Rightarrow> path_error + unit" where
  "check_ancestors F p [] = Inr ()"
| "check_ancestors F p (a # as) =
     (case fs_lstat F a of
        Meta is_dir _ _ _ \<Rightarrow>
          if is_dir \<and> a \<noteq> path_components p then Inr () else Inl (NotDirAncestor p a)
      | NotFound \<Rightarrow> check_ancestors F p as
      | LstatFailed \<Rightarrow> Inl (PathIoError p))"

definition resolve_exe_policy :: "fs \<Rightarrow> string \<Rightarrow> path_error + resolved" where
  "resolve_exe_policy F p =
     (case resolve F p of
        Rewritten from to \<Rightarrow> Inl (NotCanonical from)
      | RewrittenButMissing from to \<Rightarrow> Inl (NotCanonical from)
      | Relative q \<Rightarrow> Inl (NotAbsolutePath q)
      | Missing q \<Rightarrow>
          if ParentDir \<in> set (path_components q) then Inl UnresolvedDotDot
          else bind_result (check_ancestors F q (ancestors (path_components q))) (\<lambda>_. Inr (Missing q))
      | Unchanged q \<Rightarrow> Inr (Unchanged q))"

section \<open>Sealed files\<close>

definition dir_is_sealed :: "u32 \<Rightarrow> u32 \<Rightarrow> bool" where
  "dir_is_sealed uid mode \<longleftrightarrow> uid = 0 \<and> (mode AND 0x12 = 0 \<or> mode AND 0x200 \<noteq> 0)"

definition file_is_sealed :: "u32 \<Rightarrow> u32 \<Rightarrow> bool" where
  "file_is_sealed uid mode \<longleftrightarrow> uid = 0 \<and> mode AND 0x12 = 0"

text \<open>\<open>None\<close> is an i/o error; the directories are asked from the file's parent to the root.\<close>

fun dirs_sealed :: "fs \<Rightarrow> path_component list list \<Rightarrow> bool option" where
  "dirs_sealed F [] = Some True"
| "dirs_sealed F (d # ds) =
     (case fs_lstat F d of
        Meta is_dir _ uid mode \<Rightarrow> if \<not> is_dir \<or> \<not> dir_is_sealed uid mode then Some False else dirs_sealed F ds
      | _ \<Rightarrow> None)"

definition is_root_sealed :: "fs \<Rightarrow> string \<Rightarrow> bool option" where
  "is_root_sealed F p =
     (if \<not> is_absolute p then Some False
      else (case fs_lstat F (path_components p) of
              Meta _ is_file uid mode \<Rightarrow>
                if \<not> is_file \<or> \<not> file_is_sealed uid mode then Some False
                else dirs_sealed F (tl (ancestors (path_components p)))
            | _ \<Rightarrow> None))"

section \<open>An accepted target is the one submitted\<close>

lemma split_slash_append: "split_slash (a @ CHR ''/'' # b) = split_slash a @ split_slash b"
proof (induction a)
  case Nil
  then show ?case using split_slash_nonempty [of b] by (cases "split_slash b") auto
next
  case (Cons c a)
  then show ?case
    using split_slash_nonempty [of a] split_slash_nonempty [of b] by (auto split: list.splits)
qed

lemma components_trailing: "a \<noteq> [] \<Longrightarrow> is_absolute a \<Longrightarrow> path_components (a @ ''/'') = path_components a"
  using split_slash_append [of a "[]"]
  by (auto simp: path_components_def is_absolute_def Let_def split: list.splits)

lemma components_slashes: "is_absolute a \<Longrightarrow> path_components (a @ replicate n CHR ''/'') = path_components a"
proof (induction n)
  case (Suc n)
  have "is_absolute (a @ replicate n CHR ''/'')" using Suc.prems by (cases a) (auto simp: is_absolute_def)
  from components_trailing [OF _ this] Suc show ?case
    by (cases a) (auto simp: replicate_append_same is_absolute_def)
qed simp

lemma strip_trailing: "\<exists>m. xs = rev (dropWhile (\<lambda>c. c = x) (rev xs)) @ replicate m x"
proof -
  let ?t = "takeWhile (\<lambda>c. c = x) (rev xs)"
  have "replicate (length ?t) x = ?t" by (rule replicate_length_same) (auto dest: set_takeWhileD)
  then have "rev ?t = replicate (length ?t) x" by (metis rev_replicate)
  moreover have "xs = rev (dropWhile (\<lambda>c. c = x) (rev xs)) @ rev ?t"
    using takeWhile_dropWhile_id [of "\<lambda>c. c = x" "rev xs"] by (metis rev_append rev_rev_ident)
  ultimately show ?thesis by metis
qed

lemma trim_slashes_eq:
  assumes abs: "is_absolute p"
  shows "path_eq (trim_slashes p) p \<and> is_absolute (trim_slashes p) \<and> length (trim_slashes p) \<le> length p"
proof (cases "1 < length p \<and> last p = CHR ''/''")
  case True
  let ?k = "rev (dropWhile (\<lambda>c. c = CHR ''/'') (rev p))"
  obtain m where p: "p = ?k @ replicate m CHR ''/''" using strip_trailing [of p] by blast
  show ?thesis
  proof (cases "?k = []")
    case empty: True
    with p have "p = replicate m CHR ''/''" unfolding empty by simp
    moreover from this abs obtain n where "m = Suc n" by (cases m) (simp_all add: is_absolute_def)
    ultimately have n: "p = ''/'' @ replicate n CHR ''/''" by simp
    have "path_components (''/'' @ replicate n CHR ''/'') = path_components ''/''"
      by (rule components_slashes) (simp add: is_absolute_def)
    then have "path_eq ''/'' p" unfolding path_eq_def n by simp
    moreover have "trim_slashes p = ''/''"
      unfolding trim_slashes_def Let_def empty using True by simp
    moreover have "is_absolute ''/''" by (simp add: is_absolute_def)
    ultimately show ?thesis using True by simp
  next
    case False
    then obtain c k where ck: "?k = c # k" by (cases ?k) auto
    have "hd p = c" using p ck by (metis append_Cons list.sel(1))
    with abs ck have k: "is_absolute ?k" by (cases p) (auto simp: is_absolute_def)
    have "path_components p = path_components ?k" using components_slashes [OF k, of m] p by simp
    moreover have "length ?k \<le> length p" using p by (metis le_add1 length_append)
    moreover have "trim_slashes p = ?k"
      unfolding trim_slashes_def Let_def using False True by (simp only: if_True if_False simp_thms)
    ultimately show ?thesis using k by (simp add: path_eq_def)
  qed
next
  case False
  with abs show ?thesis by (auto simp: trim_slashes_def)
qed

lemma resolve_exe_policy_same:
  assumes "resolve_exe_policy F p = Inr out"
  shows "path_eq (into_path out) p" "is_absolute p"
    "out = Unchanged (into_path out) \<or> out = Missing (into_path out) \<and> length (into_path out) \<le> length p"
proof -
  from assms show abs: "is_absolute p" by (auto simp: resolve_exe_policy_def resolve_def split: if_splits)
  note t = trim_slashes_eq [OF abs]
  from assms abs have "(\<exists>real. out = Unchanged real \<and> path_eq real (trim_slashes p)) \<or> out = Missing (trim_slashes p)"
    by (auto simp: resolve_exe_policy_def resolve_def Let_def bind_result_Inr_iff split: option.splits if_splits)
  with t show "path_eq (into_path out) p"
    "out = Unchanged (into_path out) \<or> out = Missing (into_path out) \<and> length (into_path out) \<le> length p"
    by (auto intro: path_eq_trans)
qed


text \<open>The walk up from a missing target stops at a real directory, and everything below it is absent.\<close>

definition absent_below_directory :: "fs \<Rightarrow> path_component list \<Rightarrow> bool" where
  "absent_below_directory F cs \<longleftrightarrow>
     (\<exists>k < length cs. (\<forall>n. k < n \<and> n \<le> length cs \<longrightarrow> fs_lstat F (take n cs) = NotFound) \<and>
        (k = 0 \<or> (\<exists>f uid mode. fs_lstat F (take k cs) = Meta True f uid mode)))"

lemma check_ancestors_walk:
  assumes "check_ancestors F q (rev (map (\<lambda>n. take n cs) [1..<Suc n])) = Inr ()"
  shows "\<exists>k \<le> n. (\<forall>m. k < m \<and> m \<le> n \<longrightarrow> fs_lstat F (take m cs) = NotFound) \<and>
    (k = 0 \<or> take k cs \<noteq> path_components q \<and> (\<exists>f uid mode. fs_lstat F (take k cs) = Meta True f uid mode))"
  using assms
proof (induction n)
  case (Suc n)
  have step: "check_ancestors F q (take (Suc n) cs # rev (map (\<lambda>n. take n cs) [1..<Suc n])) = Inr ()"
    using Suc.prems by simp
  show ?case
  proof (cases "fs_lstat F (take (Suc n) cs)")
    case (Meta d f uid mode)
    with step have "take (Suc n) cs \<noteq> path_components q \<and> d" by (auto split: if_splits)
    with Meta show ?thesis by (intro exI [of _ "Suc n"]) auto
  next
    case NotFound
    with step have "check_ancestors F q (rev (map (\<lambda>n. take n cs) [1..<Suc n])) = Inr ()" by simp
    from Suc.IH [OF this] obtain k where k: "k \<le> n" "\<forall>m. k < m \<and> m \<le> n \<longrightarrow> fs_lstat F (take m cs) = NotFound"
      "k = 0 \<or> take k cs \<noteq> path_components q \<and> (\<exists>f uid mode. fs_lstat F (take k cs) = Meta True f uid mode)"
      by blast
    with NotFound show ?thesis by (intro exI [of _ k]) (auto simp: le_Suc_eq)
  next
    case LstatFailed
    with step show ?thesis by simp
  qed
qed simp

lemma check_ancestors_Inr:
  assumes ck: "check_ancestors F q (ancestors (path_components q)) = Inr ()" and ab: "is_absolute q"
  shows "absent_below_directory F (path_components q)"
proof -
  obtain c cs where q: "path_components q = c # cs"
    using ab by (cases "path_components q") (simp_all add: path_components_def Let_def)
  then have "check_ancestors F q (rev (map (\<lambda>n. take n (c # cs)) [1..<Suc (length (c # cs))])) = Inr ()"
    using ck by simp
  from check_ancestors_walk [OF this] obtain k where
    k: "k \<le> length (c # cs)" "\<forall>m. k < m \<and> m \<le> length (c # cs) \<longrightarrow> fs_lstat F (take m (c # cs)) = NotFound"
      "k = 0 \<or> take k (c # cs) \<noteq> path_components q \<and>
        (\<exists>f uid mode. fs_lstat F (take k (c # cs)) = Meta True f uid mode)" by blast
  then have "k \<noteq> length (c # cs)" using q by auto
  with k q show ?thesis unfolding absent_below_directory_def by (intro exI [of _ k]) auto
qed

text \<open>a policy never follows an alias.  An executable path that is accepted is stored as a
  spelling of the path that was submitted, component by component; when nothing is there yet,
  it has no parent references, every component that is missing is reported missing without
  following a link, and the nearest component that exists is a directory.\<close>

theorem policy_path_is_never_retargeted:
  assumes "resolve_exe_policy F p = Inr out"
  shows "path_eq (into_path out) p \<and> is_absolute p \<and>
    (case out of
       Unchanged q \<Rightarrow> fs_canonicalize F (trim_slashes p) = Some q
     | Missing q \<Rightarrow> fs_canonicalize F q = None \<and> ParentDir \<notin> set (path_components p) \<and>
         absent_below_directory F (path_components p)
     | _ \<Rightarrow> False)"
proof -
  note same = resolve_exe_policy_same [OF assms]
  note t = trim_slashes_eq [OF same(2)]
  have c: "path_components (trim_slashes p) = path_components p" using t by (simp add: path_eq_def)
  from assms same(2) consider
      real where "out = Unchanged real" "fs_canonicalize F (trim_slashes p) = Some real"
    | "out = Missing (trim_slashes p)" "fs_canonicalize F (trim_slashes p) = None"
      "ParentDir \<notin> set (path_components (trim_slashes p))"
      "check_ancestors F (trim_slashes p) (ancestors (path_components (trim_slashes p))) = Inr ()"
    by (auto simp: resolve_exe_policy_def resolve_def Let_def bind_result_Inr_iff split: option.splits if_splits)
  then show ?thesis
  proof cases
    case 1
    with same show ?thesis by simp
  next
    case 2
    with check_ancestors_Inr [OF 2(4)] t same c show ?thesis by simp
  qed
qed

text \<open>A program that is not installed yet, below a directory that is.\<close>

definition example_fs :: fs where
  "example_fs =
     \<lparr>fs_canonicalize = (\<lambda>p. if p = ''/opt'' then Some p else None),
      fs_canonical_parent = (\<lambda>cs. if cs = [RootDir, Normal ''opt''] then Some (cs, True) else None),
      fs_lstat = (\<lambda>cs. if cs = [RootDir] \<or> cs = [RootDir, Normal ''opt''] then Meta True False 0 0x1ED else NotFound)\<rparr>"

theorem policy_path_is_never_retargeted_witness:
  "resolve_exe_policy example_fs ''/opt/tool/'' = Inr (Missing ''/opt/tool'') \<and>
   path_eq ''/opt/tool'' ''/opt/tool/'' \<and>
   absent_below_directory example_fs (path_components ''/opt/tool/'')"
proof -
  have "resolve_exe_policy example_fs ''/opt/tool/'' = Inr (Missing ''/opt/tool'')" by code_simp
  from policy_path_is_never_retargeted [OF this] this show ?thesis by simp
qed

section \<open>What acceptance vouches for\<close>

text \<open>
  \<open>exe_vetted F p\<close> is what one look at the file system has to show of a policy's executable:
  the path is absolute, and either some spelling of it is its own canonical path, or nothing is
  there, no component goes up, what is missing is missing below a real directory, and the
  nearest parent the file system can canonicalize is already canonical.
\<close>

definition exe_vetted :: "fs \<Rightarrow> string \<Rightarrow> bool" where
  "exe_vetted F p \<longleftrightarrow> is_absolute p \<and>
     ((\<exists>spelled real. path_eq spelled p \<and> fs_canonicalize F spelled = Some real \<and> path_eq real p) \<or>
      (\<exists>spelled. path_eq spelled p \<and> fs_canonicalize F spelled = None) \<and>
      ParentDir \<notin> set (path_components p) \<and> absent_below_directory F (path_components p) \<and>
      (\<forall>k real. 0 < k \<and> k < length (path_components p) \<and>
         (\<forall>m. k < m \<and> m < length (path_components p) \<longrightarrow> fs_canonical_parent F (take m (path_components p)) = None) \<and>
         fs_canonical_parent F (take k (path_components p)) = Some (real, True) \<longrightarrow>
         real = take k (path_components p)))"

lemma via_ancestor_deepest:
  assumes "\<forall>c \<in> set (drop 1 cs). \<exists>name. c = Normal name" "0 < k" "k < n" "n \<le> length cs"
    "\<forall>m. k < m \<and> m < n \<longrightarrow> fs_canonical_parent F (take m cs) = None"
    "fs_canonical_parent F (take k cs) = Some (real, True)"
  shows "via_ancestor F (rev (take n cs)) tail = Some (real @ drop k (take n cs) @ tail)"
  using assms(3-5)
proof (induction n arbitrary: tail)
  case (Suc n)
  have n: "n < length cs" "0 < n" using Suc.prems assms(2) by auto
  then have "cs ! n = drop 1 cs ! (n - 1)" "n - 1 < length (drop 1 cs)" by auto
  then have "cs ! n \<in> set (drop 1 cs)" by (metis nth_mem)
  then obtain name where name: "cs ! n = Normal name" using assms(1) by blast
  have rev: "rev (take (Suc n) cs) = Normal name # rev (take n cs)"
    using n name by (simp add: take_Suc_conv_app_nth)
  show ?case
  proof (cases "n = k")
    case True
    then show ?thesis unfolding rev using assms(6) name n by (simp add: take_Suc_conv_app_nth)
  next
    case False
    with Suc.prems have "k < n" "fs_canonical_parent F (take n cs) = None" by auto
    with Suc.IH [of "Normal name # tail"] Suc.prems n name show ?thesis
      unfolding rev by (simp add: take_Suc_conv_app_nth)
  qed
qed simp

lemma absolute_normal:
  assumes "is_absolute p" "ParentDir \<notin> set (path_components p)"
  shows "\<forall>c \<in> set (drop 1 (path_components p)). \<exists>name. c = Normal name"
proof -
  have comp: "c = ParentDir \<or> (\<exists>name. c = Normal name)" if "c \<in> set (component_of seg)" for c seg
    using that by (auto simp: Let_def split: if_splits)
  have all: "path_components p = RootDir # concat (map component_of (split_slash p))"
    using assms(1) by (simp add: path_components_def Let_def)
  note comps = comp all
  show ?thesis
  proof
    fix c assume "c \<in> set (drop 1 (path_components p))"
    then have "c \<in> (\<Union>seg \<in> set (split_slash p). set (component_of seg))"
      unfolding comps(2) by (simp only: One_nat_def drop_Suc_Cons drop0 set_concat set_map image_image)
    then obtain seg where "c \<in> set (component_of seg)" by blast
    moreover have "c \<noteq> ParentDir"
      using assms(2) \<open>c \<in> set (drop 1 (path_components p))\<close> by (metis in_set_dropD)
    ultimately show "\<exists>name. c = Normal name" using comps(1) by blast
  qed
qed

lemma accepted_exe_is_vetted:
  assumes "resolve_exe_policy F p = Inr out"
  shows "exe_vetted F p" "path_eq (into_path out) p"
proof -
  note same = resolve_exe_policy_same [OF assms]
  note t = trim_slashes_eq [OF same(2)]
  have c: "path_components (trim_slashes p) = path_components p" using t by (simp add: path_eq_def)
  show "path_eq (into_path out) p" by (rule same(1))
  show "exe_vetted F p"
  proof (cases "fs_canonicalize F (trim_slashes p)")
    case (Some real)
    with assms same(2) have "path_eq real (trim_slashes p)"
      by (auto simp: resolve_exe_policy_def resolve_def Let_def split: if_splits)
    with Some t same(2) show ?thesis unfolding exe_vetted_def using path_eq_trans by blast
  next
    case None
    from assms same(2) None have d: "ParentDir \<notin> set (path_components p)"
      and a: "check_ancestors F (trim_slashes p) (ancestors (path_components (trim_slashes p))) = Inr ()"
      and v: "resolve_via_ancestor F (trim_slashes p) = None \<or>
        resolve_via_ancestor F (trim_slashes p) = Some (path_components p)"
      by (auto simp: resolve_exe_policy_def resolve_def Let_def bind_result_Inr_iff c split: option.splits if_splits)
    have "absent_below_directory F (path_components p)" using check_ancestors_Inr [OF a] t c by simp
    moreover have "real = take k (path_components p)"
      if "0 < k" "k < length (path_components p)"
        "\<forall>m. k < m \<and> m < length (path_components p) \<longrightarrow> fs_canonical_parent F (take m (path_components p)) = None"
        "fs_canonical_parent F (take k (path_components p)) = Some (real, True)" for k real
    proof -
      have "via_ancestor F (rev (path_components p)) [] = Some (real @ drop k (path_components p))"
        using via_ancestor_deepest [OF absolute_normal [OF same(2) d] that(1,2) order_refl that(3,4), of "[]"] by simp
      with v have "real @ drop k (path_components p) = path_components p"
        by (simp add: resolve_via_ancestor_def c)
      then show ?thesis by (metis append_take_drop_id append_same_eq)
    qed
    ultimately show ?thesis unfolding exe_vetted_def using same(2) None t d by blast
  qed
qed

lemma dirs_sealed_True:
  "dirs_sealed F ds = Some True \<longleftrightarrow>
     (\<forall>d \<in> set ds. \<exists>f uid mode. fs_lstat F d = Meta True f uid mode \<and> dir_is_sealed uid mode)"
  by (induction ds) (auto split: lstat.splits if_splits)

lemma set_ancestors_tl:
  "set (tl (ancestors cs)) = {take n cs | n. 1 \<le> n \<and> n < length cs}"
proof (cases cs)
  case (Cons c cs')
  have "tl (rev (map f ([1..<k] @ [k]))) = rev (map f [1..<k])" for f :: "nat \<Rightarrow> path_component list" and k by simp
  then have "tl (ancestors cs) = rev (map (\<lambda>n. take n cs) [1..<length cs])"
    using Cons by simp
  then show ?thesis by auto
qed simp

text \<open>A path counts as sealed exactly when it is an absolute path to a regular file owned by
  root and writable by root alone, with every directory above it owned by root and either
  writable by root alone or sticky.\<close>

theorem sealed_means_root_only:
  "is_root_sealed F p = Some True \<longleftrightarrow>
     is_absolute p \<and>
     (\<exists>d mode. fs_lstat F (path_components p) = Meta d True 0 mode \<and> mode AND 0x12 = 0) \<and>
     (\<forall>n. 1 \<le> n \<and> n < length (path_components p) \<longrightarrow>
        (\<exists>f mode. fs_lstat F (take n (path_components p)) = Meta True f 0 mode \<and>
           (mode AND 0x12 = 0 \<or> mode AND 0x200 \<noteq> 0)))"
  by (auto simp: is_root_sealed_def dirs_sealed_True set_ancestors_tl file_is_sealed_def dir_is_sealed_def
      split: lstat.splits if_splits)

end
