(* ===== verification/Storage.thy ===== *)
theory Storage
  imports Convert Engine "HOL-Library.AList" "HOL-Library.List_Lexorder" "HOL-Library.Char_ord"
    "HOL-Library.Product_Lexorder" "HOL-Library.Sublist"
begin

text \<open>
  \<open>crates/cfc-daemon/src/storage.rs\<close>: the rule table and the event log behind \<open>RuleStore\<close>.
  SQLite is the standard it documents: a statement or a transaction takes effect whole or not
  at all, so an operation has an argument that says whether the database accepts it.  The
  \<open>data\<close> column is a value of a type \<open>'j\<close> that \<open>serde_json\<close> writes and reads (record
  \<open>serde\<close>); the \<open>id\<close> column is the uuid's text.  Pragmas, file modes and logging are not
  modelled.
\<close>

section \<open>State\<close>

record 'j serde =
  json_show :: "rule \<Rightarrow> 'j"
  json_parse :: "'j \<Rightarrow> rule option"

type_synonym 'j rows = "(string \<times> bool \<times> 'j) list"

record 'j store =
  st_rows :: "'j rows"
  st_events :: "event_row list"
  st_next_event :: int
  st_skipped :: nat
  st_version :: int

datatype storage_error = DbFailed | HostnameRefused scope_error | NewerSchema int

definition empty_store :: "'j store" where
  "empty_store = \<lparr>st_rows = [], st_events = [], st_next_event = 1, st_skipped = 0, st_version = 0\<rparr>"

text \<open>An operation that the database accepts or refuses as a whole.\<close>

definition with_db :: "bool \<Rightarrow> ('s \<Rightarrow> 'a \<times> 's) \<Rightarrow> 's \<Rightarrow> (storage_error + 'a) \<times> 's" where
  "with_db ok f s = (if ok then (case f s of (x, s') \<Rightarrow> (Inr x, s')) else (Inl DbFailed, s))"

lemma with_db_simps [simp]:
  "with_db False f s = (Inl DbFailed, s)" "with_db True f s = (Inr (fst (f s)), snd (f s))"
  by (simp_all add: with_db_def split: prod.split)

section \<open>Loading\<close>

definition heal_legacy_protocol :: "rule \<Rightarrow> rule" where
  "heal_legacy_protocol r =
     (if r_action r \<noteq> Allow \<and> (case s_protocol (r_scope r) of Some (Other _) \<Rightarrow> True | _ \<Rightarrow> False)
      then r\<lparr>r_scope := (r_scope r)\<lparr>s_protocol := None\<rparr>\<rparr> else r)"

datatype quarantine = LegacyAllowProtocol | FailsGate conv_error

definition quarantine_reason :: "rule \<Rightarrow> quarantine option" where
  "quarantine_reason r =
     (if s_dst_host (r_scope r) \<noteq> None then None
      else if r_action r = Allow \<and> (case s_protocol (r_scope r) of Some (Other _) \<Rightarrow> True | _ \<Rightarrow> False)
      then Some LegacyAllowProtocol
      else (case check_scope (r_scope r) of Inl e \<Rightarrow> Some (FailsGate e) | Inr _ \<Rightarrow> None))"

datatype load = Loaded rule | Quarantined rule quarantine | Undecodable

definition load_row :: "'j serde \<Rightarrow> 'j \<Rightarrow> load" where
  "load_row S data =
     (case json_parse S data of
        None \<Rightarrow> Undecodable
      | Some r \<Rightarrow>
          let r = (if s_dst_host (r_scope r) = None then heal_legacy_protocol r else r) in
          (case quarantine_reason r of Some q \<Rightarrow> Quarantined r q | None \<Rightarrow> Loaded r))"

fun loaded :: "load \<Rightarrow> rule option" where
  "loaded (Loaded r) = Some r"
| "loaded _ = None"

definition load_rows :: "'j serde \<Rightarrow> 'j rows \<Rightarrow> load list" where
  "load_rows S rows = map (\<lambda>row. load_row S (snd (snd row))) (sort_key fst rows)"

definition load_snapshot :: "'j serde \<Rightarrow> 'j store \<Rightarrow> rule list \<times> 'j store" where
  "load_snapshot S st =
     (let loads = load_rows S (st_rows st) in
      (List.map_filter loaded loads, st\<lparr>st_skipped := length (filter (\<lambda>l. loaded l = None) loads)\<rparr>))"

definition snapshot_db :: "bool \<Rightarrow> 'j serde \<Rightarrow> 'j store \<Rightarrow> (storage_error + rule list) \<times> 'j store" where
  "snapshot_db ok S = with_db ok (load_snapshot S)"

definition skipped_rules :: "'j store \<Rightarrow> nat" where
  "skipped_rules st = st_skipped st"

section \<open>Writing rules\<close>

text \<open>\<open>INSERT ... ON CONFLICT(id) DO UPDATE\<close>.\<close>

definition put_row :: "string \<times> bool \<times> 'j \<Rightarrow> 'j rows \<Rightarrow> 'j rows" where
  "put_row entry rows = AList.update (fst entry) (snd entry) rows"

definition row_of :: "codec \<Rightarrow> 'j serde \<Rightarrow> rule \<Rightarrow> string \<times> bool \<times> 'j" where
  "row_of C S r = (uuid_show C (r_id r), r_enabled r, json_show S r)"

definition upsert_db :: "bool \<Rightarrow> codec \<Rightarrow> 'j serde \<Rightarrow> rule \<Rightarrow> 'j store \<Rightarrow> (storage_error + unit) \<times> 'j store" where
  "upsert_db ok C S r st =
     (case reject_hostname_policy (r_scope r) of
        Inl e \<Rightarrow> (Inl (HostnameRefused e), st)
      | Inr _ \<Rightarrow> with_db ok (\<lambda>st. ((), st\<lparr>st_rows := put_row (row_of C S r) (st_rows st)\<rparr>)) st)"

fun first_refusal :: "rule list \<Rightarrow> scope_error option" where
  "first_refusal [] = None"
| "first_refusal (r # rs) =
     (case reject_hostname_policy (r_scope r) of Inl e \<Rightarrow> Some e | Inr _ \<Rightarrow> first_refusal rs)"

text \<open>One transaction: the removed count, an optional \<open>DELETE FROM rules\<close>, then the inserts.\<close>

definition apply_tx :: "codec \<Rightarrow> 'j serde \<Rightarrow> rule list \<Rightarrow> bool \<Rightarrow> 'j store \<Rightarrow> nat \<times> 'j store" where
  "apply_tx C S rules repl st =
     (let incoming = map (\<lambda>r. uuid_show C (r_id r)) rules;
          removed = (if repl then card (fst ` set (st_rows st) - set incoming) else 0);
          rows = (if repl then [] else st_rows st) in
      (removed, st\<lparr>st_rows := fold (\<lambda>r. put_row (row_of C S r)) rules rows\<rparr>))"

definition apply_rules_db :: "bool \<Rightarrow> codec \<Rightarrow> 'j serde \<Rightarrow> rule list \<Rightarrow> bool \<Rightarrow> 'j store \<Rightarrow>
    (storage_error + nat) \<times> 'j store" where
  "apply_rules_db ok C S rules repl st =
     (case first_refusal rules of
        Some e \<Rightarrow> (Inl (HostnameRefused e), st)
      | None \<Rightarrow> with_db ok (apply_tx C S rules repl) st)"

definition delete_db :: "bool \<Rightarrow> codec \<Rightarrow> uuid \<Rightarrow> 'j store \<Rightarrow> (storage_error + bool) \<times> 'j store" where
  "delete_db ok C rid = with_db ok (\<lambda>st.
     (uuid_show C rid \<in> fst ` set (st_rows st),
      st\<lparr>st_rows := AList.delete (uuid_show C rid) (st_rows st)\<rparr>))"

definition doomed :: "'j serde \<Rightarrow> (rule \<Rightarrow> bool) \<Rightarrow> 'j \<Rightarrow> bool" where
  "doomed S pred data = (case json_parse S data of None \<Rightarrow> False | Some r \<Rightarrow> pred r)"

definition purge_where :: "bool \<Rightarrow> 'j serde \<Rightarrow> (rule \<Rightarrow> bool) \<Rightarrow> 'j store \<Rightarrow> (storage_error + nat) \<times> 'j store" where
  "purge_where ok S pred = with_db ok (\<lambda>st.
     let ids = map fst (filter (\<lambda>row. doomed S pred (snd (snd row))) (st_rows st)) in
     (length ids, st\<lparr>st_rows := fold AList.delete ids (st_rows st)\<rparr>))"

definition is_transient :: "rule \<Rightarrow> bool" where
  "is_transient r \<longleftrightarrow> r_duration r = Once \<or> r_duration r = UntilRestart"

definition purge_transient :: "bool \<Rightarrow> 'j serde \<Rightarrow> 'j store \<Rightarrow> (storage_error + nat) \<times> 'j store" where
  "purge_transient ok S = purge_where ok S is_transient"

definition purge_expired :: "bool \<Rightarrow> ext \<Rightarrow> 'j serde \<Rightarrow> int \<Rightarrow> 'j store \<Rightarrow> (storage_error + nat) \<times> 'j store" where
  "purge_expired ok E S now = purge_where ok S (\<lambda>r. is_expired E r now)"

text \<open>\<open>HashMap\<close> iteration is a list of the increments in some order.\<close>

definition merge_one :: "codec \<Rightarrow> 'j serde \<Rightarrow> uuid \<times> u64 \<Rightarrow> 'j rows \<Rightarrow> 'j rows" where
  "merge_one C S inc rows =
     (case map_of rows (uuid_show C (fst inc)) of
        None \<Rightarrow> rows
      | Some (on, data) \<Rightarrow>
          (case json_parse S data of
             None \<Rightarrow> rows
           | Some r \<Rightarrow>
               AList.update (uuid_show C (fst inc))
                 (on, json_show S (r\<lparr>r_hit_count := sat_add64 (r_hit_count r) (snd inc)\<rparr>)) rows))"

definition merge_hit_counts :: "bool \<Rightarrow> codec \<Rightarrow> 'j serde \<Rightarrow> (uuid \<times> u64) list \<Rightarrow> 'j store \<Rightarrow>
    (storage_error + unit) \<times> 'j store" where
  "merge_hit_counts ok C S incs st =
     (if incs = [] then (Inr (), st)
      else with_db ok (\<lambda>st. ((), st\<lparr>st_rows := fold (merge_one C S) incs (st_rows st)\<rparr>)) st)"

section \<open>The event log\<close>

record event_filter =
  ef_exe_contains :: "string option"
  ef_action :: "string option"
  ef_since_ts_unix_ms :: "int option"

fun number_events :: "int \<Rightarrow> event_row list \<Rightarrow> event_row list" where
  "number_events n [] = []"
| "number_events n (e # es) = e\<lparr>er_id := n\<rparr> # number_events (n + 1) es"

definition insert_events :: "bool \<Rightarrow> event_row list \<Rightarrow> 'j store \<Rightarrow> (storage_error + unit) \<times> 'j store" where
  "insert_events ok batch st =
     (if batch = [] then (Inr (), st)
      else with_db ok (\<lambda>st. ((), st\<lparr>st_events := st_events st @ number_events (st_next_event st) batch,
                                    st_next_event := st_next_event st + int (length batch)\<rparr>)) st)"

definition event_key :: "event_row \<Rightarrow> int \<times> int" where
  "event_key e = (er_ts_unix_ms e, er_id e)"

definition newest_first :: "event_row list \<Rightarrow> event_row list" where
  "newest_first es = rev (sort_key event_key es)"

definition event_matches :: "event_filter \<Rightarrow> event_row \<Rightarrow> bool" where
  "event_matches f e \<longleftrightarrow>
     (case ef_exe_contains f of None \<Rightarrow> True
      | Some part \<Rightarrow> (case er_exe e of None \<Rightarrow> False | Some exe \<Rightarrow> sublist part exe)) \<and>
     (case ef_action f of None \<Rightarrow> True | Some a \<Rightarrow> er_action e = a) \<and>
     (case ef_since_ts_unix_ms f of None \<Rightarrow> True | Some t \<Rightarrow> t \<le> er_ts_unix_ms e)"

definition query_events :: "bool \<Rightarrow> u32 \<Rightarrow> u32 \<Rightarrow> event_filter \<Rightarrow> 'j store \<Rightarrow>
    (storage_error + event_row list) \<times> 'j store" where
  "query_events ok limit offset f = with_db ok (\<lambda>st.
     (take (unat limit) (drop (unat offset) (newest_first (filter (event_matches f) (st_events st)))), st))"

definition prune_events :: "bool \<Rightarrow> u32 \<Rightarrow> 'j store \<Rightarrow> (storage_error + nat) \<times> 'j store" where
  "prune_events ok max_rows = with_db ok (\<lambda>st.
     let old = map er_id (drop (unat max_rows) (newest_first (st_events st))) in
     (length (filter (\<lambda>e. er_id e \<in> set old) (st_events st)),
      st\<lparr>st_events := filter (\<lambda>e. er_id e \<notin> set old) (st_events st)\<rparr>))"

section \<open>Opening\<close>

datatype migration_stmt = ReadVersion | ApplySchema | SetVersion

definition SCHEMA_VERSION :: int where "SCHEMA_VERSION = 1"

text \<open>The loop: one schema version at a time, until the current one.\<close>

function migrate :: "(migration_stmt \<Rightarrow> bool) \<Rightarrow> 'j store \<Rightarrow> (storage_error + unit) \<times> 'j store" where
  "migrate oks st =
     (if \<not> oks ReadVersion then (Inl DbFailed, st)
      else if st_version st = 0 then
        (if \<not> oks ApplySchema \<or> \<not> oks SetVersion then (Inl DbFailed, st)
         else migrate oks (st\<lparr>st_version := 1\<rparr>))
      else if st_version st = SCHEMA_VERSION then (Inr (), st)
      else (Inl (NewerSchema (st_version st)), st))"
  by pat_completeness auto
termination
  by (relation "measure (\<lambda>(oks, st). if st_version st = 0 then 1 else 0)") auto

declare migrate.simps [simp del]

fun open_store :: "(migration_stmt \<Rightarrow> bool) \<Rightarrow> bool \<Rightarrow> bool \<Rightarrow> ext \<Rightarrow> 'j serde \<Rightarrow> int \<Rightarrow> 'j store \<Rightarrow>
    (storage_error + unit) \<times> 'j store" where
  "open_store oks ok_transient ok_expired E S now st =
     (case migrate oks st of
        (Inl e, st) \<Rightarrow> (Inl e, st)
      | (Inr _, st) \<Rightarrow>
          (case purge_transient ok_transient S (st\<lparr>st_skipped := 0\<rparr>) of
             (Inl e, st) \<Rightarrow> (Inl e, st)
           | (Inr _, st) \<Rightarrow>
               (case purge_expired ok_expired E S now st of
                  (Inl e, st) \<Rightarrow> (Inl e, st)
                | (Inr _, st) \<Rightarrow> (Inr (), st))))"

section \<open>The table is a keyed store\<close>

definition keys_distinct :: "'j rows \<Rightarrow> bool" where
  "keys_distinct rows \<longleftrightarrow> distinct (map fst rows)"

lemma map_of_put_row: "map_of (put_row entry rows) = (map_of rows)(fst entry \<mapsto> snd entry)"
  by (simp add: put_row_def update_conv')

lemma keys_put_row: "keys_distinct rows \<Longrightarrow> keys_distinct (put_row entry rows)"
  by (simp add: keys_distinct_def put_row_def distinct_update)

lemma keys_delete_row: "keys_distinct rows \<Longrightarrow> keys_distinct (AList.delete k rows)"
  by (simp add: keys_distinct_def distinct_delete)

interpretation row_table: keyed_store keys_distinct fst "\<lambda>rows k. map_option (Pair k) (map_of rows k)"
  put_row AList.delete
  by unfold_locales (auto simp: map_of_put_row keys_put_row keys_delete_row delete_conv')

text \<open>What the laws of the two external text forms give: a rule written is the rule read, and
  two rules share a row only when they share an id.\<close>

definition serde_ok :: "'j serde \<Rightarrow> bool" where
  "serde_ok S \<longleftrightarrow> (\<forall>r. json_parse S (json_show S r) = Some r)"

lemma uuid_show_inject: "codec_ok C \<Longrightarrow> uuid_show C u = uuid_show C v \<longleftrightarrow> u = v"
  unfolding codec_ok_def by (metis option.inject)

text \<open>Every row that decodes is filed under the id of its rule, as every write leaves it.\<close>

definition rows_ok :: "codec \<Rightarrow> 'j serde \<Rightarrow> 'j rows \<Rightarrow> bool" where
  "rows_ok C S rows \<longleftrightarrow> keys_distinct rows \<and>
     (\<forall>k en d r. map_of rows k = Some (en, d) \<and> json_parse S d = Some r \<longrightarrow> k = uuid_show C (r_id r))"

lemma rows_okD:
  assumes "rows_ok C S rows"
  shows "keys_distinct rows"
    "map_of rows k = Some (en, d) \<Longrightarrow> json_parse S d = Some r \<Longrightarrow> k = uuid_show C (r_id r)"
  using assms unfolding rows_ok_def by blast+

lemma rows_ok_put:
  assumes "rows_ok C S rows" "\<And>r. json_parse S (snd (snd entry)) = Some r \<Longrightarrow> fst entry = uuid_show C (r_id r)"
  shows "rows_ok C S (put_row entry rows)"
  unfolding rows_ok_def
proof (intro conjI allI impI)
  show "keys_distinct (put_row entry rows)" by (rule keys_put_row [OF rows_okD(1) [OF assms(1)]])
  fix k en d r
  assume "map_of (put_row entry rows) k = Some (en, d) \<and> json_parse S d = Some r"
  then show "k = uuid_show C (r_id r)"
    using assms(2) [of r] rows_okD(2) [OF assms(1), of k en d r]
    by (auto simp: map_of_put_row split: if_splits)
qed

lemma rows_ok_subset:
  assumes "rows_ok C S rows" "keys_distinct rows'" "\<And>k v. map_of rows' k = Some v \<Longrightarrow> map_of rows k = Some v"
  shows "rows_ok C S rows'"
  using assms unfolding rows_ok_def by blast

lemma rows_ok_delete: "rows_ok C S rows \<Longrightarrow> rows_ok C S (AList.delete k rows)"
  by (rule rows_ok_subset) (auto simp: keys_delete_row rows_okD delete_conv' split: if_splits)

lemma row_of_simps [simp]: "fst (row_of C S r) = uuid_show C (r_id r)" "snd (row_of C S r) = (r_enabled r, json_show S r)"
  by (simp_all add: row_of_def)

lemma rows_ok_write: "serde_ok S \<Longrightarrow> rows_ok C S rows \<Longrightarrow> rows_ok C S (put_row (row_of C S r) rows)"
  by (rule rows_ok_put) (simp_all add: serde_ok_def)

lemma rows_ok_writes:
  "serde_ok S \<Longrightarrow> rows_ok C S rows \<Longrightarrow> rows_ok C S (fold (\<lambda>r. put_row (row_of C S r)) rs rows)"
  by (induction rs arbitrary: rows) (simp_all add: rows_ok_write)

section \<open>What is stored under an id\<close>

definition stored :: "codec \<Rightarrow> 'j serde \<Rightarrow> 'j rows \<Rightarrow> uuid \<Rightarrow> rule option" where
  "stored C S rows rid =
     (case map_of rows (uuid_show C rid) of None \<Rightarrow> None | Some (en, d) \<Rightarrow> loaded (load_row S d))"

text \<open>The rules a restart takes back unchanged.\<close>

definition storable :: "rule \<Rightarrow> bool" where
  "storable r \<longleftrightarrow> s_dst_host (r_scope r) = None \<and> (\<forall>n. s_protocol (r_scope r) \<noteq> Some (Other n)) \<and>
     check_scope (r_scope r) = Inr ()"

lemma storable_loads:
  assumes "serde_ok S" "storable r"
  shows "load_row S (json_show S r) = Loaded r"
proof -
  have "\<not> (case s_protocol (r_scope r) of Some (Other _) \<Rightarrow> True | _ \<Rightarrow> False)"
    using assms(2) by (auto simp: storable_def split: option.splits protocol.splits)
  then show ?thesis
    using assms by (simp add: load_row_def serde_ok_def heal_legacy_protocol_def quarantine_reason_def storable_def)
qed

lemma stored_put:
  assumes "codec_ok C" "serde_ok S" "storable r"
  shows "stored C S (put_row (row_of C S r) rows) rid = (if rid = r_id r then Some r else stored C S rows rid)"
  using assms by (simp add: stored_def map_of_put_row uuid_show_inject storable_loads)

lemma stored_writes:
  assumes "codec_ok C" "serde_ok S" "\<And>r. r \<in> set rs \<Longrightarrow> storable r" "distinct_ids rs"
  shows "stored C S (fold (\<lambda>r. put_row (row_of C S r)) rs rows) rid =
    (case find_rule rs rid of Some r \<Rightarrow> Some r | None \<Rightarrow> stored C S rows rid)"
  using assms(3,4)
proof (induction rs arbitrary: rows)
  case (Cons r rs)
  have "distinct_ids rs" using Cons.prems(2) by (simp add: distinct_ids_def)
  moreover have "find_rule rs (r_id r) = None"
    using Cons.prems(2) unfolding distinct_ids_def find_rule_None_iff
    by (metis distinct.simps(2) imageI list.set_map list.simps(9))
  ultimately show ?case
    using Cons.IH [of "put_row (row_of C S r) rows"] Cons.prems(1)
    by (auto simp: stored_put [OF assms(1,2)] find_rule_Cons split: option.split)
qed (simp add: find_rule_def)

lemma stored_delete:
  assumes "codec_ok C"
  shows "stored C S (AList.delete (uuid_show C rid) rows) k = (if k = rid then None else stored C S rows k)"
  using assms by (simp add: stored_def delete_conv' uuid_show_inject)

lemma stored_None_absent: "uuid_show C rid \<notin> fst ` set rows \<Longrightarrow> stored C S rows rid = None"
  by (simp add: stored_def map_of_eq_None_iff [THEN iffD2])

subsection \<open>Purging\<close>

lemma fold_delete:
  "fold AList.delete ks rows = filter (\<lambda>row. fst row \<notin> set ks) rows"
  by (induction ks arbitrary: rows) (auto simp: AList.delete_eq intro!: filter_cong)

lemma purge_rows:
  assumes "keys_distinct rows"
  shows "fold AList.delete (map fst (filter (\<lambda>row. P (snd row)) rows)) rows = filter (\<lambda>row. \<not> P (snd row)) rows"
  unfolding fold_delete
proof (rule filter_cong [OF refl])
  fix row
  assume row: "row \<in> set rows"
  have "P (snd row) = P (snd row')" if "row' \<in> set rows" "fst row' = fst row" for row'
    using assms row that unfolding keys_distinct_def by (metis eq_key_imp_eq_value prod.collapse)
  with row show "(fst row \<notin> set (map fst (filter (\<lambda>row. P (snd row)) rows))) = (\<not> P (snd row))"
    by fastforce
qed

lemma map_of_filter_value:
  "keys_distinct rows \<Longrightarrow>
   map_of (filter (\<lambda>row. P (snd row)) rows) k = (case map_of rows k of None \<Rightarrow> None | Some v \<Rightarrow> if P v then Some v else None)"
proof (induction rows)
  case (Cons row rows)
  have "keys_distinct rows" "fst row \<notin> fst ` set rows" using Cons.prems by (auto simp: keys_distinct_def)
  then show ?case
    using Cons.IH by (cases row) (auto simp: map_of_eq_None_iff split: option.split)
qed simp

lemma purge_where_rows:
  assumes "keys_distinct (st_rows st)"
  shows "st_rows (snd (purge_where True S pred st)) = filter (\<lambda>row. \<not> doomed S pred (snd (snd row))) (st_rows st)"
  using purge_rows [OF assms, of "\<lambda>v. doomed S pred (snd v)"] by (simp add: purge_where_def Let_def)

text \<open>Healing changes the scope of a row when it is read, and nothing a purge looks at.\<close>

definition same_fate :: "(rule \<Rightarrow> bool) \<Rightarrow> bool" where
  "same_fate pred \<longleftrightarrow> (\<forall>r s. pred (r\<lparr>r_scope := s\<rparr>) = pred r)"

lemma load_row_Loaded:
  assumes "load_row S d = Loaded r"
  obtains r0 s where "json_parse S d = Some r0" "r = r0\<lparr>r_scope := s\<rparr>"
proof -
  from assms obtain r0 where r0: "json_parse S d = Some r0" by (cases "json_parse S d") (auto simp: load_row_def)
  with assms have "r = (if s_dst_host (r_scope r0) = None then heal_legacy_protocol r0 else r0)"
    by (auto simp: load_row_def Let_def split: option.splits)
  then have "r = r0\<lparr>r_scope := r_scope r\<rparr>" by (auto simp: heal_legacy_protocol_def)
  with r0 show ?thesis using that by blast
qed

lemma loaded_iff: "loaded l = Some r \<longleftrightarrow> l = Loaded r"
  by (cases l) auto

lemma doomed_loaded: "same_fate pred \<Longrightarrow> load_row S d = Loaded r \<Longrightarrow> doomed S pred d = pred r"
  by (erule load_row_Loaded) (auto simp: doomed_def same_fate_def)

lemma stored_purge:
  assumes "keys_distinct (st_rows st)" "same_fate pred"
  shows "stored C S (st_rows (snd (purge_where True S pred st))) rid =
    (case stored C S (st_rows st) rid of None \<Rightarrow> None | Some r \<Rightarrow> if pred r then None else Some r)"
  unfolding purge_where_rows [OF assms(1)]
  using map_of_filter_value [OF assms(1), of "\<lambda>v. \<not> doomed S pred (snd v)" "uuid_show C rid"]
  by (auto simp: stored_def loaded_iff doomed_loaded [OF assms(2)] split: option.splits)

lemma rows_ok_purge:
  assumes "rows_ok C S (st_rows st)"
  shows "rows_ok C S (st_rows (snd (purge_where True S pred st)))"
  unfolding purge_where_rows [OF rows_okD(1) [OF assms]]
proof (rule rows_ok_subset [OF assms])
  note d = rows_okD(1) [OF assms]
  show "keys_distinct (filter (\<lambda>row. \<not> doomed S pred (snd (snd row))) (st_rows st))"
    using d by (simp add: keys_distinct_def distinct_map_filter)
  show "map_of (st_rows st) k = Some v"
    if "map_of (filter (\<lambda>row. \<not> doomed S pred (snd (snd row))) (st_rows st)) k = Some v" for k v
    using that map_of_filter_value [OF d, of "\<lambda>v. \<not> doomed S pred (snd v)" k]
    by (simp split: option.splits if_splits)
qed

lemma same_fates: "same_fate is_transient" "same_fate (\<lambda>r. is_expired E r now)"
  by (simp_all add: same_fate_def is_transient_def is_expired_def split: duration.split)

subsection \<open>Loading the table\<close>

lemma filed_rules:
  assumes "distinct (map fst rows)" "inj h" "\<forall>row \<in> set rows. \<forall>r. g row = Some r \<longrightarrow> fst row = h (r_id r)"
  shows "distinct_ids (List.map_filter g rows) \<and> find_rule (List.map_filter g rows) rid =
    (case map_of rows (h rid) of None \<Rightarrow> None | Some v \<Rightarrow> g (h rid, v))"
  using assms(1,3)
proof (induction rows)
  case Nil
  then show ?case by (simp add: distinct_ids_def find_rule_def List.map_filter_def)
next
  case (Cons row rows)
  then have IH: "distinct_ids (List.map_filter g rows)"
    "find_rule (List.map_filter g rows) rid = (case map_of rows (h rid) of None \<Rightarrow> None | Some v \<Rightarrow> g (h rid, v))"
    by simp_all
  have row: "fst row \<notin> fst ` set rows" using Cons.prems(1) by simp
  show ?case
  proof (cases "g row")
    case None
    have "map_of rows (h rid) = None" if "fst row = h rid"
      using row that by (simp add: map_of_eq_None_iff)
    with None IH show ?thesis
      by (cases row) (auto simp: map_filter_simps split: option.splits)
  next
    case (Some r)
    then have k: "fst row = h (r_id r)" using Cons.prems(2) by simp
    have "r_id q \<noteq> r_id r" if "q \<in> set (List.map_filter g rows)" for q
    proof -
      from that obtain row' where "row' \<in> set rows" "g row' = Some q" by (auto simp: List.map_filter_def)
      then have "fst row' = h (r_id q)" using Cons.prems(2) by simp
      with \<open>row' \<in> set rows\<close> row k show ?thesis by (metis imageI)
    qed
    then have "r_id r \<notin> r_id ` set (List.map_filter g rows)" by (metis imageE)
    then have "distinct_ids (r # List.map_filter g rows)" using IH(1) by (simp add: distinct_ids_def)
    moreover have "(h rid = h (r_id r)) = (rid = r_id r)" using assms(2) by (simp add: inj_eq)
    ultimately show ?thesis
      using Some IH(2) k by (cases row) (auto simp: map_filter_simps find_rule_Cons)
  qed
qed

lemma map_of_sorted_rows: "keys_distinct rows \<Longrightarrow> map_of (sort_key fst rows) = map_of rows"
proof (rule map_of_inject_set [THEN iffD2])
  assume d: "keys_distinct rows"
  have "mset (map fst (sort_key fst rows)) = mset (map fst rows)" by simp
  then show "distinct (map fst (sort_key fst rows))"
    using d unfolding keys_distinct_def by (metis mset_eq_imp_distinct_iff)
  show "distinct (map fst rows)" using d by (simp add: keys_distinct_def)
qed simp

lemma load_snapshot_find:
  assumes "codec_ok C" "rows_ok C S (st_rows st)"
  shows "distinct_ids (fst (load_snapshot S st))"
    "find_rule (fst (load_snapshot S st)) rid = stored C S (st_rows st) rid"
proof -
  let ?rows = "sort_key fst (st_rows st)"
  let ?g = "\<lambda>row. loaded (load_row S (snd (snd row)))"
  note d = rows_okD(1) [OF assms(2)]
  have list: "fst (load_snapshot S st) = List.map_filter ?g ?rows"
    by (simp add: load_snapshot_def load_rows_def Let_def List.map_filter_def comp_def filter_map)
  have "mset (map fst ?rows) = mset (map fst (st_rows st))" by simp
  then have "distinct (map fst ?rows)"
    using d unfolding keys_distinct_def by (metis mset_eq_imp_distinct_iff)
  moreover have "inj (uuid_show C)" by (rule injI) (simp add: uuid_show_inject [OF assms(1)])
  moreover have "fst row = uuid_show C (r_id r)" if "row \<in> set ?rows" "?g row = Some r" for row r
  proof -
    from that(2) obtain r0 s where "json_parse S (snd (snd row)) = Some r0" "r = r0\<lparr>r_scope := s\<rparr>"
      unfolding loaded_iff by (rule load_row_Loaded)
    moreover have "map_of (st_rows st) (fst row) = Some (snd row)"
      using d that(1) by (simp add: keys_distinct_def)
    ultimately show ?thesis using rows_okD(2) [OF assms(2), of "fst row" "fst (snd row)" "snd (snd row)" r0] by simp
  qed
  ultimately have filed: "distinct_ids (List.map_filter ?g ?rows) \<and> find_rule (List.map_filter ?g ?rows) rid =
      (case map_of ?rows (uuid_show C rid) of None \<Rightarrow> None | Some v \<Rightarrow> ?g (uuid_show C rid, v))"
    by (intro filed_rules) blast+
  then show "distinct_ids (fst (load_snapshot S st))" by (simp add: list)
  show "find_rule (fst (load_snapshot S st)) rid = stored C S (st_rows st) rid"
    using filed unfolding list map_of_sorted_rows [OF d] by (auto simp: stored_def split: option.split)
qed

subsection \<open>Merging hit counts\<close>

definition add_hits :: "u64 \<Rightarrow> rule \<Rightarrow> rule" where
  "add_hits n r = r\<lparr>r_hit_count := sat_add64 (r_hit_count r) n\<rparr>"

lemma add_hits_fields [simp]:
  "r_id (add_hits n r) = r_id r" "r_scope (add_hits n r) = r_scope r" "r_action (add_hits n r) = r_action r"
  "r_duration (add_hits n r) = r_duration r" "r_created_at (add_hits n r) = r_created_at r"
  by (simp_all add: add_hits_def)

lemma load_row_add_hits:
  assumes "serde_ok S" "json_parse S d = Some r"
  shows "loaded (load_row S (json_show S (add_hits n r))) = map_option (add_hits n) (loaded (load_row S d))"
proof -
  have "heal_legacy_protocol (add_hits n r) = add_hits n (heal_legacy_protocol r)"
    by (simp add: heal_legacy_protocol_def add_hits_def)
  moreover have "quarantine_reason (add_hits n q) = quarantine_reason q" for q
    by (simp add: quarantine_reason_def)
  ultimately show ?thesis
    using assms by (cases "s_dst_host (r_scope r) = None")
      (auto simp: load_row_def serde_ok_def Let_def split: option.split)
qed

lemma merge_one_map:
  "map_of (merge_one C S (rid, n) rows) k =
     (if k = uuid_show C rid
      then (case map_of rows k of None \<Rightarrow> None
            | Some (on, d) \<Rightarrow> (case json_parse S d of None \<Rightarrow> Some (on, d)
                              | Some r \<Rightarrow> Some (on, json_show S (add_hits n r))))
      else map_of rows k)"
  by (auto simp: merge_one_def update_conv' add_hits_def split: option.split)

lemma merge_one_keys: "keys_distinct rows \<Longrightarrow> keys_distinct (merge_one C S inc rows)"
  by (auto simp: merge_one_def keys_distinct_def distinct_update split: option.split)

lemma rows_ok_merge_one:
  assumes "serde_ok S" "rows_ok C S rows"
  shows "rows_ok C S (merge_one C S inc rows)"
  unfolding rows_ok_def
proof (intro conjI allI impI)
  show "keys_distinct (merge_one C S inc rows)" by (rule merge_one_keys [OF rows_okD(1) [OF assms(2)]])
  fix k en d r
  assume a: "map_of (merge_one C S inc rows) k = Some (en, d) \<and> json_parse S d = Some r"
  have "\<exists>d0 r0. map_of rows k = Some (en, d0) \<and> json_parse S d0 = Some r0 \<and> r_id r = r_id r0"
  proof (cases "k = uuid_show C (fst inc)")
    case True
    with a assms(1) merge_one_map [of C S "fst inc" "snd inc" rows k] show ?thesis
      by (auto simp: serde_ok_def split: option.splits)
  next
    case False
    with merge_one_map [of C S "fst inc" "snd inc" rows k]
    have "map_of (merge_one C S inc rows) k = map_of rows k" by simp
    with a show ?thesis by (metis (no_types))
  qed
  then show "k = uuid_show C (r_id r)" using rows_okD(2) [OF assms(2)] by metis
qed

lemma stored_merge_one:
  assumes "codec_ok C" "serde_ok S"
  shows "stored C S (merge_one C S (rid, n) rows) k =
    (if k = rid then map_option (add_hits n) (stored C S rows k) else stored C S rows k)"
  using assms load_row_add_hits [OF assms(2)]
  by (auto simp: stored_def merge_one_map uuid_show_inject load_row_def split: option.split)

lemma stored_merges:
  assumes "codec_ok C" "serde_ok S" "distinct (map fst incs)"
  shows "stored C S (fold (merge_one C S) incs rows) k =
    map_option (case map_of incs k of None \<Rightarrow> id | Some n \<Rightarrow> add_hits n) (stored C S rows k)"
  using assms(3)
proof (induction incs arbitrary: rows)
  case Nil
  then show ?case by (simp add: option.map_id [unfolded id_def] id_def)
next
  case (Cons inc incs)
  have "map_of incs (fst inc) = None" using Cons.prems by (simp add: map_of_eq_None_iff)
  moreover have "stored C S (fold (merge_one C S) incs (merge_one C S inc rows)) k =
      map_option (case map_of incs k of None \<Rightarrow> id | Some n \<Rightarrow> add_hits n) (stored C S (merge_one C S inc rows) k)"
    using Cons by simp
  ultimately show ?case
    using stored_merge_one [OF assms(1,2), of "fst inc" "snd inc" rows k]
    by (cases inc) (auto simp: option.map_comp option.map_id [unfolded id_def])
qed

lemma rows_ok_merges: "serde_ok S \<Longrightarrow> rows_ok C S rows \<Longrightarrow> rows_ok C S (fold (merge_one C S) incs rows)"
  by (induction incs arbitrary: rows) (simp_all add: rows_ok_merge_one)

section \<open>The event log\<close>

text \<open>Ids are handed out once and in order.\<close>

definition events_ok :: "'j store \<Rightarrow> bool" where
  "events_ok st \<longleftrightarrow> distinct (map er_id (st_events st)) \<and> (\<forall>e \<in> set (st_events st). er_id e < st_next_event st)"

lemma number_events_ids: "map er_id (number_events n es) = map (\<lambda>i. n + int i) [0..<length es]"
proof (induction n es rule: number_events.induct)
  case (2 n e es)
  have "map (\<lambda>i. n + int i) [0..<Suc (length es)] = n # map (\<lambda>i. n + 1 + int i) [0..<length es]"
    by (simp only: upt_conv_Cons zero_less_Suc map_Suc_upt [symmetric] list.map map_map) (simp add: comp_def)
  with 2 show ?case by simp
qed simp

lemma events_ok_insert:
  assumes "events_ok st"
  shows "events_ok (snd (insert_events ok batch st))"
proof (cases "ok \<and> batch \<noteq> []")
  case True
  let ?new = "number_events (st_next_event st) batch"
  have new: "er_id ` set ?new = (\<lambda>i. st_next_event st + int i) ` {0..<length batch}"
    using arg_cong [OF number_events_ids [of "st_next_event st" batch], of set] by simp
  have "distinct (map er_id ?new)" unfolding number_events_ids by (simp add: distinct_map inj_on_def)
  moreover have "er_id e \<notin> er_id ` set ?new" if "e \<in> set (st_events st)" for e
    using assms that unfolding new events_ok_def by fastforce
  moreover have "er_id e < st_next_event st + int (length batch)" if "e \<in> set ?new" for e
    using imageI [OF that, of er_id] unfolding new by auto
  ultimately show ?thesis
    using assms True by (fastforce simp: insert_events_def events_ok_def)
next
  case False
  then show ?thesis using assms by (cases ok) (auto simp: insert_events_def)
qed

lemma set_newest_first [simp]: "set (newest_first es) = set es"
  by (simp add: newest_first_def)

lemma length_newest_first [simp]: "length (newest_first es) = length es"
  by (simp add: newest_first_def)

lemma filter_newest_first: "filter P (newest_first es) = newest_first (filter P es)"
  by (simp add: newest_first_def rev_filter [symmetric] filter_sort)

lemma distinct_newest_first: "distinct (map er_id es) \<Longrightarrow> distinct (map er_id (newest_first es))"
  unfolding newest_first_def rev_map [symmetric] distinct_rev
  by (metis mset_eq_imp_distinct_iff mset_map mset_sort)

lemma filter_drop_keys:
  "distinct (map f xs) \<Longrightarrow> filter (\<lambda>x. f x \<notin> set (map f (drop n xs))) xs = take n xs"
proof (induction xs arbitrary: n)
  case (Cons x xs)
  show ?case
  proof (cases n)
    case 0
    then show ?thesis by (auto simp: filter_empty_conv)
  next
    case (Suc m)
    have "f x \<notin> set (map f (drop m xs))" using Cons.prems by (auto dest: in_set_dropD)
    with Suc Cons show ?thesis by simp
  qed
qed simp

text \<open>Pruning keeps the newest rows of the event log and only those.  After it, reading the log
  newest first gives the first \<open>max_rows\<close> rows it gave before, in the same order; the count it
  returns is the number of rows that are gone, and the ids stay unique.\<close>

theorem pruning_keeps_the_newest:
  assumes "events_ok st" "prune_events True max_rows st = (Inr n, st')"
  shows "newest_first (st_events st') = take (unat max_rows) (newest_first (st_events st)) \<and>
    n = length (st_events st) - unat max_rows \<and> events_ok st'"
proof -
  let ?L = "newest_first (st_events st)"
  let ?old = "set (map er_id (drop (unat max_rows) ?L))"
  have d: "distinct (map er_id ?L)"
    using assms(1) by (intro distinct_newest_first) (simp add: events_ok_def)
  have st': "st' = st\<lparr>st_events := filter (\<lambda>e. er_id e \<notin> ?old) (st_events st)\<rparr>"
    and n: "n = length (filter (\<lambda>e. er_id e \<in> ?old) (st_events st))"
    using assms(2) by (auto simp: prune_events_def Let_def)
  have kept: "newest_first (st_events st') = take (unat max_rows) ?L"
    using filter_drop_keys [OF d, of "unat max_rows"] by (simp add: st' filter_newest_first)
  have "length (st_events st') = min (length (st_events st)) (unat max_rows)"
    using arg_cong [OF kept, of length] by simp
  moreover have "length (st_events st') + n = length (st_events st)"
    using sum_length_filter_compl [of "\<lambda>e. er_id e \<in> ?old" "st_events st"] by (simp add: st' n)
  ultimately have "n = length (st_events st) - unat max_rows" by (simp add: min_def split: if_splits)
  moreover have "events_ok st'" using assms(1) by (auto simp: events_ok_def st' distinct_map_filter)
  ultimately show ?thesis using kept by simp
qed

definition example_event :: "int \<Rightarrow> int \<Rightarrow> event_row" where
  "example_event n ts =
     \<lparr>er_id = n, er_ts_unix_ms = ts, er_proto = Some ''tcp'', er_src_ip = None, er_src_port = Some 40000,
      er_dst_ip = None, er_dst_port = Some 443, er_dst_host = None, er_exe = Some ''/usr/bin/curl'', er_pid = Some 7,
      er_uid = Some 1000, er_action = ''Deny'', er_source = ''rule'', er_rule_id = None\<rparr>"

theorem pruning_keeps_the_newest_witness:
  "let st = (empty_store :: nat store)\<lparr>st_events := [example_event 1 50, example_event 2 10, example_event 3 50],
       st_next_event := 4\<rparr> in
   events_ok st \<and> newest_first (st_events (snd (prune_events True 2 st))) = [example_event 3 50, example_event 1 50]"
proof -
  let ?st = "(empty_store :: nat store)\<lparr>st_events := [example_event 1 50, example_event 2 10, example_event 3 50],
       st_next_event := 4\<rparr>"
  have ok: "events_ok ?st" by (simp add: events_ok_def example_event_def)
  have p: "prune_events True 2 ?st = (Inr (fst (projr (fst (prune_events True 2 ?st)), ())), snd (prune_events True 2 ?st))"
    by (simp add: prune_events_def)
  have "take (unat (2::u32)) (newest_first (st_events ?st)) = [example_event 3 50, example_event 1 50]"
    by (simp add: newest_first_def event_key_def example_event_def)
  with pruning_keeps_the_newest [OF ok p] ok show ?thesis by simp
qed

section \<open>Starting from the table\<close>

lemma load_row_gated:
  assumes "load_row S d = Loaded r"
  shows "s_dst_host (r_scope r) \<noteq> None \<or> check_scope (r_scope r) = Inr ()"
proof -
  from assms have "quarantine_reason r = None"
    by (auto simp: load_row_def Let_def split: option.splits)
  then show ?thesis by (auto simp: quarantine_reason_def split: if_splits sum.splits)
qed

lemma stored_gated:
  "stored C S rows rid = Some r \<Longrightarrow> s_dst_host (r_scope r) \<noteq> None \<or> check_scope (r_scope r) = Inr ()"
  using load_row_gated by (fastforce simp: stored_def loaded_iff split: option.splits)

lemma stored_id:
  assumes "codec_ok C" "rows_ok C S rows" "stored C S rows rid = Some r"
  shows "r_id r = rid"
proof -
  from assms(3) obtain on d where d: "map_of rows (uuid_show C rid) = Some (on, d)" "load_row S d = Loaded r"
    by (auto simp: stored_def loaded_iff split: option.splits)
  from d(2) obtain r0 s where "json_parse S d = Some r0" "r = r0\<lparr>r_scope := s\<rparr>" by (rule load_row_Loaded)
  with rows_okD(2) [OF assms(2) d(1)] show ?thesis by (simp add: uuid_show_inject [OF assms(1)])
qed

lemma migrate_keeps_rows: "st_rows (snd (migrate oks st)) = st_rows st"
proof (induction oks st rule: migrate.induct)
  case (1 oks st)
  then show ?case by (subst migrate.simps) simp
qed

lemma migrate_ends:
  "fst (migrate (\<lambda>_. True) st) =
     (if st_version st = 0 \<or> st_version st = 1 then Inr () else Inl (NewerSchema (st_version st)))"
  by (subst migrate.simps) (simp add: SCHEMA_VERSION_def, simp add: migrate.simps SCHEMA_VERSION_def)

lemma purge_where_ok: "fst (purge_where ok S pred st) = Inr n \<Longrightarrow> ok"
  by (cases ok) (simp_all add: purge_where_def)

text \<open>What a rule's duration promises of a restart at \<open>now\<close>, written duration by duration: an Always
  rule is there again, a Once rule and an until-restart rule are not, and a timed rule is there until its
  seconds have passed.  It is a specification, and does not mention the code's own predicates.\<close>

definition lasting :: "ext \<Rightarrow> int \<Rightarrow> rule \<Rightarrow> bool" where
  "lasting E now r \<longleftrightarrow> (case r_duration r of
     Always \<Rightarrow> True
   | Once \<Rightarrow> False
   | UntilRestart \<Rightarrow> False
   | Seconds n \<Rightarrow> now < dt_millis E (r_created_at r) + uint n * 1000)"

lemma lasting_iff: "lasting E now r \<longleftrightarrow> \<not> is_transient r \<and> \<not> is_expired E r now"
  by (auto simp: lasting_def is_transient_def is_expired_def split: duration.splits)

lemma open_store_rows:
  assumes "rows_ok C S (st_rows st)" "open_store oks a b E S now st = (Inr (), st')"
  shows "rows_ok C S (st_rows st')"
    "stored C S (st_rows st') rid = (case stored C S (st_rows st) rid of None \<Rightarrow> None
       | Some r \<Rightarrow> if lasting E now r then Some r else None)"
proof -
  obtain st1 where m: "migrate oks st = (Inr (), st1)"
    using assms(2) by (cases "migrate oks st"; cases "fst (migrate oks st)") auto
  let ?s1 = "st1\<lparr>st_skipped := 0\<rparr>"
  have r1: "st_rows ?s1 = st_rows st" using migrate_keeps_rows [of oks st] m by simp
  obtain n2 st2 where t: "purge_transient a S ?s1 = (Inr n2, st2)"
    using assms(2) m by (cases "purge_transient a S ?s1"; cases "fst (purge_transient a S ?s1)") auto
  obtain n3 where e: "purge_expired b E S now st2 = (Inr n3, st')"
    using assms(2) m t by (cases "purge_expired b E S now st2"; cases "fst (purge_expired b E S now st2)") auto
  have "a" using t purge_where_ok [of a S is_transient ?s1] by (simp add: purge_transient_def)
  moreover have "b" using e purge_where_ok [of b S "\<lambda>r. is_expired E r now" st2] by (simp add: purge_expired_def)
  ultimately have st2: "st2 = snd (purge_where True S is_transient ?s1)"
    and st': "st' = snd (purge_where True S (\<lambda>r. is_expired E r now) st2)"
    using t e by (simp_all add: purge_transient_def purge_expired_def)
  have ok1: "rows_ok C S (st_rows ?s1)" using assms(1) r1 by simp
  have ok2: "rows_ok C S (st_rows st2)" unfolding st2 by (rule rows_ok_purge [OF ok1])
  show "rows_ok C S (st_rows st')" unfolding st' by (rule rows_ok_purge [OF ok2])
  have "stored C S (st_rows st2) rid = (case stored C S (st_rows st) rid of None \<Rightarrow> None
      | Some r \<Rightarrow> if is_transient r then None else Some r)"
    using stored_purge [OF rows_okD(1) [OF ok1] same_fates(1)] unfolding st2 r1 .
  then show "stored C S (st_rows st') rid = (case stored C S (st_rows st) rid of None \<Rightarrow> None
       | Some r \<Rightarrow> if lasting E now r then Some r else None)"
    using stored_purge [OF rows_okD(1) [OF ok2] same_fates(2) [of E now], where C = C and rid = rid]
    unfolding st' by (simp add: lasting_iff split: option.splits)
qed

section \<open>Rows the daemon could not load\<close>

text \<open>The operations of a running daemon on the rule table, an import with replacement apart, and the
  migration and the two purges of the next start.\<close>

datatype table_edit =
    EditUpsert rule
  | EditImport "rule list"
  | EditDelete uuid
  | EditExpire int
  | EditMerge "(uuid \<times> u64) list"
  | EditRestart int

fun run_edit :: "ext \<Rightarrow> codec \<Rightarrow> 'j serde \<Rightarrow> table_edit \<Rightarrow> 'j store \<Rightarrow> 'j store" where
  "run_edit E C S (EditUpsert r) st = snd (upsert_db True C S r st)"
| "run_edit E C S (EditImport rs) st = snd (apply_rules_db True C S rs False st)"
| "run_edit E C S (EditDelete rid) st = snd (delete_db True C rid st)"
| "run_edit E C S (EditExpire now) st = snd (purge_expired True E S now st)"
| "run_edit E C S (EditMerge incs) st = snd (merge_hit_counts True C S incs st)"
| "run_edit E C S (EditRestart now) st = snd (open_store (\<lambda>_. True) True True E S now st)"

fun edited_ids :: "table_edit \<Rightarrow> uuid set" where
  "edited_ids (EditUpsert r) = {r_id r}"
| "edited_ids (EditImport rs) = r_id ` set rs"
| "edited_ids (EditDelete rid) = {rid}"
| "edited_ids _ = {}"

lemma map_of_writes:
  "k \<notin> (\<lambda>r. uuid_show C (r_id r)) ` set rs \<Longrightarrow>
   map_of (fold (\<lambda>r. put_row (row_of C S r)) rs rows) k = map_of rows k"
  by (induction rs arbitrary: rows) (auto simp: map_of_put_row)

lemma keys_writes: "keys_distinct rows \<Longrightarrow> keys_distinct (fold (\<lambda>r. put_row (row_of C S r)) rs rows)"
  by (induction rs arbitrary: rows) (simp_all add: keys_put_row)

lemma map_of_merges_undecodable:
  assumes "map_of rows k = Some (on, d)" "json_parse S d = None"
  shows "map_of (fold (merge_one C S) incs rows) k = Some (on, d)"
  using assms
proof (induction incs arbitrary: rows)
  case (Cons inc incs)
  have "map_of (merge_one C S inc rows) k = Some (on, d)"
    using Cons.prems merge_one_map [of C S "fst inc" "snd inc" rows k] by (auto split: if_splits)
  with Cons show ?case by simp
qed simp

lemma keys_merges: "keys_distinct rows \<Longrightarrow> keys_distinct (fold (merge_one C S) incs rows)"
  by (induction incs arbitrary: rows) (simp_all add: merge_one_keys)

lemma purge_keeps_undecodable:
  assumes "keys_distinct (st_rows st)" "map_of (st_rows st) k = Some (on, d)" "json_parse S d = None"
  shows "keys_distinct (st_rows (snd (purge_where True S pred st))) \<and>
    map_of (st_rows (snd (purge_where True S pred st))) k = Some (on, d)"
  using assms map_of_filter_value [OF assms(1), of "\<lambda>v. \<not> doomed S pred (snd v)" k]
  unfolding purge_where_rows [OF assms(1)]
  by (simp add: keys_distinct_def distinct_map_filter doomed_def)

lemma open_keeps_undecodable:
  assumes "keys_distinct (st_rows st)" "map_of (st_rows st) k = Some (on, d)" "json_parse S d = None"
  shows "keys_distinct (st_rows (snd (open_store (\<lambda>_. True) True True E S now st))) \<and>
    map_of (st_rows (snd (open_store (\<lambda>_. True) True True E S now st))) k = Some (on, d)"
proof -
  obtain m st1 where m: "migrate (\<lambda>_. True) st = (m, st1)" by fastforce
  then have r: "st_rows st1 = st_rows st" using migrate_keeps_rows [of "\<lambda>_. True" st] by simp
  let ?st2 = "snd (purge_transient True S (st1\<lparr>st_skipped := 0\<rparr>))"
  have k2: "keys_distinct (st_rows ?st2) \<and> map_of (st_rows ?st2) k = Some (on, d)"
    unfolding purge_transient_def using assms r by (intro purge_keeps_undecodable) simp_all
  then have "keys_distinct (st_rows (snd (purge_expired True E S now ?st2))) \<and>
      map_of (st_rows (snd (purge_expired True E S now ?st2))) k = Some (on, d)"
    unfolding purge_expired_def using assms(3) by (intro purge_keeps_undecodable) simp_all
  with k2 show ?thesis
    using assms r by (auto simp: m split: sum.split prod.split)
qed

lemma edit_keeps_undecodable:
  assumes "keys_distinct (st_rows st)" "map_of (st_rows st) k = Some (on, d)" "json_parse S d = None"
    "k \<notin> uuid_show C ` edited_ids e"
  shows "keys_distinct (st_rows (run_edit E C S e st)) \<and> map_of (st_rows (run_edit E C S e st)) k = Some (on, d)"
proof (cases e)
  case (EditUpsert r)
  then show ?thesis using assms
    by (auto simp: upsert_db_def reject_hostname_policy_def keys_put_row map_of_put_row)
next
  case (EditImport rs)
  then show ?thesis using assms
    by (auto simp: apply_rules_db_def apply_tx_def Let_def keys_writes map_of_writes image_image split: option.split)
next
  case (EditDelete rid)
  then show ?thesis using assms by (auto simp: delete_db_def keys_delete_row delete_conv')
next
  case (EditExpire now)
  then show ?thesis using purge_keeps_undecodable [OF assms(1-3)] by (simp add: purge_expired_def)
next
  case (EditRestart now)
  then show ?thesis using open_keeps_undecodable [OF assms(1-3)] by (simp del: open_store.simps)
next
  case (EditMerge incs)
  then show ?thesis using assms
    by (simp add: merge_hit_counts_def keys_merges map_of_merges_undecodable)
qed

lemma edits_keep_undecodable:
  assumes "keys_distinct (st_rows st)" "map_of (st_rows st) k = Some (on, d)" "json_parse S d = None"
    "\<forall>e \<in> set es. k \<notin> uuid_show C ` edited_ids e"
  shows "map_of (st_rows (fold (run_edit E C S) es st)) k = Some (on, d)"
  using assms
proof (induction es arbitrary: st)
  case (Cons e es)
  then show ?case using edit_keeps_undecodable [OF Cons.prems(1-3), of C e E] by simp
qed simp


text \<open>An import that replaces the set deletes the table, unreadable rows with it.\<close>

theorem replacing_forgets_undecodable_rows:
  assumes "first_refusal rs = None" "k \<notin> (\<lambda>r. uuid_show C (r_id r)) ` set rs"
  shows "map_of (st_rows (snd (apply_rules_db True C S rs True st))) k = None"
  using assms by (simp add: apply_rules_db_def apply_tx_def Let_def map_of_writes)

text \<open>A serde on values that are rules or unreadable.\<close>

definition example_serde :: "rule option serde" where
  "example_serde = \<lparr>json_show = Some, json_parse = (\<lambda>j. j)\<rparr>"

lemma example_serde_ok: "serde_ok example_serde"
  by (simp add: serde_ok_def example_serde_def)


end
