(* ===== verification/Authority.thy ===== *)
theory Authority
  imports Prompts
begin

text \<open>
  The access control of \<open>crates/cfc-daemon/src/ipc/mod.rs\<close>: who may read and who may change the
  firewall.  \<open>Control\<close> holds the checks it calls as function pointers (\<open>official::check\<close>,
  \<open>polkit::check\<close>); they are arguments here, with what procfs answered, in the record
  \<open>auth_env\<close> of one call.
\<close>

section \<open>The peer and its group\<close>

record peer =
  peer_uid :: u32
  peer_gid :: u32
  peer_pid :: "int option"
  peer_starttime :: "u64 option"
  peer_sock_ino :: "u64 option"

definition status_proves_group :: "string \<Rightarrow> u32 \<Rightarrow> u32 \<Rightarrow> bool" where
  "status_proves_group status uid gid \<longleftrightarrow>
     (case field_line ''Uid:'' (str_lines status) of
        None \<Rightarrow> False
      | Some values \<Rightarrow> (case split_whitespace values of
                         _ # eff # _ \<Rightarrow> parse_u32 eff = Some uid
                       | _ \<Rightarrow> False)) \<and>
     (case field_line ''Groups:'' (str_lines status) of
        None \<Rightarrow> False
      | Some groups \<Rightarrow> list_ex (\<lambda>v. parse_u32 v = Some gid) (split_whitespace groups))"

text \<open>What one authorization observes: the two start-time reads around the status file, that
  file, and the answers of the identity check and of polkit.\<close>

record auth_env =
  ae_start_before :: "u32 \<Rightarrow> u64 option"
  ae_status :: "u32 \<Rightarrow> string option"
  ae_start_after :: "u32 \<Rightarrow> u64 option"
  ae_official :: "peer \<Rightarrow> string list \<Rightarrow> string + string"
  ae_polkit :: "peer \<Rightarrow> string \<Rightarrow> string + unit"

definition peer_is_group_member :: "auth_env \<Rightarrow> peer \<Rightarrow> u32 option \<Rightarrow> bool" where
  "peer_is_group_member A peer gid =
     (case gid of
        None \<Rightarrow> False
      | Some gid \<Rightarrow>
          if peer_gid peer = gid then True
          else (case peer_pid peer of
                  None \<Rightarrow> False
                | Some pid \<Rightarrow>
                    if pid \<le> 0 then False
                    else let pid = word_of_int pid in
                      if peer_starttime peer = None \<or> ae_start_before A pid \<noteq> peer_starttime peer then False
                      else (case ae_status A pid of
                              None \<Rightarrow> False
                            | Some status \<Rightarrow>
                                status_proves_group status (peer_uid peer) gid \<and>
                                ae_start_after A pid = peer_starttime peer)))"

section \<open>Standing and authorization\<close>

datatype gate_answer = Privileged | NeedOfficial | DenyGroup

definition gate :: "u32 \<Rightarrow> u32 \<Rightarrow> bool \<Rightarrow> gate_answer" where
  "gate uid own_uid group_ok =
     (if uid = 0 \<or> uid = own_uid then Privileged else if group_ok then NeedOfficial else DenyGroup)"

definition PAUSE :: string where "PAUSE = ''org.projectcolony.firewall.pause''"
definition IMPORT_RULES :: string where "IMPORT_RULES = ''org.projectcolony.firewall.import-rules''"
definition GENERIC_ALLOW :: string where "GENERIC_ALLOW = ''org.projectcolony.firewall.allow-every-program''"

datatype access = ReadOnly | Change | Elevated string

datatype denial = NotInGroup string | NotOfficial string | NotAuthorized string string | NotDelivered

record control =
  co_group :: string
  co_group_gid :: "u32 option"
  co_require_group :: bool
  co_own_uid :: u32
  co_official_clients :: "string list"

definition standing :: "auth_env \<Rightarrow> control \<Rightarrow> peer \<Rightarrow> denial + string option" where
  "standing A K peer =
     (let group_ok = (\<not> co_require_group K \<or> peer_is_group_member A peer (co_group_gid K)) in
      case gate (peer_uid peer) (co_own_uid K) group_ok of
        Privileged \<Rightarrow> Inr None
      | DenyGroup \<Rightarrow> Inl (NotInGroup (co_group K))
      | NeedOfficial \<Rightarrow>
          (case ae_official A peer (co_official_clients K) of
             Inl reason \<Rightarrow> Inl (NotOfficial reason)
           | Inr exe \<Rightarrow> Inr (Some exe)))"

definition authorize :: "auth_env \<Rightarrow> control \<Rightarrow> peer \<Rightarrow> access \<Rightarrow> denial + peer" where
  "authorize A K peer level =
     (if level = ReadOnly then Inr peer
      else bind_result (standing A K peer) (\<lambda>who.
        (case who of
           None \<Rightarrow> Inr peer
         | Some exe \<Rightarrow>
             (case level of
                Elevated action \<Rightarrow>
                  (case ae_polkit A peer action of
                     Inl reason \<Rightarrow> Inl (NotAuthorized reason action)
                   | Inr _ \<Rightarrow> Inr peer)
              | _ \<Rightarrow> Inr peer))))"

section \<open>The socket\<close>

text \<open>What \<open>secure_socket\<close> meets: the group database and the two calls on the bound socket; it
  returns the mode it asks for beside what it records.\<close>

record socket_env =
  so_group_gid :: "string \<Rightarrow> string + u32 option"
  so_chown_ok :: bool
  so_chmod_ok :: bool

record socket_auth =
  sa_group :: string
  sa_group_gid :: "u32 option"
  sa_group_gated :: bool
  sa_require_group :: bool

definition secure_socket :: "socket_env \<Rightarrow> string \<Rightarrow> bool \<Rightarrow> u32 \<times> socket_auth" where
  "secure_socket Q grp require_group =
     (let gid = (case so_group_gid Q grp of Inr g \<Rightarrow> g | Inl e \<Rightarrow> None);
          gated = (gid \<noteq> None \<and> so_chown_ok Q);
          mode = (if gated then 0x1B0 else 0x180) in
      (mode, \<lparr>sa_group = grp, sa_group_gid = gid, sa_group_gated = gated \<and> so_chmod_ok Q,
              sa_require_group = require_group\<rparr>))"

definition control_of :: "socket_auth \<Rightarrow> u32 \<Rightarrow> string list \<Rightarrow> control" where
  "control_of S own_uid official_clients =
     \<lparr>co_group = sa_group S, co_group_gid = sa_group_gid S, co_require_group = sa_require_group S,
      co_own_uid = own_uid, co_official_clients = official_clients\<rparr>"

text \<open>An Allow that names no program opens the firewall for every program.\<close>

definition opens_for_every_program :: "rule \<Rightarrow> bool" where
  "opens_for_every_program r \<longleftrightarrow> r_enabled r \<and> r_action r = Allow \<and> \<not> names_program (r_scope r)"

definition confirm_generic_allow :: "auth_env \<Rightarrow> control \<Rightarrow> peer \<Rightarrow> rule \<Rightarrow> denial + unit" where
  "confirm_generic_allow A K peer r =
     (if \<not> opens_for_every_program r \<or> gate (peer_uid peer) (co_own_uid K) True = Privileged then Inr ()
      else map_err (\<lambda>reason. NotAuthorized reason GENERIC_ALLOW) (ae_polkit A peer GENERIC_ALLOW))"

section \<open>Who passes\<close>

definition privileged :: "control \<Rightarrow> peer \<Rightarrow> bool" where
  "privileged K peer \<longleftrightarrow> peer_uid peer = 0 \<or> peer_uid peer = co_own_uid K"

text \<open>An official client: a proved group member (unless the configuration waives it) whose image
  passes the identity check.\<close>

definition official_client :: "auth_env \<Rightarrow> control \<Rightarrow> peer \<Rightarrow> bool" where
  "official_client A K peer \<longleftrightarrow>
     (co_require_group K \<longrightarrow> peer_is_group_member A peer (co_group_gid K)) \<and>
     (\<exists>exe. ae_official A peer (co_official_clients K) = Inr exe)"

lemma standing_Inr:
  "(\<exists>who. standing A K peer = Inr who) \<longleftrightarrow> privileged K peer \<or> official_client A K peer"
  by (auto simp: standing_def gate_def privileged_def official_client_def Let_def split: sum.split if_splits)

lemma standing_None: "standing A K peer = Inr None \<longleftrightarrow> privileged K peer"
  by (auto simp: standing_def gate_def privileged_def Let_def split: sum.split)

lemma authorize_iff:
  "authorize A K peer level = Inr q \<longleftrightarrow>
     q = peer \<and> (level = ReadOnly \<or> privileged K peer \<or>
       official_client A K peer \<and> (\<forall>action. level = Elevated action \<longrightarrow> ae_polkit A peer action = Inr ()))"
proof (cases "standing A K peer")
  case (Inl d)
  then have "\<not> privileged K peer" "\<not> official_client A K peer" using standing_Inr [of A K peer] by auto
  with Inl show ?thesis by (auto simp: authorize_def)
next
  case (Inr who)
  show ?thesis
  proof (cases who)
    case None
    with Inr have "privileged K peer" using standing_None by blast
    with Inr None show ?thesis by (auto simp: authorize_def)
  next
    case (Some exe)
    with Inr have "\<not> privileged K peer" "official_client A K peer"
      using standing_None [of A K peer] standing_Inr [of A K peer] by auto
    with Inr Some show ?thesis by (auto simp: authorize_def split: access.split sum.split)
  qed
qed

text \<open>Without the group nobody but root passes, however the socket call fared.\<close>

lemma no_group_root_only:
  assumes "so_group_gid Q grp = Inr None \<or> (\<exists>e. so_group_gid Q grp = Inl e)"
    and "\<not> privileged (control_of (snd (secure_socket Q grp True)) own clients) peer"
  shows "fst (secure_socket Q grp True) = 0x180 \<and>
    authorize A (control_of (snd (secure_socket Q grp True)) own clients) peer Change = Inl (NotInGroup grp)"
  using assms by (auto simp: secure_socket_def control_of_def Let_def authorize_def standing_def gate_def
      privileged_def peer_is_group_member_def)

lemma confirm_iff:
  "confirm_generic_allow A K peer r = Inr u \<longleftrightarrow>
     \<not> opens_for_every_program r \<or> privileged K peer \<or> ae_polkit A peer GENERIC_ALLOW = Inr ()"
  by (auto simp: confirm_generic_allow_def gate_def privileged_def)

lemma member_needs_proof:
  "peer_is_group_member A peer gid \<Longrightarrow>
     \<exists>g. gid = Some g \<and> (peer_gid peer = g \<or>
       (\<exists>pid status. peer_pid peer = Some pid \<and> 0 < pid \<and> peer_starttime peer \<noteq> None \<and>
          ae_start_before A (word_of_int pid) = peer_starttime peer \<and>
          ae_start_after A (word_of_int pid) = peer_starttime peer \<and>
          ae_status A (word_of_int pid) = Some status \<and> status_proves_group status (peer_uid peer) g))"
  by (auto simp: peer_is_group_member_def Let_def split: option.splits if_splits)

end
