(* ===== verification/Control.thy ===== *)
theory Control
  imports Authority ExePath Storage Stats
begin

text \<open>
  The rule writes of \<open>crates/cfc-daemon/src/ipc/mod.rs\<close> and the hit flush of
  \<open>maintenance.rs\<close>, over the engine and its table together.  An RPC awaits (polkit, the file
  system) before it takes the mutation lock, so a write is two steps: \<open>prepare\<close>, against the
  engine as it is then, and \<open>commit\<close>, against the engine as it is later.
\<close>

section \<open>Errors and requests\<close>

datatype invalid =
    RuleRequired
  | BadConversion conv_error
  | BadExe path_error
  | TimedBecomesAlways
  | EmptyReplacement
  | DuplicateId
  | BadUuid string

datatype status = PermissionDenied denial | InvalidArgument invalid | StatusInternal storage_error

text \<open>What a call observes of its surroundings: its authorization, the file system, the fresh id
  and the clock.\<close>

record call_env =
  ce_auth :: auth_env
  ce_fs :: fs
  ce_stamp :: "uuid \<times> datetime"

record 'j crates =
  cr_ext :: ext
  cr_codec :: codec
  cr_serde :: "'j serde"

section \<open>Preparing a rule\<close>

definition resolve_exe :: "fs \<Rightarrow> rule_scope \<Rightarrow> invalid + rule_scope" where
  "resolve_exe F s =
     (case s_exe_path s of
        None \<Rightarrow> Inr s
      | Some current \<Rightarrow>
          bind_result (map_err BadExe (resolve_exe_policy F current)) (\<lambda>outcome.
            Inr (s\<lparr>s_exe_path := Some (into_path outcome)\<rparr>)))"

text \<open>\<open>Option<PathBuf>\<close> equality compares paths component by component.\<close>

definition same_path :: "string option \<Rightarrow> string option \<Rightarrow> bool" where
  "same_path a b \<longleftrightarrow>
     (case (a, b) of (None, None) \<Rightarrow> True | (Some p, Some q) \<Rightarrow> path_eq p q | _ \<Rightarrow> False)"

definition keeps_stored_exe :: "rule list \<Rightarrow> rule \<Rightarrow> bool" where
  "keeps_stored_exe rules r \<longleftrightarrow>
     s_exe_path (r_scope r) \<noteq> None \<and>
     list_ex (\<lambda>old. r_id old = r_id r \<and> same_path (s_exe_path (r_scope old)) (s_exe_path (r_scope r))) rules"

definition settle_exe :: "fs \<Rightarrow> rule list \<Rightarrow> rule \<Rightarrow> invalid + rule" where
  "settle_exe F rules r =
     (if keeps_stored_exe rules r then Inr r
      else bind_result (resolve_exe F (r_scope r)) (\<lambda>s. Inr (r\<lparr>r_scope := s\<rparr>)))"

definition persistable_rule :: "codec \<Rightarrow> uuid \<times> datetime \<Rightarrow> pb_rule \<Rightarrow> conv_error + rule" where
  "persistable_rule C stamp m =
     bind_result (rule_from_pb C stamp m) (\<lambda>r.
     bind_result (reject_unpersistable_duration (r_duration r)) (\<lambda>_. Inr r))"

definition upsert_prepare :: "'j crates \<Rightarrow> call_env \<Rightarrow> control \<Rightarrow> peer \<Rightarrow> pb_rule option \<Rightarrow> engine \<Rightarrow> status + rule" where
  "upsert_prepare X V K peer proto eng =
     (case proto of
        None \<Rightarrow> Inl (InvalidArgument RuleRequired)
      | Some m \<Rightarrow>
          bind_result (map_err (InvalidArgument \<circ> BadConversion) (persistable_rule (cr_codec X) (ce_stamp V) m)) (\<lambda>r.
          bind_result (map_err PermissionDenied (confirm_generic_allow (ce_auth V) K peer r)) (\<lambda>_.
          map_err InvalidArgument (settle_exe (ce_fs V) (snapshot eng) r))))"

fun apply_prepare :: "codec \<Rightarrow> fs \<Rightarrow> rule list \<Rightarrow> uuid list \<Rightarrow> ((uuid \<times> datetime) \<times> pb_rule) list \<Rightarrow> invalid + rule list" where
  "apply_prepare C F rules ids [] = Inr []"
| "apply_prepare C F rules ids ((stamp, m) # ms) =
     bind_result (map_err BadConversion (persistable_rule C stamp m)) (\<lambda>r.
       if r_id r \<in> set ids then Inl DuplicateId
       else bind_result (settle_exe F rules r) (\<lambda>r.
            bind_result (apply_prepare C F rules (r_id r # ids) ms) (\<lambda>rs. Inr (r # rs))))"

definition import_prepare :: "'j crates \<Rightarrow> call_env \<Rightarrow> ((uuid \<times> datetime) \<times> pb_rule) list \<Rightarrow> bool \<Rightarrow> engine \<Rightarrow> status + rule list" where
  "import_prepare X V ms repl eng =
     (if repl \<and> ms = [] then Inl (InvalidArgument EmptyReplacement)
      else map_err InvalidArgument (apply_prepare (cr_codec X) (ce_fs V) (snapshot eng) [] ms))"

section \<open>Committing under the mutation lock\<close>

text \<open>The engine and the table it mirrors.\<close>

record 'j ruled =
  ru_engine :: engine
  ru_store :: "'j store"

definition becomes_always :: "rule list \<Rightarrow> rule \<Rightarrow> bool" where
  "becomes_always existing r \<longleftrightarrow>
     r_duration r = Always \<and>
     list_ex (\<lambda>old. r_id old = r_id r \<and> (case r_duration old of Seconds _ \<Rightarrow> True | _ \<Rightarrow> False)) existing"

definition store_then :: "'j ruled \<Rightarrow> (storage_error + 'a) \<times> 'j store \<Rightarrow> ('a \<Rightarrow> engine) \<Rightarrow> (status + 'a) \<times> 'j ruled" where
  "store_then d stored_result next =
     (case stored_result of
        (Inl e, st) \<Rightarrow> (Inl (StatusInternal e), d\<lparr>ru_store := st\<rparr>)
      | (Inr x, st) \<Rightarrow> (Inr x, d\<lparr>ru_store := st, ru_engine := next x\<rparr>))"

definition upsert_commit :: "bool \<Rightarrow> 'j crates \<Rightarrow> rule \<Rightarrow> 'j ruled \<Rightarrow> (status + unit) \<times> 'j ruled" where
  "upsert_commit ok X r d =
     (if becomes_always (snapshot (ru_engine d)) r then (Inl (InvalidArgument TimedBecomesAlways), d)
      else let r = preserve_server_owned (ru_engine d) r in
        store_then d (upsert_db ok (cr_codec X) (cr_serde X) r (ru_store d)) (\<lambda>_. upsert_rule r (ru_engine d)))"

definition import_commit :: "bool \<Rightarrow> 'j crates \<Rightarrow> rule list \<Rightarrow> bool \<Rightarrow> 'j ruled \<Rightarrow> (status + nat) \<times> 'j ruled" where
  "import_commit ok X rules repl d =
     (if list_ex (becomes_always (snapshot (ru_engine d))) rules then (Inl (InvalidArgument TimedBecomesAlways), d)
      else
        store_then d
          (apply_rules_db ok (cr_codec X) (cr_serde X) (map (preserve_server_owned (ru_engine d)) rules) repl (ru_store d))
          (\<lambda>_. apply_batch rules repl (ru_engine d)))"

definition delete_commit :: "bool \<Rightarrow> 'j crates \<Rightarrow> uuid \<Rightarrow> 'j ruled \<Rightarrow> (status + bool) \<times> 'j ruled" where
  "delete_commit ok X rid d =
     store_then d (delete_db ok (cr_codec X) rid (ru_store d))
       (\<lambda>deleted. if deleted then remove_rule rid (ru_engine d) else ru_engine d)"

text \<open>The standing rule a prompt answer asks for: nothing of it is server-owned yet.\<close>

definition persist_commit :: "bool \<Rightarrow> 'j crates \<Rightarrow> rule \<Rightarrow> 'j ruled \<Rightarrow> (status + unit) \<times> 'j ruled" where
  "persist_commit ok X r d =
     store_then d (upsert_db ok (cr_codec X) (cr_serde X) r (ru_store d)) (\<lambda>_. upsert_rule r (ru_engine d))"

text \<open>One tick of \<open>spawn_hit_flush\<close>: \<open>now\<close> is the clock it reads, \<open>now'\<close> the one
  \<open>notify_rules_expired\<close> reads; \<open>increments\<close> lists the drained counters in some order.\<close>

definition flush_tick :: "bool \<Rightarrow> bool \<Rightarrow> 'j crates \<Rightarrow> int \<Rightarrow> int \<Rightarrow> (uuid \<times> u64) list \<Rightarrow> 'j ruled \<Rightarrow> 'j ruled" where
  "flush_tick ok_merge ok_purge X now now' increments d =
     (let eng = snd (drain_hits (ru_engine d));
          st = snd (merge_hit_counts ok_merge (cr_codec X) (cr_serde X) increments (ru_store d)) in
      if list_ex (\<lambda>r. is_expired (cr_ext X) r now) (snapshot eng) then
        d\<lparr>ru_engine := notify_rules_expired (cr_ext X) now' eng,
          ru_store := snd (purge_expired ok_purge (cr_ext X) (cr_serde X) now st)\<rparr>
      else d\<lparr>ru_engine := eng, ru_store := st\<rparr>)"

section \<open>Answering a prompt\<close>

datatype bind_error = PathChanged | HashMissing | HashDiffers

definition bind_prompt_allow :: "rule \<Rightarrow> prompt_binding \<Rightarrow> bind_error + rule" where
  "bind_prompt_allow r binding =
     (if r_action r \<noteq> Allow \<or> \<not> b_hash_expected binding then Inr r
      else if \<not> same_path (s_exe_path (r_scope r)) (b_exe binding) \<or> b_exe binding = None then Inl PathChanged
      else (case b_sha256 binding of
              None \<Rightarrow> Inl HashMissing
            | Some h \<Rightarrow>
                if (case s_exe_sha256 (r_scope r) of None \<Rightarrow> False | Some existing \<Rightarrow> existing \<noteq> h)
                then Inl HashDiffers
                else Inr (r\<lparr>r_scope := (r_scope r)\<lparr>s_exe_sha256 := Some h\<rparr>\<rparr>)))"

datatype persist_error =
    PersistConversion conv_error
  | PersistDenied denial
  | PersistBinding bind_error
  | PersistExe invalid

definition prompt_rule_pb :: "string \<Rightarrow> int \<Rightarrow> int \<Rightarrow> pb_scope \<Rightarrow> pb_rule" where
  "prompt_rule_pb prompt_id action duration scope =
     \<lparr>pr_id = [], pr_name = ''user prompt '' @ prompt_id, pr_enabled = True, pr_action = action,
      pr_duration = duration, pr_scope = Some scope, pr_created_at_unix_ms = 0, pr_hit_count = 0,
      pr_duration_seconds = 0\<rparr>"

definition persist_prepare :: "'j crates \<Rightarrow> call_env \<Rightarrow> control \<Rightarrow> peer \<Rightarrow> prompt_binding \<Rightarrow> pb_rule \<Rightarrow> persist_error + rule" where
  "persist_prepare X V K peer binding m =
     bind_result (map_err PersistConversion (persistable_rule (cr_codec X) (ce_stamp V) m)) (\<lambda>r.
     bind_result (map_err PersistDenied (confirm_generic_allow (ce_auth V) K peer r)) (\<lambda>_.
     bind_result (map_err PersistBinding (bind_prompt_allow r binding)) (\<lambda>r.
     map_err PersistExe
       (bind_result (resolve_exe (ce_fs V) (r_scope r)) (\<lambda>s. Inr (r\<lparr>r_scope := s\<rparr>))))))"

section \<open>The table and the engine agree\<close>

text \<open>
  \<open>tied\<close> relates what the engine holds under an id and what its row loads as.  When every merge
  of hit counts reached the table (\<open>exact\<close>) the two are the same rule, otherwise the same up to
  the hit count; a row the engine has no rule for is one whose deadline has passed.
\<close>

definition same_rule :: "bool \<Rightarrow> rule \<Rightarrow> rule \<Rightarrow> bool" where
  "same_rule exact r q \<longleftrightarrow> (if exact then r = q else r\<lparr>r_hit_count := 0\<rparr> = q\<lparr>r_hit_count := 0\<rparr>)"

fun tied :: "bool \<Rightarrow> ext \<Rightarrow> int \<Rightarrow> rule option \<Rightarrow> rule option \<Rightarrow> bool" where
  "tied exact E clock (Some r) (Some q) = same_rule exact r q"
| "tied exact E clock (Some r) None = False"
| "tied exact E clock None (Some q) = is_expired E q clock"
| "tied exact E clock None None = True"

definition mirrors :: "bool \<Rightarrow> 'j crates \<Rightarrow> int \<Rightarrow> 'j ruled \<Rightarrow> bool" where
  "mirrors exact X clock d \<longleftrightarrow>
     rows_ok (cr_codec X) (cr_serde X) (st_rows (ru_store d)) \<and> engine_ok (ru_engine d) \<and>
     (\<forall>rid. tied exact (cr_ext X) clock (find_rule (e_rules (ru_engine d)) rid)
        (stored (cr_codec X) (cr_serde X) (st_rows (ru_store d)) rid))"

definition crates_ok :: "'j crates \<Rightarrow> bool" where
  "crates_ok X \<longleftrightarrow> codec_ok (cr_codec X) \<and> serde_ok (cr_serde X)"

lemma mirrorsD:
  assumes "mirrors exact X clock d"
  shows "rows_ok (cr_codec X) (cr_serde X) (st_rows (ru_store d))" "engine_ok (ru_engine d)"
    "tied exact (cr_ext X) clock (find_rule (e_rules (ru_engine d)) rid)
        (stored (cr_codec X) (cr_serde X) (st_rows (ru_store d)) rid)"
  using assms by (simp_all add: mirrors_def)

lemma same_rule_refl [simp]: "same_rule exact r r"
  by (simp add: same_rule_def)

lemma same_rule_fields:
  assumes "same_rule exact r q"
  shows "r_duration r = r_duration q" "r_created_at r = r_created_at q" "r_scope r = r_scope q" "r_id r = r_id q"
proof -
  from assms have eq: "r\<lparr>r_hit_count := 0\<rparr> = q\<lparr>r_hit_count := 0\<rparr>" by (cases exact) (simp_all add: same_rule_def)
  show "r_duration r = r_duration q" using arg_cong [OF eq, of r_duration] by simp
  show "r_created_at r = r_created_at q" using arg_cong [OF eq, of r_created_at] by simp
  show "r_scope r = r_scope q" using arg_cong [OF eq, of r_scope] by simp
  show "r_id r = r_id q" using arg_cong [OF eq, of r_id] by simp
qed

lemma same_rule_expired: "same_rule exact r q \<Longrightarrow> is_expired E r now = is_expired E q now"
  using same_rule_fields(1,2) [of exact r q] by (simp add: is_expired_def cong: duration.case_cong)

lemma tied_later: "tied exact E clock a b \<Longrightarrow> clock \<le> clock' \<Longrightarrow> tied exact E clock' a b"
  by (cases "(exact, E, clock, a, b)" rule: tied.cases) (auto intro: is_expired_mono)

lemma tied_same [simp]: "tied exact E clock a a"
  by (cases a) simp_all

lemma mirrors_later: "mirrors exact X clock d \<Longrightarrow> clock \<le> clock' \<Longrightarrow> mirrors exact X clock' d"
  unfolding mirrors_def using tied_later by blast

section \<open>Every write keeps them so\<close>

lemma preserve_keeps:
  "r_scope (preserve_server_owned eng r) = r_scope r" "r_duration (preserve_server_owned eng r) = r_duration r"
  "r_action (preserve_server_owned eng r) = r_action r" "r_enabled (preserve_server_owned eng r) = r_enabled r"
  by (simp_all add: preserve_server_owned_def take_server_owned_def split: option.split)

lemma storable_preserve [simp]: "storable (preserve_server_owned eng r) = storable r"
  by (simp add: storable_def preserve_keeps)

lemma engine_rules_simps [simp]:
  "e_rules (upsert_rule r eng) = upsert_rules r (e_rules eng)"
  "e_rules (remove_rule rid eng) = filter (\<lambda>r. r_id r \<noteq> rid) (e_rules eng)"
  "e_rules (notify_rules_expired E now eng) = filter (\<lambda>r. \<not> is_expired E r now) (e_rules eng)"
  "e_rules (snd (drain_hits eng)) = fold_hits (e_hits eng) (e_rules eng)"
  by (simp_all add: upsert_rule_def remove_rule_def notify_rules_expired_def notify_changed_def drain_hits_def)

lemma engine_ok_ids: "engine_ok eng \<Longrightarrow> distinct_ids (e_rules eng)"
  by (simp add: engine_ok_def)

lemma engine_ok_keeps:
  "engine_ok eng \<Longrightarrow> engine_ok (upsert_rule r eng)"
  "engine_ok eng \<Longrightarrow> engine_ok (remove_rule rid eng)"
  "engine_ok eng \<Longrightarrow> engine_ok (notify_rules_expired E now eng)"
  "engine_ok eng \<Longrightarrow> engine_ok (snd (drain_hits eng))"
  by (erule engine_step_ok [rotated], rule engine_step.intros)+

lemma put_mirrors:
  assumes X: "crates_ok X" and m: "mirrors exact X clock d" and r: "storable r"
  shows "mirrors exact X clock
    (d\<lparr>ru_store := (ru_store d)\<lparr>st_rows := put_row (row_of (cr_codec X) (cr_serde X) r) (st_rows (ru_store d))\<rparr>,
       ru_engine := upsert_rule r (ru_engine d)\<rparr>)"
proof -
  note l = mirrorsD [OF m]
  have C: "codec_ok (cr_codec X)" "serde_ok (cr_serde X)" using X by (simp_all add: crates_ok_def)
  show ?thesis
    using l(3) rule_set.find_put [OF engine_ok_ids [OF l(2)], of r]
    by (simp add: mirrors_def rows_ok_write [OF C(2) l(1)] engine_ok_keeps [OF l(2)] stored_put [OF C r])
qed

lemma upsert_db_cases:
  assumes "upsert_db ok C S r st = (res, st')"
  shows "(\<exists>e. res = Inl e) \<and> st' = st \<or>
    res = Inr () \<and> st' = st\<lparr>st_rows := put_row (row_of C S r) (st_rows st)\<rparr>"
  using assms by (cases ok) (auto simp: upsert_db_def split: sum.splits)

lemma store_put_mirrors:
  assumes "crates_ok X" "mirrors exact X clock d" "storable r"
    and "store_then d (upsert_db ok (cr_codec X) (cr_serde X) r (ru_store d)) (\<lambda>_. upsert_rule r (ru_engine d)) = (res, d')"
  shows "mirrors exact X clock d'"
proof -
  obtain sres st' where s: "upsert_db ok (cr_codec X) (cr_serde X) r (ru_store d) = (sres, st')" by fastforce
  from upsert_db_cases [OF s] show ?thesis
  proof
    assume "(\<exists>e. sres = Inl e) \<and> st' = ru_store d"
    with assms(2,4) s show ?thesis by (auto simp: store_then_def)
  next
    assume "sres = Inr () \<and> st' = (ru_store d)\<lparr>st_rows := put_row (row_of (cr_codec X) (cr_serde X) r) (st_rows (ru_store d))\<rparr>"
    with assms(4) s put_mirrors [OF assms(1-3)] show ?thesis by (auto simp: store_then_def)
  qed
qed

lemma upsert_mirrors:
  assumes "crates_ok X" "mirrors exact X clock d" "storable r" "upsert_commit ok X r d = (res, d')"
  shows "mirrors exact X clock d'"
proof (cases "becomes_always (snapshot (ru_engine d)) r")
  case True
  with assms show ?thesis by (simp add: upsert_commit_def)
next
  case False
  then have "store_then d (upsert_db ok (cr_codec X) (cr_serde X) (preserve_server_owned (ru_engine d) r) (ru_store d))
      (\<lambda>_. upsert_rule (preserve_server_owned (ru_engine d) r) (ru_engine d)) = (res, d')"
    using assms(4) by (simp add: upsert_commit_def Let_def)
  from store_put_mirrors [OF assms(1,2) _ this] assms(3) show ?thesis by simp
qed

lemma persist_mirrors:
  "crates_ok X \<Longrightarrow> mirrors exact X clock d \<Longrightarrow> storable r \<Longrightarrow> persist_commit ok X r d = (res, d') \<Longrightarrow>
   mirrors exact X clock d'"
  unfolding persist_commit_def by (rule store_put_mirrors)

lemma delete_mirrors:
  assumes X: "crates_ok X" and m: "mirrors exact X clock d" and d': "delete_commit ok X rid d = (res, d')"
  shows "mirrors exact X clock d'"
proof (cases ok)
  case False
  with d' m show ?thesis by (simp add: delete_commit_def delete_db_def store_then_def)
next
  case True
  let ?rows = "AList.delete (uuid_show (cr_codec X) rid) (st_rows (ru_store d))"
  note l = mirrorsD [OF m]
  have C: "codec_ok (cr_codec X)" using X by (simp add: crates_ok_def)
  note fd = rule_set.find_delete [OF engine_ok_ids [OF l(2)]] and sd = stored_delete [OF C]
  note rows = rows_ok_delete [OF l(1)]
  show ?thesis
  proof (cases "uuid_show (cr_codec X) rid \<in> fst ` set (st_rows (ru_store d))")
    case present: True
    with True d' have "d' = d\<lparr>ru_store := (ru_store d)\<lparr>st_rows := ?rows\<rparr>, ru_engine := remove_rule rid (ru_engine d)\<rparr>"
      by (auto simp: delete_commit_def delete_db_def store_then_def)
    then show ?thesis using l(3) by (simp add: mirrors_def rows engine_ok_keeps [OF l(2)] fd sd)
  next
    case False
    then have gone: "stored (cr_codec X) (cr_serde X) (st_rows (ru_store d)) rid = None" by (rule stored_None_absent)
    have eq: "d' = d\<lparr>ru_store := (ru_store d)\<lparr>st_rows := ?rows\<rparr>\<rparr>"
      using True False d' by (auto simp: delete_commit_def delete_db_def store_then_def)
    have "stored (cr_codec X) (cr_serde X) ?rows k = stored (cr_codec X) (cr_serde X) (st_rows (ru_store d)) k" for k
      using gone by (simp add: sd)
    then show ?thesis using l by (simp add: mirrors_def rows eq)
  qed
qed

subsection \<open>Imports\<close>

lemma find_rule_map:
  "(\<And>r. r_id (f r) = r_id r) \<Longrightarrow> find_rule (map f rules) rid = map_option f (find_rule rules rid)"
  by (induction rules) (auto simp: find_rule_Cons, simp add: find_rule_def)

lemma find_rule_sorted: "distinct_ids rules \<Longrightarrow> find_rule (sort_deterministic rules) rid = find_rule rules rid"
  by (rule find_rule_cong) simp_all

lemma take_back:
  "take_server_owned q (r\<lparr>r_hit_count := n\<rparr>) = take_server_owned q r" "take_server_owned r r = r"
  by (simp_all add: take_server_owned_def)

lemma find_replaced:
  assumes "distinct_ids rules" "engine_ok eng"
  shows "find_rule (e_rules (replace_rules rules eng)) rid =
    map_option (\<lambda>r. preserve_server_owned eng r) (find_rule rules rid)"
proof -
  have "with_old_counts (e_rules eng) r = preserve_server_owned eng r" for r
    by (simp add: with_old_counts_def preserve_server_owned_def find_rule_rev [OF engine_ok_ids [OF assms(2)]])
  then show ?thesis
    unfolding replace_rules_eq
    by (subst find_rule_map) (simp_all add: find_rule_sorted [OF assms(1)] cong: map_option_cong)
qed

lemma preserve_twice: "preserve_server_owned eng (preserve_server_owned eng r) = preserve_server_owned eng r"
  by (auto simp: preserve_server_owned_def take_server_owned_def split: option.split)

lemma preserve_snapshot:
  assumes "engine_ok eng"
  shows "map_option (preserve_server_owned eng) (find_rule (snapshot eng) rid) = find_rule (e_rules eng) rid"
proof (cases "find_rule (e_rules eng) rid")
  case (Some r)
  then have "r_id r = rid" using find_rule_Some by blast
  with Some show ?thesis
    by (auto simp: snapshot_find preserve_server_owned_def take_server_owned_def split: option.split)
qed (simp add: snapshot_find)

lemma find_apply_batch:
  assumes "distinct_ids rules" "engine_ok eng"
  shows "find_rule (e_rules (apply_batch rules repl eng)) rid =
    (case find_rule rules rid of Some r \<Rightarrow> Some (preserve_server_owned eng r)
     | None \<Rightarrow> if repl then None else find_rule (e_rules eng) rid)"
proof -
  let ?kept = "filter (\<lambda>r. r_id r \<notin> r_id ` set rules) (if repl then [] else snapshot eng)"
  have "distinct_ids (if repl then [] else snapshot eng)"
    using engine_ok_ids [OF assms(2)] by (simp add: snapshot_def distinct_ids_def [of "[]"])
  from find_rule_filter [OF this]
  have kept: "find_rule ?kept rid = (case find_rule (if repl then [] else snapshot eng) rid of None \<Rightarrow> None
      | Some r \<Rightarrow> if r_id r \<notin> r_id ` set rules then Some r else None)" .
  have pend: "find_rule (map (preserve_server_owned eng) rules) rid = map_option (preserve_server_owned eng) (find_rule rules rid)"
    by (rule find_rule_map) simp
  have app: "find_rule (e_rules (apply_batch rules repl eng)) rid =
      map_option (preserve_server_owned eng) (find_rule (?kept @ map (preserve_server_owned eng) rules) rid)"
    unfolding apply_batch_def Let_def by (rule find_replaced [OF batch_distinct [OF assms] assms(2)])
  show ?thesis
  proof (cases "find_rule rules rid")
    case None
    then have "find_rule ?kept rid = (if repl then None else find_rule (snapshot eng) rid)"
      unfolding kept using find_rule_None_iff [of rules rid] find_rule_Some [of "snapshot eng" rid]
      by (auto simp: find_rule_def [of "[]"] split: option.split)
    with None show ?thesis
      using preserve_snapshot [OF assms(2), of rid]
      by (auto simp: app find_rule_append pend split: option.split)
  next
    case (Some r)
    then have "rid \<in> r_id ` set rules" using find_rule_Some by blast
    then have "find_rule ?kept rid = None"
      unfolding kept using find_rule_Some [of _ rid] by (fastforce split: option.split)
    with Some show ?thesis by (simp add: app find_rule_append pend preserve_twice)
  qed
qed

lemma import_mirrors:
  assumes X: "crates_ok X" and m: "mirrors exact X clock d" and rules: "\<forall>r \<in> set rules. storable r" "distinct_ids rules"
    and d': "import_commit ok X rules repl d = (res, d')"
  shows "mirrors exact X clock d'"
proof (cases "\<not> list_ex (becomes_always (snapshot (ru_engine d))) rules \<and> ok")
  case False
  with d' m show ?thesis
    by (auto simp: import_commit_def apply_rules_db_def store_then_def split: if_splits option.splits)
next
  case True
  let ?pend = "map (preserve_server_owned (ru_engine d)) rules"
  let ?rows = "fold (\<lambda>r. put_row (row_of (cr_codec X) (cr_serde X) r)) ?pend (if repl then [] else st_rows (ru_store d))"
  note l = mirrorsD [OF m]
  have C: "codec_ok (cr_codec X)" "serde_ok (cr_serde X)" using X by (simp_all add: crates_ok_def)
  have st: "storable r" if "r \<in> set ?pend" for r using that rules(1) by auto
  have dist: "distinct_ids ?pend" using rules(2) by (simp add: distinct_ids_def comp_def)
  have "first_refusal rs = None" if "\<forall>r \<in> set rs. storable r" for rs
    using that by (induction rs) (auto simp: storable_def reject_hostname_policy_def)
  then have "first_refusal ?pend = None" using st by blast
  with True d' have eq: "d' = d\<lparr>ru_store := (ru_store d)\<lparr>st_rows := ?rows\<rparr>, ru_engine := apply_batch rules repl (ru_engine d)\<rparr>"
    by (auto simp: import_commit_def apply_rules_db_def store_then_def apply_tx_def Let_def comp_def)
  have "rows_ok (cr_codec X) (cr_serde X) ?rows"
    by (rule rows_ok_writes [OF C(2)]) (use l(1) in \<open>simp add: rows_ok_def keys_distinct_def\<close>)
  moreover have "stored (cr_codec X) (cr_serde X) ?rows rid = (case find_rule rules rid of Some r \<Rightarrow> Some (preserve_server_owned (ru_engine d) r)
      | None \<Rightarrow> if repl then None else stored (cr_codec X) (cr_serde X) (st_rows (ru_store d)) rid)" for rid
  proof -
    have "stored (cr_codec X) (cr_serde X) [] rid = None" by (simp add: stored_def)
    moreover have "find_rule ?pend rid = map_option (preserve_server_owned (ru_engine d)) (find_rule rules rid)"
      by (rule find_rule_map) simp
    ultimately show ?thesis
      by (cases "find_rule rules rid"; cases repl) (simp_all only: stored_writes [OF C st dist] option.map option.case if_True if_False)
  qed
  ultimately show ?thesis
    using l(3) apply_batch_ok [OF rules(2) l(2), of repl]
    by (simp add: mirrors_def eq find_apply_batch [OF rules(2) l(2)] split: option.split)
qed

subsection \<open>The flush\<close>

definition with_hits :: "u64 option \<Rightarrow> rule \<Rightarrow> rule" where
  "with_hits inc = (case inc of None \<Rightarrow> id | Some n \<Rightarrow> add_hits n)"

lemma with_hits_simps [simp]: "with_hits None = id" "with_hits (Some n) = add_hits n"
  by (simp_all add: with_hits_def)

lemma find_drained:
  "find_rule (fold_hits hits rules) rid = map_option (with_hits (hits rid)) (find_rule rules rid)"
  using find_rule_Some [of rules rid]
  by (cases "find_rule rules rid") (auto simp: find_fold_hits with_hits_def add_hits_def split: option.split)

lemma same_rule_hits: "same_rule exact r q \<Longrightarrow> same_rule exact (with_hits inc r) (with_hits inc q)"
  by (cases inc; cases exact) (auto simp: same_rule_def add_hits_def)

lemma same_rule_hits_left: "same_rule False r q \<Longrightarrow> same_rule False (with_hits inc r) q"
  by (cases inc) (auto simp: same_rule_def add_hits_def)

lemma expired_hits [simp]: "is_expired E (with_hits inc r) now = is_expired E r now"
  by (cases inc) (simp_all add: is_expired_def cong: duration.case_cong)

lemma tied_hits: "tied exact E clock a b \<Longrightarrow> tied exact E clock (map_option (with_hits inc) a) (map_option (with_hits inc) b)"
  by (cases "(exact, E, clock, a, b)" rule: tied.cases) (simp_all add: same_rule_hits)

lemma tied_hits_left: "tied False E clock a b \<Longrightarrow> tied False E clock (map_option (with_hits inc) a) b"
  by (cases "(False, E, clock, a, b)" rule: tied.cases) (simp_all add: same_rule_hits_left)

lemma merge_mirrors:
  assumes X: "crates_ok X" and m: "mirrors exact X clock d" and ok: "exact \<longrightarrow> ok"
    and incs: "distinct (map fst incs)" "map_of incs = e_hits (ru_engine d)"
  shows "mirrors exact X clock
    (d\<lparr>ru_engine := snd (drain_hits (ru_engine d)),
       ru_store := snd (merge_hit_counts ok (cr_codec X) (cr_serde X) incs (ru_store d))\<rparr>)"
proof -
  note l = mirrorsD [OF m]
  have C: "codec_ok (cr_codec X)" "serde_ok (cr_serde X)" using X by (simp_all add: crates_ok_def)
  note find = find_drained [of "e_hits (ru_engine d)" "e_rules (ru_engine d)"]
  show ?thesis
  proof (cases "incs = [] \<or> ok")
    case True
    then have rows: "st_rows (snd (merge_hit_counts ok (cr_codec X) (cr_serde X) incs (ru_store d))) =
        fold (merge_one (cr_codec X) (cr_serde X)) incs (st_rows (ru_store d))"
      by (auto simp: merge_hit_counts_def)
    have "stored (cr_codec X) (cr_serde X) (fold (merge_one (cr_codec X) (cr_serde X)) incs (st_rows (ru_store d))) rid =
        map_option (with_hits (e_hits (ru_engine d) rid)) (stored (cr_codec X) (cr_serde X) (st_rows (ru_store d)) rid)" for rid
      unfolding with_hits_def incs(2) [symmetric] by (rule stored_merges [OF C incs(1)])
    then show ?thesis
      using tied_hits [OF l(3)] rows_ok_merges [OF C(2) l(1)]
      by (simp add: mirrors_def rows engine_ok_keeps [OF l(2)] find)
  next
    case False
    then have "snd (merge_hit_counts ok (cr_codec X) (cr_serde X) incs (ru_store d)) = ru_store d" and "\<not> exact"
      using ok by (simp_all add: merge_hit_counts_def)
    moreover from this have "tied False (cr_ext X) clock (find_rule (e_rules (ru_engine d)) rid)
        (stored (cr_codec X) (cr_serde X) (st_rows (ru_store d)) rid)" for rid using l(3) by simp
    ultimately show ?thesis
      using l(1) by (simp add: mirrors_def engine_ok_keeps [OF l(2)] find tied_hits_left)
  qed
qed

lemma purge_expired_stored:
  assumes "keys_distinct (st_rows st)"
  shows "stored C S (st_rows (snd (purge_expired ok E S now st))) rid =
    (case stored C S (st_rows st) rid of None \<Rightarrow> None | Some q \<Rightarrow> if ok \<and> is_expired E q now then None else Some q)"
proof (cases ok)
  case True
  then show ?thesis using stored_purge [OF assms same_fates(2), where C = C and S = S and rid = rid]
    by (simp add: purge_expired_def split: option.split)
next
  case False
  then show ?thesis by (simp add: purge_expired_def purge_where_def split: option.split)
qed

lemma purge_expired_ok: "rows_ok C S (st_rows st) \<Longrightarrow> rows_ok C S (st_rows (snd (purge_expired ok E S now st)))"
  by (cases ok) (simp_all add: purge_expired_def rows_ok_purge, simp add: purge_where_def)

lemma tied_expire:
  assumes "tied exact E clock a b" "clock \<le> now'" "now \<le> now'"
  shows "tied exact E now' (case a of None \<Rightarrow> None | Some r \<Rightarrow> if \<not> is_expired E r now' then Some r else None)
    (case b of None \<Rightarrow> None | Some q \<Rightarrow> if ok \<and> is_expired E q now then None else Some q)"
  using assms same_rule_expired [of exact "the a" "the b" E now'] is_expired_mono [of E "the b" now now']
    is_expired_mono [of E "the b" clock now']
  by (cases "(exact, E, clock, a, b)" rule: tied.cases) auto

lemma expire_mirrors:
  assumes m: "mirrors exact X clock d" and "clock \<le> now'" "now \<le> now'"
  shows "mirrors exact X now'
    (d\<lparr>ru_engine := notify_rules_expired (cr_ext X) now' (ru_engine d),
       ru_store := snd (purge_expired ok (cr_ext X) (cr_serde X) now (ru_store d))\<rparr>)"
proof -
  note l = mirrorsD [OF m]
  show ?thesis
    using tied_expire [OF l(3) assms(2,3), of _ ok] find_rule_filter [OF engine_ok_ids [OF l(2)]]
    by (simp add: mirrors_def engine_ok_keeps [OF l(2)] purge_expired_ok [OF l(1)]
        purge_expired_stored [OF rows_okD(1) [OF l(1)]])
qed

lemma flush_mirrors:
  assumes X: "crates_ok X" and m: "mirrors exact X clock d" and ok: "exact \<longrightarrow> ok_merge"
    and incs: "distinct (map fst incs)" "map_of incs = e_hits (ru_engine d)"
    and time: "clock \<le> now" "now \<le> now'"
  shows "mirrors exact X now' (flush_tick ok_merge ok_purge X now now' incs d)"
proof -
  note merged = merge_mirrors [OF X m ok incs]
  have t: "clock \<le> now'" using time by linarith
  show ?thesis
    using expire_mirrors [OF merged t time(2), of ok_purge] mirrors_later [OF merged t]
    by (simp add: flush_tick_def Let_def)
qed

section \<open>Every prepared rule is one a restart takes back\<close>

lemma wire_storable: "wire_rule r \<Longrightarrow> storable r"
  by (auto simp: wire_rule_def wire_scope_def storable_def gates_accept_def check_scope_Inr reject_hostname_policy_def
      split: if_splits)

text \<open>\<open>realpath\<close> answers a canonical spelling: one separator before each component, none after.\<close>

definition fs_ok :: "fs \<Rightarrow> bool" where
  "fs_ok F \<longleftrightarrow> (\<forall>p real. fs_canonicalize F p = Some real \<longrightarrow> path_text (path_components real) = real)"

lemma length_components:
  "length (concat (map (\<lambda>c. CHR ''/'' # component_text c) (component_of seg))) \<le> Suc (length seg)"
  by (auto simp: Let_def)

lemma length_segments: "length (concat (map (\<lambda>s. CHR ''/'' # s) (split_slash p))) = Suc (length p)"
proof (induction p)
  case (Cons c p)
  then show ?case using split_slash_nonempty [of p] by (auto split: list.splits)
qed simp

lemma length_concat_components:
  "length (concat (map (\<lambda>c. CHR ''/'' # component_text c) (concat (map component_of segs)))) \<le>
   length (concat (map (\<lambda>s. CHR ''/'' # s) segs))"
proof (induction segs)
  case (Cons seg segs)
  then show ?case using length_components [of seg] by simp
qed simp

lemma path_text_shortest:
  assumes "is_absolute p"
  shows "length (path_text (path_components p)) \<le> length p"
proof -
  obtain p' where p: "p = CHR ''/'' # p'" using assms by (cases p) (simp_all add: is_absolute_def)
  then have segs: "split_slash p = [] # split_slash p'"
    using split_slash_nonempty [of p'] by (auto split: list.splits)
  have "length (concat (map (\<lambda>c. CHR ''/'' # component_text c) (concat (map component_of (split_slash p'))))) \<le> length p"
    using length_concat_components [of "split_slash p'"] length_segments [of p'] p by simp
  moreover have "path_components p = RootDir # concat (map component_of (split_slash p'))"
    using assms segs by (simp add: path_components_def)
  ultimately show ?thesis using p by (auto simp: path_text_def)
qed

lemma resolved_length:
  assumes "fs_ok F" "resolve_exe_policy F p = Inr out"
  shows "length (into_path out) \<le> length p"
proof -
  note same = resolve_exe_policy_same [OF assms(2)]
  from same(3) consider (there) "out = Unchanged (into_path out)" | (absent) "length (into_path out) \<le> length p" by blast
  then show ?thesis
  proof cases
    case there
    then have "fs_canonicalize F (trim_slashes p) = Some (into_path out)"
      using assms(2) same(2)
      by (auto simp: resolve_exe_policy_def resolve_def Let_def bind_result_Inr_iff split: option.splits if_splits)
    then have "path_text (path_components (into_path out)) = into_path out" using assms(1) by (auto simp: fs_ok_def)
    then show ?thesis using path_text_shortest [OF same(2)] same(1) by (simp add: path_eq_def)
  qed
qed

lemma absolute_components: "is_absolute p \<longleftrightarrow> (\<exists>cs. path_components p = RootDir # cs)"
proof -
  have "RootDir \<notin> set (concat (map component_of segs))" for segs by (auto simp: Let_def split: if_splits)
  then have "concat (map component_of segs) \<noteq> RootDir # cs" for segs cs by (metis list.set_intros(1))
  then show ?thesis by (auto simp: path_components_def Let_def)
qed

lemma absolute_path_eq: "path_eq p q \<Longrightarrow> is_absolute p = is_absolute q"
  by (simp add: absolute_components path_eq_def)

lemma storable_new_exe:
  assumes "storable r" "s_exe_path (r_scope r) \<noteq> None" "is_absolute p" "length p \<le> MAX_EXE_PATH_LEN"
  shows "storable (r\<lparr>r_scope := (r_scope r)\<lparr>s_exe_path := Some p\<rparr>\<rparr>)"
proof -
  have "p \<noteq> UNKNOWN_EXE" using assms(3) by (auto simp: is_absolute_def UNKNOWN_EXE_def)
  with assms show ?thesis
    by (auto simp: storable_def check_scope_Inr reject_unscoped_def specificity_def reject_unmatchable_exe_def
        reject_unmatchable_parent_def reject_inbound_destination_scope_def reject_unattributable_inbound_scope_def
        split: if_splits)
qed

lemma storable_exe_length: "storable r \<Longrightarrow> s_exe_path (r_scope r) = Some p \<Longrightarrow> length p \<le> MAX_EXE_PATH_LEN"
  by (auto simp: storable_def check_scope_Inr reject_unmatchable_exe_def split: if_splits)

lemma resolve_exe_storable:
  assumes "fs_ok F" "storable r" "resolve_exe F (r_scope r) = Inr s"
  shows "storable (r\<lparr>r_scope := s\<rparr>)"
proof (cases "s_exe_path (r_scope r)")
  case None
  with assms(3) have "s = r_scope r" by (simp add: resolve_exe_def)
  with assms(2) show ?thesis by simp
next
  case (Some p)
  with assms(3) obtain out where out: "resolve_exe_policy F p = Inr out"
    and s: "s = (r_scope r)\<lparr>s_exe_path := Some (into_path out)\<rparr>"
    by (auto simp: resolve_exe_def bind_result_Inr_iff)
  have "is_absolute (into_path out)"
    using resolve_exe_policy_same(1,2) [OF out] absolute_path_eq by blast
  moreover have "length (into_path out) \<le> MAX_EXE_PATH_LEN"
    using resolved_length [OF assms(1) out] storable_exe_length [OF assms(2) Some] by linarith
  ultimately show ?thesis unfolding s by (intro storable_new_exe [OF assms(2)]) (simp_all add: Some)
qed

lemma settle_storable:
  assumes "fs_ok F" "storable r" "settle_exe F rules r = Inr q"
  shows "storable q \<and> r_id q = r_id r"
  using assms resolve_exe_storable [OF assms(1,2)]
  by (auto simp: settle_exe_def bind_result_Inr_iff split: if_splits)

lemma persistable_storable: "persistable_rule C stamp m = Inr r \<Longrightarrow> storable r"
  using rule_from_pb_wire wire_storable by (fastforce simp: persistable_rule_def bind_result_Inr_iff)

lemma upsert_prepare_storable:
  assumes "fs_ok (ce_fs V)" "upsert_prepare X V K peer proto eng = Inr r"
  shows "storable r"
proof -
  from assms(2) obtain m q where "persistable_rule (cr_codec X) (ce_stamp V) m = Inr q"
    "settle_exe (ce_fs V) (snapshot eng) q = Inr r"
    by (auto simp: upsert_prepare_def bind_result_Inr_iff split: option.splits)
  then show ?thesis using settle_storable [OF assms(1)] persistable_storable by blast
qed

lemma apply_prepare_storable:
  assumes F: "fs_ok F"
  shows "apply_prepare C F rules ids ms = Inr rs \<Longrightarrow>
    (\<forall>r \<in> set rs. storable r \<and> r_id r \<notin> set ids) \<and> distinct_ids rs"
proof (induction ms arbitrary: ids rs)
  case Nil
  then show ?case by (simp add: distinct_ids_def)
next
  case (Cons entry ms)
  obtain stamp m where entry: "entry = (stamp, m)" by fastforce
  from Cons.prems obtain r q qs where r: "persistable_rule C stamp m = Inr r" "r_id r \<notin> set ids"
    and q: "settle_exe F rules r = Inr q" and qs: "apply_prepare C F rules (r_id q # ids) ms = Inr qs" and rs: "rs = q # qs"
    by (auto simp: entry bind_result_Inr_iff split: if_splits)
  have "storable q \<and> r_id q = r_id r" by (rule settle_storable [OF F persistable_storable [OF r(1)] q])
  with Cons.IH [OF qs] r(2) show ?case by (auto simp: rs distinct_ids_def)
qed

lemma import_prepare_storable:
  assumes "fs_ok (ce_fs V)" "import_prepare X V ms repl eng = Inr rs"
  shows "(\<forall>r \<in> set rs. storable r) \<and> distinct_ids rs"
  using assms(2) apply_prepare_storable [OF assms(1), of "cr_codec X" "snapshot eng" "[]" ms rs]
  by (auto simp: import_prepare_def split: if_splits)

lemma bind_storable:
  assumes "storable r" "bind_prompt_allow r binding = Inr q"
  shows "storable q"
proof (cases "r_action r \<noteq> Allow \<or> \<not> b_hash_expected binding")
  case True
  with assms show ?thesis by (simp add: bind_prompt_allow_def)
next
  case False
  with assms(2) have exe: "s_exe_path (r_scope r) \<noteq> None"
    by (auto simp: bind_prompt_allow_def same_path_def split: if_splits option.splits)
  from False assms(2) obtain h where "q = r\<lparr>r_scope := (r_scope r)\<lparr>s_exe_sha256 := Some h\<rparr>\<rparr>"
    by (auto simp: bind_prompt_allow_def split: if_splits option.splits)
  with assms(1) exe show ?thesis
    by (auto simp: storable_def check_scope_Inr reject_unscoped_def specificity_def reject_unmatchable_exe_def
        reject_unmatchable_parent_def reject_inbound_destination_scope_def reject_unattributable_inbound_scope_def
        split: if_splits)
qed

lemma persist_prepare_storable:
  assumes "fs_ok (ce_fs V)" "persist_prepare X V K peer binding m = Inr r"
  shows "storable r"
proof -
  from assms(2) obtain q1 q2 s where q1: "persistable_rule (cr_codec X) (ce_stamp V) m = Inr q1"
    and q2: "bind_prompt_allow q1 binding = Inr q2" and s: "resolve_exe (ce_fs V) (r_scope q2) = Inr s" "r = q2\<lparr>r_scope := s\<rparr>"
    by (auto simp: persist_prepare_def bind_result_Inr_iff)
  have "storable q2" by (rule bind_storable [OF persistable_storable [OF q1] q2])
  from resolve_exe_storable [OF assms(1) this s(1)] s(2) show ?thesis by simp
qed

section \<open>The gates of the API\<close>

text \<open>
  What a rule written through the API must satisfy, field by field: it outlives the connection
  that asked for it, narrows something, names neither a host nor a parent program nor a protocol
  without a number of its own, its executable is an absolute path of bounded length, and an
  inbound rule asks nothing of a process or of the destination network.
\<close>

definition scope_vetted :: "rule_scope \<Rightarrow> bool" where
  "scope_vetted s \<longleftrightarrow>
     s_dst_host s = None \<and> s_parent_exe s = None \<and> (\<forall>n. s_protocol s \<noteq> Some (Other n)) \<and>
     (s_src_net s \<noteq> None \<or> s_src_port s \<noteq> None \<or> s_exe_path s \<noteq> None \<or> s_exe_sha256 s \<noteq> None \<or>
      s_uid s \<noteq> None \<or> s_dst_net s \<noteq> None \<or> s_dst_port s \<noteq> None \<or> s_protocol s \<noteq> None) \<and>
     (\<forall>exe. s_exe_path s = Some exe \<longrightarrow> is_absolute exe \<and> exe \<noteq> UNKNOWN_EXE \<and> length exe \<le> 4096) \<and>
     (s_direction s = Some Inbound \<longrightarrow>
        s_dst_net s = None \<and> s_exe_path s = None \<and> s_exe_sha256 s = None \<and> s_uid s = None)"

lemma unscoped_iff:
  "s_dst_host s = None \<Longrightarrow> s_parent_exe s = None \<Longrightarrow> reject_unscoped s = Inr () \<Longrightarrow>
     s_src_net s \<noteq> None \<or> s_src_port s \<noteq> None \<or> s_exe_path s \<noteq> None \<or> s_exe_sha256 s \<noteq> None \<or>
      s_uid s \<noteq> None \<or> s_dst_net s \<noteq> None \<or> s_dst_port s \<noteq> None \<or> s_protocol s \<noteq> None"
  by (auto simp: reject_unscoped_def specificity_def narrows_def split: if_splits)

lemma checked_scope_vetted:
  assumes "check_scope s = Inr ()" "s_dst_host s = None" "\<forall>n. s_protocol s \<noteq> Some (Other n)"
  shows "scope_vetted s"
proof -
  have "gates_accept s" using assms(1,2) by (auto simp: gates_accept_def check_scope_Inr reject_hostname_policy_def)
  then show ?thesis
    using assms unscoped_iff [OF assms(2)] unfolding gates_accept_iff scope_vetted_def
    by (auto simp: check_scope_Inr MAX_EXE_PATH_LEN_def)
qed

lemma storable_vetted: "storable r \<Longrightarrow> scope_vetted (r_scope r)"
  using checked_scope_vetted by (simp add: storable_def)

lemma exe_vetted_spelling:
  assumes "exe_vetted F q" "path_eq p q"
  shows "exe_vetted F p"
proof -
  have c: "path_components p = path_components q" using assms(2) by (simp add: path_eq_def)
  with assms(1) absolute_path_eq [OF assms(2)] show ?thesis unfolding exe_vetted_def path_eq_def c by simp
qed

text \<open>Where the executable of a prepared rule comes from: the file system, or the rule it edits.\<close>

definition exe_settled :: "fs \<Rightarrow> rule list \<Rightarrow> rule \<Rightarrow> bool" where
  "exe_settled F rules r \<longleftrightarrow>
     (\<forall>p. s_exe_path (r_scope r) = Some p \<longrightarrow>
        exe_vetted F p \<or>
        (\<exists>old \<in> set rules. \<exists>q. r_id old = r_id r \<and> s_exe_path (r_scope old) = Some q \<and> path_eq q p))"

lemma resolve_exe_settled:
  assumes "resolve_exe F (r_scope r) = Inr s"
  shows "exe_settled F rules (r\<lparr>r_scope := s\<rparr>)"
  using assms accepted_exe_is_vetted exe_vetted_spelling
  by (fastforce simp: exe_settled_def resolve_exe_def bind_result_Inr_iff split: option.splits)

lemma settle_exe_settled:
  assumes "settle_exe F rules r = Inr q"
  shows "exe_settled F rules q \<and> r_duration q = r_duration r"
proof (cases "keeps_stored_exe rules r")
  case True
  with assms have "q = r" by (simp add: settle_exe_def)
  with True show ?thesis
    by (fastforce simp: exe_settled_def keeps_stored_exe_def same_path_def list_ex_iff split: option.splits)
next
  case False
  with assms show ?thesis using resolve_exe_settled by (auto simp: settle_exe_def bind_result_Inr_iff)
qed

lemma persistable_duration: "persistable_rule C stamp m = Inr r \<Longrightarrow> r_duration r \<noteq> Once"
  by (auto simp: persistable_rule_def bind_result_Inr_iff reject_unpersistable_duration_def split: if_splits)

lemma upsert_prepare_settled:
  assumes "upsert_prepare X V K peer proto eng = Inr r"
  shows "r_duration r \<noteq> Once \<and> exe_settled (ce_fs V) (snapshot eng) r"
proof -
  from assms obtain m q where "persistable_rule (cr_codec X) (ce_stamp V) m = Inr q"
    "settle_exe (ce_fs V) (snapshot eng) q = Inr r"
    by (auto simp: upsert_prepare_def bind_result_Inr_iff split: option.splits)
  then show ?thesis using settle_exe_settled persistable_duration by metis
qed

lemma apply_prepare_settled:
  "apply_prepare C F rules ids ms = Inr rs \<Longrightarrow> \<forall>r \<in> set rs. r_duration r \<noteq> Once \<and> exe_settled F rules r"
proof (induction ms arbitrary: ids rs)
  case (Cons entry ms)
  obtain stamp m where entry: "entry = (stamp, m)" by fastforce
  from Cons.prems obtain r q qs where r: "persistable_rule C stamp m = Inr r"
    and q: "settle_exe F rules r = Inr q" and qs: "apply_prepare C F rules (r_id q # ids) ms = Inr qs" and rs: "rs = q # qs"
    by (auto simp: entry bind_result_Inr_iff split: if_splits)
  with Cons.IH [OF qs] settle_exe_settled [OF q] persistable_duration [OF r] show ?case by (simp add: rs)
qed simp

lemma import_prepare_settled:
  "import_prepare X V ms repl eng = Inr rs \<Longrightarrow>
   \<forall>r \<in> set rs. r_duration r \<noteq> Once \<and> exe_settled (ce_fs V) (snapshot eng) r"
  using apply_prepare_settled [of "cr_codec X" "ce_fs V" "snapshot eng" "[]" ms rs]
  by (auto simp: import_prepare_def split: if_splits)

lemma persist_prepare_settled:
  assumes "persist_prepare X V K peer binding m = Inr r"
  shows "r_duration r \<noteq> Once \<and> exe_settled (ce_fs V) [] r"
proof -
  from assms obtain q1 q2 s where q: "persistable_rule (cr_codec X) (ce_stamp V) m = Inr q1"
    "bind_prompt_allow q1 binding = Inr q2" and s: "resolve_exe (ce_fs V) (r_scope q2) = Inr s" "r = q2\<lparr>r_scope := s\<rparr>"
    by (auto simp: persist_prepare_def bind_result_Inr_iff)
  have "r_duration q2 = r_duration q1"
    using q(2) by (auto simp: bind_prompt_allow_def split: if_splits option.splits)
  with s persistable_duration [OF q(1)] resolve_exe_settled [OF s(1)] show ?thesis by simp
qed

end
