(* ===== verification/ControlRuns.thy ===== *)
theory ControlRuns
  imports Control
begin

text \<open>
  Runs of the daemon's rule state from start to restart: requests prepared and committed in any
  interleaving, flushes, hits, policy reloads and lost clients.  The two results are that a
  restart takes back exactly the rules that are meant to outlive it, and that every rule the
  engine ever holds has passed the gates.
\<close>

section \<open>Runs\<close>

definition upsert_rpc :: "'j crates \<Rightarrow> call_env \<Rightarrow> control \<Rightarrow> peer \<Rightarrow> pb_rule option \<Rightarrow> engine \<Rightarrow> status + rule" where
  "upsert_rpc X V K peer proto eng =
     bind_result (map_err PermissionDenied (authorize (ce_auth V) K peer Change)) (\<lambda>peer.
       upsert_prepare X V K peer proto eng)"

definition import_rpc :: "'j crates \<Rightarrow> call_env \<Rightarrow> control \<Rightarrow> peer \<Rightarrow> ((uuid \<times> datetime) \<times> pb_rule) list \<Rightarrow> bool \<Rightarrow>
    engine \<Rightarrow> status + rule list" where
  "import_rpc X V K peer ms repl eng =
     bind_result (map_err PermissionDenied (authorize (ce_auth V) K peer (Elevated IMPORT_RULES))) (\<lambda>_.
       import_prepare X V ms repl eng)"

text \<open>A write between its preparation and its commit.\<close>

datatype rule_write = Upsert rule | Import "rule list" bool | Persist rule

record 'j daemon =
  dm_ruled :: "'j ruled"
  dm_inflight :: "rule_write list"
  dm_clock :: int

fun commit :: "bool \<Rightarrow> 'j crates \<Rightarrow> rule_write \<Rightarrow> 'j ruled \<Rightarrow> 'j ruled" where
  "commit ok X (Upsert r) d = snd (upsert_commit ok X r d)"
| "commit ok X (Import rs repl) d = snd (import_commit ok X rs repl d)"
| "commit ok X (Persist r) d = snd (persist_commit ok X r d)"

definition with_engine :: "(engine \<Rightarrow> engine) \<Rightarrow> 'j ruled \<Rightarrow> 'j ruled" where
  "with_engine f d = d\<lparr>ru_engine := f (ru_engine d)\<rparr>"

text \<open>\<open>exact\<close> runs are those where no merge of hit counts failed; \<open>FS\<close> holds the states of the
  file system the calls of the run looked at.\<close>

inductive daemon_step :: "(fs \<Rightarrow> bool) \<Rightarrow> bool \<Rightarrow> 'j crates \<Rightarrow> control \<Rightarrow> 'j daemon \<Rightarrow> 'j daemon \<Rightarrow> bool" for FS exact X K where
  begin_upsert: "FS (ce_fs V) \<Longrightarrow> fs_ok (ce_fs V) \<Longrightarrow> upsert_rpc X V K peer proto (ru_engine (dm_ruled d)) = Inr r \<Longrightarrow>
    daemon_step FS exact X K d (d\<lparr>dm_inflight := Upsert r # dm_inflight d\<rparr>)"
| begin_import: "FS (ce_fs V) \<Longrightarrow> fs_ok (ce_fs V) \<Longrightarrow> import_rpc X V K peer ms repl (ru_engine (dm_ruled d)) = Inr rs \<Longrightarrow>
    daemon_step FS exact X K d (d\<lparr>dm_inflight := Import rs repl # dm_inflight d\<rparr>)"
| begin_persist: "FS (ce_fs V) \<Longrightarrow> fs_ok (ce_fs V) \<Longrightarrow> persist_prepare X V K peer binding m = Inr r \<Longrightarrow>
    daemon_step FS exact X K d (d\<lparr>dm_inflight := Persist r # dm_inflight d\<rparr>)"
| commit_write: "w \<in> set (dm_inflight d) \<Longrightarrow>
    daemon_step FS exact X K d (d\<lparr>dm_inflight := remove1 w (dm_inflight d), dm_ruled := commit ok X w (dm_ruled d)\<rparr>)"
| client_gone: "daemon_step FS exact X K d (d\<lparr>dm_inflight := remove1 w (dm_inflight d)\<rparr>)"
| delete_rule: "daemon_step FS exact X K d (d\<lparr>dm_ruled := snd (delete_commit ok X rid (dm_ruled d))\<rparr>)"
| flush: "exact \<longrightarrow> ok_merge \<Longrightarrow> distinct (map fst incs) \<Longrightarrow> map_of incs = e_hits (ru_engine (dm_ruled d)) \<Longrightarrow>
    dm_clock d \<le> now \<Longrightarrow> now \<le> now' \<Longrightarrow>
    daemon_step FS exact X K d (d\<lparr>dm_ruled := flush_tick ok_merge ok_purge X now now' incs (dm_ruled d), dm_clock := now'\<rparr>)"
| packet: "daemon_step FS exact X K d (d\<lparr>dm_ruled := with_engine (\<lambda>eng. snd (evaluate (cr_ext X) now eng conn proc)) (dm_ruled d)\<rparr>)"
| released_hit: "daemon_step FS exact X K d (d\<lparr>dm_ruled := with_engine (count_hit rid) (dm_ruled d)\<rparr>)"
| reload: "daemon_step FS exact X K d (d\<lparr>dm_ruled := with_engine (set_policy policy) (dm_ruled d)\<rparr>)"
| time_passes: "dm_clock d \<le> now \<Longrightarrow> daemon_step FS exact X K d (d\<lparr>dm_clock := now\<rparr>)"

text \<open>\<open>main\<close>: open the table, load it, build the engine.\<close>

fun start :: "(migration_stmt \<Rightarrow> bool) \<Rightarrow> bool \<Rightarrow> bool \<Rightarrow> bool \<Rightarrow> 'j crates \<Rightarrow> default_policy \<Rightarrow> int \<Rightarrow> 'j store \<Rightarrow>
    storage_error + 'j ruled" where
  "start oks ok_transient ok_expired ok_load X policy now st =
     (case open_store oks ok_transient ok_expired (cr_ext X) (cr_serde X) now st of
        (Inl e, st) \<Rightarrow> Inl e
      | (Inr _, st) \<Rightarrow>
          (case snapshot_db ok_load (cr_serde X) st of
             (Inl e, st) \<Rightarrow> Inl e
           | (Inr rules, st) \<Rightarrow> Inr \<lparr>ru_engine = new_engine rules policy, ru_store = st\<rparr>))"

fun write_ok :: "rule_write \<Rightarrow> bool" where
  "write_ok (Upsert r) = storable r"
| "write_ok (Import rs repl) = ((\<forall>r \<in> set rs. storable r) \<and> distinct_ids rs)"
| "write_ok (Persist r) = storable r"

definition daemon_ok :: "bool \<Rightarrow> 'j crates \<Rightarrow> 'j daemon \<Rightarrow> bool" where
  "daemon_ok exact X d \<longleftrightarrow> mirrors exact X (dm_clock d) (dm_ruled d) \<and> (\<forall>w \<in> set (dm_inflight d). write_ok w)"

lemma commit_mirrors:
  assumes "crates_ok X" "mirrors exact X clock d" "write_ok w"
  shows "mirrors exact X clock (commit ok X w d)"
proof (cases w)
  case (Upsert r)
  with assms upsert_mirrors [OF assms(1,2), of r ok "fst (upsert_commit ok X r d)"] show ?thesis by simp
next
  case (Import rs repl)
  with assms import_mirrors [OF assms(1,2), of rs ok repl "fst (import_commit ok X rs repl d)"] show ?thesis by simp
next
  case (Persist r)
  with assms persist_mirrors [OF assms(1,2), of r ok "fst (persist_commit ok X r d)"] show ?thesis by simp
qed

lemma with_engine_mirrors:
  assumes "mirrors exact X clock d" "\<And>eng. e_rules (f eng) = e_rules eng" "\<And>eng. engine_ok eng \<Longrightarrow> engine_ok (f eng)"
  shows "mirrors exact X clock (with_engine f d)"
  using assms by (simp add: mirrors_def with_engine_def)

lemma packet_rules [simp]: "e_rules (count_hit rid eng) = e_rules eng" "e_rules (set_policy policy eng) = e_rules eng"
  by (simp_all add: count_hit_def set_policy_def)

lemma engine_ok_packet:
  "engine_ok eng \<Longrightarrow> engine_ok (snd (evaluate E now eng conn proc))"
  "engine_ok eng \<Longrightarrow> engine_ok (count_hit rid eng)"
  "engine_ok eng \<Longrightarrow> engine_ok (set_policy policy eng)"
  by (simp_all add: engine_ok_def count_hit_def set_policy_def)

lemma inflight_upsert:
  assumes "upsert_rpc X V K peer proto eng = Inr r" "fs_ok (ce_fs V)"
  shows "write_ok (Upsert r)"
  using assms upsert_prepare_storable [OF assms(2)] by (auto simp: upsert_rpc_def bind_result_Inr_iff)

lemma inflight_import:
  assumes "import_rpc X V K peer ms repl eng = Inr rs" "fs_ok (ce_fs V)"
  shows "write_ok (Import rs repl)"
proof -
  from assms(1) have "import_prepare X V ms repl eng = Inr rs" by (auto simp: import_rpc_def bind_result_Inr_iff)
  from import_prepare_storable [OF assms(2) this] show ?thesis by simp
qed

lemma daemon_step_ok:
  assumes "crates_ok X" "daemon_step FS exact X K d d'" "daemon_ok exact X d"
  shows "daemon_ok exact X d'"
  using assms(2,3)
proof (cases rule: daemon_step.cases)
  case (begin_upsert V peer proto r)
  with inflight_upsert [OF begin_upsert(4,3)] assms(3) show ?thesis by (simp add: daemon_ok_def)
next
  case (begin_import V peer ms repl rs)
  with inflight_import [OF begin_import(4,3)] assms(3) show ?thesis by (simp add: daemon_ok_def)
next
  case (begin_persist V peer binding m r)
  with persist_prepare_storable assms(3) show ?thesis by (auto simp: daemon_ok_def)
next
  case (commit_write w ok)
  have m: "mirrors exact X (dm_clock d) (dm_ruled d)" and w: "write_ok w" "\<forall>v \<in> set (dm_inflight d). write_ok v"
    using assms(3) commit_write(2) by (auto simp: daemon_ok_def)
  have "\<forall>v \<in> set (remove1 w (dm_inflight d)). write_ok v"
    using w(2) set_remove1_subset [of w "dm_inflight d"] by blast
  with commit_mirrors [OF assms(1) m w(1)] commit_write(1) show ?thesis by (simp add: daemon_ok_def)
next
  case (client_gone w)
  with assms(3) show ?thesis using set_remove1_subset [of w "dm_inflight d"] by (auto simp: daemon_ok_def)
next
  case (delete_rule ok rid)
  with assms(3) delete_mirrors [OF assms(1), of exact "dm_clock d" "dm_ruled d" ok rid "fst (delete_commit ok X rid (dm_ruled d))"]
  show ?thesis by (simp add: daemon_ok_def)
next
  case (flush ok_merge incs now now' ok_purge)
  with assms(3) flush_mirrors [OF assms(1), of exact "dm_clock d" "dm_ruled d" ok_merge incs now now' ok_purge]
  show ?thesis by (simp add: daemon_ok_def)
next
  case (packet now conn proc)
  with assms(3) show ?thesis by (simp add: daemon_ok_def with_engine_mirrors engine_ok_packet)
next
  case (released_hit rid)
  with assms(3) show ?thesis
    by (simp add: daemon_ok_def with_engine_mirrors engine_ok_packet)
next
  case (reload policy)
  with assms(3) show ?thesis by (simp add: daemon_ok_def with_engine_mirrors engine_ok_packet)
next
  case (time_passes now)
  with assms(3) mirrors_later show ?thesis by (auto simp: daemon_ok_def)
qed

lemma daemon_run_ok:
  assumes X: "crates_ok X"
  shows "(daemon_step FS exact X K)\<^sup>*\<^sup>* d d' \<Longrightarrow> daemon_ok exact X d \<Longrightarrow> daemon_ok exact X d'"
  by (induction rule: rtranclp_induct) (auto intro: daemon_step_ok [OF X])

section \<open>A restart\<close>

lemma start_Inr:
  assumes "start oks a b c X policy now st = Inr d"
  obtains st1 where "open_store oks a b (cr_ext X) (cr_serde X) now st = (Inr (), st1)"
    "d = \<lparr>ru_engine = new_engine (fst (load_snapshot (cr_serde X) st1)) policy, ru_store = snd (load_snapshot (cr_serde X) st1)\<rparr>"
proof -
  obtain st1 where o: "open_store oks a b (cr_ext X) (cr_serde X) now st = (Inr (), st1)"
    using assms by (cases "open_store oks a b (cr_ext X) (cr_serde X) now st";
        cases "fst (open_store oks a b (cr_ext X) (cr_serde X) now st)") auto
  with assms that show ?thesis by (cases c) (simp_all add: snapshot_db_def)
qed

definition still_lasting :: "ext \<Rightarrow> int \<Rightarrow> rule option \<Rightarrow> rule option" where
  "still_lasting E now x = (case x of None \<Rightarrow> None | Some r \<Rightarrow> if lasting E now r then Some r else None)"

lemma start_loads:
  assumes X: "crates_ok X" and rows: "rows_ok (cr_codec X) (cr_serde X) (st_rows st)"
    and s: "start oks a b c X policy now st = Inr d"
  shows "find_rule (e_rules (ru_engine d)) rid =
      still_lasting (cr_ext X) now (stored (cr_codec X) (cr_serde X) (st_rows st) rid)"
    "mirrors exact X now d"
proof -
  obtain st1 where st1: "open_store oks a b (cr_ext X) (cr_serde X) now st = (Inr (), st1)"
    and d: "d = \<lparr>ru_engine = new_engine (fst (load_snapshot (cr_serde X) st1)) policy, ru_store = snd (load_snapshot (cr_serde X) st1)\<rparr>"
    using start_Inr [OF s] by blast
  have C: "codec_ok (cr_codec X)" using X by (simp add: crates_ok_def)
  note opened = open_store_rows [OF rows st1]
  note snap = load_snapshot_find [OF C opened(1)]
  have st: "st_rows (ru_store d) = st_rows st1" by (simp add: d load_snapshot_def Let_def)
  have find: "find_rule (e_rules (ru_engine d)) rid = stored (cr_codec X) (cr_serde X) (st_rows st1) rid" for rid
    by (simp add: d new_engine_def find_rule_sorted [OF snap(1)] snap(2))
  then show "find_rule (e_rules (ru_engine d)) rid =
      still_lasting (cr_ext X) now (stored (cr_codec X) (cr_serde X) (st_rows st) rid)"
    unfolding opened(2) still_lasting_def by simp
  have "engine_ok (ru_engine d)" using snap(1) by (simp add: d new_engine_def engine_ok_def)
  with find opened(1) show "mirrors exact X now d" by (simp add: mirrors_def st)
qed

lemma tied_lasting:
  assumes "tied exact E clock a b" "clock \<le> now"
  shows "rel_option (same_rule exact) (still_lasting E now a) (still_lasting E now b)"
proof -
  have "lasting E now r = lasting E now q" if "same_rule exact r q" for r q
    using same_rule_fields(1) [OF that] same_rule_expired [OF that] by (simp add: lasting_iff is_transient_def)
  with assms show ?thesis
    by (cases "(exact, E, clock, a, b)" rule: tied.cases)
       (auto simp: still_lasting_def lasting_iff dest: is_expired_mono)
qed

definition fresh_daemon :: "'j ruled \<Rightarrow> int \<Rightarrow> 'j daemon" where
  "fresh_daemon d now = \<lparr>dm_ruled = d, dm_inflight = [], dm_clock = now\<rparr>"

lemma fresh_daemon_ok: "mirrors exact X now d \<Longrightarrow> daemon_ok exact X (fresh_daemon d now)"
  by (simp add: daemon_ok_def fresh_daemon_def)

text \<open>C1: a restart takes back exactly the rules that are meant to outlive it.  However requests,
  imports, deletions, prompt answers, flushes and failed database writes interleaved since the
  start, the rules the next start loads are, id by id, the rules the engine held when it stopped,
  without the until-restart ones and the expired ones; and with the same hit counts as last
  flushed when no flush failed.\<close>

theorem restart_takes_back_the_rules:
  assumes "crates_ok X" and "rows_ok (cr_codec X) (cr_serde X) (st_rows st)"
    and "start oks a b c X policy t0 st = Inr d0"
    and "(daemon_step FS exact X K)\<^sup>*\<^sup>* (fresh_daemon d0 t0) d"
    and "dm_clock d \<le> t1" "start oks' a' b' c' X policy' t1 (ru_store (dm_ruled d)) = Inr d1"
  shows "rel_option (same_rule exact)
    (still_lasting (cr_ext X) t1 (find_rule (e_rules (ru_engine (dm_ruled d))) rid))
    (find_rule (e_rules (ru_engine d1)) rid)"
proof -
  have "daemon_ok exact X d"
    by (rule daemon_run_ok [OF assms(1,4) fresh_daemon_ok [OF start_loads(2) [OF assms(1-3)]]])
  then have m: "mirrors exact X (dm_clock d) (dm_ruled d)" by (simp add: daemon_ok_def)
  show ?thesis
    unfolding start_loads(1) [OF assms(1) mirrorsD(1) [OF m] assms(6)]
    by (rule tied_lasting [OF mirrorsD(3) [OF m] assms(5)])
qed

text \<open>A daemon on an empty table; root adds a timed rule, the write is committed, a later restart
  still has it.\<close>

definition example_crates :: "rule option crates" where
  "example_crates =
     \<lparr>cr_ext = \<lparr>ipnet_contains = (\<lambda>_ _. True), dt_millis = dt_instant\<rparr>, cr_codec = example_codec, cr_serde = example_serde\<rparr>"

definition example_call :: call_env where
  "example_call =
     \<lparr>ce_auth = \<lparr>ae_start_before = (\<lambda>_. None), ae_status = (\<lambda>_. None), ae_start_after = (\<lambda>_. None),
        ae_official = (\<lambda>_ _. Inl ''not official''), ae_polkit = (\<lambda>_ _. Inl ''dismissed'')\<rparr>,
      ce_fs = example_fs, ce_stamp = (Uuid 1, DateTime 9)\<rparr>"

definition example_control :: control where
  "example_control =
     \<lparr>co_group = ''colony-firewall'', co_group_gid = Some 950, co_require_group = True, co_own_uid = 0, co_official_clients = []\<rparr>"

definition root_peer :: peer where
  "root_peer = \<lparr>peer_uid = 0, peer_gid = 0, peer_pid = Some 10, peer_starttime = Some 3, peer_sock_ino = None\<rparr>"

definition example_timed_rule :: rule where
  "example_timed_rule =
     (new_rule (Uuid 7, DateTime 5) ''mail'' Deny (any_scope\<lparr>s_dst_port := Some 25, s_exe_path := Some ''/opt/tool''\<rparr>))\<lparr>r_duration := Seconds 90\<rparr>"

lemma example_crates_ok: "crates_ok example_crates"
  by (simp add: crates_ok_def example_crates_def example_codec_ok example_serde_ok)

lemma example_fs_ok: "fs_ok example_fs"
proof -
  have "path_text (path_components ''/opt'') = ''/opt''" by code_simp
  then show ?thesis by (simp add: fs_ok_def example_fs_def)
qed

lemma example_timed_rule_wire: "wire_rule example_timed_rule"
  by (simp add: wire_rule_def wire_scope_def example_timed_rule_def new_rule_def any_scope_def gates_accept_iff
      MAX_EXE_PATH_LEN_def UNKNOWN_EXE_def is_absolute_def reject_unscoped_def specificity_def narrows_def)

lemma example_persistable:
  "persistable_rule example_codec (Uuid 1, DateTime 9) (rule_to_pb example_codec example_timed_rule) = Inr example_timed_rule"
proof -
  have w: "wire_scope (r_scope example_timed_rule)" using example_timed_rule_wire by (simp add: wire_rule_def)
  have "rule_from_pb example_codec (Uuid 1, DateTime 9) (rule_to_pb example_codec example_timed_rule) = Inr example_timed_rule"
    unfolding rule_from_pb_Inr
    using scope_roundtrip [OF example_codec_ok w] w example_codec_ok
    by (simp add: rule_to_pb_def wire_scope_def gates_accept_def check_scope_Inr codec_ok_def created_from_pb_def action_from_pb_Inr)
       (simp add: example_timed_rule_def new_rule_def example_codec_def timed_from_pb_def min_def less_eq_datetime_def)
  then show ?thesis
    by (simp add: persistable_rule_def reject_unpersistable_duration_def) (simp add: example_timed_rule_def)
qed

lemma example_upsert:
  "upsert_rpc example_crates example_call example_control root_peer
     (Some (rule_to_pb example_codec example_timed_rule)) eng = Inr example_timed_rule"
proof -
  have "authorize (ce_auth example_call) example_control root_peer Change = Inr root_peer"
    by (simp add: authorize_iff privileged_def root_peer_def)
  moreover have "confirm_generic_allow A K peer example_timed_rule = Inr ()" for A K peer
    by (simp add: confirm_iff opens_for_every_program_def example_timed_rule_def new_rule_def)
  moreover have "settle_exe example_fs rules example_timed_rule = Inr example_timed_rule" for rules
  proof -
    have "resolve_exe_policy example_fs ''/opt/tool'' = Inr (Missing ''/opt/tool'')" by code_simp
    then show ?thesis by (simp add: settle_exe_def resolve_exe_def example_timed_rule_def new_rule_def any_scope_def)
  qed
  ultimately show ?thesis
    using example_persistable
    by (simp add: upsert_rpc_def upsert_prepare_def example_crates_def) (simp add: example_call_def)
qed

definition example_store :: "rule option store" where
  "example_store = empty_store\<lparr>st_version := 1\<rparr>"

definition example_start :: "rule option ruled" where
  "example_start = \<lparr>ru_engine = new_engine [] (profile_policy Strict), ru_store = example_store\<rparr>"

definition example_after :: "rule option ruled" where
  "example_after = commit True example_crates (Upsert example_timed_rule) example_start"

lemma example_opens: "open_store (\<lambda>_. True) True True E S now example_store = (Inr (), example_store)"
  by (simp add: migrate.simps example_store_def empty_store_def SCHEMA_VERSION_def purge_transient_def purge_expired_def
      purge_where_def Let_def)

lemma example_starts: "start (\<lambda>_. True) True True True X (profile_policy Strict) now example_store = Inr example_start"
proof -
  have "load_snapshot S example_store = ([], example_store)" for S :: "rule option serde"
    by (simp add: load_snapshot_def load_rows_def example_store_def empty_store_def)
  then show ?thesis unfolding start.simps example_opens by (simp add: snapshot_db_def example_start_def)
qed

lemma example_daemon_run:
  "(daemon_step (\<lambda>F. F = example_fs) True example_crates example_control)\<^sup>*\<^sup>* (fresh_daemon example_start 9)
     ((fresh_daemon example_start 9)\<lparr>dm_ruled := example_after\<rparr>)"
proof -
  let ?d = "fresh_daemon example_start 9"
  let ?d1 = "?d\<lparr>dm_inflight := [Upsert example_timed_rule]\<rparr>"
  have "ce_fs example_call = example_fs" "fs_ok (ce_fs example_call)" using example_fs_ok by (simp_all add: example_call_def)
  from daemon_step.begin_upsert [of "\<lambda>F. F = example_fs", OF this example_upsert, of True ?d]
  have "daemon_step (\<lambda>F. F = example_fs) True example_crates example_control ?d ?d1" by (simp add: fresh_daemon_def)
  moreover have "daemon_step (\<lambda>F. F = example_fs) True example_crates example_control ?d1 (?d\<lparr>dm_ruled := example_after\<rparr>)"
    using daemon_step.commit_write [of "Upsert example_timed_rule" ?d1 "\<lambda>F. F = example_fs" True example_crates example_control True]
    by (simp add: fresh_daemon_def example_after_def)
  ultimately show ?thesis by (meson rtranclp.rtrancl_into_rtrancl rtranclp.rtrancl_refl)
qed

lemma example_after_eq:
  "example_after =
     \<lparr>ru_engine = upsert_rule example_timed_rule (new_engine [] (profile_policy Strict)),
      ru_store = example_store\<lparr>st_rows := [row_of example_codec example_serde example_timed_rule]\<rparr>\<rparr>"
proof -
  have host: "s_dst_host (r_scope example_timed_rule) = None"
    by (simp add: example_timed_rule_def new_rule_def any_scope_def)
  have none: "e_rules (new_engine [] (profile_policy Strict)) = []" by (simp add: new_engine_def sort_deterministic_def)
  then have "snapshot (new_engine [] (profile_policy Strict)) = []" by (simp add: snapshot_def fold_hits_def)
  then have "\<not> becomes_always (snapshot (new_engine [] (profile_policy Strict))) example_timed_rule"
    unfolding becomes_always_def by simp
  moreover have "preserve_server_owned (new_engine [] (profile_policy Strict)) example_timed_rule = example_timed_rule"
    unfolding preserve_server_owned_def none by (simp add: find_rule_def)
  ultimately show ?thesis
    unfolding example_after_def example_start_def commit.simps upsert_commit_def
    by (simp add: upsert_db_def reject_hostname_policy_def host store_then_def put_row_def example_store_def
        empty_store_def example_crates_def row_of_def del: profile_policy.simps)
qed

lemma example_after_rules: "e_rules (ru_engine example_after) = [example_timed_rule]"
  by (simp add: example_after_eq new_engine_def upsert_rules_def sort_deterministic_def find_rule_def)

theorem restart_takes_back_the_rules_witness:
  "\<exists>d1. start (\<lambda>_. True) True True True example_crates (profile_policy Strict) 50 (ru_store example_after) = Inr d1 \<and>
     find_rule (e_rules (ru_engine d1)) (Uuid 7) = Some example_timed_rule"
proof -
  have rows: "rows_ok (cr_codec example_crates) (cr_serde example_crates) (st_rows example_store)"
    by (simp add: rows_ok_def keys_distinct_def example_store_def empty_store_def)
  let ?d = "(fresh_daemon example_start 9)\<lparr>dm_ruled := example_after\<rparr>"
  have st: "ru_store example_after = example_store\<lparr>st_rows := [row_of example_codec example_serde example_timed_rule]\<rparr>"
    by (simp add: example_after_eq)
  have last: "lasting (cr_ext example_crates) 50 example_timed_rule"
    by (simp add: lasting_iff is_transient_def is_expired_def example_timed_rule_def new_rule_def example_crates_def)
  have "open_store (\<lambda>_. True) True True (cr_ext example_crates) (cr_serde example_crates) 50 (ru_store example_after) =
      (Inr (), ru_store example_after)"
    using last unfolding st
    by (simp add: migrate.simps example_store_def empty_store_def SCHEMA_VERSION_def purge_transient_def purge_expired_def
        purge_where_def Let_def doomed_def row_of_def example_serde_def example_crates_def lasting_iff)
  then obtain d1 where d1: "start (\<lambda>_. True) True True True example_crates (profile_policy Strict) 50
      (ru_store (dm_ruled ?d)) = Inr d1"
    unfolding start.simps by (simp add: snapshot_db_def fresh_daemon_def)
  have "dm_clock ?d \<le> 50" by (simp add: fresh_daemon_def)
  from restart_takes_back_the_rules [OF example_crates_ok rows example_starts example_daemon_run this d1, of "Uuid 7"]
  have "rel_option (same_rule True) (still_lasting (cr_ext example_crates) 50
      (find_rule (e_rules (ru_engine example_after)) (Uuid 7))) (find_rule (e_rules (ru_engine d1)) (Uuid 7))"
    by (simp add: fresh_daemon_def)
  moreover have "find_rule (e_rules (ru_engine example_after)) (Uuid 7) = Some example_timed_rule"
    unfolding example_after_rules by (simp add: find_rule_def example_timed_rule_def new_rule_def)
  ultimately have "find_rule (e_rules (ru_engine d1)) (Uuid 7) = Some example_timed_rule"
    using last by (auto simp: still_lasting_def same_rule_def option_rel_Some1)
  with d1 show ?thesis by (auto simp: fresh_daemon_def)
qed

section \<open>What the engine may hold\<close>

text \<open>A rule loaded from the table at the start, up to what flushes and edits keep.\<close>

definition from_table :: "'j crates \<Rightarrow> 'j store \<Rightarrow> rule \<Rightarrow> bool" where
  "from_table X st r \<longleftrightarrow> (\<exists>q. stored (cr_codec X) (cr_serde X) (st_rows st) (r_id r) = Some q \<and>
     r_scope r = r_scope q \<and> r_action r = r_action q \<and> r_duration r = r_duration q)"

text \<open>The executable a rule names was vetted on one of the file systems of the run, or the rule edits
  one the table already held under the same id with the same executable.\<close>

definition exe_vouched :: "(fs \<Rightarrow> bool) \<Rightarrow> 'j crates \<Rightarrow> 'j store \<Rightarrow> rule \<Rightarrow> bool" where
  "exe_vouched FS X st r \<longleftrightarrow>
     (\<forall>p. s_exe_path (r_scope r) = Some p \<longrightarrow>
        (\<exists>F. FS F \<and> exe_vetted F p) \<or>
        (\<exists>q p'. stored (cr_codec X) (cr_serde X) (st_rows st) (r_id r) = Some q \<and>
           s_exe_path (r_scope q) = Some p' \<and> path_eq p' p))"

definition sanctioned :: "(fs \<Rightarrow> bool) \<Rightarrow> 'j crates \<Rightarrow> 'j store \<Rightarrow> rule \<Rightarrow> bool" where
  "sanctioned FS X st r \<longleftrightarrow> r_duration r \<noteq> Once \<and> scope_vetted (r_scope r) \<and> exe_vouched FS X st r"

definition admitted :: "(fs \<Rightarrow> bool) \<Rightarrow> 'j crates \<Rightarrow> 'j store \<Rightarrow> rule \<Rightarrow> bool" where
  "admitted FS X st r \<longleftrightarrow> sanctioned FS X st r \<or> from_table X st r"

definition all_admitted :: "(fs \<Rightarrow> bool) \<Rightarrow> 'j crates \<Rightarrow> 'j store \<Rightarrow> engine \<Rightarrow> bool" where
  "all_admitted FS X st eng \<longleftrightarrow> (\<forall>rid r. find_rule (e_rules eng) rid = Some r \<longrightarrow> admitted FS X st r)"

fun written :: "rule_write \<Rightarrow> rule list" where
  "written (Upsert r) = [r]"
| "written (Import rs repl) = rs"
| "written (Persist r) = [r]"

definition all_sanctioned :: "(fs \<Rightarrow> bool) \<Rightarrow> 'j crates \<Rightarrow> 'j store \<Rightarrow> rule_write list \<Rightarrow> bool" where
  "all_sanctioned FS X st ws \<longleftrightarrow> (\<forall>w \<in> set ws. \<forall>r \<in> set (written w). sanctioned FS X st r)"

lemma admitted_hits [simp]: "admitted FS X st (with_hits inc r) = admitted FS X st r"
  by (cases inc) (simp_all add: admitted_def from_table_def sanctioned_def exe_vouched_def)

lemma sanctioned_preserve [simp]:
  "sanctioned FS X st (preserve_server_owned eng r) = sanctioned FS X st r"
  by (simp add: sanctioned_def exe_vouched_def preserve_keeps)

subsection \<open>What a write carries\<close>

lemma admitted_exe:
  assumes "admitted FS X st old" "r_id old = r_id r" "s_exe_path (r_scope old) = Some q" "path_eq q p"
    "s_exe_path (r_scope r) = Some p"
  shows "exe_vouched FS X st r"
  using assms(1)
proof (unfold admitted_def, elim disjE)
  assume "sanctioned FS X st old"
  then consider F where "FS F" "exe_vetted F q" | r0 p0 where
      "stored (cr_codec X) (cr_serde X) (st_rows st) (r_id old) = Some r0"
      "s_exe_path (r_scope r0) = Some p0" "path_eq p0 q"
    using assms(3) by (auto simp: sanctioned_def exe_vouched_def)
  then show ?thesis
  proof cases
    case 1
    with exe_vetted_spelling [OF _ path_eq_sym [OF assms(4)]] assms(5) show ?thesis by (auto simp: exe_vouched_def)
  next
    case 2
    with assms(2,5) path_eq_trans [OF 2(3) assms(4)] show ?thesis by (auto simp: exe_vouched_def)
  qed
next
  assume "from_table X st old"
  with assms(2-5) show ?thesis by (auto simp: from_table_def exe_vouched_def)
qed

lemma settled_vouched:
  assumes "engine_ok eng" "all_admitted FS X st eng" "FS F" "exe_settled F (snapshot eng) r"
  shows "exe_vouched FS X st r"
proof -
  have adm: "admitted FS X st old" if "old \<in> set (snapshot eng)" for old
  proof -
    have "distinct_ids (snapshot eng)" using engine_ok_ids [OF assms(1)] by (simp add: snapshot_def)
    then have "find_rule (snapshot eng) (r_id old) = Some old" using find_rule_distinct that by simp
    then obtain z where z: "find_rule (e_rules eng) (r_id old) = Some z" "with_hits (e_hits eng (r_id old)) z = old"
      by (auto simp: snapshot_def find_drained)
    have "admitted FS X st (with_hits (e_hits eng (r_id old)) z)" using assms(2) z(1) by (simp add: all_admitted_def)
    with z(2) show ?thesis by simp
  qed
  show ?thesis
  proof (cases "s_exe_path (r_scope r)")
    case None
    then show ?thesis by (simp add: exe_vouched_def)
  next
    case (Some p)
    with assms(4) consider "exe_vetted F p" | old q where "old \<in> set (snapshot eng)" "r_id old = r_id r"
        "s_exe_path (r_scope old) = Some q" "path_eq q p"
      by (auto simp: exe_settled_def)
    then show ?thesis
    proof cases
      case 1
      with assms(3) Some show ?thesis by (auto simp: exe_vouched_def)
    next
      case 2
      from admitted_exe [OF adm [OF 2(1)] 2(2-4) Some] show ?thesis .
    qed
  qed
qed

lemma vetted_vouched: "FS F \<Longrightarrow> exe_settled F [] r \<Longrightarrow> exe_vouched FS X st r"
  by (auto simp: exe_settled_def exe_vouched_def)

subsection \<open>Every step\<close>

lemma admitted_upsert:
  assumes "engine_ok eng" "all_admitted FS X st eng" "sanctioned FS X st r"
  shows "all_admitted FS X st (upsert_rule r eng)"
  using assms(2,3) rule_set.find_put [OF engine_ok_ids [OF assms(1)], of r]
  by (simp add: all_admitted_def admitted_def)

lemma admitted_remove:
  assumes "engine_ok eng" "all_admitted FS X st eng"
  shows "all_admitted FS X st (remove_rule rid eng)"
  using assms(2) rule_set.find_delete [OF engine_ok_ids [OF assms(1)], of rid]
  by (simp add: all_admitted_def)

lemma admitted_batch:
  assumes "engine_ok eng" "all_admitted FS X st eng" "\<forall>r \<in> set rs. sanctioned FS X st r" "distinct_ids rs"
  shows "all_admitted FS X st (apply_batch rs repl eng)"
  unfolding all_admitted_def find_apply_batch [OF assms(4,1)]
  using assms(2,3) find_rule_Some [of rs] by (auto simp: all_admitted_def admitted_def split: option.splits if_splits)

lemma admitted_tick:
  assumes "engine_ok (ru_engine d)" "all_admitted FS X st (ru_engine d)"
  shows "all_admitted FS X st (ru_engine (flush_tick ok_merge ok_purge X now now' incs d))"
proof -
  let ?eng = "snd (drain_hits (ru_engine d))"
  have drained: "all_admitted FS X st ?eng"
    using assms(2) by (auto simp: all_admitted_def find_drained)
  have "all_admitted FS X st (notify_rules_expired E now' ?eng)" for E
    using drained find_rule_filter [OF engine_ok_ids [OF engine_ok_keeps(4) [OF assms(1)]]]
    by (auto simp: all_admitted_def split: option.splits if_splits)
  with drained show ?thesis by (simp add: flush_tick_def Let_def)
qed

lemma store_then_engine:
  "ru_engine (snd (store_then d res next)) = (case fst res of Inl e \<Rightarrow> ru_engine d | Inr x \<Rightarrow> next x)"
  by (simp add: store_then_def split: prod.split sum.split)

lemma admitted_commit:
  assumes "engine_ok (ru_engine d)" "all_admitted FS X st (ru_engine d)" "write_ok w"
    "\<forall>r \<in> set (written w). sanctioned FS X st r"
  shows "all_admitted FS X st (ru_engine (commit ok X w d))"
proof (cases w)
  case (Upsert r)
  then show ?thesis using assms admitted_upsert [OF assms(1,2)]
    by (auto simp: upsert_commit_def store_then_engine Let_def split: sum.split)
next
  case (Import rs repl)
  then show ?thesis using assms admitted_batch [OF assms(1,2)]
    by (auto simp: import_commit_def store_then_engine split: sum.split)
next
  case (Persist r)
  then show ?thesis using assms admitted_upsert [OF assms(1,2)]
    by (auto simp: persist_commit_def store_then_engine split: sum.split)
qed

lemma begun_sanctioned:
  assumes "daemon_step FS exact X K d d'" "daemon_ok exact X d" "all_admitted FS X st (ru_engine (dm_ruled d))"
    "all_sanctioned FS X st (dm_inflight d)"
  shows "all_sanctioned FS X st (dm_inflight d')"
proof -
  have eng: "engine_ok (ru_engine (dm_ruled d))" using assms(2) by (simp add: daemon_ok_def mirrors_def)
  note vouch = settled_vouched [OF eng assms(3)]
  from assms(1) show ?thesis
  proof (cases rule: daemon_step.cases)
    case (begin_upsert V peer proto r)
    then obtain peer' where "upsert_prepare X V K peer' proto (ru_engine (dm_ruled d)) = Inr r"
      by (auto simp: upsert_rpc_def bind_result_Inr_iff)
    from upsert_prepare_settled [OF this] begin_upsert vouch storable_vetted inflight_upsert [OF begin_upsert(4,3)]
    have "sanctioned FS X st r" by (simp add: sanctioned_def)
    with begin_upsert(1) assms(4) show ?thesis by (simp add: all_sanctioned_def)
  next
    case (begin_import V peer ms repl rs)
    then have "import_prepare X V ms repl (ru_engine (dm_ruled d)) = Inr rs"
      by (auto simp: import_rpc_def bind_result_Inr_iff)
    from import_prepare_settled [OF this] begin_import(2) vouch storable_vetted inflight_import [OF begin_import(4,3)]
    have "\<forall>r \<in> set rs. sanctioned FS X st r" by (simp add: sanctioned_def)
    with begin_import(1) assms(4) show ?thesis by (simp add: all_sanctioned_def)
  next
    case (begin_persist V peer binding m r)
    note settled = persist_prepare_settled [OF begin_persist(4)]
    have "exe_vouched FS X st r" using vetted_vouched [of FS, OF begin_persist(2)] settled by blast
    with settled storable_vetted [OF persist_prepare_storable [OF begin_persist(3,4)]]
    have "sanctioned FS X st r" by (simp add: sanctioned_def)
    with begin_persist(1) assms(4) show ?thesis by (simp add: all_sanctioned_def)
  next
    case (commit_write w ok)
    with assms(4) set_remove1_subset [of w "dm_inflight d"] show ?thesis by (auto simp: all_sanctioned_def)
  next
    case (client_gone w)
    with assms(4) set_remove1_subset [of w "dm_inflight d"] show ?thesis by (auto simp: all_sanctioned_def)
  qed (use assms(4) in simp_all)
qed

lemma admitted_step:
  assumes "daemon_step FS exact X K d d'" "daemon_ok exact X d" "all_admitted FS X st (ru_engine (dm_ruled d))"
    "all_sanctioned FS X st (dm_inflight d)"
  shows "all_admitted FS X st (ru_engine (dm_ruled d'))"
proof -
  have eng: "engine_ok (ru_engine (dm_ruled d))" and w: "\<forall>w \<in> set (dm_inflight d). write_ok w"
    using assms(2) by (simp_all add: daemon_ok_def mirrors_def)
  note keep = assms(3) [unfolded all_admitted_def]
  from assms(1) show ?thesis
  proof (cases rule: daemon_step.cases)
    case (commit_write w ok)
    with assms(3,4) w admitted_commit [OF eng, of FS X st w ok] show ?thesis by (simp add: all_sanctioned_def)
  next
    case (delete_rule ok rid)
    with assms(3) admitted_remove [OF eng] show ?thesis
      by (auto simp: delete_commit_def store_then_engine split: sum.split)
  next
    case (flush ok_merge incs now now' ok_purge)
    with assms(3) admitted_tick [OF eng] show ?thesis by simp
  qed (use keep in \<open>simp_all add: with_engine_def all_admitted_def\<close>)
qed

text \<open>C17: every rule the engine ever holds has passed the gates.  In every run from a start on, a rule
  of the engine was either loaded from the table at the start, with its scope, action and duration
  unchanged since, and then names a host (which only rows of an older build do) or passes every
  check of the scope; or it was written during the run, and then it is no rule for one connection
  only, narrows something, names neither host nor parent nor unnumbered protocol, asks of an inbound
  flow only what an inbound flow can answer, and the executable it names, if any, is an absolute
  path that was vetted on the file system as some call of the run saw it (it was there under its
  own canonical name, or absent below a real directory and not reached through an alias), or is the
  one that the row the table held under the same id at the start already named.\<close>

theorem engine_rules_passed_the_gates:
  assumes "crates_ok X" and "rows_ok (cr_codec X) (cr_serde X) (st_rows st)"
    and "start oks a b c X policy t0 st = Inr d0"
    and "(daemon_step FS exact X K)\<^sup>*\<^sup>* (fresh_daemon d0 t0) d"
    and "r \<in> set (e_rules (ru_engine (dm_ruled d)))"
  shows "(r_duration r \<noteq> Once \<and> scope_vetted (r_scope r) \<and> exe_vouched FS X st r) \<or>
    from_table X st r \<and> (s_dst_host (r_scope r) \<noteq> None \<or> check_scope (r_scope r) = Inr ())"
proof -
  note started = start_loads [OF assms(1-3)]
  have start: "all_admitted FS X st (ru_engine d0)"
    unfolding all_admitted_def started(1) still_lasting_def admitted_def from_table_def
    using stored_id [OF _ assms(2)] assms(1) by (auto simp: crates_ok_def split: option.splits if_splits)
  from assms(4) have "daemon_ok exact X d \<and> all_admitted FS X st (ru_engine (dm_ruled d)) \<and>
      all_sanctioned FS X st (dm_inflight d)"
  proof (induction rule: rtranclp_induct)
    case base
    show ?case using start fresh_daemon_ok [OF started(2)] by (simp add: fresh_daemon_def all_sanctioned_def)
  next
    case (step d d')
    then show ?case using daemon_step_ok [OF assms(1)] admitted_step begun_sanctioned by blast
  qed
  then have "engine_ok (ru_engine (dm_ruled d))" and adm: "all_admitted FS X st (ru_engine (dm_ruled d))"
    by (simp_all add: daemon_ok_def mirrors_def)
  then have "find_rule (e_rules (ru_engine (dm_ruled d))) (r_id r) = Some r"
    using find_rule_distinct [OF engine_ok_ids assms(5)] by simp
  with adm have "admitted FS X st r" unfolding all_admitted_def by blast
  then show ?thesis unfolding admitted_def sanctioned_def from_table_def using stored_gated by fastforce
qed

theorem engine_rules_passed_the_gates_witness:
  "\<exists>d. (daemon_step (\<lambda>F. F = example_fs) True example_crates example_control)\<^sup>*\<^sup>* (fresh_daemon example_start 9) d \<and>
     e_rules (ru_engine (dm_ruled d)) = [example_timed_rule] \<and>
     s_exe_path (r_scope example_timed_rule) = Some ''/opt/tool'' \<and> exe_vetted example_fs ''/opt/tool''"
proof -
  let ?d = "(fresh_daemon example_start 9)\<lparr>dm_ruled := example_after\<rparr>"
  have rows: "rows_ok (cr_codec example_crates) (cr_serde example_crates) (st_rows example_store)"
    by (simp add: rows_ok_def keys_distinct_def example_store_def empty_store_def)
  have rules: "e_rules (ru_engine (dm_ruled ?d)) = [example_timed_rule]"
    by (simp add: example_after_rules fresh_daemon_def)
  then have "example_timed_rule \<in> set (e_rules (ru_engine (dm_ruled ?d)))" by simp
  note gates = engine_rules_passed_the_gates [OF example_crates_ok rows example_starts example_daemon_run this]
  have none: "stored C S (st_rows example_store) rid = None" for C and S :: "rule option serde" and rid
    by (simp add: stored_def example_store_def empty_store_def)
  have exe: "s_exe_path (r_scope example_timed_rule) = Some ''/opt/tool''"
    by (simp add: example_timed_rule_def new_rule_def)
  with gates have "exe_vetted example_fs ''/opt/tool''"
    by (auto simp: from_table_def exe_vouched_def none)
  with exe rules example_daemon_run show ?thesis by blast
qed

end
