(* ===== verification/Pause.thy ===== *)
theory Pause
  imports Stats
begin

text \<open>
  Pausing: \<open>set_paused\<close> of \<open>stats.rs\<close>, the \<open>SetPaused\<close> call of \<open>ipc/mod.rs\<close> and the timer it
  spawns.  Each runs as a task on the shared counters; a step is one atomic access.  A second
  relation runs each \<open>Stats::set_paused\<close> (the flag, then the generation) as one step.
\<close>

section \<open>How long\<close>

definition MAX_PAUSE_SECS :: u64 where "MAX_PAUSE_SECS = 86400"

definition requested_pause_secs :: "u32 \<Rightarrow> u64 \<Rightarrow> u64" where
  "requested_pause_secs duration_secs default_secs = (if duration_secs = 0 then default_secs else ucast duration_secs)"

definition resolve_pause_secs :: "u32 \<Rightarrow> u64 \<Rightarrow> u64" where
  "resolve_pause_secs duration_secs default_secs = max 1 (min MAX_PAUSE_SECS (requested_pause_secs duration_secs default_secs))"

definition resume_time :: "int \<Rightarrow> u64 \<Rightarrow> int" where
  "resume_time now secs = now + uint secs * 1000"

section \<open>Tasks\<close>

text \<open>The points a call, and the timer a pause spawns, can be at.  A timer that has found its own
  generation and the flag set goes on as a resuming call.\<close>

datatype pause_task =
    PauseCall u64 int
  | PauseFlagged u64 int
  | PauseCounted u64 int u64
  | PauseTimer u64 u64
  | TimerMatched
  | ResumeCall
  | ResumeFlagged
  | ResumeCounted

record pauser =
  pz_stats :: stats
  pz_resume_at :: int
  pz_tasks :: "pause_task list"

definition new_pauser :: pauser where
  "new_pauser = \<lparr>pz_stats = new_stats, pz_resume_at = 0, pz_tasks = []\<rparr>"

text \<open>\<open>SetPaused\<close> as it begins; the clock is read before the flag is stored.\<close>

definition pause_request :: "u32 \<Rightarrow> u64 \<Rightarrow> int \<Rightarrow> pause_task" where
  "pause_request duration_secs default_secs now =
     (let secs = resolve_pause_secs duration_secs default_secs in PauseCall secs (resume_time now secs))"

definition store_flag :: "bool \<Rightarrow> pauser \<Rightarrow> pauser" where
  "store_flag b s = s\<lparr>pz_stats := (pz_stats s)\<lparr>st_paused := b\<rparr>\<rparr>"

definition bump :: "pauser \<Rightarrow> pauser" where
  "bump s = s\<lparr>pz_stats := (pz_stats s)\<lparr>st_pause_generation := st_pause_generation (pz_stats s) + 1\<rparr>\<rparr>"

fun task_step :: "pause_task \<Rightarrow> pauser \<Rightarrow> pause_task option \<times> pauser" where
  "task_step (PauseCall secs at) s = (Some (PauseFlagged secs at), store_flag True s)"
| "task_step (PauseFlagged secs at) s =
     (let s = bump s in (Some (PauseCounted secs at (st_pause_generation (pz_stats s))), s))"
| "task_step (PauseCounted secs at generation) s = (Some (PauseTimer secs generation), s\<lparr>pz_resume_at := at\<rparr>)"
| "task_step (PauseTimer secs generation) s =
     (if st_pause_generation (pz_stats s) = generation then Some TimerMatched else None, s)"
| "task_step TimerMatched s = (if is_paused (pz_stats s) then Some ResumeCall else None, s)"
| "task_step ResumeCall s = (Some ResumeFlagged, store_flag False s)"
| "task_step ResumeFlagged s = (Some ResumeCounted, bump s)"
| "task_step ResumeCounted s = (None, s\<lparr>pz_resume_at := 0\<rparr>)"

text \<open>The same with \<open>Stats::set_paused\<close> as one step.\<close>

fun whole_step :: "pause_task \<Rightarrow> pauser \<Rightarrow> pause_task option \<times> pauser" where
  "whole_step (PauseCall secs at) s =
     (let (generation, stats) = set_paused True (pz_stats s) in
      (Some (PauseCounted secs at generation), s\<lparr>pz_stats := stats\<rparr>))"
| "whole_step ResumeCall s = (Some ResumeCounted, s\<lparr>pz_stats := snd (set_paused False (pz_stats s))\<rparr>)"
| "whole_step t s = task_step t s"

definition run_task :: "(pause_task \<Rightarrow> pauser \<Rightarrow> pause_task option \<times> pauser) \<Rightarrow> pause_task \<Rightarrow> pauser \<Rightarrow> pauser" where
  "run_task step t s =
     (let (t', s') = step t s in
      s'\<lparr>pz_tasks := (case t' of None \<Rightarrow> [] | Some u \<Rightarrow> [u]) @ remove1 t (pz_tasks s)\<rparr>)"

inductive pause_run :: "(pause_task \<Rightarrow> pauser \<Rightarrow> pause_task option \<times> pauser) \<Rightarrow> pauser \<Rightarrow> bool" for step where
  run_start: "pause_run step new_pauser"
| run_pause: "pause_run step s \<Longrightarrow>
    pause_run step (s\<lparr>pz_tasks := pause_request duration_secs default_secs now # pz_tasks s\<rparr>)"
| run_resume: "pause_run step s \<Longrightarrow> pause_run step (s\<lparr>pz_tasks := ResumeCall # pz_tasks s\<rparr>)"
| run_step: "pause_run step s \<Longrightarrow> t \<in> set (pz_tasks s) \<Longrightarrow> pause_run step (run_task step t s)"

section \<open>A pause ends\<close>

fun task_work :: "pause_task \<Rightarrow> nat" where
  "task_work (PauseCall secs at) = 8"
| "task_work (PauseFlagged secs at) = 7"
| "task_work (PauseCounted secs at g) = 6"
| "task_work (PauseTimer secs g) = 5"
| "task_work TimerMatched = 4"
| "task_work ResumeCall = 3"
| "task_work ResumeFlagged = 2"
| "task_work ResumeCounted = 1"

definition work_left :: "pauser \<Rightarrow> nat" where
  "work_left s = sum_list (map task_work (pz_tasks s))"

text \<open>The tasks that will clear the flag, if nobody does before.\<close>

fun ends_pause :: "u64 \<Rightarrow> pause_task \<Rightarrow> bool" where
  "ends_pause generation (PauseCounted secs at g) = (g = generation)"
| "ends_pause generation (PauseTimer secs g) = (g = generation)"
| "ends_pause generation TimerMatched = True"
| "ends_pause generation ResumeCall = True"
| "ends_pause generation _ = False"

fun pause_length :: "pause_task \<Rightarrow> u64 option" where
  "pause_length (PauseCall secs at) = Some secs"
| "pause_length (PauseFlagged secs at) = Some secs"
| "pause_length (PauseCounted secs at g) = Some secs"
| "pause_length (PauseTimer secs g) = Some secs"
| "pause_length _ = None"

text \<open>No call is between the flag and the generation.\<close>

fun half_set :: "pause_task \<Rightarrow> bool" where
  "half_set (PauseFlagged secs at) = True"
| "half_set ResumeFlagged = True"
| "half_set _ = False"

definition task_ok :: "pause_task \<Rightarrow> bool" where
  "task_ok t \<longleftrightarrow> \<not> half_set t \<and> (\<forall>secs. pause_length t = Some secs \<longrightarrow> 1 \<le> secs \<and> secs \<le> MAX_PAUSE_SECS)"

definition watched :: "pauser \<Rightarrow> bool" where
  "watched s \<longleftrightarrow> (is_paused (pz_stats s) \<longrightarrow>
     (\<exists>t \<in> set (pz_tasks s). ends_pause (st_pause_generation (pz_stats s)) t)) \<and> (\<forall>t \<in> set (pz_tasks s). task_ok t)"

lemma resolve_pause_bounds: "1 \<le> resolve_pause_secs d def \<and> resolve_pause_secs d def \<le> MAX_PAUSE_SECS"
  unfolding resolve_pause_secs_def by (simp add: MAX_PAUSE_SECS_def)

lemma in_run_task:
  "set (pz_tasks (run_task step t s)) =
     (case fst (step t s) of None \<Rightarrow> {} | Some u \<Rightarrow> {u}) \<union> set (remove1 t (pz_tasks s))"
  by (auto simp: run_task_def split: prod.split option.split)

lemma run_task_stats [simp]: "pz_stats (run_task step t s) = pz_stats (snd (step t s))"
  by (simp add: run_task_def split: prod.split)

lemma whole_step_ok: "task_ok t \<Longrightarrow> fst (whole_step t s) = Some u \<Longrightarrow> task_ok u"
  by (cases "(t, s)" rule: whole_step.cases) (auto simp: task_ok_def Let_def split: if_splits prod.splits)

lemma whole_step_ends:
  assumes "\<not> half_set t" "is_paused (pz_stats s) \<longrightarrow> (\<exists>u \<in> set tasks. ends_pause (st_pause_generation (pz_stats s)) u)"
    "is_paused (pz_stats (snd (whole_step t s)))"
  shows "\<exists>u \<in> (case fst (whole_step t s) of None \<Rightarrow> {} | Some u \<Rightarrow> {u}) \<union> set (remove1 t tasks).
    ends_pause (st_pause_generation (pz_stats (snd (whole_step t s)))) u"
proof -
  have keep: "\<exists>u \<in> set (remove1 t tasks). ends_pause g u"
    if "\<exists>u \<in> set tasks. ends_pause g u" "\<not> ends_pause g t" for g
    using that by (metis in_set_remove1)
  show ?thesis
    using assms keep
    by (cases "(t, s)" rule: whole_step.cases)
       (auto simp: is_paused_def set_paused_def Let_def split: if_splits)
qed

lemma watched_step:
  assumes w: "watched s" and t: "t \<in> set (pz_tasks s)"
  shows "watched (run_task whole_step t s)"
proof -
  from w t have ok: "task_ok t" "\<forall>u \<in> set (pz_tasks s). task_ok u" by (simp_all add: watched_def)
  then have "\<not> half_set t" by (simp add: task_ok_def)
  from whole_step_ends [OF this, of s "pz_tasks s"] w
  have "is_paused (pz_stats (run_task whole_step t s)) \<longrightarrow>
      (\<exists>u \<in> set (pz_tasks (run_task whole_step t s)). ends_pause (st_pause_generation (pz_stats (run_task whole_step t s))) u)"
    unfolding in_run_task run_task_stats watched_def by blast
  moreover have "\<forall>u \<in> set (pz_tasks (run_task whole_step t s)). task_ok u"
    unfolding in_run_task using ok whole_step_ok [OF ok(1), of s] set_remove1_subset [of t "pz_tasks s"]
    by (auto split: option.splits)
  ultimately show ?thesis by (simp add: watched_def)
qed

lemma whole_run_watched: "pause_run whole_step s \<Longrightarrow> watched s"
proof (induction rule: pause_run.induct)
  case run_start
  then show ?case by (simp add: watched_def new_pauser_def new_stats_def is_paused_def)
next
  case (run_pause s d def now)
  then show ?case using resolve_pause_bounds by (auto simp: watched_def task_ok_def pause_request_def Let_def)
next
  case (run_resume s)
  then show ?case by (auto simp: watched_def task_ok_def)
next
  case (run_step s t)
  then show ?case by (intro watched_step)
qed

lemma step_works: "fst (whole_step t s) = Some u \<Longrightarrow> task_work u < task_work t"
  by (cases "(t, s)" rule: whole_step.cases) (auto simp: Let_def split: if_splits prod.splits)

lemma task_work_pos: "0 < task_work t"
  by (cases t) simp_all

lemma work_left_decreases:
  assumes "t \<in> set (pz_tasks s)"
  shows "work_left (run_task whole_step t s) < work_left s"
proof -
  have "sum_list (map task_work (pz_tasks s)) = task_work t + sum_list (map task_work (remove1 t (pz_tasks s)))"
    using assms by (simp add: sum_list_map_remove1)
  then show ?thesis
    using step_works [of t s] task_work_pos [of t]
    by (auto simp: work_left_def run_task_def split: prod.split option.split)
qed

text \<open>Running the tasks that are there, in some order, until none is left.\<close>

inductive runs_out :: "(pause_task \<Rightarrow> pauser \<Rightarrow> pause_task option \<times> pauser) \<Rightarrow> pauser \<Rightarrow> pauser \<Rightarrow> bool" for step where
  out_done: "pz_tasks s = [] \<Longrightarrow> runs_out step s s"
| out_step: "t \<in> set (pz_tasks s) \<Longrightarrow> runs_out step (run_task step t s) s' \<Longrightarrow> runs_out step s s'"

lemma runs_out_run: "runs_out step s s' \<Longrightarrow> pause_run step s \<Longrightarrow> pause_run step s' \<and> pz_tasks s' = []"
  by (induction rule: runs_out.induct) (auto intro: run_step)

lemma runs_out_exists: "\<exists>s'. runs_out whole_step s s'"
proof (induction "work_left s" arbitrary: s rule: less_induct)
  case less
  show ?case
  proof (cases "pz_tasks s")
    case Nil
    then show ?thesis using out_done by blast
  next
    case (Cons t ts)
    then have t: "t \<in> set (pz_tasks s)" by simp
    from less [OF work_left_decreases [OF t]] show ?thesis using out_step [OF t] by blast
  qed
qed



section \<open>Between the flag and the generation\<close>

text \<open>The flag and the generation are two atomics.  When a resume stores the flag before a pause
  does and bumps the generation after it, the pause's timer finds a generation that is not its
  own: every call and timer is done and the firewall stays paused.\<close>

theorem overlapping_resume_strands_the_pause:
  "\<exists>s. pause_run task_step s \<and> pz_tasks s = [] \<and> is_paused (pz_stats s)"
proof -
  let ?at = "resume_time 0 60"
  define s1 where "s1 = new_pauser\<lparr>pz_tasks := [ResumeCall, PauseCall 60 ?at]\<rparr>"
  define s2 where "s2 = run_task task_step ResumeCall s1"
  define s3 where "s3 = run_task task_step (PauseCall 60 ?at) s2"
  define s4 where "s4 = run_task task_step (PauseFlagged 60 ?at) s3"
  define s5 where "s5 = run_task task_step ResumeFlagged s4"
  define s6 where "s6 = run_task task_step ResumeCounted s5"
  define s7 where "s7 = run_task task_step (PauseCounted 60 ?at 1) s6"
  define s8 where "s8 = run_task task_step (PauseTimer 60 1) s7"
  note defs = s1_def s2_def s3_def s4_def s5_def s6_def s7_def
  have req: "pause_request 60 300 0 = PauseCall 60 ?at"
    by (simp add: pause_request_def resolve_pause_secs_def requested_pause_secs_def MAX_PAUSE_SECS_def Let_def)
  have "pause_run task_step s1"
    using run_resume [OF run_pause [OF run_start, of task_step 60 300 0]]
    unfolding req s1_def by (simp add: new_pauser_def)
  then have "pause_run task_step s2" unfolding s2_def by (rule run_step) (simp add: s1_def)
  then have "pause_run task_step s3" unfolding s3_def by (rule run_step) (simp add: defs run_task_def)
  then have "pause_run task_step s4" unfolding s4_def by (rule run_step) (simp add: defs run_task_def)
  then have "pause_run task_step s5" unfolding s5_def by (rule run_step) (simp add: defs run_task_def Let_def)
  then have "pause_run task_step s6" unfolding s6_def by (rule run_step) (simp add: defs run_task_def Let_def)
  then have "pause_run task_step s7" unfolding s7_def
    by (rule run_step) (simp add: defs run_task_def Let_def store_flag_def bump_def new_pauser_def new_stats_def)
  then have "pause_run task_step s8" unfolding s8_def
    by (rule run_step) (simp add: defs run_task_def Let_def store_flag_def bump_def new_pauser_def new_stats_def)
  moreover have "pz_tasks s8 = [] \<and> is_paused (pz_stats s8)"
    by (simp add: s8_def defs run_task_def Let_def store_flag_def bump_def new_pauser_def new_stats_def is_paused_def)
  ultimately show ?thesis by blast
qed

end
