(* ===== verification/Service.thy ===== *)
theory Service
  imports Control Pause
begin

text \<open>
  The \<open>FirewallService\<close> of \<open>crates/cfc-daemon/src/ipc/mod.rs\<close>: prompt ownership
  (\<open>PromptAudience\<close>, the prompt stream), \<open>SubmitVerdict\<close>, the read-only calls and the dispatch
  of each RPC through its authorization.  The pause has a theory of its own.
\<close>

section \<open>Prompt ownership\<close>

record audience =
  au_by_prompt :: "u64 \<Rightarrow> u32 list option"
  au_order :: "u64 list"

definition AUDIENCE_CAP :: nat where "AUDIENCE_CAP = 4096"

definition no_audience :: audience where
  "no_audience = \<lparr>au_by_prompt = (\<lambda>_. None), au_order = []\<rparr>"

text \<open>Oldest prompts first out, while more than the cap are remembered.\<close>

function evict :: "audience \<Rightarrow> audience" where
  "evict au =
     (if AUDIENCE_CAP < length (au_order au) then
        (case au_order au of
           [] \<Rightarrow> au
         | old # rest \<Rightarrow> evict (au\<lparr>au_by_prompt := (au_by_prompt au)(old := None), au_order := rest\<rparr>))
      else au)"
  by pat_completeness auto
termination
  by (relation "measure (\<lambda>au. length (au_order au))") auto

declare evict.simps [simp del]

definition audience_record :: "u64 \<Rightarrow> u32 \<Rightarrow> audience \<Rightarrow> audience" where
  "audience_record prompt_id uid au =
     (let first_sighting = (au_by_prompt au prompt_id = None);
          seen = (case au_by_prompt au prompt_id of None \<Rightarrow> [] | Some s \<Rightarrow> s) in
      evict (au\<lparr>au_by_prompt := (au_by_prompt au)(prompt_id \<mapsto> List.insert uid seen),
                au_order := (if first_sighting then au_order au @ [prompt_id] else au_order au)\<rparr>))"

definition audience_allows :: "u64 \<Rightarrow> u32 \<Rightarrow> audience \<Rightarrow> bool" where
  "audience_allows prompt_id uid au \<longleftrightarrow>
     (case au_by_prompt au prompt_id of None \<Rightarrow> False | Some s \<Rightarrow> uid \<in> set s)"

definition audience_forget :: "u64 \<Rightarrow> audience \<Rightarrow> audience" where
  "audience_forget prompt_id au =
     (if au_by_prompt au prompt_id = None then au
      else au\<lparr>au_by_prompt := (au_by_prompt au)(prompt_id := None),
              au_order := filter (\<lambda>i. i \<noteq> prompt_id) (au_order au)\<rparr>)"

text \<open>One event of a prompt stream: skipped, ended with a denial, or handed over.\<close>

datatype stream_outcome = Skipped | Ended denial | Handed

definition stream_event :: "auth_env \<Rightarrow> control \<Rightarrow> peer \<Rightarrow> bool \<Rightarrow> prompt_event \<Rightarrow> audience \<Rightarrow> stream_outcome \<times> audience" where
  "stream_event A K peer answering ev au =
     (if \<not> should_deliver (p_uid (ev_process ev)) (peer_uid peer) then (Skipped, au)
      else
        (case (if answering then standing A K peer else Inr None) of
           Inl denial \<Rightarrow> (Ended denial, au)
         | Inr _ \<Rightarrow>
             (Handed, (case parse_u64 (ev_prompt_id ev) of
                       Some rid \<Rightarrow> if answering then audience_record rid (peer_uid peer) au else au
                     | None \<Rightarrow> au))))"

definition stream_answering :: "auth_env \<Rightarrow> control \<Rightarrow> peer \<Rightarrow> bool" where
  "stream_answering A K peer \<longleftrightarrow> (case standing A K peer of Inl _ \<Rightarrow> False | Inr _ \<Rightarrow> True)"

section \<open>Answering\<close>

record verdict_request =
  vr_prompt_id :: string
  vr_action :: int
  vr_duration :: int
  vr_persist_scope :: "pb_scope option"

text \<open>Up to the standing rule: the reply says whether a prompt was answered, and with which
  binding; the last component is the rule that is still to be prepared and committed.\<close>

definition submit_answer :: "auth_env \<Rightarrow> control \<Rightarrow> peer \<Rightarrow> verdict_request \<Rightarrow> router \<times> audience \<Rightarrow>
    (status + prompt_binding option \<times> (prompt_binding \<times> pb_rule) option) \<times> router \<times> audience" where
  "submit_answer A K peer req sv =
     (case authorize A K peer Change of
        Inl denial \<Rightarrow> (Inl (PermissionDenied denial), sv)
      | Inr peer \<Rightarrow>
          let numeric = parse_u64 (vr_prompt_id req);
              owned = (case numeric of None \<Rightarrow> False | Some rid \<Rightarrow> audience_allows rid (peer_uid peer) (snd sv)) in
          if peer_uid peer \<noteq> 0 \<and> \<not> owned then (Inl (PermissionDenied NotDelivered), sv)
          else
            (case action_from_pb (vr_action req) of
               Inl e \<Rightarrow> (Inl (InvalidArgument (BadConversion e)), sv)
             | Inr action \<Rightarrow>
                 let (binding, router) = submit (vr_prompt_id req) \<lparr>v_action = action, v_source = UserPrompt\<rparr> (fst sv);
                     au = (case numeric of None \<Rightarrow> snd sv | Some rid \<Rightarrow> audience_forget rid (snd sv));
                     persist = (case (binding, vr_persist_scope req) of
                         (Some b, Some scope) \<Rightarrow>
                           Some (b, prompt_rule_pb (vr_prompt_id req) (vr_action req) (vr_duration req) scope)
                       | _ \<Rightarrow> None) in
                 (Inr (binding, persist), router, au)))"

section \<open>The event log, by pages\<close>

record list_events_request =
  le_limit :: u32
  le_offset :: u32
  le_exe_contains :: string
  le_action_filter :: int
  le_since_unix_ms :: int

definition DEFAULT_EVENT_PAGE :: u32 where "DEFAULT_EVENT_PAGE = 100"
definition MAX_EVENT_PAGE :: u32 where "MAX_EVENT_PAGE = 1000"
definition MAX_EVENT_OFFSET :: u32 where "MAX_EVENT_OFFSET = 1000000"

definition page_limit :: "u32 \<Rightarrow> u32" where
  "page_limit limit = (if limit = 0 then DEFAULT_EVENT_PAGE else min limit MAX_EVENT_PAGE)"

definition event_query_from_pb :: "list_events_request \<Rightarrow> conv_error + u32 \<times> u32 \<times> event_filter" where
  "event_query_from_pb req =
     bind_result
       (if le_action_filter req = 0 then Inr None
        else bind_result (action_from_pb (le_action_filter req)) (\<lambda>a. Inr (Some (action_db_str a)))) (\<lambda>action.
       Inr (page_limit (le_limit req), min (le_offset req) MAX_EVENT_OFFSET,
            \<lparr>ef_exe_contains = empty_to_none (le_exe_contains req), ef_action = action,
             ef_since_ts_unix_ms = (if 0 < le_since_unix_ms req then Some (le_since_unix_ms req) else None)\<rparr>))"

definition list_events :: "bool \<Rightarrow> list_events_request \<Rightarrow> 'j store \<Rightarrow> status + pb_event list" where
  "list_events ok req st =
     bind_result (map_err (InvalidArgument \<circ> BadConversion) (event_query_from_pb req)) (\<lambda>(limit, offset, f).
       map_err StatusInternal (bind_result (fst (query_events ok limit offset f st)) (\<lambda>rows.
         Inr (map event_row_to_pb rows))))"

section \<open>Status\<close>

definition ENFORCING_GRACE_SECS :: u64 where "ENFORCING_GRACE_SECS = 60"

definition enforcing_heuristic :: "bool \<Rightarrow> u64 \<Rightarrow> u64 \<Rightarrow> table_presence \<Rightarrow> bool" where
  "enforcing_heuristic dry_run packets_seen uptime_secs table =
     (if dry_run then False
      else
        let starting = (uptime_secs \<le> ENFORCING_GRACE_SECS) in
        case table of
          TablePresent \<Rightarrow> True
        | TableAbsent \<Rightarrow> starting
        | TableUnknown \<Rightarrow> 0 < packets_seen \<or> starting)"

record status_response =
  sr_uptime_seconds :: u64
  sr_rules_count :: nat
  sr_prompts_pending :: u64
  sr_connections_seen :: u64
  sr_connections_allowed :: u64
  sr_connections_denied :: u64
  sr_paused :: bool
  sr_resume_at_unix_ms :: int
  sr_timeout_action :: int
  sr_no_ui_action :: int
  sr_prompt_timeout_secs :: u32
  sr_skipped_rules :: nat
  sr_enforcing :: bool

section \<open>The connection feed\<close>

record connection_event =
  cx_connection :: pb_connection
  cx_process :: pb_process
  cx_verdict :: int
  cx_rule_id :: string

text \<open>What one receive of the feed puts on a client's stream: a lag puts nothing.\<close>

datatype 'o feed_item = Item 'o | FeedLagged u64

definition connection_event_for :: "codec \<Rightarrow> observed \<Rightarrow> connection_event" where
  "connection_event_for C obs =
     \<lparr>cx_connection = connection_to_pb C (obs_connection obs), cx_process = process_to_pb (obs_process obs),
      cx_verdict = verdict_to_pb_action (obs_verdict obs),
      cx_rule_id = none_to_empty (map_option (uuid_show C) (obs_rule_id obs))\<rparr>"

definition connection_stream :: "codec \<Rightarrow> observed feed_item list \<Rightarrow> connection_event list" where
  "connection_stream C received =
     map (connection_event_for C) (concat (map (\<lambda>x. case x of Item obs \<Rightarrow> [obs] | FeedLagged n \<Rightarrow> []) received))"

section \<open>Dispatch\<close>

text \<open>The service behind the socket; a call runs here from its first check to its reply.  What runs
  between the awaits of one call is the subject of \<open>ControlRuns\<close> and \<open>Pause\<close>.\<close>

record 'j service =
  sv_ruled :: "'j ruled"
  sv_router :: router
  sv_audience :: audience
  sv_pause :: pauser

record settings =
  se_control :: control
  se_pause_default_secs :: u64
  se_dry_run :: bool

datatype request =
    UpsertRule "pb_rule option"
  | ApplyRules "((uuid \<times> datetime) \<times> pb_rule) list" bool
  | DeleteRule string
  | SubmitVerdict verdict_request
  | SetPaused bool u32
  | ListRules
  | GetStatus
  | ListEvents list_events_request

datatype response =
    RuleStored string
  | RulesApplied "string list" u32
  | RuleDeleted bool
  | VerdictTaken bool "uuid option" "persist_error option" "status option"
  | PauseChanged bool
  | Rules "pb_rule list"
  | Status status_response
  | Events "pb_event list"

definition get_status :: "settings \<Rightarrow> u64 \<Rightarrow> 'j service \<Rightarrow> status_response" where
  "get_status Z uptime sv =
     (let eng = ru_engine (sv_ruled sv); stats = pz_stats (sv_pause sv); paused = is_paused stats in
      \<lparr>sr_uptime_seconds = uptime, sr_rules_count = rule_count eng,
       sr_prompts_pending = ro_gauge (sv_router sv), sr_connections_seen = st_total stats,
       sr_connections_allowed = st_allowed stats, sr_connections_denied = st_denied stats,
       sr_paused = paused, sr_resume_at_unix_ms = (if paused then pz_resume_at (sv_pause sv) else 0),
       sr_timeout_action = action_to_pb (pol_timeout_action (e_policy eng)),
       sr_no_ui_action = action_to_pb (pol_no_ui_action (e_policy eng)),
       sr_prompt_timeout_secs = pol_prompt_timeout_secs (e_policy eng),
       sr_skipped_rules = skipped_rules (ru_store (sv_ruled sv)),
       sr_enforcing = enforcing_heuristic (se_dry_run Z) (st_total stats) uptime (nft_table stats)\<rparr>)"

definition with_ruled :: "(status + 'a) \<times> 'j ruled \<Rightarrow> ('a \<Rightarrow> response) \<Rightarrow> 'j service \<Rightarrow> (status + response) \<times> 'j service" where
  "with_ruled res reply sv = (bind_result (fst res) (\<lambda>x. Inr (reply x)), sv\<lparr>sv_ruled := snd res\<rparr>)"

definition authorized :: "call_env \<Rightarrow> settings \<Rightarrow> peer \<Rightarrow> access \<Rightarrow> 'j service \<Rightarrow>
    ((status + response) \<times> 'j service) \<Rightarrow> (status + response) \<times> 'j service" where
  "authorized V Z peer level sv rest =
     (case authorize (ce_auth V) (se_control Z) peer level of
        Inl denial \<Rightarrow> (Inl (PermissionDenied denial), sv)
      | Inr _ \<Rightarrow> rest)"

text \<open>The standing rule of an answered prompt: a refusal of the rule is part of the reply.\<close>

definition persist_answer :: "bool \<Rightarrow> 'j crates \<Rightarrow> call_env \<Rightarrow> settings \<Rightarrow> peer \<Rightarrow> prompt_binding \<times> pb_rule \<Rightarrow>
    'j ruled \<Rightarrow> (uuid option \<times> persist_error option \<times> status option) \<times> 'j ruled" where
  "persist_answer ok X V Z peer ask d =
     (case persist_prepare X V (se_control Z) peer (fst ask) (snd ask) of
        Inl e \<Rightarrow> ((None, Some e, None), d)
      | Inr r \<Rightarrow>
          (case persist_commit ok X r d of
             (Inl e, d) \<Rightarrow> ((None, None, Some e), d)
           | (Inr _, d) \<Rightarrow> ((Some (r_id r), None, None), d)))"

fun handle :: "bool \<Rightarrow> 'j crates \<Rightarrow> call_env \<Rightarrow> settings \<Rightarrow> int \<Rightarrow> u64 \<Rightarrow> peer \<Rightarrow> request \<Rightarrow> 'j service \<Rightarrow>
    (status + response) \<times> 'j service" where
  "handle ok X V Z now uptime peer (UpsertRule proto) sv =
     authorized V Z peer Change sv
       (case upsert_prepare X V (se_control Z) peer proto (ru_engine (sv_ruled sv)) of
          Inl e \<Rightarrow> (Inl e, sv)
        | Inr r \<Rightarrow> with_ruled (upsert_commit ok X r (sv_ruled sv)) (\<lambda>_. RuleStored (uuid_show (cr_codec X) (r_id r))) sv)"
| "handle ok X V Z now uptime peer (ApplyRules ms repl) sv =
     authorized V Z peer (Elevated IMPORT_RULES) sv
       (case import_prepare X V ms repl (ru_engine (sv_ruled sv)) of
          Inl e \<Rightarrow> (Inl e, sv)
        | Inr rs \<Rightarrow> with_ruled (import_commit ok X rs repl (sv_ruled sv))
            (\<lambda>removed. RulesApplied (map (\<lambda>r. uuid_show (cr_codec X) (r_id r)) rs)
               (if removed < 2 ^ 32 then word_of_nat removed else - 1)) sv)"
| "handle ok X V Z now uptime peer (DeleteRule id_str) sv =
     authorized V Z peer Change sv
       (case uuid_parse (cr_codec X) id_str of
          None \<Rightarrow> (Inl (InvalidArgument (BadUuid id_str)), sv)
        | Some rid \<Rightarrow> with_ruled (delete_commit ok X rid (sv_ruled sv)) RuleDeleted sv)"
| "handle ok X V Z now uptime peer (SubmitVerdict req) sv =
     (case submit_answer (ce_auth V) (se_control Z) peer req (sv_router sv, sv_audience sv) of
        (Inl e, router, au) \<Rightarrow> (Inl e, sv\<lparr>sv_router := router, sv_audience := au\<rparr>)
      | (Inr (binding, ask), router, au) \<Rightarrow>
          let sv = sv\<lparr>sv_router := router, sv_audience := au\<rparr> in
          (case ask of
             None \<Rightarrow> (Inr (VerdictTaken (binding \<noteq> None) None None None), sv)
           | Some ask \<Rightarrow>
               let ((rid, refused, failed), d) = persist_answer ok X V Z peer ask (sv_ruled sv) in
               (Inr (VerdictTaken (binding \<noteq> None) rid refused failed), sv\<lparr>sv_ruled := d\<rparr>)))"
| "handle ok X V Z now uptime peer (SetPaused paused secs) sv =
     authorized V Z peer (Elevated PAUSE) sv
       (let t = (if paused then pause_request secs (se_pause_default_secs Z) now else ResumeCall) in
        (Inr (PauseChanged paused), sv\<lparr>sv_pause := (sv_pause sv)\<lparr>pz_tasks := t # pz_tasks (sv_pause sv)\<rparr>\<rparr>))"
| "handle ok X V Z now uptime peer ListRules sv =
     authorized V Z peer ReadOnly sv
       (Inr (Rules (map (rule_to_pb (cr_codec X)) (snapshot (ru_engine (sv_ruled sv))))), sv)"
| "handle ok X V Z now uptime peer GetStatus sv =
     authorized V Z peer ReadOnly sv (Inr (Status (get_status Z uptime sv)), sv)"
| "handle ok X V Z now uptime peer (ListEvents req) sv =
     authorized V Z peer ReadOnly sv
       (bind_result (list_events ok req (ru_store (sv_ruled sv))) (\<lambda>es. Inr (Events es)), sv)"

section \<open>Only the entitled change the firewall\<close>

text \<open>The polkit action a request needs of an official client.\<close>

fun elevation :: "request \<Rightarrow> string option" where
  "elevation (ApplyRules ms repl) = Some IMPORT_RULES"
| "elevation (SetPaused paused secs) = Some PAUSE"
| "elevation _ = None"

definition entitled :: "call_env \<Rightarrow> settings \<Rightarrow> peer \<Rightarrow> request \<Rightarrow> bool" where
  "entitled V Z peer req \<longleftrightarrow>
     privileged (se_control Z) peer \<or>
     official_client (ce_auth V) (se_control Z) peer \<and>
       (\<forall>a. elevation req = Some a \<longrightarrow> ae_polkit (ce_auth V) peer a = Inr ())"

lemma authorized_changes:
  assumes "snd (authorized V Z peer level sv rest) \<noteq> sv"
  shows "authorize (ce_auth V) (se_control Z) peer level = Inr peer \<and> authorized V Z peer level sv rest = rest"
proof (cases "authorize (ce_auth V) (se_control Z) peer level")
  case (Inl d)
  with assms show ?thesis by (simp add: authorized_def)
next
  case (Inr q)
  then have "q = peer" by (simp add: authorize_iff)
  with Inr show ?thesis by (simp add: authorized_def)
qed

lemma authorized_read: "snd rest = sv \<Longrightarrow> snd (authorized V Z peer level sv rest) = sv"
  by (simp add: authorized_def split: sum.split)

lemma handle_entitled:
  assumes "snd (handle ok X V Z now uptime peer req sv) \<noteq> sv"
  shows "entitled V Z peer req"
proof (cases req)
  case (SubmitVerdict vr)
  have "authorize (ce_auth V) (se_control Z) peer Change = Inr peer"
  proof (cases "authorize (ce_auth V) (se_control Z) peer Change")
    case (Inl d)
    with assms SubmitVerdict show ?thesis by (simp add: submit_answer_def)
  next
    case (Inr q)
    then show ?thesis by (simp add: authorize_iff)
  qed
  then show ?thesis using SubmitVerdict by (simp add: entitled_def authorize_iff)
qed (use assms in \<open>auto simp: entitled_def authorize_iff authorized_read dest: authorized_changes\<close>)

text \<open>The scopes that are open to every program.\<close>

definition opened :: "engine \<Rightarrow> rule_scope set" where
  "opened eng = r_scope ` {r \<in> set (e_rules eng). opens_for_every_program r}"

lemma set_upsert_rules: "set (upsert_rules r rules) \<subseteq> insert r (set rules)"
proof -
  have "set (update_first r rules) \<subseteq> insert r (set rules)" by (induction rules) auto
  then show ?thesis by (auto simp: upsert_rules_def split: option.split)
qed

lemma opened_upsert: "\<not> opens_for_every_program r \<Longrightarrow> opened (upsert_rule r eng) \<subseteq> opened eng"
  using set_upsert_rules [of r "e_rules eng"] by (auto simp: opened_def)

lemma opened_remove: "opened (remove_rule rid eng) \<subseteq> opened eng"
  by (auto simp: opened_def)

lemma resolve_exe_names: "resolve_exe F s = Inr s' \<Longrightarrow> names_program s' = names_program s"
  by (auto simp: resolve_exe_def names_program_def bind_result_Inr_iff split: option.splits)

lemma opens_settled: "settle_exe F rules r = Inr q \<Longrightarrow> opens_for_every_program q = opens_for_every_program r"
  by (auto simp: settle_exe_def opens_for_every_program_def bind_result_Inr_iff dest: resolve_exe_names split: if_splits)

lemma opens_bound: "bind_prompt_allow r b = Inr q \<Longrightarrow> opens_for_every_program q \<Longrightarrow> opens_for_every_program r"
  by (auto simp: bind_prompt_allow_def opens_for_every_program_def names_program_def split: if_splits option.splits)

lemma opens_preserved: "opens_for_every_program (preserve_server_owned eng r) = opens_for_every_program r"
  by (simp add: opens_for_every_program_def preserve_keeps)

text \<open>Who may open it: root, or a client polkit said yes to.\<close>

definition may_open :: "call_env \<Rightarrow> settings \<Rightarrow> peer \<Rightarrow> bool" where
  "may_open V Z peer \<longleftrightarrow> privileged (se_control Z) peer \<or> ae_polkit (ce_auth V) peer GENERIC_ALLOW = Inr () \<or>
     ae_polkit (ce_auth V) peer IMPORT_RULES = Inr ()"

lemma upsert_prepare_opens:
  "upsert_prepare X V (se_control Z) peer proto eng = Inr r \<Longrightarrow> opens_for_every_program r \<Longrightarrow> may_open V Z peer"
  by (auto simp: upsert_prepare_def bind_result_Inr_iff opens_settled confirm_iff may_open_def split: option.splits)

lemma persist_prepare_opens:
  assumes "persist_prepare X V (se_control Z) peer b m = Inr r" "opens_for_every_program r"
  shows "may_open V Z peer"
proof -
  from assms(1) obtain q1 q2 s where c: "confirm_generic_allow (ce_auth V) (se_control Z) peer q1 = Inr ()"
    and q2: "bind_prompt_allow q1 b = Inr q2" and s: "resolve_exe (ce_fs V) (r_scope q2) = Inr s" "r = q2\<lparr>r_scope := s\<rparr>"
    by (auto simp: persist_prepare_def bind_result_Inr_iff)
  have "opens_for_every_program q2"
    using assms(2) resolve_exe_names [OF s(1)] by (simp add: opens_for_every_program_def s(2))
  with opens_bound [OF q2] c show ?thesis by (auto simp: confirm_iff may_open_def)
qed

lemma store_then_opened:
  assumes "\<And>x. opened (next x) \<subseteq> opened (ru_engine d)"
  shows "opened (ru_engine (snd (store_then d res next))) \<subseteq> opened (ru_engine d)"
  using assms by (auto simp: store_then_def split: prod.splits sum.splits)

lemma upsert_commit_opened:
  assumes "\<not> opens_for_every_program r"
  shows "opened (ru_engine (snd (upsert_commit ok X r d))) \<subseteq> opened (ru_engine d)"
proof -
  have "opened (upsert_rule (preserve_server_owned (ru_engine d) r) (ru_engine d)) \<subseteq> opened (ru_engine d)"
    using assms by (intro opened_upsert) (simp add: opens_preserved)
  from store_then_opened [of "\<lambda>_ :: unit. upsert_rule (preserve_server_owned (ru_engine d) r) (ru_engine d)" d, OF this]
  show ?thesis by (simp add: upsert_commit_def Let_def)
qed

lemma persist_answer_opened:
  assumes "\<not> may_open V Z peer"
  shows "opened (ru_engine (snd (persist_answer ok X V Z peer ask d))) \<subseteq> opened (ru_engine d)"
proof (cases "persist_prepare X V (se_control Z) peer (fst ask) (snd ask)")
  case (Inl e)
  then show ?thesis by (simp add: persist_answer_def)
next
  case (Inr r)
  then have "\<not> opens_for_every_program r" using persist_prepare_opens assms by blast
  then have "opened (ru_engine (snd (persist_commit ok X r d))) \<subseteq> opened (ru_engine d)"
    unfolding persist_commit_def by (intro store_then_opened opened_upsert)
  with Inr show ?thesis
    by (cases "persist_commit ok X r d"; cases "fst (persist_commit ok X r d)") (simp_all add: persist_answer_def)
qed

definition engine_of :: "'j service \<Rightarrow> engine" where
  "engine_of sv = ru_engine (sv_ruled sv)"

lemma authorized_opened:
  assumes "opened (engine_of (snd rest)) \<subseteq> opened (engine_of sv)"
  shows "opened (engine_of (snd (authorized V Z peer level sv rest))) \<subseteq> opened (engine_of sv)"
  using assms by (simp add: authorized_def split: sum.split)

lemma handle_opened:
  assumes "\<not> may_open V Z peer"
  shows "opened (engine_of (snd (handle ok X V Z now uptime peer req sv))) \<subseteq> opened (engine_of sv)"
proof (cases req)
  case (UpsertRule proto)
  have "opened (ru_engine (snd (upsert_commit ok X r (sv_ruled sv)))) \<subseteq> opened (ru_engine (sv_ruled sv))"
    if "upsert_prepare X V (se_control Z) peer proto (ru_engine (sv_ruled sv)) = Inr r" for r
    using upsert_prepare_opens [OF that] assms by (intro upsert_commit_opened) blast
  then show ?thesis unfolding UpsertRule handle.simps
    by (intro authorized_opened) (auto simp: engine_of_def with_ruled_def split: sum.split)
next
  case (ApplyRules ms repl)
  have "\<not> (\<exists>q. authorize (ce_auth V) (se_control Z) peer (Elevated IMPORT_RULES) = Inr q)"
    using assms by (auto simp: authorize_iff may_open_def)
  then show ?thesis unfolding ApplyRules handle.simps by (auto simp: authorized_def split: sum.split)
next
  case (DeleteRule id_str)
  have "opened (ru_engine (snd (delete_commit ok X rid (sv_ruled sv)))) \<subseteq> opened (ru_engine (sv_ruled sv))" for rid
    unfolding delete_commit_def by (intro store_then_opened) (auto dest: subsetD [OF opened_remove])
  then show ?thesis unfolding DeleteRule handle.simps
    by (intro authorized_opened) (auto simp: engine_of_def with_ruled_def split: option.split)
next
  case (SubmitVerdict vr)
  have "opened (ru_engine d) \<subseteq> opened (ru_engine (sv_ruled sv))"
    if "persist_answer ok X V Z peer ask (sv_ruled sv) = (reply, d)" for ask reply d
    using persist_answer_opened [OF assms, of ok X ask "sv_ruled sv"] that by simp
  then show ?thesis unfolding SubmitVerdict handle.simps engine_of_def Let_def
    by (simp split: prod.split sum.split option.split)
qed (auto simp: engine_of_def intro!: authorized_opened [unfolded engine_of_def])

text \<open>C4: only the entitled change the firewall.  A call that changes anything the service holds
  (rules, table, prompts, audience, pauses) comes from root or the daemon's own user, or from an
  official client in the group, with polkit's word when it changes the whole firewall; and a
  call that opens a scope for every program has root's or polkit's word whatever the call is.\<close>

theorem changes_need_standing:
  assumes "handle ok X V Z now uptime peer req sv = (res, sv')" "sv' \<noteq> sv"
  shows "entitled V Z peer req \<and>
    (opened (engine_of sv') \<subseteq> opened (engine_of sv) \<or> may_open V Z peer)"
  using handle_entitled [of ok X V Z now uptime peer req sv] handle_opened [of V Z peer ok X now uptime req sv] assms
  by auto

definition desktop_peer :: peer where
  "desktop_peer = \<lparr>peer_uid = 1000, peer_gid = 950, peer_pid = Some 77, peer_starttime = Some 3, peer_sock_ino = Some 5\<rparr>"

definition desktop_call :: call_env where
  "desktop_call =
     \<lparr>ce_auth = \<lparr>ae_start_before = (\<lambda>_. None), ae_status = (\<lambda>_. None), ae_start_after = (\<lambda>_. None),
        ae_official = (\<lambda>_ _. Inr ''/usr/bin/cfc-ui''),
        ae_polkit = (\<lambda>_ action. if action = PAUSE then Inr () else Inl ''dismissed'')\<rparr>,
      ce_fs = example_fs, ce_stamp = (Uuid 1, DateTime 9)\<rparr>"

definition desktop_settings :: settings where
  "desktop_settings =
     \<lparr>se_control = \<lparr>co_group = ''colony-firewall'', co_group_gid = Some 950, co_require_group = True, co_own_uid = 0,
        co_official_clients = [''/usr/bin/cfc-ui'']\<rparr>,
      se_pause_default_secs = 300, se_dry_run = False\<rparr>"

theorem changes_need_standing_witness:
  "\<exists>(sv :: rule option service) sv' X. handle True X desktop_call desktop_settings 0 9 desktop_peer (SetPaused True 60) sv =
       (Inr (PauseChanged True), sv') \<and> sv' \<noteq> sv \<and>
     entitled desktop_call desktop_settings desktop_peer (SetPaused True 60) \<and>
     \<not> privileged (se_control desktop_settings) desktop_peer"
proof -
  let ?sv = "\<lparr>sv_ruled = \<lparr>ru_engine = new_engine [] (profile_policy Strict), ru_store = empty_store\<rparr>,
    sv_router = new_router (profile_policy Strict), sv_audience = no_audience, sv_pause = new_pauser\<rparr> :: rule option service"
  let ?X = "\<lparr>cr_ext = \<lparr>ipnet_contains = (\<lambda>_ _. True), dt_millis = dt_instant\<rparr>, cr_codec = example_codec,
    cr_serde = example_serde\<rparr>"
  let ?sv' = "?sv\<lparr>sv_pause := new_pauser\<lparr>pz_tasks := [pause_request 60 300 0]\<rparr>\<rparr>"
  have "authorize (ce_auth desktop_call) (se_control desktop_settings) desktop_peer (Elevated PAUSE) = Inr desktop_peer"
    by (simp add: authorize_iff official_client_def peer_is_group_member_def desktop_call_def desktop_settings_def desktop_peer_def)
  then have call: "handle True ?X desktop_call desktop_settings 0 9 desktop_peer (SetPaused True 60) ?sv =
      (Inr (PauseChanged True), ?sv')"
    by (simp add: authorized_def new_pauser_def) (simp add: desktop_settings_def)
  have changed: "?sv' \<noteq> ?sv"
  proof
    assume "?sv' = ?sv"
    from arg_cong [OF this, of "\<lambda>s. pz_tasks (sv_pause s)"] show False by (simp add: new_pauser_def)
  qed
  from changes_need_standing [OF call changed] call changed show ?thesis
    by (intro exI [of _ ?sv] exI [of _ ?sv'] exI [of _ ?X])
       (simp add: privileged_def desktop_settings_def desktop_peer_def)
qed

section \<open>Only the sessions a prompt was for answer it\<close>

datatype prompt_call =
    StreamEvent auth_env peer bool prompt_event
  | Answer auth_env peer verdict_request
  | RouterMoves "router \<Rightarrow> router"

fun call_step :: "control \<Rightarrow> prompt_call \<Rightarrow> router \<times> audience \<Rightarrow> router \<times> audience" where
  "call_step K (StreamEvent A peer answering ev) s = (fst s, snd (stream_event A K peer answering ev (snd s)))"
| "call_step K (Answer A peer req) s = snd (submit_answer A K peer req s)"
| "call_step K (RouterMoves f) s = (f (fst s), snd s)"

definition call_run :: "control \<Rightarrow> prompt_call list \<Rightarrow> router \<Rightarrow> router \<times> audience" where
  "call_run K cs r = fold (call_step K) cs (r, no_audience)"

text \<open>A stream that may answer handed the prompt to a session of this user.\<close>

fun hands_out :: "control \<Rightarrow> u64 \<Rightarrow> u32 \<Rightarrow> prompt_call \<Rightarrow> bool" where
  "hands_out K rid uid (StreamEvent A peer answering ev) =
     (answering \<and> peer_uid peer = uid \<and> parse_u64 (ev_prompt_id ev) = Some rid \<and>
      should_deliver (p_uid (ev_process ev)) uid \<and> (\<exists>who. standing A K peer = Inr who))"
| "hands_out K rid uid _ = False"

text \<open>An answer to this prompt was let through.\<close>

fun settles :: "control \<Rightarrow> u64 \<Rightarrow> router \<times> audience \<Rightarrow> prompt_call \<Rightarrow> bool" where
  "settles K rid s (Answer A peer req) =
     (parse_u64 (vr_prompt_id req) = Some rid \<and> (\<exists>reply. fst (submit_answer A K peer req s) = Inr reply))"
| "settles K rid s _ = False"

definition earned :: "control \<Rightarrow> prompt_call list \<Rightarrow> router \<Rightarrow> u64 \<Rightarrow> u32 \<Rightarrow> bool" where
  "earned K cs r rid uid \<longleftrightarrow>
     (\<exists>before c after. cs = before @ c # after \<and> hands_out K rid uid c \<and>
        (\<forall>xs d ys. after = xs @ d # ys \<longrightarrow> \<not> settles K rid (call_run K (before @ c # xs) r) d))"

lemma evict_allows: "audience_allows rid uid (evict au) \<Longrightarrow> audience_allows rid uid au"
proof (induction au rule: evict.induct)
  case (1 au)
  show ?case
  proof (cases "AUDIENCE_CAP < length (au_order au)")
    case True
    then obtain old rest where o: "au_order au = old # rest" by (cases "au_order au") simp_all
    have "audience_allows rid uid (evict (au\<lparr>au_by_prompt := (au_by_prompt au)(old := None), au_order := rest\<rparr>))"
      using 1(2) True o by (subst (asm) evict.simps) simp
    from 1(1) [OF True o this] show ?thesis by (auto simp: audience_allows_def split: if_splits)
  next
    case False
    with 1(2) show ?thesis by (subst (asm) evict.simps) simp
  qed
qed

lemma record_allows:
  "audience_allows rid uid (audience_record p u au) \<Longrightarrow> audience_allows rid uid au \<or> rid = p \<and> uid = u"
  unfolding audience_record_def Let_def
  by (drule evict_allows) (auto simp: audience_allows_def split: if_splits option.splits)

lemma forget_allows: "audience_allows rid uid (audience_forget p au) \<Longrightarrow> audience_allows rid uid au \<and> rid \<noteq> p"
  by (auto simp: audience_forget_def audience_allows_def split: if_splits option.splits)

lemma submit_answer_audience:
  assumes "submit_answer A K peer req s = (res, r', au')"
  shows "(\<exists>e. res = Inl e) \<and> au' = snd s \<or>
    (\<exists>x. res = Inr x) \<and> au' = (case parse_u64 (vr_prompt_id req) of None \<Rightarrow> snd s | Some rid \<Rightarrow> audience_forget rid (snd s))"
  using assms by (auto simp: submit_answer_def Let_def split: sum.splits if_splits prod.splits)

lemma stream_allows:
  assumes "audience_allows rid uid (snd (stream_event A K peer answering ev au))"
  shows "audience_allows rid uid au \<or> hands_out K rid uid (StreamEvent A peer answering ev)"
  using assms by (auto simp: stream_event_def split: if_splits sum.splits option.splits dest: record_allows)

lemma call_step_allows:
  assumes "audience_allows rid uid (snd (call_step K c s))"
  shows "hands_out K rid uid c \<or> audience_allows rid uid (snd s) \<and> \<not> settles K rid s c"
proof (cases c)
  case (StreamEvent A peer answering ev)
  with assms stream_allows show ?thesis by fastforce
next
  case (Answer A peer req)
  obtain res r' au' where sub: "submit_answer A K peer req s = (res, r', au')" by (metis prod.collapse)
  from submit_answer_audience [OF sub] assms Answer sub show ?thesis
    by (auto dest: forget_allows split: option.splits)
next
  case (RouterMoves f)
  with assms show ?thesis by simp
qed

lemma call_run_snoc: "call_run K (cs @ [c]) r = call_step K c (call_run K cs r)"
  by (simp add: call_run_def)

lemma allows_earned: "audience_allows rid uid (snd (call_run K cs r)) \<Longrightarrow> earned K cs r rid uid"
proof (induction cs rule: rev_induct)
  case Nil
  then show ?case by (simp add: call_run_def no_audience_def audience_allows_def)
next
  case (snoc c cs)
  from call_step_allows [OF snoc.prems [unfolded call_run_snoc]] show ?case
  proof
    assume "hands_out K rid uid c"
    then show ?thesis unfolding earned_def by (intro exI [of _ cs] exI [of _ c] exI [of _ "[]"]) simp
  next
    assume old: "audience_allows rid uid (snd (call_run K cs r)) \<and> \<not> settles K rid (call_run K cs r) c"
    with snoc.IH obtain bef h aft where cs: "cs = bef @ h # aft" and h: "hands_out K rid uid h"
      and quiet: "\<forall>xs d ys. aft = xs @ d # ys \<longrightarrow> \<not> settles K rid (call_run K (bef @ h # xs) r) d"
      unfolding earned_def by blast
    have "\<not> settles K rid (call_run K (bef @ h # xs) r) d" if "aft @ [c] = xs @ d # ys" for xs d ys
    proof (cases ys rule: rev_cases)
      case Nil
      with that have "xs = aft" "d = c" by simp_all
      with old cs show ?thesis by simp
    next
      case (snoc zs z)
      with that have "aft = xs @ d # zs" by simp
      with quiet show ?thesis by blast
    qed
    then show ?thesis unfolding earned_def using h
      by (intro exI [of _ bef] exI [of _ h] exI [of _ "aft @ [c]"]) (auto simp: cs)
  qed
qed

text \<open>At most the cap is remembered, and only what is in the queue.\<close>

definition audience_ok :: "audience \<Rightarrow> bool" where
  "audience_ok au \<longleftrightarrow> (\<forall>i. au_by_prompt au i \<noteq> None \<longrightarrow> i \<in> set (au_order au)) \<and> length (au_order au) \<le> AUDIENCE_CAP"

lemma evict_ok:
  "\<forall>i. au_by_prompt au i \<noteq> None \<longrightarrow> i \<in> set (au_order au) \<Longrightarrow> audience_ok (evict au)"
proof (induction au rule: evict.induct)
  case (1 au)
  show ?case
  proof (cases "AUDIENCE_CAP < length (au_order au)")
    case True
    then obtain old rest where o: "au_order au = old # rest" by (cases "au_order au") simp_all
    have "audience_ok (evict (au\<lparr>au_by_prompt := (au_by_prompt au)(old := None), au_order := rest\<rparr>))"
      using 1(2) o by (intro 1(1) [OF True o]) auto
    with True o show ?thesis by (subst evict.simps) simp
  next
    case False
    with 1(2) show ?thesis by (subst evict.simps) (simp add: audience_ok_def)
  qed
qed

lemma call_step_audience_ok: "audience_ok (snd s) \<Longrightarrow> audience_ok (snd (call_step K c s))"
proof -
  assume ok: "audience_ok (snd s)"
  have rec: "audience_ok (audience_record p u au)" if "audience_ok au" for p u au
    unfolding audience_record_def Let_def
    by (rule evict_ok) (use that in \<open>auto simp: audience_ok_def\<close>)
  have forget: "audience_ok (audience_forget p au)" if "audience_ok au" for p au
    using that by (auto simp: audience_ok_def audience_forget_def intro: le_trans [OF length_filter_le])
  show ?thesis
  proof (cases c)
    case (StreamEvent A peer answering ev)
    then show ?thesis using ok rec by (auto simp: stream_event_def split: sum.split option.split)
  next
    case (Answer A peer req)
    obtain res r' au' where sub: "submit_answer A K peer req s = (res, r', au')" by (metis prod.collapse)
    from submit_answer_audience [OF sub] show ?thesis using Answer sub ok forget by (auto split: option.splits)
  next
    case (RouterMoves f)
    then show ?thesis using ok by simp
  qed
qed

lemma call_run_audience_ok: "audience_ok (snd (call_run K cs r))"
  by (induction cs rule: rev_induct)
     (simp_all add: call_run_snoc call_step_audience_ok, simp add: call_run_def no_audience_def audience_ok_def)

lemma audience_ok_card: "audience_ok au \<Longrightarrow> card {i. au_by_prompt au i \<noteq> None} \<le> AUDIENCE_CAP"
proof -
  assume ok: "audience_ok au"
  then have "card {i. au_by_prompt au i \<noteq> None} \<le> card (set (au_order au))"
    by (intro card_mono) (auto simp: audience_ok_def)
  also have "\<dots> \<le> length (au_order au)" by (rule card_length)
  also have "\<dots> \<le> AUDIENCE_CAP" using ok by (simp add: audience_ok_def)
  finally show ?thesis .
qed

text \<open>C18: only the sessions a prompt was for answer it.  Root apart, an answer that is let through
  comes from a peer entitled to change the firewall, and a stream of the same user had been
  handed that prompt: a prompt addressed to that user, on a stream whose standing was checked
  again then, with no answer to the prompt let through since.  The bookkeeping remembers at
  most 4096 prompts.\<close>

theorem answers_come_from_the_audience:
  assumes "submit_answer A K peer req (call_run K cs r) = (Inr reply, s')" "peer_uid peer \<noteq> 0"
  shows "(privileged K peer \<or> official_client A K peer) \<and>
    (\<exists>rid. parse_u64 (vr_prompt_id req) = Some rid \<and> earned K cs r rid (peer_uid peer)) \<and>
    card {i. au_by_prompt (snd (call_run K cs r)) i \<noteq> None} \<le> AUDIENCE_CAP"
proof -
  from assms(1) have auth: "authorize A K peer Change = Inr peer"
    by (auto simp: submit_answer_def authorize_iff split: sum.splits)
  with assms have "\<exists>rid. parse_u64 (vr_prompt_id req) = Some rid \<and>
      audience_allows rid (peer_uid peer) (snd (call_run K cs r))"
    by (auto simp: submit_answer_def Let_def split: if_splits option.splits)
  with auth audience_ok_card [OF call_run_audience_ok] show ?thesis
    using allows_earned by (auto simp: authorize_iff)
qed

definition desktop_prompt :: prompt_event where
  "desktop_prompt =
     \<lparr>ev_prompt_id = ''7'',
      ev_connection = new_connection (Uuid 3, DateTime 1) Tcp Outbound (V4 1) 40000 (V4 2) 443,
      ev_process = (unknown_process 7)\<lparr>p_uid := Some 1000\<rparr>, ev_deadline_unix_ms = 15000,
      ev_binds_to_hash = False, ev_undecided_rule = None\<rparr>"

definition desktop_answer :: verdict_request where
  "desktop_answer = \<lparr>vr_prompt_id = ''7'', vr_action = 1, vr_duration = 3, vr_persist_scope = None\<rparr>"

theorem answers_come_from_the_audience_witness:
  "\<exists>r cs. cs = [StreamEvent (ce_auth desktop_call) desktop_peer True desktop_prompt] \<and>
     (\<exists>reply s'. submit_answer (ce_auth desktop_call) (se_control desktop_settings) desktop_peer desktop_answer
        (call_run (se_control desktop_settings) cs r) = (Inr (Some reply, None), s')) \<and>
     earned (se_control desktop_settings) cs r 7 1000"
proof -
  let ?A = "ce_auth desktop_call" and ?K = "se_control desktop_settings"
  let ?r = "(new_router (profile_policy Strict))\<lparr>ro_pending := (\<lambda>_. None)(7 \<mapsto> no_binding)\<rparr>"
  let ?cs = "[StreamEvent ?A desktop_peer True desktop_prompt]"
  have seven: "parse_u64 ''7'' = Some 7" by (simp add: parse_u64_def digit_value_def)
  have who: "standing ?A ?K desktop_peer = Inr (Some ''/usr/bin/cfc-ui'')"
    by (simp add: standing_def gate_def peer_is_group_member_def desktop_call_def desktop_settings_def desktop_peer_def)
  have auth: "authorize ?A ?K desktop_peer Change = Inr desktop_peer" by (simp add: authorize_def who)
  have cap: "\<not> AUDIENCE_CAP < length [7 :: u64]" by (simp add: AUDIENCE_CAP_def)
  have ev: "should_deliver (p_uid (ev_process desktop_prompt)) (peer_uid desktop_peer)"
    "ev_prompt_id desktop_prompt = ''7''" and u: "peer_uid desktop_peer = 1000"
    by (simp_all add: desktop_prompt_def desktop_peer_def should_deliver_def)
  have "audience_record 7 1000 no_audience = \<lparr>au_by_prompt = (\<lambda>_. None)(7 \<mapsto> [1000]), au_order = [7]\<rparr>"
    using cap by (simp add: audience_record_def no_audience_def evict.simps Let_def)
  then have run: "call_run ?K ?cs ?r = (?r, \<lparr>au_by_prompt = (\<lambda>_. None)(7 \<mapsto> [1000]), au_order = [7]\<rparr>)"
    using ev(1) by (simp add: call_run_def stream_event_def who ev(2) u seven)
  have sub: "submit_answer ?A ?K desktop_peer desktop_answer (call_run ?K ?cs ?r) =
      (Inr (Some no_binding, None), snd (submit_answer ?A ?K desktop_peer desktop_answer (call_run ?K ?cs ?r)))"
    unfolding run
    by (simp add: submit_answer_def auth desktop_answer_def seven audience_allows_def action_from_pb_def submit_def Let_def)
       (simp add: desktop_peer_def)
  have uid: "peer_uid desktop_peer = 1000" "peer_uid desktop_peer \<noteq> 0" by (simp_all add: desktop_peer_def)
  have "vr_prompt_id desktop_answer = ''7''" by (simp add: desktop_answer_def)
  with answers_come_from_the_audience [OF sub uid(2)] seven have "earned ?K ?cs ?r 7 1000"
    unfolding uid(1) by (metis option.inject)
  with sub show ?thesis by blast
qed

section \<open>Paging through the event log\<close>

lemma concat_pages: "concat (map (\<lambda>k. take l (drop (k * l) xs)) [0..<n]) = take (n * l) xs"
  by (induction n) (simp_all add: take_add [symmetric] add.commute)

lemma page_limit_bounds: "0 < unat (page_limit l) \<and> unat (page_limit l) \<le> 1000"
proof (cases "l = 0")
  case False
  then have "0 < unat l" by (simp add: unat_gt_0)
  then show ?thesis using False
    by (auto simp: page_limit_def MAX_EVENT_PAGE_def min_def word_le_nat_alt)
qed (simp add: page_limit_def DEFAULT_EVENT_PAGE_def)

lemma list_events_page:
  assumes "event_query_from_pb req = Inr (limit, off, f)"
  shows "list_events True (req\<lparr>le_offset := n\<rparr>) st =
    Inr (map event_row_to_pb (take (unat limit) (drop (min (unat n) 1000000)
      (newest_first (filter (event_matches f) (st_events st))))))"
proof -
  have "event_query_from_pb (req\<lparr>le_offset := n\<rparr>) = Inr (limit, min n MAX_EVENT_OFFSET, f)"
    using assms by (auto simp: event_query_from_pb_def bind_result_Inr_iff)
  moreover have "unat (min n MAX_EVENT_OFFSET) = min (unat n) 1000000"
    by (auto simp: MAX_EVENT_OFFSET_def min_def word_le_nat_alt)
  ultimately show ?thesis by (simp add: list_events_def query_events_def)
qed

lemma small_offset: "m \<le> 1000000 \<Longrightarrow> unat (word_of_nat m :: u32) = m"
  by (simp add: unat_of_nat)

text \<open>paging reads the event log, up to the offset cap.  A page has at most 1000 rows; pages at
  successive multiples of the limit are the filtered log, newest first, without gap or
  repetition, as long as the offsets stay below a million; beyond, every offset is the page at
  a million.\<close>

theorem event_pages_are_the_log:
  assumes "event_query_from_pb req = Inr (limit, off, f)"
  shows "0 < unat limit \<and> unat limit \<le> 1000 \<and>
    (\<forall>n. n * unat limit \<le> 1000000 \<longrightarrow>
      (\<exists>pages. map (\<lambda>k. list_events True (req\<lparr>le_offset := word_of_nat (k * unat limit)\<rparr>) st) [0..<n] = map Inr pages \<and>
        concat pages = take (n * unat limit)
          (map event_row_to_pb (newest_first (filter (event_matches f) (st_events st)))))) \<and>
    (\<forall>n. MAX_EVENT_OFFSET \<le> n \<longrightarrow>
      list_events True (req\<lparr>le_offset := n\<rparr>) st = list_events True (req\<lparr>le_offset := MAX_EVENT_OFFSET\<rparr>) st)"
proof (intro conjI allI impI)
  let ?L = "map event_row_to_pb (newest_first (filter (event_matches f) (st_events st)))"
  have "limit = page_limit (le_limit req)" using assms by (auto simp: event_query_from_pb_def bind_result_Inr_iff)
  then show "0 < unat limit" "unat limit \<le> 1000" using page_limit_bounds by auto
  fix n :: nat
  assume n: "n * unat limit \<le> 1000000"
  have "list_events True (req\<lparr>le_offset := word_of_nat (k * unat limit)\<rparr>) st =
      Inr (take (unat limit) (drop (k * unat limit) ?L))" if "k < n" for k
  proof -
    have "k * unat limit \<le> n * unat limit" using that by simp
    then have k: "k * unat limit \<le> 1000000" using n by linarith
    have "min (k * unat limit) 1000000 = k * unat limit" using k by (rule min_absorb1)
    then show ?thesis
      unfolding list_events_page [OF assms] small_offset [OF k] by (simp only: take_map drop_map)
  qed
  then have "map (\<lambda>k. list_events True (req\<lparr>le_offset := word_of_nat (k * unat limit)\<rparr>) st) [0..<n] =
      map Inr (map (\<lambda>k. take (unat limit) (drop (k * unat limit) ?L)) [0..<n])" by simp
  then show "\<exists>pages. map (\<lambda>k. list_events True (req\<lparr>le_offset := word_of_nat (k * unat limit)\<rparr>) st) [0..<n] = map Inr pages \<and>
      concat pages = take (n * unat limit) ?L"
    using concat_pages by blast
next
  fix n
  assume "MAX_EVENT_OFFSET \<le> n"
  then have "min (unat n) 1000000 = min (unat MAX_EVENT_OFFSET) 1000000"
    by (simp add: MAX_EVENT_OFFSET_def word_le_nat_alt)
  then show "list_events True (req\<lparr>le_offset := n\<rparr>) st = list_events True (req\<lparr>le_offset := MAX_EVENT_OFFSET\<rparr>) st"
    unfolding list_events_page [OF assms] by simp
qed

theorem event_pages_are_the_log_witness:
  "let req = \<lparr>le_limit = 2, le_offset = 0, le_exe_contains = [], le_action_filter = 2, le_since_unix_ms = 0\<rparr>;
       st = (empty_store :: nat store)\<lparr>st_events := [example_event 1 50, example_event 2 10, example_event 3 50]\<rparr> in
   \<exists>pages. map (\<lambda>k. list_events True (req\<lparr>le_offset := word_of_nat (k * 2)\<rparr>) st) [0..<2] = map Inr pages \<and>
     concat pages = map event_row_to_pb [example_event 3 50, example_event 1 50, example_event 2 10]"
proof -
  let ?req = "\<lparr>le_limit = 2, le_offset = 0, le_exe_contains = [], le_action_filter = 2, le_since_unix_ms = 0\<rparr>"
  let ?st = "(empty_store :: nat store)\<lparr>st_events := [example_event 1 50, example_event 2 10, example_event 3 50]\<rparr>"
  have q: "event_query_from_pb ?req = Inr (2, 0, \<lparr>ef_exe_contains = None, ef_action = Some ''Deny'', ef_since_ts_unix_ms = None\<rparr>)"
    by (simp add: event_query_from_pb_def action_from_pb_def page_limit_def empty_to_none_def MAX_EVENT_PAGE_def MAX_EVENT_OFFSET_def)
  have two: "unat (2 :: u32) = 2" by simp
  have "newest_first (filter (event_matches \<lparr>ef_exe_contains = None, ef_action = Some ''Deny'', ef_since_ts_unix_ms = None\<rparr>)
      (st_events ?st)) = [example_event 3 50, example_event 1 50, example_event 2 10]"
    by (simp add: newest_first_def event_key_def event_matches_def example_event_def del: filter.simps)
  then have log: "take (2 * 2) (map event_row_to_pb (newest_first (filter
      (event_matches \<lparr>ef_exe_contains = None, ef_action = Some ''Deny'', ef_since_ts_unix_ms = None\<rparr>) (st_events ?st)))) =
      map event_row_to_pb [example_event 3 50, example_event 1 50, example_event 2 10]" by simp
  have "(2 :: nat) * 2 \<le> 1000000" by simp
  with event_pages_are_the_log [OF q, of ?st, unfolded two] obtain pages where
    "map (\<lambda>k. list_events True (?req\<lparr>le_offset := word_of_nat (k * 2)\<rparr>) ?st) [0..<2] = map Inr pages"
    "concat pages = map event_row_to_pb [example_event 3 50, example_event 1 50, example_event 2 10]"
    unfolding log [symmetric] by blast
  then show ?thesis unfolding Let_def by blast
qed

end
