(* ===== verification/EventLog.thy ===== *)
theory EventLog
  imports Storage
begin

text \<open>
  The event persistence pipeline of \<open>crates/cfc-daemon/src/ipc/mod.rs\<close>: the bounded queue the
  packet worker pushes its refusals into, the feeder that adds what was allowed, the writer that
  commits batches and prunes the table.  A step is one iteration of a task; the database's
  answer is an argument.  The counter of lost rows is an atomic 64-bit word.
\<close>

definition EVENT_QUEUE_DEPTH :: nat where "EVENT_QUEUE_DEPTH = 4096"
definition EVENT_BATCH_ROWS :: nat where "EVENT_BATCH_ROWS = 256"
definition EVENT_DROP_LOG_EVERY :: u64 where "EVENT_DROP_LOG_EVERY = 1000"

record 'j pipeline =
  pl_queue :: "event_row list"
  pl_batch :: "event_row list"
  pl_dropped :: u64
  pl_store :: "'j store"

definition new_pipeline :: "'j store \<Rightarrow> 'j pipeline" where
  "new_pipeline st = \<lparr>pl_queue = [], pl_batch = [], pl_dropped = 0, pl_store = st\<rparr>"

text \<open>Counting, and whether this drop is worth a warning.\<close>

definition count_dropped :: "u64 \<Rightarrow> u64 \<Rightarrow> bool \<times> u64" where
  "count_dropped n before =
     (let total = before + n in
      (before = 0 \<or> before div EVENT_DROP_LOG_EVERY \<noteq> total div EVENT_DROP_LOG_EVERY, total))"

definition lose :: "u64 \<Rightarrow> 'j pipeline \<Rightarrow> 'j pipeline" where
  "lose n p = p\<lparr>pl_dropped := snd (count_dropped n (pl_dropped p))\<rparr>"

text \<open>\<open>try_send\<close> on the bounded channel.\<close>

definition push :: "event_row \<Rightarrow> 'j pipeline \<Rightarrow> 'j pipeline" where
  "push row p =
     (if length (pl_queue p) < EVENT_QUEUE_DEPTH then p\<lparr>pl_queue := pl_queue p @ [row]\<rparr> else lose 1 p)"

definition feed :: "codec \<Rightarrow> observed \<Rightarrow> 'j pipeline \<Rightarrow> 'j pipeline" where
  "feed C obs p =
     (if v_action (obs_verdict obs) \<noteq> Allow then p else push (event_row_from_observed C obs) p)"

definition write_batch :: "bool \<Rightarrow> 'j pipeline \<Rightarrow> 'j pipeline" where
  "write_batch ok p =
     (if pl_batch p = [] then p
      else
        (case insert_events ok (pl_batch p) (pl_store p) of
           (Inl e, st) \<Rightarrow> (lose (word_of_nat (length (pl_batch p))) p)\<lparr>pl_store := st, pl_batch := []\<rparr>
         | (Inr _, st) \<Rightarrow> p\<lparr>pl_store := st, pl_batch := []\<rparr>))"

text \<open>The arms of the writer's \<open>select!\<close>; a received row commits the batch when it is full.\<close>

definition writer_recv :: "bool \<Rightarrow> 'j pipeline \<Rightarrow> 'j pipeline" where
  "writer_recv ok p =
     (case pl_queue p of
        [] \<Rightarrow> p
      | row # rest \<Rightarrow>
          let p = p\<lparr>pl_queue := rest, pl_batch := pl_batch p @ [row]\<rparr> in
          if EVENT_BATCH_ROWS \<le> length (pl_batch p) then write_batch ok p else p)"

text \<open>The queue is closed and empty: the last batch is committed and the writer ends.\<close>

definition writer_close :: "bool \<Rightarrow> 'j pipeline \<Rightarrow> 'j pipeline option" where
  "writer_close ok p = (if pl_queue p = [] then Some (write_batch ok p) else None)"

definition writer_prune :: "bool \<Rightarrow> u32 \<Rightarrow> 'j pipeline \<Rightarrow> 'j pipeline" where
  "writer_prune ok max_rows p = p\<lparr>pl_store := snd (prune_events ok max_rows (pl_store p))\<rparr>"

datatype pipeline_event =
    Refusal event_row
  | Observed observed
  | Lagged u64
  | Receive bool
  | FlushTick bool
  | PruneTick bool

fun pipeline_step :: "codec \<Rightarrow> u32 \<Rightarrow> pipeline_event \<Rightarrow> 'j pipeline \<Rightarrow> 'j pipeline" where
  "pipeline_step C max_rows (Refusal row) p = push row p"
| "pipeline_step C max_rows (Observed obs) p = feed C obs p"
| "pipeline_step C max_rows (Lagged n) p = lose n p"
| "pipeline_step C max_rows (Receive ok) p = writer_recv ok p"
| "pipeline_step C max_rows (FlushTick ok) p = write_batch ok p"
| "pipeline_step C max_rows (PruneTick ok) p = writer_prune ok max_rows p"

text \<open>The rows an event offers for persistence, lagged ones included.\<close>

fun offered :: "pipeline_event \<Rightarrow> u64" where
  "offered (Refusal row) = 1"
| "offered (Observed obs) = (if v_action (obs_verdict obs) = Allow then 1 else 0)"
| "offered (Lagged n) = n"
| "offered _ = 0"

definition pipeline_run :: "codec \<Rightarrow> u32 \<Rightarrow> pipeline_event list \<Rightarrow> 'j pipeline \<Rightarrow> 'j pipeline" where
  "pipeline_run C max_rows evs p = fold (pipeline_step C max_rows) evs p"

section \<open>No row is lost silently\<close>

text \<open>Rows committed so far are the ids handed out.\<close>

definition accounted :: "'j pipeline \<Rightarrow> u64" where
  "accounted p = word_of_int (st_next_event (pl_store p)) + word_of_nat (length (pl_queue p) + length (pl_batch p)) + pl_dropped p"

definition pipeline_ok :: "'j pipeline \<Rightarrow> bool" where
  "pipeline_ok p \<longleftrightarrow> length (pl_queue p) \<le> EVENT_QUEUE_DEPTH \<and> length (pl_batch p) < EVENT_BATCH_ROWS \<and> events_ok (pl_store p)"

lemma lose_simps [simp]:
  "pl_dropped (lose n p) = pl_dropped p + n" "pl_queue (lose n p) = pl_queue p" "pl_batch (lose n p) = pl_batch p"
  "pl_store (lose n p) = pl_store p"
  by (simp_all add: lose_def count_dropped_def Let_def)

lemma push_accounted: "accounted (push row p) = accounted p + 1"
  by (simp add: push_def accounted_def)

lemma push_ok: "pipeline_ok p \<Longrightarrow> pipeline_ok (push row p)"
  by (auto simp: push_def pipeline_ok_def)

lemma write_batch_shape:
  "pl_batch (write_batch ok p) = [] \<and> pl_queue (write_batch ok p) = pl_queue p"
  by (auto simp: write_batch_def split: prod.split sum.split)

lemma write_batch_accounted: "accounted (write_batch ok p) = accounted p"
proof (cases "pl_batch p = [] \<or> \<not> ok")
  case True
  then show ?thesis by (auto simp: write_batch_def insert_events_def accounted_def)
next
  case False
  then show ?thesis by (simp add: write_batch_def insert_events_def accounted_def)
qed

lemma write_batch_events: "events_ok (pl_store p) \<Longrightarrow> events_ok (pl_store (write_batch ok p))"
  using events_ok_insert [of "pl_store p" ok "pl_batch p"]
  by (auto simp: write_batch_def split: prod.split sum.split)

lemma prune_keeps_next: "st_next_event (snd (prune_events ok m st)) = st_next_event st"
  by (cases ok) (simp_all add: prune_events_def Let_def)

lemma prune_keeps_ok: "events_ok st \<Longrightarrow> events_ok (snd (prune_events ok m st))"
  by (cases ok) (auto simp: prune_events_def Let_def events_ok_def distinct_map_filter)

lemma step_accounted: "accounted (pipeline_step C m e p) = accounted p + offered e"
proof (cases e)
  case (Receive ok)
  then show ?thesis
    using write_batch_accounted [of ok "p\<lparr>pl_queue := tl (pl_queue p), pl_batch := pl_batch p @ [hd (pl_queue p)]\<rparr>"]
    by (auto simp: writer_recv_def Let_def accounted_def split: list.split)
qed (simp_all add: push_accounted feed_def write_batch_accounted, simp_all add: accounted_def writer_prune_def prune_keeps_next)

lemma step_ok: "pipeline_ok p \<Longrightarrow> pipeline_ok (pipeline_step C m e p)"
proof (cases e)
  case (Receive ok)
  assume p: "pipeline_ok p"
  show ?thesis
  proof (cases "pl_queue p")
    case Nil
    then show ?thesis using p Receive by (simp add: writer_recv_def)
  next
    case (Cons row rest)
    let ?q = "p\<lparr>pl_queue := rest, pl_batch := pl_batch p @ [row]\<rparr>"
    have "events_ok (pl_store ?q)" "length rest \<le> EVENT_QUEUE_DEPTH" using p Cons by (simp_all add: pipeline_ok_def)
    then show ?thesis
      using write_batch_shape [of ok ?q] write_batch_events [of ?q ok] Cons Receive
      by (auto simp: writer_recv_def Let_def pipeline_ok_def EVENT_BATCH_ROWS_def)
  qed
next
  case (FlushTick ok)
  assume "pipeline_ok p"
  then show ?thesis
    using write_batch_shape [of ok p] write_batch_events [of p ok] FlushTick
    by (simp add: pipeline_ok_def EVENT_BATCH_ROWS_def)
qed (auto simp: push_ok feed_def, auto simp: pipeline_ok_def writer_prune_def prune_keeps_ok)

lemma run_accounted:
  "accounted (pipeline_run C m evs p) = accounted p + sum_list (map offered evs)"
  by (induction evs arbitrary: p) (simp_all add: pipeline_run_def step_accounted add.assoc)

lemma run_ok: "pipeline_ok p \<Longrightarrow> pipeline_ok (pipeline_run C m evs p)"
  by (induction evs arbitrary: p) (simp_all add: pipeline_run_def step_ok)

text \<open>Nothing is left in memory when the writer ends.\<close>

lemma writer_close_leaves_nothing:
  assumes "writer_close ok p = Some q"
  shows "pl_queue q = [] \<and> pl_batch q = [] \<and> accounted q = accounted p"
  using assms write_batch_shape [of ok p] write_batch_accounted [of ok p]
  by (auto simp: writer_close_def split: if_splits)

text \<open>C33: no audit row is lost silently, and the queue never grows past its bound.  Through every
  interleaving of pushes, the feeder, flushes, failed commits and prunes, each row offered has
  been committed, is waiting in the queue or in the batch, or is counted as dropped; at most
  4096 rows and 255 more wait.\<close>

theorem every_row_is_accounted_for:
  assumes "events_ok st" "p = pipeline_run C max_rows evs (new_pipeline st)"
  shows "sum_list (map offered evs) =
      word_of_int (st_next_event (pl_store p) - st_next_event st) +
      word_of_nat (length (pl_queue p) + length (pl_batch p)) + pl_dropped p \<and>
    length (pl_queue p) \<le> EVENT_QUEUE_DEPTH \<and> length (pl_batch p) < EVENT_BATCH_ROWS \<and> events_ok (pl_store p)"
proof -
  have "accounted p = accounted (new_pipeline st) + sum_list (map offered evs)"
    by (simp add: assms(2) run_accounted)
  moreover have "pipeline_ok p"
    unfolding assms(2) by (rule run_ok) (use assms(1) in \<open>simp add: pipeline_ok_def new_pipeline_def EVENT_BATCH_ROWS_def\<close>)
  ultimately show ?thesis
    by (simp add: pipeline_ok_def accounted_def new_pipeline_def algebra_simps)
qed

theorem every_row_is_accounted_for_witness:
  "\<forall>C r. let evs = [Refusal r, Receive True, FlushTick True, Refusal r, Lagged 3];
             p = pipeline_run C 9 evs (new_pipeline (empty_store :: unit store))
         in sum_list (map offered evs) = 5 \<and> st_next_event (pl_store p) - 1 = 1 \<and> length (pl_queue p) = 1 \<and> pl_dropped p = 3 \<and>
           sum_list (map offered evs) = word_of_int (st_next_event (pl_store p) - st_next_event (empty_store :: unit store)) +
             word_of_nat (length (pl_queue p) + length (pl_batch p)) + pl_dropped p"
proof (intro allI)
  fix C r
  let ?evs = "[Refusal r, Receive True, FlushTick True, Refusal r, Lagged 3]"
  let ?p = "pipeline_run C 9 ?evs (new_pipeline (empty_store :: unit store))"
  have "events_ok (empty_store :: unit store)" by (simp add: events_ok_def empty_store_def)
  note claim = every_row_is_accounted_for [OF this refl, of ?evs C 9]
  have "sum_list (map offered ?evs) = 5" by simp
  moreover have "st_next_event (pl_store ?p) - 1 = 1 \<and> length (pl_queue ?p) = 1 \<and> pl_dropped ?p = 3"
    by (simp add: pipeline_run_def new_pipeline_def empty_store_def push_def EVENT_QUEUE_DEPTH_def writer_recv_def
        EVENT_BATCH_ROWS_def write_batch_def insert_events_def Let_def)
  ultimately show "let evs = ?evs; p = pipeline_run C 9 evs (new_pipeline (empty_store :: unit store))
         in sum_list (map offered evs) = 5 \<and> st_next_event (pl_store p) - 1 = 1 \<and> length (pl_queue p) = 1 \<and> pl_dropped p = 3 \<and>
           sum_list (map offered evs) = word_of_int (st_next_event (pl_store p) - st_next_event (empty_store :: unit store)) +
             word_of_nat (length (pl_queue p) + length (pl_batch p)) + pl_dropped p"
    using claim unfolding Let_def by blast
qed

end
