(* ===== verification/DnsWire.thy ===== *)
theory DnsWire
  imports CoreTypes "HOL-Library.Monad_Syntax" "HOL-Library.Sublist"
begin

unbundle bit_operations_syntax

text \<open>
  The DNS message parser of \<open>crates/cfc-ebpf-proto/src/dns.rs\<close> and the records of \<open>lib.rs\<close> it
  fills.  \<open>usize\<close> is \<open>nat\<close>: every offset is bounded by the buffer before it grows.  A function
  that fills caller-owned scratch returns it with its result; what scratch holds after a
  failure is not tracked, since no one reads it there.
\<close>

section \<open>Reading\<close>

definition DNS_BUF_LEN :: nat where "DNS_BUF_LEN = 512"
definition DNS_HEADER_LEN :: nat where "DNS_HEADER_LEN = 12"
definition MAX_NAME_LEN :: nat where "MAX_NAME_LEN = 253"
definition MAX_LABEL_LEN :: nat where "MAX_LABEL_LEN = 63"
definition MAX_LABELS :: nat where "MAX_LABELS = 32"
definition MAX_LABEL_JUMPS :: nat where "MAX_LABEL_JUMPS = 4"
definition MAX_ANSWERS :: nat where "MAX_ANSWERS = 8"
definition MAX_QUESTIONS :: nat where "MAX_QUESTIONS = 4"
definition TYPE_A :: u16 where "TYPE_A = 1"
definition TYPE_AAAA :: u16 where "TYPE_AAAA = 28"
definition CLASS_IN :: u16 where "CLASS_IN = 1"
definition PTR_MASK :: u8 where "PTR_MASK = 0xC0"

record dns_cursor =
  cu_buf :: bytes
  cu_base :: nat
  cu_len :: nat

definition with_base :: "bytes \<Rightarrow> nat \<Rightarrow> nat \<Rightarrow> dns_cursor" where
  "with_base buf base n =
     (let avail = length buf - base in \<lparr>cu_buf = buf, cu_base = base, cu_len = (if n < avail then n else avail)\<rparr>)"

definition new_cursor :: "bytes \<Rightarrow> dns_cursor" where
  "new_cursor buf = with_base buf 0 (length buf)"

definition u8_at :: "dns_cursor \<Rightarrow> nat \<Rightarrow> u8 option" where
  "u8_at c off = (if cu_len c \<le> off then None else get_at (cu_buf c) (cu_base c + off))"

definition u16_at :: "dns_cursor \<Rightarrow> nat \<Rightarrow> u16 option" where
  "u16_at c off = do {
     hi \<leftarrow> u8_at c off;
     lo \<leftarrow> u8_at c (off + 1);
     Some (push_bit 8 (ucast hi) OR ucast lo) }"

definition u32_at :: "dns_cursor \<Rightarrow> nat \<Rightarrow> u32 option" where
  "u32_at c off = do {
     hi \<leftarrow> u16_at c off;
     lo \<leftarrow> u16_at c (off + 2);
     Some (push_bit 16 (ucast hi) OR ucast lo) }"

section \<open>Header and questions\<close>

record dns_header =
  h_id :: u16
  h_flags :: u16
  h_qdcount :: u16
  h_ancount :: u16
  h_nscount :: u16
  h_arcount :: u16

definition is_response :: "dns_header \<Rightarrow> bool" where
  "is_response h \<longleftrightarrow> h_flags h AND 0x8000 \<noteq> 0"

definition is_truncated :: "dns_header \<Rightarrow> bool" where
  "is_truncated h \<longleftrightarrow> h_flags h AND 0x0200 \<noteq> 0"

definition rcode :: "dns_header \<Rightarrow> u8" where
  "rcode h = ucast (h_flags h AND 0x000F)"

definition parse_header :: "dns_cursor \<Rightarrow> dns_header option" where
  "parse_header c = do {
     i \<leftarrow> u16_at c 0;
     flags \<leftarrow> u16_at c 2;
     qd \<leftarrow> u16_at c 4;
     an \<leftarrow> u16_at c 6;
     ns \<leftarrow> u16_at c 8;
     ar \<leftarrow> u16_at c 10;
     Some \<lparr>h_id = i, h_flags = flags, h_qdcount = qd, h_ancount = an, h_nscount = ns, h_arcount = ar\<rparr> }"

text \<open>The loops count what is left of their constant trip counts.\<close>

fun skip_labels :: "dns_cursor \<Rightarrow> nat \<Rightarrow> nat \<Rightarrow> nat option" where
  "skip_labels c 0 off = None"
| "skip_labels c (Suc n) off = do {
     b \<leftarrow> u8_at c off;
     if b = 0 then Some (off + 1)
     else if b AND PTR_MASK = PTR_MASK then do { _ \<leftarrow> u8_at c (off + 1); Some (off + 2) }
     else if b AND PTR_MASK \<noteq> 0 then None
     else skip_labels c n (off + 1 + unat b) }"

definition skip_name :: "dns_cursor \<Rightarrow> nat \<Rightarrow> nat option" where
  "skip_name c start = skip_labels c MAX_LABELS start"

fun walk_questions :: "dns_cursor \<Rightarrow> nat \<Rightarrow> nat \<Rightarrow> nat \<Rightarrow> nat option" where
  "walk_questions c left 0 off = Some off"
| "walk_questions c left (Suc n) off =
     (if left = 0 then Some off
      else do {
        off \<leftarrow> skip_name c off;
        _ \<leftarrow> u16_at c off;
        _ \<leftarrow> u16_at c (off + 2);
        walk_questions c (left - 1) n (off + 4) })"

definition skip_questions :: "dns_cursor \<Rightarrow> u16 \<Rightarrow> nat option" where
  "skip_questions c qdcount =
     (if MAX_QUESTIONS < unat qdcount then None
      else walk_questions c (unat qdcount) MAX_QUESTIONS DNS_HEADER_LEN)"

section \<open>Names\<close>

text \<open>\<open>get_mut\<close> and a store through it.\<close>

definition set_at :: "bytes \<Rightarrow> nat \<Rightarrow> u8 \<Rightarrow> bytes option" where
  "set_at out i v = (if i < length out then Some (out[i := v]) else None)"

fun copy_label :: "dns_cursor \<Rightarrow> nat \<Rightarrow> nat \<Rightarrow> nat \<Rightarrow> nat \<Rightarrow> nat \<Rightarrow> bytes \<Rightarrow> bytes option" where
  "copy_label c src dst label_len k 0 out = Some out"
| "copy_label c src dst label_len k (Suc n) out =
     (if label_len \<le> k then Some out
      else do {
        ch \<leftarrow> u8_at c (src + k);
        out \<leftarrow> set_at out (dst + k) ch;
        copy_label c src dst label_len (k + 1) n out })"

definition dot_before :: "nat \<Rightarrow> bytes \<Rightarrow> (nat \<times> bytes) option" where
  "dot_before written out =
     (if written \<noteq> 0 then
        if MAX_NAME_LEN \<le> written then None
        else do { out \<leftarrow> set_at out written 0x2E; Some (written + 1, out) }
      else Some (written, out))"

fun read_labels :: "dns_cursor \<Rightarrow> nat \<Rightarrow> nat \<Rightarrow> nat \<Rightarrow> nat option \<Rightarrow> nat \<Rightarrow> bytes \<Rightarrow> (nat \<times> nat option \<times> bytes) option" where
  "read_labels c 0 off jumps next written out = None"
| "read_labels c (Suc n) off jumps next written out = do {
     b \<leftarrow> u8_at c off;
     if b = 0 then Some (written, if next = None then Some (off + 1) else next, out)
     else if b AND PTR_MASK = PTR_MASK then
       if MAX_LABEL_JUMPS \<le> jumps then None
       else do {
         lo \<leftarrow> u8_at c (off + 1);
         let target = push_bit 8 (unat (b AND NOT PTR_MASK)) OR unat lo;
         if off \<le> target then None
         else read_labels c n target (jumps + 1) (if next = None then Some (off + 2) else next) written out }
     else if b AND PTR_MASK \<noteq> 0 then None
     else
       let label_len = unat b in
       if MAX_LABEL_LEN < label_len then None
       else do {
         (written, out) \<leftarrow> dot_before written out;
         if MAX_NAME_LEN < written + label_len then None
         else do {
           out \<leftarrow> copy_label c (off + 1) written label_len 0 MAX_LABEL_LEN out;
           read_labels c n (off + 1 + label_len) jumps next (written + label_len) out } } }"

definition read_name :: "dns_cursor \<Rightarrow> nat \<Rightarrow> bytes \<Rightarrow> (u8 \<times> nat \<times> bytes) option" where
  "read_name c start out = do {
     (written, next, out) \<leftarrow> read_labels c MAX_LABELS start 0 None 0 out;
     let out = (case set_at out written 0 of None \<Rightarrow> out | Some out \<Rightarrow> out);
     next \<leftarrow> next;
     Some (word_of_nat written, next, out) }"

section \<open>Answers\<close>

record dns_answer =
  an_ip :: bytes
  an_is_v6 :: u8
  an_name :: bytes
  an_name_len :: u8
  an_pad :: bytes
  an_ttl :: u32

definition zeroed_answer :: dns_answer where
  "zeroed_answer = \<lparr>an_ip = replicate 16 0, an_is_v6 = 0, an_name = replicate MAX_NAME_LEN 0, an_name_len = 0,
     an_pad = [0], an_ttl = 0\<rparr>"

fun copy_bytes :: "dns_cursor \<Rightarrow> nat \<Rightarrow> nat \<Rightarrow> nat \<Rightarrow> bytes \<Rightarrow> bytes option" where
  "copy_bytes c src i 0 out = Some out"
| "copy_bytes c src i (Suc n) out = do {
     b \<leftarrow> u8_at c (src + i);
     out \<leftarrow> set_at out i b;
     copy_bytes c src (i + 1) n out }"

definition parse_answer_at :: "dns_cursor \<Rightarrow> nat \<Rightarrow> dns_answer \<Rightarrow> (bool \<times> nat \<times> dns_answer) option" where
  "parse_answer_at c off out = do {
     (name_len, after_name, name) \<leftarrow> read_name c off (an_name out);
     rtype \<leftarrow> u16_at c after_name;
     rclass \<leftarrow> u16_at c (after_name + 2);
     ttl \<leftarrow> u32_at c (after_name + 4);
     rd \<leftarrow> u16_at c (after_name + 8);
     let rdlength = unat rd;
     let rdata = after_name + 10;
     if cu_len c < rdata + rdlength then None
     else do {
       let out = out\<lparr>an_name := name, an_name_len := name_len, an_ttl := ttl, an_pad := [0]\<rparr>;
       if rclass = CLASS_IN \<and> rtype = TYPE_A \<and> rdlength = 4 then do {
         ip \<leftarrow> copy_bytes c rdata 0 4 (replicate 16 0);
         Some (True, rdata + rdlength, out\<lparr>an_ip := ip, an_is_v6 := 0\<rparr>) }
       else if rclass = CLASS_IN \<and> rtype = TYPE_AAAA \<and> rdlength = 16 then do {
         ip \<leftarrow> copy_bytes c rdata 0 16 (an_ip out);
         Some (True, rdata + rdlength, out\<lparr>an_ip := ip, an_is_v6 := 1\<rparr>) }
       else Some (False, rdata + rdlength, out) } }"

fun walk_answers :: "dns_cursor \<Rightarrow> nat \<Rightarrow> nat \<Rightarrow> nat \<Rightarrow> dns_answer \<Rightarrow> dns_answer list" where
  "walk_answers c left 0 off scratch = []"
| "walk_answers c left (Suc n) off scratch =
     (if left = 0 then []
      else (case parse_answer_at c off scratch of
              None \<Rightarrow> []
            | Some (matched, next, scratch) \<Rightarrow>
                (if matched then [scratch] else []) @ walk_answers c (left - 1) n next scratch))"

text \<open>The answers handed to the callback, in order; the count returned is their number.\<close>

definition for_each_answer :: "dns_cursor \<Rightarrow> dns_answer \<Rightarrow> dns_answer list" where
  "for_each_answer c scratch =
     (case parse_header c of
        None \<Rightarrow> []
      | Some h \<Rightarrow>
          if \<not> is_response h \<or> rcode h \<noteq> 0 \<or> h_ancount h = 0 then []
          else
            (case skip_questions c (h_qdcount h) of
               None \<Rightarrow> []
             | Some off \<Rightarrow> walk_answers c (unat (h_ancount h)) MAX_ANSWERS off scratch))"

section \<open>What is read of a record\<close>

text \<open>\<open>nul_terminated\<close> counts up to the first NUL within the cap.\<close>

fun nul_scan :: "bytes \<Rightarrow> nat \<Rightarrow> nat" where
  "nul_scan [] cap = 0"
| "nul_scan (b # bs) 0 = 0"
| "nul_scan (b # bs) (Suc cap) = (if b = 0 then 0 else Suc (nul_scan bs cap))"

definition nul_terminated :: "bytes \<Rightarrow> nat \<Rightarrow> bytes" where
  "nul_terminated buf max_len =
     (let cap = (if max_len < length buf then max_len else length buf); n = nul_scan buf cap in
      case get_range buf 0 n of Some s \<Rightarrow> s | None \<Rightarrow> [])"

definition name_bytes :: "dns_answer \<Rightarrow> bytes" where
  "name_bytes a = nul_terminated (an_name a) (unat (an_name_len a))"

definition answer_ip_addr :: "dns_answer \<Rightarrow> ip_addr" where
  "answer_ip_addr a =
     (if an_is_v6 a \<noteq> 0 then V6 (from_be (an_ip a)) else V4 (from_be (take 4 (an_ip a))))"

record dns_packet =
  dp_len :: u16
  dp_data :: bytes

definition payload :: "dns_packet \<Rightarrow> bytes" where
  "payload p =
     (let n = unat (dp_len p); n = (if n < DNS_BUF_LEN then n else DNS_BUF_LEN) in
      case get_range (dp_data p) 0 n of Some s \<Rightarrow> s | None \<Rightarrow> [])"

section \<open>Names, as the RFC writes them\<close>

text \<open>A name at an offset: labels, then the root or a pointer to an earlier offset where the name
  goes on.  The indices are the labels, the pointers followed and the offset after the name in
  the stream.\<close>

fun bytes_at :: "dns_cursor \<Rightarrow> nat \<Rightarrow> nat \<Rightarrow> bytes option" where
  "bytes_at c off 0 = Some []"
| "bytes_at c off (Suc n) = do { b \<leftarrow> u8_at c off; bs \<leftarrow> bytes_at c (off + 1) n; Some (b # bs) }"

inductive dns_name :: "dns_cursor \<Rightarrow> nat \<Rightarrow> bytes list \<Rightarrow> nat \<Rightarrow> nat \<Rightarrow> bool" for c where
  name_root: "u8_at c off = Some 0 \<Longrightarrow> dns_name c off [] 0 (off + 1)"
| name_label: "u8_at c off = Some b \<Longrightarrow> b \<noteq> 0 \<Longrightarrow> b AND PTR_MASK = 0 \<Longrightarrow> bytes_at c (off + 1) (unat b) = Some l \<Longrightarrow>
    dns_name c (off + 1 + unat b) ls js e \<Longrightarrow>
    dns_name c off (l # ls) js e"
| name_pointer: "u8_at c off = Some b \<Longrightarrow> b AND PTR_MASK = PTR_MASK \<Longrightarrow> u8_at c (off + 1) = Some lo \<Longrightarrow>
    target = unat (b AND NOT PTR_MASK) * 256 + unat lo \<Longrightarrow> target < off \<Longrightarrow> dns_name c target ls js e \<Longrightarrow>
    dns_name c off ls (Suc js) (off + 2)"

inductive_simps dns_name_simps: "dns_name c off ls js e"

fun dotted :: "bytes list \<Rightarrow> bytes" where
  "dotted [] = []"
| "dotted [l] = l"
| "dotted (l # ls) = l @ 0x2E # dotted ls"

text \<open>The text a further run of labels appends after \<open>written\<close> bytes.\<close>

definition appended :: "nat \<Rightarrow> bytes list \<Rightarrow> bytes" where
  "appended written ls = (if written = 0 then dotted ls else concat (map ((#) 0x2E) ls))"

definition put_text :: "nat \<Rightarrow> bytes \<Rightarrow> bytes \<Rightarrow> bytes" where
  "put_text i text out = take i out @ text @ drop (i + length text) out"

lemma dotted_Cons: "dotted (l # ls) = l @ concat (map ((#) 0x2E) ls)"
  by (induction ls arbitrary: l) simp_all

lemma appended_simps [simp]:
  "appended written [] = []"
  "appended 0 (l # ls) = l @ concat (map ((#) 0x2E) ls)"
  "0 < written \<Longrightarrow> appended written (l # ls) = 0x2E # l @ concat (map ((#) 0x2E) ls)"
  by (simp_all add: appended_def dotted_Cons)

lemma appended_pos: "0 < written \<Longrightarrow> appended written ls = concat (map ((#) 0x2E) ls)"
  by (simp add: appended_def)

lemma length_put_text [simp]: "i + length text \<le> length out \<Longrightarrow> length (put_text i text out) = length out"
  by (simp add: put_text_def)

lemma put_text_Nil [simp]: "put_text i [] out = out"
  by (simp add: put_text_def)

lemma put_text_put_text:
  assumes "i + length a \<le> length out"
  shows "put_text (i + length a) b (put_text i a out) = put_text i (a @ b) out"
  using assms by (cases a) (auto simp: put_text_def min_def ac_simps)

lemma set_at_put: "set_at out i v = (if i < length out then Some (put_text i [v] out) else None)"
  by (simp add: set_at_def put_text_def upd_conv_take_nth_drop)

text \<open>The two top bits of a length byte.\<close>

lemma label_byte:
  assumes "b AND PTR_MASK = 0"
  shows "unat b \<le> MAX_LABEL_LEN"
proof -
  have "\<not> bit b 6" "\<not> bit b 7"
    using arg_cong [OF assms, of "\<lambda>w. bit w 6"] arg_cong [OF assms, of "\<lambda>w. bit w 7"]
    by (simp_all add: PTR_MASK_def bit_simps bit_numeral_rec)
  have "b = take_bit 6 b"
  proof (rule bit_word_eqI)
    fix n assume "n < LENGTH(8)"
    then have "n < 6 \<or> n = 6 \<or> n = 7" by simp presburger
    with \<open>\<not> bit b 6\<close> \<open>\<not> bit b 7\<close> show "bit b n = bit (take_bit 6 b) n"
      by (auto simp: bit_take_bit_iff)
  qed
  then have "unat b = take_bit 6 (unat b)" by (metis unsigned_take_bit_eq)
  also have "\<dots> < 2 ^ 6" by (rule take_bit_nat_less_exp)
  finally show ?thesis by (simp add: MAX_LABEL_LEN_def)
qed

lemma bits_below:
  assumes "n < 2 ^ k"
  shows "push_bit k m OR n = m * 2 ^ k + (n :: nat)"
proof -
  have "push_bit k m OR n = push_bit k m + n"
  proof (rule disjunctive_add [symmetric])
    fix i
    have "take_bit k n = n" using assms by (simp add: take_bit_nat_eq_self)
    then have "bit n i \<longleftrightarrow> i < k \<and> bit n i" by (metis bit_take_bit_iff)
    then show "\<not> bit (push_bit k m) i \<or> \<not> bit n i" by (auto simp: bit_push_bit_iff)
  qed
  then show ?thesis by (simp add: push_bit_eq_mult)
qed

lemma pointer_target: "push_bit 8 m OR unat (lo :: u8) = m * 256 + unat lo"
  using bits_below [of "unat lo" 8 m] by simp

lemma u16_of_bytes: "push_bit 8 (ucast hi) OR ucast lo = be16 hi lo"
proof (rule word_unat_eq_iff [THEN iffD2])
  have "push_bit 8 (unat hi) < 2 ^ 16" using unat_byte_lt [of hi] by (simp add: push_bit_eq_mult)
  then have "unat (push_bit 8 (ucast hi) OR ucast lo :: u16) = push_bit 8 (unat hi) OR unat lo"
    by (simp add: unsigned_or_eq unsigned_push_bit_eq unsigned_ucast_eq take_bit_nat_eq_self less_trans [OF unat_byte_lt])
  then show "unat (push_bit 8 (ucast hi) OR ucast lo :: u16) = unat (be16 hi lo)"
    by (simp add: pointer_target be16_unat)
qed

lemma u32_of_words: "push_bit 16 (ucast (from_be a :: u16)) OR ucast (from_be b :: u16) = (from_be (a @ b) :: u32)"
  if "length a = 2" "length b = 2"
proof (rule word_unat_eq_iff [THEN iffD2])
  have a: "unat (from_be a :: u16) = be_val a" "unat (from_be b :: u16) = be_val b"
    using be_val_lt [of a] be_val_lt [of b] that by (simp_all add: unat_from_be)
  have ab: "be_val a < 2 ^ 16" "be_val b < 2 ^ 16" using be_val_lt [of a] be_val_lt [of b] that by simp_all
  have "push_bit 16 (be_val a) < 2 ^ 32" using ab by (simp add: push_bit_eq_mult)
  then have "unat (push_bit 16 (ucast (from_be a :: u16)) OR ucast (from_be b :: u16) :: u32) =
      push_bit 16 (be_val a) OR be_val b"
    using ab by (simp add: unsigned_or_eq unsigned_push_bit_eq unsigned_ucast_eq take_bit_nat_eq_self a)
  also have "\<dots> = be_val (a @ b)" using bits_below [of "be_val b" 16 "be_val a"] ab that by (simp add: be_val_append)
  also have "\<dots> = unat (from_be (a @ b) :: u32)"
    using be_val_lt [of "a @ b"] that by (subst unat_from_be) simp_all
  finally show "unat (push_bit 16 (ucast (from_be a :: u16)) OR ucast (from_be b :: u16) :: u32) = unat (from_be (a @ b) :: u32)" .
qed

lemma pointer_mask: "PTR_MASK \<noteq> 0" "b AND PTR_MASK = 0 \<Longrightarrow> b AND PTR_MASK \<noteq> PTR_MASK" "(0 :: u8) AND PTR_MASK = 0"
  by (auto simp: PTR_MASK_def)

section \<open>Reading a name\<close>

lemma set_at_length: "set_at out i v = Some out' \<Longrightarrow> length out' = length out"
  by (auto simp: set_at_def split: if_splits)

lemma bytes_at_length: "bytes_at c off n = Some bs \<Longrightarrow> length bs = n"
  by (induction n arbitrary: off bs) (auto split: bind_splits)

lemma copy_label_eq:
  assumes "label_len \<le> k + n" "dst + label_len \<le> length out"
  shows "copy_label c src dst label_len k n out =
    map_option (\<lambda>l. put_text (dst + k) l out) (bytes_at c (src + k) (label_len - k))"
  using assms
proof (induction n arbitrary: k out)
  case 0
  then show ?case by simp
next
  case (Suc n)
  show ?case
  proof (cases "k < label_len \<and> u8_at c (src + k) \<noteq> None")
    case True
    then obtain ch where ch: "u8_at c (src + k) = Some ch" by blast
    let ?out = "put_text (dst + k) [ch] out"
    from True have "k < label_len" by simp
    then have m: "label_len - k = Suc (label_len - (k + 1))" by simp
    have "copy_label c src dst label_len (k + 1) n ?out =
        map_option (\<lambda>l. put_text (dst + (k + 1)) l ?out) (bytes_at c (src + (k + 1)) (label_len - (k + 1)))"
      using Suc.prems True by (intro Suc.IH) simp_all
    moreover have "put_text (dst + (k + 1)) l ?out = put_text (dst + k) (ch # l) out" for l
      using put_text_put_text [of "dst + k" "[ch]" out l] Suc.prems True by simp
    ultimately show ?thesis
      using ch True Suc.prems
      by (simp add: set_at_put m map_conv_bind_option comp_def)
  next
    case False
    then consider "label_len \<le> k" | "k < label_len" "u8_at c (src + k) = None" by fastforce
    then show ?thesis
    proof cases
      case 2
      then have "label_len - k = Suc (label_len - (k + 1))" by simp
      with 2 show ?thesis by simp
    qed simp
  qed
qed

lemma copy_bytes_eq:
  "i + n \<le> length out \<Longrightarrow> copy_bytes c src i n out = map_option (\<lambda>l. put_text i l out) (bytes_at c (src + i) n)"
proof (induction n arbitrary: i out)
  case (Suc n)
  have "put_text (Suc i) l (put_text i [b] out) = put_text i (b # l) out" for l b
    using put_text_put_text [of i "[b]" out l] Suc.prems by simp
  then show ?case
    using Suc by (cases "u8_at c (src + i)") (simp_all add: set_at_put map_conv_bind_option comp_def)
qed simp

text \<open>How one name read continues the text written so far.\<close>

definition first_next :: "nat option \<Rightarrow> nat \<Rightarrow> nat option" where
  "first_next next e = (if next = None then Some e else next)"

lemma read_labels_label:
  assumes "u8_at c off = Some b" "b \<noteq> 0" "b AND PTR_MASK = 0" "length out = MAX_NAME_LEN" "written \<le> MAX_NAME_LEN"
  shows "read_labels c (Suc n) off jumps next written out =
    do { l \<leftarrow> bytes_at c (off + 1) (unat b);
         let text = appended written [l];
         if MAX_NAME_LEN < written + length text then None
         else read_labels c n (off + 1 + unat b) jumps next (written + length text) (put_text written text out) }"
proof (cases "written = 0")
  case True
  have "unat b \<le> MAX_LABEL_LEN" "unat b \<le> MAX_NAME_LEN" using label_byte [OF assms(3)]
    by (simp_all add: MAX_LABEL_LEN_def MAX_NAME_LEN_def)
  then show ?thesis
    using assms True pointer_mask
    by (cases "bytes_at c (off + 1) (unat b)")
      (auto simp: dot_before_def Let_def copy_label_eq bytes_at_length)
next
  case False
  let ?full = "MAX_NAME_LEN < written + 1 + unat b"
  have b: "unat b \<le> MAX_LABEL_LEN" "0 < unat b"
    using label_byte [OF assms(3)] assms(2) by (simp_all add: unat_gt_0)
  show ?thesis
  proof (cases ?full)
    case True
    then have "read_labels c (Suc n) off jumps next written out = None"
      using assms b False pointer_mask by (auto simp: dot_before_def set_at_def Let_def)
    then show ?thesis
      using True False by (cases "bytes_at c (off + 1) (unat b)") (auto simp: bytes_at_length Let_def)
  next
    case fits: False
    let ?out = "put_text written [0x2E] out"
    have "dot_before written out = Some (written + 1, ?out)"
      using fits False b assms(4) by (simp add: dot_before_def set_at_put)
    moreover have "copy_label c (off + 1) (written + 1) (unat b) 0 MAX_LABEL_LEN ?out =
        map_option (\<lambda>l. put_text (written + 1) l ?out) (bytes_at c (off + 1) (unat b))"
      using fits b assms(4) by (subst copy_label_eq) simp_all
    moreover have "put_text (written + 1) l ?out = put_text written (0x2E # l) out" for l
      using put_text_put_text [of written "[0x2E]" out l] fits b assms(4) by simp
    ultimately show ?thesis
      using assms b fits False pointer_mask
      by (cases "bytes_at c (off + 1) (unat b)") (auto simp: Let_def bytes_at_length)
  qed
qed

lemma appended_Cons:
  "l \<noteq> [] \<Longrightarrow> appended written (l # ls) =
    appended written [l] @ appended (written + length (appended written [l])) ls"
  by (cases "written = 0") (simp_all add: appended_pos)

text \<open>What a name in the stream makes of the loop's state.\<close>

definition name_read :: "dns_cursor \<Rightarrow> nat \<Rightarrow> nat \<Rightarrow> nat \<Rightarrow> nat option \<Rightarrow> nat \<Rightarrow> bytes \<Rightarrow>
    nat \<times> nat option \<times> bytes \<Rightarrow> bool" where
  "name_read c n off jumps next written out r \<longleftrightarrow>
     (\<exists>ls js e. dns_name c off ls js e \<and> length ls + js < n \<and> jumps + js \<le> MAX_LABEL_JUMPS \<and>
        written + length (appended written ls) \<le> MAX_NAME_LEN \<and>
        r = (written + length (appended written ls), first_next next e, put_text written (appended written ls) out))"

lemma first_next_first [simp]: "first_next (first_next next e) e' = first_next next e"
  by (simp add: first_next_def)

lemma name_read_root:
  "u8_at c off = Some 0 \<Longrightarrow> jumps \<le> MAX_LABEL_JUMPS \<Longrightarrow> written \<le> MAX_NAME_LEN \<Longrightarrow>
    name_read c (Suc n) off jumps next written out r \<longleftrightarrow> r = (written, first_next next (off + 1), out)"
  unfolding name_read_def by (subst dns_name_simps) (auto simp: pointer_mask)

lemma name_read_pointer:
  assumes "u8_at c off = Some b" "b AND PTR_MASK = PTR_MASK"
  shows "name_read c (Suc n) off jumps next written out r \<longleftrightarrow>
    (\<exists>lo target. u8_at c (off + 1) = Some lo \<and> target = unat (b AND NOT PTR_MASK) * 256 + unat lo \<and> target < off \<and>
      jumps < MAX_LABEL_JUMPS \<and> name_read c n target (jumps + 1) (first_next next (off + 2)) written out r)"
proof -
  have b: "b \<noteq> 0" "b AND PTR_MASK \<noteq> 0" using assms(2) pointer_mask by auto
  have *: "dns_name c off ls js e \<longleftrightarrow>
      (\<exists>lo js'. u8_at c (off + 1) = Some lo \<and> unat (b AND NOT PTR_MASK) * 256 + unat lo < off \<and> js = Suc js' \<and> e = off + 2 \<and>
        (\<exists>e'. dns_name c (unat (b AND NOT PTR_MASK) * 256 + unat lo) ls js' e'))" for ls js e
    using assms b by (subst dns_name_simps) auto
  show ?thesis unfolding name_read_def * by (fastforce simp: first_next_def)
qed

lemma name_read_label:
  assumes "u8_at c off = Some b" "b \<noteq> 0" "b AND PTR_MASK = 0" "length out = MAX_NAME_LEN"
  shows "name_read c (Suc n) off jumps next written out r \<longleftrightarrow>
    (\<exists>l. bytes_at c (off + 1) (unat b) = Some l \<and> written + length (appended written [l]) \<le> MAX_NAME_LEN \<and>
      name_read c n (off + 1 + unat b) jumps next (written + length (appended written [l]))
        (put_text written (appended written [l]) out) r)"
proof -
  have *: "dns_name c off ls js e \<longleftrightarrow>
      (\<exists>l ls'. ls = l # ls' \<and> bytes_at c (off + 1) (unat b) = Some l \<and> dns_name c (off + 1 + unat b) ls' js e)" for ls js e
    using assms pointer_mask by (subst dns_name_simps) auto
  have ne: "l \<noteq> []" if "bytes_at c (off + 1) (unat b) = Some l" for l
    using bytes_at_length [OF that] assms(2) by (auto simp: unat_eq_zero)
  have app: "appended written (l # ls) = appended written [l] @ appended (written + length (appended written [l])) ls"
    if "bytes_at c (off + 1) (unat b) = Some l" for l ls
    by (rule appended_Cons [OF ne [OF that]])
  have put: "put_text (written + length t) u (put_text written t out) = put_text written (t @ u) out"
    if "written + length t \<le> MAX_NAME_LEN" for t u
    using put_text_put_text [of written t out u] that assms(4) by simp
  show ?thesis (is "?L = ?R")
  proof
    assume ?L
    then obtain l ls js e where h: "bytes_at c (off + 1) (unat b) = Some l" "dns_name c (off + 1 + unat b) ls js e"
      "length (l # ls) + js < Suc n" "jumps + js \<le> MAX_LABEL_JUMPS"
      "written + length (appended written (l # ls)) \<le> MAX_NAME_LEN"
      "r = (written + length (appended written (l # ls)), first_next next e, put_text written (appended written (l # ls)) out)"
      unfolding name_read_def * by blast
    have fit: "written + length (appended written [l]) \<le> MAX_NAME_LEN" using h(5) unfolding app [OF h(1), of ls] by simp
    show ?R
      using h fit put [OF fit, of "appended (written + length (appended written [l])) ls"] app [OF h(1), of ls]
      unfolding name_read_def by (intro exI [of _ l] conjI exI [of _ ls] exI [of _ js] exI [of _ e]) (simp_all add: add.assoc)
  next
    assume ?R
    then obtain l ls js e where h: "bytes_at c (off + 1) (unat b) = Some l" "dns_name c (off + 1 + unat b) ls js e"
      "length ls + js < n" "jumps + js \<le> MAX_LABEL_JUMPS" "written + length (appended written [l]) \<le> MAX_NAME_LEN"
      "written + length (appended written [l]) + length (appended (written + length (appended written [l])) ls) \<le> MAX_NAME_LEN"
      "r = (written + length (appended written [l]) + length (appended (written + length (appended written [l])) ls),
        first_next next e, put_text (written + length (appended written [l])) (appended (written + length (appended written [l])) ls)
          (put_text written (appended written [l]) out))"
      unfolding name_read_def by blast
    then show ?L
      unfolding name_read_def *
      using put [OF h(5), of "appended (written + length (appended written [l])) ls"] app [OF h(1), of ls]
      by (intro exI [of _ "l # ls"] exI [of _ js] exI [of _ e] conjI) (simp_all add: add.assoc)
  qed
qed

lemma read_labels_iff:
  "length out = MAX_NAME_LEN \<Longrightarrow> written \<le> MAX_NAME_LEN \<Longrightarrow> jumps \<le> MAX_LABEL_JUMPS \<Longrightarrow>
    read_labels c n off jumps next written out = Some r \<longleftrightarrow> name_read c n off jumps next written out r"
proof (induction n arbitrary: off jumps "next" written out)
  case 0
  then show ?case by (simp add: name_read_def)
next
  case (Suc n)
  show ?case
  proof (cases "u8_at c off")
    case None
    then have "\<not> name_read c (Suc n) off jumps next written out r"
      unfolding name_read_def by (subst dns_name_simps) simp
    with None show ?thesis by simp
  next
    case (Some b)
    consider "b = 0" | "b AND PTR_MASK = PTR_MASK" | "b \<noteq> 0" "b AND PTR_MASK = 0" |
      "b \<noteq> 0" "b AND PTR_MASK \<noteq> 0" "b AND PTR_MASK \<noteq> PTR_MASK" by blast
    then show ?thesis
    proof cases
      case 1
      with Some Suc.prems show ?thesis by (auto simp: name_read_root first_next_def)
    next
      case 2
      then have "b \<noteq> 0" using pointer_mask by auto
      show ?thesis
        unfolding name_read_pointer [OF Some 2]
        using 2 Some Suc \<open>b \<noteq> 0\<close>
        by (cases "u8_at c (off + 1)") (auto simp: Let_def pointer_target first_next_def not_le)
    next
      case 3
      have label: "read_labels c n (off + 1 + unat b) jumps next (written + length (appended written [l]))
          (put_text written (appended written [l]) out) = Some r \<longleftrightarrow>
        name_read c n (off + 1 + unat b) jumps next (written + length (appended written [l]))
          (put_text written (appended written [l]) out) r"
        if "written + length (appended written [l]) \<le> MAX_NAME_LEN" for l
        using that Suc.prems by (intro Suc.IH) simp_all
      show ?thesis
        unfolding read_labels_label [OF Some 3 Suc.prems(1,2)] name_read_label [OF Some 3 Suc.prems(1)]
        using label by (cases "bytes_at c (off + 1) (unat b)") (auto simp: Let_def)
    next
      case 4
      then have "\<not> dns_name c off ls js e" for ls js e using Some by (subst dns_name_simps) auto
      with 4 Some show ?thesis by (simp add: name_read_def)
    qed
  qed
qed

lemma nul_scan_eq: "nul_scan bs m = length (takeWhile (\<lambda>b. b \<noteq> 0) (take m bs))"
  by (induction bs m rule: nul_scan.induct) simp_all

lemma nul_terminated_eq: "nul_terminated buf m = takeWhile (\<lambda>b. b \<noteq> 0) (take m buf)"
proof -
  let ?w = "takeWhile (\<lambda>b. b \<noteq> 0) (take m buf)"
  have cap: "take (if m < length buf then m else length buf) buf = take m buf" by simp
  have le: "length ?w \<le> length (take m buf)" by (rule length_takeWhile_le)
  have "take (length ?w) buf = take (length ?w) (take m buf)" using le by (simp del: takeWhile_eq_all_conv add: min.absorb1)
  also have "\<dots> = ?w" by (rule takeWhile_eq_take [symmetric])
  finally show ?thesis
    using le unfolding nul_terminated_def Let_def nul_scan_eq cap get_range_def by simp
qed

text \<open>What \<open>read_name\<close> leaves in the scratch.\<close>

definition name_written :: "bytes \<Rightarrow> bytes \<Rightarrow> bytes" where
  "name_written text out = put_text 0 (text @ (if length text < length out then [0] else [])) out"

lemma read_name_iff:
  assumes "length out = MAX_NAME_LEN"
  shows "read_name c start out = Some (n, next, out') \<longleftrightarrow>
    (\<exists>ls js. dns_name c start ls js next \<and> length ls + js < MAX_LABELS \<and> js \<le> MAX_LABEL_JUMPS \<and>
      length (dotted ls) \<le> MAX_NAME_LEN \<and> n = word_of_nat (length (dotted ls)) \<and> out' = name_written (dotted ls) out)"
proof -
  have nul: "(case set_at (put_text 0 t out) (length t) 0 of None \<Rightarrow> put_text 0 t out | Some o' \<Rightarrow> o') = name_written t out"
    if "length t \<le> MAX_NAME_LEN" for t
    using that assms put_text_put_text [of 0 t out "[0]"] by (simp add: name_written_def set_at_put)
  have "read_labels c MAX_LABELS start 0 None 0 out = Some r \<longleftrightarrow> name_read c MAX_LABELS start 0 None 0 out r" for r
    using assms by (intro read_labels_iff) simp_all
  then have r: "read_labels c MAX_LABELS start 0 None 0 out = Some r \<longleftrightarrow>
      (\<exists>ls js e. dns_name c start ls js e \<and> length ls + js < MAX_LABELS \<and> js \<le> MAX_LABEL_JUMPS \<and>
        length (dotted ls) \<le> MAX_NAME_LEN \<and> r = (length (dotted ls), Some e, put_text 0 (dotted ls) out))" for r
    by (simp add: name_read_def appended_def first_next_def)
  let ?found = "\<lambda>r. read_labels c MAX_LABELS start 0 None 0 out = Some r"
  let ?R = "\<exists>ls js. dns_name c start ls js next \<and> length ls + js < MAX_LABELS \<and> js \<le> MAX_LABEL_JUMPS \<and>
      length (dotted ls) \<le> MAX_NAME_LEN \<and> n = word_of_nat (length (dotted ls)) \<and> out' = name_written (dotted ls) out"
  have "read_name c start out = Some (n, next, out') \<longleftrightarrow>
      (\<exists>r. read_labels c MAX_LABELS start 0 None 0 out = Some r \<and> fst (snd r) = Some next \<and>
        n = word_of_nat (fst r) \<and>
        out' = (case set_at (snd (snd r)) (fst r) 0 of None \<Rightarrow> snd (snd r) | Some o' \<Rightarrow> o'))"
    by (auto simp: read_name_def Let_def split: bind_splits option.splits)
  also have "\<dots> \<longleftrightarrow> ?R"
  proof
    assume "\<exists>r. ?found r \<and> fst (snd r) = Some next \<and> n = word_of_nat (fst r) \<and>
        out' = (case set_at (snd (snd r)) (fst r) 0 of None \<Rightarrow> snd (snd r) | Some o' \<Rightarrow> o')"
    then obtain ls js where ls: "dns_name c start ls js next" "length ls + js < MAX_LABELS" "js \<le> MAX_LABEL_JUMPS"
      "length (dotted ls) \<le> MAX_NAME_LEN" "n = word_of_nat (length (dotted ls))"
      "out' = (case set_at (put_text 0 (dotted ls) out) (length (dotted ls)) 0 of
         None \<Rightarrow> put_text 0 (dotted ls) out | Some o' \<Rightarrow> o')"
      unfolding r by (auto cong: option.case_cong)
    then show ?R using nul [OF ls(4)] by auto
  next
    assume ?R
    then obtain ls js where ls: "dns_name c start ls js next" "length ls + js < MAX_LABELS" "js \<le> MAX_LABEL_JUMPS"
      "length (dotted ls) \<le> MAX_NAME_LEN" "n = word_of_nat (length (dotted ls))" "out' = name_written (dotted ls) out" by blast
    then show "\<exists>r. ?found r \<and> fst (snd r) = Some next \<and> n = word_of_nat (fst r) \<and>
        out' = (case set_at (snd (snd r)) (fst r) 0 of None \<Rightarrow> snd (snd r) | Some o' \<Rightarrow> o')"
      unfolding r using nul [OF ls(4)] by (intro exI [of _ "(length (dotted ls), Some next, put_text 0 (dotted ls) out)"]) (auto cong: option.case_cong)
  qed
  finally show ?thesis .
qed

lemma name_written_length [simp]: "length text \<le> length out \<Longrightarrow> length (name_written text out) = length out"
  by (auto simp: name_written_def)

lemma name_written_bytes:
  assumes "length out = MAX_NAME_LEN" "length text \<le> MAX_NAME_LEN"
  shows "nul_terminated (name_written text out) (unat (word_of_nat (length text) :: u8)) = takeWhile (\<lambda>b. b \<noteq> 0) text"
proof -
  have "unat (word_of_nat (length text) :: u8) = length text"
    using assms(2) by (simp add: MAX_NAME_LEN_def unat_of_nat)
  then show ?thesis by (simp add: nul_terminated_eq name_written_def put_text_def)
qed

section \<open>Windows onto a message\<close>

text \<open>\<open>d\<close> shows at least what \<open>c\<close> shows.\<close>

definition extends :: "dns_cursor \<Rightarrow> dns_cursor \<Rightarrow> bool" where
  "extends c d \<longleftrightarrow> cu_len c \<le> cu_len d \<and> (\<forall>off b. u8_at c off = Some b \<longrightarrow> u8_at d off = Some b)"

definition grows :: "'a option \<Rightarrow> 'a option \<Rightarrow> bool" where
  "grows x y \<longleftrightarrow> x = None \<or> x = y"

lemma grows_refl [simp]: "grows x x"
  by (simp add: grows_def)

lemma grows_None [simp]: "grows None x"
  by (simp add: grows_def)

lemma grows_bind: "grows x y \<Longrightarrow> (\<And>v. grows (f v) (g v)) \<Longrightarrow> grows (Option.bind x f) (Option.bind y g)"
  by (cases x) (auto simp: grows_def, metis)

lemma extends_u8: "extends c d \<Longrightarrow> grows (u8_at c off) (u8_at d off)"
  by (cases "u8_at c off") (auto simp: extends_def grows_def)

lemma extends_u16: "extends c d \<Longrightarrow> grows (u16_at c off) (u16_at d off)"
  by (auto simp: u16_at_def intro!: grows_bind extends_u8)

lemma extends_u32: "extends c d \<Longrightarrow> grows (u32_at c off) (u32_at d off)"
  by (auto simp: u32_at_def intro!: grows_bind extends_u16)

lemmas extends_reads = extends_u8 extends_u16 extends_u32

lemma extends_skip_labels: "extends c d \<Longrightarrow> grows (skip_labels c n off) (skip_labels d n off)"
  by (induction n arbitrary: off) (auto intro!: grows_bind extends_reads)

lemma extends_questions: "extends c d \<Longrightarrow> grows (walk_questions c left n off) (walk_questions d left n off)"
  by (induction n arbitrary: left off) (auto simp: skip_name_def intro!: grows_bind extends_reads extends_skip_labels)

lemma extends_copy_label: "extends c d \<Longrightarrow> grows (copy_label c src dst m k n out) (copy_label d src dst m k n out)"
  by (induction n arbitrary: k out) (auto intro!: grows_bind extends_reads)

lemma extends_copy_bytes: "extends c d \<Longrightarrow> grows (copy_bytes c src i n out) (copy_bytes d src i n out)"
  by (induction n arbitrary: i out) (auto intro!: grows_bind extends_reads)

lemma extends_read_labels:
  "extends c d \<Longrightarrow> grows (read_labels c n off jumps next written out) (read_labels d n off jumps next written out)"
  by (induction n arbitrary: off jumps "next" written out)
    (auto simp: Let_def split: prod.split intro!: grows_bind extends_reads extends_copy_label)

lemma extends_read_name: "extends c d \<Longrightarrow> grows (read_name c off out) (read_name d off out)"
  by (auto simp: read_name_def Let_def split: prod.split intro!: grows_bind extends_read_labels)

lemma extends_header: "extends c d \<Longrightarrow> grows (parse_header c) (parse_header d)"
  by (auto simp: parse_header_def intro!: grows_bind extends_reads)

lemma extends_answer: "extends c d \<Longrightarrow> grows (parse_answer_at c off out) (parse_answer_at d off out)"
proof -
  assume e: "extends c d"
  then have "cu_len c \<le> cu_len d" by (simp add: extends_def)
  with e show ?thesis
    by (auto simp: parse_answer_at_def Let_def split: prod.split
        intro!: grows_bind extends_reads extends_read_name extends_copy_bytes)
qed

lemma extends_answers: "extends c d \<Longrightarrow> prefix (walk_answers c left n off s) (walk_answers d left n off s)"
proof (induction n arbitrary: left off s)
  case (Suc n)
  show ?case
    using extends_answer [OF Suc.prems, of off s] Suc
    by (cases "parse_answer_at c off s") (auto simp: grows_def split: prod.split option.split)
qed simp

lemma extends_for_each: "extends c d \<Longrightarrow> prefix (for_each_answer c s) (for_each_answer d s)"
proof -
  assume e: "extends c d"
  have "grows (skip_questions c q) (skip_questions d q)" for q
    using extends_questions [OF e] by (simp add: skip_questions_def)
  then show ?thesis
    using extends_header [OF e] extends_answers [OF e]
    unfolding for_each_answer_def grows_def
    by (auto split: option.split) (metis option.distinct(1) option.inject)+
qed

lemma walk_answers_bound: "length (walk_answers c left n off s) \<le> n"
  by (induction n arbitrary: left off s) (auto split: option.split intro: le_SucI)

lemma u8_at_with_base: "u8_at (with_base buf base n) off = get_at (take n (drop base buf)) off"
  by (auto simp: u8_at_def with_base_def get_at_def Let_def)

lemma u8_at_new: "u8_at (new_cursor buf) off = get_at buf off"
  by (simp add: new_cursor_def u8_at_with_base)

lemma len_with_base [simp]: "cu_len (with_base buf base n) = min n (length buf - base)"
  by (simp add: with_base_def min_def Let_def)

lemma len_new [simp]: "cu_len (new_cursor buf) = length buf"
  by (simp add: new_cursor_def)

text \<open>The parser is safe on a prefix and wherever the message lies.  A truncated message yields an
  initial part of the answers of the full one, never a different answer; a message embedded in
  a larger buffer yields the same answers; at most eight are handed over.\<close>

theorem truncation_only_loses_answers:
  "prefix (for_each_answer (new_cursor (take n msg)) scratch) (for_each_answer (new_cursor msg) scratch) \<and>
   for_each_answer (with_base (before @ msg @ after) (length before) (length msg)) scratch =
     for_each_answer (new_cursor msg) scratch \<and>
   length (for_each_answer (new_cursor msg) scratch) \<le> MAX_ANSWERS"
proof (intro conjI)
  let ?w = "with_base (before @ msg @ after) (length before) (length msg)"
  have "extends (new_cursor (take n msg)) (new_cursor msg)"
    by (auto simp: extends_def u8_at_new get_at_def split: if_splits)
  then show "prefix (for_each_answer (new_cursor (take n msg)) scratch) (for_each_answer (new_cursor msg) scratch)"
    by (rule extends_for_each)
  have "extends ?w (new_cursor msg)" "extends (new_cursor msg) ?w"
    by (simp_all add: extends_def u8_at_new u8_at_with_base)
  then show "for_each_answer ?w scratch = for_each_answer (new_cursor msg) scratch"
    by (intro prefix_order.antisym extends_for_each)
  show "length (for_each_answer (new_cursor msg) scratch) \<le> MAX_ANSWERS"
    by (simp add: for_each_answer_def walk_answers_bound split: option.split)
qed

section \<open>What a name is\<close>

text \<open>A name is read as the RFC defines it, within the caps.  The reader succeeds exactly when a
  name of labels and backward pointers lies at the offset with fewer than 32 labels and
  pointers, at most 4 pointers and at most 253 characters; it returns their dotted text, its
  length, and the offset after the name in the stream, and a NUL follows the text, so what is
  shown of it is the text up to its first NUL.\<close>

theorem dns_names_are_read_as_written:
  assumes "length out = MAX_NAME_LEN"
  shows "read_name c start out = Some (n, next, out') \<longleftrightarrow>
    (\<exists>ls js. dns_name c start ls js next \<and> length ls + js < MAX_LABELS \<and> js \<le> MAX_LABEL_JUMPS \<and>
      length (dotted ls) \<le> MAX_NAME_LEN \<and> n = word_of_nat (length (dotted ls)) \<and> unat n = length (dotted ls) \<and>
      out' = name_written (dotted ls) out \<and> nul_terminated out' (unat n) = takeWhile (\<lambda>b. b \<noteq> 0) (dotted ls))"
proof -
  have "unat (word_of_nat (length t) :: u8) = length t" if "length t \<le> MAX_NAME_LEN" for t :: bytes
    using that by (simp add: MAX_NAME_LEN_def unat_of_nat)
  then show ?thesis
    unfolding read_name_iff [OF assms] using name_written_bytes [OF assms] by metis
qed

definition example_names :: dns_cursor where
  "example_names = new_cursor [1, 97, 0, 1, 98, 0xC0, 0]"

lemma example_name: "dns_name example_names 3 [[98], [97]] 1 7"
proof -
  have "dns_name example_names 2 [] 0 3"
    using name_root [of example_names 2] by (simp add: example_names_def u8_at_new get_at_def)
  then have "dns_name example_names 0 [[97]] 0 3"
    using name_label [where c = example_names and off = 0 and b = 1 and l = "[97]" and ls = "[]" and js = 0 and e = 3]
    by (simp add: example_names_def u8_at_new get_at_def PTR_MASK_def numeral_2_eq_2)
  then have "dns_name example_names 5 [[97]] 1 7"
    using name_pointer [where c = example_names and off = 5 and b = "0xC0" and lo = 0 and target = 0 and ls = "[[97]]" and js = 0 and e = 3]
    by (simp add: example_names_def u8_at_new get_at_def PTR_MASK_def)
  then show ?thesis
    using name_label [where c = example_names and off = 3 and b = 1 and l = "[98]" and ls = "[[97]]" and js = 1 and e = 7]
    by (simp add: example_names_def u8_at_new get_at_def PTR_MASK_def)
qed

theorem dns_names_are_read_as_written_witness:
  "\<exists>out'. read_name example_names 3 (replicate MAX_NAME_LEN 0) = Some (3, 7, out') \<and>
     nul_terminated out' 3 = [98, 0x2E, 97]"
proof -
  let ?out = "name_written (dotted [[98], [97]]) (replicate MAX_NAME_LEN 0)"
  have "read_name example_names 3 (replicate MAX_NAME_LEN 0) = Some (3, 7, ?out)"
    by (rule dns_names_are_read_as_written [THEN iffD2])
      (use example_name in \<open>auto simp: MAX_LABELS_def MAX_LABEL_JUMPS_def MAX_NAME_LEN_def nul_terminated_eq
        name_written_def put_text_def intro!: exI [of _ "[[98], [97]]"] exI [of _ "Suc 0"]\<close>)
  moreover have "nul_terminated ?out 3 = [98, 0x2E, 97]"
    by (simp add: nul_terminated_eq name_written_def put_text_def MAX_NAME_LEN_def)
  ultimately show ?thesis by blast
qed

text \<open>One hop of the walk, without the caps: backward pointers alone do not rule out a cycle, since
  labels lead forward again.  The caps do.\<close>

definition hops :: "dns_cursor \<Rightarrow> nat \<Rightarrow> nat \<Rightarrow> bool" where
  "hops c off off' \<longleftrightarrow> (\<exists>b. u8_at c off = Some b \<and> b \<noteq> 0 \<and>
     (b AND PTR_MASK = 0 \<and> off' = off + 1 + unat b \<or>
      b AND PTR_MASK = PTR_MASK \<and> (\<exists>lo. u8_at c (off + 1) = Some lo \<and>
        off' = unat (b AND NOT PTR_MASK) * 256 + unat lo \<and> off' < off)))"

lemma backward_pointers_can_cycle: "(hops (new_cursor [1, 97, 0xC0, 0]))\<^sup>+\<^sup>+ 0 0"
proof -
  have "hops (new_cursor [1, 97, 0xC0, 0]) 0 2" "hops (new_cursor [1, 97, 0xC0, 0]) 2 0"
    by (simp_all add: hops_def u8_at_new get_at_def PTR_MASK_def)
  then show ?thesis by (blast intro: tranclp.r_into_trancl tranclp.trancl_into_trancl)
qed

section \<open>Records and whole messages\<close>

record resource =
  rr_name :: "bytes list"
  rr_type :: u16
  rr_class :: u16
  rr_ttl :: u32
  rr_data :: bytes

definition is_address :: "resource \<Rightarrow> bool" where
  "is_address r \<longleftrightarrow> rr_class r = CLASS_IN \<and>
     (rr_type r = TYPE_A \<and> length (rr_data r) = 4 \<or> rr_type r = TYPE_AAAA \<and> length (rr_data r) = 16)"

text \<open>What a reader of an emitted answer sees, and what a record says.\<close>

definition answer_view :: "dns_answer \<Rightarrow> bytes \<times> ip_addr \<times> u32" where
  "answer_view a = (name_bytes a, answer_ip_addr a, an_ttl a)"

definition resource_view :: "resource \<Rightarrow> bytes \<times> ip_addr \<times> u32" where
  "resource_view r = (takeWhile (\<lambda>b. b \<noteq> 0) (dotted (rr_name r)),
     (if rr_type r = TYPE_AAAA then V6 (from_be (rr_data r)) else V4 (from_be (rr_data r))), rr_ttl r)"

definition record_at :: "dns_cursor \<Rightarrow> nat \<Rightarrow> resource \<Rightarrow> nat \<Rightarrow> bool" where
  "record_at c off r after \<longleftrightarrow>
     (\<exists>js e. dns_name c off (rr_name r) js e \<and> length (rr_name r) + js < MAX_LABELS \<and> js \<le> MAX_LABEL_JUMPS \<and>
        length (dotted (rr_name r)) \<le> MAX_NAME_LEN \<and>
        u16_at c e = Some (rr_type r) \<and> u16_at c (e + 2) = Some (rr_class r) \<and> u32_at c (e + 4) = Some (rr_ttl r) \<and>
        length (rr_data r) < 65536 \<and> u16_at c (e + 8) = Some (word_of_nat (length (rr_data r))) \<and>
        bytes_at c (e + 10) (length (rr_data r)) = Some (rr_data r) \<and> e + 10 + length (rr_data r) \<le> cu_len c \<and>
        after = e + 10 + length (rr_data r))"

definition scratch_ok :: "dns_answer \<Rightarrow> bool" where
  "scratch_ok a \<longleftrightarrow> length (an_name a) = MAX_NAME_LEN \<and> length (an_ip a) = 16"

lemma put_text_whole: "length t = length out \<Longrightarrow> put_text 0 t out = t"
  by (simp add: put_text_def)

text \<open>The scratch after the fixed fields of a record, then after its address.\<close>

definition filled :: "resource \<Rightarrow> dns_answer \<Rightarrow> dns_answer" where
  "filled r a = a\<lparr>an_name := name_written (dotted (rr_name r)) (an_name a),
     an_name_len := word_of_nat (length (dotted (rr_name r))), an_ttl := rr_ttl r, an_pad := [0]\<rparr>"

definition answered :: "resource \<Rightarrow> dns_answer \<Rightarrow> dns_answer" where
  "answered r a =
     (if \<not> is_address r then filled r a
      else if rr_type r = TYPE_AAAA then (filled r a)\<lparr>an_ip := rr_data r, an_is_v6 := 1\<rparr>
      else (filled r a)\<lparr>an_ip := put_text 0 (rr_data r) (replicate 16 0), an_is_v6 := 0\<rparr>)"

lemma answered_ok: "scratch_ok a \<Longrightarrow> length (dotted (rr_name r)) \<le> MAX_NAME_LEN \<Longrightarrow> scratch_ok (answered r a)"
  by (auto simp: scratch_ok_def answered_def filled_def is_address_def TYPE_A_def TYPE_AAAA_def)

lemma answered_view:
  assumes "scratch_ok a" "length (dotted (rr_name r)) \<le> MAX_NAME_LEN" "is_address r"
  shows "answer_view (answered r a) = resource_view r"
  using assms name_written_bytes [of "an_name a" "dotted (rr_name r)"]
  by (auto simp: answered_def filled_def answer_view_def resource_view_def name_bytes_def answer_ip_addr_def
      scratch_ok_def is_address_def TYPE_A_def TYPE_AAAA_def put_text_def)

lemma parse_record:
  assumes "record_at c off r after" "scratch_ok a"
  shows "parse_answer_at c off a = Some (is_address r, after, answered r a) \<and>
    length (dotted (rr_name r)) \<le> MAX_NAME_LEN"
proof -
  from assms(1) obtain js e where r: "dns_name c off (rr_name r) js e" "length (rr_name r) + js < MAX_LABELS"
      "js \<le> MAX_LABEL_JUMPS" "length (dotted (rr_name r)) \<le> MAX_NAME_LEN"
      "u16_at c e = Some (rr_type r)" "u16_at c (e + 2) = Some (rr_class r)" "u32_at c (e + 4) = Some (rr_ttl r)"
      "length (rr_data r) < 65536" "u16_at c (e + 8) = Some (word_of_nat (length (rr_data r)))"
      "bytes_at c (e + 10) (length (rr_data r)) = Some (rr_data r)" "e + 10 + length (rr_data r) \<le> cu_len c"
      "after = e + 10 + length (rr_data r)"
    unfolding record_at_def by blast
  have len: "length (an_name a) = MAX_NAME_LEN" "length (an_ip a) = 16" using assms(2) by (simp_all add: scratch_ok_def)
  have name: "read_name c off (an_name a) =
      Some (word_of_nat (length (dotted (rr_name r))), e, name_written (dotted (rr_name r)) (an_name a))"
    using r read_name_iff [OF len(1)] by blast
  have rd: "unat (word_of_nat (length (rr_data r)) :: u16) = length (rr_data r)" using r(8) by (simp add: unat_of_nat)
  have fits: "\<not> cu_len c < e + 10 + length (rr_data r)" using r(11) by simp
  have "length (rr_data r) = 4 \<Longrightarrow> copy_bytes c (e + 10) 0 4 (replicate 16 0) = Some (put_text 0 (rr_data r) (replicate 16 0))"
    using r(10) by (simp add: copy_bytes_eq)
  moreover have "length (rr_data r) = 16 \<Longrightarrow> copy_bytes c (e + 10) 0 16 (an_ip a) = Some (rr_data r)"
    using r(10) len(2) by (simp add: copy_bytes_eq put_text_whole)
  ultimately show ?thesis
    using r(4) unfolding parse_answer_at_def Let_def name
    by (simp add: r(5-7,9,12) rd fits filled_def answered_def is_address_def TYPE_A_def TYPE_AAAA_def del: add_2_eq_Suc')
qed

text \<open>Records one after the other from an offset on.\<close>

fun records_at :: "dns_cursor \<Rightarrow> nat \<Rightarrow> resource list \<Rightarrow> bool" where
  "records_at c off [] = True"
| "records_at c off (r # rs) = (\<exists>after. record_at c off r after \<and> records_at c after rs)"

lemma walk_records:
  "records_at c off rs \<Longrightarrow> scratch_ok a \<Longrightarrow> length rs = min left n \<Longrightarrow>
    map answer_view (walk_answers c left n off a) = map resource_view (filter is_address rs)"
proof (induction rs arbitrary: off a left n)
  case Nil
  then show ?case by (cases n) auto
next
  case (Cons r rs)
  then obtain m k where m: "n = Suc m" "left = Suc k" by (cases n; cases left) auto
  from Cons.prems obtain after where r: "record_at c off r after" "records_at c after rs" by auto
  note p = parse_record [OF r(1) Cons.prems(2)]
  have "map answer_view (walk_answers c k m after (answered r a)) = map resource_view (filter is_address rs)"
    using Cons.prems m p by (intro Cons.IH [OF r(2)]) (simp_all add: answered_ok)
  with p m show ?case using answered_view [OF Cons.prems(2)] by simp
qed

fun question_at :: "dns_cursor \<Rightarrow> nat \<Rightarrow> bytes list \<times> u16 \<times> u16 \<Rightarrow> nat \<Rightarrow> bool" where
  "question_at c off (ls, ty, cl) after =
     (\<exists>js e. dns_name c off ls js e \<and> length ls < MAX_LABELS \<and> u16_at c e = Some ty \<and> u16_at c (e + 2) = Some cl \<and>
        after = e + 4)"

fun questions_at :: "dns_cursor \<Rightarrow> nat \<Rightarrow> (bytes list \<times> u16 \<times> u16) list \<Rightarrow> nat \<Rightarrow> bool" where
  "questions_at c off [] after = (after = off)"
| "questions_at c off (q # qs) after = (\<exists>o'. question_at c off q o' \<and> questions_at c o' qs after)"

lemma skip_labels_name: "dns_name c off ls js e \<Longrightarrow> length ls < n \<Longrightarrow> skip_labels c n off = Some e"
proof (induction arbitrary: n rule: dns_name.induct)
  case (name_root off)
  then show ?case by (cases n) auto
next
  case (name_label off b l ls js e)
  then show ?case using pointer_mask by (cases n) auto
next
  case (name_pointer off b lo target ls js e)
  then show ?case using pointer_mask by (cases n) auto
qed

lemma walk_questions_at:
  "questions_at c off qs after \<Longrightarrow> length qs \<le> n \<Longrightarrow> walk_questions c (length qs) n off = Some after"
proof (induction qs arbitrary: off n)
  case Nil
  then show ?case by (cases n) auto
next
  case (Cons q qs)
  obtain ls ty cl where q: "q = (ls, ty, cl)" by (cases q) auto
  with Cons.prems obtain m js e where m: "n = Suc m" "dns_name c off ls js e" "length ls < MAX_LABELS"
    "u16_at c e = Some ty" "u16_at c (e + 2) = Some cl" "questions_at c (e + 4) qs after"
    by (cases n) auto
  then show ?case
    using Cons.IH [of "e + 4" m] Cons.prems skip_labels_name [OF m(2,3)] by (simp add: skip_name_def)
qed

text \<open>A response whose parts lie where its header says gives exactly its address records among the
  first eight.\<close>

lemma answers_of_message:
  assumes "parse_header c = Some h" "is_response h" "rcode h = 0"
    and "questions_at c DNS_HEADER_LEN qs after" "unat (h_qdcount h) = length qs" "length qs \<le> MAX_QUESTIONS"
    and "records_at c after rs" "length rs = min (unat (h_ancount h)) MAX_ANSWERS" "scratch_ok scratch"
  shows "map answer_view (for_each_answer c scratch) = map resource_view (filter is_address rs)"
proof -
  have "skip_questions c (h_qdcount h) = Some after"
    using assms(4-6) walk_questions_at [OF assms(4,6)] by (simp add: skip_questions_def)
  moreover have "rs = []" if "h_ancount h = 0" using that assms(8) by simp
  ultimately show ?thesis
    using assms(1-3) walk_records [OF assms(7,9,8)] by (auto simp: for_each_answer_def)
qed

section \<open>Writing a message\<close>

definition enc_labels :: "bytes list \<Rightarrow> bytes" where
  "enc_labels ls = concat (map (\<lambda>l. word_of_nat (length l) # l) ls)"

definition enc_question :: "bytes list \<times> u16 \<times> u16 \<Rightarrow> bytes" where
  "enc_question q = (case q of (ls, ty, cl) \<Rightarrow> enc_labels ls @ [0] @ to_be16 ty @ to_be16 cl)"

text \<open>An answer's owner: its own labels, then the root or a pointer to the first question's name.\<close>

record answer_entry =
  ae_own :: "bytes list"
  ae_compressed :: bool
  ae_record :: resource

definition enc_answer :: "answer_entry \<Rightarrow> bytes" where
  "enc_answer a = enc_labels (ae_own a) @ (if ae_compressed a then [0xC0, 12] else [0]) @
     to_be16 (rr_type (ae_record a)) @ to_be16 (rr_class (ae_record a)) @ to_be32 (rr_ttl (ae_record a)) @
     to_be16 (word_of_nat (length (rr_data (ae_record a)))) @ rr_data (ae_record a)"

definition enc_message :: "dns_header \<Rightarrow> (bytes list \<times> u16 \<times> u16) list \<Rightarrow> answer_entry list \<Rightarrow> bytes \<Rightarrow> bytes" where
  "enc_message h qs as rest =
     to_be16 (h_id h) @ to_be16 (h_flags h) @ to_be16 (word_of_nat (length qs)) @ to_be16 (word_of_nat (length as)) @
     to_be16 (h_nscount h) @ to_be16 (h_arcount h) @
     concat (map enc_question qs) @ concat (map enc_answer as) @ rest"

definition name_ok :: "nat \<Rightarrow> bytes list \<Rightarrow> bool" where
  "name_ok js ls \<longleftrightarrow> (\<forall>l \<in> set ls. l \<noteq> [] \<and> length l \<le> MAX_LABEL_LEN) \<and> length ls + js < MAX_LABELS \<and>
     length (dotted ls) \<le> MAX_NAME_LEN"

definition entry_ok :: "(bytes list \<times> u16 \<times> u16) list \<Rightarrow> answer_entry \<Rightarrow> bool" where
  "entry_ok qs a \<longleftrightarrow> name_ok (if ae_compressed a then 1 else 0) (rr_name (ae_record a)) \<and>
     length (rr_data (ae_record a)) < 65536 \<and>
     (if ae_compressed a then qs \<noteq> [] \<and> rr_name (ae_record a) = ae_own a @ fst (hd qs)
      else rr_name (ae_record a) = ae_own a)"

definition holds :: "dns_cursor \<Rightarrow> nat \<Rightarrow> bytes \<Rightarrow> bool" where
  "holds c off bs \<longleftrightarrow> bytes_at c off (length bs) = Some bs"

lemma holds_Nil [simp]: "holds c off []"
  by (simp add: holds_def)

lemma holds_Cons: "holds c off (b # bs) \<longleftrightarrow> u8_at c off = Some b \<and> holds c (off + 1) bs"
  by (auto simp: holds_def split: bind_splits)

lemma holds_append: "holds c off (xs @ ys) \<longleftrightarrow> holds c off xs \<and> holds c (off + length xs) ys"
  by (induction xs arbitrary: off) (auto simp: holds_Cons)

lemma holds_new: "holds (new_cursor buf) 0 buf"
proof -
  have "holds (new_cursor (xs @ ys)) (length xs) ys" for xs ys
  proof (induction ys arbitrary: xs)
    case (Cons y ys)
    from Cons.IH [of "xs @ [y]"] show ?case by (simp add: holds_Cons u8_at_new get_at_def)
  qed simp
  from this [of "[]" buf] show ?thesis by simp
qed

lemma holds_u16: "holds c off bs \<Longrightarrow> length bs = 2 \<Longrightarrow> u16_at c off = Some (from_be bs)"
  by (auto simp: numeral_2_eq_2 length_Suc_conv holds_Cons u16_at_def u16_of_bytes)

lemma holds_u32:
  assumes "holds c off bs" "length bs = 4"
  shows "u32_at c off = Some (from_be bs)"
proof -
  let ?a = "take 2 bs" and ?b = "drop 2 bs"
  have "holds c off (?a @ ?b)" using assms(1) by simp
  then have "holds c off ?a" "holds c (off + 2) ?b" using assms(2) by (simp_all only: holds_append) simp
  then have "u16_at c off = Some (from_be ?a)" "u16_at c (off + 2) = Some (from_be ?b)"
    using assms(2) by (simp_all add: holds_u16)
  then show ?thesis using u32_of_words [of ?a ?b] assms(2) by (simp add: u32_at_def)
qed

lemma holds_len: "holds c off bs \<Longrightarrow> bs \<noteq> [] \<Longrightarrow> off + length bs \<le> cu_len c"
proof (induction bs arbitrary: off)
  case (Cons b bs)
  then have "off < cu_len c" by (auto simp: holds_Cons u8_at_def split: if_splits)
  with Cons.prems Cons.IH [of "off + 1"] show ?case by (cases "bs = []") (auto simp: holds_Cons)
qed simp

lemma label_length_byte:
  assumes "0 < n" "n \<le> MAX_LABEL_LEN"
  shows "(word_of_nat n :: u8) \<noteq> 0" "(word_of_nat n :: u8) AND PTR_MASK = 0" "unat (word_of_nat n :: u8) = n"
proof -
  show u: "unat (word_of_nat n :: u8) = n" using assms by (simp add: MAX_LABEL_LEN_def unat_of_nat)
  then show "(word_of_nat n :: u8) \<noteq> 0" using assms by (auto simp: unat_eq_0)
  have t: "take_bit 6 n = n" using assms by (simp add: MAX_LABEL_LEN_def take_bit_nat_eq_self)
  have "\<not> bit n 6" "\<not> bit n 7" using arg_cong [OF t, of "\<lambda>k. bit k 6"] arg_cong [OF t, of "\<lambda>k. bit k 7"]
    by (simp_all add: bit_take_bit_iff)
  show "(word_of_nat n :: u8) AND PTR_MASK = 0"
  proof (rule bit_word_eqI)
    fix k assume "k < LENGTH(8)"
    then have "k \<in> {0, 1, 2, 3, 4, 5, 6, 7}" by auto
    with \<open>\<not> bit n 6\<close> \<open>\<not> bit n 7\<close> show "bit ((word_of_nat n :: u8) AND PTR_MASK) k = bit (0 :: u8) k"
      by (auto simp: bit_and_iff bit_of_nat_iff PTR_MASK_def bit_numeral_rec)
  qed
qed

lemma labels_name:
  "holds c off (enc_labels ls) \<Longrightarrow> \<forall>l \<in> set ls. l \<noteq> [] \<and> length l \<le> MAX_LABEL_LEN \<Longrightarrow>
    dns_name c (off + length (enc_labels ls)) ls' js e \<Longrightarrow> dns_name c off (ls @ ls') js e"
proof (induction ls arbitrary: off)
  case Nil
  then show ?case by (auto simp: enc_labels_def)
next
  case (Cons l ls)
  let ?b = "word_of_nat (length l) :: u8"
  have l: "0 < length l" "length l \<le> MAX_LABEL_LEN" using Cons.prems(2) by auto
  note b = label_length_byte [OF l]
  have h: "u8_at c off = Some ?b" "holds c (off + 1) l" "holds c (off + 1 + length l) (enc_labels ls)"
    using Cons.prems(1) by (simp_all add: enc_labels_def holds_Cons holds_append)
  have "dns_name c (off + 1 + unat ?b + length (enc_labels ls)) ls' js e"
    using Cons.prems(3) b by (simp add: enc_labels_def ac_simps)
  from Cons.IH [OF _ _ this] h Cons.prems(2) b have "dns_name c (off + 1 + unat ?b) (ls @ ls') js e" by auto
  with name_label [OF h(1) b(1,2)] h(2) b show ?case by (auto simp: holds_def)
qed

lemma plain_name:
  assumes "holds c off (enc_labels ls @ [0])" "\<forall>l \<in> set ls. l \<noteq> [] \<and> length l \<le> MAX_LABEL_LEN"
  shows "dns_name c off ls 0 (off + length (enc_labels ls) + 1)"
  using labels_name [of c off ls "[]" 0] assms name_root [of c "off + length (enc_labels ls)"]
  by (auto simp: holds_append holds_Cons)

lemma compressed_name:
  assumes "holds c off (enc_labels ls @ [0xC0, 12])" "\<forall>l \<in> set ls. l \<noteq> [] \<and> length l \<le> MAX_LABEL_LEN"
    and "dns_name c 12 qname 0 e" "12 < off"
  shows "dns_name c off (ls @ qname) 1 (off + length (enc_labels ls) + 2)"
proof -
  have "dns_name c (off + length (enc_labels ls)) qname (Suc 0) (off + length (enc_labels ls) + 2)"
    by (rule name_pointer [OF _ _ _ _ _ assms(3)])
      (use assms(1,4) in \<open>auto simp: holds_append holds_Cons PTR_MASK_def\<close>)
  then show ?thesis using labels_name [of c off ls qname "Suc 0"] assms(1,2) by (auto simp: holds_append)
qed

lemma enc_question_eq: "enc_question (ls, ty, cl) = enc_labels ls @ [0] @ to_be16 ty @ to_be16 cl"
  by (simp add: enc_question_def)

lemma questions_held:
  "holds c off (concat (map enc_question qs)) \<Longrightarrow> \<forall>q \<in> set qs. name_ok 0 (fst q) \<Longrightarrow>
    questions_at c off qs (off + length (concat (map enc_question qs)))"
proof (induction qs arbitrary: off)
  case (Cons q qs)
  obtain ls ty cl where q: "q = (ls, ty, cl)" by (cases q) auto
  let ?e = "off + length (enc_labels ls) + 1"
  have h: "holds c off (enc_labels ls @ [0])" "holds c ?e (to_be16 ty)" "holds c (?e + 2) (to_be16 cl)"
    "holds c (?e + 4) (concat (map enc_question qs))"
    using Cons.prems(1) by (simp_all add: q enc_question_eq holds_append holds_Cons add.assoc del: add_2_eq_Suc add_2_eq_Suc')
  have "dns_name c off ls 0 ?e" using plain_name [OF h(1)] Cons.prems(2) by (simp add: q name_ok_def)
  moreover have "u16_at c ?e = Some ty" "u16_at c (?e + 2) = Some cl"
    using h(2,3) by (simp_all add: holds_u16 from_be_to_be16)
  moreover have "length ls < MAX_LABELS" using Cons.prems(2) by (simp add: q name_ok_def)
  ultimately have "question_at c off q (?e + 4)" by (auto simp: q)
  moreover have "questions_at c (?e + 4) qs (?e + 4 + length (concat (map enc_question qs)))"
    using Cons.IH [OF h(4)] Cons.prems(2) by simp
  moreover have "off + length (concat (map enc_question (q # qs))) = ?e + 4 + length (concat (map enc_question qs))"
    by (simp add: q enc_question_eq)
  ultimately show ?case unfolding questions_at.simps by metis
qed simp

lemma answer_held:
  assumes "holds c off (enc_answer a)" "entry_ok qs a"
    and "ae_compressed a \<Longrightarrow> 12 < off \<and> (\<exists>e. dns_name c 12 (fst (hd qs)) 0 e)"
  shows "record_at c off (ae_record a) (off + length (enc_answer a))"
proof -
  let ?r = "ae_record a"
  define j :: nat where "j = (if ae_compressed a then 1 else 0)"
  define t :: bytes where "t = (if ae_compressed a then [0xC0, 12] else [0])"
  let ?e = "off + length (enc_labels (ae_own a)) + length t"
  have enc: "enc_answer a = enc_labels (ae_own a) @ t @ to_be16 (rr_type ?r) @ to_be16 (rr_class ?r) @ to_be32 (rr_ttl ?r) @
      to_be16 (word_of_nat (length (rr_data ?r))) @ rr_data ?r"
    by (simp add: enc_answer_def t_def)
  have h: "holds c off (enc_labels (ae_own a) @ t)" "holds c ?e (to_be16 (rr_type ?r))"
    "holds c (?e + 2) (to_be16 (rr_class ?r))" "holds c (?e + 4) (to_be32 (rr_ttl ?r))"
    "holds c (?e + 8) (to_be16 (word_of_nat (length (rr_data ?r))))" "holds c (?e + 10) (rr_data ?r)"
    using assms(1) by (simp_all add: enc holds_append add.assoc del: add_2_eq_Suc add_2_eq_Suc')
  have ok: "\<forall>l \<in> set (ae_own a). l \<noteq> [] \<and> length l \<le> MAX_LABEL_LEN"
    "length (rr_name ?r) + j < MAX_LABELS" "j \<le> MAX_LABEL_JUMPS" "length (dotted (rr_name ?r)) \<le> MAX_NAME_LEN"
    "length (rr_data ?r) < 65536"
    using assms(2) by (auto simp: entry_ok_def name_ok_def j_def MAX_LABEL_JUMPS_def split: if_splits)
  have name: "dns_name c off (rr_name ?r) j ?e"
    using h(1) ok(1) assms plain_name [of c off "ae_own a"] compressed_name [of c off "ae_own a"]
    by (auto simp: entry_ok_def t_def j_def)
  have "?e + 8 + 2 \<le> cu_len c" using holds_len [OF h(5)] length_be_bytes [of 2 "unat (word_of_nat (length (rr_data ?r)) :: u16)"] by (metis list.size(3) zero_neq_numeral)
  then have "?e + 10 + length (rr_data ?r) \<le> cu_len c"
    using holds_len [OF h(6)] by (cases "rr_data ?r = []") auto
  moreover have "u16_at c ?e = Some (rr_type ?r)" "u16_at c (?e + 2) = Some (rr_class ?r)"
      "u32_at c (?e + 4) = Some (rr_ttl ?r)" "u16_at c (?e + 8) = Some (word_of_nat (length (rr_data ?r)))"
      "bytes_at c (?e + 10) (length (rr_data ?r)) = Some (rr_data ?r)"
    using h by (simp_all add: holds_u16 holds_u32 from_be_to_be16 from_be_to_be32) (simp add: holds_def)
  moreover have "off + length (enc_answer a) = ?e + 10 + length (rr_data ?r)" by (simp add: enc)
  ultimately show ?thesis
    unfolding record_at_def using name ok by (intro exI [of _ j] exI [of _ ?e] conjI) simp_all
qed

lemma answers_held:
  "holds c off (concat (map enc_answer as)) \<Longrightarrow> \<forall>a \<in> set as. entry_ok qs a \<Longrightarrow>
    (qs \<noteq> [] \<Longrightarrow> 12 < off \<and> (\<exists>e. dns_name c 12 (fst (hd qs)) 0 e)) \<Longrightarrow> records_at c off (map ae_record as)"
proof (induction as arbitrary: off)
  case (Cons a as)
  have h: "holds c off (enc_answer a)" "holds c (off + length (enc_answer a)) (concat (map enc_answer as))"
    using Cons.prems(1) by (simp_all add: holds_append)
  have "record_at c off (ae_record a) (off + length (enc_answer a))"
    using answer_held [OF h(1), of qs] Cons.prems by (auto simp: entry_ok_def)
  moreover have "records_at c (off + length (enc_answer a)) (map ae_record as)"
  proof (rule Cons.IH [OF h(2)])
    show "\<forall>a \<in> set as. entry_ok qs a" using Cons.prems(2) by simp
    show "12 < off + length (enc_answer a) \<and> (\<exists>e. dns_name c 12 (fst (hd qs)) 0 e)" if "qs \<noteq> []"
      using Cons.prems(3) [OF that] by auto
  qed
  ultimately show ?case by auto
qed simp

lemma records_at_take: "records_at c off rs \<Longrightarrow> records_at c off (take n rs)"
proof (induction rs arbitrary: off n)
  case (Cons r rs)
  then show ?case by (cases n) auto
qed simp

lemma question_name_held:
  assumes "holds c off (concat (map enc_question qs))" "qs \<noteq> []" "\<forall>q \<in> set qs. name_ok 0 (fst q)"
  shows "0 < length (concat (map enc_question qs)) \<and> (\<exists>e. dns_name c off (fst (hd qs)) 0 e)"
proof -
  obtain ls ty cl qs' where q: "qs = (ls, ty, cl) # qs'" using assms(2) by (cases qs) auto
  then have "holds c off (enc_labels ls @ [0])" using assms(1) by (simp add: enc_question_eq holds_append holds_Cons)
  then have "\<exists>e. dns_name c off ls 0 e" using plain_name [of c off ls] assms(3) by (auto simp: q name_ok_def)
  then show ?thesis by (simp add: q enc_question_eq)
qed

text \<open>A response is read back.  For a response as servers write it, with up to four questions and
  any records, the owner names spelled out or ending in a pointer to the question, the parser
  hands over exactly the address records among the first eight, in order, with their names,
  addresses and lifetimes, whatever the scratch held before and whatever follows.\<close>

theorem dns_answers_read_back:
  assumes "is_response h" "rcode h = 0" "length qs \<le> MAX_QUESTIONS" "length as < 65536"
    and "\<forall>q \<in> set qs. name_ok 0 (fst q)" "\<forall>a \<in> set as. entry_ok qs a" "scratch_ok scratch"
  shows "map answer_view (for_each_answer (new_cursor (enc_message h qs as rest)) scratch) =
    map resource_view (filter is_address (take MAX_ANSWERS (map ae_record as)))"
proof -
  let ?c = "new_cursor (enc_message h qs as rest)"
  let ?h = "h\<lparr>h_qdcount := word_of_nat (length qs), h_ancount := word_of_nat (length as)\<rparr>"
  let ?Q = "concat (map enc_question qs)"
  have parts: "holds ?c 0 (to_be16 (h_id h))" "holds ?c 2 (to_be16 (h_flags h))"
    "holds ?c 4 (to_be16 (word_of_nat (length qs)))" "holds ?c 6 (to_be16 (word_of_nat (length as)))"
    "holds ?c 8 (to_be16 (h_nscount h))" "holds ?c 10 (to_be16 (h_arcount h))" "holds ?c DNS_HEADER_LEN ?Q"
    "holds ?c (DNS_HEADER_LEN + length ?Q) (concat (map enc_answer as))"
    using holds_new [of "enc_message h qs as rest"]
    by (simp_all add: enc_message_def holds_append DNS_HEADER_LEN_def del: add_2_eq_Suc add_2_eq_Suc')
  have "parse_header ?c = Some ?h"
    using parts(1-6) by (simp add: parse_header_def holds_u16 from_be_to_be16)
  moreover have questions: "questions_at ?c DNS_HEADER_LEN qs (DNS_HEADER_LEN + length ?Q)"
    using questions_held [OF parts(7) assms(5)] .
  moreover have "12 < DNS_HEADER_LEN + length ?Q \<and> (\<exists>e. dns_name ?c 12 (fst (hd qs)) 0 e)" if "qs \<noteq> []"
    using question_name_held [OF parts(7) that assms(5)] by (simp add: DNS_HEADER_LEN_def)
  ultimately have "records_at ?c (DNS_HEADER_LEN + length ?Q) (map ae_record as)"
    using answers_held [OF parts(8) assms(6)] by blast
  then have "records_at ?c (DNS_HEADER_LEN + length ?Q) (take MAX_ANSWERS (map ae_record as))"
    by (rule records_at_take)
  with \<open>parse_header ?c = Some ?h\<close> show ?thesis
    using assms questions
    by (intro answers_of_message [of ?c ?h])
      (simp_all add: is_response_def rcode_def unat_of_nat MAX_QUESTIONS_def min.commute)
qed

definition example_response :: dns_header where
  "example_response = \<lparr>h_id = 7, h_flags = 0x8180, h_qdcount = 0, h_ancount = 0, h_nscount = 0, h_arcount = 0\<rparr>"

definition example_entries :: "answer_entry list" where
  "example_entries =
     [\<lparr>ae_own = [[119]], ae_compressed = True,
        ae_record = \<lparr>rr_name = [[119], [97], [98]], rr_type = 5, rr_class = CLASS_IN, rr_ttl = 60, rr_data = [0]\<rparr>\<rparr>,
      \<lparr>ae_own = [], ae_compressed = True,
        ae_record = \<lparr>rr_name = [[97], [98]], rr_type = TYPE_A, rr_class = CLASS_IN, rr_ttl = 60, rr_data = [1, 2, 3, 4]\<rparr>\<rparr>]"

theorem dns_answers_read_back_witness:
  "map answer_view (for_each_answer (new_cursor (enc_message example_response [([[97], [98]], 1, 1)] example_entries [9])) zeroed_answer) =
     [([97, 0x2E, 98], V4 0x01020304, 60)]"
proof -
  have "map answer_view (for_each_answer (new_cursor (enc_message example_response [([[97], [98]], 1, 1)] example_entries [9])) zeroed_answer) =
      map resource_view (filter is_address (take MAX_ANSWERS (map ae_record example_entries)))"
    by (rule dns_answers_read_back)
      (simp_all add: example_response_def example_entries_def is_response_def rcode_def MAX_QUESTIONS_def name_ok_def
        MAX_LABEL_LEN_def MAX_LABELS_def MAX_NAME_LEN_def entry_ok_def scratch_ok_def zeroed_answer_def)
  also have "\<dots> = [([97, 0x2E, 98], V4 0x01020304, 60)]"
    by (simp add: example_entries_def MAX_ANSWERS_def is_address_def resource_view_def TYPE_A_def TYPE_AAAA_def CLASS_IN_def
        from_be_def)
  finally show ?thesis .
qed

end
