(* ===== verification/DnsCache.thy ===== *)
theory DnsCache
  imports DnsWire RuleScope HashMaps "HOL-Library.Multiset"
begin

unbundle bit_operations_syntax

text \<open>
  The host-name cache of \<open>crates/cfc-daemon/src/dns.rs\<close> and the consumer of observed responses in
  \<open>ebpf/loader.rs\<close>.  A \<open>HashMap\<close> has a parameter
  \<open>it\<close> for the order it is iterated in; an address in text is a parameter.  A
  lookup runs from the reservation over the blocking resolver to the recorded result, and
  other calls come between these steps.
\<close>

section \<open>Entries\<close>

definition CACHE_TTL_SECS :: nat where "CACHE_TTL_SECS = 300"
definition NEGATIVE_TTL_SECS :: nat where "NEGATIVE_TTL_SECS = 60"
definition CACHE_MAX_ENTRIES :: nat where "CACHE_MAX_ENTRIES = 4096"
definition LOOKUP_MAX_IN_FLIGHT :: nat where "LOOKUP_MAX_IN_FLIGHT = 8"
definition OBSERVED_MIN_TTL_SECS :: nat where "OBSERVED_MIN_TTL_SECS = 60"
definition OBSERVED_MAX_TTL_SECS :: nat where "OBSERVED_MAX_TTL_SECS = 3600"

datatype trust = Ptr | ObservedName

fun trust_rank :: "trust \<Rightarrow> nat" where
  "trust_rank Ptr = 0"
| "trust_rank ObservedName = 1"

record host_entry =
  he_hostname :: "string option"
  he_inserted :: nat
  he_in_flight :: bool
  he_trust :: trust
  he_ttl :: nat

definition is_fresh :: "host_entry \<Rightarrow> nat \<Rightarrow> bool" where
  "is_fresh e now \<longleftrightarrow> \<not> he_in_flight e \<and> now - he_inserted e \<le> he_ttl e"

definition supersedes :: "host_entry \<Rightarrow> trust \<Rightarrow> nat \<Rightarrow> bool" where
  "supersedes e t now \<longleftrightarrow> trust_rank (he_trust e) \<le> trust_rank t \<or> \<not> is_fresh e now"

type_synonym host_map = "(ip_addr \<times> host_entry) list"

text \<open>\<open>min_by_key\<close> returns the first of the least elements.\<close>

fun oldest :: "host_map \<Rightarrow> ip_addr option" where
  "oldest [] = None"
| "oldest (x # xs) = Some (fst (fold (\<lambda>y best. if he_inserted (snd y) < he_inserted (snd best) then y else best) xs x))"

definition evict_if_full :: "(host_map \<Rightarrow> host_map) \<Rightarrow> host_map \<Rightarrow> host_map" where
  "evict_if_full it m =
     (if length m < CACHE_MAX_ENTRIES then m
      else (case oldest (it m) of None \<Rightarrow> m | Some k \<Rightarrow> AList.delete k m))"

section \<open>The caches\<close>

text \<open>\<open>dc_permits\<close> is the semaphore; \<open>dc_entering\<close> are calls that hold a permit and have not
  reserved yet, \<open>dc_jobs\<close> the blocking lookups, \<open>dc_done\<close> the results not recorded yet.\<close>

record dns_cache =
  dc_cache :: host_map
  dc_policy :: host_map
  dc_permits :: nat
  dc_entering :: "ip_addr list"
  dc_jobs :: "ip_addr list"
  dc_done :: "(ip_addr \<times> string option) list"

definition new_cache :: dns_cache where
  "new_cache = \<lparr>dc_cache = [], dc_policy = [], dc_permits = LOOKUP_MAX_IN_FLIGHT, dc_entering = [], dc_jobs = [], dc_done = []\<rparr>"

definition lookup_at :: "ip_addr \<Rightarrow> nat \<Rightarrow> dns_cache \<Rightarrow> string option" where
  "lookup_at ip now d =
     (case map_of (dc_cache d) ip of None \<Rightarrow> None | Some e \<Rightarrow> if is_fresh e now then he_hostname e else None)"

definition cached_named :: "ip_addr \<Rightarrow> nat \<Rightarrow> dns_cache \<Rightarrow> (string \<times> bool) option" where
  "cached_named ip now d =
     (case map_of (dc_policy d) ip of
        None \<Rightarrow> None
      | Some e \<Rightarrow> if \<not> is_fresh e now then None else map_option (\<lambda>h. (h, True)) (he_hostname e))"

definition cached_trust :: "ip_addr \<Rightarrow> nat \<Rightarrow> dns_cache \<Rightarrow> trust option" where
  "cached_trust ip now d =
     (case map_of (dc_cache d) ip of
        None \<Rightarrow> None
      | Some e \<Rightarrow> if is_fresh e now \<and> he_hostname e \<noteq> None then Some (he_trust e) else None)"

section \<open>Observed answers\<close>

definition trim_end_dots :: "string \<Rightarrow> string" where
  "trim_end_dots s = rev (dropWhile (\<lambda>c. c = CHR ''.'') (rev s))"

definition is_host_char :: "char \<Rightarrow> bool" where
  "is_host_char c \<longleftrightarrow>
     48 \<le> code c \<and> code c \<le> 57 \<or> 65 \<le> code c \<and> code c \<le> 90 \<or> 97 \<le> code c \<and> code c \<le> 122 \<or>
     c = CHR ''-'' \<or> c = CHR ''_'' \<or> c = CHR ''.''"

definition observe_answer_at ::
  "(host_map \<Rightarrow> host_map) \<Rightarrow> ip_addr \<Rightarrow> string \<Rightarrow> u32 \<Rightarrow> nat \<Rightarrow> dns_cache \<Rightarrow> dns_cache" where
  "observe_answer_at it ip name ttl now d =
     (let name = to_ascii_lowercase (trim_end_dots name) in
      if name = [] \<or> \<not> list_all is_host_char name then d
      else
        let ttl = from_secs (max OBSERVED_MIN_TTL_SECS (min OBSERVED_MAX_TTL_SECS (unat ttl))) in
        if (case map_of (dc_cache d) ip of None \<Rightarrow> False | Some e \<Rightarrow> \<not> supersedes e ObservedName now) then d
        else d\<lparr>dc_cache := AList.update ip
                 \<lparr>he_hostname = Some name, he_inserted = now, he_in_flight = False, he_trust = ObservedName, he_ttl = ttl\<rparr>
                 (evict_if_full it (dc_cache d))\<rparr>)"

definition name_str :: "dns_answer \<Rightarrow> string" where
  "name_str a = lossy_string (name_bytes a)"

text \<open>The consumer of one captured packet; all its answers are filed at one instant here.\<close>

definition consume_packet :: "(host_map \<Rightarrow> host_map) \<Rightarrow> dns_answer \<Rightarrow> nat \<Rightarrow> dns_packet \<Rightarrow> dns_cache \<Rightarrow> dns_cache" where
  "consume_packet it scratch now p d =
     (if length (payload p) < DNS_HEADER_LEN then d
      else fold (\<lambda>a d. if name_str a = [] then d
                       else observe_answer_at it (answer_ip_addr a) (name_str a) (an_ttl a) now d)
             (for_each_answer (new_cursor (payload p)) scratch) d)"

section \<open>Reverse lookups\<close>

definition busy_or_fresh :: "ip_addr \<Rightarrow> nat \<Rightarrow> dns_cache \<Rightarrow> bool" where
  "busy_or_fresh ip now d \<longleftrightarrow>
     (case map_of (dc_policy d) ip of None \<Rightarrow> False | Some e \<Rightarrow> he_in_flight e \<or> is_fresh e now)"

text \<open>Up to the permit, then from the write lock to the spawned job.\<close>

definition enqueue_begin :: "ip_addr \<Rightarrow> nat \<Rightarrow> dns_cache \<Rightarrow> dns_cache" where
  "enqueue_begin ip now d =
     (if busy_or_fresh ip now d then d
      else if dc_permits d = 0 then d
      else d\<lparr>dc_permits := dc_permits d - 1, dc_entering := ip # dc_entering d\<rparr>)"

definition enqueue_reserve :: "(host_map \<Rightarrow> host_map) \<Rightarrow> ip_addr \<Rightarrow> nat \<Rightarrow> dns_cache \<Rightarrow> dns_cache" where
  "enqueue_reserve it ip now d =
     (let d = d\<lparr>dc_entering := remove1 ip (dc_entering d)\<rparr> in
      if busy_or_fresh ip now d then d\<lparr>dc_permits := dc_permits d + 1\<rparr>
      else d\<lparr>dc_policy := AList.update ip
               \<lparr>he_hostname = None, he_inserted = now, he_in_flight = True, he_trust = Ptr, he_ttl = from_secs NEGATIVE_TTL_SECS\<rparr>
               (evict_if_full it (dc_policy d)),
             dc_jobs := ip # dc_jobs d\<rparr>)"

definition addrs_contain :: "ip_addr list \<Rightarrow> ip_addr \<Rightarrow> bool" where
  "addrs_contain addrs ip \<longleftrightarrow> list_ex (\<lambda>a. to_canonical a = to_canonical ip) addrs"

text \<open>\<open>forward\<close> is what \<open>lookup_host\<close> answers for the name.\<close>

definition forward_confirm :: "ip_addr list option \<Rightarrow> ip_addr \<Rightarrow> bool" where
  "forward_confirm forward ip \<longleftrightarrow> (case forward of None \<Rightarrow> False | Some addrs \<Rightarrow> addrs_contain addrs ip)"

definition confirmed_name ::
  "(ip_addr \<Rightarrow> string) \<Rightarrow> ip_addr \<Rightarrow> string option \<Rightarrow> (string \<Rightarrow> ip_addr list option) \<Rightarrow> string option" where
  "confirmed_name show_ip ip reverse_name forward =
     (case reverse_name of
        None \<Rightarrow> None
      | Some h \<Rightarrow> if h = show_ip ip then None else if forward_confirm (forward h) ip then Some h else None)"

definition record_ptr_result :: "(host_map \<Rightarrow> host_map) \<Rightarrow> ip_addr \<Rightarrow> string option \<Rightarrow> nat \<Rightarrow> dns_cache \<Rightarrow> dns_cache" where
  "record_ptr_result it ip hostname now d =
     (let entry = \<lparr>he_hostname = hostname, he_inserted = now, he_in_flight = False, he_trust = Ptr,
                   he_ttl = from_secs (if hostname \<noteq> None then CACHE_TTL_SECS else NEGATIVE_TTL_SECS)\<rparr> in
      if map_of (dc_policy d) ip = None then d
      else
        let d = d\<lparr>dc_policy := AList.update ip entry (dc_policy d)\<rparr> in
        if (case map_of (dc_cache d) ip of None \<Rightarrow> False | Some old \<Rightarrow> \<not> supersedes old Ptr now) then d
        else d\<lparr>dc_cache := AList.update ip entry
                 (if map_of (dc_cache d) ip = None then evict_if_full it (dc_cache d) else dc_cache d)\<rparr>)"

section \<open>Runs\<close>

datatype cache_event =
    Packet dns_answer nat dns_packet
  | Enqueue ip_addr nat
  | Reserve ip_addr nat
  | Resolved ip_addr "string option" "string \<Rightarrow> ip_addr list option"
  | Recorded ip_addr "string option" nat

fun cache_step :: "(host_map \<Rightarrow> host_map) \<Rightarrow> (ip_addr \<Rightarrow> string) \<Rightarrow> cache_event \<Rightarrow> dns_cache \<Rightarrow> dns_cache" where
  "cache_step it show_ip (Packet scratch now p) d = consume_packet it scratch now p d"
| "cache_step it show_ip (Enqueue ip now) d = enqueue_begin ip now d"
| "cache_step it show_ip (Reserve ip now) d = (if ip \<in> set (dc_entering d) then enqueue_reserve it ip now d else d)"
| "cache_step it show_ip (Resolved ip reverse_name forward) d =
     (if ip \<in> set (dc_jobs d)
      then d\<lparr>dc_jobs := remove1 ip (dc_jobs d), dc_permits := dc_permits d + 1,
             dc_done := (ip, confirmed_name show_ip ip reverse_name forward) # dc_done d\<rparr>
      else d)"
| "cache_step it show_ip (Recorded ip hostname now) d =
     (if (ip, hostname) \<in> set (dc_done d)
      then record_ptr_result it ip hostname now (d\<lparr>dc_done := remove1 (ip, hostname) (dc_done d)\<rparr>)
      else d)"

definition cache_run :: "(host_map \<Rightarrow> host_map) \<Rightarrow> (ip_addr \<Rightarrow> string) \<Rightarrow> cache_event list \<Rightarrow> dns_cache" where
  "cache_run it show_ip evs = fold (cache_step it show_ip) evs new_cache"

section \<open>What a run leaves in the caches\<close>

text \<open>The name was the reverse answer for the address, and resolved back to it.\<close>

definition confirmed_in :: "(ip_addr \<Rightarrow> string) \<Rightarrow> cache_event list \<Rightarrow> ip_addr \<Rightarrow> string \<Rightarrow> bool" where
  "confirmed_in show_ip evs ip h \<longleftrightarrow> h \<noteq> show_ip ip \<and>
     (\<exists>forward addrs. Resolved ip (Some h) forward \<in> set evs \<and> forward h = Some addrs \<and> addrs_contain addrs ip)"

definition recorded_entry :: "(ip_addr \<Rightarrow> string) \<Rightarrow> cache_event list \<Rightarrow> ip_addr \<Rightarrow> host_entry \<Rightarrow> bool" where
  "recorded_entry show_ip evs ip e \<longleftrightarrow>
     he_trust e = Ptr \<and>
     (\<forall>h. he_hostname e = Some h \<longrightarrow>
        confirmed_in show_ip evs ip h \<and> Recorded ip (Some h) (he_inserted e) \<in> set evs \<and> he_ttl e = from_secs CACHE_TTL_SECS)"

definition observed_entry :: "host_entry \<Rightarrow> bool" where
  "observed_entry e \<longleftrightarrow> he_trust e = ObservedName \<and>
     (\<exists>h. he_hostname e = Some h \<and> h \<noteq> [] \<and> list_all is_host_char h) \<and>
     from_secs OBSERVED_MIN_TTL_SECS \<le> he_ttl e \<and> he_ttl e \<le> from_secs OBSERVED_MAX_TTL_SECS"

definition names_ok :: "(ip_addr \<Rightarrow> string) \<Rightarrow> cache_event list \<Rightarrow> dns_cache \<Rightarrow> bool" where
  "names_ok show_ip evs d \<longleftrightarrow>
     (\<forall>ip e. (ip, e) \<in> set (dc_policy d) \<longrightarrow> recorded_entry show_ip evs ip e) \<and>
     (\<forall>ip e. (ip, e) \<in> set (dc_cache d) \<longrightarrow> recorded_entry show_ip evs ip e \<or> observed_entry e) \<and>
     (\<forall>ip h. (ip, Some h) \<in> set (dc_done d) \<longrightarrow> confirmed_in show_ip evs ip h)"

definition permits_ok :: "dns_cache \<Rightarrow> bool" where
  "permits_ok d \<longleftrightarrow> dc_permits d + length (dc_entering d) + length (dc_jobs d) = LOOKUP_MAX_IN_FLIGHT"

lemma names_ok_cong:
  "dc_policy d' = dc_policy d \<Longrightarrow> dc_cache d' = dc_cache d \<Longrightarrow> set (dc_done d') \<subseteq> set (dc_done d) \<Longrightarrow>
    names_ok show_ip evs d \<Longrightarrow> names_ok show_ip evs d'"
  by (auto simp: names_ok_def)

lemma names_ok_cache:
  "names_ok show_ip evs d \<Longrightarrow> recorded_entry show_ip evs ip e \<or> observed_entry e \<Longrightarrow>
    set m \<subseteq> insert (ip, e) (set (dc_cache d)) \<Longrightarrow> names_ok show_ip evs (d\<lparr>dc_cache := m\<rparr>)"
  unfolding names_ok_def by (simp, blast)

lemma names_ok_policy:
  "names_ok show_ip evs d \<Longrightarrow> recorded_entry show_ip evs ip e \<Longrightarrow>
    set m \<subseteq> insert (ip, e) (set (dc_policy d)) \<Longrightarrow> names_ok show_ip evs (d\<lparr>dc_policy := m\<rparr>)"
  unfolding names_ok_def by (simp, blast)

lemma names_ok_frame [simp]:
  "names_ok show_ip evs (d\<lparr>dc_permits := n\<rparr>) = names_ok show_ip evs d"
  "names_ok show_ip evs (d\<lparr>dc_entering := ips\<rparr>) = names_ok show_ip evs d"
  "names_ok show_ip evs (d\<lparr>dc_jobs := ips\<rparr>) = names_ok show_ip evs d"
  by (simp_all add: names_ok_def)

lemma Suc_length_remove1: "x \<in> set xs \<Longrightarrow> Suc (length (remove1 x xs)) = length xs"
  using length_pos_if_in_set [of x xs] by (auto simp: length_remove1)

lemma confirmed_in_mono: "confirmed_in show_ip evs ip h \<Longrightarrow> confirmed_in show_ip (evs @ evs') ip h"
  by (auto simp: confirmed_in_def)

lemma recorded_entry_mono: "recorded_entry show_ip evs ip e \<Longrightarrow> recorded_entry show_ip (evs @ evs') ip e"
  by (auto simp: recorded_entry_def confirmed_in_mono)

lemma names_ok_mono: "names_ok show_ip evs d \<Longrightarrow> names_ok show_ip (evs @ evs') d"
  unfolding names_ok_def by (meson confirmed_in_mono recorded_entry_mono)

lemma set_evict: "set (evict_if_full it m) \<subseteq> set m"
  by (auto simp: evict_if_full_def AList.delete_eq split: option.split)

lemma set_update: "set (AList.update k v m) \<subseteq> insert (k, v) (set m)"
  by (induction m) auto

lemma set_update_evict: "set (AList.update k v (evict_if_full it m)) \<subseteq> insert (k, v) (set m)"
  using set_update [of k v "evict_if_full it m"] set_evict [of it m] by blast

lemma observe_ok: "names_ok show_ip evs d \<Longrightarrow> names_ok show_ip evs (observe_answer_at it ip name ttl now d)"
proof -
  assume ok: "names_ok show_ip evs d"
  have "observed_entry \<lparr>he_hostname = Some n, he_inserted = now, he_in_flight = False, he_trust = ObservedName,
      he_ttl = from_secs (max OBSERVED_MIN_TTL_SECS (min OBSERVED_MAX_TTL_SECS (unat ttl)))\<rparr>"
    if "n \<noteq> []" "list_all is_host_char n" for n
    using that by (auto simp: observed_entry_def from_secs_def OBSERVED_MIN_TTL_SECS_def OBSERVED_MAX_TTL_SECS_def)
  then show ?thesis
    using ok by (auto simp: observe_answer_at_def Let_def intro!: names_ok_cache [OF ok _ set_update_evict])
qed

lemma observe_permits: "permits_ok (observe_answer_at it ip name ttl now d) = permits_ok d"
  by (simp add: observe_answer_at_def permits_ok_def Let_def)

lemma consume_keeps:
  assumes "\<And>ip name ttl d. P d \<Longrightarrow> P (observe_answer_at it ip name ttl now d)" "P d"
  shows "P (consume_packet it scratch now p d)"
proof -
  have "P (fold (\<lambda>a d. if name_str a = [] then d
      else observe_answer_at it (answer_ip_addr a) (name_str a) (an_ttl a) now d) as d)" for as
    using assms(2) by (induction as arbitrary: d) (simp_all add: assms(1))
  with assms(2) show ?thesis by (simp add: consume_packet_def)
qed

lemma reserve_ok: "names_ok show_ip evs d \<Longrightarrow> names_ok show_ip evs (enqueue_reserve it ip now d)"
proof -
  assume ok: "names_ok show_ip evs d"
  let ?e = "\<lparr>he_hostname = None, he_inserted = now, he_in_flight = True, he_trust = Ptr, he_ttl = from_secs NEGATIVE_TTL_SECS\<rparr>"
  let ?d = "d\<lparr>dc_entering := remove1 ip (dc_entering d)\<rparr>"
  have "names_ok show_ip evs (?d\<lparr>dc_policy := AList.update ip ?e (evict_if_full it (dc_policy ?d))\<rparr>)"
    by (rule names_ok_policy [OF _ _ set_update_evict]) (simp_all add: ok recorded_entry_def)
  with ok show ?thesis by (simp add: enqueue_reserve_def Let_def)
qed

lemma reserve_permits: "ip \<in> set (dc_entering d) \<Longrightarrow> permits_ok d \<Longrightarrow> permits_ok (enqueue_reserve it ip now d)"
  using Suc_length_remove1 [of ip "dc_entering d"]
  by (auto simp: enqueue_reserve_def permits_ok_def Let_def)

lemma record_ok:
  assumes "names_ok show_ip evs d" "\<And>h. hostname = Some h \<Longrightarrow> confirmed_in show_ip evs ip h" "Recorded ip hostname now \<in> set evs"
  shows "names_ok show_ip evs (record_ptr_result it ip hostname now d)"
proof -
  let ?e = "\<lparr>he_hostname = hostname, he_inserted = now, he_in_flight = False, he_trust = Ptr,
    he_ttl = from_secs (if hostname \<noteq> None then CACHE_TTL_SECS else NEGATIVE_TTL_SECS)\<rparr>"
  let ?d = "d\<lparr>dc_policy := AList.update ip ?e (dc_policy d)\<rparr>"
  have e: "recorded_entry show_ip evs ip ?e" using assms(2,3) by (auto simp: recorded_entry_def)
  have p: "names_ok show_ip evs ?d" by (rule names_ok_policy [OF assms(1) e set_update])
  have "set (AList.update ip ?e (if map_of (dc_cache ?d) ip = None then evict_if_full it (dc_cache ?d) else dc_cache ?d))
      \<subseteq> insert (ip, ?e) (set (dc_cache ?d))"
    using set_update_evict [of ip ?e it "dc_cache d"] set_update [of ip ?e "dc_cache d"] by simp
  from names_ok_cache [OF p disjI1 [OF e] this] p assms(1) show ?thesis
    unfolding record_ptr_result_def Let_def by simp
qed

lemma record_permits: "permits_ok (record_ptr_result it ip hostname now d) = permits_ok d"
  by (simp add: record_ptr_result_def permits_ok_def Let_def)

lemma step_names: "names_ok show_ip evs d \<Longrightarrow> names_ok show_ip (evs @ [e]) (cache_step it show_ip e d)"
proof -
  assume "names_ok show_ip evs d"
  then have ok: "names_ok show_ip (evs @ [e]) d" by (rule names_ok_mono)
  show ?thesis
  proof (cases e)
    case (Packet scratch now p)
    show ?thesis unfolding Packet cache_step.simps
      by (rule consume_keeps) (use ok Packet in \<open>simp_all add: observe_ok\<close>)
  next
    case (Enqueue ip now)
    with ok show ?thesis by (simp add: enqueue_begin_def)
  next
    case (Resolved ip reverse_name forward)
    have "confirmed_in show_ip (evs @ [e]) ip h" if "confirmed_name show_ip ip reverse_name forward = Some h" for h
      using that by (auto simp: Resolved confirmed_name_def confirmed_in_def forward_confirm_def split: option.splits if_splits)
    then show ?thesis using ok by (auto simp: Resolved names_ok_def)
  next
    case (Recorded ip hostname now)
    let ?d = "d\<lparr>dc_done := remove1 (ip, hostname) (dc_done d)\<rparr>"
    have "names_ok show_ip (evs @ [e]) ?d"
      by (rule names_ok_cong [OF _ _ _ ok]) (simp_all add: set_remove1_subset)
    moreover have "confirmed_in show_ip (evs @ [e]) ip h" if "(ip, hostname) \<in> set (dc_done d)" "hostname = Some h" for h
      using ok that unfolding names_ok_def by blast
    ultimately show ?thesis
      using ok record_ok [of show_ip "evs @ [e]" ?d hostname ip now it]
      by (cases "(ip, hostname) \<in> set (dc_done d)") (auto simp: Recorded)
  qed (use ok in \<open>simp add: reserve_ok\<close>)
qed

lemma step_permits: "permits_ok d \<Longrightarrow> permits_ok (cache_step it show_ip e d)"
proof (cases e)
  case (Packet scratch now p)
  then show "permits_ok d \<Longrightarrow> ?thesis" using consume_keeps [of permits_ok it now d scratch p] by (simp add: observe_permits)
next
  case (Resolved ip reverse_name forward)
  then show "permits_ok d \<Longrightarrow> ?thesis"
    using Suc_length_remove1 [of ip "dc_jobs d"] by (auto simp: permits_ok_def)
next
  case (Recorded ip hostname now)
  then show "permits_ok d \<Longrightarrow> ?thesis" by (simp add: record_permits) (simp add: permits_ok_def)
qed (auto simp: enqueue_begin_def reserve_permits, simp add: permits_ok_def)

lemma run_snoc: "cache_run it show_ip (evs @ [e]) = cache_step it show_ip e (cache_run it show_ip evs)"
  by (simp add: cache_run_def)

lemma cache_run_names: "names_ok show_ip evs (cache_run it show_ip evs)"
proof (induction evs rule: rev_induct)
  case Nil
  then show ?case by (simp add: cache_run_def names_ok_def new_cache_def)
next
  case (snoc e evs)
  then show ?case by (simp add: run_snoc step_names)
qed

lemma cache_run_permits: "permits_ok (cache_run it show_ip evs)"
proof (induction evs rule: rev_induct)
  case Nil
  then show ?case by (simp add: cache_run_def permits_ok_def new_cache_def)
next
  case (snoc e evs)
  then show ?case by (simp add: run_snoc step_permits)
qed

text \<open>C36: a verified host name was confirmed.  Whatever observed responses, lookups and completions
  interleaved, the name the packet path takes for an address, always as a verified one, was
  the answer of a reverse lookup of that address, is not the address itself, resolved forward to
  the address in the same lookup, and was recorded at most five minutes ago; observed responses
  never supply it.\<close>

theorem verified_hosts_are_confirmed:
  assumes "cached_named ip now (cache_run it show_ip evs) = Some (h, verified)"
  shows "verified \<and> confirmed_in show_ip evs ip h \<and>
    (\<exists>t. Recorded ip (Some h) t \<in> set evs \<and> now - t \<le> from_secs CACHE_TTL_SECS)"
proof -
  let ?d = "cache_run it show_ip evs"
  from assms obtain e where e: "map_of (dc_policy ?d) ip = Some e" "is_fresh e now" "he_hostname e = Some h" verified
    by (auto simp: cached_named_def split: option.splits if_splits)
  from map_of_SomeD [OF e(1)] have "recorded_entry show_ip evs ip e"
    using cache_run_names [of show_ip evs it] by (simp add: names_ok_def)
  with e show ?thesis by (auto simp: recorded_entry_def is_fresh_def)
qed

definition example_ip :: ip_addr where "example_ip = V4 0x01020304"

definition example_lookup :: "cache_event list" where
  "example_lookup = [Enqueue example_ip 0, Reserve example_ip 1,
     Resolved example_ip (Some ''a.example'') (\<lambda>_. Some [V6 0xFFFF01020304]), Recorded example_ip (Some ''a.example'') 7]"

theorem verified_hosts_are_confirmed_witness:
  "cached_named example_ip 9 (cache_run id (\<lambda>_. ''1.2.3.4'') example_lookup) = Some (''a.example'', True) \<and>
     confirmed_in (\<lambda>_. ''1.2.3.4'') example_lookup example_ip ''a.example''"
proof -
  have "cached_named example_ip 9 (cache_run id (\<lambda>_. ''1.2.3.4'') example_lookup) = Some (''a.example'', True)"
    by (simp add: example_lookup_def example_ip_def cache_run_def new_cache_def enqueue_begin_def busy_or_fresh_def
        enqueue_reserve_def evict_if_full_def CACHE_MAX_ENTRIES_def LOOKUP_MAX_IN_FLIGHT_def confirmed_name_def
        forward_confirm_def addrs_contain_def record_ptr_result_def cached_named_def is_fresh_def from_secs_def
        CACHE_TTL_SECS_def Let_def)
  with verified_hosts_are_confirmed [OF this] show ?thesis by simp
qed

section \<open>Bounds\<close>

lemma oldest_in: "oldest m = Some k \<Longrightarrow> k \<in> fst ` set m"
proof (cases m)
  case (Cons x xs)
  assume "oldest m = Some k"
  have "fold (\<lambda>y best. if he_inserted (snd y) < he_inserted (snd best) then y else best) ys b \<in> insert b (set ys)"
    for ys :: host_map and b
    by (induction ys arbitrary: b) (auto split: if_splits)
  from this [of xs x] \<open>oldest m = Some k\<close> Cons show ?thesis by auto
qed simp

lemma length_evict:
  assumes "mset (it m) = mset m" "length m \<le> CACHE_MAX_ENTRIES"
  shows "length (evict_if_full it m) < CACHE_MAX_ENTRIES"
proof (cases "length m < CACHE_MAX_ENTRIES")
  case False
  then have "it m \<noteq> []" using assms(1) by (auto simp: CACHE_MAX_ENTRIES_def)
  then obtain k where k: "oldest (it m) = Some k" by (cases "it m") auto
  then have "k \<in> fst ` set m" using oldest_in [OF k] mset_eq_setD [OF assms(1)] by simp
  then have "length (AList.delete k m) < length m"
    unfolding AList.delete_eq by (auto intro!: length_filter_less)
  with False k assms(2) show ?thesis by (simp add: evict_if_full_def)
qed (simp add: evict_if_full_def)

definition bounded :: "dns_cache \<Rightarrow> bool" where
  "bounded d \<longleftrightarrow> length (dc_cache d) \<le> CACHE_MAX_ENTRIES \<and> length (dc_policy d) \<le> CACHE_MAX_ENTRIES"

lemma length_update_evict:
  "mset (it m) = mset m \<Longrightarrow> length m \<le> CACHE_MAX_ENTRIES \<Longrightarrow>
    length (AList.update k v (evict_if_full it m)) \<le> CACHE_MAX_ENTRIES"
  using length_evict [of it m] length_update_le [of k v "evict_if_full it m"] by linarith

lemma bounded_step:
  assumes "\<forall>m. mset (it m) = mset m" "bounded d"
  shows "bounded (cache_step it show_ip e d)"
proof (cases e)
  case (Packet scratch now p)
  have observe: "bounded (observe_answer_at it ip name ttl now d)" if "bounded d" for ip name ttl d
    using that assms(1) length_update_evict [of it "dc_cache d"] by (simp add: observe_answer_at_def bounded_def Let_def)
  have "bounded (fold (\<lambda>a d. if name_str a = [] then d
      else observe_answer_at it (answer_ip_addr a) (name_str a) (an_ttl a) now d) as d)" for as
    using assms(2) observe by (induction as arbitrary: d) simp_all
  with Packet assms(2) show ?thesis by (simp add: consume_packet_def)
next
  case (Reserve ip now)
  with assms length_update_evict [of it "dc_policy d"] show ?thesis
    by (simp add: enqueue_reserve_def bounded_def Let_def busy_or_fresh_def)
next
  case (Recorded ip hostname now)
  with assms length_update_evict [of it "dc_cache d"] show ?thesis
    by (auto simp: record_ptr_result_def bounded_def Let_def length_update_present)
qed (use assms in \<open>simp_all add: enqueue_begin_def bounded_def\<close>)

text \<open>C37: hostile traffic cannot grow the caches, and shows only host-name characters.  In every run
  both caches hold at most 4096 entries, at most eight lookups wait or run, and a name shown
  for an address is either confirmed by a lookup or made of letters, digits, dots, hyphens and
  underscores and kept for at most an hour.\<close>

theorem dns_cache_stays_bounded:
  assumes "\<forall>m. mset (it m) = mset m"
  shows "length (dc_cache (cache_run it show_ip evs)) \<le> CACHE_MAX_ENTRIES \<and>
    length (dc_policy (cache_run it show_ip evs)) \<le> CACHE_MAX_ENTRIES \<and>
    length (dc_entering (cache_run it show_ip evs)) + length (dc_jobs (cache_run it show_ip evs)) \<le> LOOKUP_MAX_IN_FLIGHT \<and>
    (\<forall>ip now h. lookup_at ip now (cache_run it show_ip evs) = Some h \<longrightarrow>
       confirmed_in show_ip evs ip h \<or>
       list_all is_host_char h \<and> (\<exists>e. map_of (dc_cache (cache_run it show_ip evs)) ip = Some e \<and>
         now - he_inserted e \<le> from_secs OBSERVED_MAX_TTL_SECS))"
proof -
  let ?d = "cache_run it show_ip evs"
  have "bounded ?d"
    using assms by (induction evs rule: rev_induct) (simp_all add: run_snoc bounded_step, simp add: cache_run_def new_cache_def bounded_def)
  moreover have "confirmed_in show_ip evs ip h \<or> list_all is_host_char h \<and>
      (\<exists>e. map_of (dc_cache ?d) ip = Some e \<and> now - he_inserted e \<le> from_secs OBSERVED_MAX_TTL_SECS)"
    if "lookup_at ip now ?d = Some h" for ip now h
  proof -
    from that obtain e where e: "map_of (dc_cache ?d) ip = Some e" "is_fresh e now" "he_hostname e = Some h"
      by (auto simp: lookup_at_def split: option.splits if_splits)
    from map_of_SomeD [OF e(1)] have "recorded_entry show_ip evs ip e \<or> observed_entry e"
      using cache_run_names [of show_ip evs it] by (simp add: names_ok_def)
    with e show ?thesis by (auto simp: recorded_entry_def observed_entry_def is_fresh_def)
  qed
  ultimately show ?thesis using cache_run_permits [of it show_ip evs] by (auto simp: bounded_def permits_ok_def)
qed

theorem dns_cache_stays_bounded_witness:
  "length (dc_policy (cache_run id (\<lambda>_. ''1.2.3.4'') example_lookup)) = 1 \<and>
   length (dc_policy (cache_run id (\<lambda>_. ''1.2.3.4'') example_lookup)) \<le> CACHE_MAX_ENTRIES"
  using dns_cache_stays_bounded [of id "\<lambda>_. ''1.2.3.4''" example_lookup]
  by (simp add: example_lookup_def example_ip_def cache_run_def new_cache_def enqueue_begin_def busy_or_fresh_def
        enqueue_reserve_def evict_if_full_def CACHE_MAX_ENTRIES_def LOOKUP_MAX_IN_FLIGHT_def confirmed_name_def
        forward_confirm_def addrs_contain_def record_ptr_result_def Let_def)

end
