(* ===== verification/SockDiag.thy ===== *)
theory SockDiag
  imports CoreTypes
begin

text \<open>
  \<open>crates/cfc-daemon/src/sock_diag.rs\<close>: which socket a flow belongs to, asked of the kernel over
  netlink.  The order of the host's bytes is the argument \<open>endian\<close>.  A netlink socket is the
  queue of datagrams waiting on it; what the system calls of one exchange answer is the record
  \<open>exchange_io\<close>, whose \<open>io_arrive\<close> is what the kernel delivers once a request is sent.
\<close>

section \<open>Native byte order\<close>

datatype endian = LittleEndian | BigEndian

definition ne :: "endian \<Rightarrow> bytes \<Rightarrow> bytes" where
  "ne e bs = (case e of BigEndian \<Rightarrow> bs | LittleEndian \<Rightarrow> rev bs)"

definition from_ne :: "endian \<Rightarrow> bytes \<Rightarrow> 'a::len word" where
  "from_ne e bs = from_be (ne e bs)"

definition to_ne16 :: "endian \<Rightarrow> u16 \<Rightarrow> bytes" where "to_ne16 e w = ne e (to_be16 w)"
definition to_ne32 :: "endian \<Rightarrow> u32 \<Rightarrow> bytes" where "to_ne32 e w = ne e (to_be32 w)"

section \<open>The request\<close>

definition SOCK_DIAG_BY_FAMILY :: u16 where "SOCK_DIAG_BY_FAMILY = 20"
definition NLM_F_REQUEST :: u16 where "NLM_F_REQUEST = 1"
definition NLMSG_HDR_LEN :: nat where "NLMSG_HDR_LEN = 16"
definition INET_DIAG_REQ_V2_LEN :: nat where "INET_DIAG_REQ_V2_LEN = 56"
definition REQ_LEN :: nat where "REQ_LEN = NLMSG_HDR_LEN + INET_DIAG_REQ_V2_LEN"
definition INET_DIAG_MSG_LEN :: nat where "INET_DIAG_MSG_LEN = 72"
definition libc_IPPROTO_TCP :: u8 where "libc_IPPROTO_TCP = 6"
definition libc_IPPROTO_UDP :: u8 where "libc_IPPROTO_UDP = 17"
definition libc_AF_UNIX :: u8 where "libc_AF_UNIX = 1"
definition libc_AF_INET :: u8 where "libc_AF_INET = 2"
definition libc_AF_INET6 :: u8 where "libc_AF_INET6 = 10"

lemmas diag_consts = SOCK_DIAG_BY_FAMILY_def NLM_F_REQUEST_def NLMSG_HDR_LEN_def INET_DIAG_REQ_V2_LEN_def
  REQ_LEN_def INET_DIAG_MSG_LEN_def

record sock_info =
  si_inode :: u64
  si_cookie :: "u64 option"
  si_uid :: u32

text \<open>\<open>idiag_src\<close> and \<open>idiag_dst\<close> are 16 bytes, of which an IPv4 address fills the first 4.\<close>

definition write_addr :: "nat \<Rightarrow> ip_addr \<Rightarrow> bytes \<Rightarrow> bytes" where
  "write_addr at ip buf = put at (octets ip) buf"

definition build_request :: "endian \<Rightarrow> u8 \<Rightarrow> u8 \<Rightarrow> ip_addr \<times> u16 \<Rightarrow> ip_addr \<times> u16 \<Rightarrow> u32 \<Rightarrow> bytes" where
  "build_request e family proto local remote seq =
     (let buf = replicate REQ_LEN 0;
          buf = put 0 (to_ne32 e (word_of_nat REQ_LEN)) buf;
          buf = put 4 (to_ne16 e SOCK_DIAG_BY_FAMILY) buf;
          buf = put 6 (to_ne16 e NLM_F_REQUEST) buf;
          buf = put 8 (to_ne32 e seq) buf;
          buf = buf[16 := family];
          buf = buf[17 := proto];
          buf = put 20 (to_ne32 e (- 1)) buf;
          buf = put 24 (to_be16 (snd local)) buf;
          buf = put 26 (to_be16 (snd remote)) buf;
          buf = write_addr 28 (fst local) buf;
          buf = write_addr 44 (fst remote) buf in
      put 64 (replicate 8 0xFF) buf)"

section \<open>The answer\<close>

definition reply_seq :: "endian \<Rightarrow> bytes \<Rightarrow> u32 option" where
  "reply_seq e buf = map_option (from_ne e) (get_range buf 8 12)"

definition parse_msg :: "endian \<Rightarrow> bytes \<Rightarrow> sock_info option run" where
  "parse_msg e payload =
     sl payload 44 52 (\<lambda>c.
       let cookie_raw = from_ne e c :: u64;
           cookie = (if cookie_raw \<noteq> 0 \<and> cookie_raw \<noteq> - 1 then Some cookie_raw else None) in
       sl payload 64 68 (\<lambda>u.
         sl payload 68 72 (\<lambda>i.
           let inode = ucast (from_ne e i :: u32) in
           if inode = 0 then Ret None
           else Ret (Some \<lparr>si_inode = inode, si_cookie = cookie, si_uid = from_ne e u\<rparr>))))"

definition parse_response :: "endian \<Rightarrow> bytes \<Rightarrow> u8 \<Rightarrow> sock_info option run" where
  "parse_response e buf proto =
     (if length buf < NLMSG_HDR_LEN then Ret None
      else sl buf 0 4 (\<lambda>l. sl buf 4 6 (\<lambda>t.
        let msg_len = unat (from_ne e l :: u32) in
        if from_ne e t \<noteq> SOCK_DIAG_BY_FAMILY \<or> msg_len < NLMSG_HDR_LEN \<or> length buf < msg_len then Ret None
        else sl buf NLMSG_HDR_LEN msg_len (\<lambda>payload.
          if length payload < INET_DIAG_MSG_LEN then Ret None
          else if proto = libc_IPPROTO_TCP
               then rd payload 1 (\<lambda>state. if state = 0x0A then Ret None else parse_msg e payload)
               else parse_msg e payload))))"

section \<open>One exchange on the thread's socket\<close>

record exchange_io =
  io_opens :: bool
  io_sent :: bool
  io_arrive :: "bytes \<Rightarrow> bytes list"

definition RECV_LEN :: nat where "RECV_LEN = 8192"

definition exchange :: "endian \<Rightarrow> exchange_io \<Rightarrow> bytes \<Rightarrow> u32 \<Rightarrow> bytes list \<Rightarrow> bytes option \<times> bytes list" where
  "exchange e io req seq sock =
     (if \<not> io_sent io then (None, sock)
      else (case sock @ io_arrive io req of
              [] \<Rightarrow> (None, [])
            | d # rest \<Rightarrow>
                let got = take RECV_LEN d in
                if got = [] \<or> reply_seq e got \<noteq> Some seq then (None, rest) else (Some got, rest)))"

datatype reply = Found sock_info | NoSuchSocket | Desync

definition ask :: "endian \<Rightarrow> exchange_io \<Rightarrow> bytes \<Rightarrow> bytes list option \<Rightarrow> (sock_info option \<times> bytes list option) run" where
  "ask e io req slot =
     sl req 8 12 (\<lambda>s.
       let seq = from_ne e s in
       case (if slot = None \<and> io_opens io then Some [] else slot) of
         None \<Rightarrow> Ret (None, None)
       | Some sock \<Rightarrow>
           let (got, sock) = exchange e io req seq sock in
           bind_run
             (case got of
                None \<Rightarrow> Ret Desync
              | Some buf \<Rightarrow>
                  rd req 17 (\<lambda>proto. map_run (\<lambda>r. case r of None \<Rightarrow> NoSuchSocket | Some info \<Rightarrow> Found info)
                                             (parse_response e buf proto)))
             (\<lambda>reply. Ret (case reply of
                Found info \<Rightarrow> (Some info, Some sock)
              | NoSuchSocket \<Rightarrow> (None, Some sock)
              | Desync \<Rightarrow> (None, None))))"

text \<open>The thread's two cells, and a request under the next number.\<close>

record diag_thread =
  dt_socket :: "bytes list option"
  dt_seq :: u32

definition new_thread :: diag_thread where
  "new_thread = \<lparr>dt_socket = None, dt_seq = 1\<rparr>"

definition next_seq :: "diag_thread \<Rightarrow> u32 \<times> diag_thread" where
  "next_seq T = (dt_seq T, T\<lparr>dt_seq := (if dt_seq T = - 1 then 1 else dt_seq T + 1)\<rparr>)"

type_synonym diag_ask = "u8 \<times> u8 \<times> (ip_addr \<times> u16) \<times> (ip_addr \<times> u16)"

definition ask_next :: "endian \<Rightarrow> exchange_io \<Rightarrow> diag_ask \<Rightarrow> diag_thread \<Rightarrow> (sock_info option \<times> diag_thread) run" where
  "ask_next e io q T =
     (let (family, proto, local, remote) = q;
          (seq, T) = next_seq T in
      bind_run (ask e io (build_request e family proto local remote seq) (dt_socket T))
        (\<lambda>(info, slot). Ret (info, T\<lparr>dt_socket := slot\<rparr>)))"

definition query :: "endian \<Rightarrow> exchange_io \<Rightarrow> exchange_io \<Rightarrow> protocol \<Rightarrow> ip_addr \<Rightarrow> u16 \<Rightarrow> ip_addr \<Rightarrow> u16 \<Rightarrow> diag_thread
    \<Rightarrow> (sock_info option \<times> diag_thread) run" where
  "query e io io2 proto src_ip src_port dst_ip dst_port T =
     (case (case proto of Tcp \<Rightarrow> Some libc_IPPROTO_TCP | Udp \<Rightarrow> Some libc_IPPROTO_UDP | _ \<Rightarrow> None) of
        None \<Rightarrow> Ret (None, T)
      | Some proto_num \<Rightarrow>
          let family = (case src_ip of V4 _ \<Rightarrow> libc_AF_INET | V6 _ \<Rightarrow> libc_AF_INET6) in
          bind_run (ask_next e io (family, proto_num, (src_ip, src_port), (dst_ip, dst_port)) T) (\<lambda>(info, T).
            if info \<noteq> None then Ret (info, T)
            else if proto = Udp then ask_next e io2 (family, proto_num, (dst_ip, dst_port), (src_ip, src_port)) T
            else Ret (None, T)))"

section \<open>The other end of a Unix socket\<close>

definition UNIX_DIAG_REQ_LEN :: nat where "UNIX_DIAG_REQ_LEN = 24"
definition UNIX_REQ_LEN :: nat where "UNIX_REQ_LEN = NLMSG_HDR_LEN + UNIX_DIAG_REQ_LEN"
definition UNIX_DIAG_MSG_LEN :: nat where "UNIX_DIAG_MSG_LEN = 16"
definition UDIAG_SHOW_PEER :: u32 where "UDIAG_SHOW_PEER = 4"
definition UNIX_DIAG_PEER :: u16 where "UNIX_DIAG_PEER = 2"
definition NLMSG_ERROR :: u16 where "NLMSG_ERROR = 2"

text \<open>\<open>OsError\<close> holds the bits of the i32 that \<open>from_raw_os_error\<close> is given.\<close>

datatype io_error = InvalidInput | OpenFailed | TimedOut | OsError u32 | Malformed | NoPeer

definition build_unix_request :: "endian \<Rightarrow> u32 \<Rightarrow> u32 \<Rightarrow> bytes" where
  "build_unix_request e inode seq =
     (let buf = replicate UNIX_REQ_LEN 0;
          buf = put 0 (to_ne32 e (word_of_nat UNIX_REQ_LEN)) buf;
          buf = put 4 (to_ne16 e SOCK_DIAG_BY_FAMILY) buf;
          buf = put 6 (to_ne16 e NLM_F_REQUEST) buf;
          buf = put 8 (to_ne32 e seq) buf;
          buf = buf[16 := libc_AF_UNIX];
          buf = put 20 (to_ne32 e (- 1)) buf;
          buf = put 24 (to_ne32 e inode) buf;
          buf = put 28 (to_ne32 e UDIAG_SHOW_PEER) buf in
      put 32 (replicate 8 0xFF) buf)"

definition align4 :: "nat \<Rightarrow> nat" where
  "align4 n = (n + 3) div 4 * 4"

lemma align4_ge: "n \<le> align4 n"
  by (simp add: align4_def)

text \<open>The attributes, four header bytes each; the rest of the list is cut where the code cuts it.\<close>

function peer_attr :: "endian \<Rightarrow> bytes \<Rightarrow> (io_error + u64) run" where
  "peer_attr e attrs =
     (case attrs of
        l0 # l1 # k0 # k1 # _ \<Rightarrow>
          let len = unat (from_ne e [l0, l1] :: u16); kind = from_ne e [k0, k1] in
          if len < 4 \<or> length attrs < len then Ret (Inl NoPeer)
          else
            let peer = (from_ne e (take 4 (drop 4 attrs)) :: u32) in
            if kind = UNIX_DIAG_PEER \<and> 8 \<le> len \<and> peer \<noteq> 0 then Ret (Inr (ucast peer))
            else if align4 len \<le> length attrs then peer_attr e (drop (align4 len) attrs)
            else Panic
      | _ \<Rightarrow> Ret (Inl NoPeer))"
  by pat_completeness auto
termination
proof (relation "measure (\<lambda>(e, attrs). length attrs)", goal_cases)
  case 1
  then show ?case by simp
next
  case (2 e attrs l0 rest l1 rest' k0 rest'' k1 body len kind peer)
  then have "4 \<le> align4 len" using align4_ge [of len] by simp
  with 2 show ?case by simp
qed

declare peer_attr.simps [simp del]

definition parse_unix_peer :: "endian \<Rightarrow> bytes \<Rightarrow> u32 \<Rightarrow> (io_error + u64) run" where
  "parse_unix_peer e buf inode =
     (case get_range buf 0 NLMSG_HDR_LEN of
        None \<Rightarrow> Ret (Inl Malformed)
      | Some header \<Rightarrow>
          sl header 0 4 (\<lambda>l. sl header 4 6 (\<lambda>t.
            let msg_len = unat (from_ne e l :: u32); msg_type = from_ne e t in
            case get_range buf NLMSG_HDR_LEN msg_len of
              None \<Rightarrow> Ret (Inl Malformed)
            | Some msg \<Rightarrow>
                if msg_type = NLMSG_ERROR then
                  (case get_range msg 0 4 of
                     None \<Rightarrow> Ret (Inl Malformed)
                   | Some errno \<Rightarrow> Ret (Inl (OsError (- from_ne e errno))))
                else if msg_type \<noteq> SOCK_DIAG_BY_FAMILY \<or> length msg < UNIX_DIAG_MSG_LEN then Ret (Inl Malformed)
                else sl msg 4 8 (\<lambda>i.
                  if from_ne e i \<noteq> inode then Ret (Inl Malformed)
                  else sl msg UNIX_DIAG_MSG_LEN (length msg) (peer_attr e)))))"

definition unix_peer_inode :: "endian \<Rightarrow> exchange_io \<Rightarrow> u64 \<Rightarrow> (io_error + u64) run" where
  "unix_peer_inode e io inode =
     (if 2 ^ 32 \<le> unat inode then Ret (Inl InvalidInput)
      else
        let inode = ucast inode; seq = 1; req = build_unix_request e inode seq in
        if \<not> io_opens io then Ret (Inl OpenFailed)
        else (case fst (exchange e io req seq []) of
                None \<Rightarrow> Ret (Inl TimedOut)
              | Some got \<Rightarrow> parse_unix_peer e got inode))"


section \<open>Byte order facts\<close>

lemma length_ne [simp]: "length (ne e bs) = length bs"
  by (cases e) (simp_all add: ne_def)

lemma ne_ne [simp]: "ne e (ne e bs) = bs"
  by (cases e) (simp_all add: ne_def)

lemma length_to_ne [simp]: "length (to_ne16 e w) = 2" "length (to_ne32 e v) = 4"
  by (simp_all add: to_ne16_def to_ne32_def)

lemma from_to_ne [simp]: "from_ne e (to_ne16 e w) = w" "from_ne e (to_ne32 e v) = v"
  by (simp_all add: from_ne_def to_ne16_def to_ne32_def from_be_to_be16 from_be_to_be32)

definition padded_addr :: "ip_addr \<Rightarrow> bytes" where
  "padded_addr ip = octets ip @ replicate (16 - length (octets ip)) 0"

lemma length_padded_addr [simp]: "length (padded_addr ip) = 16"
  by (cases ip) (simp_all add: padded_addr_def)

lemma build_request_layout:
  "build_request e family proto local remote seq =
     to_ne32 e 72 @ to_ne16 e 20 @ to_ne16 e 1 @ to_ne32 e seq @ replicate 4 0 @ [family, proto, 0, 0] @
     to_ne32 e (- 1) @ to_be16 (snd local) @ to_be16 (snd remote) @ padded_addr (fst local) @
     padded_addr (fst remote) @ replicate 4 0 @ replicate 8 0xFF"
proof -
  have z: "replicate REQ_LEN (0 :: u8) =
      replicate 4 0 @ replicate 2 0 @ replicate 2 0 @ replicate 4 0 @ replicate 4 0 @ [0, 0, 0, 0] @
      replicate 4 0 @ replicate 2 0 @ replicate 2 0 @ replicate 16 0 @ replicate 16 0 @ replicate 4 0 @ replicate 8 0"
    by (simp add: diag_consts flip: replicate_add replicate_Suc)
  have n: "(word_of_nat REQ_LEN :: u32) = 72" by (simp add: diag_consts)
  have o: "length (octets ip) \<le> 16" for ip by (cases ip) simp_all
  define z2 z4 z8 z16 :: bytes
    where Z: "z2 = replicate 2 0" "z4 = replicate 4 0" "z8 = replicate 8 0" "z16 = replicate 16 0"
  have l: "length z2 = 2" "length z4 = 4" "length z8 = 8" "length z16 = 16" by (simp_all add: Z)
  have p: "padded_addr ip = octets ip @ drop (length (octets ip)) z16" for ip
    by (simp add: padded_addr_def Z)
  show ?thesis
    unfolding build_request_def z n write_addr_def p Let_def Z [symmetric]
    by (cases "fst local"; cases "fst remote") (simp_all add: put_skip put_skip1 put_here put_here_last list_update_append diag_consts o l)
qed


lemma request_fields:
  "length (build_request e family proto local remote seq) = 72"
  "build_request e family proto local remote seq ! 17 = proto"
  "reply_seq e (build_request e family proto local remote seq) = Some seq"
  "sl (build_request e family proto local remote seq) 8 12 k = k (to_ne32 e seq)"
  "rd (build_request e family proto local remote seq) 17 h = h proto"
proof -
  let ?pre = "to_ne32 e 72 @ to_ne16 e 20 @ to_ne16 e 1"
  let ?post = "replicate 4 0 @ [family, proto, 0, 0] @
     to_ne32 e (- 1) @ to_be16 (snd local) @ to_be16 (snd remote) @ padded_addr (fst local) @
     padded_addr (fst remote) @ replicate 4 0 @ replicate 8 0xFF"
  have eq: "build_request e family proto local remote seq = ?pre @ to_ne32 e seq @ ?post"
    by (simp add: build_request_layout)
  show len: "length (build_request e family proto local remote seq) = 72" by (simp add: eq)
  show nth: "build_request e family proto local remote seq ! 17 = proto" by (simp add: eq nth_append)
  show "rd (build_request e family proto local remote seq) 17 h = h proto" by (simp add: rd_in len nth)
  have "get_range (?pre @ to_ne32 e seq @ ?post) 8 12 = Some (to_ne32 e seq)"
    by (rule get_range_append) simp_all
  then show "reply_seq e (build_request e family proto local remote seq) = Some seq"
    by (simp add: eq reply_seq_def)
  show "sl (build_request e family proto local remote seq) 8 12 k = k (to_ne32 e seq)"
    unfolding eq by (rule sl_append) simp_all
qed

section \<open>Answers\<close>

lemma parse_msg_Ret:
  assumes "72 \<le> length payload"
  shows "\<exists>r. parse_msg e payload = Ret r"
  using assms by (simp add: parse_msg_def sl_in Let_def)

lemma parse_response_Ret: "\<exists>r. parse_response e buf proto = Ret r"
proof -
  have "\<exists>r. (if proto = libc_IPPROTO_TCP
               then rd payload 1 (\<lambda>state. if state = 0x0A then Ret None else parse_msg e payload)
               else parse_msg e payload) = Ret r" if "\<not> length payload < INET_DIAG_MSG_LEN" for payload
    using parse_msg_Ret [of payload e] that by (simp add: diag_consts rd_in)
  then show ?thesis
    by (simp add: parse_response_def diag_consts sl_in Let_def)
qed

lemma reply_seq_take: "12 \<le> n \<Longrightarrow> reply_seq e (take n d) = reply_seq e d"
  by (auto simp: reply_seq_def get_range_def drop_take min_def)

lemma exchange_Some:
  assumes "exchange e io req seq sock = (Some got, rest)"
  shows "\<exists>d. sock @ io_arrive io req = d # rest \<and> got = take RECV_LEN d \<and> reply_seq e d = Some seq"
  using assms reply_seq_take [of RECV_LEN e]
  by (auto simp: exchange_def Let_def RECV_LEN_def split: if_splits list.splits)

lemma exchange_keeps: "set (snd (exchange e io req seq sock)) \<subseteq> set sock \<union> set (io_arrive io req)"
proof -
  have "set rest \<subseteq> set sock \<union> set (io_arrive io req)" if "sock @ io_arrive io req = d # rest" for d rest
    using arg_cong [OF that, of set] by auto
  then show ?thesis by (auto simp: exchange_def Let_def split: list.split)
qed

text \<open>What one request under the next number does.\<close>

definition request_of :: "endian \<Rightarrow> diag_ask \<Rightarrow> u32 \<Rightarrow> bytes" where
  "request_of e q seq = (case q of (family, proto, local, remote) \<Rightarrow> build_request e family proto local remote seq)"

definition pending :: "diag_thread \<Rightarrow> bytes set" where
  "pending T = (case dt_socket T of None \<Rightarrow> {} | Some sock \<Rightarrow> set sock)"

lemma ask_next_Ret:
  obtains info T' where "ask_next e io q T = Ret (info, T')"
    "dt_seq T' = dt_seq (snd (next_seq T))"
    "pending T' \<subseteq> pending T \<union> set (io_arrive io (request_of e q (dt_seq T)))"
    "\<And>i. info = Some i \<Longrightarrow> \<exists>d \<in> pending T \<union> set (io_arrive io (request_of e q (dt_seq T))).
       reply_seq e d = Some (dt_seq T) \<and> parse_response e (take RECV_LEN d) (fst (snd q)) = Ret (Some i)"
proof -
  obtain family proto local remote where q: "q = (family, proto, local, remote)" by (cases q) auto
  let ?req = "build_request e family proto local remote (dt_seq T)"
  note fields = request_fields
  define slot where "slot = (if dt_socket T = None \<and> io_opens io then Some [] else dt_socket T)"
  show thesis
  proof (cases slot)
    case None
    then show ?thesis
      by (intro that [of None "snd (next_seq T)"])
        (auto simp: ask_next_def ask_def q next_seq_def fields slot_def pending_def split: if_splits)
  next
    case (Some sock)
    have sock: "set sock \<subseteq> pending T" using Some by (auto simp: slot_def pending_def split: if_splits)
    obtain got rest where x: "exchange e io ?req (dt_seq T) sock = (got, rest)" by fastforce
    have rest: "set rest \<subseteq> pending T \<union> set (io_arrive io ?req)"
      using exchange_keeps [of e io ?req "dt_seq T" sock] x sock by auto
    show ?thesis
    proof (cases got)
      case None
      with Some x show ?thesis
        by (intro that [of None "(snd (next_seq T))\<lparr>dt_socket := None\<rparr>"])
          (auto simp: ask_next_def ask_def q next_seq_def fields slot_def pending_def)
    next
      case (Some buf)
      with x obtain d where d: "d \<in> set sock \<union> set (io_arrive io ?req)" "buf = take RECV_LEN d"
          "reply_seq e d = Some (dt_seq T)"
        using exchange_Some [of e io ?req "dt_seq T" sock buf rest] by (metis Un_iff list.set_intros(1) set_append)
      obtain r where r: "parse_response e buf proto = Ret r" using parse_response_Ret by blast
      have "ask_next e io q T = Ret (r, (snd (next_seq T))\<lparr>dt_socket := Some rest\<rparr>)"
        using \<open>slot = Some sock\<close> x Some r
        by (cases r) (auto simp: ask_next_def ask_def q next_seq_def fields slot_def)
      then show ?thesis
        using rest d sock r by (intro that [of r "(snd (next_seq T))\<lparr>dt_socket := Some rest\<rparr>"])
          (auto simp: q next_seq_def pending_def request_of_def)
    qed
  qed
qed


section \<open>Threads\<close>

fun ask_all :: "endian \<Rightarrow> (exchange_io \<times> diag_ask) list \<Rightarrow> diag_thread \<Rightarrow> (sock_info option list \<times> diag_thread) run" where
  "ask_all e [] T = Ret ([], T)"
| "ask_all e ((io, q) # qs) T =
     bind_run (ask_next e io q T) (\<lambda>(info, T). map_run (\<lambda>(infos, T). (info # infos, T)) (ask_all e qs T))"

text \<open>The number of a thread's \<open>k\<close>th request.\<close>

definition seq_at :: "nat \<Rightarrow> u32" where
  "seq_at k = dt_seq (((\<lambda>T. snd (next_seq T)) ^^ k) new_thread)"

lemma dt_seq_next: "dt_seq T = seq_at k \<Longrightarrow> dt_seq (snd (next_seq T)) = seq_at (Suc k)"
  by (simp add: seq_at_def next_seq_def)

lemma seq_at_closed: "unat (seq_at k) = 1 + k mod (2 ^ 32 - 1)"
proof (induction k)
  case 0
  then show ?case by (simp add: seq_at_def new_thread_def)
next
  case (Suc k)
  have step: "seq_at (Suc k) = (if seq_at k = - 1 then 1 else seq_at k + 1)"
    by (simp add: seq_at_def next_seq_def)
  have max: "unat (- 1 :: u32) = 2 ^ 32 - 1" by (simp add: unsigned_minus_1_eq_mask mask_eq_exp_minus_1)
  show ?case
  proof (cases "seq_at k = - 1")
    case True
    with Suc max have "k mod (2 ^ 32 - 1) = 2 ^ 32 - 2" by simp
    then have "Suc k mod (2 ^ 32 - 1) = 0" by (simp add: mod_Suc)
    with True step show ?thesis by simp
  next
    case False
    then have "unat (seq_at k) \<noteq> 2 ^ 32 - 1" using max by (metis word_unat_eq_iff)
    moreover have "unat (seq_at k) < 2 ^ 32" using unat_lt_2p [of "seq_at k"] by simp
    ultimately have lt: "unat (seq_at k) + 1 < 2 ^ 32 " by simp
    then have "unat (seq_at k + 1) = unat (seq_at k) + 1" by (simp add: unat_word_ariths(1))
    moreover have "Suc k mod (2 ^ 32 - 1) = Suc (k mod (2 ^ 32 - 1))"
      using lt Suc by (simp add: mod_Suc)
    ultimately show ?thesis using Suc step False by simp
  qed
qed

definition SEQ_PERIOD :: nat where "SEQ_PERIOD = 2 ^ 32 - 1"

lemma seq_at_small: "k < SEQ_PERIOD \<Longrightarrow> unat (seq_at k) = 1 + k"
  unfolding SEQ_PERIOD_def by (simp only: seq_at_closed mod_less)

lemma seq_at_inj:
  assumes "j < SEQ_PERIOD" "k < SEQ_PERIOD" "seq_at j = seq_at k"
  shows "j = k"
proof -
  have "1 + j = 1 + k"
    unfolding seq_at_small [OF assms(1), symmetric] seq_at_small [OF assms(2), symmetric] assms(3) ..
  then show ?thesis by (rule add_left_imp_eq)
qed

text \<open>The kernel delivers, after request \<open>k\<close>, only answers to requests the thread has made so far,
  and an answer repeats the number of its request; \<open>answers j d\<close> says that \<open>d\<close> answers request \<open>j\<close>.\<close>

definition kernel_answers :: "endian \<Rightarrow> (exchange_io \<times> diag_ask) list \<Rightarrow> (nat \<Rightarrow> bytes \<Rightarrow> bool) \<Rightarrow> bool" where
  "kernel_answers e qs answers \<longleftrightarrow>
     (\<forall>k < length qs. \<forall>d \<in> set (io_arrive (fst (qs ! k)) (request_of e (snd (qs ! k)) (seq_at k))).
        \<exists>j \<le> k. answers j d) \<and>
     (\<forall>j < length qs. \<forall>d. answers j d \<longrightarrow> reply_seq e d = reply_seq e (request_of e (snd (qs ! j)) (seq_at j)))"

lemma reply_seq_request: "reply_seq e (request_of e q seq) = Some seq"
  by (cases q) (simp add: request_of_def request_fields)

lemma kernel_answersD:
  assumes "kernel_answers e qs answers" "k < length qs" "qs ! k = (io, q)"
  shows "d \<in> set (io_arrive io (request_of e q (seq_at k))) \<Longrightarrow> \<exists>j \<le> k. answers j d"
    and "answers k d \<Longrightarrow> reply_seq e d = Some (seq_at k)"
  using assms by (auto simp: kernel_answers_def reply_seq_request)

lemma kernel_answers_seq:
  "kernel_answers e qs answers \<Longrightarrow> j < length qs \<Longrightarrow> answers j d \<Longrightarrow> reply_seq e d = Some (seq_at j)"
  by (auto simp: kernel_answers_def reply_seq_request)

definition answered :: "endian \<Rightarrow> (nat \<Rightarrow> bytes \<Rightarrow> bool) \<Rightarrow> nat \<Rightarrow> diag_ask \<Rightarrow> sock_info \<Rightarrow> bool" where
  "answered e answers k q info \<longleftrightarrow>
     (\<exists>d. answers k d \<and> parse_response e (take RECV_LEN d) (fst (snd q)) = Ret (Some info))"

lemma ask_next_answered:
  assumes kernel: "kernel_answers e qs answers" and few: "length qs \<le> SEQ_PERIOD"
    and at: "n < length qs" "qs ! n = (io, q)" and seq: "dt_seq T = seq_at n"
    and old: "\<forall>d \<in> pending T. \<exists>j < n. answers j d"
  obtains info T1 where "ask_next e io q T = Ret (info, T1)" "dt_seq T1 = seq_at (Suc n)"
    "\<forall>d \<in> pending T1. \<exists>j < Suc n. answers j d" "\<And>i. info = Some i \<Longrightarrow> answered e answers n q i"
proof -
  let ?ds = "pending T \<union> set (io_arrive io (request_of e q (seq_at n)))"
  obtain info T1 where one: "ask_next e io q T = Ret (info, T1)" "dt_seq T1 = dt_seq (snd (next_seq T))"
      "pending T1 \<subseteq> ?ds"
      "\<And>i. info = Some i \<Longrightarrow> \<exists>d \<in> ?ds.
         reply_seq e d = Some (seq_at n) \<and> parse_response e (take RECV_LEN d) (fst (snd q)) = Ret (Some i)"
    by (rule ask_next_Ret [of e io q T, unfolded seq], rule that)
  have arrived: "\<exists>j < Suc n. answers j d" if "d \<in> ?ds" for d
    using that old kernel_answersD(1) [OF kernel at] by (meson UnE le_imp_less_Suc less_SucI)
  have "answered e answers n q i" if i: "info = Some i" for i
  proof -
    obtain d where d: "d \<in> ?ds" "reply_seq e d = Some (seq_at n)"
        "parse_response e (take RECV_LEN d) (fst (snd q)) = Ret (Some i)"
      using one(4) [OF i] by blast
    obtain j where j: "j < Suc n" "answers j d" using arrived [OF d(1)] by blast
    then have "j < length qs" using at by simp
    then have "seq_at j = seq_at n" using kernel_answers_seq [OF kernel _ j(2)] d(2) by simp
    moreover have "j < SEQ_PERIOD" "n < SEQ_PERIOD" using j at few by auto
    ultimately have "j = n" using seq_at_inj by blast
    with d j show ?thesis by (auto simp: answered_def)
  qed
  with one arrived dt_seq_next [OF seq] show thesis by (intro that) auto
qed

lemma ask_all_from:
  assumes "kernel_answers e (past @ qs) answers" and "length (past @ qs) \<le> SEQ_PERIOD"
    and "dt_seq T = seq_at (length past)"
    and "\<forall>d \<in> pending T. \<exists>j < length past. answers j d"
  shows "\<exists>outs T'. ask_all e qs T = Ret (outs, T') \<and> length outs = length qs \<and>
    (\<forall>k < length qs. \<forall>info. outs ! k = Some info \<longrightarrow> answered e answers (length past + k) (snd (qs ! k)) info)"
  using assms
proof (induction qs arbitrary: past T)
  case Nil
  then show ?case by simp
next
  case (Cons ioq qs)
  obtain io q where ioq: "ioq = (io, q)" by (cases ioq)
  have at: "length past < length (past @ ioq # qs)" "(past @ ioq # qs) ! length past = (io, q)" by (simp_all add: ioq)
  obtain info T1 where one: "ask_next e io q T = Ret (info, T1)" "dt_seq T1 = seq_at (Suc (length past))"
      "\<forall>d \<in> pending T1. \<exists>j < Suc (length past). answers j d"
      "\<And>i. info = Some i \<Longrightarrow> answered e answers (length past) q i"
    by (rule ask_next_answered [OF Cons.prems(1,2) at Cons.prems(3,4)], rule that)
  obtain outs T' where rest: "ask_all e qs T1 = Ret (outs, T')" "length outs = length qs"
      "\<And>k info. k < length qs \<Longrightarrow> outs ! k = Some info \<Longrightarrow>
         answered e answers (Suc (length past + k)) (snd (qs ! k)) info"
    using Cons.IH [of "past @ [ioq]" T1] Cons.prems(1,2) one(2,3) by auto
  show ?case
    using one(1,4) rest by (auto simp: ioq nth_Cons' less_Suc_eq_0_disj)
qed


text \<open>The socket of a thread is reused, so an answer that comes late could be read as the
  answer to the next request.  It is not: whatever the kernel delivers and however late, as long
  as an answer repeats the number of its request, every socket the daemon attributes to a flow
  was read from an answer to the request for that flow, over as many requests as there are
  numbers; and no exchange panics.\<close>

theorem diag_answers_match_their_request:
  assumes "kernel_answers e qs answers" and "length qs \<le> SEQ_PERIOD"
  shows "\<exists>outs T. ask_all e qs new_thread = Ret (outs, T) \<and> length outs = length qs \<and>
    (\<forall>k < length qs. \<forall>info. outs ! k = Some info \<longrightarrow>
       (\<exists>d. answers k d \<and> parse_response e (take RECV_LEN d) (fst (snd (snd (qs ! k)))) = Ret (Some info)))"
  using ask_all_from [of e "[]" qs answers new_thread] assms
  by (simp add: answered_def pending_def new_thread_def seq_at_def)

definition late_answer :: bytes where
  "late_answer = [88, 0, 0, 0, 20, 0, 0, 0, 1, 0, 0, 0, 0, 0, 0, 0, 2, 1] @ replicate 66 0 @ [7, 0, 0, 0]"

definition late_asks :: "(exchange_io \<times> diag_ask) list" where
  "late_asks =
     [(\<lparr>io_opens = True, io_sent = True, io_arrive = \<lambda>_. []\<rparr>, (2, 6, (V4 1, 1), (V4 2, 2))),
      (\<lparr>io_opens = True, io_sent = True, io_arrive = \<lambda>_. [late_answer]\<rparr>, (2, 6, (V4 1, 3), (V4 2, 2)))]"

theorem diag_answers_match_their_request_witness:
  "\<exists>outs T. ask_all LittleEndian late_asks new_thread = Ret (outs, T) \<and> length outs = length late_asks"
proof -
  let ?answers = "\<lambda>j d. reply_seq LittleEndian d = Some (seq_at j)"
  have late: "reply_seq LittleEndian late_answer = Some (seq_at 0)"
    by (simp add: reply_seq_def late_answer_def get_range_def seq_at_def new_thread_def from_ne_def ne_def from_be_def)
  have "kernel_answers LittleEndian late_asks ?answers"
    using late by (auto simp: kernel_answers_def reply_seq_request late_asks_def nth_Cons' less_Suc_eq)
  moreover have "length late_asks \<le> SEQ_PERIOD" by (simp add: late_asks_def SEQ_PERIOD_def)
  ultimately show ?thesis
    using diag_answers_match_their_request [of LittleEndian late_asks ?answers] by blast
qed

lemma query_asks:
  "\<exists>info T'. query e io io2 proto src_ip src_port dst_ip dst_port T = Ret (info, T')"
proof -
  have one: "\<exists>info T'. ask_next e io q T = Ret (info, T')" for io q T
    by (rule ask_next_Ret [of e io q T]) blast
  have bind: "\<exists>info T'. bind_run (ask_next e io q T) (\<lambda>(info, T). f info T) = Ret (info, T')"
    if "\<And>info T. \<exists>info' T'. f info T = Ret (info', T')"
    for io q T and f :: "sock_info option \<Rightarrow> diag_thread \<Rightarrow> (sock_info option \<times> diag_thread) run"
    using one [of io q T] that by fastforce
  show ?thesis
    by (cases proto) (simp_all add: query_def Let_def, (rule bind, simp add: one)+)
qed

text \<open>The request and the answer about a TCP socket, byte by byte (\<open>sock_diag(7)\<close>, \<open>inet_diag.h\<close>):
  the request names the two ends; in the answer the state follows the header and the family, and
  the owner and the inode are the last two of its fields.\<close>

definition inet_request :: "endian \<Rightarrow> ip_addr \<times> u16 \<Rightarrow> ip_addr \<times> u16 \<Rightarrow> u32 \<Rightarrow> bytes" where
  "inet_request e local remote seq =
     to_ne32 e 72 @ to_ne16 e 20 @ to_ne16 e 1 @ to_ne32 e seq @ [0, 0, 0, 0] @
     [case fst local of V4 _ \<Rightarrow> 2 | V6 _ \<Rightarrow> 10, 6, 0, 0] @ to_ne32 e (- 1) @
     to_be16 (snd local) @ to_be16 (snd remote) @ padded_addr (fst local) @ padded_addr (fst remote) @
     [0, 0, 0, 0] @ replicate 8 255"

definition tells_socket :: "endian \<Rightarrow> bytes \<Rightarrow> u32 \<Rightarrow> u64 \<Rightarrow> u32 \<Rightarrow> bool" where
  "tells_socket e d seq inode uid \<longleftrightarrow>
     (let d = take 8192 d; len = unat (from_ne e (take 4 d) :: u32) in
      88 \<le> len \<and> len \<le> length d \<and>
      from_ne e (take 2 (drop 4 d)) = (20 :: u16) \<and>
      from_ne e (take 4 (drop 8 d)) = seq \<and>
      d ! 17 \<noteq> 10 \<and>
      from_ne e (take 4 (drop 80 d)) = uid \<and>
      (from_ne e (take 4 (drop 84 d)) :: u32) \<noteq> 0 \<and>
      ucast (from_ne e (take 4 (drop 84 d)) :: u32) = inode)"

lemma inet_request: "build_request e (case fst local of V4 _ \<Rightarrow> libc_AF_INET | V6 _ \<Rightarrow> libc_AF_INET6) libc_IPPROTO_TCP local remote seq =
    inet_request e local remote seq"
proof -
  have z: "replicate 4 (0 :: u8) = [0, 0, 0, 0]" by (simp add: numeral_eq_Suc)
  show ?thesis
    unfolding build_request_layout inet_request_def libc_AF_INET_def libc_AF_INET6_def libc_IPPROTO_TCP_def z ..
qed

lemma parse_response_fields:
  assumes "parse_response e d libc_IPPROTO_TCP = Ret (Some info)"
  shows "88 \<le> unat (from_ne e (take 4 d) :: u32)" "unat (from_ne e (take 4 d) :: u32) \<le> length d"
    "from_ne e (take 2 (drop 4 d)) = (20 :: u16)" "d ! 17 \<noteq> 10"
    "from_ne e (take 4 (drop 80 d)) = si_uid info" "(from_ne e (take 4 (drop 84 d)) :: u32) \<noteq> 0"
    "ucast (from_ne e (take 4 (drop 84 d)) :: u32) = si_inode info"
proof -
  define n where "n = unat (from_ne e (take 4 d) :: u32)"
  have l16: "16 \<le> length d" using assms by (auto simp: parse_response_def diag_consts split: if_splits)
  have h: "from_ne e (take 2 (drop 4 d)) = (20 :: u16) \<and> 16 \<le> n \<and> n \<le> length d"
    and q: "(let payload = take (n - 16) (drop 16 d) in
      if length payload < 72 then Ret None
      else rd payload 1 (\<lambda>state. if state = 0x0A then Ret None else parse_msg e payload)) = Ret (Some info)"
    using assms l16 unfolding n_def
    by (simp_all add: parse_response_def diag_consts sl_def Let_def split: if_splits)
  define payload where "payload = take (n - 16) (drop 16 d)"
  have pl: "length payload = n - 16" using h by (auto simp: payload_def min_def)
  from q have l72: "72 \<le> length payload" and m: "payload ! 1 \<noteq> 10" "parse_msg e payload = Ret (Some info)"
    unfolding payload_def [symmetric] Let_def by (auto simp: rd_in split: if_splits)
  from m(2) l72 have i: "from_ne e (take 4 (drop 64 payload)) = si_uid info"
      "(from_ne e (take 4 (drop 68 payload)) :: u32) \<noteq> 0"
      "ucast (from_ne e (take 4 (drop 68 payload)) :: u32) = si_inode info"
    by (auto simp: parse_msg_def sl_def Let_def split: if_splits)
  have n88: "88 \<le> n" using pl l72 by simp
  have sub: "take 4 (drop k payload) = take 4 (drop (k + 16) d)" if "k + 4 \<le> 72" for k
    unfolding payload_def drop_take drop_drop take_take using that n88 by (simp add: min_def)
  have s17: "payload ! 1 = d ! 17" unfolding payload_def using n88 h by simp
  show "88 \<le> unat (from_ne e (take 4 d) :: u32)" "unat (from_ne e (take 4 d) :: u32) \<le> length d"
    using n88 h by (simp_all add: n_def)
  show "from_ne e (take 2 (drop 4 d)) = (20 :: u16)" using h by simp
  show "d ! 17 \<noteq> 10" using m(1) unfolding s17 .
  have "take 4 (drop 64 payload) = take 4 (drop 80 d)" "take 4 (drop 68 payload) = take 4 (drop 84 d)"
    using sub [of 64] sub [of 68] by simp_all
  with i show "from_ne e (take 4 (drop 80 d)) = si_uid info" "(from_ne e (take 4 (drop 84 d)) :: u32) \<noteq> 0"
    "ucast (from_ne e (take 4 (drop 84 d)) :: u32) = si_inode info" by simp_all
qed

lemma parse_response_tells:
  assumes "parse_response e (take RECV_LEN d) libc_IPPROTO_TCP = Ret (Some info)" "reply_seq e d = Some seq"
  shows "tells_socket e d seq (si_inode info) (si_uid info)"
proof -
  define dd where "dd = take 8192 d"
  have p: "parse_response e dd libc_IPPROTO_TCP = Ret (Some info)" using assms(1) by (simp add: RECV_LEN_def dd_def)
  have r: "reply_seq e dd = Some seq" using assms(2) reply_seq_take [of 8192 e d] by (simp add: dd_def)
  then have "from_ne e (take 4 (drop 8 dd)) = seq" by (auto simp: reply_seq_def get_range_def split: if_splits)
  with parse_response_fields [OF p] show ?thesis
    unfolding tells_socket_def Let_def dd_def [symmetric] by blast
qed

lemma query_tells:
  assumes "query e io io2 Tcp src_ip src_port dst_ip dst_port T = Ret (Some info, T')"
  shows "\<exists>d rest. (case dt_socket T of None \<Rightarrow> [] | Some sock \<Rightarrow> sock) @
        io_arrive io (inet_request e (src_ip, src_port) (dst_ip, dst_port) (dt_seq T)) = d # rest \<and>
      tells_socket e d (dt_seq T) (si_inode info) (si_uid info)"
proof -
  let ?q = "(case src_ip of V4 _ \<Rightarrow> libc_AF_INET | V6 _ \<Rightarrow> libc_AF_INET6, libc_IPPROTO_TCP, (src_ip, src_port), (dst_ip, dst_port))"
  let ?req = "inet_request e (src_ip, src_port) (dst_ip, dst_port) (dt_seq T)"
  have r: "build_request e (case src_ip of V4 _ \<Rightarrow> libc_AF_INET | V6 _ \<Rightarrow> libc_AF_INET6) libc_IPPROTO_TCP
      (src_ip, src_port) (dst_ip, dst_port) (dt_seq T) = ?req"
    using inet_request [of e "(src_ip, src_port)"] unfolding fst_conv .
  have f: "sl ?req 8 12 k = k (to_ne32 e (dt_seq T))" "rd ?req 17 h = h libc_IPPROTO_TCP"
    for k :: "bytes \<Rightarrow> (sock_info option \<times> bytes list option) run" and h :: "u8 \<Rightarrow> reply run"
    unfolding r [symmetric] by (rule request_fields)+
  obtain info1 T1 where one: "ask_next e io ?q T = Ret (info1, T1)"
    by (rule ask_next_Ret [of e io ?q T])
  have "info1 = Some info"
    using assms by (cases info1) (simp_all add: query_def one)
  with one obtain slot where a: "ask e io ?req (dt_socket T) = Ret (Some info, slot)"
    by (cases "ask e io ?req (dt_socket T)") (auto simp: ask_next_def next_seq_def r)
  define slot1 where "slot1 = (if dt_socket T = None \<and> io_opens io then Some [] else dt_socket T)"
  from a obtain sock where sock: "slot1 = Some sock"
    by (cases slot1) (simp_all add: ask_def f slot1_def)
  obtain got rest where x: "exchange e io ?req (dt_seq T) sock = (got, rest)" by fastforce
  from a sock x obtain buf where buf: "got = Some buf"
    by (cases got) (simp_all add: ask_def f slot1_def)
  obtain r where p: "parse_response e buf libc_IPPROTO_TCP = Ret r" using parse_response_Ret by blast
  from a sock x buf p have "r = Some info"
    by (cases r) (simp_all add: ask_def f slot1_def)
  moreover obtain d where d: "sock @ io_arrive io ?req = d # rest" "buf = take RECV_LEN d" "reply_seq e d = Some (dt_seq T)"
    using exchange_Some [of e io ?req "dt_seq T" sock buf rest] x buf by blast
  moreover have "sock = (case dt_socket T of None \<Rightarrow> [] | Some sock \<Rightarrow> sock)"
    using sock by (auto simp: slot1_def split: if_splits option.splits)
  ultimately have "tells_socket e d (dt_seq T) (si_inode info) (si_uid info)"
      "(case dt_socket T of None \<Rightarrow> [] | Some sock \<Rightarrow> sock) @ io_arrive io ?req = d # rest"
    using p parse_response_tells [of e d info "dt_seq T"] by simp_all
  then show ?thesis by blast
qed

section \<open>The peer of a Unix socket\<close>

lemma peer_attr_short: "length attrs < 4 \<Longrightarrow> peer_attr e attrs = Ret (Inl NoPeer)"
  by (subst peer_attr.simps) (auto split: list.split)

text \<open>An attribute as the kernel lays it out, with and without its padding.\<close>

definition nla :: "endian \<Rightarrow> u16 \<times> bytes \<Rightarrow> bytes" where
  "nla e a = to_ne16 e (word_of_nat (4 + length (snd a))) @ to_ne16 e (fst a) @ snd a"

definition nla_pad :: "endian \<Rightarrow> u16 \<times> bytes \<Rightarrow> bytes" where
  "nla_pad e a = nla e a @ replicate (align4 (length (snd a)) - length (snd a)) 0"

definition nla_ok :: "u16 \<times> bytes \<Rightarrow> bool" where
  "nla_ok a \<longleftrightarrow> 4 + length (snd a) < 2 ^ 16"

fun first_peer :: "endian \<Rightarrow> (u16 \<times> bytes) list \<Rightarrow> u32 option" where
  "first_peer e [] = None"
| "first_peer e ((kind, value) # as) =
     (if kind = UNIX_DIAG_PEER \<and> 4 \<le> length value \<and> from_ne e (take 4 value) \<noteq> (0 :: u32)
      then Some (from_ne e (take 4 value)) else first_peer e as)"

lemma length_nla [simp]: "length (nla e a) = 4 + length (snd a)"
  by (simp add: nla_def)

lemma unat16: "n < 2 ^ 16 \<Longrightarrow> unat (word_of_nat n :: u16) = n"
  by (simp add: unat_of_nat)

lemma unat32: "n < 2 ^ 32 \<Longrightarrow> unat (word_of_nat n :: u32) = n"
  by (simp add: unat_of_nat)

lemma peer_attr_nla:
  assumes "nla_ok a"
  shows "peer_attr e (nla e a @ rest) =
    (case first_peer e [a] of
       Some peer \<Rightarrow> Ret (Inr (ucast peer))
     | None \<Rightarrow> if align4 (4 + length (snd a)) \<le> 4 + length (snd a) + length rest
               then peer_attr e (drop (align4 (4 + length (snd a))) (nla e a @ rest)) else Panic)"
proof -
  obtain kind v where a: "a = (kind, v)" by (cases a)
  obtain l0 l1 where l: "to_ne16 e (word_of_nat (4 + length v)) = [l0, l1]"
    using length_to_ne(1) [of e] by (metis (no_types) length_0_conv length_Suc_conv numeral_2_eq_2)
  obtain k0 k1 where k: "to_ne16 e kind = [k0, k1]"
    using length_to_ne(1) [of e] by (metis (no_types) length_0_conv length_Suc_conv numeral_2_eq_2)
  have len: "unat (from_ne e [l0, l1] :: u16) = 4 + length v"
    unfolding l [symmetric] from_to_ne using assms unat16 [of "4 + length v"] unfolding nla_ok_def a snd_conv by blast
  have kind: "(from_ne e [k0, k1] :: u16) = kind" unfolding k [symmetric] by simp
  have eq: "nla e a @ rest = l0 # l1 # k0 # k1 # v @ rest" by (simp add: nla_def a l k del: of_nat_add)
  show ?thesis
    unfolding eq by (subst peer_attr.simps, cases "4 \<le> length v") (simp_all add: a len kind Let_def)
qed


lemma align4_add4: "align4 (4 + n) = 4 + align4 n"
  unfolding align4_def by presburger

lemma peer_attr_padded:
  assumes "nla_ok a"
  shows "peer_attr e (nla_pad e a @ rest) =
    (case first_peer e [a] of Some peer \<Rightarrow> Ret (Inr (ucast peer)) | None \<Rightarrow> peer_attr e rest)"
proof -
  let ?pad = "replicate (align4 (length (snd a)) - length (snd a)) 0"
  have d: "drop (align4 (4 + length (snd a))) (nla e a @ ?pad @ rest) = rest"
    using align4_ge [of "length (snd a)"] by (simp add: align4_add4)
  have le: "align4 (4 + length (snd a)) \<le> 4 + length (snd a) + length (?pad @ rest)"
    using align4_ge [of "length (snd a)"] by (simp add: align4_add4)
  show ?thesis
    unfolding nla_pad_def append_assoc peer_attr_nla [OF assms] d if_P [OF le] ..
qed

lemma first_peer_Cons: "first_peer e (a # as) = (case first_peer e [a] of None \<Rightarrow> first_peer e as | Some p \<Rightarrow> Some p)"
  by (cases a) simp

lemma peer_attr_attrs:
  assumes "list_all nla_ok as"
  shows "peer_attr e (concat (map (nla_pad e) as) @ rest) =
    (case first_peer e as of Some peer \<Rightarrow> Ret (Inr (ucast peer)) | None \<Rightarrow> peer_attr e rest)"
  using assms
proof (induction as)
  case (Cons a as)
  then show ?case
    by (simp add: peer_attr_padded first_peer_Cons [of e a as] split: option.split)
qed simp

text \<open>The kernel's answer about the socket \<open>inode\<close>: the message header, \<open>unix_diag_msg\<close> and its
  attributes; \<open>padded\<close> says whether the message ends with the padding of its last attribute.\<close>

definition unix_answer :: "endian \<Rightarrow> u32 \<Rightarrow> (u16 \<times> bytes) list \<Rightarrow> bytes \<Rightarrow> bytes" where
  "unix_answer e inode as trailing =
     (let msg = [libc_AF_UNIX, 1, 1, 0] @ to_ne32 e inode @ replicate 8 0 @ concat (map (nla_pad e) as) @ trailing in
      to_ne32 e (word_of_nat (16 + length msg)) @ to_ne16 e SOCK_DIAG_BY_FAMILY @ [0, 0] @ to_ne32 e 1 @ replicate 4 0 @ msg)"

lemma parse_unix_answer:
  assumes len: "length (unix_answer e inode as trailing) < 2 ^ 32"
  shows "parse_unix_peer e (unix_answer e inode as trailing) inode = peer_attr e (concat (map (nla_pad e) as) @ trailing)"
proof -
  define attrs where "attrs = concat (map (nla_pad e) as) @ trailing"
  define msg where "msg = [libc_AF_UNIX, 1, 1, 0] @ to_ne32 e inode @ replicate 8 0 @ attrs"
  define w :: u32 where "w = word_of_nat (16 + length msg)"
  let ?l = "to_ne32 e w"
  let ?t = "to_ne16 e SOCK_DIAG_BY_FAMILY"
  let ?hdr = "?l @ ?t @ [0, 0] @ to_ne32 e 1 @ replicate 4 0"
  have buf: "unix_answer e inode as trailing = ?hdr @ msg"
    unfolding unix_answer_def Let_def msg_def attrs_def w_def append_assoc ..
  have lb: "length (?hdr @ msg) = 16 + length msg" by simp
  have less: "16 + length msg < 2 ^ 32"
    using len unfolding buf lb .
  have n: "unat w = 16 + length msg"
    unfolding w_def by (rule unat32) (rule less)
  have hdr: "get_range (?hdr @ msg) 0 NLMSG_HDR_LEN = Some ?hdr"
    using get_range_append [of 0 "[]" NLMSG_HDR_LEN ?hdr msg] by (simp add: diag_consts)
  have body: "get_range (?hdr @ msg) NLMSG_HDR_LEN (16 + length msg) = Some msg"
    using get_range_append [of NLMSG_HDR_LEN ?hdr "16 + length msg" msg "[]"] by (simp add: diag_consts)
  have l: "sl ?hdr 0 4 k = k ?l" for k :: "bytes \<Rightarrow> (io_error + u64) run"
    using sl_append [of 0 "[]" 4 ?l _ k] by simp
  have t: "sl ?hdr 4 6 k = k ?t" for k :: "bytes \<Rightarrow> (io_error + u64) run"
    by (rule sl_append) simp_all
  have i: "sl msg 4 8 k = k (to_ne32 e inode)" for k :: "bytes \<Rightarrow> (io_error + u64) run"
    unfolding msg_def by (rule sl_append) simp_all
  have a: "sl msg UNIX_DIAG_MSG_LEN (length msg) k = k attrs" for k :: "bytes \<Rightarrow> (io_error + u64) run"
    by (simp add: sl_def msg_def UNIX_DIAG_MSG_LEN_def)
  have m: "\<not> length msg < UNIX_DIAG_MSG_LEN" by (simp add: msg_def UNIX_DIAG_MSG_LEN_def)
  have ty: "SOCK_DIAG_BY_FAMILY \<noteq> NLMSG_ERROR" by (simp add: diag_consts NLMSG_ERROR_def)
  show ?thesis
    unfolding buf parse_unix_peer_def hdr option.case l t Let_def from_to_ne n body
    by (simp add: ty m i a attrs_def)
qed


text \<open>The number in the header is the one the daemon asks with.\<close>

lemma reply_seq_append: "length pre = 8 \<Longrightarrow> length b = 4 \<Longrightarrow> reply_seq e (pre @ b @ rest) = Some (from_ne e b)"
  using get_range_append [of 8 pre 12 b rest] by (simp add: reply_seq_def)

lemma unix_answer_seq: "reply_seq e (unix_answer e inode as trailing) = Some 1"
proof -
  define msg where "msg = [libc_AF_UNIX, 1, 1, 0] @ to_ne32 e inode @ replicate 8 0 @ concat (map (nla_pad e) as) @ trailing"
  define w :: u32 where "w = word_of_nat (16 + length msg)"
  have buf: "unix_answer e inode as trailing =
      (to_ne32 e w @ to_ne16 e SOCK_DIAG_BY_FAMILY @ [0, 0]) @ to_ne32 e 1 @ replicate 4 0 @ msg"
    unfolding unix_answer_def Let_def msg_def w_def append_assoc ..
  show ?thesis unfolding buf by (subst reply_seq_append) simp_all
qed

lemma unix_peer_inode_answered:
  assumes "io_opens io" "io_sent io" "io_arrive io (build_unix_request e inode 1) = [unix_answer e inode as trailing]"
    "length (unix_answer e inode as trailing) \<le> RECV_LEN"
  shows "unix_peer_inode e io (ucast inode) = peer_attr e (concat (map (nla_pad e) as) @ trailing)"
proof -
  have less: "unat inode < 2 ^ 32" using unat_lt_2p [of inode] by simp
  then have "unat (ucast inode :: u64) = unat inode" by (simp add: unsigned_ucast_eq take_bit_nat_eq_self)
  moreover have "unix_answer e inode as trailing \<noteq> []" by (simp add: unix_answer_def Let_def)
  moreover have "(ucast (ucast inode :: u64) :: u32) = inode" by (simp add: ucast_up_ucast_id is_up)
  ultimately show ?thesis
    using assms less unix_answer_seq [of e inode as trailing] parse_unix_answer [of e inode as trailing]
    by (simp add: unix_peer_inode_def exchange_def RECV_LEN_def Let_def del: of_nat_add)
qed

lemma align4_le_iff: "align4 n \<le> n \<longleftrightarrow> 4 dvd n"
  unfolding align4_def by presburger

lemma first_peer_append:
  "first_peer e (as @ bs) = (case first_peer e as of None \<Rightarrow> first_peer e bs | Some p \<Rightarrow> Some p)"
  by (induction e as rule: first_peer.induct) simp_all

lemma peer_attr_unpadded:
  assumes "nla_ok a"
  shows "peer_attr e (nla e a) =
    (case first_peer e [a] of
       Some peer \<Rightarrow> Ret (Inr (ucast peer))
     | None \<Rightarrow> if 4 dvd length (snd a) then Ret (Inl NoPeer) else Panic)"
proof -
  have "align4 (4 + length (snd a)) \<le> 4 + length (snd a) \<longleftrightarrow> 4 dvd length (snd a)"
    unfolding align4_le_iff by presburger
  moreover have "length (drop (align4 (4 + length (snd a))) (nla e a)) < 4"
    using align4_ge [of "4 + length (snd a)"] by simp
  ultimately show ?thesis
    using peer_attr_nla [OF assms, of e "[]"] peer_attr_short by (simp split: option.split)
qed

text \<open>The daemon asks which process holds the other end of a control connection.  Whatever
  attributes precede it, the inode it takes is the first nonzero peer attribute of the answer, and
  an answer without one is an error.  That holds when every attribute comes with its padding; when
  the last one comes without, its length not a multiple of four and no peer before it, the walk
  slices past the message and panics instead of reporting a malformed answer.\<close>

theorem unix_peer_of_an_answer:
  assumes "list_all nla_ok (as @ [a])"
    and "length (unix_answer e inode as []) < 2 ^ 32" and "length (unix_answer e inode as (nla e a)) < 2 ^ 32"
  shows "parse_unix_peer e (unix_answer e inode as []) inode =
      Ret (case first_peer e as of Some peer \<Rightarrow> Inr (ucast peer) | None \<Rightarrow> Inl NoPeer) \<and>
    parse_unix_peer e (unix_answer e inode as (nla e a)) inode =
      (case first_peer e (as @ [a]) of
         Some peer \<Rightarrow> Ret (Inr (ucast peer))
       | None \<Rightarrow> if 4 dvd length (snd a) then Ret (Inl NoPeer) else Panic)"
proof -
  have ok: "list_all nla_ok as" "nla_ok a" using assms(1) by simp_all
  show ?thesis
    unfolding parse_unix_answer [OF assms(2)] parse_unix_answer [OF assms(3)] peer_attr_attrs [OF ok(1)]
      peer_attr_unpadded [OF ok(2)] first_peer_append
    by (simp add: peer_attr_short split: option.split)
qed

theorem unix_peer_of_an_answer_witness:
  "parse_unix_peer LittleEndian (unix_answer LittleEndian 41 [(4, [0, 0, 0, 0])] []) 41 = Ret (Inl NoPeer) \<and>
   parse_unix_peer LittleEndian (unix_answer LittleEndian 41 [(4, [0, 0, 0, 0])] (nla LittleEndian (6, [1]))) 41 = Panic"
  using unix_peer_of_an_answer [of "[(4, [0, 0, 0, 0])]" "(6, [1])" LittleEndian 41]
  by (simp add: nla_ok_def unix_answer_def Let_def nla_def nla_pad_def align4_def UNIX_DIAG_PEER_def)

end
