(* ===== verification/ProcTable.thy ===== *)
theory ProcTable
  imports DnsWire Texts HashMaps
begin

text \<open>
  \<open>crates/cfc-daemon/src/ebpf/proc_table.rs\<close> and the exec record of
  \<open>crates/cfc-ebpf-proto/src/lib.rs\<close>: the processes as the kernel described them when they were
  executed.  The order in which the map is iterated is the argument \<open>it\<close>.
\<close>

section \<open>Records of the kernel\<close>

definition COMM_LEN :: nat where "COMM_LEN = 16"
definition FILENAME_LEN :: nat where "FILENAME_LEN = 256"
definition ENTRY_TTL :: nat where "ENTRY_TTL = from_secs 3600"
definition MAX_ENTRIES :: nat where "MAX_ENTRIES = 10240"

record exec_event =
  xe_pid :: u32
  xe_ppid :: u32
  xe_uid :: u32
  xe_gid :: u32
  xe_comm :: bytes
  xe_filename :: bytes
  xe_filename_len :: u16
  xe_pad :: bytes

definition comm_bytes :: "exec_event \<Rightarrow> bytes" where
  "comm_bytes e = nul_terminated (xe_comm e) COMM_LEN"

definition filename_bytes :: "exec_event \<Rightarrow> bytes" where
  "filename_bytes e = nul_terminated (xe_filename e) (unat (xe_filename_len e))"

definition comm_str :: "exec_event \<Rightarrow> string" where "comm_str e = lossy_string (comm_bytes e)"
definition filename_str :: "exec_event \<Rightarrow> string" where "filename_str e = lossy_string (filename_bytes e)"

record kernel_proc =
  kp_pid :: u32
  kp_ppid :: "u32 option"
  kp_uid :: u32
  kp_gid :: u32
  kp_exe :: string
  kp_comm :: string

definition absolute_exe :: "kernel_proc \<Rightarrow> string option" where
  "absolute_exe k = (if is_absolute (kp_exe k) then Some (kp_exe k) else None)"

definition kernel_proc_from :: "exec_event \<Rightarrow> kernel_proc" where
  "kernel_proc_from e =
     \<lparr>kp_pid = xe_pid e,
      kp_ppid = (if xe_ppid e \<noteq> 0 then Some (xe_ppid e) else None),
      kp_uid = xe_uid e,
      kp_gid = xe_gid e,
      kp_exe = (if xe_filename_len e = 0 then [] else filename_str e),
      kp_comm = comm_str e\<rparr>"

section \<open>The table\<close>

record proc_entry =
  pe_proc :: kernel_proc
  pe_seen_at :: nat
  pe_starttime :: "u64 option"

record proc_table =
  pt_map :: "(u32 \<times> proc_entry) list"
  pt_live :: bool

definition new_table :: proc_table where "new_table = \<lparr>pt_map = [], pt_live = False\<rparr>"

definition set_live :: "bool \<Rightarrow> proc_table \<Rightarrow> proc_table" where
  "set_live live T = T\<lparr>pt_live := live\<rparr>"

text \<open>\<open>select_nth_unstable\<close> leaves at the index what sorting would put there.\<close>

definition evict_oldest_eighth :: "(u32 \<times> proc_entry) list \<Rightarrow> (u32 \<times> proc_entry) list" where
  "evict_oldest_eighth m =
     (let ages = map (pe_seen_at \<circ> snd) m; cutoff = sort ages ! (MAX_ENTRIES div 8) in
      retain (\<lambda>_ e. cutoff < pe_seen_at e) m)"

definition observe_exec :: "exec_event \<Rightarrow> u64 option \<Rightarrow> nat \<Rightarrow> proc_table \<Rightarrow> proc_table" where
  "observe_exec event starttime now T =
     (let p = kernel_proc_from event;
          m = pt_map T;
          m = (if MAX_ENTRIES \<le> length m \<and> map_of m (kp_pid p) = None
               then (let m = retain (\<lambda>_ e. now - pe_seen_at e \<le> ENTRY_TTL) m in
                     if MAX_ENTRIES \<le> length m then evict_oldest_eighth m else m)
               else m) in
      T\<lparr>pt_map := AList.update (kp_pid p) \<lparr>pe_proc = p, pe_seen_at = now, pe_starttime = starttime\<rparr> m\<rparr>)"

definition live_processes ::
  "((u32 \<times> proc_entry) list \<Rightarrow> (u32 \<times> proc_entry) list) \<Rightarrow> nat \<Rightarrow> proc_table \<Rightarrow> kernel_proc list" where
  "live_processes it now T =
     (if \<not> pt_live T then []
      else map (pe_proc \<circ> snd) (filter (\<lambda>(_, e). now - pe_seen_at e \<le> ENTRY_TTL) (it (pt_map T))))"

text \<open>An unstable sort of an unordered map: \<open>it\<close> also stands for the order of equal instants.\<close>

definition recent_pids ::
  "((u32 \<times> proc_entry) list \<Rightarrow> (u32 \<times> proc_entry) list) \<Rightarrow> nat \<Rightarrow> nat \<Rightarrow> proc_table \<Rightarrow> u32 list" where
  "recent_pids it limit now T =
     (if \<not> pt_live T then []
      else
        let entries = map (\<lambda>(pid, e). (pid, pe_seen_at e))
                        (filter (\<lambda>(_, e). now - pe_seen_at e \<le> ENTRY_TTL) (it (pt_map T)));
            entries = sort_key (\<lambda>e. Reverse (snd e)) entries in
        map fst (take limit entries))"

definition observe_exit :: "u32 \<Rightarrow> proc_table \<Rightarrow> proc_table" where
  "observe_exit pid T = T\<lparr>pt_map := AList.delete pid (pt_map T)\<rparr>"

definition get_proc :: "u32 \<Rightarrow> u64 option \<Rightarrow> nat \<Rightarrow> proc_table \<Rightarrow> kernel_proc option \<times> proc_table" where
  "get_proc pid starttime now T =
     (if \<not> pt_live T then (None, T)
      else
        case map_of (pt_map T) pid of
          None \<Rightarrow> (None, T)
        | Some e \<Rightarrow>
            if ENTRY_TTL < now - pe_seen_at e then (None, observe_exit pid T)
            else
              case (pe_starttime e, starttime) of
                (Some known, Some seen) \<Rightarrow> if known = seen then (Some (pe_proc e), T) else (None, observe_exit pid T)
              | (_, None) \<Rightarrow> (Some (pe_proc e), T)
              | (None, Some _) \<Rightarrow>
                  (Some (pe_proc e), T\<lparr>pt_map := AList.update pid (e\<lparr>pe_starttime := starttime\<rparr>) (pt_map T)\<rparr>))"

section \<open>Its calls in any order\<close>

datatype table_op = TExec exec_event "u64 option" nat | TExit u32 | TGet u32 "u64 option" nat | TLive bool

fun table_step :: "table_op \<Rightarrow> proc_table \<Rightarrow> proc_table" where
  "table_step (TExec e st now) T = observe_exec e st now T"
| "table_step (TExit pid) T = observe_exit pid T"
| "table_step (TGet pid st now) T = snd (get_proc pid st now T)"
| "table_step (TLive live) T = set_live live T"

definition table_ok :: "proc_table \<Rightarrow> bool" where
  "table_ok T \<longleftrightarrow> distinct (map fst (pt_map T)) \<and> length (pt_map T) \<le> MAX_ENTRIES"

lemma get_proc_map:
  "pt_map (snd (get_proc pid st now T)) = pt_map T \<or>
   pt_map (snd (get_proc pid st now T)) = AList.delete pid (pt_map T) \<or>
   (\<exists>e. map_of (pt_map T) pid = Some e \<and> pe_starttime e = None \<and>
        pt_map (snd (get_proc pid st now T)) = AList.update pid (e\<lparr>pe_starttime := st\<rparr>) (pt_map T))"
  by (auto simp: get_proc_def observe_exit_def split: option.split)

lemma filter_length_at:
  assumes "sorted xs" "k < length xs"
  shows "length (filter (\<lambda>x. xs ! k < x) xs) \<le> length xs - Suc k"
proof -
  have "filter (\<lambda>x. xs ! k < x) (take (Suc k) xs) = []"
    using assms by (auto simp: filter_empty_conv in_set_conv_nth not_less sorted_nth_mono)
  then have "filter (\<lambda>x. xs ! k < x) xs = filter (\<lambda>x. xs ! k < x) (drop (Suc k) xs)"
    by (metis append_take_drop_id filter_append self_append_conv2)
  then show ?thesis by (metis length_drop length_filter_le)
qed

lemma evict_oldest_eighth_length:
  assumes "MAX_ENTRIES \<le> length m"
  shows "length (evict_oldest_eighth m) < length m"
proof -
  let ?ages = "map (pe_seen_at \<circ> snd) m"
  let ?k = "MAX_ENTRIES div 8"
  have k: "?k < length (sort ?ages)" using assms by (simp add: MAX_ENTRIES_def)
  have "length (evict_oldest_eighth m) = length (filter (\<lambda>x. sort ?ages ! ?k < x) ?ages)"
    by (simp add: evict_oldest_eighth_def Let_def retain_def filter_map o_def split_def)
  also have "\<dots> = length (filter (\<lambda>x. sort ?ages ! ?k < x) (sort ?ages))"
    by (simp only: filter_sort length_sort)
  also have "\<dots> \<le> length (sort ?ages) - Suc ?k" by (rule filter_length_at) (use k in simp_all)
  finally show ?thesis using assms by (simp add: MAX_ENTRIES_def)
qed

lemma length_room: "length (if MAX_ENTRIES \<le> length m then evict_oldest_eighth m else m) < MAX_ENTRIES \<or>
    MAX_ENTRIES < length m"
  using evict_oldest_eighth_length [of m] by (simp split: if_split) linarith

lemma table_ok_exec:
  assumes "table_ok T"
  shows "table_ok (observe_exec e st now T)"
proof -
  let ?k = "kp_pid (kernel_proc_from e)"
  let ?m = "retain (\<lambda>_ e. now - pe_seen_at e \<le> ENTRY_TTL) (pt_map T)"
  let ?room = "if MAX_ENTRIES \<le> length ?m then evict_oldest_eighth ?m else ?m"
  have m: "distinct (map fst ?m)" "length ?m \<le> MAX_ENTRIES"
    using assms length_retain_le [of _ "pt_map T"] by (auto simp: table_ok_def intro: distinct_retain le_trans)
  have room: "distinct (map fst ?room)" "length ?room < MAX_ENTRIES"
    using m length_room [of ?m] by (auto simp: evict_oldest_eighth_def Let_def intro: distinct_retain)
  show ?thesis
  proof (cases "MAX_ENTRIES \<le> length (pt_map T) \<and> map_of (pt_map T) ?k = None")
    case True
    with room length_update_le [of ?k _ ?room] show ?thesis
      by (simp add: observe_exec_def table_ok_def distinct_update Let_def le_trans [OF length_update_le] Suc_leI)
  next
    case False
    have "length (AList.update ?k v (pt_map T)) \<le> MAX_ENTRIES" for v
      using False assms length_update_le [of ?k v "pt_map T"] length_update_present [of "pt_map T" ?k v]
      by (cases "map_of (pt_map T) ?k = None") (auto simp: table_ok_def)
    with False assms show ?thesis
      by (auto simp: observe_exec_def table_ok_def distinct_update Let_def)
  qed
qed

lemma table_ok_step: "table_ok T \<Longrightarrow> table_ok (table_step op T)"
proof (cases op)
  case (TGet pid st now)
  assume ok: "table_ok T"
  let ?T = "snd (get_proc pid st now T)"
  consider "pt_map ?T = pt_map T" | "pt_map ?T = AList.delete pid (pt_map T)"
    | e where "map_of (pt_map T) pid = Some e" "pt_map ?T = AList.update pid (e\<lparr>pe_starttime := st\<rparr>) (pt_map T)"
    using get_proc_map [of pid st now T] by auto
  then show ?thesis
    using ok length_delete_le [of pid "pt_map T"] length_update_present [of "pt_map T" pid]
    by cases (auto simp: TGet table_ok_def distinct_update distinct_delete)
next
  case (TExit pid)
  then show "table_ok T \<Longrightarrow> ?thesis"
    using length_delete_le [of pid "pt_map T"] by (simp add: table_ok_def observe_exit_def distinct_delete)
qed (simp_all add: table_ok_exec, simp add: table_ok_def set_live_def)

definition table_run :: "table_op list \<Rightarrow> proc_table \<Rightarrow> proc_table" where
  "table_run ops T = fold table_step ops T"

lemma table_run_simps [simp]: "table_run [] T = T" "table_run (op # ops) T = table_run ops (table_step op T)"
  by (simp_all add: table_run_def)

lemma table_run_ok: "table_ok T \<Longrightarrow> table_ok (table_run ops T)"
  by (induction ops arbitrary: T) (simp_all add: table_ok_step)

text \<open>Whatever execs, exits and lookups arrive and in whatever order, the table of kernel
  records holds one record per pid and at most \<open>MAX_ENTRIES\<close> of them.\<close>

theorem proc_table_stays_bounded:
  "distinct (map fst (pt_map (table_run ops new_table))) \<and> length (pt_map (table_run ops new_table)) \<le> MAX_ENTRIES"
  using table_run_ok [of new_table ops] by (simp add: table_ok_def new_table_def)

section \<open>A record names one process\<close>

definition execs :: "u32 \<Rightarrow> table_op \<Rightarrow> bool" where
  "execs pid op \<longleftrightarrow> (case op of TExec e _ _ \<Rightarrow> xe_pid e = pid | _ \<Rightarrow> False)"

text \<open>The record of \<open>pid\<close>, when there is one, is bound to start time \<open>s\<close> and describes \<open>k\<close>.\<close>

definition bound_to :: "u32 \<Rightarrow> u64 \<Rightarrow> kernel_proc \<Rightarrow> proc_table \<Rightarrow> bool" where
  "bound_to pid s k T \<longleftrightarrow>
     (\<forall>e. map_of (pt_map T) pid = Some e \<longrightarrow> pe_starttime e = Some s \<and> pe_proc e = k)"

lemma get_proc_binds:
  assumes "get_proc pid (Some s) now T = (Some k, T')"
  shows "bound_to pid s k T'"
  using assms by (auto simp: get_proc_def bound_to_def update_conv' split: option.splits if_splits)

lemma bound_to_get:
  assumes "bound_to pid s k T" "get_proc pid st now T = (Some k', T')"
  shows "k' = k \<and> (st = None \<or> st = Some s)"
  using assms by (auto simp: get_proc_def bound_to_def split: option.splits if_splits)

lemma bound_to_sub:
  assumes "bound_to pid s k T" "\<And>e. map_of (pt_map T') pid = Some e \<Longrightarrow> map_of (pt_map T) pid = Some e"
  shows "bound_to pid s k T'"
  using assms unfolding bound_to_def by blast

lemma map_of_filter_keys:
  assumes "distinct (map fst m)" "map_of (retain P m) k = Some v"
  shows "map_of m k = Some v"
  using assms by (auto simp: map_of_retain split: option.splits if_splits)

lemma bound_to_step:
  assumes "table_ok T" "bound_to pid s k T" "\<not> execs pid op"
  shows "bound_to pid s k (table_step op T)"
proof (cases op)
  case (TExec e st now)
  with assms(3) have pid: "xe_pid e \<noteq> pid" by (simp add: execs_def)
  let ?m = "retain (\<lambda>_ e. now - pe_seen_at e \<le> ENTRY_TTL) (pt_map T)"
  have d: "distinct (map fst (pt_map T))" using assms(1) by (simp add: table_ok_def)
  have m: "map_of (pt_map T) pid = Some x" if "map_of ?m pid = Some x" for x
    using map_of_filter_keys [OF d that] .
  have ev: "map_of (pt_map T) pid = Some x" if "map_of (evict_oldest_eighth ?m) pid = Some x" for x
    using that m map_of_filter_keys [OF distinct_retain [OF d]] unfolding evict_oldest_eighth_def Let_def by blast
  have "map_of (pt_map (observe_exec e st now T)) pid = Some x \<Longrightarrow> map_of (pt_map T) pid = Some x" for x
    using pid m ev by (simp add: observe_exec_def Let_def update_conv' kernel_proc_from_def split: if_splits)
  with assms(2) show ?thesis unfolding TExec table_step.simps by (rule bound_to_sub)
next
  case (TExit p)
  have "map_of (pt_map (observe_exit p T)) pid = Some x \<Longrightarrow> map_of (pt_map T) pid = Some x" for x
    by (simp add: observe_exit_def delete_conv' split: if_splits)
  with assms(2) show ?thesis unfolding TExit table_step.simps by (rule bound_to_sub)
next
  case (TGet p st now)
  let ?T = "snd (get_proc p st now T)"
  consider "pt_map ?T = pt_map T" | "pt_map ?T = AList.delete p (pt_map T)"
    | e where "map_of (pt_map T) p = Some e" "pe_starttime e = None"
        "pt_map ?T = AList.update p (e\<lparr>pe_starttime := st\<rparr>) (pt_map T)"
    using get_proc_map [of p st now T] by auto
  then have "map_of (pt_map ?T) pid = Some x \<Longrightarrow> map_of (pt_map T) pid = Some x" for x
    using assms(2) by cases (auto simp: bound_to_def delete_conv' update_conv' split: if_splits)
  with assms(2) show ?thesis unfolding TGet table_step.simps by (rule bound_to_sub)
next
  case (TLive live)
  with assms(2) show ?thesis by (simp add: set_live_def bound_to_def)
qed

text \<open>Between two execs of a pid the table answers for one process: once a lookup that
  presents a start time is answered, no later lookup with another start time is, through any
  execs of other pids, exits, expiries and lookups in between, and the answer does not change.\<close>

theorem exec_record_names_one_process:
  assumes "get_proc pid (Some s) now (table_run before new_table) = (Some k, T)"
    and "list_all (\<lambda>op. \<not> execs pid op) ops"
    and "get_proc pid (Some s') now' (table_run ops T) = (Some k', T')"
  shows "s' = s \<and> k' = k"
proof -
  have "table_ok (table_run before new_table)" by (rule table_run_ok) (simp add: table_ok_def new_table_def)
  then have "table_ok T" using table_ok_step [of _ "TGet pid (Some s) now"] assms(1) by fastforce
  moreover have "bound_to pid s k T" by (rule get_proc_binds) fact
  ultimately have "bound_to pid s k (table_run ops T)"
    using assms(2)
  proof (induction ops arbitrary: T)
    case (Cons op ops)
    then show ?case using bound_to_step table_ok_step by simp
  qed simp
  from bound_to_get [OF this assms(3)] show ?thesis by simp
qed

definition example_exec :: exec_event where
  "example_exec = \<lparr>xe_pid = 7, xe_ppid = 1, xe_uid = 1000, xe_gid = 1000, xe_comm = [], xe_filename = [],
     xe_filename_len = 0, xe_pad = []\<rparr>"

theorem exec_record_names_one_process_witness:
  "\<exists>k T. get_proc 7 (Some 5) 2 (table_run [TLive True, TExec example_exec None 1] new_table) = (Some k, T) \<and>
     fst (get_proc 7 (Some 5) 4 (table_run [TExit 8] T)) = Some k"
proof -
  define T0 where "T0 = table_run [TLive True, TExec example_exec None 1] new_table"
  define r where "r = get_proc 7 (Some 5) 2 T0"
  obtain k T where one: "r = (Some k, T)"
    and two: "\<exists>k' T'. get_proc 7 (Some 5) 4 (table_run [TExit 8] T) = (Some k', T')"
    by (auto simp: r_def T0_def new_table_def set_live_def observe_exec_def MAX_ENTRIES_def kernel_proc_from_def
        example_exec_def get_proc_def ENTRY_TTL_def from_secs_def observe_exit_def Let_def)
  then obtain k' T' where "get_proc 7 (Some 5) 4 (table_run [TExit 8] T) = (Some k', T')" by blast
  with exec_record_names_one_process [OF one [unfolded r_def T0_def], of "[TExit 8]" 5 4 k' T'] one
  show ?thesis by (auto simp: r_def T0_def execs_def)
qed

end
