(* ===== verification/SocketTables.thy ===== *)
theory SocketTables
  imports Texts CoreTypes
begin

text \<open>
  The socket tables of \<open>/proc/net\<close> as \<open>crates/cfc-daemon/src/process_resolve.rs\<close> reads them: rows,
  their addresses, and which row may speak for a flow.
\<close>

section \<open>Rows\<close>

definition swap_bytes :: "u32 \<Rightarrow> u32" where
  "swap_bytes w = from_be (rev (to_be32 w))"

fun is_unspecified :: "ip_addr \<Rightarrow> bool" where
  "is_unspecified (V4 w) \<longleftrightarrow> w = 0"
| "is_unspecified (V6 w) \<longleftrightarrow> w = 0"

type_synonym endpoint = "ip_addr \<times> u16"

record table_entry =
  te_local :: endpoint
  te_remote :: endpoint
  te_state :: u8
  te_inode :: u64
  te_uid :: u32

fun hex_groups :: "string \<Rightarrow> nat \<Rightarrow> bytes option" where
  "hex_groups s 0 = Some []"
| "hex_groups s (Suc n) =
     (case from_hex (take 8 s) of
        None \<Rightarrow> None
      | Some g \<Rightarrow> map_option (\<lambda>bs. rev (to_be32 g) @ bs) (hex_groups (drop 8 s) n))"

definition parse_hex_addr_port :: "string \<Rightarrow> endpoint option" where
  "parse_hex_addr_port col =
     (case split_once CHR '':'' col of
        None \<Rightarrow> None
      | Some (addr_hex, port_hex) \<Rightarrow>
          (case from_hex port_hex of
             None \<Rightarrow> None
           | Some port \<Rightarrow>
               if length addr_hex = 8
               then map_option (\<lambda>v. (V4 (swap_bytes v), port)) (from_hex addr_hex)
               else if length addr_hex = 32
               then map_option (\<lambda>bs. (V6 (from_be bs), port)) (hex_groups addr_hex 4)
               else None))"

definition format_addr_port :: "ip_addr \<Rightarrow> u16 \<Rightarrow> string" where
  "format_addr_port ip port =
     (case ip of
        V4 w \<Rightarrow> hex_bytes (rev (octets ip))
      | V6 w \<Rightarrow> concat (map (\<lambda>i. hex_bytes (rev (take 4 (drop (4 * i) (octets ip))))) [0..<4])) @
     CHR '':'' # hex_bytes (to_be16 port)"

definition parse_table_line :: "string \<Rightarrow> table_entry option" where
  "parse_table_line line =
     (case split_whitespace line of
        slot # local # remote # state # txrx # tr # retr # uid # timeout # inode # _ \<Rightarrow>
          (case (parse_hex_addr_port local, parse_hex_addr_port remote, from_hex state, parse_u32 uid, parse_u64 inode) of
             (Some local, Some remote, Some state, Some uid, Some inode) \<Rightarrow>
               Some \<lparr>te_local = local, te_remote = remote, te_state = state, te_inode = inode, te_uid = uid\<rparr>
           | _ \<Rightarrow> None)
      | _ \<Rightarrow> None)"

section \<open>Matching\<close>

definition endpoint_eq :: "endpoint \<Rightarrow> endpoint \<Rightarrow> bool" where
  "endpoint_eq a b \<longleftrightarrow> snd a = snd b \<and> to_canonical (fst a) = to_canonical (fst b)"

definition endpoint_is_zero :: "endpoint \<Rightarrow> bool" where
  "endpoint_is_zero a \<longleftrightarrow> snd a = 0 \<and> is_unspecified (to_canonical (fst a))"

definition may_identify :: "u32 option \<Rightarrow> table_entry \<Rightarrow> bool" where
  "may_identify uid e \<longleftrightarrow> te_inode e \<noteq> 0 \<and> (case uid of None \<Rightarrow> True | Some uid \<Rightarrow> te_uid e = uid)"

definition udp_compatible :: "endpoint \<Rightarrow> endpoint \<Rightarrow> table_entry \<Rightarrow> bool" where
  "udp_compatible local remote e \<longleftrightarrow>
     (endpoint_eq (te_local e) local \<or>
      snd (te_local e) = snd local \<and> is_unspecified (to_canonical (fst (te_local e)))) \<and>
     (endpoint_eq (te_remote e) remote \<or> endpoint_is_zero (te_remote e))"

definition tcp_connected :: "endpoint \<Rightarrow> endpoint \<Rightarrow> table_entry \<Rightarrow> bool" where
  "tcp_connected local remote e \<longleftrightarrow>
     te_state e \<noteq> 0x0A \<and> \<not> endpoint_is_zero (te_remote e) \<and>
     endpoint_eq (te_local e) local \<and> endpoint_eq (te_remote e) remote"

fun udp_scan :: "endpoint \<Rightarrow> endpoint \<Rightarrow> u64 option \<Rightarrow> table_entry list \<Rightarrow> u64 option" where
  "udp_scan local remote inode [] = inode"
| "udp_scan local remote inode (e # es) =
     (if udp_compatible local remote e
      then (if \<exists>i. inode = Some i \<and> i \<noteq> te_inode e then None else udp_scan local remote (Some (te_inode e)) es)
      else udp_scan local remote inode es)"

fun tcp_scan :: "endpoint \<Rightarrow> endpoint \<Rightarrow> table_entry list \<Rightarrow> u64 option" where
  "tcp_scan local remote [] = None"
| "tcp_scan local remote (e # es) = (if tcp_connected local remote e then Some (te_inode e) else tcp_scan local remote es)"

definition scan_table_entries :: "table_entry list \<Rightarrow> protocol \<Rightarrow> endpoint \<Rightarrow> endpoint \<Rightarrow> u32 option \<Rightarrow> u64 option" where
  "scan_table_entries entries proto local remote uid =
     (let entries = filter (may_identify uid) entries in
      if proto = Udp then udp_scan local remote None entries else tcp_scan local remote entries)"

definition table_rows :: "string \<Rightarrow> table_entry list" where
  "table_rows content = List.map_filter parse_table_line (drop 1 (str_lines content))"

definition scan_table_content :: "string \<Rightarrow> protocol \<Rightarrow> endpoint \<Rightarrow> endpoint \<Rightarrow> u32 option \<Rightarrow> u64 option" where
  "scan_table_content content proto local remote uid = scan_table_entries (table_rows content) proto local remote uid"

section \<open>What a scan answers\<close>

lemma udp_scan_Some:
  "udp_scan local remote (Some i) es = Some j \<longleftrightarrow> j = i \<and> (\<forall>e \<in> set es. udp_compatible local remote e \<longrightarrow> te_inode e = i)"
  by (induction es) auto

lemma udp_scan_iff:
  "udp_scan local remote None es = Some i \<longleftrightarrow>
     (\<exists>e \<in> set es. udp_compatible local remote e) \<and> (\<forall>e \<in> set es. udp_compatible local remote e \<longrightarrow> te_inode e = i)"
  by (induction es) (auto simp: udp_scan_Some)

lemma tcp_scan_eq: "tcp_scan local remote es = map_option te_inode (find (tcp_connected local remote) es)"
  by (induction es) auto

text \<open>A UDP flow is attributed to an inode exactly when the usable rows of the tables that
  are compatible with it name that inode and no other; a TCP flow to the inode of the first
  usable row that is a connected socket of exactly its two ends, never a listener.  Rows without
  an inode or of another user than the packet's are not usable.\<close>

theorem scan_answers_are_unambiguous:
  "(scan_table_entries es Udp local remote uid = Some i \<longleftrightarrow>
      te_inode ` {e \<in> set es. may_identify uid e \<and> udp_compatible local remote e} = {i}) \<and>
   scan_table_entries es Tcp local remote uid =
      map_option te_inode (find (\<lambda>e. may_identify uid e \<and> tcp_connected local remote e) es)"
proof -
  have "find Q (filter P es) = find (\<lambda>e. P e \<and> Q e) es" for P Q :: "table_entry \<Rightarrow> bool"
    by (induction es) auto
  then show ?thesis
    by (auto simp: scan_table_entries_def udp_scan_iff tcp_scan_eq)
qed

section \<open>Rows read back\<close>

lemma swap_bytes_le: "length bs = 4 \<Longrightarrow> swap_bytes (from_be (rev bs)) = from_be bs"
proof -
  assume "length bs = 4"
  then have "be_bytes 4 (unat (from_be (rev bs) :: u32)) = rev bs"
    using be_val_lt [of "rev bs"] unat_from_be [where 'a = 32, of "rev bs"] be_bytes_be_val [of "rev bs" 4] by simp
  then show ?thesis by (simp add: swap_bytes_def)
qed


lemma hex_groups_bytes:
  assumes "\<forall>c \<in> set cs. length c = 4"
  shows "hex_groups (concat (map (\<lambda>c. hex_bytes (rev c)) cs)) (length cs) = Some (concat cs)"
  using assms
proof (induction cs)
  case (Cons c cs)
  then have c: "length c = 4" by simp
  then have "c \<noteq> []" by auto
  then have "from_hex (hex_bytes (rev c)) = Some (from_be (rev c) :: u32)"
    using c by (intro from_hex_bytes) simp_all
  moreover have "rev (to_be32 (from_be (rev c))) = c"
    using c be_val_lt [of "rev c"] unat_from_be [where 'a = 32, of "rev c"] be_bytes_be_val [of "rev c" 4] by simp
  ultimately show ?case using Cons c by (simp add: take_append drop_append)
qed simp

lemma hex_colon: "CHR '':'' \<notin> set (hex_bytes bs)"
  using hex_bytes_chars [of "CHR '':''" bs] by auto

lemma from_be_octets: "from_be (octets (V4 w)) = w" "from_be (octets (V6 v)) = v"
proof -
  show "from_be (octets (V4 w)) = w" by (simp add: from_be_to_be32)
  have "unat v < 256 ^ 16" using unat_lt_2p [of v] by simp
  then show "from_be (octets (V6 v)) = v" by (simp add: from_be_def be_val_be_bytes del: be_bytes.simps)
qed

lemma concat_chunks:
  assumes "length bs = 16"
  shows "concat (map (\<lambda>i. take 4 (drop (4 * i) bs)) [0..<4]) = bs"
proof -
  have "drop 12 bs = take 4 (drop 12 bs)" using assms by simp
  moreover have "drop 8 bs = take 4 (drop 8 bs) @ drop 12 bs" using append_take_drop_id [of 4 "drop 8 bs"] by simp
  moreover have "drop 4 bs = take 4 (drop 4 bs) @ drop 8 bs" using append_take_drop_id [of 4 "drop 4 bs"] by simp
  moreover have "bs = take 4 bs @ drop 4 bs" by simp
  ultimately have "bs = take 4 bs @ take 4 (drop 4 bs) @ take 4 (drop 8 bs) @ take 4 (drop 12 bs)" by metis
  then show ?thesis by (simp add: upt_rec)
qed

lemma endpoint_reads_back: "parse_hex_addr_port (format_addr_port ip port) = Some (ip, port)"
proof -
  let ?port = "hex_bytes (to_be16 port)"
  have p: "from_hex ?port = Some port"
  proof -
    have "to_be16 port \<noteq> []" by (metis length_be_bytes list.size(3) zero_neq_numeral)
    then have "from_hex ?port = Some (from_be (to_be16 port) :: u16)" by (rule from_hex_bytes) simp
    then show ?thesis by (simp only: from_be_to_be16)
  qed
  show ?thesis
  proof (cases ip)
    case (V4 w)
    let ?bs = "octets (V4 w)"
    have "from_hex (hex_bytes (rev ?bs)) = Some (from_be (rev ?bs) :: u32)"
    proof (rule from_hex_bytes)
      show "rev ?bs \<noteq> []" by (metis length_be_bytes length_rev list.size(3) octets.simps(1) zero_neq_numeral)
    qed simp
    then show ?thesis
      using p hex_colon [of "rev ?bs"] swap_bytes_le [of ?bs] from_be_octets(1) [of w]
      by (simp add: V4 parse_hex_addr_port_def format_addr_port_def split_once_at del: octets.simps be_bytes.simps)
         (simp add: octets.simps)
  next
    case (V6 v)
    let ?cs = "map (\<lambda>i. take 4 (drop (4 * i) (octets (V6 v)))) [0..<4]"
    let ?hex = "concat (map (\<lambda>c. hex_bytes (rev c)) ?cs)"
    have len: "length (octets (V6 v)) = 16" by simp
    have cs: "\<forall>c \<in> set ?cs. length c = 4" using len by auto
    have "hex_groups ?hex 4 = Some (octets (V6 v))"
      using hex_groups_bytes [OF cs] concat_chunks [OF len] by simp
    moreover have "length ?hex = 32" using len by (simp add: upt_rec)
    moreover have "CHR '':'' \<notin> set ?hex" using hex_colon by auto
    moreover have "format_addr_port (V6 v) port = ?hex @ CHR '':'' # ?port"
      by (simp add: format_addr_port_def o_def)
    ultimately show ?thesis
      using p from_be_octets(2) [of v] by (simp add: V6 parse_hex_addr_port_def split_once_at)
  qed
qed


lemma format_plain: "c \<in> set (format_addr_port ip port) \<Longrightarrow> plain c"
  using hex_bytes_chars by (auto simp: format_addr_port_def plain_def split: ip_addr.splits)

text \<open>A row as the kernel prints it: the blanks between the columns, the columns the daemon does
  not read, and what follows the inode are the record's other fields.\<close>

record row_layout =
  rl_blanks :: "nat list"
  rl_slot :: string
  rl_queues :: string
  rl_timer :: string
  rl_retr :: string
  rl_timeout :: string
  rl_rest :: "(nat \<times> string) list"
  rl_end :: nat

definition row_words :: "row_layout \<Rightarrow> table_entry \<Rightarrow> string list" where
  "row_words l e =
     [rl_slot l, format_addr_port (fst (te_local e)) (snd (te_local e)),
      format_addr_port (fst (te_remote e)) (snd (te_remote e)), hex_byte (te_state e), rl_queues l, rl_timer l,
      rl_retr l, dec_string (unat (te_uid e)), rl_timeout l, dec_string (unat (te_inode e))]"

definition row_text :: "row_layout \<Rightarrow> table_entry \<Rightarrow> string" where
  "row_text l e = spaced (zip (rl_blanks l) (row_words l e) @ rl_rest l) (rl_end l)"

definition word_ok :: "string \<Rightarrow> bool" where
  "word_ok w \<longleftrightarrow> w \<noteq> [] \<and> (\<forall>c \<in> set w. plain c)"

definition layout_ok :: "row_layout \<Rightarrow> bool" where
  "layout_ok l \<longleftrightarrow> length (rl_blanks l) = 10 \<and>
     list_all word_ok ([rl_slot l, rl_queues l, rl_timer l, rl_retr l, rl_timeout l] @ map snd (rl_rest l))"

lemma row_words_ok: "layout_ok l \<Longrightarrow> \<forall>w \<in> set (row_words l e). word_ok w"
proof -
  have "hex_byte b = hex_bytes [b]" for b by (simp add: hex_bytes_def)
  then have "word_ok (hex_byte b)" for b
    using hex_bytes_chars [of _ "[b]"] length_hex_bytes [of "[b]"] by (auto simp: word_ok_def simp del: length_hex_bytes)
  moreover have "word_ok (format_addr_port ip port)" for ip port
    using format_plain [of _ ip port] by (auto simp: word_ok_def) (auto simp: format_addr_port_def)
  moreover have "word_ok (dec_string n)" for n
    using dec_plain dec_string_nonempty by (auto simp: word_ok_def)
  ultimately show "layout_ok l \<Longrightarrow> ?thesis" by (auto simp: row_words_def layout_ok_def)
qed

lemma parse_row:
  assumes "layout_ok l"
  shows "parse_table_line (row_text l e) = Some e"
proof -
  have len: "length (rl_blanks l) = length (row_words l e)" using assms by (simp add: layout_ok_def row_words_def)
  have "\<forall>w \<in> snd ` set (zip (rl_blanks l) (row_words l e) @ rl_rest l). w \<noteq> [] \<and> (\<forall>c \<in> set w. plain c)"
    using row_words_ok [OF assms, of e] assms
    by (auto simp: layout_ok_def word_ok_def list_all_iff dest: set_zip_rightD)
  from split_whitespace_spaced [OF this, of "rl_end l"]
  have words: "split_whitespace (row_text l e) = row_words l e @ map snd (rl_rest l)"
    using len by (simp add: row_text_def)
  have state: "from_hex (hex_byte (te_state e)) = Some (te_state e)"
    using from_hex_bytes [where 'a = 8, of "[te_state e]"] by (simp add: hex_bytes_def from_be_def)
  show ?thesis
    unfolding parse_table_line_def words
    by (simp add: row_words_def endpoint_reads_back state parse_u32_dec parse_u64_dec_string)
qed


lemma row_text_chars: "layout_ok l \<Longrightarrow> c \<in> set (row_text l e) \<Longrightarrow> c \<noteq> CHR 0x0A \<and> c \<noteq> CHR 0x0D"
proof -
  assume ok: "layout_ok l" and c: "c \<in> set (row_text l e)"
  have "plain c" if "w \<in> snd ` set (zip (rl_blanks l) (row_words l e) @ rl_rest l)" "c \<in> set w" for w
    using that row_words_ok [OF ok, of e] ok
    by (auto simp: layout_ok_def word_ok_def list_all_iff dest: set_zip_rightD)
  then have "plain c \<or> c = CHR '' ''"
    using c by (fastforce simp: row_text_def spaced_def)
  then show ?thesis by (auto simp: plain_def)
qed

text \<open>The socket tables of \<open>/proc/net\<close> are read back as the kernel prints them: a heading line
  is skipped and every row, its addresses printed as the hexadecimal of little-endian words, its
  ports in hexadecimal, its columns set apart by any number of blanks, yields the row it shows.\<close>

theorem proc_table_reads_back:
  assumes "list_all (\<lambda>(l, e). layout_ok l) rows" and "CHR 0x0A \<notin> set heading" and "CHR 0x0D \<notin> set heading"
  shows "table_rows (text_of_lines (heading # map (\<lambda>(l, e). row_text l e) rows)) = map snd rows"
proof -
  have "\<forall>l \<in> set (heading # map (\<lambda>(l, e). row_text l e) rows). CHR 0x0A \<notin> set l \<and> CHR 0x0D \<notin> set l"
    using assms row_text_chars by (fastforce simp: list_all_iff)
  from str_lines_text [OF this]
  have lines: "drop 1 (str_lines (text_of_lines (heading # map (\<lambda>(l, e). row_text l e) rows))) =
      map (\<lambda>(l, e). row_text l e) rows" by (simp add: text_of_lines_def)
  have "List.map_filter parse_table_line (map (\<lambda>(l, e). row_text l e) rows) = map snd rows"
    using assms(1) by (induction rows) (auto simp: parse_row List.map_filter_simps)
  then show ?thesis unfolding table_rows_def lines .
qed

definition example_layout :: row_layout where
  "example_layout = \<lparr>rl_blanks = replicate 10 1, rl_slot = ''0:'', rl_queues = ''0:0'', rl_timer = ''0:0'',
     rl_retr = ''0'', rl_timeout = ''0'', rl_rest = [(0, ''2'')], rl_end = 3\<rparr>"

definition example_entry :: table_entry where
  "example_entry = \<lparr>te_local = (V4 0x7F000001, 8080), te_remote = (V6 1, 443), te_state = 1, te_inode = 31337, te_uid = 1000\<rparr>"

theorem proc_table_reads_back_witness:
  "table_rows (text_of_lines [''sl'', row_text example_layout example_entry]) = [example_entry]"
  using proc_table_reads_back [of "[(example_layout, example_entry)]" "''sl''"]
  by (simp add: layout_ok_def example_layout_def word_ok_def plain_def numeral_eq_Suc)

end
