(* ===== verification/TtlCache.thy ===== *)
theory TtlCache
  imports HashMaps "HOL-Library.Multiset"
begin

text \<open>
  \<open>TtlCache\<close> of \<open>crates/cfc-daemon/src/process_resolve.rs\<close>, the bounded map behind the inode and
  digest caches and behind package provenance.  The clock and the order \<open>it\<close> of an iteration are
  arguments.
\<close>

record ('k, 'v) ttl_cache =
  tc_map :: "('k \<times> 'v \<times> nat) list"
  tc_ttl :: nat
  tc_cap :: nat

definition new_ttl_cache :: "nat \<Rightarrow> nat \<Rightarrow> ('k, 'v) ttl_cache" where
  "new_ttl_cache ttl cap = \<lparr>tc_map = [], tc_ttl = ttl, tc_cap = cap\<rparr>"

definition ttl_remove :: "'k \<Rightarrow> ('k, 'v) ttl_cache \<Rightarrow> ('k, 'v) ttl_cache" where
  "ttl_remove key c = c\<lparr>tc_map := AList.delete key (tc_map c)\<rparr>"

definition ttl_get :: "'k \<Rightarrow> nat \<Rightarrow> ('k, 'v) ttl_cache \<Rightarrow> 'v option \<times> ('k, 'v) ttl_cache" where
  "ttl_get key now c =
     (case map_of (tc_map c) key of
        None \<Rightarrow> (None, c)
      | Some (value, inserted) \<Rightarrow>
          if now - inserted \<le> tc_ttl c then (Some value, c) else (None, ttl_remove key c))"

definition ttl_make_room ::
  "(('k \<times> 'v \<times> nat) list \<Rightarrow> ('k \<times> 'v \<times> nat) list) \<Rightarrow> nat \<Rightarrow> ('k, 'v) ttl_cache \<Rightarrow> ('k \<times> 'v \<times> nat) list" where
  "ttl_make_room it now c =
     (let m = retain (\<lambda>_ e. now - snd e \<le> tc_ttl c) (tc_map c) in
      if tc_cap c \<le> length m
      then (case min_by_key (snd \<circ> snd) (it m) of None \<Rightarrow> m | Some x \<Rightarrow> AList.delete (fst x) m)
      else m)"

definition ttl_insert ::
  "(('k \<times> 'v \<times> nat) list \<Rightarrow> ('k \<times> 'v \<times> nat) list) \<Rightarrow> 'k \<Rightarrow> 'v \<Rightarrow> nat \<Rightarrow> ('k, 'v) ttl_cache \<Rightarrow> ('k, 'v) ttl_cache" where
  "ttl_insert it key value now c =
     (let m = (if tc_cap c \<le> length (tc_map c) \<and> map_of (tc_map c) key = None then ttl_make_room it now c else tc_map c) in
      c\<lparr>tc_map := AList.update key (value, now) m\<rparr>)"

section \<open>Bounded, and true to what was inserted\<close>

definition ttl_ok :: "('k, 'v) ttl_cache \<Rightarrow> bool" where
  "ttl_ok c \<longleftrightarrow> distinct (map fst (tc_map c)) \<and> length (tc_map c) \<le> tc_cap c \<and> 0 < tc_cap c"

lemma ttl_ok_new: "0 < cap \<Longrightarrow> ttl_ok (new_ttl_cache ttl cap)"
  by (simp add: ttl_ok_def new_ttl_cache_def)

lemma ttl_ok_remove: "ttl_ok c \<Longrightarrow> ttl_ok (ttl_remove key c)"
  using length_delete_le [of key "tc_map c"] by (simp add: ttl_ok_def ttl_remove_def distinct_delete)

lemma ttl_ok_get: "ttl_ok c \<Longrightarrow> ttl_ok (snd (ttl_get key now c))"
  by (auto simp: ttl_get_def ttl_ok_remove split: option.split)

lemma ttl_make_room_length:
  assumes "ttl_ok c" "\<And>m. mset (it m) = mset m"
  shows "distinct (map fst (ttl_make_room it now c)) \<and> length (ttl_make_room it now c) < tc_cap c"
proof -
  let ?m = "retain (\<lambda>_ e. now - snd e \<le> tc_ttl c) (tc_map c)"
  have m: "distinct (map fst ?m)" "length ?m \<le> tc_cap c"
    using assms(1) length_retain_le [of _ "tc_map c"] by (auto simp: ttl_ok_def intro: distinct_retain le_trans)
  show ?thesis
  proof (cases "tc_cap c \<le> length ?m")
    case True
    moreover have "0 < tc_cap c" using assms(1) by (simp add: ttl_ok_def)
    ultimately have "0 < length ?m" by (rule less_le_trans [rotated])
    then have "?m \<noteq> []" by (rule length_greater_0_conv [THEN iffD1])
    then have "it ?m \<noteq> []" using assms(2) [of ?m] by (metis mset_zero_iff)
    then obtain x where x: "min_by_key (snd \<circ> snd) (it ?m) = Some x"
      by (cases "min_by_key (snd \<circ> snd) (it ?m)") (simp_all add: min_by_key_None_iff)
    then have "x \<in> set (it ?m)" by (rule min_by_key_mem)
    moreover have "set (it ?m) = set ?m" by (rule mset_eq_setD) (rule assms(2))
    ultimately have "x \<in> set ?m" by blast
    then have "length (AList.delete (fst x) ?m) < length ?m" by (intro length_delete_present) auto
    with True m x show ?thesis by (simp add: ttl_make_room_def Let_def distinct_delete)
  qed (use m in \<open>simp add: ttl_make_room_def Let_def\<close>)
qed

lemma ttl_ok_insert:
  assumes "ttl_ok c" "\<And>m. mset (it m) = mset m"
  shows "ttl_ok (ttl_insert it key value now c)"
proof (cases "tc_cap c \<le> length (tc_map c) \<and> map_of (tc_map c) key = None")
  case True
  with ttl_make_room_length [of c it now, OF assms] assms(1) length_update_le [of key "(value, now)" "ttl_make_room it now c"]
  show ?thesis by (simp add: ttl_insert_def ttl_ok_def distinct_update Let_def)
next
  case False
  with assms(1) length_update_le [of key "(value, now)" "tc_map c"] length_update_present [of "tc_map c" key "(value, now)"]
  show ?thesis
    by (cases "map_of (tc_map c) key = None") (auto simp: ttl_insert_def ttl_ok_def distinct_update Let_def)
qed

lemma ttl_get_insert: "ttl_ok c \<Longrightarrow> fst (ttl_get key now (ttl_insert it key value now' c)) =
    (if now - now' \<le> tc_ttl c then Some value else None)"
  by (simp add: ttl_get_def ttl_insert_def Let_def update_conv')

end
