(* ===== verification/Machine.thy ===== *)
theory Machine
  imports ProcTable SocketTables SockDiag TtlCache StateRules
begin

text \<open>
  The machine under \<open>crates/cfc-daemon/src/process_resolve.rs\<close> and \<open>official.rs\<close>.  It changes
  while it is read: a \<open>machine\<close> gives the view of every instant, each read is one instant, and the
  next read sees a later view.  Nothing is assumed of how views change.  The state holds the clock
  and what the daemon keeps between calls: the caches, the recently resolved pids, the netlink
  thread and the table of kernel records.
\<close>

section \<open>What a read can see\<close>

datatype task_dir = NoTaskDir | UnreadableTaskDir | TaskNames "string list"

datatype table_text = NoTable | UnreadableTable | TableText string

record file_meta =
  fm_is_file :: bool
  fm_is_dir :: bool
  fm_uid :: u32
  fm_mode :: u32
  fm_dev :: u64
  fm_ino :: u64
  fm_len :: u64
  fm_mtime :: int
  fm_mtime_nsec :: int
  fm_ctime :: int
  fm_ctime_nsec :: int
  fm_nlink :: u64

text \<open>
  A view by the path it is read from.  Under \<open>/proc/<pid>\<close>: \<open>v_stat\<close>, \<open>v_status\<close>, \<open>v_maps\<close>,
  \<open>v_mountinfo\<close> and \<open>v_cmdline\<close> are file contents, \<open>v_exe_link\<close>, \<open>v_cwd\<close>, \<open>v_user_ns\<close>,
  \<open>v_mnt_ns\<close> and \<open>v_fd_link\<close> the texts of links, \<open>v_exe_stat\<close> the metadata behind \<open>exe\<close>,
  \<open>v_status_owner\<close> the owner of \<open>status\<close> and \<open>v_fd_names\<close> the names in \<open>fd\<close>.  The procfs crate
  answers \<open>v_proc\<close> (the process exists), \<open>v_fds\<close> and \<open>v_fd_target\<close> (its descriptors and what they
  are: none when unreadable, the inode of a socket, or another target), \<open>v_ppid\<close> and \<open>v_ids\<close>.
  A file opened through \<open>exe\<close> is the number \<open>v_exe_open\<close> gives it; \<open>v_file_meta\<close>, \<open>v_file_read\<close>
  (the bytes at an offset, none for an error) and \<open>v_fdinfo\<close> speak of that open file.
  \<open>v_path_meta\<close> and \<open>v_path_lmeta\<close> are \<open>metadata\<close> and \<open>symlink_metadata\<close> of a path in the daemon's
  own namespace.  \<open>v_tasks\<close> lists \<open>task\<close> under the process.  \<open>v_cookie_pid\<close> is the kernel's map of socket cookies.
\<close>

record view =
  v_now :: nat
  v_system_now :: int
  v_stat :: "u32 \<Rightarrow> string option"
  v_proc :: "u32 \<Rightarrow> bool"
  v_fds :: "u32 \<Rightarrow> int list option"
  v_fd_target :: "u32 \<Rightarrow> int \<Rightarrow> u64 option option"
  v_fd_link :: "u32 \<Rightarrow> int \<Rightarrow> string option"
  v_pids :: "u32 list option"
  v_table :: "string \<Rightarrow> table_text"
  v_cookie_pid :: "u64 \<Rightarrow> u32 option"
  v_netlink :: "exchange_io \<times> exchange_io"
  v_ppid :: "u32 \<Rightarrow> int option"
  v_ids :: "u32 \<Rightarrow> (u32 \<times> u32) option"
  v_cmdline :: "u32 \<Rightarrow> bytes option"
  v_cwd :: "u32 \<Rightarrow> string option"
  v_exe_open :: "u32 \<Rightarrow> nat option"
  v_exe_link :: "u32 \<Rightarrow> string option"
  v_exe_stat :: "u32 \<Rightarrow> file_meta option"
  v_file_meta :: "nat \<Rightarrow> file_meta option"
  v_file_read :: "nat \<Rightarrow> nat \<Rightarrow> bytes option"
  v_fdinfo :: "nat \<Rightarrow> string option"
  v_mountinfo :: "u32 \<Rightarrow> string option"
  v_user_ns :: "u32 \<Rightarrow> string option"
  v_own_user_ns :: "string option"
  v_path_meta :: "string \<Rightarrow> file_meta option"
  v_mnt_ns :: "u32 \<Rightarrow> string option"
  v_status :: "u32 \<Rightarrow> string option"
  v_status_owner :: "u32 \<Rightarrow> u32 option"
  v_fd_names :: "u32 \<Rightarrow> string list option"
  v_maps :: "u32 \<Rightarrow> string option"
  v_path_lmeta :: "path_component list \<Rightarrow> file_meta option"
  v_tasks :: "u32 \<Rightarrow> task_dir"

text \<open>Device, inode, length, and the two times with their nanoseconds.\<close>

type_synonym image_key = "u64 \<times> u64 \<times> u64 \<times> int \<times> int \<times> int \<times> int"

type_synonym inode_cache = "(u64, u32 \<times> int) ttl_cache"
type_synonym digest_cache = "(image_key, string) ttl_cache"

text \<open>\<open>mc_sha256\<close> is the hash function; the orders are those in which the hash maps are iterated.\<close>

record machine =
  mc_view :: "nat \<Rightarrow> view"
  mc_endian :: endian
  mc_sha256 :: "bytes \<Rightarrow> bytes"
  mc_cache_order :: "(u64 \<times> (u32 \<times> int) \<times> nat) list \<Rightarrow> (u64 \<times> (u32 \<times> int) \<times> nat) list"
  mc_digest_order :: "(image_key \<times> string \<times> nat) list \<Rightarrow> (image_key \<times> string \<times> nat) list"
  mc_exec_order :: "(u32 \<times> proc_entry) list \<Rightarrow> (u32 \<times> proc_entry) list"

record attr_state =
  as_step :: nat
  as_inodes :: inode_cache
  as_resolved :: "u32 list"
  as_digests :: digest_cache
  as_diag :: diag_thread
  as_procs :: proc_table

type_synonym 'a attr = "(attr_state, 'a) state"

definition look :: "machine \<Rightarrow> (view \<Rightarrow> 'a) \<Rightarrow> 'a attr" where
  "look M f = State (\<lambda>s. (f (mc_view M (as_step s)), s\<lparr>as_step := Suc (as_step s)\<rparr>))"

definition now :: "machine \<Rightarrow> nat attr" where "now M = look M v_now"

definition INODE_CACHE_TTL :: nat where "INODE_CACHE_TTL = from_secs 2"
definition SHA_CACHE_TTL :: nat where "SHA_CACHE_TTL = from_secs ((2 ^ 64 - 1) div 2)"
definition CACHE_CAP :: nat where "CACHE_CAP = 1024"
definition RESOLVED_PIDS_CAP :: nat where "RESOLVED_PIDS_CAP = 16"

definition new_attr_state :: attr_state where
  "new_attr_state = \<lparr>as_step = 0, as_inodes = new_ttl_cache INODE_CACHE_TTL CACHE_CAP, as_resolved = [],
     as_digests = new_ttl_cache SHA_CACHE_TTL CACHE_CAP, as_diag = new_thread, as_procs = new_table\<rparr>"

section \<open>Start times and descriptors\<close>

fun rsplit_once :: "char \<Rightarrow> string \<Rightarrow> (string \<times> string) option" where
  "rsplit_once c [] = None"
| "rsplit_once c (x # xs) =
     (case rsplit_once c xs of
        Some (a, b) \<Rightarrow> Some (x # a, b)
      | None \<Rightarrow> if x = c then Some ([], xs) else None)"

definition parse_starttime :: "string \<Rightarrow> u64 option" where
  "parse_starttime stat =
     (case rsplit_once CHR '')'' stat of
        None \<Rightarrow> None
      | Some (_, rest) \<Rightarrow>
          (case get_at (split_whitespace rest) 19 of None \<Rightarrow> None | Some field \<Rightarrow> parse_u64 field))"

definition start_at :: "view \<Rightarrow> u32 \<Rightarrow> u64 option" where
  "start_at v pid = (case v_stat v pid of None \<Rightarrow> None | Some stat \<Rightarrow> parse_starttime stat)"

definition read_starttime :: "machine \<Rightarrow> u32 \<Rightarrow> u64 option attr" where
  "read_starttime M pid = look M (\<lambda>v. start_at v pid)"

lemma rsplit_once_last: "c \<notin> set b \<Longrightarrow> rsplit_once c (a @ c # b) = Some (a, b)"
proof (induction a)
  case Nil
  then have "rsplit_once c b = None" by (induction b) auto
  then show ?case by simp
qed simp

text \<open>A command name holds any character, blanks and parentheses too.\<close>

lemma parse_starttime_stat:
  assumes "\<forall>w \<in> set cols. w \<noteq> [] \<and> (\<forall>c \<in> set w. plain c \<and> c \<noteq> CHR '')'')" "19 < length cols"
    "cols ! 19 = dec_string (unat starttime)"
  shows "parse_starttime (dec_string (unat pid) @ '' ('' @ comm @ '')'' @ spaced (map (Pair 0) cols) n) = Some starttime"
proof -
  let ?rest = "spaced (map (Pair 0) cols) n"
  have "CHR '')'' \<notin> set ?rest" using assms(1) by (auto simp: spaced_def)
  then have "rsplit_once CHR '')'' ((dec_string (unat pid) @ '' ('' @ comm) @ CHR '')'' # ?rest) =
      Some (dec_string (unat pid) @ '' ('' @ comm, ?rest)" by (rule rsplit_once_last)
  moreover have "split_whitespace ?rest = cols"
    using split_whitespace_spaced [of "map (Pair 0) cols" n] assms(1) by (simp add: comp_def)
  moreover have "get_at cols 19 = Some (cols ! 19)" using assms(2) by (simp add: get_at_def)
  moreover have "dec_string (unat pid) @ '' ('' @ comm @ '')'' @ ?rest = (dec_string (unat pid) @ '' ('' @ comm) @ CHR '')'' # ?rest"
    by simp
  ultimately show ?thesis
    unfolding parse_starttime_def using parse_u64_dec_string [of starttime] by (simp only: prod.case option.case assms(3))
qed

definition socket_text :: "u64 \<Rightarrow> string" where
  "socket_text inode = ''socket:['' @ dec_string (unat inode) @ '']''"

definition fd_points_at_socket :: "machine \<Rightarrow> u32 \<Rightarrow> int \<Rightarrow> u64 \<Rightarrow> bool attr" where
  "fd_points_at_socket M pid fd inode =
     look M (\<lambda>v. case v_fd_link v pid fd of None \<Rightarrow> False | Some t \<Rightarrow> t = socket_text inode)"

section \<open>Digests that were read\<close>

definition image_key_of :: "file_meta \<Rightarrow> image_key" where
  "image_key_of m = (fm_dev m, fm_ino m, fm_len m, fm_mtime m, fm_mtime_nsec m, fm_ctime m, fm_ctime_nsec m)"

definition hex_lower :: "bytes \<Rightarrow> string" where
  "hex_lower bs = to_ascii_lowercase (hex_bytes bs)"

text \<open>Reads of an open file from its start, one after the other, the first no earlier than \<open>lo\<close> and
  the last before \<open>hi\<close>; and a digest of all of a file whose key was the same before and after.\<close>

inductive read_upto :: "machine \<Rightarrow> nat \<Rightarrow> nat \<Rightarrow> nat \<Rightarrow> bytes \<Rightarrow> bool" for M :: machine and f :: nat and lo :: nat where
  read_nothing: "lo \<le> hi \<Longrightarrow> read_upto M f lo hi []"
| read_more: "read_upto M f lo t buf \<Longrightarrow> t \<le> u \<Longrightarrow> u < hi \<Longrightarrow> v_file_read (mc_view M u) f (length buf) = Some chunk \<Longrightarrow>
    read_upto M f lo hi (buf @ chunk)"

definition digest_seen :: "machine \<Rightarrow> nat \<Rightarrow> image_key \<Rightarrow> string \<Rightarrow> bool" where
  "digest_seen M hi key d \<longleftrightarrow>
     (\<exists>f t u contents. t < u \<and> u < hi \<and>
        map_option image_key_of (v_file_meta (mc_view M t) f) = Some key \<and>
        read_upto M f t u contents \<and> length contents = unat (fst (snd (snd key))) \<and>
        map_option image_key_of (v_file_meta (mc_view M u) f) = Some key \<and>
        d = hex_lower (mc_sha256 M contents))"

lemma digest_seen_mono: "digest_seen M hi key d \<Longrightarrow> hi \<le> hi' \<Longrightarrow> digest_seen M hi' key d"
  unfolding digest_seen_def by (elim exE conjE, intro exI conjI) (assumption | erule (1) less_le_trans | simp)+

definition digests_ok :: "machine \<Rightarrow> attr_state \<Rightarrow> bool" where
  "digests_ok M s \<longleftrightarrow>
     (\<forall>key d t. (key, d, t) \<in> set (tc_map (as_digests s)) \<longrightarrow> digest_seen M (as_step s) key d)"

section \<open>Moving on in time\<close>

lemma wp_look [wp_simps]:
  "wp (look M f) Q s \<longleftrightarrow> Q (f (mc_view M (as_step s))) (s\<lparr>as_step := Suc (as_step s)\<rparr>)"
  by (simp add: look_def wp_State)

lemmas attr_reads [wp_simps] = now_def read_starttime_def fd_points_at_socket_def

text \<open>The bounds of what is kept between calls.\<close>

definition attr_ok :: "attr_state \<Rightarrow> bool" where
  "attr_ok s \<longleftrightarrow> ttl_ok (as_inodes s) \<and> tc_cap (as_inodes s) = CACHE_CAP \<and> distinct (as_resolved s) \<and>
     length (as_resolved s) \<le> RESOLVED_PIDS_CAP \<and> ttl_ok (as_digests s) \<and> tc_cap (as_digests s) = CACHE_CAP \<and>
     table_ok (as_procs s)"

definition order_ok :: "machine \<Rightarrow> bool" where
  "order_ok M \<longleftrightarrow> (\<forall>m. mset (mc_cache_order M m) = mset m) \<and> (\<forall>m. mset (mc_digest_order M m) = mset m)"

text \<open>What every program below does to the state: time only moves on, the bounds hold, and every
  digest kept was read.\<close>

definition moves :: "machine \<Rightarrow> attr_state \<Rightarrow> attr_state \<Rightarrow> bool" where
  "moves M s s' \<longleftrightarrow> as_step s \<le> as_step s' \<and> (order_ok M \<longrightarrow> attr_ok s \<longrightarrow> attr_ok s') \<and>
     (digests_ok M s \<longrightarrow> digests_ok M s')"

lemma moves_refl [simp]: "moves M s s"
  by (simp add: moves_def)

lemma moves_trans: "moves M s s' \<Longrightarrow> moves M s' s'' \<Longrightarrow> moves M s s''"
  by (auto simp: moves_def)

lemma moves_le: "moves M s s' \<Longrightarrow> as_step s \<le> as_step s'"
  by (simp add: moves_def)

lemma digests_ok_same:
  assumes "digests_ok M s" "as_step s \<le> as_step s'" "set (tc_map (as_digests s')) \<subseteq> set (tc_map (as_digests s))"
  shows "digests_ok M s'"
  unfolding digests_ok_def
proof (intro allI impI)
  fix key d t assume "(key, d, t) \<in> set (tc_map (as_digests s'))"
  then have "digest_seen M (as_step s) key d" using assms(1,3) unfolding digests_ok_def by blast
  then show "digest_seen M (as_step s') key d" by (rule digest_seen_mono) fact
qed

text \<open>A step that leaves the digests alone, or only forgets some.\<close>

lemma movesI:
  assumes "as_step s \<le> as_step s'" "order_ok M \<Longrightarrow> attr_ok s \<Longrightarrow> attr_ok s'"
    "set (tc_map (as_digests s')) \<subseteq> set (tc_map (as_digests s))"
  shows "moves M s s'"
  using assms digests_ok_same by (auto simp: moves_def)

lemma moves_to: "as_step s \<le> n \<Longrightarrow> moves M s (s\<lparr>as_step := n\<rparr>)"
  by (rule movesI) (simp_all add: attr_ok_def)

lemma moves_step [simp]: "moves M s (s\<lparr>as_step := Suc (as_step s)\<rparr>)"
  by (rule moves_to) simp

lemma moves_steps: "moves M (s\<lparr>as_step := n\<rparr>) s' \<Longrightarrow> as_step s \<le> n \<Longrightarrow> moves M s s'"
  using moves_trans moves_to by blast

lemma moves_then_steps: "moves M s s' \<Longrightarrow> as_step s' \<le> n \<Longrightarrow> moves M s (s'\<lparr>as_step := n\<rparr>)"
  using moves_trans moves_to by blast

lemma tc_cap_same [simp]:
  "tc_cap (ttl_insert it k v t c) = tc_cap c" "tc_cap (ttl_remove k c) = tc_cap c" "tc_cap (snd (ttl_get k t c)) = tc_cap c"
  by (auto simp: ttl_insert_def ttl_remove_def ttl_get_def Let_def split: option.split)

lemma moves_inodes:
  "moves M s (s\<lparr>as_inodes := ttl_insert (mc_cache_order M) k v t (as_inodes s)\<rparr>)"
  "moves M s (s\<lparr>as_inodes := ttl_remove k (as_inodes s)\<rparr>)"
  "moves M s (s\<lparr>as_inodes := snd (ttl_get k t (as_inodes s))\<rparr>)"
  by (rule movesI; auto simp: attr_ok_def order_ok_def intro: ttl_ok_insert ttl_ok_remove ttl_ok_get)+

lemma attr_ok_new: "attr_ok new_attr_state"
  by (simp add: attr_ok_def new_attr_state_def CACHE_CAP_def ttl_ok_new new_ttl_cache_def table_ok_def new_table_def)
    (simp add: ttl_ok_def)

end
