(* ===== verification/Attribution.thy ===== *)
theory Attribution
  imports Machine
begin

text \<open>
  \<open>crates/cfc-daemon/src/process_resolve.rs\<close>, from a flow to the process that holds its socket.
\<close>

definition RESOLVE_BUDGET :: nat where "RESOLVE_BUDGET = from_millis 50"

record socket_holder =
  so_pid :: u32
  so_starttime :: u64
  so_inode :: u64
  so_fd :: int

definition remember :: "machine \<Rightarrow> u64 \<Rightarrow> u32 \<times> int \<Rightarrow> nat \<Rightarrow> unit attr" where
  "remember M inode pid_fd t =
     State_Monad.update (\<lambda>s. s\<lparr>as_inodes := ttl_insert (mc_cache_order M) inode pid_fd t (as_inodes s)\<rparr>)"

fun probe_fds :: "machine \<Rightarrow> u32 \<Rightarrow> u64 \<Rightarrow> u64 \<Rightarrow> nat \<Rightarrow> int list \<Rightarrow> socket_holder option attr" where
  "probe_fds M pid starttime inode deadline [] = State_Monad.return None"
| "probe_fds M pid starttime inode deadline (fd # fds) = do {
     t \<leftarrow> now M;
     if deadline \<le> t then State_Monad.return None
     else do {
       target \<leftarrow> look M (\<lambda>v. v_fd_target v pid fd);
       if target = Some (Some inode) then do {
         again \<leftarrow> read_starttime M pid;
         if again \<noteq> Some starttime then State_Monad.return None
         else do {
           t \<leftarrow> now M;
           _ \<leftarrow> remember M inode (pid, fd) t;
           State_Monad.return (Some \<lparr>so_pid = pid, so_starttime = starttime, so_inode = inode, so_fd = fd\<rparr>) } }
       else probe_fds M pid starttime inode deadline fds } }"

definition pid_has_socket_inode :: "machine \<Rightarrow> u32 \<Rightarrow> u64 \<Rightarrow> nat \<Rightarrow> socket_holder option attr" where
  "pid_has_socket_inode M pid inode deadline =
     (if inode = 0 then State_Monad.return None
      else do {
        t \<leftarrow> now M;
        if deadline \<le> t then State_Monad.return None
        else do {
          p \<leftarrow> look M (\<lambda>v. v_proc v pid);
          if \<not> p then State_Monad.return None
          else do {
            starttime \<leftarrow> read_starttime M pid;
            case starttime of
              None \<Rightarrow> State_Monad.return None
            | Some starttime \<Rightarrow> do {
                fds \<leftarrow> look M (\<lambda>v. v_fds v pid);
                case fds of
                  None \<Rightarrow> State_Monad.return None
                | Some fds \<Rightarrow> probe_fds M pid starttime inode deadline fds } } } })"

section \<open>From the inode to its holder\<close>

text \<open>\<open>VecDeque::retain\<close>, \<open>push_front\<close> and \<open>truncate\<close>.\<close>

definition record_resolved_pid :: "u32 \<Rightarrow> unit attr" where
  "record_resolved_pid pid =
     State_Monad.update (\<lambda>s.
       if as_resolved s \<noteq> [] \<and> hd (as_resolved s) = pid then s
       else s\<lparr>as_resolved := take RESOLVED_PIDS_CAP (pid # filter (\<lambda>p. p \<noteq> pid) (as_resolved s))\<rparr>)"

fun probe_pids :: "machine \<Rightarrow> u64 \<Rightarrow> nat \<Rightarrow> u32 list \<Rightarrow> socket_holder option attr" where
  "probe_pids M inode deadline [] = State_Monad.return None"
| "probe_pids M inode deadline (pid # pids) = do {
     found \<leftarrow> pid_has_socket_inode M pid inode deadline;
     case found of
       Some found \<Rightarrow> do { _ \<leftarrow> record_resolved_pid (so_pid found); State_Monad.return (Some found) }
     | None \<Rightarrow> probe_pids M inode deadline pids }"

text \<open>The walk over every process looks at the clock before each.\<close>

fun walk_pids :: "machine \<Rightarrow> u64 \<Rightarrow> nat \<Rightarrow> u32 list \<Rightarrow> socket_holder option attr" where
  "walk_pids M inode deadline [] = State_Monad.return None"
| "walk_pids M inode deadline (pid # pids) = do {
     t \<leftarrow> now M;
     if deadline < t then State_Monad.return None
     else do {
       found \<leftarrow> pid_has_socket_inode M pid inode deadline;
       case found of
         Some found \<Rightarrow> do { _ \<leftarrow> record_resolved_pid (so_pid found); State_Monad.return (Some found) }
       | None \<Rightarrow> walk_pids M inode deadline pids } }"

definition cached_owner :: "machine \<Rightarrow> u64 \<Rightarrow> nat \<Rightarrow> socket_holder option attr" where
  "cached_owner M inode deadline = do {
     t \<leftarrow> now M;
     s \<leftarrow> State_Monad.get;
     let (cached, inodes) = ttl_get inode t (as_inodes s);
     _ \<leftarrow> State_Monad.set (s\<lparr>as_inodes := inodes\<rparr>);
     case cached of
       None \<Rightarrow> State_Monad.return None
     | Some (pid, fd) \<Rightarrow> do {
         starttime \<leftarrow> read_starttime M pid;
         points \<leftarrow> fd_points_at_socket M pid fd inode;
         found \<leftarrow> (if \<not> points then State_Monad.return None
           else do {
             t \<leftarrow> now M;
             if deadline \<le> t then State_Monad.return None
             else (case starttime of
                     None \<Rightarrow> State_Monad.return None
                   | Some starttime \<Rightarrow> do {
                       again \<leftarrow> read_starttime M pid;
                       State_Monad.return
                         (if again = Some starttime
                          then Some \<lparr>so_pid = pid, so_starttime = starttime, so_inode = inode, so_fd = fd\<rparr>
                          else None) }) });
         case found of
           Some owner \<Rightarrow> State_Monad.return (Some owner)
         | None \<Rightarrow> do {
             _ \<leftarrow> State_Monad.update (\<lambda>s. s\<lparr>as_inodes := ttl_remove inode (as_inodes s)\<rparr>);
             State_Monad.return None } } }"

definition or_else :: "'a option attr \<Rightarrow> 'a option attr \<Rightarrow> 'a option attr" where
  "or_else m m' = do { x \<leftarrow> m; case x of Some y \<Rightarrow> State_Monad.return (Some y) | None \<Rightarrow> m' }"

definition pid_owning_inode :: "machine \<Rightarrow> u64 \<Rightarrow> u32 option \<Rightarrow> nat \<Rightarrow> socket_holder option attr" where
  "pid_owning_inode M inode cookie_pid deadline =
     (if inode = 0 then State_Monad.return None
      else do {
        t \<leftarrow> now M;
        if deadline \<le> t then State_Monad.return None
        else or_else (probe_pids M inode deadline (case cookie_pid of None \<Rightarrow> [] | Some pid \<Rightarrow> [pid]))
          (or_else (cached_owner M inode deadline)
            (do {
               s \<leftarrow> State_Monad.get;
               or_else (probe_pids M inode deadline (as_resolved s))
                 (do {
                    t \<leftarrow> now M;
                    s \<leftarrow> State_Monad.get;
                    or_else (probe_pids M inode deadline (recent_pids (mc_exec_order M) 24 t (as_procs s)))
                      (do {
                         pids \<leftarrow> look M v_pids;
                         case pids of
                           None \<Rightarrow> State_Monad.return None
                         | Some pids \<Rightarrow> walk_pids M inode deadline (rev (sort pids)) }) }) })) })"

section \<open>From the flow to the inode\<close>

definition proc_net_tables :: "protocol \<Rightarrow> ip_addr \<Rightarrow> string list option" where
  "proc_net_tables proto src_ip =
     (case (proto, to_canonical src_ip) of
        (Tcp, V4 _) \<Rightarrow> Some [''/proc/net/tcp'', ''/proc/net/tcp6'']
      | (Tcp, V6 _) \<Rightarrow> Some [''/proc/net/tcp6'']
      | (Udp, V4 _) \<Rightarrow> Some [''/proc/net/udp'', ''/proc/net/udp6'']
      | (Udp, V6 _) \<Rightarrow> Some [''/proc/net/udp6'']
      | _ \<Rightarrow> None)"

fun read_udp_tables :: "machine \<Rightarrow> nat \<Rightarrow> string list \<Rightarrow> table_entry list \<Rightarrow> table_entry list option attr" where
  "read_udp_tables M deadline [] entries = State_Monad.return (Some entries)"
| "read_udp_tables M deadline (table # tables) entries = do {
     t \<leftarrow> now M;
     if deadline < t then State_Monad.return None
     else do {
       contents \<leftarrow> look M (\<lambda>v. v_table v table);
       case contents of
         NoTable \<Rightarrow> read_udp_tables M deadline tables entries
       | UnreadableTable \<Rightarrow> State_Monad.return None
       | TableText contents \<Rightarrow> read_udp_tables M deadline tables (entries @ table_rows contents) } }"

definition udp_inode_from_tables ::
  "machine \<Rightarrow> string list \<Rightarrow> endpoint \<Rightarrow> endpoint \<Rightarrow> u32 option \<Rightarrow> nat \<Rightarrow> u64 option attr" where
  "udp_inode_from_tables M tables local remote uid deadline = do {
     entries \<leftarrow> read_udp_tables M deadline tables [];
     case entries of
       None \<Rightarrow> State_Monad.return None
     | Some entries \<Rightarrow> do {
         t \<leftarrow> now M;
         if deadline < t then State_Monad.return None
         else do {
           let inode = scan_table_entries entries Udp local remote uid;
           t \<leftarrow> now M;
           State_Monad.return (if deadline < t then None else inode) } } }"

fun scan_tcp_tables ::
  "machine \<Rightarrow> protocol \<Rightarrow> endpoint \<Rightarrow> endpoint \<Rightarrow> u32 option \<Rightarrow> nat \<Rightarrow> string list \<Rightarrow> u64 option attr" where
  "scan_tcp_tables M proto local remote uid deadline [] = State_Monad.return None"
| "scan_tcp_tables M proto local remote uid deadline (table # tables) = do {
     t \<leftarrow> now M;
     if deadline < t then State_Monad.return None
     else do {
       contents \<leftarrow> look M (\<lambda>v. v_table v table);
       case (case contents of TableText c \<Rightarrow> scan_table_content c proto local remote uid | _ \<Rightarrow> None) of
         Some inode \<Rightarrow> State_Monad.return (Some inode)
       | None \<Rightarrow> scan_tcp_tables M proto local remote uid deadline tables } }"

definition proc_net_inode ::
  "machine \<Rightarrow> protocol \<Rightarrow> ip_addr \<Rightarrow> u16 \<Rightarrow> ip_addr \<Rightarrow> u16 \<Rightarrow> u32 option \<Rightarrow> nat \<Rightarrow> u64 option attr" where
  "proc_net_inode M proto src_ip src_port dst_ip dst_port uid deadline =
     (case proc_net_tables proto src_ip of
        None \<Rightarrow> State_Monad.return None
      | Some tables \<Rightarrow>
          if proto = Udp then udp_inode_from_tables M tables (src_ip, src_port) (dst_ip, dst_port) uid deadline
          else scan_tcp_tables M proto (src_ip, src_port) (dst_ip, dst_port) uid deadline tables)"

text \<open>A query never panics (\<open>query_asks\<close>), so the last case does not arise.\<close>

definition diag_query :: "machine \<Rightarrow> protocol \<Rightarrow> ip_addr \<Rightarrow> u16 \<Rightarrow> ip_addr \<Rightarrow> u16 \<Rightarrow> sock_info option attr" where
  "diag_query M proto src_ip src_port dst_ip dst_port = do {
     io \<leftarrow> look M v_netlink;
     State (\<lambda>s. case query (mc_endian M) (fst io) (snd io) proto src_ip src_port dst_ip dst_port (as_diag s) of
                  Ret (info, T) \<Rightarrow> (info, s\<lparr>as_diag := T\<rparr>)
                | Panic \<Rightarrow> (None, s)) }"

text \<open>\<open>filter\<close> on the answer: the packet's user, and for UDP the inode the tables agree on.\<close>

definition usable_info :: "u32 option \<Rightarrow> u64 option \<Rightarrow> sock_info option \<Rightarrow> sock_info option" where
  "usable_info uid udp_inode info =
     (case info of
        None \<Rightarrow> None
      | Some i \<Rightarrow>
          if (case uid of None \<Rightarrow> True | Some uid \<Rightarrow> si_uid i = uid) \<and>
             (case udp_inode of None \<Rightarrow> True | Some inode \<Rightarrow> si_inode i = inode)
          then Some i else None)"

definition cookie_pid_of :: "machine \<Rightarrow> sock_info option \<Rightarrow> u32 option attr" where
  "cookie_pid_of M info =
     (case info of
        None \<Rightarrow> State_Monad.return None
      | Some i \<Rightarrow> (case si_cookie i of
                     None \<Rightarrow> State_Monad.return None
                   | Some cookie \<Rightarrow> look M (\<lambda>v. v_cookie_pid v cookie)))"

definition owner_of_flow ::
  "machine \<Rightarrow> protocol \<Rightarrow> ip_addr \<Rightarrow> u16 \<Rightarrow> ip_addr \<Rightarrow> u16 \<Rightarrow> u32 option \<Rightarrow> nat \<Rightarrow> u64 option \<Rightarrow> socket_holder option attr" where
  "owner_of_flow M proto src_ip src_port dst_ip dst_port uid deadline udp_inode = do {
     info \<leftarrow> diag_query M proto src_ip src_port dst_ip dst_port;
     let info = usable_info uid udp_inode info;
     cookie_pid \<leftarrow> cookie_pid_of M info;
     inode \<leftarrow> (case udp_inode of
                 Some inode \<Rightarrow> State_Monad.return (Some inode)
               | None \<Rightarrow> (case info of
                            Some i \<Rightarrow> State_Monad.return (Some (si_inode i))
                          | None \<Rightarrow> proc_net_inode M proto src_ip src_port dst_ip dst_port uid deadline));
     case inode of
       None \<Rightarrow> State_Monad.return None
     | Some inode \<Rightarrow> pid_owning_inode M inode cookie_pid deadline }"

definition socket_owner ::
  "machine \<Rightarrow> protocol \<Rightarrow> direction \<Rightarrow> ip_addr \<Rightarrow> u16 \<Rightarrow> ip_addr \<Rightarrow> u16 \<Rightarrow> u32 option \<Rightarrow> socket_holder option attr" where
  "socket_owner M proto dir src_ip src_port dst_ip dst_port uid =
     (if dir = Inbound then State_Monad.return None
      else do {
        t \<leftarrow> now M;
        let deadline = t + RESOLVE_BUDGET;
        udp_inode \<leftarrow> (if proto = Udp then proc_net_inode M proto src_ip src_port dst_ip dst_port uid deadline
                      else State_Monad.return None);
        if proto = Udp \<and> udp_inode = None then State_Monad.return None
        else owner_of_flow M proto src_ip src_port dst_ip dst_port uid deadline udp_inode })"

section \<open>What an attribution rests on\<close>

definition sees_socket :: "view \<Rightarrow> socket_holder \<Rightarrow> bool" where
  "sees_socket v w \<longleftrightarrow>
     v_fd_target v (so_pid w) (so_fd w) = Some (Some (so_inode w)) \<or>
     v_fd_link v (so_pid w) (so_fd w) = Some (socket_text (so_inode w))"

text \<open>Three instants, in this order: the start time of the pid, the descriptor on the socket, and
  the same start time again.\<close>

definition seen_holding :: "machine \<Rightarrow> nat \<Rightarrow> nat \<Rightarrow> socket_holder \<Rightarrow> bool" where
  "seen_holding M lo hi w \<longleftrightarrow>
     (\<exists>t1 t2 t3. lo \<le> t1 \<and> t1 < t2 \<and> t2 < t3 \<and> t3 < hi \<and>
        start_at (mc_view M t1) (so_pid w) = Some (so_starttime w) \<and>
        sees_socket (mc_view M t2) w \<and>
        start_at (mc_view M t3) (so_pid w) = Some (so_starttime w))"

lemma seen_holding_mono: "seen_holding M lo hi w \<Longrightarrow> lo' \<le> lo \<Longrightarrow> hi \<le> hi' \<Longrightarrow> seen_holding M lo' hi' w"
  unfolding seen_holding_def by (elim exE conjE, intro exI conjI) (erule (1) le_trans | erule (1) less_le_trans | assumption)+

text \<open>What the searches for the holder of \<open>inode\<close> share.\<close>

definition finds :: "machine \<Rightarrow> u64 \<Rightarrow> attr_state \<Rightarrow> socket_holder option \<Rightarrow> attr_state \<Rightarrow> bool" where
  "finds M inode s x s' \<longleftrightarrow> moves M s s' \<and>
     (\<forall>w. x = Some w \<longrightarrow> inode \<noteq> 0 \<and> so_inode w = inode \<and> seen_holding M (as_step s) (as_step s') w)"

lemma finds_None: "finds M inode s None s' \<longleftrightarrow> moves M s s'"
  by (simp add: finds_def)

lemma finds_from:
  assumes "finds M inode s' x s''" "moves M s s'"
  shows "finds M inode s x s''"
  using assms(1) moves_trans [OF assms(2)] seen_holding_mono [OF _ moves_le [OF assms(2)] order_refl]
  by (simp add: finds_def)

lemma finds_then:
  assumes "finds M inode s x s'" "moves M s' s''"
  shows "finds M inode s x s''"
  using assms(1) moves_trans [OF _ assms(2)] seen_holding_mono [OF _ order_refl moves_le [OF assms(2)]]
  by (simp add: finds_def)

lemma finds_later: "finds M inode (s\<lparr>as_step := n\<rparr>) x s' \<Longrightarrow> as_step s \<le> n \<Longrightarrow> finds M inode s x s'"
  by (erule finds_from) (simp add: moves_to)

lemma wp_or_else:
  assumes "wp m (finds M inode s) s" "\<And>s'. moves M s s' \<Longrightarrow> wp m' (finds M inode s') s'"
  shows "wp (or_else m m') (finds M inode s) s"
  unfolding or_else_def wp_bind
proof (rule wp_mono [OF assms(1)])
  fix x s' assume x: "finds M inode s x s'"
  show "wp (case x of None \<Rightarrow> m' | Some y \<Rightarrow> State_Monad.return (Some y)) (finds M inode s) s'"
  proof (cases x)
    case None
    with x have "moves M s s'" by (simp add: finds_None)
    with None show ?thesis by (auto intro: wp_mono [OF assms(2)] finds_from)
  qed (use x in \<open>simp add: wp_simps\<close>)
qed

text \<open>The rest of a probe that has read \<open>st\<close> as the start time of \<open>pid\<close>.\<close>

definition probed :: "machine \<Rightarrow> u32 \<Rightarrow> u64 \<Rightarrow> u64 \<Rightarrow> attr_state \<Rightarrow> socket_holder option \<Rightarrow> attr_state \<Rightarrow> bool" where
  "probed M pid st inode s x s' \<longleftrightarrow> moves M s s' \<and>
     (\<forall>w. x = Some w \<longrightarrow> so_pid w = pid \<and> so_starttime w = st \<and> so_inode w = inode \<and>
        (\<exists>t2 t3. as_step s \<le> t2 \<and> t2 < t3 \<and> t3 < as_step s' \<and> sees_socket (mc_view M t2) w \<and>
           start_at (mc_view M t3) pid = Some st))"

lemma probed_None: "probed M pid st inode s None s' \<longleftrightarrow> moves M s s'"
  by (simp add: probed_def)

lemma probed_from:
  assumes "probed M pid st inode s' x s''" "moves M s s'"
  shows "probed M pid st inode s x s''"
  using assms(1) moves_trans [OF assms(2)] le_trans [OF moves_le [OF assms(2)]]
  by (fastforce simp: probed_def)

lemma probed_hit:
  assumes "moves M s s'" "as_step s \<le> t2" "t2 < t3" "t3 < as_step s'"
    "v_fd_target (mc_view M t2) pid fd = Some (Some inode)" "start_at (mc_view M t3) pid = Some st"
  shows "probed M pid st inode s (Some \<lparr>so_pid = pid, so_starttime = st, so_inode = inode, so_fd = fd\<rparr>) s'"
  using assms by (auto simp: probed_def sees_socket_def)

lemma probe_fds_probed: "wp (probe_fds M pid st inode deadline fds) (probed M pid st inode s) s"
proof (induction fds arbitrary: s)
  case Nil
  then show ?case by (simp add: wp_simps probed_None)
next
  case (Cons fd fds)
  let ?n = "as_step s"
  have rest: "wp (probe_fds M pid st inode deadline fds) (probed M pid st inode s) (s\<lparr>as_step := Suc (Suc ?n)\<rparr>)"
    by (rule wp_mono [OF Cons.IH]) (erule probed_from, simp add: moves_to)
  have ins: "moves M s (s\<lparr>as_step := Suc (Suc (Suc (Suc ?n))), as_inodes :=
      ttl_insert (mc_cache_order M) inode (pid, fd) t (as_inodes s)\<rparr>)" for t
    using moves_trans [OF moves_to moves_inodes(1), of s "Suc (Suc (Suc (Suc ?n)))" M inode "(pid, fd)" t] by simp
  have "probed M pid st inode s (Some \<lparr>so_pid = pid, so_starttime = st, so_inode = inode, so_fd = fd\<rparr>)
      (s\<lparr>as_step := Suc (Suc (Suc (Suc ?n))), as_inodes :=
      ttl_insert (mc_cache_order M) inode (pid, fd) t (as_inodes s)\<rparr>)"
    if "v_fd_target (mc_view M (Suc ?n)) pid fd = Some (Some inode)"
      "start_at (mc_view M (Suc (Suc ?n))) pid = Some st" for t
    by (rule probed_hit [OF ins, of "Suc ?n" "Suc (Suc ?n)"]) (use that in simp_all)
  then show ?case
    using rest by (simp add: wp_simps remember_def probed_None moves_to)
qed

lemma finds_probed:
  assumes "probed M pid st inode s' x s''" "moves M s s'" "inode \<noteq> 0"
    "as_step s \<le> t" "t < as_step s'" "start_at (mc_view M t) pid = Some st"
  shows "finds M inode s x s''"
proof -
  have "moves M s s''" using assms(1,2) moves_trans by (auto simp: probed_def)
  moreover have "seen_holding M (as_step s) (as_step s'') w" if w: "x = Some w" for w
  proof -
    from assms(1) w obtain t2 t3 where "so_pid w = pid" "so_starttime w = st" "as_step s' \<le> t2" "t2 < t3"
        "t3 < as_step s''" "sees_socket (mc_view M t2) w" "start_at (mc_view M t3) pid = Some st"
      by (auto simp: probed_def)
    with assms(4-6) show ?thesis unfolding seen_holding_def by (intro exI [of _ t] exI [of _ t2] exI [of _ t3]) auto
  qed
  ultimately show ?thesis using assms(1,3) by (auto simp: finds_def probed_def)
qed

lemma pid_has_socket_inode_finds: "wp (pid_has_socket_inode M pid inode deadline) (finds M inode s) s"
proof (cases "inode = 0")
  case False
  let ?n = "as_step s"
  let ?s = "s\<lparr>as_step := Suc (Suc (Suc (Suc ?n)))\<rparr>"
  have "wp (probe_fds M pid st inode deadline fds) (finds M inode s) ?s"
    if "start_at (mc_view M (Suc (Suc ?n))) pid = Some st" for st fds
    by (rule wp_mono [OF probe_fds_probed], erule finds_probed [of _ _ _ _ _ _ _ _ "Suc (Suc ?n)"])
      (use that False in \<open>simp_all add: moves_to\<close>)
  then show ?thesis
    using False by (simp add: wp_simps pid_has_socket_inode_def finds_None moves_to split: option.split)
qed (simp add: pid_has_socket_inode_def wp_simps finds_None)

lemma record_resolved_moves: "wp (record_resolved_pid pid) (\<lambda>_ s'. moves M s s') s"
proof -
  have "distinct (take RESOLVED_PIDS_CAP (pid # filter (\<lambda>p. p \<noteq> pid) (as_resolved s)))" if "distinct (as_resolved s)"
    using that by (intro distinct_take) simp
  then show ?thesis
    by (auto simp: record_resolved_pid_def wp_simps attr_ok_def intro: movesI)
qed

lemma wp_record: "finds M inode s (Some w) s' \<Longrightarrow>
    wp (record_resolved_pid pid) (\<lambda>_. finds M inode s (Some w)) s'"
  by (rule wp_mono [OF record_resolved_moves]) (rule finds_then)

lemma probe_pids_finds: "wp (probe_pids M inode deadline pids) (finds M inode s) s"
proof (induction pids arbitrary: s)
  case (Cons pid pids)
  show ?case unfolding probe_pids.simps wp_bind
  proof (rule wp_mono [OF pid_has_socket_inode_finds])
    fix x s' assume x: "finds M inode s x s'"
    show "wp (case x of None \<Rightarrow> probe_pids M inode deadline pids
        | Some found \<Rightarrow> record_resolved_pid (so_pid found) \<bind> (\<lambda>_. State_Monad.return (Some found)))
        (finds M inode s) s'"
      using x wp_mono [OF Cons.IH finds_from] by (cases x) (simp_all add: wp_simps wp_record finds_None)
  qed
qed (simp add: wp_simps finds_None)

lemma walk_pids_finds: "wp (walk_pids M inode deadline pids) (finds M inode s) s"
proof (induction pids arbitrary: s)
  case (Cons pid pids)
  let ?s = "s\<lparr>as_step := Suc (as_step s)\<rparr>"
  have "wp (pid_has_socket_inode M pid inode deadline)
      (\<lambda>x. wp (case x of None \<Rightarrow> walk_pids M inode deadline pids
        | Some found \<Rightarrow> record_resolved_pid (so_pid found) \<bind> (\<lambda>_. State_Monad.return (Some found)))
        (finds M inode s)) ?s"
  proof (rule wp_mono [OF pid_has_socket_inode_finds])
    fix x s' assume "finds M inode ?s x s'"
    then have x: "finds M inode s x s'" by (rule finds_later) simp
    show "wp (case x of None \<Rightarrow> walk_pids M inode deadline pids
        | Some found \<Rightarrow> record_resolved_pid (so_pid found) \<bind> (\<lambda>_. State_Monad.return (Some found)))
        (finds M inode s) s'"
      using x wp_mono [OF Cons.IH finds_from] by (cases x) (simp_all add: wp_simps wp_record finds_None)
  qed
  then show ?case by (simp add: wp_simps finds_None)
qed (simp add: wp_simps finds_None)

lemma finds_owner:
  assumes "moves M s s'" "inode \<noteq> 0" "as_step s \<le> t1" "t1 < t2" "t2 < t3" "t3 < as_step s'"
    "start_at (mc_view M t1) pid = Some st" "v_fd_link (mc_view M t2) pid fd = Some (socket_text inode)"
    "start_at (mc_view M t3) pid = Some st"
  shows "finds M inode s (Some \<lparr>so_pid = pid, so_starttime = st, so_inode = inode, so_fd = fd\<rparr>) s'"
proof -
  have "seen_holding M (as_step s) (as_step s') \<lparr>so_pid = pid, so_starttime = st, so_inode = inode, so_fd = fd\<rparr>"
    unfolding seen_holding_def sees_socket_def
    by (rule exI [of _ t1], rule exI [of _ t2], rule exI [of _ t3]) (use assms in simp)
  with assms(1,2) show ?thesis by (simp add: finds_def)
qed

lemma cached_owner_finds:
  assumes "inode \<noteq> 0"
  shows "wp (cached_owner M inode deadline) (finds M inode s) s"
proof -
  let ?n = "as_step s"
  obtain cached c where get: "ttl_get inode (v_now (mc_view M ?n)) (as_inodes s) = (cached, c)" by fastforce
  have m: "moves M s (s\<lparr>as_step := n, as_inodes := c\<rparr>)" if "?n \<le> n" for n
    using moves_trans [OF moves_to moves_inodes(3), of s n M inode "v_now (mc_view M ?n)"] that get by simp
  have r: "moves M s (s\<lparr>as_step := n, as_inodes := ttl_remove inode c\<rparr>)" if "?n \<le> n" for n
    using moves_trans [OF m moves_inodes(2), of n inode] that by simp
  have m5: "moves M s (s\<lparr>as_inodes := c, as_step := Suc (Suc (Suc (Suc (Suc ?n))))\<rparr>)"
    using m [of "Suc (Suc (Suc (Suc (Suc ?n))))"] by (simp add: moves_def attr_ok_def digests_ok_def)
  have o: "finds M inode s (Some \<lparr>so_pid = pid, so_starttime = st, so_inode = inode, so_fd = fd\<rparr>)
      (s\<lparr>as_inodes := c, as_step := Suc (Suc (Suc (Suc (Suc ?n))))\<rparr>)"
    if "start_at (mc_view M (Suc ?n)) pid = Some st" "start_at (mc_view M (Suc (Suc (Suc (Suc ?n))))) pid = Some st"
      "v_fd_link (mc_view M (Suc (Suc ?n))) pid fd = Some (socket_text inode)" for pid st fd
    by (rule finds_owner [OF m5 assms, of "Suc ?n" "Suc (Suc ?n)" "Suc (Suc (Suc (Suc ?n)))"]) (use that in simp_all)
  show ?thesis
    by (simp add: cached_owner_def wp_simps get Let_def split: option.split prod.split)
      (auto simp: finds_None m r intro: o split: option.splits)
qed

lemma pid_owning_inode_finds: "wp (pid_owning_inode M inode cookie_pid deadline) (finds M inode s) s"
proof (cases "inode = 0")
  case False
  have look: "wp m (finds M inode s) (s\<lparr>as_step := Suc (as_step s)\<rparr>)"
    if "wp m (finds M inode (s\<lparr>as_step := Suc (as_step s)\<rparr>)) (s\<lparr>as_step := Suc (as_step s)\<rparr>)" for m s
    by (rule wp_mono [OF that]) (erule finds_later, simp)
  have walk: "wp (do { pids \<leftarrow> look M v_pids;
                case pids of None \<Rightarrow> State_Monad.return None | Some pids \<Rightarrow> walk_pids M inode deadline (rev (sort pids)) })
      (finds M inode s) s" for s
    by (simp add: wp_simps finds_None split: option.split) (intro impI allI look walk_pids_finds)
  have execs: "wp (do { t \<leftarrow> now M; s \<leftarrow> State_Monad.get;
            or_else (probe_pids M inode deadline (recent_pids (mc_exec_order M) 24 t (as_procs s)))
              (do { pids \<leftarrow> look M v_pids;
                case pids of None \<Rightarrow> State_Monad.return None | Some pids \<Rightarrow> walk_pids M inode deadline (rev (sort pids)) }) })
      (finds M inode s) s" for s
    by (simp add: wp_simps) (intro look wp_or_else probe_pids_finds walk)
  have resolved: "wp (do { s \<leftarrow> State_Monad.get;
         or_else (probe_pids M inode deadline (as_resolved s))
          (do { t \<leftarrow> now M; s \<leftarrow> State_Monad.get;
            or_else (probe_pids M inode deadline (recent_pids (mc_exec_order M) 24 t (as_procs s)))
              (do { pids \<leftarrow> look M v_pids;
                case pids of None \<Rightarrow> State_Monad.return None | Some pids \<Rightarrow> walk_pids M inode deadline (rev (sort pids)) }) }) })
      (finds M inode s) s" for s
    unfolding wp_bind wp_get by (intro wp_or_else probe_pids_finds execs)
  have "wp (or_else (probe_pids M inode deadline (case cookie_pid of None \<Rightarrow> [] | Some pid \<Rightarrow> [pid]))
          (or_else (cached_owner M inode deadline)
            (do { s \<leftarrow> State_Monad.get;
         or_else (probe_pids M inode deadline (as_resolved s))
          (do { t \<leftarrow> now M; s \<leftarrow> State_Monad.get;
            or_else (probe_pids M inode deadline (recent_pids (mc_exec_order M) 24 t (as_procs s)))
              (do { pids \<leftarrow> look M v_pids;
                case pids of None \<Rightarrow> State_Monad.return None | Some pids \<Rightarrow> walk_pids M inode deadline (rev (sort pids)) }) }) })))
      (finds M inode s) s" for s
    by (intro wp_or_else probe_pids_finds cached_owner_finds [OF False] resolved)
  from look [OF this] False show ?thesis
    unfolding pid_owning_inode_def by (simp add: wp_simps finds_None)
qed (simp add: pid_owning_inode_def wp_simps finds_None)

section \<open>What the inode rests on\<close>

text \<open>All the tables, each read whole at its own instant, in their order; one that does not exist
  has no rows.\<close>

fun rows_between :: "machine \<Rightarrow> nat \<Rightarrow> nat \<Rightarrow> string list \<Rightarrow> table_entry list \<Rightarrow> bool" where
  "rows_between M lo hi [] rows \<longleftrightarrow> rows = []"
| "rows_between M lo hi (table # tables) rows \<longleftrightarrow>
     (\<exists>t. lo \<le> t \<and> t < hi \<and>
        (case v_table (mc_view M t) table of
           NoTable \<Rightarrow> rows_between M (Suc t) hi tables rows
         | UnreadableTable \<Rightarrow> False
         | TableText c \<Rightarrow> \<exists>rest. rows = table_rows c @ rest \<and> rows_between M (Suc t) hi tables rest))"

lemma rows_between_mono:
  "rows_between M lo hi tables rows \<Longrightarrow> lo' \<le> lo \<Longrightarrow> hi \<le> hi' \<Longrightarrow> rows_between M lo' hi' tables rows"
proof (induction tables arbitrary: lo lo' rows)
  case (Cons table tables)
  from Cons.prems(1) obtain t where t: "lo \<le> t" "t < hi"
    "case v_table (mc_view M t) table of
       NoTable \<Rightarrow> rows_between M (Suc t) hi tables rows
     | UnreadableTable \<Rightarrow> False
     | TableText c \<Rightarrow> \<exists>rest. rows = table_rows c @ rest \<and> rows_between M (Suc t) hi tables rest"
    by auto
  then show ?case
    using Cons.IH [OF _ order_refl] Cons.prems(2,3)
    by (auto intro!: exI [of _ t] split: table_text.splits)
qed simp

text \<open>The inode of a flow.  For UDP, the one inode the rows of the tables of its family agree on.
  For TCP, the inode of a connected row of the flow's two ends in one of those tables; or what the
  first datagram to be read tells, of those that the netlink socket of the thread \<open>D\<close> held and
  those the kernel sends on the request for the two ends: an answer under the number of that
  request, of the flow's user when one is known.\<close>

definition flow_inode ::
  "machine \<Rightarrow> diag_thread \<Rightarrow> nat \<Rightarrow> nat \<Rightarrow> protocol \<Rightarrow> endpoint \<Rightarrow> endpoint \<Rightarrow> u32 option \<Rightarrow> u64 \<Rightarrow> bool" where
  "flow_inode M D lo hi proto local remote uid inode \<longleftrightarrow>
     (case proto of
        Udp \<Rightarrow> \<exists>tables rows. proc_net_tables Udp (fst local) = Some tables \<and> rows_between M lo hi tables rows \<and>
                 scan_table_entries rows Udp local remote uid = Some inode
      | Tcp \<Rightarrow>
          (\<exists>t tables table c. lo \<le> t \<and> t < hi \<and>
             proc_net_tables Tcp (fst local) = Some tables \<and> table \<in> set tables \<and>
             v_table (mc_view M t) table = TableText c \<and>
             scan_table_content c Tcp local remote uid = Some inode) \<or>
          (\<exists>t d rest owner. lo \<le> t \<and> t < hi \<and>
             (case dt_socket D of None \<Rightarrow> [] | Some sock \<Rightarrow> sock) @
               io_arrive (fst (v_netlink (mc_view M t))) (inet_request (mc_endian M) local remote (dt_seq D)) = d # rest \<and>
             tells_socket (mc_endian M) d (dt_seq D) inode owner \<and>
             (case uid of None \<Rightarrow> True | Some uid \<Rightarrow> owner = uid))
      | _ \<Rightarrow> False)"

lemma flow_inode_mono:
  assumes "flow_inode M D lo hi proto local remote uid inode" "lo' \<le> lo" "hi \<le> hi'"
  shows "flow_inode M D lo' hi' proto local remote uid inode"
proof -
  have w: "lo' \<le> t \<and> t < hi'" if "lo \<le> t \<and> t < hi" for t using that assms(2,3) by auto
  show ?thesis
    using assms(1) w rows_between_mono [OF _ assms(2,3)]
    unfolding flow_inode_def by (cases proto) (simp_all, blast+)
qed

text \<open>What the searches for the inode of a flow share.\<close>

definition traces :: "machine \<Rightarrow> diag_thread \<Rightarrow> protocol \<Rightarrow> endpoint \<Rightarrow> endpoint \<Rightarrow> u32 option \<Rightarrow> attr_state \<Rightarrow> u64 option \<Rightarrow> attr_state \<Rightarrow> bool" where
  "traces M D proto local remote uid s x s' \<longleftrightarrow> moves M s s' \<and>
     (\<forall>i. x = Some i \<longrightarrow> flow_inode M D (as_step s) (as_step s') proto local remote uid i)"

lemma traces_None: "traces M D proto local remote uid s None s' \<longleftrightarrow> moves M s s'"
  by (simp add: traces_def)

lemma traces_from:
  assumes "traces M D proto local remote uid s' x s''" "moves M s s'"
  shows "traces M D proto local remote uid s x s''"
  using assms(1) moves_trans [OF assms(2)] flow_inode_mono [OF _ moves_le [OF assms(2)] order_refl]
  by (simp add: traces_def)

lemma read_udp_tables_rows:
  "wp (read_udp_tables M deadline tables entries)
     (\<lambda>x s'. moves M s s' \<and> (\<forall>rows. x = Some rows \<longrightarrow>
        (\<exists>more. rows = entries @ more \<and> rows_between M (as_step s) (as_step s') tables more))) s"
proof (induction tables arbitrary: entries s)
  case Nil
  then show ?case by (simp add: wp_simps)
next
  case (Cons table tables)
  let ?n = "as_step s"
  let ?s = "s\<lparr>as_step := Suc (Suc ?n)\<rparr>"
  have up: "moves M s s'" "?n < as_step s'" "Suc ?n < as_step s'" if "moves M ?s s'" for s'
    using that moves_steps [OF that] moves_le [OF that] by simp_all
  have none: "wp (read_udp_tables M deadline tables entries)
     (\<lambda>x s'. moves M s s' \<and> (\<forall>rows. x = Some rows \<longrightarrow>
        (\<exists>more. rows = entries @ more \<and> rows_between M ?n (as_step s') (table # tables) more))) ?s"
    if "v_table (mc_view M (Suc ?n)) table = NoTable"
    by (rule wp_mono [OF Cons.IH]) (use that up in \<open>auto intro!: exI [of _ "Suc ?n"]\<close>)
  have some: "wp (read_udp_tables M deadline tables (entries @ table_rows c))
     (\<lambda>x s'. moves M s s' \<and> (\<forall>rows. x = Some rows \<longrightarrow>
        (\<exists>more. rows = entries @ more \<and> rows_between M ?n (as_step s') (table # tables) more))) ?s"
    if "v_table (mc_view M (Suc ?n)) table = TableText c" for c
    by (rule wp_mono [OF Cons.IH]) (use that up in \<open>auto intro!: exI [of _ "Suc ?n"]\<close>)
  show ?case
    using none some by (simp add: wp_simps moves_to split: table_text.split)
qed

lemma udp_inode_traces:
  assumes "proc_net_tables Udp (fst local) = Some tables"
  shows "wp (udp_inode_from_tables M tables local remote uid deadline) (traces M D Udp local remote uid s) s"
  unfolding udp_inode_from_tables_def wp_bind
proof (rule wp_mono [OF read_udp_tables_rows])
  fix x s'
  assume x: "moves M s s' \<and> (\<forall>rows. x = Some rows \<longrightarrow>
        (\<exists>more. rows = [] @ more \<and> rows_between M (as_step s) (as_step s') tables more))"
  have "flow_inode M D (as_step s) n Udp local remote uid i"
    if "x = Some rows" "scan_table_entries rows Udp local remote uid = Some i" "as_step s' \<le> n" for rows i n
  proof -
    have "rows_between M (as_step s) n tables rows" using x that rows_between_mono by fastforce
    with assms that(2) show ?thesis unfolding flow_inode_def by auto
  qed
  then show "wp (case x of None \<Rightarrow> State_Monad.return None
     | Some entries \<Rightarrow> do {
         t \<leftarrow> now M;
         if deadline < t then State_Monad.return None
         else do {
           let inode = scan_table_entries entries Udp local remote uid;
           t \<leftarrow> now M;
           State_Monad.return (if deadline < t then None else inode) } }) (traces M D Udp local remote uid s) s'"
    using x by (cases x) (simp_all add: wp_simps traces_def moves_then_steps Let_def)
qed

lemma tcp_tables_trace:
  assumes "proc_net_tables Tcp (fst local) = Some all" "set tables \<subseteq> set all"
  shows "wp (scan_tcp_tables M Tcp local remote uid deadline tables) (traces M D Tcp local remote uid s) s"
  using assms(2)
proof (induction tables arbitrary: s)
  case (Cons table tables)
  let ?n = "as_step s"
  let ?s = "s\<lparr>as_step := Suc (Suc ?n)\<rparr>"
  have rest: "wp (scan_tcp_tables M Tcp local remote uid deadline tables) (traces M D Tcp local remote uid s) ?s"
    by (rule wp_mono [OF Cons.IH]) (use Cons.prems in simp, erule traces_from, simp add: moves_to)
  have "traces M D Tcp local remote uid s (Some i) ?s"
    if "v_table (mc_view M (Suc ?n)) table = TableText c" "scan_table_content c Tcp local remote uid = Some i" for c i
  proof -
    have "flow_inode M D ?n (Suc (Suc ?n)) Tcp local remote uid i"
      unfolding flow_inode_def protocol.case
      by (intro disjI1 exI [of _ "Suc ?n"] exI [of _ all] exI [of _ table] exI [of _ c] conjI)
        (use that assms(1) Cons.prems in simp_all)
    then show ?thesis by (simp add: traces_def moves_to)
  qed
  then show ?case
    using rest by (simp add: wp_simps traces_None moves_to split: table_text.split option.split)
qed (simp add: wp_simps traces_None)

lemma proc_net_inode_traces:
  "wp (proc_net_inode M proto src_ip src_port dst_ip dst_port uid deadline)
     (traces M D proto (src_ip, src_port) (dst_ip, dst_port) uid s) s"
proof (cases "proc_net_tables proto src_ip")
  case (Some tables)
  then have "proto = Tcp \<or> proto = Udp" by (auto simp: proc_net_tables_def split: protocol.splits)
  then show ?thesis
    using Some tcp_tables_trace [of "(src_ip, src_port)" tables tables] udp_inode_traces [of "(src_ip, src_port)"] by (auto simp: proc_net_inode_def)
qed (simp add: proc_net_inode_def wp_simps traces_None)

lemma diag_query_traces:
  assumes "proto \<noteq> Udp \<longrightarrow> as_diag s = D"
  shows "wp (diag_query M proto src_ip src_port dst_ip dst_port)
     (\<lambda>info s'. moves M s s' \<and> (\<forall>i. proto \<noteq> Udp \<and> usable_info uid None info = Some i \<longrightarrow>
        flow_inode M D (as_step s) (as_step s') proto (src_ip, src_port) (dst_ip, dst_port) uid (si_inode i))) s"
proof -
  let ?v = "mc_view M (as_step s)"
  obtain info T' where q: "query (mc_endian M) (fst (v_netlink ?v)) (snd (v_netlink ?v)) proto src_ip src_port dst_ip dst_port
      (as_diag s) = Ret (info, T')" using query_asks by blast
  have tcp: "flow_inode M D (as_step s) (Suc (as_step s)) Tcp (src_ip, src_port) (dst_ip, dst_port) uid (si_inode i)"
    if "proto = Tcp" "usable_info uid None info = Some i" for i
  proof -
    have D: "as_diag s = D" and tcp: "proto = Tcp" using assms that(1) by simp_all
    have i: "info = Some i" "case uid of None \<Rightarrow> True | Some uid \<Rightarrow> si_uid i = uid"
      using that(2) by (auto simp: usable_info_def split: option.splits if_splits)
    obtain d rest where "(case dt_socket D of None \<Rightarrow> [] | Some sock \<Rightarrow> sock) @
          io_arrive (fst (v_netlink ?v)) (inet_request (mc_endian M) (src_ip, src_port) (dst_ip, dst_port) (dt_seq D)) = d # rest"
        "tells_socket (mc_endian M) d (dt_seq D) (si_inode i) (si_uid i)"
      using query_tells [of "mc_endian M" "fst (v_netlink ?v)" "snd (v_netlink ?v)" src_ip src_port dst_ip dst_port D i T']
        q [unfolded D tcp i(1)] by blast
    with i(2) show ?thesis unfolding flow_inode_def protocol.case
      by (intro disjI2 exI [of _ "as_step s"] exI [of _ d] exI [of _ rest] exI [of _ "si_uid i"] conjI) simp_all
  qed
  have "info = None" if "proto \<noteq> Tcp" "proto \<noteq> Udp"
    using q that by (cases proto) (simp_all add: query_def)
  with tcp have "flow_inode M D (as_step s) (Suc (as_step s)) proto (src_ip, src_port) (dst_ip, dst_port) uid (si_inode i)"
    if "proto \<noteq> Udp" "usable_info uid None info = Some i" for i
    using that by (cases "proto = Tcp") (simp_all add: usable_info_def)
  then show ?thesis
    by (auto simp: diag_query_def wp_simps wp_State q attr_ok_def intro!: movesI)
qed

text \<open>The whole search, from the flow.\<close>

definition attributes ::
  "machine \<Rightarrow> diag_thread \<Rightarrow> protocol \<Rightarrow> direction \<Rightarrow> endpoint \<Rightarrow> endpoint \<Rightarrow> u32 option \<Rightarrow> attr_state \<Rightarrow> socket_holder option \<Rightarrow>
    attr_state \<Rightarrow> bool" where
  "attributes M D proto dir local remote uid s x s' \<longleftrightarrow> moves M s s' \<and>
     (\<forall>w. x = Some w \<longrightarrow> dir = Outbound \<and> so_inode w \<noteq> 0 \<and>
        flow_inode M D (as_step s) (as_step s') proto local remote uid (so_inode w) \<and>
        seen_holding M (as_step s) (as_step s') w)"

lemma attributes_None: "attributes M D proto dir local remote uid s None s' \<longleftrightarrow> moves M s s'"
  by (simp add: attributes_def)

lemma attributes_found:
  assumes "finds M inode s1 x s2" "moves M s s1" "flow_inode M D (as_step s) (as_step s1) proto local remote uid inode"
  shows "attributes M D proto Outbound local remote uid s x s2"
proof -
  have "moves M s1 s2" using assms(1) by (simp add: finds_def)
  then have "flow_inode M D (as_step s) (as_step s2) proto local remote uid inode"
    by (rule flow_inode_mono [OF assms(3) order_refl moves_le])
  with finds_from [OF assms(1,2)] show ?thesis by (auto simp: finds_def attributes_def)
qed

lemma owner_of_inode:
  assumes "traces M D proto local remote uid s inode s'"
  shows "wp (case inode of None \<Rightarrow> State_Monad.return None | Some inode \<Rightarrow> pid_owning_inode M inode cookie_pid deadline)
    (attributes M D proto Outbound local remote uid s) s'"
proof (cases inode)
  case (Some i)
  have "wp (pid_owning_inode M i cookie_pid deadline) (attributes M D proto Outbound local remote uid s) s'"
    by (rule wp_mono [OF pid_owning_inode_finds], erule attributes_found) (use assms Some in \<open>simp_all add: traces_def\<close>)
  with Some show ?thesis by simp
qed (use assms in \<open>simp add: wp_simps attributes_None traces_None\<close>)

lemma cookie_pid_moves: "wp (cookie_pid_of M info) (\<lambda>_ s'. moves M s s') s"
  by (simp add: cookie_pid_of_def wp_simps split: option.split)

lemma traces_now: "moves M s s' \<Longrightarrow> flow_inode M D (as_step s) (as_step s') proto local remote uid i \<Longrightarrow>
    traces M D proto local remote uid s (Some i) s'"
  by (simp add: traces_def)

lemma traces_later:
  assumes "traces M D proto local remote uid s x s'" "moves M s' s''"
  shows "traces M D proto local remote uid s x s''"
  using assms(1) moves_trans [OF _ assms(2)] flow_inode_mono [OF _ order_refl moves_le [OF assms(2)]]
  by (simp add: traces_def)

lemma inode_traces:
  assumes "traces M D proto (src_ip, src_port) (dst_ip, dst_port) uid s udp_inode s3"
    "\<And>i. udp_inode = None \<Longrightarrow> usable_info uid None info = Some i \<Longrightarrow>
       traces M D proto (src_ip, src_port) (dst_ip, dst_port) uid s (Some (si_inode i)) s3"
  shows "wp (case udp_inode of
                 Some inode \<Rightarrow> State_Monad.return (Some inode)
               | None \<Rightarrow> (case usable_info uid udp_inode info of
                            Some i \<Rightarrow> State_Monad.return (Some (si_inode i))
                          | None \<Rightarrow> proc_net_inode M proto src_ip src_port dst_ip dst_port uid deadline))
     (traces M D proto (src_ip, src_port) (dst_ip, dst_port) uid s) s3"
  using assms wp_mono [OF proc_net_inode_traces traces_from]
  by (auto simp: wp_simps traces_None split: option.split)

lemma owner_of_flow_attributes:
  assumes s1: "traces M D proto (src_ip, src_port) (dst_ip, dst_port) uid s udp_inode s1"
    and udp: "proto = Udp \<longleftrightarrow> udp_inode \<noteq> None" and D: "proto \<noteq> Udp \<longrightarrow> as_diag s1 = D"
  shows "wp (owner_of_flow M proto src_ip src_port dst_ip dst_port uid deadline udp_inode)
    (attributes M D proto Outbound (src_ip, src_port) (dst_ip, dst_port) uid s) s1"
  unfolding owner_of_flow_def wp_bind Let_def
proof (rule wp_mono [OF diag_query_traces [OF D, where uid = uid]])
  fix info s2
  let ?tr = "traces M D proto (src_ip, src_port) (dst_ip, dst_port) uid s"
  assume s2: "moves M s1 s2 \<and> (\<forall>i. proto \<noteq> Udp \<and> usable_info uid None info = Some i \<longrightarrow>
      flow_inode M D (as_step s1) (as_step s2) proto (src_ip, src_port) (dst_ip, dst_port) uid (si_inode i))"
  have m1: "moves M s s1" using s1 by (simp add: traces_def)
  have 3: "?tr udp_inode s3" "udp_inode = None \<Longrightarrow> usable_info uid None info = Some i \<Longrightarrow> ?tr (Some (si_inode i)) s3"
    if m: "moves M s2 s3" for s3 i
  proof -
    have m3: "moves M s1 s3" using s2 m moves_trans by blast
    then show "?tr udp_inode s3" by (rule traces_later [OF s1])
    assume i: "udp_inode = None" "usable_info uid None info = Some i"
    have "flow_inode M D (as_step s1) (as_step s2) proto (src_ip, src_port) (dst_ip, dst_port) uid (si_inode i)"
      using s2 i udp by blast
    then have "flow_inode M D (as_step s1) (as_step s3) proto (src_ip, src_port) (dst_ip, dst_port) uid (si_inode i)"
      by (rule flow_inode_mono [OF _ order_refl moves_le [OF m]])
    then show "?tr (Some (si_inode i)) s3" by (rule traces_from [OF traces_now [OF m3] m1])
  qed
  show "wp (cookie_pid_of M (usable_info uid udp_inode info)) (\<lambda>cookie_pid. wp (case udp_inode of
                 Some inode \<Rightarrow> State_Monad.return (Some inode)
               | None \<Rightarrow> (case usable_info uid udp_inode info of
                            Some i \<Rightarrow> State_Monad.return (Some (si_inode i))
                          | None \<Rightarrow> proc_net_inode M proto src_ip src_port dst_ip dst_port uid deadline))
       (\<lambda>inode. wp (case inode of None \<Rightarrow> State_Monad.return None
          | Some inode \<Rightarrow> pid_owning_inode M inode cookie_pid deadline)
          (attributes M D proto Outbound (src_ip, src_port) (dst_ip, dst_port) uid s))) s2"
    by (rule wp_mono [OF cookie_pid_moves], rule wp_mono [OF inode_traces owner_of_inode]) (use 3 in blast)+
qed

lemma socket_owner_attributes:
  "wp (socket_owner M proto dir src_ip src_port dst_ip dst_port uid)
     (attributes M (as_diag s) proto dir (src_ip, src_port) (dst_ip, dst_port) uid s) s"
proof (cases "dir = Inbound")
  case False
  then have dir: "dir = Outbound" by (cases dir) simp_all
  let ?tr = "traces M (as_diag s) proto (src_ip, src_port) (dst_ip, dst_port) uid s"
  let ?s = "s\<lparr>as_step := Suc (as_step s)\<rparr>"
  have "wp (if proto = Udp then proc_net_inode M proto src_ip src_port dst_ip dst_port uid deadline
      else State_Monad.return None) (\<lambda>x s'. ?tr x s' \<and> (proto \<noteq> Udp \<longrightarrow> x = None \<and> as_diag s' = as_diag s)) ?s" for deadline
    using wp_mono [OF proc_net_inode_traces traces_from [OF _ moves_step]]
    by (simp add: wp_simps traces_None)
  then have "wp (if proto = Udp then proc_net_inode M proto src_ip src_port dst_ip dst_port uid deadline
      else State_Monad.return None)
    (\<lambda>udp_inode. wp (if proto = Udp \<and> udp_inode = None then State_Monad.return None
        else owner_of_flow M proto src_ip src_port dst_ip dst_port uid deadline udp_inode)
      (attributes M (as_diag s) proto Outbound (src_ip, src_port) (dst_ip, dst_port) uid s)) ?s" for deadline
    by (rule wp_mono) (auto simp: wp_return attributes_None traces_None intro!: owner_of_flow_attributes)
  from this [of "v_now (mc_view M (as_step s)) + RESOLVE_BUDGET"] show ?thesis
    unfolding socket_owner_def dir by (cases "proto = Udp") (simp_all add: wp_simps Let_def)
qed (simp add: socket_owner_def wp_simps attributes_None)

text \<open>C23: Whatever the machine does between two reads, a process the daemon names as the owner of a
  flow was seen to be it.  The flow is outbound.  For UDP the inode is the only one that the rows
  compatible with the flow name in the UDP tables of its family, each read whole during the search.
  For TCP it is the one of a connected row of the flow's two ends in a TCP table of its family, or
  the one that the first datagram on the thread's netlink socket, of those left there and those the
  kernel sends on a request for exactly these two ends, tells under the number of that request: a
  whole answer, not of a listening socket, of the packet's user when that is known.  Within the
  search the pid had the reported start time, then one of its descriptors was that socket, then it
  had the same start time again.  The caches keep their bounds.\<close>

theorem owners_were_seen_holding_the_socket:
  assumes "run_state (socket_owner M proto dir src_ip src_port dst_ip dst_port uid) s = (Some w, s')"
  shows "dir = Outbound \<and> so_inode w \<noteq> 0 \<and>
    flow_inode M (as_diag s) (as_step s) (as_step s') proto (src_ip, src_port) (dst_ip, dst_port) uid (so_inode w) \<and>
    (\<exists>t1 t2 t3. as_step s \<le> t1 \<and> t1 < t2 \<and> t2 < t3 \<and> t3 < as_step s' \<and>
       start_at (mc_view M t1) (so_pid w) = Some (so_starttime w) \<and>
       sees_socket (mc_view M t2) w \<and>
       start_at (mc_view M t3) (so_pid w) = Some (so_starttime w)) \<and>
    (order_ok M \<longrightarrow> attr_ok s \<longrightarrow> attr_ok s')"
  using wp_run [OF assms socket_owner_attributes]
  by (simp add: attributes_def seen_holding_def moves_def)

section \<open>An example\<close>

definition silent_netlink :: exchange_io where
  "silent_netlink = \<lparr>io_opens = False, io_sent = False, io_arrive = \<lambda>_. []\<rparr>"

lemma query_silent:
  assumes "pending T = {}" "\<And>req. io_arrive io req = []" "\<And>req. io_arrive io2 req = []"
  shows "\<exists>T'. query e io io2 proto src_ip src_port dst_ip dst_port T = Ret (None, T')"
proof -
  have one: "\<exists>T'. ask_next e io q T = Ret (None, T') \<and> pending T' = {}"
    if "pending T = {}" "\<And>req. io_arrive io req = []" for io q T
    by (rule ask_next_Ret [of e io q T]) (use that in \<open>fastforce split: option.splits\<close>)
  have bind: "\<exists>T'. bind_run (ask_next e io q T) (\<lambda>(info, T). f info T) = Ret (None, T')"
    if "\<And>T. pending T = {} \<Longrightarrow> \<exists>T'. f None T = Ret (None, T')" for q
      and f :: "sock_info option \<Rightarrow> diag_thread \<Rightarrow> (sock_info option \<times> diag_thread) run"
    using one [OF assms(1), of io q] assms(2) that by fastforce
  show ?thesis
    by (cases proto) (simp_all add: query_def Let_def, (rule bind, use one [of _ io2] assms(3) in \<open>fastforce\<close>)+)
qed

lemma table_rows_text: "layout_ok l \<Longrightarrow> CHR 0x0A \<notin> set heading \<and> CHR 0x0D \<notin> set heading \<Longrightarrow>
    table_rows (text_of_lines [heading, row_text l e]) = [e]"
  by (subst table_rows_def, subst text_of_lines_def, subst str_lines_text)
    (use row_text_chars [of l _ e] in \<open>auto simp: parse_row List.map_filter_simps\<close>)

definition example_stat :: string where
  "example_stat = dec_string (unat (7 :: u32)) @ '' ('' @ ''a) b'' @ '')'' @
     spaced (map (Pair 0) (replicate 19 ''0'' @ [dec_string (unat (4711 :: u64))])) 0"

lemma dec_no_paren: "CHR '')'' \<notin> set (dec_string n)"
  using dec_string_digits [of "CHR '')''" n] by (auto simp: digit_value_def)

lemma dec_nonempty: "dec_string n \<noteq> []"
  by (subst dec_string.simps) simp

lemma example_start: "parse_starttime example_stat = Some 4711"
  unfolding example_stat_def
  by (rule parse_starttime_stat)
   (auto simp: nth_append dec_no_paren dec_nonempty plain_def simp del: dec_string.simps dest: dec_plain)

definition example_meta :: file_meta where
  "example_meta = \<lparr>fm_is_file = True, fm_is_dir = False, fm_uid = 0, fm_mode = 493, fm_dev = 1, fm_ino = 99, fm_len = 2,
     fm_mtime = 5, fm_mtime_nsec = 0, fm_ctime = 5, fm_ctime_nsec = 0, fm_nlink = 1\<rparr>"

definition example_view :: view where
  "example_view = \<lparr>v_now = 0, v_system_now = 0,
     v_stat = [7 \<mapsto> example_stat], v_proc = (\<lambda>pid. pid = 7), v_fds = [7 \<mapsto> [3]],
     v_fd_target = (\<lambda>pid fd. if pid = 7 \<and> fd = 3 then Some (Some 31337) else None),
     v_fd_link = (\<lambda>pid fd. if pid = 7 \<and> fd = 3 then Some (socket_text 31337) else None),
     v_pids = Some [7], v_table = (\<lambda>_. TableText (text_of_lines [''sl'', row_text example_layout example_entry])),
     v_cookie_pid = (\<lambda>_. None), v_netlink = (silent_netlink, silent_netlink),
     v_ppid = [7 \<mapsto> 1], v_ids = [7 \<mapsto> (1000, 1000)], v_cmdline = (\<lambda>_. None), v_cwd = (\<lambda>_. None),
     v_exe_open = [7 \<mapsto> 0], v_exe_link = [7 \<mapsto> ''/a''], v_exe_stat = [7 \<mapsto> example_meta],
     v_file_meta = [0 \<mapsto> example_meta],
     v_file_read = (\<lambda>f pos. if f = 0 then Some (if pos = 0 then [1, 2] else []) else None),
     v_fdinfo = (\<lambda>_. None), v_mountinfo = (\<lambda>_. None), v_user_ns = (\<lambda>_. None), v_own_user_ns = None,
     v_path_meta = [''/a'' \<mapsto> example_meta], v_mnt_ns = (\<lambda>_. None), v_status = (\<lambda>_. None),
     v_status_owner = (\<lambda>_. None), v_fd_names = (\<lambda>_. None), v_maps = (\<lambda>_. None), v_path_lmeta = (\<lambda>_. None),
     v_tasks = (\<lambda>_. NoTaskDir)\<rparr>"

definition example_machine :: machine where
  "example_machine = \<lparr>mc_view = \<lambda>_. example_view, mc_endian = LittleEndian, mc_sha256 = \<lambda>bs. bs,
     mc_cache_order = \<lambda>m. m, mc_digest_order = \<lambda>m. m, mc_exec_order = \<lambda>m. m\<rparr>"

definition example_owner :: socket_holder where
  "example_owner = \<lparr>so_pid = 7, so_starttime = 4711, so_inode = 31337, so_fd = 3\<rparr>"

lemma silent_diag: "wp (diag_query example_machine Tcp src_ip src_port dst_ip dst_port) (\<lambda>info s'. info = None \<and> (\<exists>T. s' = new_attr_state\<lparr>as_step := n', as_diag := T\<rparr>))
   (new_attr_state\<lparr>as_step := n\<rparr>)" if "n' = Suc n"
proof -
  obtain T where "query LittleEndian silent_netlink silent_netlink Tcp src_ip src_port dst_ip dst_port new_thread = Ret (None, T)"
    using query_silent [of new_thread silent_netlink silent_netlink LittleEndian Tcp]
    by (simp add: new_thread_def pending_def silent_netlink_def) blast
  then show ?thesis
    by (auto simp: diag_query_def wp_simps wp_State example_machine_def example_view_def new_attr_state_def that)
qed

lemma example_scan: "scan_table_content (text_of_lines [''sl'', row_text example_layout example_entry]) Tcp
   (V4 0x7F000001, 8080) (V6 1, 443) (Some 1000) = Some 31337"
proof -
  have "layout_ok example_layout"
    by (simp add: layout_ok_def example_layout_def word_ok_def plain_def numeral_eq_Suc)
  then have "table_rows (text_of_lines [''sl'', row_text example_layout example_entry]) = [example_entry]"
    by (rule table_rows_text) simp
  then show ?thesis
    by (simp add: scan_table_content_def scan_table_entries_def may_identify_def tcp_connected_def example_entry_def endpoint_eq_def endpoint_is_zero_def)
qed

lemma example_reads [simp]:
  "mc_view example_machine t = example_view" "v_now example_view = 0" "v_pids example_view = Some [7]"
  "mc_exec_order example_machine m = m" "v_cookie_pid example_view c = None"
  "v_table example_view table = TableText (text_of_lines [''sl'', row_text example_layout example_entry])"
  by (simp_all add: example_machine_def example_view_def)

lemma example_probe:
  "wp (pid_has_socket_inode example_machine 7 31337 RESOLVE_BUDGET) (\<lambda>x _. x = Some example_owner) s"
  by (simp add: pid_has_socket_inode_def wp_simps remember_def example_machine_def example_view_def start_at_def
      example_start RESOLVE_BUDGET_def from_millis_def example_owner_def)

lemma budget_pos [simp]: "0 < RESOLVE_BUDGET"
  by (simp add: RESOLVE_BUDGET_def from_millis_def)

lemma example_recorded:
  "wp (pid_has_socket_inode example_machine 7 31337 RESOLVE_BUDGET)
     (\<lambda>x. wp (case x of None \<Rightarrow> State_Monad.return None
               | Some found \<Rightarrow> do { _ \<leftarrow> record_resolved_pid (so_pid found); State_Monad.return (Some found) })
        (\<lambda>x _. x = Some example_owner)) s"
  by (rule wp_mono [OF example_probe]) (simp add: wp_simps record_resolved_pid_def)

lemma example_holder:
  "wp (pid_owning_inode example_machine 31337 None RESOLVE_BUDGET) (\<lambda>x _. x = Some example_owner)
     (new_attr_state\<lparr>as_diag := T, as_step := n\<rparr>)"
  by (simp add: pid_owning_inode_def or_else_def cached_owner_def wp_simps new_attr_state_def new_ttl_cache_def ttl_get_def
      recent_pids_def new_table_def example_recorded)

lemma example_search:
  "wp (socket_owner example_machine Tcp Outbound (V4 0x7F000001) 8080 (V6 1) 443 (Some 1000))
     (\<lambda>x _. x = Some example_owner) new_attr_state"
proof -
  have "wp (owner_of_flow example_machine Tcp (V4 0x7F000001) 8080 (V6 1) 443 (Some 1000) RESOLVE_BUDGET None)
      (\<lambda>x _. x = Some example_owner) (new_attr_state\<lparr>as_step := Suc 0\<rparr>)"
    unfolding owner_of_flow_def wp_bind
    by (rule wp_mono [OF silent_diag [OF refl]])
      (auto simp: wp_simps usable_info_def cookie_pid_of_def proc_net_inode_def proc_net_tables_def to_canonical.simps
        example_scan example_holder)
  then show ?thesis
    by (simp add: socket_owner_def wp_simps) (simp add: new_attr_state_def)
qed

theorem owners_were_seen_holding_the_socket_witness:
  "\<exists>s'. run_state (socket_owner example_machine Tcp Outbound (V4 0x7F000001) 8080 (V6 1) 443 (Some 1000)) new_attr_state
       = (Some example_owner, s') \<and>
     flow_inode example_machine new_thread 0 (as_step s') Tcp (V4 0x7F000001, 8080) (V6 1, 443) (Some 1000) 31337 \<and> attr_ok s'"
proof -
  obtain s' where run: "run_state (socket_owner example_machine Tcp Outbound (V4 0x7F000001) 8080 (V6 1) 443 (Some 1000))
      new_attr_state = (Some example_owner, s')"
    using example_search by (auto simp: wp_def split: prod.splits)
  have "order_ok example_machine" by (simp add: order_ok_def example_machine_def)
  with owners_were_seen_holding_the_socket [OF run] attr_ok_new show ?thesis
    by (intro exI [of _ s']) (simp add: run example_owner_def, simp add: new_attr_state_def)
qed

end
