(* ===== verification/Identity.thy ===== *)
theory Identity
  imports Attribution
begin

text \<open>
  \<open>crates/cfc-daemon/src/process_resolve.rs\<close>, from a pid to the identity rules match on: the opened
  image, its digest, the path a rule sees, and \<open>resolve\<close>.  Package provenance
  (\<open>provenance::describe\<close>) is the argument \<open>describe\<close>.
\<close>

section \<open>Digests\<close>

definition SHA256_MAX_LEN :: nat where "SHA256_MAX_LEN = 64 * 1024 * 1024"
definition DIGEST_SETTLE :: nat where "DIGEST_SETTLE = from_secs 2"
definition CMDLINE_MAX_BYTES :: nat where "CMDLINE_MAX_BYTES = 4096"

definition settled :: "file_meta \<Rightarrow> int \<Rightarrow> bool" where
  "settled m at \<longleftrightarrow>
     0 \<le> fm_ctime m \<and> 0 \<le> fm_ctime_nsec m \<and> fm_ctime_nsec m < 2 ^ 32 \<and>
     fm_ctime m * 1000000000 + fm_ctime_nsec m + int DIGEST_SETTLE \<le> at"

text \<open>The bytes read so far; the loop ends at the end of the file, at an error, or past the
  limit.\<close>

function read_file :: "machine \<Rightarrow> nat \<Rightarrow> nat \<Rightarrow> bytes \<Rightarrow> bytes option attr" where
  "read_file M f max_len buf =
     (do {
        chunk \<leftarrow> look M (\<lambda>v. v_file_read v f (length buf));
        case chunk of
          None \<Rightarrow> State_Monad.return None
        | Some chunk \<Rightarrow>
            if chunk = [] then State_Monad.return (Some buf)
            else if max_len < length (buf @ chunk) then State_Monad.return None
            else read_file M f max_len (buf @ chunk) })"
  by pat_completeness auto
termination
  by (relation "measure (\<lambda>(M, f, max_len, buf). Suc max_len - length buf)") (auto simp: neq_Nil_conv)

declare read_file.simps [simp del]

definition digest_get :: "machine \<Rightarrow> image_key \<Rightarrow> nat \<Rightarrow> string option attr" where
  "digest_get M key t = do {
     s \<leftarrow> State_Monad.get;
     let (cached, c) = ttl_get key t (as_digests s);
     _ \<leftarrow> State_Monad.set (s\<lparr>as_digests := c\<rparr>);
     State_Monad.return cached }"

text \<open>A miss: the whole file, and the key once more after it.\<close>

definition hash_file :: "machine \<Rightarrow> nat \<Rightarrow> nat \<Rightarrow> file_meta \<Rightarrow> nat \<Rightarrow> bool \<Rightarrow> string option attr" where
  "hash_file M f max_len meta t cacheable = do {
     contents \<leftarrow> read_file M f max_len [];
     case contents of
       None \<Rightarrow> State_Monad.return None
     | Some contents \<Rightarrow>
         if length contents \<noteq> unat (fm_len meta) then State_Monad.return None
         else do {
           after \<leftarrow> look M (\<lambda>v. v_file_meta v f);
           if map_option image_key_of after \<noteq> Some (image_key_of meta) then State_Monad.return None
           else do {
             let out = hex_lower (mc_sha256 M contents);
             _ \<leftarrow> (if cacheable
                  then State_Monad.update
                         (\<lambda>s. s\<lparr>as_digests := ttl_insert (mc_digest_order M) (image_key_of meta) out t (as_digests s)\<rparr>)
                  else State_Monad.return ());
             State_Monad.return (Some out) } } }"

definition sha256_open_file :: "machine \<Rightarrow> nat \<Rightarrow> nat \<Rightarrow> string option attr" where
  "sha256_open_file M f max_len = do {
     meta \<leftarrow> look M (\<lambda>v. v_file_meta v f);
     case meta of
       None \<Rightarrow> State_Monad.return None
     | Some meta \<Rightarrow>
         if \<not> fm_is_file meta \<or> max_len < unat (fm_len meta) then State_Monad.return None
         else do {
           t \<leftarrow> now M;
           cached \<leftarrow> digest_get M (image_key_of meta) t;
           case cached of
             Some digest \<Rightarrow> State_Monad.return (Some digest)
           | None \<Rightarrow> do {
               cacheable \<leftarrow> look M (\<lambda>v. settled meta (v_system_now v));
               hash_file M f max_len meta t cacheable } } }"

section \<open>The mapped image\<close>

definition DELETED_SUFFIX :: string where "DELETED_SUFFIX = '' (deleted)''"

definition strip_suffix :: "string \<Rightarrow> string \<Rightarrow> string option" where
  "strip_suffix p s = (if length p \<le> length s \<and> drop (length s - length p) s = p
                       then Some (take (length s - length p) s) else None)"

text \<open>\<open>utf8\<close> says whether \<open>to_str\<close> accepts the path.\<close>

definition policy_exe_path :: "(string \<Rightarrow> bool) \<Rightarrow> string \<Rightarrow> bool \<Rightarrow> string" where
  "policy_exe_path utf8 path unlinked =
     (case (if unlinked \<and> utf8 path then strip_suffix DELETED_SUFFIX path else None) of
        Some p \<Rightarrow> p
      | None \<Rightarrow> path)"

record mapped_image =
  mi_file :: nat
  mi_path :: string
  mi_key :: image_key

definition image_open :: "machine \<Rightarrow> u32 \<Rightarrow> mapped_image option attr" where
  "image_open M pid = do {
     file \<leftarrow> look M (\<lambda>v. v_exe_open v pid);
     case file of
       None \<Rightarrow> State_Monad.return None
     | Some file \<Rightarrow> do {
         meta \<leftarrow> look M (\<lambda>v. v_file_meta v file);
         case meta of
           None \<Rightarrow> State_Monad.return None
         | Some meta \<Rightarrow>
             if \<not> fm_is_file meta then State_Monad.return None
             else do {
               path \<leftarrow> look M (\<lambda>v. v_exe_link v pid);
               case path of
                 None \<Rightarrow> State_Monad.return None
               | Some path \<Rightarrow> do {
                   let key = image_key_of meta;
                   same \<leftarrow> look M (\<lambda>v. map_option image_key_of (v_exe_stat v pid) = Some key);
                   State_Monad.return
                     (if same then Some \<lparr>mi_file = file, mi_path = path, mi_key = key\<rparr> else None) } } } }"

definition path_names_image :: "view \<Rightarrow> string \<Rightarrow> image_key \<Rightarrow> bool" where
  "path_names_image v path key \<longleftrightarrow>
     (case v_path_meta v path of None \<Rightarrow> True | Some m \<Rightarrow> fm_dev m = fst key \<and> fm_ino m = fst (snd key))"

text \<open>The first field of each line of \<open>mountinfo\<close>, and the trimmed \<open>mnt_id\<close> of \<open>fdinfo\<close>.\<close>

definition first_field :: "string \<Rightarrow> string" where
  "first_field l = takeWhile (\<lambda>c. c \<noteq> CHR '' '') l"

definition mounted_in :: "machine \<Rightarrow> nat \<Rightarrow> u32 \<Rightarrow> bool attr" where
  "mounted_in M file pid = do {
     fdinfo \<leftarrow> look M (\<lambda>v. v_fdinfo v file);
     case (case fdinfo of None \<Rightarrow> None | Some info \<Rightarrow> map_option trim (field_line ''mnt_id:'' (str_lines info))) of
       None \<Rightarrow> State_Monad.return False
     | Some i \<Rightarrow>
         look M (\<lambda>v. case v_mountinfo v pid of
                       None \<Rightarrow> False
                     | Some mounts \<Rightarrow> list_ex (\<lambda>l. first_field l = i) (str_lines mounts)) }"

definition image_finish :: "machine \<Rightarrow> u32 \<Rightarrow> mapped_image \<Rightarrow> (string \<times> string option \<times> bool) option attr" where
  "image_finish M pid im = do {
     meta \<leftarrow> look M (\<lambda>v. v_file_meta v (mi_file im));
     case meta of
       None \<Rightarrow> State_Monad.return None
     | Some meta \<Rightarrow>
         if image_key_of meta \<noteq> mi_key im then State_Monad.return None
         else do {
           names \<leftarrow> look M (\<lambda>v. path_names_image v (mi_path im) (mi_key im));
           if \<not> names then State_Monad.return None
           else do {
             unlinked \<leftarrow> (if fm_nlink meta = 0 then mounted_in M (mi_file im) pid else State_Monad.return False);
             sha256 \<leftarrow> sha256_open_file M (mi_file im) SHA256_MAX_LEN;
             same_file \<leftarrow> look M (\<lambda>v. map_option image_key_of (v_exe_stat v pid) = Some (mi_key im));
             if \<not> same_file then State_Monad.return None
             else do {
               same_link \<leftarrow> look M (\<lambda>v. v_exe_link v pid = Some (mi_path im));
               State_Monad.return (if same_link then Some (mi_path im, sha256, unlinked) else None) } } } }"

definition in_our_user_namespace :: "machine \<Rightarrow> u32 \<Rightarrow> bool attr" where
  "in_our_user_namespace M pid = do {
     theirs \<leftarrow> look M (\<lambda>v. v_user_ns v pid);
     ours \<leftarrow> look M v_own_user_ns;
     State_Monad.return (theirs \<noteq> None \<and> theirs = ours) }"

section \<open>The process\<close>

text \<open>\<open>slice::split\<close> at NUL bytes.\<close>

fun split_nul :: "bytes \<Rightarrow> bytes list" where
  "split_nul [] = [[]]"
| "split_nul (b # bs) =
     (if b = 0 then [] # split_nul bs
      else (case split_nul bs of [] \<Rightarrow> [[b]] | a # as \<Rightarrow> (b # a) # as))"

definition split_cmdline :: "bytes \<Rightarrow> string list" where
  "split_cmdline buf =
     (let args = map lossy_string (filter (\<lambda>a. a \<noteq> []) (split_nul (take CMDLINE_MAX_BYTES buf))) in
      if CMDLINE_MAX_BYTES < length buf \<and> args \<noteq> [] then butlast args @ [last args @ ''...''] else args)"

definition read_cmdline :: "machine \<Rightarrow> u32 \<Rightarrow> string list attr" where
  "read_cmdline M pid =
     look M (\<lambda>v. case v_cmdline v pid of
                   None \<Rightarrow> []
                 | Some buf \<Rightarrow> split_cmdline (take (CMDLINE_MAX_BYTES + 1) buf))"

definition read_ids :: "machine \<Rightarrow> u32 \<Rightarrow> bool \<Rightarrow> kernel_proc option \<Rightarrow> (u32 option \<times> u32 option \<times> u32 option) attr" where
  "read_ids M pid alive kern =
     (case kern of
        Some k \<Rightarrow> State_Monad.return (kp_ppid k, Some (kp_uid k), Some (kp_gid k))
      | None \<Rightarrow>
          if \<not> alive then State_Monad.return (None, None, None)
          else do {
            ppid \<leftarrow> look M (\<lambda>v. v_ppid v pid);
            ids \<leftarrow> look M (\<lambda>v. v_ids v pid);
            State_Monad.return (map_option word_of_int ppid, map_option fst ids, map_option snd ids) })"

text \<open>The image, once more under the start time the caller read.\<close>

definition read_image ::
  "machine \<Rightarrow> u32 \<Rightarrow> u64 option \<Rightarrow> mapped_image option \<Rightarrow> (string \<times> string option \<times> bool) option attr" where
  "read_image M pid starttime im =
     (case im of
        None \<Rightarrow> State_Monad.return None
      | Some im \<Rightarrow> do {
          done \<leftarrow> image_finish M pid im;
          case done of
            None \<Rightarrow> State_Monad.return None
          | Some (exe, sha256, unlinked) \<Rightarrow> do {
              own \<leftarrow> (if unlinked then in_our_user_namespace M pid else State_Monad.return False);
              again \<leftarrow> read_starttime M pid;
              State_Monad.return (if again = starttime then Some (exe, sha256, own) else None) } })"

definition get_kernel_proc :: "u32 \<Rightarrow> u64 option \<Rightarrow> nat \<Rightarrow> kernel_proc option attr" where
  "get_kernel_proc pid starttime t = do {
     s \<leftarrow> State_Monad.get;
     let (kern, T) = get_proc pid starttime t (as_procs s);
     _ \<leftarrow> State_Monad.set (s\<lparr>as_procs := T\<rparr>);
     State_Monad.return kern }"

definition process_of ::
  "(string \<Rightarrow> bool) \<Rightarrow> (string \<Rightarrow> string option \<Rightarrow> string option \<times> provenance) \<Rightarrow> u32 \<Rightarrow>
    u32 option \<times> u32 option \<times> u32 option \<Rightarrow> string list \<Rightarrow> string option \<Rightarrow> (string \<times> string option \<times> bool) option \<Rightarrow> process" where
  "process_of utf8 describe pid ids cmdline cwd img =
     (let (ppid, uid, gid) = ids;
          (cmdline, cwd) = (if img = None then ([], None) else (cmdline, cwd));
          (exe, sha256, unlinked) = (case img of None \<Rightarrow> (UNKNOWN_EXE, None, False) | Some i \<Rightarrow> i);
          exe_for_provenance = exe;
          exe = policy_exe_path utf8 exe unlinked;
          (package, prov) = (if exe = UNKNOWN_EXE then (None, ProvUnknown) else describe exe_for_provenance sha256) in
      \<lparr>p_pid = pid, p_ppid = ppid, p_uid = uid, p_gid = gid, p_exe = exe, p_cmdline = cmdline, p_cwd = cwd,
       p_sha256 = sha256, p_started_at = None, p_package = package, p_provenance = prov\<rparr>)"

definition resolve_inner ::
  "machine \<Rightarrow> (string \<Rightarrow> bool) \<Rightarrow> (string \<Rightarrow> string option \<Rightarrow> string option \<times> provenance) \<Rightarrow> u32 \<Rightarrow> u64 option \<Rightarrow> nat
    \<Rightarrow> process option attr" where
  "resolve_inner M utf8 describe pid starttime t = do {
     kern \<leftarrow> get_kernel_proc pid starttime t;
     alive \<leftarrow> look M (\<lambda>v. v_proc v pid);
     if \<not> alive \<and> kern = None then State_Monad.return None
     else do {
       im \<leftarrow> image_open M pid;
       cmdline \<leftarrow> (if alive then read_cmdline M pid else State_Monad.return []);
       cwd \<leftarrow> (if alive then look M (\<lambda>v. v_cwd v pid) else State_Monad.return None);
       ids \<leftarrow> read_ids M pid alive kern;
       img \<leftarrow> read_image M pid starttime im;
       State_Monad.return (Some (process_of utf8 describe pid ids cmdline cwd img)) } }"

section \<open>Resolving\<close>

definition or_unknown :: "u32 \<Rightarrow> process option \<Rightarrow> process" where
  "or_unknown pid p = (case p of None \<Rightarrow> unknown_process pid | Some p \<Rightarrow> p)"

definition resolve_pid ::
  "machine \<Rightarrow> (string \<Rightarrow> bool) \<Rightarrow> (string \<Rightarrow> string option \<Rightarrow> string option \<times> provenance) \<Rightarrow> u32 \<Rightarrow> process attr" where
  "resolve_pid M utf8 describe pid = do {
     t \<leftarrow> now M;
     starttime \<leftarrow> read_starttime M pid;
     p \<leftarrow> resolve_inner M utf8 describe pid starttime t;
     State_Monad.return (or_unknown pid p) }"

definition owner_resolve ::
  "machine \<Rightarrow> (string \<Rightarrow> bool) \<Rightarrow> (string \<Rightarrow> string option \<Rightarrow> string option \<times> provenance) \<Rightarrow> socket_holder \<Rightarrow> process attr" where
  "owner_resolve M utf8 describe w = do {
     starttime \<leftarrow> read_starttime M (so_pid w);
     if starttime \<noteq> Some (so_starttime w) then State_Monad.return (unknown_process (so_pid w))
     else do {
       t \<leftarrow> now M;
       p \<leftarrow> resolve_inner M utf8 describe (so_pid w) (Some (so_starttime w)) t;
       points \<leftarrow> fd_points_at_socket M (so_pid w) (so_fd w) (so_inode w);
       if \<not> points then State_Monad.return (unknown_process (so_pid w))
       else do {
         again \<leftarrow> read_starttime M (so_pid w);
         State_Monad.return
           (if again = Some (so_starttime w) then or_unknown (so_pid w) p else unknown_process (so_pid w)) } } }"

section \<open>What a published identity rests on\<close>

lemma read_file_reads:
  assumes "read_upto M f lo (as_step s) buf"
  shows "wp (read_file M f max_len buf)
    (\<lambda>x s'. moves M s s' \<and> as_step s < as_step s' \<and> (\<forall>c. x = Some c \<longrightarrow> read_upto M f lo (as_step s') c)) s"
  using assms
proof (induction M f max_len buf arbitrary: s rule: read_file.induct)
  case (1 M f max_len buf)
  let ?s = "s\<lparr>as_step := Suc (as_step s)\<rparr>"
  have more: "read_upto M f lo (as_step ?s) (buf @ chunk)"
    if "v_file_read (mc_view M (as_step s)) f (length buf) = Some chunk" for chunk
    by (rule read_more [OF 1(2) order_refl]) (use that in simp_all)
  have stop: "read_upto M f lo (as_step ?s) buf"
    if "v_file_read (mc_view M (as_step s)) f (length buf) = Some []"
    using more [OF that] by simp
  have rec: "wp (read_file M f max_len (buf @ chunk))
    (\<lambda>x s'. moves M s s' \<and> as_step s < as_step s' \<and> (\<forall>c. x = Some c \<longrightarrow> read_upto M f lo (as_step s') c)) ?s"
    if "v_file_read (mc_view M (as_step s)) f (length buf) = Some chunk" "chunk \<noteq> []"
      "\<not> max_len < length (buf @ chunk)" for chunk
    by (rule wp_mono [OF 1(1)]) (use that more in \<open>auto dest: moves_steps\<close>)
  show ?case
    by (subst read_file.simps) (use stop rec in \<open>auto simp: wp_simps moves_to split: option.split\<close>)
qed

lemma ttl_get_subset: "set (tc_map (snd (ttl_get k t c))) \<subseteq> set (tc_map c)"
  by (auto simp: ttl_get_def ttl_remove_def AList.delete_eq split: option.split)

lemma ttl_get_mem: "ttl_get k t c = (Some v, c') \<Longrightarrow> \<exists>u. (k, v, u) \<in> set (tc_map c)"
  by (auto simp: ttl_get_def split: option.splits if_splits) (blast dest: map_of_SomeD)

lemma digest_get_moves:
  "wp (digest_get M key t) (\<lambda>x s'. moves M s s' \<and> as_step s' = as_step s \<and>
     (\<forall>d. x = Some d \<longrightarrow> digests_ok M s \<longrightarrow> digest_seen M (as_step s) key d)) s"
proof -
  obtain x c where get: "ttl_get key t (as_digests s) = (x, c)" by fastforce
  have "moves M s (s\<lparr>as_digests := c\<rparr>)"
    using ttl_get_subset [of key t "as_digests s"] ttl_ok_get [of "as_digests s" key t]
      tc_cap_same(3) [of key t "as_digests s"] get
    by (intro movesI) (simp_all add: attr_ok_def)
  moreover have "digest_seen M (as_step s) key d" if "x = Some d" "digests_ok M s" for d
    using ttl_get_mem [OF get [unfolded that(1)]] that(2) unfolding digests_ok_def by blast
  ultimately show ?thesis by (simp add: digest_get_def wp_simps get)
qed

lemma ttl_insert_set:
  "set (tc_map (ttl_insert it k v t c)) \<subseteq> insert (k, v, t) (set (tc_map c))"
proof -
  have "set (ttl_make_room it t c) \<subseteq> set (tc_map c)"
    by (auto simp: ttl_make_room_def Let_def retain_def AList.delete_eq split: option.splits if_splits)
  moreover have "set (AList.update k (v, t) m) \<subseteq> insert (k, v, t) (set m)" for m :: "('a \<times> 'b \<times> nat) list"
    by (induction m) auto
  ultimately show ?thesis by (auto simp: ttl_insert_def Let_def split: if_splits)
qed

lemma moves_digest:
  assumes "digest_seen M (as_step s) key d"
  shows "moves M s (s\<lparr>as_digests := ttl_insert (mc_digest_order M) key d t (as_digests s)\<rparr>)"
proof -
  have "digests_ok M (s\<lparr>as_digests := ttl_insert (mc_digest_order M) key d t (as_digests s)\<rparr>)" if "digests_ok M s"
    unfolding digests_ok_def
  proof (intro allI impI)
    fix k e u assume "(k, e, u) \<in> set (tc_map (as_digests (s\<lparr>as_digests := ttl_insert (mc_digest_order M) key d t (as_digests s)\<rparr>)))"
    then have "(k, e, u) = (key, d, t) \<or> (k, e, u) \<in> set (tc_map (as_digests s))"
      using ttl_insert_set by fastforce
    then have "digest_seen M (as_step s) k e" using assms that unfolding digests_ok_def by blast
    then show "digest_seen M (as_step (s\<lparr>as_digests := ttl_insert (mc_digest_order M) key d t (as_digests s)\<rparr>)) k e"
      by simp
  qed
  then show ?thesis by (auto simp: moves_def attr_ok_def order_ok_def intro: ttl_ok_insert)
qed

text \<open>The digest, when there is one, is of the file as its metadata \<open>m\<close> describes it.\<close>

definition digests :: "machine \<Rightarrow> file_meta \<Rightarrow> attr_state \<Rightarrow> string option \<Rightarrow> attr_state \<Rightarrow> bool" where
  "digests M m s x s' \<longleftrightarrow> moves M s s' \<and>
     (\<forall>d. x = Some d \<longrightarrow> digests_ok M s \<longrightarrow> digest_seen M (as_step s') (image_key_of m) d)"

lemma digests_None: "digests M m s None s' \<longleftrightarrow> moves M s s'"
  by (simp add: digests_def)

lemma digests_seen:
  assumes "moves M s s'" "digest_seen M (as_step s') (image_key_of m) d"
  shows "digests M m s (Some d) s'"
    and "digests M m s (Some d) (s'\<lparr>as_digests := ttl_insert (mc_digest_order M) (image_key_of m) d t (as_digests s')\<rparr>)"
  using assms moves_trans [OF assms(1) moves_digest [OF assms(2)]] by (auto simp: digests_def)

lemma hash_file_digests:
  assumes "moves M s s2" "t < as_step s" "v_file_meta (mc_view M t) f = Some m"
  shows "wp (hash_file M f max_len m u cacheable) (digests M m s) s2"
  unfolding hash_file_def wp_bind
proof (rule wp_mono [OF read_file_reads [OF read_nothing]])
  show "t \<le> as_step s2" using moves_le [OF assms(1)] assms(2) by simp
next
  fix x s3
  assume x: "moves M s2 s3 \<and> as_step s2 < as_step s3 \<and> (\<forall>c. x = Some c \<longrightarrow> read_upto M f t (as_step s3) c)"
  have step: "moves M s (s3\<lparr>as_step := n\<rparr>)" if "as_step s3 \<le> n" for n
    using x that assms(1) moves_trans moves_then_steps by blast
  have "t < as_step s3" using x assms(2) moves_le [OF assms(1)] by simp
  then have seen: "digest_seen M (Suc (as_step s3)) (image_key_of m) (hex_lower (mc_sha256 M c))"
    if "x = Some c" "length c = unat (fm_len m)"
      "map_option image_key_of (v_file_meta (mc_view M (as_step s3)) f) = Some (image_key_of m)" for c
    unfolding digest_seen_def
    by (intro exI [of _ f] exI [of _ t] exI [of _ "as_step s3"] exI [of _ c])
      (use that x assms(3) in \<open>simp add: image_key_of_def\<close>)
  show "wp (case x of
       None \<Rightarrow> State_Monad.return None
     | Some contents \<Rightarrow>
         if length contents \<noteq> unat (fm_len m) then State_Monad.return None
         else do {
           after \<leftarrow> look M (\<lambda>v. v_file_meta v f);
           if map_option image_key_of after \<noteq> Some (image_key_of m) then State_Monad.return None
           else do {
             let out = hex_lower (mc_sha256 M contents);
             _ \<leftarrow> (if cacheable
                  then State_Monad.update
                         (\<lambda>s. s\<lparr>as_digests := ttl_insert (mc_digest_order M) (image_key_of m) out u (as_digests s)\<rparr>)
                  else State_Monad.return ());
             State_Monad.return (Some out) } }) (digests M m s) s3"
    using step [of "as_step s3"] step [of "Suc (as_step s3)"] seen
      digests_seen [of M s "s3\<lparr>as_step := Suc (as_step s3)\<rparr>" m]
    by (cases x) (auto simp: wp_simps Let_def digests_None)
qed

definition opened_digest :: "machine \<Rightarrow> nat \<Rightarrow> attr_state \<Rightarrow> string option \<Rightarrow> attr_state \<Rightarrow> bool" where
  "opened_digest M f s x s' \<longleftrightarrow> moves M s s' \<and>
     (\<forall>d. x = Some d \<longrightarrow> digests_ok M s \<longrightarrow>
        (\<exists>m. v_file_meta (mc_view M (as_step s)) f = Some m \<and> digest_seen M (as_step s') (image_key_of m) d))"

lemma sha256_open_file_digests: "wp (sha256_open_file M f max_len) (opened_digest M f s) s"
proof (cases "v_file_meta (mc_view M (as_step s)) f")
  case (Some m)
  let ?n = "as_step s"
  let ?s1 = "s\<lparr>as_step := Suc ?n\<rparr>" and ?s2 = "s\<lparr>as_step := Suc (Suc ?n)\<rparr>"
  have up: "opened_digest M f s x s'" if "digests M m ?s1 x s'" for x s'
    using that Some moves_trans [OF moves_step] moves_step [of M s]
    by (auto simp: digests_def opened_digest_def moves_def)
  have m2: "moves M ?s1 ?s2" using moves_to [of ?s1 "Suc (Suc ?n)" M] by simp
  have "wp (digest_get M (image_key_of m) t) (\<lambda>cached. wp (case cached of
             Some digest \<Rightarrow> State_Monad.return (Some digest)
           | None \<Rightarrow> do {
               cacheable \<leftarrow> look M (\<lambda>v. settled m (v_system_now v));
               hash_file M f max_len m t cacheable }) (opened_digest M f s)) ?s2" for t
  proof (rule wp_mono [OF digest_get_moves])
    fix cached s3
    assume s3: "moves M ?s2 s3 \<and> as_step s3 = as_step ?s2 \<and>
      (\<forall>d. cached = Some d \<longrightarrow> digests_ok M ?s2 \<longrightarrow> digest_seen M (as_step ?s2) (image_key_of m) d)"
    have m3: "moves M ?s1 s3" using s3 m2 moves_trans by blast
    have hit: "digests M m ?s1 (Some d) s3" if "cached = Some d" for d
      using s3 m3 that m2 by (auto simp: digests_def moves_def)
    have miss: "wp (hash_file M f max_len m t c) (opened_digest M f s) (s3\<lparr>as_step := Suc (as_step s3)\<rparr>)" for c
      by (rule wp_mono [OF hash_file_digests [of M ?s1 _ ?n] up]) (use m3 Some in \<open>simp_all add: moves_then_steps\<close>)
    show "wp (case cached of
             Some digest \<Rightarrow> State_Monad.return (Some digest)
           | None \<Rightarrow> do {
               cacheable \<leftarrow> look M (\<lambda>v. settled m (v_system_now v));
               hash_file M f max_len m t cacheable }) (opened_digest M f s) s3"
      using hit miss up by (cases cached) (simp_all add: wp_simps)
  qed
  then show ?thesis
    by (simp add: sha256_open_file_def wp_simps Some opened_digest_def)
qed (simp add: sha256_open_file_def wp_simps opened_digest_def)

section \<open>The image, opened and confirmed\<close>

text \<open>One instant after the other: the file behind \<open>/proc/<pid>/exe\<close> was opened, was a regular file
  of this key, the link read this path, and what the link led to had this key.\<close>

definition opened :: "machine \<Rightarrow> u32 \<Rightarrow> nat \<Rightarrow> mapped_image \<Rightarrow> bool" where
  "opened M pid t im \<longleftrightarrow>
     v_exe_open (mc_view M t) pid = Some (mi_file im) \<and>
     (\<exists>m. v_file_meta (mc_view M (Suc t)) (mi_file im) = Some m \<and> fm_is_file m \<and> image_key_of m = mi_key im) \<and>
     v_exe_link (mc_view M (Suc (Suc t))) pid = Some (mi_path im) \<and>
     map_option image_key_of (v_exe_stat (mc_view M (Suc (Suc (Suc t)))) pid) = Some (mi_key im)"

lemma image_open_opened:
  "wp (image_open M pid) (\<lambda>x s'. moves M s s' \<and>
     (\<forall>im. x = Some im \<longrightarrow> opened M pid (as_step s) im \<and> as_step s' = as_step s + 4)) s"
  by (auto simp: image_open_def wp_simps moves_to opened_def Let_def split: option.split)

definition on_own_mount :: "machine \<Rightarrow> nat \<Rightarrow> u32 \<Rightarrow> nat \<Rightarrow> bool" where
  "on_own_mount M f pid t \<longleftrightarrow>
     (\<exists>info i mounts l. v_fdinfo (mc_view M t) f = Some info \<and>
        field_line ''mnt_id:'' (str_lines info) = Some i \<and>
        v_mountinfo (mc_view M (Suc t)) pid = Some mounts \<and> l \<in> set (str_lines mounts) \<and> first_field l = trim i)"

lemma mounted_in_own:
  "wp (mounted_in M f pid) (\<lambda>x s'. moves M s s' \<and> (x \<longrightarrow> on_own_mount M f pid (as_step s))) s"
  by (auto simp: mounted_in_def wp_simps moves_to on_own_mount_def list_ex_iff split: option.split)

text \<open>And it was still the image: at \<open>t\<close> the open file had the key, the path led to it or to nothing
  the daemon can see, and at \<open>u\<close> the link led to the key and read the path.\<close>

definition confirmed :: "machine \<Rightarrow> u32 \<Rightarrow> nat \<Rightarrow> nat \<Rightarrow> mapped_image \<Rightarrow> bool \<Rightarrow> bool" where
  "confirmed M pid t u im unlinked \<longleftrightarrow>
     (\<exists>m. v_file_meta (mc_view M t) (mi_file im) = Some m \<and> image_key_of m = mi_key im \<and>
        (unlinked \<longrightarrow> fm_nlink m = 0 \<and> on_own_mount M (mi_file im) pid (Suc (Suc t)))) \<and>
     path_names_image (mc_view M (Suc t)) (mi_path im) (mi_key im) \<and>
     map_option image_key_of (v_exe_stat (mc_view M u) pid) = Some (mi_key im) \<and>
     v_exe_link (mc_view M (Suc u)) pid = Some (mi_path im)"

definition finished :: "machine \<Rightarrow> u32 \<Rightarrow> mapped_image \<Rightarrow> attr_state \<Rightarrow> (string \<times> string option \<times> bool) option \<Rightarrow>
    attr_state \<Rightarrow> bool" where
  "finished M pid im s x s' \<longleftrightarrow> moves M s s' \<and>
     (\<forall>exe sha unlinked. x = Some (exe, sha, unlinked) \<longrightarrow> exe = mi_path im \<and>
        (\<exists>u. as_step s < u \<and> Suc u < as_step s' \<and> confirmed M pid (as_step s) u im unlinked) \<and>
        (\<forall>d. sha = Some d \<longrightarrow> digests_ok M s \<longrightarrow> (\<exists>t m. as_step s < t \<and> t < as_step s' \<and>
           v_file_meta (mc_view M t) (mi_file im) = Some m \<and> digest_seen M (as_step s') (image_key_of m) d)))"

lemma unlinked_own:
  "wp (if fm_nlink m = 0 then mounted_in M f pid else State_Monad.return False)
     (\<lambda>x s'. moves M s s' \<and> (x \<longrightarrow> fm_nlink m = 0 \<and> on_own_mount M f pid (as_step s))) s"
  using wp_mono [OF mounted_in_own] by (simp add: wp_simps)

lemma finished_last:
  assumes "opened_digest M (mi_file im) s3 sha s4" "moves M s s3" "as_step s < as_step s3"
    "v_file_meta (mc_view M (as_step s)) (mi_file im) = Some m" "image_key_of m = mi_key im"
    "unlinked \<longrightarrow> fm_nlink m = 0 \<and> on_own_mount M (mi_file im) pid (Suc (Suc (as_step s)))"
    "path_names_image (mc_view M (Suc (as_step s))) (mi_path im) (mi_key im)"
  shows "wp (do {
             same_file \<leftarrow> look M (\<lambda>v. map_option image_key_of (v_exe_stat v pid) = Some (mi_key im));
             if \<not> same_file then State_Monad.return None
             else do {
               same_link \<leftarrow> look M (\<lambda>v. v_exe_link v pid = Some (mi_path im));
               State_Monad.return (if same_link then Some (mi_path im, sha, unlinked) else None) } })
    (finished M pid im s) s4"
proof -
  have m4: "moves M s s4" using assms(1,2) moves_trans unfolding opened_digest_def by blast
  have lt: "as_step s < as_step s4" using assms(1,3) moves_le [of M s3 s4] by (simp add: opened_digest_def)
  have up: "moves M s (s4\<lparr>as_step := n\<rparr>)" if "as_step s4 \<le> n" for n by (rule moves_then_steps [OF m4 that])
  have digest: "\<exists>t m. as_step s < t \<and> t < Suc (Suc (as_step s4)) \<and> v_file_meta (mc_view M t) (mi_file im) = Some m \<and>
      digest_seen M (Suc (Suc (as_step s4))) (image_key_of m) d" if sd: "sha = Some d" "digests_ok M s" for d
  proof -
    have "digests_ok M s3" using sd(2) assms(2) by (simp add: moves_def)
    then obtain m' where "v_file_meta (mc_view M (as_step s3)) (mi_file im) = Some m'"
        "digest_seen M (as_step s4) (image_key_of m') d"
      using assms(1) sd(1) unfolding opened_digest_def by blast
    moreover have "as_step s3 < Suc (Suc (as_step s4))" using assms(1) moves_le [of M s3 s4] by (simp add: opened_digest_def)
    ultimately show ?thesis
      using assms(3) digest_seen_mono [of M "as_step s4" _ d "Suc (Suc (as_step s4))"] by (intro exI [of _ "as_step s3"] exI [of _ m']) simp
  qed
  have "confirmed M pid (as_step s) (as_step s4) im unlinked"
    if "map_option image_key_of (v_exe_stat (mc_view M (as_step s4)) pid) = Some (mi_key im)"
      "v_exe_link (mc_view M (Suc (as_step s4))) pid = Some (mi_path im)"
    using assms(4-7) that by (auto simp: confirmed_def)
  then show ?thesis
    using up digest lt by (auto simp: wp_simps finished_def)
qed

lemma image_finish_finished: "wp (image_finish M pid im) (finished M pid im s) s"
proof (cases "v_file_meta (mc_view M (as_step s)) (mi_file im)")
  case (Some m)
  let ?n = "as_step s"
  let ?s2 = "s\<lparr>as_step := Suc (Suc ?n)\<rparr>"
  have "wp (do {
             unlinked \<leftarrow> (if fm_nlink m = 0 then mounted_in M (mi_file im) pid else State_Monad.return False);
             sha256 \<leftarrow> sha256_open_file M (mi_file im) SHA256_MAX_LEN;
             same_file \<leftarrow> look M (\<lambda>v. map_option image_key_of (v_exe_stat v pid) = Some (mi_key im));
             if \<not> same_file then State_Monad.return None
             else do {
               same_link \<leftarrow> look M (\<lambda>v. v_exe_link v pid = Some (mi_path im));
               State_Monad.return (if same_link then Some (mi_path im, sha256, unlinked) else None) } })
    (finished M pid im s) ?s2"
    if key: "image_key_of m = mi_key im" and names: "path_names_image (mc_view M (Suc ?n)) (mi_path im) (mi_key im)"
    unfolding wp_bind [of "if fm_nlink m = 0 then mounted_in M (mi_file im) pid else State_Monad.return False"]
  proof (rule wp_mono [OF unlinked_own])
    fix unlinked s3
    assume s3: "moves M ?s2 s3 \<and> (unlinked \<longrightarrow> fm_nlink m = 0 \<and> on_own_mount M (mi_file im) pid (as_step ?s2))"
    then have m3: "moves M s s3" by (auto intro: moves_steps)
    have lt: "?n < as_step s3" using s3 moves_le [of M ?s2 s3] by simp
    show "wp (do {
             sha256 \<leftarrow> sha256_open_file M (mi_file im) SHA256_MAX_LEN;
             same_file \<leftarrow> look M (\<lambda>v. map_option image_key_of (v_exe_stat v pid) = Some (mi_key im));
             if \<not> same_file then State_Monad.return None
             else do {
               same_link \<leftarrow> look M (\<lambda>v. v_exe_link v pid = Some (mi_path im));
               State_Monad.return (if same_link then Some (mi_path im, sha256, unlinked) else None) } })
       (finished M pid im s) s3"
      unfolding wp_bind [of "sha256_open_file M (mi_file im) SHA256_MAX_LEN"]
      by (rule wp_mono [OF sha256_open_file_digests], rule finished_last [OF _ m3 lt Some key]) (use s3 names in simp_all)
  qed
  then show ?thesis
    by (simp add: image_finish_def wp_bind [of "look M f" for f] wp_look wp_return Some finished_def moves_to)
qed (simp add: image_finish_def wp_simps finished_def)

section \<open>The whole identity\<close>

text \<open>The image behind the identity: opened at \<open>t\<close>, confirmed from \<open>u\<close>, and the pid had the
  caller's start time at \<open>v\<close>.  The suffix of a deleted file is dropped only where \<open>own\<close> holds: no
  link left, a mount of the process's own namespace, and the daemon's user namespace.\<close>

definition identifies ::
  "machine \<Rightarrow> u32 \<Rightarrow> u64 option \<Rightarrow> attr_state \<Rightarrow> string \<Rightarrow> string option \<Rightarrow> bool \<Rightarrow> attr_state \<Rightarrow> bool" where
  "identifies M pid starttime s exe sha own s' \<longleftrightarrow>
     (\<exists>im t u u' unlinked v. as_step s \<le> t \<and> Suc (Suc (Suc t)) < u \<and> u < u' \<and> Suc u' < v \<and> v < as_step s' \<and>
        opened M pid t im \<and> confirmed M pid u u' im unlinked \<and> start_at (mc_view M v) pid = starttime \<and>
        exe = mi_path im \<and>
        (own \<longrightarrow> unlinked \<and> (\<exists>w < v. v_user_ns (mc_view M w) pid = v_own_user_ns (mc_view M (Suc w)))) \<and>
        (\<forall>d. sha = Some d \<longrightarrow> digests_ok M s \<longrightarrow>
           (\<exists>w m. u < w \<and> w < v \<and> v_file_meta (mc_view M w) (mi_file im) = Some m \<and>
              digest_seen M (as_step s') (image_key_of m) d)))"

lemma own_namespace:
  "wp (if unlinked then in_our_user_namespace M pid else State_Monad.return False)
     (\<lambda>x s'. moves M s s' \<and> (x \<longrightarrow> unlinked \<and> Suc (as_step s) < as_step s' \<and>
        v_user_ns (mc_view M (as_step s)) pid = v_own_user_ns (mc_view M (Suc (as_step s))))) s"
  by (simp add: in_our_user_namespace_def wp_simps moves_to)

lemma read_image_identifies:
  assumes im: "\<And>i. im = Some i \<Longrightarrow> opened M pid t i \<and> t + 3 < as_step s" and t: "as_step s0 \<le> t" and m0: "moves M s0 s"
  shows "wp (read_image M pid starttime im)
    (\<lambda>x s'. moves M s0 s' \<and> (\<forall>exe sha own. x = Some (exe, sha, own) \<longrightarrow> identifies M pid starttime s0 exe sha own s')) s"
proof (cases im)
  case (Some i)
  have last: "wp (do {
              own \<leftarrow> (if unlinked then in_our_user_namespace M pid else State_Monad.return False);
              again \<leftarrow> read_starttime M pid;
              State_Monad.return (if again = starttime then Some (exe, sha, own) else None) })
     (\<lambda>x s'. moves M s0 s' \<and> (\<forall>exe sha own. x = Some (exe, sha, own) \<longrightarrow> identifies M pid starttime s0 exe sha own s')) s2"
    if fin: "finished M pid i s (Some (exe, sha, unlinked)) s2" for exe sha unlinked s2
    unfolding wp_bind [of "if unlinked then in_our_user_namespace M pid else State_Monad.return False"]
  proof (rule wp_mono [OF own_namespace])
    fix own s3
    assume own: "moves M s2 s3 \<and> (own \<longrightarrow> unlinked \<and> Suc (as_step s2) < as_step s3 \<and>
        v_user_ns (mc_view M (as_step s2)) pid = v_own_user_ns (mc_view M (Suc (as_step s2))))"
    have m2: "moves M s s2" using fin by (simp add: finished_def)
    have m3: "moves M s0 (s3\<lparr>as_step := Suc (as_step s3)\<rparr>)"
      using moves_trans [OF m0 moves_trans [OF m2]] own moves_then_steps by simp
    obtain u' where u': "as_step s < u'" "Suc u' < as_step s2" "confirmed M pid (as_step s) u' i unlinked" and exe: "exe = mi_path i"
      using fin unfolding finished_def by blast
    have le: "as_step s2 \<le> as_step s3" using own moves_le by blast
    have digest: "\<exists>w m. as_step s < w \<and> w < as_step s3 \<and> v_file_meta (mc_view M w) (mi_file i) = Some m \<and>
              digest_seen M (Suc (as_step s3)) (image_key_of m) d" if sd: "sha = Some d" "digests_ok M s0" for d
    proof -
      have "digests_ok M s" using sd(2) m0 by (simp add: moves_def)
      then obtain w m where "as_step s < w" "w < as_step s2" "v_file_meta (mc_view M w) (mi_file i) = Some m"
          "digest_seen M (as_step s2) (image_key_of m) d"
        using fin sd(1) unfolding finished_def by blast
      with le digest_seen_mono [of M "as_step s2" _ d "Suc (as_step s3)"] show ?thesis
        by (intro exI [of _ w] exI [of _ m]) simp
    qed
    have ns: "own \<longrightarrow> unlinked \<and> (\<exists>w < as_step s3. v_user_ns (mc_view M w) pid = v_own_user_ns (mc_view M (Suc w)))"
      using own by (intro impI conjI exI [of _ "as_step s2"]) auto
    have before: "Suc (Suc (Suc t)) < as_step s" "Suc u' < as_step s3" using im [OF Some] u'(2) le by simp_all
    have "identifies M pid starttime s0 exe sha own (s3\<lparr>as_step := Suc (as_step s3)\<rparr>)"
      if start: "start_at (mc_view M (as_step s3)) pid = starttime"
      unfolding identifies_def
      by (rule exI [of _ i], rule exI [of _ t], rule exI [of _ "as_step s"], rule exI [of _ u'], rule exI [of _ unlinked],
          rule exI [of _ "as_step s3"], intro conjI)
        (use start im [OF Some] t u' exe before ns digest in simp_all)
    then show "wp (do { again \<leftarrow> read_starttime M pid;
              State_Monad.return (if again = starttime then Some (exe, sha, own) else None) })
     (\<lambda>x s'. moves M s0 s' \<and> (\<forall>exe sha own. x = Some (exe, sha, own) \<longrightarrow> identifies M pid starttime s0 exe sha own s')) s3"
      using m3 by (simp add: wp_simps)
  qed
  have "wp (image_finish M pid i) (\<lambda>done. wp (case done of None \<Rightarrow> State_Monad.return None
          | Some (exe, sha256, unlinked) \<Rightarrow> do {
              own \<leftarrow> (if unlinked then in_our_user_namespace M pid else State_Monad.return False);
              again \<leftarrow> read_starttime M pid;
              State_Monad.return (if again = starttime then Some (exe, sha256, own) else None) })
     (\<lambda>x s'. moves M s0 s' \<and> (\<forall>exe sha own. x = Some (exe, sha, own) \<longrightarrow> identifies M pid starttime s0 exe sha own s'))) s"
  proof (rule wp_mono [OF image_finish_finished])
    fix fin s2 assume fin: "finished M pid i s fin s2"
    then have "moves M s0 s2" using moves_trans [OF m0] by (simp add: finished_def)
    with fin last show "wp (case fin of None \<Rightarrow> State_Monad.return None
          | Some (exe, sha256, unlinked) \<Rightarrow> do {
              own \<leftarrow> (if unlinked then in_our_user_namespace M pid else State_Monad.return False);
              again \<leftarrow> read_starttime M pid;
              State_Monad.return (if again = starttime then Some (exe, sha256, own) else None) })
     (\<lambda>x s'. moves M s0 s' \<and> (\<forall>exe sha own. x = Some (exe, sha, own) \<longrightarrow> identifies M pid starttime s0 exe sha own s')) s2"
      by (cases fin) (auto simp: wp_return)
  qed
  then show ?thesis by (simp add: read_image_def Some wp_bind)
qed (use m0 in \<open>simp add: read_image_def wp_simps\<close>)

lemma get_kernel_proc_moves: "wp (get_kernel_proc pid st t) (\<lambda>_ s'. moves M s s') s"
proof -
  obtain kern T where get: "get_proc pid st t (as_procs s) = (kern, T)" by fastforce
  then have "table_ok T" if "table_ok (as_procs s)" using table_ok_step [OF that, of "TGet pid st t"] by simp
  then have "moves M s (s\<lparr>as_procs := T\<rparr>)" by (intro movesI) (simp_all add: attr_ok_def)
  then show ?thesis by (simp add: get_kernel_proc_def wp_simps get)
qed

lemma read_ids_moves: "wp (read_ids M pid alive kern) (\<lambda>_ s'. moves M s s') s"
  by (simp add: read_ids_def wp_simps moves_to split: option.split)

lemma read_args_moves:
  "wp (if alive then read_cmdline M pid else State_Monad.return []) (\<lambda>_ s'. moves M s s') s"
  "wp (if alive then look M (\<lambda>v. v_cwd v pid) else State_Monad.return None) (\<lambda>_ s'. moves M s s') s"
  by (simp_all add: read_cmdline_def wp_simps)

text \<open>What a resolved process says of its program.\<close>

definition identified ::
  "machine \<Rightarrow> (string \<Rightarrow> bool) \<Rightarrow> u32 \<Rightarrow> u64 option \<Rightarrow> attr_state \<Rightarrow> process option \<Rightarrow> attr_state \<Rightarrow> bool" where
  "identified M utf8 pid starttime s x s' \<longleftrightarrow> moves M s s' \<and>
     (\<forall>p. x = Some p \<longrightarrow> p_pid p = pid \<and> (exe_is_known p \<longrightarrow>
        (\<exists>exe own. p_exe p = policy_exe_path utf8 exe own \<and> identifies M pid starttime s exe (p_sha256 p) own s')))"

lemma policy_unknown [simp]: "policy_exe_path utf8 UNKNOWN_EXE False = UNKNOWN_EXE"
  by (simp add: policy_exe_path_def)

lemma identifies_from:
  assumes "identifies M pid st s1 exe sha own s'" "moves M s s1"
  shows "identifies M pid st s exe sha own s'"
proof -
  from assms(1) obtain im t u u' unlinked v where *: "as_step s1 \<le> t" "Suc (Suc (Suc t)) < u" "u < u'" "Suc u' < v" "v < as_step s'"
    "opened M pid t im" "confirmed M pid u u' im unlinked" "start_at (mc_view M v) pid = st" "exe = mi_path im"
    "own \<longrightarrow> unlinked \<and> (\<exists>w < v. v_user_ns (mc_view M w) pid = v_own_user_ns (mc_view M (Suc w)))"
    "\<forall>d. sha = Some d \<longrightarrow> digests_ok M s1 \<longrightarrow>
           (\<exists>w m. u < w \<and> w < v \<and> v_file_meta (mc_view M w) (mi_file im) = Some m \<and>
              digest_seen M (as_step s') (image_key_of m) d)"
    unfolding identifies_def by blast
  have ok: "digests_ok M s \<longrightarrow> digests_ok M s1" using assms(2) by (simp add: moves_def)
  have "as_step s \<le> t" using moves_le [OF assms(2)] *(1) by simp
  then show ?thesis
    unfolding identifies_def
    by (rule_tac exI [of _ im], rule_tac exI [of _ t], rule_tac exI [of _ u], rule_tac exI [of _ u'],
        rule_tac exI [of _ unlinked], rule_tac exI [of _ v], intro conjI) (use * ok in \<open>simp_all\<close>)
qed

lemma identified_from:
  assumes "identified M utf8 pid st s1 x s'" "moves M s s1"
  shows "identified M utf8 pid st s x s'"
  using assms identifies_from [OF _ assms(2)] moves_trans [OF assms(2)] unfolding identified_def by blast

lemma process_of_identity:
  "p_pid (process_of utf8 describe pid ids cmdline cwd img) = pid"
  "\<not> exe_is_known (process_of utf8 describe pid ids cmdline cwd None)"
  "p_exe (process_of utf8 describe pid ids cmdline cwd (Some (exe, sha, own))) = policy_exe_path utf8 exe own"
  "p_sha256 (process_of utf8 describe pid ids cmdline cwd (Some (exe, sha, own))) = sha"
  by (simp_all add: process_of_def Let_def exe_is_known_def split: prod.split)

lemma identified_process:
  assumes "moves M s s'"
    "\<forall>exe sha own. img = Some (exe, sha, own) \<longrightarrow> identifies M pid starttime s exe sha own s'"
  shows "identified M utf8 pid starttime s (Some (process_of utf8 describe pid ids cmdline cwd img)) s'"
proof (cases img)
  case (Some i)
  obtain exe sha own where i: "i = (exe, sha, own)" by (cases i)
  have "identifies M pid starttime s exe sha own s'" using assms(2) Some i by blast
  with assms(1) show ?thesis
    unfolding identified_def Some i by (auto simp: process_of_identity)
qed (use assms(1) in \<open>auto simp: identified_def process_of_identity\<close>)

lemma resolve_rest_identified:
  assumes m: "moves M s s2"
  shows "wp (do {
       im \<leftarrow> image_open M pid;
       cmdline \<leftarrow> (if alive then read_cmdline M pid else State_Monad.return []);
       cwd \<leftarrow> (if alive then look M (\<lambda>v. v_cwd v pid) else State_Monad.return None);
       ids \<leftarrow> read_ids M pid alive kern;
       img \<leftarrow> read_image M pid starttime im;
       State_Monad.return (Some (process_of utf8 describe pid ids cmdline cwd img)) })
    (identified M utf8 pid starttime s) s2"
  unfolding wp_bind
proof (rule wp_mono [OF image_open_opened], rule wp_mono [OF read_args_moves(1)], rule wp_mono [OF read_args_moves(2)],
    rule wp_mono [OF read_ids_moves], rule wp_mono [OF read_image_identifies])
  fix im s3 cmdline s4 cwd s5 ids s6
  assume s3: "moves M s2 s3 \<and> (\<forall>i. im = Some i \<longrightarrow> opened M pid (as_step s2) i \<and> as_step s3 = as_step s2 + 4)"
    and s456: "moves M s3 s4" "moves M s4 s5" "moves M s5 s6"
  show "moves M s s6" using m s3 s456 moves_trans by blast
  show "as_step s \<le> as_step s2" using m by (rule moves_le)
  have "as_step s3 \<le> as_step s6" using s456 moves_trans moves_le by blast
  with s3 show "im = Some i \<Longrightarrow> opened M pid (as_step s2) i \<and> as_step s2 + 3 < as_step s6" for i by force
next
  fix ids img s'
  assume "moves M s s' \<and> (\<forall>exe sha own. img = Some (exe, sha, own) \<longrightarrow> identifies M pid starttime s exe sha own s')"
  then show "wp (State_Monad.return (Some (process_of utf8 describe pid ids cmdline cwd img)))
      (identified M utf8 pid starttime s) s'" for cmdline cwd
    unfolding wp_return using identified_process by blast
qed

lemma resolve_inner_identified:
  "wp (resolve_inner M utf8 describe pid starttime t) (identified M utf8 pid starttime s) s"
  unfolding resolve_inner_def wp_bind [of "get_kernel_proc pid starttime t"]
proof (rule wp_mono [OF get_kernel_proc_moves])
  fix kern s1 assume m: "moves M s s1"
  have m2: "moves M s (s1\<lparr>as_step := Suc (as_step s1)\<rparr>)" by (rule moves_then_steps [OF m]) simp
  from m2 have "identified M utf8 pid starttime s None (s1\<lparr>as_step := Suc (as_step s1)\<rparr>)" by (simp add: identified_def)
  with resolve_rest_identified [OF m2]
  show "wp (do {
     alive \<leftarrow> look M (\<lambda>v. v_proc v pid);
     if \<not> alive \<and> kern = None then State_Monad.return None
     else do {
       im \<leftarrow> image_open M pid;
       cmdline \<leftarrow> (if alive then read_cmdline M pid else State_Monad.return []);
       cwd \<leftarrow> (if alive then look M (\<lambda>v. v_cwd v pid) else State_Monad.return None);
       ids \<leftarrow> read_ids M pid alive kern;
       img \<leftarrow> read_image M pid starttime im;
       State_Monad.return (Some (process_of utf8 describe pid ids cmdline cwd img)) } })
    (identified M utf8 pid starttime s) s1"
    unfolding wp_bind [of "look M (\<lambda>v. v_proc v pid)"] wp_look wp_if wp_return by simp
qed

text \<open>The identity \<open>resolve\<close> answers for the holder \<open>w\<close> of a socket, unless it answers that it does
  not know: after the image was identified, the descriptor's link still read as the socket, and then
  the pid still had its start time.\<close>

definition published ::
  "machine \<Rightarrow> (string \<Rightarrow> bool) \<Rightarrow> socket_holder \<Rightarrow> attr_state \<Rightarrow> process \<Rightarrow> attr_state \<Rightarrow> bool" where
  "published M utf8 w s p s' \<longleftrightarrow> moves M s s' \<and> p_pid p = so_pid w \<and>
     (exe_is_known p \<longrightarrow>
        start_at (mc_view M (as_step s)) (so_pid w) = Some (so_starttime w) \<and>
        (\<exists>exe own s2. identifies M (so_pid w) (Some (so_starttime w)) s exe (p_sha256 p) own s2 \<and>
           p_exe p = policy_exe_path utf8 exe own \<and>
           v_fd_link (mc_view M (as_step s2)) (so_pid w) (so_fd w) = Some (socket_text (so_inode w)) \<and>
           start_at (mc_view M (Suc (as_step s2))) (so_pid w) = Some (so_starttime w) \<and>
           as_step s' = Suc (Suc (as_step s2))))"

lemma published_unknown: "published M utf8 w s (unknown_process (so_pid w)) s' \<longleftrightarrow> moves M s s'"
  by (auto simp: published_def) (simp add: unknown_process_def)

lemma published_or_unknown:
  assumes "identified M utf8 (so_pid w) (Some (so_starttime w)) s p s2"
    "start_at (mc_view M (as_step s)) (so_pid w) = Some (so_starttime w)"
    "v_fd_link (mc_view M (as_step s2)) (so_pid w) (so_fd w) = Some (socket_text (so_inode w))"
    "start_at (mc_view M (Suc (as_step s2))) (so_pid w) = Some (so_starttime w)"
  shows "published M utf8 w s (or_unknown (so_pid w) p) (s2\<lparr>as_step := Suc (Suc (as_step s2))\<rparr>)"
proof (cases p)
  case (Some q)
  have "moves M s (s2\<lparr>as_step := Suc (Suc (as_step s2))\<rparr>)"
    using assms(1) moves_then_steps by (simp add: identified_def)
  with assms Some show ?thesis
    unfolding published_def or_unknown_def identified_def by simp blast
qed (use assms(1) in \<open>simp add: or_unknown_def published_unknown identified_def moves_then_steps\<close>)

lemma owner_resolve_published:
  "wp (owner_resolve M utf8 describe w) (published M utf8 w s) s"
proof -
  let ?s = "s\<lparr>as_step := Suc (Suc (as_step s))\<rparr>"
  have "wp (do {
       p \<leftarrow> resolve_inner M utf8 describe (so_pid w) (Some (so_starttime w)) t;
       points \<leftarrow> fd_points_at_socket M (so_pid w) (so_fd w) (so_inode w);
       if \<not> points then State_Monad.return (unknown_process (so_pid w))
       else do {
         again \<leftarrow> read_starttime M (so_pid w);
         State_Monad.return
           (if again = Some (so_starttime w) then or_unknown (so_pid w) p else unknown_process (so_pid w)) } })
     (published M utf8 w s) ?s"
    if start: "start_at (mc_view M (as_step s)) (so_pid w) = Some (so_starttime w)" for t
    unfolding wp_bind [of "resolve_inner M utf8 describe (so_pid w) (Some (so_starttime w)) t"]
  proof (rule wp_mono [OF resolve_inner_identified])
    fix p s2 assume p: "identified M utf8 (so_pid w) (Some (so_starttime w)) ?s p s2"
    have p': "identified M utf8 (so_pid w) (Some (so_starttime w)) s p s2"
      by (rule identified_from [OF p]) (simp add: moves_to)
    then have "moves M s (s2\<lparr>as_step := n\<rparr>)" if "as_step s2 \<le> n" for n
      using that by (simp add: identified_def moves_then_steps)
    with published_or_unknown [OF p' start]
    show "wp (do {
       points \<leftarrow> fd_points_at_socket M (so_pid w) (so_fd w) (so_inode w);
       if \<not> points then State_Monad.return (unknown_process (so_pid w))
       else do {
         again \<leftarrow> read_starttime M (so_pid w);
         State_Monad.return
           (if again = Some (so_starttime w) then or_unknown (so_pid w) p else unknown_process (so_pid w)) } })
     (published M utf8 w s) s2"
      by (simp add: wp_simps published_unknown split: option.split)
  qed
  then show ?thesis
    by (simp add: owner_resolve_def wp_bind [of "look M f" for f] wp_look wp_return attr_reads published_unknown moves_to)
qed

text \<open>C22: An identity published for a flow is that of the program mapped by the process that held the
  socket, whatever the machine does between two reads: within the call the pid had the holder's
  start time; then the file behind \<open>/proc/<pid>/exe\<close> was opened, was regular, and the link led to
  the very file that was opened; then it was unchanged, and its path did not lead to another file;
  then the pid had the same start time; then the descriptor still was the socket; then the start
  time was the same again.  The path rules see is that link's, its \<open>(deleted)\<close> suffix dropped only for
  a file without links on a mount of the process's own and in the daemon's user namespace.  A digest
  is the hash of the whole of a file of exactly the device, inode, length and times that the opened
  file had in between.  Anything else is published as an unknown process.\<close>

theorem published_identity_is_the_mapped_image:
  assumes "run_state (owner_resolve M utf8 describe w) s = (p, s')" "exe_is_known p"
  shows "p_pid p = so_pid w \<and>
    start_at (mc_view M (as_step s)) (so_pid w) = Some (so_starttime w) \<and>
    (\<exists>im own t u u' unlinked v v'. as_step s \<le> t \<and> t + 3 < u \<and> u < u' \<and> u' + 1 < v \<and> v < v' \<and> v' + 2 = as_step s' \<and>
       opened M (so_pid w) t im \<and> confirmed M (so_pid w) u u' im unlinked \<and>
       start_at (mc_view M v) (so_pid w) = Some (so_starttime w) \<and>
       v_fd_link (mc_view M v') (so_pid w) (so_fd w) = Some (socket_text (so_inode w)) \<and>
       start_at (mc_view M (v' + 1)) (so_pid w) = Some (so_starttime w) \<and>
       p_exe p = policy_exe_path utf8 (mi_path im) own \<and>
       (own \<longrightarrow> unlinked \<and> (\<exists>x < v. v_user_ns (mc_view M x) (so_pid w) = v_own_user_ns (mc_view M (x + 1)))) \<and>
       (\<forall>d. p_sha256 p = Some d \<longrightarrow> digests_ok M s \<longrightarrow>
          (\<exists>x m. u < x \<and> x < v \<and> v_file_meta (mc_view M x) (mi_file im) = Some m \<and>
             digest_seen M v' (image_key_of m) d)))"
proof -
  have pub: "published M utf8 w s p s'" by (rule wp_run [OF assms(1) owner_resolve_published])
  with assms(2) obtain exe own s2 where
    id: "identifies M (so_pid w) (Some (so_starttime w)) s exe (p_sha256 p) own s2" and
    p: "p_exe p = policy_exe_path utf8 exe own" and
    after: "v_fd_link (mc_view M (as_step s2)) (so_pid w) (so_fd w) = Some (socket_text (so_inode w))"
      "start_at (mc_view M (Suc (as_step s2))) (so_pid w) = Some (so_starttime w)" "as_step s' = Suc (Suc (as_step s2))"
    unfolding published_def by blast
  from id obtain im t u u' unlinked v where
    "as_step s \<le> t" "Suc (Suc (Suc t)) < u" "u < u'" "Suc u' < v" "v < as_step s2"
    "opened M (so_pid w) t im" "confirmed M (so_pid w) u u' im unlinked"
    "start_at (mc_view M v) (so_pid w) = Some (so_starttime w)" "exe = mi_path im"
    "own \<longrightarrow> unlinked \<and> (\<exists>x < v. v_user_ns (mc_view M x) (so_pid w) = v_own_user_ns (mc_view M (Suc x)))"
    "\<forall>d. p_sha256 p = Some d \<longrightarrow> digests_ok M s \<longrightarrow>
       (\<exists>x m. u < x \<and> x < v \<and> v_file_meta (mc_view M x) (mi_file im) = Some m \<and>
          digest_seen M (as_step s2) (image_key_of m) d)"
    unfolding identifies_def by blast
  note seen = this
  have "p_pid p = so_pid w" "start_at (mc_view M (as_step s)) (so_pid w) = Some (so_starttime w)"
    using pub assms(2) unfolding published_def by blast+
  then show ?thesis
    by (rule conjI [OF _ conjI], rule_tac exI [of _ im], rule_tac exI [of _ own],
        rule_tac exI [of _ t], rule_tac exI [of _ u], rule_tac exI [of _ u'], rule_tac exI [of _ unlinked],
        rule_tac exI [of _ v], rule_tac exI [of _ "as_step s2"], intro conjI)
      (use seen p after in \<open>simp_all\<close>)
qed

lemma example_file [simp]:
  "v_file_read example_view 0 pos = Some (if pos = 0 then [1, 2] else [])" "v_file_meta example_view 0 = Some example_meta"
  "v_exe_open example_view 7 = Some 0" "v_exe_link example_view 7 = Some ''/a''" "v_exe_stat example_view 7 = Some example_meta"
  "v_path_meta example_view ''/a'' = Some example_meta" "v_proc example_view 7" "v_cmdline example_view pid = None"
  "v_cwd example_view pid = None" "v_ppid example_view 7 = Some 1" "v_ids example_view 7 = Some (1000, 1000)"
  "v_system_now example_view = 0" "start_at example_view 7 = Some 4711" "v_fd_link example_view 7 3 = Some (socket_text 31337)"
  "mc_sha256 example_machine bs = bs"
  by (simp_all add: example_view_def start_at_def example_start example_machine_def)

lemma example_contents:
  "wp (read_file example_machine 0 SHA256_MAX_LEN []) Q s \<longleftrightarrow> Q (Some [1, 2]) (s\<lparr>as_step := Suc (Suc (as_step s))\<rparr>)"
  by (subst read_file.simps, simp add: wp_simps SHA256_MAX_LEN_def, subst read_file.simps, simp add: wp_simps)

lemma example_stats [simp]:
  "fm_is_file example_meta" "fm_len example_meta = 2" "fm_nlink example_meta = 1" "\<not> settled example_meta 0"
  by (simp_all add: example_meta_def settled_def)

lemma no_digests [simp]: "ttl_get k t (as_digests new_attr_state) = (None, as_digests new_attr_state)"
  by (simp add: ttl_get_def new_attr_state_def new_ttl_cache_def)

lemma example_hex: "hex_lower [1, 2] = ''0102''"
  by (simp add: hex_lower_def hex_bytes_def hex_byte_def hex_char_def to_ascii_lowercase_def lower_char_def char_of_def bit_0 bit_Suc)

lemma example_digest:
  assumes "as_digests s = as_digests new_attr_state"
  shows "wp (sha256_open_file example_machine 0 SHA256_MAX_LEN) (\<lambda>x _. x = Some ''0102'') s"
  using assms by (simp add: sha256_open_file_def hash_file_def digest_get_def wp_bind wp_look wp_return now_def
    wp_get wp_set example_contents SHA256_MAX_LEN_def [THEN arg_cong, of "\<lambda>n. n < 2"] example_hex)

lemma example_finish:
  "wp (image_finish example_machine 7 \<lparr>mi_file = 0, mi_path = ''/a'', mi_key = image_key_of example_meta\<rparr>)
     (\<lambda>x _. x = Some (''/a'', Some ''0102'', False)) s" if "as_digests s = as_digests new_attr_state"
proof -
  have "path_names_image example_view ''/a'' (image_key_of example_meta)"
    by (simp add: path_names_image_def image_key_of_def)
  then show ?thesis
    by (simp add: image_finish_def wp_bind wp_look wp_return)
      (rule wp_mono [OF example_digest], simp_all add: that wp_bind wp_look wp_return)
qed

lemma example_identity:
  "wp (owner_resolve example_machine (\<lambda>_. True) (\<lambda>_ _. (None, ProvUnknown)) example_owner)
     (\<lambda>p _. p_exe p = ''/a'' \<and> p_sha256 p = Some ''0102'') new_attr_state"
proof -
  have "wp (read_image example_machine 7 (Some 4711) (Some \<lparr>mi_file = 0, mi_path = ''/a'', mi_key = image_key_of example_meta\<rparr>))
     (\<lambda>x _. x = Some (''/a'', Some ''0102'', False)) s" if "as_digests s = as_digests new_attr_state" for s
    by (simp add: read_image_def wp_bind) (rule wp_mono [OF example_finish [OF that]], simp add: wp_simps)
  note image = wp_mono [OF this]
  have kern: "get_proc 7 (Some 4711) 0 (as_procs new_attr_state) = (None, as_procs new_attr_state)"
    by (simp add: get_proc_def new_attr_state_def new_table_def)
  show ?thesis
    by (simp add: owner_resolve_def resolve_inner_def get_kernel_proc_def wp_bind wp_look wp_return attr_reads wp_get wp_set
        example_owner_def image_open_def read_cmdline_def read_ids_def kern Let_def)
      (rule image, simp_all add: wp_bind wp_look wp_return attr_reads or_unknown_def process_of_def policy_exe_path_def UNKNOWN_EXE_def)
qed

theorem published_identity_is_the_mapped_image_witness:
  "\<exists>p s'. run_state (owner_resolve example_machine (\<lambda>_. True) (\<lambda>_ _. (None, ProvUnknown)) example_owner) new_attr_state = (p, s') \<and>
     p_pid p = 7 \<and> p_exe p = ''/a'' \<and> p_sha256 p = Some ''0102'' \<and> start_at example_view 7 = Some 4711"
proof -
  obtain p s' where run: "run_state (owner_resolve example_machine (\<lambda>_. True) (\<lambda>_ _. (None, ProvUnknown)) example_owner)
      new_attr_state = (p, s')" and p: "p_exe p = ''/a''" "p_sha256 p = Some ''0102''"
    using example_identity by (auto simp: wp_def split: prod.splits)
  have "exe_is_known p" using p by (simp add: exe_is_known_def UNKNOWN_EXE_def)
  from published_identity_is_the_mapped_image [OF run this] p run show ?thesis
    by (simp add: example_owner_def)
qed

end
