(* ===== verification/Official.thy ===== *)
theory Official
  imports Identity Authority ExePath "HOL-Library.Sublist"
begin

text \<open>
  \<open>crates/cfc-daemon/src/official.rs\<close>: whether the process on a control connection is the installed
  app or tray.  It reads the machine of \<open>Machine\<close>, one instant after the other.  The texts of refusals
  are constructors with what the text names.
\<close>

datatype official_error = UnknownPid | Unidentified | GoneOrReused | PrivateNamespace string | StatusUnreadable
  | Traced | NoTracerField | SeccompFilter | OtherEffectiveUid | EntryUnreadable | NotSealedAtStart | ExeUnreadable
  | ImageReplaced string string | NotInstalled string | NoClientEnd io_error | FdsUnreadable | NotHeldByCaller
  | MapUnreadable | LoadedUnsealed string

definition DEFAULT_CLIENTS :: "string list" where
  "DEFAULT_CLIENTS = [''/usr/bin/colony-firewall'', ''/usr/bin/colony-firewall-tray'']"

text \<open>The level the warning shows; \<open>parse::<u8>\<close> of the trimmed text.\<close>

definition parse_u8 :: "string \<Rightarrow> u8 option" where
  "parse_u8 s = (case parse_u64 s of None \<Rightarrow> None | Some n \<Rightarrow> if n \<le> 0xFF then Some (ucast n) else None)"

definition ptrace_scope_warning :: "string option \<Rightarrow> u8 option option" where
  "ptrace_scope_warning scope =
     (let level = (case scope of None \<Rightarrow> None | Some s \<Rightarrow> parse_u8 (trim s)) in
      if \<exists>l. level = Some l \<and> 2 \<le> l then None else Some level)"

section \<open>Steps that may refuse or panic\<close>

type_synonym 'a judged = "(official_error + 'a) run attr"

definition accept :: "'a \<Rightarrow> 'a judged" where "accept x = State_Monad.return (Ret (Inr x))"
definition refuse :: "official_error \<Rightarrow> 'a judged" where "refuse e = State_Monad.return (Ret (Inl e))"

definition and_then :: "'a judged \<Rightarrow> ('a \<Rightarrow> 'b judged) \<Rightarrow> 'b judged" where
  "and_then m f = do {
     r \<leftarrow> m;
     case r of
       Panic \<Rightarrow> State_Monad.return Panic
     | Ret (Inl e) \<Rightarrow> refuse e
     | Ret (Inr x) \<Rightarrow> f x }"

section \<open>The status file\<close>

definition status_is_clean :: "string \<Rightarrow> u32 \<Rightarrow> official_error + unit" where
  "status_is_clean status uid =
     (let field = (\<lambda>name. map_option split_whitespace (field_line name (str_lines status)));
          tracer = (case field ''TracerPid:'' of Some (v # _) \<Rightarrow> parse_u32 v | _ \<Rightarrow> None);
          seccomp = (case field ''Seccomp:'' of Some (mode # _) \<Rightarrow> mode \<noteq> ''0'' | _ \<Rightarrow> False);
          effective = (case field ''Uid:'' of Some (_ # v # _) \<Rightarrow> parse_u32 v | _ \<Rightarrow> None) in
      if tracer = None then Inl NoTracerField
      else if tracer \<noteq> Some 0 then Inl Traced
      else if seccomp then Inl SeccompFilter
      else if effective \<noteq> Some uid then Inl OtherEffectiveUid
      else Inr ())"

section \<open>Sealed files\<close>

definition file_sealed :: "file_meta \<Rightarrow> bool" where
  "file_sealed m \<longleftrightarrow> file_is_sealed (fm_uid m) (fm_mode m)"

fun sealed_dirs :: "machine \<Rightarrow> path_component list list \<Rightarrow> bool attr" where
  "sealed_dirs M [] = State_Monad.return True"
| "sealed_dirs M (d # ds) = do {
     m \<leftarrow> look M (\<lambda>v. v_path_lmeta v d);
     case m of
       None \<Rightarrow> State_Monad.return False
     | Some m \<Rightarrow> if \<not> fm_is_dir m \<or> \<not> file_sealed m then State_Monad.return False else sealed_dirs M ds }"

definition sealed_identity :: "machine \<Rightarrow> string \<Rightarrow> (u64 \<times> u64) option attr" where
  "sealed_identity M path =
     (if \<not> is_absolute path then State_Monad.return None
      else do {
        m \<leftarrow> look M (\<lambda>v. v_path_lmeta v (path_components path));
        case m of
          None \<Rightarrow> State_Monad.return None
        | Some m \<Rightarrow>
            if \<not> fm_is_file m \<or> \<not> file_sealed m then State_Monad.return None
            else do {
              dirs \<leftarrow> sealed_dirs M (tl (ancestors (path_components path)));
              State_Monad.return (if dirs then Some (fm_dev m, fm_ino m) else None) } })"

definition sealed_dir :: "machine \<Rightarrow> path_component list \<Rightarrow> bool attr" where
  "sealed_dir M dir = sealed_dirs M (ancestors dir)"

section \<open>The image\<close>

fun find_entry :: "machine \<Rightarrow> u64 \<times> u64 \<Rightarrow> string list \<Rightarrow> string option attr" where
  "find_entry M key [] = State_Monad.return None"
| "find_entry M key (entry # entries) = do {
     i \<leftarrow> sealed_identity M entry;
     if i = Some key then State_Monad.return (Some entry) else find_entry M key entries }"

function trim_end_matches :: "string \<Rightarrow> string \<Rightarrow> string" where
  "trim_end_matches ending s =
     (case strip_suffix ending s of
        None \<Rightarrow> s
      | Some r \<Rightarrow> if ending = [] then s else trim_end_matches ending r)"
  by pat_completeness auto
termination
  by (relation "measure (\<lambda>(ending, s). length s)") (auto simp: strip_suffix_def simp flip: length_greater_0_conv split: if_splits)

declare trim_end_matches.simps [simp del]

definition file_name :: "string \<Rightarrow> string option" where
  "file_name p = (case rev (path_components p) of Normal n # _ \<Rightarrow> Some n | _ \<Rightarrow> None)"

definition image_matches :: "machine \<Rightarrow> u32 \<Rightarrow> string list \<Rightarrow> string judged" where
  "image_matches M pid allowlist = do {
     img \<leftarrow> look M (\<lambda>v. v_exe_stat v pid);
     case img of
       None \<Rightarrow> refuse ExeUnreadable
     | Some img \<Rightarrow> do {
         found \<leftarrow> find_entry M (fm_dev img, fm_ino img) allowlist;
         case found of
           Some entry \<Rightarrow> accept entry
         | None \<Rightarrow> do {
             link \<leftarrow> look M (\<lambda>v. v_exe_link v pid);
             let shown = (case link of None \<Rightarrow> [] | Some p \<Rightarrow> p);
             let name = last (split_slash (trim_end_matches DELETED_SUFFIX shown));
             refuse (case find (\<lambda>entry. file_name entry = Some name) allowlist of
                       Some entry \<Rightarrow> ImageReplaced name entry
                     | None \<Rightarrow> NotInstalled shown) } } }"

section \<open>The connection\<close>

text \<open>The descriptor entries are read one after the other, up to the first that is the wanted one.\<close>

fun any_fd_is :: "machine \<Rightarrow> u32 \<Rightarrow> string \<Rightarrow> string list \<Rightarrow> bool attr" where
  "any_fd_is M pid wanted [] = State_Monad.return False"
| "any_fd_is M pid wanted (name # names) =
     (case parse_u32 name of
        Some n \<Rightarrow>
          if 3 \<le> n then do {
            held \<leftarrow> look M (\<lambda>v. v_fd_link v pid (uint n) = Some wanted);
            if held then State_Monad.return True else any_fd_is M pid wanted names }
          else any_fd_is M pid wanted names
      | None \<Rightarrow> any_fd_is M pid wanted names)"

definition peer_inode :: "machine \<Rightarrow> u64 \<Rightarrow> u64 judged" where
  "peer_inode M sock_ino = do {
     io \<leftarrow> look M v_netlink;
     case unix_peer_inode (mc_endian M) (fst io) sock_ino of
       Panic \<Rightarrow> State_Monad.return Panic
     | Ret (Inl e) \<Rightarrow> refuse (NoClientEnd e)
     | Ret (Inr peer) \<Rightarrow> accept peer }"

definition holds_connection :: "machine \<Rightarrow> u32 \<Rightarrow> u64 \<Rightarrow> unit judged" where
  "holds_connection M pid sock_ino =
     and_then (peer_inode M sock_ino) (\<lambda>peer. do {
       names \<leftarrow> look M (\<lambda>v. v_fd_names v pid);
       case names of
         None \<Rightarrow> refuse FdsUnreadable
       | Some names \<Rightarrow> do {
           held \<leftarrow> any_fd_is M pid (socket_text peer) names;
           if held then accept () else refuse NotHeldByCaller } })"

section \<open>The mappings\<close>

text \<open>\<open>splitn(n, ' ')\<close>.\<close>

fun splitn_space :: "nat \<Rightarrow> string \<Rightarrow> string list" where
  "splitn_space 0 s = []"
| "splitn_space (Suc 0) s = [s]"
| "splitn_space (Suc (Suc n)) s =
     (case split_once CHR '' '' s of None \<Rightarrow> [s] | Some (a, b) \<Rightarrow> a # splitn_space (Suc n) b)"

text \<open>The path and the inode text of a line that maps a file executable.\<close>

definition executable_mapping :: "string \<Rightarrow> (string \<times> string) option" where
  "executable_mapping line =
     (case splitn_space 6 line of
        _ # perms # _ # _ # inode # rest \<Rightarrow>
          let path = trim_start (case rest of [] \<Rightarrow> [] | p # _ \<Rightarrow> p) in
          if CHR ''x'' \<notin> set perms \<or> \<not> is_absolute path then None else Some (path, inode)
      | _ \<Rightarrow> None)"

definition mapping_is_sealed :: "machine \<Rightarrow> string \<Rightarrow> string \<Rightarrow> bool attr" where
  "mapping_is_sealed M path inode =
     (case strip_suffix DELETED_SUFFIX path of
        Some gone \<Rightarrow>
          (case tl (ancestors (path_components gone)) of
             [] \<Rightarrow> State_Monad.return False
           | dir # _ \<Rightarrow> if dir = [RootDir] then State_Monad.return False else sealed_dir M dir)
      | None \<Rightarrow>
          (case parse_u64 inode of
             None \<Rightarrow> State_Monad.return False
           | Some inode \<Rightarrow> do {
               i \<leftarrow> sealed_identity M path;
               State_Monad.return (map_option snd i = Some inode) }))"

text \<open>\<open>seen\<close> holds one verdict for each path.\<close>

fun check_mappings :: "machine \<Rightarrow> (string \<rightharpoonup> bool) \<Rightarrow> string list \<Rightarrow> unit judged" where
  "check_mappings M seen [] = accept ()"
| "check_mappings M seen (line # rest) =
     (case executable_mapping line of
        None \<Rightarrow> check_mappings M seen rest
      | Some (path, inode) \<Rightarrow> do {
          ok \<leftarrow> (case seen path of Some ok \<Rightarrow> State_Monad.return ok | None \<Rightarrow> mapping_is_sealed M path inode);
          if ok then check_mappings M (seen(path \<mapsto> ok)) rest else refuse (LoadedUnsealed path) })"

definition maps_are_sealed :: "machine \<Rightarrow> string \<Rightarrow> unit judged" where
  "maps_are_sealed M maps = check_mappings M Map.empty (str_lines maps)"

section \<open>The whole check\<close>

definition same_namespace :: "machine \<Rightarrow> string \<Rightarrow> (view \<Rightarrow> u32 \<Rightarrow> string option) \<Rightarrow> u32 \<Rightarrow> unit judged" where
  "same_namespace M ns link pid = do {
     theirs \<leftarrow> look M (\<lambda>v. link v pid);
     host \<leftarrow> look M (\<lambda>v. link v 1);
     if theirs \<noteq> None \<and> theirs = host then accept () else refuse (PrivateNamespace ns) }"

definition clean_status :: "machine \<Rightarrow> u32 \<Rightarrow> u32 \<Rightarrow> unit judged" where
  "clean_status M pid uid = do {
     status \<leftarrow> look M (\<lambda>v. v_status v pid);
     case status of
       None \<Rightarrow> refuse StatusUnreadable
     | Some status \<Rightarrow> (case status_is_clean status uid of Inl e \<Rightarrow> refuse e | Inr _ \<Rightarrow> accept ()) }"

definition owned_by_root :: "machine \<Rightarrow> u32 \<Rightarrow> unit judged" where
  "owned_by_root M pid = do {
     owner \<leftarrow> look M (\<lambda>v. v_status_owner v pid);
     case owner of
       None \<Rightarrow> refuse EntryUnreadable
     | Some owner \<Rightarrow> if owner \<noteq> 0 then refuse NotSealedAtStart else accept () }"

definition sealed_maps :: "machine \<Rightarrow> u32 \<Rightarrow> unit judged" where
  "sealed_maps M pid = do {
     maps \<leftarrow> look M (\<lambda>v. v_maps v pid);
     case maps of
       None \<Rightarrow> refuse MapUnreadable
     | Some maps \<Rightarrow> maps_are_sealed M maps }"

definition inspect :: "machine \<Rightarrow> u32 \<Rightarrow> u32 \<Rightarrow> u64 \<Rightarrow> string list \<Rightarrow> string judged" where
  "inspect M pid uid sock_ino allowlist =
     and_then (same_namespace M ''mnt'' v_mnt_ns pid) (\<lambda>_.
     and_then (same_namespace M ''user'' v_user_ns pid) (\<lambda>_.
     and_then (clean_status M pid uid) (\<lambda>_.
     and_then (owned_by_root M pid) (\<lambda>_.
     and_then (image_matches M pid allowlist) (\<lambda>matched.
     and_then (holds_connection M pid sock_ino) (\<lambda>_.
     and_then (sealed_maps M pid) (\<lambda>_. accept matched)))))))"

definition same_start :: "machine \<Rightarrow> u32 \<Rightarrow> u64 \<Rightarrow> unit judged" where
  "same_start M pid expected = do {
     st \<leftarrow> read_starttime M pid;
     if st \<noteq> Some expected then refuse GoneOrReused else accept () }"

definition bracketed :: "machine \<Rightarrow> u32 \<Rightarrow> u64 \<Rightarrow> 'a judged \<Rightarrow> 'a judged" where
  "bracketed M pid expected body =
     and_then (same_start M pid expected) (\<lambda>_.
     and_then body (\<lambda>outcome.
     and_then (same_start M pid expected) (\<lambda>_. accept outcome)))"

definition check_official :: "machine \<Rightarrow> peer \<Rightarrow> string list \<Rightarrow> string judged" where
  "check_official M p allowlist =
     (case peer_pid p of
        None \<Rightarrow> refuse UnknownPid
      | Some pid \<Rightarrow>
          if pid \<le> 0 then refuse UnknownPid
          else (case (peer_starttime p, peer_sock_ino p) of
                  (Some start, Some sock_ino) \<Rightarrow>
                    bracketed M (word_of_int pid) start
                      (inspect M (word_of_int pid) (peer_uid p) sock_ino allowlist)
                | _ \<Rightarrow> refuse Unidentified))"


section \<open>What an accepted client has shown\<close>

text \<open>\<open>passes m Q s\<close>: if \<open>m\<close> accepts from \<open>s\<close>, its result and the state after it satisfy \<open>Q\<close>.\<close>

definition passes :: "'a judged \<Rightarrow> ('a \<Rightarrow> attr_state \<Rightarrow> bool) \<Rightarrow> attr_state \<Rightarrow> bool" where
  "passes m Q s \<longleftrightarrow> wp m (\<lambda>r s'. \<forall>x. r = Ret (Inr x) \<longrightarrow> Q x s') s"

lemma passes_accept [simp]: "passes (accept x) Q s \<longleftrightarrow> Q x s"
  by (simp add: passes_def accept_def wp_return)

lemma passes_refuse [simp]: "passes (refuse e) Q s"
  by (simp add: passes_def refuse_def wp_return)

lemma passes_and_then: "passes (and_then m f) Q s \<longleftrightarrow> passes m (\<lambda>x. passes (f x) Q) s"
proof -
  have "wp (case r of Panic \<Rightarrow> State_Monad.return Panic | Ret (Inl e) \<Rightarrow> refuse e | Ret (Inr x) \<Rightarrow> f x)
      (\<lambda>r s'. \<forall>x. r = Ret (Inr x) \<longrightarrow> Q x s') s' \<longleftrightarrow> (\<forall>x. r = Ret (Inr x) \<longrightarrow> passes (f x) Q s')" for r s'
    by (cases r; cases "case r of Ret x \<Rightarrow> x | Panic \<Rightarrow> undefined") (auto simp: wp_return refuse_def passes_def)
  then have "(\<lambda>r s'. wp (case r of Panic \<Rightarrow> State_Monad.return Panic | Ret (Inl e) \<Rightarrow> refuse e | Ret (Inr x) \<Rightarrow> f x)
      (\<lambda>r s'. \<forall>x. r = Ret (Inr x) \<longrightarrow> Q x s') s') = (\<lambda>r s'. \<forall>x. r = Ret (Inr x) \<longrightarrow> passes (f x) Q s')"
    by (intro ext)
  then show ?thesis unfolding and_then_def passes_def [of m] passes_def [of "State_Monad.bind _ _"] wp_bind by simp
qed

lemma passes_bind: "wp m P s \<Longrightarrow> (\<And>x s'. P x s' \<Longrightarrow> passes (f x) Q s') \<Longrightarrow> passes (State_Monad.bind m f) Q s"
  unfolding passes_def wp_bind by (erule wp_mono) simp

lemma passes_look: "passes (State_Monad.bind (look M g) f) Q s \<longleftrightarrow>
    passes (f (g (mc_view M (as_step s)))) Q (s\<lparr>as_step := Suc (as_step s)\<rparr>)"
  by (simp add: passes_def wp_bind wp_look)

lemma passes_mono: "passes m P s \<Longrightarrow> (\<And>x s'. P x s' \<Longrightarrow> Q x s') \<Longrightarrow> passes m Q s"
  unfolding passes_def by (erule wp_mono) simp

text \<open>Every directory of a list, or a file and every directory above it, was owned by root and not
  writable by group or other at some instant of an interval.\<close>

text \<open>Owned by root, and neither its group nor others may write it.\<close>

definition root_only :: "file_meta \<Rightarrow> bool" where
  "root_only m \<longleftrightarrow> fm_uid m = 0 \<and> fm_mode m AND 0x12 = 0"

lemma file_sealed_iff [simp]: "file_sealed m = root_only m"
  by (simp add: root_only_def file_sealed_def file_is_sealed_def)

definition sealed_within :: "machine \<Rightarrow> nat \<Rightarrow> nat \<Rightarrow> path_component list list \<Rightarrow> bool" where
  "sealed_within M lo hi ds \<longleftrightarrow>
     (\<forall>d \<in> set ds. \<exists>t m. lo \<le> t \<and> t < hi \<and> v_path_lmeta (mc_view M t) d = Some m \<and> fm_is_dir m \<and> root_only m)"

definition sealed_file :: "machine \<Rightarrow> nat \<Rightarrow> nat \<Rightarrow> string \<Rightarrow> u64 \<times> u64 \<Rightarrow> bool" where
  "sealed_file M lo hi path key \<longleftrightarrow> is_absolute path \<and>
     (\<exists>t m. lo \<le> t \<and> t < hi \<and> v_path_lmeta (mc_view M t) (path_components path) = Some m \<and> fm_is_file m \<and>
        root_only m \<and> fst key = fm_dev m \<and> snd key = fm_ino m) \<and>
     sealed_within M lo hi (tl (ancestors (path_components path)))"

lemma sealed_within_mono: "sealed_within M lo hi ds \<Longrightarrow> lo' \<le> lo \<Longrightarrow> hi \<le> hi' \<Longrightarrow> sealed_within M lo' hi' ds"
  unfolding sealed_within_def by (meson le_trans less_le_trans)

lemma sealed_file_mono:
  assumes "sealed_file M lo hi path key" "lo' \<le> lo" "hi \<le> hi'"
  shows "sealed_file M lo' hi' path key"
proof -
  obtain t m where "lo \<le> t" "t < hi" "v_path_lmeta (mc_view M t) (path_components path) = Some m" "fm_is_file m"
      "root_only m" "fst key = fm_dev m" "snd key = fm_ino m" "is_absolute path"
      "sealed_within M lo hi (tl (ancestors (path_components path)))"
    using assms(1) unfolding sealed_file_def by blast
  with assms(2,3) sealed_within_mono [of M lo hi "tl (ancestors (path_components path))" lo' hi'] show ?thesis
    unfolding sealed_file_def by (intro conjI exI [of _ t] exI [of _ m]) simp_all
qed

lemma sealed_dirs_within:
  "wp (sealed_dirs M ds) (\<lambda>x s'. as_step s \<le> as_step s' \<and> (x \<longrightarrow> sealed_within M (as_step s) (as_step s') ds)) s"
proof (induction ds arbitrary: s)
  case (Cons d ds)
  let ?n = "as_step s"
  have "sealed_within M ?n h (d # ds)"
    if "sealed_within M (Suc ?n) h ds" "Suc ?n \<le> h" "v_path_lmeta (mc_view M ?n) d = Some m" "fm_is_dir m" "root_only m"
    for h m
    using sealed_within_mono [OF that(1), of ?n h] that(2-5) by (auto simp: sealed_within_def)
  then have "wp (sealed_dirs M ds) (\<lambda>x s'. ?n \<le> as_step s' \<and> (x \<longrightarrow> sealed_within M ?n (as_step s') (d # ds)))
      (s\<lparr>as_step := Suc ?n\<rparr>)"
    if "v_path_lmeta (mc_view M ?n) d = Some m" "fm_is_dir m" "root_only m" for m
    using that by (intro wp_mono [OF Cons]) auto
  then show ?case
    by (simp add: wp_bind wp_look wp_return split: option.split)
qed (simp add: wp_simps sealed_within_def)

lemma sealed_identity_file:
  "wp (sealed_identity M path)
     (\<lambda>x s'. as_step s \<le> as_step s' \<and> (\<forall>k. x = Some k \<longrightarrow> sealed_file M (as_step s) (as_step s') path k)) s"
proof (cases "v_path_lmeta (mc_view M (as_step s)) (path_components path)")
  case (Some m)
  let ?n = "as_step s"
  have whole: "sealed_file M ?n h path (fm_dev m, fm_ino m)"
    if "is_absolute path" "fm_is_file m" "root_only m" "Suc ?n \<le> h"
      "sealed_within M (Suc ?n) h (tl (ancestors (path_components path)))" for h
    unfolding sealed_file_def using that Some sealed_within_mono [OF that(5), of ?n h]
    by (intro conjI exI [of _ ?n] exI [of _ m]) simp_all
  have "wp (sealed_dirs M (tl (ancestors (path_components path))))
     (\<lambda>dirs. wp (State_Monad.return (if dirs then Some (fm_dev m, fm_ino m) else None))
        (\<lambda>x s'. ?n \<le> as_step s' \<and> (\<forall>k. x = Some k \<longrightarrow> sealed_file M ?n (as_step s') path k)))
     (s\<lparr>as_step := Suc ?n\<rparr>)" if "is_absolute path" "fm_is_file m" "root_only m"
    by (rule wp_mono [OF sealed_dirs_within]) (use whole that in \<open>auto simp: wp_return\<close>)
  then show ?thesis by (simp add: sealed_identity_def wp_bind wp_look wp_return Some)
qed (simp add: sealed_identity_def wp_simps)

lemma find_entry_sealed:
  "wp (find_entry M key entries) (\<lambda>x s'. as_step s \<le> as_step s' \<and>
     (\<forall>e. x = Some e \<longrightarrow> e \<in> set entries \<and> sealed_file M (as_step s) (as_step s') e key)) s"
proof (induction entries arbitrary: s)
  case (Cons entry entries)
  have rest: "wp (find_entry M key entries) (\<lambda>x s''. as_step s \<le> as_step s'' \<and>
     (\<forall>e. x = Some e \<longrightarrow> e \<in> set (entry # entries) \<and> sealed_file M (as_step s) (as_step s'') e key)) s'"
    if "as_step s \<le> as_step s'" for s'
    by (rule wp_mono [OF Cons]) (use that in \<open>auto intro: sealed_file_mono\<close>)
  show ?case
    unfolding find_entry.simps wp_bind
  proof (rule wp_mono [OF sealed_identity_file])
    fix i and s' :: attr_state assume "as_step s \<le> as_step s' \<and> (\<forall>k. i = Some k \<longrightarrow> sealed_file M (as_step s) (as_step s') entry k)"
    with rest [of s'] show "wp (if i = Some key then State_Monad.return (Some entry) else find_entry M key entries)
        (\<lambda>x s''. as_step s \<le> as_step s'' \<and>
           (\<forall>e. x = Some e \<longrightarrow> e \<in> set (entry # entries) \<and> sealed_file M (as_step s) (as_step s'') e key)) s'"
      unfolding wp_if wp_return by (simp del: split_paired_All)
  qed
qed (simp add: wp_return)

lemma image_matches_sealed:
  "passes (image_matches M pid allowlist) (\<lambda>e s'. as_step s \<le> as_step s' \<and> e \<in> set allowlist \<and>
     (\<exists>m. v_exe_stat (mc_view M (as_step s)) pid = Some m \<and>
        sealed_file M (as_step s) (as_step s') e (fm_dev m, fm_ino m))) s"
proof (cases "v_exe_stat (mc_view M (as_step s)) pid")
  case (Some m)
  have "passes (find_entry M (fm_dev m, fm_ino m) allowlist \<bind> f)
      (\<lambda>e s'. as_step s \<le> as_step s' \<and> e \<in> set allowlist \<and> sealed_file M (as_step s) (as_step s') e (fm_dev m, fm_ino m))
      (s\<lparr>as_step := Suc (as_step s)\<rparr>)"
    if "\<And>x. f (Some x) = accept x" "\<And>Q s. passes (f None) Q s" for f
  proof (rule passes_bind [OF find_entry_sealed])
    fix x and s' :: attr_state assume x: "as_step (s\<lparr>as_step := Suc (as_step s)\<rparr>) \<le> as_step s' \<and> (\<forall>e. x = Some e \<longrightarrow> e \<in> set allowlist \<and>
        sealed_file M (as_step (s\<lparr>as_step := Suc (as_step s)\<rparr>)) (as_step s') e (fm_dev m, fm_ino m))"
    then show "passes (f x) (\<lambda>e s'. as_step s \<le> as_step s' \<and> e \<in> set allowlist \<and>
        sealed_file M (as_step s) (as_step s') e (fm_dev m, fm_ino m)) s'"
      using that sealed_file_mono [of M "Suc (as_step s)" "as_step s'" _ _ "as_step s" "as_step s'"] by (cases x) simp_all
  qed
  then show ?thesis
    by (simp add: image_matches_def passes_look Some Let_def)
qed (simp add: image_matches_def passes_look)


lemma any_fd_held:
  "wp (any_fd_is M pid wanted names) (\<lambda>x s'. as_step s \<le> as_step s' \<and>
     (x \<longrightarrow> (\<exists>t n. as_step s \<le> t \<and> t < as_step s' \<and> 3 \<le> n \<and> v_fd_link (mc_view M t) pid (uint (n :: u32)) = Some wanted))) s"
proof (induction names arbitrary: s)
  case (Cons name names)
  let ?n = "as_step s"
  have "wp (any_fd_is M pid wanted names) (\<lambda>x s'. ?n \<le> as_step s' \<and>
     (x \<longrightarrow> (\<exists>t n. ?n \<le> t \<and> t < as_step s' \<and> 3 \<le> n \<and> v_fd_link (mc_view M t) pid (uint (n :: u32)) = Some wanted)))
     (s\<lparr>as_step := Suc ?n\<rparr>)"
    by (rule wp_mono [OF Cons]) (auto dest: Suc_leD)
  moreover have "\<exists>t k. ?n \<le> t \<and> t < Suc ?n \<and> 3 \<le> k \<and> v_fd_link (mc_view M t) pid (uint (k :: u32)) = Some wanted"
    if "3 \<le> n" "v_fd_link (mc_view M ?n) pid (uint n) = Some wanted" for n :: u32
    using that by (intro exI [of _ ?n] exI [of _ n]) simp
  ultimately show ?case
    using Cons [of s] by (auto simp: wp_bind wp_look wp_return split: option.split)
qed (simp add: wp_return)

text \<open>The other end of the connection, as the kernel answered, and a descriptor of the caller on it.\<close>

definition holds_end :: "machine \<Rightarrow> nat \<Rightarrow> nat \<Rightarrow> u32 \<Rightarrow> u64 \<Rightarrow> bool" where
  "holds_end M lo hi pid sock_ino \<longleftrightarrow>
     (\<exists>peer t n. unix_peer_inode (mc_endian M) (fst (v_netlink (mc_view M lo))) sock_ino = Ret (Inr peer) \<and>
        lo < t \<and> t < hi \<and> 3 \<le> n \<and> v_fd_link (mc_view M t) pid (uint (n :: u32)) = Some (socket_text peer))"

lemma peer_inode_answered:
  "passes (peer_inode M sock_ino) (\<lambda>peer s'. as_step s' = Suc (as_step s) \<and>
     unix_peer_inode (mc_endian M) (fst (v_netlink (mc_view M (as_step s)))) sock_ino = Ret (Inr peer)) s"
  unfolding peer_inode_def passes_look
  by (auto simp: passes_def wp_return refuse_def accept_def split: run.split sum.split)

lemma holds_connection_held:
  "passes (holds_connection M pid sock_ino)
     (\<lambda>_ s'. as_step s \<le> as_step s' \<and> holds_end M (as_step s) (as_step s') pid sock_ino) s"
  unfolding holds_connection_def passes_and_then
proof (rule passes_mono [OF peer_inode_answered])
  fix peer and s1 :: attr_state
  assume s1: "as_step s1 = Suc (as_step s) \<and>
     unix_peer_inode (mc_endian M) (fst (v_netlink (mc_view M (as_step s)))) sock_ino = Ret (Inr peer)"
  let ?Q = "\<lambda>_ s'. as_step s \<le> as_step s' \<and> holds_end M (as_step s) (as_step s') pid sock_ino"
  have "passes (do { held \<leftarrow> any_fd_is M pid (socket_text peer) names; if held then accept () else refuse NotHeldByCaller }) ?Q s2"
    if "as_step s1 < as_step s2" for names s2
  proof (rule passes_bind [OF any_fd_held])
    fix held and s3 :: attr_state
    assume held: "as_step s2 \<le> as_step s3 \<and> (held \<longrightarrow> (\<exists>t n. as_step s2 \<le> t \<and> t < as_step s3 \<and> 3 \<le> n \<and>
        v_fd_link (mc_view M t) pid (uint (n :: u32)) = Some (socket_text peer)))"
    then show "passes (if held then accept () else refuse NotHeldByCaller) ?Q s3"
    proof (cases held)
      case True
      then obtain t and n :: u32 where "as_step s2 \<le> t" "t < as_step s3" "3 \<le> n"
          "v_fd_link (mc_view M t) pid (uint n) = Some (socket_text peer)" using held by blast
      with s1 that held have "holds_end M (as_step s) (as_step s3) pid sock_ino"
        unfolding holds_end_def by (intro exI [of _ peer] exI [of _ t] exI [of _ n]) simp
      with True s1 that held show ?thesis by simp
    qed simp
  qed
  then show "passes (do { names \<leftarrow> look M (\<lambda>v. v_fd_names v pid);
       case names of
         None \<Rightarrow> refuse FdsUnreadable
       | Some names \<Rightarrow> do {
           held \<leftarrow> any_fd_is M pid (socket_text peer) names;
           if held then accept () else refuse NotHeldByCaller } }) ?Q s1"
    unfolding passes_look by (simp split: option.split)
qed

text \<open>What lets a mapping of \<open>path\<close> pass: it is deleted and its parent, not the root, is sealed with
  every directory above it, or it is the sealed file of this inode.\<close>

definition mapping_ok :: "machine \<Rightarrow> nat \<Rightarrow> nat \<Rightarrow> string \<Rightarrow> string \<Rightarrow> bool" where
  "mapping_ok M lo hi path inode \<longleftrightarrow>
     (case strip_suffix DELETED_SUFFIX path of
        Some gone \<Rightarrow> (\<exists>dir above. tl (ancestors (path_components gone)) = dir # above \<and> dir \<noteq> [RootDir] \<and>
                        sealed_within M lo hi (ancestors dir))
      | None \<Rightarrow> (\<exists>dev ino. parse_u64 inode = Some ino \<and> sealed_file M lo hi path (dev, ino)))"

lemma mapping_ok_mono: "mapping_ok M lo hi path inode \<Longrightarrow> lo' \<le> lo \<Longrightarrow> hi \<le> hi' \<Longrightarrow> mapping_ok M lo' hi' path inode"
  unfolding mapping_ok_def by (cases "strip_suffix DELETED_SUFFIX path") (auto intro: sealed_within_mono sealed_file_mono)

lemma mapping_judged:
  "wp (mapping_is_sealed M path inode)
     (\<lambda>x s'. as_step s \<le> as_step s' \<and> (x \<longrightarrow> mapping_ok M (as_step s) (as_step s') path inode)) s"
proof (cases "strip_suffix DELETED_SUFFIX path")
  case None
  have "wp (do { i \<leftarrow> sealed_identity M path; State_Monad.return (map_option snd i = Some ino) })
     (\<lambda>x s'. as_step s \<le> as_step s' \<and> (x \<longrightarrow> (\<exists>dev. sealed_file M (as_step s) (as_step s') path (dev, ino)))) s" for ino
    unfolding wp_bind by (rule wp_mono [OF sealed_identity_file]) (auto simp: wp_return)
  then have "wp (do { i \<leftarrow> sealed_identity M path; State_Monad.return (map_option snd i = Some ino) })
     (\<lambda>x s'. as_step s \<le> as_step s' \<and> (x \<longrightarrow> mapping_ok M (as_step s) (as_step s') path inode)) s"
    if "parse_u64 inode = Some ino" for ino
    by (rule wp_mono) (auto simp: mapping_ok_def None that)
  then show ?thesis
    by (simp add: mapping_is_sealed_def None wp_return split: option.split)
next
  case (Some gone)
  have "wp (sealed_dir M dir)
     (\<lambda>x s'. as_step s \<le> as_step s' \<and> (x \<longrightarrow> mapping_ok M (as_step s) (as_step s') path inode)) s"
    if "tl (ancestors (path_components gone)) = dir # above" "dir \<noteq> [RootDir]" for dir above
    unfolding sealed_dir_def by (rule wp_mono [OF sealed_dirs_within]) (auto simp: mapping_ok_def Some that)
  then show ?thesis
    by (cases "tl (ancestors (path_components gone))") (simp_all add: mapping_is_sealed_def Some wp_return)
qed

definition judged_before :: "machine \<Rightarrow> nat \<Rightarrow> nat \<Rightarrow> string list \<Rightarrow> string \<Rightarrow> bool" where
  "judged_before M lo hi lines path \<longleftrightarrow>
     (\<exists>line \<in> set lines. \<exists>inode. executable_mapping line = Some (path, inode) \<and> mapping_ok M lo hi path inode)"

lemma judged_before_mono: "judged_before M lo hi lines path \<Longrightarrow> hi \<le> hi' \<Longrightarrow> set lines \<subseteq> set lines' \<Longrightarrow>
    judged_before M lo hi' lines' path"
  unfolding judged_before_def using mapping_ok_mono [OF _ order_refl] by blast

lemma judged_before_skip: "judged_before M lo hi (before @ lines) path \<Longrightarrow> judged_before M lo hi (before @ line # lines) path"
  by (erule judged_before_mono) auto

lemma check_mappings_ok:
  assumes "lo \<le> as_step s" "\<And>path b. seen path = Some b \<Longrightarrow> b \<and> judged_before M lo (as_step s) before path"
  shows "passes (check_mappings M seen lines) (\<lambda>_ s'. as_step s \<le> as_step s' \<and>
     (\<forall>line \<in> set lines. \<forall>path inode. executable_mapping line = Some (path, inode) \<longrightarrow>
        judged_before M lo (as_step s') (before @ lines) path)) s"
  using assms
proof (induction lines arbitrary: before seen s)
  case (Cons line lines)
  show ?case
  proof (cases "executable_mapping line")
    case None
    have "passes (check_mappings M seen lines) (\<lambda>_ s'. as_step s \<le> as_step s' \<and>
     (\<forall>l \<in> set (line # lines). \<forall>path inode. executable_mapping l = Some (path, inode) \<longrightarrow>
        judged_before M lo (as_step s') (before @ line # lines) path)) s"
    proof (rule passes_mono [OF Cons.IH [OF Cons.prems]])
      fix x and s' :: attr_state
      assume "as_step s \<le> as_step s' \<and> (\<forall>l \<in> set lines. \<forall>path inode. executable_mapping l = Some (path, inode) \<longrightarrow>
        judged_before M lo (as_step s') (before @ lines) path)"
      then show "as_step s \<le> as_step s' \<and> (\<forall>l \<in> set (line # lines). \<forall>path inode.
        executable_mapping l = Some (path, inode) \<longrightarrow> judged_before M lo (as_step s') (before @ line # lines) path)"
        using None judged_before_skip by (metis option.distinct(1) set_ConsD)
    qed
    with None show ?thesis by simp
  next
    case (Some pi)
    obtain path inode where pi: "pi = (path, inode)" by (cases pi)
    let ?judge = "case seen path of Some ok \<Rightarrow> State_Monad.return ok | None \<Rightarrow> mapping_is_sealed M path inode"
    have judge: "wp ?judge (\<lambda>ok s1. as_step s \<le> as_step s1 \<and>
        (ok \<longrightarrow> judged_before M lo (as_step s1) (before @ [line]) path)) s"
    proof (cases "seen path")
      case None
      have "wp (mapping_is_sealed M path inode) (\<lambda>ok s1. as_step s \<le> as_step s1 \<and>
        (ok \<longrightarrow> judged_before M lo (as_step s1) (before @ [line]) path)) s"
        by (rule wp_mono [OF mapping_judged])
          (use Cons.prems(1) Some pi in \<open>auto simp: judged_before_def intro: mapping_ok_mono\<close>)
      with None show ?thesis by simp
    next
      case (Some b)
      with Cons.prems(2) [OF Some] show ?thesis
        by (auto simp: wp_return intro: judged_before_mono)
    qed
    have rest: "passes (check_mappings M (seen(path \<mapsto> True)) lines) (\<lambda>_ s'. as_step s \<le> as_step s' \<and>
     (\<forall>l \<in> set (line # lines). \<forall>path inode. executable_mapping l = Some (path, inode) \<longrightarrow>
        judged_before M lo (as_step s') (before @ line # lines) path)) s1"
      if s1: "as_step s \<le> as_step s1" "judged_before M lo (as_step s1) (before @ [line]) path" for s1
    proof (rule passes_mono [OF Cons.IH [where before = "before @ [line]"]])
      show "lo \<le> as_step s1" using Cons.prems(1) s1(1) by simp
      show "b \<and> judged_before M lo (as_step s1) (before @ [line]) p" if "(seen(path \<mapsto> True)) p = Some b" for p b
        using that s1 Cons.prems(2) [of p b] judged_before_mono [of M lo "as_step s" before p "as_step s1" "before @ [line]"]
        by (auto split: if_splits)
      fix x and s' :: attr_state
      assume *: "as_step s1 \<le> as_step s' \<and> (\<forall>l \<in> set lines. \<forall>path inode. executable_mapping l = Some (path, inode) \<longrightarrow>
        judged_before M lo (as_step s') ((before @ [line]) @ lines) path)"
      have "judged_before M lo (as_step s') (before @ line # lines) path"
        by (rule judged_before_mono [OF s1(2)]) (use * in auto)
      then show "as_step s \<le> as_step s' \<and>
     (\<forall>l \<in> set (line # lines). \<forall>path inode. executable_mapping l = Some (path, inode) \<longrightarrow>
        judged_before M lo (as_step s') (before @ line # lines) path)"
        using * s1(1) Some pi by simp
    qed
    have "check_mappings M seen (line # lines) =
        State_Monad.bind ?judge (\<lambda>ok. if ok then check_mappings M (seen(path \<mapsto> ok)) lines else refuse (LoadedUnsealed path))"
      by (simp add: Some pi)
    then show ?thesis
      using rest by (simp only:) (rule passes_bind [OF judge], simp)
  qed
qed simp


section \<open>The check in its order\<close>

definition as_init :: "machine \<Rightarrow> (view \<Rightarrow> u32 \<Rightarrow> string option) \<Rightarrow> u32 \<Rightarrow> nat \<Rightarrow> bool" where
  "as_init M link pid t \<longleftrightarrow> (\<exists>l. link (mc_view M t) pid = Some l \<and> link (mc_view M (t + 1)) 1 = Some l)"

lemma same_namespace_same:
  "passes (same_namespace M ns link pid) (\<lambda>_ s'. as_step s' = as_step s + 2 \<and> as_init M link pid (as_step s)) s"
  by (cases "link (mc_view M (as_step s)) pid") (simp_all add: same_namespace_def passes_look as_init_def)

text \<open>The \<open>n\<close>th word a status file gives for a field, on the first line that begins with its name.\<close>

definition status_says :: "string \<Rightarrow> string \<Rightarrow> nat \<Rightarrow> string \<Rightarrow> bool" where
  "status_says status name n word \<longleftrightarrow>
     (\<exists>before rest after. str_lines status = before @ (name @ rest) # after \<and>
        (\<forall>l \<in> set before. \<not> prefix name l) \<and>
        n < length (split_whitespace rest) \<and> split_whitespace rest ! n = word)"

text \<open>Nobody traces the process, no seccomp mode is on, and it acts as \<open>uid\<close>, as its status file says.\<close>

definition runs_clean :: "string \<Rightarrow> u32 \<Rightarrow> bool" where
  "runs_clean status uid \<longleftrightarrow>
     (\<exists>w. status_says status ''TracerPid:'' 0 w \<and> parse_u32 w = Some 0) \<and>
     (\<forall>w. status_says status ''Seccomp:'' 0 w \<longrightarrow> w = ''0'') \<and>
     (\<exists>w. status_says status ''Uid:'' 1 w \<and> parse_u32 w = Some uid)"

lemma field_line_Some:
  "field_line name ls = Some rest \<longleftrightarrow>
     (\<exists>before after. ls = before @ (name @ rest) # after \<and> (\<forall>l \<in> set before. \<not> prefix name l))"
proof (induction ls)
  case (Cons l ls)
  have strip: "strip_prefix name l = Some r \<longleftrightarrow> l = name @ r" for r
    by (auto simp: strip_prefix_def) (metis append_take_drop_id)
  show ?case
  proof (cases "prefix name l")
    case True
    then obtain r where l: "l = name @ r" by (auto simp: prefix_def)
    then have "strip_prefix name l = Some r" using strip by blast
    then have found: "field_line name (l # ls) = Some r" by simp
    let ?at = "\<lambda>x. \<exists>before after. l # ls = before @ (name @ x) # after \<and> (\<forall>l \<in> set before. \<not> prefix name l)"
    have only: "r = x" if "?at x" for x
    proof -
      from that obtain before after where *: "l # ls = before @ (name @ x) # after" "\<forall>l \<in> set before. \<not> prefix name l"
        by blast
      then have "before = []" using True by (cases before) auto
      with * l show ?thesis by simp
    qed
    have "?at r" using l by (intro exI [of _ "[]"] exI [of _ ls]) simp
    then have there: "?at rest" if "r = rest" using that by (rule_tac subst [of r rest])
    have "?at rest \<longleftrightarrow> r = rest" by (rule iffI) (erule only, erule there)
    then show ?thesis unfolding found option.inject by (rule sym)
  next
    case False
    then have "strip_prefix name l \<noteq> Some r" for r unfolding strip by (auto simp: prefix_def)
    then have "strip_prefix name l = None" by (metis not_None_eq)
    then have "field_line name (l # ls) = field_line name ls" by simp
    moreover have "(\<exists>before after. l # ls = before @ (name @ rest) # after \<and> (\<forall>x \<in> set before. \<not> prefix name x)) \<longleftrightarrow>
        (\<exists>before after. ls = before @ (name @ rest) # after \<and> (\<forall>x \<in> set before. \<not> prefix name x))" (is "?L \<longleftrightarrow> ?R")
    proof
      assume ?L
      then obtain before after where *: "l # ls = before @ (name @ rest) # after" "\<forall>x \<in> set before. \<not> prefix name x" by blast
      with False show ?R by (cases before) auto
    next
      assume ?R
      then obtain before after where "ls = before @ (name @ rest) # after" "\<forall>x \<in> set before. \<not> prefix name x" by blast
      with False show ?L by (intro exI [of _ "l # before"] exI [of _ after]) simp
    qed
    ultimately show ?thesis using Cons.IH by simp
  qed
qed simp

lemma status_says_iff:
  "status_says status name n word \<longleftrightarrow>
     (\<exists>rest. field_line name (str_lines status) = Some rest \<and> n < length (split_whitespace rest) \<and>
        split_whitespace rest ! n = word)"
  unfolding status_says_def field_line_Some by blast

lemma status_clean_runs: "status_is_clean status uid = Inr () \<Longrightarrow> runs_clean status uid"
  by (auto simp: status_is_clean_def runs_clean_def status_says_iff Let_def split: option.splits list.splits if_splits)

lemma clean_status_clean:
  "passes (clean_status M pid uid) (\<lambda>_ s'. as_step s' = as_step s + 1 \<and>
     (\<exists>status. v_status (mc_view M (as_step s)) pid = Some status \<and> runs_clean status uid)) s"
  by (auto simp: clean_status_def passes_look intro: status_clean_runs split: option.split sum.split)

lemma owned_by_root_owned:
  "passes (owned_by_root M pid) (\<lambda>_ s'. as_step s' = as_step s + 1 \<and> v_status_owner (mc_view M (as_step s)) pid = Some 0) s"
  by (simp add: owned_by_root_def passes_look split: option.split)

lemma same_start_same:
  "passes (same_start M pid expected) (\<lambda>_ s'. as_step s' = as_step s + 1 \<and> start_at (mc_view M (as_step s)) pid = Some expected) s"
  by (simp add: same_start_def passes_look attr_reads)

text \<open>A line of the memory map that maps a file executable: address range, permissions, offset, device
  and inode, one space after each, then the path.\<close>

definition maps_executable :: "string \<Rightarrow> string \<Rightarrow> bool" where
  "maps_executable line path \<longleftrightarrow>
     (\<exists>addresses perms offset dev inode k.
        line = addresses @ '' '' @ perms @ '' '' @ offset @ '' '' @ dev @ '' '' @ inode @ '' '' @ replicate k CHR '' '' @ path \<and>
        (\<forall>field \<in> {addresses, perms, offset, dev, inode}. CHR '' '' \<notin> set field) \<and>
        CHR ''x'' \<in> set perms \<and> is_absolute path)"

lemma trim_space: "trim_start (CHR '' '' # s) = trim_start s"
  by (cases s rule: trim_start.cases) (subst trim_start.simps, auto simp: is_ws1_def trim_start.simps [of "[]"] split: list.split)

lemma trim_spaces: "is_absolute path \<Longrightarrow> trim_start (replicate k CHR '' '' @ path) = path"
proof (induction k)
  case 0
  then show ?case
    by (subst trim_start.simps) (auto simp: is_absolute_def is_ws1_def is_ws2_def is_ws3_def split: list.splits)
qed (simp add: trim_space)

lemma split_once_field: "CHR '' '' \<notin> set a \<Longrightarrow> split_once CHR '' '' (a @ '' '' @ b) = Some (a, b)"
  using split_once_at [of "CHR '' ''" a b] by simp

lemma maps_executable_found:
  "maps_executable line path \<Longrightarrow> \<exists>inode. executable_mapping line = Some (path, inode)"
  by (auto simp: maps_executable_def executable_mapping_def eval_nat_numeral split_once_field [simplified] trim_spaces)

text \<open>Every path that a mapping executes was judged by a line that maps it.\<close>

definition maps_sealed :: "machine \<Rightarrow> nat \<Rightarrow> nat \<Rightarrow> u32 \<Rightarrow> bool" where
  "maps_sealed M lo hi pid \<longleftrightarrow>
     (\<exists>maps. v_maps (mc_view M lo) pid = Some maps \<and>
        (\<forall>line \<in> set (str_lines maps). \<forall>path. maps_executable line path \<longrightarrow>
           (\<exists>line \<in> set (str_lines maps). \<exists>inode. executable_mapping line = Some (path, inode) \<and>
              mapping_ok M lo hi path inode)))"

lemma sealed_maps_sealed:
  "passes (sealed_maps M pid) (\<lambda>_ s'. as_step s \<le> as_step s' \<and> maps_sealed M (as_step s) (as_step s') pid) s"
proof (cases "v_maps (mc_view M (as_step s)) pid")
  case (Some maps)
  have "passes (maps_are_sealed M maps) (\<lambda>_ s'. as_step s \<le> as_step s' \<and> maps_sealed M (as_step s) (as_step s') pid)
      (s\<lparr>as_step := Suc (as_step s)\<rparr>)"
    unfolding maps_are_sealed_def
    by (rule passes_mono [OF check_mappings_ok [where lo = "as_step s" and before = "[]"]])
      (auto simp: maps_sealed_def Some judged_before_def dest!: maps_executable_found)
  then show ?thesis by (simp add: sealed_maps_def passes_look Some)
qed (simp add: sealed_maps_def passes_look)

definition inspected :: "machine \<Rightarrow> nat \<Rightarrow> nat \<Rightarrow> u32 \<Rightarrow> u32 \<Rightarrow> u64 \<Rightarrow> string list \<Rightarrow> string \<Rightarrow> bool" where
  "inspected M lo hi pid uid sock_ino allowlist entry \<longleftrightarrow>
     as_init M v_mnt_ns pid lo \<and> as_init M v_user_ns pid (lo + 2) \<and>
     (\<exists>status. v_status (mc_view M (lo + 4)) pid = Some status \<and> runs_clean status uid) \<and>
     v_status_owner (mc_view M (lo + 5)) pid = Some 0 \<and>
     (\<exists>t u v. lo + 6 \<le> t \<and> t \<le> u \<and> u \<le> v \<and> v \<le> hi \<and>
        entry \<in> set allowlist \<and>
        (\<exists>m. v_exe_stat (mc_view M (lo + 6)) pid = Some m \<and> sealed_file M (lo + 6) t entry (fm_dev m, fm_ino m)) \<and>
        holds_end M t u pid sock_ino \<and> maps_sealed M u v pid)"


lemma inspect_inspected:
  "passes (inspect M pid uid sock_ino allowlist)
     (\<lambda>entry s'. as_step s \<le> as_step s' \<and> inspected M (as_step s) (as_step s') pid uid sock_ino allowlist entry) s"
  unfolding inspect_def passes_and_then
proof (rule passes_mono [OF same_namespace_same], rule passes_mono [OF same_namespace_same],
    rule passes_mono [OF clean_status_clean], rule passes_mono [OF owned_by_root_owned],
    rule passes_mono [OF image_matches_sealed], rule passes_mono [OF holds_connection_held],
    rule passes_mono [OF sealed_maps_sealed])
  fix s1 s2 s3 s4 s5 s6 s7 :: attr_state and entry
  assume *: "as_step s1 = as_step s + 2 \<and> as_init M v_mnt_ns pid (as_step s)"
    "as_step s2 = as_step s1 + 2 \<and> as_init M v_user_ns pid (as_step s1)"
    "as_step s3 = as_step s2 + 1 \<and>
      (\<exists>status. v_status (mc_view M (as_step s2)) pid = Some status \<and> runs_clean status uid)"
    "as_step s4 = as_step s3 + 1 \<and> v_status_owner (mc_view M (as_step s3)) pid = Some 0"
    "as_step s4 \<le> as_step s5 \<and> entry \<in> set allowlist \<and>
      (\<exists>m. v_exe_stat (mc_view M (as_step s4)) pid = Some m \<and>
         sealed_file M (as_step s4) (as_step s5) entry (fm_dev m, fm_ino m))"
    "as_step s5 \<le> as_step s6 \<and> holds_end M (as_step s5) (as_step s6) pid sock_ino"
    "as_step s6 \<le> as_step s7 \<and> maps_sealed M (as_step s6) (as_step s7) pid"
  have at: "as_step s1 = as_step s + 2" "as_step s2 = as_step s + 4" "as_step s3 = as_step s + 5" "as_step s4 = as_step s + 6"
    using *(1-4) by simp_all
  have "inspected M (as_step s) (as_step s7) pid uid sock_ino allowlist entry"
    unfolding inspected_def
    by (intro conjI exI [of _ "as_step s5"] exI [of _ "as_step s6"] exI [of _ "as_step s7"]) (use * at in simp_all)
  then show "passes (accept entry)
     (\<lambda>entry s'. as_step s \<le> as_step s' \<and> inspected M (as_step s) (as_step s') pid uid sock_ino allowlist entry) s7"
    using * by simp
qed

lemma bracketed_passes:
  assumes "\<And>s. passes body (\<lambda>x s'. as_step s \<le> as_step s' \<and> P (as_step s) (as_step s') x) s"
  shows "passes (bracketed M pid expected body) (\<lambda>x s'. as_step s + 2 \<le> as_step s' \<and>
     start_at (mc_view M (as_step s)) pid = Some expected \<and> P (as_step s + 1) (as_step s' - 1) x \<and>
     start_at (mc_view M (as_step s' - 1)) pid = Some expected) s"
  unfolding bracketed_def passes_and_then
  by (rule passes_mono [OF same_start_same], rule passes_mono [OF assms], rule passes_mono [OF same_start_same]) simp

text \<open>C24: A caller taken for the installed app or tray has shown, between two reads of the start time it
  had when it connected and whatever the machine does meanwhile: the mount and user namespaces of
  init; no tracer, no seccomp filter and the connection's user; \<open>/proc\<close> files that belong to root, the
  mark of a process that sealed itself; an image that is one of the listed files, that file and every
  directory above it owned by root and writable by no one else; the kernel's word for which socket is
  the other end of this connection, and that socket on a descriptor of its own above standard error;
  and for every path it maps executable a line that is sealed.\<close>

theorem official_client_is_the_sealed_program:
  assumes "run_state (check_official M p allowlist) s = (Ret (Inr entry), s')"
  shows "\<exists>pid start sock_ino. peer_pid p = Some pid \<and> 0 < pid \<and> peer_starttime p = Some start \<and> peer_sock_ino p = Some sock_ino \<and>
    (let pid = word_of_int pid; lo = as_step s + 1; hi = as_step s' - 1 in
       start_at (mc_view M (as_step s)) pid = Some start \<and> lo \<le> hi \<and> start_at (mc_view M hi) pid = Some start \<and>
       as_init M v_mnt_ns pid lo \<and> as_init M v_user_ns pid (lo + 2) \<and>
       (\<exists>status. v_status (mc_view M (lo + 4)) pid = Some status \<and> runs_clean status (peer_uid p)) \<and>
       v_status_owner (mc_view M (lo + 5)) pid = Some 0 \<and>
       (\<exists>t u v. lo + 6 \<le> t \<and> t \<le> u \<and> u \<le> v \<and> v \<le> hi \<and>
          entry \<in> set allowlist \<and>
          (\<exists>m. v_exe_stat (mc_view M (lo + 6)) pid = Some m \<and> sealed_file M (lo + 6) t entry (fm_dev m, fm_ino m)) \<and>
          holds_end M t u pid sock_ino \<and> maps_sealed M u v pid))"
proof -
  obtain pid start sock_ino where p: "peer_pid p = Some pid" "0 < pid" "peer_starttime p = Some start" "peer_sock_ino p = Some sock_ino"
    using assms by (auto simp: check_official_def refuse_def State_Monad.return_def split: option.splits if_splits)
  have "passes (check_official M p allowlist) (\<lambda>x s'. as_step s + 2 \<le> as_step s' \<and>
     start_at (mc_view M (as_step s)) (word_of_int pid) = Some start \<and>
     inspected M (as_step s + 1) (as_step s' - 1) (word_of_int pid) (peer_uid p) sock_ino allowlist x \<and>
     start_at (mc_view M (as_step s' - 1)) (word_of_int pid) = Some start) s"
    using p bracketed_passes [where P = "\<lambda>lo hi. inspected M lo hi (word_of_int pid) (peer_uid p) sock_ino allowlist", OF inspect_inspected]
    by (simp add: check_official_def)
  note seen = wp_run [OF assms this [unfolded passes_def], rule_format, OF refl]
  then have "as_step s + 1 \<le> as_step s' - 1" by linarith
  with seen p show ?thesis
    unfolding inspected_def Let_def
    by (rule_tac exI [of _ pid], rule_tac exI [of _ start], rule_tac exI [of _ sock_ino]) simp
qed

section \<open>One verdict for each path\<close>

definition still :: "machine \<Rightarrow> view \<Rightarrow> bool" where
  "still M v \<longleftrightarrow> (\<forall>t. mc_view M t = v)"

definition dirs_ok :: "view \<Rightarrow> path_component list list \<Rightarrow> bool" where
  "dirs_ok v ds \<longleftrightarrow> (\<forall>d \<in> set ds. \<exists>m. v_path_lmeta v d = Some m \<and> fm_is_dir m \<and> root_only m)"

definition identity_ok :: "view \<Rightarrow> string \<Rightarrow> u64 \<Rightarrow> bool" where
  "identity_ok v path ino \<longleftrightarrow> is_absolute path \<and>
     (\<exists>m. v_path_lmeta v (path_components path) = Some m \<and> fm_is_file m \<and> root_only m \<and> fm_ino m = ino) \<and>
     dirs_ok v (tl (ancestors (path_components path)))"

definition mapping_sealed :: "view \<Rightarrow> string \<Rightarrow> string \<Rightarrow> bool" where
  "mapping_sealed v path inode \<longleftrightarrow>
     (case strip_suffix DELETED_SUFFIX path of
        Some gone \<Rightarrow> (\<exists>dir above. tl (ancestors (path_components gone)) = dir # above \<and> dir \<noteq> [RootDir] \<and> dirs_ok v (ancestors dir))
      | None \<Rightarrow> (\<exists>ino. parse_u64 inode = Some ino \<and> identity_ok v path ino))"

lemma still_dirs:
  "still M v \<Longrightarrow> wp (sealed_dirs M ds) (\<lambda>x _. x \<longleftrightarrow> dirs_ok v ds) s"
  by (induction ds arbitrary: s) (auto simp: wp_simps dirs_ok_def still_def split: option.split)

lemma still_identity:
  "still M v \<Longrightarrow> wp (sealed_identity M path) (\<lambda>x _. map_option snd x = Some ino \<longleftrightarrow> identity_ok v path ino) s"
proof -
  assume st: "still M v"
  then have v: "mc_view M t = v" for t by (simp add: still_def)
  have "wp (sealed_dirs M ds) (\<lambda>x. wp (State_Monad.return (if x then Some k else None)) (\<lambda>x _. map_option snd x = Some ino \<longleftrightarrow>
      dirs_ok v ds \<and> snd k = ino)) s" for ds s and k :: "u64 \<times> u64"
    by (rule wp_mono [OF still_dirs [OF st]]) (cases k, auto simp: wp_return)
  note dirs = wp_mono [OF this]
  show ?thesis
    by (auto simp: sealed_identity_def wp_bind wp_look wp_return v identity_ok_def split: option.split intro!: dirs)
qed

lemma still_mapping:
  assumes "still M v"
  shows "wp (mapping_is_sealed M path inode) (\<lambda>x _. x \<longleftrightarrow> mapping_sealed v path inode) s"
proof (cases "strip_suffix DELETED_SUFFIX path")
  case None
  then show ?thesis
    using wp_mono [OF still_identity [OF assms]]
    by (auto simp: mapping_is_sealed_def mapping_sealed_def wp_bind wp_return split: option.split)
next
  case (Some gone)
  then show ?thesis
    using wp_mono [OF still_dirs [OF assms]]
    by (cases "tl (ancestors (path_components gone))") (auto simp: mapping_is_sealed_def mapping_sealed_def sealed_dir_def wp_return)
qed

text \<open>The verdict of a path that is not yet judged is that of the first line that maps it.\<close>

lemma still_mappings:
  assumes "still M v"
  shows "wp (check_mappings M seen lines) (\<lambda>r _. r = Ret (Inr ()) \<longleftrightarrow>
     (\<forall>path inode. map_of (List.map_filter executable_mapping lines) path = Some inode \<longrightarrow>
        (case seen path of Some ok \<Rightarrow> ok | None \<Rightarrow> mapping_sealed v path inode))) s"
proof (induction lines arbitrary: seen s)
  case (Cons line lines seen s)
  show ?case
  proof (cases "executable_mapping line")
    case (Some pi)
    obtain path inode where pi: "pi = (path, inode)" by (cases pi)
    let ?ok = "case seen path of Some ok \<Rightarrow> ok | None \<Rightarrow> mapping_sealed v path inode"
    have judge: "wp (case seen path of Some ok \<Rightarrow> State_Monad.return ok | None \<Rightarrow> mapping_is_sealed M path inode) (\<lambda>x _. x = ?ok) s"
      using still_mapping [OF assms] by (simp add: wp_return split: option.split)
    have pairs: "List.map_filter executable_mapping (line # lines) = (path, inode) # List.map_filter executable_mapping lines"
      by (simp add: List.map_filter_simps Some pi)
    have "wp (if ok then check_mappings M (seen(path \<mapsto> ok)) lines else refuse (LoadedUnsealed path)) (\<lambda>r _. r = Ret (Inr ()) \<longleftrightarrow>
     (\<forall>p i. map_of (List.map_filter executable_mapping (line # lines)) p = Some i \<longrightarrow>
        (case seen p of Some ok \<Rightarrow> ok | None \<Rightarrow> mapping_sealed v p i))) s'" if "ok = ?ok" for ok s'
    proof (cases ok)
      case True
      then have "(\<forall>p i. map_of (List.map_filter executable_mapping lines) p = Some i \<longrightarrow>
          (case (seen(path \<mapsto> True)) p of Some ok \<Rightarrow> ok | None \<Rightarrow> mapping_sealed v p i)) \<longleftrightarrow>
        (\<forall>p i. map_of (List.map_filter executable_mapping (line # lines)) p = Some i \<longrightarrow>
          (case seen p of Some ok \<Rightarrow> ok | None \<Rightarrow> mapping_sealed v p i))"
        unfolding pairs using that by auto
      with True Cons [of "seen(path \<mapsto> True)" s'] show ?thesis by (simp only: if_True)
    next
      case False
      with that show ?thesis unfolding pairs by (auto simp: refuse_def wp_return)
    qed
    note rest = this
    have step: "check_mappings M seen (line # lines) =
        State_Monad.bind (case seen path of Some ok \<Rightarrow> State_Monad.return ok | None \<Rightarrow> mapping_is_sealed M path inode)
          (\<lambda>ok. if ok then check_mappings M (seen(path \<mapsto> ok)) lines else refuse (LoadedUnsealed path))"
      by (simp add: Some pi)
    show ?thesis
      unfolding step wp_bind by (rule wp_mono [OF judge]) (rule rest)
  qed (use Cons in \<open>simp add: List.map_filter_simps\<close>)
qed (simp add: accept_def wp_return List.map_filter_simps)

text \<open>On a machine that stands still the memory map passes exactly when, for each path mapped
  executable, the first line that maps it is sealed: a sealed file of that line's inode, or a deleted
  name in a sealed directory other than the root.  Later lines with the same path are not compared,
  whatever their inode.\<close>

theorem mappings_judged_by_their_first_line:
  assumes "\<And>t. mc_view M t = v"
  shows "fst (run_state (maps_are_sealed M maps) s) = Ret (Inr ()) \<longleftrightarrow>
    (\<forall>path inode. map_of (List.map_filter executable_mapping (str_lines maps)) path = Some inode \<longrightarrow>
       mapping_sealed v path inode)"
  using still_mappings [of M v Map.empty "str_lines maps" s] assms
  by (simp add: still_def maps_are_sealed_def wp_def split: prod.splits)

definition example_so :: view where
  "example_so = example_view\<lparr>v_path_lmeta := (\<lambda>p.
     if p = [RootDir] then Some (example_meta\<lparr>fm_is_file := False, fm_is_dir := True\<rparr>)
     else if p = [RootDir, Normal ''a''] then Some example_meta else None)\<rparr>"

definition example_maps :: string where
  "example_maps = text_of_lines [''1-2 r-xp 0 0:0 99 /a'', ''3-4 r-xp 0 0:0 100 /a'']"

lemma example_lines:
  "List.map_filter executable_mapping (str_lines example_maps) = [(''/a'', ''99''), (''/a'', ''100'')]"
proof -
  have "str_lines example_maps = [''1-2 r-xp 0 0:0 99 /a'', ''3-4 r-xp 0 0:0 100 /a'']"
    unfolding example_maps_def text_of_lines_def by (rule str_lines_text) simp
  then show ?thesis
    by (simp add: List.map_filter_simps executable_mapping_def eval_nat_numeral is_absolute_def trim_start.simps is_ws1_def is_ws2_def is_ws3_def Let_def)
qed

lemma parse_99: "parse_u64 ''99'' = Some 99"
  by (simp add: parse_u64_def digit_value_def Let_def)

theorem mappings_judged_by_their_first_line_witness:
  "fst (run_state (maps_are_sealed (example_machine\<lparr>mc_view := \<lambda>_. example_so\<rparr>) example_maps) new_attr_state) = Ret (Inr ())"
proof -
  have "mapping_sealed example_so ''/a'' ''99''"
    by (simp add: mapping_sealed_def strip_suffix_def DELETED_SUFFIX_def identity_ok_def is_absolute_def path_components_def
        dirs_ok_def example_so_def example_meta_def root_only_def parse_99)
  then show ?thesis
    using mappings_judged_by_their_first_line [of "example_machine\<lparr>mc_view := \<lambda>_. example_so\<rparr>" example_so example_maps]
    by (simp add: example_lines split: if_splits)
qed

section \<open>An accepted client\<close>

lemma status_lines: "str_lines (text_of_lines [''TracerPid: 0'', ''Uid: 1000 1000'']) = [''TracerPid: 0'', ''Uid: 1000 1000'']"
  unfolding text_of_lines_def by (rule str_lines_text) simp

lemma status_words: "split_whitespace '' 0'' = [''0'']" "split_whitespace '' 1000 1000'' = [''1000'', ''1000'']"
  using split_whitespace_spaced [of "[(0, ''0'')]" 0] split_whitespace_spaced [of "[(0, ''1000''), (0, ''1000'')]" 0]
  by (simp_all add: spaced_def plain_def)

lemma parse_small: "parse_u32 ''0'' = Some 0" "parse_u32 ''1000'' = Some 1000" "parse_u32 ''3'' = Some 3"
  by (simp_all add: parse_u32_def parse_u64_def digit_value_def Let_def)

lemma example_clean: "status_is_clean (text_of_lines [''TracerPid: 0'', ''Uid: 1000 1000'']) 1000 = Inr ()"
  by (simp add: status_is_clean_def status_lines strip_prefix_def status_words parse_small Let_def)

definition unix_netlink :: exchange_io where
  "unix_netlink = \<lparr>io_opens = True, io_sent = True,
     io_arrive = \<lambda>_. [unix_answer LittleEndian 41 [(UNIX_DIAG_PEER, to_ne32 LittleEndian 42)] []]\<rparr>"

lemma example_peer: "unix_peer_inode LittleEndian unix_netlink 41 = Ret (Inr 42)"
proof -
  have "unix_peer_inode LittleEndian unix_netlink (ucast (41 :: u32)) =
      peer_attr LittleEndian (concat (map (nla_pad LittleEndian) [(UNIX_DIAG_PEER, to_ne32 LittleEndian 42)]) @ [])"
    by (rule unix_peer_inode_answered)
      (simp_all add: unix_netlink_def unix_answer_def Let_def RECV_LEN_def nla_pad_def align4_def)
  then show ?thesis
    by (subst (asm) peer_attr_attrs) (simp_all add: nla_ok_def UNIX_DIAG_PEER_def)
qed

definition official_view :: view where
  "official_view = example_so\<lparr>v_mnt_ns := \<lambda>_. Some ''m'', v_user_ns := \<lambda>_. Some ''u'',
     v_status := \<lambda>_. Some (text_of_lines [''TracerPid: 0'', ''Uid: 1000 1000'']), v_status_owner := \<lambda>_. Some 0,
     v_netlink := (unix_netlink, unix_netlink), v_fd_names := \<lambda>_. Some [''3''],
     v_fd_link := \<lambda>_ _. Some (socket_text 42), v_maps := \<lambda>_. Some example_maps\<rparr>"

lemma official_reads [simp]:
  "v_mnt_ns official_view pid = Some ''m''" "v_user_ns official_view pid = Some ''u''"
  "v_status official_view pid = Some (text_of_lines [''TracerPid: 0'', ''Uid: 1000 1000''])"
  "v_status_owner official_view pid = Some 0" "v_netlink official_view = (unix_netlink, unix_netlink)"
  "v_fd_names official_view pid = Some [''3'']" "v_fd_link official_view pid fd = Some (socket_text 42)"
  "v_maps official_view pid = Some example_maps" "v_exe_stat official_view 7 = Some example_meta"
  "start_at official_view 7 = Some 4711" "v_path_lmeta official_view = v_path_lmeta example_so"
  by (simp_all add: official_view_def example_so_def example_view_def start_at_def example_start)

definition official_machine :: machine where
  "official_machine = example_machine\<lparr>mc_view := \<lambda>_. official_view\<rparr>"

lemma official_seen [simp]: "mc_view official_machine t = official_view" "mc_endian official_machine = LittleEndian"
  by (simp_all add: official_machine_def example_machine_def)

lemma wp_and_then: "wp (and_then m f) Q s \<longleftrightarrow>
    wp m (\<lambda>r s'. case r of Panic \<Rightarrow> Q Panic s' | Ret (Inl e) \<Rightarrow> Q (Ret (Inl e)) s' | Ret (Inr x) \<Rightarrow> wp (f x) Q s') s"
proof -
  have "(\<lambda>r. wp (case r of Panic \<Rightarrow> State_Monad.return Panic | Ret (Inl e) \<Rightarrow> refuse e | Ret (Inr x) \<Rightarrow> f x) Q) =
    (\<lambda>r s'. case r of Panic \<Rightarrow> Q Panic s' | Ret (Inl e) \<Rightarrow> Q (Ret (Inl e)) s' | Ret (Inr x) \<Rightarrow> wp (f x) Q s')"
    by (auto simp: fun_eq_iff wp_return refuse_def split: run.split sum.split)
  then show ?thesis by (simp add: and_then_def wp_bind)
qed

lemma wp_accept: "wp (accept x) Q s \<longleftrightarrow> Q (Ret (Inr x)) s"
  by (simp add: accept_def wp_return)

lemma official_maps: "wp (maps_are_sealed official_machine example_maps) (\<lambda>r _. r = Ret (Inr ())) s"
proof -
  have "mapping_sealed official_view ''/a'' ''99''"
    by (simp add: mapping_sealed_def strip_suffix_def DELETED_SUFFIX_def identity_ok_def is_absolute_def path_components_def
        dirs_ok_def example_so_def example_meta_def root_only_def parse_99)
  then show ?thesis
    using still_mappings [of official_machine official_view Map.empty "str_lines example_maps" s]
    by (simp add: still_def maps_are_sealed_def example_lines wp_def split: prod.splits if_splits)
qed

lemma official_entry:
  "wp (sealed_identity official_machine ''/a'') (\<lambda>x _. x = Some (1, 99)) s"
  by (simp add: sealed_identity_def is_absolute_def path_components_def wp_simps example_so_def example_meta_def
      root_only_def)

lemma official_holds: "wp (holds_connection official_machine 7 41) (\<lambda>r _. r = Ret (Inr ())) s"
  by (simp add: holds_connection_def wp_and_then peer_inode_def wp_bind wp_look example_peer wp_accept parse_small wp_return)

lemma wp_chain: "wp m (\<lambda>r _. r = Ret (Inr x)) s \<Longrightarrow> (\<And>s'. wp (f x) Q s') \<Longrightarrow> wp (and_then m f) Q s"
  unfolding wp_and_then by (erule wp_mono) simp

lemma example_key: "fm_dev example_meta = 1" "fm_ino example_meta = 99"
  by (simp_all add: example_meta_def)

lemma official_image: "wp (image_matches official_machine 7 [''/a'']) (\<lambda>r _. r = Ret (Inr ''/a'')) s"
proof -
  have "wp (find_entry official_machine (1, 99) [''/a'']) (\<lambda>x _. x = Some ''/a'') s" for s
    by (simp add: wp_bind) (rule wp_mono [OF official_entry], simp add: wp_return)
  note entry = wp_mono [OF this]
  show ?thesis
    unfolding image_matches_def wp_bind wp_look official_reads official_seen option.case
    by (simp only: example_key, rule entry, simp add: wp_accept)
qed

lemma official_checks:
  "wp (same_namespace official_machine ns v_mnt_ns 7) (\<lambda>r _. r = Ret (Inr ())) s"
  "wp (same_namespace official_machine ns v_user_ns 7) (\<lambda>r _. r = Ret (Inr ())) s"
  "wp (clean_status official_machine 7 1000) (\<lambda>r _. r = Ret (Inr ())) s"
  "wp (owned_by_root official_machine 7) (\<lambda>r _. r = Ret (Inr ())) s"
  "wp (sealed_maps official_machine 7) (\<lambda>r _. r = Ret (Inr ())) s"
  "wp (same_start official_machine 7 4711) (\<lambda>r _. r = Ret (Inr ())) s"
  by (simp_all add: same_namespace_def clean_status_def owned_by_root_def sealed_maps_def same_start_def wp_simps wp_accept
      example_clean official_maps)

lemma official_inspected: "wp (inspect official_machine 7 1000 41 [''/a'']) (\<lambda>r _. r = Ret (Inr ''/a'')) s"
  unfolding inspect_def
  by (rule wp_chain [OF official_checks(1)], rule wp_chain [OF official_checks(2)], rule wp_chain [OF official_checks(3)],
      rule wp_chain [OF official_checks(4)], rule wp_chain [OF official_image], rule wp_chain [OF official_holds],
      rule wp_chain [OF official_checks(5)], simp add: wp_accept)

theorem official_client_is_the_sealed_program_witness:
  "\<exists>s'. run_state (check_official official_machine
      \<lparr>peer_uid = 1000, peer_gid = 1000, peer_pid = Some 7, peer_starttime = Some 4711, peer_sock_ino = Some 41\<rparr> [''/a''])
      new_attr_state = (Ret (Inr ''/a''), s') \<and>
    (\<exists>t u. sealed_file official_machine 7 t ''/a'' (1, 99) \<and> holds_end official_machine t u 7 41)"
proof -
  let ?p = "\<lparr>peer_uid = 1000, peer_gid = 1000, peer_pid = Some 7, peer_starttime = Some 4711, peer_sock_ino = Some 41\<rparr>"
  have "wp (check_official official_machine ?p [''/a'']) (\<lambda>r _. r = Ret (Inr ''/a'')) new_attr_state"
    by (simp add: check_official_def bracketed_def)
      (rule wp_chain [OF official_checks(6)], rule wp_chain [OF official_inspected], rule wp_chain [OF official_checks(6)],
        simp add: wp_accept)
  then obtain s' where run: "run_state (check_official official_machine ?p [''/a'']) new_attr_state = (Ret (Inr ''/a''), s')"
    by (auto simp: wp_def split: prod.splits)
  from official_client_is_the_sealed_program [OF run]
  have "\<exists>t u. sealed_file official_machine 7 t ''/a'' (1, 99) \<and> holds_end official_machine t u 7 41"
    by (auto simp: Let_def new_attr_state_def example_meta_def)
  with run show ?thesis by blast
qed

end
