(* ===== verification/KernelDns.thy ===== *)
theory KernelDns
  imports DnsCache
begin

unbundle bit_operations_syntax

text \<open>
  The DNS observer of the kernel object: \<open>crates/cfc-ebpf-proto/src/net.rs\<close>, which finds the UDP
  payload behind an IP header, and the \<open>cgroup_skb/ingress\<close> program of
  \<open>crates/cfc-ebpf/src/main.rs\<close>, which copies the payload of a DNS response into a ring record for
  the daemon.  The kernel's \<open>bpf_skb_load_bytes\<close> is the parameter \<open>load\<close>: from the packet, an
  offset and a length it answers whether it served the read, and the bytes the destination then
  holds.  A scratch buffer and a reserved record hold old bytes until they are written.
\<close>

section \<open>Where the UDP payload begins\<close>

definition NET_IPPROTO_UDP :: u8 where "NET_IPPROTO_UDP = 17"
definition DNS_PORT :: u16 where "DNS_PORT = 53"
definition IPV4_MIN_HEADER_LEN :: nat where "IPV4_MIN_HEADER_LEN = 20"
definition NET_IPV6_HEADER_LEN :: nat where "NET_IPV6_HEADER_LEN = 40"
definition UDP_HEADER_LEN :: nat where "UDP_HEADER_LEN = 8"

record udp_payload =
  up_src_port :: u16
  up_dst_port :: u16
  up_offset :: nat
  up_len :: nat
  up_declared_len :: nat

definition pkt_u8 :: "bytes \<Rightarrow> nat \<Rightarrow> nat \<Rightarrow> u8 option" where
  "pkt_u8 buf valid off = (if valid \<le> off then None else get_at buf off)"

definition pkt_u16 :: "bytes \<Rightarrow> nat \<Rightarrow> nat \<Rightarrow> u16 option" where
  "pkt_u16 buf valid off =
     Option.bind (pkt_u8 buf valid off) (\<lambda>hi.
     Option.bind (pkt_u8 buf valid (off + 1)) (\<lambda>lo.
     Some (push_bit 8 (ucast hi) OR ucast lo)))"

definition net_l4_offset :: "bytes \<Rightarrow> nat \<Rightarrow> nat option" where
  "net_l4_offset buf valid =
     Option.bind (pkt_u8 buf valid 0) (\<lambda>first.
       if drop_bit 4 first = 4 then
         (let ihl = unat (first AND 0x0F) * 4 in
          if ihl < IPV4_MIN_HEADER_LEN then None
          else Option.bind (pkt_u8 buf valid 9) (\<lambda>proto.
            if proto \<noteq> NET_IPPROTO_UDP then None
            else Option.bind (pkt_u16 buf valid 6) (\<lambda>frag.
              if frag AND 0x1FFF \<noteq> 0 then None else Some ihl)))
       else if drop_bit 4 first = 6 then
         Option.bind (pkt_u8 buf valid 6) (\<lambda>proto.
           if proto \<noteq> NET_IPPROTO_UDP then None else Some NET_IPV6_HEADER_LEN)
       else None)"

definition udp_payload_from_l3 :: "bytes \<Rightarrow> nat \<Rightarrow> udp_payload option" where
  "udp_payload_from_l3 buf valid =
     Option.bind (net_l4_offset buf valid) (\<lambda>l4_off.
     Option.bind (pkt_u16 buf valid l4_off) (\<lambda>src_port.
     Option.bind (pkt_u16 buf valid (l4_off + 2)) (\<lambda>dst_port.
     Option.bind (pkt_u16 buf valid (l4_off + 4)) (\<lambda>udp_len.
       if unat udp_len < UDP_HEADER_LEN then None
       else (let off = l4_off + UDP_HEADER_LEN in
         if valid < off then None
         else (let declared = unat udp_len - UDP_HEADER_LEN; available = valid - off in
           Some \<lparr>up_src_port = src_port, up_dst_port = dst_port, up_offset = off,
                 up_len = (if declared < available then declared else available),
                 up_declared_len = declared\<rparr>))))))"

definition is_dns_response :: "udp_payload \<Rightarrow> bool" where
  "is_dns_response p \<longleftrightarrow> up_src_port p = DNS_PORT"

section \<open>Copying out of the packet\<close>

definition PKT_SCRATCH_LEN :: nat where "PKT_SCRATCH_LEN = 80"
definition SKB_PASS :: int where "SKB_PASS = 1"

definition MIN_DNS_PACKET :: nat where
  "MIN_DNS_PACKET = IPV4_MIN_HEADER_LEN + UDP_HEADER_LEN + DNS_HEADER_LEN"

definition DNS_QR :: u8 where "DNS_QR = 0x80"

type_synonym skb_load = "bytes \<Rightarrow> u32 \<Rightarrow> u32 \<Rightarrow> bool \<times> bytes"

text \<open>\<open>load_at\<close> with its constant \<open>n\<close>: from \<open>off\<close> of the packet to position \<open>pos\<close> of \<open>dst\<close>.\<close>

definition load_at :: "skb_load \<Rightarrow> bytes \<Rightarrow> nat \<Rightarrow> nat \<Rightarrow> nat \<Rightarrow> bytes \<Rightarrow> bool \<times> bytes" where
  "load_at load skb n off pos dst =
     (if n = 0 \<or> DNS_BUF_LEN < n then (False, dst)
      else (case load skb (word_of_nat off) (word_of_nat n) of (ok, bs) \<Rightarrow> (ok, put pos bs dst)))"

text \<open>The if-else ladders: the first rung that fits in \<open>avail\<close> and is served wins.\<close>

fun ladder :: "skb_load \<Rightarrow> bytes \<Rightarrow> nat \<Rightarrow> nat \<Rightarrow> nat \<Rightarrow> nat list \<Rightarrow> bytes \<Rightarrow> nat \<times> bytes" where
  "ladder load skb avail off pos [] dst = (0, dst)"
| "ladder load skb avail off pos (n # ns) dst =
     (if n \<le> avail then
        (case load_at load skb n off pos dst of (ok, dst) \<Rightarrow>
           if ok then (n, dst) else ladder load skb avail off pos ns dst)
      else ladder load skb avail off pos ns dst)"

definition load_prefix :: "skb_load \<Rightarrow> bytes \<Rightarrow> bytes \<Rightarrow> nat option \<times> bytes" where
  "load_prefix load skb buf =
     (case ladder load skb (length skb) 0 0 [PKT_SCRATCH_LEN, 72, 64, 56, 48, MIN_DNS_PACKET] buf of
        (n, buf) \<Rightarrow> (if n = 0 then None else Some n, buf))"

definition copy_tail :: "skb_load \<Rightarrow> bytes \<Rightarrow> nat \<Rightarrow> nat \<Rightarrow> nat \<Rightarrow> bytes \<Rightarrow> nat option \<times> bytes" where
  "copy_tail load skb off len whole dst =
     (case (if whole < len then
              (case load_at load skb 8 (off + (len - 8)) (len - 8) dst of
                 (ok, dst) \<Rightarrow> (if ok then len else whole, dst))
            else (whole, dst)) of
        (whole, dst) \<Rightarrow> (if DNS_HEADER_LEN \<le> whole then Some whole else None, dst))"

definition copy_passes :: "skb_load \<Rightarrow> bytes \<Rightarrow> nat \<Rightarrow> nat \<Rightarrow> bytes \<Rightarrow> nat option \<times> bytes" where
  "copy_passes load skb off len dst =
     (case ladder load skb len off 0 [448, 384, 320, 256, 192, 128, 64] dst of (coarse, dst) \<Rightarrow>
      case ladder load skb (len - coarse) (off + coarse) coarse [56, 48, 40, 32, 24, 16, 8] dst of
        (fine, dst) \<Rightarrow> copy_tail load skb off len (coarse + fine) dst)"

definition copy_payload :: "skb_load \<Rightarrow> bytes \<Rightarrow> nat \<Rightarrow> nat \<Rightarrow> bytes \<Rightarrow> nat option \<times> bytes" where
  "copy_payload load skb off len dst =
     (if DNS_BUF_LEN \<le> len then
        (case load_at load skb DNS_BUF_LEN off 0 dst of (ok, dst) \<Rightarrow>
           if ok then (Some DNS_BUF_LEN, dst) else copy_passes load skb off len dst)
      else copy_passes load skb off len dst)"

section \<open>The ingress program\<close>

text \<open>\<open>reserved\<close> is what the ring gives: nothing when it is full, else the old bytes of a record.\<close>

definition publish_payload ::
  "skb_load \<Rightarrow> bytes \<Rightarrow> bytes option \<Rightarrow> nat \<Rightarrow> nat \<Rightarrow> dns_packet list \<Rightarrow> (int + unit) \<times> dns_packet list" where
  "publish_payload load skb reserved off len ring =
     (case reserved of
        None \<Rightarrow> (Inl (- 1), ring)
      | Some stale \<Rightarrow>
          (case copy_payload load skb off len stale of
             (Some n, data) \<Rightarrow> (Inr (), ring @ [\<lparr>dp_len = word_of_nat n, dp_data = data\<rparr>])
           | (None, data) \<Rightarrow> (Inl (- 1), ring)))"

text \<open>How much payload to take: what the header declares, what the packet has, what the record holds.\<close>

definition capture_len :: "nat \<Rightarrow> nat \<Rightarrow> nat" where
  "capture_len declared avail =
     (let n = (if declared < avail then declared else avail) in if DNS_BUF_LEN < n then DNS_BUF_LEN else n)"

definition try_dns ::
  "skb_load \<Rightarrow> bytes \<Rightarrow> bytes option \<Rightarrow> bytes \<Rightarrow> dns_packet list \<Rightarrow> (int + unit) \<times> bytes \<times> dns_packet list" where
  "try_dns load skb reserved buf ring =
     (if length skb < MIN_DNS_PACKET then (Inr (), buf, ring)
      else (case load_prefix load skb buf of
        (None, buf) \<Rightarrow> (Inl (- 1), buf, ring)
      | (Some copied, buf) \<Rightarrow>
          (case udp_payload_from_l3 buf copied of
             None \<Rightarrow> (Inl (- 1), buf, ring)
           | Some udp \<Rightarrow>
               if \<not> is_dns_response udp then (Inr (), buf, ring)
               else (let len = capture_len (up_declared_len udp) (length skb - up_offset udp) in
                 if len < DNS_HEADER_LEN then (Inr (), buf, ring)
                 else if copied < up_offset udp + 3 then (Inr (), buf, ring)
                 else (case get_at buf (up_offset udp + 2) of
                     None \<Rightarrow> (Inl (- 1), buf, ring)
                   | Some flags_hi \<Rightarrow>
                       if flags_hi AND DNS_QR = 0 then (Inr (), buf, ring)
                       else (case publish_payload load skb reserved (up_offset udp) len ring of
                               (r, ring) \<Rightarrow> (r, buf, ring)))))))"

definition cfc_dns_ingress ::
  "skb_load \<Rightarrow> bytes \<Rightarrow> bytes option \<Rightarrow> bytes \<Rightarrow> dns_packet list \<Rightarrow> int \<times> bytes \<times> dns_packet list" where
  "cfc_dns_ingress load skb reserved buf ring =
     (case try_dns load skb reserved buf ring of (_, buf, ring) \<Rightarrow> (SKB_PASS, buf, ring))"

section \<open>What a DNS response is\<close>

text \<open>The documented behaviour of the helper: a read inside the packet is served and gives those
  bytes, any other read is refused and leaves some bytes in the destination.\<close>

definition loads_skb :: "skb_load \<Rightarrow> bool" where
  "loads_skb load \<longleftrightarrow> (\<forall>skb off n. length (snd (load skb off n)) = unat n \<and>
     fst (load skb off n) = (unat off + unat n \<le> length skb) \<and>
     (unat off + unat n \<le> length skb \<longrightarrow> snd (load skb off n) = take (unat n) (drop (unat off) skb)))"

definition transport_at :: "bytes \<Rightarrow> nat \<Rightarrow> bool" where
  "transport_at skb l4 \<longleftrightarrow>
     (drop_bit 4 (skb ! 0) = 4 \<and> l4 = unat (skb ! 0 AND 0x0F) * 4 \<and> 20 \<le> l4 \<and> skb ! 9 = 17 \<and>
        be16 (skb ! 6) (skb ! 7) AND 0x1FFF = 0) \<or>
     (drop_bit 4 (skb ! 0) = 6 \<and> l4 = 40 \<and> skb ! 6 = 17)"

definition datagram_payload :: "bytes \<Rightarrow> nat \<Rightarrow> bytes" where
  "datagram_payload skb l4 = take (unat (be16 (skb ! (l4 + 4)) (skb ! (l4 + 5))) - 8) (drop (l4 + 8) skb)"

definition dns_response_at :: "bytes \<Rightarrow> nat \<Rightarrow> bool" where
  "dns_response_at skb l4 \<longleftrightarrow>
     l4 + 8 \<le> length skb \<and> transport_at skb l4 \<and> be16 (skb ! l4) (skb ! (l4 + 1)) = 53 \<and>
     DNS_HEADER_LEN \<le> length (datagram_payload skb l4) \<and> datagram_payload skb l4 ! 2 AND 0x80 \<noteq> 0"

section \<open>The copies are exact\<close>

lemma unat_small: "n < 2 ^ 32 \<Longrightarrow> unat (word_of_nat n :: u32) = n"
  by (simp add: unat_of_nat)

lemma load_in:
  assumes "loads_skb load" "0 < n" "n \<le> DNS_BUF_LEN" "off + n \<le> length skb" "off < 2 ^ 32"
  shows "load_at load skb n off pos dst = (True, put pos (take n (drop off skb)) dst)"
proof -
  have u: "unat (word_of_nat off :: u32) = off" "unat (word_of_nat n :: u32) = n"
    using assms by (simp_all add: unat_small DNS_BUF_LEN_def)
  obtain ok bs where l: "load skb (word_of_nat off) (word_of_nat n) = (ok, bs)" by fastforce
  have "fst (load skb (word_of_nat off) (word_of_nat n))"
    "snd (load skb (word_of_nat off) (word_of_nat n)) = take n (drop off skb)"
    using assms u by (simp_all add: loads_skb_def)
  with l assms(2,3) show ?thesis by (simp add: load_at_def)
qed

lemma ladder_first:
  assumes "loads_skb load" "\<forall>n \<in> set ns. 0 < n \<and> n \<le> DNS_BUF_LEN" "off + avail \<le> length skb" "off < 2 ^ 32"
  shows "ladder load skb avail off pos ns dst =
    (case List.find (\<lambda>n. n \<le> avail) ns of None \<Rightarrow> (0, dst) | Some n \<Rightarrow> (n, put pos (take n (drop off skb)) dst))"
  using assms by (induction ns arbitrary: dst) (auto simp: load_in)


definition filled_to :: "bytes \<Rightarrow> nat \<Rightarrow> bytes \<Rightarrow> bool" where
  "filled_to src k dst \<longleftrightarrow> length dst = DNS_BUF_LEN \<and> take k dst = take k src"

lemma filled_put:
  assumes "filled_to src k dst" "p \<le> k" "k \<le> p + n" "p + n \<le> DNS_BUF_LEN" "p + n \<le> length src"
  shows "filled_to src (p + n) (put p (take n (drop p src)) dst)"
proof -
  have k: "take k dst = take k src" and len: "length dst = DNS_BUF_LEN" using assms(1) by (simp_all add: filled_to_def)
  have "take p dst = take p (take k dst)" using assms(2) by simp
  also have "\<dots> = take p src" unfolding k using assms(2) by simp
  finally have p: "take p dst = take p src" .
  have "take (p + n) (put p (take n (drop p src)) dst) = take p dst @ take n (drop p src)"
    using assms(4,5) len by (simp add: put_def)
  also have "\<dots> = take (p + n) src" by (simp add: p take_add)
  finally show ?thesis using assms(4,5) len by (simp add: filled_to_def)
qed

lemma coarse_rung:
  assumes "len < 512" "length dst = DNS_BUF_LEN" "loads_skb load" "off + len \<le> length skb" "off < 2 ^ 31"
  shows "\<exists>c dst'. ladder load skb len off 0 [448, 384, 320, 256, 192, 128, 64] dst = (c, dst') \<and>
    c \<le> len \<and> len < c + 64 \<and> c \<le> 448 \<and> filled_to (drop off skb) c dst'"
proof -
  let ?L = "[448, 384, 320, 256, 192, 128, 64] :: nat list"
  have eq: "ladder load skb len off 0 ?L dst =
      (case List.find (\<lambda>n. n \<le> len) ?L of None \<Rightarrow> (0, dst) | Some n \<Rightarrow> (n, put 0 (take n (drop off skb)) dst))"
    using assms by (intro ladder_first) (simp_all add: DNS_BUF_LEN_def)
  have start: "filled_to (drop off skb) 0 dst" using assms by (simp add: filled_to_def)
  have step: "filled_to (drop off skb) n (put 0 (take n (drop off skb)) dst)" if "n \<le> len" for n
    using filled_put [OF start, of 0 n] assms that by (simp add: DNS_BUF_LEN_def)
  obtain r where r: "List.find (\<lambda>n. n \<le> len) ?L = r" by blast
  have "case r of None \<Rightarrow> len < 64 | Some n \<Rightarrow> n \<le> len \<and> len < n + 64 \<and> n \<le> 448"
    unfolding r [symmetric] using assms(1) by simp
  then show ?thesis unfolding eq r using start step by (cases r) auto
qed

lemma fine_rung:
  assumes "filled_to (drop off skb) c dst" "rest < 64" "c \<le> 448" "loads_skb load" "off + c + rest \<le> length skb" "off < 2 ^ 31"
  shows "\<exists>f dst'. ladder load skb rest (off + c) c [56, 48, 40, 32, 24, 16, 8] dst = (f, dst') \<and>
    f \<le> rest \<and> rest < f + 8 \<and> filled_to (drop off skb) (c + f) dst'"
proof -
  let ?L = "[56, 48, 40, 32, 24, 16, 8] :: nat list"
  have eq: "ladder load skb rest (off + c) c ?L dst =
      (case List.find (\<lambda>n. n \<le> rest) ?L of None \<Rightarrow> (0, dst) | Some n \<Rightarrow> (n, put c (take n (drop (off + c) skb)) dst))"
    using assms by (intro ladder_first) (simp_all add: DNS_BUF_LEN_def)
  have step: "filled_to (drop off skb) (c + n) (put c (take n (drop (off + c) skb)) dst)" if "n \<le> rest" for n
    using filled_put [OF assms(1), of c n] assms that by (simp add: DNS_BUF_LEN_def add.commute)
  obtain r where r: "List.find (\<lambda>n. n \<le> rest) ?L = r" by blast
  have "case r of None \<Rightarrow> rest < 8 | Some n \<Rightarrow> n \<le> rest \<and> rest < n + 8"
    unfolding r [symmetric] using assms(2) by simp
  then show ?thesis unfolding eq r using assms(1) step by (cases r) auto
qed

lemma tail_copy:
  assumes "filled_to (drop off skb) k dst" "k \<le> len" "len < k + 8" "12 \<le> len" "len \<le> 512" "loads_skb load"
    "off + len \<le> length skb" "off < 2 ^ 31"
  shows "\<exists>dst'. copy_tail load skb off len k dst = (Some len, dst') \<and> filled_to (drop off skb) len dst'"
proof (cases "k < len")
  case True
  have "load_at load skb 8 (off + (len - 8)) (len - 8) dst = (True, put (len - 8) (take 8 (drop (off + (len - 8)) skb)) dst)"
    using assms by (intro load_in) (simp_all add: DNS_BUF_LEN_def)
  moreover have "filled_to (drop off skb) (len - 8 + 8) (put (len - 8) (take 8 (drop (len - 8) (drop off skb))) dst)"
    using assms by (intro filled_put [OF assms(1)]) (simp_all add: DNS_BUF_LEN_def)
  ultimately show ?thesis using True assms by (simp add: copy_tail_def DNS_HEADER_LEN_def add.commute)
next
  case False
  then show ?thesis using assms by (simp add: copy_tail_def DNS_HEADER_LEN_def)
qed

lemma copy_exact:
  assumes "12 \<le> len" "len \<le> 512" "length dst = DNS_BUF_LEN" "loads_skb load" "off + len \<le> length skb" "off < 2 ^ 31"
  shows "\<exists>dst'. copy_payload load skb off len dst = (Some len, dst') \<and> filled_to (drop off skb) len dst'"
proof (cases "len = 512")
  case True
  then have "load_at load skb DNS_BUF_LEN off 0 dst = (True, put 0 (take DNS_BUF_LEN (drop off skb)) dst)"
    using assms by (intro load_in) (simp_all add: DNS_BUF_LEN_def)
  moreover have "filled_to (drop off skb) (0 + 512) (put 0 (take 512 (drop 0 (drop off skb))) dst)"
    using assms True by (intro filled_put [where k = 0]) (simp_all add: filled_to_def DNS_BUF_LEN_def)
  ultimately show ?thesis using True by (simp add: copy_payload_def DNS_BUF_LEN_def)
next
  case False
  with assms(2) have less: "len < 512" by simp
  obtain c d where c: "ladder load skb len off 0 [448, 384, 320, 256, 192, 128, 64] dst = (c, d)"
    "c \<le> len" "len < c + 64" "c \<le> 448" "filled_to (drop off skb) c d"
    using coarse_rung [OF less assms(3-6)] by blast
  have rest: "len - c < 64" "off + c + (len - c) \<le> length skb" using c assms by simp_all
  obtain f d' where f: "ladder load skb (len - c) (off + c) c [56, 48, 40, 32, 24, 16, 8] d = (f, d')"
    "f \<le> len - c" "len - c < f + 8" "filled_to (drop off skb) (c + f) d'"
    using fine_rung [OF c(5) rest(1) c(4) assms(4) rest(2) assms(6)] by blast
  have k: "c + f \<le> len" "len < c + f + 8" using f(2,3) c(2) by simp_all
  have "\<not> DNS_BUF_LEN \<le> len" using less by (simp add: DNS_BUF_LEN_def)
  with tail_copy [OF f(4) k assms(1,2,4-6)] c(1) f(1) show ?thesis
    by (simp add: copy_payload_def copy_passes_def)
qed

lemma prefix_copied:
  assumes "loads_skb load" "length buf = PKT_SCRATCH_LEN" "MIN_DNS_PACKET \<le> length skb"
  shows "\<exists>n buf'. load_prefix load skb buf = (Some n, buf') \<and> n \<le> length skb \<and> length buf' = PKT_SCRATCH_LEN \<and>
    take n buf' = take n skb \<and> n \<le> PKT_SCRATCH_LEN \<and> (length skb < n + 8 \<or> n = PKT_SCRATCH_LEN)"
proof -
  let ?L = "[PKT_SCRATCH_LEN, 72, 64, 56, 48, MIN_DNS_PACKET]"
  have eq: "ladder load skb (length skb) 0 0 ?L buf =
      (case List.find (\<lambda>n. n \<le> length skb) ?L of None \<Rightarrow> (0, buf) | Some n \<Rightarrow> (n, put 0 (take n (drop 0 skb)) buf))"
    using assms by (intro ladder_first)
      (simp_all add: DNS_BUF_LEN_def PKT_SCRATCH_LEN_def MIN_DNS_PACKET_def IPV4_MIN_HEADER_LEN_def UDP_HEADER_LEN_def DNS_HEADER_LEN_def)
  have "\<exists>n. List.find (\<lambda>n. n \<le> length skb) ?L = Some n \<and> 0 < n \<and> n \<le> length skb \<and> n \<le> PKT_SCRATCH_LEN \<and>
      (length skb < n + 8 \<or> n = PKT_SCRATCH_LEN)"
    using assms(3)
    by (simp add: PKT_SCRATCH_LEN_def MIN_DNS_PACKET_def IPV4_MIN_HEADER_LEN_def UDP_HEADER_LEN_def DNS_HEADER_LEN_def)
  then obtain n where n: "List.find (\<lambda>n. n \<le> length skb) ?L = Some n" "0 < n" "n \<le> length skb"
    "n \<le> PKT_SCRATCH_LEN" "length skb < n + 8 \<or> n = PKT_SCRATCH_LEN" by blast
  then have "load_prefix load skb buf = (Some n, put 0 (take n skb) buf)" unfolding load_prefix_def eq by simp
  moreover have "length (put 0 (take n skb) buf) = PKT_SCRATCH_LEN" "take n (put 0 (take n skb) buf) = take n skb"
    using n assms(2) by (simp_all add: put_def)
  ultimately show ?thesis using n by blast
qed

section \<open>Headers read from the copied prefix\<close>

lemma pkt_u8_copied:
  assumes "take n buf = take n skb" "n \<le> length buf" "n \<le> length skb"
  shows "pkt_u8 buf n off = (if off < n then Some (skb ! off) else None)"
  using assms by (auto simp: pkt_u8_def get_at_def) (metis nth_take)

lemma pkt_u16_copied:
  assumes "take n buf = take n skb" "n \<le> length buf" "n \<le> length skb"
  shows "pkt_u16 buf n off = (if off + 1 < n then Some (be16 (skb ! off) (skb ! (off + 1))) else None)"
  by (simp add: pkt_u16_def pkt_u8_copied [OF assms] u16_of_bytes)

lemma net_l4_offset_iff:
  assumes "take n buf = take n skb" "n \<le> length buf" "n \<le> length skb" "10 \<le> n"
  shows "net_l4_offset buf n = Some l4 \<longleftrightarrow> transport_at skb l4"
  using assms(4)
  by (auto simp: net_l4_offset_def transport_at_def pkt_u8_copied [OF assms(1-3)] pkt_u16_copied [OF assms(1-3)] Let_def
      IPV4_MIN_HEADER_LEN_def NET_IPV6_HEADER_LEN_def NET_IPPROTO_UDP_def)

lemma transport_bounds: "transport_at skb l4 \<Longrightarrow> 20 \<le> l4 \<and> l4 \<le> 60"
proof -
  have "unat (b AND 0x0F) \<le> 15" for b :: u8
  proof -
    have "b AND 0x0F \<le> 0x0F" by (rule word_and_le1)
    then show ?thesis by (simp add: word_le_nat_alt)
  qed
  then show "transport_at skb l4 \<Longrightarrow> 20 \<le> l4 \<and> l4 \<le> 60" by (auto simp: transport_at_def)
qed

lemma transport_unique: "transport_at skb a \<Longrightarrow> transport_at skb b \<Longrightarrow> a = b"
  by (auto simp: transport_at_def)

definition payload_at :: "bytes \<Rightarrow> nat \<Rightarrow> nat \<Rightarrow> udp_payload" where
  "payload_at skb n l4 =
     (let declared = unat (be16 (skb ! (l4 + 4)) (skb ! (l4 + 5))) - 8 in
      \<lparr>up_src_port = be16 (skb ! l4) (skb ! (l4 + 1)), up_dst_port = be16 (skb ! (l4 + 2)) (skb ! (l4 + 3)),
       up_offset = l4 + 8, up_len = min declared (n - (l4 + 8)), up_declared_len = declared\<rparr>)"

lemma header_words:
  assumes "take n buf = take n skb" "n \<le> length buf" "n \<le> length skb" "l4 + 8 \<le> n"
  shows "pkt_u16 buf n l4 = Some (be16 (skb ! l4) (skb ! (l4 + 1)))"
    "pkt_u16 buf n (l4 + 2) = Some (be16 (skb ! (l4 + 2)) (skb ! (l4 + 3)))"
    "pkt_u16 buf n (l4 + 4) = Some (be16 (skb ! (l4 + 4)) (skb ! (l4 + 5)))"
proof -
  have "l4 + 3 = l4 + 2 + 1" "l4 + 5 = l4 + 4 + 1" by simp_all
  then show "pkt_u16 buf n (l4 + 2) = Some (be16 (skb ! (l4 + 2)) (skb ! (l4 + 3)))"
    "pkt_u16 buf n (l4 + 4) = Some (be16 (skb ! (l4 + 4)) (skb ! (l4 + 5)))"
    using assms(4) by (simp_all add: pkt_u16_copied [OF assms(1-3)] add.commute [of _ l4] del: add_2_eq_Suc add_2_eq_Suc')
  show "pkt_u16 buf n l4 = Some (be16 (skb ! l4) (skb ! (l4 + 1)))"
    using assms(4) pkt_u16_copied [OF assms(1-3)] by simp
qed

lemma payload_at_sel [simp]:
  "up_src_port (payload_at skb n l4) = be16 (skb ! l4) (skb ! (l4 + 1))"
  "up_offset (payload_at skb n l4) = l4 + 8"
  "up_declared_len (payload_at skb n l4) = unat (be16 (skb ! (l4 + 4)) (skb ! (l4 + 5))) - 8"
  by (simp_all add: payload_at_def Let_def)

lemma udp_found:
  assumes "take n buf = take n skb" "n \<le> length buf" "n \<le> length skb" "10 \<le> n" "transport_at skb l4" "l4 + 8 \<le> n"
    and "8 \<le> unat (be16 (skb ! (l4 + 4)) (skb ! (l4 + 5)))"
  shows "udp_payload_from_l3 buf n = Some (payload_at skb n l4)"
  using assms(6,7)
  by (simp add: udp_payload_from_l3_def net_l4_offset_iff [OF assms(1-4), THEN iffD2, OF assms(5)]
      header_words [OF assms(1-3,6)] UDP_HEADER_LEN_def payload_at_def Let_def min_def del: add_2_eq_Suc')

lemma udp_found_only:
  assumes "take n buf = take n skb" "n \<le> length buf" "n \<le> length skb" "10 \<le> n" "udp_payload_from_l3 buf n = Some u"
  shows "\<exists>l4. transport_at skb l4 \<and> l4 + 8 \<le> n \<and> 8 \<le> unat (be16 (skb ! (l4 + 4)) (skb ! (l4 + 5))) \<and> u = payload_at skb n l4"
proof -
  from assms(5) obtain l4 where l4: "net_l4_offset buf n = Some l4"
    by (auto simp: udp_payload_from_l3_def split: bind_splits)
  then have t: "transport_at skb l4" using net_l4_offset_iff [OF assms(1-4)] by blast
  from assms(5) l4 have le: "l4 + 8 \<le> n"
    by (auto simp: udp_payload_from_l3_def UDP_HEADER_LEN_def Let_def split: bind_splits if_splits)
  moreover from assms(5) l4 have long: "8 \<le> unat (be16 (skb ! (l4 + 4)) (skb ! (l4 + 5)))"
    by (simp add: udp_payload_from_l3_def header_words [OF assms(1-3) le] UDP_HEADER_LEN_def del: add_2_eq_Suc' split: if_splits)
  ultimately show ?thesis using udp_found [OF assms(1-4) t le long] assms(5) t by auto
qed

lemma payload_length:
  "length (datagram_payload skb l4) = min (up_declared_len (payload_at skb n l4)) (length skb - (l4 + 8))"
  by (simp add: datagram_payload_def min.commute)

lemma payload_byte: "k < length (datagram_payload skb l4) \<Longrightarrow> datagram_payload skb l4 ! k = skb ! (l4 + 8 + k)"
  by (auto simp: datagram_payload_def)

lemma payload_prefix: "take k (datagram_payload skb l4) = take (min k (length (datagram_payload skb l4))) (drop (l4 + 8) skb)"
  by (rule nth_equalityI) (auto simp: datagram_payload_def min.left_commute)

section \<open>The program\<close>

lemma published:
  assumes "loads_skb load" "length stale = DNS_BUF_LEN" "len \<le> DNS_BUF_LEN" "DNS_HEADER_LEN \<le> len"
    "off + len \<le> length skb" "off < 2 ^ 31"
  shows "\<exists>p. publish_payload load skb (Some stale) off len ring = (Inr (), ring @ [p]) \<and> payload p = take len (drop off skb)"
proof -
  obtain d where d: "copy_payload load skb off len stale = (Some len, d)" "filled_to (drop off skb) len d"
    using copy_exact [of len stale load off skb] assms by (auto simp: DNS_BUF_LEN_def DNS_HEADER_LEN_def)
  have "unat (word_of_nat len :: u16) = len" using assms(3) by (simp add: unat_of_nat DNS_BUF_LEN_def)
  then have "payload \<lparr>dp_len = word_of_nat len, dp_data = d\<rparr> = take len (drop off skb)"
    using d(2) assms(3) by (auto simp: payload_def get_range_def filled_to_def Let_def)
  then show ?thesis by (simp add: publish_payload_def d(1))
qed

lemma try_dns_after_prefix:
  assumes "loads_skb load" "length buf = PKT_SCRATCH_LEN" "MIN_DNS_PACKET \<le> length skb"
  obtains n buf' where "load_prefix load skb buf = (Some n, buf')" "take n buf' = take n skb" "n \<le> length buf'"
    "n \<le> length skb" "40 \<le> n" "length skb < n + 8 \<or> n = 80" "length buf' = 80"
proof -
  obtain n buf' where n: "load_prefix load skb buf = (Some n, buf')" "n \<le> length skb" "length buf' = PKT_SCRATCH_LEN"
    "take n buf' = take n skb" "n \<le> PKT_SCRATCH_LEN" "length skb < n + 8 \<or> n = PKT_SCRATCH_LEN"
    using prefix_copied [OF assms] by blast
  have "40 \<le> n"
  proof -
    have "fst (load_prefix load skb buf) = Some n" using n(1) by simp
    then show ?thesis
      by (auto simp: load_prefix_def PKT_SCRATCH_LEN_def MIN_DNS_PACKET_def IPV4_MIN_HEADER_LEN_def UDP_HEADER_LEN_def
          DNS_HEADER_LEN_def split: prod.splits if_splits)
  qed
  with n that show ?thesis by (simp add: PKT_SCRATCH_LEN_def)
qed

lemma ingress_publishes:
  assumes "loads_skb load" "length buf = PKT_SCRATCH_LEN" "length stale = DNS_BUF_LEN" "dns_response_at skb l4"
  shows "\<exists>buf' p. cfc_dns_ingress load skb (Some stale) buf ring = (SKB_PASS, buf', ring @ [p]) \<and>
    payload p = take DNS_BUF_LEN (datagram_payload skb l4)"
proof -
  let ?P = "datagram_payload skb l4"
  have t: "transport_at skb l4" "20 \<le> l4" "l4 \<le> 60" and port: "be16 (skb ! l4) (skb ! (l4 + 1)) = 53"
    and len: "12 \<le> length ?P" and qr: "?P ! 2 AND 0x80 \<noteq> 0"
    using assms(4) transport_bounds by (auto simp: dns_response_at_def DNS_HEADER_LEN_def)
  from len have room: "l4 + 20 \<le> length skb" by (auto simp: datagram_payload_def)
  then have "MIN_DNS_PACKET \<le> length skb" using t
    by (simp add: MIN_DNS_PACKET_def IPV4_MIN_HEADER_LEN_def UDP_HEADER_LEN_def DNS_HEADER_LEN_def)
  from this assms obtain n buf' where n: "load_prefix load skb buf = (Some n, buf')" "take n buf' = take n skb"
    "n \<le> length buf'" "n \<le> length skb" "40 \<le> n" "length skb < n + 8 \<or> n = 80" "length buf' = 80"
    using try_dns_after_prefix by blast
  have in_prefix: "l4 + 11 \<le> n" using n(6) room t by auto
  have declared: "8 \<le> unat (be16 (skb ! (l4 + 4)) (skb ! (l4 + 5)))"
    using len by (auto simp: datagram_payload_def)
  have found: "udp_payload_from_l3 buf' n = Some (payload_at skb n l4)"
    using n in_prefix declared t by (intro udp_found) simp_all
  define m where "m = min DNS_BUF_LEN (length ?P)"
  have length_eq: "capture_len (unat (be16 (skb ! (l4 + 4)) (skb ! (l4 + 5))) - 8) (length skb - (l4 + 8)) = m"
    unfolding m_def by (simp add: capture_len_def datagram_payload_def min_def Let_def)
  have m: "12 \<le> m" "m \<le> DNS_BUF_LEN" "m \<le> length ?P" using len by (simp_all add: m_def DNS_BUF_LEN_def)
  have "l4 + 8 + m \<le> length skb" using m(3) room by (auto simp: datagram_payload_def)
  then obtain p where p: "publish_payload load skb (Some stale) (l4 + 8) m ring = (Inr (), ring @ [p])"
    "payload p = take m (drop (l4 + 8) skb)"
    using published [OF assms(1,3), of m "l4 + 8" skb ring] m t by (auto simp: DNS_HEADER_LEN_def)
  have "buf' ! (l4 + 10) = skb ! (l4 + 10)"
    using nth_take [of "l4 + 10" n buf'] nth_take [of "l4 + 10" n skb] n(2) in_prefix by simp
  also have "\<dots> = ?P ! 2" using payload_byte [of 2 skb l4] len by (simp add: add.commute [of _ l4])
  finally have flag: "get_at buf' (l4 + 10) = Some (?P ! 2)" using n in_prefix by (simp add: get_at_def)
  have "try_dns load skb (Some stale) buf ring = (Inr (), buf', ring @ [p])"
    using \<open>MIN_DNS_PACKET \<le> length skb\<close> m in_prefix flag qr p length_eq port
    by (simp add: try_dns_def n(1) found is_dns_response_def DNS_PORT_def DNS_QR_def DNS_HEADER_LEN_def Let_def
        add.commute [of _ l4])
  moreover have "payload p = take DNS_BUF_LEN ?P"
    by (simp add: p(2) m_def payload_prefix)
  ultimately show ?thesis by (simp add: cfc_dns_ingress_def)
qed

lemma ingress_only_responses:
  assumes "loads_skb load" "length buf = PKT_SCRATCH_LEN" "cfc_dns_ingress load skb reserved buf ring = (v, buf', ring')"
    "ring' \<noteq> ring"
  shows "\<exists>l4. dns_response_at skb l4"
proof -
  obtain r where run: "try_dns load skb reserved buf ring = (r, buf', ring')"
    using assms(3) by (auto simp: cfc_dns_ingress_def split: prod.splits)
  then have long: "MIN_DNS_PACKET \<le> length skb" using assms(4) by (auto simp: try_dns_def split: if_splits)
  from this assms obtain n b where n: "load_prefix load skb buf = (Some n, b)" "take n b = take n skb"
    "n \<le> length b" "n \<le> length skb" "40 \<le> n" "length b = 80"
    using try_dns_after_prefix by metis
  from run long assms(4) obtain u where u: "udp_payload_from_l3 b n = Some u" "up_src_port u = 53"
    by (auto simp: try_dns_def n(1) is_dns_response_def DNS_PORT_def split: option.splits if_splits)
  have "10 \<le> n" using n(5) by simp
  from udp_found_only [OF n(2-4) this u(1)] obtain l4 where l4: "transport_at skb l4" "l4 + 8 \<le> n"
    "8 \<le> unat (be16 (skb ! (l4 + 4)) (skb ! (l4 + 5)))" and u_eq: "u = payload_at skb n l4" by blast
  have off: "up_offset u = l4 + 8" by (simp add: u_eq)
  from run long assms(4) u off have gate: "DNS_HEADER_LEN \<le> min (up_declared_len u) (length skb - (l4 + 8))"
    "l4 + 11 \<le> n" "b ! (l4 + 10) AND 0x80 \<noteq> 0"
    by (auto simp: try_dns_def n(1) is_dns_response_def DNS_PORT_def DNS_QR_def DNS_HEADER_LEN_def DNS_BUF_LEN_def capture_len_def
        get_at_def Let_def add.commute [of _ l4] split: if_splits)
  have long_payload: "DNS_HEADER_LEN \<le> length (datagram_payload skb l4)"
    using gate(1) by (simp add: datagram_payload_def u_eq)
  have "b ! (l4 + 10) = skb ! (l4 + 10)" using nth_take [of "l4 + 10" n b] nth_take [of "l4 + 10" n skb] n(2) gate(2) by simp
  also have "\<dots> = datagram_payload skb l4 ! 2"
    using payload_byte [of 2 skb l4] long_payload by (simp add: DNS_HEADER_LEN_def add.commute [of _ l4])
  finally have "datagram_payload skb l4 ! 2 AND 0x80 \<noteq> 0" using gate(3) by simp
  then show ?thesis using l4 n(4) u(2) long_payload
    by (intro exI [of _ l4]) (simp add: dns_response_at_def u_eq)
qed

text \<open>the kernel publishes DNS responses and nothing else, whole.  A packet gives a ring record
  exactly when it is an unfragmented UDP datagram (or a first fragment) over IPv4 with any options or over plain IPv6,
  from port 53, with the response bit set and a DNS header's worth of payload; the record then
  holds the payload up to 512 bytes, byte for byte, whatever the scratch buffer and the ring
  memory held before.  The packet always passes.\<close>

theorem kernel_publishes_dns_responses:
  assumes "loads_skb load" "length buf = PKT_SCRATCH_LEN" "length stale = DNS_BUF_LEN"
    and "cfc_dns_ingress load skb (Some stale) buf ring = (v, buf', ring')"
  shows "v = SKB_PASS \<and>
    (\<forall>l4. dns_response_at skb l4 \<longrightarrow>
       (\<exists>p. ring' = ring @ [p] \<and> payload p = take DNS_BUF_LEN (datagram_payload skb l4))) \<and>
    ((\<nexists>l4. dns_response_at skb l4) \<longrightarrow> ring' = ring)"
proof (intro conjI allI impI)
  show "v = SKB_PASS" using assms(4) by (auto simp: cfc_dns_ingress_def split: prod.splits)
  show "\<exists>p. ring' = ring @ [p] \<and> payload p = take DNS_BUF_LEN (datagram_payload skb l4)" if "dns_response_at skb l4" for l4
    using ingress_publishes [OF assms(1-3) that, of ring] assms(4) by auto
  show "ring' = ring" if "\<nexists>l4. dns_response_at skb l4"
    using ingress_only_responses [OF assms(1,2,4)] that by blast
qed

definition example_load :: skb_load where
  "example_load skb off n =
     (if unat off + unat n \<le> length skb then (True, take (unat n) (drop (unat off) skb))
      else (False, replicate (unat n) 0))"

lemma example_load_ok: "loads_skb example_load"
  by (simp add: loads_skb_def example_load_def)

definition example_skb :: bytes where
  "example_skb = [0x45, 0, 0, 41, 0, 0, 0, 0, 64, 17, 0, 0, 9, 9, 9, 9, 10, 0, 0, 1, 0, 53, 4, 0, 0, 21, 0, 0] @
     [0, 7, 0x81, 0x80, 0, 0, 0, 0, 0, 0, 0, 0, 3]"

lemma example_skb_response: "dns_response_at example_skb 20"
  by (simp add: dns_response_at_def example_skb_def transport_at_def datagram_payload_def DNS_HEADER_LEN_def from_be_def)

theorem kernel_publishes_dns_responses_witness:
  "\<exists>p. snd (snd (cfc_dns_ingress example_load example_skb (Some (replicate 512 1)) (replicate 80 1) [])) = [p] \<and>
     payload p = [0, 7, 0x81, 0x80, 0, 0, 0, 0, 0, 0, 0, 0, 3]"
proof -
  obtain v buf' ring' where run:
    "cfc_dns_ingress example_load example_skb (Some (replicate 512 1)) (replicate 80 1) [] = (v, buf', ring')"
    by (cases "cfc_dns_ingress example_load example_skb (Some (replicate 512 1)) (replicate 80 1) []")
  have sizes: "length (replicate 80 (1 :: byte)) = PKT_SCRATCH_LEN" "length (replicate 512 (1 :: byte)) = DNS_BUF_LEN"
    by (simp_all add: PKT_SCRATCH_LEN_def DNS_BUF_LEN_def)
  obtain p where "ring' = [] @ [p]" "payload p = take DNS_BUF_LEN (datagram_payload example_skb 20)"
    using kernel_publishes_dns_responses [OF example_load_ok sizes run] example_skb_response by blast
  moreover have "datagram_payload example_skb 20 = [0, 7, 0x81, 0x80, 0, 0, 0, 0, 0, 0, 0, 0, 3]"
    by (simp add: datagram_payload_def example_skb_def from_be_def)
  ultimately show ?thesis by (simp add: run DNS_BUF_LEN_def)
qed

section \<open>A response, byte by byte\<close>

text \<open>RFC 1035, on the bytes of the message: a name is labels of 1 to 63 bytes, each after its
  length, then a zero byte or a two-byte pointer back into the message, where it goes on.  The
  indices are the labels, the pointers followed and the offset after the name.\<close>

inductive name_on_wire :: "bytes \<Rightarrow> nat \<Rightarrow> bytes list \<Rightarrow> nat \<Rightarrow> nat \<Rightarrow> bool" for m where
  wire_root: "off < length m \<Longrightarrow> m ! off = 0 \<Longrightarrow> name_on_wire m off [] 0 (off + 1)"
| wire_label: "off < length m \<Longrightarrow> n = unat (m ! off) \<Longrightarrow> 0 < n \<Longrightarrow> n \<le> 63 \<Longrightarrow> off + 1 + n \<le> length m \<Longrightarrow>
    name_on_wire m (off + 1 + n) ls js e \<Longrightarrow> name_on_wire m off (take n (drop (off + 1) m) # ls) js e"
| wire_pointer: "off + 1 < length m \<Longrightarrow> 192 \<le> unat (m ! off) \<Longrightarrow>
    target = (unat (m ! off) - 192) * 256 + unat (m ! (off + 1)) \<Longrightarrow> target < off \<Longrightarrow>
    name_on_wire m target ls js e \<Longrightarrow> name_on_wire m off ls (Suc js) (off + 2)"

definition word16_at :: "bytes \<Rightarrow> nat \<Rightarrow> u16" where "word16_at m off = from_be (take 2 (drop off m))"
definition word32_at :: "bytes \<Rightarrow> nat \<Rightarrow> u32" where "word32_at m off = from_be (take 4 (drop off m))"

text \<open>A name a resolver may hand over: up to 253 characters, 31 labels and pointers together, and
  four pointers.\<close>

definition record_on_wire :: "bytes \<Rightarrow> nat \<Rightarrow> resource \<Rightarrow> nat \<Rightarrow> bool" where
  "record_on_wire m off r after \<longleftrightarrow>
     (\<exists>js e. name_on_wire m off (rr_name r) js e \<and> js \<le> 4 \<and> length (rr_name r) + js \<le> 31 \<and>
        length (dotted (rr_name r)) \<le> 253 \<and>
        rr_type r = word16_at m e \<and> rr_class r = word16_at m (e + 2) \<and> rr_ttl r = word32_at m (e + 4) \<and>
        (let n = unat (word16_at m (e + 8)) in
         e + 10 + n \<le> length m \<and> rr_data r = take n (drop (e + 10) m) \<and> after = e + 10 + n))"

fun records_on_wire :: "bytes \<Rightarrow> nat \<Rightarrow> resource list \<Rightarrow> bool" where
  "records_on_wire m off [] \<longleftrightarrow> True"
| "records_on_wire m off (r # rs) \<longleftrightarrow> (\<exists>after. record_on_wire m off r after \<and> records_on_wire m after rs)"

fun questions_on_wire :: "bytes \<Rightarrow> nat \<Rightarrow> nat \<Rightarrow> nat \<Rightarrow> bool" where
  "questions_on_wire m off 0 after \<longleftrightarrow> after = off"
| "questions_on_wire m off (Suc k) after \<longleftrightarrow>
     (\<exists>ls js e. name_on_wire m off ls js e \<and> length ls \<le> 31 \<and> e + 4 \<le> length m \<and> questions_on_wire m (e + 4) k after)"

text \<open>A response without error of up to four questions, whose first eight records (all, if fewer)
  are \<open>rs\<close>.\<close>

definition response_on_wire :: "bytes \<Rightarrow> resource list \<Rightarrow> bool" where
  "response_on_wire m rs \<longleftrightarrow> 12 \<le> length m \<and> 128 \<le> unat (m ! 2) \<and> unat (m ! 3) mod 16 = 0 \<and>
     unat (word16_at m 4) \<le> 4 \<and> length rs = min (unat (word16_at m 6)) 8 \<and>
     (\<exists>after. questions_on_wire m 12 (unat (word16_at m 4)) after \<and> records_on_wire m after rs)"

text \<open>What its A and AAAA records of the Internet class say: the name up to its first zero byte,
  the address, the lifetime.\<close>

fun addresses :: "resource list \<Rightarrow> (bytes \<times> ip_addr \<times> u32) list" where
  "addresses [] = []"
| "addresses (r # rs) =
     (if rr_class r = 1 \<and> rr_type r = 1 \<and> length (rr_data r) = 4
      then [(takeWhile (\<lambda>b. b \<noteq> 0) (dotted (rr_name r)), V4 (from_be (rr_data r)), rr_ttl r)]
      else if rr_class r = 1 \<and> rr_type r = 28 \<and> length (rr_data r) = 16
      then [(takeWhile (\<lambda>b. b \<noteq> 0) (dotted (rr_name r)), V6 (from_be (rr_data r)), rr_ttl r)]
      else []) @ addresses rs"

lemma addresses_eq: "map resource_view (filter is_address rs) = addresses rs"
  by (induction rs) (auto simp: is_address_def resource_view_def CLASS_IN_def TYPE_A_def TYPE_AAAA_def)

lemma u8_on_wire: "off < length m \<Longrightarrow> u8_at (new_cursor m) off = Some (m ! off)"
  by (simp add: u8_at_new get_at_def)

lemma bytes_on_wire: "off + n \<le> length m \<Longrightarrow> bytes_at (new_cursor m) off n = Some (take n (drop off m))"
proof (induction n arbitrary: off)
  case (Suc n)
  then have "drop off m = m ! off # drop (off + 1) m" by (simp add: Cons_nth_drop_Suc)
  with Suc show ?case by (simp add: u8_on_wire)
qed simp

lemma u16_on_wire: "off + 2 \<le> length m \<Longrightarrow> u16_at (new_cursor m) off = Some (word16_at m off)"
proof -
  assume l: "off + 2 \<le> length m"
  then have "length (take 2 (drop off m)) = 2" by simp
  with bytes_on_wire [OF l] show ?thesis
    using holds_u16 [of "new_cursor m" off "take 2 (drop off m)"] by (simp only: holds_def word16_at_def)
qed

lemma u32_on_wire: "off + 4 \<le> length m \<Longrightarrow> u32_at (new_cursor m) off = Some (word32_at m off)"
proof -
  assume l: "off + 4 \<le> length m"
  then have "length (take 4 (drop off m)) = 4" by simp
  with bytes_on_wire [OF l] show ?thesis
    using holds_u32 [of "new_cursor m" off "take 4 (drop off m)"] by (simp only: holds_def word32_at_def)
qed

lemma pointer_byte:
  fixes b :: u8
  assumes "192 \<le> unat b"
  shows "b AND PTR_MASK = PTR_MASK" "unat (b AND NOT PTR_MASK) = unat b - 192"
proof -
  have n: "n div 64 = 3 \<and> n div 128 = 1" if "192 \<le> n" "n < 256" for n :: nat
    using that by (intro conjI div_nat_eqI) simp_all
  have "unat b < 256" using unat_lt_2p [of b] unfolding len_of_numeral_defs by simp
  from n [OF assms this] have "unat b div 64 = 3" "unat b div 128 = 1" by blast+
  then have "bit (unat b) 6" "bit (unat b) 7" by (simp_all add: bit_iff_odd)
  then have bits: "bit b 6" "bit b 7" by (simp_all add: bit_unsigned_iff)
  show m: "b AND PTR_MASK = PTR_MASK"
  proof (rule bit_word_eqI)
    fix k assume "k < LENGTH(8)"
    then have "k \<in> {0, 1, 2, 3, 4, 5, 6, 7}" by auto
    with bits show "bit (b AND PTR_MASK) k = bit PTR_MASK k"
      by (auto simp: bit_and_iff PTR_MASK_def bit_numeral_rec)
  qed
  have "(b AND PTR_MASK) OR (b AND NOT PTR_MASK) = b"
    by (rule bit_eqI) (auto simp: bit_or_iff bit_and_iff bit_not_iff)
  then have "b = PTR_MASK OR (b AND NOT PTR_MASK)" unfolding m by (rule sym)
  also have "\<dots> = PTR_MASK + (b AND NOT PTR_MASK)"
    by (rule disjunctive_add [symmetric]) (auto simp: bit_and_iff bit_not_iff)
  finally have "b = PTR_MASK + (b AND NOT PTR_MASK)" .
  then have "b AND NOT PTR_MASK = b - 192" by (simp add: PTR_MASK_def algebra_simps)
  moreover have "192 \<le> b" using assms by (simp add: word_le_nat_alt)
  ultimately show "unat (b AND NOT PTR_MASK) = unat b - 192" by (simp add: unat_sub)
qed

lemma name_on_wire_read: "name_on_wire m off ls js e \<Longrightarrow> dns_name (new_cursor m) off ls js e \<and> e \<le> length m"
proof (induction rule: name_on_wire.induct)
  case (wire_root off)
  then show ?case using dns_name.name_root [of "new_cursor m" off] by (simp add: u8_on_wire)
next
  case (wire_label off n ls js e)
  then have b: "m ! off \<noteq> 0" "(m ! off) AND PTR_MASK = 0"
    using label_length_byte [of n] by (auto simp: MAX_LABEL_LEN_def)
  show ?case using wire_label by (auto intro!: dns_name.name_label [OF u8_on_wire b] bytes_on_wire)
next
  case (wire_pointer off target ls js e)
  have t: "target = unat (m ! off AND NOT PTR_MASK) * 256 + unat (m ! (off + 1))"
    using wire_pointer(3) pointer_byte(2) [OF wire_pointer(2)] by simp
  have u: "u8_at (new_cursor m) off = Some (m ! off)" "u8_at (new_cursor m) (off + 1) = Some (m ! (off + 1))"
    using wire_pointer(1) by (simp_all add: u8_on_wire)
  have "dns_name (new_cursor m) off ls (Suc js) (off + 2)"
    by (rule dns_name.name_pointer [OF u(1) pointer_byte(1) [OF wire_pointer(2)] u(2) t wire_pointer(4)])
      (use wire_pointer(6) in blast)
  with wire_pointer(1) show ?case by simp
qed

lemma record_on_wire_read:
  assumes "record_on_wire m off r after"
  shows "record_at (new_cursor m) off r after"
proof -
  from assms obtain js e where n: "name_on_wire m off (rr_name r) js e" "js \<le> 4" "length (rr_name r) + js \<le> 31"
      "length (dotted (rr_name r)) \<le> 253"
    and f: "rr_type r = word16_at m e" "rr_class r = word16_at m (e + 2)" "rr_ttl r = word32_at m (e + 4)"
    and d: "e + 10 + unat (word16_at m (e + 8)) \<le> length m"
      "rr_data r = take (unat (word16_at m (e + 8))) (drop (e + 10) m)" "after = e + 10 + unat (word16_at m (e + 8))"
    unfolding record_on_wire_def Let_def by blast
  have len: "length (rr_data r) = unat (word16_at m (e + 8))" using d(1,2) by simp
  have lt: "unat (word16_at m (e + 8)) < 65536" using unat_lt_2p [of "word16_at m (e + 8)"] by simp
  have "u16_at (new_cursor m) e = Some (rr_type r)" "u16_at (new_cursor m) (e + 2) = Some (rr_class r)"
      "u32_at (new_cursor m) (e + 4) = Some (rr_ttl r)"
      "u16_at (new_cursor m) (e + 8) = Some (word_of_nat (length (rr_data r)))"
    using d(1) unfolding f len by (simp_all add: u16_on_wire u32_on_wire)
  moreover have "bytes_at (new_cursor m) (e + 10) (length (rr_data r)) = Some (rr_data r)"
    using d(1) unfolding len by (simp add: bytes_on_wire d(2))
  ultimately show ?thesis
    unfolding record_at_def using n name_on_wire_read [OF n(1)] d lt len
    by (intro exI [of _ js] exI [of _ e] conjI) (simp_all add: MAX_LABELS_def MAX_LABEL_JUMPS_def MAX_NAME_LEN_def)
qed

lemma records_on_wire_read: "records_on_wire m off rs \<Longrightarrow> records_at (new_cursor m) off rs"
  by (induction rs arbitrary: off) (auto dest: record_on_wire_read)

lemma questions_on_wire_read:
  "questions_on_wire m off k after \<Longrightarrow> \<exists>qs. length qs = k \<and> questions_at (new_cursor m) off qs after"
proof (induction k arbitrary: off)
  case (Suc k)
  from Suc.prems obtain ls js e where n: "name_on_wire m off ls js e" "length ls \<le> 31" "e + 4 \<le> length m"
      "questions_on_wire m (e + 4) k after" by auto
  from Suc.IH [OF n(4)] obtain qs where qs: "length qs = k" "questions_at (new_cursor m) (e + 4) qs after" by blast
  have "question_at (new_cursor m) off (ls, word16_at m e, word16_at m (e + 2)) (e + 4)"
    using n name_on_wire_read [OF n(1)] 
    unfolding question_at.simps by (intro exI [of _ js] exI [of _ e] conjI) (simp_all add: u16_on_wire MAX_LABELS_def)
  with qs show ?case
    by (intro exI [of _ "(ls, word16_at m e, word16_at m (e + 2)) # qs"]) (auto intro: exI [of _ "e + 4"])
qed simp

lemma response_flags:
  fixes a b :: u8
  assumes "128 \<le> unat a" "unat b mod 16 = 0"
  shows "be16 a b AND 0x8000 \<noteq> 0" "(ucast (be16 a b AND 0x000F) :: u8) = 0"
proof -
  let ?w = "be16 a b"
  have w: "unat ?w = unat a * 256 + unat b" by (rule be16_unat)
  have n: "(x * 256 + y) div 2 ^ 15 = 1" if "128 \<le> x" "x < 2 ^ 8" "y < 2 ^ 8" for x y :: nat
    using that by simp
  have "unat ?w div 2 ^ 15 = 1"
    unfolding w by (rule n [OF assms(1)]) (use unat_lt_2p [of a] unat_lt_2p [of b] in simp_all)
  then have "bit (unat ?w) 15" by (simp add: bit_iff_odd)
  then have "bit ?w 15" by (simp add: bit_unsigned_iff)
  then have "bit (?w AND 0x8000) 15" by (simp add: bit_and_iff bit_numeral_rec)
  then show "?w AND 0x8000 \<noteq> 0" by auto
  have "(0x000F :: u16) = mask 4" by (simp add: mask_eq_exp_minus_1)
  then have "unat (?w AND 0x000F) = unat ?w mod 16"
    by (simp only: flip: take_bit_eq_mask) (simp only: unsigned_take_bit_eq, simp add: take_bit_eq_mod)
  also have "\<dots> = 0" unfolding w using assms(2) by presburger
  finally show "(ucast (?w AND 0x000F) :: u8) = 0" by (simp add: unat_eq_0)
qed

lemma response_on_wire_read:
  assumes "response_on_wire m rs" "scratch_ok scratch"
  shows "map answer_view (for_each_answer (new_cursor m) scratch) = addresses rs"
proof -
  define h where "h = \<lparr>h_id = word16_at m 0, h_flags = word16_at m 2, h_qdcount = word16_at m 4, h_ancount = word16_at m 6,
    h_nscount = word16_at m 8, h_arcount = word16_at m 10\<rparr>"
  from assms(1) obtain after where r: "12 \<le> length m" "128 \<le> unat (m ! 2)" "unat (m ! 3) mod 16 = 0"
      "unat (word16_at m 4) \<le> 4" "length rs = min (unat (word16_at m 6)) 8"
      "questions_on_wire m 12 (unat (word16_at m 4)) after" "records_on_wire m after rs"
    unfolding response_on_wire_def by (elim conjE exE) (rule that)
  have p: "parse_header (new_cursor m) = Some h"
    using r(1) by (simp add: parse_header_def u16_on_wire h_def)
  have "word16_at m 2 = be16 (m ! 2) (m ! 3)"
  proof -
    have "take 2 (drop 2 m) = [m ! 2, m ! 3]" using r(1) by (simp add: take_Suc_conv_app_nth numeral_2_eq_2 numeral_3_eq_3)
    then show ?thesis by (simp add: word16_at_def)
  qed
  then have f: "is_response h" "rcode h = 0"
    using response_flags [OF r(2,3)] by (simp_all add: is_response_def rcode_def h_def)
  obtain qs where qs: "length qs = unat (word16_at m 4)" "questions_at (new_cursor m) 12 qs after"
    using questions_on_wire_read [OF r(6)] by blast
  show ?thesis
    unfolding addresses_eq [symmetric]
    by (rule answers_of_message [OF p f, of qs after])
      (use qs r records_on_wire_read assms(2) in \<open>simp_all add: DNS_HEADER_LEN_def MAX_QUESTIONS_def MAX_ANSWERS_def h_def\<close>)
qed

text \<open>C35: A DNS response on the wire is read back by the daemon.  Let a datagram from port 53 carry
  a response without error, of up to four questions, whose first eight records are \<open>rs\<close> by the
  RFC, names compressed in any way that takes up to four pointers, 31 labels and pointers together
  and 253 characters.  The kernel hands its payload to the daemon, whatever its buffers held
  before, and passes the packet; of a payload of at most 512 bytes the parser then gives exactly
  the A and AAAA records of the Internet class in \<open>rs\<close>, in order, with their names, addresses and
  lifetimes, and of a longer one, cut there, an initial part of those.\<close>

theorem captured_response_reads_back:
  assumes "loads_skb load" "length buf = PKT_SCRATCH_LEN" "length stale = DNS_BUF_LEN" "dns_response_at skb l4"
    and "response_on_wire (datagram_payload skb l4) rs" "scratch_ok scratch"
  shows "\<exists>buf' p. cfc_dns_ingress load skb (Some stale) buf ring = (SKB_PASS, buf', ring @ [p]) \<and>
    prefix (map answer_view (for_each_answer (new_cursor (payload p)) scratch)) (addresses rs) \<and>
    (length (datagram_payload skb l4) \<le> 512 \<longrightarrow>
       map answer_view (for_each_answer (new_cursor (payload p)) scratch) = addresses rs)"
proof -
  let ?m = "datagram_payload skb l4"
  obtain buf' p where p: "cfc_dns_ingress load skb (Some stale) buf ring = (SKB_PASS, buf', ring @ [p])"
    "payload p = take DNS_BUF_LEN ?m"
    using ingress_publishes [OF assms(1-4)] by blast
  have whole: "map answer_view (for_each_answer (new_cursor ?m) scratch) = addresses rs"
    by (rule response_on_wire_read [OF assms(5,6)])
  have "prefix (map answer_view (for_each_answer (new_cursor (payload p)) scratch)) (addresses rs)"
    unfolding p(2) whole [symmetric] using truncation_only_loses_answers by (intro map_mono_prefix) blast
  moreover have "payload p = ?m" if "length ?m \<le> 512" using that p(2) by (simp add: DNS_BUF_LEN_def)
  ultimately show ?thesis using p(1) whole by auto
qed

text \<open>A chain: the alias of the question's name is written in the data of the first record, and the
  second record's owner points there, from where a second pointer leads into the question.\<close>

definition chain_message :: bytes where
  "chain_message =
     [0, 7, 0x81, 0x80, 0, 1, 0, 2, 0, 0, 0, 0, 1, 119, 1, 97, 0, 0, 1, 0, 1,
      0xC0, 12, 0, 5, 0, 1, 0, 0, 0, 60, 0, 4, 1, 99, 0xC0, 14, 0xC0, 33, 0, 1, 0, 1, 0, 0, 0, 60, 0, 4, 1, 2, 3, 4]"

definition chain_wire :: bytes where
  "chain_wire = [0x45, 0, 0, 81, 0, 0, 0, 0, 64, 17, 0, 0, 9, 9, 9, 9, 10, 0, 0, 1, 0, 53, 4, 0, 0, 61, 0, 0] @ chain_message"

definition chain_records :: "resource list" where
  "chain_records =
     [\<lparr>rr_name = [[119], [97]], rr_type = 5, rr_class = 1, rr_ttl = 60, rr_data = [1, 99, 0xC0, 14]\<rparr>,
      \<lparr>rr_name = [[99], [97]], rr_type = 1, rr_class = 1, rr_ttl = 60, rr_data = [1, 2, 3, 4]\<rparr>]"

lemma chain_at:
  "length chain_message = 53" "chain_message ! 2 = 0x81" "chain_message ! 3 = 0x80"
  "chain_message ! 12 = 1" "chain_message ! 14 = 1" "chain_message ! 16 = 0" "chain_message ! 21 = 0xC0"
  "chain_message ! 22 = 12" "chain_message ! 33 = 1" "chain_message ! 35 = 0xC0" "chain_message ! 36 = 14"
  "chain_message ! 37 = 0xC0" "chain_message ! 38 = 33" "take 1 (drop 13 chain_message) = [119]"
  "take 1 (drop 15 chain_message) = [97]" "take 1 (drop 34 chain_message) = [99]"
  by (simp_all add: chain_message_def)

lemma chain_names:
  "name_on_wire chain_message 12 [[119], [97]] 0 17" "name_on_wire chain_message 21 [[119], [97]] 1 23"
  "name_on_wire chain_message 37 [[99], [97]] 2 39"
proof -
  have "name_on_wire chain_message 16 [] 0 17"
    using wire_root [of 16 chain_message] by (simp add: chain_at)
  then have a: "name_on_wire chain_message 14 [[97]] 0 17"
    using wire_label [of 14 chain_message 1 "[]" 0 17] by (simp add: chain_at del: One_nat_def)
  then show w: "name_on_wire chain_message 12 [[119], [97]] 0 17"
    using wire_label [of 12 chain_message 1 "[[97]]" 0 17] by (simp add: chain_at del: One_nat_def)
  then show "name_on_wire chain_message 21 [[119], [97]] 1 23"
    using wire_pointer [of 21 chain_message 12 "[[119], [97]]" 0 17] by (simp add: chain_at)
  have "name_on_wire chain_message 35 [[97]] 1 37"
    using wire_pointer [of 35 chain_message 14 "[[97]]" 0 17] a by (simp add: chain_at)
  then have "name_on_wire chain_message 33 [[99], [97]] 1 37"
    using wire_label [of 33 chain_message 1 "[[97]]" 1 37] by (simp add: chain_at del: One_nat_def)
  then show "name_on_wire chain_message 37 [[99], [97]] 2 39"
    using wire_pointer [of 37 chain_message 33 "[[99], [97]]" 1 37]
    by (simp add: chain_at) (simp add: numeral_2_eq_2)
qed

lemma chain_response: "response_on_wire chain_message chain_records"
proof -
  have w: "word16_at chain_message 4 = 1" "word16_at chain_message 6 = 2"
    by (simp_all add: word16_at_def chain_message_def from_be_def)
  have "record_on_wire chain_message 21 (chain_records ! 0) 37"
    unfolding record_on_wire_def
    by (intro exI [of _ 1] exI [of _ 23] conjI)
      (use chain_names(2) in \<open>simp_all add: chain_records_def chain_message_def word16_at_def word32_at_def from_be_def\<close>)
  moreover have "record_on_wire chain_message 37 (chain_records ! 1) 53"
    unfolding record_on_wire_def
    by (intro exI [of _ 2] exI [of _ 39] conjI)
      (use chain_names(3) in \<open>simp_all add: chain_records_def chain_message_def word16_at_def word32_at_def from_be_def\<close>)
  ultimately have "records_on_wire chain_message 21 chain_records"
    by (auto simp: chain_records_def)
  moreover have "questions_on_wire chain_message 12 1 21"
    unfolding One_nat_def questions_on_wire.simps
    by (intro exI [of _ "[[119], [97]]"] exI [of _ 0] exI [of _ 17] conjI chain_names(1)) (simp_all add: chain_at)
  ultimately show ?thesis
    unfolding response_on_wire_def by (intro conjI exI [of _ 21]) (simp_all add: w chain_at chain_records_def)
qed

theorem captured_response_reads_back_witness:
  "\<exists>buf' p. cfc_dns_ingress example_load chain_wire (Some (replicate 512 1)) (replicate 80 1) [] = (SKB_PASS, buf', [p]) \<and>
     map answer_view (for_each_answer (new_cursor (payload p)) zeroed_answer) = [([99, 0x2E, 97], V4 0x01020304, 60)]"
proof -
  have m: "datagram_payload chain_wire 20 = chain_message"
    by (simp add: datagram_payload_def chain_wire_def chain_message_def from_be_def)
  have at: "dns_response_at chain_wire 20"
    unfolding dns_response_at_def m
    by (simp add: chain_wire_def chain_message_def transport_at_def DNS_HEADER_LEN_def from_be_def)
  have a: "addresses chain_records = [([99, 0x2E, 97], V4 0x01020304, 60)]"
    by (simp add: chain_records_def from_be_def)
  have sizes: "length (replicate 80 (1 :: byte)) = PKT_SCRATCH_LEN" "length (replicate 512 (1 :: byte)) = DNS_BUF_LEN"
    "scratch_ok zeroed_answer"
    by (simp_all add: PKT_SCRATCH_LEN_def DNS_BUF_LEN_def scratch_ok_def zeroed_answer_def)
  have r: "response_on_wire (datagram_payload chain_wire 20) chain_records"
    unfolding m by (rule chain_response)
  show ?thesis
    using captured_response_reads_back [OF example_load_ok sizes(1,2) at r sizes(3), of "[]"]
    unfolding m a append_Nil by (elim exE conjE, intro exI conjI) (assumption, simp add: chain_at)
qed

end
