(* ===== verification/KernelConnect.thy ===== *)
theory KernelConnect
  imports ProcTable
begin

unbundle bit_operations_syntax

text \<open>
  The deciding programs of the kernel object, \<open>crates/cfc-ebpf/src/main.rs\<close>: the exec and exit
  tracepoints and the connect hooks, with the constants and records of
  \<open>crates/cfc-ebpf-proto/src/lib.rs\<close>.  The maps are one record; a run of a program is one step on
  it.  What the kernel's helpers answer a run is the record of that run.
\<close>

section \<open>Maps and records\<close>

definition DENY :: u32 where "DENY = 2"
definition UNARMED :: u32 where "UNARMED = 0"
definition TRACEPOINT_FIELD_OFFSET_MAX :: u32 where "TRACEPOINT_FIELD_OFFSET_MAX = 64"
definition EXIT_GROUP_DEAD_ABSENT :: u32 where "EXIT_GROUP_DEAD_ABSENT = 0xFFFFFFFF"
definition VERDICTS_MAX :: nat where "VERDICTS_MAX = 10240"
definition PROCS_MAX :: nat where "PROCS_MAX = 10240"
definition EXE_RULES_MAX :: nat where "EXE_RULES_MAX = 4096"

definition STAT_ALLOWED :: nat where "STAT_ALLOWED = 0"
definition STAT_DENIED :: nat where "STAT_DENIED = 1"
definition STAT_UNKNOWN :: nat where "STAT_UNKNOWN = 2"
definition STAT_STALE :: nat where "STAT_STALE = 3"
definition STAT_FOREIGN_MARK :: nat where "STAT_FOREIGN_MARK = 4"
definition STAT_REPORT_DROPPED :: nat where "STAT_REPORT_DROPPED = 5"

record exit_event =
  xv_pid :: u32

record connect_report =
  cr_pid :: u32
  cr_addr :: bytes
  cr_port :: u16
  cr_family :: u8
  cr_protocol :: u8

definition zeroed_report :: connect_report where
  "zeroed_report = \<lparr>cr_pid = 0, cr_addr = replicate 16 0, cr_port = 0, cr_family = 0, cr_protocol = 0\<rparr>"

text \<open>The patched globals of the object.\<close>

record globals =
  g_real_parent :: u32
  g_tgid :: u32
  g_data_loc :: u32
  g_group_dead :: u32

text \<open>
  The maps.  A hash map is an association list.  Per-CPU arrays go by the processor; \<open>k_slots\<close> is
  the size of the pinned counter array, which an older build may have made.  \<open>k_marks\<close> is no map
  but the \<open>SO_MARK\<close> of every socket.
\<close>

record kernel =
  k_procs :: "(u32 \<times> exec_event) list"
  k_verdicts :: "(u32 \<times> u32) list"
  k_sock_pids :: "(u64 \<times> u32) list"
  k_exe_rules :: "(u64 \<times> u32) list"
  k_exe_rules_on :: u32
  k_fast_allow :: "(u32 \<times> u32) list"
  k_fast_until :: u64
  k_fast_mark :: u32
  k_slots :: nat
  k_stats :: "nat \<Rightarrow> nat \<Rightarrow> u64"
  k_exec_scratch :: "nat \<Rightarrow> exec_event"
  k_exec_events :: "exec_event list"
  k_exit_events :: "exit_event list"
  k_deny_events :: "connect_report list"
  k_allow_events :: "connect_report list"
  k_marks :: "u64 \<Rightarrow> u32"

text \<open>\<open>bpf_map_update_elem\<close> on a hash map fails only for a new key of a full map.\<close>

definition bpf_insert :: "nat \<Rightarrow> 'k \<Rightarrow> 'v \<Rightarrow> ('k \<times> 'v) list \<Rightarrow> bool \<times> ('k \<times> 'v) list" where
  "bpf_insert cap k v m =
     (if map_of m k = None \<and> cap \<le> length m then (False, m) else (True, AList.update k v m))"

lemma map_of_bpf_insert:
  "map_of (snd (bpf_insert cap k v m)) = (if fst (bpf_insert cap k v m) then (map_of m)(k \<mapsto> v) else map_of m)"
  by (simp add: bpf_insert_def update_conv')

lemma length_bpf_insert: "length (snd (bpf_insert cap k v m)) \<le> Suc (length m)"
  by (simp add: bpf_insert_def length_update_le)

lemma bpf_insert_room: "length m < cap \<Longrightarrow> fst (bpf_insert cap k v m)"
  by (simp add: bpf_insert_def)

text \<open>The FNV-1a hash of both sides.\<close>

definition hash_exe_path :: "bytes \<Rightarrow> u64" where
  "hash_exe_path bs = fold (\<lambda>b h. (h XOR ucast b) * 0x100000001B3) bs 0xCBF29CE484222325"

section \<open>The exec tracepoint\<close>

text \<open>
  What one exec sees: the processor, the ids, the command name, the reads of task memory, the
  four bytes of the record at an offset, and the NUL-terminated text at an offset of the record
  with what a faulting copy leaves in the buffer.
\<close>

record exec_ctx =
  x_cpu :: nat
  x_pid_tgid :: u64
  x_uid_gid :: u64
  x_comm :: "bytes option"
  x_task :: u64
  x_read64 :: "u64 \<Rightarrow> u64 option"
  x_read32 :: "u64 \<Rightarrow> u32 option"
  x_field :: "u32 \<Rightarrow> u32 option"
  x_text :: "nat \<Rightarrow> bytes option"
  x_fault :: "bytes \<Rightarrow> bytes"
  x_room :: bool

definition tgid_of :: "u64 \<Rightarrow> u32" where "tgid_of pid_tgid = ucast (drop_bit 32 pid_tgid)"

definition current_ppid :: "globals \<Rightarrow> exec_ctx \<Rightarrow> u32" where
  "current_ppid G x =
     (if g_real_parent G = 0 \<or> g_tgid G = 0 then 0
      else if x_task x = 0 then 0
      else (case x_read64 x (x_task x + ucast (g_real_parent G)) of
          None \<Rightarrow> 0
        | Some parent \<Rightarrow>
            if parent = 0 then 0
            else (case x_read32 x (parent + ucast (g_tgid G)) of None \<Rightarrow> 0 | Some v \<Rightarrow> v)))"

definition read_exec_filename :: "globals \<Rightarrow> exec_ctx \<Rightarrow> exec_event \<Rightarrow> exec_event" where
  "read_exec_filename G x event =
     (let event = event\<lparr>xe_filename_len := 0\<rparr> in
      if g_data_loc G = 0 \<or> TRACEPOINT_FIELD_OFFSET_MAX < g_data_loc G then event
      else (case x_field x (g_data_loc G) of
          None \<Rightarrow> event
        | Some data_loc \<Rightarrow>
            (let off = unat (data_loc AND 0xFFFF); declared_len = unat (drop_bit 16 data_loc) in
             if off = 0 \<or> declared_len = 0 then event
             else (case x_text x off of
                 Some text \<Rightarrow>
                   (let text = take (FILENAME_LEN - 1) text in
                    event\<lparr>xe_filename := put 0 (text @ [0]) (xe_filename event),
                          xe_filename_len := word_of_nat (length text)\<rparr>)
               | None \<Rightarrow> event\<lparr>xe_filename := x_fault x (xe_filename event), xe_filename_len := 0\<rparr>))))"

definition remove_verdict :: "u32 \<Rightarrow> kernel \<Rightarrow> kernel" where
  "remove_verdict tgid k = k\<lparr>k_verdicts := AList.delete tgid (k_verdicts k)\<rparr>"

definition precommit_verdict :: "u32 \<Rightarrow> exec_event \<Rightarrow> kernel \<Rightarrow> kernel" where
  "precommit_verdict tgid event k =
     (if k_exe_rules_on k = 0 then remove_verdict tgid k
      else (let len = unat (xe_filename_len event) in
        if len = 0 \<or> FILENAME_LEN < len then remove_verdict tgid k
        else (case map_of (k_exe_rules k) (hash_exe_path (take len (xe_filename event))) of
            Some a \<Rightarrow>
              if a = DENY then k\<lparr>k_verdicts := snd (bpf_insert VERDICTS_MAX tgid DENY (k_verdicts k))\<rparr>
              else remove_verdict tgid k
          | None \<Rightarrow> remove_verdict tgid k)))"

definition fast_path_armed :: "kernel \<Rightarrow> bool" where
  "fast_path_armed k \<longleftrightarrow> k_fast_mark k \<noteq> UNARMED"

definition clear_grant :: "u32 \<Rightarrow> kernel \<Rightarrow> kernel" where
  "clear_grant tgid k =
     (if fast_path_armed k then k\<lparr>k_fast_allow := AList.delete tgid (k_fast_allow k)\<rparr> else k)"

definition exec_record :: "globals \<Rightarrow> exec_ctx \<Rightarrow> exec_event \<Rightarrow> exec_event" where
  "exec_record G x scratch =
     read_exec_filename G x
       (scratch\<lparr>xe_pid := tgid_of (x_pid_tgid x), xe_uid := ucast (x_uid_gid x),
                xe_gid := ucast (drop_bit 32 (x_uid_gid x)), xe_ppid := current_ppid G x, xe_pad := replicate 2 0,
                xe_comm := (case x_comm x of Some comm \<Rightarrow> comm | None \<Rightarrow> replicate 16 0)\<rparr>)"

definition cfc_sched_process_exec :: "globals \<Rightarrow> exec_ctx \<Rightarrow> kernel \<Rightarrow> kernel" where
  "cfc_sched_process_exec G x k =
     (let tgid = tgid_of (x_pid_tgid x);
          event = exec_record G x (k_exec_scratch k (x_cpu x));
          k = k\<lparr>k_exec_scratch := (k_exec_scratch k)(x_cpu x := event)\<rparr>;
          k = clear_grant tgid k;
          k = precommit_verdict tgid event k;
          k = k\<lparr>k_procs := snd (bpf_insert PROCS_MAX tgid event (k_procs k))\<rparr> in
      if x_room x then k\<lparr>k_exec_events := k_exec_events k @ [event]\<rparr> else k)"

section \<open>The exit tracepoint\<close>

record exit_ctx =
  e_pid_tgid :: u64
  e_field :: "u32 \<Rightarrow> u8 option"
  e_room :: bool

definition process_is_gone :: "globals \<Rightarrow> exit_ctx \<Rightarrow> bool" where
  "process_is_gone G e \<longleftrightarrow>
     \<not> (g_group_dead G = EXIT_GROUP_DEAD_ABSENT \<or> TRACEPOINT_FIELD_OFFSET_MAX < g_group_dead G) \<and>
     (case e_field e (g_group_dead G) of Some v \<Rightarrow> v \<noteq> 0 | None \<Rightarrow> False)"

definition publish_exit :: "bool \<Rightarrow> u32 \<Rightarrow> kernel \<Rightarrow> kernel" where
  "publish_exit room tgid k =
     (if room then k\<lparr>k_exit_events := k_exit_events k @ [\<lparr>xv_pid = tgid\<rparr>]\<rparr> else k)"

definition cfc_sched_process_exit :: "globals \<Rightarrow> exit_ctx \<Rightarrow> kernel \<Rightarrow> kernel" where
  "cfc_sched_process_exit G e k =
     (let tgid = tgid_of (e_pid_tgid e); tid = ucast (e_pid_tgid e) :: u32 in
      if \<not> process_is_gone G e then
        (let k = clear_grant tgid k in if tgid = tid then publish_exit (e_room e) tgid k else k)
      else
        (let k = k\<lparr>k_procs := AList.delete tgid (k_procs k)\<rparr>;
             k = remove_verdict tgid k;
             k = clear_grant tgid k in
         publish_exit (e_room e) tgid k))"

section \<open>The connect hooks\<close>

definition CONNECT_PROCEED :: int where "CONNECT_PROCEED = 1"
definition CONNECT_REFUSE :: int where "CONNECT_REFUSE = 0"
definition SOCK_IPPROTO_TCP :: u32 where "SOCK_IPPROTO_TCP = 6"

text \<open>
  What one connect sees.  \<open>c_sock\<close> names the socket; \<open>c_cookie\<close> is its cookie or 0; \<open>c_lru\<close> is what
  evictions leave of the cookie map, or that the insertion fails; \<open>c_getopt\<close> and \<open>c_setopt\<close> say
  whether the socket option calls are served.
\<close>

record sock_ctx =
  c_cpu :: nat
  c_pid_tgid :: u64
  c_sock :: u64
  c_cookie :: u64
  c_lru :: "((u64 \<times> u32) list \<Rightarrow> (u64 \<times> u32) list) option"
  c_protocol :: u32
  c_user_port :: u32
  c_user_ip4 :: u32
  c_user_ip6 :: "u32 list"
  c_getopt :: bool
  c_setopt :: bool
  c_boot_ns :: u64
  c_room :: bool

definition bump_stat :: "nat \<Rightarrow> nat \<Rightarrow> kernel \<Rightarrow> kernel" where
  "bump_stat cpu slot k =
     (if slot < k_slots k
      then k\<lparr>k_stats := (k_stats k)(cpu := (k_stats k cpu)(slot := k_stats k cpu slot + 1))\<rparr> else k)"

definition to_ne_bytes :: "u32 \<Rightarrow> bytes" where "to_ne_bytes w = rev (to_be32 w)"

definition connect_record :: "sock_ctx \<Rightarrow> u32 \<Rightarrow> u8 \<Rightarrow> connect_report" where
  "connect_record c tgid family =
     zeroed_report\<lparr>cr_pid := tgid, cr_family := family, cr_port := ucast (c_user_port c AND 0xFFFF),
       cr_protocol := ucast (c_protocol c),
       cr_addr := (if family = 4 then put 0 (to_ne_bytes (c_user_ip4 c)) (cr_addr zeroed_report)
                   else concat (map (\<lambda>i. to_ne_bytes (c_user_ip6 c ! i)) [0..<4]))\<rparr>"

definition report_deny :: "sock_ctx \<Rightarrow> u32 \<Rightarrow> u8 \<Rightarrow> kernel \<Rightarrow> kernel" where
  "report_deny c tgid family k =
     (if c_room c then k\<lparr>k_deny_events := k_deny_events k @ [connect_record c tgid family]\<rparr>
      else bump_stat (c_cpu c) STAT_REPORT_DROPPED k)"

definition report_allow :: "sock_ctx \<Rightarrow> u32 \<Rightarrow> u8 \<Rightarrow> kernel \<Rightarrow> kernel" where
  "report_allow c tgid family k =
     (if c_room c then k\<lparr>k_allow_events := k_allow_events k @ [connect_record c tgid family]\<rparr>
      else bump_stat (c_cpu c) STAT_REPORT_DROPPED k)"

definition wanted_mark :: "sock_ctx \<Rightarrow> u32 \<Rightarrow> kernel \<Rightarrow> bool \<times> u32" where
  "wanted_mark c tgid k =
     (let granted = (c_protocol c = SOCK_IPPROTO_TCP \<and> map_of (k_fast_allow k) tgid \<noteq> None) in
      (granted, if granted \<and> c_boot_ns c < k_fast_until k then k_fast_mark k else 0))"

definition mark_decision :: "sock_ctx \<Rightarrow> u32 \<Rightarrow> u8 \<Rightarrow> kernel \<Rightarrow> kernel" where
  "mark_decision c tgid family k =
     (if k_fast_mark k = UNARMED then bump_stat (c_cpu c) STAT_UNKNOWN k
      else let mark = k_fast_mark k; current = k_marks k (c_sock c) in
        if \<not> c_getopt c then bump_stat (c_cpu c) STAT_UNKNOWN k
        else if current \<noteq> 0 \<and> current \<noteq> mark then bump_stat (c_cpu c) STAT_FOREIGN_MARK k
        else (case wanted_mark c tgid k of (granted, want) \<Rightarrow>
          if current \<noteq> want \<and> \<not> c_setopt c then bump_stat (c_cpu c) STAT_UNKNOWN k
          else (let k = (if current \<noteq> want then k\<lparr>k_marks := (k_marks k)(c_sock c := want)\<rparr> else k) in
            if want \<noteq> 0 then report_allow c tgid family (bump_stat (c_cpu c) STAT_ALLOWED k)
            else if granted then bump_stat (c_cpu c) STAT_STALE k
            else bump_stat (c_cpu c) STAT_UNKNOWN k)))"

definition remember_cookie :: "sock_ctx \<Rightarrow> u32 \<Rightarrow> kernel \<Rightarrow> kernel" where
  "remember_cookie c tgid k =
     (if c_cookie c \<noteq> 0
      then (case c_lru c of
              Some left \<Rightarrow> k\<lparr>k_sock_pids := AList.update (c_cookie c) tgid (left (k_sock_pids k))\<rparr>
            | None \<Rightarrow> k)
      else k)"

definition connect_verdict :: "sock_ctx \<Rightarrow> u8 \<Rightarrow> bool \<Rightarrow> kernel \<Rightarrow> int \<times> kernel" where
  "connect_verdict c family record_cookie k =
     (let tgid = tgid_of (c_pid_tgid c);
          k = (if record_cookie then remember_cookie c tgid k else k) in
      if map_of (k_verdicts k) tgid = Some DENY
      then (CONNECT_REFUSE, report_deny c tgid family (bump_stat (c_cpu c) STAT_DENIED k))
      else (CONNECT_PROCEED,
            if record_cookie then mark_decision c tgid family k else bump_stat (c_cpu c) STAT_UNKNOWN k))"

definition cfc_connect4 :: "sock_ctx \<Rightarrow> kernel \<Rightarrow> int \<times> kernel" where
  "cfc_connect4 c k = connect_verdict c 4 True k"

definition cfc_connect6 :: "sock_ctx \<Rightarrow> kernel \<Rightarrow> int \<times> kernel" where
  "cfc_connect6 c k = connect_verdict c 6 True k"

definition cfc_connect4_basic :: "sock_ctx \<Rightarrow> kernel \<Rightarrow> int \<times> kernel" where
  "cfc_connect4_basic c k = connect_verdict c 4 False k"

definition cfc_connect6_basic :: "sock_ctx \<Rightarrow> kernel \<Rightarrow> int \<times> kernel" where
  "cfc_connect6_basic c k = connect_verdict c 6 False k"

section \<open>The kernel without a daemon\<close>

text \<open>Execs, exits and connects in any order; a privileged process may mark its own sockets.\<close>

datatype hook = Connect4 | Connect6 | Connect4Basic | Connect6Basic

datatype kevent = KExec exec_ctx | KExit exit_ctx | KConnect hook sock_ctx | KSetMark u64 u32

fun run_hook :: "hook \<Rightarrow> sock_ctx \<Rightarrow> kernel \<Rightarrow> int \<times> kernel" where
  "run_hook Connect4 c k = cfc_connect4 c k"
| "run_hook Connect6 c k = cfc_connect6 c k"
| "run_hook Connect4Basic c k = cfc_connect4_basic c k"
| "run_hook Connect6Basic c k = cfc_connect6_basic c k"

fun kernel_step :: "globals \<Rightarrow> kevent \<Rightarrow> kernel \<Rightarrow> kernel" where
  "kernel_step G (KExec x) k = cfc_sched_process_exec G x k"
| "kernel_step G (KExit e) k = cfc_sched_process_exit G e k"
| "kernel_step G (KConnect h c) k = snd (run_hook h c k)"
| "kernel_step G (KSetMark sock mark) k = k\<lparr>k_marks := (k_marks k)(sock := mark)\<rparr>"

definition kernel_run :: "globals \<Rightarrow> kevent list \<Rightarrow> kernel \<Rightarrow> kernel" where
  "kernel_run G es k = fold (kernel_step G) es k"

section \<open>What each program touches\<close>

lemma bump_stat_frame [simp]:
  "k_verdicts (bump_stat i j k) = k_verdicts k" "k_fast_allow (bump_stat i j k) = k_fast_allow k"
  "k_fast_until (bump_stat i j k) = k_fast_until k" "k_fast_mark (bump_stat i j k) = k_fast_mark k"
  "k_exe_rules (bump_stat i j k) = k_exe_rules k" "k_exe_rules_on (bump_stat i j k) = k_exe_rules_on k"
  "k_marks (bump_stat i j k) = k_marks k" "k_allow_events (bump_stat i j k) = k_allow_events k"
  by (simp_all add: bump_stat_def)

lemma report_frame [simp]:
  "k_verdicts (report_deny c t f k) = k_verdicts k" "k_verdicts (report_allow c t f k) = k_verdicts k"
  "k_fast_allow (report_deny c t f k) = k_fast_allow k" "k_fast_allow (report_allow c t f k) = k_fast_allow k"
  "k_fast_until (report_deny c t f k) = k_fast_until k" "k_fast_until (report_allow c t f k) = k_fast_until k"
  "k_fast_mark (report_deny c t f k) = k_fast_mark k" "k_fast_mark (report_allow c t f k) = k_fast_mark k"
  "k_exe_rules (report_deny c t f k) = k_exe_rules k" "k_exe_rules (report_allow c t f k) = k_exe_rules k"
  "k_exe_rules_on (report_deny c t f k) = k_exe_rules_on k" "k_exe_rules_on (report_allow c t f k) = k_exe_rules_on k"
  "k_marks (report_deny c t f k) = k_marks k" "k_marks (report_allow c t f k) = k_marks k"
  "k_allow_events (report_deny c t f k) = k_allow_events k"
  by (simp_all add: report_deny_def report_allow_def)

lemma cookie_frame [simp]:
  "k_verdicts (remember_cookie c t k) = k_verdicts k" "k_fast_allow (remember_cookie c t k) = k_fast_allow k"
  "k_fast_until (remember_cookie c t k) = k_fast_until k" "k_fast_mark (remember_cookie c t k) = k_fast_mark k"
  "k_exe_rules (remember_cookie c t k) = k_exe_rules k" "k_exe_rules_on (remember_cookie c t k) = k_exe_rules_on k"
  "k_marks (remember_cookie c t k) = k_marks k" "k_allow_events (remember_cookie c t k) = k_allow_events k"
  by (simp_all add: remember_cookie_def split: option.split)

lemma mark_frame [simp]:
  "k_verdicts (mark_decision c t f k) = k_verdicts k" "k_fast_allow (mark_decision c t f k) = k_fast_allow k"
  "k_fast_until (mark_decision c t f k) = k_fast_until k" "k_fast_mark (mark_decision c t f k) = k_fast_mark k"
  "k_exe_rules (mark_decision c t f k) = k_exe_rules k" "k_exe_rules_on (mark_decision c t f k) = k_exe_rules_on k"
  by (simp_all add: mark_decision_def Let_def split: prod.split)

lemma hook_frame [simp]:
  "k_verdicts (snd (run_hook h c k)) = k_verdicts k" "k_fast_allow (snd (run_hook h c k)) = k_fast_allow k"
  "k_fast_until (snd (run_hook h c k)) = k_fast_until k" "k_fast_mark (snd (run_hook h c k)) = k_fast_mark k"
  "k_exe_rules (snd (run_hook h c k)) = k_exe_rules k" "k_exe_rules_on (snd (run_hook h c k)) = k_exe_rules_on k"
  by (cases h;
      simp add: cfc_connect4_def cfc_connect6_def cfc_connect4_basic_def cfc_connect6_basic_def connect_verdict_def Let_def)+

lemma run_refuses: "fst (run_hook h c k) = CONNECT_REFUSE \<longleftrightarrow> map_of (k_verdicts k) (tgid_of (c_pid_tgid c)) = Some DENY"
  by (cases h)
    (simp_all add: cfc_connect4_def cfc_connect6_def cfc_connect4_basic_def cfc_connect6_basic_def connect_verdict_def Let_def
      CONNECT_REFUSE_def CONNECT_PROCEED_def)

lemma grant_frame [simp]:
  "k_verdicts (clear_grant t k) = k_verdicts k" "k_fast_until (clear_grant t k) = k_fast_until k"
  "k_fast_mark (clear_grant t k) = k_fast_mark k" "k_exe_rules (clear_grant t k) = k_exe_rules k"
  "k_exe_rules_on (clear_grant t k) = k_exe_rules_on k" "k_marks (clear_grant t k) = k_marks k"
  by (simp_all add: clear_grant_def)

lemma precommit_frame [simp]:
  "k_fast_allow (precommit_verdict t e k) = k_fast_allow k" "k_fast_until (precommit_verdict t e k) = k_fast_until k"
  "k_fast_mark (precommit_verdict t e k) = k_fast_mark k" "k_exe_rules (precommit_verdict t e k) = k_exe_rules k"
  "k_exe_rules_on (precommit_verdict t e k) = k_exe_rules_on k" "k_marks (precommit_verdict t e k) = k_marks k"
  by (simp_all add: precommit_verdict_def remove_verdict_def Let_def split: option.split)

lemma publish_frame [simp]:
  "k_verdicts (publish_exit b t k) = k_verdicts k" "k_fast_allow (publish_exit b t k) = k_fast_allow k"
  "k_fast_until (publish_exit b t k) = k_fast_until k" "k_fast_mark (publish_exit b t k) = k_fast_mark k"
  "k_exe_rules (publish_exit b t k) = k_exe_rules k" "k_exe_rules_on (publish_exit b t k) = k_exe_rules_on k"
  by (simp_all add: publish_exit_def)

text \<open>The kernel's programs write neither the rules nor the deadline nor the mark.\<close>

lemma step_keeps [simp]:
  "k_exe_rules (kernel_step G e k) = k_exe_rules k" "k_exe_rules_on (kernel_step G e k) = k_exe_rules_on k"
  "k_fast_until (kernel_step G e k) = k_fast_until k" "k_fast_mark (kernel_step G e k) = k_fast_mark k"
  by (cases e; simp add: cfc_sched_process_exec_def cfc_sched_process_exit_def remove_verdict_def Let_def)+

lemma kernel_run_simps [simp]:
  "kernel_run G [] k = k" "kernel_run G (e # es) k = kernel_run G es (kernel_step G e k)"
  by (simp_all add: kernel_run_def)

lemma run_keeps [simp]:
  "k_exe_rules (kernel_run G es k) = k_exe_rules k" "k_exe_rules_on (kernel_run G es k) = k_exe_rules_on k"
  "k_fast_until (kernel_run G es k) = k_fast_until k" "k_fast_mark (kernel_run G es k) = k_fast_mark k"
  by (induction es arbitrary: k) simp_all

section \<open>The path of an exec\<close>

definition exec_path :: "globals \<Rightarrow> exec_ctx \<Rightarrow> bytes" where
  "exec_path G x =
     (if g_data_loc G = 0 \<or> TRACEPOINT_FIELD_OFFSET_MAX < g_data_loc G then []
      else (case x_field x (g_data_loc G) of
          None \<Rightarrow> []
        | Some w \<Rightarrow>
            if w AND 0xFFFF = 0 \<or> drop_bit 16 w = 0 then []
            else (case x_text x (unat (w AND 0xFFFF)) of None \<Rightarrow> [] | Some text \<Rightarrow> take (FILENAME_LEN - 1) text)))"

lemma exec_path_length: "length (exec_path G x) < FILENAME_LEN"
  by (auto simp: exec_path_def FILENAME_LEN_def min_def split: option.split)

lemma exec_record_path:
  "unat (xe_filename_len (exec_record G x scratch)) = length (exec_path G x)"
  "take (length (exec_path G x)) (xe_filename (exec_record G x scratch)) = exec_path G x"
proof -
  have small: "unat (word_of_nat (min (length t) 255) :: u16) = min (length t) 255" for t :: bytes
    by (simp add: unat_of_nat)
  have cut: "take (min (length t) 255) t = take 255 t" for t :: bytes by (simp add: min_def)
  show "unat (xe_filename_len (exec_record G x scratch)) = length (exec_path G x)"
    by (simp add: exec_record_def read_exec_filename_def exec_path_def Let_def FILENAME_LEN_def small unat_eq_0
        split: option.split)
  show "take (length (exec_path G x)) (xe_filename (exec_record G x scratch)) = exec_path G x"
    by (simp add: exec_record_def read_exec_filename_def exec_path_def Let_def FILENAME_LEN_def put_def unat_eq_0 cut
        split: option.split)
qed

lemma exec_record_ids:
  "xe_pid (exec_record G x scratch) = tgid_of (x_pid_tgid x)" "xe_uid (exec_record G x scratch) = ucast (x_uid_gid x)"
  by (simp_all add: exec_record_def read_exec_filename_def Let_def split: option.split)

text \<open>The kernel's own rule table against a path.\<close>

definition refuses_path :: "kernel \<Rightarrow> bytes \<Rightarrow> bool" where
  "refuses_path k path \<longleftrightarrow>
     k_exe_rules_on k \<noteq> 0 \<and> path \<noteq> [] \<and> map_of (k_exe_rules k) (hash_exe_path path) = Some DENY"

lemma precommit_verdicts:
  "k_verdicts (precommit_verdict tgid (exec_record G x scratch) k) =
     (if refuses_path k (exec_path G x) then snd (bpf_insert VERDICTS_MAX tgid DENY (k_verdicts k))
      else AList.delete tgid (k_verdicts k))"
  using exec_path_length [of G x]
  by (auto simp: precommit_verdict_def refuses_path_def remove_verdict_def Let_def exec_record_path split: option.split)

lemma exec_verdicts:
  "k_verdicts (cfc_sched_process_exec G x k) =
     (if refuses_path k (exec_path G x) then snd (bpf_insert VERDICTS_MAX (tgid_of (x_pid_tgid x)) DENY (k_verdicts k))
      else AList.delete (tgid_of (x_pid_tgid x)) (k_verdicts k))"
  by (simp add: cfc_sched_process_exec_def Let_def precommit_verdicts refuses_path_def)

section \<open>Refusals follow the program\<close>

text \<open>Whether the last program of a process, or what the run started with, earns it a refusal.\<close>

fun refused_after :: "globals \<Rightarrow> kernel \<Rightarrow> u32 \<Rightarrow> bool \<Rightarrow> kevent list \<Rightarrow> bool" where
  "refused_after G k p b [] = b"
| "refused_after G k p b (KExec x # es) =
     refused_after G k p (if tgid_of (x_pid_tgid x) = p then refuses_path k (exec_path G x) else b) es"
| "refused_after G k p b (KExit e # es) =
     refused_after G k p (if tgid_of (e_pid_tgid e) = p \<and> process_is_gone G e then False else b) es"
| "refused_after G k p b (_ # es) = refused_after G k p b es"

lemma refused_after_cong: "refuses_path k = refuses_path k' \<Longrightarrow> refused_after G k p b es = refused_after G k' p b es"
  by (induction G k p b es rule: refused_after.induct) simp_all

lemma refused_after_mono: "refused_after G k p False es \<Longrightarrow> refused_after G k p b es"
  by (induction G k p b es rule: refused_after.induct) (simp_all split: if_splits)

lemma exit_verdicts:
  "k_verdicts (cfc_sched_process_exit G e k) =
     (if process_is_gone G e then AList.delete (tgid_of (e_pid_tgid e)) (k_verdicts k) else k_verdicts k)"
  by (simp add: cfc_sched_process_exit_def remove_verdict_def Let_def)

definition refused_in :: "kernel \<Rightarrow> u32 \<Rightarrow> bool" where
  "refused_in k p \<longleftrightarrow> map_of (k_verdicts k) p = Some DENY"

lemma step_paths: "refuses_path (kernel_step G e k) = refuses_path k"
  by (simp add: refuses_path_def fun_eq_iff)

lemma step_refused:
  "refused_in (kernel_step G e k) p \<Longrightarrow> refused_after G k p (refused_in k p) [e]"
  "length (k_verdicts k) < VERDICTS_MAX \<Longrightarrow> refused_after G k p (refused_in k p) [e] \<Longrightarrow> refused_in (kernel_step G e k) p"
  by (cases e;
      auto simp: refused_in_def exec_verdicts exit_verdicts map_of_bpf_insert bpf_insert_room AList.delete_conv'
        split: if_splits)+

lemma step_length: "length (k_verdicts (kernel_step G e k)) \<le> Suc (length (k_verdicts k))"
  by (cases e) (auto simp: exec_verdicts exit_verdicts intro: length_bpf_insert order_trans [OF length_delete_le])

lemma refused_after_Cons:
  "refused_after G k p b (e # es) = refused_after G k p (refused_after G k p b [e]) es"
  by (cases e) simp_all

lemma run_refused_only: "refused_in (kernel_run G es k) p \<Longrightarrow> refused_after G k p (refused_in k p) es"
proof (induction es arbitrary: k)
  case (Cons e es)
  from Cons.IH [of "kernel_step G e k"] Cons.prems
  have "refused_after G k p (refused_in (kernel_step G e k) p) es"
    using refused_after_cong [OF step_paths] by simp
  then have "refused_after G k p (refused_after G k p (refused_in k p) [e]) es"
    using step_refused(1) [of G e k p] refused_after_mono [of G k p es] by (cases "refused_in (kernel_step G e k) p") simp_all
  then show ?case by (simp only: refused_after_Cons [of G k p "refused_in k p" e es])
qed simp

lemma run_refused_all:
  "length (k_verdicts k) + length es \<le> VERDICTS_MAX \<Longrightarrow> refused_after G k p (refused_in k p) es \<Longrightarrow>
   refused_in (kernel_run G es k) p"
proof (induction es arbitrary: k)
  case (Cons e es)
  have room: "length (k_verdicts (kernel_step G e k)) + length es \<le> VERDICTS_MAX"
    using Cons.prems(1) step_length [of G e k] by simp
  have "refused_after G k p (refused_after G k p (refused_in k p) [e]) es"
    using Cons.prems(2) by (simp only: refused_after_Cons [of G k p "refused_in k p" e es])
  then have "refused_after G k p (refused_in (kernel_step G e k) p) es"
    using step_refused(2) [of k G p e] Cons.prems(1) refused_after_mono [of G k p es]
    by (cases "refused_after G k p (refused_in k p) [e]") simp_all
  then have "refused_after G (kernel_step G e k) p (refused_in (kernel_step G e k) p) es"
    using refused_after_cong [OF step_paths] by blast
  with Cons.IH [OF room] show ?case by simp
qed simp

text \<open>C6: with no daemon the kernel's refusals follow the program of each process.  In any run of
  execs, exits and connects, a connect is refused only if the last program the process executed
  was handed to \<open>execve\<close> by a path of the pinned rule table, or the run began with it refused and
  it has executed nothing since, and the process has not died since; while the verdict map has
  room, exactly then.  What an earlier exec on the same processor left in the scratch record
  never enters.\<close>

theorem refusals_follow_the_program:
  "let p = tgid_of (c_pid_tgid c);
       refused = (fst (run_hook h c (kernel_run G es k)) = CONNECT_REFUSE);
       earned = refused_after G k p (refused_in k p) es
   in (refused \<longrightarrow> earned) \<and> (length (k_verdicts k) + length es \<le> VERDICTS_MAX \<longrightarrow> (refused \<longleftrightarrow> earned))"
  unfolding Let_def run_refuses refused_in_def [symmetric]
  using run_refused_only [of G es k] run_refused_all [of k es G] by blast

definition example_globals :: globals where
  "example_globals = \<lparr>g_real_parent = 0, g_tgid = 0, g_data_loc = 8, g_group_dead = 24\<rparr>"

definition example_scratch :: exec_event where
  "example_scratch = \<lparr>xe_pid = 0, xe_ppid = 0, xe_uid = 0, xe_gid = 0, xe_comm = [], xe_filename = replicate 256 0,
     xe_filename_len = 3, xe_pad = []\<rparr>"

definition example_kernel :: kernel where
  "example_kernel =
     \<lparr>k_procs = [], k_verdicts = [(7, DENY)], k_sock_pids = [], k_exe_rules = [(hash_exe_path [47, 98], DENY)],
      k_exe_rules_on = 1, k_fast_allow = [(9, 1)], k_fast_until = 100, k_fast_mark = 77, k_slots = 6,
      k_stats = (\<lambda>_ _. 0), k_exec_scratch = (\<lambda>_. example_scratch), k_exec_events = [], k_exit_events = [],
      k_deny_events = [], k_allow_events = [], k_marks = (\<lambda>_. 0)\<rparr>"

definition example_exec_of :: "u64 \<Rightarrow> bytes option \<Rightarrow> exec_ctx" where
  "example_exec_of pid_tgid path =
     \<lparr>x_cpu = 0, x_pid_tgid = pid_tgid, x_uid_gid = 0, x_comm = None, x_task = 0, x_read64 = (\<lambda>_. None),
      x_read32 = (\<lambda>_. None), x_field = (\<lambda>_. Some 0x00030020), x_text = (\<lambda>_. path), x_fault = (\<lambda>b. b), x_room = True\<rparr>"

definition example_socket :: "u64 \<Rightarrow> sock_ctx" where
  "example_socket pid_tgid =
     \<lparr>c_cpu = 0, c_pid_tgid = pid_tgid, c_sock = 5, c_cookie = 5, c_lru = Some (\<lambda>m. m), c_protocol = 6, c_user_port = 0,
      c_user_ip4 = 0, c_user_ip6 = [0, 0, 0, 0], c_getopt = True, c_setopt = True, c_boot_ns = 50, c_room = True\<rparr>"

text \<open>Process 7 was refused, executes another program and is free; process 8 executes the listed one.\<close>

theorem refusals_follow_the_program_witness:
  "let es = [KExec (example_exec_of 0x700000000 (Some [47, 97])), KExec (example_exec_of 0x800000000 (Some [47, 98]))];
       k' = kernel_run example_globals es example_kernel
   in fst (run_hook Connect4 (example_socket 0x800000000) k') = CONNECT_REFUSE \<and>
      fst (run_hook Connect4 (example_socket 0x700000000) k') \<noteq> CONNECT_REFUSE"
proof -
  let ?es = "[KExec (example_exec_of 0x700000000 (Some [47, 97])), KExec (example_exec_of 0x800000000 (Some [47, 98]))]"
  have ids: "tgid_of 0x700000000 = 7" "tgid_of 0x800000000 = 8" by (simp_all add: tgid_of_def)
  have paths: "exec_path example_globals (example_exec_of t (Some [47, b])) = [47, b]" for t b
    by (simp add: exec_path_def example_globals_def example_exec_of_def TRACEPOINT_FIELD_OFFSET_MAX_def FILENAME_LEN_def)
  have hashes: "hash_exe_path [47, 97] \<noteq> hash_exe_path [47, 98]" by (simp add: hash_exe_path_def)
  have room: "length (k_verdicts example_kernel) + length ?es \<le> VERDICTS_MAX"
    by (simp add: example_kernel_def VERDICTS_MAX_def)
  have sock: "c_pid_tgid (example_socket t) = t" and exec: "x_pid_tgid (example_exec_of t q) = t" for t q
    by (simp_all add: example_socket_def example_exec_of_def)
  have rules: "refuses_path example_kernel [47, 98]" "\<not> refuses_path example_kernel [47, 97]"
    using hashes by (auto simp: refuses_path_def example_kernel_def)
  have "fst (run_hook Connect4 (example_socket 0x800000000) (kernel_run example_globals ?es example_kernel)) = CONNECT_REFUSE"
    using refusals_follow_the_program [of "example_socket 0x800000000" Connect4 example_globals ?es example_kernel] room
    by (simp add: Let_def sock exec ids paths rules)
  moreover have "fst (run_hook Connect4 (example_socket 0x700000000) (kernel_run example_globals ?es example_kernel)) \<noteq> CONNECT_REFUSE"
    using refusals_follow_the_program [of "example_socket 0x700000000" Connect4 example_globals ?es example_kernel] room
    by (simp add: Let_def sock exec ids paths rules)
  ultimately show ?thesis by (simp only: Let_def simp_thms)
qed

section \<open>Marks need a living grant\<close>

fun touches :: "u32 \<Rightarrow> kevent \<Rightarrow> bool" where
  "touches p (KExec x) \<longleftrightarrow> tgid_of (x_pid_tgid x) = p"
| "touches p (KExit e) \<longleftrightarrow> tgid_of (e_pid_tgid e) = p"
| "touches p _ \<longleftrightarrow> False"

lemma step_grants:
  "fast_path_armed k \<Longrightarrow>
   map_of (k_fast_allow (kernel_step G e k)) p = (if touches p e then None else map_of (k_fast_allow k) p)"
  by (cases e)
    (auto simp: cfc_sched_process_exec_def cfc_sched_process_exit_def clear_grant_def remove_verdict_def fast_path_armed_def
      Let_def AList.delete_conv')

lemma run_grants:
  "fast_path_armed k \<Longrightarrow>
   map_of (k_fast_allow (kernel_run G es k)) p = (if \<exists>e \<in> set es. touches p e then None else map_of (k_fast_allow k) p)"
proof (induction es arbitrary: k)
  case (Cons e es)
  then have "fast_path_armed (kernel_step G e k)" by (simp add: fast_path_armed_def)
  from Cons.IH [OF this] step_grants [OF Cons.prems, of G e p] show ?case by auto
qed simp

definition mark_update :: "sock_ctx \<Rightarrow> kernel \<Rightarrow> u64 \<Rightarrow> u32" where
  "mark_update c k =
     (let current = k_marks k (c_sock c); want = snd (wanted_mark c (tgid_of (c_pid_tgid c)) k) in
      if fast_path_armed k \<and> c_getopt c \<and> (current = 0 \<or> current = k_fast_mark k) \<and> (current = want \<or> c_setopt c)
      then (k_marks k)(c_sock c := want) else k_marks k)"

lemma mark_decision_marks: "k_marks (mark_decision c (tgid_of (c_pid_tgid c)) f k) = mark_update c k"
  by (auto simp: mark_decision_def mark_update_def fast_path_armed_def Let_def split: prod.split)

lemma mark_update_cookie: "mark_update c (remember_cookie c t k) = mark_update c k"
  by (simp only: mark_update_def wanted_mark_def fast_path_armed_def cookie_frame)

definition full_hook :: "hook \<Rightarrow> bool" where
  "full_hook h \<longleftrightarrow> h = Connect4 \<or> h = Connect6"

lemma hook_marks:
  "k_marks (snd (run_hook h c k)) =
     (if full_hook h \<and> fst (run_hook h c k) = CONNECT_PROCEED then mark_update c k else k_marks k)"
  by (cases h)
    (simp_all add: cfc_connect4_def cfc_connect6_def cfc_connect4_basic_def cfc_connect6_basic_def connect_verdict_def Let_def
      full_hook_def CONNECT_REFUSE_def CONNECT_PROCEED_def mark_decision_marks mark_update_cookie)

text \<open>Only a living grant marks a socket, and a dead daemon's grants lapse.  In any run without a
  daemon, a connect hook that puts a mark on a socket puts the armed mark on the connecting TCP
  socket of a process that was granted when the run began, has neither executed a program nor
  lost a thread since, and connects before the deadline; and a connect that proceeds after the
  deadline leaves the socket without the armed mark when its options can be read and set.\<close>

theorem marks_need_a_living_grant:
  assumes "k' = kernel_run G es k" "run_hook h c k' = (v, k'')"
  shows "(k_marks k'' s \<noteq> k_marks k' s \<and> k_marks k'' s \<noteq> 0 \<longrightarrow>
      s = c_sock c \<and> k_marks k'' s = k_fast_mark k \<and> full_hook h \<and> v = CONNECT_PROCEED \<and>
      c_protocol c = SOCK_IPPROTO_TCP \<and> c_boot_ns c < k_fast_until k \<and>
      map_of (k_fast_allow k) (tgid_of (c_pid_tgid c)) \<noteq> None \<and>
      (\<forall>e \<in> set es. \<not> touches (tgid_of (c_pid_tgid c)) e)) \<and>
    (fast_path_armed k \<and> k_fast_until k \<le> c_boot_ns c \<and> full_hook h \<and> v = CONNECT_PROCEED \<and> c_getopt c \<and> c_setopt c \<longrightarrow>
      k_marks k'' (c_sock c) \<noteq> k_fast_mark k)"
proof (intro conjI impI)
  have marks: "k_marks k'' = (if full_hook h \<and> v = CONNECT_PROCEED then mark_update c k' else k_marks k')"
    using hook_marks [of h c k'] assms(2) by simp
  let ?p = "tgid_of (c_pid_tgid c)"
  have want: "snd (wanted_mark c ?p k') \<in> {0, k_fast_mark k}"
    "snd (wanted_mark c ?p k') \<noteq> 0 \<Longrightarrow> c_protocol c = SOCK_IPPROTO_TCP \<and> c_boot_ns c < k_fast_until k \<and> map_of (k_fast_allow k') ?p \<noteq> None"
    by (simp_all add: wanted_mark_def Let_def assms(1) split: if_splits)
  {
    assume new: "k_marks k'' s \<noteq> k_marks k' s \<and> k_marks k'' s \<noteq> 0"
    then have full: "full_hook h \<and> v = CONNECT_PROCEED" using marks by (auto split: if_splits)
    have "mark_update c k' s \<noteq> k_marks k' s" "mark_update c k' s \<noteq> 0" using new full marks by simp_all
    then have at: "s = c_sock c" "fast_path_armed k'" "mark_update c k' s = snd (wanted_mark c ?p k')"
      by (auto simp: mark_update_def Let_def split: if_splits)
    have "snd (wanted_mark c ?p k') \<noteq> 0" using at(3) \<open>mark_update c k' s \<noteq> 0\<close> by simp
    note w = want(2) [OF this]
    have "fast_path_armed k" using at(2) by (simp add: fast_path_armed_def assms(1))
    from run_grants [OF this, of G es ?p] w have g: "map_of (k_fast_allow k) ?p \<noteq> None" "\<not> (\<exists>e \<in> set es. touches ?p e)"
      by (auto simp: assms(1) split: if_splits)
    have "k_marks k'' s = k_fast_mark k" using want(1) \<open>snd (wanted_mark c ?p k') \<noteq> 0\<close> at(3) full marks by simp
    with full at(1) w g show "s = c_sock c" "k_marks k'' s = k_fast_mark k" "full_hook h" "v = CONNECT_PROCEED"
      "c_protocol c = SOCK_IPPROTO_TCP" "c_boot_ns c < k_fast_until k" "map_of (k_fast_allow k) ?p \<noteq> None"
      "\<forall>e \<in> set es. \<not> touches ?p e" by simp_all
  }
  assume late: "fast_path_armed k \<and> k_fast_until k \<le> c_boot_ns c \<and> full_hook h \<and> v = CONNECT_PROCEED \<and> c_getopt c \<and> c_setopt c"
  then have "snd (wanted_mark c ?p k') = 0" using want(2) by (metis leD)
  then show "k_marks k'' (c_sock c) \<noteq> k_fast_mark k"
    using late marks by (auto simp: mark_update_def fast_path_armed_def UNARMED_def Let_def assms(1))
qed

text \<open>Process 9 is granted: its socket is marked before the deadline at 100, and stripped after it.\<close>

theorem marks_need_a_living_grant_witness:
  "k_marks (snd (run_hook Connect4 (example_socket 0x900000000) example_kernel)) 5 = 77 \<and>
   k_marks (snd (run_hook Connect4 (example_socket 0x900000000\<lparr>c_boot_ns := 100\<rparr>)
     (snd (run_hook Connect4 (example_socket 0x900000000) example_kernel)))) 5 \<noteq> 77 \<and>
   map_of (k_fast_allow example_kernel) 9 \<noteq> None"
proof -
  let ?c = "example_socket 0x900000000"
  let ?k = "snd (run_hook Connect4 ?c example_kernel)"
  have id: "tgid_of 0x900000000 = 9" by (simp add: tgid_of_def)
  have go: "fst (run_hook Connect4 c k) = CONNECT_PROCEED" if "k_verdicts k = [(7, DENY)]" "c_pid_tgid c = 0x900000000" for c k
    by (simp add: cfc_connect4_def connect_verdict_def Let_def that id)
  have first: "fst (run_hook Connect4 ?c example_kernel) = CONNECT_PROCEED"
    by (rule go) (simp_all add: example_kernel_def example_socket_def)
  have one: "k_marks ?k 5 = 77"
    using first unfolding hook_marks
    by (simp add: full_hook_def mark_update_def wanted_mark_def fast_path_armed_def UNARMED_def example_kernel_def
        example_socket_def id SOCK_IPPROTO_TCP_def Let_def)
  have "run_hook Connect4 ?c example_kernel = (CONNECT_PROCEED, ?k)" using first by (metis prod.collapse)
  note marks_need_a_living_grant [of example_kernel example_globals "[]" example_kernel, OF _ this, of 5]
  then have grant: "map_of (k_fast_allow example_kernel) 9 \<noteq> None"
    using one by (simp add: example_socket_def id) (simp add: example_kernel_def)
  let ?d = "?c\<lparr>c_boot_ns := 100\<rparr>"
  have second: "fst (run_hook Connect4 ?d ?k) = CONNECT_PROCEED"
  proof (rule go)
    show "k_verdicts ?k = [(7, DENY)]" by (simp only: hook_frame) (simp add: example_kernel_def)
    show "c_pid_tgid ?d = 0x900000000" by (simp add: example_socket_def)
  qed
  then have "run_hook Connect4 ?d ?k = (CONNECT_PROCEED, snd (run_hook Connect4 ?d ?k))" by (metis prod.collapse)
  note late = marks_need_a_living_grant [of ?k example_globals "[]" ?k, OF _ this, of 5]
  have "k_marks (snd (run_hook Connect4 ?d ?k)) 5 \<noteq> 77"
    using late unfolding fast_path_armed_def hook_frame
    by (simp del: run_hook.simps add: UNARMED_def example_kernel_def full_hook_def example_socket_def)
  with one grant show ?thesis by blast
qed

end
