(* ===== verification/Enforce.thy ===== *)
theory Enforce
  imports KernelConnect Identity Engine
begin

text \<open>
  \<open>crates/cfc-daemon/src/ebpf/enforce.rs\<close>: what the daemon writes into the kernel's maps, over the
  rules of the engine and the machine that changes while \<open>/proc\<close> is read, and the pins of the
  connect programs.
\<close>

section \<open>Map calls\<close>

definition ENOENT :: int where "ENOENT = 2"

text \<open>
  An error of the map library: that the key is absent, or a chain of causes, each an I/O error with
  the errno it carries or something else.
\<close>

datatype map_error = KeyNotFound | MapError "int option option list"

fun first_io :: "int option option list \<Rightarrow> int option" where
  "first_io [] = None"
| "first_io (Some io # links) = io"
| "first_io (None # links) = first_io links"

definition is_absent :: "map_error \<Rightarrow> bool" where
  "is_absent e \<longleftrightarrow> (case e of KeyNotFound \<Rightarrow> True | MapError links \<Rightarrow> first_io links = Some ENOENT)"

text \<open>\<open>remove\<close> of the map library hands back the kernel's refusal to delete an absent key.\<close>

definition map_remove :: "'k \<Rightarrow> ('k \<times> 'v) list \<Rightarrow> (map_error + unit) \<times> ('k \<times> 'v) list" where
  "map_remove k m =
     (if map_of m k = None then (Inl (MapError [None, Some (Some ENOENT)]), m) else (Inr (), AList.delete k m))"

definition clear :: "u32 \<Rightarrow> (u32 \<times> u32) list \<Rightarrow> (map_error + unit) \<times> (u32 \<times> u32) list" where
  "clear pid m =
     (case map_remove pid m of
        (Inl e, m) \<Rightarrow> (if is_absent e then Inr () else Inl e, m)
      | (Inr u, m) \<Rightarrow> (Inr u, m))"

lemma clear_eq: "clear pid m = (Inr (), AList.delete pid m)"
  by (simp add: clear_def map_remove_def is_absent_def map_of_eq_None_iff delete_id)

definition deny :: "u32 \<Rightarrow> (u32 \<times> u32) list \<Rightarrow> (u32 \<times> u32) list" where
  "deny pid m = snd (bpf_insert VERDICTS_MAX pid DENY m)"

definition write_verdict :: "u32 \<Rightarrow> bool \<Rightarrow> (u32 \<times> u32) list \<Rightarrow> (u32 \<times> u32) list" where
  "write_verdict pid denied m = (if denied then deny pid m else snd (clear pid m))"

section \<open>A process as the rules see it\<close>

definition proc_exe :: "(string \<Rightarrow> bool) \<Rightarrow> machine \<Rightarrow> u32 \<Rightarrow> string option attr" where
  "proc_exe utf8 M pid = do {
     path \<leftarrow> look M (\<lambda>v. v_exe_link v pid);
     case path of
       None \<Rightarrow> State_Monad.return None
     | Some path \<Rightarrow> do {
         meta \<leftarrow> look M (\<lambda>v. v_exe_stat v pid);
         State_Monad.return (map_option (\<lambda>m. policy_exe_path utf8 path (fm_nlink m = 0)) meta) } }"

definition status_uid :: "string \<Rightarrow> u32 option" where
  "status_uid status =
     (case field_line ''Uid:'' (str_lines status) of
        None \<Rightarrow> None
      | Some l \<Rightarrow> (case split_whitespace l of [] \<Rightarrow> None | v # _ \<Rightarrow> parse_u32 v))"

definition proc_uid :: "machine \<Rightarrow> u32 \<Rightarrow> u32 option attr" where
  "proc_uid M pid = look M (\<lambda>v. Option.bind (v_status v pid) status_uid)"

definition proc_starttime :: "machine \<Rightarrow> u32 \<Rightarrow> u64 option attr" where
  "proc_starttime M pid = look M (\<lambda>v. start_at v pid)"

definition viewed_process :: "u32 \<Rightarrow> string \<Rightarrow> u32 option \<Rightarrow> process" where
  "viewed_process pid exe uid = (unknown_process pid)\<lparr>p_exe := exe, p_uid := uid\<rparr>"

definition proc_view :: "(string \<Rightarrow> bool) \<Rightarrow> machine \<Rightarrow> u32 \<Rightarrow> (process \<times> u64 option) option attr" where
  "proc_view utf8 M pid = do {
     exe \<leftarrow> proc_exe utf8 M pid;
     case exe of
       None \<Rightarrow> State_Monad.return None
     | Some exe \<Rightarrow> do {
         uid \<leftarrow> proc_uid M pid;
         starttime \<leftarrow> proc_starttime M pid;
         State_Monad.return (Some (viewed_process pid exe uid, starttime)) } }"

section \<open>Exec and exit events\<close>

text \<open>What the event consumer of \<open>loader.rs\<close> hands over.\<close>

definition exec_process :: "exec_event \<Rightarrow> process" where
  "exec_process e =
     (unknown_process (xe_pid e))\<lparr>p_ppid := (if xe_ppid e \<noteq> 0 then Some (xe_ppid e) else None),
        p_uid := Some (xe_uid e), p_gid := Some (xe_gid e)\<rparr>"

definition on_exec :: "ext \<Rightarrow> int \<Rightarrow> engine \<Rightarrow> (string \<Rightarrow> bool) \<Rightarrow> machine \<Rightarrow> u32 \<Rightarrow> process \<Rightarrow> kernel \<Rightarrow> kernel attr" where
  "on_exec E clk eng utf8 M pid proc k = do {
     resolved \<leftarrow> proc_exe utf8 M pid;
     let proc = (case resolved of Some exe \<Rightarrow> proc\<lparr>p_exe := exe\<rparr> | None \<Rightarrow> proc);
     State_Monad.return (k\<lparr>k_verdicts := write_verdict pid (denies_process_wide E clk eng proc) (k_verdicts k)\<rparr>) }"

definition on_exit :: "u32 \<Rightarrow> kernel \<Rightarrow> kernel" where
  "on_exit pid k = k\<lparr>k_verdicts := snd (clear pid (k_verdicts k))\<rparr>"

section \<open>The kernel's own rule table\<close>

definition path_bytes :: "string \<Rightarrow> bytes" where "path_bytes s = map of_char s"

text \<open>Equality of two hash maps, both without duplicate keys.\<close>

definition same_map :: "('k \<times> 'v) list \<Rightarrow> ('k \<times> 'v) list \<Rightarrow> bool" where
  "same_map m n \<longleftrightarrow> list_all (\<lambda>k. map_of m k = map_of n k) (map fst m @ map fst n)"

definition wanted_rules :: "ext \<Rightarrow> int \<Rightarrow> engine \<Rightarrow> (u64 \<times> u32) list" where
  "wanted_rules E clk eng =
     foldl (\<lambda>m exe. if denies_process_wide E clk eng ((unknown_process 0)\<lparr>p_exe := exe\<rparr>)
                    then AList.update (hash_exe_path (path_bytes exe)) DENY m else m)
       [] (unwrap_or (compilable_exe_paths E clk eng) [])"

text \<open>\<open>served\<close> says which insertions the kernel serves, room aside; the number is those that landed.\<close>

fun write_rules :: "(u64 \<Rightarrow> bool) \<Rightarrow> (u64 \<times> u32) list \<Rightarrow> nat \<times> (u64 \<times> u32) list \<Rightarrow> nat \<times> (u64 \<times> u32) list" where
  "write_rules served [] (n, table) = (n, table)"
| "write_rules served ((k, v) # rest) (n, table) =
     (if served k
      then (case bpf_insert EXE_RULES_MAX k v table of
              (True, table) \<Rightarrow> write_rules served rest (Suc n, table)
            | (False, table) \<Rightarrow> write_rules served rest (n, table))
      else write_rules served rest (n, table))"

record sink =
  vs_kernel :: kernel
  vs_has_rules :: bool
  vs_has_gate :: bool
  vs_last :: "(u64 \<times> u32) list option"

definition compile_rules ::
  "ext \<Rightarrow> int \<Rightarrow> engine \<Rightarrow> ((u64 \<times> u32) list \<Rightarrow> (u64 \<times> u32) list) \<Rightarrow> (u64 \<Rightarrow> bool) \<Rightarrow> sink \<Rightarrow> sink" where
  "compile_rules E clk eng order served s =
     (if \<not> vs_has_rules s then s
      else let wanted = wanted_rules E clk eng in
        if (case vs_last s of Some memo \<Rightarrow> same_map memo wanted | None \<Rightarrow> False) then s
        else let table = retain (\<lambda>k _. map_of wanted k \<noteq> None) (k_exe_rules (vs_kernel s)) in
          (case write_rules served (order wanted) (0, table) of (written, table) \<Rightarrow>
             s\<lparr>vs_kernel := (vs_kernel s)\<lparr>k_exe_rules := table,
                  k_exe_rules_on := (if vs_has_gate s then (if 0 < written then 1 else 0) else k_exe_rules_on (vs_kernel s))\<rparr>,
               vs_last := (if written = length wanted then Some wanted else vs_last s)\<rparr>))"

section \<open>Resync\<close>

type_synonym dated = "u32 \<times> process \<times> u64 option"

fun live_views :: "(string \<Rightarrow> bool) \<Rightarrow> machine \<Rightarrow> u32 list \<Rightarrow> dated list attr" where
  "live_views utf8 M [] = State_Monad.return []"
| "live_views utf8 M (pid # pids) = do {
     view \<leftarrow> proc_view utf8 M pid;
     rest \<leftarrow> live_views utf8 M pids;
     State_Monad.return (case view of None \<Rightarrow> rest | Some (proc, judged_at) \<Rightarrow> (pid, proc, judged_at) # rest) }"

text \<open>Those whose start time, read again, is the one they were judged at.\<close>

fun still_judged :: "machine \<Rightarrow> dated list \<Rightarrow> dated list attr" where
  "still_judged M [] = State_Monad.return []"
| "still_judged M ((pid, proc, judged_at) # views) =
     (case judged_at of
        None \<Rightarrow> still_judged M views
      | Some t \<Rightarrow> do {
          again \<leftarrow> proc_starttime M pid;
          rest \<leftarrow> still_judged M views;
          State_Monad.return (if again = Some t then (pid, proc, judged_at) # rest else rest) })"

fun doomed_pids ::
  "ext \<Rightarrow> int \<Rightarrow> engine \<Rightarrow> (string \<Rightarrow> bool) \<Rightarrow> machine \<Rightarrow> u32 list \<Rightarrow> (u32 \<times> u64 option) list attr" where
  "doomed_pids E clk eng utf8 M [] = State_Monad.return []"
| "doomed_pids E clk eng utf8 M (pid # pids) = do {
     view \<leftarrow> proc_view utf8 M pid;
     rest \<leftarrow> doomed_pids E clk eng utf8 M pids;
     State_Monad.return (case view of
         None \<Rightarrow> (pid, None) # rest
       | Some (proc, judged_at) \<Rightarrow>
           if denies_process_wide E clk eng proc then rest else (pid, judged_at) # rest) }"

fun clearable_pids :: "machine \<Rightarrow> (u32 \<times> u64 option) list \<Rightarrow> u32 list attr" where
  "clearable_pids M [] = State_Monad.return []"
| "clearable_pids M ((pid, judged_at) # doomed) = do {
     clk \<leftarrow> proc_starttime M pid;
     rest \<leftarrow> clearable_pids M doomed;
     State_Monad.return (if clk = None \<or> clk = judged_at then pid # rest else rest) }"

definition deny_work :: "ext \<Rightarrow> int \<Rightarrow> engine \<Rightarrow> dated list \<Rightarrow> (u32 \<times> bool) list" where
  "deny_work E clk eng views = map (\<lambda>(pid, proc, _). (pid, denies_process_wide E clk eng proc)) views"

definition write_all :: "(u32 \<times> bool) list \<Rightarrow> kernel \<Rightarrow> kernel" where
  "write_all work k = k\<lparr>k_verdicts := fold (\<lambda>(pid, denied). write_verdict pid denied) work (k_verdicts k)\<rparr>"

definition clear_all :: "u32 list \<Rightarrow> kernel \<Rightarrow> kernel" where
  "clear_all pids k = k\<lparr>k_verdicts := fold (\<lambda>pid m. snd (clear pid m)) pids (k_verdicts k)\<rparr>"

text \<open>
  The verdict map is locked three times, and in between the ring consumers and the kernel's own
  programs write it: \<open>others i\<close> is what they do before the lock is taken for the \<open>i\<close>th time.  The
  result also names the writes.
\<close>

definition resync_verdicts ::
  "ext \<Rightarrow> int \<Rightarrow> engine \<Rightarrow> (string \<Rightarrow> bool) \<Rightarrow> machine \<Rightarrow> u32 list \<Rightarrow> (nat \<Rightarrow> kernel \<Rightarrow> kernel) \<Rightarrow> kernel \<Rightarrow>
     ((u32 \<times> bool) list \<times> u32 list \<times> kernel) attr" where
  "resync_verdicts E clk eng utf8 M live others k = do {
     views \<leftarrow> live_views utf8 M live;
     judged \<leftarrow> still_judged M views;
     let work = deny_work E clk eng judged;
     let k = write_all work (others 0 k);
     let k = others 1 k;
     let orphans = filter (\<lambda>pid. pid \<notin> set live) (map fst (k_verdicts k));
     doomed \<leftarrow> doomed_pids E clk eng utf8 M orphans;
     clearable \<leftarrow> clearable_pids M doomed;
     State_Monad.return (work, clearable, clear_all clearable (others 2 k)) }"

section \<open>Startup\<close>

fun gone_pids :: "machine \<Rightarrow> u32 list \<Rightarrow> u32 list attr" where
  "gone_pids M [] = State_Monad.return []"
| "gone_pids M (pid # pids) = do {
     there \<leftarrow> look M (\<lambda>v. v_proc v pid);
     rest \<leftarrow> gone_pids M pids;
     State_Monad.return (if there then rest else pid # rest) }"

definition sweep :: "machine \<Rightarrow> kernel \<Rightarrow> (nat \<times> kernel) attr" where
  "sweep M k = do {
     stale \<leftarrow> gone_pids M (map fst (k_verdicts k));
     State_Monad.return
       (fold (\<lambda>pid (n, k). case map_remove pid (k_verdicts k) of
                (r, m) \<Rightarrow> (if isl r then n else n + 1, k\<lparr>k_verdicts := m\<rparr>)) stale (0, k)) }"

text \<open>
  What the three maps of the old Fast Allow answer: whether each is there with its type and (the
  two arrays) takes the write, which keys the walk over the grants yields, and which removals
  are served.  What fails is logged and skipped.
\<close>

record legacy_maps =
  lm_until :: bool
  lm_mark :: bool
  lm_grants :: bool
  lm_yields :: "u32 \<Rightarrow> bool"
  lm_removes :: "u32 \<Rightarrow> bool"

definition disarm_legacy_fast_allow :: "legacy_maps \<Rightarrow> kernel \<Rightarrow> kernel" where
  "disarm_legacy_fast_allow L k =
     (let k = (if lm_until L then k\<lparr>k_fast_until := 0\<rparr> else k);
          k = (if lm_mark L then k\<lparr>k_fast_mark := UNARMED\<rparr> else k) in
      if lm_grants L then
        (let pids = filter (lm_yields L) (map fst (k_fast_allow k)) in
         k\<lparr>k_fast_allow :=
             fold (\<lambda>pid. if lm_removes L pid then (\<lambda>m. snd (map_remove pid m)) else id) pids (k_fast_allow k)\<rparr>)
      else k)"

record enforce_stats =
  st_denied :: u64
  st_unknown :: u64
  st_report_dropped :: u64

definition stat_sum :: "nat list \<Rightarrow> kernel \<Rightarrow> nat \<Rightarrow> u64" where
  "stat_sum cpus k slot = (if slot < k_slots k then sum_list (map (\<lambda>cpu. k_stats k cpu slot) cpus) else 0)"

definition stats_of :: "nat list \<Rightarrow> kernel \<Rightarrow> enforce_stats" where
  "stats_of cpus k =
     \<lparr>st_denied = stat_sum cpus k STAT_DENIED, st_unknown = stat_sum cpus k STAT_UNKNOWN,
      st_report_dropped = stat_sum cpus k STAT_REPORT_DROPPED\<rparr>"

section \<open>A compiled rule is a refusal of the engine\<close>

lemma denied_everywhere:
  assumes "denies_process_wide E clk eng proc" "refines proc' proc" "c_direction conn = Outbound"
  shows "\<exists>v. peek E clk eng conn proc' = Resolved v \<and> v_action v \<noteq> Allow"
proof -
  obtain a where a: "process_wide_action E clk eng proc = Some a" "a \<noteq> Allow"
    using assms(1) unfolding denies_process_wide_def by (cases "process_wide_action E clk eng proc") (auto split: action.splits)
  have "process_wide_action E clk eng proc' = Some a"
    using a(1) assms(2) unfolding process_wide_action_def by (rule wide_walk_refines)
  from process_wide_lookup [OF this assms(3)] a(2) show ?thesis by auto
qed

definition denied_exe :: "ext \<Rightarrow> int \<Rightarrow> engine \<Rightarrow> string \<Rightarrow> bool" where
  "denied_exe E clk eng exe \<longleftrightarrow>
     exe \<in> set (unwrap_or (compilable_exe_paths E clk eng) []) \<and>
     denies_process_wide E clk eng ((unknown_process 0)\<lparr>p_exe := exe\<rparr>)"

lemma foldl_updates:
  "map_of (foldl (\<lambda>m x. if P x then AList.update (f x) d m else m) m xs) k =
     (if \<exists>x \<in> set xs. P x \<and> f x = k then Some d else map_of m k)"
  by (induction xs arbitrary: m) (auto simp: update_conv')

lemma foldl_updates_distinct:
  "distinct (map fst m) \<Longrightarrow> distinct (map fst (foldl (\<lambda>m x. if P x then AList.update (f x) d m else m) m xs))"
  by (induction xs arbitrary: m) (auto simp: distinct_update)

lemma wanted_iff:
  "map_of (wanted_rules E clk eng) k = (if \<exists>exe. denied_exe E clk eng exe \<and> hash_exe_path (path_bytes exe) = k then Some DENY else None)"
  by (auto simp: wanted_rules_def foldl_updates denied_exe_def)

lemma wanted_distinct: "distinct (map fst (wanted_rules E clk eng))"
  by (simp add: wanted_rules_def foldl_updates_distinct)

lemma same_map_iff: "same_map m n \<longleftrightarrow> map_of m = map_of n"
proof
  assume same: "same_map m n"
  show "map_of m = map_of n"
  proof
    fix k
    show "map_of m k = map_of n k"
    proof (cases "k \<in> set (map fst m @ map fst n)")
      case True
      then show ?thesis using same unfolding same_map_def list_all_iff by blast
    next
      case False
      then have "map_of m k = None" "map_of n k = None" by (simp_all add: map_of_eq_None_iff)
      then show ?thesis by simp
    qed
  qed
qed (simp add: same_map_def list_all_iff)

text \<open>Insertions of keys that fit.\<close>

lemma write_rules_all:
  assumes "distinct (map fst ws)" "distinct (map fst table)" "\<forall>k. served k"
    and "card (fst ` set table \<union> fst ` set ws) \<le> EXE_RULES_MAX"
  shows "\<exists>table'. write_rules served ws (n, table) = (n + length ws, table') \<and> distinct (map fst table') \<and>
    map_of table' = map_of table ++ map_of ws"
  using assms
proof (induction ws arbitrary: n table)
  case (Cons w ws)
  obtain k v where w: "w = (k, v)" by fastforce
  have room: "map_of table k \<noteq> None \<or> length table < EXE_RULES_MAX"
  proof (cases "map_of table k")
    case None
    then have "k \<notin> fst ` set table" by (simp add: map_of_eq_None_iff)
    then have "card (insert k (fst ` set table)) = Suc (length table)"
      using distinct_card [OF Cons.prems(2)] by simp
    moreover have "card (insert k (fst ` set table)) \<le> card (fst ` set table \<union> fst ` set (w # ws))"
      by (rule card_mono) (auto simp: w)
    ultimately show ?thesis using Cons.prems(4) by simp
  qed simp
  then have ins: "bpf_insert EXE_RULES_MAX k v table = (True, AList.update k v table)" by (auto simp: bpf_insert_def)
  have keys: "fst ` set (AList.update k v table) \<union> fst ` set ws = fst ` set table \<union> fst ` set (w # ws)"
    using dom_update [of k v table] by (auto simp: w)
  have "\<exists>table'. write_rules served ws (Suc n, AList.update k v table) = (Suc n + length ws, table') \<and> distinct (map fst table') \<and>
      map_of table' = map_of (AList.update k v table) ++ map_of ws"
    using Cons.prems keys by (intro Cons.IH) (simp_all add: distinct_update)
  then obtain table' where t: "write_rules served ws (Suc n, AList.update k v table) = (Suc n + length ws, table')"
    "distinct (map fst table')" "map_of table' = map_of (AList.update k v table) ++ map_of ws" by blast
  have "k \<notin> dom (map_of ws)" using Cons.prems(1) by (simp add: w dom_map_of_conv_image_fst)
  then have "map_of table' = map_of table ++ map_of (w # ws)" by (simp add: t(3) w update_conv' map_add_upd_left)
  moreover have "write_rules served (w # ws) (n, table) = (n + length (w # ws), table')"
    using ins Cons.prems(3) t(1) by (simp add: w)
  ultimately show ?case using t(2) by blast
qed simp

text \<open>What the memo promises: that the table and the gate are what was last written.\<close>

definition sink_ok :: "sink \<Rightarrow> bool" where
  "sink_ok s \<longleftrightarrow> vs_has_rules s \<and> vs_has_gate s \<and> distinct (map fst (k_exe_rules (vs_kernel s))) \<and>
     (case vs_last s of None \<Rightarrow> True
      | Some memo \<Rightarrow> map_of (k_exe_rules (vs_kernel s)) = map_of memo \<and>
          (k_exe_rules_on (vs_kernel s) \<noteq> 0 \<longleftrightarrow> memo \<noteq> []))"

definition order_kept :: "((u64 \<times> u32) list \<Rightarrow> (u64 \<times> u32) list) \<Rightarrow> bool" where
  "order_kept order \<longleftrightarrow> (\<forall>m. mset (order m) = mset m)"

lemma compiled:
  assumes "sink_ok s" "order_kept order" "\<forall>k. served k" "length (wanted_rules E clk eng) \<le> EXE_RULES_MAX"
  defines "s' \<equiv> compile_rules E clk eng order served s"
  shows "sink_ok s'" "map_of (k_exe_rules (vs_kernel s')) = map_of (wanted_rules E clk eng)"
    "k_exe_rules_on (vs_kernel s') \<noteq> 0 \<longleftrightarrow> wanted_rules E clk eng \<noteq> []"
proof -
  let ?w = "wanted_rules E clk eng"
  have "sink_ok s' \<and> map_of (k_exe_rules (vs_kernel s')) = map_of ?w \<and> (k_exe_rules_on (vs_kernel s') \<noteq> 0 \<longleftrightarrow> ?w \<noteq> [])"
  proof (cases "case vs_last s of Some memo \<Rightarrow> same_map memo ?w | None \<Rightarrow> False")
    case True
    then obtain memo where memo: "vs_last s = Some memo" "map_of memo = map_of ?w" by (auto simp: same_map_iff split: option.splits)
    have "memo = [] \<longleftrightarrow> ?w = []" using memo(2) by (metis map_of.simps(1) map_of_eq_empty_iff)
    moreover have "s' = s" using True assms(1) by (simp add: s'_def compile_rules_def sink_ok_def)
    ultimately show ?thesis using assms(1) memo by (simp add: sink_ok_def)
  next
    case False
    let ?t = "retain (\<lambda>k _. map_of ?w k \<noteq> None) (k_exe_rules (vs_kernel s))"
    have order: "set (order ?w) = set ?w" "length (order ?w) = length ?w" "distinct (map fst (order ?w))"
      "map_of (order ?w) = map_of ?w"
    proof -
      have m: "mset (order ?w) = mset ?w" using assms(2) by (simp add: order_kept_def)
      then show "set (order ?w) = set ?w" "length (order ?w) = length ?w" by (metis set_mset_mset, metis size_mset)
      show d: "distinct (map fst (order ?w))"
        using m wanted_distinct [of E clk eng] by (metis mset_map mset_eq_imp_distinct_iff)
      show "map_of (order ?w) = map_of ?w"
        using m d wanted_distinct by (metis map_of_inject_set set_mset_mset)
    qed
    have t: "distinct (map fst ?t)" "fst ` set ?t \<subseteq> fst ` set ?w"
      using assms(1) by (auto simp: sink_ok_def retain_def distinct_map_filter map_of_eq_None_iff intro: rev_image_eqI)
    have "card (fst ` set ?t \<union> fst ` set (order ?w)) = length ?w"
      using t(2) wanted_distinct [of E clk eng] unfolding order(1) by (metis (no_types) distinct_card length_map set_map sup.absorb2)
    then have "card (fst ` set ?t \<union> fst ` set (order ?w)) \<le> EXE_RULES_MAX" using assms(4) by simp
    from write_rules_all [OF order(3) t(1) assms(3) this, of 0] obtain table where
      table: "write_rules served (order ?w) (0, ?t) = (length ?w, table)" "distinct (map fst table)"
        "map_of table = map_of ?t ++ map_of ?w"
      unfolding order(2,4) by auto
    have "map_of ?t ++ map_of ?w = map_of ?w"
    proof
      fix k
      show "(map_of ?t ++ map_of ?w) k = map_of ?w k"
      proof (cases "map_of ?w k")
        case None
        then have "map_of ?t k = None" using t(2) unfolding map_of_eq_None_iff by blast
        with None show ?thesis by (simp add: map_add_def)
      qed (simp add: map_add_def)
    qed
    then have "map_of table = map_of ?w" using table(3) by simp
    then show ?thesis using False assms(1) table(1,2)
      by (simp add: s'_def compile_rules_def sink_ok_def Let_def)
  qed
  then show "sink_ok s'" "map_of (k_exe_rules (vs_kernel s')) = map_of ?w" "k_exe_rules_on (vs_kernel s') \<noteq> 0 \<longleftrightarrow> ?w \<noteq> []"
    by simp_all
qed

text \<open>C5: a refusal the kernel makes on its own is the engine's.  After the rules are compiled, with
  the insertions served and at most 4096 rules, the kernel refuses the program behind a path
  exactly when the path hashes like one the engine denies; and any process running that
  executable, whatever its user, digest or other particulars, is refused by the packet path too,
  whatever the destination.  The memo that skips an unchanged table is part of this.\<close>

theorem kernel_refusals_are_the_engines:
  assumes "sink_ok s" "order_kept order" "\<forall>k. served k" "length (wanted_rules E clk eng) \<le> EXE_RULES_MAX"
    and "s' = compile_rules E clk eng order served s" "path \<noteq> []"
  shows "(refuses_path (vs_kernel s') path \<longleftrightarrow>
      (\<exists>exe. denied_exe E clk eng exe \<and> hash_exe_path (path_bytes exe) = hash_exe_path path)) \<and>
    (\<forall>exe proc conn. denied_exe E clk eng exe \<and> exe \<noteq> UNKNOWN_EXE \<and> p_exe proc = exe \<and> c_direction conn = Outbound \<longrightarrow>
      (\<exists>v. peek E clk eng conn proc = Resolved v \<and> v_action v \<noteq> Allow)) \<and>
    sink_ok s'"
proof (intro conjI allI impI)
  note c = compiled [OF assms(1-4), folded assms(5)]
  show "sink_ok s'" by (rule c(1))
  have empty: "wanted_rules E clk eng = [] \<Longrightarrow> \<not> denied_exe E clk eng exe" for exe
    using wanted_iff [of E clk eng "hash_exe_path (path_bytes exe)"] by (auto split: if_splits)
  show "refuses_path (vs_kernel s') path \<longleftrightarrow>
      (\<exists>exe. denied_exe E clk eng exe \<and> hash_exe_path (path_bytes exe) = hash_exe_path path)"
    using assms(6) c(2,3) empty by (auto simp: refuses_path_def wanted_iff)
  show "\<exists>v. peek E clk eng conn proc = Resolved v \<and> v_action v \<noteq> Allow"
    if "denied_exe E clk eng exe \<and> exe \<noteq> UNKNOWN_EXE \<and> p_exe proc = exe \<and> c_direction conn = Outbound" for exe proc conn
    using that
    by (intro denied_everywhere [of _ _ _ "(unknown_process 0)\<lparr>p_exe := exe\<rparr>"])
      (simp_all add: denied_exe_def refines_def unknown_process_def)
qed

section \<open>What resync writes\<close>

text \<open>The reads behind a view, at four instants in order, and the start time it is dated by.\<close>

definition within :: "nat \<Rightarrow> nat \<Rightarrow> (nat \<Rightarrow> bool) \<Rightarrow> bool" where
  "within lo hi P \<longleftrightarrow> (\<exists>t. lo \<le> t \<and> t < hi \<and> P t)"

lemma within_mono: "within lo hi P \<Longrightarrow> lo' \<le> lo \<Longrightarrow> hi \<le> hi' \<Longrightarrow> within lo' hi' P"
  unfolding within_def by (meson le_trans less_le_trans)

definition view_at :: "(string \<Rightarrow> bool) \<Rightarrow> machine \<Rightarrow> u32 \<Rightarrow> process \<Rightarrow> u64 option \<Rightarrow> nat \<Rightarrow> bool" where
  "view_at utf8 M pid proc judged_at t \<longleftrightarrow>
     (\<exists>path meta. v_exe_link (mc_view M t) pid = Some path \<and> v_exe_stat (mc_view M (t + 1)) pid = Some meta \<and>
        proc = viewed_process pid (policy_exe_path utf8 path (fm_nlink meta = 0))
                 (Option.bind (v_status (mc_view M (t + 2)) pid) status_uid) \<and>
        judged_at = start_at (mc_view M (t + 3)) pid)"

definition view_seen :: "(string \<Rightarrow> bool) \<Rightarrow> machine \<Rightarrow> nat \<Rightarrow> nat \<Rightarrow> u32 \<Rightarrow> process \<Rightarrow> u64 option \<Rightarrow> bool" where
  "view_seen utf8 M lo hi pid proc judged_at \<longleftrightarrow> within lo hi (\<lambda>t. t + 3 < hi \<and> view_at utf8 M pid proc judged_at t)"

definition view_missing :: "machine \<Rightarrow> nat \<Rightarrow> nat \<Rightarrow> u32 \<Rightarrow> bool" where
  "view_missing M lo hi pid \<longleftrightarrow>
     within lo hi (\<lambda>t. v_exe_link (mc_view M t) pid = None \<or> v_exe_stat (mc_view M t) pid = None)"

definition start_read :: "machine \<Rightarrow> nat \<Rightarrow> nat \<Rightarrow> u32 \<Rightarrow> u64 option \<Rightarrow> bool" where
  "start_read M lo hi pid st \<longleftrightarrow> within lo hi (\<lambda>t. start_at (mc_view M t) pid = st)"

lemma view_seen_mono: "view_seen utf8 M lo hi pid proc j \<Longrightarrow> lo' \<le> lo \<Longrightarrow> hi \<le> hi' \<Longrightarrow> view_seen utf8 M lo' hi' pid proc j"
  unfolding view_seen_def within_def by (meson le_trans less_le_trans)

lemma view_missing_mono: "view_missing M lo hi pid \<Longrightarrow> lo' \<le> lo \<Longrightarrow> hi \<le> hi' \<Longrightarrow> view_missing M lo' hi' pid"
  unfolding view_missing_def by (rule within_mono)

lemma start_read_mono: "start_read M lo hi pid st \<Longrightarrow> lo' \<le> lo \<Longrightarrow> hi \<le> hi' \<Longrightarrow> start_read M lo' hi' pid st"
  unfolding start_read_def by (rule within_mono)

lemma proc_view_reads:
  "wp (proc_view utf8 M pid) (\<lambda>r s'. as_step s \<le> as_step s' \<and>
     (case r of None \<Rightarrow> view_missing M (as_step s) (as_step s') pid
      | Some (proc, j) \<Rightarrow> view_seen utf8 M (as_step s) (as_step s') pid proc j)) s"
proof (cases "v_exe_link (mc_view M (as_step s)) pid")
  case None
  then show ?thesis by (auto simp: proc_view_def proc_exe_def wp_simps view_missing_def within_def)
next
  case (Some path)
  show ?thesis
  proof (cases "v_exe_stat (mc_view M (Suc (as_step s))) pid")
    case None
    with Some show ?thesis
      by (simp add: proc_view_def proc_exe_def wp_simps view_missing_def within_def) (intro exI [of _ "Suc (as_step s)"], simp)
  next
    case (Some meta)
    with \<open>v_exe_link (mc_view M (as_step s)) pid = Some path\<close> show ?thesis
      by (simp add: proc_view_def proc_exe_def proc_uid_def proc_starttime_def wp_simps view_seen_def within_def view_at_def)
        (intro exI [of _ "as_step s"], simp add: numeral_3_eq_3)
  qed
qed

lemma live_views_reads:
  "wp (live_views utf8 M live) (\<lambda>views s'. as_step s \<le> as_step s' \<and>
     (\<forall>(pid, proc, j) \<in> set views. pid \<in> set live \<and> view_seen utf8 M (as_step s) (as_step s') pid proc j)) s"
proof (induction live arbitrary: s)
  case (Cons pid live)
  show ?case
    unfolding live_views.simps wp_bind
  proof (rule wp_mono [OF proc_view_reads])
    fix view and s1 :: attr_state
    assume view: "as_step s \<le> as_step s1 \<and> (case view of None \<Rightarrow> view_missing M (as_step s) (as_step s1) pid
      | Some (proc, j) \<Rightarrow> view_seen utf8 M (as_step s) (as_step s1) pid proc j)"
    show "wp (live_views utf8 M live) (\<lambda>x. wp (State_Monad.return (case view of None \<Rightarrow> x | Some (proc, judged_at) \<Rightarrow> (pid, proc, judged_at) # x))
        (\<lambda>views s'. as_step s \<le> as_step s' \<and> (\<forall>(p, proc, j) \<in> set views. p \<in> set (pid # live) \<and>
          view_seen utf8 M (as_step s) (as_step s') p proc j))) s1"
      by (rule wp_mono [OF Cons.IH])
        (use view in \<open>auto simp: wp_return split: option.splits intro: view_seen_mono\<close>)
  qed
qed (simp add: wp_return)

lemma still_judged_reads:
  "wp (still_judged M views) (\<lambda>out s'. as_step s \<le> as_step s' \<and>
     (\<forall>(pid, proc, j) \<in> set out. (pid, proc, j) \<in> set views \<and> j \<noteq> None \<and> start_read M (as_step s) (as_step s') pid j)) s"
proof (induction views arbitrary: s)
  case (Cons v views)
  obtain pid proc j where v: "v = (pid, proc, j)" by (cases v) auto
  show ?case
  proof (cases j)
    case None
    then show ?thesis using Cons.IH [of s] by (auto simp: v elim!: wp_mono)
  next
    case (Some t)
    have read: "start_read M (as_step s) (Suc (as_step s)) pid (start_at (mc_view M (as_step s)) pid)"
      by (auto simp: start_read_def within_def)
    show ?thesis
      unfolding v still_judged.simps Some option.case wp_bind proc_starttime_def wp_look
      by (rule wp_mono [OF Cons.IH])
        (use read in \<open>auto simp: wp_return intro: start_read_mono\<close>)
  qed
qed (simp add: wp_return)

lemma doomed_reads:
  "wp (doomed_pids E clk eng utf8 M pids) (\<lambda>out s'. as_step s \<le> as_step s' \<and>
     (\<forall>(pid, j) \<in> set out. pid \<in> set pids \<and>
        (j = None \<and> view_missing M (as_step s) (as_step s') pid \<or>
         (\<exists>proc. view_seen utf8 M (as_step s) (as_step s') pid proc j \<and> \<not> denies_process_wide E clk eng proc)))) s"
proof (induction pids arbitrary: s)
  case (Cons pid pids)
  show ?case
    unfolding doomed_pids.simps wp_bind
  proof (rule wp_mono [OF proc_view_reads])
    fix view and s1 :: attr_state
    assume view: "as_step s \<le> as_step s1 \<and> (case view of None \<Rightarrow> view_missing M (as_step s) (as_step s1) pid
      | Some (proc, j) \<Rightarrow> view_seen utf8 M (as_step s) (as_step s1) pid proc j)"
    show "wp (doomed_pids E clk eng utf8 M pids) (\<lambda>rest. wp (State_Monad.return (case view of None \<Rightarrow> (pid, None) # rest
          | Some (proc, judged_at) \<Rightarrow> if denies_process_wide E clk eng proc then rest else (pid, judged_at) # rest))
        (\<lambda>out s'. as_step s \<le> as_step s' \<and> (\<forall>(p, j) \<in> set out. p \<in> set (pid # pids) \<and>
          (j = None \<and> view_missing M (as_step s) (as_step s') p \<or>
           (\<exists>proc. view_seen utf8 M (as_step s) (as_step s') p proc j \<and> \<not> denies_process_wide E clk eng proc))))) s1"
      by (rule wp_mono [OF Cons.IH])
        (use view in \<open>auto simp: wp_return split: option.splits if_splits; blast intro: view_seen_mono view_missing_mono le_trans\<close>)
  qed
qed (simp add: wp_return)

lemma clearable_reads:
  "wp (clearable_pids M doomed) (\<lambda>out s'. as_step s \<le> as_step s' \<and>
     (\<forall>pid \<in> set out. \<exists>j. (pid, j) \<in> set doomed \<and>
        (start_read M (as_step s) (as_step s') pid None \<or> start_read M (as_step s) (as_step s') pid j))) s"
proof (induction doomed arbitrary: s)
  case (Cons d doomed)
  obtain pid j where d: "d = (pid, j)" by (cases d) auto
  let ?read = "start_at (mc_view M (as_step s)) pid"
  have read: "start_read M (as_step s) hi pid ?read" if "Suc (as_step s) \<le> hi" for hi
    using that by (auto simp: start_read_def within_def)
  show ?case
    unfolding d clearable_pids.simps wp_bind proc_starttime_def wp_look
  proof (rule wp_mono [OF Cons.IH])
    fix rest and s' :: attr_state
    let ?s = "s\<lparr>as_step := Suc (as_step s)\<rparr>"
    assume r: "as_step ?s \<le> as_step s' \<and> (\<forall>p \<in> set rest. \<exists>j. (p, j) \<in> set doomed \<and>
      (start_read M (as_step ?s) (as_step s') p None \<or> start_read M (as_step ?s) (as_step s') p j))"
    then have le: "Suc (as_step s) \<le> as_step s'" by simp
    have "\<exists>j'. (p, j') \<in> set ((pid, j) # doomed) \<and>
        (start_read M (as_step s) (as_step s') p None \<or> start_read M (as_step s) (as_step s') p j')"
      if p: "p \<in> set (if ?read = None \<or> ?read = j then pid # rest else rest)" for p
    proof (cases "p \<in> set rest")
      case True
      then obtain j' where "(p, j') \<in> set doomed"
        "start_read M (Suc (as_step s)) (as_step s') p None \<or> start_read M (Suc (as_step s)) (as_step s') p j'" using r by auto
      then show ?thesis using start_read_mono [of M "Suc (as_step s)" "as_step s'" p _ "as_step s" "as_step s'"] by auto
    next
      case False
      with p have "p = pid" "?read = None \<or> ?read = j" by (auto split: if_splits)
      then show ?thesis using read [OF le] by auto
    qed
    with le show "wp (State_Monad.return (if ?read = None \<or> ?read = j then pid # rest else rest))
        (\<lambda>out s'. as_step s \<le> as_step s' \<and> (\<forall>p \<in> set out. \<exists>j'. (p, j') \<in> set ((pid, j) # doomed) \<and>
          (start_read M (as_step s) (as_step s') p None \<or> start_read M (as_step s) (as_step s') p j'))) s'"
      by (simp add: wp_return)
  qed
qed (simp add: wp_return)

definition write_judged :: "ext \<Rightarrow> int \<Rightarrow> engine \<Rightarrow> (string \<Rightarrow> bool) \<Rightarrow> machine \<Rightarrow> nat \<Rightarrow> nat \<Rightarrow> u32 \<Rightarrow> bool \<Rightarrow> bool" where
  "write_judged E clk eng utf8 M lo hi pid denied \<longleftrightarrow>
     (\<exists>proc st mid. view_seen utf8 M lo mid pid proc (Some st) \<and> denied = denies_process_wide E clk eng proc \<and>
        start_read M mid hi pid (Some st))"

definition clear_judged :: "ext \<Rightarrow> int \<Rightarrow> engine \<Rightarrow> (string \<Rightarrow> bool) \<Rightarrow> machine \<Rightarrow> nat \<Rightarrow> nat \<Rightarrow> u32 \<Rightarrow> bool" where
  "clear_judged E clk eng utf8 M lo hi pid \<longleftrightarrow>
     (\<exists>j mid. (j = None \<and> view_missing M lo mid pid \<or>
         (\<exists>proc. view_seen utf8 M lo mid pid proc j \<and> \<not> denies_process_wide E clk eng proc)) \<and>
       (start_read M mid hi pid None \<or> start_read M mid hi pid j))"

text \<open>The orphans of a resync are those the map holds when it is locked the second time.\<close>

definition orphans_of :: "u32 list \<Rightarrow> kernel \<Rightarrow> u32 list" where
  "orphans_of live k = filter (\<lambda>pid. pid \<notin> set live) (map fst (k_verdicts k))"

lemma deny_phase:
  "wp (live_views utf8 M live) (\<lambda>views. wp (still_judged M views) (\<lambda>judged s'. as_step s \<le> as_step s' \<and>
     (\<forall>(pid, denied) \<in> set (deny_work E clk eng judged). pid \<in> set live \<and>
        write_judged E clk eng utf8 M (as_step s) (as_step s') pid denied))) s"
proof (rule wp_mono [OF live_views_reads], rule wp_mono [OF still_judged_reads])
  fix views judged and s1 s2 :: attr_state
  assume 1: "as_step s \<le> as_step s1 \<and> (\<forall>(pid, proc, j) \<in> set views. pid \<in> set live \<and> view_seen utf8 M (as_step s) (as_step s1) pid proc j)"
    and 2: "as_step s1 \<le> as_step s2 \<and> (\<forall>(pid, proc, j) \<in> set judged. (pid, proc, j) \<in> set views \<and> j \<noteq> None \<and> start_read M (as_step s1) (as_step s2) pid j)"
  have "pid \<in> set live \<and> write_judged E clk eng utf8 M (as_step s) (as_step s2) pid denied"
    if "(pid, denied) \<in> set (deny_work E clk eng judged)" for pid denied
  proof -
    from that obtain proc j where j: "(pid, proc, j) \<in> set judged" "denied = denies_process_wide E clk eng proc"
      by (auto simp: deny_work_def)
    then have "(pid, proc, j) \<in> set views" "j \<noteq> None" "start_read M (as_step s1) (as_step s2) pid j" using 2 by auto
    moreover then have "pid \<in> set live" "view_seen utf8 M (as_step s) (as_step s1) pid proc j" using 1 by auto
    ultimately show ?thesis using j(2) by (auto simp: write_judged_def)
  qed
  with 1 2 show "as_step s \<le> as_step s2 \<and> (\<forall>(pid, denied) \<in> set (deny_work E clk eng judged). pid \<in> set live \<and>
      write_judged E clk eng utf8 M (as_step s) (as_step s2) pid denied)" by auto
qed

lemma clear_phase:
  "wp (doomed_pids E clk eng utf8 M pids) (\<lambda>doomed. wp (clearable_pids M doomed) (\<lambda>out s'. as_step s \<le> as_step s' \<and>
     (\<forall>pid \<in> set out. pid \<in> set pids \<and> clear_judged E clk eng utf8 M (as_step s) (as_step s') pid))) s"
proof (rule wp_mono [OF doomed_reads], rule wp_mono [OF clearable_reads])
  fix doomed clearable and s1 s2 :: attr_state
  assume 1: "as_step s \<le> as_step s1 \<and> (\<forall>(pid, j) \<in> set doomed. pid \<in> set pids \<and>
      (j = None \<and> view_missing M (as_step s) (as_step s1) pid \<or>
       (\<exists>proc. view_seen utf8 M (as_step s) (as_step s1) pid proc j \<and> \<not> denies_process_wide E clk eng proc)))"
    and 2: "as_step s1 \<le> as_step s2 \<and> (\<forall>pid \<in> set clearable. \<exists>j. (pid, j) \<in> set doomed \<and>
      (start_read M (as_step s1) (as_step s2) pid None \<or> start_read M (as_step s1) (as_step s2) pid j))"
  have "pid \<in> set pids \<and> clear_judged E clk eng utf8 M (as_step s) (as_step s2) pid" if "pid \<in> set clearable" for pid
  proof -
    from that 2 obtain j where "(pid, j) \<in> set doomed"
      "start_read M (as_step s1) (as_step s2) pid None \<or> start_read M (as_step s1) (as_step s2) pid j" by blast
    with 1 show ?thesis unfolding clear_judged_def by blast
  qed
  with 1 2 show "as_step s \<le> as_step s2 \<and>
      (\<forall>pid \<in> set clearable. pid \<in> set pids \<and> clear_judged E clk eng utf8 M (as_step s) (as_step s2) pid)" by simp
qed

lemma write_judged_mono: "write_judged E clk eng utf8 M lo hi pid d \<Longrightarrow> hi \<le> hi' \<Longrightarrow> write_judged E clk eng utf8 M lo hi' pid d"
  unfolding write_judged_def by (blast intro: start_read_mono)

lemma clear_judged_mono: "clear_judged E clk eng utf8 M lo hi pid \<Longrightarrow> lo' \<le> lo \<Longrightarrow> clear_judged E clk eng utf8 M lo' hi pid"
  unfolding clear_judged_def by (blast intro: view_seen_mono view_missing_mono)


section \<open>Resync on a machine standing still\<close>

definition still_view :: "(string \<Rightarrow> bool) \<Rightarrow> view \<Rightarrow> u32 \<Rightarrow> (process \<times> u64 option) option" where
  "still_view utf8 v pid =
     (case (v_exe_link v pid, v_exe_stat v pid) of
        (Some path, Some meta) \<Rightarrow>
          Some (viewed_process pid (policy_exe_path utf8 path (fm_nlink meta = 0)) (Option.bind (v_status v pid) status_uid),
                start_at v pid)
      | _ \<Rightarrow> None)"

lemma still_start: "still_view utf8 v pid = Some (proc, j) \<Longrightarrow> j = start_at v pid"
  by (auto simp: still_view_def split: option.splits)

lemma still_proc_view:
  "\<forall>t. mc_view M t = v \<Longrightarrow> wp (proc_view utf8 M pid) (\<lambda>r s'. r = still_view utf8 v pid) s"
  by (auto simp: proc_view_def proc_exe_def proc_uid_def proc_starttime_def wp_simps still_view_def split: option.split)

definition judged_now :: "(string \<Rightarrow> bool) \<Rightarrow> view \<Rightarrow> u32 \<Rightarrow> dated option" where
  "judged_now utf8 v pid =
     (case still_view utf8 v pid of Some (proc, Some st) \<Rightarrow> Some (pid, proc, Some st) | _ \<Rightarrow> None)"

lemma still_live:
  assumes "\<forall>t. mc_view M t = v"
  shows "wp (live_views utf8 M live) (\<lambda>r s'. r = List.map_filter (\<lambda>pid. map_option (Pair pid) (still_view utf8 v pid)) live) s"
proof (induction live arbitrary: s)
  case (Cons pid live)
  show ?case
    unfolding live_views.simps wp_bind
    by (rule wp_mono [OF still_proc_view [OF assms]], rule wp_mono [OF Cons.IH])
      (auto simp: wp_return List.map_filter_def split: option.split)
qed (simp add: wp_return List.map_filter_def)

lemma still_still_judged:
  assumes "\<forall>t. mc_view M t = v"
  shows "wp (still_judged M views) (\<lambda>r s'. r = filter (\<lambda>(pid, _, j). j \<noteq> None \<and> start_at v pid = j) views) s"
proof (induction views arbitrary: s)
  case (Cons d views)
  obtain pid proc j where d: "d = (pid, proc, j)" by (cases d) auto
  show ?case
    unfolding d by (cases j) (use Cons.IH assms in \<open>auto simp: wp_simps proc_starttime_def elim: wp_mono\<close>)
qed (simp add: wp_return)

lemma still_judged_live:
  "filter (\<lambda>(pid, _, j). j \<noteq> None \<and> start_at v pid = j) (List.map_filter (\<lambda>pid. map_option (Pair pid) (still_view utf8 v pid)) live) =
     List.map_filter (judged_now utf8 v) live"
  by (induction live) (auto simp: List.map_filter_def judged_now_def dest: still_start split: option.splits)

definition doomed_now :: "ext \<Rightarrow> int \<Rightarrow> engine \<Rightarrow> (string \<Rightarrow> bool) \<Rightarrow> view \<Rightarrow> u32 \<Rightarrow> bool" where
  "doomed_now E clk eng utf8 v pid \<longleftrightarrow>
     (case still_view utf8 v pid of None \<Rightarrow> start_at v pid = None | Some (proc, _) \<Rightarrow> \<not> denies_process_wide E clk eng proc)"

lemma still_doomed:
  assumes "\<forall>t. mc_view M t = v"
  shows "wp (doomed_pids E clk eng utf8 M pids) (\<lambda>r s'. r = List.map_filter (\<lambda>pid. case still_view utf8 v pid of
      None \<Rightarrow> Some (pid, None) | Some (proc, j) \<Rightarrow> if denies_process_wide E clk eng proc then None else Some (pid, j)) pids) s"
proof (induction pids arbitrary: s)
  case (Cons pid pids)
  show ?case
    unfolding doomed_pids.simps wp_bind
    by (rule wp_mono [OF still_proc_view [OF assms]], rule wp_mono [OF Cons.IH])
      (auto simp: wp_return List.map_filter_def split: option.split)
qed (simp add: wp_return List.map_filter_def)

lemma still_clearable:
  assumes "\<forall>t. mc_view M t = v"
  shows "wp (clearable_pids M doomed) (\<lambda>r s'. r = map fst (filter (\<lambda>(pid, j). start_at v pid = None \<or> start_at v pid = j) doomed)) s"
proof (induction doomed arbitrary: s)
  case (Cons d doomed)
  obtain pid j where d: "d = (pid, j)" by (cases d) auto
  show ?case
    unfolding d using Cons.IH assms by (auto simp: wp_simps proc_starttime_def elim: wp_mono)
qed (simp add: wp_return)

lemma still_cleared:
  "map fst (filter (\<lambda>(pid, j). start_at v pid = None \<or> start_at v pid = j) (List.map_filter (\<lambda>pid. case still_view utf8 v pid of
      None \<Rightarrow> Some (pid, None) | Some (proc, j) \<Rightarrow> if denies_process_wide E clk eng proc then None else Some (pid, j)) pids)) =
     filter (doomed_now E clk eng utf8 v) pids"
  by (induction pids) (auto simp: List.map_filter_def doomed_now_def dest: still_start split: option.splits)

lemma resync_still:
  assumes "\<forall>t. mc_view M t = v"
  shows "wp (resync_verdicts E clk eng utf8 M live (\<lambda>_ k. k) k) (\<lambda>(work, cleared, k') s'.
      work = deny_work E clk eng (List.map_filter (judged_now utf8 v) live) \<and>
      cleared = filter (doomed_now E clk eng utf8 v) (orphans_of live (write_all work k)) \<and>
      k' = clear_all cleared (write_all work k)) s"
  unfolding resync_verdicts_def wp_bind Let_def orphans_of_def [symmetric]
  by (rule wp_mono [OF still_live [OF assms]], rule wp_mono [OF still_still_judged [OF assms]],
      rule wp_mono [OF still_doomed [OF assms]], rule wp_mono [OF still_clearable [OF assms]])
    (hypsubst, simp only: wp_return still_judged_live still_cleared prod.case simp_thms)

section \<open>The verdicts it leaves\<close>

lemma write_verdict_map:
  "length m < VERDICTS_MAX \<Longrightarrow> map_of (write_verdict pid d m) p = (if p = pid then (if d then Some DENY else None) else map_of m p)"
  by (simp add: write_verdict_def deny_def clear_eq map_of_bpf_insert bpf_insert_room AList.delete_conv')

lemma length_write_verdict: "length (write_verdict pid d m) \<le> Suc (length m)"
  by (auto simp: write_verdict_def deny_def clear_eq intro: length_bpf_insert order_trans [OF length_delete_le])

lemma write_all_map:
  "length m + length work \<le> VERDICTS_MAX \<Longrightarrow> \<forall>(pid, d) \<in> set work. d = f pid \<Longrightarrow>
   map_of (fold (\<lambda>(pid, denied). write_verdict pid denied) work m) p =
     (if p \<in> fst ` set work then (if f p then Some DENY else None) else map_of m p)"
proof (induction work arbitrary: m)
  case (Cons w work)
  obtain pid d where w: "w = (pid, d)" by fastforce
  have "length (write_verdict pid d m) + length work \<le> VERDICTS_MAX"
    using Cons.prems(1) length_write_verdict [of pid d m] by (simp add: w)
  from Cons.IH [OF this] Cons.prems show ?case by (auto simp: w write_verdict_map)
qed simp

lemma clear_all_map:
  "map_of (fold (\<lambda>pid m. snd (clear pid m)) pids m) p = (if p \<in> set pids then None else map_of m p)"
  by (induction pids arbitrary: m) (auto simp: clear_eq AList.delete_conv')

text \<open>What a resync settles on for one pid, given what the map held.\<close>

definition settled_verdict ::
  "ext \<Rightarrow> int \<Rightarrow> engine \<Rightarrow> (string \<Rightarrow> bool) \<Rightarrow> view \<Rightarrow> u32 list \<Rightarrow> u32 option \<Rightarrow> u32 \<Rightarrow> u32 option" where
  "settled_verdict E clk eng utf8 v live old pid =
     (if pid \<in> set live then
        (case still_view utf8 v pid of
           Some (proc, Some st) \<Rightarrow> if denies_process_wide E clk eng proc then Some DENY else None
         | _ \<Rightarrow> old)
      else if doomed_now E clk eng utf8 v pid then None else old)"

lemma resync_settled:
  assumes "\<forall>t. mc_view M t = v" "length (k_verdicts k) + length live \<le> VERDICTS_MAX"
    and "run_state (resync_verdicts E clk eng utf8 M live (\<lambda>_ k. k) k) s = ((work, cleared, k'), s')"
  shows "map_of (k_verdicts k') pid = settled_verdict E clk eng utf8 v live (map_of (k_verdicts k) pid) pid"
proof -
  let ?f = "\<lambda>p. case still_view utf8 v p of None \<Rightarrow> False | Some (proc, _) \<Rightarrow> denies_process_wide E clk eng proc"
  have w: "work = deny_work E clk eng (List.map_filter (judged_now utf8 v) live)"
    and c: "cleared = filter (doomed_now E clk eng utf8 v) (orphans_of live (write_all work k))"
    and k': "k' = clear_all cleared (write_all work k)"
    using wp_run [OF assms(3) resync_still [OF assms(1)]] by auto
  have answers: "\<forall>(p, d) \<in> set work. d = ?f p"
    by (auto simp: w deny_work_def List.map_filter_def judged_now_def split: option.splits)
  have judged: "p \<in> fst ` set work \<longleftrightarrow> p \<in> set live \<and> judged_now utf8 v p \<noteq> None" for p
    by (force simp: w deny_work_def List.map_filter_def judged_now_def split: option.splits prod.splits)
  have "length work \<le> length live" by (simp add: w deny_work_def List.map_filter_def)
  then have room: "length (k_verdicts k) + length work \<le> VERDICTS_MAX" using assms(2) by simp
  note written = write_all_map [OF room answers]
  have mid: "map_of (k_verdicts (write_all work k)) pid =
      (if pid \<in> set live \<and> judged_now utf8 v pid \<noteq> None then (if ?f pid then Some DENY else None) else map_of (k_verdicts k) pid)"
    using written [of pid] judged [of pid] by (simp add: write_all_def)
  have orphan: "pid \<in> set (orphans_of live (write_all work k)) \<longleftrightarrow> pid \<notin> set live \<and> map_of (k_verdicts (write_all work k)) pid \<noteq> None"
    by (auto simp: orphans_of_def map_of_eq_None_iff)
  have "map_of (k_verdicts k') pid = (if pid \<in> set cleared then None else map_of (k_verdicts (write_all work k)) pid)"
    by (simp add: k' clear_all_def clear_all_map)
  then show ?thesis
    using mid orphan by (auto simp: c settled_verdict_def judged_now_def split: option.splits)
qed

text \<open>on a machine standing still a resync makes the kernel's verdicts the engine's.  For every
  pid executed lately whose program and start time can be read, the kernel refuses it afterwards
  exactly when the engine refuses it for every destination; every other entry is lifted unless
  the engine refuses the program found there, or a process is there whose program cannot be
  read.  At a start, when nothing has been seen executing, that judges every inherited entry.\<close>

theorem resync_settles_the_kernel:
  assumes "\<forall>t. mc_view M t = v" "length (k_verdicts k) + length live \<le> VERDICTS_MAX"
    and "run_state (resync_verdicts E clk eng utf8 M live (\<lambda>_ k. k) k) s = ((work, cleared, k'), s')"
  shows "map_of (k_verdicts k') pid = settled_verdict E clk eng utf8 v live (map_of (k_verdicts k) pid) pid"
  by (rule resync_settled [OF assms])

section \<open>Examples\<close>

definition example_ext :: ext where
  "example_ext = \<lparr>ipnet_contains = (\<lambda>_ _. True), dt_millis = dt_instant\<rparr>"

definition deny_rule :: "128 word \<Rightarrow> string \<Rightarrow> rule" where
  "deny_rule n path = new_rule (Uuid n, DateTime 0) ''deny'' Deny (any_scope\<lparr>s_exe_path := Some path\<rparr>)"

definition engine_with :: "rule list \<Rightarrow> engine" where
  "engine_with rules = \<lparr>e_rules = rules, e_policy = profile_policy Balanced, e_hits = (\<lambda>_. None), e_notified = 0\<rparr>"

lemma example_denied:
  "path \<noteq> UNKNOWN_EXE \<Longrightarrow> p_exe proc = path \<Longrightarrow> denies_process_wide example_ext 0 (engine_with [deny_rule n path]) proc"
  by (simp add: denies_process_wide_def process_wide_action_def engine_with_def deny_rule_def new_rule_def is_expired_def
      example_ext_def any_scope_def undecidable_for_def matches_process_def exe_is_known_def is_generic_allow_def
      names_program_def is_program_refusal_def constrains_destination_def)

lemma example_compilable:
  "compilable_exe_paths example_ext 0 (engine_with [deny_rule n path]) = Some [path]"
  by (simp add: compilable_exe_paths_def engine_with_def deny_rule_def new_rule_def is_expired_def any_scope_def
      List.map_filter_def path_insert_def Let_def)

definition example_sink :: sink where
  "example_sink = \<lparr>vs_kernel = example_kernel, vs_has_rules = True, vs_has_gate = True, vs_last = None\<rparr>"

lemma example_sink_ok: "sink_ok example_sink"
  by (simp add: sink_ok_def example_sink_def example_kernel_def)

lemma example_wanted:
  "path \<noteq> UNKNOWN_EXE \<Longrightarrow>
   wanted_rules example_ext 0 (engine_with [deny_rule n path]) = [(hash_exe_path (path_bytes path), DENY)]"
  by (simp add: wanted_rules_def example_compilable example_denied)

theorem kernel_refusals_are_the_engines_witness:
  "refuses_path (vs_kernel (compile_rules example_ext 0 (engine_with [deny_rule 1 ''/a'']) (\<lambda>m. m) (\<lambda>_. True) example_sink)) [47, 97] \<and>
   (\<exists>v. peek example_ext 0 (engine_with [deny_rule 1 ''/a'']) (new_connection (Uuid 1, DateTime 0) Tcp Outbound (V4 1) 4000 (V4 2) 443)
      ((unknown_process 7)\<lparr>p_exe := ''/a'', p_uid := Some 3\<rparr>) = Resolved v \<and> v_action v \<noteq> Allow)"
proof -
  let ?eng = "engine_with [deny_rule 1 ''/a'']"
  have known: "''/a'' \<noteq> UNKNOWN_EXE" by (simp add: UNKNOWN_EXE_def)
  have denied: "denied_exe example_ext 0 ?eng ''/a''"
    using known by (simp add: denied_exe_def example_compilable example_denied)
  have bytes: "path_bytes ''/a'' = [47, 97]" by (simp add: path_bytes_def)
  have "order_kept (\<lambda>m. m)" "\<forall>k :: u64. (\<lambda>_. True) k" "length (wanted_rules example_ext 0 ?eng) \<le> EXE_RULES_MAX"
    by (simp_all add: order_kept_def example_wanted [OF known] EXE_RULES_MAX_def)
  note known_by = kernel_refusals_are_the_engines [OF example_sink_ok this refl, of "[47, 97]"]
  have "c_direction (new_connection (Uuid 1, DateTime 0) Tcp Outbound (V4 1) 4000 (V4 2) 443) = Outbound"
    by (simp add: new_connection_def)
  with known_by denied known bytes show ?thesis by auto
qed

definition example_verdicts :: "(u32 \<times> u32) list \<Rightarrow> kernel" where
  "example_verdicts m = example_kernel\<lparr>k_verdicts := m\<rparr>"

text \<open>Process 7 runs a denied program and is refused; the inherited entry of process 9, which is gone, is lifted.\<close>

theorem resync_settles_the_kernel_witness:
  "\<exists>work cleared k' s'. run_state (resync_verdicts example_ext 0 (engine_with [deny_rule 1 ''/a'']) (\<lambda>_. True) example_machine [7]
      (\<lambda>_ k. k) (example_verdicts [(9, DENY)])) new_attr_state = ((work, cleared, k'), s') \<and>
    map_of (k_verdicts k') 7 = Some DENY \<and> map_of (k_verdicts k') 9 = None"
proof -
  let ?eng = "engine_with [deny_rule 1 ''/a'']"
  obtain work cleared k' s' where run: "run_state (resync_verdicts example_ext 0 ?eng (\<lambda>_. True) example_machine [7]
      (\<lambda>_ k. k) (example_verdicts [(9, DENY)])) new_attr_state = ((work, cleared, k'), s')"
    by (metis prod.exhaust)
  have still: "\<forall>t. mc_view example_machine t = example_view" by (simp add: example_machine_def)
  have room: "length (k_verdicts (example_verdicts [(9, DENY)])) + length [7 :: u32] \<le> VERDICTS_MAX"
    by (simp add: example_verdicts_def VERDICTS_MAX_def)
  note known_by = resync_settles_the_kernel [OF still room run]
  have start: "start_at example_view 7 = Some 4711" "start_at example_view 9 = None"
    by (simp_all add: start_at_def example_view_def example_start del: example_stat_def)
  have view: "still_view (\<lambda>_. True) example_view 7 = Some (viewed_process 7 ''/a'' None, Some 4711)"
    using start by (simp add: still_view_def) (simp add: example_view_def example_meta_def policy_exe_path_def)
  have gone: "still_view (\<lambda>_. True) example_view 9 = None" by (simp add: still_view_def example_view_def)
  have "denies_process_wide example_ext 0 ?eng (viewed_process 7 ''/a'' None)"
    by (rule example_denied) (simp_all add: UNKNOWN_EXE_def viewed_process_def)
  then have "map_of (k_verdicts k') 7 = Some DENY"
    using known_by [of 7] by (simp add: settled_verdict_def view)
  moreover have "map_of (k_verdicts k') 9 = None"
    using known_by [of 9] by (simp add: settled_verdict_def doomed_now_def gone start)
  ultimately show ?thesis using run by blast
qed


section \<open>A failed write can outlive its rules\<close>

text \<open>
  The memo is kept when a write fails, although the table has changed: it then describes neither.
  Rules that go back to what the memo holds are taken for unchanged, and the refusals of the
  failed compilation stay in the kernel: here the kernel refuses \<open>/a\<close>, which no rule denies any
  more, for every program started while no daemon looks.
\<close>

theorem a_failed_write_outlives_its_rules:
  defines "none \<equiv> engine_with []"
    and "two \<equiv> engine_with [deny_rule 1 ''/a'', deny_rule 2 ''/b'']"
  shows "\<exists>s0 served. sink_ok s0 \<and>
    (let s1 = compile_rules example_ext 0 none (\<lambda>m. m) (\<lambda>_. True) s0;
         s2 = compile_rules example_ext 0 two (\<lambda>m. m) served s1;
         s3 = compile_rules example_ext 0 none (\<lambda>m. m) (\<lambda>_. True) s2
     in refuses_path (vs_kernel s3) (path_bytes ''/a'') \<and> (\<forall>exe. \<not> denied_exe example_ext 0 none exe))"
proof -
  let ?a = "hash_exe_path (path_bytes ''/a'')" and ?b = "hash_exe_path (path_bytes ''/b'')"
  let ?k = "example_kernel\<lparr>k_exe_rules := [], k_exe_rules_on := 0\<rparr>"
  let ?s = "\<lambda>table on. \<lparr>vs_kernel = ?k\<lparr>k_exe_rules := table, k_exe_rules_on := on\<rparr>, vs_has_rules = True, vs_has_gate = True, vs_last = Some []\<rparr>"
  have ne: "?a \<noteq> ?b" by (simp add: hash_exe_path_def path_bytes_def)
  have path: "\<not> path_eq ''/a'' ''/b''" "\<not> path_eq ''/b'' ''/a''" by (simp_all add: path_eq_def path_components_def is_absolute_def)
  have w0: "wanted_rules example_ext 0 none = []"
    by (simp add: wanted_rules_def compilable_exe_paths_def none_def engine_with_def List.map_filter_def Let_def)
  have paths: "compilable_exe_paths example_ext 0 two = Some [''/a'', ''/b'']"
    using path by (simp add: compilable_exe_paths_def two_def engine_with_def deny_rule_def new_rule_def is_expired_def any_scope_def
        List.map_filter_def path_insert_def Let_def)
  have denied: "denies_process_wide example_ext 0 two ((unknown_process 0)\<lparr>p_exe := p\<rparr>)" if "p = ''/a'' \<or> p = ''/b''" for p
    using that path
    by (auto simp: denies_process_wide_def process_wide_action_def two_def engine_with_def deny_rule_def new_rule_def is_expired_def
        example_ext_def any_scope_def undecidable_for_def matches_process_def exe_is_known_def is_generic_allow_def
        names_program_def is_program_refusal_def constrains_destination_def UNKNOWN_EXE_def)
  have w2: "wanted_rules example_ext 0 two = [(?a, DENY), (?b, DENY)]"
    using ne denied by (simp add: wanted_rules_def paths)
  have ok: "sink_ok (?s [] 0)" by (simp add: sink_ok_def)
  have one: "compile_rules example_ext 0 none (\<lambda>m. m) (\<lambda>_. True) (?s [] 0) = ?s [] 0"
    by (simp add: compile_rules_def w0 same_map_def Let_def)
  have two: "compile_rules example_ext 0 two (\<lambda>m. m) (\<lambda>k. k \<noteq> ?b) (?s [] 0) = ?s [(?a, DENY)] 1"
    using ne by (simp add: compile_rules_def w2 same_map_def retain_def bpf_insert_def EXE_RULES_MAX_def Let_def)
  have three: "compile_rules example_ext 0 none (\<lambda>m. m) (\<lambda>_. True) (?s [(?a, DENY)] 1) = ?s [(?a, DENY)] 1"
    by (simp add: compile_rules_def w0 same_map_def Let_def)
  have "refuses_path (vs_kernel (?s [(?a, DENY)] 1)) (path_bytes ''/a'')"
    by (simp add: refuses_path_def path_bytes_def)
  moreover have "\<not> denied_exe example_ext 0 none exe" for exe
    by (simp add: denied_exe_def compilable_exe_paths_def none_def engine_with_def List.map_filter_def Let_def)
  ultimately show ?thesis
    using ok one two three by (intro exI [of _ "?s [] 0"] exI [of _ "\<lambda>k. k \<noteq> ?b"]) (simp add: Let_def)
qed

end
