(* ===== verification/Pins.thy ===== *)
theory Pins
  imports Texts
begin

text \<open>
  The bpffs pins of \<open>crates/cfc-daemon/src/ebpf/enforce.rs\<close>: the pin directory, what other versions
  left in it, and attaching the two connect programs so that both or neither stay pinned.  The
  directory is the list of names in it; a pinned link keeps its program in the one slot of its
  attach type.
\<close>

section \<open>The pin directory\<close>

definition BPFFS :: string where "BPFFS = ''/sys/fs/bpf''"
definition PIN_NAMESPACE :: string where "PIN_NAMESPACE = ''colony-firewall''"
definition ABI_VERSION :: nat where "ABI_VERSION = 4"
definition LINK_SENDMSG4 :: string where "LINK_SENDMSG4 = ''sendmsg4''"
definition LINK_SENDMSG6 :: string where "LINK_SENDMSG6 = ''sendmsg6''"
definition LEGACY_COOKIE_MARKER :: string where "LEGACY_COOKIE_MARKER = ''cookie-variants''"
definition PROG_CONNECT4 :: string where "PROG_CONNECT4 = ''cfc_connect4''"
definition PROG_CONNECT6 :: string where "PROG_CONNECT6 = ''cfc_connect6''"
definition PROG_CONNECT4_BASIC :: string where "PROG_CONNECT4_BASIC = ''cfc_connect4_basic''"
definition PROG_CONNECT6_BASIC :: string where "PROG_CONNECT6_BASIC = ''cfc_connect6_basic''"

definition version_dir :: string where "version_dir = CHR ''v'' # dec_string ABI_VERSION"

definition pin_dir :: string where
  "pin_dir = BPFFS @ ''/'' @ PIN_NAMESPACE @ ''/'' @ version_dir"

text \<open>
  What bpffs holds: the version directories of the namespace, the pins in this build's own, and
  the slots of programs attached without a pin, which end with the process.  \<open>bf_mounted\<close> is what
  \<open>is_bpffs\<close> answers, \<open>None\<close> its failure.  \<open>removes\<close>, \<open>creates\<close> and \<open>listed\<close> say whether a removal, the
  creation of a directory and its listing succeed.
\<close>

record bpffs =
  bf_mounted :: "bool option"
  bf_versions :: "string list"
  bf_pins :: "string list"
  bf_held :: "string list"

datatype pin_error = NoStat | NotBpffs | NotCreated string | NoCgroupRoot | NoProgram string | VerifierRejected string | AttachFailed string | PinFailed string

definition unpin_other_versions :: "(string \<Rightarrow> bool) \<Rightarrow> bpffs \<Rightarrow> bpffs" where
  "unpin_other_versions removes b =
     b\<lparr>bf_versions := filter (\<lambda>name. name = version_dir \<or> \<not> removes name) (bf_versions b)\<rparr>"

definition remove_pin :: "(string \<Rightarrow> bool) \<Rightarrow> string \<Rightarrow> bpffs \<Rightarrow> bpffs" where
  "remove_pin removes name b = (if removes name then b\<lparr>bf_pins := removeAll name (bf_pins b)\<rparr> else b)"

definition remove_legacy_pins :: "(string \<Rightarrow> bool) \<Rightarrow> bpffs \<Rightarrow> bpffs" where
  "remove_legacy_pins removes b =
     remove_pin removes LEGACY_COOKIE_MARKER (remove_pin removes LINK_SENDMSG6 (remove_pin removes LINK_SENDMSG4 b))"

definition namespace_dir :: string where "namespace_dir = BPFFS @ ''/'' @ PIN_NAMESPACE"

definition prepare :: "(string \<Rightarrow> bool) \<Rightarrow> bool \<Rightarrow> (string \<Rightarrow> bool) \<Rightarrow> bpffs \<Rightarrow> (pin_error + string) \<times> bpffs" where
  "prepare creates listed removes b =
     (case bf_mounted b of
        None \<Rightarrow> (Inl NoStat, b)
      | Some False \<Rightarrow> (Inl NotBpffs, b)
      | Some True \<Rightarrow>
          if \<not> creates namespace_dir then (Inl (NotCreated namespace_dir), b)
          else let b = (if listed then unpin_other_versions removes b else b) in
            if \<not> creates pin_dir then (Inl (NotCreated pin_dir), b)
            else (Inr pin_dir, remove_legacy_pins removes (b\<lparr>bf_versions := List.insert version_dir (bf_versions b)\<rparr>)))"

definition already_attached :: "bpffs \<Rightarrow> bool" where
  "already_attached b \<longleftrightarrow> ''connect4'' \<in> set (bf_pins b) \<and> ''connect6'' \<in> set (bf_pins b)"

fun drop_pins :: "(string \<Rightarrow> bool) \<Rightarrow> string list \<Rightarrow> bpffs \<Rightarrow> bpffs" where
  "drop_pins removes [] b = b"
| "drop_pins removes (name # names) b =
     drop_pins removes names (if name \<in> set (bf_pins b) then remove_pin removes name b else b)"

definition drop_half_attached :: "(string \<Rightarrow> bool) \<Rightarrow> bpffs \<Rightarrow> bpffs" where
  "drop_half_attached removes b = drop_pins removes [''connect4'', ''connect6''] b"

section \<open>Attaching\<close>

text \<open>How far one program gets: not in the object, refused by the verifier, not attached (a foreign
  program holds the slot, say), not pinned, or all the way.\<close>

datatype reach = Missing | Unverified | Unattached | Unpinned | Attached

definition attach_one :: "(string \<Rightarrow> reach) \<Rightarrow> string \<Rightarrow> string \<Rightarrow> bool \<Rightarrow> bpffs \<Rightarrow> (pin_error + unit) \<times> bpffs" where
  "attach_one reaches name slot pinned b =
     (case reaches name of
        Missing \<Rightarrow> (Inl (NoProgram name), b)
      | Unverified \<Rightarrow> (Inl (VerifierRejected name), b)
      | r \<Rightarrow>
          if r = Unattached \<or> slot \<in> set (bf_pins b) \<or> slot \<in> set (bf_held b) then (Inl (AttachFailed name), b)
          else if \<not> pinned then (Inr (), b\<lparr>bf_held := slot # bf_held b\<rparr>)
          else if r = Unpinned then (Inl (PinFailed name), b)
          else (Inr (), b\<lparr>bf_pins := slot # bf_pins b\<rparr>))"

text \<open>The loop over the two families: the full program, else its basic twin, else the pins of this
  loop are taken back.\<close>

fun attach_families ::
  "(string \<Rightarrow> reach) \<Rightarrow> (string \<Rightarrow> bool) \<Rightarrow> bool \<Rightarrow> (string \<times> string \<times> string) list \<Rightarrow> string list \<Rightarrow> string list \<Rightarrow> bpffs
     \<Rightarrow> (pin_error + string list) \<times> bpffs" where
  "attach_families reaches removes pinned [] mine out b = (Inr out, b)"
| "attach_families reaches removes pinned ((name, basic, slot) # families) mine out b =
     (let mine' = (if pinned then mine @ [slot] else mine) in
      case attach_one reaches name slot pinned b of
        (Inr _, b) \<Rightarrow> attach_families reaches removes pinned families mine' (out @ [name]) b
      | (Inl _, b) \<Rightarrow>
          (case attach_one reaches basic slot pinned b of
             (Inr _, b) \<Rightarrow> attach_families reaches removes pinned families mine' (out @ [basic]) b
           | (Inl e, b) \<Rightarrow> (Inl e, fold (remove_pin removes) mine b)))"

definition families :: "(string \<times> string \<times> string) list" where
  "families = [(PROG_CONNECT4, PROG_CONNECT4_BASIC, ''connect4''), (PROG_CONNECT6, PROG_CONNECT6_BASIC, ''connect6'')]"

text \<open>\<open>root\<close> says whether the cgroup v2 root is found and opened.\<close>

definition attach :: "bool \<Rightarrow> (string \<Rightarrow> reach) \<Rightarrow> (string \<Rightarrow> bool) \<Rightarrow> bool \<Rightarrow> bpffs \<Rightarrow> (pin_error + string list) \<times> bpffs" where
  "attach root reaches removes pinned b =
     (if \<not> root then (Inl NoCgroupRoot, b)
      else attach_families reaches removes pinned families [] [] (if pinned then drop_half_attached removes b else b))"

section \<open>Both pins or neither\<close>

definition connect_pins :: "bpffs \<Rightarrow> bool \<times> bool" where
  "connect_pins b = (''connect4'' \<in> set (bf_pins b), ''connect6'' \<in> set (bf_pins b))"

lemma pins_remove [simp]: "removes name \<Longrightarrow> set (bf_pins (remove_pin removes name b)) = set (bf_pins b) - {name}"
  by (simp add: remove_pin_def)

lemma held_remove [simp]: "bf_held (remove_pin removes name b) = bf_held b"
  by (simp add: remove_pin_def)

lemma held_drop [simp]: "bf_held (drop_half_attached removes b) = bf_held b"
  by (simp add: drop_half_attached_def)

lemma drop_half:
  "removes ''connect4'' \<Longrightarrow> removes ''connect6'' \<Longrightarrow>
   set (bf_pins (drop_half_attached removes b)) = set (bf_pins b) - {''connect4'', ''connect6''}"
  by (auto simp: drop_half_attached_def)

lemma attach_one_ok:
  "attach_one reaches name slot True b = (r, b') \<Longrightarrow>
   (case r of Inr _ \<Rightarrow> set (bf_pins b') = insert slot (set (bf_pins b)) | Inl _ \<Rightarrow> b' = b) \<and> bf_held b' = bf_held b"
  by (auto simp: attach_one_def split: reach.splits if_splits)

lemma attach_one_err: "attach_one reaches name slot True b = (Inl e, b') \<Longrightarrow> b' = b"
  using attach_one_ok [of reaches name slot b "Inl e" b'] by simp

lemma attach_one_reaches:
  "reaches name = Attached \<Longrightarrow> slot \<notin> set (bf_pins b) \<Longrightarrow> slot \<notin> set (bf_held b) \<Longrightarrow>
   attach_one reaches name slot True b = (Inr (), b\<lparr>bf_pins := slot # bf_pins b\<rparr>)"
  by (simp add: attach_one_def)

lemma attach_pairs:
  assumes "removes ''connect4''" "removes ''connect6''" "attach True reaches removes True b = (r, b')"
  shows "(already_attached b' \<longleftrightarrow> \<not> isl r) \<and> connect_pins b' = (\<not> isl r, \<not> isl r)"
proof -
  let ?b = "drop_half_attached removes b"
  have start: "''connect4'' \<notin> set (bf_pins ?b)" "''connect6'' \<notin> set (bf_pins ?b)"
    using drop_half [OF assms(1,2)] by simp_all
  have run: "attach_families reaches removes True families [] [] ?b = (r, b')" using assms(3) by (simp add: attach_def)
  then show ?thesis
    using start assms(1,2)
    by (auto simp: families_def connect_pins_def already_attached_def Let_def dest!: attach_one_ok attach_one_err
        split: prod.splits sum.splits)
qed

text \<open>The other pins of the directory stay.\<close>

definition other_pins :: "bpffs \<Rightarrow> string set" where
  "other_pins b = set (bf_pins b) - {''connect4'', ''connect6''}"

lemma other_remove: "name = ''connect4'' \<or> name = ''connect6'' \<Longrightarrow> other_pins (remove_pin removes name b) = other_pins b"
  by (auto simp: remove_pin_def other_pins_def)

lemma other_attach_one:
  "slot = ''connect4'' \<or> slot = ''connect6'' \<Longrightarrow> attach_one reaches name slot pinned b = (r, b') \<Longrightarrow> other_pins b' = other_pins b"
  by (auto simp: attach_one_def other_pins_def split: reach.splits if_splits)

lemma other_removed: "set mine \<subseteq> {''connect4'', ''connect6''} \<Longrightarrow> other_pins (fold (remove_pin removes) mine b) = other_pins b"
  by (induction mine arbitrary: b) (auto simp: other_remove)

lemma other_families:
  "\<forall>(_, _, slot) \<in> set fs. slot = ''connect4'' \<or> slot = ''connect6'' \<Longrightarrow> set mine \<subseteq> {''connect4'', ''connect6''} \<Longrightarrow>
   attach_families reaches removes pinned fs mine out b = (r, b') \<Longrightarrow> other_pins b' = other_pins b"
proof (induction reaches removes pinned fs mine out b arbitrary: r b' rule: attach_families.induct)
  case (2 reaches removes pinned name basic slot fs mine out b)
  let ?mine = "if pinned then mine @ [slot] else mine"
  have mine: "set ?mine \<subseteq> {''connect4'', ''connect6''}" using "2.prems"(1,2) by auto
  have slot: "slot = ''connect4'' \<or> slot = ''connect6''" using "2.prems"(1) by simp
  obtain r1 b1 where one: "attach_one reaches name slot pinned b = (r1, b1)" by fastforce
  obtain r2 b2 where two: "attach_one reaches basic slot pinned b1 = (r2, b2)" by fastforce
  have same: "other_pins b1 = other_pins b" "other_pins b2 = other_pins b1"
    using other_attach_one [OF slot one] other_attach_one [OF slot two] by simp_all
  show ?case
  proof (cases r1)
    case (Inr u)
    then show ?thesis using "2.IH"(2) [OF refl one [symmetric] Inr _ mine] "2.prems" one same by simp
  next
    case (Inl e)
    show ?thesis
    proof (cases r2)
      case (Inr u)
      then show ?thesis using "2.IH"(1) [OF refl one [symmetric] Inl two [symmetric] Inr _ mine] "2.prems" one two Inl same by simp
    next
      case (Inl e2)
      then show ?thesis using \<open>r1 = Inl e\<close> "2.prems" one two same other_removed [of mine removes b2] by simp
    qed
  qed
qed simp

lemma attach_other_pins: "attach root reaches removes pinned b = (r, b') \<Longrightarrow> other_pins b' = other_pins b"
proof -
  assume run: "attach root reaches removes pinned b = (r, b')"
  have dropped: "other_pins (drop_half_attached removes b) = other_pins b"
    by (simp add: drop_half_attached_def other_remove)
  have slots: "\<forall>(_, _, slot) \<in> set families. slot = ''connect4'' \<or> slot = ''connect6''" by (simp add: families_def)
  have none: "set [] \<subseteq> {''connect4'', ''connect6''}" by simp
  show ?thesis
  proof (cases root)
    case True
    then have "attach_families reaches removes pinned families [] [] (if pinned then drop_half_attached removes b else b) = (r, b')"
      using run by (simp add: attach_def)
    then have "other_pins b' = other_pins (if pinned then drop_half_attached removes b else b)" by (rule other_families [OF slots none])
    with dropped show ?thesis by simp
  qed (use run in \<open>simp add: attach_def\<close>)
qed

text \<open>C38: the connect programs end up pinned both or not at all.  When removals succeed and the cgroup root opens, attaching
  to a pin directory, whatever half of a pair a dead daemon left there and wherever either
  program fails, ends with both pins and an answer, or with neither and an error; and it never
  fails on the leftover itself: programs that reach their pin are attached.\<close>

theorem connect_pins_come_in_pairs:
  assumes "removes ''connect4''" "removes ''connect6''" "attach True reaches removes True b = (r, b')"
  shows "(already_attached b' \<longleftrightarrow> \<not> isl r) \<and> connect_pins b' = (\<not> isl r, \<not> isl r) \<and>
    (''connect4'' \<notin> set (bf_held b) \<and> ''connect6'' \<notin> set (bf_held b) \<and> reaches PROG_CONNECT4 = Attached \<and>
      reaches PROG_CONNECT6 = Attached \<longrightarrow> r = Inr [PROG_CONNECT4, PROG_CONNECT6])"
proof -
  let ?b = "drop_half_attached removes b"
  have start: "''connect4'' \<notin> set (bf_pins ?b)" "''connect6'' \<notin> set (bf_pins ?b)"
    using drop_half [OF assms(1,2)] by simp_all
  have run: "attach_families reaches removes True families [] [] ?b = (r, b')" using assms(3) by (simp add: attach_def)
  note pairs = attach_pairs [OF assms]
  have "r = Inr [PROG_CONNECT4, PROG_CONNECT6]"
    if "''connect4'' \<notin> set (bf_held b)" "''connect6'' \<notin> set (bf_held b)" "reaches PROG_CONNECT4 = Attached"
      "reaches PROG_CONNECT6 = Attached"
    using run start that by (simp add: families_def attach_one_reaches)
  with pairs show ?thesis by blast
qed

text \<open>A lone pin of a daemon that died between the two: both end up pinned.\<close>

theorem connect_pins_come_in_pairs_witness:
  "already_attached (snd (attach True (\<lambda>_. Attached) (\<lambda>_. True) True \<lparr>bf_mounted = Some True, bf_versions = [], bf_pins = [''connect4''], bf_held = []\<rparr>)) \<and>
   \<not> already_attached (snd (attach True (\<lambda>name. if name = PROG_CONNECT4 then Attached else Unverified) (\<lambda>_. True) True
     \<lparr>bf_mounted = Some True, bf_versions = [], bf_pins = [''connect4''], bf_held = []\<rparr>))"
proof -
  let ?b = "\<lparr>bf_mounted = Some True, bf_versions = [], bf_pins = [''connect4''], bf_held = []\<rparr>"
  obtain r b' where one: "attach True (\<lambda>_. Attached) (\<lambda>_. True) True ?b = (r, b')" by fastforce
  obtain r' b'' where two: "attach True (\<lambda>name. if name = PROG_CONNECT4 then Attached else Unverified) (\<lambda>_. True) True ?b = (r', b'')"
    by fastforce
  have "isl r'" using two
    by (auto simp: attach_def families_def attach_one_def drop_half_attached_def remove_pin_def PROG_CONNECT4_def
        PROG_CONNECT6_def PROG_CONNECT6_BASIC_def Let_def)
  then show ?thesis
    using connect_pins_come_in_pairs [OF _ _ one] connect_pins_come_in_pairs [OF _ _ two] one two by simp
qed

end
