(* ===== verification/EbpfEvents.thy ===== *)
theory EbpfEvents
  imports Enforce
begin

text \<open>
  The consumers of the kernel's event rings in \<open>crates/cfc-daemon/src/ebpf/loader.rs\<close>: an exec files
  the process and its verdict, an exit evicts both once the thread group is gone, and candidates
  that are not gone yet are looked at again.  The machine may change between two reads.
\<close>

section \<open>Whether a process is gone\<close>

text \<open>\<open>utf8\<close> says whether the text of a file is valid, which \<open>read_to_string\<close> asks for.\<close>

definition process_state :: "string \<Rightarrow> string option" where
  "process_state stat =
     (case rsplit_once CHR '')'' stat of
        None \<Rightarrow> None
      | Some (_, rest) \<Rightarrow> (case split_whitespace rest of [] \<Rightarrow> None | w # _ \<Rightarrow> Some w))"

definition process_group_is_gone :: "(string \<Rightarrow> bool) \<Rightarrow> machine \<Rightarrow> u32 \<Rightarrow> bool attr" where
  "process_group_is_gone utf8 M pid = do {
     tasks \<leftarrow> look M (\<lambda>v. v_tasks v pid);
     case tasks of
       NoTaskDir \<Rightarrow> State_Monad.return True
     | UnreadableTaskDir \<Rightarrow> State_Monad.return False
     | TaskNames names \<Rightarrow>
         if names = [dec_string (unat pid)] then
           look M (\<lambda>v. case v_stat v pid of
               None \<Rightarrow> False
             | Some stat \<Rightarrow> utf8 stat \<and> (process_state stat = Some ''Z'' \<or> process_state stat = Some ''X''))
         else State_Monad.return False }"

section \<open>The consumers\<close>

definition MAX_PENDING_EXITS :: nat where "MAX_PENDING_EXITS = 1024"

text \<open>\<open>wa_sink\<close> says whether in-kernel verdicts are written; the process table is in the state.\<close>

record watcher =
  wa_kernel :: kernel
  wa_sink :: bool
  wa_pending :: "(u32 \<times> u64 option) list"

definition observe_exit_of :: "u32 \<Rightarrow> unit attr" where
  "observe_exit_of pid = State_Monad.update (\<lambda>s. s\<lparr>as_procs := observe_exit pid (as_procs s)\<rparr>)"

definition evict_exited :: "u32 \<Rightarrow> watcher \<Rightarrow> watcher attr" where
  "evict_exited pid w = do {
     _ \<leftarrow> observe_exit_of pid;
     State_Monad.return (if wa_sink w then w\<lparr>wa_kernel := on_exit pid (wa_kernel w)\<rparr> else w) }"

definition exec_consumer :: "ext \<Rightarrow> int \<Rightarrow> engine \<Rightarrow> (string \<Rightarrow> bool) \<Rightarrow> machine \<Rightarrow> exec_event \<Rightarrow> watcher \<Rightarrow> watcher attr" where
  "exec_consumer E clk eng utf8 M event w = do {
     starttime \<leftarrow> read_starttime M (xe_pid event);
     t \<leftarrow> now M;
     _ \<leftarrow> State_Monad.update (\<lambda>s. s\<lparr>as_procs := observe_exec event starttime t (as_procs s)\<rparr>);
     if wa_sink w then do {
       k \<leftarrow> on_exec E clk eng utf8 M (xe_pid event) (exec_process event) (wa_kernel w);
       State_Monad.return (w\<lparr>wa_kernel := k\<rparr>) }
     else State_Monad.return w }"

definition push_pending :: "u32 \<times> u64 option \<Rightarrow> watcher \<Rightarrow> watcher" where
  "push_pending c w =
     w\<lparr>wa_pending := (if MAX_PENDING_EXITS \<le> length (wa_pending w) then tl (wa_pending w) else wa_pending w) @ [c]\<rparr>"

definition exit_consumer :: "(string \<Rightarrow> bool) \<Rightarrow> machine \<Rightarrow> exit_event \<Rightarrow> watcher \<Rightarrow> watcher attr" where
  "exit_consumer utf8 M event w = do {
     born \<leftarrow> read_starttime M (xv_pid event);
     gone \<leftarrow> process_group_is_gone utf8 M (xv_pid event);
     if gone then evict_exited (xv_pid event) w else State_Monad.return (push_pending (xv_pid event, born) w) }"

definition requeue :: "(u32 \<times> u64 option) list \<Rightarrow> (u32 \<times> u64 option) list \<Rightarrow> (u32 \<times> u64 option) list" where
  "requeue queue waiting = (let queue = waiting @ queue in drop (length queue - MAX_PENDING_EXITS) queue)"

text \<open>One tick: the pending list is taken, each candidate is looked at, and those still waiting go back
  ahead of what arrived meanwhile.\<close>

fun recheck_all :: "(string \<Rightarrow> bool) \<Rightarrow> machine \<Rightarrow> (u32 \<times> u64 option) list \<Rightarrow> watcher \<Rightarrow> ((u32 \<times> u64 option) list \<times> watcher) attr" where
  "recheck_all utf8 M [] w = State_Monad.return ([], w)"
| "recheck_all utf8 M ((pid, born) # cs) w = do {
     gone \<leftarrow> process_group_is_gone utf8 M pid;
     if gone then do {
       w \<leftarrow> evict_exited pid w;
       recheck_all utf8 M cs w }
     else do {
       start \<leftarrow> read_starttime M pid;
       (waiting, w) \<leftarrow> recheck_all utf8 M cs w;
       State_Monad.return (if start = None \<or> start = born then (pid, born) # waiting else waiting, w) } }"

definition exit_recheck :: "(string \<Rightarrow> bool) \<Rightarrow> machine \<Rightarrow> (u32 \<times> u64 option) list \<Rightarrow> watcher \<Rightarrow> watcher attr" where
  "exit_recheck utf8 M arrivals w = do {
     let candidates = wa_pending w;
     (waiting, w) \<leftarrow> recheck_all utf8 M candidates (w\<lparr>wa_pending := []\<rparr>);
     let w = fold push_pending arrivals w;
     State_Monad.return (if waiting = [] then w else w\<lparr>wa_pending := requeue (wa_pending w) waiting\<rparr>) }"

text \<open>The program a refusal in the kernel is logged with.\<close>

definition deny_consumer :: "machine \<Rightarrow> connect_report \<Rightarrow> string attr" where
  "deny_consumer M ev = do {
     starttime \<leftarrow> read_starttime M (cr_pid ev);
     t \<leftarrow> now M;
     s \<leftarrow> State_Monad.get;
     let answer = get_proc (cr_pid ev) starttime t (as_procs s);
     _ \<leftarrow> State_Monad.set (s\<lparr>as_procs := snd answer\<rparr>);
     State_Monad.return (case fst answer of Some p \<Rightarrow> kp_comm p | None \<Rightarrow> ''?'') }"

section \<open>What is evicted was gone\<close>

definition group_gone :: "(string \<Rightarrow> bool) \<Rightarrow> machine \<Rightarrow> u32 \<Rightarrow> nat \<Rightarrow> bool" where
  "group_gone utf8 M pid t \<longleftrightarrow>
     v_tasks (mc_view M t) pid = NoTaskDir \<or>
     v_tasks (mc_view M t) pid = TaskNames [dec_string (unat pid)] \<and>
       (\<exists>stat. v_stat (mc_view M (t + 1)) pid = Some stat \<and> utf8 stat \<and>
         (process_state stat = Some ''Z'' \<or> process_state stat = Some ''X''))"

definition gone_seen :: "(string \<Rightarrow> bool) \<Rightarrow> machine \<Rightarrow> nat \<Rightarrow> nat \<Rightarrow> u32 \<Rightarrow> bool" where
  "gone_seen utf8 M lo hi pid \<longleftrightarrow> within lo hi (group_gone utf8 M pid)"

text \<open>A candidate that is still waiting: it was seen alive, and its start time is the one it came with,
  or could not be read.\<close>

definition waits :: "(string \<Rightarrow> bool) \<Rightarrow> machine \<Rightarrow> nat \<Rightarrow> nat \<Rightarrow> u32 \<times> u64 option \<Rightarrow> bool" where
  "waits utf8 M lo hi c \<longleftrightarrow>
     within lo hi (\<lambda>t. \<not> group_gone utf8 M (fst c) t) \<and> (start_read M lo hi (fst c) None \<or> start_read M lo hi (fst c) (snd c))"

lemma waits_mono: "waits utf8 M lo hi c \<Longrightarrow> lo' \<le> lo \<Longrightarrow> hi \<le> hi' \<Longrightarrow> waits utf8 M lo' hi' c"
  unfolding waits_def by (meson within_mono start_read_mono)

lemma gone_seen_mono: "gone_seen utf8 M lo hi pid \<Longrightarrow> lo' \<le> lo \<Longrightarrow> hi \<le> hi' \<Longrightarrow> gone_seen utf8 M lo' hi' pid"
  unfolding gone_seen_def by (rule within_mono)

lemma gone_reads:
  "wp (process_group_is_gone utf8 M pid) (\<lambda>gone s'. as_step s < as_step s' \<and> as_procs s' = as_procs s \<and>
     (gone \<longrightarrow> gone_seen utf8 M (as_step s) (as_step s') pid) \<and>
     (\<not> gone \<longrightarrow> within (as_step s) (as_step s') (\<lambda>t. \<not> group_gone utf8 M pid t))) s"
  by (auto simp: process_group_is_gone_def wp_simps gone_seen_def within_def group_gone_def
      split: task_dir.split option.split intro!: exI [of _ "as_step s"])

text \<open>The entries of a pid: its record and its verdict.\<close>

definition entries_gone :: "u32 \<Rightarrow> attr_state \<Rightarrow> watcher \<Rightarrow> bool" where
  "entries_gone pid s w \<longleftrightarrow>
     map_of (pt_map (as_procs s)) pid = None \<and> (wa_sink w \<longrightarrow> map_of (k_verdicts (wa_kernel w)) pid = None)"

definition same_entries :: "u32 \<Rightarrow> attr_state \<Rightarrow> watcher \<Rightarrow> attr_state \<Rightarrow> watcher \<Rightarrow> bool" where
  "same_entries pid s w s' w' \<longleftrightarrow>
     map_of (pt_map (as_procs s')) pid = map_of (pt_map (as_procs s)) pid \<and>
     map_of (k_verdicts (wa_kernel w')) pid = map_of (k_verdicts (wa_kernel w)) pid"

lemma evict_step:
  "wp (evict_exited pid w) (\<lambda>w' s'. as_step s' = as_step s \<and> wa_pending w' = wa_pending w \<and> wa_sink w' = wa_sink w \<and>
     entries_gone pid s' w' \<and> (\<forall>p. p \<noteq> pid \<longrightarrow> same_entries p s w s' w') \<and>
     (\<forall>p. entries_gone p s w \<longrightarrow> entries_gone p s' w')) s"
  by (auto simp: evict_exited_def observe_exit_of_def wp_simps entries_gone_def same_entries_def observe_exit_def on_exit_def
      clear_eq AList.delete_conv')


definition exit_settled :: "(string \<Rightarrow> bool) \<Rightarrow> machine \<Rightarrow> nat \<Rightarrow> attr_state \<Rightarrow> watcher \<Rightarrow> u32 \<times> u64 option \<Rightarrow> bool" where
  "exit_settled utf8 M lo s w c \<longleftrightarrow>
     gone_seen utf8 M lo (as_step s) (fst c) \<and> entries_gone (fst c) s w \<or>
     (\<exists>st. st \<noteq> None \<and> st \<noteq> snd c \<and> start_read M lo (as_step s) (fst c) st)"

definition ticked :: "(string \<Rightarrow> bool) \<Rightarrow> machine \<Rightarrow> attr_state \<Rightarrow> watcher \<Rightarrow> (u32 \<times> u64 option) list \<Rightarrow>
    (u32 \<times> u64 option) list \<Rightarrow> watcher \<Rightarrow> attr_state \<Rightarrow> bool" where
  "ticked utf8 M s w cs waiting w' s' \<longleftrightarrow>
     as_step s \<le> as_step s' \<and> wa_pending w' = wa_pending w \<and> wa_sink w' = wa_sink w \<and> subseq waiting cs \<and>
     (\<forall>c \<in> set cs. c \<in> set waiting \<or> exit_settled utf8 M (as_step s) s' w' c) \<and>
     (\<forall>c \<in> set waiting. waits utf8 M (as_step s) (as_step s') c) \<and>
     (\<forall>p. same_entries p s w s' w' \<or> gone_seen utf8 M (as_step s) (as_step s') p) \<and>
     (\<forall>p. entries_gone p s w \<longrightarrow> entries_gone p s' w')"

lemma exit_settled_before: "exit_settled utf8 M lo s w c \<Longrightarrow> lo' \<le> lo \<Longrightarrow> exit_settled utf8 M lo' s w c"
  unfolding exit_settled_def by (meson gone_seen_mono start_read_mono order_refl)

lemma same_entries_trans: "same_entries p s w s1 w1 \<Longrightarrow> same_entries p s1 w1 s' w' \<Longrightarrow> same_entries p s w s' w'"
  by (simp add: same_entries_def)

lemma ticked_evicted:
  assumes "ticked utf8 M s1 w1 cs waiting w' s'" "as_step s < as_step s1" "gone_seen utf8 M (as_step s) (as_step s1) pid"
    and "wa_pending w1 = wa_pending w" "wa_sink w1 = wa_sink w" "entries_gone pid s1 w1"
    and "\<forall>p. p \<noteq> pid \<longrightarrow> same_entries p s w s1 w1" "\<forall>p. entries_gone p s w \<longrightarrow> entries_gone p s1 w1"
  shows "ticked utf8 M s w ((pid, born) # cs) waiting w' s'"
proof -
  have le: "as_step s \<le> as_step s1" "as_step s1 \<le> as_step s'" using assms by (auto simp: ticked_def)
  have seen: "gone_seen utf8 M (as_step s) (as_step s') pid"
    by (rule gone_seen_mono [OF assms(3)]) (use le in auto)
  have "same_entries p s w s' w' \<or> gone_seen utf8 M (as_step s) (as_step s') p" for p
    using assms(1,7) seen le gone_seen_mono [of utf8 M "as_step s1" "as_step s'" p "as_step s" "as_step s'"]
      same_entries_trans unfolding ticked_def by (metis order_refl)
  moreover have "exit_settled utf8 M (as_step s) s' w' (pid, born)"
    using assms(1,6) seen by (auto simp: exit_settled_def ticked_def)
  moreover have "\<forall>c \<in> set cs. c \<in> set waiting \<or> exit_settled utf8 M (as_step s) s' w' c"
    using assms(1) exit_settled_before le unfolding ticked_def by blast
  moreover have "\<forall>c \<in> set waiting. waits utf8 M (as_step s) (as_step s') c"
    using assms(1) waits_mono le unfolding ticked_def by blast
  ultimately show ?thesis using assms le by (auto simp: ticked_def)
qed

lemma ticked_kept:
  assumes "ticked utf8 M s1 w cs waiting w' s'" "as_step s \<le> as_step s1" "as_procs s1 = as_procs s"
    and "within (as_step s) (as_step s1) (\<lambda>t. \<not> group_gone utf8 M pid t)" "start_read M (as_step s) (as_step s1) pid st"
  shows "ticked utf8 M s w ((pid, born) # cs) (if st = None \<or> st = born then (pid, born) # waiting else waiting) w' s'"
proof -
  have le: "as_step s1 \<le> as_step s'" using assms by (auto simp: ticked_def)
  have "exit_settled utf8 M (as_step s) s' w' (pid, born)" if "\<not> (st = None \<or> st = born)"
    using assms(5) that le start_read_mono unfolding exit_settled_def by fastforce
  moreover have "\<forall>c \<in> set cs. c \<in> set waiting \<or> exit_settled utf8 M (as_step s) s' w' c"
    using assms(1,2) exit_settled_before unfolding ticked_def by blast
  moreover have "same_entries p s w s' w' \<or> gone_seen utf8 M (as_step s) (as_step s') p" for p
    using assms(1-3) gone_seen_mono [of utf8 M "as_step s1" "as_step s'" p "as_step s" "as_step s'"]
    by (auto simp: ticked_def same_entries_def)
  moreover have "\<forall>c \<in> set waiting. waits utf8 M (as_step s) (as_step s') c"
    using assms(1,2) waits_mono unfolding ticked_def by blast
  moreover have "waits utf8 M (as_step s) (as_step s') (pid, born)" if "st = None \<or> st = born"
    by (rule waits_mono [of _ _ "as_step s" "as_step s1"]) (use assms(4,5) that le in \<open>auto simp: waits_def\<close>)
  ultimately show ?thesis using assms(1-3) le by (auto simp: ticked_def entries_gone_def)
qed

lemma recheck_ticks:
  "wp (recheck_all utf8 M cs w) (\<lambda>(waiting, w'). ticked utf8 M s w cs waiting w') s"
proof (induction cs arbitrary: w s)
  case Nil
  then show ?case by (simp add: wp_simps ticked_def same_entries_def)
next
  case (Cons c cs)
  obtain pid born where c: "c = (pid, born)" by (metis prod.exhaust)
  have gone: "wp (do { w \<leftarrow> evict_exited pid w; recheck_all utf8 M cs w })
      (\<lambda>(waiting, w'). ticked utf8 M s w (c # cs) waiting w') s1"
    if g: "as_step s < as_step s1" "as_procs s1 = as_procs s" "gone_seen utf8 M (as_step s) (as_step s1) pid" for s1
    unfolding wp_bind
  proof (rule wp_mono [OF evict_step])
    fix w2 s2
    assume e: "as_step s2 = as_step s1 \<and> wa_pending w2 = wa_pending w \<and> wa_sink w2 = wa_sink w \<and>
     entries_gone pid s2 w2 \<and> (\<forall>p. p \<noteq> pid \<longrightarrow> same_entries p s1 w s2 w2) \<and>
     (\<forall>p. entries_gone p s1 w \<longrightarrow> entries_gone p s2 w2)"
    show "wp (recheck_all utf8 M cs w2) (\<lambda>(waiting, w'). ticked utf8 M s w (c # cs) waiting w') s2"
      by (rule wp_mono [OF Cons.IH])
        (use e g in \<open>auto simp: c same_entries_def entries_gone_def intro!: ticked_evicted [of utf8 M s2 w2]\<close>)
  qed
  have kept: "wp (recheck_all utf8 M cs w)
      (\<lambda>(waiting, w') s'. ticked utf8 M s w (c # cs) (if st = None \<or> st = born then (pid, born) # waiting else waiting) w' s') s1"
    if "as_step s < as_step s1" "as_procs s1 = as_procs s" "within (as_step s) (as_step s1) (\<lambda>t. \<not> group_gone utf8 M pid t)"
      "start_read M (as_step s) (as_step s1) pid st" for s1 st
    by (rule wp_mono [OF Cons.IH]) (use that in \<open>auto simp only: c intro!: ticked_kept\<close>)
  show ?case
    unfolding c recheck_all.simps wp_bind
  proof (rule wp_mono [OF gone_reads])
    fix g and s1 :: attr_state assume r: "as_step s < as_step s1 \<and> as_procs s1 = as_procs s \<and> (g \<longrightarrow> gone_seen utf8 M (as_step s) (as_step s1) pid) \<and>
      (\<not> g \<longrightarrow> within (as_step s) (as_step s1) (\<lambda>t. \<not> group_gone utf8 M pid t))"
    have start: "start_read M (as_step s) (as_step (s1\<lparr>as_step := Suc (as_step s1)\<rparr>)) pid (start_at (mc_view M (as_step s1)) pid)"
      using r by (auto simp: start_read_def within_def intro!: exI [of _ "as_step s1"])
    show "wp (if g then do { w \<leftarrow> evict_exited pid w; recheck_all utf8 M cs w }
        else do {
          start \<leftarrow> read_starttime M pid;
          (waiting, w) \<leftarrow> recheck_all utf8 M cs w;
          State_Monad.return (if start = None \<or> start = born then (pid, born) # waiting else waiting, w) })
      (\<lambda>(waiting, w'). ticked utf8 M s w ((pid, born) # cs) waiting w') s1"
    proof (cases g)
      case True
      then show ?thesis using gone [of s1] r by (simp add: c)
    next
      case False
      then show ?thesis using kept [OF _ _ _ start] r
          within_mono [of "as_step s" "as_step s1" "\<lambda>t. \<not> group_gone utf8 M pid t" "as_step s" "Suc (as_step s1)"]
        by (simp add: wp_simps c split_def)
    qed
  qed
qed

section \<open>The pending list keeps the newest\<close>

definition newest :: "nat \<Rightarrow> 'a list \<Rightarrow> 'a list" where "newest n xs = drop (length xs - n) xs"

lemma length_newest: "length (newest n xs) \<le> n" by (simp add: newest_def)

lemma newest_all: "length xs \<le> n \<Longrightarrow> newest n xs = xs" by (simp add: newest_def)

lemma newest_newest: "newest n (xs @ newest n ys) = newest n (xs @ ys)"
  by (cases "length ys \<le> n") (simp_all add: newest_def)

lemma newest_snoc: "newest n (newest n xs @ [x]) = newest n (xs @ [x])"
proof (cases "length xs \<le> n")
  case False
  then show ?thesis by (cases n) (simp_all add: newest_def Suc_diff_Suc Suc_le_eq)
qed (simp add: newest_def)

lemma requeue_newest: "requeue queue waiting = newest MAX_PENDING_EXITS (waiting @ queue)"
  by (simp add: requeue_def newest_def Let_def)

lemma push_newest: "length (wa_pending w) \<le> MAX_PENDING_EXITS \<Longrightarrow>
    push_pending c w = w\<lparr>wa_pending := newest MAX_PENDING_EXITS (wa_pending w @ [c])\<rparr>"
  by (simp add: push_pending_def newest_def MAX_PENDING_EXITS_def drop_Suc)

lemma push_all:
  "length (wa_pending w) \<le> MAX_PENDING_EXITS \<Longrightarrow>
    fold push_pending cs w = w\<lparr>wa_pending := newest MAX_PENDING_EXITS (wa_pending w @ cs)\<rparr>"
proof (induction cs rule: rev_induct)
  case (snoc c cs)
  have "fold push_pending (cs @ [c]) w = push_pending c (w\<lparr>wa_pending := newest MAX_PENDING_EXITS (wa_pending w @ cs)\<rparr>)"
    using snoc by simp
  also have "\<dots> = w\<lparr>wa_pending := newest MAX_PENDING_EXITS ((wa_pending w @ cs) @ [c])\<rparr>"
    by (subst push_newest) (simp_all add: length_newest newest_snoc del: append_assoc)
  finally show ?case by simp
qed (simp add: newest_all)

text \<open>C9: no pending exit is lost and only the gone are evicted.  Across a tick, whatever the machine
  does between two reads, every candidate either still waits (it was seen alive, with the start time
  it came with or an unreadable one), or its group was seen gone and both its entries are removed, or
  its pid was seen with another start time; the identity and the verdict of every other process are
  left as they were; and the list keeps the newest candidates up to its cap, those still waiting
  ahead of those that arrived during the tick.\<close>

theorem exits_are_settled:
  assumes "run_state (exit_recheck utf8 M arrivals w) s = (w', s')"
  shows "wa_sink w' = wa_sink w \<and> (\<exists>waiting. subseq waiting (wa_pending w) \<and>
      wa_pending w' = newest MAX_PENDING_EXITS (waiting @ arrivals) \<and>
      (\<forall>c \<in> set (wa_pending w). c \<in> set waiting \<or> exit_settled utf8 M (as_step s) s' w' c) \<and>
      (\<forall>c \<in> set waiting. waits utf8 M (as_step s) (as_step s') c) \<and>
      (\<forall>p. same_entries p s w s' w' \<or> gone_seen utf8 M (as_step s) (as_step s') p))"
proof -
  obtain waiting w1 s1 where r: "run_state (recheck_all utf8 M (wa_pending w) (w\<lparr>wa_pending := []\<rparr>)) s = ((waiting, w1), s1)"
    by (metis prod.exhaust)
  have t: "ticked utf8 M s (w\<lparr>wa_pending := []\<rparr>) (wa_pending w) waiting w1 s1"
    using wp_run [OF r recheck_ticks] by simp
  then have empty: "wa_pending w1 = []" by (simp add: ticked_def)
  have w': "w' = w1\<lparr>wa_pending := newest MAX_PENDING_EXITS (waiting @ arrivals)\<rparr>" "s' = s1"
    using assms r empty by (auto simp: exit_recheck_def Let_def push_all requeue_newest newest_newest split: if_splits)
  show ?thesis
    using t by (intro conjI exI [of _ waiting]) (auto simp: ticked_def w' exit_settled_def entries_gone_def same_entries_def)
qed


text \<open>The leader 7 has exited and a worker lives on; process 9 is gone, and so is its refusal.\<close>

definition worker_machine :: machine where
  "worker_machine = example_machine\<lparr>mc_view := (\<lambda>_. example_view\<lparr>v_tasks := (\<lambda>pid. if pid = 7 then TaskNames [''7'', ''8''] else NoTaskDir)\<rparr>)\<rparr>"

definition example_watcher :: watcher where
  "example_watcher = \<lparr>wa_kernel = example_verdicts [(7, DENY), (9, DENY)], wa_sink = True, wa_pending = [(9, Some 1), (7, Some 4711)]\<rparr>"

theorem exits_are_settled_witness:
  "\<exists>w' s'. run_state (exit_recheck (\<lambda>_. True) worker_machine [(8, None)] example_watcher) new_attr_state = (w', s') \<and>
    wa_pending w' = [(7, Some 4711), (8, None)] \<and>
    map_of (k_verdicts (wa_kernel w')) 7 = Some DENY \<and> map_of (k_verdicts (wa_kernel w')) 9 = None"
proof -
  obtain w' s' where run: "run_state (exit_recheck (\<lambda>_. True) worker_machine [(8, None)] example_watcher) new_attr_state = (w', s')"
    by (metis prod.exhaust)
  from exits_are_settled [OF run] obtain waiting where known_by: "wa_sink w'"
    "subseq waiting [(9, Some 1), (7, Some 4711)]" "wa_pending w' = newest MAX_PENDING_EXITS (waiting @ [(8, None)])"
    "\<forall>c \<in> set [(9, Some 1), (7, Some 4711)]. c \<in> set waiting \<or> exit_settled (\<lambda>_. True) worker_machine (as_step new_attr_state) s' w' c"
    "\<forall>c \<in> set waiting. waits (\<lambda>_. True) worker_machine (as_step new_attr_state) (as_step s') c"
    "same_entries 7 new_attr_state example_watcher s' w' \<or> gone_seen (\<lambda>_. True) worker_machine (as_step new_attr_state) (as_step s') 7"
    by (auto simp: example_watcher_def)
  have start: "start_at (mc_view worker_machine t) pid = start_at example_view pid" for t pid
    by (simp add: worker_machine_def start_at_def)
  then have "start_at (mc_view worker_machine t) 7 = Some 4711" "start_at (mc_view worker_machine t) 9 = None" for t
    by (simp_all add: start_at_def example_view_def example_start del: example_stat_def)
  moreover have "\<not> group_gone (\<lambda>_. True) worker_machine 7 t" "group_gone (\<lambda>_. True) worker_machine 9 t" for t
    by (simp_all add: group_gone_def worker_machine_def)
  ultimately have "(7, Some 4711) \<in> set waiting" "(9, Some 1) \<notin> set waiting"
    and gone: "map_of (k_verdicts (wa_kernel w')) 9 = None"
    and kept: "same_entries 7 new_attr_state example_watcher s' w'"
    using known_by by (auto simp: exit_settled_def gone_seen_def waits_def start_read_def within_def entries_gone_def)
  moreover have "waiting \<in> set (subseqs [(9, Some 1), (7, Some 4711)])" using known_by(2) by (simp only: in_set_subseqs)
  ultimately have "waiting = [(7, Some 4711)]" by (auto simp: Let_def simp del: in_set_subseqs)
  then have "wa_pending w' = [(7, Some 4711), (8, None)]" using known_by(3) by (simp add: newest_def MAX_PENDING_EXITS_def)
  moreover have "map_of (k_verdicts (wa_kernel w')) 7 = Some DENY"
    using kept by (simp add: same_entries_def example_watcher_def example_verdicts_def)
  ultimately show ?thesis using run gone by auto
qed

end
