(* ===== verification/Btf.thy ===== *)
theory Btf
  imports Texts
begin

unbundle bit_operations_syntax

text \<open>
  The BTF reader of \<open>crates/cfc-daemon/src/ebpf/btf.rs\<close>: the byte offsets of the members of a kernel
  structure, from the type section the running kernel publishes.  Offsets and lengths are \<open>usize\<close>
  of 64 bits, which a sum of three 32-bit fields cannot overflow; the one subtraction that can wraps
  as it does in a release build.
\<close>

section \<open>The format\<close>

definition BTF_MAGIC :: u16 where "BTF_MAGIC = 0xEB9F"
definition BTF_HEADER_LEN :: nat where "BTF_HEADER_LEN = 24"
definition TYPE_LEN :: nat where "TYPE_LEN = 12"
definition MEMBER_LEN :: nat where "MEMBER_LEN = 12"
definition KIND_INT :: u32 where "KIND_INT = 1"
definition KIND_ARRAY :: u32 where "KIND_ARRAY = 3"
definition KIND_STRUCT :: u32 where "KIND_STRUCT = 4"
definition KIND_UNION :: u32 where "KIND_UNION = 5"
definition KIND_ENUM :: u32 where "KIND_ENUM = 6"
definition KIND_FUNC_PROTO :: u32 where "KIND_FUNC_PROTO = 13"
definition KIND_VAR :: u32 where "KIND_VAR = 14"
definition KIND_DATASEC :: u32 where "KIND_DATASEC = 15"
definition KIND_DECL_TAG :: u32 where "KIND_DECL_TAG = 17"
definition KIND_ENUM64 :: u32 where "KIND_ENUM64 = 19"

datatype btf_error =
    Truncated nat nat nat
  | BadMagic u16
  | BadVersion u8
  | ShortHeader u32
  | BadStringOffset nat nat
  | NoSuchStruct bytes

text \<open>A word in the byte order of the blob.\<close>

definition ordered :: "bool \<Rightarrow> bytes \<Rightarrow> bytes" where
  "ordered little bs = (if little then rev bs else bs)"

definition read_u32 :: "bytes \<Rightarrow> nat \<Rightarrow> bool \<Rightarrow> btf_error + u32" where
  "read_u32 buf at little =
     (case get_range buf at (at + 4) of
        None \<Rightarrow> Inl (Truncated at 4 (length buf - at))
      | Some bs \<Rightarrow> Inr (from_be (ordered little bs)))"

function is_utf8 :: "bytes \<Rightarrow> bool" where
  "is_utf8 [] \<longleftrightarrow> True"
| "is_utf8 (b # bs) \<longleftrightarrow> (let (good, n) = utf8_chunk b bs in good \<and> is_utf8 (drop n (b # bs)))"
  by pat_completeness auto
termination
proof (relation "measure length")
  fix b bs x good n assume "x = utf8_chunk b bs" "(good, n) = x"
  then have "0 < n" using utf8_chunk_pos [of b bs] by (metis snd_conv)
  then show "(drop n (b # bs), b # bs) \<in> measure length" by simp
qed simp

declare is_utf8.simps [simp del]

definition string_at :: "bytes \<Rightarrow> u32 \<Rightarrow> btf_error + bytes" where
  "string_at strings offset =
     (if unat offset > length strings then Inl (BadStringOffset (unat offset) (length strings))
      else let name = takeWhile (\<lambda>b. b \<noteq> 0) (drop (unat offset) strings) in
        Inr (if is_utf8 name then name else []))"

section \<open>Headers\<close>

record btf_header =
  bh_little :: bool
  bh_hdr_len :: u32
  bh_type_off :: u32
  bh_type_len :: u32
  bh_str_off :: u32
  bh_str_len :: u32

definition parse_btf_header :: "bytes \<Rightarrow> btf_error + btf_header" where
  "parse_btf_header raw =
     (if length raw < BTF_HEADER_LEN then Inl (Truncated 0 BTF_HEADER_LEN (length raw))
      else let le = from_be (rev (take 2 raw)); be = from_be (take 2 raw) in
        if le \<noteq> BTF_MAGIC \<and> be \<noteq> BTF_MAGIC then Inl (BadMagic le)
        else let little = (le = BTF_MAGIC) in
          if raw ! 2 \<noteq> 1 then Inl (BadVersion (raw ! 2))
          else bind_result (read_u32 raw 4 little) (\<lambda>hdr_len.
            if unat hdr_len < BTF_HEADER_LEN then Inl (ShortHeader hdr_len)
            else bind_result (read_u32 raw 8 little) (\<lambda>type_off.
              bind_result (read_u32 raw 12 little) (\<lambda>type_len.
              bind_result (read_u32 raw 16 little) (\<lambda>str_off.
              bind_result (read_u32 raw 20 little) (\<lambda>str_len.
                Inr \<lparr>bh_little = little, bh_hdr_len = hdr_len, bh_type_off = type_off, bh_type_len = type_len,
                     bh_str_off = str_off, bh_str_len = str_len\<rparr>))))))"

definition btf_section :: "btf_header \<Rightarrow> bytes \<Rightarrow> u32 \<Rightarrow> u32 \<Rightarrow> btf_error + bytes" where
  "btf_section h raw off len =
     (let start = unat (bh_hdr_len h) + unat off in
      case get_range raw start (start + unat len) of
        None \<Rightarrow> Inl (Truncated start (unat len) (length raw - start))
      | Some s \<Rightarrow> Inr s)"

record type_header =
  ty_name_off :: u32
  ty_kind :: u32
  ty_vlen :: u32
  ty_flag :: bool

definition type_of_words :: "u32 \<Rightarrow> u32 \<Rightarrow> type_header" where
  "type_of_words name_off info =
     \<lparr>ty_name_off = name_off, ty_kind = drop_bit 24 info AND 0x1f, ty_vlen = info AND 0xffff, ty_flag = (drop_bit 31 info = 1)\<rparr>"

definition parse_type :: "bytes \<Rightarrow> nat \<Rightarrow> bool \<Rightarrow> btf_error + type_header" where
  "parse_type types at little =
     bind_result (read_u32 types at little) (\<lambda>name_off.
     bind_result (read_u32 types (at + 4) little) (\<lambda>info. Inr (type_of_words name_off info)))"

definition tail_len :: "type_header \<Rightarrow> nat" where
  "tail_len ty =
     (let k = ty_kind ty; n = unat (ty_vlen ty) in
      if k = KIND_INT \<or> k = KIND_VAR \<or> k = KIND_DECL_TAG then 4
      else if k = KIND_ARRAY then 12
      else if k = KIND_STRUCT \<or> k = KIND_UNION then MEMBER_LEN * n
      else if k = KIND_ENUM \<or> k = KIND_FUNC_PROTO then 8 * n
      else if k = KIND_DATASEC \<or> k = KIND_ENUM64 then 12 * n
      else 0)"

section \<open>The walk\<close>

definition note_member :: "bytes list \<Rightarrow> bytes \<Rightarrow> u32 \<Rightarrow> u32 option list \<Rightarrow> u32 option list" where
  "note_member wanted name bit_offset out =
     map2 (\<lambda>slot want. if slot = None \<and> name = want then Some (bit_offset div 8) else slot) out wanted"

definition member_bits :: "bool \<Rightarrow> u32 \<Rightarrow> u32" where
  "member_bits flag raw_offset = (if flag then raw_offset AND 0x00ffffff else raw_offset)"

text \<open>The members from the \<open>i\<close>th on, \<open>n\<close> of them.\<close>

fun member_walk ::
  "bytes \<Rightarrow> bytes \<Rightarrow> bool \<Rightarrow> bool \<Rightarrow> bytes list \<Rightarrow> nat \<Rightarrow> nat \<Rightarrow> nat \<Rightarrow> u32 option list \<Rightarrow> btf_error + u32 option list" where
  "member_walk types strings little flag wanted body i 0 out = Inr out"
| "member_walk types strings little flag wanted body i (Suc n) out =
     (let at = body + i * MEMBER_LEN in
      bind_result (read_u32 types at little) (\<lambda>name_off.
      bind_result (read_u32 types (at + 8) little) (\<lambda>raw_offset.
      bind_result (string_at strings name_off) (\<lambda>name.
        member_walk types strings little flag wanted body (Suc i) n
          (note_member wanted name (member_bits flag raw_offset) out)))))"

function type_walk :: "bytes \<Rightarrow> bytes \<Rightarrow> bool \<Rightarrow> bytes \<Rightarrow> bytes list \<Rightarrow> nat \<Rightarrow> btf_error + u32 option list" where
  "type_walk types strings little type_name wanted cursor =
     (if cursor \<ge> length types then Inl (NoSuchStruct type_name)
      else case parse_type types cursor little of
        Inl e \<Rightarrow> Inl e
      | Inr ty \<Rightarrow>
          let body = cursor + TYPE_LEN; tail = tail_len ty in
          if body + tail > length types then
            Inl (Truncated body tail (nat ((int (length types) - int body) mod 2 ^ 64)))
          else if ty_kind ty = KIND_STRUCT then
            bind_result (string_at strings (ty_name_off ty)) (\<lambda>name.
              if name = type_name then
                member_walk types strings little (ty_flag ty) wanted body 0 (unat (ty_vlen ty)) (replicate (length wanted) None)
              else type_walk types strings little type_name wanted (body + tail))
          else type_walk types strings little type_name wanted (body + tail))"
  by pat_completeness auto
termination
  by (relation "measure (\<lambda>(types, _, _, _, _, cursor). length types - cursor)") (auto simp: TYPE_LEN_def)

declare type_walk.simps [simp del]

definition member_offsets :: "bytes \<Rightarrow> bytes \<Rightarrow> bytes list \<Rightarrow> btf_error + u32 option list" where
  "member_offsets raw type_name wanted =
     bind_result (parse_btf_header raw) (\<lambda>hdr.
     bind_result (btf_section hdr raw (bh_type_off hdr) (bh_type_len hdr)) (\<lambda>types.
     bind_result (btf_section hdr raw (bh_str_off hdr) (bh_str_len hdr)) (\<lambda>strings.
       type_walk types strings (bh_little hdr) type_name wanted 0)))"

record task_offsets =
  to_real_parent :: u32
  to_tgid :: u32

definition is_resolved :: "task_offsets \<Rightarrow> bool" where
  "is_resolved offs \<longleftrightarrow> to_real_parent offs \<noteq> 0 \<and> to_tgid offs \<noteq> 0"

definition text_bytes :: "string \<Rightarrow> bytes" where "text_bytes s = map of_char s"

text \<open>The file is an argument: \<open>None\<close> when it cannot be read.\<close>

datatype offsets_error = NoKernelBtf | Malformed btf_error

definition task_struct_offsets_from :: "bytes option \<Rightarrow> offsets_error + task_offsets" where
  "task_struct_offsets_from file_bytes =
     (case file_bytes of
        None \<Rightarrow> Inl NoKernelBtf
      | Some raw \<Rightarrow>
          bind_result (map_err Malformed (member_offsets raw (text_bytes ''task_struct'') [text_bytes ''real_parent'', text_bytes ''tgid'']))
            (\<lambda>found. Inr \<lparr>to_real_parent = (case found ! 0 of Some x \<Rightarrow> x | None \<Rightarrow> 0),
                          to_tgid = (case found ! 1 of Some x \<Rightarrow> x | None \<Rightarrow> 0)\<rparr>))"


section \<open>A written type section is read back\<close>

text \<open>One type: its name, its info word, the size or type word, and the data its kind is followed by.\<close>

record btf_type =
  bt_name_off :: u32
  bt_info :: u32
  bt_word :: u32
  bt_tail :: bytes

record btf_member =
  bm_name_off :: u32
  bm_type :: u32
  bm_offset :: u32

definition w32 :: "bool \<Rightarrow> u32 \<Rightarrow> bytes" where "w32 little w = ordered little (to_be32 w)"

definition enc_type :: "bool \<Rightarrow> btf_type \<Rightarrow> bytes" where
  "enc_type little t = w32 little (bt_name_off t) @ w32 little (bt_info t) @ w32 little (bt_word t) @ bt_tail t"

definition enc_member :: "bool \<Rightarrow> btf_member \<Rightarrow> bytes" where
  "enc_member little m = w32 little (bm_name_off m) @ w32 little (bm_type m) @ w32 little (bm_offset m)"

definition enc_types :: "bool \<Rightarrow> btf_type list \<Rightarrow> bytes" where
  "enc_types little ts = concat (map (enc_type little) ts)"

definition header_of :: "btf_type \<Rightarrow> type_header" where "header_of t = type_of_words (bt_name_off t) (bt_info t)"

text \<open>The bytes behind a type of a kind, by the documentation of the format: four for integers,
  variables and declaration tags, twelve for arrays, twelve or eight per element for the rest.\<close>

definition documented_tail :: "u32 \<Rightarrow> nat \<Rightarrow> nat" where
  "documented_tail k n =
     (if k \<in> {1, 14, 17} then 4 else if k = 3 then 12 else if k \<in> {4, 5, 15, 19} then 12 * n else if k \<in> {6, 13} then 8 * n else 0)"

lemma tail_documented: "tail_len ty = documented_tail (ty_kind ty) (unat (ty_vlen ty))"
  by (simp add: tail_len_def documented_tail_def Let_def KIND_INT_def KIND_VAR_def KIND_DECL_TAG_def KIND_ARRAY_def KIND_STRUCT_def
      KIND_UNION_def KIND_ENUM_def KIND_FUNC_PROTO_def KIND_DATASEC_def KIND_ENUM64_def MEMBER_LEN_def)

definition tails_fit :: "btf_type list \<Rightarrow> bool" where
  "tails_fit ts \<longleftrightarrow> (\<forall>t \<in> set ts. length (bt_tail t) = documented_tail (ty_kind (header_of t)) (unat (ty_vlen (header_of t))))"

text \<open>A blob with the two sections behind a header that may be longer than the one known.\<close>

definition enc_btf :: "bool \<Rightarrow> bytes \<Rightarrow> bytes \<Rightarrow> bytes \<Rightarrow> bytes" where
  "enc_btf little ext types strings =
     ordered little [0xEB, 0x9F] @ [1, 0] @ w32 little (of_nat (24 + length ext)) @
     w32 little 0 @ w32 little (of_nat (length types)) @
     w32 little (of_nat (length types)) @ w32 little (of_nat (length strings)) @ ext @ types @ strings"

lemma length_ordered [simp]: "length (ordered little bs) = length bs"
  by (simp add: ordered_def)

lemma ordered_ordered [simp]: "ordered little (ordered little bs) = bs"
  by (simp add: ordered_def)

lemma length_w32 [simp]: "length (w32 little w) = 4"
  by (simp add: w32_def be_simps)

lemma read_w32: "at = length pre \<Longrightarrow> read_u32 (pre @ w32 little w @ post) at little = Inr w"
  by (simp add: read_u32_def get_range_append) (simp add: w32_def be_simps)


lemma w32_here: "from_be (ordered little (w32 little w)) = w"
  by (simp add: w32_def be_simps)

lemma header_read:
  assumes "length ext < 2 ^ 32 - 24" "length types < 2 ^ 32" "length strings < 2 ^ 32"
  shows "parse_btf_header (enc_btf little ext types strings) =
    Inr \<lparr>bh_little = little, bh_hdr_len = of_nat (24 + length ext), bh_type_off = 0, bh_type_len = of_nat (length types),
         bh_str_off = of_nat (length types), bh_str_len = of_nat (length strings)\<rparr>"
proof -
  let ?raw = "enc_btf little ext types strings"
  define magic where "magic = ordered little [0xEB, 0x9F :: u8]"
  have magic: "length magic = 2" by (simp add: magic_def)
  have words: "read_u32 ?raw 4 little = Inr (of_nat (24 + length ext))" "read_u32 ?raw 8 little = Inr 0"
    "read_u32 ?raw 12 little = Inr (of_nat (length types))" "read_u32 ?raw 16 little = Inr (of_nat (length types))"
    "read_u32 ?raw 20 little = Inr (of_nat (length strings))"
    unfolding enc_btf_def magic_def [symmetric]
    using read_w32 [of 4 "magic @ [1, 0]"] read_w32 [of 8 "magic @ [1, 0] @ w32 little (of_nat (24 + length ext))"]
      read_w32 [of 12 "magic @ [1, 0] @ w32 little (of_nat (24 + length ext)) @ w32 little 0"]
      read_w32 [of 16 "magic @ [1, 0] @ w32 little (of_nat (24 + length ext)) @ w32 little 0 @ w32 little (of_nat (length types))"]
      read_w32 [of 20 "magic @ [1, 0] @ w32 little (of_nat (24 + length ext)) @ w32 little 0 @ w32 little (of_nat (length types)) @
        w32 little (of_nat (length types))"]
    by (simp_all add: magic)
  have start: "take 2 ?raw = magic" "?raw ! 2 = 1" "24 \<le> length ?raw"
    by (simp_all add: enc_btf_def magic_def [symmetric] magic nth_append)
  have order: "from_be (rev magic) = BTF_MAGIC \<longleftrightarrow> little" "\<not> little \<longrightarrow> from_be magic = BTF_MAGIC"
    by (cases little; simp add: magic_def ordered_def from_be_def BTF_MAGIC_def)+
  have "unat (of_nat (24 + length ext) :: u32) = 24 + length ext"
    using assms(1) by (simp add: unat_of_nat del: of_nat_add)
  then show ?thesis
    using words start order by (auto simp: parse_btf_header_def BTF_HEADER_LEN_def Let_def)
qed

lemma section_read:
  assumes "raw = pre @ sec @ post" "length pre = unat (bh_hdr_len h) + unat off" "unat len = length sec"
  shows "btf_section h raw off len = Inr sec"
  using assms by (simp add: btf_section_def get_range_append Let_def)

lemma sections_read:
  assumes "length ext < 2 ^ 32 - 24" "length types < 2 ^ 32" "length strings < 2 ^ 32"
  shows "member_offsets (enc_btf little ext types strings) name wanted = type_walk types strings little name wanted 0"
proof -
  let ?raw = "enc_btf little ext types strings"
  let ?pre = "ordered little [0xEB, 0x9F] @ [1, 0] @ w32 little (of_nat (24 + length ext)) @
     w32 little 0 @ w32 little (of_nat (length types)) @
     w32 little (of_nat (length types)) @ w32 little (of_nat (length strings)) @ ext"
  have len: "unat (of_nat (24 + length ext) :: u32) = 24 + length ext" "unat (of_nat (length types) :: u32) = length types"
    "unat (of_nat (length strings) :: u32) = length strings"
    using assms by (simp_all add: unat_of_nat del: of_nat_add)
  have "btf_section h ?raw 0 (of_nat (length types)) = Inr types" if "bh_hdr_len h = of_nat (24 + length ext)" for h
    by (rule section_read [of _ ?pre _ strings]) (use that len in \<open>simp_all add: enc_btf_def del: of_nat_add\<close>)
  moreover have "btf_section h ?raw (of_nat (length types)) (of_nat (length strings)) = Inr strings"
    if "bh_hdr_len h = of_nat (24 + length ext)" for h
    by (rule section_read [of _ "?pre @ types" _ "[]"]) (use that len in \<open>simp_all add: enc_btf_def del: of_nat_add\<close>)
  ultimately show ?thesis by (simp add: member_offsets_def header_read [OF assms] del: of_nat_add)
qed

definition named :: "bytes \<Rightarrow> u32 \<Rightarrow> bytes \<Rightarrow> bool" where
  "named strings off name \<longleftrightarrow> string_at strings off = Inr name"

text \<open>The offset of the first member of a name.\<close>

definition first_offset :: "bytes \<Rightarrow> bool \<Rightarrow> btf_member list \<Rightarrow> bytes \<Rightarrow> u32 option" where
  "first_offset strings flag ms want =
     map_option (\<lambda>m. member_bits flag (bm_offset m) div 8) (List.find (\<lambda>m. named strings (bm_name_off m) want) ms)"

lemma no_offset: "first_offset strings flag [] = (\<lambda>_. None)"
  by (simp add: first_offset_def fun_eq_iff)

lemma find_snoc: "List.find P (xs @ [x]) = (case List.find P xs of None \<Rightarrow> if P x then Some x else None | Some y \<Rightarrow> Some y)"
  by (induction xs) auto

lemma note_first:
  "string_at strings (bm_name_off m) = Inr name \<Longrightarrow>
   note_member wanted name (member_bits flag (bm_offset m)) (map (first_offset strings flag ms) wanted) =
   map (first_offset strings flag (ms @ [m])) wanted"
  by (induction wanted) (auto simp: note_member_def first_offset_def find_snoc named_def split: option.split)

lemma length_enc_member [simp]: "length (enc_member little m) = MEMBER_LEN"
  by (simp add: enc_member_def MEMBER_LEN_def)

lemma length_enc_members [simp]: "length (concat (map (enc_member little) ms)) = length ms * MEMBER_LEN"
  by (induction ms) simp_all

lemma members_walked:
  assumes "types = pre @ concat (map (enc_member little) ms) @ post" "length pre = body"
    and "\<forall>m \<in> set ms. unat (bm_name_off m) \<le> length strings" "ms = before @ rest"
  shows "member_walk types strings little flag wanted body (length before) (length rest) (map (first_offset strings flag before) wanted) =
    Inr (map (first_offset strings flag ms) wanted)"
  using assms(4)
proof (induction rest arbitrary: before)
  case (Cons m rest)
  obtain name where name: "string_at strings (bm_name_off m) = Inr name"
    using assms(3) Cons.prems by (auto simp: string_at_def Let_def)
  let ?at = "body + length before * MEMBER_LEN"
  let ?pre = "pre @ concat (map (enc_member little) before)" and ?post = "concat (map (enc_member little) rest) @ post"
  have types: "types = ?pre @ w32 little (bm_name_off m) @ w32 little (bm_type m) @ w32 little (bm_offset m) @ ?post"
    using assms(1) Cons.prems by (simp add: enc_member_def)
  have len: "length ?pre = ?at" using assms(2) by simp
  have "read_u32 types ?at little = Inr (bm_name_off m)" unfolding types by (rule read_w32) (use len in simp)
  moreover have "read_u32 types (?at + 8) little = Inr (bm_offset m)"
    using read_w32 [of "?at + 8" "?pre @ w32 little (bm_name_off m) @ w32 little (bm_type m)" little "bm_offset m" ?post] types len by simp
  ultimately show ?case
    using Cons.IH [of "before @ [m]"] Cons.prems name by (simp add: note_first)
qed simp

lemma type_read:
  assumes "types = pre @ enc_type little t @ post"
  shows "parse_type types (length pre) little = Inr (header_of t)"
proof -
  have types: "types = pre @ w32 little (bt_name_off t) @ w32 little (bt_info t) @ w32 little (bt_word t) @ bt_tail t @ post"
    using assms by (simp add: enc_type_def)
  have "read_u32 types (length pre) little = Inr (bt_name_off t)" unfolding types by (rule read_w32) simp
  moreover have "read_u32 types (length pre + 4) little = Inr (bt_info t)"
    using read_w32 [of "length pre + 4" "pre @ w32 little (bt_name_off t)" little "bt_info t"] types by simp
  ultimately show ?thesis by (simp add: parse_type_def header_of_def)
qed

definition is_struct :: "btf_type \<Rightarrow> bool" where "is_struct t \<longleftrightarrow> ty_kind (header_of t) = KIND_STRUCT"

text \<open>What the type section says: every structure has a name in the string section and as many
  members as its info word announces, each with a name there.\<close>

definition structs_fit :: "bool \<Rightarrow> bytes \<Rightarrow> (btf_type \<Rightarrow> btf_member list) \<Rightarrow> btf_type list \<Rightarrow> bool" where
  "structs_fit little strings members ts \<longleftrightarrow>
     (\<forall>t \<in> set ts. is_struct t \<longrightarrow> unat (bt_name_off t) \<le> length strings \<and>
        bt_tail t = concat (map (enc_member little) (members t)) \<and> unat (ty_vlen (header_of t)) = length (members t) \<and>
        (\<forall>m \<in> set (members t). unat (bm_name_off m) \<le> length strings))"

lemma types_walked:
  assumes "types = pre @ enc_types little ts" "tails_fit ts" "structs_fit little strings members ts"
  shows "type_walk types strings little name wanted (length pre) =
    (case List.find (\<lambda>t. is_struct t \<and> named strings (bt_name_off t) name) ts of
       None \<Rightarrow> Inl (NoSuchStruct name)
     | Some t \<Rightarrow> Inr (map (first_offset strings (ty_flag (header_of t)) (members t)) wanted))"
  using assms
proof (induction ts arbitrary: pre)
  case Nil
  then show ?case by (subst type_walk.simps) (simp add: enc_types_def)
next
  case (Cons t ts)
  let ?body = "length pre + TYPE_LEN" and ?tail = "tail_len (header_of t)" and ?post = "enc_types little ts"
  have types: "types = pre @ enc_type little t @ ?post" using Cons.prems(1) by (simp add: enc_types_def)
  have len: "length (enc_type little t) = TYPE_LEN + ?tail"
    using Cons.prems(2) by (simp add: enc_type_def TYPE_LEN_def tails_fit_def tail_documented)
  have fits: "\<not> length types \<le> length pre" "\<not> ?body + ?tail > length types"
    unfolding types by (simp_all add: len TYPE_LEN_def)
  have onward: "type_walk types strings little name wanted (?body + ?tail) =
    (case List.find (\<lambda>t. is_struct t \<and> named strings (bt_name_off t) name) ts of
       None \<Rightarrow> Inl (NoSuchStruct name)
     | Some t \<Rightarrow> Inr (map (first_offset strings (ty_flag (header_of t)) (members t)) wanted))"
    using Cons.IH [of "pre @ enc_type little t"] Cons.prems types len by (simp add: tails_fit_def tail_documented structs_fit_def add.assoc)
  show ?case
  proof (cases "is_struct t")
    case True
    then have s: "unat (bt_name_off t) \<le> length strings" "bt_tail t = concat (map (enc_member little) (members t))"
      "unat (ty_vlen (header_of t)) = length (members t)" "\<forall>m \<in> set (members t). unat (bm_name_off m) \<le> length strings"
      using Cons.prems(3) by (auto simp: structs_fit_def)
    obtain nm where nm: "string_at strings (bt_name_off t) = Inr nm" using s(1) by (auto simp: string_at_def Let_def)
    have "types = (pre @ w32 little (bt_name_off t) @ w32 little (bt_info t) @ w32 little (bt_word t)) @
        concat (map (enc_member little) (members t)) @ ?post" using types s(2) by (simp add: enc_type_def)
    then have walk: "member_walk types strings little flag wanted ?body 0 (length (members t)) (replicate (length wanted) None) =
        Inr (map (first_offset strings flag (members t)) wanted)" for flag
      using members_walked [of types _ little "members t" ?post ?body strings "[]" "members t" flag wanted] s(4)
      by (simp add: TYPE_LEN_def no_offset map_replicate_const)
    show ?thesis
      using fits onward walk nm True s(3)
      by (subst type_walk.simps) (simp add: type_read [OF types] Let_def is_struct_def named_def header_of_def type_of_words_def)
  next
    case False
    then show ?thesis
      using fits onward by (subst type_walk.simps) (simp add: type_read [OF types] Let_def is_struct_def)
  qed
qed


text \<open>C14: the offsets the kernel programs are patched with are those its type section declares.  For a
  blob of either byte order, with any header extension and any well-formed types, the reader finds
  the first structure of the name and answers for each member asked for with the byte offset of
  the first member of that name, the width of a bit field masked out, or that there is none; and
  when no structure has the name it says so.\<close>

theorem btf_offsets_are_read:
  assumes "length ext < 2 ^ 32 - 24" "length (enc_types little ts) < 2 ^ 32" "length strings < 2 ^ 32"
    and "tails_fit ts" "structs_fit little strings members ts"
  shows "member_offsets (enc_btf little ext (enc_types little ts) strings) name wanted =
    (case List.find (\<lambda>t. is_struct t \<and> named strings (bt_name_off t) name) ts of
       None \<Rightarrow> Inl (NoSuchStruct name)
     | Some t \<Rightarrow> Inr (map (first_offset strings (ty_flag (header_of t)) (members t)) wanted))"
  using sections_read [OF assms(1-3), where name = name and wanted = wanted] types_walked [OF _ assms(4,5), of _ "[]"] by simp

text \<open>An integer type, then \<open>task_struct\<close> with its two members at bits 128 and 64.\<close>

definition example_strings :: bytes where
  "example_strings = 0 # text_bytes ''tgid'' @ [0] @ text_bytes ''real_parent'' @ [0] @ text_bytes ''task_struct'' @ [0]"

definition example_members :: "btf_type \<Rightarrow> btf_member list" where
  "example_members _ = [\<lparr>bm_name_off = 1, bm_type = 1, bm_offset = 64\<rparr>, \<lparr>bm_name_off = 6, bm_type = 1, bm_offset = 128\<rparr>]"

definition example_types :: "bool \<Rightarrow> btf_type list" where
  "example_types little =
     [\<lparr>bt_name_off = 0, bt_info = 0x01000000, bt_word = 4, bt_tail = w32 little 32\<rparr>,
      \<lparr>bt_name_off = 18, bt_info = 0x04000002, bt_word = 16,
       bt_tail = concat (map (enc_member little) (example_members undefined))\<rparr>]"

theorem btf_offsets_are_read_witness:
  "\<forall>little. task_struct_offsets_from (Some (enc_btf little [] (enc_types little (example_types little)) example_strings)) =
    Inr \<lparr>to_real_parent = 16, to_tgid = 8\<rparr>"
proof
  fix little
  have "length example_strings = 30" by (simp add: example_strings_def text_bytes_def)
  moreover have "length (enc_types little (example_types little)) = 52"
    by (simp add: enc_types_def example_types_def enc_type_def example_members_def MEMBER_LEN_def)
  moreover have "tails_fit (example_types little)"
    by (simp add: tails_fit_def example_types_def header_of_def type_of_words_def documented_tail_def KIND_INT_def KIND_STRUCT_def
        KIND_VAR_def KIND_DECL_TAG_def KIND_ARRAY_def example_members_def MEMBER_LEN_def Let_def)
  moreover have "structs_fit little example_strings example_members (example_types little)"
    using calculation(1)
    by (simp add: structs_fit_def example_types_def header_of_def type_of_words_def is_struct_def KIND_STRUCT_def example_members_def)
  ultimately have known_by: "member_offsets (enc_btf little [] (enc_types little (example_types little)) example_strings) name wanted =
    (case List.find (\<lambda>t. is_struct t \<and> named example_strings (bt_name_off t) name) (example_types little) of
       None \<Rightarrow> Inl (NoSuchStruct name)
     | Some t \<Rightarrow> Inr (map (first_offset example_strings (ty_flag (header_of t)) (example_members t)) wanted))" for name wanted
    by (intro btf_offsets_are_read) simp_all
  have utf8: "is_utf8 (text_bytes ''tgid'')" "is_utf8 (text_bytes ''real_parent'')" "is_utf8 (text_bytes ''task_struct'')"
    by (simp_all add: text_bytes_def is_utf8.simps utf8_chunk_def Let_def)
  have names: "named example_strings 1 n \<longleftrightarrow> n = text_bytes ''tgid''" "named example_strings 6 n \<longleftrightarrow> n = text_bytes ''real_parent''"
    "named example_strings 18 n \<longleftrightarrow> n = text_bytes ''task_struct''" for n
    using utf8 by (auto simp: named_def string_at_def example_strings_def text_bytes_def Let_def)
  have "List.find (\<lambda>t. is_struct t \<and> named example_strings (bt_name_off t) (text_bytes ''task_struct'')) (example_types little) =
      Some (example_types little ! 1)"
    using names by (simp add: example_types_def is_struct_def header_of_def type_of_words_def KIND_STRUCT_def)
  then have "member_offsets (enc_btf little [] (enc_types little (example_types little)) example_strings) (text_bytes ''task_struct'') wanted =
      Inr (map (first_offset example_strings False (example_members undefined)) wanted)" for wanted
    by (simp only: known_by option.case) (simp add: example_types_def header_of_def type_of_words_def example_members_def)
  moreover have "first_offset example_strings False (example_members undefined) (text_bytes ''real_parent'') = Some 16"
    "first_offset example_strings False (example_members undefined) (text_bytes ''tgid'') = Some 8"
    using names by (simp_all add: first_offset_def example_members_def member_bits_def text_bytes_def)
  ultimately show "task_struct_offsets_from (Some (enc_btf little [] (enc_types little (example_types little)) example_strings)) =
    Inr \<lparr>to_real_parent = 16, to_tgid = 8\<rparr>"
    by (simp add: task_struct_offsets_from_def)
qed

text \<open>A blob cut within the last word of a type: the length reported as left over has wrapped, and a
  build with overflow checks panics there, although the module says that a truncated blob gives an
  error rather than a panic.\<close>

theorem a_cut_type_overflows:
  assumes "8 \<le> length types" "length types < 12"
  shows "\<exists>e. type_walk types strings little name wanted 0 = Inl e \<and> (\<exists>tail have_len. e = Truncated 12 tail have_len \<and> 2 ^ 63 < have_len)"
proof -
  have "get_range types 0 4 \<noteq> None" "get_range types 4 8 \<noteq> None" using assms(1) by (simp_all add: get_range_def)
  then obtain ty where "parse_type types 0 little = Inr ty"
    by (auto simp: parse_type_def read_u32_def)
  moreover have "nat ((int (length types) - 12) mod 2 ^ 64) > 2 ^ 63"
  proof -
    have "length types = 8 \<or> length types = 9 \<or> length types = 10 \<or> length types = 11" using assms by linarith
    then show ?thesis by (elim disjE) simp_all
  qed
  ultimately show ?thesis using assms by (subst type_walk.simps) (auto simp: Let_def TYPE_LEN_def)
qed

end
