(* ===== verification/Probe.thy ===== *)
theory Probe
  imports KernelConnect CoreTypes
begin

text \<open>
  What the loader asks the running kernel about: the record layout of two tracepoints in
  \<open>crates/cfc-daemon/src/ebpf/tracefs.rs\<close>, the values \<open>loader.rs\<close> patches into the kernel programs from
  it, and the cgroup mounts of \<open>cgroup.rs\<close>.  Texts are lists of bytes.
\<close>

section \<open>Format files\<close>

text \<open>\<open>str::split\<close> on a character, \<open>str::contains\<close> and \<open>trim_end_matches("[]")\<close>.\<close>

fun split_on :: "char \<Rightarrow> string \<Rightarrow> string list" where
  "split_on c [] = [[]]"
| "split_on c (x # xs) =
     (if x = c then [] # split_on c xs
      else (case split_on c xs of [] \<Rightarrow> [[x]] | seg # segs \<Rightarrow> (x # seg) # segs))"

fun has_text :: "string \<Rightarrow> string \<Rightarrow> bool" where
  "has_text p [] \<longleftrightarrow> p = []"
| "has_text p (x # xs) \<longleftrightarrow> take (length p) (x # xs) = p \<or> has_text p xs"

fun drop_brackets :: "string \<Rightarrow> string" where
  "drop_brackets (a # b # s) = (if a = CHR '']'' \<and> b = CHR ''['' then drop_brackets s else a # b # s)"
| "drop_brackets s = s"

definition trim_brackets :: "string \<Rightarrow> string" where
  "trim_brackets s = rev (drop_brackets (rev s))"

datatype resolution = Parsed u32 | Unsupported

datatype tracefs_error = NotMounted | FormatUnreadable | NoSuchField

definition declares_filename :: "string \<Rightarrow> bool" where
  "declares_filename decl \<longleftrightarrow>
     (case rev (split_whitespace decl) of [] \<Rightarrow> False | name # _ \<Rightarrow> trim_brackets name = ''filename'')"

definition exec_field :: "string \<Rightarrow> string list \<Rightarrow> resolution" where
  "exec_field decl parts =
     (case (field_line ''offset:'' parts, field_line ''size:'' parts) of
        (Some offset, Some sz) \<Rightarrow>
          (case (parse_u32 (trim offset), parse_u32 (trim sz)) of
             (Some offset, Some sz) \<Rightarrow>
               if \<not> has_text ''__data_loc'' decl \<or> sz \<noteq> 4 then Unsupported else Parsed offset
           | _ \<Rightarrow> Unsupported)
      | _ \<Rightarrow> Unsupported)"

fun exec_lines :: "string list \<Rightarrow> tracefs_error + resolution" where
  "exec_lines [] = Inl NoSuchField"
| "exec_lines (line # lines) =
     (case strip_prefix ''field:'' (trim line) of
        None \<Rightarrow> exec_lines lines
      | Some rest \<Rightarrow>
          (let parts = map trim (split_on CHR '';'' rest) in
           if declares_filename (hd parts) then Inr (exec_field (hd parts) (tl parts)) else exec_lines lines))"

definition parse_exec_filename_offset :: "string \<Rightarrow> tracefs_error + resolution" where
  "parse_exec_filename_offset text = exec_lines (str_lines text)"

record exit_scan =
  es_decl :: "string option"
  es_offset :: "u32 option"
  es_size :: "u32 option"

definition scan_part :: "string \<Rightarrow> exit_scan \<Rightarrow> exit_scan" where
  "scan_part part s =
     (case strip_prefix ''offset:'' part of
        Some v \<Rightarrow> s\<lparr>es_offset := parse_u32 (trim v)\<rparr>
      | None \<Rightarrow>
          (case strip_prefix ''size:'' part of
             Some v \<Rightarrow> s\<lparr>es_size := parse_u32 (trim v)\<rparr>
           | None \<Rightarrow> if part \<noteq> [] \<and> es_decl s = None then s\<lparr>es_decl := Some part\<rparr> else s))"

fun exit_lines :: "string list \<Rightarrow> u32 option" where
  "exit_lines [] = None"
| "exit_lines (line # lines) =
     (case strip_prefix ''field:'' (trim line) of
        None \<Rightarrow> exit_lines lines
      | Some rest \<Rightarrow>
          (let s = fold scan_part (map trim (split_on CHR '';'' rest)) \<lparr>es_decl = None, es_offset = None, es_size = None\<rparr> in
           case es_decl s of
             None \<Rightarrow> exit_lines lines
           | Some decl \<Rightarrow>
               if (case rev (split_whitespace decl) of [] \<Rightarrow> False | name # _ \<Rightarrow> name = ''group_dead'') then
                 (case (es_offset s, es_size s) of (Some off, Some sz) \<Rightarrow> if sz = 1 then Some off else None | _ \<Rightarrow> None)
               else exit_lines lines))"

definition parse_exit_group_dead_offset :: "string \<Rightarrow> u32 option" where
  "parse_exit_group_dead_offset text = exit_lines (str_lines text)"

text \<open>
  The file system answers: a candidate directory that is there and not empty, and the text of a
  file below it.
\<close>

record tracefs =
  tf_present :: "string \<Rightarrow> bool"
  tf_text :: "string \<Rightarrow> string option"

definition TRACEFS_CANDIDATES :: "string list" where
  "TRACEFS_CANDIDATES = [''/sys/kernel/tracing'', ''/sys/kernel/debug/tracing'']"

definition find_tracefs :: "tracefs \<Rightarrow> string option" where
  "find_tracefs T = List.find (tf_present T) TRACEFS_CANDIDATES"

definition format_text :: "tracefs \<Rightarrow> string \<Rightarrow> tracefs_error + string" where
  "format_text T event =
     (case find_tracefs T of
        None \<Rightarrow> Inl NotMounted
      | Some dir \<Rightarrow>
          (case tf_text T (dir @ ''/events/sched/'' @ event @ ''/format'') of None \<Rightarrow> Inl FormatUnreadable | Some text \<Rightarrow> Inr text))"

definition exec_filename_offset :: "tracefs \<Rightarrow> tracefs_error + resolution" where
  "exec_filename_offset T = bind_result (format_text T ''sched_process_exec'') parse_exec_filename_offset"

definition exit_group_dead_offset :: "tracefs \<Rightarrow> tracefs_error + u32 option" where
  "exit_group_dead_offset T =
     bind_result (format_text T ''sched_process_exit'') (\<lambda>text. Inr (parse_exit_group_dead_offset text))"

section \<open>What the programs are patched with\<close>

datatype exec_offset = ExecParsed u32 | ExecDefault | ExecSuppressed

definition built_in_globals :: globals where
  "built_in_globals = \<lparr>g_real_parent = 0, g_tgid = 0, g_data_loc = 8, g_group_dead = EXIT_GROUP_DEAD_ABSENT\<rparr>"

definition patch_group_dead :: "tracefs_error + u32 option \<Rightarrow> globals \<Rightarrow> globals \<times> bool" where
  "patch_group_dead answer G =
     (case answer of
        Inr (Some off) \<Rightarrow>
          if TRACEPOINT_FIELD_OFFSET_MAX < off then (G\<lparr>g_group_dead := 0xFFFFFFFF\<rparr>, False) else (G\<lparr>g_group_dead := off\<rparr>, True)
      | Inr None \<Rightarrow> (G\<lparr>g_group_dead := 0xFFFFFFFF\<rparr>, False)
      | Inl _ \<Rightarrow> (G\<lparr>g_group_dead := 0xFFFFFFFF\<rparr>, False))"

definition patch_task :: "(u32 \<times> u32) option \<Rightarrow> globals \<Rightarrow> globals" where
  "patch_task offsets G =
     (case offsets of
        None \<Rightarrow> G
      | Some (real_parent, tgid) \<Rightarrow> G\<lparr>g_real_parent := real_parent, g_tgid := tgid\<rparr>)"

definition patch_filename :: "tracefs_error + resolution \<Rightarrow> globals \<Rightarrow> globals \<times> exec_offset" where
  "patch_filename answer G =
     (case answer of
        Inr (Parsed off) \<Rightarrow>
          if TRACEPOINT_FIELD_OFFSET_MAX < off then (G\<lparr>g_data_loc := 0\<rparr>, ExecSuppressed)
          else (G\<lparr>g_data_loc := off\<rparr>, ExecParsed off)
      | Inr Unsupported \<Rightarrow> (G\<lparr>g_data_loc := 0\<rparr>, ExecSuppressed)
      | Inl _ \<Rightarrow> (G, ExecDefault))"

definition patched_globals :: "tracefs \<Rightarrow> (u32 \<times> u32) option \<Rightarrow> globals \<times> bool \<times> exec_offset" where
  "patched_globals T offsets =
     (let (G, precise) = patch_group_dead (exit_group_dead_offset T) built_in_globals;
          G = patch_task offsets G;
          (G, exec_offset) = patch_filename (exec_filename_offset T) G in
      (G, precise, exec_offset))"

section \<open>The cgroup root\<close>

definition CGROUP_PREFERRED :: string where "CGROUP_PREFERRED = ''/sys/fs/cgroup''"

text \<open>\<open>u8::from_str_radix(digits, 8)\<close>, which takes a leading plus sign.\<close>

fun parse_octal_digits :: "nat \<Rightarrow> string \<Rightarrow> nat option" where
  "parse_octal_digits acc [] = Some acc"
| "parse_octal_digits acc (c # cs) =
     (case digit_value c of None \<Rightarrow> None | Some d \<Rightarrow> if d < 8 then parse_octal_digits (acc * 8 + d) cs else None)"

definition octal_u8 :: "string \<Rightarrow> nat option" where
  "octal_u8 s =
     (let digits = (if take 1 s = ''+'' then tl s else s) in
      if digits = [] then None
      else case parse_octal_digits 0 digits of None \<Rightarrow> None | Some n \<Rightarrow> if n < 256 then Some n else None)"

text \<open>\<open>String::push\<close> of the character with a code below 256, and the character boundaries a slice of
  a string asks for.\<close>

definition utf8_of :: "nat \<Rightarrow> string" where
  "utf8_of n = (if n < 128 then [char_of n] else [char_of (192 + n div 64), char_of (128 + n mod 64)])"

definition char_boundary :: "string \<Rightarrow> nat \<Rightarrow> bool" where
  "char_boundary s i \<longleftrightarrow> i = length s \<or> i < length s \<and> \<not> (128 \<le> code (s ! i) \<and> code (s ! i) < 192)"

function unescape_from :: "string \<Rightarrow> string run" where
  "unescape_from s =
     (case s of
        [] \<Rightarrow> Ret []
      | c # cs \<Rightarrow>
          if c = CHR 0x5C \<and> 3 < length s then
            if \<not> char_boundary s 4 then Panic
            else case octal_u8 (take 3 cs) of
              Some n \<Rightarrow> map_run ((@) (utf8_of n)) (unescape_from (drop 3 cs))
            | None \<Rightarrow> map_run ((@) (utf8_of (code c))) (unescape_from cs)
          else map_run ((@) (utf8_of (code c))) (unescape_from cs))"
  by pat_completeness auto
termination by (relation "measure length") auto

declare unescape_from.simps [simp del]

definition unescape :: "string \<Rightarrow> string run" where
  "unescape raw = (if CHR 0x5C \<notin> set raw then Ret raw else unescape_from raw)"

fun cgroup_rows :: "string option \<Rightarrow> string list \<Rightarrow> string option run" where
  "cgroup_rows first [] = Ret first"
| "cgroup_rows first (line # lines) =
     (case split_whitespace line of
        device # mountpoint # fstype # _ \<Rightarrow>
          if fstype \<noteq> ''cgroup2'' then cgroup_rows first lines
          else bind_run (unescape mountpoint) (\<lambda>path.
            if path_eq path CGROUP_PREFERRED then Ret (Some path)
            else cgroup_rows (case first of None \<Rightarrow> Some path | Some p \<Rightarrow> Some p) lines)
      | _ \<Rightarrow> cgroup_rows first lines)"

definition v2_root_from_mounts :: "string \<Rightarrow> string option run" where
  "v2_root_from_mounts mounts = cgroup_rows None (str_lines mounts)"

definition v2_root :: "string option \<Rightarrow> string option run" where
  "v2_root mounts = (case mounts of None \<Rightarrow> Ret None | Some text \<Rightarrow> v2_root_from_mounts text)"


section \<open>A format file is read back\<close>

text \<open>
  A line of a format file: a field with its type words, its name, offset, width and sign column,
  or a line that is not a field.
\<close>

record field_decl =
  fd_type :: "string list"
  fd_name :: string
  fd_offset :: u32
  fd_size :: u32
  fd_signed :: string

datatype format_line = Field field_decl | Prose string

definition decl_text :: "field_decl \<Rightarrow> string" where
  "decl_text f = concat (map (\<lambda>w. w @ '' '') (fd_type f)) @ fd_name f"

definition TAB :: char where "TAB = CHR 0x09"

definition after_decl :: "field_decl \<Rightarrow> string" where
  "after_decl f =
     TAB # ''offset:'' @ dec_string (unat (fd_offset f)) @ '';'' @ TAB # ''size:'' @ dec_string (unat (fd_size f)) @ '';'' @
     TAB # ''signed:'' @ fd_signed f @ '';''"

fun line_text :: "format_line \<Rightarrow> string" where
  "line_text (Prose l) = l"
| "line_text (Field f) = TAB # ''field:'' @ decl_text f @ '';'' @ after_decl f"

definition format_of :: "format_line list \<Rightarrow> string" where
  "format_of ls = text_of_lines (map line_text ls)"

text \<open>The words of a field are printed characters other than semicolons, a colon within the first
  word excluded; other lines do not look like fields.\<close>

definition word_ok :: "string \<Rightarrow> bool" where
  "word_ok w \<longleftrightarrow> w \<noteq> [] \<and> (\<forall>c \<in> set w. plain c \<and> c \<noteq> CHR '';'' \<and> c \<noteq> CHR '':'')"

fun line_ok :: "format_line \<Rightarrow> bool" where
  "line_ok (Prose l) \<longleftrightarrow> strip_prefix ''field:'' (trim l) = None \<and> CHR 0x0A \<notin> set l \<and> CHR 0x0D \<notin> set l"
| "line_ok (Field f) \<longleftrightarrow> (\<forall>w \<in> set (fd_type f). word_ok w) \<and> word_ok (fd_name f) \<and> word_ok (fd_signed f)"

lemma split_on_at: "c \<notin> set l \<Longrightarrow> split_on c (l @ c # rest) = l # split_on c rest"
proof (induction l)
  case (Cons x l)
  then show ?case by (cases "split_on c (l @ c # rest)") auto
qed simp

lemma trim_start_plain: "s = [] \<or> plain (hd s) \<Longrightarrow> trim_start s = s"
  by (cases s; cases "tl s"; cases "tl (tl s)")
    (auto simp: trim_start.simps plain_def is_ws1_def is_ws2_def is_ws3_def split: list.split)

lemma trim_end_plain: "s = [] \<or> plain (hd s) \<Longrightarrow> trim_end_rev s = s"
  by (cases s; cases "tl s"; cases "tl (tl s)")
    (auto simp: trim_end_rev.simps plain_def is_ws1_def is_ws2_def is_ws3_def split: list.split)

lemma trim_plain: "s = [] \<or> plain (hd s) \<and> plain (last s) \<Longrightarrow> trim s = s"
  by (auto simp: trim_def trim_start_plain trim_end_plain hd_rev)

lemma trim_tab: "s = [] \<or> plain (hd s) \<and> plain (last s) \<Longrightarrow> trim (TAB # s) = s"
proof -
  assume s: "s = [] \<or> plain (hd s) \<and> plain (last s)"
  have "trim_start (TAB # s) = trim_start s"
    by (cases s; cases "tl s") (subst trim_start.simps; simp add: TAB_def is_ws1_def split: list.split)+
  with s show ?thesis using trim_plain [OF s] by (simp add: trim_def)
qed


lemma word_ok_ends: "word_ok w \<Longrightarrow> plain (hd w) \<and> plain (last w) \<and> w \<noteq> []"
  by (simp add: word_ok_def)

lemma decl_chars: "line_ok (Field f) \<Longrightarrow> c \<in> set (decl_text f) \<Longrightarrow> c = CHR '' '' \<or> plain c \<and> c \<noteq> CHR '';'' \<and> c \<noteq> CHR '':''"
proof -
  assume f: "line_ok (Field f)" "c \<in> set (decl_text f)"
  have "c \<in> set (fd_name f) \<or> c = CHR '' '' \<or> (\<exists>w \<in> set (fd_type f). c \<in> set w)"
    using f(2) by (auto simp only: decl_text_def set_append set_concat set_map Un_iff UN_iff image_iff list.set insert_iff empty_iff)
  then consider "c = CHR '' ''" | w where "word_ok w" "c \<in> set w" using f(1) by (auto simp only: line_ok.simps)
  then show ?thesis by cases (simp_all only: word_ok_def simp_thms)
qed

lemma decl_ends: "line_ok (Field f) \<Longrightarrow> plain (hd (decl_text f)) \<and> plain (last (decl_text f)) \<and> decl_text f \<noteq> []"
proof -
  assume f: "line_ok (Field f)"
  then have name: "plain (hd (fd_name f)) \<and> plain (last (fd_name f)) \<and> fd_name f \<noteq> []" by (simp add: word_ok_ends)
  have "plain (hd (decl_text f))"
  proof (cases "fd_type f")
    case (Cons w ws)
    then have "plain (hd w) \<and> w \<noteq> []" using f word_ok_ends [of w] by simp
    with Cons show ?thesis by (simp add: decl_text_def)
  qed (use name in \<open>simp add: decl_text_def\<close>)
  with name show ?thesis by (simp add: decl_text_def)
qed

lemma decl_words: "line_ok (Field f) \<Longrightarrow> split_whitespace (decl_text f) = fd_type f @ [fd_name f]"
proof -
  assume f: "line_ok (Field f)"
  have "split_ws [] (concat (map (\<lambda>w. w @ '' '') ws) @ fd_name f) = ws @ [fd_name f]" if "\<forall>w \<in> set ws. word_ok w" for ws
    using that
  proof (induction ws)
    case Nil
    then show ?case using f split_ws_plain [of "fd_name f" "[]" "[]"] by (simp add: word_ok_def split_ws_end)
  next
    case (Cons w ws)
    then show ?case
      using split_ws_plain [of w "[]" "'' '' @ concat (map (\<lambda>w. w @ '' '') ws) @ fd_name f"]
      by (simp add: word_ok_def split_ws_space)
  qed
  then show ?thesis using f by (simp add: split_whitespace_def decl_text_def)
qed

lemma digits_plain: "plain (hd (dec_string n)) \<and> plain (last (dec_string n))"
  using dec_plain [of _ n] dec_string_nonempty [of n] by simp

lemma digits_no_semicolon: "CHR '';'' \<notin> set (dec_string n)"
  using dec_string_digits [of "CHR '';''" n] by (auto simp: digit_value_def)

definition field_body :: "field_decl \<Rightarrow> string" where
  "field_body f = decl_text f @ '';'' @ after_decl f"

lemma field_rest: "line_ok (Field f) \<Longrightarrow> strip_prefix ''field:'' (trim (line_text (Field f))) = Some (field_body f)"
proof -
  let ?s = "''field:'' @ decl_text f @ '';'' @ after_decl f"
  have "plain (hd ?s) \<and> plain (last ?s)" by (simp add: after_decl_def plain_def)
  then have "trim (line_text (Field f)) = ?s" using trim_tab [of ?s] by simp
  then show ?thesis by (simp add: strip_prefix_def field_body_def)
qed

definition number_part :: "string \<Rightarrow> u32 \<Rightarrow> string" where
  "number_part key n = key @ dec_string (unat n)"

definition field_columns :: "field_decl \<Rightarrow> string list" where
  "field_columns f =
     [decl_text f, number_part ''offset:'' (fd_offset f), number_part ''size:'' (fd_size f), ''signed:'' @ fd_signed f, []]"

lemma field_parts:
  assumes "line_ok (Field f)"
  shows "map trim (split_on CHR '';'' (field_body f)) = field_columns f"
proof -
  let ?o = "TAB # number_part ''offset:'' (fd_offset f)" and ?z = "TAB # number_part ''size:'' (fd_size f)"
    and ?g = "TAB # ''signed:'' @ fd_signed f"
  have free: "CHR '';'' \<notin> set (decl_text f)" "CHR '';'' \<notin> set ?o" "CHR '';'' \<notin> set ?z" "CHR '';'' \<notin> set ?g"
    using assms decl_chars [OF assms, of "CHR '';''"] digits_no_semicolon
    by (auto simp: number_part_def TAB_def word_ok_def)
  have "field_body f = decl_text f @ CHR '';'' # ?o @ CHR '';'' # ?z @ CHR '';'' # ?g @ CHR '';'' # []"
    by (simp add: field_body_def after_decl_def number_part_def)
  then have "split_on CHR '';'' (field_body f) = [decl_text f, ?o, ?z, ?g, []]"
    by (simp only: split_on_at [OF free(1)] split_on_at [OF free(2)] split_on_at [OF free(3)] split_on_at [OF free(4)] split_on.simps)
  moreover have "trim (decl_text f) = decl_text f" using decl_ends [OF assms] by (intro trim_plain) simp
  moreover have "trim (TAB # number_part ''offset:'' (fd_offset f)) = number_part ''offset:'' (fd_offset f)"
    "trim (TAB # number_part ''size:'' (fd_size f)) = number_part ''size:'' (fd_size f)"
    using digits_plain dec_string_nonempty by (auto intro!: trim_tab simp: number_part_def plain_def)
  moreover have "trim ?g = ''signed:'' @ fd_signed f"
    using assms word_ok_ends [of "fd_signed f"] by (intro trim_tab) (auto simp: plain_def)
  moreover have "trim [] = []" by (intro trim_plain) simp
  ultimately show ?thesis by (simp add: field_columns_def)
qed

lemma trim_digits: "trim (dec_string n) = dec_string n"
  using digits_plain by (intro trim_plain) simp

lemma number_read:
  "strip_prefix key (number_part key n) = Some (dec_string (unat n))"
  by (simp add: strip_prefix_def number_part_def)

definition exec_answer :: "field_decl \<Rightarrow> resolution" where
  "exec_answer f = (if has_text ''__data_loc'' (decl_text f) \<and> fd_size f = 4 then Parsed (fd_offset f) else Unsupported)"

fun is_field :: "(string \<Rightarrow> bool) \<Rightarrow> format_line \<Rightarrow> bool" where
  "is_field P (Field f) \<longleftrightarrow> P (fd_name f)"
| "is_field P (Prose l) \<longleftrightarrow> False"

definition field_of :: "format_line \<Rightarrow> field_decl" where
  "field_of l = (case l of Field f \<Rightarrow> f | Prose _ \<Rightarrow> undefined)"

lemma exec_reads:
  "\<forall>l \<in> set ls. line_ok l \<Longrightarrow>
   exec_lines (map line_text ls) =
     (case List.find (is_field (\<lambda>n. trim_brackets n = ''filename'')) ls of
        None \<Rightarrow> Inl NoSuchField | Some l \<Rightarrow> Inr (exec_answer (field_of l)))"
proof (induction ls)
  case (Cons l ls)
  show ?case
  proof (cases l)
    case (Field f)
    have ok: "line_ok (Field f)" using Cons.prems Field by simp
    have "field_line ''offset:'' (tl (field_columns f)) = Some (dec_string (unat (fd_offset f)))"
      by (simp add: field_columns_def number_read)
    moreover have "field_line ''size:'' (tl (field_columns f)) = Some (dec_string (unat (fd_size f)))"
      by (simp add: field_columns_def number_read) (simp add: strip_prefix_def number_part_def)
    moreover have "hd (field_columns f) = decl_text f" by (simp add: field_columns_def)
    ultimately have "exec_lines (line_text (Field f) # map line_text ls) =
        (if trim_brackets (fd_name f) = ''filename'' then Inr (exec_answer f) else exec_lines (map line_text ls))"
      by (simp add: field_rest [OF ok] field_parts [OF ok] declares_filename_def decl_words [OF ok] exec_field_def exec_answer_def
          trim_digits parse_u32_dec Let_def del: line_text.simps)
    then show ?thesis using Cons Field by (simp add: field_of_def del: line_text.simps)
  next
    case (Prose t)
    then show ?thesis using Cons by simp
  qed
qed simp

lemma exit_reads:
  "\<forall>l \<in> set ls. line_ok l \<Longrightarrow>
   exit_lines (map line_text ls) =
     (case List.find (is_field (\<lambda>n. n = ''group_dead'')) ls of
        None \<Rightarrow> None | Some l \<Rightarrow> if fd_size (field_of l) = 1 then Some (fd_offset (field_of l)) else None)"
proof (induction ls)
  case (Cons l ls)
  show ?case
  proof (cases l)
    case (Field f)
    have ok: "line_ok (Field f)" using Cons.prems Field by simp
    have no_colon: "CHR '':'' \<notin> set (decl_text f)" using decl_chars [OF ok] by (auto simp: plain_def)
    have keys: "strip_prefix ''offset:'' (decl_text f) = None" "strip_prefix ''size:'' (decl_text f) = None"
      using no_colon by (auto simp: strip_prefix_def dest!: arg_cong [where f = set] dest: set_take_subset [THEN subsetD])
    have "fold scan_part (field_columns f)
        \<lparr>es_decl = None, es_offset = None, es_size = None\<rparr> =
        \<lparr>es_decl = Some (decl_text f), es_offset = Some (fd_offset f), es_size = Some (fd_size f)\<rparr>"
      using decl_ends [OF ok]
      by (simp add: field_columns_def scan_part_def keys number_read trim_digits parse_u32_dec)
        (simp add: strip_prefix_def number_part_def trim_digits parse_u32_dec)
    then have "exit_lines (line_text (Field f) # map line_text ls) =
        (if fd_name f = ''group_dead'' then (if fd_size f = 1 then Some (fd_offset f) else None) else exit_lines (map line_text ls))"
      by (simp add: field_rest [OF ok] field_parts [OF ok] decl_words [OF ok] Let_def del: line_text.simps)
    then show ?thesis using Cons Field by (simp add: field_of_def del: line_text.simps)
  next
    case (Prose t)
    then show ?thesis using Cons by simp
  qed
qed simp


section \<open>The programs read what the kernel declares\<close>

definition text_ok :: "format_line list \<Rightarrow> bool" where
  "text_ok ls \<longleftrightarrow> (\<forall>l \<in> set ls. line_ok l)"

lemma decl_no_newline: "line_ok (Field f) \<Longrightarrow> CHR 0x0A \<notin> set (line_text (Field f)) \<and> CHR 0x0D \<notin> set (line_text (Field f))"
proof -
  assume f: "line_ok (Field f)"
  have "\<not> plain CHR 0x0A" "\<not> plain CHR 0x0D" by (simp_all add: plain_def)
  moreover from this have "CHR 0x0A \<notin> set (decl_text f)" "CHR 0x0D \<notin> set (decl_text f)"
    "CHR 0x0A \<notin> set (dec_string n)" "CHR 0x0D \<notin> set (dec_string n)"
    "CHR 0x0A \<notin> set (fd_signed f)" "CHR 0x0D \<notin> set (fd_signed f)" for n
    using decl_chars [OF f] dec_plain f by (auto simp: word_ok_def)
  ultimately show ?thesis by (simp add: after_decl_def TAB_def)
qed

lemma format_lines: "text_ok ls \<Longrightarrow> str_lines (format_of ls) = map line_text ls"
proof -
  assume ok: "text_ok ls"
  have "CHR 0x0A \<notin> set (line_text l) \<and> CHR 0x0D \<notin> set (line_text l)" if "l \<in> set ls" for l
  proof (cases l)
    case (Field f)
    then have "line_ok (Field f)" using that ok by (auto simp only: text_ok_def)
    with Field show ?thesis using decl_no_newline by simp
  qed (use that ok in \<open>auto simp: text_ok_def\<close>)
  then show ?thesis using str_lines_text [of "map line_text ls"] by (simp add: format_of_def text_of_lines_def)
qed

text \<open>What a program may be told of a field: its offset, if it has the form the program reads and lies
  within its bound.\<close>

definition told_filename :: "format_line list \<Rightarrow> u32" where
  "told_filename ls =
     (case List.find (is_field (\<lambda>n. trim_brackets n = ''filename'')) ls of
        None \<Rightarrow> 8
      | Some l \<Rightarrow> let f = field_of l in
          if has_text ''__data_loc'' (decl_text f) \<and> fd_size f = 4 \<and> fd_offset f \<le> TRACEPOINT_FIELD_OFFSET_MAX
          then fd_offset f else 0)"

definition told_group_dead :: "format_line list \<Rightarrow> u32 option" where
  "told_group_dead ls =
     (case List.find (is_field (\<lambda>n. n = ''group_dead'')) ls of
        None \<Rightarrow> None
      | Some l \<Rightarrow> let f = field_of l in
          if fd_size f = 1 \<and> fd_offset f \<le> TRACEPOINT_FIELD_OFFSET_MAX then Some (fd_offset f) else None)"

text \<open>C13: the kernel programs read the fields the running kernel declares, or leave them alone.  For
  format files as the kernel writes them, with any other lines and fields, the exec program is
  given the offset of \<open>filename\<close> when it is a four-byte data location within the bound, and told to
  read none when it is declared otherwise; the exit program takes a process for gone exactly when
  the one-byte \<open>group_dead\<close> of its record says so, and never when the kernel has no such field; and
  the report claims precise exits exactly then.\<close>

theorem tracepoint_layout_reaches_the_programs:
  assumes "text_ok exec_text" "text_ok exit_text"
    and "format_text T ''sched_process_exec'' = Inr (format_of exec_text)"
    and "format_text T ''sched_process_exit'' = Inr (format_of exit_text)"
    and "patched_globals T offsets = (G, precise, told)"
  shows "g_data_loc G = told_filename exec_text \<and>
    (process_is_gone G e \<longleftrightarrow> (\<exists>off v. told_group_dead exit_text = Some off \<and> e_field e off = Some v \<and> v \<noteq> 0)) \<and>
    (precise \<longleftrightarrow> told_group_dead exit_text \<noteq> None) \<and>
    (told = ExecSuppressed \<longleftrightarrow> (\<exists>l \<in> set exec_text. is_field (\<lambda>n. trim_brackets n = ''filename'') l) \<and>
      exec_filename_offset T \<noteq> Inr (Parsed (told_filename exec_text)))"
proof -
  have exec: "exec_filename_offset T =
      (case List.find (is_field (\<lambda>n. trim_brackets n = ''filename'')) exec_text of
         None \<Rightarrow> Inl NoSuchField | Some l \<Rightarrow> Inr (exec_answer (field_of l)))"
    using assms(1,3) by (simp add: exec_filename_offset_def parse_exec_filename_offset_def format_lines exec_reads text_ok_def)
  have exit: "exit_group_dead_offset T =
      Inr (case List.find (is_field (\<lambda>n. n = ''group_dead'')) exit_text of
         None \<Rightarrow> None | Some l \<Rightarrow> if fd_size (field_of l) = 1 then Some (fd_offset (field_of l)) else None)"
    using assms(2,4) by (simp add: exit_group_dead_offset_def parse_exit_group_dead_offset_def format_lines exit_reads text_ok_def)
  have found: "(\<exists>l \<in> set exec_text. is_field P l) \<longleftrightarrow> List.find (is_field P) exec_text \<noteq> None" for P
    by (auto simp: find_None_iff)
  define filename where "filename = List.find (is_field (\<lambda>n. trim_brackets n = ''filename'')) exec_text"
  define dead where "dead = List.find (is_field (\<lambda>n. n = ''group_dead'')) exit_text"
  have max: "\<not> TRACEPOINT_FIELD_OFFSET_MAX < off \<longleftrightarrow> off \<le> TRACEPOINT_FIELD_OFFSET_MAX" for off by auto
  have absent: "EXIT_GROUP_DEAD_ABSENT = 0xFFFFFFFF" "\<not> (0xFFFFFFFF :: u32) \<le> TRACEPOINT_FIELD_OFFSET_MAX"
    by (simp_all add: EXIT_GROUP_DEAD_ABSENT_def TRACEPOINT_FIELD_OFFSET_MAX_def)
  have G: "g_data_loc G = told_filename exec_text \<and> (told = ExecSuppressed \<longleftrightarrow> filename \<noteq> None \<and>
      exec_filename_offset T \<noteq> Inr (Parsed (told_filename exec_text)))"
    using assms(5) exec unfolding filename_def [symmetric]
    by (auto simp: patched_globals_def patch_filename_def patch_task_def patch_group_dead_def built_in_globals_def told_filename_def
        exec_answer_def filename_def [symmetric] Let_def split: option.splits prod.splits if_splits sum.splits)
  have D: "precise = (told_group_dead exit_text \<noteq> None)"
    "g_group_dead G = (case told_group_dead exit_text of None \<Rightarrow> EXIT_GROUP_DEAD_ABSENT | Some off \<Rightarrow> off)"
    using assms(5) exit unfolding dead_def [symmetric]
    by (auto simp: patched_globals_def patch_filename_def patch_task_def patch_group_dead_def built_in_globals_def told_group_dead_def
        dead_def [symmetric] absent Let_def split: option.splits prod.splits if_splits sum.splits resolution.splits)
  have bound: "told_group_dead exit_text = Some off \<Longrightarrow> off \<le> TRACEPOINT_FIELD_OFFSET_MAX" for off
    by (auto simp: told_group_dead_def Let_def split: option.splits if_splits)
  have "process_is_gone G e \<longleftrightarrow> (\<exists>off v. told_group_dead exit_text = Some off \<and> e_field e off = Some v \<and> v \<noteq> 0)"
    using D(2) bound absent by (auto simp: process_is_gone_def split: option.splits)
  with G D(1) show ?thesis unfolding found filename_def by blast
qed


text \<open>The two files of a recent kernel, in short, and a record whose byte 12 is set.\<close>

definition example_exec_format :: "format_line list" where
  "example_exec_format =
     [Prose ''name: sched_process_exec'', Prose ''format:'',
      Field \<lparr>fd_type = [''int''], fd_name = ''common_pid'', fd_offset = 4, fd_size = 4, fd_signed = ''1''\<rparr>, Prose [],
      Field \<lparr>fd_type = [''__data_loc'', ''char[]''], fd_name = ''filename'', fd_offset = 8, fd_size = 4, fd_signed = ''0''\<rparr>]"

definition example_exit_format :: "format_line list" where
  "example_exit_format =
     [Prose ''name: sched_process_exit'',
      Field \<lparr>fd_type = [''bool''], fd_name = ''group_dead'', fd_offset = 12, fd_size = 1, fd_signed = ''0''\<rparr>]"

definition example_tracefs :: tracefs where
  "example_tracefs = \<lparr>tf_present = (\<lambda>d. d = ''/sys/kernel/tracing''),
     tf_text = [''/sys/kernel/tracing/events/sched/sched_process_exec/format'' \<mapsto> format_of example_exec_format,
                ''/sys/kernel/tracing/events/sched/sched_process_exit/format'' \<mapsto> format_of example_exit_format]\<rparr>"

lemma example_formats_ok: "text_ok example_exec_format" "text_ok example_exit_format"
proof -
  have prose: "trim ''name: sched_process_exec'' = ''name: sched_process_exec''" "trim ''name: sched_process_exit'' = ''name: sched_process_exit''"
    "trim ''format:'' = ''format:''" "trim [] = []"
    by (rule trim_plain; simp add: plain_def)+
  show "text_ok example_exec_format" "text_ok example_exit_format"
    by (simp_all add: text_ok_def example_exec_format_def example_exit_format_def prose) (simp_all add: strip_prefix_def word_ok_def plain_def)
qed

theorem tracepoint_layout_reaches_the_programs_witness:
  "\<exists>G precise told. patched_globals example_tracefs None = (G, precise, told) \<and> g_data_loc G = 8 \<and> precise \<and>
    process_is_gone G \<lparr>e_pid_tgid = 7, e_field = [12 \<mapsto> 1], e_room = True\<rparr>"
proof -
  obtain G precise told where run: "patched_globals example_tracefs None = (G, precise, told)" by (metis prod.exhaust)
  have texts: "format_text example_tracefs ''sched_process_exec'' = Inr (format_of example_exec_format)"
    "format_text example_tracefs ''sched_process_exit'' = Inr (format_of example_exit_format)"
    by (simp_all add: format_text_def find_tracefs_def TRACEFS_CANDIDATES_def example_tracefs_def)
  note known_by = tracepoint_layout_reaches_the_programs [OF example_formats_ok texts run]
  have "told_filename example_exec_format = 8"
    by (simp add: told_filename_def example_exec_format_def field_of_def trim_brackets_def decl_text_def TRACEPOINT_FIELD_OFFSET_MAX_def Let_def)
  moreover have "told_group_dead example_exit_format = Some 12"
    by (simp add: told_group_dead_def example_exit_format_def field_of_def TRACEPOINT_FIELD_OFFSET_MAX_def Let_def)
  ultimately show ?thesis using known_by run by auto
qed

section \<open>Mount points\<close>

text \<open>The kernel writes blank, tab, newline and backslash as octal escapes.\<close>

definition mangled :: "char \<Rightarrow> string" where
  "mangled c =
     (if c = CHR '' '' then CHR 0x5C # ''040'' else if c = TAB then CHR 0x5C # ''011''
      else if c = CHR 0x0A then CHR 0x5C # ''012'' else if c = CHR 0x5C then CHR 0x5C # ''134'' else [c])"

lemma mangled_same: "c \<noteq> CHR '' '' \<Longrightarrow> c \<noteq> TAB \<Longrightarrow> c \<noteq> CHR 0x0A \<Longrightarrow> c \<noteq> CHR 0x5C \<Longrightarrow> mangled c = [c]"
  by (simp add: mangled_def)

lemma mangled_escapes:
  "mangled CHR '' '' = CHR 0x5C # ''040''" "mangled TAB = CHR 0x5C # ''011''" "mangled CHR 0x0A = CHR 0x5C # ''012''"
  "mangled CHR 0x5C = CHR 0x5C # ''134''"
  by (simp_all add: mangled_def TAB_def)

lemma blanks: "char_of (32 :: nat) = CHR '' ''" "char_of (9 :: nat) = TAB" "char_of (10 :: nat) = CHR 0x0A" "char_of (92 :: nat) = CHR 0x5C"
  by (simp_all add: char_of_eq_iff take_bit_eq_mod TAB_def)

lemma octal_escapes:
  "octal_u8 ''040'' = Some 32" "octal_u8 ''011'' = Some 9" "octal_u8 ''012'' = Some 10" "octal_u8 ''134'' = Some 92"
  by (simp_all add: octal_u8_def digit_value_def Let_def)

lemma unescape_mangled:
  assumes "\<forall>c \<in> set p. code c < 128"
  shows "unescape_from (concat (map mangled p)) = Ret p"
  using assms
proof (induction p)
  case Nil
  then show ?case by (simp add: unescape_from.simps)
next
  case (Cons c p)
  let ?rest = "concat (map mangled p)"
  have boundary: "char_boundary (CHR 0x5C # a # b # d # ?rest) 4" for a b d
  proof (cases p)
    case (Cons x xs)
    then have "mangled x \<noteq> [] \<and> code (hd (mangled x)) < 128" using Cons.prems by (simp add: mangled_def)
    then show ?thesis using Cons by (cases "mangled x") (simp_all add: char_boundary_def)
  qed (simp add: char_boundary_def)
  have step: "unescape_from (CHR 0x5C # ds @ ?rest) = Ret (char_of n # p)" if "length ds = 3" "octal_u8 ds = Some n" "n < 128" for ds n
  proof -
    obtain a b d where ds: "ds = [a, b, d]" using \<open>length ds = 3\<close> by (auto simp: numeral_3_eq_3 length_Suc_conv)
    show ?thesis using that boundary Cons by (subst unescape_from.simps) (simp add: ds utf8_of_def)
  qed
  consider "c = CHR '' ''" | "c = TAB" | "c = CHR 0x0A" | "c = CHR 0x5C" | "mangled c = [c]" "c \<noteq> CHR 0x5C"
    using mangled_same by blast
  then show ?case
  proof cases
    case 5
    then show ?thesis using Cons by (simp add: unescape_from.simps [of "c # _"] utf8_of_def)
  qed (use step [OF _ octal_escapes(1)] step [OF _ octal_escapes(2)] step [OF _ octal_escapes(3)] step [OF _ octal_escapes(4)] in
      \<open>simp_all add: mangled_escapes blanks\<close>)
qed

text \<open>
  A mount point of ASCII characters comes back.  Any other byte is pushed as a character of its own
  once the name has an escape in it: a directory with a blank and an accent is not found.
\<close>

lemma mounts_read_back:
  assumes "\<forall>c \<in> set p. code c < 128"
  shows "unescape (concat (map mangled p)) = Ret p"
proof (cases "CHR 0x5C \<in> set (concat (map mangled p))")
  case False
  then have "mangled c = [c]" if "c \<in> set p" for c
    using that by (auto simp: mangled_def split: if_splits)
  then have "concat (map mangled p) = p" by (induction p) auto
  with False show ?thesis by (simp add: unescape_def)
qed (simp add: unescape_def unescape_mangled [OF assms])

theorem accents_are_doubled:
  "unescape (concat (map mangled [CHR 0xC3, CHR 0xA9, CHR '' ''])) = Ret [CHR 0xC3, CHR 0x83, CHR 0xC2, CHR 0xA9, CHR '' '']"
  by (simp add: unescape_def mangled_def TAB_def) (simp add: unescape_from.simps utf8_of_def octal_escapes char_boundary_def char_of_eq_iff take_bit_eq_mod)

end
