(* ===== verification/Loader.thy ===== *)
theory Loader
  imports Btf Probe EbpfEvents Pins ExePath Policy
begin

text \<open>
  \<open>load_and_attach\<close> of \<open>crates/cfc-daemon/src/ebpf/loader.rs\<close> and the report of \<open>ebpf/mod.rs\<close>: from the
  object file to programs attached, pins made, inherited verdicts reconciled and consumers started.
  What the kernel, the file system and the loading library answer is the record \<open>world\<close>; an error is
  the chain of its causes, and notes are values instead of sentences.
\<close>

section \<open>Errors and what they mean\<close>

datatype cause = IoCause "int option" string | OtherCause string

type_synonym chain = "cause list"

fun cause_text :: "cause \<Rightarrow> string" where
  "cause_text (IoCause _ t) = t"
| "cause_text (OtherCause t) = t"

fun errno_of :: "chain \<Rightarrow> int option" where
  "errno_of [] = None"
| "errno_of (IoCause e _ # _) = e"
| "errno_of (OtherCause _ # cs) = errno_of cs"

datatype degrade =
    ObjectMissing | ObjectUnreadable | ObjectUntrusted | NotPermitted | Unsupported | AbiMismatch | Rejected | OtherDegrade

definition ABI_SYMBOL :: string where "ABI_SYMBOL = ''CFC_EBPF_ABI_V4''"

definition classify_load :: "chain \<Rightarrow> degrade" where
  "classify_load err =
     (if \<exists>c \<in> set err. has_text ABI_SYMBOL (cause_text c) then AbiMismatch
      else case errno_of err of
        Some e \<Rightarrow> if e = 1 \<or> e = 13 then NotPermitted else if e = 22 \<or> e = 95 \<or> e = 38 then Unsupported else OtherDegrade
      | None \<Rightarrow> OtherDegrade)"

definition classify_verify :: "chain \<Rightarrow> degrade" where
  "classify_verify err =
     (case errno_of err of
        Some e \<Rightarrow>
          if e = 13 \<or> e = 7 then Rejected else if e = 1 then NotPermitted
          else if e = 95 \<or> e = 38 then Unsupported else Rejected
      | None \<Rightarrow> Rejected)"

section \<open>The report\<close>

datatype enforcement = Off | Unavailable | Process | Pinned | Inherited

definition enforcement_is_live :: "enforcement \<Rightarrow> bool" where
  "enforcement_is_live e \<longleftrightarrow> e = Process \<or> e = Pinned \<or> e = Inherited"

definition survives_daemon :: "enforcement \<Rightarrow> bool" where
  "survives_daemon e \<longleftrightarrow> e = Pinned \<or> e = Inherited"

fun enforcement_as_u8 :: "enforcement \<Rightarrow> u8" where
  "enforcement_as_u8 Off = 0"
| "enforcement_as_u8 Unavailable = 1"
| "enforcement_as_u8 Process = 2"
| "enforcement_as_u8 Pinned = 3"
| "enforcement_as_u8 Inherited = 4"

definition enforcement_from_u8 :: "u8 \<Rightarrow> enforcement" where
  "enforcement_from_u8 v =
     (if v = 1 then Unavailable else if v = 2 then Process else if v = 3 then Pinned else if v = 4 then Inherited else Off)"

definition LEVEL_UNKNOWN :: u8 where "LEVEL_UNKNOWN = 255"

definition enforcement_level :: "u8 \<Rightarrow> enforcement option" where
  "enforcement_level v = (if v = LEVEL_UNKNOWN then None else Some (enforcement_from_u8 v))"

datatype ring0 = RingOff | RingUnavailable | RingPartial | RingActive

datatype note_level = NoteDebug | NoteInfo | NoteWarn | NoteError

datatype remark =
    SwitchedOff | LoadFailed chain | Unvetted chain | NoOffsets task_offsets | OffsetsFailed offsets_error | NotPinnable pin_error
  | GroupDeadTooFar u32 | NoGroupDead | PoorDiagnostics | FilenameTooFar u32 | FilenameMoved u32 | FilenameForm
  | NotAttached string chain | AlreadyAttached | ConnectNotAttached pin_error | SockPidsUnusable | SockPidsUnpinned
  | CarriedOver enforce_stats | CountersUnreadable | VerdictsUnusable | VerdictsMissing | NoSink | ExitUnavailable | NoConsumer string

record report =
  rp_mode :: ebpf_mode
  rp_compiled_in :: bool
  rp_exec :: bool
  rp_exit :: bool
  rp_dns :: bool
  rp_enforcement :: enforcement
  rp_ppid :: bool
  rp_notes :: "remark list"
  rp_degrade :: "degrade option"
  rp_exec_offset :: exec_offset
  rp_insns :: "(string \<times> u32) list"
  rp_precise :: bool
  rp_lifecycle :: bool

definition default_report :: "ebpf_mode \<Rightarrow> bool \<Rightarrow> report" where
  "default_report mode compiled_in =
     \<lparr>rp_mode = mode, rp_compiled_in = compiled_in, rp_exec = False, rp_exit = False, rp_dns = False, rp_enforcement = Off,
      rp_ppid = False, rp_notes = [], rp_degrade = None, rp_exec_offset = ExecDefault, rp_insns = [], rp_precise = False,
      rp_lifecycle = False\<rparr>"

definition noted :: "remark \<Rightarrow> report \<Rightarrow> report" where "noted n r = r\<lparr>rp_notes := rp_notes r @ [n]\<rparr>"

definition inert :: "ebpf_mode \<Rightarrow> bool \<Rightarrow> remark \<Rightarrow> report" where
  "inert mode compiled_in n = (default_report mode compiled_in)\<lparr>rp_notes := [n]\<rparr>"

definition inert_because :: "ebpf_mode \<Rightarrow> bool \<Rightarrow> degrade \<Rightarrow> remark \<Rightarrow> report" where
  "inert_because mode compiled_in d n = (inert mode compiled_in n)\<lparr>rp_degrade := Some d\<rparr>"

definition any_active :: "report \<Rightarrow> bool" where
  "any_active r \<longleftrightarrow> rp_exec r \<or> rp_exit r \<or> rp_dns r"

definition ring0_of :: "report \<Rightarrow> ring0" where
  "ring0_of r =
     (if \<not> wants_load (rp_mode r) then RingOff
      else let n = length (filter id [rp_exec r, rp_exit r, rp_dns r]) in
        if n = 0 then RingUnavailable else if n = 3 then RingActive else RingPartial)"

definition note_level_of :: "report \<Rightarrow> note_level" where
  "note_level_of r =
     (case rp_mode r of
        EbpfOff \<Rightarrow> NoteDebug
      | EbpfOn \<Rightarrow> NoteError
      | EbpfAuto \<Rightarrow>
          (case rp_degrade r of
             Some d \<Rightarrow> if d = Rejected then NoteWarn else NoteInfo
           | None \<Rightarrow> if ring0_of r = RingPartial then NoteWarn else NoteInfo))"

text \<open>The first failure that is classified stays.\<close>

definition first_degrade :: "degrade \<Rightarrow> report \<Rightarrow> report" where
  "first_degrade d r = (case rp_degrade r of None \<Rightarrow> r\<lparr>rp_degrade := Some d\<rparr> | Some _ \<Rightarrow> r)"

definition record_attach :: "string \<Rightarrow> string \<Rightarrow> chain + u32 option \<Rightarrow> report \<Rightarrow> bool \<times> report" where
  "record_attach program what answer r =
     (case answer of
        Inr insns \<Rightarrow> (True, case insns of Some n \<Rightarrow> r\<lparr>rp_insns := rp_insns r @ [(program, n)]\<rparr> | None \<Rightarrow> r)
      | Inl e \<Rightarrow> (False, first_degrade (classify_verify e) (noted (NotAttached what e) r)))"

section \<open>The object\<close>

datatype object_trust = Warn | Refuse

text \<open>One tracepoint: an error before it is attached, or attached, with whether its link can be pinned
  and, if not, what attaching it again gives.\<close>

datatype tracepoint = TracepointFails chain | TracepointAttaches bool "chain option"

record world =
  lw_real :: "string \<Rightarrow> chain + string"
  lw_meta :: "path_component list \<Rightarrow> chain + file_meta"
  lw_read :: "string \<Rightarrow> (bool \<times> chain) option"
  lw_btf :: "bytes option"
  lw_tracefs :: tracefs
  lw_kernel_btf :: bool
  lw_load :: "chain option"
  lw_creates :: "string \<Rightarrow> bool"
  lw_listed :: bool
  lw_removes :: "string \<Rightarrow> bool"
  lw_cgroup :: bool
  lw_reaches :: "string \<Rightarrow> reach"
  lw_connect_err :: "pin_error \<Rightarrow> chain"
  lw_tracepoint :: "string \<Rightarrow> tracepoint"
  lw_dns :: "chain option"
  lw_insns :: "string \<Rightarrow> u32 option"
  lw_sock_pids :: "bool option"
  lw_stats_readable :: bool
  lw_cpus :: "nat list"
  lw_verdicts :: "bool option"
  lw_sink :: "(bool \<times> bool) option"
  lw_ring :: "string \<Rightarrow> bool"
  lw_legacy :: legacy_maps

text \<open>\<open>Path::metadata\<close> of the ancestors; the file itself is not one of them.\<close>

fun vet_ancestors :: "world \<Rightarrow> path_component list list \<Rightarrow> chain + unit" where
  "vet_ancestors W [] = Inr ()"
| "vet_ancestors W (d # ds) =
     bind_result (lw_meta W d) (\<lambda>m.
       if \<not> dir_is_sealed (fm_uid m) (fm_mode m) then Inl [OtherCause ''replaceable directory''] else vet_ancestors W ds)"

definition vet_object :: "world \<Rightarrow> string \<Rightarrow> chain + string" where
  "vet_object W path =
     bind_result (lw_real W path) (\<lambda>real.
     bind_result (lw_meta W (path_components real)) (\<lambda>m.
       if \<not> fm_is_file m then Inl [OtherCause ''not a regular file'']
       else if \<not> file_is_sealed (fm_uid m) (fm_mode m) then Inl [OtherCause ''writable file'']
       else bind_result (vet_ancestors W (tl (ancestors (path_components real)))) (\<lambda>_. Inr real)))"

text \<open>Which file is read, or why none is.\<close>

definition choose_object :: "world \<Rightarrow> string \<Rightarrow> object_trust \<Rightarrow> report \<Rightarrow> (degrade \<times> chain) + (string \<times> report)" where
  "choose_object W path trust r =
     (case vet_object W path of
        Inr real \<Rightarrow> Inr (real, r)
      | Inl e \<Rightarrow>
          if errno_of e = Some ENOENT then Inl (ObjectMissing, e)
          else (case trust of Refuse \<Rightarrow> Inl (ObjectUntrusted, e) | Warn \<Rightarrow> Inr (path, noted (Unvetted e) r)))"

definition read_object :: "world \<Rightarrow> string \<Rightarrow> (degrade \<times> chain) + unit" where
  "read_object W path =
     (case lw_read W path of
        None \<Rightarrow> Inr ()
      | Some (not_found, e) \<Rightarrow> Inl (if not_found then ObjectMissing else ObjectUnreadable, e))"

section \<open>Before the load\<close>

definition note_offsets :: "world \<Rightarrow> report \<Rightarrow> (u32 \<times> u32) option \<times> report" where
  "note_offsets W r =
     (case task_struct_offsets_from (lw_btf W) of
        Inr offs \<Rightarrow>
          if is_resolved offs then (Some (to_real_parent offs, to_tgid offs), r\<lparr>rp_ppid := True\<rparr>)
          else (None, (noted (NoOffsets offs) r)\<lparr>rp_ppid := False\<rparr>)
      | Inl e \<Rightarrow> (None, (noted (OffsetsFailed e) r)\<lparr>rp_ppid := False\<rparr>))"

definition note_pins :: "world \<Rightarrow> bpffs \<Rightarrow> report \<Rightarrow> bool \<times> bpffs \<times> report" where
  "note_pins W b r =
     (case prepare (lw_creates W) (lw_listed W) (lw_removes W) b of
        (Inr _, b) \<Rightarrow> (True, b, r)
      | (Inl e, b) \<Rightarrow> (False, b, noted (NotPinnable e) r))"

text \<open>The notes on the layout of the two records; the values patched in are \<open>patched_globals\<close>.\<close>

definition note_layout :: "world \<Rightarrow> report \<Rightarrow> report" where
  "note_layout W r =
     (let r = (case exit_group_dead_offset (lw_tracefs W) of
                 Inr (Some off) \<Rightarrow>
                   if TRACEPOINT_FIELD_OFFSET_MAX < off then noted (GroupDeadTooFar off) r else r\<lparr>rp_precise := True\<rparr>
               | Inr None \<Rightarrow> noted NoGroupDead r
               | Inl _ \<Rightarrow> r);
          r = (if lw_kernel_btf W then r else noted PoorDiagnostics r) in
      case exec_filename_offset (lw_tracefs W) of
        Inr (Parsed off) \<Rightarrow>
          if TRACEPOINT_FIELD_OFFSET_MAX < off then (noted (FilenameTooFar off) r)\<lparr>rp_exec_offset := ExecSuppressed\<rparr>
          else (if off \<noteq> 8 then noted (FilenameMoved off) r else r)\<lparr>rp_exec_offset := ExecParsed off\<rparr>
      | Inr resolution.Unsupported \<Rightarrow> (noted FilenameForm r)\<lparr>rp_exec_offset := ExecSuppressed\<rparr>
      | Inl _ \<Rightarrow> r\<lparr>rp_exec_offset := ExecDefault\<rparr>)"

definition MAP_VERDICTS :: string where "MAP_VERDICTS = ''VERDICTS''"
definition MAP_STATS :: string where "MAP_STATS = ''ENFORCE_STATS''"
definition MAP_DENY_EVENTS :: string where "MAP_DENY_EVENTS = ''DENY_EVENTS''"
definition MAP_EXE_RULES :: string where "MAP_EXE_RULES = ''EXE_RULES''"
definition MAP_EXE_RULES_ON :: string where "MAP_EXE_RULES_ON = ''EXE_RULES_ON''"
definition MAP_SOCK_PIDS :: string where "MAP_SOCK_PIDS = ''SOCK_PIDS''"
definition MAP_FAST_ALLOW :: string where "MAP_FAST_ALLOW = ''FAST_ALLOW''"
definition MAP_FAST_ALLOW_UNTIL :: string where "MAP_FAST_ALLOW_UNTIL = ''FAST_ALLOW_UNTIL''"
definition MAP_FAST_ALLOW_MARK :: string where "MAP_FAST_ALLOW_MARK = ''FAST_ALLOW_MARK''"
definition MAP_ALLOW_EVENTS :: string where "MAP_ALLOW_EVENTS = ''ALLOW_EVENTS''"
definition LINK_EXEC :: string where "LINK_EXEC = ''exec''"
definition LINK_EXIT :: string where "LINK_EXIT = ''exit''"
definition PROG_EXEC :: string where "PROG_EXEC = ''cfc_sched_process_exec''"
definition PROG_EXIT :: string where "PROG_EXIT = ''cfc_sched_process_exit''"
definition PROG_DNS :: string where "PROG_DNS = ''cfc_dns_ingress''"
definition MAP_EXEC :: string where "MAP_EXEC = ''EXEC_EVENTS''"
definition MAP_EXIT :: string where "MAP_EXIT = ''EXIT_EVENTS''"
definition MAP_DNS :: string where "MAP_DNS = ''DNS_PACKETS''"

definition pinned_map_names :: "string list" where
  "pinned_map_names =
     [MAP_VERDICTS, MAP_STATS, MAP_DENY_EVENTS, MAP_EXE_RULES, MAP_EXE_RULES_ON, MAP_SOCK_PIDS, MAP_FAST_ALLOW,
      MAP_FAST_ALLOW_UNTIL, MAP_FAST_ALLOW_MARK, MAP_ALLOW_EVENTS]"


text \<open>A map pinned by name is the one the pin holds, if there is one, and else a new one.\<close>

definition zero_exec_event :: exec_event where
  "zero_exec_event = \<lparr>xe_pid = 0, xe_ppid = 0, xe_uid = 0, xe_gid = 0, xe_comm = replicate 16 0,
     xe_filename = replicate FILENAME_LEN 0, xe_filename_len = 0, xe_pad = replicate 2 0\<rparr>"

definition open_maps :: "string list \<Rightarrow> kernel \<Rightarrow> kernel" where
  "open_maps pins k =
     \<lparr>k_procs = [],
      k_verdicts = (if MAP_VERDICTS \<in> set pins then k_verdicts k else []),
      k_sock_pids = (if MAP_SOCK_PIDS \<in> set pins then k_sock_pids k else []),
      k_exe_rules = (if MAP_EXE_RULES \<in> set pins then k_exe_rules k else []),
      k_exe_rules_on = (if MAP_EXE_RULES_ON \<in> set pins then k_exe_rules_on k else 0),
      k_fast_allow = (if MAP_FAST_ALLOW \<in> set pins then k_fast_allow k else []),
      k_fast_until = (if MAP_FAST_ALLOW_UNTIL \<in> set pins then k_fast_until k else 0),
      k_fast_mark = (if MAP_FAST_ALLOW_MARK \<in> set pins then k_fast_mark k else 0),
      k_slots = (if MAP_STATS \<in> set pins then k_slots k else 6),
      k_stats = (if MAP_STATS \<in> set pins then k_stats k else (\<lambda>_ _. 0)),
      k_exec_scratch = (\<lambda>_. zero_exec_event), k_exec_events = [], k_exit_events = [],
      k_deny_events = (if MAP_DENY_EVENTS \<in> set pins then k_deny_events k else []),
      k_allow_events = (if MAP_ALLOW_EVENTS \<in> set pins then k_allow_events k else []),
      k_marks = k_marks k\<rparr>"

definition pin_maps :: "bpffs \<Rightarrow> bpffs" where
  "pin_maps b = b\<lparr>bf_pins := fold List.insert pinned_map_names (bf_pins b)\<rparr>"

section \<open>Attaching\<close>

definition drop_stale_link_pin :: "world \<Rightarrow> string \<Rightarrow> bpffs \<Rightarrow> (chain + unit) \<times> bpffs" where
  "drop_stale_link_pin W name b =
     (if name \<notin> set (bf_pins b) then (Inr (), b)
      else if lw_removes W name then (Inr (), remove_pin (lw_removes W) name b)
      else (Inl [OtherCause ''lifecycle pin''], b))"

definition attach_tracepoint :: "world \<Rightarrow> string \<Rightarrow> string option \<Rightarrow> bpffs \<Rightarrow> (chain + u32 option) \<times> bool \<times> bpffs" where
  "attach_tracepoint W name pin b =
     (case lw_tracepoint W name of
        TracepointFails e \<Rightarrow> (Inl e, False, b)
      | TracepointAttaches pins again \<Rightarrow>
          (case pin of
             None \<Rightarrow> (Inr (lw_insns W name), False, b)
           | Some p \<Rightarrow>
               if pins then (Inr (lw_insns W name), True, b\<lparr>bf_pins := p # bf_pins b\<rparr>)
               else (case again of
                       None \<Rightarrow> (Inr (lw_insns W name), False, b)
                     | Some e \<Rightarrow> (Inl e, False, b))))"

definition attach_dns :: "world \<Rightarrow> chain + u32 option" where
  "attach_dns W =
     (if \<not> lw_cgroup W then Inl [OtherCause ''no cgroup2 mount'']
      else case lw_dns W of Some e \<Rightarrow> Inl e | None \<Rightarrow> Inr (lw_insns W PROG_DNS))"

definition note_insns :: "world \<Rightarrow> string list \<Rightarrow> report \<Rightarrow> report" where
  "note_insns W programs r =
     fold (\<lambda>p r. case lw_insns W p of Some n \<Rightarrow> r\<lparr>rp_insns := rp_insns r @ [(p, n)]\<rparr> | None \<Rightarrow> r) programs r"

definition attach_connect :: "world \<Rightarrow> bool \<Rightarrow> bool \<Rightarrow> bpffs \<Rightarrow> report \<Rightarrow> bpffs \<times> report" where
  "attach_connect W has_dir inherited b r =
     (if inherited then (b, (noted AlreadyAttached r)\<lparr>rp_enforcement := Inherited\<rparr>)
      else case attach (lw_cgroup W) (lw_reaches W) (lw_removes W) has_dir b of
        (Inr programs, b) \<Rightarrow> (b, (note_insns W programs r)\<lparr>rp_enforcement := (if has_dir then Pinned else Process)\<rparr>)
      | (Inl e, b) \<Rightarrow>
          (b, (first_degrade (classify_verify (lw_connect_err W e)) (noted (ConnectNotAttached e) r))\<lparr>rp_enforcement := Unavailable\<rparr>))"

text \<open>The three observers and the connect programs, after the pins of the last run's tracepoints are gone.\<close>

definition attach_all :: "world \<Rightarrow> bool \<Rightarrow> bool \<Rightarrow> bpffs \<Rightarrow> report \<Rightarrow> (chain + report) \<times> bpffs" where
  "attach_all W has_dir inherited b r =
     (let exec_pin = (if has_dir then Some LINK_EXEC else None); exit_pin = (if has_dir then Some LINK_EXIT else None) in
      case (if has_dir then drop_stale_link_pin W LINK_EXEC b else (Inr (), b)) of
        (Inl e, b) \<Rightarrow> (Inl e, b)
      | (Inr _, b) \<Rightarrow>
      case (if has_dir then drop_stale_link_pin W LINK_EXIT b else (Inr (), b)) of
        (Inl e, b) \<Rightarrow> (Inl e, b)
      | (Inr _, b) \<Rightarrow>
      case attach_tracepoint W PROG_EXEC exec_pin b of (answer, exec_pinned, b) \<Rightarrow>
      case record_attach PROG_EXEC ''sched_process_exec'' answer r of (ok, r) \<Rightarrow>
      let r = r\<lparr>rp_exec := ok\<rparr> in
      case attach_tracepoint W PROG_EXIT exit_pin b of (answer, exit_pinned, b) \<Rightarrow>
      case record_attach PROG_EXIT ''sched_process_exit'' answer r of (ok, r) \<Rightarrow>
      let r = r\<lparr>rp_exit := ok, rp_lifecycle := exec_pinned \<and> exit_pinned\<rparr> in
      case record_attach PROG_DNS ''cgroup_skb/ingress'' (attach_dns W) r of (ok, r) \<Rightarrow>
      let r = r\<lparr>rp_dns := ok\<rparr> in
      case attach_connect W has_dir inherited b r of (b, r) \<Rightarrow> (Inr r, b))"

definition note_sock_pids :: "world \<Rightarrow> bool \<Rightarrow> bool \<Rightarrow> report \<Rightarrow> report" where
  "note_sock_pids W inherited was_pinned r =
     (if \<not> enforcement_is_live (rp_enforcement r) then r
      else let r = (if lw_sock_pids W = Some False then noted SockPidsUnusable r else r) in
        if inherited \<and> \<not> was_pinned then noted SockPidsUnpinned r else r)"

definition note_counters :: "world \<Rightarrow> kernel \<Rightarrow> report \<Rightarrow> report" where
  "note_counters W k r =
     (if \<not> enforcement_is_live (rp_enforcement r) then r
      else if \<not> lw_stats_readable W then noted CountersUnreadable r
      else let s = stats_of (lw_cpus W) k in
        if 0 < st_denied s \<or> 0 < st_unknown s \<or> 0 < st_report_dropped s then noted (CarriedOver s) r else r)"

section \<open>The sink\<close>

text \<open>A whole resync: the kernel's own table, then the verdicts.  \<open>it\<close> is the order of the process table.\<close>

definition resync ::
  "ext \<Rightarrow> int \<Rightarrow> engine \<Rightarrow> (string \<Rightarrow> bool) \<Rightarrow> machine \<Rightarrow> ((u32 \<times> proc_entry) list \<Rightarrow> (u32 \<times> proc_entry) list) \<Rightarrow>
     ((u64 \<times> u32) list \<Rightarrow> (u64 \<times> u32) list) \<Rightarrow> (u64 \<Rightarrow> bool) \<Rightarrow> (nat \<Rightarrow> kernel \<Rightarrow> kernel) \<Rightarrow> sink \<Rightarrow> sink attr" where
  "resync E clk eng utf8 M it order served others s = do {
     let s = compile_rules E clk eng order served s;
     t \<leftarrow> now M;
     a \<leftarrow> State_Monad.get;
     let live = map kp_pid (live_processes it t (as_procs a));
     (work, cleared, k) \<leftarrow> resync_verdicts E clk eng utf8 M live others (vs_kernel s);
     State_Monad.return (s\<lparr>vs_kernel := k\<rparr>) }"

definition new_sink :: "bool \<times> bool \<Rightarrow> kernel \<Rightarrow> sink" where
  "new_sink parts k = \<lparr>vs_kernel = k, vs_has_rules = fst parts, vs_has_gate = snd parts, vs_last = None\<rparr>"

text \<open>The sweep, then the sink with its first resync.\<close>

definition startup_sweep :: "world \<Rightarrow> machine \<Rightarrow> report \<Rightarrow> kernel \<Rightarrow> (report \<times> kernel) attr" where
  "startup_sweep W M r k =
     (if \<not> enforcement_is_live (rp_enforcement r) then State_Monad.return (r, k)
      else case lw_verdicts W of
        None \<Rightarrow> State_Monad.return (noted VerdictsMissing r, k)
      | Some False \<Rightarrow> State_Monad.return (noted VerdictsUnusable r, k)
      | Some True \<Rightarrow> do { (n, k) \<leftarrow> sweep M k; State_Monad.return (r, k) })"

definition start_sink ::
  "world \<Rightarrow> ext \<Rightarrow> int \<Rightarrow> engine option \<Rightarrow> (string \<Rightarrow> bool) \<Rightarrow> machine \<Rightarrow> ((u32 \<times> proc_entry) list \<Rightarrow> (u32 \<times> proc_entry) list) \<Rightarrow>
     ((u64 \<times> u32) list \<Rightarrow> (u64 \<times> u32) list) \<Rightarrow> (u64 \<Rightarrow> bool) \<Rightarrow> (nat \<Rightarrow> kernel \<Rightarrow> kernel) \<Rightarrow> report \<Rightarrow> kernel \<Rightarrow>
     (report \<times> sink option \<times> kernel) attr" where
  "start_sink W E clk engine utf8 M it order served others r k =
     (case (enforcement_is_live (rp_enforcement r), engine) of
        (True, Some eng) \<Rightarrow>
          (case lw_sink W of
             Some parts \<Rightarrow> do {
               s \<leftarrow> resync E clk eng utf8 M it order served others (new_sink parts k);
               State_Monad.return (r, Some s, vs_kernel s) }
           | None \<Rightarrow> State_Monad.return (noted NoSink r, None, k))
      | _ \<Rightarrow> State_Monad.return (r, None, k))"

section \<open>The consumers\<close>

text \<open>A ring gets a task, or a note and whatever else its absence means.\<close>

definition start_consumers :: "world \<Rightarrow> report \<Rightarrow> string list \<times> report" where
  "start_consumers W r =
     (let r = (if rp_exec r \<and> \<not> rp_exit r then (noted ExitUnavailable r)\<lparr>rp_exec := False\<rparr> else r);
          (tasks, r) =
            (if rp_exec r then
               if lw_ring W MAP_EXEC then ([MAP_EXEC], r) else ([], (noted (NoConsumer MAP_EXEC) r)\<lparr>rp_exec := False\<rparr>)
             else ([], r));
          (tasks, r) =
            (if rp_exec r \<and> rp_exit r then
               if lw_ring W MAP_EXIT then (tasks @ [MAP_EXIT, ''recheck''], r)
               else (tasks, (noted (NoConsumer MAP_EXIT) r)\<lparr>rp_exec := False, rp_exit := False\<rparr>)
             else (tasks, r));
          (tasks, r) =
            (if enforcement_is_live (rp_enforcement r) then
               if lw_ring W MAP_DENY_EVENTS then (tasks @ [MAP_DENY_EVENTS], r) else (tasks, noted (NoConsumer MAP_DENY_EVENTS) r)
             else (tasks, r)) in
      if rp_dns r then
        if lw_ring W MAP_DNS then (tasks @ [MAP_DNS], r) else (tasks, (noted (NoConsumer MAP_DNS) r)\<lparr>rp_dns := False\<rparr>)
      else (tasks, r))"

section \<open>Bringing the layer up\<close>

record attached =
  at_tasks :: "string list"
  at_sink :: "sink option"
  at_globals :: globals

text \<open>Up to the load, nothing is attached; the answer is whether there is a pin directory, whether the
  connect programs were inherited, whether their socket map was pinned, and what is patched in.\<close>

definition load_object ::
  "world \<Rightarrow> string \<Rightarrow> object_trust \<Rightarrow> bpffs \<Rightarrow> ((degrade \<times> chain) + (bool \<times> bool \<times> bool \<times> globals \<times> report)) \<times> bpffs" where
  "load_object W path trust b =
     (case bind_result (choose_object W path trust (default_report EbpfOn True)) (\<lambda>(real, r).
             bind_result (read_object W real) (\<lambda>_. Inr r)) of
        Inl e \<Rightarrow> (Inl e, b)
      | Inr r \<Rightarrow>
          (case note_offsets W r of (offsets, r) \<Rightarrow>
           case note_pins W b r of (has_dir, b, r) \<Rightarrow>
             let inherited = (has_dir \<and> already_attached b);
                 was_pinned = (has_dir \<and> MAP_SOCK_PIDS \<in> set (bf_pins b));
                 G = fst (patched_globals (lw_tracefs W) offsets);
                 r = note_layout W r in
             case lw_load W of
               Some e \<Rightarrow> (Inl (classify_load e, e), b)
             | None \<Rightarrow> (Inr (has_dir, inherited, was_pinned, G, r), b)))"

definition load_and_attach ::
  "world \<Rightarrow> ext \<Rightarrow> int \<Rightarrow> engine option \<Rightarrow> (string \<Rightarrow> bool) \<Rightarrow> machine \<Rightarrow> ((u32 \<times> proc_entry) list \<Rightarrow> (u32 \<times> proc_entry) list) \<Rightarrow>
     ((u64 \<times> u32) list \<Rightarrow> (u64 \<times> u32) list) \<Rightarrow> (u64 \<Rightarrow> bool) \<Rightarrow> (nat \<Rightarrow> kernel \<Rightarrow> kernel) \<Rightarrow> string \<Rightarrow> object_trust \<Rightarrow> bpffs \<Rightarrow> kernel \<Rightarrow>
     (((degrade \<times> chain) + (attached \<times> report)) \<times> bpffs \<times> kernel) attr" where
  "load_and_attach W E clk engine utf8 M it order served others path trust b k =
     (case load_object W path trust b of
        (Inl e, b) \<Rightarrow> State_Monad.return (Inl e, b, k)
      | (Inr (has_dir, inherited, was_pinned, G, r), b) \<Rightarrow>
          (let k = open_maps (if has_dir then bf_pins b else []) k;
               b = (if has_dir then pin_maps b else b);
               k = disarm_legacy_fast_allow (lw_legacy W) k in
           case attach_all W has_dir inherited b r of
             (Inl e, b) \<Rightarrow> State_Monad.return (Inl (OtherDegrade, e), b, k)
           | (Inr r, b) \<Rightarrow> do {
               let r = note_counters W k (note_sock_pids W inherited was_pinned r);
               (r, k) \<leftarrow> startup_sweep W M r k;
               (r, sink, k) \<leftarrow> start_sink W E clk engine utf8 M it order served others r k;
               let (tasks, r) = start_consumers W r;
               State_Monad.return (Inr (\<lparr>at_tasks = tasks, at_sink = sink, at_globals = G\<rparr>, r), b, k) }))"

definition DEFAULT_OBJECT_PATH :: string where "DEFAULT_OBJECT_PATH = ''/usr/lib/colony-firewall/cfc-ebpf.o''"

text \<open>\<open>start\<close> of a build with the loader in it: the report, and what stays attached.\<close>

definition start_ebpf ::
  "world \<Rightarrow> ext \<Rightarrow> int \<Rightarrow> engine option \<Rightarrow> (string \<Rightarrow> bool) \<Rightarrow> machine \<Rightarrow> ((u32 \<times> proc_entry) list \<Rightarrow> (u32 \<times> proc_entry) list) \<Rightarrow>
     ((u64 \<times> u32) list \<Rightarrow> (u64 \<times> u32) list) \<Rightarrow> (u64 \<Rightarrow> bool) \<Rightarrow> (nat \<Rightarrow> kernel \<Rightarrow> kernel) \<Rightarrow> ebpf_config \<Rightarrow> bpffs \<Rightarrow> kernel \<Rightarrow>
     ((report \<times> attached option) \<times> bpffs \<times> kernel) attr" where
  "start_ebpf W E clk engine utf8 M it order served others cfg b k =
     (if \<not> wants_load (ebpf_enabled cfg) then State_Monad.return ((inert (ebpf_enabled cfg) True SwitchedOff, None), b, k)
      else let (path, trust) = (case ebpf_object_path cfg of Some p \<Rightarrow> (p, Warn) | None \<Rightarrow> (DEFAULT_OBJECT_PATH, Refuse)) in do {
        (answer, b, k) \<leftarrow> load_and_attach W E clk engine utf8 M it order served others path trust b k;
        case answer of
          Inr (at, r) \<Rightarrow> do {
            _ \<leftarrow> State_Monad.update (\<lambda>s. s\<lparr>as_procs := set_live (rp_exec r) (as_procs s)\<rparr>);
            State_Monad.return ((r\<lparr>rp_mode := ebpf_enabled cfg\<rparr>, Some at), b, k) }
        | Inl (d, e) \<Rightarrow>
            State_Monad.return ((inert_because (ebpf_enabled cfg) True d (LoadFailed e), None), b, k) })"


section \<open>Objects nobody asked for\<close>

definition sealed_file :: "world \<Rightarrow> path_component list \<Rightarrow> bool" where
  "sealed_file W p \<longleftrightarrow> (\<exists>m. lw_meta W p = Inr m \<and> fm_is_file m \<and> file_is_sealed (fm_uid m) (fm_mode m))"

definition sealed_above :: "world \<Rightarrow> path_component list \<Rightarrow> bool" where
  "sealed_above W p \<longleftrightarrow> (\<forall>n. 1 \<le> n \<and> n < length p \<longrightarrow> (\<exists>m. lw_meta W (take n p) = Inr m \<and> dir_is_sealed (fm_uid m) (fm_mode m)))"

lemma vet_ancestors_ok:
  "vet_ancestors W ds = Inr () \<longleftrightarrow> (\<forall>d \<in> set ds. \<exists>m. lw_meta W d = Inr m \<and> dir_is_sealed (fm_uid m) (fm_mode m))"
proof (induction ds)
  case (Cons d ds)
  then show ?case by (cases "lw_meta W d") auto
qed simp

lemma vetted:
  "vet_object W path = Inr real \<longleftrightarrow>
     lw_real W path = Inr real \<and> sealed_file W (path_components real) \<and> sealed_above W (path_components real)"
proof -
  have above: "vet_ancestors W (tl (ancestors p)) = Inr () \<longleftrightarrow> sealed_above W p" for p
    unfolding vet_ancestors_ok set_ancestors_tl sealed_above_def by auto
  have unit: "(\<exists>u. f = Inr u) \<longleftrightarrow> f = Inr ()" for f :: "chain + unit" by auto
  show ?thesis
    unfolding vet_object_def sealed_file_def above [symmetric]
    by (auto simp: bind_result_Inr_iff unit split: if_splits)
qed

lemma loaded_object:
  assumes "load_object W path Refuse b = (Inr x, b')"
  shows "\<exists>real. vet_object W path = Inr real \<and> lw_read W real = None"
  using assms
  by (auto simp: load_object_def choose_object_def read_object_def split: sum.splits option.splits if_splits prod.splits object_trust.splits)

text \<open>C12: an object nobody asked for is kernel code only root could have written.  When the daemon
  goes to its own default path, something is attached only if that path resolves to a regular file
  of root's that no one else may write, each directory above it being root's and not replaceable
  by another user; and the resolved file is what is read, not the name it was found by.\<close>

theorem unasked_objects_are_sealed:
  assumes "run_state (start_ebpf W E clk engine utf8 M it order served others cfg b k) s = (((r, Some at), b', k'), s')"
    and "ebpf_object_path cfg = None"
  shows "\<exists>real. lw_real W DEFAULT_OBJECT_PATH = Inr real \<and> lw_read W real = None \<and>
    sealed_file W (path_components real) \<and> sealed_above W (path_components real)"
proof -
  have "wp (start_ebpf W E clk engine utf8 M it order served others cfg b k)
      (\<lambda>((r, a), b', k') s'. a \<noteq> None \<longrightarrow> (\<exists>x b'. load_object W DEFAULT_OBJECT_PATH Refuse b = (Inr x, b'))) s"
    using assms(2)
    by (auto simp: start_ebpf_def load_and_attach_def wp_simps Let_def wp_def split: prod.splits sum.splits option.splits)
  from wp_run [OF assms(1) this] obtain x b1 where "load_object W DEFAULT_OBJECT_PATH Refuse b = (Inr x, b1)" by auto
  from loaded_object [OF this] show ?thesis unfolding vetted by blast
qed


section \<open>Reads leave the process table alone\<close>

definition keeps_procs :: "'a attr \<Rightarrow> bool" where
  "keeps_procs m \<longleftrightarrow> (\<forall>s. wp m (\<lambda>_ s'. as_procs s' = as_procs s) s)"

named_theorems keeps \<open>programs that leave the process table alone\<close>

lemma keeps_return [keeps]: "keeps_procs (State_Monad.return x)"
  by (simp add: keeps_procs_def wp_simps)

lemma keeps_look [keeps]: "keeps_procs (look M f)"
  by (simp add: keeps_procs_def wp_simps)

lemma keeps_bind [keeps]:
  assumes "keeps_procs m" "\<And>x. keeps_procs (f x)"
  shows "keeps_procs (m \<bind> f)"
  unfolding keeps_procs_def wp_bind
proof
  fix s
  show "wp m (\<lambda>x. wp (f x) (\<lambda>_ s'. as_procs s' = as_procs s)) s"
  proof (rule wp_mono)
    show "wp m (\<lambda>_ s'. as_procs s' = as_procs s) s" using assms(1) by (simp add: keeps_procs_def)
    fix x and s1 :: attr_state assume "as_procs s1 = as_procs s"
    then show "wp (f x) (\<lambda>_ s'. as_procs s' = as_procs s) s1" using assms(2) [of x, unfolded keeps_procs_def, rule_format, of s1] by simp
  qed
qed

lemma keeps_option [keeps]: "keeps_procs m \<Longrightarrow> (\<And>y. keeps_procs (f y)) \<Longrightarrow> keeps_procs (case x of None \<Rightarrow> m | Some y \<Rightarrow> f y)"
  by (cases x) simp_all

lemma keeps_prod [keeps]: "(\<And>a b. keeps_procs (f a b)) \<Longrightarrow> keeps_procs (case x of (a, b) \<Rightarrow> f a b)"
  by (cases x) simp

lemma keeps_let [keeps]: "(\<And>y. keeps_procs (f y)) \<Longrightarrow> keeps_procs (Let x f)"
  by simp

lemma keeps_start [keeps]: "keeps_procs (proc_starttime M pid)"
  by (simp add: proc_starttime_def keeps_look)

lemma keeps_view [keeps]: "keeps_procs (proc_view utf8 M pid)"
  unfolding proc_view_def proc_exe_def proc_uid_def by (intro keeps)

lemma keeps_views [keeps]: "keeps_procs (live_views utf8 M pids)"
  by (induction pids) (auto intro!: keeps)

lemma keeps_judged [keeps]: "keeps_procs (still_judged M views)"
  by (induction views rule: still_judged.induct) (auto intro!: keeps)

lemma keeps_doomed [keeps]: "keeps_procs (doomed_pids E clk eng utf8 M pids)"
  by (induction pids) (auto intro!: keeps)

lemma keeps_clearable [keeps]: "keeps_procs (clearable_pids M ds)"
  by (induction ds rule: clearable_pids.induct) (auto intro!: keeps)

lemma keeps_resync_verdicts [keeps]: "keeps_procs (resync_verdicts E clk eng utf8 M live others k)"
  unfolding resync_verdicts_def by (intro keeps)

lemma keeps_get [keeps]: "keeps_procs State_Monad.get"
  by (simp add: keeps_procs_def wp_simps)

lemma keeps_resync [keeps]: "keeps_procs (resync E clk eng utf8 M it order served others s)"
  unfolding resync_def now_def by (intro keeps)

lemma keeps_gone [keeps]: "keeps_procs (gone_pids M pids)"
  by (induction pids) (auto intro!: keeps)

lemma keeps_sweep [keeps]: "keeps_procs (sweep M k)"
  unfolding sweep_def by (intro keeps)

section \<open>What is left of the inherited verdicts\<close>

lemma gone_still:
  assumes "\<forall>t. mc_view M t = v"
  shows "wp (gone_pids M pids) (\<lambda>r s'. r = filter (\<lambda>p. \<not> v_proc v p) pids) s"
proof (induction pids arbitrary: s)
  case (Cons p pids)
  then show ?case using assms by (auto simp: wp_simps elim: wp_mono)
qed (simp add: wp_return)

lemma removed_verdicts:
  "map_of (fold (\<lambda>pid m. snd (map_remove pid m)) pids m) p = (if p \<in> set pids then None else map_of m p)"
proof (induction pids arbitrary: m)
  case (Cons q pids)
  have "map_of (snd (map_remove q m)) p = (if p = q then None else map_of m p)"
    by (simp add: map_remove_def AList.delete_conv')
  with Cons [of "snd (map_remove q m)"] show ?case by auto
qed simp

lemma sweep_fold:
  "snd (fold (\<lambda>pid (n, k). case map_remove pid (k_verdicts k) of (r, m) \<Rightarrow> (if isl r then n else n + 1, k\<lparr>k_verdicts := m\<rparr>)) pids (n, k)) =
     k\<lparr>k_verdicts := fold (\<lambda>pid m. snd (map_remove pid m)) pids (k_verdicts k)\<rparr>"
  by (induction pids arbitrary: n k) (simp_all add: split_def)

lemma sweep_folded:
  "fold (\<lambda>pid (n, k). case map_remove pid (k_verdicts k) of (r, m) \<Rightarrow> (if isl r then n else n + 1, k\<lparr>k_verdicts := m\<rparr>)) pids (n, k) = (n', k') \<Longrightarrow>
     k' = k\<lparr>k_verdicts := fold (\<lambda>pid m. snd (map_remove pid m)) pids (k_verdicts k)\<rparr>"
  using sweep_fold [of pids n k] by simp

definition swept :: "view \<Rightarrow> kernel \<Rightarrow> kernel" where
  "swept v k = k\<lparr>k_verdicts := fold (\<lambda>pid m. snd (map_remove pid m)) (filter (\<lambda>p. \<not> v_proc v p) (map fst (k_verdicts k))) (k_verdicts k)\<rparr>"

lemma sweep_still:
  assumes "\<forall>t. mc_view M t = v"
  shows "wp (sweep M k) (\<lambda>(n, k') s'. k' = swept v k) s"
  unfolding sweep_def wp_bind
  by (rule wp_mono [OF gone_still [OF assms]]) (auto simp: wp_return swept_def split: prod.split dest!: sweep_folded)

lemma swept_map: "map_of (k_verdicts (swept v k)) p = (if v_proc v p then map_of (k_verdicts k) p else None)"
proof (cases "map_of (k_verdicts k) p")
  case None
  then show ?thesis by (simp add: swept_def removed_verdicts)
next
  case (Some d)
  then have "p \<in> set (map fst (k_verdicts k))" by (metis domI dom_map_of_conv_image_fst set_map)
  with Some show ?thesis by (auto simp: swept_def removed_verdicts)
qed

lemma length_removed: "length (fold (\<lambda>pid m. snd (map_remove pid m)) pids m) \<le> length m"
proof (induction pids arbitrary: m)
  case (Cons q pids)
  have "length (snd (map_remove q m)) \<le> length m" by (simp add: map_remove_def length_delete_le)
  with Cons [of "snd (map_remove q m)"] show ?case by simp
qed simp

lemma compiled_verdicts [simp]:
  "k_verdicts (vs_kernel (compile_rules E clk eng order served s)) = k_verdicts (vs_kernel s)"
  by (auto simp: compile_rules_def Let_def split: prod.split option.split)

lemma resync_at_start:
  assumes "\<forall>t. mc_view M t = v" "length (k_verdicts (vs_kernel sk)) \<le> VERDICTS_MAX" "\<not> pt_live (as_procs s)"
  shows "wp (resync E clk eng utf8 M it order served (\<lambda>_ k. k) sk) (\<lambda>s' _.
    map_of (k_verdicts (vs_kernel s')) p = (if doomed_now E clk eng utf8 v p then None else map_of (k_verdicts (vs_kernel sk)) p)) s"
proof -
  let ?k = "vs_kernel (compile_rules E clk eng order served sk)"
  have "map_of (k_verdicts k') p = settled_verdict E clk eng utf8 v [] (map_of (k_verdicts ?k) p) p"
    if "run_state (resync_verdicts E clk eng utf8 M [] (\<lambda>_ k. k) ?k) s1 = ((work, cleared, k'), s2)" for s1 work cleared k' s2
    by (rule resync_settled [OF assms(1) _ that]) (use assms(2) in simp)
  then have judged: "wp (resync_verdicts E clk eng utf8 M [] (\<lambda>_ k. k) ?k)
      (\<lambda>(work, cleared, k') _. map_of (k_verdicts k') p = settled_verdict E clk eng utf8 v [] (map_of (k_verdicts ?k) p) p) s1" for s1
    by (auto simp: wp_def split: prod.split)
  show ?thesis
    unfolding resync_def Let_def now_def wp_bind wp_look wp_get
    using assms(3) by (auto simp: live_processes_def wp_simps settled_verdict_def intro!: wp_mono [OF judged])
qed


text \<open>The old Fast Allow after it is disarmed: what was served is done, and nothing is granted anew.\<close>

definition disarmed_by :: "legacy_maps \<Rightarrow> kernel \<Rightarrow> kernel \<Rightarrow> bool" where
  "disarmed_by L k k' \<longleftrightarrow>
     (lm_until L \<longrightarrow> k_fast_until k' = 0) \<and> (lm_mark L \<longrightarrow> k_fast_mark k' = 0) \<and>
     (\<forall>p. map_of (k_fast_allow k') p \<noteq> None \<longrightarrow>
        map_of (k_fast_allow k) p \<noteq> None \<and> \<not> (lm_grants L \<and> lm_yields L p \<and> lm_removes L p))"

lemma disarm_keeps_verdicts: "k_verdicts (disarm_legacy_fast_allow L k) = k_verdicts k"
  by (simp add: disarm_legacy_fast_allow_def Let_def)

lemma disarmed: "disarmed_by L k (disarm_legacy_fast_allow L (open_maps pins k))"
proof -
  have grants: "map_of (k_fast_allow (disarm_legacy_fast_allow L k)) p =
      (if lm_grants L \<and> lm_yields L p \<and> lm_removes L p then None else map_of (k_fast_allow k) p)" for p and k :: kernel
  proof -
    have "fold (\<lambda>pid. if lm_removes L pid then (\<lambda>m. snd (map_remove pid m)) else id) pids m =
        fold (\<lambda>pid m. snd (map_remove pid m)) (filter (lm_removes L) pids) m" for pids and m :: "(u32 \<times> u32) list"
      by (simp add: fold_filter)
    then show ?thesis
      by (auto simp: disarm_legacy_fast_allow_def Let_def removed_verdicts map_of_eq_None_iff)
  qed
  have "map_of (k_fast_allow (open_maps pins k)) p \<noteq> None \<Longrightarrow> map_of (k_fast_allow k) p \<noteq> None" for p
    by (simp add: open_maps_def split: if_splits)
  with grants [of "open_maps pins k"] show ?thesis
    by (auto simp: disarmed_by_def disarm_legacy_fast_allow_def Let_def UNARMED_def split: if_splits)
qed

text \<open>What resync and sweep leave alone of the kernel.\<close>

definition legacy_state :: "kernel \<Rightarrow> (u32 \<times> u32) list \<times> u64 \<times> u32" where
  "legacy_state k = (k_fast_allow k, k_fast_until k, k_fast_mark k)"

lemma disarmed_by_legacy: "legacy_state k2 = legacy_state k1 \<Longrightarrow> disarmed_by L k k2 = disarmed_by L k k1"
  by (simp add: legacy_state_def disarmed_by_def)

lemma legacy_verdicts [simp]: "legacy_state (k\<lparr>k_verdicts := m\<rparr>) = legacy_state k"
  by (simp add: legacy_state_def)

lemma legacy_compile [simp]: "legacy_state (vs_kernel (compile_rules E clk eng order served s)) = legacy_state (vs_kernel s)"
  by (auto simp: compile_rules_def legacy_state_def Let_def split: prod.split option.split)

lemma resync_legacy: "wp (resync_verdicts E clk eng utf8 M live (\<lambda>_ k. k) k) (\<lambda>(_, _, k') _. legacy_state k' = legacy_state k) s"
  unfolding resync_verdicts_def wp_bind Let_def
  by (auto simp: wp_def clear_all_def write_all_def wp_return split: prod.split)

lemma resync_starts:
  assumes "\<forall>t. mc_view M t = v" "length (k_verdicts (vs_kernel sk)) \<le> VERDICTS_MAX" "\<not> pt_live (as_procs s)"
  shows "wp (resync E clk eng utf8 M it order served (\<lambda>_ k. k) sk) (\<lambda>s' _. legacy_state (vs_kernel s') = legacy_state (vs_kernel sk) \<and>
    (\<forall>p. map_of (k_verdicts (vs_kernel s')) p = (if doomed_now E clk eng utf8 v p then None else map_of (k_verdicts (vs_kernel sk)) p))) s"
proof -
  have "wp (resync E clk eng utf8 M it order served (\<lambda>_ k. k) sk) (\<lambda>s' _. legacy_state (vs_kernel s') = legacy_state (vs_kernel sk)) s"
    unfolding resync_def Let_def now_def wp_bind wp_look wp_get
    by (auto simp: wp_simps intro!: wp_mono [OF resync_legacy])
  moreover have "wp (resync E clk eng utf8 M it order served (\<lambda>_ k. k) sk) (\<lambda>s' _.
      map_of (k_verdicts (vs_kernel s')) p = (if doomed_now E clk eng utf8 v p then None else map_of (k_verdicts (vs_kernel sk)) p)) s" for p
    by (rule resync_at_start [OF assms])
  ultimately show ?thesis by (simp add: wp_def split_def)
qed

text \<open>What the map of verdicts holds after the load.\<close>

definition kept_verdict :: "world \<Rightarrow> bpffs \<Rightarrow> kernel \<Rightarrow> u32 \<Rightarrow> u32 option" where
  "kept_verdict W b k p =
     (if \<not> isl (fst (prepare (lw_creates W) (lw_listed W) (lw_removes W) b)) \<and> MAP_VERDICTS \<in> set (bf_pins b)
      then map_of (k_verdicts k) p else None)"

lemma prepared_pins:
  "prepare creates listed removes b = (r, b1) \<Longrightarrow> name \<notin> {LINK_SENDMSG4, LINK_SENDMSG6, LEGACY_COOKIE_MARKER} \<Longrightarrow>
   (name \<in> set (bf_pins b1)) = (name \<in> set (bf_pins b))"
  by (auto simp: prepare_def unpin_other_versions_def remove_legacy_pins_def remove_pin_def Let_def split: option.splits bool.splits if_splits)

lemma loaded_maps:
  assumes "load_object W path trust b = (Inr (has_dir, inherited, was_pinned, G, r), b1)"
  shows "map_of (k_verdicts (open_maps (if has_dir then bf_pins b1 else []) k)) p = kept_verdict W b k p"
    and "length (k_verdicts (open_maps (if has_dir then bf_pins b1 else []) k)) \<le> length (k_verdicts k)"
    and "inherited \<longleftrightarrow> has_dir \<and> already_attached b1"
proof -
  obtain r0 b2 where prep: "prepare (lw_creates W) (lw_listed W) (lw_removes W) b = (r0, b2)" by fastforce
  have load: "has_dir = (\<not> isl r0)" "b1 = b2" "inherited = (has_dir \<and> already_attached b1)"
    using assms prep by (auto simp: load_object_def note_pins_def Let_def split: sum.splits prod.splits option.splits)
  have "(MAP_VERDICTS \<in> set (bf_pins b2)) = (MAP_VERDICTS \<in> set (bf_pins b))"
    by (rule prepared_pins [OF prep]) (simp add: MAP_VERDICTS_def LINK_SENDMSG4_def LINK_SENDMSG6_def LEGACY_COOKIE_MARKER_def)
  then show "map_of (k_verdicts (open_maps (if has_dir then bf_pins b1 else []) k)) p = kept_verdict W b k p"
    using load prep by (simp add: open_maps_def kept_verdict_def)
  show "length (k_verdicts (open_maps (if has_dir then bf_pins b1 else []) k)) \<le> length (k_verdicts k)"
    by (simp add: open_maps_def)
  show "inherited \<longleftrightarrow> has_dir \<and> already_attached b1" by fact
qed

end
