(* ===== verification/Startup.thy ===== *)
theory Startup
  imports Loader
begin

text \<open>
  What bringing the eBPF layer up establishes: the inherited verdicts are this daemon's, and the
  report says what runs.
\<close>

section \<open>The kernel after a start\<close>

lemma swept_legacy [simp]: "legacy_state (swept v k) = legacy_state k"
  by (simp add: swept_def)

lemma sweep_starts:
  assumes "\<forall>t. mc_view M t = v" "lw_verdicts W = Some True"
  shows "wp (startup_sweep W M r k) (\<lambda>(r', k') s'. rp_enforcement r' = rp_enforcement r \<and> as_procs s' = as_procs s \<and>
    (enforcement_is_live (rp_enforcement r) \<longrightarrow> k' = swept v k)) s"
proof (cases "enforcement_is_live (rp_enforcement r)")
  case True
  have "wp (sweep M k) (\<lambda>(n, k') s'. k' = swept v k) s" by (rule sweep_still [OF assms(1)])
  moreover have "wp (sweep M k) (\<lambda>_ s'. as_procs s' = as_procs s) s"
    using keeps_sweep [of M k] by (simp add: keeps_procs_def)
  ultimately show ?thesis using True assms(2) by (auto simp: startup_sweep_def wp_def split: prod.splits)
qed (simp add: startup_sweep_def wp_return)

lemma new_sink_kernel [simp]: "vs_kernel (new_sink parts k) = k"
  by (simp add: new_sink_def)

lemma sink_starts:
  assumes "\<forall>t. mc_view M t = v" "length (k_verdicts k) \<le> VERDICTS_MAX" "\<not> pt_live (as_procs s)"
  shows "wp (start_sink W E clk (Some eng) utf8 M it order served (\<lambda>_ k. k) r k) (\<lambda>(r', sink, k') s'. sink \<noteq> None \<longrightarrow>
    enforcement_is_live (rp_enforcement r) \<and> legacy_state k' = legacy_state k \<and>
    (\<forall>p. map_of (k_verdicts k') p = (if doomed_now E clk eng utf8 v p then None else map_of (k_verdicts k) p))) s"
proof (cases "enforcement_is_live (rp_enforcement r)")
  case True
  show ?thesis
  proof (cases "lw_sink W")
    case (Some parts)
    have room: "length (k_verdicts (vs_kernel (new_sink parts k))) \<le> VERDICTS_MAX" using assms(2) by simp
    show ?thesis
      using True Some by (auto simp: start_sink_def wp_simps intro!: wp_mono [OF resync_starts [OF assms(1) room assms(3)]])
  qed (simp add: start_sink_def wp_return True)
qed (simp add: start_sink_def wp_return)

lemma length_swept: "length (k_verdicts (swept v k)) \<le> length (k_verdicts k)"
  by (simp add: swept_def length_removed)

text \<open>The kernel as a start leaves it: verdicts that were pinned, of processes still there that the rules are not
  known to let through.\<close>

definition reconciled :: "world \<Rightarrow> ext \<Rightarrow> int \<Rightarrow> engine \<Rightarrow> (string \<Rightarrow> bool) \<Rightarrow> view \<Rightarrow> bpffs \<Rightarrow> kernel \<Rightarrow> kernel \<Rightarrow> bool" where
  "reconciled W E clk eng utf8 v b k k' \<longleftrightarrow>
     (\<forall>p. map_of (k_verdicts k') p = (if v_proc v p \<and> \<not> doomed_now E clk eng utf8 v p then kept_verdict W b k p else None)) \<and>
     disarmed_by (lw_legacy W) k k'"

lemma sink_reconciles:
  assumes "\<forall>t. mc_view M t = v" "disarmed_by (lw_legacy W) k k1" "\<And>p. map_of (k_verdicts k1) p = kept_verdict W b k p" "length (k_verdicts k1) \<le> VERDICTS_MAX"
    and "\<not> pt_live (as_procs s)" "enforcement_is_live (rp_enforcement r) \<longrightarrow> k2 = swept v k1"
  shows "wp (start_sink W E clk (Some eng) utf8 M it order served (\<lambda>_ k. k) r k2)
    (\<lambda>(r', sink, k') s'. sink \<noteq> None \<longrightarrow> reconciled W E clk eng utf8 v b k k') s"
proof (cases "enforcement_is_live (rp_enforcement r)")
  case True
  have room: "length (k_verdicts k2) \<le> VERDICTS_MAX" using True assms(4,6) length_swept [of v k1] by simp
  show ?thesis
    by (rule wp_mono [OF sink_starts [OF assms(1) room assms(5)]]) (use True assms(2,3,6) in \<open>auto simp: reconciled_def swept_map dest!: disarmed_by_legacy\<close>)
qed (simp add: start_sink_def wp_return)

lemma loaded_kernel:
  assumes "\<forall>t. mc_view M t = v" "length (k_verdicts k) \<le> VERDICTS_MAX" "\<not> pt_live (as_procs s)" "lw_verdicts W = Some True"
  shows "wp (load_and_attach W E clk (Some eng) utf8 M it order served (\<lambda>_ k. k) path t b k)
    (\<lambda>(answer, b', k') s'. case answer of Inl e \<Rightarrow> True | Inr (at, r) \<Rightarrow> at_sink at \<noteq> None \<longrightarrow>
      reconciled W E clk eng utf8 v b k k') s"
proof (cases "load_object W path t b")
  case (Pair answer b1)
  show ?thesis
  proof (cases answer)
    case (Inl e)
    then show ?thesis using Pair by (simp add: load_and_attach_def wp_return)
  next
    case (Inr loaded)
    obtain has_dir inherited was_pinned G r0 where loaded: "loaded = (has_dir, inherited, was_pinned, G, r0)" by (cases loaded) auto
    define k1 where "k1 = disarm_legacy_fast_allow (lw_legacy W) (open_maps (if has_dir then bf_pins b1 else []) k)"
    have object: "load_object W path t b = (Inr (has_dir, inherited, was_pinned, G, r0), b1)" using Pair Inr loaded by simp
    have k1: "disarmed_by (lw_legacy W) k k1" "\<And>p. map_of (k_verdicts k1) p = kept_verdict W b k p" "length (k_verdicts k1) \<le> VERDICTS_MAX"
      using loaded_maps(1,2) [OF object, of k] assms(2) by (simp_all add: k1_def disarm_keeps_verdicts disarmed)
    obtain answer2 b2 where attached: "attach_all W has_dir inherited (if has_dir then pin_maps b1 else b1) r0 = (answer2, b2)" by fastforce
    have sunk: "wp (start_sink W E clk (Some eng) utf8 M it order served (\<lambda>_ k. k) r k2)
        (\<lambda>(r', sink, k') s'. sink \<noteq> None \<longrightarrow> reconciled W E clk eng utf8 v b k k') s1"
      if "as_procs s1 = as_procs s" "enforcement_is_live (rp_enforcement r) \<longrightarrow> k2 = swept v k1" for r k2 s1
      by (rule sink_reconciles [OF assms(1) k1]) (use that assms(3) in simp_all)
    show ?thesis
    proof (cases answer2)
      case (Inl e)
      then show ?thesis using attached object by (simp add: load_and_attach_def Let_def wp_return k1_def [symmetric])
    next
      case (Inr r1)
      show ?thesis
        unfolding load_and_attach_def object Let_def prod.case sum.case attached Inr k1_def [symmetric] wp_bind
        by (rule wp_mono [OF sweep_starts [OF assms(1,4)]])
          (auto simp: wp_simps split: prod.splits intro!: wp_mono [OF sunk])
    qed
  qed
qed

text \<open>C10: once a daemon is up the kernel refuses what this daemon's rules refuse, whatever the last one
  left behind.  On a machine standing still, after a start that got a sink, the verdict of every
  pid is the one that was pinned, and that only if a process is still there and the engine's
  rules are not known to let it through; every other inherited entry is gone.  Of the old Fast
  Allow, as far as its maps are there and take the writes: the deadline is zero, the mark is
  disarmed, and each grant is gone that the walk yields and whose removal is served; nothing is
  granted anew.\<close>

theorem startup_reconciles_the_kernel:
  assumes "\<forall>t. mc_view M t = v" "length (k_verdicts k) \<le> VERDICTS_MAX" "\<not> pt_live (as_procs s)" "lw_verdicts W = Some True"
    and "run_state (start_ebpf W E clk (Some eng) utf8 M it order served (\<lambda>_ k. k) cfg b k) s = (((r, Some at), b', k'), s')"
    and "at_sink at \<noteq> None"
  shows "map_of (k_verdicts k') p =
      (if v_proc v p \<and> \<not> doomed_now E clk eng utf8 v p then kept_verdict W b k p else None) \<and>
    (lm_until (lw_legacy W) \<longrightarrow> k_fast_until k' = 0) \<and>
    (lm_mark (lw_legacy W) \<longrightarrow> k_fast_mark k' = 0) \<and>
    (map_of (k_fast_allow k') p \<noteq> None \<longrightarrow> map_of (k_fast_allow k) p \<noteq> None \<and>
       \<not> (lm_grants (lw_legacy W) \<and> lm_yields (lw_legacy W) p \<and> lm_removes (lw_legacy W) p))"
proof -
  have "wp (start_ebpf W E clk (Some eng) utf8 M it order served (\<lambda>_ k. k) cfg b k)
      (\<lambda>((r, a), b', k') s'. case a of None \<Rightarrow> True | Some at \<Rightarrow> at_sink at \<noteq> None \<longrightarrow> reconciled W E clk eng utf8 v b k k') s"
    by (cases "ebpf_object_path cfg")
      (auto simp: start_ebpf_def wp_simps Let_def intro!: wp_mono [OF loaded_kernel [OF assms(1-4)]] split: sum.splits)
  from wp_run [OF assms(5) this] assms(6) show ?thesis by (simp add: reconciled_def disarmed_by_def)
qed

section \<open>The report is true\<close>

lemma enforcement_kept [simp]:
  "rp_enforcement (noted n r) = rp_enforcement r" "rp_lifecycle (noted n r) = rp_lifecycle r"
  "rp_exec (noted n r) = rp_exec r" "rp_exit (noted n r) = rp_exit r" "rp_dns (noted n r) = rp_dns r"
  "rp_enforcement (first_degrade d r) = rp_enforcement r" "rp_lifecycle (first_degrade d r) = rp_lifecycle r"
  by (simp_all add: noted_def first_degrade_def split: option.split)

lemma insns_kept [simp]:
  "rp_lifecycle (note_insns W ps r) = rp_lifecycle r" "rp_exec (note_insns W ps r) = rp_exec r"
  "rp_exit (note_insns W ps r) = rp_exit r" "rp_dns (note_insns W ps r) = rp_dns r"
proof (induction ps arbitrary: r)
  case (Cons p ps)
  { case 1 then show ?case using Cons.IH(1) by (simp add: note_insns_def split: option.split) }
  { case 2 then show ?case using Cons.IH(2) by (simp add: note_insns_def split: option.split) }
  { case 3 then show ?case using Cons.IH(3) by (simp add: note_insns_def split: option.split) }
  { case 4 then show ?case using Cons.IH(4) by (simp add: note_insns_def split: option.split) }
qed (simp_all add: note_insns_def)

lemma record_kept: "record_attach p w answer r = (ok, r') \<Longrightarrow> rp_lifecycle r' = rp_lifecycle r"
  by (auto simp: record_attach_def split: sum.splits option.splits)

lemma tracepoint_pins:
  assumes "attach_tracepoint W name pin b = (answer, pinned, b')"
  shows "set (bf_pins b') = set (bf_pins b) \<union> (if pinned then {the pin} else {})" "pinned \<Longrightarrow> pin \<noteq> None"
  using assms by (auto simp: attach_tracepoint_def split: tracepoint.splits option.splits if_splits)

lemma dropped_pins: "drop_stale_link_pin W name b = (Inr u, b') \<Longrightarrow> set (bf_pins b') = set (bf_pins b) - {name}"
  by (auto simp: drop_stale_link_pin_def remove_pin_def split: if_splits)

lemma connect_attached:
  assumes "attach_connect W has_dir inherited b r = (b', r')" "inherited \<longrightarrow> already_attached b"
    and "lw_removes W ''connect4''" "lw_removes W ''connect6''"
  shows "survives_daemon (rp_enforcement r') \<longrightarrow> already_attached b'" "other_pins b' = other_pins b" "rp_lifecycle r' = rp_lifecycle r"
proof -
  have inh: "b' = b" "already_attached b" if "inherited" using assms(1,2) that by (simp_all add: attach_connect_def)
  obtain answer b1 where run: "attach (lw_cgroup W) (lw_reaches W) (lw_removes W) has_dir b = (answer, b1)" by fastforce
  have fresh: "b' = b1" "rp_enforcement r' = (if isl answer then Unavailable else if has_dir then Pinned else Process)" if "\<not> inherited"
    using assms(1) run that by (auto simp: attach_connect_def split: sum.splits)
  show "survives_daemon (rp_enforcement r') \<longrightarrow> already_attached b'"
  proof (cases "inherited \<or> \<not> has_dir \<or> isl answer")
    case True
    then show ?thesis using inh fresh by (cases inherited) (auto simp: survives_daemon_def split: if_splits)
  next
    case False
    then have "attach True (lw_reaches W) (lw_removes W) True b = (answer, b1)"
      using run by (cases "lw_cgroup W") (auto simp: attach_def)
    from attach_pairs [OF assms(3,4) this] False fresh show ?thesis by simp
  qed
  show "other_pins b' = other_pins b"
    using inh fresh attach_other_pins [OF run] by (cases inherited) auto
  show "rp_lifecycle r' = rp_lifecycle r"
    using assms(1) by (auto simp: attach_connect_def split: sum.splits prod.splits if_splits)
qed

lemma all_attached:
  assumes "attach_all W has_dir inherited b r = (Inr r', b')" "inherited \<longrightarrow> has_dir \<and> already_attached b"
    and "lw_removes W ''connect4''" "lw_removes W ''connect6''"
  shows "(survives_daemon (rp_enforcement r') \<longrightarrow> already_attached b') \<and>
    (rp_lifecycle r' \<longrightarrow> LINK_EXEC \<in> set (bf_pins b') \<and> LINK_EXIT \<in> set (bf_pins b'))"
proof -
  let ?drop = "\<lambda>name b. if has_dir then drop_stale_link_pin W name b else (Inr (), b)"
  have links: "LINK_EXEC \<noteq> ''connect4''" "LINK_EXEC \<noteq> ''connect6''" "LINK_EXIT \<noteq> ''connect4''" "LINK_EXIT \<noteq> ''connect6''"
    by (simp_all add: LINK_EXEC_def LINK_EXIT_def)
  obtain u1 b1 where d1: "?drop LINK_EXEC b = (Inr u1, b1)"
    using assms(1) by (cases "?drop LINK_EXEC b") (auto simp: attach_all_def split: sum.splits)
  obtain u2 b2 where d2: "?drop LINK_EXIT b1 = (Inr u2, b2)"
    using assms(1) d1 by (cases "?drop LINK_EXIT b1") (auto simp: attach_all_def split: sum.splits)
  obtain a1 exec_pinned b3 where t1: "attach_tracepoint W PROG_EXEC (if has_dir then Some LINK_EXEC else None) b2 = (a1, exec_pinned, b3)"
    using prod_cases3 by blast
  obtain ok1 r1 where rec1: "record_attach PROG_EXEC ''sched_process_exec'' a1 r = (ok1, r1)" by fastforce
  obtain a2 exit_pinned b4 where t2: "attach_tracepoint W PROG_EXIT (if has_dir then Some LINK_EXIT else None) b3 = (a2, exit_pinned, b4)"
    using prod_cases3 by blast
  obtain ok2 r2 where rec2: "record_attach PROG_EXIT ''sched_process_exit'' a2 (r1\<lparr>rp_exec := ok1\<rparr>) = (ok2, r2)" by fastforce
  obtain ok3 r3 where rec3: "record_attach PROG_DNS ''cgroup_skb/ingress'' (attach_dns W)
      (r2\<lparr>rp_exit := ok2, rp_lifecycle := exec_pinned \<and> exit_pinned\<rparr>) = (ok3, r3)" by fastforce
  have connect: "attach_connect W has_dir inherited b4 (r3\<lparr>rp_dns := ok3\<rparr>) = (b', r')"
    using assms(1) d1 d2 t1 rec1 t2 rec2 rec3 by (simp add: attach_all_def Let_def split: prod.splits)
  have "''connect4'' \<in> set (bf_pins b4) \<and> ''connect6'' \<in> set (bf_pins b4)" if "already_attached b"
  proof -
    have "x \<in> set (bf_pins b2)" if "x \<in> set (bf_pins b)" "x = ''connect4'' \<or> x = ''connect6''" for x
      using that d1 d2 dropped_pins links by (auto split: if_splits)
    then show ?thesis
      using \<open>already_attached b\<close> tracepoint_pins(1) [OF t1] tracepoint_pins(1) [OF t2] by (auto simp: already_attached_def)
  qed
  then have inh: "inherited \<longrightarrow> already_attached b4" using assms(2) by (simp add: already_attached_def)
  note attached = connect_attached [OF connect inh assms(3,4)]
  have "rp_lifecycle r' = (exec_pinned \<and> exit_pinned)"
    using attached(3) record_kept [OF rec3] by simp
  moreover have "LINK_EXEC \<in> other_pins b4 \<and> LINK_EXIT \<in> other_pins b4" if "exec_pinned" "exit_pinned"
    using that links tracepoint_pins [OF t1] tracepoint_pins [OF t2] by (auto simp: other_pins_def split: if_splits)
  ultimately show ?thesis using attached(1,2) by (auto simp: other_pins_def)
qed

lemma sock_pids_kept [simp]:
  "rp_enforcement (note_sock_pids W i p r) = rp_enforcement r" "rp_lifecycle (note_sock_pids W i p r) = rp_lifecycle r"
  by (simp_all add: note_sock_pids_def Let_def)

lemma counters_kept [simp]:
  "rp_enforcement (note_counters W k r) = rp_enforcement r" "rp_lifecycle (note_counters W k r) = rp_lifecycle r"
  by (simp_all add: note_counters_def Let_def)

lemma sweep_kept:
  "wp (startup_sweep W M r k) (\<lambda>(r', k') s'. rp_enforcement r' = rp_enforcement r \<and> rp_lifecycle r' = rp_lifecycle r) s"
  by (auto simp: startup_sweep_def wp_def split: prod.splits option.splits bool.splits)

lemma sink_kept:
  "wp (start_sink W E clk engine utf8 M it order served others r k)
     (\<lambda>(r', sink, k') s'. rp_enforcement r' = rp_enforcement r \<and> rp_lifecycle r' = rp_lifecycle r) s"
  by (auto simp: start_sink_def wp_def split: prod.splits option.splits bool.splits)

lemma consumers_run:
  assumes "start_consumers W r = (tasks, r')"
  shows "rp_enforcement r' = rp_enforcement r" "rp_lifecycle r' = rp_lifecycle r"
    and "rp_exec r' \<longrightarrow> rp_exit r' \<and> {MAP_EXEC, MAP_EXIT, ''recheck''} \<subseteq> set tasks"
    and "rp_dns r' \<longrightarrow> MAP_DNS \<in> set tasks"
  using assms by (auto simp: start_consumers_def Let_def split: if_splits)

text \<open>What a report says of what runs and of what is pinned.\<close>

definition report_true :: "report \<Rightarrow> string list \<Rightarrow> bpffs \<Rightarrow> bool" where
  "report_true r tasks b \<longleftrightarrow>
     (rp_exec r \<longrightarrow> rp_exit r \<and> {MAP_EXEC, MAP_EXIT, ''recheck''} \<subseteq> set tasks) \<and>
     (rp_dns r \<longrightarrow> MAP_DNS \<in> set tasks) \<and>
     (survives_daemon (rp_enforcement r) \<longrightarrow> already_attached b) \<and>
     (rp_lifecycle r \<longrightarrow> LINK_EXEC \<in> set (bf_pins b) \<and> LINK_EXIT \<in> set (bf_pins b))"

lemma pinned_attached: "already_attached b \<Longrightarrow> already_attached (pin_maps b)"
proof -
  have "set (fold List.insert names pins) = set names \<union> set pins" for names pins :: "string list"
    by (induction names arbitrary: pins) auto
  then show "already_attached b \<Longrightarrow> already_attached (pin_maps b)" by (simp add: already_attached_def pin_maps_def)
qed

lemma loaded_report:
  assumes "lw_removes W ''connect4''" "lw_removes W ''connect6''"
  shows "wp (load_and_attach W E clk engine utf8 M it order served others path t b k)
    (\<lambda>(answer, b', k') s'. case answer of Inl e \<Rightarrow> True | Inr (at, r) \<Rightarrow> report_true r (at_tasks at) b') s"
proof (cases "load_object W path t b")
  case (Pair answer b1)
  show ?thesis
  proof (cases answer)
    case (Inl e)
    then show ?thesis using Pair by (simp add: load_and_attach_def wp_return)
  next
    case (Inr loaded)
    obtain has_dir inherited was_pinned G r0 where loaded: "loaded = (has_dir, inherited, was_pinned, G, r0)" by (cases loaded) auto
    have object: "load_object W path t b = (Inr (has_dir, inherited, was_pinned, G, r0), b1)" using Pair Inr loaded by simp
    let ?b = "if has_dir then pin_maps b1 else b1"
    have inh: "inherited \<longrightarrow> has_dir \<and> already_attached ?b"
      using loaded_maps(3) [OF object] pinned_attached by auto
    obtain answer2 b2 where attached: "attach_all W has_dir inherited ?b r0 = (answer2, b2)" by fastforce
    show ?thesis
    proof (cases answer2)
      case (Inl e)
      then show ?thesis using attached object by (simp add: load_and_attach_def Let_def wp_return)
    next
      case (Inr r1)
      note pins = all_attached [OF attached [unfolded Inr] inh assms]
      have told: "report_true r' tasks b2" if "start_consumers W r = (tasks, r')" "rp_enforcement r = rp_enforcement r1" "rp_lifecycle r = rp_lifecycle r1"
        for r r' tasks
        using consumers_run [OF that(1)] that(2,3) pins by (simp add: report_true_def)
      show ?thesis
        unfolding load_and_attach_def object Let_def prod.case sum.case attached Inr wp_bind
        by (rule wp_mono [OF sweep_kept]) (auto simp: wp_simps split: prod.splits intro!: wp_mono [OF sink_kept] told)
    qed
  qed
qed

text \<open>C11: the report is what runs.  After a start that brings the layer up, kernel process records are
  claimed only while the exit stream is consumed and rechecked too, and only then does the
  process table answer from them; observed DNS answers are claimed only with their consumer; an
  enforcement said to survive the daemon has both connect programs pinned, and a lifecycle said
  to survive it has both tracepoints pinned.\<close>

theorem report_is_what_runs:
  assumes "lw_removes W ''connect4''" "lw_removes W ''connect6''"
    and "run_state (start_ebpf W E clk engine utf8 M it order served others cfg b k) s = (((r, Some at), b', k'), s')"
  shows "report_true r (at_tasks at) b' \<and> pt_live (as_procs s') = rp_exec r \<and> rp_mode r = ebpf_enabled cfg"
proof -
  have moded: "report_true (r\<lparr>rp_mode := m\<rparr>) tasks b = report_true r tasks b" for r m tasks b by (simp add: report_true_def)
  have "wp (start_ebpf W E clk engine utf8 M it order served others cfg b k)
      (\<lambda>((r, a), b', k') s'. case a of None \<Rightarrow> True
       | Some at \<Rightarrow> report_true r (at_tasks at) b' \<and> pt_live (as_procs s') = rp_exec r \<and> rp_mode r = ebpf_enabled cfg) s"
    by (cases "ebpf_object_path cfg")
      (auto simp: start_ebpf_def wp_simps Let_def set_live_def moded intro!: wp_mono [OF loaded_report [OF assms(1,2)]] split: sum.splits)
  from wp_run [OF assms(3) this] show ?thesis by simp
qed

section \<open>Examples\<close>

definition root_owned :: "bool \<Rightarrow> file_meta" where
  "root_owned file = \<lparr>fm_is_file = file, fm_is_dir = \<not> file, fm_uid = 0, fm_mode = 0x1A4, fm_dev = 1, fm_ino = 1, fm_len = 1,
     fm_mtime = 0, fm_mtime_nsec = 0, fm_ctime = 0, fm_ctime_nsec = 0, fm_nlink = 1\<rparr>"

definition example_world :: world where
  "example_world =
     \<lparr>lw_real = Inr, lw_meta = (\<lambda>p. Inr (root_owned (p = path_components DEFAULT_OBJECT_PATH))), lw_read = (\<lambda>_. None), lw_btf = None,
      lw_tracefs = \<lparr>tf_present = (\<lambda>_. False), tf_text = (\<lambda>_. None)\<rparr>, lw_kernel_btf = True, lw_load = None,
      lw_creates = (\<lambda>_. True), lw_listed = True, lw_removes = (\<lambda>_. True), lw_cgroup = True, lw_reaches = (\<lambda>_. Attached),
      lw_connect_err = (\<lambda>_. []), lw_tracepoint = (\<lambda>_. TracepointAttaches True None), lw_dns = None, lw_insns = (\<lambda>_. None),
      lw_sock_pids = Some True, lw_stats_readable = True, lw_cpus = [], lw_verdicts = Some True, lw_sink = Some (True, True),
      lw_ring = (\<lambda>_. True),
      lw_legacy = \<lparr>lm_until = True, lm_mark = True, lm_grants = True, lm_yields = (\<lambda>_. True), lm_removes = (\<lambda>_. True)\<rparr>\<rparr>"

definition example_bpffs :: bpffs where
  "example_bpffs = \<lparr>bf_mounted = Some True, bf_versions = [], bf_pins = [''connect4'', ''connect6'', MAP_VERDICTS], bf_held = []\<rparr>"

definition example_ebpf :: ebpf_config where
  "example_ebpf = \<lparr>ebpf_enabled = EbpfAuto, ebpf_object_path = None, ebpf_fast_allow = False, ebpf_fast_allow_mark = None\<rparr>"

lemma example_vetted: "vet_object example_world DEFAULT_OBJECT_PATH = Inr DEFAULT_OBJECT_PATH"
proof -
  have "take n p \<noteq> p" if "n < length p" for n and p :: "path_component list"
    using that by (metis length_take min.absorb2 nat_less_le)
  then show ?thesis
    unfolding vetted by (auto simp: example_world_def sealed_file_def sealed_above_def root_owned_def file_is_sealed_def dir_is_sealed_def)
qed

lemma example_loads:
  "\<exists>G r b. load_object example_world DEFAULT_OBJECT_PATH Refuse example_bpffs = (Inr (True, True, False, G, r), b) \<and>
    bf_pins b = [''connect4'', ''connect6'', MAP_VERDICTS]"
proof -
  have pins: "note_pins example_world example_bpffs r =
      (True, \<lparr>bf_mounted = Some True, bf_versions = [version_dir], bf_pins = [''connect4'', ''connect6'', MAP_VERDICTS], bf_held = []\<rparr>, r)" for r
    by (simp add: note_pins_def prepare_def example_world_def example_bpffs_def unpin_other_versions_def remove_legacy_pins_def
        remove_pin_def Let_def LINK_SENDMSG4_def LINK_SENDMSG6_def LEGACY_COOKIE_MARKER_def MAP_VERDICTS_def List.insert_def)
  have "lw_read example_world DEFAULT_OBJECT_PATH = None" "lw_load example_world = None" by (simp_all add: example_world_def)
  then show ?thesis
    by (simp add: load_object_def choose_object_def read_object_def example_vetted pins Let_def already_attached_def
        MAP_SOCK_PIDS_def MAP_VERDICTS_def split: prod.split)
qed

lemma example_attaches:
  assumes "bf_pins b = [''connect4'', ''connect6'', MAP_VERDICTS]"
  shows "\<exists>r' b'. attach_all example_world True True (pin_maps b) r = (Inr r', b') \<and> rp_enforcement r' = Inherited"
proof -
  have links: "LINK_EXEC \<notin> set (bf_pins (pin_maps b))" "LINK_EXIT \<notin> set (bf_pins (pin_maps b))"
    using assms by (simp_all add: pin_maps_def pinned_map_names_def MAP_VERDICTS_def MAP_STATS_def MAP_DENY_EVENTS_def MAP_EXE_RULES_def
        MAP_EXE_RULES_ON_def MAP_SOCK_PIDS_def MAP_FAST_ALLOW_def MAP_FAST_ALLOW_UNTIL_def MAP_FAST_ALLOW_MARK_def MAP_ALLOW_EVENTS_def
        LINK_EXEC_def LINK_EXIT_def List.insert_def)
  have "attach_connect example_world True True b r = (b, (noted AlreadyAttached r)\<lparr>rp_enforcement := Inherited\<rparr>)" for b r
    by (simp add: attach_connect_def)
  with links show ?thesis
    by (simp add: attach_all_def drop_stale_link_pin_def attach_tracepoint_def record_attach_def attach_dns_def Let_def)
      (simp add: example_world_def)
qed

lemma wp_any: "wp m (\<lambda>_ _. True) s"
  by (simp add: wp_def split: prod.split)

lemma example_comes_up:
  "\<exists>r at b' k' s'. run_state (start_ebpf example_world E clk (Some eng) texts M it order served others example_ebpf example_bpffs k) s =
     (((r, Some at), b', k'), s') \<and> at_sink at \<noteq> None"
proof -
  obtain G r b where load: "load_object example_world DEFAULT_OBJECT_PATH Refuse example_bpffs = (Inr (True, True, False, G, r), b)"
    and pins: "bf_pins b = [''connect4'', ''connect6'', MAP_VERDICTS]" using example_loads by blast
  obtain r' b' where attached: "attach_all example_world True True (pin_maps b) r = (Inr r', b')" and live: "rp_enforcement r' = Inherited"
    using example_attaches [OF pins] by blast
  have world: "lw_verdicts example_world = Some True" "lw_sink example_world = Some (True, True)" by (simp_all add: example_world_def)
  have sweeps: "wp (startup_sweep example_world M r k) (\<lambda>(r', k') s'. r' = r) s" for r k s
    by (auto simp: startup_sweep_def world wp_def split: prod.splits)
  have sinks: "enforcement_is_live (rp_enforcement r) \<Longrightarrow>
      wp (start_sink example_world E clk (Some eng) texts M it order served others r k) (\<lambda>(r', sink, k') s'. sink \<noteq> None) s" for r k s
    by (auto simp: start_sink_def world wp_def split: prod.splits)
  have "wp (start_ebpf example_world E clk (Some eng) texts M it order served others example_ebpf example_bpffs k)
      (\<lambda>((r, a), b', k') s'. \<exists>at. a = Some at \<and> at_sink at \<noteq> None) s"
    unfolding start_ebpf_def load_and_attach_def Let_def
    by (simp add: example_ebpf_def wants_load_def load attached wp_simps Let_def,
        rule wp_mono [OF sweeps], auto simp: wp_simps live enforcement_is_live_def intro!: wp_mono [OF sinks] split: prod.splits)
  then show ?thesis by (auto simp: wp_def split: prod.splits)
qed

theorem unasked_objects_are_sealed_witness:
  "\<exists>real. lw_real example_world DEFAULT_OBJECT_PATH = Inr real \<and> sealed_file example_world (path_components real)"
proof -
  obtain r at b' k' s' where run: "run_state (start_ebpf example_world example_ext 0 (Some (engine_with [])) (\<lambda>_. True) example_machine (\<lambda>m. m)
      (\<lambda>m. m) (\<lambda>_. True) (\<lambda>_ k. k) example_ebpf example_bpffs example_kernel) new_attr_state = (((r, Some at), b', k'), s')"
    using example_comes_up [where others = "\<lambda>_ k. k" and texts = "\<lambda>_. True" and it = "\<lambda>m. m" and order = "\<lambda>m. m" and served = "\<lambda>_. True"] by blast
  have "ebpf_object_path example_ebpf = None" by (simp add: example_ebpf_def)
  from unasked_objects_are_sealed [OF run this] show ?thesis by blast
qed

theorem report_is_what_runs_witness:
  "\<exists>r at b' k' s'. run_state (start_ebpf example_world example_ext 0 (Some (engine_with [])) (\<lambda>_. True) example_machine (\<lambda>m. m)
      (\<lambda>m. m) (\<lambda>_. True) (\<lambda>_ k. k) example_ebpf example_bpffs example_kernel) new_attr_state = (((r, Some at), b', k'), s') \<and>
    report_true r (at_tasks at) b' \<and> pt_live (as_procs s') = rp_exec r"
proof -
  obtain r at b' k' s' where run: "run_state (start_ebpf example_world example_ext 0 (Some (engine_with [])) (\<lambda>_. True) example_machine (\<lambda>m. m)
      (\<lambda>m. m) (\<lambda>_. True) (\<lambda>_ k. k) example_ebpf example_bpffs example_kernel) new_attr_state = (((r, Some at), b', k'), s')"
    using example_comes_up [where others = "\<lambda>_ k. k" and texts = "\<lambda>_. True" and it = "\<lambda>m. m" and order = "\<lambda>m. m" and served = "\<lambda>_. True"] by blast
  have "lw_removes example_world ''connect4''" "lw_removes example_world ''connect6''" by (simp_all add: example_world_def)
  from report_is_what_runs [OF this run] run show ?thesis by blast
qed

text \<open>Of two inherited refusals, that of process 9, which is gone, does not stay; nor do the grants.\<close>

theorem startup_reconciles_the_kernel_witness:
  "\<exists>r at b' k' s'. run_state (start_ebpf example_world example_ext 0 (Some (engine_with [deny_rule 1 ''/a''])) (\<lambda>_. True) example_machine (\<lambda>m. m)
      (\<lambda>m. m) (\<lambda>_. True) (\<lambda>_ k. k) example_ebpf example_bpffs (example_verdicts [(7, DENY), (9, DENY)])) new_attr_state =
        (((r, Some at), b', k'), s') \<and>
    map_of (k_verdicts k') 7 = Some DENY \<and> map_of (k_verdicts k') 9 = None \<and>
    map_of (k_fast_allow (example_verdicts [(7, DENY), (9, DENY)])) 9 \<noteq> None \<and> map_of (k_fast_allow k') 9 = None \<and> k_fast_mark k' = 0"
proof -
  let ?eng = "engine_with [deny_rule 1 ''/a'']" and ?k = "example_verdicts [(7, DENY), (9, DENY)]"
  obtain r at b' k' s' where run: "run_state (start_ebpf example_world example_ext 0 (Some ?eng) (\<lambda>_. True) example_machine (\<lambda>m. m)
      (\<lambda>m. m) (\<lambda>_. True) (\<lambda>_ k. k) example_ebpf example_bpffs ?k) new_attr_state = (((r, Some at), b', k'), s')" and sink: "at_sink at \<noteq> None"
    using example_comes_up [where others = "\<lambda>_ k. k" and texts = "\<lambda>_. True" and it = "\<lambda>m. m" and order = "\<lambda>m. m" and served = "\<lambda>_. True"] by blast
  have still: "\<forall>t. mc_view example_machine t = example_view" by (simp add: example_machine_def)
  have room: "length (k_verdicts ?k) \<le> VERDICTS_MAX" by (simp add: example_verdicts_def VERDICTS_MAX_def)
  have fresh: "\<not> pt_live (as_procs new_attr_state)" by (simp add: new_attr_state_def new_table_def)
  have verdicts: "lw_verdicts example_world = Some True" by (simp add: example_world_def)
  note settled = startup_reconciles_the_kernel [OF still room fresh verdicts run sink]
  have kept: "kept_verdict example_world example_bpffs ?k 7 = Some DENY"
    by (simp add: kept_verdict_def prepare_def example_world_def example_bpffs_def example_verdicts_def Let_def)
  have start: "start_at example_view 7 = Some 4711"
    by (simp add: start_at_def example_view_def example_start del: example_stat_def)
  have view: "still_view (\<lambda>_. True) example_view 7 = Some (viewed_process 7 ''/a'' None, Some 4711)"
    using start by (simp add: still_view_def) (simp add: example_view_def example_meta_def policy_exe_path_def)
  have "denies_process_wide example_ext 0 ?eng (viewed_process 7 ''/a'' None)"
    by (rule example_denied) (simp_all add: UNKNOWN_EXE_def viewed_process_def)
  then have "map_of (k_verdicts k') 7 = Some DENY"
    using settled [of 7] kept by (simp add: doomed_now_def view)
  moreover have "map_of (k_verdicts k') 9 = None"
    using settled [of 9] by (simp add: example_view_def)
  moreover have "k_fast_mark k' = 0" "map_of (k_fast_allow k') 9 = None"
    using settled [of 9] by (auto simp: example_world_def)
  moreover have "map_of (k_fast_allow ?k) 9 \<noteq> None" by (simp add: example_verdicts_def example_kernel_def)
  ultimately show ?thesis using run by blast
qed

end
