(* ===== verification/Seccomp.thy ===== *)
theory Seccomp
  imports Prelude
begin

text \<open>
  The system call policy of a confined application, \<open>crates/cfc/src/confinement/filter.rs\<close>: the
  program in classic BPF, the file it is handed over in, and the interpreter its tests run it
  with.  System call numbers are those of the build's \<open>libc\<close>, a function from names; the bits of
  flags and options are constants of the Linux interface.
\<close>

unbundle bit_operations_syntax

section \<open>The program\<close>

record sock_filter =
  sf_code :: u16
  sf_jt :: u8
  sf_jf :: u8
  sf_k :: u32

definition ALLOW_CALL :: u32 where "ALLOW_CALL = 0x7fff0000"
definition KILL_CALL :: u32 where "KILL_CALL = 0x80000000"
definition ENOSYS_CALL :: u32 where "ENOSYS_CALL = 0x00050000 OR 38"
definition DENY_CALL :: u32 where "DENY_CALL = 0x00050000 OR 1"
definition NATIVE_ARCH :: u32 where "NATIVE_ARCH = 0xc000003e"
definition X32_BIT :: u32 where "X32_BIT = 0x40000000"

definition statement :: "u16 \<Rightarrow> u32 \<Rightarrow> sock_filter" where
  "statement code k = \<lparr>sf_code = code, sf_jt = 0, sf_jf = 0, sf_k = k\<rparr>"

definition jump :: "u16 \<Rightarrow> u32 \<Rightarrow> u8 \<Rightarrow> u8 \<Rightarrow> sock_filter" where
  "jump code k jt jf = \<lparr>sf_code = code, sf_jt = jt, sf_jf = jf, sf_k = k\<rparr>"

text \<open>\<open>u8::try_from(body.len()).expect(..)\<close> panics on a body a jump cannot skip.\<close>

definition conditional :: "sock_filter list \<Rightarrow> u32 \<Rightarrow> sock_filter list \<Rightarrow> sock_filter list run" where
  "conditional program nr body =
     (if length body < 256 then Ret (program @ [jump 0x15 nr 0 (of_nat (length body))] @ body) else Panic)"

definition argument_options :: "u32 \<Rightarrow> u32 list \<Rightarrow> sock_filter list" where
  "argument_options index options =
     [statement 0x20 (16 + 8 * index)] @
     concat (map (\<lambda>option. [jump 0x15 option 0 1, statement 0x06 ALLOW_CALL]) options) @
     [statement 0x06 DENY_CALL]"

definition AF_INET :: u32 where "AF_INET = 2"
definition AF_INET6 :: u32 where "AF_INET6 = 10"
definition SOCK_STREAM :: u32 where "SOCK_STREAM = 1"
definition SOCK_DGRAM :: u32 where "SOCK_DGRAM = 2"
definition SOCK_FLAGS :: u32 where "SOCK_FLAGS = 0x80000 OR 0x800"
definition SOCKET_TCP :: u32 where "SOCKET_TCP = 6"
definition SOCKET_UDP :: u32 where "SOCKET_UDP = 17"

definition socket_policy :: "sock_filter list" where
  "socket_policy =
     [statement 0x20 16,
      jump 0x15 AF_INET 2 0,
      jump 0x15 AF_INET6 1 0,
      statement 0x06 DENY_CALL,
      statement 0x20 24,
      statement 0x54 (NOT SOCK_FLAGS),
      jump 0x15 SOCK_STREAM 0 5,
      statement 0x20 32,
      jump 0x15 0 2 0,
      jump 0x15 SOCKET_TCP 1 0,
      statement 0x06 DENY_CALL,
      statement 0x06 ALLOW_CALL,
      jump 0x15 SOCK_DGRAM 0 5,
      statement 0x20 32,
      jump 0x15 0 2 0,
      jump 0x15 SOCKET_UDP 1 0,
      statement 0x06 DENY_CALL,
      statement 0x06 ALLOW_CALL,
      statement 0x06 DENY_CALL]"

text \<open>In the order of the code: address space, file system, descriptors, signal handlers, thread, semaphore
  undo, thread storage, the three thread identifiers, vfork, exit signal.\<close>

definition ORDINARY_FLAGS :: u32 where
  "ORDINARY_FLAGS =
     0x100 OR 0x200 OR 0x400 OR 0x800 OR 0x10000 OR 0x40000 OR 0x80000 OR 0x100000 OR 0x200000 OR 0x1000000 OR 0x4000 OR 0x7f"

definition clone_policy :: "sock_filter list" where
  "clone_policy =
     [statement 0x20 20,
      jump 0x15 0 1 0,
      statement 0x06 DENY_CALL,
      statement 0x20 16,
      jump 0x45 (NOT ORDINARY_FLAGS) 0 1,
      statement 0x06 DENY_CALL,
      statement 0x06 ALLOW_CALL]"

definition prctl_options :: "u32 list" where "prctl_options = [15, 16, 3, 39, 21, 7, 27, 2, 30, 42]"
definition ioctl_options :: "u32 list" where "ioctl_options = [0x541B, 0x5421]"
definition arch_prctl_options :: "u32 list" where "arch_prctl_options = [0x1001, 0x1002, 0x1003, 0x1004]"

definition ALLOWED_CALLS :: "string list" where
  "ALLOWED_CALLS =
     [''read'', ''write'', ''readv'', ''writev'', ''pread64'', ''pwrite64'', ''preadv'', ''pwritev'', ''preadv2'',
      ''pwritev2'', ''lseek'', ''open'', ''openat'', ''openat2'', ''close'', ''close_range'', ''dup'', ''dup2'',
      ''dup3'', ''fcntl'', ''stat'', ''lstat'', ''fstat'', ''newfstatat'', ''statx'', ''statfs'', ''fstatfs'',
      ''getdents'', ''getdents64'', ''access'', ''faccessat'', ''faccessat2'', ''readlink'', ''readlinkat'',
      ''chdir'', ''fchdir'', ''getcwd'', ''mkdir'', ''mkdirat'', ''rmdir'', ''unlink'', ''unlinkat'', ''rename'',
      ''renameat'', ''renameat2'', ''link'', ''linkat'', ''symlink'', ''symlinkat'', ''chmod'', ''fchmod'',
      ''fchmodat'', ''fchmodat2'', ''chown'', ''fchown'', ''lchown'', ''fchownat'', ''umask'', ''truncate'',
      ''ftruncate'', ''fallocate'', ''fadvise64'', ''fsync'', ''fdatasync'', ''utime'', ''utimes'', ''futimesat'',
      ''utimensat'', ''getxattr'', ''lgetxattr'', ''fgetxattr'', ''listxattr'', ''llistxattr'', ''flistxattr'',
      ''setxattr'', ''lsetxattr'', ''fsetxattr'', ''removexattr'', ''lremovexattr'', ''fremovexattr'',
      ''memfd_create'', ''sendfile'', ''splice'', ''tee'', ''vmsplice'', ''mmap'', ''mprotect'', ''munmap'', ''brk'',
      ''mremap'', ''msync'', ''mincore'', ''madvise'', ''pkey_mprotect'', ''pkey_alloc'', ''pkey_free'', ''mlock'',
      ''munlock'', ''mlockall'', ''munlockall'', ''mlock2'', ''futex'', ''futex_waitv'', ''rseq'',
      ''set_tid_address'', ''set_robust_list'', ''get_robust_list'', ''fork'', ''vfork'', ''execve'', ''execveat'',
      ''exit'', ''exit_group'', ''wait4'', ''waitid'', ''getpid'', ''getppid'', ''gettid'', ''getuid'', ''geteuid'',
      ''getgid'', ''getegid'', ''getresuid'', ''getresgid'', ''getgroups'', ''capget'', ''getpgrp'', ''getpgid'',
      ''setpgid'', ''getsid'', ''setsid'', ''rt_sigaction'', ''rt_sigprocmask'', ''rt_sigreturn'', ''rt_sigpending'',
      ''rt_sigtimedwait'', ''rt_sigqueueinfo'', ''rt_sigsuspend'', ''rt_tgsigqueueinfo'', ''sigaltstack'', ''kill'',
      ''tkill'', ''tgkill'', ''clock_gettime'', ''clock_getres'', ''gettimeofday'', ''time'', ''nanosleep'',
      ''clock_nanosleep'', ''alarm'', ''getitimer'', ''setitimer'', ''timer_create'', ''timer_settime'',
      ''timer_gettime'', ''timer_getoverrun'', ''timer_delete'', ''timerfd_create'', ''timerfd_settime'',
      ''timerfd_gettime'', ''getrlimit'', ''setrlimit'', ''prlimit64'', ''getrusage'', ''times'', ''getpriority'',
      ''setpriority'', ''sched_yield'', ''sched_getaffinity'', ''sched_setaffinity'', ''sched_getparam'',
      ''sched_setparam'', ''sched_getscheduler'', ''sched_setscheduler'', ''sched_get_priority_max'',
      ''sched_get_priority_min'', ''sched_rr_get_interval'', ''uname'', ''sysinfo'', ''getrandom'', ''pipe'',
      ''pipe2'', ''eventfd'', ''eventfd2'', ''signalfd'', ''signalfd4'', ''poll'', ''ppoll'', ''select'',
      ''pselect6'', ''epoll_create'', ''epoll_create1'', ''epoll_ctl'', ''epoll_wait'', ''epoll_pwait'',
      ''epoll_pwait2'', ''inotify_init'', ''inotify_init1'', ''inotify_add_watch'', ''inotify_rm_watch'', ''connect'',
      ''bind'', ''listen'', ''accept'', ''accept4'', ''getsockname'', ''getpeername'', ''shutdown'', ''sendto'',
      ''recvfrom'', ''sendmsg'', ''recvmsg'', ''sendmmsg'', ''recvmmsg'', ''getsockopt'', ''setsockopt'']"

definition filter_start :: "sock_filter list" where
  "filter_start =
     [statement 0x20 4,
      jump 0x15 NATIVE_ARCH 1 0,
      statement 0x06 KILL_CALL,
      statement 0x20 0,
      jump 0x45 X32_BIT 0 1,
      statement 0x06 KILL_CALL]"

definition filter_program :: "(string \<Rightarrow> u32) \<Rightarrow> sock_filter list run" where
  "filter_program sys =
     bind_run (conditional filter_start (sys ''socket'') socket_policy) (\<lambda>program.
     bind_run (conditional program (sys ''clone'') clone_policy) (\<lambda>program.
     bind_run (conditional program (sys ''prctl'') (argument_options 0 prctl_options)) (\<lambda>program.
     bind_run (conditional program (sys ''ioctl'') (argument_options 1 ioctl_options)) (\<lambda>program.
     bind_run (conditional program (sys ''arch_prctl'') (argument_options 0 arch_prctl_options)) (\<lambda>program.
       Ret (program @ concat (map (\<lambda>name. [jump 0x15 (sys name) 0 1, statement 0x06 ALLOW_CALL]) ALLOWED_CALLS) @
            [statement 0x06 ENOSYS_CALL]))))))"

text \<open>The bytes of the sealed file, in the byte order of the machine, and none when the program is longer than the
  kernel takes; the calls that create and seal the file are left out.\<close>

definition filter_bytes :: "sock_filter \<Rightarrow> bytes" where
  "filter_bytes i = rev (be_bytes 2 (unat (sf_code i))) @ [sf_jt i, sf_jf i] @ rev (to_be32 (sf_k i))"

definition sealed_filter :: "(string \<Rightarrow> u32) \<Rightarrow> bytes option run" where
  "sealed_filter sys =
     map_run (\<lambda>program. if length program \<le> 4096 then Some (concat (map filter_bytes program)) else None) (filter_program sys)"

section \<open>Running it\<close>

text \<open>The data a filter reads: number, architecture, instruction pointer, six arguments.\<close>

definition seccomp_data :: "u32 \<Rightarrow> u32 \<Rightarrow> u64 \<Rightarrow> (nat \<Rightarrow> u64) \<Rightarrow> bytes" where
  "seccomp_data arch nr ip args =
     rev (to_be32 nr) @ rev (to_be32 arch) @ rev (be_bytes 8 (unat ip)) @ concat (map (\<lambda>i. rev (be_bytes 8 (unat (args i)))) [0..<6])"

fun interpret_from :: "nat \<Rightarrow> sock_filter list \<Rightarrow> bytes \<Rightarrow> u32 \<Rightarrow> nat \<Rightarrow> u32 run" where
  "interpret_from 0 program data accumulator pc = Panic"
| "interpret_from (Suc n) program data accumulator pc =
     rd program pc (\<lambda>i. let pc = Suc pc in
       if sf_code i = 0x20 then
         sl data (unat (sf_k i)) (unat (sf_k i) + 4) (\<lambda>word. interpret_from n program data (from_be (rev word)) pc)
       else if sf_code i = 0x15 then
         interpret_from n program data accumulator (pc + (if accumulator = sf_k i then unat (sf_jt i) else unat (sf_jf i)))
       else if sf_code i = 0x45 then
         interpret_from n program data accumulator (pc + (if accumulator AND sf_k i \<noteq> 0 then unat (sf_jt i) else unat (sf_jf i)))
       else if sf_code i = 0x54 then interpret_from n program data (accumulator AND sf_k i) pc
       else if sf_code i = 0x06 then Ret (sf_k i)
       else Panic)"

definition interpret_filter :: "sock_filter list \<Rightarrow> bytes \<Rightarrow> u32 run" where
  "interpret_filter program data = interpret_from 4096 program data 0 0"

fun decode_filter :: "bytes \<Rightarrow> sock_filter list" where
  "decode_filter (c0 # c1 # jt # jf # k0 # k1 # k2 # k3 # rest) =
     \<lparr>sf_code = from_be [c1, c0], sf_jt = jt, sf_jf = jf, sf_k = from_be [k3, k2, k1, k0]\<rparr> # decode_filter rest"
| "decode_filter _ = []"

section \<open>The policy\<close>

text \<open>What the filter is meant to do with a call of a name and with arguments.\<close>

definition low_half :: "u64 \<Rightarrow> u32" where "low_half a = ucast a"

definition socket_ok :: "(nat \<Rightarrow> u64) \<Rightarrow> bool" where
  "socket_ok args \<longleftrightarrow>
     (let family = low_half (args 0); kind = low_half (args 1) AND NOT SOCK_FLAGS; protocol = low_half (args 2) in
      (family = AF_INET \<or> family = AF_INET6) \<and>
      (kind = SOCK_STREAM \<and> (protocol = 0 \<or> protocol = SOCKET_TCP) \<or>
       kind = SOCK_DGRAM \<and> (protocol = 0 \<or> protocol = SOCKET_UDP)))"

definition clone_ok :: "(nat \<Rightarrow> u64) \<Rightarrow> bool" where
  "clone_ok args \<longleftrightarrow> args 0 AND NOT (ucast ORDINARY_FLAGS) = 0"

definition CONDITIONAL_CALLS :: "string list" where
  "CONDITIONAL_CALLS = [''socket'', ''clone'', ''prctl'', ''ioctl'', ''arch_prctl'']"

definition call_policy :: "string \<Rightarrow> (nat \<Rightarrow> u64) \<Rightarrow> u32" where
  "call_policy name args =
     (if name = ''socket'' then if socket_ok args then ALLOW_CALL else DENY_CALL
      else if name = ''clone'' then if clone_ok args then ALLOW_CALL else DENY_CALL
      else if name = ''prctl'' then if low_half (args 0) \<in> set prctl_options then ALLOW_CALL else DENY_CALL
      else if name = ''ioctl'' then if low_half (args 1) \<in> set ioctl_options then ALLOW_CALL else DENY_CALL
      else if name = ''arch_prctl'' then if low_half (args 0) \<in> set arch_prctl_options then ALLOW_CALL else DENY_CALL
      else if name \<in> set ALLOWED_CALLS then ALLOW_CALL else ENOSYS_CALL)"

section \<open>Programs run from their front\<close>

function exec :: "bytes \<Rightarrow> sock_filter list \<Rightarrow> u32 \<Rightarrow> u32 option" where
  "exec d [] a = None"
| "exec d (i # is) a =
     (if sf_code i = 0x20 then
        case get_range d (unat (sf_k i)) (unat (sf_k i) + 4) of None \<Rightarrow> None | Some word \<Rightarrow> exec d is (from_be (rev word))
      else if sf_code i = 0x15 then exec d (drop (if a = sf_k i then unat (sf_jt i) else unat (sf_jf i)) is) a
      else if sf_code i = 0x45 then exec d (drop (if a AND sf_k i \<noteq> 0 then unat (sf_jt i) else unat (sf_jf i)) is) a
      else if sf_code i = 0x54 then exec d is (a AND sf_k i)
      else if sf_code i = 0x06 then Some (sf_k i)
      else None)"
  by pat_completeness auto
termination by (relation "measure (\<lambda>(d, is, a). length is)") auto

declare exec.simps(2) [simp del]

lemma interpret_exec:
  "exec d (drop pc program) a = Some v \<Longrightarrow> length program - pc \<le> n \<Longrightarrow> interpret_from n program d a pc = Ret v"
proof (induction n arbitrary: a pc)
  case 0
  then show ?case by simp
next
  case (Suc n)
  have pc: "pc < length program" using Suc.prems(1) by (cases "pc < length program") simp_all
  define i where "i = program ! pc"
  have front: "drop pc program = i # drop (Suc pc) program" using pc by (simp add: i_def Cons_nth_drop_Suc)
  have go: "interpret_from n program d a' (Suc pc + j) = Ret v" if "exec d (drop j (drop (Suc pc) program)) a' = Some v" for j a'
    using Suc.IH [where pc = "Suc pc + j" and a = a'] that Suc.prems(2) by (simp add: add.commute)
  have here: "interpret_from n program d a' (Suc pc) = Ret v" if "exec d (drop (Suc pc) program) a' = Some v" for a'
    using go [of 0] that by simp
  have run: "exec d (i # drop (Suc pc) program) a = Some v" using Suc.prems(1) front by simp
  have at: "rd program pc f = f i" for f :: "sock_filter \<Rightarrow> u32 run" using pc by (simp add: rd_def i_def)
  consider (ld) "sf_code i = 0x20" | (jeq) "sf_code i = 0x15" | (jset) "sf_code i = 0x45" | (alu) "sf_code i = 0x54" | (ret) "sf_code i = 0x06"
    using run by (auto simp: exec.simps(2) split: if_splits)
  then show ?case
  proof cases
    case ld
    then show ?thesis using run here unfolding interpret_from.simps at Let_def
      by (auto simp: exec.simps(2) sl_def get_range_def split: if_splits)
  next
    case jeq
    then show ?thesis using run go unfolding interpret_from.simps at Let_def by (simp add: exec.simps(2))
  next
    case jset
    then show ?thesis using run go unfolding interpret_from.simps at Let_def by (simp add: exec.simps(2))
  next
    case alu
    then show ?thesis using run here unfolding interpret_from.simps at Let_def by (simp add: exec.simps(2))
  next
    case ret
    then show ?thesis using run unfolding interpret_from.simps at Let_def by (simp add: exec.simps(2))
  qed
qed

lemma exec_load: "exec d (statement 0x20 k # is) a =
    (case get_range d (unat k) (unat k + 4) of None \<Rightarrow> None | Some word \<Rightarrow> exec d is (from_be (rev word)))"
  by (simp add: exec.simps(2) statement_def)

lemma exec_and [simp]: "exec d (statement 0x54 k # is) a = exec d is (a AND k)"
  by (simp add: exec.simps(2) statement_def)

lemma exec_return [simp]: "exec d (statement 0x06 k # is) a = Some k"
  by (simp add: exec.simps(2) statement_def)

lemma exec_jeq [simp]: "exec d (jump 0x15 k jt jf # is) a = exec d (drop (if a = k then unat jt else unat jf) is) a"
  by (simp add: exec.simps(2) jump_def)

lemma exec_jset [simp]: "exec d (jump 0x45 k jt jf # is) a = exec d (drop (if a AND k \<noteq> 0 then unat jt else unat jf) is) a"
  by (simp add: exec.simps(2) jump_def)

section \<open>The data read\<close>

lemma be_bytes_split: "be_bytes (m + n) v = be_bytes m (v div 256 ^ n) @ be_bytes n v"
proof (induction m)
  case (Suc m)
  have "v div 256 ^ n div 256 ^ m = v div 256 ^ (m + n)" by (simp add: div_mult2_eq [symmetric] power_add mult.commute)
  with Suc show ?case by simp
qed simp

lemma halves: "rev (be_bytes 8 (unat (a :: u64))) = rev (to_be32 (low_half a)) @ rev (to_be32 (ucast (drop_bit 32 a)))"
proof -
  have "be_bytes 8 (unat a) = be_bytes 4 (unat a div 256 ^ 4) @ be_bytes 4 (unat a)"
    using be_bytes_split [of 4 4 "unat a"] by simp
  moreover have "be_bytes 4 (unat a) = to_be32 (low_half a)"
    using be_bytes_mod [of 4 "unat a"] by (simp add: low_half_def unsigned_ucast_eq take_bit_eq_mod)
  moreover have "be_bytes 4 (unat a div 256 ^ 4) = to_be32 (ucast (drop_bit 32 a))"
    using be_bytes_mod [of 4 "unat a div 256 ^ 4"] by (simp add: unsigned_ucast_eq take_bit_eq_mod unsigned_drop_bit_eq drop_bit_eq_div unat_div)
  ultimately show ?thesis by simp
qed

lemma read_word: "k = length pre \<Longrightarrow> get_range (pre @ rev (to_be32 w) @ post) k (k + 4) = Some (rev (to_be32 w))"
  by (rule get_range_append) simp_all

lemma loads:
  "exec (seccomp_data arch nr ip args) (statement 0x20 0 # is) a = exec (seccomp_data arch nr ip args) is nr"
  "exec (seccomp_data arch nr ip args) (statement 0x20 4 # is) a = exec (seccomp_data arch nr ip args) is arch"
  "exec (seccomp_data arch nr ip args) (statement 0x20 16 # is) a = exec (seccomp_data arch nr ip args) is (low_half (args 0))"
  "exec (seccomp_data arch nr ip args) (statement 0x20 20 # is) a = exec (seccomp_data arch nr ip args) is (ucast (drop_bit 32 (args 0)))"
  "exec (seccomp_data arch nr ip args) (statement 0x20 24 # is) a = exec (seccomp_data arch nr ip args) is (low_half (args 1))"
  "exec (seccomp_data arch nr ip args) (statement 0x20 32 # is) a = exec (seccomp_data arch nr ip args) is (low_half (args 2))"
proof -
  let ?d = "seccomp_data arch nr ip args" and ?w = "\<lambda>w :: u32. rev (to_be32 w)" and ?h = "\<lambda>i. ucast (drop_bit 32 (args i)) :: u32"
  let ?rest = "concat (map (\<lambda>i. rev (be_bytes 8 (unat (args i)))) [3, 4, 5])"
  have six: "[0..<6] = [0, 1, 2, 3, 4, 5 :: nat]" by (simp add: upt_rec)
  have d: "?d = ?w nr @ ?w arch @ rev (be_bytes 8 (unat ip)) @ ?w (low_half (args 0)) @ ?w (?h 0) @ ?w (low_half (args 1)) @ ?w (?h 1) @
      ?w (low_half (args 2)) @ ?w (?h 2) @ ?rest"
    by (simp only: seccomp_data_def six halves list.map concat.simps append_assoc append_Nil2 append_Nil)
  have load: "exec ?d (statement 0x20 k # is) a = exec ?d is w"
    if "?d = pre @ ?w w @ post" "unat k = length pre" for k w and pre post :: bytes
    using read_word [OF that(2), of w post] that(1) by (simp add: exec_load be_simps)
  show "exec ?d (statement 0x20 0 # is) a = exec ?d is nr" by (rule load [of "[]"]) (use d in simp_all)
  show "exec ?d (statement 0x20 4 # is) a = exec ?d is arch" by (rule load [of "?w nr"]) (use d in simp_all)
  show "exec ?d (statement 0x20 16 # is) a = exec ?d is (low_half (args 0))"
    by (rule load [of "?w nr @ ?w arch @ rev (be_bytes 8 (unat ip))"]) (use d in simp_all)
  show "exec ?d (statement 0x20 20 # is) a = exec ?d is (?h 0)"
    by (rule load [of "?w nr @ ?w arch @ rev (be_bytes 8 (unat ip)) @ ?w (low_half (args 0))"]) (use d in simp_all)
  show "exec ?d (statement 0x20 24 # is) a = exec ?d is (low_half (args 1))"
    by (rule load [of "?w nr @ ?w arch @ rev (be_bytes 8 (unat ip)) @ ?w (low_half (args 0)) @ ?w (?h 0)"]) (use d in simp_all)
  show "exec ?d (statement 0x20 32 # is) a = exec ?d is (low_half (args 2))"
    by (rule load [of "?w nr @ ?w arch @ rev (be_bytes 8 (unat ip)) @ ?w (low_half (args 0)) @ ?w (?h 0) @ ?w (low_half (args 1)) @ ?w (?h 1)"])
      (use d in simp_all)
qed

section \<open>Each part keeps its policy\<close>

definition guarded :: "u32 \<Rightarrow> sock_filter list \<Rightarrow> sock_filter list" where
  "guarded nr body = [jump 0x15 nr 0 (of_nat (length body))] @ body"

lemma guarded_run:
  "length body < 256 \<Longrightarrow> exec d (guarded nr body @ rest) a = (if a = nr then exec d (body @ rest) a else exec d rest a)"
  by (simp add: guarded_def unat_of_nat)

lemma options_run:
  "exec d (concat (map (\<lambda>option. [jump 0x15 option 0 1, statement 0x06 ALLOW_CALL]) options) @ rest) a =
     (if a \<in> set options then Some ALLOW_CALL else exec d rest a)"
  by (induction options) auto

lemma names_run:
  "exec d (concat (map (\<lambda>name. [jump 0x15 (sys name) 0 1, statement 0x06 ALLOW_CALL]) names) @ rest) a =
     (if a \<in> sys ` set names then Some ALLOW_CALL else exec d rest a)"
  by (induction names) auto

lemma socket_runs: "exec (seccomp_data arch nr ip args) (socket_policy @ rest) a = Some (if socket_ok args then ALLOW_CALL else DENY_CALL)"
  by (simp add: socket_policy_def loads socket_ok_def Let_def AF_INET_def AF_INET6_def SOCK_STREAM_def SOCK_DGRAM_def SOCKET_TCP_def
      SOCKET_UDP_def)

lemma clone_halves: "clone_ok args \<longleftrightarrow> (ucast (drop_bit 32 (args 0)) :: u32) = 0 \<and> low_half (args 0) AND NOT ORDINARY_FLAGS = 0"
proof -
  have split: "(\<forall>n < 64. P n) \<longleftrightarrow> (\<forall>n < 32. P (32 + n)) \<and> (\<forall>n < 32. P n)" for P :: "nat \<Rightarrow> bool"
  proof
    assume halves: "(\<forall>n < 32. P (32 + n)) \<and> (\<forall>n < 32. P n)"
    show "\<forall>n < 64. P n"
    proof (intro allI impI)
      fix n :: nat assume "n < 64"
      then show "P n" using halves by (cases "n < 32") (auto dest: spec [of _ "n - 32"])
    qed
  qed simp
  have word: "w = 0 \<longleftrightarrow> (\<forall>n < LENGTH('a). \<not> bit w n)" for w :: "'a::len word"
    by (auto simp: bit_eq_iff dest: bit_imp_le_length)
  have high: "\<not> bit ORDINARY_FLAGS (32 + n)" for n using bit_imp_le_length [of ORDINARY_FLAGS "32 + n"] by auto
  have "clone_ok args \<longleftrightarrow> (\<forall>n < 64. \<not> (bit (args 0) n \<and> \<not> bit (ucast ORDINARY_FLAGS :: u64) n))"
    unfolding clone_ok_def word by (auto simp: bit_simps)
  also have "\<dots> \<longleftrightarrow> (\<forall>n < 32. \<not> bit (args 0) (32 + n)) \<and> (\<forall>n < 32. \<not> (bit (args 0) n \<and> \<not> bit ORDINARY_FLAGS n))"
    unfolding split using high by (auto simp: bit_simps)
  also have "(\<forall>n < 32. \<not> bit (args 0) (32 + n)) \<longleftrightarrow> (ucast (drop_bit 32 (args 0)) :: u32) = 0"
    unfolding word by (auto simp: bit_simps)
  also have "(\<forall>n < 32. \<not> (bit (args 0) n \<and> \<not> bit ORDINARY_FLAGS n)) \<longleftrightarrow> low_half (args 0) AND NOT ORDINARY_FLAGS = 0"
    unfolding word low_half_def by (auto simp: bit_simps)
  finally show ?thesis .
qed

lemma clone_runs: "exec (seccomp_data arch nr ip args) (clone_policy @ rest) a = Some (if clone_ok args then ALLOW_CALL else DENY_CALL)"
  by (simp add: clone_policy_def loads clone_halves)

lemma argument_runs:
  "exec (seccomp_data arch nr ip args) (argument_options 0 options @ rest) a = Some (if low_half (args 0) \<in> set options then ALLOW_CALL else DENY_CALL)"
  "exec (seccomp_data arch nr ip args) (argument_options 1 options @ rest) a = Some (if low_half (args 1) \<in> set options then ALLOW_CALL else DENY_CALL)"
  by (simp_all add: argument_options_def loads options_run)

lemma program_runs:
  "\<exists>program. filter_program sys = Ret program \<and> length program = 508 \<and>
     exec (seccomp_data arch nr ip args) program 0 =
       Some (if arch \<noteq> NATIVE_ARCH \<or> nr AND X32_BIT \<noteq> 0 then KILL_CALL
         else if nr = sys ''socket'' then if socket_ok args then ALLOW_CALL else DENY_CALL
         else if nr = sys ''clone'' then if clone_ok args then ALLOW_CALL else DENY_CALL
         else if nr = sys ''prctl'' then if low_half (args 0) \<in> set prctl_options then ALLOW_CALL else DENY_CALL
         else if nr = sys ''ioctl'' then if low_half (args 1) \<in> set ioctl_options then ALLOW_CALL else DENY_CALL
         else if nr = sys ''arch_prctl'' then if low_half (args 0) \<in> set arch_prctl_options then ALLOW_CALL else DENY_CALL
         else if nr \<in> sys ` set ALLOWED_CALLS then ALLOW_CALL else ENOSYS_CALL)"
proof -
  let ?d = "seccomp_data arch nr ip args"
  let ?names = "concat (map (\<lambda>name. [jump 0x15 (sys name) 0 1, statement 0x06 ALLOW_CALL]) ALLOWED_CALLS)"
  let ?program = "filter_start @ guarded (sys ''socket'') socket_policy @ guarded (sys ''clone'') clone_policy @
      guarded (sys ''prctl'') (argument_options 0 prctl_options) @ guarded (sys ''ioctl'') (argument_options 1 ioctl_options) @
      guarded (sys ''arch_prctl'') (argument_options 0 arch_prctl_options) @ ?names @ [statement 0x06 ENOSYS_CALL]"
  have two: "length (concat (map (\<lambda>name. [f name, x]) names)) = 2 * length names" for f and x :: sock_filter and names :: "string list"
    by (induction names) auto
  have lengths: "length socket_policy = 19" "length clone_policy = 7" "length (argument_options 0 prctl_options) = 22"
    "length (argument_options 1 ioctl_options) = 6" "length (argument_options 0 arch_prctl_options) = 10" "length filter_start = 6"
    by (simp_all add: socket_policy_def clone_policy_def argument_options_def prctl_options_def ioctl_options_def arch_prctl_options_def
        filter_start_def)
  have calls: "length ALLOWED_CALLS = 216" by (simp add: ALLOWED_CALLS_def)
  have "filter_program sys = Ret ?program"
    by (simp add: filter_program_def conditional_def lengths guarded_def)
  moreover have "length ?program = 508" by (simp add: lengths two calls guarded_def)
  moreover have start: "exec ?d (filter_start @ rest) a = (if arch \<noteq> NATIVE_ARCH \<or> nr AND X32_BIT \<noteq> 0 then Some KILL_CALL else exec ?d rest nr)"
    for rest a
    by (simp add: filter_start_def loads)
  have short: "length socket_policy < 256" "length clone_policy < 256" "length (argument_options 0 prctl_options) < 256"
    "length (argument_options 1 ioctl_options) < 256" "length (argument_options 0 arch_prctl_options) < 256"
    by (simp_all add: lengths)
  have "exec ?d ?program 0 =
       Some (if arch \<noteq> NATIVE_ARCH \<or> nr AND X32_BIT \<noteq> 0 then KILL_CALL
         else if nr = sys ''socket'' then if socket_ok args then ALLOW_CALL else DENY_CALL
         else if nr = sys ''clone'' then if clone_ok args then ALLOW_CALL else DENY_CALL
         else if nr = sys ''prctl'' then if low_half (args 0) \<in> set prctl_options then ALLOW_CALL else DENY_CALL
         else if nr = sys ''ioctl'' then if low_half (args 1) \<in> set ioctl_options then ALLOW_CALL else DENY_CALL
         else if nr = sys ''arch_prctl'' then if low_half (args 0) \<in> set arch_prctl_options then ALLOW_CALL else DENY_CALL
         else if nr \<in> sys ` set ALLOWED_CALLS then ALLOW_CALL else ENOSYS_CALL)"
    unfolding start guarded_run [OF short(1)] guarded_run [OF short(2)] guarded_run [OF short(3)] guarded_run [OF short(4)]
      guarded_run [OF short(5)] socket_runs clone_runs argument_runs names_run
    by simp
  ultimately show ?thesis by blast
qed

section \<open>The file carries the program\<close>

lemma decode_one: "decode_filter (filter_bytes i @ rest) = i # decode_filter rest"
proof -
  obtain c0 c1 where c: "be_bytes 2 (unat (sf_code i)) = [c1, c0]" by (auto simp: be_bytes_numeral)
  obtain k0 k1 k2 k3 where k: "to_be32 (sf_k i) = [k3, k2, k1, k0]" by (auto simp: be_bytes_numeral)
  have "from_be [c1, c0] = sf_code i" "from_be [k3, k2, k1, k0] = sf_k i"
    using from_be_to_be16 [of "sf_code i"] from_be_to_be32 [of "sf_k i"] unfolding c k by simp_all
  then show ?thesis by (simp add: filter_bytes_def c k)
qed

lemma decode_all: "decode_filter (concat (map filter_bytes program)) = program"
  by (induction program) (simp_all add: decode_one)

lemma file_runs:
  "\<exists>file. sealed_filter sys = Ret (Some file) \<and> (\<forall>arch nr. interpret_filter (decode_filter file) (seccomp_data arch nr ip args) =
       Ret (if arch \<noteq> NATIVE_ARCH \<or> nr AND X32_BIT \<noteq> 0 then KILL_CALL
         else if nr = sys ''socket'' then if socket_ok args then ALLOW_CALL else DENY_CALL
         else if nr = sys ''clone'' then if clone_ok args then ALLOW_CALL else DENY_CALL
         else if nr = sys ''prctl'' then if low_half (args 0) \<in> set prctl_options then ALLOW_CALL else DENY_CALL
         else if nr = sys ''ioctl'' then if low_half (args 1) \<in> set ioctl_options then ALLOW_CALL else DENY_CALL
         else if nr = sys ''arch_prctl'' then if low_half (args 0) \<in> set arch_prctl_options then ALLOW_CALL else DENY_CALL
         else if nr \<in> sys ` set ALLOWED_CALLS then ALLOW_CALL else ENOSYS_CALL))" (is "\<exists>file. _ \<and> (\<forall>arch nr. _ = Ret (?verdict arch nr))")
proof -
  obtain program where program: "filter_program sys = Ret program" "length program = 508"
    using program_runs [of sys] by blast
  have "exec (seccomp_data arch nr ip args) program 0 = Some (?verdict arch nr)" for arch nr
    using program_runs [of sys arch nr ip args] program by auto
  then have "interpret_filter program (seccomp_data arch nr ip args) = Ret (?verdict arch nr)" for arch nr
    unfolding interpret_filter_def by (intro interpret_exec) (use program(2) in simp_all)
  then show ?thesis using program by (simp add: sealed_filter_def decode_all)
qed

text \<open>C8: the filter is the policy, call by call.  The sealed file decodes to a program that, run on any
  call, ends with a verdict: a call of a foreign architecture or of the x32 interface kills; a call whose
  number is its own (numbers of the listed calls and of this one differ) is treated as its name says:
  sockets are internet stream or datagram sockets with the matching protocol, threads and forks
  take no new namespace, control calls only the listed options, the listed calls pass, and every
  other call does not exist.\<close>

theorem confined_calls_keep_the_policy:
  assumes "inj_on sys (insert name (set (CONDITIONAL_CALLS @ ALLOWED_CALLS)))" "sys name AND X32_BIT = 0"
  shows "\<exists>file. sealed_filter sys = Ret (Some file) \<and>
    interpret_filter (decode_filter file) (seccomp_data NATIVE_ARCH (sys name) ip args) = Ret (call_policy name args) \<and>
    (\<forall>arch nr. (arch \<noteq> NATIVE_ARCH \<or> nr AND X32_BIT \<noteq> 0) = (interpret_filter (decode_filter file) (seccomp_data arch nr ip args) = Ret KILL_CALL))"
proof -
  have own: "sys name = sys call \<longleftrightarrow> name = call" if "call \<in> set (CONDITIONAL_CALLS @ ALLOWED_CALLS)" for call
    using assms(1) that by (auto dest: inj_onD)
  have listed: "sys name \<in> sys ` set ALLOWED_CALLS \<longleftrightarrow> name \<in> set ALLOWED_CALLS" using own by auto
  have conditional: "sys name = sys ''socket'' \<longleftrightarrow> name = ''socket''" "sys name = sys ''clone'' \<longleftrightarrow> name = ''clone''"
    "sys name = sys ''prctl'' \<longleftrightarrow> name = ''prctl''" "sys name = sys ''ioctl'' \<longleftrightarrow> name = ''ioctl''"
    "sys name = sys ''arch_prctl'' \<longleftrightarrow> name = ''arch_prctl''"
    by (rule own; simp add: CONDITIONAL_CALLS_def)+
  have codes: "ALLOW_CALL \<noteq> KILL_CALL" "DENY_CALL \<noteq> KILL_CALL" "ENOSYS_CALL \<noteq> KILL_CALL"
    by (simp_all add: ALLOW_CALL_def DENY_CALL_def KILL_CALL_def ENOSYS_CALL_def)
  obtain f where sealed: "sealed_filter sys = Ret (Some f)"
    and runs: "\<And>arch nr. interpret_filter (decode_filter f) (seccomp_data arch nr ip args) =
       Ret (if arch \<noteq> NATIVE_ARCH \<or> nr AND X32_BIT \<noteq> 0 then KILL_CALL
         else if nr = sys ''socket'' then if socket_ok args then ALLOW_CALL else DENY_CALL
         else if nr = sys ''clone'' then if clone_ok args then ALLOW_CALL else DENY_CALL
         else if nr = sys ''prctl'' then if low_half (args 0) \<in> set prctl_options then ALLOW_CALL else DENY_CALL
         else if nr = sys ''ioctl'' then if low_half (args 1) \<in> set ioctl_options then ALLOW_CALL else DENY_CALL
         else if nr = sys ''arch_prctl'' then if low_half (args 0) \<in> set arch_prctl_options then ALLOW_CALL else DENY_CALL
         else if nr \<in> sys ` set ALLOWED_CALLS then ALLOW_CALL else ENOSYS_CALL)"
    using file_runs [of sys ip args] by blast
  have "interpret_filter (decode_filter f) (seccomp_data NATIVE_ARCH (sys name) ip args) = Ret (call_policy name args)"
    unfolding runs conditional listed call_policy_def using assms(2) by simp
  moreover have "(arch \<noteq> NATIVE_ARCH \<or> nr AND X32_BIT \<noteq> 0) = (interpret_filter (decode_filter f) (seccomp_data arch nr ip args) = Ret KILL_CALL)" for arch nr
    unfolding runs using codes by simp
  ultimately show ?thesis using sealed by blast
qed

section \<open>The numbers of Linux\<close>

definition linux_table :: "nat list" where
  "linux_table =
     [41, 56, 157, 16, 158, 0, 1, 19, 20, 17, 18, 295, 296, 327, 328, 8, 2, 257, 437, 3, 436, 32, 33, 292, 72, 4, 6,
      5, 262, 332, 137, 138, 78, 217, 21, 269, 439, 89, 267, 80, 81, 79, 83, 258, 84, 87, 263, 82, 264, 316, 86, 265,
      88, 266, 90, 91, 268, 452, 92, 93, 94, 260, 95, 76, 77, 285, 221, 74, 75, 132, 235, 261, 280, 191, 192, 193,
      194, 195, 196, 188, 189, 190, 197, 198, 199, 319, 40, 275, 276, 278, 9, 10, 11, 12, 25, 26, 27, 28, 329, 330,
      331, 149, 150, 151, 152, 325, 202, 449, 334, 218, 273, 274, 57, 58, 59, 322, 60, 231, 61, 247, 39, 110, 186,
      102, 107, 104, 108, 118, 120, 115, 125, 111, 121, 109, 124, 112, 13, 14, 15, 127, 128, 129, 130, 297, 131, 62,
      200, 234, 228, 229, 96, 201, 35, 230, 37, 36, 38, 222, 223, 224, 225, 226, 283, 286, 287, 97, 160, 302, 98, 100,
      140, 141, 24, 204, 203, 143, 142, 145, 144, 146, 147, 148, 63, 99, 318, 22, 293, 284, 290, 282, 289, 7, 271, 23,
      270, 213, 291, 233, 232, 281, 441, 253, 294, 254, 255, 42, 49, 50, 43, 288, 51, 52, 48, 44, 45, 46, 47, 307,
      299, 55, 54, 101, 425]"

definition linux_names :: "string list" where
  "linux_names = CONDITIONAL_CALLS @ ALLOWED_CALLS @ [''ptrace'', ''io_uring_setup'']"

definition linux_call :: "string \<Rightarrow> u32" where
  "linux_call name = (case map_of (zip linux_names linux_table) name of Some nr \<Rightarrow> word_of_nat nr | None \<Rightarrow> 0x3fffffff)"

lemma linux_table_distinct: "distinct linux_table"
  by (simp add: linux_table_def)

lemma linux_table_small: "\<forall>n \<in> set linux_table. n < 512"
  by (simp add: linux_table_def)

lemma linux_lengths: "length linux_names = length linux_table"
  by (simp add: linux_names_def linux_table_def CONDITIONAL_CALLS_def ALLOWED_CALLS_def)

lemma linux_inj: "names \<subseteq> set linux_names \<Longrightarrow> inj_on linux_call names"
proof (rule inj_onI)
  fix x y assume names: "names \<subseteq> set linux_names" and xy: "x \<in> names" "y \<in> names" "linux_call x = linux_call y"
  have found: "\<exists>i < length linux_table. map_of (zip linux_names linux_table) z = Some (linux_table ! i) \<and> z = linux_names ! i"
    if member: "z \<in> set linux_names" for z
  proof -
    obtain n where n: "map_of (zip linux_names linux_table) z = Some n"
      using map_of_zip_is_Some [OF linux_lengths, of z] member by metis
    from map_of_SomeD [OF n] obtain i where "i < length linux_table" "z = linux_names ! i" "n = linux_table ! i"
      by (auto simp: in_set_zip)
    with n show ?thesis by blast
  qed
  obtain i where i: "i < length linux_table" "map_of (zip linux_names linux_table) x = Some (linux_table ! i)" "x = linux_names ! i"
    using found names xy(1) by blast
  obtain j where j: "j < length linux_table" "map_of (zip linux_names linux_table) y = Some (linux_table ! j)" "y = linux_names ! j"
    using found names xy(2) by blast
  have "(word_of_nat (linux_table ! i) :: u32) = word_of_nat (linux_table ! j)" using xy(3) i(2) j(2) by (simp add: linux_call_def)
  moreover have "linux_table ! i < 512" "linux_table ! j < 512" using linux_table_small i(1) j(1) by auto
  ultimately have "linux_table ! i = linux_table ! j" by (simp add: of_nat_inverse word_of_nat_eq_iff take_bit_nat_eq_self)
  then have "i = j" using linux_table_distinct i(1) j(1) by (simp add: nth_eq_iff_index_eq)
  then show "x = y" using i(3) j(3) by simp
qed

lemma linux_native: "name \<in> set linux_names \<Longrightarrow> linux_call name AND X32_BIT = 0"
proof -
  assume "name \<in> set linux_names"
  then obtain n where n: "map_of (zip linux_names linux_table) name = Some n" using map_of_zip_is_Some [OF linux_lengths, of name] by metis
  then have "n < 512" using linux_table_small by (auto dest!: map_of_SomeD simp: in_set_zip)
  then have "\<not> bit n 30" by (simp add: bit_iff_odd)
  moreover have "w AND X32_BIT = 0 \<longleftrightarrow> \<not> bit w 30" for w :: u32
  proof -
    have power: "X32_BIT = 2 ^ 30" by (simp add: X32_BIT_def)
    have "bit X32_BIT n \<longleftrightarrow> n = 30" for n unfolding power bit_exp_iff by auto
    then show ?thesis using bit_eq_iff [of "w AND X32_BIT" 0] by (auto simp: bit_and_iff dest: spec [of _ 30])
  qed
  ultimately show ?thesis using n by (simp add: linux_call_def bit_simps)
qed

text \<open>With the numbers of Linux on x86_64: tracing does not exist, a TCP socket is made, a netlink socket refused.\<close>

theorem confined_calls_keep_the_policy_witness:
  "\<exists>file. sealed_filter linux_call = Ret (Some file) \<and>
    interpret_filter (decode_filter file) (seccomp_data NATIVE_ARCH (linux_call ''ptrace'') 0 (\<lambda>_. 0)) = Ret ENOSYS_CALL \<and>
    interpret_filter (decode_filter file) (seccomp_data NATIVE_ARCH (linux_call ''socket'') 0 ((\<lambda>_. 0)(0 := 2, 1 := 0x80001, 2 := 6))) = Ret ALLOW_CALL \<and>
    interpret_filter (decode_filter file) (seccomp_data NATIVE_ARCH (linux_call ''socket'') 0 ((\<lambda>_. 0)(0 := 16, 1 := 3))) = Ret DENY_CALL"
proof -
  have names: "''ptrace'' \<in> set linux_names" "''socket'' \<in> set linux_names" "set (CONDITIONAL_CALLS @ ALLOWED_CALLS) \<subseteq> set linux_names"
    by (auto simp: linux_names_def CONDITIONAL_CALLS_def)
  have "interpret_filter (decode_filter (the (case sealed_filter linux_call of Ret f \<Rightarrow> f | Panic \<Rightarrow> None)))
      (seccomp_data NATIVE_ARCH (linux_call name) 0 args) = Ret (call_policy name args) \<and> (\<exists>f. sealed_filter linux_call = Ret (Some f))"
    if "name \<in> set linux_names" for name args
  proof -
    have "inj_on linux_call (insert name (set (CONDITIONAL_CALLS @ ALLOWED_CALLS)))"
      using names(3) that by (intro linux_inj) auto
    from confined_calls_keep_the_policy [OF this linux_native [OF that], of 0 args] show ?thesis by auto
  qed
  note known_by = this
  have "''ptrace'' \<notin> set ALLOWED_CALLS" by (simp add: ALLOWED_CALLS_def)
  then have "call_policy ''ptrace'' args = ENOSYS_CALL" for args by (simp add: call_policy_def)
  moreover have "call_policy ''socket'' ((\<lambda>_. 0)(0 := 2, 1 := 0x80001, 2 := 6)) = ALLOW_CALL"
    "call_policy ''socket'' ((\<lambda>_. 0)(0 := 16, 1 := 3)) = DENY_CALL"
    by (simp_all add: call_policy_def socket_ok_def low_half_def AF_INET_def AF_INET6_def SOCK_STREAM_def SOCK_FLAGS_def SOCKET_TCP_def Let_def)
  moreover obtain f where "sealed_filter linux_call = Ret (Some f)" using known_by [OF names(1)] by blast
  ultimately show ?thesis using known_by [OF names(1), of "\<lambda>_. 0"] known_by [OF names(2)] by simp
qed

end
