(* ===== verification/Spec2Isabelle.thy ===== *)
theory Spec2Isabelle
  imports Prelude Texts HashMaps StateRules CoreTypes RuleScope RuleLookup Packet Checksum Refusal Policy Engine Prompts Stats Worker WorkerLaws
    Convert ExePath Storage Authority Control ControlRuns Pause Service EventLog DnsWire DnsCache SockDiag
    ProcTable SocketTables TtlCache Machine Attribution Identity Official KernelDns KernelConnect Enforce Pins EbpfEvents
    Btf Probe Loader Startup Seccomp
begin

text \<open>
  Colony Firewall Control is an outbound firewall for Linux.  The kernel queues new
  connections to a root daemon (\<open>crates/cfc-daemon\<close>), which parses each packet, finds the
  process behind it, decides it by the rules, and asks a desktop client over gRPC when no rule
  answers.  Rules live in the engine and in an SQLite table; every refusal is recorded.

  This development models the daemon's decision path and its control plane.  Each theory
  models one part and opens with a note of its own.

  \<^bold>\<open>From packet to verdict.\<close>
  \<^item> \<open>Prelude\<close>: shared lemmas and lemma collections; results as sums, runs with panics, bytes.
  \<^item> \<open>CoreTypes\<close>: the types of \<open>cfc-core\<close> (\<open>connection.rs\<close>, \<open>process.rs\<close>, \<open>verdict.rs\<close>, \<open>rule.rs\<close>).
  \<^item> \<open>RuleScope\<close>, \<open>RuleLookup\<close>: \<open>rule.rs\<close>.  Matching is three-valued, because the identity of a
    process may be incomplete; the lemmas relate a lookup over unknowns to every completion of
    them, and the single-pass walk to the documented first-match contract.
  \<^item> \<open>Packet\<close>: \<open>packet.rs\<close>, with every slice access checked; \<open>Checksum\<close> and \<open>Refusal\<close>: \<open>reject.rs\<close>,
    the TCP resets and ICMP errors the daemon forges and the receiver's checks on them.
  \<^item> \<open>Policy\<close>: \<open>config.rs\<close>; \<open>Engine\<close>: \<open>decision.rs\<close>; \<open>Stats\<close>: \<open>stats.rs\<close>; \<open>Prompts\<close>: \<open>prompts.rs\<close>,
    the router as an interleaved state machine.
  \<^item> \<open>Worker\<close>, \<open>WorkerLaws\<close>: \<open>nfqueue/mod.rs\<close>.  A run of the receive loop is a list of beats; the
    laws count kernel verdicts per packet and read the rules behind each of them.

  \<^bold>\<open>The control plane.\<close>
  \<^item> \<open>Convert\<close>: \<open>convert.rs\<close>, both directions of the wire format.  Text forms that third-party
    crates define (networks, addresses, uuids, instants) are the record \<open>codec\<close>; the
    hypothesis \<open>codec_ok\<close> says that printing then parsing gives the value back.
  \<^item> \<open>ExePath\<close>: \<open>exe_path.rs\<close> over a record of what the file system answers.
  \<^item> \<open>Storage\<close>: \<open>storage.rs\<close>.  A table is an association list; a statement takes a flag saying
    whether the database served it, and a failed transaction changes nothing.  The stored JSON
    is a type variable with a \<open>serde\<close> record, \<open>serde_ok\<close> being its round trip.
  \<^item> \<open>Authority\<close>, \<open>Control\<close>, \<open>Service\<close>: \<open>ipc/mod.rs\<close>.  Peer and group checks, the socket, the
    polkit actions; then each call as a preparation, which may be refused, and a commit under
    the mutation lock; then the dispatch over all calls, prompt ownership and event pages.
  \<^item> \<open>ControlRuns\<close>: the calls as a step relation of the whole daemon, with flushes
    (\<open>maintenance.rs\<close>), packet evaluations and failing writes between prepare and commit, and
    the start of \<open>main.rs\<close>.  The relation \<open>mirrors\<close> between engine and table is the invariant
    behind the restart theorem.
  \<^item> \<open>Pause\<close>: \<open>SetPaused\<close> and its timers as tasks, once with \<open>Stats::set_paused\<close> in one step and
    once with its two atomics apart.
  \<^item> \<open>EventLog\<close>: the bounded queue and the batching writer of the audit log.

  \<^bold>\<open>Host names.\<close>
  \<^item> \<open>DnsWire\<close>: the parser of \<open>cfc-ebpf-proto/src/dns.rs\<close> over a bounds-checked cursor, and responses
    as they are written.  A name has at most 32 labels and 4 jumps, a message at most 8 answers.
  \<^item> \<open>KernelDns\<close>: the ingress program that captures responses of at most 512 bytes, down to what the
    daemon reads back from the record.
  \<^item> \<open>DnsCache\<close>: \<open>dns.rs\<close>, both caches of 4096 entries and the reverse lookups, at most eight at a
    time, as steps.

  \<^bold>\<open>The process behind a packet.\<close>
  \<^item> \<open>Texts\<close>, \<open>HashMaps\<close>, \<open>StateRules\<close>: number and white space parsing, hash maps with an iteration
    order, weakest preconditions of the state monad.
  \<^item> \<open>Machine\<close>: what a read sees.  A machine gives the view of every instant; each read is one
    instant and nothing is assumed of how views change, so a theorem speaks of what was seen when.
  \<^item> \<open>SockDiag\<close>: \<open>sock_diag.rs\<close>, one netlink socket reused over losses and late answers.  \<open>ProcTable\<close>:
    \<open>ebpf/proc_table.rs\<close>, at most 10240 records.  \<open>SocketTables\<close> and \<open>TtlCache\<close>: the \<open>/proc/net\<close> tables and
    the caches of 1024 entries of \<open>process_resolve.rs\<close>.
  \<^item> \<open>Attribution\<close>: from a flow to the process holding its socket, within 50 ms; \<open>Identity\<close>: from that
    process to the image it maps, digests up to 64 MiB; \<open>Official\<close>: \<open>official.rs\<close>, the image, mappings and
    ancestry of a caller that says it is the app.

  \<^bold>\<open>Enforcement in the kernel.\<close>
  \<^item> \<open>KernelConnect\<close>: the exec, exit and connect programs of \<open>crates/cfc-ebpf\<close>.  The maps are a record, a
    program run is one step on it, and what helpers and memory reads answer is the context of the
    run.  At most 10240 verdicts, 4096 program rules, paths of 256 bytes.
  \<^item> \<open>Enforce\<close>: \<open>ebpf/enforce.rs\<close>, the rule table and the verdicts the daemon writes.  A resync is a
    sequence of critical sections, with whatever others write between them as an argument.
  \<^item> \<open>Pins\<close>: the pin directory and attaching the two connect programs; \<open>EbpfEvents\<close>: the ring
    consumers of \<open>ebpf/loader.rs\<close> and the recheck of at most 1024 pending exits.
  \<^item> \<open>Btf\<close>: \<open>ebpf/btf.rs\<close>; \<open>Probe\<close>: \<open>ebpf/tracefs.rs\<close> and \<open>ebpf/cgroup.rs\<close>, with what is patched into the programs.
  \<^item> \<open>Loader\<close>, \<open>Startup\<close>: \<open>load_and_attach\<close> of \<open>ebpf/loader.rs\<close> and \<open>start\<close> of \<open>ebpf/mod.rs\<close>, over a record of
    what the kernel, the file system and the loading library answer; then what a start
    establishes for the inherited verdicts and for the report.

  \<^bold>\<open>Interfaces.\<close>  \<open>keyed_store\<close> (\<open>Prelude\<close>) is what a table with unique keys promises; the rule
  set of \<open>Engine\<close> and the rule table of \<open>Storage\<close> are instances, which is what lets \<open>Control\<close>
  relate the two.  \<open>output_law\<close> (\<open>WorkerLaws\<close>) is a law each output of the packet loop keeps;
  the audit law is its instance.

  \<^bold>\<open>Conventions.\<close>  Machine integers keep their width as words; counters wrap as \<open>fetch_add\<close> does
  and saturate where the code saturates.  Errors are sums with a datatype of reasons, message
  texts left out.  A clock, a fresh uuid, the answer of the kernel, of procfs, of polkit or of
  the database is an argument, so a theorem holds for every behaviour of theirs.  Strings are
  lists of bytes.  The bounds are the code's constants (8 extension headers, 512 parked prompts
  of 4 packets, 100 receive errors, 4096 queued audit rows in batches of 256, 4096 remembered
  prompts); no definition needs fuel, the loops end by measures or run over a list of inputs.

  \<^bold>\<open>Not modelled.\<close>  Package provenance (an argument of the identity), the child process that
  flushes the legacy nftables set, the polkit call over D-Bus, systemd notifications and the
  socket layer of \<open>reject.rs\<close>, whose f64 token bucket is an argument of its caller.  The gRPC
  transport and the TOML, JSON, SQLite and BPF libraries are third-party.  The front ends (\<open>cfc\<close>,
  \<open>cfc-ui\<close>, \<open>cfc-tray\<close>, \<open>cfc-client\<close>) hold no authority the daemon does not check.
\<close>

end
